(* ===== verification/Prelude.thy ===== *)
theory Prelude
  imports Main "HOL-Library.Word"
begin

text \<open>
  Shared vocabulary of the development: machine integers at their width, the outcome
  type that carries the faults of a C++ operation (a failed \<open>ASSERTF\<close>, an access
  outside an object, a thrown exception), the debug switch of
  \<open>ceres/src/core/debug.hpp\<close>, and the generic lemmas on words, lists and
  outcomes that the component theories use through \<open>[simp]\<close> and the named
  collections below.
\<close>

unbundle bit_operations_syntax

section \<open>Machine integers\<close>

type_synonym u8 = "8 word"
type_synonym u16 = "16 word"
type_synonym u32 = "32 word"
type_synonym u64 = "64 word"

named_theorems outcome_simps \<open>evaluation of checked operations\<close>
named_theorems bytes_simps \<open>splitting and joining of bytes\<close>

section \<open>Outcomes of C++ operations\<close>

text \<open>
  \<open>Assertion_failed\<close>: a debug assertion that does not hold. \<open>Out_of_bounds\<close>: an access
  outside the object it is based on. \<open>Undefined\<close>: any other undefined behaviour (an
  intrinsic outside its domain, an indeterminate value). \<open>Out_of_range_thrown\<close>: the
  exception of the checked accessors of the standard library. \<open>Terminated\<close>: the end
  of the program by \<open>std::terminate\<close>. \<open>Diverges\<close>: the
  operation does not return.
\<close>

datatype cpp_fault =
    Assertion_failed
  | Out_of_bounds
  | Undefined
  | Out_of_range_thrown
  | Terminated
  | Diverges

type_synonym 'a outcome = "cpp_fault + 'a"

definition and_then :: "'a outcome \<Rightarrow> ('a \<Rightarrow> 'b outcome) \<Rightarrow> 'b outcome" where
  "and_then m f = (case m of Inl e \<Rightarrow> Inl e | Inr a \<Rightarrow> f a)"

lemma and_then_simps [simp, outcome_simps]:
  "and_then (Inl e) f = Inl e"
  "and_then (Inr a) f = f a"
  by (simp_all add: and_then_def)

lemma and_then_eq_Inr_iff:
  "and_then m f = Inr b \<longleftrightarrow> (\<exists>a. m = Inr a \<and> f a = Inr b)"
  by (cases m) simp_all

lemma and_then_eq_Inl_iff:
  "and_then m f = Inl e \<longleftrightarrow> m = Inl e \<or> (\<exists>a. m = Inr a \<and> f a = Inl e)"
  by (cases m) simp_all

text \<open>
  \<open>ASSERTF\<close> aborts in a debug build and is \<open>((void) 0)\<close> in a release build, so the
  build is an argument of every operation that asserts.
\<close>

definition assertf :: "bool \<Rightarrow> bool \<Rightarrow> unit outcome" where
  "assertf debug cond = (if debug \<and> \<not> cond then Inl Assertion_failed else Inr ())"

lemma assertf_simps [simp, outcome_simps]:
  "assertf False c = Inr ()"
  "assertf d True = Inr ()"
  "assertf True False = Inl Assertion_failed"
  by (simp_all add: assertf_def)

lemma assertf_eq_Inr_iff [simp]: "assertf d c = Inr u \<longleftrightarrow> (d \<longrightarrow> c)"
  by (simp add: assertf_def)

lemma assertf_holds: "c \<Longrightarrow> assertf d c = Inr ()"
  by simp

text \<open>An access through a pointer or an index that may leave its object.\<close>

definition checked_nth :: "'a list \<Rightarrow> nat \<Rightarrow> 'a outcome" where
  "checked_nth xs i = (if i < length xs then Inr (xs ! i) else Inl Out_of_bounds)"

definition checked_update :: "'a list \<Rightarrow> nat \<Rightarrow> 'a \<Rightarrow> 'a list outcome" where
  "checked_update xs i x = (if i < length xs then Inr (xs[i := x]) else Inl Out_of_bounds)"

lemma checked_nth_simps [simp, outcome_simps]:
  "i < length xs \<Longrightarrow> checked_nth xs i = Inr (xs ! i)"
  "length xs \<le> i \<Longrightarrow> checked_nth xs i = Inl Out_of_bounds"
  by (simp_all add: checked_nth_def)

lemma checked_update_simps [simp, outcome_simps]:
  "i < length xs \<Longrightarrow> checked_update xs i x = Inr (xs[i := x])"
  "length xs \<le> i \<Longrightarrow> checked_update xs i x = Inl Out_of_bounds"
  by (simp_all add: checked_update_def)

section \<open>Bytes of a word\<close>

text \<open>
  The object representation of an unsigned integer on a little-endian host (the host
  that \<open>data/endian.hpp\<close> fixes with \<open>is_big = false\<close>): byte \<open>i\<close> holds the bits
  \<open>8 * i\<close> to \<open>8 * i + 7\<close>.
\<close>

definition le_bytes :: "nat \<Rightarrow> 'a::len word \<Rightarrow> u8 list" where
  "le_bytes n w = map (\<lambda>i. ucast (drop_bit (8 * i) w)) [0..<n]"

fun of_le_bytes :: "u8 list \<Rightarrow> 'a::len word" where
  "of_le_bytes [] = 0"
| "of_le_bytes (b # bs) = ucast b OR push_bit 8 (of_le_bytes bs)"

lemma length_le_bytes [simp, bytes_simps]: "length (le_bytes n w) = n"
  by (simp add: le_bytes_def)

lemma nth_le_bytes [bytes_simps]:
  "i < n \<Longrightarrow> le_bytes n w ! i = ucast (drop_bit (8 * i) w)"
  by (simp add: le_bytes_def)

lemma le_bytes_Suc:
  "le_bytes (Suc n) w = ucast w # le_bytes n (drop_bit 8 w)"
proof (rule nth_equalityI)
  show "length (le_bytes (Suc n) w) = length (ucast w # le_bytes n (drop_bit 8 w))" by simp
next
  fix i assume "i < length (le_bytes (Suc n) w)"
  then show "le_bytes (Suc n) w ! i = (ucast w # le_bytes n (drop_bit 8 w)) ! i"
    by (cases i) (auto simp: nth_le_bytes ac_simps)
qed

lemma bit_of_le_bytes:
  fixes bs :: "u8 list"
  shows "bit (of_le_bytes bs :: 'a::len word) k \<longleftrightarrow>
    k < LENGTH('a) \<and> k div 8 < length bs \<and> bit (bs ! (k div 8)) (k mod 8)"
proof (induction bs arbitrary: k)
  case Nil
  then show ?case by simp
next
  case (Cons b bs)
  show ?case
  proof (cases "k < 8")
    case True
    then show ?thesis by (auto simp: bit_simps)
  next
    case False
    define j where "j = k - 8"
    have k: "k = j + 8" using False by (simp add: j_def)
    have high: "\<not> bit (ucast b :: 'a word) k"
      using False by (auto simp: bit_simps dest: bit_imp_le_length)
    have "bit (of_le_bytes (b # bs) :: 'a word) k \<longleftrightarrow>
        k < LENGTH('a) \<and> bit (of_le_bytes bs :: 'a word) j"
      using high k by (auto simp: bit_simps)
    also have "\<dots> \<longleftrightarrow> k < LENGTH('a) \<and> j div 8 < length bs \<and> bit (bs ! (j div 8)) (j mod 8)"
      using Cons.IH[of j] k by auto
    finally show ?thesis using k by (simp add: div_add_self2)
  qed
qed

lemma of_le_bytes_le_bytes [bytes_simps]:
  fixes w :: "'a::len word"
  assumes "LENGTH('a) \<le> 8 * n"
  shows "of_le_bytes (le_bytes n w) = w"
proof (rule bit_word_eqI)
  fix k assume k: "k < LENGTH('a)"
  with assms have kn: "k div 8 < n" by auto
  have "bit (le_bytes n w ! (k div 8)) (k mod 8) \<longleftrightarrow> bit w (8 * (k div 8) + k mod 8)"
    using kn by (simp add: nth_le_bytes bit_simps)
  then show "bit (of_le_bytes (le_bytes n w) :: 'a word) k = bit w k"
    using k kn by (simp add: bit_of_le_bytes)
qed

lemma le_bytes_of_le_bytes [bytes_simps]:
  assumes "8 * length bs \<le> LENGTH('a::len)"
  shows "le_bytes (length bs) (of_le_bytes bs :: 'a word) = bs"
proof (rule nth_equalityI)
  show "length (le_bytes (length bs) (of_le_bytes bs :: 'a word)) = length bs" by simp
next
  fix i assume "i < length (le_bytes (length bs) (of_le_bytes bs :: 'a word))"
  then have i: "i < length bs" by simp
  show "le_bytes (length bs) (of_le_bytes bs :: 'a word) ! i = bs ! i"
  proof (rule bit_word_eqI)
    fix k :: nat assume k: "k < LENGTH(8)"
    then have "8 * i + k < LENGTH('a)" using i assms by simp
    then show "bit (le_bytes (length bs) (of_le_bytes bs :: 'a word) ! i) k = bit (bs ! i) k"
      using i k by (simp add: nth_le_bytes bit_simps bit_of_le_bytes)
  qed
qed

section \<open>Words\<close>

lemma unat_of_nat_small: "n < 2 ^ LENGTH('a) \<Longrightarrow> unat (of_nat n :: 'a::len word) = n"
  by (simp add: unsigned_of_nat take_bit_nat_eq_self)

lemma word_and_mask_unat:
  fixes x :: "'a::len word"
  shows "unat (x AND mask n) = unat x mod 2 ^ n"
  by (simp only: take_bit_eq_mask [symmetric] unsigned_take_bit_eq) (simp only: take_bit_eq_mod)

lemma bit_imp_unat_ge:
  fixes x :: "'a::len word"
  assumes "bit x k"
  shows "2 ^ k \<le> unat x"
proof -
  have "bit (unat x) k" using assms by (simp add: bit_unsigned_iff)
  then have "odd (unat x div 2 ^ k)" by (rule bit_iff_odd [THEN iffD1])
  then have "unat x div 2 ^ k \<noteq> 0" by (metis even_zero)
  then show ?thesis by (metis div_less not_less)
qed

lemma no_high_bits_imp_unat_less:
  fixes x :: "'a::len word"
  assumes "\<And>k. n \<le> k \<Longrightarrow> \<not> bit x k"
  shows "unat x < 2 ^ n"
proof -
  have "take_bit n (unat x) = unat x"
    by (rule bit_eqI) (use assms in \<open>auto simp: bit_take_bit_iff bit_unsigned_iff not_less intro: leI\<close>)
  then show ?thesis by (simp add: take_bit_nat_eq_self_iff)
qed

lemma unat_ucast_up:
  fixes w :: "'a::len word"
  assumes "LENGTH('a) \<le> LENGTH('b::len)"
  shows "unat (ucast w :: 'b word) = unat w"
proof -
  have "unat w < 2 ^ LENGTH('b)"
    using unsigned_less[of w, where ?'a = nat] assms
    by (meson less_le_trans one_le_numeral power_increasing)
  then show ?thesis by (simp add: unsigned_ucast_eq take_bit_nat_eq_self)
qed

lemma sint_less_range:
  fixes v :: "'a::len word"
  shows "sint v < 2 ^ LENGTH('a)" and "- (2 ^ LENGTH('a)) \<le> sint v"
proof -
  have p: "(2 :: int) ^ (LENGTH('a) - 1) \<le> 2 ^ LENGTH('a)" by (rule power_increasing) simp_all
  show "sint v < 2 ^ LENGTH('a)" using sint_lt[of v] p by linarith
  show "- (2 ^ LENGTH('a)) \<le> sint v" using sint_ge[of v] p by linarith
qed

lemma uint_of_sint:
  fixes v :: "'a::len word"
  shows "uint v = (if sint v < 0 then sint v + 2 ^ LENGTH('a) else sint v)"
proof -
  have u: "uint v = sint v mod 2 ^ LENGTH('a)" by (simp add: uint_sint take_bit_eq_mod)
  show ?thesis
  proof (cases "sint v < 0")
    case True
    have "sint v mod 2 ^ LENGTH('a) = (sint v + 2 ^ LENGTH('a)) mod 2 ^ LENGTH('a)" by simp
    also have "\<dots> = sint v + 2 ^ LENGTH('a)"
      using True sint_less_range[of v] by (intro mod_pos_pos_trivial) auto
    finally show ?thesis using True u by simp
  next
    case False
    then show ?thesis using u sint_less_range[of v] by simp
  qed
qed

section \<open>Lists\<close>

lemma distinct_map_upt_inj: "inj_on f {..<n} \<Longrightarrow> distinct (map f [0..<n])"
  by (simp add: distinct_map atLeast_upt [symmetric] lessThan_atLeast0)

end
