(* ===== verification/Ceres_Bits.thy ===== *)
theory Ceres_Bits
  imports Prelude
begin

text \<open>
  The bit intrinsics of \<open>ceres/src/core/bits.hpp\<close> and the compile-time constants and
  type functions of \<open>ceres/src/core/types.hpp\<close>. The GCC branch of the headers is
  modelled: the counting builtins are written out bit by bit, with their undefined
  result at zero as a fault. Type packs are lists of the \<open>sizeof\<close> of their members.
\<close>

section \<open>Counting builtins\<close>

fun clz_from :: "nat \<Rightarrow> u32 \<Rightarrow> nat" where
  "clz_from 0 x = 0"
| "clz_from (Suc n) x = (if bit x n then 0 else Suc (clz_from n x))"

definition builtin_clz :: "u32 \<Rightarrow> u32 outcome" where
  "builtin_clz x = (if x = 0 then Inl Undefined else Inr (of_nat (clz_from 32 x)))"

fun ctz_from :: "nat \<Rightarrow> nat \<Rightarrow> u32 \<Rightarrow> nat" where
  "ctz_from 0 i x = 0"
| "ctz_from (Suc n) i x = (if bit x i then 0 else Suc (ctz_from n (Suc i) x))"

definition builtin_ctz :: "u32 \<Rightarrow> u32 outcome" where
  "builtin_ctz x = (if x = 0 then Inl Undefined else Inr (of_nat (ctz_from 32 0 x)))"

definition builtin_popcount :: "u32 \<Rightarrow> u32" where
  "builtin_popcount x = of_nat (length (filter (bit x) [0..<32]))"

definition builtin_parity :: "u32 \<Rightarrow> u32" where
  "builtin_parity x = of_nat (length (filter (bit x) [0..<32]) mod 2)"

definition builtin_bswap32 :: "u32 \<Rightarrow> u32" where
  "builtin_bswap32 x = of_le_bytes (rev (le_bytes 4 x))"

definition builtin_bswap64 :: "u64 \<Rightarrow> u64" where
  "builtin_bswap64 x = of_le_bytes (rev (le_bytes 8 x))"

section \<open>core::bit\<close>

definition first_one :: "bool \<Rightarrow> u32 \<Rightarrow> u32 outcome" where
  "first_one debug x =
     and_then (assertf debug (x \<noteq> 0)) (\<lambda>_.
     and_then (builtin_clz x) (\<lambda>c. Inr (31 - c)))"

definition leading_zeros :: "bool \<Rightarrow> u32 \<Rightarrow> u32 outcome" where
  "leading_zeros debug x = and_then (assertf debug (x \<noteq> 0)) (\<lambda>_. builtin_clz x)"

definition trailing_zeros :: "bool \<Rightarrow> u32 \<Rightarrow> u32 outcome" where
  "trailing_zeros debug x = and_then (assertf debug (x \<noteq> 0)) (\<lambda>_. builtin_ctz x)"

definition bit_count :: "u32 \<Rightarrow> u32" where
  "bit_count x = builtin_popcount x"

definition bit_parity :: "u32 \<Rightarrow> u32" where
  "bit_parity x = builtin_parity x"

definition swap32 :: "u32 \<Rightarrow> u32" where
  "swap32 x = builtin_bswap32 x"

definition swap64 :: "u64 \<Rightarrow> u64" where
  "swap64 x = builtin_bswap64 x"

text \<open>\<open>is_power_2\<close> at an unsigned and at a signed integral type.\<close>

definition is_power_2 :: "'a::len word \<Rightarrow> bool" where
  "is_power_2 value \<longleftrightarrow> value > 0 \<and> value AND (value - 1) = 0"

definition is_power_2_signed :: "'a::len word \<Rightarrow> bool" where
  "is_power_2_signed value \<longleftrightarrow> sint value > 0 \<and> value AND (value - 1) = 0"

definition log2_floor :: "bool \<Rightarrow> u32 \<Rightarrow> u32 outcome" where
  "log2_floor debug x = first_one debug x"

definition log2_ceil :: "bool \<Rightarrow> u32 \<Rightarrow> u32 outcome" where
  "log2_ceil debug x =
     and_then (first_one debug x) (\<lambda>f. Inr (f + (if is_power_2 x then 0 else 1)))"

section \<open>core/types.hpp\<close>

definition one :: u64 where "one = 1"
definition ones :: u64 where "ones = - 1"
definition crc32c :: u32 where "crc32c = 0x1EDC6F41"

definition min_num_bytes :: "u64 \<Rightarrow> nat" where
  "min_num_bytes value =
     (if value < push_bit 8 one then 1
      else if value < push_bit 16 one \<or> 0 = push_bit 16 one then 2
      else if value < push_bit 32 one \<or> 0 = push_bit 32 one then 4
      else 8)"

text \<open>
  The overload for \<open>int64_t\<close>: both operands of each comparison are converted to the
  type of \<open>one\<close>, which is unsigned.
\<close>

definition min_num_bytes_signed :: "u64 \<Rightarrow> nat" where
  "min_num_bytes_signed value =
     (if value > - push_bit 7 one \<and> value < push_bit 7 one then 1
      else if value > - push_bit 15 one \<and> value < push_bit 15 one then 2
      else if value > - push_bit 31 one \<and> value < push_bit 31 one then 4
      else 8)"

definition max_of :: "'a::linorder \<Rightarrow> 'a \<Rightarrow> 'a" where
  "max_of a b = (if a > b then a else b)"

text \<open>
  \<open>max_type_size <T, Ts...> ()\<close> calls \<open>max_type_size ()\<close> without template arguments,
  so the overload for the empty pack answers.
\<close>

fun max_type_size :: "nat list \<Rightarrow> nat" where
  "max_type_size [] = 0"
| "max_type_size (t # ts) = max_of t (max_type_size [])"

fun sum_type_size :: "nat list \<Rightarrow> nat" where
  "sum_type_size [] = 0"
| "sum_type_size (t # ts) = t + sum_type_size []"

text \<open>The width in bits of \<open>min_word_type <N>::result\<close>, which only four sizes have.\<close>

fun min_word_type :: "nat \<Rightarrow> nat option" where
  "min_word_type n =
     (if n = 1 then Some 8 else if n = 2 then Some 16
      else if n = 4 then Some 32 else if n = 8 then Some 64 else None)"

definition min_word_size :: "u64 \<Rightarrow> nat option" where
  "min_word_size n = min_word_type (min_num_bytes n)"

section \<open>Lemmas\<close>

lemma clz_from_le: "clz_from n x \<le> n"
  by (induction n) auto

lemma clz_from_unset: "n - clz_from n x \<le> k \<Longrightarrow> k < n \<Longrightarrow> \<not> bit x k"
proof (induction n)
  case (Suc n)
  then show ?case by (cases "k = n") (auto split: if_splits simp: Suc_diff_le clz_from_le)
qed simp

lemma clz_from_set: "clz_from n x < n \<Longrightarrow> bit x (n - 1 - clz_from n x)"
  by (induction n) (auto split: if_splits)

lemma clz_from_eq_imp_unset: "clz_from n x = n \<Longrightarrow> k < n \<Longrightarrow> \<not> bit x k"
  using clz_from_unset[of n x k] by simp

lemma clz_nonzero:
  assumes "x \<noteq> 0"
  shows "clz_from 32 x < 32"
proof (rule ccontr)
  assume "\<not> clz_from 32 x < 32"
  then have e: "clz_from 32 x = 32" using clz_from_le[of 32 x] by simp
  have "x = 0"
    by (rule bit_word_eqI) (use clz_from_eq_imp_unset[OF e] in simp)
  with assms show False by simp
qed

lemma ctz_from_unset: "i \<le> k \<Longrightarrow> k < i + ctz_from n i x \<Longrightarrow> \<not> bit x k"
proof (induction n i x rule: ctz_from.induct)
  case (2 n i x)
  then show ?case by (cases "k = i") (auto split: if_splits)
qed simp

lemma ctz_from_le: "ctz_from n i x \<le> n"
  by (induction n i x rule: ctz_from.induct) auto

lemma ctz_from_set: "ctz_from n i x < n \<Longrightarrow> bit x (i + ctz_from n i x)"
  by (induction n i x rule: ctz_from.induct) (auto split: if_splits)

lemma ctz_nonzero:
  assumes "x \<noteq> 0"
  shows "ctz_from 32 0 x < 32"
proof (rule ccontr)
  assume "\<not> ctz_from 32 0 x < 32"
  then have "ctz_from 32 0 x = 32" using ctz_from_le[of 32 0 x] by simp
  then have "x = 0"
    by (intro bit_word_eqI) (use ctz_from_unset[of 0 _ 32 x] in simp)
  with assms show False by simp
qed

lemma first_one_eq:
  assumes "x \<noteq> 0"
  shows "first_one debug x = Inr (of_nat (31 - clz_from 32 x))"
proof -
  have "clz_from 32 x \<le> 31" using clz_nonzero[OF assms] by simp
  then have "of_nat (31 - clz_from 32 x) = (31 :: u32) - of_nat (clz_from 32 x)"
    by (simp add: of_nat_diff)
  then show ?thesis using assms by (simp add: first_one_def builtin_clz_def)
qed

lemma unat_first_one_index: "unat (of_nat (31 - clz_from 32 x) :: u32) = 31 - clz_from 32 x"
  by (rule unat_of_nat_small) simp

lemma highest_bit_bounds:
  assumes "x \<noteq> 0"
  shows "2 ^ (31 - clz_from 32 x) \<le> unat x" and "unat x < 2 ^ Suc (31 - clz_from 32 x)"
proof -
  have c: "clz_from 32 x < 32" by (rule clz_nonzero[OF assms])
  show "2 ^ (31 - clz_from 32 x) \<le> unat x"
    by (rule bit_imp_unat_ge) (use clz_from_set[OF c] in simp)
  show "unat x < 2 ^ Suc (31 - clz_from 32 x)"
  proof (rule no_high_bits_imp_unat_less)
    fix k assume "Suc (31 - clz_from 32 x) \<le> k"
    then have "32 - clz_from 32 x \<le> k" using c by simp
    then show "\<not> bit x k"
      using clz_from_unset[of 32 x k] by (cases "k < 32") (auto dest: bit_imp_le_length)
  qed
qed

lemma is_power_2_iff:
  fixes x :: "'a::len word"
  shows "is_power_2 x \<longleftrightarrow> (\<exists>k < LENGTH('a). unat x = 2 ^ k)"
proof
  assume "\<exists>k < LENGTH('a). unat x = 2 ^ k"
  then obtain k where k: "k < LENGTH('a)" "unat x = 2 ^ k" by blast
  have "x = of_nat (unat x)" by simp
  then have x: "x = push_bit k 1" using k(2) by (simp add: push_bit_eq_mult)
  then have "x - 1 = mask k" by (simp add: mask_eq_exp_minus_1 push_bit_eq_mult)
  then have "x AND (x - 1) = 0"
    using x by (auto intro!: bit_word_eqI simp: bit_simps)
  moreover have "x \<noteq> 0" using k(2) by (metis power_not_zero unat_eq_zero zero_neq_numeral)
  ultimately show "is_power_2 x" by (simp add: is_power_2_def word_gt_0)
next
  assume p: "is_power_2 x"
  then have nz: "x \<noteq> 0" and a: "x AND (x - 1) = 0" by (auto simp: is_power_2_def)
  have "\<exists>k. bit x k" using nz bit_word_eqI[of x 0] by auto
  then obtain k0 where "bit x k0" by blast
  define k where "k = (GREATEST k. bit x k)"
  have bnd: "bit x j \<Longrightarrow> j \<le> LENGTH('a)" for j by (auto dest: bit_imp_le_length)
  have bk: "bit x k" unfolding k_def using \<open>bit x k0\<close> bnd by (rule GreatestI_nat)
  have kl: "k < LENGTH('a)" using bk by (rule bit_imp_le_length)
  have hi: "unat x < 2 ^ Suc k"
  proof (rule no_high_bits_imp_unat_less)
    fix j assume "Suc k \<le> j"
    then show "\<not> bit x j" using Greatest_le_nat[of "bit x" j "LENGTH('a)"] bnd by (auto simp: k_def)
  qed
  have lo: "2 ^ k \<le> unat x" using bk by (rule bit_imp_unat_ge)
  have "unat x = 2 ^ k"
  proof (rule ccontr)
    assume "unat x \<noteq> 2 ^ k"
    with lo have lt: "2 ^ k < unat x" by simp
    have ux: "unat (x - 1) = unat x - 1" using nz by (rule unat_minus_one)
    have "unat (x - 1) div 2 ^ k = 1"
      using lt hi by (intro div_nat_eqI) (auto simp: ux)
    then have "bit (unat (x - 1)) k" by (simp add: bit_iff_odd)
    then have "bit (x - 1) k" by (simp add: bit_unsigned_iff)
    with bk have "bit (x AND (x - 1)) k" by (simp add: bit_and_iff)
    with a show False by simp
  qed
  with kl show "\<exists>k < LENGTH('a). unat x = 2 ^ k" by blast
qed

lemma min_num_bytes_eq:
  "min_num_bytes v =
     (if unat v < 2 ^ 8 then 1 else if unat v < 2 ^ 16 then 2 else if unat v < 2 ^ 32 then 4 else 8)"
  by (simp add: min_num_bytes_def one_def word_less_nat_alt)

lemma max_type_size_eq: "max_type_size (t # ts) = t"
  by (simp add: max_of_def)

lemma bswap32_involution: "builtin_bswap32 (builtin_bswap32 x) = x"
proof -
  have "le_bytes (length (rev (le_bytes 4 x))) (of_le_bytes (rev (le_bytes 4 x)) :: u32)
      = rev (le_bytes 4 x)"
    by (rule le_bytes_of_le_bytes) simp
  then show ?thesis by (simp add: builtin_bswap32_def of_le_bytes_le_bytes)
qed

lemma bswap64_involution: "builtin_bswap64 (builtin_bswap64 x) = x"
proof -
  have "le_bytes (length (rev (le_bytes 8 x))) (of_le_bytes (rev (le_bytes 8 x)) :: u64)
      = rev (le_bytes 8 x)"
    by (rule le_bytes_of_le_bytes) simp
  then show ?thesis by (simp add: builtin_bswap64_def of_le_bytes_le_bytes)
qed

section \<open>Properties\<close>

text \<open>for a non-zero \<open>x\<close> both logarithms return in both builds, \<open>log2_floor\<close> is the
  index of the highest bit and \<open>log2_ceil\<close> the least exponent whose power is at
  least \<open>x\<close>.\<close>

theorem log2_floor_ceil_bounds:
  assumes "x \<noteq> 0"
  shows "\<exists>f c. log2_floor debug x = Inr f \<and> log2_ceil debug x = Inr c \<and>
    2 ^ unat f \<le> unat x \<and> unat x < 2 ^ Suc (unat f) \<and>
    unat x \<le> 2 ^ unat c \<and> (\<forall>j. unat x \<le> 2 ^ j \<longrightarrow> unat c \<le> j)"
proof -
  define k where "k = 31 - clz_from 32 x"
  define f :: u32 where "f = of_nat k"
  have f: "log2_floor debug x = Inr f" "unat f = k" "k \<le> 31"
    using first_one_eq[OF assms] unat_first_one_index[of x]
    by (simp_all add: log2_floor_def f_def k_def)
  note b = highest_bit_bounds[OF assms, folded k_def]
  show ?thesis
  proof (cases "is_power_2 x")
    case True
    then obtain j where "unat x = 2 ^ j" by (auto simp: is_power_2_iff)
    with b have "unat x = 2 ^ k" by (metis less_Suc_eq_le nat_power_less_imp_less numeral_2_eq_2
      zero_less_Suc le_antisym power_increasing_iff one_less_numeral_iff semiring_norm(76))
    then show ?thesis using f b True
      by (auto simp: log2_ceil_def log2_floor_def)
  next
    case False
    have c: "log2_ceil debug x = Inr (f + 1)" using f False by (simp add: log2_ceil_def log2_floor_def)
    have uc: "unat (f + 1) = Suc k" using f by (simp add: unat_word_ariths)
    have "unat x \<noteq> 2 ^ k" using False f(3) by (auto simp: is_power_2_iff)
    with b(1) have "2 ^ k < unat x" by simp
    then have "Suc k \<le> j" if "unat x \<le> 2 ^ j" for j
      using that by (metis Suc_leI less_le_trans nat_power_less_imp_less zero_less_numeral)
    then show ?thesis using f b c uc by (intro exI[of _ f] exI[of _ "f + 1"]) auto
  qed
qed

theorem log2_floor_ceil_bounds_witness:
  "\<exists>f c. log2_floor True 10 = Inr f \<and> log2_ceil True 10 = Inr c \<and>
    2 ^ unat f \<le> unat (10 :: u32) \<and> unat (10 :: u32) < 2 ^ Suc (unat f) \<and>
    unat (10 :: u32) \<le> 2 ^ unat c \<and> (\<forall>j. unat (10 :: u32) \<le> 2 ^ j \<longrightarrow> unat c \<le> j)"
  by (rule log2_floor_ceil_bounds) simp

text \<open>the overload of \<open>min_num_bytes\<close> for \<open>int64_t\<close> compares with an unsigned
  negated power, which no value exceeds while being below the positive one: it answers
  8 for every argument, while the unsigned overload gives the least of 1, 2, 4 and 8
  bytes that hold the value.\<close>

theorem min_num_bytes_signed_always_eight:
  "min_num_bytes_signed v = 8 \<and>
   min_num_bytes w \<in> {1, 2, 4, 8} \<and> unat w < 2 ^ (8 * min_num_bytes w) \<and>
   (\<forall>n \<in> {1, 2, 4, 8}. unat w < 2 ^ (8 * n) \<longrightarrow> min_num_bytes w \<le> n)"
proof -
  have "min_num_bytes_signed v = 8"
    by (simp add: min_num_bytes_signed_def one_def word_less_nat_alt)
  moreover have "unat w < 2 ^ (8 * min_num_bytes w)"
    using unsigned_less[of w, where ?'a = nat] by (simp add: min_num_bytes_eq)
  ultimately show ?thesis by (auto simp: min_num_bytes_eq split: if_splits)
qed

theorem min_num_bytes_signed_always_eight_witness:
  "min_num_bytes_signed 5 = 8 \<and> min_num_bytes 300 = 2"
  using min_num_bytes_signed_always_eight[of 5 300] by (simp add: min_num_bytes_eq)

end
