(* ===== verification/Ceres_Endian.thy ===== *)
theory Ceres_Endian
  imports Ceres_Bits
begin

text \<open>
  Byte order of \<open>ceres/src/data/endian.hpp\<close>: the host test, the byte swaps of every
  scalar type the header specialises and the conversions between tag types. A value of
  floating type is its bit pattern, as the unions of the header read it.
\<close>

section \<open>Detection\<close>

datatype endian_type = Little_type | Big_type

definition host_bytes :: "endian_type \<Rightarrow> u32 \<Rightarrow> u8 list" where
  "host_bytes host w = (case host of Little_type \<Rightarrow> le_bytes 4 w | Big_type \<Rightarrow> rev (le_bytes 4 w))"

text \<open>The condition of \<open>detect\<close> is the assignment \<open>byte[0] = 0\<close>, whose value is the
  byte stored.\<close>

definition detect :: "endian_type \<Rightarrow> endian_type" where
  "detect host =
     (let byte = host_bytes host 1;
          byte' = byte[0 := 0]
      in if byte' ! 0 \<noteq> 0 then Big_type else Little_type)"

definition is_big :: bool where "is_big = False"
definition is_little :: bool where "is_little = (\<not> is_big)"

datatype endian_tag = Big | Little

definition network :: endian_tag where "network = Big"
definition native :: endian_tag where "native = (if is_big then Big else Little)"

section \<open>Byte swaps\<close>

text \<open>The operand of \<open>byte_swap16\<close> is promoted to \<open>int\<close> before the shifts and the
  result truncated to 16 bits.\<close>

definition byte_swap16 :: "u16 \<Rightarrow> u16" where
  "byte_swap16 value =
     ucast (push_bit 8 (ucast value :: u32) OR drop_bit 8 (ucast value :: u32))"

definition byte_swap32 :: "u32 \<Rightarrow> u32" where
  "byte_swap32 value = builtin_bswap32 value"

definition byte_swap64 :: "u64 \<Rightarrow> u64" where
  "byte_swap64 value = builtin_bswap64 value"

datatype scalar =
    Uint8 u8 | Uint16 u16 | Uint32 u32 | Uint64 u64
  | Int8 u8 | Int16 u16 | Int32 u32 | Int64 u64
  | Float u32 | Double u64

fun byte_swap :: "scalar \<Rightarrow> scalar" where
  "byte_swap (Uint8 v) = Uint8 v"
| "byte_swap (Uint16 v) = Uint16 (byte_swap16 v)"
| "byte_swap (Uint32 v) = Uint32 (byte_swap32 v)"
| "byte_swap (Uint64 v) = Uint64 (byte_swap64 v)"
| "byte_swap (Int8 v) = Int8 v"
| "byte_swap (Int16 v) = Int16 (byte_swap16 v)"
| "byte_swap (Int32 v) = Int32 (byte_swap32 v)"
| "byte_swap (Int64 v) = Int64 (byte_swap64 v)"
| "byte_swap (Float real) = Float (byte_swap32 real)"
| "byte_swap (Double real) = Double (byte_swap64 real)"

text \<open>\<open>map <From, To>::convert\<close>.\<close>

fun convert :: "endian_tag \<Rightarrow> endian_tag \<Rightarrow> scalar \<Rightarrow> scalar" where
  "convert Big Big v = v"
| "convert Big Little v = byte_swap v"
| "convert Little Big v = byte_swap v"
| "convert Little Little v = v"

section \<open>The object representation of a scalar\<close>

text \<open>The bytes of a scalar on the little-endian host, which the properties speak of.\<close>

fun object_bytes :: "scalar \<Rightarrow> u8 list" where
  "object_bytes (Uint8 v) = le_bytes 1 v"
| "object_bytes (Uint16 v) = le_bytes 2 v"
| "object_bytes (Uint32 v) = le_bytes 4 v"
| "object_bytes (Uint64 v) = le_bytes 8 v"
| "object_bytes (Int8 v) = le_bytes 1 v"
| "object_bytes (Int16 v) = le_bytes 2 v"
| "object_bytes (Int32 v) = le_bytes 4 v"
| "object_bytes (Int64 v) = le_bytes 8 v"
| "object_bytes (Float v) = le_bytes 4 v"
| "object_bytes (Double v) = le_bytes 8 v"

section \<open>Lemmas\<close>

lemma byte_swap16_bytes: "le_bytes 2 (byte_swap16 v) = rev (le_bytes 2 v)"
proof -
  have 0: "ucast (byte_swap16 v) = (ucast (drop_bit 8 v) :: u8)"
    by (rule bit_word_eqI) (auto simp: byte_swap16_def bit_simps)
  have 1: "ucast (drop_bit 8 (byte_swap16 v)) = (ucast v :: u8)"
    by (rule bit_word_eqI) (auto simp: byte_swap16_def bit_simps dest: bit_imp_le_length)
  show ?thesis using 0 1 by (simp add: le_bytes_def upt_conv_Cons numeral_2_eq_2)
qed

lemma byte_swap32_bytes: "le_bytes 4 (byte_swap32 v) = rev (le_bytes 4 v)"
  using le_bytes_of_le_bytes[of "rev (le_bytes 4 v)", where ?'a = 32]
  by (simp add: byte_swap32_def builtin_bswap32_def)

lemma byte_swap64_bytes: "le_bytes 8 (byte_swap64 v) = rev (le_bytes 8 v)"
  using le_bytes_of_le_bytes[of "rev (le_bytes 8 v)", where ?'a = 64]
  by (simp add: byte_swap64_def builtin_bswap64_def)

lemma byte_swap16_involution: "byte_swap16 (byte_swap16 v) = v"
proof -
  have "le_bytes 2 (byte_swap16 (byte_swap16 v)) = le_bytes 2 v"
    by (simp add: byte_swap16_bytes)
  then have "of_le_bytes (le_bytes 2 (byte_swap16 (byte_swap16 v))) = (of_le_bytes (le_bytes 2 v) :: u16)"
    by simp
  then show ?thesis by (simp add: of_le_bytes_le_bytes)
qed

lemma byte_swap32_involution: "byte_swap32 (byte_swap32 v) = v"
  by (simp add: byte_swap32_def bswap32_involution)

lemma byte_swap64_involution: "byte_swap64 (byte_swap64 v) = v"
  by (simp add: byte_swap64_def bswap64_involution)

lemma rev_le_bytes_1: "rev (le_bytes (Suc 0) v) = le_bytes (Suc 0) v"
  by (simp add: le_bytes_def)

lemmas byte_swap_bytes = byte_swap16_bytes byte_swap32_bytes byte_swap64_bytes rev_le_bytes_1
lemmas byte_swap_involutions =
  byte_swap16_involution byte_swap32_involution byte_swap64_involution

lemma byte_swap_involution: "byte_swap (byte_swap v) = v"
  by (cases v) (simp_all add: byte_swap_involutions)

section \<open>Properties\<close>

text \<open>the object representation of \<open>byte_swap v\<close> is that of \<open>v\<close> reversed, at every
  scalar type, and swapping twice gives the value back.\<close>

theorem byte_swap_reverses_object:
  "object_bytes (byte_swap v) = rev (object_bytes v) \<and> byte_swap (byte_swap v) = v"
  unfolding byte_swap_involution by (cases v) (simp_all add: byte_swap_bytes)

text \<open>a value converted between two byte orders and back is unchanged, and the
  conversions compose.\<close>

theorem convert_round_trip:
  "convert b a (convert a b v) = v \<and> convert b c (convert a b v) = convert a c v"
  by (cases a; cases b; cases c) (simp_all add: byte_swap_involution)

text \<open>\<open>detect\<close> reports a little-endian host on every host, because it stores into the
  byte it means to test.\<close>

theorem detect_never_big: "detect host = Little_type"
  by (cases host) (simp_all add: detect_def host_bytes_def le_bytes_def upt_conv_Cons)

end
