(* ===== verification/Ceres_Hash.thy ===== *)
theory Ceres_Hash
  imports Ceres_Bits
begin

text \<open>
  The 32-bit block hash of \<open>ceres/src/core/hash.hpp\<close> and the hashed names of
  \<open>ceres/src/core/name.hpp\<close>. Blocks are words of the element type; the arithmetic of
  a narrower block is that of its promotion to 32 bits. A C string is the list of its
  bytes, read up to the first zero.
\<close>

section \<open>block\_hash\_32\<close>

definition shuffle_hash :: "u32 \<Rightarrow> u32" where
  "shuffle_hash hash =
     (push_bit 16 hash) OR
     drop_bit 24 (hash AND 0xF0000000) OR
     drop_bit 12 (hash AND 0x0FF00000) OR
     drop_bit 16 (hash AND 0x000F0000)"

definition hash_block :: "u32 \<Rightarrow> u32 \<Rightarrow> 'a::len word \<Rightarrow> u32" where
  "hash_block magic hash block =
     (let b = (ucast block :: u32)
      in shuffle_hash hash XOR ((b * NOT magic) XOR drop_bit 16 (NOT b * magic)))"

text \<open>\<open>buf.bytes\<close> has 64 bits, so the first line mixes at that width and truncates.\<close>

definition block_hash_32 :: "u64 \<Rightarrow> 'a::len word list \<Rightarrow> u32 \<Rightarrow> u32 \<Rightarrow> u32" where
  "block_hash_32 bytes blocks hash magic =
     (let hash = ucast ((ucast hash :: u64) XOR ((bytes * 0xcc9e2d51) XOR 0x85ebca6b));
          hash = foldl (hash_block magic) hash blocks
      in hash XOR ((hash * 0xc2b2ae35) XOR drop_bit 16 (hash * 0x1b873593)))"

section \<open>core::name\<close>

definition c_string :: "u8 list \<Rightarrow> u8 list" where
  "c_string str = takeWhile (\<lambda>c. c \<noteq> 0) str"

definition strlen :: "u8 list \<Rightarrow> nat" where
  "strlen str = length (c_string str)"

definition words_at :: "u8 list \<Rightarrow> nat \<Rightarrow> u32 list" where
  "words_at bs n = map (\<lambda>i. of_le_bytes (take 4 (drop (4 * i) bs))) [0..<n]"

definition compute_hash :: "u8 list \<Rightarrow> u32" where
  "compute_hash str =
     (let hash = crc32c;
          bytes = strlen str;
          buf_bytes = bytes;
          buf = words_at (c_string str) (buf_bytes div 4);
          remainder = bytes - buf_bytes;
          post = take remainder (drop (4 * (buf_bytes div 4)) (c_string str));
          hash = block_hash_32 (of_nat buf_bytes) buf hash crc32c
      in block_hash_32 (of_nat remainder) post hash crc32c)"

record ceres_name =
  name_text :: "u8 list option"
  name_hash :: u32

definition name_default :: ceres_name where
  "name_default = \<lparr>name_text = None, name_hash = 0\<rparr>"

text \<open>The text is kept in a debug build only.\<close>

definition name_of :: "bool \<Rightarrow> u8 list \<Rightarrow> ceres_name" where
  "name_of debug str =
     \<lparr>name_text = (if debug then Some (c_string str) else None), name_hash = compute_hash str\<rparr>"

definition name_eq :: "ceres_name \<Rightarrow> ceres_name \<Rightarrow> bool" where
  "name_eq l r \<longleftrightarrow> name_hash l = name_hash r"

definition name_less :: "ceres_name \<Rightarrow> ceres_name \<Rightarrow> bool" where
  "name_less l r \<longleftrightarrow> name_hash l < name_hash r"

section \<open>Lemmas\<close>

lemma shuffle_masks:
  "(0xF0000000 :: u32) = push_bit 28 (mask 4)"
  "(0x0FF00000 :: u32) = push_bit 20 (mask 8)"
  "(0x000F0000 :: u32) = push_bit 16 (mask 4)"
  by (simp_all add: push_bit_eq_mult mask_eq_exp_minus_1)

lemma bit_shuffle_hash:
  assumes "k < 32"
  shows "bit (shuffle_hash h) k \<longleftrightarrow>
    (if k < 4 then bit h (k + 16) else if k < 8 then bit h (k + 24)
     else if k < 16 then bit h (k + 12) else bit h (k - 16))"
  using assms unfolding shuffle_hash_def shuffle_masks
  by (auto simp: bit_simps add.commute dest: bit_imp_le_length)

text \<open>The shuffle moves every bit of the running hash to its own place.\<close>

lemma shuffle_hash_inj: "shuffle_hash g = shuffle_hash h \<Longrightarrow> g = h"
proof (rule bit_word_eqI)
  fix k assume e: "shuffle_hash g = shuffle_hash h" and k: "k < LENGTH(32)"
  define j where "j = (if k < 16 then k + 16 else if k < 20 then k - 16
    else if k < 28 then k - 12 else k - 24)"
  have j: "j < 32" using k by (auto simp: j_def)
  have "bit (shuffle_hash g) j = bit (shuffle_hash h) j" using e by simp
  then show "bit g k = bit h k"
    using k unfolding bit_shuffle_hash[OF j] by (auto simp: j_def split: if_splits)
qed

lemma hash_block_inj: "hash_block magic g b = hash_block magic h b \<Longrightarrow> g = h"
proof -
  have x: "u = v" if "u XOR z = v XOR z" for u v z :: u32
    using that by (metis xor.assoc xor.right_neutral xor_self_eq)
  assume "hash_block magic g b = hash_block magic h b"
  then have "shuffle_hash g = shuffle_hash h" unfolding hash_block_def Let_def by (rule x)
  then show "g = h" by (rule shuffle_hash_inj)
qed

lemma strlen_le: "strlen str \<le> length str"
  by (simp add: strlen_def c_string_def length_takeWhile_le)

lemma words_at_take:
  assumes "4 * n \<le> m"
  shows "words_at (take m bs) n = words_at bs n"
proof -
  have "take 4 (drop (4 * i) (take m bs)) = take 4 (drop (4 * i) bs)" if "i < n" for i
    using that assms by (simp add: drop_take)
  then show ?thesis by (simp add: words_at_def)
qed

lemma compute_hash_whole_words:
  "compute_hash str =
     block_hash_32 0 ([] :: u8 list)
       (block_hash_32 (of_nat (strlen str)) (words_at (c_string str) (strlen str div 4)) crc32c crc32c)
       crc32c"
  by (simp add: compute_hash_def Let_def)

section \<open>Properties\<close>

text \<open>for the same blocks, different seeds never lead the mixing loop of
  \<open>block_hash_32\<close> to the same running hash.\<close>

theorem hash_loop_injective_in_seed:
  "foldl (hash_block magic) g blocks = foldl (hash_block magic) h blocks \<longleftrightarrow> g = h"
  by (induction blocks arbitrary: g h) (auto dest: hash_block_inj)

text \<open>\<open>compute_hash\<close> never reads the last \<open>strlen mod 4\<close> characters: two names of the
  same length that agree on their whole words compare equal.\<close>

theorem name_ignores_tail:
  assumes "strlen s = strlen t"
    and "take (4 * (strlen s div 4)) (c_string s) = take (4 * (strlen s div 4)) (c_string t)"
  shows "name_eq (name_of debug s) (name_of debug t)"
proof -
  let ?n = "strlen s div 4"
  have "words_at (c_string s) ?n = words_at (take (4 * ?n) (c_string s)) ?n"
    by (simp add: words_at_take)
  also have "\<dots> = words_at (c_string t) ?n"
    using assms(2) by (simp add: words_at_take)
  finally show ?thesis
    using assms(1) by (simp add: name_eq_def name_of_def compute_hash_whole_words)
qed

text \<open>The names \<open>heap1\<close> and \<open>heap2\<close>.\<close>

theorem name_ignores_tail_witness:
  "name_eq (name_of True [104, 101, 97, 112, 49]) (name_of True [104, 101, 97, 112, 50])"
  by (rule name_ignores_tail) (simp_all add: strlen_def c_string_def)

end
