(* ===== verification/Ceres_Encoding.thy ===== *)
theory Ceres_Encoding
  imports Ceres_Endian
begin

text \<open>
  The tagged bit encoding of \<open>ceres/src/data/encoding/bit.hpp\<close>: the header type, its
  classification, the choice of a header for a value of each integral type, and the
  \<open>value\<close> struct with its constructors and loads. The union of \<open>value\<close> is the list of
  its initialised leading bytes, so a load of a wider member than the one stored reads an
  indeterminate byte and is a fault.
\<close>

section \<open>Headers\<close>

text \<open>The enumeration has a fixed underlying type: \<open>Unnamed\<close> are its other values.\<close>

datatype header_type =
    Zero | One
  | Fixed4u | Fixed4s | Fixed8u | Fixed8s | Fixed16u | Fixed16s
  | Fixed32u | Fixed32s | Fixed64u | Fixed64s | Fixed128 | Fixed256
  | Variable8 | Variable12
  | Error_type
  | Unnamed u8

fun type_to_encoding :: "header_type \<Rightarrow> u8" where
  "type_to_encoding Zero = 0"
| "type_to_encoding One = 1"
| "type_to_encoding Fixed4u = 2"
| "type_to_encoding Fixed4s = 3"
| "type_to_encoding Fixed8u = 4"
| "type_to_encoding Fixed8s = 5"
| "type_to_encoding Fixed16u = 6"
| "type_to_encoding Fixed16s = 7"
| "type_to_encoding Fixed32u = 8"
| "type_to_encoding Fixed32s = 9"
| "type_to_encoding Fixed64u = 10"
| "type_to_encoding Fixed64s = 11"
| "type_to_encoding Fixed128 = 12"
| "type_to_encoding Fixed256 = 13"
| "type_to_encoding Variable8 = 14"
| "type_to_encoding Variable12 = 15"
| "type_to_encoding Error_type = 16"
| "type_to_encoding (Unnamed n) = n"

definition named_types :: "header_type list" where
  "named_types = [Zero, One, Fixed4u, Fixed4s, Fixed8u, Fixed8s, Fixed16u, Fixed16s,
     Fixed32u, Fixed32s, Fixed64u, Fixed64s, Fixed128, Fixed256, Variable8, Variable12,
     Error_type]"

definition encoding_to_type :: "u8 \<Rightarrow> header_type" where
  "encoding_to_type e = (if unat e < 17 then named_types ! unat e else Unnamed e)"

definition fixed_type_table :: "header_type list" where
  "fixed_type_table = [Zero, One, Fixed4u, Fixed8u, Fixed16u, Fixed32u, Fixed64u]"

definition is_constant :: "header_type \<Rightarrow> bool" where
  "is_constant h \<longleftrightarrow> type_to_encoding h < 0x02"

definition is_fixed :: "header_type \<Rightarrow> bool" where
  "is_fixed h \<longleftrightarrow> type_to_encoding h \<ge> 0x02 \<and> type_to_encoding h < 0x0E"

definition is_variable :: "header_type \<Rightarrow> bool" where
  "is_variable h \<longleftrightarrow> type_to_encoding h \<ge> 0x0E"

definition is_error :: "header_type \<Rightarrow> bool" where
  "is_error h \<longleftrightarrow> type_to_encoding h \<ge> 0x10"

definition is_signed :: "header_type \<Rightarrow> bool" where
  "is_signed h \<longleftrightarrow> type_to_encoding h AND 0x01 \<noteq> 0"

definition constant_of :: "header_type \<Rightarrow> int" where
  "constant_of h = uint (type_to_encoding h)"

definition fixed_width :: "header_type \<Rightarrow> u16" where
  "fixed_width h = push_bit (unat (drop_bit 1 (type_to_encoding h))) 2"

definition variable_encoding_width :: "header_type \<Rightarrow> u16" where
  "variable_encoding_width h = (if type_to_encoding h AND 0x01 \<noteq> 0 then 12 else 8)"

section \<open>The header of a value\<close>

definition header_type_bytes :: "u64 \<Rightarrow> header_type" where
  "header_type_bytes bytes = (if bytes < 0x100 then Variable8 else Variable12)"

definition header_type_u64 :: "u64 \<Rightarrow> header_type" where
  "header_type_u64 value = fixed_type_table !
     (of_bool (drop_bit 0 value > 0) + of_bool (drop_bit 1 value > 0) +
      of_bool (drop_bit 4 value > 0) + of_bool (drop_bit 8 value > 0) +
      of_bool (drop_bit 16 value > 0) + of_bool (drop_bit 32 value > 0))"

definition header_type_u32 :: "u32 \<Rightarrow> header_type" where
  "header_type_u32 value = fixed_type_table !
     (of_bool (drop_bit 0 value > 0) + of_bool (drop_bit 1 value > 0) +
      of_bool (drop_bit 4 value > 0) + of_bool (drop_bit 8 value > 0) +
      of_bool (drop_bit 16 value > 0))"

definition header_type_u16 :: "u16 \<Rightarrow> header_type" where
  "header_type_u16 value = fixed_type_table !
     (of_bool (drop_bit 0 value > 0) + of_bool (drop_bit 1 value > 0) +
      of_bool (drop_bit 4 value > 0) + of_bool (drop_bit 8 value > 0))"

definition header_type_u8 :: "u8 \<Rightarrow> header_type" where
  "header_type_u8 value = fixed_type_table !
     (of_bool (drop_bit 0 value > 0) + of_bool (drop_bit 1 value > 0) +
      of_bool (drop_bit 4 value > 0))"

definition header_type_bool :: "bool \<Rightarrow> header_type" where
  "header_type_bool value = fixed_type_table ! (if value then 1 else 0)"

definition sign_encode :: "header_type \<Rightarrow> bool \<Rightarrow> header_type" where
  "sign_encode h negative = encoding_to_type (type_to_encoding h OR of_bool negative)"

text \<open>\<open>std::abs\<close> at the width of its argument: the absolute value of the least value is
  not representable.\<close>

definition std_abs :: "'a::len word \<Rightarrow> 'a word outcome" where
  "std_abs value = (if sint value = - (2 ^ (LENGTH('a) - 1)) then Inl Undefined
     else Inr (if sint value < 0 then - value else value))"

definition header_type_s64 :: "u64 \<Rightarrow> header_type outcome" where
  "header_type_s64 value =
     and_then (std_abs value) (\<lambda>magnitude.
     Inr (sign_encode (header_type_u64 magnitude) (sint value < 0)))"

definition header_type_s32 :: "u32 \<Rightarrow> header_type outcome" where
  "header_type_s32 value =
     and_then (std_abs value) (\<lambda>magnitude.
     Inr (sign_encode (header_type_u32 magnitude) (sint value < 0)))"

text \<open>The narrow overloads promote to \<open>int\<close> before \<open>std::abs\<close> and truncate after.\<close>

definition header_type_s16 :: "u16 \<Rightarrow> header_type outcome" where
  "header_type_s16 value =
     and_then (std_abs (scast value :: u32)) (\<lambda>magnitude.
     Inr (sign_encode (header_type_u16 (ucast magnitude)) (sint value < 0)))"

definition header_type_s8 :: "u8 \<Rightarrow> header_type outcome" where
  "header_type_s8 value =
     and_then (std_abs (scast value :: u32)) (\<lambda>magnitude.
     Inr (sign_encode (header_type_u8 (ucast magnitude)) (sint value < 0)))"

section \<open>struct value\<close>

record encoded_value =
  header :: header_type
  bitwidth :: u16
  storage :: "u8 list"

definition fixed_value :: "header_type \<Rightarrow> u8 list \<Rightarrow> encoded_value" where
  "fixed_value h bytes = \<lparr>header = h, bitwidth = fixed_width h, storage = bytes\<rparr>"

definition value_bool :: "bool \<Rightarrow> encoded_value" where
  "value_bool value =
     \<lparr>header = header_type_bool value, bitwidth = 1, storage = [of_bool value]\<rparr>"

definition value_u8 :: "u8 \<Rightarrow> encoded_value" where
  "value_u8 value = fixed_value (header_type_u8 value) (object_bytes (Uint8 value))"

definition value_s8 :: "u8 \<Rightarrow> encoded_value outcome" where
  "value_s8 value = and_then (header_type_s8 value) (\<lambda>h.
     Inr (fixed_value h (object_bytes (Int8 value))))"

definition value_u16 :: "u16 \<Rightarrow> encoded_value" where
  "value_u16 value =
     fixed_value (header_type_u16 value) (object_bytes (convert native Little (Uint16 value)))"

definition value_s16 :: "u16 \<Rightarrow> encoded_value outcome" where
  "value_s16 value = and_then (header_type_s16 value) (\<lambda>h.
     Inr (fixed_value h (object_bytes (convert native Little (Int16 value)))))"

definition value_u32 :: "u32 \<Rightarrow> encoded_value" where
  "value_u32 value =
     fixed_value (header_type_u32 value) (object_bytes (convert native Little (Uint32 value)))"

definition value_s32 :: "u32 \<Rightarrow> encoded_value outcome" where
  "value_s32 value = and_then (header_type_s32 value) (\<lambda>h.
     Inr (fixed_value h (object_bytes (convert native Little (Int32 value)))))"

definition value_u64 :: "u64 \<Rightarrow> encoded_value" where
  "value_u64 value =
     fixed_value (header_type_u64 value) (object_bytes (convert native Little (Uint64 value)))"

definition value_s64 :: "u64 \<Rightarrow> encoded_value outcome" where
  "value_s64 value = and_then (header_type_s64 value) (\<lambda>h.
     Inr (fixed_value h (object_bytes (convert native Little (Int64 value)))))"

text \<open>The block constructor stores the address and a bit width truncated to 16 bits.\<close>

definition value_block :: "u64 \<Rightarrow> u16 \<Rightarrow> encoded_value" where
  "value_block pointer bytes =
     \<lparr>header = header_type_bytes (ucast bytes), bitwidth = bytes * 8,
      storage = le_bytes 8 pointer\<rparr>"

definition load_member :: "nat \<Rightarrow> encoded_value \<Rightarrow> 'a::len word outcome" where
  "load_member n v = (if n \<le> length (storage v) then Inr (of_le_bytes (take n (storage v)))
     else Inl Undefined)"

definition load_bool :: "encoded_value \<Rightarrow> bool outcome" where
  "load_bool v = and_then (load_member 1 v) (\<lambda>b :: u8.
     if b = 0 then Inr False else if b = 1 then Inr True else Inl Undefined)"

definition load_8 :: "encoded_value \<Rightarrow> u8 outcome" where
  "load_8 v = load_member 1 v"

definition load_16 :: "encoded_value \<Rightarrow> u16 outcome" where
  "load_16 v = load_member 2 v"

definition load_32 :: "encoded_value \<Rightarrow> u32 outcome" where
  "load_32 v = load_member 4 v"

definition load_64 :: "encoded_value \<Rightarrow> u64 outcome" where
  "load_64 v = load_member 8 v"

definition value_size :: "encoded_value \<Rightarrow> u64" where
  "value_size v = ucast (bitwidth v)"

text \<open>\<open>data ()\<close>: the stored address of a variable value, otherwise the union's own bytes.\<close>

definition value_data :: "encoded_value \<Rightarrow> u64 outcome + u8 list" where
  "value_data v = (if is_variable (header v) then Inl (load_64 v) else Inr (storage v))"

section \<open>What an encoded value denotes\<close>

text \<open>
  The reader's side of the format: a constant header is the number itself, a fixed header
  says how many low bits of the payload count and, in its low bit, whether the number is
  negative.
\<close>

definition payload_bits :: "encoded_value \<Rightarrow> nat" where
  "payload_bits v = unat (of_le_bytes (storage v) :: u64)"

definition denoted :: "encoded_value \<Rightarrow> int" where
  "denoted v =
     (if is_constant (header v) then constant_of (header v)
      else int (payload_bits v mod 2 ^ unat (bitwidth v))
        - (if is_signed (header v) then 2 ^ unat (bitwidth v) else 0))"

section \<open>Lemmas\<close>

lemma encoding_round_trip: "unat (type_to_encoding h) < 17 \<Longrightarrow> (\<forall>n. h \<noteq> Unnamed n)
    \<Longrightarrow> encoding_to_type (type_to_encoding h) = h"
  by (cases h) (simp_all add: encoding_to_type_def named_types_def)

lemma drop_bit_gt_0_iff: "drop_bit k (v :: 'a::len word) > 0 \<longleftrightarrow> 2 ^ k \<le> unat v"
proof -
  have "drop_bit k v > 0 \<longleftrightarrow> unat (drop_bit k v) \<noteq> 0"
    by (simp add: word_gt_0 unat_eq_zero)
  also have "unat (drop_bit k v) = unat v div 2 ^ k"
    by (simp only: unat_drop_bit_eq) (simp only: drop_bit_eq_div)
  also have "unat v div 2 ^ k \<noteq> 0 \<longleftrightarrow> 2 ^ k \<le> unat v"
    by (metis div_eq_0_iff not_less power_not_zero zero_neq_numeral)
  finally show ?thesis .
qed

fun narrowest :: "nat \<Rightarrow> header_type" where
  "narrowest u = (if u < 1 then Zero else if u < 2 then One else if u < 2 ^ 4 then Fixed4u
     else if u < 2 ^ 8 then Fixed8u else if u < 2 ^ 16 then Fixed16u
     else if u < 2 ^ 32 then Fixed32u else Fixed64u)"

declare narrowest.simps [simp del]

lemma header_table_eq:
  "fixed_type_table !
     (of_bool (2 ^ 0 \<le> u) + of_bool (2 ^ 1 \<le> u) + of_bool (2 ^ 4 \<le> u) +
      of_bool (2 ^ 8 \<le> u) + of_bool (2 ^ 16 \<le> u) + of_bool (2 ^ 32 \<le> u)) = narrowest u"
  by (cases "u < 1"; cases "u < 2"; cases "u < 2 ^ 4"; cases "u < 2 ^ 8"; cases "u < 2 ^ 16";
      cases "u < 2 ^ 32") (simp_all add: fixed_type_table_def narrowest.simps)

lemma header_type_u64_eq: "header_type_u64 v = narrowest (unat v)"
  unfolding header_type_u64_def drop_bit_gt_0_iff by (rule header_table_eq)

lemma header_type_u32_eq: "header_type_u32 v = narrowest (unat v)"
proof -
  have "\<not> 2 ^ 32 \<le> unat v" using unsigned_less[of v, where ?'a = nat] by simp
  then show ?thesis
    unfolding header_type_u32_def drop_bit_gt_0_iff header_table_eq [symmetric] by simp
qed

lemma header_type_u16_eq: "header_type_u16 v = narrowest (unat v)"
proof -
  have "unat v < 2 ^ 16" using unsigned_less[of v, where ?'a = nat] by simp
  then have "\<not> 2 ^ 32 \<le> unat v" "\<not> 2 ^ 16 \<le> unat v" by simp_all
  then show ?thesis
    unfolding header_type_u16_def drop_bit_gt_0_iff header_table_eq [symmetric] by simp
qed

lemma header_type_u8_eq: "header_type_u8 v = narrowest (unat v)"
proof -
  have "unat v < 2 ^ 8" using unsigned_less[of v, where ?'a = nat] by simp
  then have "\<not> 2 ^ 32 \<le> unat v" "\<not> 2 ^ 16 \<le> unat v" "\<not> 2 ^ 8 \<le> unat v" by simp_all
  then show ?thesis
    unfolding header_type_u8_def drop_bit_gt_0_iff header_table_eq [symmetric] by simp
qed

lemma of_le_bytes_wider:
  fixes w :: "'a::len word"
  assumes "LENGTH('a) \<le> 8 * n" "LENGTH('a) \<le> LENGTH('b::len)"
  shows "(of_le_bytes (le_bytes n w) :: 'b word) = ucast w"
proof (rule bit_word_eqI)
  fix k assume k: "k < LENGTH('b)"
  have m: "k div 8 < n \<Longrightarrow> bit (le_bytes n w ! (k div 8)) (k mod 8) \<longleftrightarrow> bit w (8 * (k div 8) + k mod 8)"
    by (simp add: nth_le_bytes bit_simps)
  have n: "k div 8 < n" if "bit w k" using bit_imp_le_length[OF that] assms(1) by auto
  show "bit (of_le_bytes (le_bytes n w) :: 'b word) k = bit (ucast w :: 'b word) k"
    using k n m by (auto simp: bit_of_le_bytes bit_simps)
qed

lemma payload_le_bytes:
  fixes w :: "'a::len word"
  assumes "LENGTH('a) \<le> 8 * n" "LENGTH('a) \<le> 64"
  shows "payload_bits \<lparr>header = h, bitwidth = b, storage = le_bytes n w\<rparr> = unat w"
  using assms by (simp add: payload_bits_def of_le_bytes_wider unat_ucast_up)

lemma fixed_widths [simp]:
  "fixed_width Fixed4u = 4" "fixed_width Fixed4s = 4" "fixed_width Fixed8u = 8"
  "fixed_width Fixed8s = 8" "fixed_width Fixed16u = 16" "fixed_width Fixed16s = 16"
  "fixed_width Fixed32u = 32" "fixed_width Fixed32s = 32" "fixed_width Fixed64u = 64"
  "fixed_width Fixed64s = 64"
  by (simp_all add: fixed_width_def)

lemma header_classes [simp]:
  "is_constant Zero" "is_constant One" "\<not> is_constant Fixed4u" "\<not> is_constant Fixed4s"
  "\<not> is_constant Fixed8u" "\<not> is_constant Fixed8s" "\<not> is_constant Fixed16u"
  "\<not> is_constant Fixed16s" "\<not> is_constant Fixed32u" "\<not> is_constant Fixed32s"
  "\<not> is_constant Fixed64u" "\<not> is_constant Fixed64s"
  "is_signed Fixed4s" "is_signed Fixed8s" "is_signed Fixed16s" "is_signed Fixed32s"
  "is_signed Fixed64s" "\<not> is_signed Fixed4u" "\<not> is_signed Fixed8u" "\<not> is_signed Fixed16u"
  "\<not> is_signed Fixed32u" "\<not> is_signed Fixed64u"
  by (simp_all add: is_constant_def is_signed_def)

lemma denoted_narrowest:
  assumes "payload_bits (fixed_value (narrowest u) bs) = u" "u < 2 ^ 64"
  shows "denoted (fixed_value (narrowest u) bs) = int u"
  using assms
  by (auto simp: denoted_def fixed_value_def constant_of_def narrowest.simps split: if_splits)

fun signed_narrowest :: "nat \<Rightarrow> header_type" where
  "signed_narrowest u = (if u < 2 then One else if u < 2 ^ 4 then Fixed4s
     else if u < 2 ^ 8 then Fixed8s else if u < 2 ^ 16 then Fixed16s
     else if u < 2 ^ 32 then Fixed32s else Fixed64s)"

declare signed_narrowest.simps [simp del]

lemma sign_encode_named:
  "sign_encode (narrowest u) False = narrowest u"
  "sign_encode (narrowest u) True = signed_narrowest u"
  by (auto simp: sign_encode_def encoding_to_type_def named_types_def narrowest.simps
      signed_narrowest.simps)

lemma denoted_signed_narrowest:
  assumes p: "int (payload_bits (fixed_value (signed_narrowest u) bs)) = 2 ^ b - int u"
    and u: "2 \<le> u" "u < 2 ^ b" and b: "b \<in> {64, 32, 16, 8}"
  shows "denoted (fixed_value (signed_narrowest u) bs) = - int u"
proof -
  have wrap: "(2 ^ b - int u) mod 2 ^ w = 2 ^ w - int u" if "w \<le> b" "u < 2 ^ w" for w
  proof -
    have "(2 ^ b - int u) mod 2 ^ w = (2 ^ w - int u) mod 2 ^ w"
      using that(1) by (metis diff_0 dvd_imp_mod_0 le_imp_power_dvd mod_diff_left_eq mod_self)
    also have "\<dots> = 2 ^ w - int u"
      using that(2) u(1) by (intro mod_pos_pos_trivial) (auto simp flip: of_nat_power simp: of_nat_le_iff)
    finally show ?thesis .
  qed
  show ?thesis
    using b u wrap[of 4] wrap[of 8] wrap[of 16] wrap[of 32] wrap[of 64] p
    by (auto simp: denoted_def fixed_value_def zmod_int signed_narrowest.simps split: if_splits)
qed

lemma std_abs_cases:
  fixes v :: "'a::len word"
  assumes "sint v \<noteq> - (2 ^ (LENGTH('a) - 1))"
  obtains m where "std_abs v = Inr m" "int (unat m) = \<bar>sint v\<bar>"
    and "sint v < 0 \<Longrightarrow> int (unat v) = 2 ^ LENGTH('a) - int (unat m)"
    and "0 \<le> sint v \<Longrightarrow> m = v"
proof (cases "sint v < 0")
  case False
  with assms that[of v] uint_of_sint[of v] show ?thesis by (simp add: std_abs_def)
next
  case True
  have nz: "v \<noteq> 0" using True by auto
  have u: "uint v = sint v + 2 ^ LENGTH('a)"
    using True by (simp add: uint_of_sint)
  have "int (unat (- v)) = 2 ^ LENGTH('a) - uint v"
    using nz by (simp add: uint_word_ariths zmod_zminus1_eq_if uint_0_iff)
  with u True assms that[of "- v"] show ?thesis by (simp add: std_abs_def)
qed

text \<open>The narrow overloads: the magnitude is computed at the width of an \<open>int\<close> and always exists.\<close>

lemma narrow_abs_cases:
  fixes v :: "'a::len word"
  assumes l: "LENGTH('a) < 32"
  obtains k where "std_abs (scast v :: u32) = Inr k" "int (unat (ucast k :: 'a word)) = \<bar>sint v\<bar>"
    and "sint v < 0 \<Longrightarrow> int (unat v) = 2 ^ LENGTH('a) - int (unat (ucast k :: 'a word))"
    and "0 \<le> sint v \<Longrightarrow> (ucast k :: 'a word) = v"
proof -
  have r: "- (2 ^ (LENGTH('a) - 1)) \<le> sint v" "sint v < 2 ^ (LENGTH('a) - 1)"
    by (rule sint_ge, rule sint_lt)
  have up: "(2 :: int) ^ (LENGTH('a) - 1) < 2 ^ 31"
    by (rule power_strict_increasing) (use l in auto)
  have s: "sint (scast v :: u32) = sint v"
  proof -
    have "sint (scast v :: u32) = signed_take_bit 31 (sint v)" by (simp add: signed_scast_eq)
    also have "\<dots> = sint v" using r up by (intro signed_take_bit_int_eq_self) linarith+
    finally show ?thesis .
  qed
  obtain k where k: "std_abs (scast v :: u32) = Inr k" "int (unat k) = \<bar>sint v\<bar>"
    by (rule std_abs_cases[of "scast v :: u32"]) (use s r up in auto)
  have "(2 :: int) ^ (LENGTH('a) - 1) < 2 ^ LENGTH('a)" by (rule power_strict_increasing) auto
  then have "int (unat k) < 2 ^ LENGTH('a)" using k(2) r by linarith
  then have "unat k < 2 ^ LENGTH('a)" by (metis of_nat_less_iff of_nat_numeral of_nat_power)
  then have u: "unat (ucast k :: 'a word) = unat k"
    by (simp add: unsigned_ucast_eq take_bit_nat_eq_self)
  show ?thesis
  proof (rule that[OF k(1)])
    show "int (unat (ucast k :: 'a word)) = \<bar>sint v\<bar>" using u k(2) by simp
    show "int (unat v) = 2 ^ LENGTH('a) - int (unat (ucast k :: 'a word))" if "sint v < 0"
      using that u k(2) uint_of_sint[of v] by simp
    show "(ucast k :: 'a word) = v" if "0 \<le> sint v"
    proof -
      have "uint v = sint v" using that uint_of_sint[of v] by simp
      then have "int (unat v) = int (unat k)" using that k(2) by simp
      then have "unat v = unat k" by (simp only: of_nat_eq_iff)
      with u show ?thesis by (simp add: word_unat_eq_iff)
    qed
  qed
qed

lemma native_little [simp]: "native = Little"
  by (simp add: native_def is_big_def)

lemma payload_fixed_value:
  fixes w :: "'a::len word"
  assumes "LENGTH('a) \<le> 8 * n" "LENGTH('a) \<le> 64"
  shows "payload_bits (fixed_value h (le_bytes n w)) = unat w"
  using assms by (simp add: fixed_value_def payload_le_bytes)

lemma denoted_unsigned:
  fixes w :: "'a::len word"
  assumes "LENGTH('a) \<le> 8 * n" "LENGTH('a) \<le> 64"
  shows "denoted (fixed_value (narrowest (unat w)) (le_bytes n w)) = uint w"
proof -
  have "unat w < 2 ^ 64"
    using unsigned_less[of w, where ?'a = nat] assms(2)
    by (meson less_le_trans one_le_numeral power_increasing)
  then show ?thesis using assms by (simp add: denoted_narrowest payload_fixed_value)
qed

lemma header_fixed_value [simp]: "header (fixed_value h bytes) = h"
  by (simp add: fixed_value_def)

text \<open>
  The signed constructors: the header carries the sign, and the number is recovered from
  the low bits of its two's complement payload, but for \<open>-1\<close>, whose header is that of 1.
\<close>

lemma denoted_signed:
  fixes v m :: "'a::len word"
  assumes l: "LENGTH('a) \<in> {64, 32, 16, 8}" "LENGTH('a) \<le> 8 * n"
    and m: "int (unat m) = \<bar>sint v\<bar>"
      "sint v < 0 \<Longrightarrow> int (unat v) = 2 ^ LENGTH('a) - int (unat m)" "0 \<le> sint v \<Longrightarrow> m = v"
  shows "denoted (fixed_value (sign_encode (narrowest (unat m)) (sint v < 0)) (le_bytes n v)) =
    (if sint v = - 1 then 1 else sint v) \<and>
    (sign_encode (narrowest (unat m)) (sint v < 0) = One \<longleftrightarrow> sint v = - 1 \<or> sint v = 1)"
proof (cases "sint v < 0")
  case False
  then have "m = v" using m(3) by simp
  have e: "sint v = int (unat v)" using m(1) \<open>m = v\<close> False by simp
  have one: "narrowest (unat v) = One \<longleftrightarrow> unat v = 1" by (auto simp: narrowest.simps)
  have "denoted (fixed_value (narrowest (unat v)) (le_bytes n v)) = sint v"
    using denoted_unsigned[of n v] l e by auto
  moreover have "sint v \<noteq> - 1" "unat v = 1 \<longleftrightarrow> sint v = 1"
    using False e by (linarith, metis of_nat_eq_1_iff)
  ultimately show ?thesis using \<open>m = v\<close> False one by (simp add: sign_encode_named)
next
  case True
  show ?thesis
  proof (cases "sint v = - 1")
    case True
    with m(1) have "int (unat m) = int 1" by simp
    then have "unat m = 1" by (simp only: of_nat_eq_iff)
    with True show ?thesis
      by (simp add: sign_encode_named denoted_def fixed_value_def constant_of_def
        signed_narrowest.simps)
  next
    case False
    with True m(1) have "int 2 \<le> int (unat m)" by simp
    then have m2: "2 \<le> unat m" by (simp only: of_nat_le_iff)
    have mb: "unat m < 2 ^ LENGTH('a)" by (rule unsigned_less)
    have p: "int (payload_bits (fixed_value (signed_narrowest (unat m)) (le_bytes n v)))
        = 2 ^ LENGTH('a) - int (unat m)"
      using l m(2)[OF True] by (subst payload_fixed_value) auto
    have "denoted (fixed_value (signed_narrowest (unat m)) (le_bytes n v)) = - int (unat m)"
      by (rule denoted_signed_narrowest[OF p m2 mb l(1)])
    moreover have "signed_narrowest (unat m) \<noteq> One" using m2 by (simp add: signed_narrowest.simps)
    ultimately show ?thesis using True False m(1) by (simp add: sign_encode_named)
  qed
qed

section \<open>Properties\<close>

text \<open>C5: the header and the low bits that an unsigned constructor selects denote the value
  it was given, at every width.\<close>

theorem value_unsigned_denotes:
  "denoted (value_u64 a) = uint a \<and> denoted (value_u32 b) = uint b \<and>
   denoted (value_u16 c) = uint c \<and> denoted (value_u8 d) = uint d \<and>
   denoted (value_bool e) = of_bool e"
proof (intro conjI)
  show "denoted (value_bool e) = of_bool e"
    by (cases e) (simp_all add: denoted_def value_bool_def header_type_bool_def
      fixed_type_table_def constant_of_def)
qed (simp_all only: value_u64_def value_u32_def value_u16_def value_u8_def header_type_u64_eq
    header_type_u32_eq header_type_u16_eq header_type_u8_eq native_little convert.simps
    object_bytes.simps, simp_all add: denoted_unsigned)

text \<open>C6: The four signed constructors. The one- and two-byte constructors succeed on every value
  and the four- and eight-byte ones on every value but the least, whose magnitude
  \<open>std::abs\<close> cannot give. The result denotes the value that was given, except for \<open>-1\<close>: its header
  is the constant header of \<open>1\<close>, which no other negative value gets, so that it denotes \<open>1\<close>.\<close>

theorem value_signed_denotes:
  fixes a :: u8 and b :: u16
  assumes "sint v \<noteq> - (2 ^ 63)" and "sint w \<noteq> - (2 ^ 31)"
  shows "(\<exists>x. value_s64 v = Inr x \<and> denoted x = (if sint v = - 1 then 1 else sint v) \<and>
      (header x = One \<longleftrightarrow> sint v = - 1 \<or> sint v = 1)) \<and>
    (\<exists>y. value_s32 w = Inr y \<and> denoted y = (if sint w = - 1 then 1 else sint w) \<and>
      (header y = One \<longleftrightarrow> sint w = - 1 \<or> sint w = 1)) \<and>
    (\<exists>z. value_s16 b = Inr z \<and> denoted z = (if sint b = - 1 then 1 else sint b) \<and>
      (header z = One \<longleftrightarrow> sint b = - 1 \<or> sint b = 1)) \<and>
    (\<exists>t. value_s8 a = Inr t \<and> denoted t = (if sint a = - 1 then 1 else sint a) \<and>
      (header t = One \<longleftrightarrow> sint a = - 1 \<or> sint a = 1)) \<and>
    value_s64 (2 ^ 63) = Inl Undefined \<and> value_s32 (2 ^ 31) = Inl Undefined"
proof (intro conjI)
  obtain m where m: "std_abs v = Inr m" "int (unat m) = \<bar>sint v\<bar>"
    "sint v < 0 \<Longrightarrow> int (unat v) = 2 ^ LENGTH(64) - int (unat m)" "0 \<le> sint v \<Longrightarrow> m = v"
    by (rule std_abs_cases[of v]) (use assms(1) in simp_all)
  show "\<exists>x. value_s64 v = Inr x \<and> denoted x = (if sint v = - 1 then 1 else sint v) \<and>
      (header x = One \<longleftrightarrow> sint v = - 1 \<or> sint v = 1)"
    using denoted_signed[OF _ _ m(2-4), of 8] m(1)
    by (simp add: value_s64_def header_type_s64_def header_type_u64_eq)
  obtain k where k: "std_abs w = Inr k" "int (unat k) = \<bar>sint w\<bar>"
    "sint w < 0 \<Longrightarrow> int (unat w) = 2 ^ LENGTH(32) - int (unat k)" "0 \<le> sint w \<Longrightarrow> k = w"
    by (rule std_abs_cases[of w]) (use assms(2) in simp_all)
  show "\<exists>y. value_s32 w = Inr y \<and> denoted y = (if sint w = - 1 then 1 else sint w) \<and>
      (header y = One \<longleftrightarrow> sint w = - 1 \<or> sint w = 1)"
    using denoted_signed[OF _ _ k(2-4), of 4] k(1)
    by (simp add: value_s32_def header_type_s32_def header_type_u32_eq)
  obtain i where i: "std_abs (scast b :: u32) = Inr i" "int (unat (ucast i :: u16)) = \<bar>sint b\<bar>"
    "sint b < 0 \<Longrightarrow> int (unat b) = 2 ^ LENGTH(16) - int (unat (ucast i :: u16))"
    "0 \<le> sint b \<Longrightarrow> (ucast i :: u16) = b"
    by (rule narrow_abs_cases[of b]) simp_all
  show "\<exists>z. value_s16 b = Inr z \<and> denoted z = (if sint b = - 1 then 1 else sint b) \<and>
      (header z = One \<longleftrightarrow> sint b = - 1 \<or> sint b = 1)"
    using denoted_signed[OF _ _ i(2-4), of 2] i(1)
    by (simp add: value_s16_def header_type_s16_def header_type_u16_eq)
  obtain j where j: "std_abs (scast a :: u32) = Inr j" "int (unat (ucast j :: u8)) = \<bar>sint a\<bar>"
    "sint a < 0 \<Longrightarrow> int (unat a) = 2 ^ LENGTH(8) - int (unat (ucast j :: u8))"
    "0 \<le> sint a \<Longrightarrow> (ucast j :: u8) = a"
    by (rule narrow_abs_cases[of a]) simp_all
  show "\<exists>t. value_s8 a = Inr t \<and> denoted t = (if sint a = - 1 then 1 else sint a) \<and>
      (header t = One \<longleftrightarrow> sint a = - 1 \<or> sint a = 1)"
    using denoted_signed[OF _ _ j(2-4), of 1] j(1)
    by (simp add: value_s8_def header_type_s8_def header_type_u8_eq)
  show "value_s64 (2 ^ 63) = Inl Undefined"
    by (simp add: value_s64_def header_type_s64_def std_abs_def)
  show "value_s32 (2 ^ 31) = Inl Undefined"
    by (simp add: value_s32_def header_type_s32_def std_abs_def)
qed

theorem value_signed_denotes_witness:
  "(\<exists>x. value_s64 (- 1) = Inr x \<and> denoted x = 1 \<and> header x = One) \<and>
   (\<exists>y. value_s32 (- 300) = Inr y \<and> denoted y = - 300) \<and>
   (\<exists>z. value_s16 (- 32768) = Inr z \<and> denoted z = - 32768) \<and>
   (\<exists>t. value_s8 (- 5) = Inr t \<and> denoted t = - 5)"
  using value_signed_denotes[of "- 1" "- 300" "- 32768" "- 5"] by auto

text \<open>loading the member that was stored gives the value back, and loading a wider
  member than the one stored reads bytes that were never initialised.\<close>

theorem load_stored_member:
  "load_64 (value_u64 a) = Inr a \<and> load_32 (value_u32 b) = Inr b \<and>
   load_16 (value_u16 c) = Inr c \<and> load_8 (value_u8 d) = Inr d \<and>
   load_bool (value_bool e) = Inr e \<and>
   load_64 (value_u32 b) = Inl Undefined \<and> load_32 (value_u16 c) = Inl Undefined \<and>
   load_16 (value_u8 d) = Inl Undefined"
  by (simp add: load_64_def load_32_def load_16_def load_8_def load_bool_def load_member_def
    value_u64_def value_u32_def value_u16_def value_u8_def value_bool_def fixed_value_def
    bytes_simps)

text \<open>\<open>fixed_width\<close> is the width each fixed header is named after, except that it gives
  128 for \<open>Fixed256\<close>.\<close>

theorem fixed_width_table:
  "map (\<lambda>h. unat (fixed_width h)) (filter is_fixed named_types) =
   [4, 4, 8, 8, 16, 16, 32, 32, 64, 64, 128, 128]"
  by (simp add: named_types_def is_fixed_def fixed_width_def word_le_nat_alt
    word_less_nat_alt)

end
