(* ===== verification/Ceres_Memory.thy ===== *)
theory Ceres_Memory
  imports Ceres_Bits
begin

text \<open>
  The buffer types of \<open>ceres/src/memory/core.hpp\<close>: bit buffers, typed buffers over an
  address range, the iterators and the operations that derive one buffer from another,
  alignment of addresses and power-of-two buffers. An address and a size are 64-bit
  words; \<open>sizeof (Type)\<close> is the argument \<open>sz\<close>.
\<close>

section \<open>Bit buffers\<close>

record bitbuffer =
  base :: u64
  limit :: u32
  offset :: u32

definition bitbuffer_default :: bitbuffer where
  "bitbuffer_default = \<lparr>base = 0, limit = 0, offset = 0\<rparr>"

definition bitbuffer_of :: "u64 \<Rightarrow> u64 \<Rightarrow> u64 \<Rightarrow> bitbuffer" where
  "bitbuffer_of data num_bits from_bit =
     \<lparr>base = data, limit = ucast num_bits, offset = ucast from_bit\<rparr>"

definition bitbuffer_range :: "u64 \<Rightarrow> u64 \<Rightarrow> bitbuffer" where
  "bitbuffer_range first past = \<lparr>base = first, limit = ucast ((past - first) * 8), offset = 0\<rparr>"

definition bitbuffer_size :: "bitbuffer \<Rightarrow> u64" where
  "bitbuffer_size buf = ucast (limit buf - offset buf)"

section \<open>Buffers\<close>

record buffer =
  address :: u64
  bytes :: u64

definition buffer_default :: buffer where
  "buffer_default = \<lparr>address = 0, bytes = 0\<rparr>"

definition buffer_items :: "u64 \<Rightarrow> u64 \<Rightarrow> u64 \<Rightarrow> buffer" where
  "buffer_items sz data num_items = \<lparr>address = data, bytes = num_items * sz\<rparr>"

definition buffer_bytes :: "u64 \<Rightarrow> u64 \<Rightarrow> buffer" where
  "buffer_bytes data num_bytes = \<lparr>address = data, bytes = num_bytes\<rparr>"

text \<open>A difference of two pointers into the same array counts its elements.\<close>

definition pointer_difference :: "u64 \<Rightarrow> u64 \<Rightarrow> u64 \<Rightarrow> u64" where
  "pointer_difference sz past first = word_of_int (sint (past - first) div uint sz)"

definition buffer_range :: "bool \<Rightarrow> u64 \<Rightarrow> u64 \<Rightarrow> u64 \<Rightarrow> buffer outcome" where
  "buffer_range debug sz first past =
     and_then (assertf debug (past < first)) (\<lambda>_.
     Inr \<lparr>address = first, bytes = pointer_difference sz past first * sz\<rparr>)"

definition buffer_byte_range :: "bool \<Rightarrow> u64 \<Rightarrow> u64 \<Rightarrow> buffer outcome" where
  "buffer_byte_range debug first past =
     and_then (assertf debug (past < first)) (\<lambda>_.
     Inr \<lparr>address = first, bytes = past - first\<rparr>)"

definition buffer_cast :: "buffer \<Rightarrow> buffer" where
  "buffer_cast copy = buffer_bytes (address copy) (bytes copy)"

text \<open>The buffer of a \<open>static_buffer<U, N>\<close> at \<open>data\<close> divides by \<open>sizeof (U)\<close>.\<close>

definition buffer_of_static :: "u64 \<Rightarrow> u64 \<Rightarrow> u64 \<Rightarrow> buffer" where
  "buffer_of_static sz_u n data = \<lparr>address = data, bytes = n div sz_u\<rparr>"

definition buffer_bool :: "buffer \<Rightarrow> bool" where
  "buffer_bool buf \<longleftrightarrow> address buf \<noteq> 0"

definition buffer_reset :: "buffer \<Rightarrow> buffer \<Rightarrow> buffer" where
  "buffer_reset buf other = buf\<lparr>address := address other, bytes := bytes other\<rparr>"

definition size_of :: "u64 \<Rightarrow> buffer \<Rightarrow> u64" where
  "size_of sz buf = bytes buf div sz"

definition static_size :: "u64 \<Rightarrow> u64" where
  "static_size n = n"

definition static_size_as :: "u64 \<Rightarrow> u64 \<Rightarrow> u64 \<Rightarrow> u64" where
  "static_size_as sz_u sz n = (n * sz) div sz_u"

definition begin_of :: "buffer \<Rightarrow> u64" where
  "begin_of buf = address buf"

definition end_of :: "u64 \<Rightarrow> buffer \<Rightarrow> u64" where
  "end_of sz buf = begin_of buf + size_of sz buf * sz"

definition contains :: "u64 \<Rightarrow> buffer \<Rightarrow> u64 \<Rightarrow> bool" where
  "contains sz buf pointer \<longleftrightarrow> pointer \<ge> begin_of buf \<and> pointer < end_of sz buf"

definition grow :: "u64 \<Rightarrow> buffer \<Rightarrow> u64 \<Rightarrow> buffer" where
  "grow sz buf amount = buffer_items sz (begin_of buf) (size_of sz buf + amount)"

definition shrink :: "u64 \<Rightarrow> buffer \<Rightarrow> u64 \<Rightarrow> buffer" where
  "shrink sz buf amount = buffer_items sz (begin_of buf) (size_of sz buf - amount)"

definition advance :: "u64 \<Rightarrow> buffer \<Rightarrow> u64 \<Rightarrow> buffer" where
  "advance sz buf amount = buffer_items sz (begin_of buf + amount * sz) (size_of sz buf)"

definition retreat :: "u64 \<Rightarrow> buffer \<Rightarrow> u64 \<Rightarrow> buffer" where
  "retreat sz buf amount = buffer_items sz (begin_of buf - amount * sz) (size_of sz buf)"

text \<open>The amount of \<open>offset\<close> is an \<open>int\<close>, converted to the width of a size.\<close>

definition offset_by :: "u64 \<Rightarrow> buffer \<Rightarrow> u32 \<Rightarrow> buffer" where
  "offset_by sz buf amount =
     buffer_items sz (begin_of buf + scast amount * sz) (size_of sz buf - scast amount)"

definition preceeds :: "buffer \<Rightarrow> buffer \<Rightarrow> bool" where
  "preceeds a b \<longleftrightarrow> address a < address b"

definition smaller :: "buffer \<Rightarrow> buffer \<Rightarrow> bool" where
  "smaller a b \<longleftrightarrow> bytes a < bytes b"

section \<open>Alignment\<close>

definition make_aligned :: "u64 \<Rightarrow> u64 \<Rightarrow> u64" where
  "make_aligned alignment p = p AND NOT (alignment - 1)"

definition next_aligned :: "u64 \<Rightarrow> u64 \<Rightarrow> u64" where
  "next_aligned alignment p = (p + alignment - 1) AND NOT (alignment - 1)"

definition aligned_offset :: "u64 \<Rightarrow> u64 \<Rightarrow> u64" where
  "aligned_offset p alignment = p AND (alignment - 1)"

definition aligned_overhead :: "u64 \<Rightarrow> u64 \<Rightarrow> u64" where
  "aligned_overhead p alignment = (alignment - (p AND (alignment - 1))) AND (alignment - 1)"

definition is_aligned :: "u64 \<Rightarrow> u64 \<Rightarrow> bool" where
  "is_aligned p alignment \<longleftrightarrow> p AND (alignment - 1) = 0"

section \<open>Power-of-two buffers\<close>

text \<open>The size is passed to \<open>log2_floor\<close> as a \<open>uint32_t\<close> and the power computed as an
  \<open>int\<close>.\<close>

definition make_pow2_size_buffer :: "bool \<Rightarrow> u64 \<Rightarrow> buffer \<Rightarrow> buffer outcome" where
  "make_pow2_size_buffer debug sz buf =
     and_then (log2_floor debug (ucast (size_of sz buf))) (\<lambda>k.
     Inr (buffer_items sz (address buf) (scast (push_bit (unat k) (1 :: u32)))))"

section \<open>Lemmas\<close>

lemma pow2_minus_1: "(2 :: u64) ^ k - 1 = mask k"
  by (simp add: mask_eq_exp_minus_1)

lemma and_not_mask_eq: "(p :: u64) AND NOT (mask k) = p - take_bit k p"
proof -
  have "(p AND NOT (mask k)) + take_bit k p = (p AND NOT (mask k)) OR take_bit k p"
    by (rule disjunctive_add_eq_or) (auto intro!: bit_word_eqI simp: bit_simps)
  also have "\<dots> = p" by (auto intro!: bit_word_eqI simp: bit_simps)
  finally show ?thesis by (simp add: algebra_simps)
qed

lemma unat_take_bit_mod: "unat (take_bit k p) = unat p mod 2 ^ k" for p :: "'a::len word"
  by (simp only: unsigned_take_bit_eq) (simp only: take_bit_eq_mod)

lemma unat_and_not_mask: "unat ((p :: u64) AND NOT (mask k)) = unat p - unat p mod 2 ^ k"
proof -
  have "take_bit k p \<le> p"
    by (simp only: word_le_nat_alt unat_take_bit_mod mod_less_eq_dividend)
  then show ?thesis by (simp only: and_not_mask_eq unat_sub unat_take_bit_mod)
qed

lemma unat_and_pow2: "unat ((p :: u64) AND (2 ^ k - 1)) = unat p mod 2 ^ k"
  by (simp only: pow2_minus_1 word_and_mask_unat)

lemma unat_pow2: "k < 64 \<Longrightarrow> unat ((2 :: u64) ^ k) = 2 ^ k"
proof -
  assume "k < 64"
  then have "(2 :: nat) ^ k < 2 ^ LENGTH(64)" by (intro power_strict_increasing) simp_all
  then show ?thesis using unat_of_nat_small[of "2 ^ k", where ?'a = 64] by simp
qed

lemma unat_make_aligned: "unat (make_aligned (2 ^ k) p) = unat p - unat p mod 2 ^ k"
  by (simp only: make_aligned_def pow2_minus_1 unat_and_not_mask)

lemma unat_aligned_offset: "unat (aligned_offset p (2 ^ k)) = unat p mod 2 ^ k"
  by (simp only: aligned_offset_def unat_and_pow2)

lemma is_aligned_iff: "is_aligned p (2 ^ k) \<longleftrightarrow> 2 ^ k dvd unat p"
  by (simp only: is_aligned_def unat_eq_zero [symmetric] unat_and_pow2 dvd_eq_mod_eq_0)

lemma unat_aligned_overhead:
  assumes "k < 64"
  shows "unat (aligned_overhead p (2 ^ k)) = (2 ^ k - unat p mod 2 ^ k) mod 2 ^ k"
proof -
  have "p AND (2 ^ k - 1) \<le> 2 ^ k"
    using assms by (simp only: word_le_nat_alt unat_and_pow2 unat_pow2) (simp add: less_imp_le)
  then have "unat (2 ^ k - (p AND (2 ^ k - 1))) = 2 ^ k - unat p mod 2 ^ k"
    using assms by (simp only: unat_sub unat_and_pow2 unat_pow2)
  then show ?thesis by (simp only: aligned_overhead_def unat_and_pow2)
qed

text \<open>Rounding up to a power of two, on the natural numbers.\<close>

lemma round_up_mod:
  fixes n a :: nat
  assumes "0 < a"
  shows "n + a - 1 - (n + a - 1) mod a = n + (a - n mod a) mod a"
proof (cases "n mod a = 0")
  case True
  then obtain q where q: "n = a * q" by auto
  have "(a * q + (a - 1)) mod a = a - 1" using assms by (simp only: mod_mult_self4) simp
  then show ?thesis using assms q by (simp add: Nat.add_diff_assoc)
next
  case False
  let ?r = "n mod a" and ?q = "n div a"
  have r: "0 < ?r" "?r < a" using False assms by auto
  have n: "n = a * ?q + ?r" by simp
  have e: "n + a - 1 = a * Suc ?q + (?r - 1)" using r n mod_less_eq_dividend[of n a] by simp
  have "(n + a - 1) mod a = ?r - 1" using r unfolding e by (simp only: mod_mult_self4) simp
  then have "n + a - 1 - (n + a - 1) mod a = a * Suc ?q" using e by simp
  also have "\<dots> = n + (a - ?r)"
    using r minus_mod_eq_mult_div[of n a] mod_less_eq_dividend[of n a]
    by (simp only: mult_Suc_right)
  finally show ?thesis using r by simp
qed

lemma unat_next_aligned:
  assumes k: "k < 64" and fits: "unat p + 2 ^ k \<le> 2 ^ 64"
  shows "unat (next_aligned (2 ^ k) p) = unat p + unat (aligned_overhead p (2 ^ k))"
proof -
  have "p + 2 ^ k - 1 = of_nat (unat p + 2 ^ k - 1)"
    by (simp add: of_nat_diff Suc_leI)
  moreover have "unat p + 2 ^ k - 1 < 2 ^ LENGTH(64)" using fits by simp
  ultimately have u: "unat (p + 2 ^ k - 1) = unat p + 2 ^ k - 1"
    by (simp only: unat_of_nat_small)
  show ?thesis
    by (simp only: next_aligned_def pow2_minus_1 unat_and_not_mask u unat_aligned_overhead[OF k])
      (rule round_up_mod, simp)
qed

lemma aligned_overhead_less: "k < 64 \<Longrightarrow> unat (aligned_overhead p (2 ^ k)) < 2 ^ k"
  by (simp add: unat_aligned_overhead)

lemma next_aligned_dvd:
  assumes k: "k < 64" and fits: "unat p + 2 ^ k \<le> 2 ^ 64"
  shows "2 ^ k dvd unat (next_aligned (2 ^ k) p)"
proof -
  have "unat (next_aligned (2 ^ k) p) = unat p + 2 ^ k - 1 - (unat p + 2 ^ k - 1) mod 2 ^ k"
    using fits by (simp add: unat_next_aligned[OF k fits] unat_aligned_overhead[OF k]
        round_up_mod[symmetric])
  then show ?thesis by (simp only: dvd_minus_mod)
qed

lemma scast_pow2:
  assumes "k < 31"
  shows "(scast (push_bit k (1 :: u32)) :: u64) = 2 ^ k"
proof -
  have le: "(2 :: int) ^ k < 2 ^ 31" using assms by (intro power_strict_increasing) simp_all
  have "push_bit k (1 :: u32) = word_of_int (2 ^ k)" by (simp add: push_bit_eq_mult)
  then have "sint (push_bit k (1 :: u32)) = signed_take_bit 31 (2 ^ k)"
    by (simp only: sint_sbintrunc') simp
  also have "\<dots> = 2 ^ k" using le
    by (intro signed_take_bit_int_eq_self) (simp_all add: order_trans[OF _ zero_le_power])
  finally show ?thesis by (simp add: scast_eq)
qed

lemma size_of_items:
  assumes "0 < sz" "unat n * unat sz < 2 ^ 64"
  shows "size_of sz (buffer_items sz data n) = n"
proof (rule word_unat_eq_iff [THEN iffD2])
  have "unat (n * sz) = unat n * unat sz" using assms(2) by (subst unat_mult_lem [symmetric]) simp
  then show "unat (size_of sz (buffer_items sz data n)) = unat n"
    using assms(1) by (simp add: size_of_def buffer_items_def unat_div word_less_nat_alt)
qed

lemma size_of_fits: "unat (size_of sz buf) * unat sz \<le> unat (bytes buf)"
  by (simp add: size_of_def unat_div)

lemma size_of_fits_word: "n \<le> size_of sz buf \<Longrightarrow> unat n * unat sz < 2 ^ 64"
proof -
  assume "n \<le> size_of sz buf"
  then have "unat n * unat sz \<le> unat (size_of sz buf) * unat sz" by (simp add: word_le_nat_alt)
  also have "\<dots> \<le> unat (bytes buf)" by (rule size_of_fits)
  also have "\<dots> < 2 ^ 64" using unsigned_less[of "bytes buf", where ?'a = nat] by simp
  finally show ?thesis .
qed

lemma begin_of_items [simp]: "begin_of (buffer_items sz data n) = data"
  by (simp add: begin_of_def buffer_items_def)

section \<open>Properties\<close>

text \<open>For a power-of-two alignment and an address with room above it, \<open>next_aligned\<close>
  is the least aligned address that is not below the pointer, and \<open>aligned_overhead\<close> is
  its distance, less than the alignment.\<close>

theorem next_aligned_least:
  assumes "k < 64" "unat p + 2 ^ k \<le> 2 ^ 64"
  shows "is_aligned (next_aligned (2 ^ k) p) (2 ^ k) \<and> p \<le> next_aligned (2 ^ k) p \<and>
    unat (next_aligned (2 ^ k) p) = unat p + unat (aligned_overhead p (2 ^ k)) \<and>
    unat (aligned_overhead p (2 ^ k)) < 2 ^ k \<and>
    (\<forall>q. is_aligned q (2 ^ k) \<and> p \<le> q \<longrightarrow> next_aligned (2 ^ k) p \<le> q)"
proof (intro conjI allI impI)
  show "is_aligned (next_aligned (2 ^ k) p) (2 ^ k)"
    by (simp only: is_aligned_iff next_aligned_dvd[OF assms])
  show n: "unat (next_aligned (2 ^ k) p) = unat p + unat (aligned_overhead p (2 ^ k))"
    by (rule unat_next_aligned[OF assms])
  then show "p \<le> next_aligned (2 ^ k) p" by (simp add: word_le_nat_alt)
  show less: "unat (aligned_overhead p (2 ^ k)) < 2 ^ k" by (rule aligned_overhead_less[OF assms(1)])
  fix q assume q: "is_aligned q (2 ^ k) \<and> p \<le> q"
  then obtain x where x: "unat q = 2 ^ k * x" by (auto simp: is_aligned_iff elim: dvdE)
  obtain y where y: "unat (next_aligned (2 ^ k) p) = 2 ^ k * y"
    using next_aligned_dvd[OF assms] by (auto elim: dvdE)
  have "unat (next_aligned (2 ^ k) p) < unat q + 2 ^ k"
    using n less q by (simp add: word_le_nat_alt)
  then have "(2::nat) ^ k * y < 2 ^ k * Suc x" using x y by simp
  then have "y \<le> x" by (simp only: mult_less_cancel1) simp
  then show "next_aligned (2 ^ k) p \<le> q" using x y by (simp add: word_le_nat_alt)
qed

theorem next_aligned_least_witness:
  "is_aligned (next_aligned (2 ^ 4) 1001) (2 ^ 4) \<and> unat (next_aligned (2 ^ 4) 1001) =
     unat (1001 :: u64) + unat (aligned_overhead 1001 (2 ^ 4))"
  using next_aligned_least[of 4 1001] by simp

text \<open>A power-of-two buffer keeps the address and the largest power of two of items that
  the buffer holds, for any non-empty buffer of fewer than \<open>2 ^ 31\<close> items; an empty buffer
  asserts in a debug build.\<close>

theorem make_pow2_size_buffer_largest:
  assumes "0 < sz" "unat (size_of sz buf) < 2 ^ 31"
  shows "(size_of sz buf = 0 \<longrightarrow> make_pow2_size_buffer True sz buf = Inl Assertion_failed) \<and>
    (size_of sz buf \<noteq> 0 \<longrightarrow> (\<exists>b k. make_pow2_size_buffer debug sz buf = Inr b \<and>
       address b = address buf \<and> bytes b \<le> bytes buf \<and>
       unat (size_of sz b) = 2 ^ k \<and> 2 ^ k \<le> unat (size_of sz buf) \<and>
       unat (size_of sz buf) < 2 ^ Suc k))"
proof (intro conjI impI)
  assume "size_of sz buf = 0"
  then show "make_pow2_size_buffer True sz buf = Inl Assertion_failed"
    by (simp add: make_pow2_size_buffer_def log2_floor_def first_one_def)
next
  let ?x = "ucast (size_of sz buf) :: u32"
  assume ne: "size_of sz buf \<noteq> 0"
  have u: "unat ?x = unat (size_of sz buf)"
    using assms(2) by (simp add: unsigned_ucast_eq take_bit_nat_eq_self)
  then have "?x \<noteq> 0" using ne by (metis unat_eq_zero)
  define k where "k = 31 - clz_from 32 ?x"
  have b: "2 ^ k \<le> unat (size_of sz buf)" "unat (size_of sz buf) < 2 ^ Suc k"
    using highest_bit_bounds[OF \<open>?x \<noteq> 0\<close>] u by (simp_all add: k_def)
  have k: "k < 31" using le_less_trans[OF b(1) assms(2)] 
    by (rule power_less_imp_less_exp[rotated]) simp
  have p: "unat (2 ^ k :: u64) = 2 ^ k" using k by (simp add: unat_pow2)
  have r: "make_pow2_size_buffer debug sz buf = Inr (buffer_items sz (address buf) (2 ^ k))"
    using scast_pow2[OF k] unat_first_one_index[of ?x]
    by (simp add: make_pow2_size_buffer_def log2_floor_def first_one_eq[OF \<open>?x \<noteq> 0\<close>] k_def)
  have le: "(2 :: u64) ^ k \<le> size_of sz buf" using b(1) p by (simp only: word_le_nat_alt)
  have fits: "unat (2 ^ k :: u64) * unat sz < 2 ^ 64" by (rule size_of_fits_word[OF le])
  have s: "size_of sz (buffer_items sz (address buf) (2 ^ k)) = 2 ^ k"
    by (rule size_of_items[OF assms(1) fits])
  have "unat (2 ^ k * sz) = 2 ^ k * unat sz"
    using fits by (subst unat_mult_lem [THEN iffD1]) (simp_all add: p)
  also have "\<dots> \<le> unat (size_of sz buf) * unat sz" using b(1) by simp
  also have "\<dots> \<le> unat (bytes buf)" by (rule size_of_fits)
  finally have "bytes (buffer_items sz (address buf) (2 ^ k)) \<le> bytes buf"
    by (simp add: buffer_items_def word_le_nat_alt)
  then show "\<exists>c j. make_pow2_size_buffer debug sz buf = Inr c \<and>
       address c = address buf \<and> bytes c \<le> bytes buf \<and>
       unat (size_of sz c) = 2 ^ j \<and> 2 ^ j \<le> unat (size_of sz buf) \<and>
       unat (size_of sz buf) < 2 ^ Suc j"
    using r s b p by (intro exI[of _ "buffer_items sz (address buf) (2 ^ k)"] exI[of _ k])
      (simp add: buffer_items_def)
qed

theorem make_pow2_size_buffer_largest_witness:
  "\<exists>b k. make_pow2_size_buffer True 4 (buffer_items 4 4096 100) = Inr b \<and>
     address b = 4096 \<and> unat (size_of 4 b) = 2 ^ k \<and> 2 ^ k \<le> (100 :: nat) \<and> (100 :: nat) < 2 ^ Suc k"
  using make_pow2_size_buffer_largest[of 4 "buffer_items 4 4096 100" True]
  by (auto simp: size_of_def buffer_items_def)

text \<open>\<open>offset\<close> moves the start and keeps the end of a buffer, \<open>advance\<close> and
  \<open>retreat\<close> slide the whole window past its end and undo each other, and \<open>shrink\<close> keeps the start and
  moves the end.\<close>

theorem buffer_windows:
  assumes "0 < sz" "scast amount \<le> size_of sz buf" "n \<le> size_of sz buf"
  shows "end_of sz (offset_by sz buf amount) = end_of sz buf \<and>
    size_of sz (offset_by sz buf amount) = size_of sz buf - scast amount \<and>
    end_of sz (advance sz buf m) = end_of sz buf + m * sz \<and>
    begin_of (retreat sz (advance sz buf m) m) = begin_of buf \<and>
    size_of sz (retreat sz (advance sz buf m) m) = size_of sz buf \<and>
    begin_of (shrink sz buf n) = begin_of buf \<and>
    end_of sz (shrink sz buf n) = end_of sz buf - n * sz"
proof -
  have sub: "size_of sz buf - n \<le> size_of sz buf" if "n \<le> size_of sz buf" for n
    using that by (simp add: word_le_nat_alt unat_sub)
  have a: "size_of sz (buffer_items sz p (size_of sz buf)) = size_of sz buf" for p
    by (rule size_of_items[OF assms(1) size_of_fits_word[OF order_refl]])
  have b: "size_of sz (buffer_items sz p (size_of sz buf - n)) = size_of sz buf - n"
    if "n \<le> size_of sz buf" for n p
    by (rule size_of_items[OF assms(1) size_of_fits_word[OF sub[OF that]]])
  show ?thesis
    by (simp add: end_of_def offset_by_def advance_def retreat_def shrink_def a b assms
        algebra_simps)
qed

theorem buffer_windows_witness:
  "end_of 4 (offset_by 4 (buffer_items 4 4096 10) 3) = end_of 4 (buffer_items 4 4096 10) \<and>
   end_of 4 (shrink 4 (buffer_items 4 4096 10) 2) = end_of 4 (buffer_items 4 4096 10) - 2 * 4"
proof -
  have "(scast (3 :: u32) :: u64) \<le> size_of 4 (buffer_items 4 4096 10)"
    "(2 :: u64) \<le> size_of 4 (buffer_items 4 4096 10)"
    by (simp_all add: size_of_def buffer_items_def)
  from buffer_windows[OF _ this] show ?thesis by simp
qed

text \<open>The range constructors assert the opposite of what they require: in a debug build
  every range that starts at or before its end is rejected; a release build accepts it at its
  byte length. A buffer made of a static buffer divides its number of
  items by the size of an item.\<close>

theorem range_constructors_inverted:
  assumes "first \<le> past"
  shows "buffer_range True sz first past = Inl Assertion_failed \<and>
    buffer_byte_range True first past = Inl Assertion_failed \<and>
    buffer_byte_range False first past = Inr \<lparr>address = first, bytes = past - first\<rparr> \<and>
    bytes (buffer_of_static sz n data) = n div sz"
  using assms
  by (simp add: buffer_range_def buffer_byte_range_def buffer_of_static_def not_less assertf_def)

theorem range_constructors_inverted_witness:
  "buffer_range True 4 4096 8192 = Inl Assertion_failed"
  using range_constructors_inverted[of 4096 8192 4] by simp

end
