(* ===== verification/Ceres_Freelist.thy ===== *)
theory Ceres_Freelist
  imports Ceres_Memory
begin

text \<open>
  The allocators of \<open>ceres/src/memory/allocator/\<close> and the free list of
  \<open>ceres/src/memory/composable/allocator/unity.hpp\<close>. A block is the union of an index
  (the free-list link, stored at the width of its index type) and a value; a pointer to a
  block is its distance from the start of the arena in blocks, so that a pointer past the
  arena is a number that is not below the number of blocks. The contract that clients of a
  single-item allocator rely on is the locale \<open>item_allocator\<close>, interpreted on all three
  allocators. The loops that link the blocks count them in an \<open>int\<close>, which overflows from \<open>2 ^ 31\<close> blocks on.
\<close>

section \<open>Blocks and links\<close>

datatype 'v block = Index_member nat | Value_member 'v

text \<open>The loop that links every block to the next one. \<open>static_item\<close> and \<open>fixed_item\<close> count in an
  \<open>int\<close>, whose increment past \<open>2 ^ 31 - 1\<close> is not defined, and narrow the count to the width of the
  link; \<open>unity\<close> counts in the unsigned type of the link, which wraps.\<close>

fun link_blocks :: "nat \<Rightarrow> nat \<Rightarrow> int \<Rightarrow> 'v block list outcome" where
  "link_blocks width 0 index = Inr []"
| "link_blocks width (Suc blocks) index =
     (if 2 ^ 31 \<le> index + 1 then Inl Undefined
      else and_then (link_blocks width blocks (index + 1)) (\<lambda>rest.
        Inr (Index_member (nat (index + 1) mod 2 ^ width) # rest)))"

definition wrapped_links :: "nat \<Rightarrow> nat \<Rightarrow> 'v block list" where
  "wrapped_links width n = map (\<lambda>i. Index_member (Suc i mod 2 ^ width)) [0..<n]"

text \<open>Reading the index of a block whose value was written last is not defined.\<close>

definition read_index :: "'v block list \<Rightarrow> nat \<Rightarrow> nat outcome" where
  "read_index blocks p =
     and_then (checked_nth blocks p)
       (\<lambda>b. case b of Index_member i \<Rightarrow> Inr i | Value_member v \<Rightarrow> Inl Undefined)"

definition write_index :: "nat \<Rightarrow> 'v block list \<Rightarrow> nat \<Rightarrow> nat \<Rightarrow> 'v block list outcome" where
  "write_index width blocks p i = checked_update blocks p (Index_member (i mod 2 ^ width))"

text \<open>The client of an allocator writes the value of a block it holds.\<close>

definition write_value :: "'v block list \<Rightarrow> nat \<Rightarrow> 'v \<Rightarrow> 'v block list outcome" where
  "write_value blocks p v = checked_update blocks p (Value_member v)"

text \<open>\<open>core::one << bits\<close>, and \<open>1 << bits\<close> at the width of an \<open>int\<close>.\<close>

definition shifted_one :: "nat \<Rightarrow> u64 outcome" where
  "shifted_one bits = (if bits < 64 then Inr (2 ^ bits) else Inl Undefined)"

definition shifted_int_one :: "nat \<Rightarrow> u64 outcome" where
  "shifted_int_one bits = (if bits < 32 then Inr (scast (push_bit bits (1 :: u32))) else Inl Undefined)"

section \<open>static_item\<close>

record 'v static_item =
  head_block :: nat
  mem :: "'v block list"

text \<open>The width of the index type \<open>core::min_word_size<N-1>::type\<close>.\<close>

definition static_index_width :: "u64 \<Rightarrow> nat" where
  "static_index_width n = the (min_word_size (n - 1))"

definition static_item_new :: "bool \<Rightarrow> u64 \<Rightarrow> 'v static_item outcome" where
  "static_item_new debug n =
     and_then (if debug then and_then (shifted_one (min_num_bytes n * 8)) (\<lambda>b. assertf True (n < b))
               else Inr ()) (\<lambda>_.
     and_then (link_blocks (static_index_width n) (unat n) 0) (\<lambda>blocks.
     Inr \<lparr>head_block = 0, mem = blocks\<rparr>))"

definition static_item_max_size :: "u64 \<Rightarrow> u64" where
  "static_item_max_size n = n"

definition static_item_allocate ::
    "bool \<Rightarrow> u64 \<Rightarrow> 'v static_item \<Rightarrow> (nat \<times> 'v static_item) outcome" where
  "static_item_allocate debug num s =
     and_then (assertf debug (num = 1)) (\<lambda>_.
     and_then (assertf debug (head_block s < length (mem s))) (\<lambda>_.
     and_then (read_index (mem s) (head_block s)) (\<lambda>i.
     Inr (head_block s, s\<lparr>head_block := i\<rparr>))))"

definition static_item_deallocate ::
    "bool \<Rightarrow> nat \<Rightarrow> u64 \<Rightarrow> nat \<Rightarrow> 'v static_item \<Rightarrow> 'v static_item outcome" where
  "static_item_deallocate debug width num p s =
     and_then (assertf debug (num = 1)) (\<lambda>_.
     and_then (assertf debug (p < length (mem s))) (\<lambda>_.
     and_then (write_index width (mem s) p (head_block s)) (\<lambda>blocks.
     Inr (s\<lparr>mem := blocks, head_block := p\<rparr>))))"

definition static_item_store :: "nat \<Rightarrow> 'v \<Rightarrow> 'v static_item \<Rightarrow> 'v static_item outcome" where
  "static_item_store p v s =
     and_then (write_value (mem s) p v) (\<lambda>blocks. Inr (s\<lparr>mem := blocks\<rparr>))"

section \<open>fixed_item\<close>

text \<open>\<open>None\<close> is the null arena that the first \<open>allocate\<close> replaces; \<open>head_\<close> is not
  initialised before that.\<close>

record 'v fixed_item =
  free_head :: nat
  num_blocks :: u64
  arena :: "'v block list option"

definition fixed_item_default :: "'v fixed_item" where
  "fixed_item_default = \<lparr>free_head = 0, num_blocks = 0, arena = None\<rparr>"

definition fixed_item_new :: "u64 \<Rightarrow> 'v fixed_item" where
  "fixed_item_new n = \<lparr>free_head = 0, num_blocks = n, arena = None\<rparr>"

definition fixed_item_copy :: "'v fixed_item \<Rightarrow> 'v fixed_item" where
  "fixed_item_copy s = fixed_item_new (num_blocks s)"

definition fixed_item_destroy :: "'v fixed_item \<Rightarrow> 'v fixed_item" where
  "fixed_item_destroy s = s\<lparr>arena := None, num_blocks := 0\<rparr>"

definition fixed_item_max_size :: "'v fixed_item \<Rightarrow> u64" where
  "fixed_item_max_size s = num_blocks s"

definition fixed_item_prepare :: "'v fixed_item \<Rightarrow> 'v fixed_item outcome" where
  "fixed_item_prepare s =
     (if arena s = None
      then and_then (link_blocks 32 (unat (fixed_item_max_size s)) 0) (\<lambda>blocks.
        Inr (s\<lparr>arena := Some blocks, free_head := 0\<rparr>))
      else Inr s)"

definition fixed_item_allocate ::
    "bool \<Rightarrow> u64 \<Rightarrow> 'v fixed_item \<Rightarrow> (nat \<times> 'v fixed_item) outcome" where
  "fixed_item_allocate debug num s0 =
     and_then (fixed_item_prepare s0) (\<lambda>s. let blocks = the (arena s) in
     and_then (assertf debug (num = 1)) (\<lambda>_.
     and_then (assertf debug (free_head s < length blocks)) (\<lambda>_.
     and_then (if debug
               then and_then (shifted_int_one (min_num_bytes (fixed_item_max_size s) * 8))
                 (\<lambda>b. assertf True (num_blocks s < b))
               else Inr ()) (\<lambda>_.
     and_then (read_index blocks (free_head s)) (\<lambda>i.
     Inr (free_head s, s\<lparr>free_head := i\<rparr>))))))"

definition fixed_item_deallocate ::
    "bool \<Rightarrow> u64 \<Rightarrow> nat \<Rightarrow> 'v fixed_item \<Rightarrow> 'v fixed_item outcome" where
  "fixed_item_deallocate debug num p s =
     and_then (assertf debug (num = 1)) (\<lambda>_.
     and_then (assertf debug (arena s \<noteq> None)) (\<lambda>_.
     (case arena s of None \<Rightarrow> Inl Undefined | Some blocks \<Rightarrow>
     and_then (assertf debug (p < length blocks)) (\<lambda>_.
     and_then (write_index 32 blocks p (free_head s)) (\<lambda>blocks'.
     Inr (s\<lparr>arena := Some blocks', free_head := p\<rparr>))))))"

definition fixed_item_store :: "nat \<Rightarrow> 'v \<Rightarrow> 'v fixed_item \<Rightarrow> 'v fixed_item outcome" where
  "fixed_item_store p v s =
     (case arena s of None \<Rightarrow> Inl Undefined | Some blocks \<Rightarrow>
     and_then (write_value blocks p v) (\<lambda>blocks'. Inr (s\<lparr>arena := Some blocks'\<rparr>)))"

section \<open>unity\<close>

text \<open>The state that \<open>unity\<close> adds to its base allocator: \<open>head\<close> and the arena that the
  base provides, which may be a null pointer; the length of the list is \<open>mem.size\<close>.\<close>

record 'v unity_state =
  unity_head :: nat
  unity_null :: bool
  unity_arena :: "'v block list"

definition unity_initialize :: "bool \<Rightarrow> nat \<Rightarrow> 'v unity_state \<Rightarrow> 'v unity_state outcome" where
  "unity_initialize debug index_bytes s =
     and_then (assertf debug (\<not> unity_null s)) (\<lambda>_.
     and_then (if debug
               then and_then (shifted_one (index_bytes * 8))
                 (\<lambda>b. assertf True (of_nat (length (unity_arena s)) < b))
               else Inr ()) (\<lambda>_.
     if unity_null s \<and> unity_arena s \<noteq> [] then Inl Undefined
     else Inr (s\<lparr>unity_head := 0,
            unity_arena := wrapped_links (index_bytes * 8) (length (unity_arena s))\<rparr>)))"

text \<open>The copy constructor copies the state, with the pointer to the arena, and
  initialises it again.\<close>

definition unity_copy :: "bool \<Rightarrow> nat \<Rightarrow> 'v unity_state \<Rightarrow> 'v unity_state outcome" where
  "unity_copy debug index_bytes copy = unity_initialize debug index_bytes copy"

definition unity_allocate ::
    "bool \<Rightarrow> u64 \<Rightarrow> 'v unity_state \<Rightarrow> (nat \<times> 'v unity_state) outcome" where
  "unity_allocate debug num s =
     and_then (assertf debug (num = 1)) (\<lambda>_.
     and_then (assertf debug (unity_head s < length (unity_arena s))) (\<lambda>_.
     if unity_null s then Inl Undefined else
     and_then (read_index (unity_arena s) (unity_head s)) (\<lambda>i.
     Inr (unity_head s, s\<lparr>unity_head := i\<rparr>))))"

definition unity_deallocate ::
    "bool \<Rightarrow> nat \<Rightarrow> u64 \<Rightarrow> nat \<Rightarrow> 'v unity_state \<Rightarrow> 'v unity_state outcome" where
  "unity_deallocate debug index_bytes num p s =
     and_then (assertf debug (num = 1)) (\<lambda>_.
     and_then (assertf debug (p < length (unity_arena s))) (\<lambda>_.
     if unity_null s then Inl Undefined else
     and_then (write_index (index_bytes * 8) (unity_arena s) p (unity_head s)) (\<lambda>blocks.
     Inr (s\<lparr>unity_arena := blocks, unity_head := p\<rparr>))))"

definition unity_store :: "nat \<Rightarrow> 'v \<Rightarrow> 'v unity_state \<Rightarrow> 'v unity_state outcome" where
  "unity_store p v s =
     (if unity_null s then Inl Undefined else
      and_then (write_value (unity_arena s) p v) (\<lambda>blocks. Inr (s\<lparr>unity_arena := blocks\<rparr>)))"

section \<open>static_buffer and fixed_buffer\<close>

text \<open>The address of the embedded array is \<open>base\<close>, and the address that \<open>new\<close> returns
  is \<open>fresh\<close>.\<close>

definition static_buffer_allocate :: "u64 \<Rightarrow> u64 \<Rightarrow> u64" where
  "static_buffer_allocate items num = items"

definition static_buffer_deallocate :: "bool \<Rightarrow> u64 \<Rightarrow> u64 \<Rightarrow> u64 \<Rightarrow> unit outcome" where
  "static_buffer_deallocate debug items p num = assertf debug (items = p)"

definition fixed_buffer_new :: "u64 \<Rightarrow> u64 \<Rightarrow> buffer" where
  "fixed_buffer_new sz n = buffer_items sz 0 n"

definition fixed_buffer_copy :: "u64 \<Rightarrow> buffer \<Rightarrow> buffer" where
  "fixed_buffer_copy sz b = buffer_items sz 0 (size_of sz b)"

definition fixed_buffer_destroy :: "buffer \<Rightarrow> buffer" where
  "fixed_buffer_destroy b = buffer_reset b buffer_default"

definition fixed_buffer_max_size :: "u64 \<Rightarrow> buffer \<Rightarrow> u64" where
  "fixed_buffer_max_size sz b = size_of sz b"

definition fixed_buffer_allocate :: "u64 \<Rightarrow> u64 \<Rightarrow> u64 \<Rightarrow> buffer \<Rightarrow> u64 \<times> buffer" where
  "fixed_buffer_allocate sz fresh num b =
     (let b' = (if \<not> buffer_bool b
                then buffer_reset b (buffer_items sz fresh (fixed_buffer_max_size sz b)) else b)
      in (address b', b'))"

definition fixed_buffer_deallocate :: "bool \<Rightarrow> u64 \<Rightarrow> u64 \<Rightarrow> u64 \<Rightarrow> buffer \<Rightarrow> buffer outcome" where
  "fixed_buffer_deallocate debug sz p num b =
     and_then (assertf debug (contains sz b p)) (\<lambda>_. Inr b)"

section \<open>The contract of a single-item allocator\<close>

text \<open>A client allocates blocks, writes blocks it holds and returns blocks it holds; the state
  is paired with the blocks held.\<close>

inductive client ::
    "('s \<Rightarrow> (nat \<times> 's) outcome) \<Rightarrow> (nat \<Rightarrow> 's \<Rightarrow> 's outcome) \<Rightarrow> (nat \<Rightarrow> 'v \<Rightarrow> 's \<Rightarrow> 's outcome) \<Rightarrow>
     's \<Rightarrow> 's \<times> nat list \<Rightarrow> bool"
  for alloc dealloc store s0 where
  client_start: "client alloc dealloc store s0 (s0, [])"
| client_alloc: "client alloc dealloc store s0 (s, held) \<Longrightarrow> alloc s = Inr (p, s') \<Longrightarrow>
    client alloc dealloc store s0 (s', p # held)"
| client_free: "client alloc dealloc store s0 (s, held) \<Longrightarrow> p \<in> set held \<Longrightarrow> dealloc p s = Inr s' \<Longrightarrow>
    client alloc dealloc store s0 (s', remove1 p held)"
| client_write: "client alloc dealloc store s0 (s, held) \<Longrightarrow> p \<in> set held \<Longrightarrow> store p v s = Inr s' \<Longrightarrow>
    client alloc dealloc store s0 (s', held)"

text \<open>\<open>k\<close> allocations in a row.\<close>

fun allocate_many :: "('s \<Rightarrow> (nat \<times> 's) outcome) \<Rightarrow> nat \<Rightarrow> 's \<Rightarrow> (nat list \<times> 's) outcome" where
  "allocate_many alloc 0 s = Inr ([], s)"
| "allocate_many alloc (Suc k) s =
     and_then (alloc s) (\<lambda>(p, s'). and_then (allocate_many alloc k s') (\<lambda>(ps, s''). Inr (p # ps, s'')))"

locale item_allocator =
  fixes alloc :: "'s \<Rightarrow> (nat \<times> 's) outcome"
    and dealloc :: "nat \<Rightarrow> 's \<Rightarrow> 's outcome"
    and store :: "nat \<Rightarrow> 'v \<Rightarrow> 's \<Rightarrow> 's outcome"
    and capacity :: "'s \<Rightarrow> nat"
    and free :: "'s \<Rightarrow> nat list \<Rightarrow> bool"
  assumes free_distinct: "free s ps \<Longrightarrow> distinct ps"
    and free_capacity: "free s ps \<Longrightarrow> set ps \<subseteq> {..<capacity s}"
    and alloc_head: "free s (p # ps) \<Longrightarrow> \<exists>s'. alloc s = Inr (p, s') \<and> free s' ps \<and> capacity s' = capacity s"
    and alloc_empty: "free s [] \<Longrightarrow> \<exists>e. alloc s = Inl e"
    and dealloc_push: "free s ps \<Longrightarrow> p < capacity s \<Longrightarrow> p \<notin> set ps \<Longrightarrow>
      \<exists>s'. dealloc p s = Inr s' \<and> free s' (p # ps) \<and> capacity s' = capacity s"
    and store_keeps: "free s ps \<Longrightarrow> p < capacity s \<Longrightarrow> p \<notin> set ps \<Longrightarrow>
      \<exists>s'. store p v s = Inr s' \<and> free s' ps \<and> capacity s' = capacity s"
begin

definition consistent :: "nat \<Rightarrow> 's \<Rightarrow> nat list \<Rightarrow> bool" where
  "consistent n s held \<longleftrightarrow> capacity s = n \<and>
     (\<exists>ps. free s ps \<and> distinct (held @ ps) \<and> set (held @ ps) = {..<n})"

lemma client_consistent:
  assumes "client alloc dealloc store s0 (s, held)" "free s0 ps0" "set ps0 = {..<capacity s0}"
  shows "consistent (capacity s0) s held"
  using assms(1)
proof (induction "(s, held)" arbitrary: s held rule: client.induct)
  case client_start
  then show ?case using assms(2,3) by (auto simp: consistent_def intro: free_distinct)
next
  case (client_alloc s held p s')
  then obtain ps where ps: "free s ps" "distinct (held @ ps)" "set (held @ ps) = {..<capacity s0}"
    and c: "capacity s = capacity s0" by (auto simp: consistent_def)
  show ?case
  proof (cases ps)
    case Nil
    then show ?thesis using alloc_empty[of s] ps(1) client_alloc by auto
  next
    case (Cons q qs)
    then have "p = q" "free s' qs" "capacity s' = capacity s"
      using alloc_head[of s q qs] ps(1) client_alloc by auto
    then show ?thesis using ps c Cons by (auto simp: consistent_def intro!: exI[of _ qs])
  qed
next
  case (client_free s held p s')
  then obtain ps where ps: "free s ps" "distinct (held @ ps)" "set (held @ ps) = {..<capacity s0}"
    and c: "capacity s = capacity s0" by (auto simp: consistent_def)
  then have "p < capacity s" "p \<notin> set ps" using client_free by auto
  then have "free s' (p # ps)" "capacity s' = capacity s"
    using dealloc_push[of s ps p] ps(1) client_free by auto
  moreover have "distinct (remove1 p held @ p # ps)"
    using ps(2) client_free(3) by (auto simp: distinct_remove1)
  moreover have "set (remove1 p held @ p # ps) = {..<capacity s0}"
    using ps(2,3) client_free(3) by auto
  ultimately show ?case using c unfolding consistent_def by (intro conjI exI[of _ "p # ps"]) simp_all
next
  case (client_write s held p v s')
  then obtain ps where ps: "free s ps" "distinct (held @ ps)" "set (held @ ps) = {..<capacity s0}"
    and c: "capacity s = capacity s0" by (auto simp: consistent_def)
  then have "p < capacity s" "p \<notin> set ps" using client_write by auto
  then have "free s' ps" "capacity s' = capacity s"
    using store_keeps[of s ps p v] ps(1) client_write by auto
  then show ?case using ps c by (auto simp: consistent_def intro!: exI[of _ ps])
qed

lemma consistent_held:
  assumes "consistent n s held"
  shows "distinct held \<and> set held \<subseteq> {..<n} \<and> length held \<le> n"
proof -
  from assms obtain ps where ps: "distinct (held @ ps)" "set (held @ ps) = {..<n}"
    by (auto simp: consistent_def)
  have "length held + length ps = n" using distinct_card[OF ps(1)] ps(2) by simp
  then show ?thesis using ps by auto
qed

lemma consistent_alloc:
  assumes "consistent n s held"
  shows "if length held < n then \<exists>p s'. alloc s = Inr (p, s') \<and> p < n \<and> p \<notin> set held
    else \<exists>e. alloc s = Inl e"
proof -
  from assms obtain ps where ps: "free s ps" "distinct (held @ ps)" "set (held @ ps) = {..<n}"
    and c: "capacity s = n" by (auto simp: consistent_def)
  have len: "length held + length ps = n"
    using distinct_card[OF ps(2)] ps(3) by simp
  show ?thesis
  proof (cases ps)
    case Nil
    then show ?thesis using len alloc_empty ps(1) by auto
  next
    case (Cons q qs)
    then obtain s' where "alloc s = Inr (q, s')" using alloc_head ps(1) by blast
    then show ?thesis using Cons len ps by auto
  qed
qed

lemma consistent_free:
  assumes "consistent n s held" "p \<in> set held"
  shows "\<exists>s' s''. dealloc p s = Inr s' \<and> alloc s' = Inr (p, s'')"
proof -
  from assms obtain ps where ps: "free s ps" "distinct (held @ ps)" "set (held @ ps) = {..<n}"
    and c: "capacity s = n" by (auto simp: consistent_def)
  then have "p < capacity s" "p \<notin> set ps" using assms by auto
  then obtain s' where "dealloc p s = Inr s'" "free s' (p # ps)" using dealloc_push ps(1) by blast
  then show ?thesis using alloc_head by blast
qed

lemma client_safe:
  assumes "client alloc dealloc store s0 (s, held)" "free s0 ps0" "set ps0 = {..<capacity s0}"
  shows "distinct held \<and> set held \<subseteq> {..<capacity s0} \<and>
    (if length held < capacity s0
     then \<exists>p s'. alloc s = Inr (p, s') \<and> p < capacity s0 \<and> p \<notin> set held
     else \<exists>e. alloc s = Inl e) \<and>
    (\<forall>p \<in> set held. \<exists>s' s''. dealloc p s = Inr s' \<and> alloc s' = Inr (p, s''))"
  using client_consistent[OF assms] consistent_held consistent_alloc consistent_free by blast

lemma allocate_many_free:
  "free s ps \<Longrightarrow> k \<le> length ps \<Longrightarrow>
     \<exists>s'. allocate_many alloc k s = Inr (take k ps, s') \<and> free s' (drop k ps)"
proof (induction k arbitrary: s ps)
  case (Suc k)
  then obtain p qs where ps: "ps = p # qs" by (cases ps) auto
  then obtain s' where s': "alloc s = Inr (p, s')" "free s' qs" using alloc_head Suc.prems by blast
  then show ?case using Suc.IH[of s' qs] Suc.prems ps by auto
qed simp

end

section \<open>The free list\<close>

text \<open>The list of free blocks that the links spell out from the head.\<close>

fun chain :: "'v block list \<Rightarrow> nat \<Rightarrow> nat list \<Rightarrow> bool" where
  "chain blocks h [] \<longleftrightarrow> h = length blocks"
| "chain blocks h (p # ps) \<longleftrightarrow> h = p \<and> p < length blocks \<and>
     (case blocks ! p of Index_member q \<Rightarrow> chain blocks q ps | Value_member v \<Rightarrow> False)"

lemma chain_update: "p \<notin> set ps \<Longrightarrow> chain (blocks[p := b]) h ps \<longleftrightarrow> chain blocks h ps"
  by (induction blocks h ps rule: chain.induct) (auto split: block.splits)

lemma chain_bound: "chain blocks h ps \<Longrightarrow> set ps \<subseteq> {..<length blocks}"
  by (induction blocks h ps rule: chain.induct) (auto split: block.splits)

lemma chain_read:
  "chain blocks h (p # ps) \<Longrightarrow>
     h = p \<and> p < length blocks \<and> (\<exists>q. read_index blocks p = Inr q \<and> chain blocks q ps)"
  by (auto simp: read_index_def split: block.splits)

lemma chain_empty_read: "chain blocks h [] \<Longrightarrow> read_index blocks h = Inl Out_of_bounds"
  by (simp add: read_index_def)

lemma chain_head_le: "chain blocks h ps \<Longrightarrow> h \<le> length blocks"
  by (cases ps) auto

lemma chain_push:
  assumes "chain blocks h ps" "p < length blocks" "p \<notin> set ps" "length blocks < 2 ^ width"
  shows "chain (blocks[p := Index_member (h mod 2 ^ width)]) p (p # ps)"
  using assms chain_head_le[OF assms(1)] by (simp add: chain_update)

lemma length_wrapped_links [simp]: "length (wrapped_links width n) = n"
  by (simp add: wrapped_links_def)

lemma nth_wrapped_links: "i < n \<Longrightarrow> wrapped_links width n ! i = Index_member (Suc i mod 2 ^ width)"
  by (simp add: wrapped_links_def)

lemma chain_wrapped_links:
  assumes "n < 2 ^ width" "k \<le> n"
  shows "chain (wrapped_links width n :: 'v block list) k [k..<n]"
  using assms(2)
proof (induction "n - k" arbitrary: k)
  case 0
  then show ?case by simp
next
  case (Suc m)
  have "chain (wrapped_links width n :: 'v block list) (Suc k) [Suc k..<n]"
    using Suc by (intro Suc.hyps(1)) simp_all
  then show ?case using Suc assms(1) by (simp add: upt_rec[of k] nth_wrapped_links)
qed

lemma chain_unique: "chain blocks h ps \<Longrightarrow> chain blocks h qs \<Longrightarrow> ps = qs"
proof (induction blocks h ps arbitrary: qs rule: chain.induct)
  case (1 blocks h)
  then show ?case by (cases qs) auto
next
  case (2 blocks h p ps)
  then show ?case by (cases qs) (auto split: block.splits)
qed

lemma link_blocks_wrapped:
  "int index + int n < 2 ^ 31 \<Longrightarrow> (link_blocks width n (int index) :: 'v block list outcome) =
     Inr (map (\<lambda>i. Index_member (Suc i mod 2 ^ width)) [index..<index + n])"
proof (induction n arbitrary: index)
  case (Suc n)
  have "(link_blocks width n (int (Suc index)) :: 'v block list outcome) =
      Inr (map (\<lambda>i. Index_member (Suc i mod 2 ^ width)) [Suc index..<Suc index + n])"
    by (rule Suc.IH) (use Suc.prems in simp)
  moreover have "nat (int index + 1) = Suc index" "int index + 1 = int (Suc index)" by simp_all
  ultimately show ?case using Suc.prems
    by (simp add: upt_rec[of index] add.commute[of _ "1 :: int"] del: upt_Suc)
qed simp

lemma link_blocks_zero: "n < 2 ^ 31 \<Longrightarrow> link_blocks width n 0 = Inr (wrapped_links width n)"
  using link_blocks_wrapped[of 0 n width] by (simp add: wrapped_links_def)

lemma link_blocks_overflow:
  "0 \<le> index \<Longrightarrow> index < 2 ^ 31 \<Longrightarrow> 2 ^ 31 \<le> index + int n \<Longrightarrow> link_blocks width n index = Inl Undefined"
proof (induction n arbitrary: index)
  case (Suc n)
  then show ?case using Suc.IH[of "index + 1"] by (cases "2 ^ 31 \<le> index + 1") simp_all
qed simp

lemma link_blocks_too_many: "2 ^ 31 \<le> n \<Longrightarrow> link_blocks width n 0 = Inl Undefined"
  by (rule link_blocks_overflow) simp_all

text \<open>The state that preparing a fixed heap gives when its blocks can be linked.\<close>

definition fixed_prepared :: "'v fixed_item \<Rightarrow> 'v fixed_item" where
  "fixed_prepared s =
     (if arena s = None
      then s\<lparr>arena := Some (wrapped_links 32 (unat (num_blocks s))), free_head := 0\<rparr> else s)"

lemma fixed_prepare_ok:
  "unat (num_blocks s) < 2 ^ 31 \<Longrightarrow> fixed_item_prepare s = Inr (fixed_prepared s)"
  by (simp add: fixed_item_prepare_def fixed_prepared_def fixed_item_max_size_def link_blocks_zero)

definition static_free :: "nat \<Rightarrow> 'v static_item \<Rightarrow> nat list \<Rightarrow> bool" where
  "static_free width s ps \<longleftrightarrow>
     chain (mem s) (head_block s) ps \<and> distinct ps \<and> length (mem s) < 2 ^ width"

definition fixed_free :: "bool \<Rightarrow> 'v fixed_item \<Rightarrow> nat list \<Rightarrow> bool" where
  "fixed_free debug s ps \<longleftrightarrow>
     unat (num_blocks s) < (if debug then 2 ^ 16 else 2 ^ 31) \<and> distinct ps \<and>
     length (the (arena (fixed_prepared s))) = unat (num_blocks s) \<and>
     chain (the (arena (fixed_prepared s))) (free_head (fixed_prepared s)) ps"

definition unity_free :: "nat \<Rightarrow> 'v unity_state \<Rightarrow> nat list \<Rightarrow> bool" where
  "unity_free index_bytes s ps \<longleftrightarrow> \<not> unity_null s \<and> distinct ps \<and>
     chain (unity_arena s) (unity_head s) ps \<and> length (unity_arena s) < 2 ^ (index_bytes * 8)"

interpretation static_heap: item_allocator
  "static_item_allocate debug 1" "static_item_deallocate debug width 1" static_item_store
  "\<lambda>s. length (mem s)" "static_free width"
  for debug :: bool and width :: nat
proof unfold_locales
  fix s :: "'a static_item" and ps p
  assume f: "static_free width s (p # ps)"
  then obtain q where "head_block s = p" "p < length (mem s)" "read_index (mem s) p = Inr q" "chain (mem s) q ps"
    using chain_read[of "mem s" "head_block s" p ps] by (auto simp only: static_free_def)
  with f show "\<exists>s'. static_item_allocate debug 1 s = Inr (p, s') \<and> static_free width s' ps \<and>
      length (mem s') = length (mem s)"
    by (simp add: static_free_def static_item_allocate_def)
next
  fix s :: "'a static_item" and ps p and v :: 'a
  assume f: "static_free width s ps" "p < length (mem s)" "p \<notin> set ps"
  then show "\<exists>s'. static_item_deallocate debug width 1 p s = Inr s' \<and>
      static_free width s' (p # ps) \<and> length (mem s') = length (mem s)"
    using chain_push[of "mem s" "head_block s" ps p width]
    by (auto simp: static_free_def static_item_deallocate_def write_index_def)
  from f show "\<exists>s'. static_item_store p v s = Inr s' \<and> static_free width s' ps \<and>
      length (mem s') = length (mem s)"
    by (auto simp: static_free_def static_item_store_def write_value_def chain_update)
next
  fix s :: "'a static_item"
  assume "static_free width s []"
  then show "\<exists>e. static_item_allocate debug 1 s = Inl e"
    by (cases debug) (auto simp: static_free_def static_item_allocate_def chain_empty_read)
qed (simp_all add: static_free_def, metis chain_bound)

lemma shifted_int_small: "k < 31 \<Longrightarrow> shifted_int_one k = Inr (2 ^ k)"
  by (simp only: shifted_int_one_def scast_pow2) simp

lemma small_count_bound:
  assumes "unat n < 2 ^ 16"
  shows "\<exists>b. shifted_int_one (min_num_bytes n * 8) = Inr b \<and> n < b"
  using assms shifted_int_small[of 8] shifted_int_small[of 16]
  by (auto simp: min_num_bytes_eq word_less_nat_alt)

lemma fixed_prepare_simps [simp]:
  "num_blocks (fixed_prepared s) = num_blocks s"
  "arena (fixed_prepared s) \<noteq> None"
  "fixed_prepared (fixed_prepared s) = fixed_prepared s"
  "arena s = Some blocks \<Longrightarrow> fixed_prepared s = s"
  by (simp_all add: fixed_prepared_def)

interpretation fixed_heap: item_allocator
  "fixed_item_allocate debug 1" "fixed_item_deallocate debug 1" fixed_item_store
  "\<lambda>s. unat (num_blocks s)" "fixed_free debug"
  for debug :: bool
proof unfold_locales
  fix s :: "'a fixed_item" and ps p
  assume f: "fixed_free debug s (p # ps)"
  let ?s = "fixed_prepared s"
  obtain blocks where b: "arena ?s = Some blocks" using fixed_prepare_simps(2)[of s] by blast
  have "chain blocks (free_head ?s) (p # ps)" using f b by (simp only: fixed_free_def option.sel)
  then obtain q where q: "free_head ?s = p" "p < length blocks" "read_index blocks p = Inr q"
      "chain blocks q ps"
    using chain_read by blast
  let ?s' = "?s\<lparr>free_head := q\<rparr>"
  have n: "debug \<Longrightarrow> unat (num_blocks s) < 2 ^ 16" using f by (simp add: fixed_free_def)
  have ok: "fixed_item_prepare s = Inr ?s" using f
    by (intro fixed_prepare_ok) (auto simp: fixed_free_def split: if_splits)
  have "fixed_item_allocate debug 1 s = Inr (p, ?s')"
    using q b n ok small_count_bound[of "num_blocks s"]
    by (cases debug) (auto simp: fixed_item_allocate_def fixed_item_max_size_def Let_def)
  moreover have "arena ?s' = Some blocks" "num_blocks ?s' = num_blocks s" using b by simp_all
  moreover from this have "fixed_free debug ?s' ps" using f q b by (simp add: fixed_free_def)
  ultimately show "\<exists>s'. fixed_item_allocate debug 1 s = Inr (p, s') \<and> fixed_free debug s' ps \<and>
      unat (num_blocks s') = unat (num_blocks s)" by simp
next
  fix s :: "'a fixed_item" and ps p and v :: 'a
  assume f: "fixed_free debug s ps" "p < unat (num_blocks s)" "p \<notin> set ps"
  have "arena s \<noteq> None"
  proof
    assume a: "arena s = None"
    have "chain (wrapped_links 32 (unat (num_blocks s)) :: 'a block list) 0 ps" using f(1) a
      by (simp add: fixed_free_def fixed_prepared_def)
    moreover have "chain (wrapped_links 32 (unat (num_blocks s)) :: 'a block list) 0 [0..<unat (num_blocks s)]"
      using f(1) by (intro chain_wrapped_links) (auto simp: fixed_free_def split: if_splits)
    ultimately have "ps = [0..<unat (num_blocks s)]" by (rule chain_unique)
    then show False using f by simp
  qed
  then obtain blocks where b: "arena s = Some blocks" by blast
  have w: "length blocks < 2 ^ 32" using f b by (auto simp: fixed_free_def split: if_splits)
  show "\<exists>s'. fixed_item_deallocate debug 1 p s = Inr s' \<and> fixed_free debug s' (p # ps) \<and>
      unat (num_blocks s') = unat (num_blocks s)"
    using f b w chain_push[of blocks "free_head s" ps p 32]
    by (auto simp: fixed_free_def fixed_item_deallocate_def write_index_def)
  from f b show "\<exists>s'. fixed_item_store p v s = Inr s' \<and> fixed_free debug s' ps \<and>
      unat (num_blocks s') = unat (num_blocks s)"
    by (auto simp: fixed_free_def fixed_item_store_def write_value_def chain_update)
next
  fix s :: "'a fixed_item"
  assume f: "fixed_free debug s []"
  then have "fixed_item_prepare s = Inr (fixed_prepared s)"
    by (intro fixed_prepare_ok) (auto simp: fixed_free_def split: if_splits)
  with f show "\<exists>e. fixed_item_allocate debug 1 s = Inl e"
    by (cases debug) (auto simp: fixed_free_def fixed_item_allocate_def chain_empty_read Let_def)
qed (simp_all add: fixed_free_def, metis chain_bound)

interpretation unity_heap: item_allocator
  "unity_allocate debug 1" "unity_deallocate debug index_bytes 1" unity_store
  "\<lambda>s. length (unity_arena s)" "unity_free index_bytes"
  for debug :: bool and index_bytes :: nat
proof unfold_locales
  fix s :: "'a unity_state" and ps p
  assume f: "unity_free index_bytes s (p # ps)"
  then obtain q where "unity_head s = p" "p < length (unity_arena s)" "read_index (unity_arena s) p = Inr q" "chain (unity_arena s) q ps"
    using chain_read[of "unity_arena s" "unity_head s" p ps] by (auto simp only: unity_free_def)
  with f show "\<exists>s'. unity_allocate debug 1 s = Inr (p, s') \<and> unity_free index_bytes s' ps \<and>
      length (unity_arena s') = length (unity_arena s)"
    by (simp add: unity_free_def unity_allocate_def)
next
  fix s :: "'a unity_state" and ps p and v :: 'a
  assume f: "unity_free index_bytes s ps" "p < length (unity_arena s)" "p \<notin> set ps"
  then show "\<exists>s'. unity_deallocate debug index_bytes 1 p s = Inr s' \<and>
      unity_free index_bytes s' (p # ps) \<and> length (unity_arena s') = length (unity_arena s)"
    using chain_push[of "unity_arena s" "unity_head s" ps p "index_bytes * 8"]
    by (auto simp: unity_free_def unity_deallocate_def write_index_def)
  from f show "\<exists>s'. unity_store p v s = Inr s' \<and> unity_free index_bytes s' ps \<and>
      length (unity_arena s') = length (unity_arena s)"
    by (auto simp: unity_free_def unity_store_def write_value_def chain_update)
next
  fix s :: "'a unity_state"
  assume "unity_free index_bytes s []"
  then show "\<exists>e. unity_allocate debug 1 s = Inl e"
    by (cases debug) (auto simp: unity_free_def unity_allocate_def chain_empty_read)
qed (simp_all add: unity_free_def, metis chain_bound)

section \<open>Properties\<close>

lemma static_width_cases:
  "static_index_width n = 8 * min_num_bytes (n - 1)"
  by (simp add: static_index_width_def min_word_size_def min_num_bytes_eq)

lemma static_new_ok:
  assumes "unat n < 2 ^ 31"
  shows "static_item_new debug n =
    Inr \<lparr>head_block = 0, mem = wrapped_links (static_index_width n) (unat n)\<rparr>"
  using assms
  by (auto simp: static_item_new_def shifted_one_def min_num_bytes_eq word_less_nat_alt
      link_blocks_zero)

lemma static_new_too_many:
  assumes "2 ^ 31 \<le> unat n"
  shows "static_item_new debug n = Inl Undefined"
  using assms
  by (auto simp: static_item_new_def shifted_one_def min_num_bytes_eq word_less_nat_alt
      link_blocks_too_many)

text \<open>C2: A heap of \<open>N < 2 ^ 31\<close> items whose links fit the index type never hands out a block
  that is held, whatever sequence of allocations, writes and deallocations a client makes: an
  allocation succeeds exactly while fewer than \<open>N\<close> blocks are held, and a returned block is the
  next one to be allocated. From \<open>2 ^ 31\<close> items on, constructing the heap is undefined: the \<open>int\<close>
  that numbers the blocks overflows.\<close>

theorem static_item_client_safe:
  fixes s :: "'v static_item"
  assumes "unat n < 2 ^ 31" "unat n < 2 ^ static_index_width n"
    and "static_item_new debug n = Inr s0"
    and "client (static_item_allocate debug 1)
          (static_item_deallocate debug (static_index_width n) 1) static_item_store s0 (s, held)"
  shows "distinct held \<and> set held \<subseteq> {..<unat n} \<and>
    (if length held < unat n
     then \<exists>p s'. static_item_allocate debug 1 s = Inr (p, s') \<and> p < unat n \<and> p \<notin> set held
     else \<exists>e. static_item_allocate debug 1 s = Inl e) \<and>
    (\<forall>p \<in> set held. \<exists>s' s''. static_item_deallocate debug (static_index_width n) 1 p s = Inr s' \<and>
       static_item_allocate debug 1 s' = Inr (p, s'')) \<and>
    (2 ^ 31 \<le> unat m \<longrightarrow> (static_item_new debug m :: 'v static_item outcome) = Inl Undefined)"
proof -
  have s0: "s0 = \<lparr>head_block = 0, mem = wrapped_links (static_index_width n) (unat n)\<rparr>"
    using assms(3) by (simp add: static_new_ok[OF assms(1)])
  have "static_free (static_index_width n) s0 [0..<unat n]"
    using assms(2) by (simp add: static_free_def s0 chain_wrapped_links)
  from static_heap.client_safe[OF assms(4) this] show ?thesis
    by (simp add: s0 atLeast_upt lessThan_atLeast0 static_new_too_many cong: if_cong)
qed

theorem static_item_client_safe_witness:
  "\<exists>s. static_item_new True 3 = Inr (s :: nat static_item) \<and>
     (\<exists>s'. static_item_allocate True 1 s = Inr (0, s') \<and>
       (\<exists>s''. static_item_allocate True 1 s' = Inr (1, s'')))"
proof -
  let ?w = "static_index_width 3"
  have w: "?w = 8" by (simp add: static_width_cases min_num_bytes_eq)
  let ?s = "\<lparr>head_block = 0, mem = wrapped_links ?w 3\<rparr> :: nat static_item"
  have s: "static_item_new True 3 = Inr ?s" using static_new_ok[of 3 True] by simp
  have a: "static_item_allocate True 1 ?s = Inr (0, ?s\<lparr>head_block := 1\<rparr>)"
    by (simp add: static_item_allocate_def read_index_def nth_wrapped_links w)
  have c: "client (static_item_allocate True 1) (static_item_deallocate True ?w 1) static_item_store
      ?s (?s\<lparr>head_block := 1\<rparr>, [0])"
    by (rule client_alloc, rule client_start, rule a)
  have "\<exists>p s'. static_item_allocate True 1 (?s\<lparr>head_block := 1\<rparr>) = Inr (p, s')"
    using static_item_client_safe[OF _ _ s c, where m = 0] by (auto simp: w)
  then have "\<exists>s''. static_item_allocate True 1 (?s\<lparr>head_block := 1\<rparr>) = Inr (1, s'')"
    by (auto simp: static_item_allocate_def and_then_eq_Inr_iff)
  then show ?thesis using s a by blast
qed

lemma static_cycle_step:
  assumes "h < N" "N = 2 ^ width"
  shows "static_item_allocate debug 1 \<lparr>head_block = h, mem = wrapped_links width N\<rparr> =
    Inr (h, \<lparr>head_block = Suc h mod N, mem = wrapped_links width N\<rparr>)"
  using assms by (simp add: static_item_allocate_def read_index_def nth_wrapped_links)

lemma static_cycle:
  assumes "N = 2 ^ width" "0 < N"
  shows "h < N \<Longrightarrow> allocate_many (static_item_allocate debug 1) k
      \<lparr>head_block = h, mem = wrapped_links width N\<rparr> =
    Inr (map (\<lambda>i. i mod N) [h..<h + k], \<lparr>head_block = (h + k) mod N, mem = wrapped_links width N\<rparr>)"
proof (induction k arbitrary: h)
  case (Suc k)
  have m: "Suc h mod N < N" using assms by simp
  have shift: "map (\<lambda>i. i mod N) [Suc h mod N..<Suc h mod N + k] = map (\<lambda>i. i mod N) [Suc h..<Suc h + k]"
    by (rule nth_equalityI) (simp_all add: mod_simps del: upt_Suc)
  have hk: "(Suc h mod N + k) mod N = (h + Suc k) mod N" by (simp add: mod_simps)
  have up: "[h..<h + Suc k] = h # [Suc h..<Suc h + k]" by (simp add: upt_rec[of h])
  show ?case
    using Suc.IH[OF m] Suc.prems
    by (simp only: allocate_many.simps static_cycle_step[OF Suc.prems assms(1)] and_then_simps
        prod.case shift hk up list.map mod_less)
qed simp

text \<open>C3: A heap of exactly \<open>2 ^ w\<close> items, with \<open>w\<close> the width that \<open>min_word_size<N-1>\<close> gives
  (256 items with one-byte links, 65536 with two-byte links), passes the construction check in
  every build, and its last link wraps to block 0: the heap never runs out, and allocation
  \<open>N + i\<close> returns the block that allocation \<open>i\<close> returned.\<close>

theorem static_item_full_width_reissues:
  assumes "unat n = 2 ^ static_index_width n" "unat n < 2 ^ 32"
  shows "\<exists>s. static_item_new debug n = Inr s \<and>
    (\<forall>k. \<exists>s'. allocate_many (static_item_allocate debug 1) k s = Inr (map (\<lambda>i. i mod unat n) [0..<k], s'))"
proof -
  have pos: "0 < unat n" using assms(1) by simp
  have "unat n < 2 ^ 31" using assms by (auto simp: static_width_cases min_num_bytes_eq split: if_splits)
  with pos show ?thesis
    using static_cycle[OF assms(1), of 0 debug] by (auto simp: static_new_ok)
qed

theorem static_item_full_width_reissues_witness:
  "\<exists>s s' ps. static_item_new True 256 = Inr (s :: 'v static_item) \<and>
     allocate_many (static_item_allocate True 1) 257 s = Inr (ps, s') \<and> ps ! 0 = ps ! 256"
proof -
  have w: "unat (256 :: u64) = 2 ^ static_index_width 256"
    by (simp add: static_width_cases min_num_bytes_eq)
  obtain s :: "'v static_item" where s: "static_item_new True 256 = Inr s"
    "\<forall>k. \<exists>s'. allocate_many (static_item_allocate True 1) k s = Inr (map (\<lambda>i. i mod 256) [0..<k], s')"
    using static_item_full_width_reissues[OF w, of True] by auto
  then obtain s' where
    "allocate_many (static_item_allocate True 1) 257 s = Inr (map (\<lambda>i. i mod 256) [0..<257], s')"
    by blast
  moreover have "map (\<lambda>i. i mod 256) [0..<257] ! 0 = (map (\<lambda>i. i mod 256) [0..<257] ! 256 :: nat)"
    by (simp add: nth_map del: upt_Suc)
  ultimately show ?thesis using s(1) by blast
qed

text \<open>C4: A fixed heap allocates its arena on first use and is then as safe as a static heap,
  below \<open>2 ^ 16\<close> blocks in a debug build and below \<open>2 ^ 31\<close> in a release build. From \<open>2 ^ 16\<close> blocks on,
  the first allocation of a debug build is undefined, because its check shifts an \<open>int\<close> by 32 bits
  (below \<open>2 ^ 32\<close> blocks); from \<open>2 ^ 31\<close> blocks on it is undefined in every build, because the \<open>int\<close>
  that numbers the blocks overflows.\<close>

theorem fixed_item_client_safe:
  fixes s :: "'v fixed_item"
  assumes "unat n < (if debug then 2 ^ 16 else 2 ^ 31)"
    and "client (fixed_item_allocate debug 1) (fixed_item_deallocate debug 1) fixed_item_store
          (fixed_item_new n) (s, held)"
  shows "distinct held \<and> set held \<subseteq> {..<unat n} \<and>
    (if length held < unat n
     then \<exists>p s'. fixed_item_allocate debug 1 s = Inr (p, s') \<and> p < unat n \<and> p \<notin> set held
     else \<exists>e. fixed_item_allocate debug 1 s = Inl e) \<and>
    (\<forall>p \<in> set held. \<exists>s' s''. fixed_item_deallocate debug 1 p s = Inr s' \<and>
       fixed_item_allocate debug 1 s' = Inr (p, s'')) \<and>
    (2 ^ 16 \<le> unat m \<and> unat m < 2 ^ 32 \<longrightarrow>
       fixed_item_allocate True 1 (fixed_item_new m :: 'v fixed_item) = Inl Undefined) \<and>
    (2 ^ 31 \<le> unat m \<longrightarrow>
       fixed_item_allocate debug 1 (fixed_item_new m :: 'v fixed_item) = Inl Undefined)"
proof -
  have lt: "unat n < 2 ^ 31" using assms(1) by (auto split: if_splits)
  have "fixed_free debug (fixed_item_new n) [0..<unat n]"
    using assms(1) chain_wrapped_links[of "unat n" 32 0] lt
    by (simp add: fixed_free_def fixed_item_new_def fixed_prepared_def)
  from fixed_heap.client_safe[OF assms(2) this]
  have a: "distinct held \<and> set held \<subseteq> {..<unat n} \<and>
    (if length held < unat n
     then \<exists>p s'. fixed_item_allocate debug 1 s = Inr (p, s') \<and> p < unat n \<and> p \<notin> set held
     else \<exists>e. fixed_item_allocate debug 1 s = Inl e) \<and>
    (\<forall>p \<in> set held. \<exists>s' s''. fixed_item_deallocate debug 1 p s = Inr s' \<and>
       fixed_item_allocate debug 1 s' = Inr (p, s''))"
    by (simp add: fixed_item_new_def atLeast_upt lessThan_atLeast0 cong: if_cong)
  have big: "2 ^ 31 \<le> unat m \<Longrightarrow>
      fixed_item_allocate d 1 (fixed_item_new m :: 'v fixed_item) = Inl Undefined" for d
    by (simp add: fixed_item_allocate_def fixed_item_prepare_def fixed_item_new_def
        fixed_item_max_size_def link_blocks_too_many)
  have shift: "2 ^ 16 \<le> unat m \<and> unat m < 2 ^ 32 \<Longrightarrow>
      shifted_int_one (min_num_bytes m * 8) = Inl Undefined"
    by (simp add: shifted_int_one_def min_num_bytes_eq)
  have "fixed_item_allocate True 1 (fixed_item_new m :: 'v fixed_item) = Inl Undefined"
    if "2 ^ 16 \<le> unat m \<and> unat m < 2 ^ 32"
  proof (cases "2 ^ 31 \<le> unat m")
    case False
    then have "fixed_item_prepare (fixed_item_new m :: 'v fixed_item) =
        Inr (fixed_prepared (fixed_item_new m))"
      by (intro fixed_prepare_ok) (simp add: fixed_item_new_def)
    then show ?thesis using shift[OF that] that
      by (simp add: fixed_item_allocate_def fixed_prepared_def fixed_item_new_def
          fixed_item_max_size_def Let_def)
  qed (rule big)
  with a big show ?thesis by blast
qed

theorem fixed_item_client_safe_witness:
  "(\<exists>p s'. fixed_item_allocate True 1 (fixed_item_new 5 :: nat fixed_item) = Inr (p, s') \<and> p < 5) \<and>
   fixed_item_allocate True 1 (fixed_item_new 65536 :: nat fixed_item) = Inl Undefined"
  using fixed_item_client_safe[OF _ client_start, of 5 True 65536] by auto

text \<open>An initialised \<open>unity\<close> allocator is safe in the same sense when its links fit; but
  copying one initialises the shared arena again: the copy, and the original through the shared blocks,
  allocate from block 0 again, whatever blocks are held.\<close>

theorem unity_client_safe:
  fixes s :: "'v unity_state"
  assumes "index_bytes \<in> {1, 2, 4}" "\<not> unity_null a" "length (unity_arena a) < 2 ^ (index_bytes * 8)"
    and "unity_initialize debug index_bytes a = Inr s0"
    and "client (unity_allocate debug 1) (unity_deallocate debug index_bytes 1) unity_store s0 (s, held)"
  shows "distinct held \<and> set held \<subseteq> {..<length (unity_arena a)} \<and>
    (if length held < length (unity_arena a)
     then \<exists>p s'. unity_allocate debug 1 s = Inr (p, s') \<and> p < length (unity_arena a) \<and> p \<notin> set held
     else \<exists>e. unity_allocate debug 1 s = Inl e) \<and>
    (\<forall>c. unity_copy debug index_bytes s = Inr c \<and> unity_arena a \<noteq> [] \<longrightarrow>
       (\<exists>c'. unity_allocate debug 1 c = Inr (0, c')))"
proof -
  have "unity_arena s0 = wrapped_links (index_bytes * 8) (length (unity_arena a)) \<and> unity_head s0 = 0 \<and>
      \<not> unity_null s0"
    using assms(2,4) by (auto simp: unity_initialize_def and_then_eq_Inr_iff)
  then have s0: "unity_free index_bytes s0 [0..<length (unity_arena s0)]"
    "length (unity_arena s0) = length (unity_arena a)"
    using assms(3) by (simp_all add: unity_free_def chain_wrapped_links)
  have safe: "distinct held \<and> set held \<subseteq> {..<length (unity_arena a)} \<and>
    (if length held < length (unity_arena a)
     then \<exists>p s'. unity_allocate debug 1 s = Inr (p, s') \<and> p < length (unity_arena a) \<and> p \<notin> set held
     else \<exists>e. unity_allocate debug 1 s = Inl e)"
    using unity_heap.client_safe[OF assms(5) s0(1)] by (simp add: s0(2) atLeast_upt lessThan_atLeast0 cong: if_cong)
  obtain ps where ps: "unity_free index_bytes s ps" "length (unity_arena s) = length (unity_arena a)"
    using unity_heap.client_consistent[OF assms(5) s0(1)]
    by (auto simp: unity_heap.consistent_def s0(2) atLeast_upt lessThan_atLeast0 cong: if_cong)
  have "unity_copy debug index_bytes s = Inr c \<and> unity_arena a \<noteq> [] \<longrightarrow>
      (\<exists>c'. unity_allocate debug 1 c = Inr (0, c'))" for c
    using ps by (auto simp: unity_copy_def unity_initialize_def unity_allocate_def unity_free_def
        and_then_eq_Inr_iff read_index_def nth_wrapped_links)
  with safe show ?thesis by blast
qed

theorem unity_client_safe_witness:
  "\<exists>s0 s c c'. unity_initialize True 1
       (\<lparr>unity_head = 0, unity_null = False, unity_arena = [Index_member 0, Index_member 0]\<rparr>
          :: nat unity_state) = Inr s0 \<and>
     unity_allocate True 1 s0 = Inr (0, s) \<and> unity_copy True 1 s = Inr c \<and>
     unity_allocate True 1 c = Inr (0, c')"
proof -
  let ?a = "\<lparr>unity_head = 0, unity_null = False, unity_arena = [Index_member 0, Index_member 0]\<rparr>
    :: nat unity_state"
  let ?t = "?a\<lparr>unity_arena := [Index_member 1, Index_member 2]\<rparr>"
  let ?s = "?t\<lparr>unity_head := 1\<rparr>"
  have i: "unity_initialize True 1 ?a = Inr ?t"
    by (simp add: unity_initialize_def shifted_one_def wrapped_links_def upt_rec)
  have a: "unity_allocate True 1 ?t = Inr (0, ?s)"
    by (simp add: unity_allocate_def read_index_def)
  have c: "unity_copy True 1 ?s = Inr ?t"
    by (simp add: unity_copy_def unity_initialize_def shifted_one_def wrapped_links_def upt_rec)
  have "client (unity_allocate True 1) (unity_deallocate True 1 1) unity_store ?t (?s, [0])"
    by (rule client_alloc, rule client_start, rule a)
  then have "\<exists>c'. unity_allocate True 1 ?t = Inr (0, c')"
    using unity_client_safe[of 1 ?a True ?t ?s "[0]"] i c by auto
  then show ?thesis using i a c by blast
qed

text \<open>A fixed buffer hands out its one arena at every call, whatever number of items is
  asked for and without a record that it is in use, keeps its capacity, and in a debug build
  accepts back exactly the pointers into the arena, which it keeps.\<close>

theorem fixed_buffer_one_arena:
  assumes "0 < sz" "unat n * unat sz < 2 ^ 64" "fresh \<noteq> 0"
  shows "\<exists>b. fixed_buffer_allocate sz fresh k (fixed_buffer_new sz n) = (fresh, b) \<and>
    fixed_buffer_allocate sz fresh' m b = (fresh, b) \<and>
    fixed_buffer_max_size sz b = n \<and> fixed_buffer_max_size sz (fixed_buffer_copy sz b) = n \<and>
    buffer_bool (fixed_buffer_copy sz b) = False \<and>
    fixed_buffer_deallocate True sz p j b =
      (if fresh \<le> p \<and> p < fresh + n * sz then Inr b else Inl Assertion_failed)"
proof -
  have s: "size_of sz (buffer_items sz q n) = n" for q by (rule size_of_items[OF assms(1,2)])
  let ?b = "buffer_items sz fresh n"
  have a: "fixed_buffer_allocate sz fresh k (fixed_buffer_new sz n) = (fresh, ?b)"
    by (simp add: fixed_buffer_allocate_def fixed_buffer_new_def buffer_bool_def buffer_reset_def
        fixed_buffer_max_size_def s Let_def) (simp add: buffer_items_def)
  have b: "fixed_buffer_allocate sz fresh' m ?b = (fresh, ?b)"
    using assms(3) by (simp add: fixed_buffer_allocate_def buffer_bool_def buffer_items_def Let_def)
  have c: "buffer_bool (fixed_buffer_copy sz ?b) = False"
    by (simp add: fixed_buffer_copy_def buffer_bool_def buffer_items_def)
  have d: "fixed_buffer_deallocate True sz p j ?b =
      (if fresh \<le> p \<and> p < fresh + n * sz then Inr ?b else Inl Assertion_failed)"
    by (simp add: fixed_buffer_deallocate_def contains_def end_of_def s assertf_def)
  show ?thesis
    using a b c d by (intro exI[of _ ?b]) (simp add: fixed_buffer_max_size_def fixed_buffer_copy_def s)
qed

theorem fixed_buffer_one_arena_witness:
  "\<exists>b. fixed_buffer_allocate 4 4096 1 (fixed_buffer_new 4 10) = (4096, b) \<and>
     fixed_buffer_allocate 4 8192 7 b = (4096, b)"
  using fixed_buffer_one_arena[of 4 10 4096 1 8192 7] by auto

end
