(* ===== verification/Ceres_State.thy ===== *)
theory Ceres_State
  imports Ceres_Bits
begin

text \<open>
  The state machines of \<open>ceres/src/state/state.hpp\<close> with the transitions of
  \<open>ceres/src/main.cpp\<close>. The recursive templates over the list of state types become
  recursive functions over the list of descriptors. A state type is a value of \<open>'s\<close>,
  \<open>'e\<close> is the type of events, \<open>transition\<close> is \<open>None\<close> for the \<open>null\<close> transition, and
  \<open>bytes_of\<close> gives the \<open>sizeof\<close> of a state type. The context records the object that lives in its
  buffer and the constructor and destructor calls made so far.
\<close>

section \<open>Descriptors and context\<close>

type_synonym 's descriptor = "nat \<times> 's"

fun state_enumerator :: "nat \<Rightarrow> 's list \<Rightarrow> 's descriptor list" where
  "state_enumerator state_id [] = []"
| "state_enumerator state_id (s # states) = (state_id, s) # state_enumerator (Suc state_id) states"

datatype ('s, 'e) action =
    Entered_as_default 's
  | Entered_on 's 'e
  | Exited 's

record ('s, 'e) singular_context =
  curr_active :: nat
  next_active :: nat
  object :: "'s option"
  actions :: "('s, 'e) action list"
  buffer_bytes :: nat

definition context_new :: "('s \<Rightarrow> nat) \<Rightarrow> 's list \<Rightarrow> ('s, 'e) singular_context" where
  "context_new bytes_of states =
     \<lparr>curr_active = length states, next_active = length states, object = None, actions = [],
      buffer_bytes = max_type_size (map bytes_of states)\<rparr>"

definition is_active :: "'s descriptor \<Rightarrow> ('s, 'e) singular_context \<Rightarrow> bool" where
  "is_active d ctx \<longleftrightarrow> curr_active ctx = fst d"

text \<open>Placement construction writes \<open>sizeof (State)\<close> bytes to the buffer.\<close>

definition context_activate ::
    "('s \<Rightarrow> nat) \<Rightarrow> 's descriptor \<Rightarrow> ('s, 'e) singular_context \<Rightarrow> ('s, 'e) singular_context outcome" where
  "context_activate bytes_of d ctx =
     (if bytes_of (snd d) \<le> buffer_bytes ctx
      then Inr (ctx\<lparr>object := Some (snd d), actions := actions ctx @ [Entered_as_default (snd d)],
        next_active := fst d\<rparr>)
      else Inl Out_of_bounds)"

definition context_activate_event ::
    "('s \<Rightarrow> nat) \<Rightarrow> 's descriptor \<Rightarrow> 'e \<Rightarrow> ('s, 'e) singular_context \<Rightarrow>
     ('s, 'e) singular_context outcome" where
  "context_activate_event bytes_of d event ctx =
     (if bytes_of (snd d) \<le> buffer_bytes ctx
      then Inr (ctx\<lparr>object := Some (snd d), actions := actions ctx @ [Entered_on (snd d) event],
        next_active := fst d\<rparr>)
      else Inl Out_of_bounds)"

text \<open>The destructor of a type runs on an object of that type, or the behaviour is
  undefined.\<close>

definition context_deactivate ::
    "'s descriptor \<Rightarrow> ('s, 'e) singular_context \<Rightarrow> ('s, 'e) singular_context outcome" where
  "context_deactivate d ctx =
     (if object ctx = Some (snd d)
      then Inr (ctx\<lparr>object := None, actions := actions ctx @ [Exited (snd d)]\<rparr>)
      else Inl Undefined)"

definition commit :: "('s, 'e) singular_context \<Rightarrow> ('s, 'e) singular_context" where
  "commit ctx = ctx\<lparr>curr_active := next_active ctx\<rparr>"

section \<open>state_machine_activator\<close>

text \<open>The overload for a \<open>dispatch_tag\<close> is the one of the descriptor of that state.\<close>

fun activator_activate ::
    "('s \<Rightarrow> nat) \<Rightarrow> 's descriptor list \<Rightarrow> 's \<Rightarrow> ('s, 'e) singular_context \<Rightarrow>
     ('s, 'e) singular_context outcome" where
  "activator_activate bytes_of [] s ctx = Inr ctx"
| "activator_activate bytes_of (d # ds) s ctx =
     (if snd d = s then context_activate bytes_of d ctx else activator_activate bytes_of ds s ctx)"

fun activator_activate_event ::
    "('s \<Rightarrow> nat) \<Rightarrow> 's descriptor list \<Rightarrow> 's \<Rightarrow> 'e \<Rightarrow> ('s, 'e) singular_context \<Rightarrow>
     ('s, 'e) singular_context outcome" where
  "activator_activate_event bytes_of [] s event ctx = Inr ctx"
| "activator_activate_event bytes_of (d # ds) s event ctx =
     (if snd d = s then context_activate_event bytes_of d event ctx
      else activator_activate_event bytes_of ds s event ctx)"

fun activator_deactivate ::
    "'s descriptor list \<Rightarrow> 's \<Rightarrow> ('s, 'e) singular_context \<Rightarrow> ('s, 'e) singular_context outcome" where
  "activator_deactivate [] s ctx = Inr ctx"
| "activator_deactivate (d # ds) s ctx =
     (if snd d = s then context_deactivate d ctx else activator_deactivate ds s ctx)"

section \<open>state_machine_reactor\<close>

text \<open>The first list is \<open>BaseEnum\<close>, the second \<open>CurrEnum\<close>. \<open>initialize\<close> passes its own
  state on as the initial state of the next level.\<close>

fun reactor_initialize ::
    "('s \<Rightarrow> nat) \<Rightarrow> 's descriptor list \<Rightarrow> 's descriptor list \<Rightarrow> 's \<Rightarrow> ('s, 'e) singular_context \<Rightarrow>
     ('s, 'e) singular_context outcome" where
  "reactor_initialize bytes_of base [] initial ctx = Inr ctx"
| "reactor_initialize bytes_of base (d # ds) initial ctx =
     and_then (if initial = snd d then activator_activate bytes_of base (snd d) ctx else Inr ctx)
       (\<lambda>ctx'. reactor_initialize bytes_of base ds (snd d) ctx')"

fun reactor_terminate ::
    "'s descriptor list \<Rightarrow> 's descriptor list \<Rightarrow> ('s, 'e) singular_context \<Rightarrow>
     ('s, 'e) singular_context outcome" where
  "reactor_terminate base [] ctx = Inr ctx"
| "reactor_terminate base (d # ds) ctx =
     and_then (if is_active d ctx then activator_deactivate base (snd d) ctx else Inr ctx)
       (\<lambda>ctx'. reactor_terminate base ds ctx')"

fun reactor_react ::
    "('s \<Rightarrow> nat) \<Rightarrow> ('s \<Rightarrow> 'e \<Rightarrow> 's option) \<Rightarrow> 's descriptor list \<Rightarrow> 's descriptor list \<Rightarrow> 'e \<Rightarrow>
     ('s, 'e) singular_context \<Rightarrow> ('s, 'e) singular_context outcome" where
  "reactor_react bytes_of transition base [] event ctx = Inr ctx"
| "reactor_react bytes_of transition base (d # ds) event ctx =
     and_then
       (case transition (snd d) event of
          None \<Rightarrow> Inr ctx
        | Some next_state \<Rightarrow>
            if is_active d ctx
            then and_then (activator_deactivate base (snd d) ctx)
              (\<lambda>ctx'. activator_activate_event bytes_of base next_state event ctx')
            else Inr ctx)
       (\<lambda>ctx'. reactor_react bytes_of transition base ds event ctx')"

section \<open>singular_machine\<close>

definition machine_new ::
    "('s \<Rightarrow> nat) \<Rightarrow> 's list \<Rightarrow> ('s, 'e) singular_context outcome" where
  "machine_new bytes_of states =
     (let enum = state_enumerator 0 states in
      and_then (reactor_initialize bytes_of enum enum (hd states) (context_new bytes_of states))
        (\<lambda>ctx. Inr (commit ctx)))"

definition machine_react ::
    "('s \<Rightarrow> nat) \<Rightarrow> ('s \<Rightarrow> 'e \<Rightarrow> 's option) \<Rightarrow> 's list \<Rightarrow> 'e \<Rightarrow> ('s, 'e) singular_context \<Rightarrow>
     ('s, 'e) singular_context outcome" where
  "machine_react bytes_of transition states event ctx =
     (let enum = state_enumerator 0 states in
      and_then (reactor_react bytes_of transition enum enum event ctx) (\<lambda>ctx'. Inr (commit ctx')))"

definition machine_delete ::
    "'s list \<Rightarrow> ('s, 'e) singular_context \<Rightarrow> ('s, 'e) singular_context outcome" where
  "machine_delete states ctx =
     (let enum = state_enumerator 0 states in reactor_terminate enum enum ctx)"

fun machine_events ::
    "('s \<Rightarrow> nat) \<Rightarrow> ('s \<Rightarrow> 'e \<Rightarrow> 's option) \<Rightarrow> 's list \<Rightarrow> 'e list \<Rightarrow> ('s, 'e) singular_context \<Rightarrow>
     ('s, 'e) singular_context outcome" where
  "machine_events bytes_of transition states [] ctx = Inr ctx"
| "machine_events bytes_of transition states (e # es) ctx =
     and_then (machine_react bytes_of transition states e ctx)
       (\<lambda>ctx'. machine_events bytes_of transition states es ctx')"

section \<open>The machine of main.cpp\<close>

datatype main_state = State1 | State2 | State3

fun main_transition :: "main_state \<Rightarrow> int \<Rightarrow> main_state option" where
  "main_transition State1 i = Some State2"
| "main_transition State2 i = Some State3"
| "main_transition State3 i = Some State1"

text \<open>Each state class has virtual functions and no data: its size is one pointer.\<close>

definition main_bytes :: "main_state \<Rightarrow> nat" where
  "main_bytes s = 8"

definition main_machine :: "int list \<Rightarrow> (main_state, int) singular_context outcome" where
  "main_machine events =
     and_then (machine_new main_bytes [State1, State2, State3])
       (machine_events main_bytes main_transition [State1, State2, State3] events)"

section \<open>Specification\<close>

text \<open>What the machine promises: the active state follows the transitions, and every change
  of state leaves the old state and enters the new one on the event.\<close>

fun spec_state :: "('s \<Rightarrow> 'e \<Rightarrow> 's option) \<Rightarrow> 's \<Rightarrow> 'e list \<Rightarrow> 's" where
  "spec_state transition s [] = s"
| "spec_state transition s (e # es) =
     spec_state transition (case transition s e of None \<Rightarrow> s | Some t \<Rightarrow> t) es"

fun spec_actions :: "('s \<Rightarrow> 'e \<Rightarrow> 's option) \<Rightarrow> 's \<Rightarrow> 'e list \<Rightarrow> ('s, 'e) action list" where
  "spec_actions transition s [] = []"
| "spec_actions transition s (e # es) =
     (case transition s e of
        None \<Rightarrow> spec_actions transition s es
      | Some t \<Rightarrow> Exited s # Entered_on t e # spec_actions transition t es)"

section \<open>Lemmas\<close>

lemma length_state_enumerator [simp]: "length (state_enumerator k states) = length states"
  by (induction k states rule: state_enumerator.induct) auto

lemma nth_state_enumerator:
  "i < length states \<Longrightarrow> state_enumerator k states ! i = (k + i, states ! i)"
proof (induction k states arbitrary: i rule: state_enumerator.induct)
  case (2 k s states)
  then show ?case by (cases i) auto
qed simp

lemma map_fst_state_enumerator [simp]: "map fst (state_enumerator k states) = [k..<k + length states]"
  by (rule nth_equalityI) (simp_all add: nth_state_enumerator)

lemma map_snd_state_enumerator [simp]: "map snd (state_enumerator k states) = states"
  by (rule nth_equalityI) (simp_all add: nth_state_enumerator)

lemma in_state_enumerator: "i < length states \<Longrightarrow> (i, states ! i) \<in> set (state_enumerator 0 states)"
  using nth_mem[of i "state_enumerator 0 states"] by (simp add: nth_state_enumerator)

lemma activator_simps:
  "distinct (map snd ds) \<Longrightarrow> d \<in> set ds \<Longrightarrow>
     activator_activate bytes_of ds (snd d) ctx = context_activate bytes_of d ctx"
  "distinct (map snd ds) \<Longrightarrow> d \<in> set ds \<Longrightarrow>
     activator_activate_event bytes_of ds (snd d) e ctx = context_activate_event bytes_of d e ctx"
  "distinct (map snd ds) \<Longrightarrow> d \<in> set ds \<Longrightarrow>
     activator_deactivate ds (snd d) ctx = context_deactivate d ctx"
  by (induction ds) (force simp: image_iff)+

lemma initialize_skips:
  "distinct (s # map snd ds) \<Longrightarrow> reactor_initialize bytes_of base ds s ctx = Inr ctx"
  by (induction ds arbitrary: s) auto

lemma react_skips:
  "(\<And>d. d \<in> set ds \<Longrightarrow> fst d = curr_active ctx \<Longrightarrow> transition (snd d) e = None) \<Longrightarrow>
     reactor_react bytes_of transition base ds e ctx = Inr ctx"
  by (induction ds) (auto simp: is_active_def split: option.splits)

lemma react_acts:
  assumes "distinct (map fst ds)" "d \<in> set ds" "fst d = curr_active ctx" "transition (snd d) e = Some t"
    and "activator_deactivate base (snd d) ctx = Inr c1"
  shows "activator_activate_event bytes_of base t e c1 = Inr c2 \<Longrightarrow> curr_active c2 = curr_active ctx \<Longrightarrow>
      reactor_react bytes_of transition base ds e ctx = Inr c2"
    and "activator_activate_event bytes_of base t e c1 = Inl f \<Longrightarrow>
      reactor_react bytes_of transition base ds e ctx = Inl f"
  using assms
proof (induction ds)
  case (Cons d' ds)
  { case 1
    show ?case
    proof (cases "d' = d")
      case True
      have "reactor_react bytes_of transition base ds e c2 = Inr c2"
        by (rule react_skips) (use 1 True in \<open>force simp: image_iff\<close>)
      then show ?thesis using 1 True by (simp add: is_active_def)
    next
      case False
      then have "d \<in> set ds" using 1 by simp
      then have "fst d' \<noteq> fst d" using 1(3) by (force simp: image_iff)
      then have "\<not> is_active d' ctx" using 1 by (simp add: is_active_def)
      then show ?thesis using Cons.IH(1)[OF 1(1,2)] 1 \<open>d \<in> set ds\<close> by (simp split: option.split)
    qed
  next
    case 2
    show ?case
    proof (cases "d' = d")
      case True
      then show ?thesis using 2 by (simp add: is_active_def)
    next
      case False
      then have "d \<in> set ds" using 2 by simp
      then have "fst d' \<noteq> fst d" using 2(2) by (force simp: image_iff)
      then have "\<not> is_active d' ctx" using 2 by (simp add: is_active_def)
      then show ?thesis using Cons.IH(2)[OF 2(1)] 2 \<open>d \<in> set ds\<close> by (simp split: option.split)
    qed
  }
qed simp_all

lemma terminate_skips:
  "curr_active ctx \<notin> fst ` set ds \<Longrightarrow> reactor_terminate base ds ctx = Inr ctx"
  by (induction ds) (auto simp: is_active_def)

lemma terminate_acts:
  assumes "distinct (map fst ds)" "d \<in> set ds" "fst d = curr_active ctx"
    and "activator_deactivate base (snd d) ctx = Inr c1" "curr_active c1 = curr_active ctx"
  shows "reactor_terminate base ds ctx = Inr c1"
  using assms
proof (induction ds)
  case (Cons d' ds)
  show ?case
  proof (cases "d' = d")
    case True
    then show ?thesis using Cons.prems terminate_skips[of c1 ds base]
      by (simp add: is_active_def)
  next
    case False
    then have "d \<in> set ds" using Cons.prems by simp
    then have "fst d' \<noteq> fst d" using Cons.prems(1) by (force simp: image_iff)
    then show ?thesis using Cons \<open>d \<in> set ds\<close> by (simp add: is_active_def)
  qed
qed simp

section \<open>Refinement\<close>

text \<open>The context implements \<open>s\<close>: its identifier is active and committed, and the buffer
  holds an object of that type.\<close>

definition implements :: "'s list \<Rightarrow> ('s, 'e) singular_context \<Rightarrow> 's \<Rightarrow> bool" where
  "implements states ctx s \<longleftrightarrow>
     (\<exists>i < length states. states ! i = s \<and> curr_active ctx = i \<and> next_active ctx = i) \<and> object ctx = Some s"

lemma new_implements:
  fixes states :: "'s list"
  assumes "distinct states" "states \<noteq> []"
  shows "machine_new bytes_of states = Inr (\<lparr>curr_active = 0, next_active = 0, object = Some (hd states),
    actions = [Entered_as_default (hd states)], buffer_bytes = bytes_of (hd states)\<rparr>
      :: ('s, 'e) singular_context)"
proof -
  obtain s rest where s: "states = s # rest" using assms(2) by (cases states) auto
  have "reactor_initialize bytes_of base (state_enumerator (Suc 0) rest) s ctx = Inr ctx"
    for base and ctx :: "('s, 'e) singular_context"
    using assms(1) s by (intro initialize_skips) simp
  then show ?thesis
    by (simp add: machine_new_def s Let_def context_activate_def context_new_def commit_def
        max_of_def del: max_type_size.simps) (simp add: max_of_def)
qed

lemma react_implements:
  assumes "distinct states" "implements states ctx s" "transition s e = Some t" "t \<in> set states"
  shows "bytes_of t \<le> buffer_bytes ctx \<Longrightarrow>
      \<exists>ctx'. machine_react bytes_of transition states e ctx = Inr ctx' \<and> implements states ctx' t \<and>
        actions ctx' = actions ctx @ [Exited s, Entered_on t e] \<and> buffer_bytes ctx' = buffer_bytes ctx"
    and "buffer_bytes ctx < bytes_of t \<Longrightarrow>
      machine_react bytes_of transition states e ctx = Inl Out_of_bounds"
proof -
  let ?en = "state_enumerator 0 states"
  obtain i where i: "i < length states" "states ! i = s" "curr_active ctx = i" "object ctx = Some s"
    using assms(2) by (auto simp: implements_def)
  obtain j where j: "j < length states" "states ! j = t" using assms(4) by (auto simp: in_set_conv_nth)
  have mem: "(i, s) \<in> set ?en" "(j, t) \<in> set ?en"
    using in_state_enumerator[OF i(1)] in_state_enumerator[OF j(1)] i j by auto
  let ?c1 = "ctx\<lparr>object := None, actions := actions ctx @ [Exited s]\<rparr>"
  have c1: "activator_deactivate ?en (snd (i, s)) ctx = Inr ?c1"
    using i assms(1) mem by (simp only: activator_simps map_snd_state_enumerator) (simp add: context_deactivate_def)
  have d: "distinct (map fst ?en)" by simp
  have act: "activator_activate_event bytes_of ?en t e ?c1 = context_activate_event bytes_of (j, t) e ?c1"
    using activator_simps(2)[of ?en "(j, t)" bytes_of e ?c1] mem assms(1) by simp
  note acts = react_acts[OF d mem(1) _ _ c1, of transition e t bytes_of]
  {
    assume le: "bytes_of t \<le> buffer_bytes ctx"
    let ?c2 = "ctx\<lparr>object := Some t, actions := actions ctx @ [Exited s, Entered_on t e], next_active := j\<rparr>"
    have "activator_activate_event bytes_of ?en t e ?c1 = Inr ?c2"
      unfolding act using le by (simp add: context_activate_event_def)
    then have "machine_react bytes_of transition states e ctx = Inr (commit ?c2)"
      using acts(1)[of ?c2] i assms(3) by (simp add: machine_react_def Let_def)
    then show "\<exists>ctx'. machine_react bytes_of transition states e ctx = Inr ctx' \<and> implements states ctx' t \<and>
        actions ctx' = actions ctx @ [Exited s, Entered_on t e] \<and> buffer_bytes ctx' = buffer_bytes ctx"
      using j by (intro exI[of _ "commit ?c2"]) (auto simp: commit_def implements_def)
  next
    assume "buffer_bytes ctx < bytes_of t"
    then have "activator_activate_event bytes_of ?en t e ?c1 = Inl Out_of_bounds"
      unfolding act by (simp add: context_activate_event_def)
    then show "machine_react bytes_of transition states e ctx = Inl Out_of_bounds"
      using acts(2)[of Out_of_bounds] i assms(3) by (simp add: machine_react_def Let_def)
  }
qed

lemma react_ignored:
  assumes "distinct states" "implements states ctx s" "transition s e = None"
  shows "machine_react bytes_of transition states e ctx = Inr ctx"
proof -
  obtain i where i: "i < length states" "states ! i = s" "curr_active ctx = i" "next_active ctx = i"
    using assms(2) by (auto simp: implements_def)
  have "reactor_react bytes_of transition base (state_enumerator 0 states) e ctx = Inr ctx" for base
    by (rule react_skips) (use i assms(3) in \<open>auto simp: in_set_conv_nth nth_state_enumerator\<close>)
  then show ?thesis using i by (simp add: machine_react_def Let_def commit_def)
qed

lemma events_implement:
  assumes "distinct states" "\<forall>s \<in> set states. \<forall>e t. transition s e = Some t \<longrightarrow> t \<in> set states"
    and "\<forall>t \<in> set states. bytes_of t \<le> b"
  shows "implements states ctx s \<Longrightarrow> buffer_bytes ctx = b \<Longrightarrow>
    \<exists>ctx'. machine_events bytes_of transition states es ctx = Inr ctx' \<and>
      implements states ctx' (spec_state transition s es) \<and>
      actions ctx' = actions ctx @ spec_actions transition s es"
proof (induction es arbitrary: ctx s)
  case (Cons e es)
  have s: "s \<in> set states" using Cons.prems by (auto simp: implements_def)
  show ?case
  proof (cases "transition s e")
    case None
    then show ?thesis using Cons react_ignored[OF assms(1) Cons.prems(1)] by simp
  next
    case (Some t)
    have t: "t \<in> set states" using assms(2) s Some by blast
    obtain c where c: "machine_react bytes_of transition states e ctx = Inr c" "implements states c t"
      "actions c = actions ctx @ [Exited s, Entered_on t e]" "buffer_bytes c = b"
      using react_implements(1)[where transition = transition and s = s and e = e and t = t and ctx = ctx,
          OF assms(1) Cons.prems(1) Some t] assms(3) t Cons.prems(2) by auto
    then show ?thesis using Cons.IH[OF c(2,4)] Some by auto
  qed
qed simp

lemma delete_implements:
  assumes "distinct states" "implements states ctx s"
  shows "machine_delete states ctx = Inr (ctx\<lparr>object := None, actions := actions ctx @ [Exited s]\<rparr>)"
proof -
  let ?en = "state_enumerator 0 states"
  obtain i where i: "i < length states" "states ! i = s" "curr_active ctx = i" "object ctx = Some s"
    using assms(2) by (auto simp: implements_def)
  have mem: "(i, s) \<in> set ?en" using in_state_enumerator[OF i(1)] i by auto
  have "activator_deactivate ?en (snd (i, s)) ctx = Inr (ctx\<lparr>object := None, actions := actions ctx @ [Exited s]\<rparr>)"
    using i assms(1) mem by (simp only: activator_simps map_snd_state_enumerator) (simp add: context_deactivate_def)
  then show ?thesis
    unfolding machine_delete_def Let_def using mem i by (intro terminate_acts[of ?en "(i, s)"]) simp_all
qed

lemma main_machine_start:
  "machine_new main_bytes [State1, State2, State3] = Inr (\<lparr>curr_active = 0, next_active = 0,
     object = Some State1, actions = [Entered_as_default State1], buffer_bytes = 8\<rparr>
       :: (main_state, int) singular_context)"
  by (simp add: new_implements main_bytes_def)

lemma main_transition_closed:
  "\<forall>s \<in> set [State1, State2, State3]. \<forall>i t. main_transition s i = Some t \<longrightarrow> t \<in> set [State1, State2, State3]"
  by auto

section \<open>Properties\<close>

text \<open>C1: A machine whose states fit the context buffer implements its transition table: from
  construction through any sequence of events and destruction no operation faults, the active
  state is the one the transitions lead to from the default state, and the constructor and destructor calls
  are exactly the default entry, an exit and an entry for every transition taken, and one last exit.\<close>

theorem machine_implements_transitions:
  fixes transition :: "'s \<Rightarrow> 'e \<Rightarrow> 's option"
  assumes "distinct states" "states \<noteq> []"
    and "\<forall>s \<in> set states. \<forall>e t. transition s e = Some t \<longrightarrow> t \<in> set states"
    and "\<forall>t \<in> set states. bytes_of t \<le> bytes_of (hd states)"
  shows "\<exists>ctx0 ctx ctx1. machine_new bytes_of states = Inr ctx0 \<and>
    machine_events bytes_of transition states es ctx0 = Inr ctx \<and>
    implements states ctx (spec_state transition (hd states) es) \<and>
    machine_delete states ctx = Inr ctx1 \<and> object ctx1 = None \<and>
    actions ctx1 = Entered_as_default (hd states) # spec_actions transition (hd states) es @
      [Exited (spec_state transition (hd states) es)]"
proof -
  let ?c0 = "\<lparr>curr_active = 0, next_active = 0, object = Some (hd states),
    actions = [Entered_as_default (hd states)], buffer_bytes = bytes_of (hd states)\<rparr>
    :: ('s, 'e) singular_context"
  have i: "implements states ?c0 (hd states)"
    using assms(2) by (auto simp: implements_def hd_conv_nth)
  obtain ctx where c: "machine_events bytes_of transition states es ?c0 = Inr ctx"
    "implements states ctx (spec_state transition (hd states) es)"
    "actions ctx = [Entered_as_default (hd states)] @ spec_actions transition (hd states) es"
    using events_implement[where es = es and transition = transition and b = "bytes_of (hd states)",
        OF assms(1,3,4) i] by auto
  show ?thesis
    using new_implements[OF assms(1,2), where bytes_of = bytes_of] c
      delete_implements[OF assms(1) c(2)] by auto
qed

theorem machine_implements_transitions_witness:
  "\<exists>ctx0 ctx ctx1. machine_new (\<lambda>b. 4) [False, True] = Inr ctx0 \<and>
    machine_events (\<lambda>b. 4) (\<lambda>s e. if e then Some (\<not> s) else None) [False, True] [True, False, True] ctx0
      = Inr ctx \<and>
    machine_delete [False, True] ctx = Inr ctx1 \<and>
    actions ctx1 = [Entered_as_default False, Exited False, Entered_on True True, Exited True,
      Entered_on False True, Exited False]"
  using machine_implements_transitions[of "[False, True]" "\<lambda>s e. if e then Some (\<not> s) else None"
      "\<lambda>b. 4" "[True, False, True]"]
  by auto

text \<open>The context buffer has the size of the first state only: from a state that is active,
  a transition to any larger state constructs it past the end of the buffer.\<close>

theorem larger_state_overflows:
  assumes "distinct states" "states \<noteq> []" "transition (hd states) e = Some t" "t \<in> set states"
    and "bytes_of (hd states) < bytes_of t"
  shows "and_then (machine_new bytes_of states) (machine_react bytes_of transition states e) =
    Inl Out_of_bounds"
proof -
  let ?c0 = "\<lparr>curr_active = 0, next_active = 0, object = Some (hd states),
    actions = [Entered_as_default (hd states)], buffer_bytes = bytes_of (hd states)\<rparr>"
  have i: "implements states ?c0 (hd states)"
    using assms(2) by (auto simp: implements_def hd_conv_nth)
  have "machine_react bytes_of transition states e ?c0 = Inl Out_of_bounds"
    using react_implements(2)[where transition = transition and t = t and e = e,
        OF assms(1) i assms(3,4), of bytes_of] assms(5) by simp
  then show ?thesis by (simp add: new_implements[OF assms(1,2)])
qed

theorem larger_state_overflows_witness:
  "and_then (machine_new (\<lambda>b. if b then 16 else 8) [False, True])
     (machine_react (\<lambda>b. if b then 16 else 8) (\<lambda>s e. Some (\<not> s)) [False, True] ()) = Inl Out_of_bounds"
  by (rule larger_state_overflows[where t = True]) simp_all

text \<open>The machine of the program cycles through its three states, one per integer: after
  \<open>n\<close> events the state is \<open>n mod 3\<close> steps from the first, whatever the integers, and the context logs
  two calls per event.\<close>

theorem main_machine_cycles:
  "\<exists>ctx. main_machine is = Inr ctx \<and>
    implements [State1, State2, State3] ctx ([State1, State2, State3] ! (length is mod 3)) \<and>
    length (actions ctx) = 1 + 2 * length is"
proof -
  let ?st = "[State1, State2, State3]"
  have spec: "k < 3 \<Longrightarrow> spec_state main_transition (?st ! k) is = ?st ! ((k + length is) mod 3)" for k
  proof (induction "is" arbitrary: k)
    case (Cons i "is")
    have t: "main_transition (?st ! k) i = Some (?st ! (Suc k mod 3))"
    proof -
      have "k = 0 \<or> k = 1 \<or> k = 2" using Cons.prems by arith
      then show ?thesis by (elim disjE) simp_all
    qed
    have "Suc k mod 3 < 3" by simp
    then show ?case using Cons.IH t by (simp add: mod_simps)
  qed simp
  have acts: "length (spec_actions main_transition s is) = 2 * length is" for s
  proof (induction "is" arbitrary: s)
    case (Cons i "is")
    then show ?case by (cases s) auto
  qed simp
  let ?c = "\<lparr>curr_active = 0, next_active = 0, object = Some State1,
    actions = [Entered_as_default State1], buffer_bytes = 8\<rparr> :: (main_state, int) singular_context"
  have i: "implements ?st ?c State1" by (auto simp: implements_def)
  have d: "distinct ?st" by simp
  have b: "\<forall>t \<in> set ?st. main_bytes t \<le> 8" by (simp add: main_bytes_def)
  obtain ctx where "machine_events main_bytes main_transition ?st is ?c = Inr ctx"
    "implements ?st ctx (spec_state main_transition State1 is)"
    "actions ctx = [Entered_as_default State1] @ spec_actions main_transition State1 is"
    using events_implement[where bytes_of = main_bytes and b = 8 and es = "is",
        OF d main_transition_closed b i] by auto
  then show ?thesis using spec[of 0] acts by (simp add: main_machine_def main_machine_start)
qed

end
