(* ===== verification/Ctl_Error.thy ===== *)
theory Ctl_Error
  imports Prelude
begin

text \<open>
  The error library of \<open>error/\<close>: the enumerations of conditions, the packed error code, the
  POSIX and Win32 domains with their ring of incidents, the comparison of errors with
  conditions, the tables of \<open>error.cpp\<close> and \<open>stable_hash\<close>. The value of an enumerator is its
  position in the list of the enumeration; a domain object is its record of incidents, and
  the type of \<open>std::source_location\<close> is \<open>'l\<close>. What the two domains share is the locale
  \<open>incident_log\<close>.
\<close>

section \<open>Conditions\<close>

definition posix_condition :: "string list" where
  "posix_condition = [
     ''TOOBIG'', ''ACCES'', ''ADDRINUSE'', ''ADDRNOTAVAIL'', ''AFNOSUPPORT'', ''AGAIN'',
     ''ALREADY'', ''BADF'', ''BADMSG'', ''BUSY'', ''CANCELED'', ''CHILD'', ''CONNABORTED'',
     ''CONNREFUSED'', ''CONNRESET'', ''DEADLK'', ''DESTADDRREQ'', ''DOM'', ''DQUOT'', ''EXIST'',
     ''FAULT'', ''FBIG'', ''HOSTUNREACH'', ''IDRM'', ''ILSEQ'', ''INPROGRESS'', ''INTR'',
     ''INVAL'', ''IO'', ''ISCONN'', ''ISDIR'', ''LOOP'', ''MFILE'', ''MLINK'', ''MSGSIZE'',
     ''MULTIHOP'', ''NAMETOOLONG'', ''NETDOWN'', ''NETRESET'', ''NETUNREACH'', ''NFILE'',
     ''NOBUFS'', ''NODATA'', ''NODEV'', ''NOENT'', ''NOEXEC'', ''NOLCK'', ''NOLINK'', ''NOMEM'',
     ''NOMSG'', ''NOPROTOOPT'', ''NOSPC'', ''NOSR'', ''NOSTR'', ''NOSYS'', ''NOTCONN'',
     ''NOTDIR'', ''NOTEMPTY'', ''NOTRECOVERABLE'', ''NOTSOCK'', ''NOTSUP'', ''NOTTY'', ''NXIO'',
     ''OPNOTSUPP'', ''OVERFLOW'', ''OWNERDEAD'', ''PERM'', ''PIPE'', ''PROTO'',
     ''PROTONOSUPPORT'', ''PROTOTYPE'', ''RANGE'', ''ROFS'', ''SPIPE'', ''SRCH'', ''STALE'',
     ''TIME'', ''TIMEDOUT'', ''TXTBSY'', ''WOULDBLOCK'', ''XDEV'']"

definition win32_condition :: "string list" where
  "win32_condition = [
     ''INVALID_FUNCTION'', ''FILE_NOT_FOUND'', ''PATH_NOT_FOUND'', ''TOO_MANY_OPEN_FILES'',
     ''ACCESS_DENIED'', ''INVALID_HANDLE'', ''ARENA_TRASHED'', ''NOT_ENOUGH_MEMORY'',
     ''INVALID_BLOCK'', ''BAD_ENVIRONMENT'', ''BAD_FORMAT'', ''INVALID_ACCESS'',
     ''INVALID_DATA'', ''OUTOFMEMORY'', ''INVALID_DRIVE'', ''CURRENT_DIRECTORY'',
     ''NOT_SAME_DEVICE'', ''NO_MORE_FILES'', ''WRITE_PROTECT'', ''BAD_UNIT'', ''NOT_READY'',
     ''BAD_COMMAND'', ''CRC'', ''BAD_LENGTH'', ''SEEK'', ''NOT_DOS_DISK'', ''SECTOR_NOT_FOUND'',
     ''OUT_OF_PAPER'', ''WRITE_FAULT'', ''READ_FAULT'', ''GEN_FAILURE'', ''SHARING_VIOLATION'',
     ''LOCK_VIOLATION'', ''WRONG_DISK'', ''SHARING_BUFFER_EXCEEDED'', ''HANDLE_EOF'',
     ''HANDLE_DISK_FULL'', ''NOT_SUPPORTED'', ''REM_NOT_LIST'', ''DUP_NAME'', ''BAD_NETPATH'',
     ''NETWORK_BUSY'', ''DEV_NOT_EXIST'', ''TOO_MANY_CMDS'', ''ADAP_HDW_ERR'', ''BAD_NET_RESP'',
     ''UNEXP_NET_ERR'', ''BAD_REM_ADAP'', ''PRINTQ_FULL'', ''NO_SPOOL_SPACE'',
     ''PRINT_CANCELED'', ''NETNAME_DELETED'', ''NETWORK_ACCESS_DENIED'', ''BAD_DEV_TYPE'',
     ''BAD_NET_NAME'', ''TOO_MANY_NAMES'', ''TOO_MANY_SESS'', ''SHARING_PAUSED'',
     ''REQ_NOT_ACCEP'', ''REDIR_PAUSED'', ''FILE_EXISTS'', ''CANNOT_MAKE'', ''FAIL_I24'',
     ''OUT_OF_STRUCTURES'', ''ALREADY_ASSIGNED'', ''INVALID_PASSWORD'', ''INVALID_PARAMETER'',
     ''NET_WRITE_FAULT'', ''NO_PROC_SLOTS'', ''TOO_MANY_SEMAPHORES'', ''EXCL_SEM_ALREADY_OWNED'',
     ''SEM_IS_SET'', ''TOO_MANY_SEM_REQUESTS'', ''INVALID_AT_INTERRUPT_TIME'',
     ''SEM_OWNER_DIED'', ''SEM_USER_LIMIT'', ''DISK_CHANGE'', ''DRIVE_LOCKED'', ''BROKEN_PIPE'',
     ''OPEN_FAILED'', ''BUFFER_OVERFLOW'', ''DISK_FULL'', ''NO_MORE_SEARCH_HANDLES'',
     ''INVALID_TARGET_HANDLE'', ''INVALID_CATEGORY'', ''INVALID_VERIFY_SWITCH'',
     ''BAD_DRIVER_LEVEL'', ''CALL_NOT_IMPLEMENTED'', ''SEM_TIMEOUT'', ''INSUFFICIENT_BUFFER'',
     ''INVALID_NAME'', ''INVALID_LEVEL'', ''NO_VOLUME_LABEL'', ''MOD_NOT_FOUND'',
     ''PROC_NOT_FOUND'', ''WAIT_NO_CHILDREN'', ''CHILD_NOT_COMPLETE'', ''DIRECT_ACCESS_HANDLE'',
     ''NEGATIVE_SEEK'', ''SEEK_ON_DEVICE'', ''IS_JOIN_TARGET'', ''IS_JOINED'', ''IS_SUBSTED'',
     ''NOT_JOINED'', ''NOT_SUBSTED'', ''JOIN_TO_JOIN'', ''SUBST_TO_SUBST'', ''JOIN_TO_SUBST'',
     ''SUBST_TO_JOIN'', ''BUSY_DRIVE'', ''SAME_DRIVE'', ''DIR_NOT_ROOT'', ''DIR_NOT_EMPTY'',
     ''IS_SUBST_PATH'', ''IS_JOIN_PATH'', ''PATH_BUSY'', ''IS_SUBST_TARGET'', ''SYSTEM_TRACE'',
     ''INVALID_EVENT_COUNT'', ''TOO_MANY_MUXWAITERS'', ''INVALID_LIST_FORMAT'',
     ''LABEL_TOO_LONG'', ''TOO_MANY_TCBS'', ''SIGNAL_REFUSED'', ''DISCARDED'', ''NOT_LOCKED'',
     ''BAD_THREADID_ADDR'', ''BAD_ARGUMENTS'', ''BAD_PATHNAME'', ''SIGNAL_PENDING'',
     ''MAX_THRDS_REACHED'', ''LOCK_FAILED'', ''BUSY'', ''CANCEL_VIOLATION'',
     ''ATOMIC_LOCKS_NOT_SUPPORTED'', ''INVALID_SEGMENT_NUMBER'', ''INVALID_ORDINAL'',
     ''ALREADY_EXISTS'', ''INVALID_FLAG_NUMBER'', ''SEM_NOT_FOUND'',
     ''INVALID_STARTING_CODESEG'', ''INVALID_STACKSEG'', ''INVALID_MODULETYPE'',
     ''INVALID_EXE_SIGNATURE'', ''EXE_MARKED_INVALID'', ''BAD_EXE_FORMAT'',
     ''ITERATED_DATA_EXCEEDS_64k'', ''INVALID_MINALLOCSIZE'', ''DYNLINK_FROM_INVALID_RING'',
     ''IOPL_NOT_ENABLED'', ''INVALID_SEGDPL'', ''AUTODATASEG_EXCEEDS_64k'',
     ''RING2SEG_MUST_BE_MOVABLE'', ''RELOC_CHAIN_XEEDS_SEGLIM'', ''INFLOOP_IN_RELOC_CHAIN'',
     ''ENVVAR_NOT_FOUND'', ''NO_SIGNAL_SENT'', ''FILENAME_EXCED_RANGE'', ''RING2_STACK_IN_USE'',
     ''META_EXPANSION_TOO_LONG'', ''INVALID_SIGNAL_NUMBER'', ''THREAD_1_INACTIVE'', ''LOCKED'',
     ''TOO_MANY_MODULES'', ''NESTING_NOT_ALLOWED'', ''EXE_MACHINE_TYPE_MISMATCH'', ''BAD_PIPE'',
     ''PIPE_BUSY'', ''NO_DATA'', ''PIPE_NOT_CONNECTED'', ''MORE_DATA'', ''VC_DISCONNECTED'',
     ''INVALID_EA_NAME'', ''EA_LIST_INCONSISTENT'', ''IMEOUT'', ''NO_MORE_ITEMS'',
     ''CANNOT_COPY'', ''DIRECTORY'', ''EAS_DIDNT_FIT'', ''EA_FILE_CORRUPT'', ''EA_TABLE_FULL'',
     ''INVALID_EA_HANDLE'', ''EAS_NOT_SUPPORTED'', ''NOT_OWNER'', ''TOO_MANY_POSTS'',
     ''PARTIAL_COPY'', ''OPLOCK_NOT_GRANTED'', ''INVALID_OPLOCK_PROTOCOL'', ''MR_MID_NOT_FOUND'',
     ''INVALID_ADDRESS'', ''ARITHMETIC_OVERFLOW'', ''PIPE_CONNECTED'', ''PIPE_LISTENING'',
     ''EA_ACCESS_DENIED'', ''OPERATION_ABORTED'', ''IO_INCOMPLETE'', ''IO_PENDING'',
     ''NOACCESS'', ''SWAPERROR'']"

definition posix_domain_code :: u64 where "posix_domain_code = 0x1"
definition win32_domain_code :: u64 where "win32_domain_code = 0x2"

section \<open>Tables of error.cpp\<close>

definition posix_categories :: "string list" where
  "posix_categories = [
     '''', ''Operation not permitted'', ''No such file or directory'', ''No such process'',
     ''Interrupted system call'', ''I/O error'', ''No such device or address'',
     ''Arg list too long'', ''Exec format error'', ''Bad file number'', ''No child processes'',
     ''Try again'', ''Out of memory'', ''Permission denied'', ''Bad address'',
     ''Block device required'', ''Device or resource busy'', ''File exists'',
     ''Cross-device link'', ''No such device'', ''Not a directory'', ''Is a directory'',
     ''Invalid argument'', ''File table overflow'', ''Too many open files'',
     ''Not a typewriter'', ''Text file busy'', ''File too large'', ''No space left on device'',
     ''Illegal seek'', ''Read-only file system'', ''Too many links'', ''Broken pipe'',
     ''Math argument out of domain of func'', ''Math result not representable'',
     ''Resource deadlock would occur'', ''File name too long'', ''No record locks available'',
     ''Function not implemented'', ''Directory not empty'',
     ''Too many symbolic links encountered'', ''Try again'', ''No message of desired type'',
     ''Identifier removed'', ''Channel number out of range'', ''Level 2 not synchronized'',
     ''Level 3 halted'', ''Level 3 reset'', ''Link number out of range'',
     ''Protocol driver not attached'', ''No CSI structure available'', ''Level 2 halted'',
     ''Invalid exchange'', ''Invalid request descriptor'', ''Exchange full'', ''No anode'',
     ''Invalid request code'', ''Invalid slot'', ''Resource deadlock would occur'',
     ''Bad font file format'', ''Device not a stream'', ''No data available'', ''Timer expired'',
     ''Out of streams resources'', ''Machine is not on the network'', ''Package not installed'',
     ''Object is remote'', ''Link has been severed'', ''Advertise error'', ''Srmount error'',
     ''Communication error on send'', ''Protocol error'', ''Multihop attempted'',
     ''RFS specific error'', ''Not a data message'', ''Value too large for defined data type'',
     ''Name not unique on network'', ''File descriptor in bad state'',
     ''Remote address changed'', ''Can not access a needed shared library'',
     ''Accessing a corrupted shared library'', ''.lib section in a.out corrupted'',
     ''Attempting to link in too many shared libraries'',
     ''Cannot exec a shared library directly'', ''Illegal byte sequence'',
     ''Interrupted system call should be restarted'', ''Streams pipe error'', ''Too many users'',
     ''Socket operation on non-socket'', ''Destination address required'', ''Message too long'',
     ''Protocol wrong type for socket'', ''Protocol not available'', ''Protocol not supported'',
     ''Socket type not supported'', ''Operation not supported on transport endpoint'',
     ''Protocol family not supported'', ''Address family not supported by protocol'',
     ''Address already in use'', ''Cannot assign requested address'', ''Network is down'',
     ''Network is unreachable'', ''Network dropped connection because of reset'',
     ''Software caused connection abort'', ''Connection reset by peer'',
     ''No buffer space available'', ''Transport endpoint is already connected'',
     ''Transport endpoint is not connected'', ''Cannot send after transport endpoint shutdown'',
     ''Too many references: cannot splice'', ''Connection timed out'', ''Connection refused'',
     ''Host is down'', ''No route to host'', ''Operation already in progress'',
     ''Operation now in progress'', ''Stale NFS file handle'', ''Structure needs cleaning'',
     ''Not a XENIX named type file'', ''No XENIX semaphores available'',
     ''Is a named type file'', ''Remote I/O error'', ''Quota exceeded'', ''No medium found'',
     ''Wrong medium type '']"

definition win32_categories :: "string list" where
  "win32_categories = [
     ''ERROR_SUCCESS'', ''ERROR_INVALID_FUNCTION'', ''ERROR_FILE_NOT_FOUND'',
     ''ERROR_PATH_NOT_FOUND'', ''ERROR_TOO_MANY_OPEN_FILES'', ''ERROR_ACCESS_DENIED'',
     ''ERROR_INVALID_HANDLE'', ''ERROR_ARENA_TRASHED'', ''ERROR_NOT_ENOUGH_MEMORY'',
     ''ERROR_INVALID_BLOCK'', ''ERROR_BAD_ENVIRONMENT'', ''ERROR_BAD_FORMAT'',
     ''ERROR_INVALID_ACCESS'', ''ERROR_INVALID_DATA'', ''ERROR_OUTOFMEMORY'',
     ''ERROR_INVALID_DRIVE'', ''ERROR_CURRENT_DIRECTORY'', ''ERROR_NOT_SAME_DEVICE'',
     ''ERROR_NO_MORE_FILES'', ''ERROR_WRITE_PROTECT'', ''ERROR_BAD_UNIT'', ''ERROR_NOT_READY'',
     ''ERROR_BAD_COMMAND'', ''ERROR_CRC'', ''ERROR_BAD_LENGTH'', ''ERROR_SEEK'',
     ''ERROR_NOT_DOS_DISK'', ''ERROR_SECTOR_NOT_FOUND'', ''ERROR_OUT_OF_PAPER'',
     ''ERROR_WRITE_FAULT'', ''ERROR_READ_FAULT'', ''ERROR_GEN_FAILURE'',
     ''ERROR_SHARING_VIOLATION'', ''ERROR_LOCK_VIOLATION'', ''ERROR_WRONG_DISK'',
     ''ERROR_SHARING_BUFFER_EXCEEDED'', ''ERROR_HANDLE_EOF'', ''ERROR_HANDLE_DISK_FULL'',
     ''ERROR_NOT_SUPPORTED'', ''ERROR_REM_NOT_LIST'', ''ERROR_DUP_NAME'', ''ERROR_BAD_NETPATH'',
     ''ERROR_NETWORK_BUSY'', ''ERROR_DEV_NOT_EXIST'', ''ERROR_TOO_MANY_CMDS'',
     ''ERROR_ADAP_HDW_ERR'', ''ERROR_BAD_NET_RESP'', ''ERROR_UNEXP_NET_ERR'',
     ''ERROR_BAD_REM_ADAP'', ''ERROR_PRINTQ_FULL'', ''ERROR_NO_SPOOL_SPACE'',
     ''ERROR_PRINT_CANCELED'', ''ERROR_NETNAME_DELETED'', ''ERROR_NETWORK_ACCESS_DENIED'',
     ''ERROR_BAD_DEV_TYPE'', ''ERROR_BAD_NET_NAME'', ''ERROR_TOO_MANY_NAMES'',
     ''ERROR_TOO_MANY_SESS'', ''ERROR_SHARING_PAUSED'', ''ERROR_REQ_NOT_ACCEP'',
     ''ERROR_REDIR_PAUSED'', ''ERROR_FILE_EXISTS'', ''ERROR_CANNOT_MAKE'', ''ERROR_FAIL_I24'',
     ''ERROR_OUT_OF_STRUCTURES'', ''ERROR_ALREADY_ASSIGNED'', ''ERROR_INVALID_PASSWORD'',
     ''ERROR_INVALID_PARAMETER'', ''ERROR_NET_WRITE_FAULT'', ''ERROR_NO_PROC_SLOTS'',
     ''ERROR_TOO_MANY_SEMAPHORES'', ''ERROR_EXCL_SEM_ALREADY_OWNED'', ''ERROR_SEM_IS_SET'',
     ''ERROR_TOO_MANY_SEM_REQUESTS'', ''ERROR_INVALID_AT_INTERRUPT_TIME'',
     ''ERROR_SEM_OWNER_DIED'', ''ERROR_SEM_USER_LIMIT'', ''ERROR_DISK_CHANGE'',
     ''ERROR_DRIVE_LOCKED'', ''ERROR_BROKEN_PIPE'', ''ERROR_OPEN_FAILED'',
     ''ERROR_BUFFER_OVERFLOW'', ''ERROR_DISK_FULL'', ''ERROR_NO_MORE_SEARCH_HANDLES'',
     ''ERROR_INVALID_TARGET_HANDLE'', ''ERROR_INVALID_CATEGORY'',
     ''ERROR_INVALID_VERIFY_SWITCH'', ''ERROR_BAD_DRIVER_LEVEL'', ''ERROR_CALL_NOT_IMPLEMENTED'',
     ''ERROR_SEM_TIMEOUT'', ''ERROR_INSUFFICIENT_BUFFER'', ''ERROR_INVALID_NAME'',
     ''ERROR_INVALID_LEVEL'', ''ERROR_NO_VOLUME_LABEL'', ''ERROR_MOD_NOT_FOUND'',
     ''ERROR_PROC_NOT_FOUND'', ''ERROR_WAIT_NO_CHILDREN'', ''ERROR_CHILD_NOT_COMPLETE'',
     ''ERROR_DIRECT_ACCESS_HANDLE'', ''ERROR_NEGATIVE_SEEK'', ''ERROR_SEEK_ON_DEVICE'',
     ''ERROR_IS_JOIN_TARGET'', ''ERROR_IS_JOINED'', ''ERROR_IS_SUBSTED'', ''ERROR_NOT_JOINED'',
     ''ERROR_NOT_SUBSTED'', ''ERROR_JOIN_TO_JOIN'', ''ERROR_SUBST_TO_SUBST'',
     ''ERROR_JOIN_TO_SUBST'', ''ERROR_SUBST_TO_JOIN'', ''ERROR_BUSY_DRIVE'',
     ''ERROR_SAME_DRIVE'', ''ERROR_DIR_NOT_ROOT'', ''ERROR_DIR_NOT_EMPTY'',
     ''ERROR_IS_SUBST_PATH'', ''ERROR_IS_JOIN_PATH'', ''ERROR_PATH_BUSY'',
     ''ERROR_IS_SUBST_TARGET'', ''ERROR_SYSTEM_TRACE'', ''ERROR_INVALID_EVENT_COUNT'',
     ''ERROR_TOO_MANY_MUXWAITERS'', ''ERROR_INVALID_LIST_FORMAT'', ''ERROR_LABEL_TOO_LONG'',
     ''ERROR_TOO_MANY_TCBS'', ''ERROR_SIGNAL_REFUSED'', ''ERROR_DISCARDED'',
     ''ERROR_NOT_LOCKED'', ''ERROR_BAD_THREADID_ADDR'', ''ERROR_BAD_ARGUMENTS'',
     ''ERROR_BAD_PATHNAME'', ''ERROR_SIGNAL_PENDING'', ''ERROR_MAX_THRDS_REACHED'',
     ''ERROR_LOCK_FAILED'', ''ERROR_BUSY'', ''ERROR_CANCEL_VIOLATION'',
     ''ERROR_ATOMIC_LOCKS_NOT_SUPPORTED'', ''ERROR_INVALID_SEGMENT_NUMBER'',
     ''ERROR_INVALID_ORDINAL'', ''ERROR_ALREADY_EXISTS'', ''ERROR_INVALID_FLAG_NUMBER'',
     ''ERROR_SEM_NOT_FOUND'', ''ERROR_INVALID_STARTING_CODESEG'', ''ERROR_INVALID_STACKSEG'',
     ''ERROR_INVALID_MODULETYPE'', ''ERROR_INVALID_EXE_SIGNATURE'', ''ERROR_EXE_MARKED_INVALID'',
     ''ERROR_BAD_EXE_FORMAT'', ''ERROR_ITERATED_DATA_EXCEEDS_64k'',
     ''ERROR_INVALID_MINALLOCSIZE'', ''ERROR_DYNLINK_FROM_INVALID_RING'',
     ''ERROR_IOPL_NOT_ENABLED'', ''ERROR_INVALID_SEGDPL'', ''ERROR_AUTODATASEG_EXCEEDS_64k'',
     ''ERROR_RING2SEG_MUST_BE_MOVABLE'', ''ERROR_RELOC_CHAIN_XEEDS_SEGLIM'',
     ''ERROR_INFLOOP_IN_RELOC_CHAIN'', ''ERROR_ENVVAR_NOT_FOUND'', ''ERROR_NO_SIGNAL_SENT'',
     ''ERROR_FILENAME_EXCED_RANGE'', ''ERROR_RING2_STACK_IN_USE'',
     ''ERROR_META_EXPANSION_TOO_LONG'', ''ERROR_INVALID_SIGNAL_NUMBER'',
     ''ERROR_THREAD_1_INACTIVE'', ''ERROR_LOCKED'', ''ERROR_TOO_MANY_MODULES'',
     ''ERROR_NESTING_NOT_ALLOWED'', ''ERROR_EXE_MACHINE_TYPE_MISMATCH'', ''ERROR_BAD_PIPE'',
     ''ERROR_PIPE_BUSY'', ''ERROR_NO_DATA'', ''ERROR_PIPE_NOT_CONNECTED'', ''ERROR_MORE_DATA'',
     ''ERROR_VC_DISCONNECTED'', ''ERROR_INVALID_EA_NAME'', ''ERROR_EA_LIST_INCONSISTENT'',
     ''WAIT_TIMEOUT'', ''ERROR_NO_MORE_ITEMS'', ''ERROR_CANNOT_COPY'', ''ERROR_DIRECTORY'',
     ''ERROR_EAS_DIDNT_FIT'', ''ERROR_EA_FILE_CORRUPT'', ''ERROR_EA_TABLE_FULL'',
     ''ERROR_INVALID_EA_HANDLE'', ''ERROR_EAS_NOT_SUPPORTED'', ''ERROR_NOT_OWNER'',
     ''ERROR_TOO_MANY_POSTS'', ''ERROR_PARTIAL_COPY'', ''ERROR_OPLOCK_NOT_GRANTED'',
     ''ERROR_INVALID_OPLOCK_PROTOCOL'', ''ERROR_MR_MID_NOT_FOUND'', ''ERROR_INVALID_ADDRESS'',
     ''ERROR_ARITHMETIC_OVERFLOW'', ''ERROR_PIPE_CONNECTED'', ''ERROR_PIPE_LISTENING'',
     ''ERROR_EA_ACCESS_DENIED'', ''ERROR_OPERATION_ABORTED'', ''ERROR_IO_INCOMPLETE'',
     ''ERROR_IO_PENDING'', ''ERROR_NOACCESS'', ''ERROR_SWAPERROR'']"

definition condition_table :: "(u64 \<times> u64) list" where
  "condition_table = [
     (0, 0), (1, 1), (2, 2), (3, 3), (4, 4), (5, 5), (6, 6), (7, 7), (8, 8), (9, 9), (10, 10),
     (11, 11), (12, 12), (13, 13), (14, 14), (15, 15), (16, 16), (17, 17), (18, 18), (19, 19),
     (20, 20), (21, 21), (22, 22), (23, 23), (24, 24), (25, 25), (26, 26), (27, 27), (28, 28),
     (29, 29), (30, 30), (31, 31), (32, 32), (33, 33), (34, 34), (36, 35), (38, 36), (39, 37),
     (50, 38), (51, 39), (52, 40), (53, 41), (54, 42), (55, 43), (56, 44), (57, 45), (58, 46),
     (59, 47), (60, 48), (61, 49), (62, 50), (63, 51), (64, 52), (65, 53), (66, 54), (67, 55),
     (68, 56), (69, 57), (70, 58), (71, 59), (72, 60), (80, 61), (82, 62), (83, 63), (84, 64),
     (85, 65), (86, 66), (87, 67), (88, 68), (89, 69), (100, 70), (101, 71), (102, 72),
     (103, 73), (104, 74), (105, 75), (106, 76), (107, 77), (108, 78), (109, 79), (110, 80),
     (111, 81), (112, 82), (113, 83), (114, 84), (117, 85), (118, 86), (119, 87), (120, 88),
     (121, 89), (122, 90), (123, 91), (124, 92), (125, 93), (126, 94), (127, 95), (128, 96),
     (129, 97), (130, 98), (131, 99), (132, 100), (133, 101), (134, 102), (135, 103), (136, 104),
     (137, 105), (138, 106), (139, 107), (140, 108), (141, 109), (142, 110), (143, 111),
     (144, 112), (145, 113), (146, 114), (147, 115), (148, 116), (149, 117), (150, 118),
     (151, 119), (152, 120), (153, 121), (154, 122), (155, 123), (156, 124), (157, 125),
     (158, 126), (159, 127), (160, 128), (161, 129), (162, 130), (164, 131), (167, 132),
     (170, 133), (173, 134), (174, 135), (180, 136), (182, 137), (183, 138), (186, 139),
     (187, 140), (188, 141), (189, 142), (190, 143), (191, 144), (192, 145), (193, 146),
     (194, 147), (195, 148), (196, 149), (197, 150), (198, 151), (199, 152), (200, 153),
     (201, 154), (202, 155), (203, 156), (205, 157), (206, 158), (207, 159), (208, 160),
     (209, 161), (210, 162), (212, 163), (214, 164), (215, 165), (216, 166), (230, 167),
     (231, 168), (232, 169), (233, 170), (234, 171), (240, 172), (254, 173), (255, 174),
     (258, 175), (259, 176), (266, 177), (267, 178), (275, 179), (276, 180), (277, 181),
     (278, 182), (282, 183), (288, 184), (298, 185), (299, 186), (300, 187), (301, 188),
     (317, 189), (487, 190), (534, 191), (535, 192), (536, 193), (994, 194), (995, 195),
     (996, 196), (997, 197), (998, 198), (999, 199)]"

text \<open>\<open>std::map::at\<close>: the mapped value, or \<open>std::out_of_range\<close>.\<close>

definition table_at :: "(u64 \<times> u64) list \<Rightarrow> u64 \<Rightarrow> u64 outcome" where
  "table_at table key =
     (case map_of table key of Some v \<Rightarrow> Inr v | None \<Rightarrow> Inl Out_of_range_thrown)"

section \<open>detail::code\<close>

type_synonym code = u64

definition domain_mask :: u64 where "domain_mask = 0x0000FFFF00000000"
definition domain_shift :: nat where "domain_shift = 32"
definition condition_mask :: u64 where "condition_mask = 0x00000000FFFF0000"
definition condition_shift :: nat where "condition_shift = 16"
definition incident_mask :: u64 where "incident_mask = 0x000000000000FFFF"
definition incident_shift :: nat where "incident_shift = 0"

definition domain_compare_mask :: u64 where "domain_compare_mask = domain_mask"
definition condition_compare_mask :: u64 where
  "condition_compare_mask = domain_mask OR condition_mask"
definition incident_compare_mask :: u64 where
  "incident_compare_mask = domain_mask OR condition_mask OR incident_mask"

definition code_of :: "u64 \<Rightarrow> u64 \<Rightarrow> u64 \<Rightarrow> code" where
  "code_of domain condition incident =
     push_bit domain_shift domain OR push_bit condition_shift condition OR
     push_bit incident_shift incident"

definition domain_bits :: "code \<Rightarrow> u64" where
  "domain_bits bits = drop_bit domain_shift (bits AND domain_mask)"

definition set_domain_bits :: "u64 \<Rightarrow> code \<Rightarrow> code" where
  "set_domain_bits v bits = bits AND NOT domain_mask OR push_bit domain_shift v"

definition copy_domain_bits :: "code \<Rightarrow> code \<Rightarrow> code" where
  "copy_domain_bits c bits = bits AND NOT domain_mask OR (c AND domain_mask)"

definition condition_bits :: "code \<Rightarrow> u64" where
  "condition_bits bits = drop_bit condition_shift (bits AND condition_mask)"

definition set_condition_bits :: "u64 \<Rightarrow> code \<Rightarrow> code" where
  "set_condition_bits v bits = bits AND NOT condition_mask OR push_bit condition_shift v"

definition copy_condition_bits :: "code \<Rightarrow> code \<Rightarrow> code" where
  "copy_condition_bits c bits = bits AND NOT condition_mask OR (c AND condition_mask)"

definition incident_bits :: "code \<Rightarrow> u64" where
  "incident_bits bits = drop_bit incident_shift (bits AND incident_mask)"

definition set_incident_bits :: "u64 \<Rightarrow> code \<Rightarrow> code" where
  "set_incident_bits v bits = bits AND NOT incident_mask OR push_bit incident_shift v"

definition copy_incident_bits :: "code \<Rightarrow> code \<Rightarrow> code" where
  "copy_incident_bits c bits = bits AND NOT incident_mask OR (c AND incident_mask)"

definition same_domain :: "code \<Rightarrow> code \<Rightarrow> bool" where
  "same_domain this that \<longleftrightarrow> this AND domain_compare_mask = that AND domain_compare_mask"

definition same_condition :: "code \<Rightarrow> code \<Rightarrow> bool" where
  "same_condition this that \<longleftrightarrow> this AND condition_compare_mask = that AND condition_compare_mask"

definition same_incident :: "code \<Rightarrow> code \<Rightarrow> bool" where
  "same_incident this that \<longleftrightarrow> this AND incident_compare_mask = that AND incident_compare_mask"

text \<open>The free function: the two variables are assigned by the switches, and passing one that
  was not assigned is undefined.\<close>

definition equivalent_conditions :: "u64 \<Rightarrow> u64 \<Rightarrow> bool" where
  "equivalent_conditions posix win32 = False"

definition is_equivalent :: "u64 \<Rightarrow> u64 \<Rightarrow> u64 \<Rightarrow> u64 \<Rightarrow> bool outcome" where
  "is_equivalent domain_a condition_a domain_b condition_b =
     (if domain_a \<notin> {posix_domain_code, win32_domain_code} then Inr False
      else if domain_b \<notin> {posix_domain_code, win32_domain_code} then Inr False
      else
        let posix = (if domain_b = posix_domain_code then Some condition_b
              else if domain_a = posix_domain_code then Some condition_a else None);
            win32 = (if domain_b = win32_domain_code then Some condition_b
              else if domain_a = win32_domain_code then Some condition_a else None)
        in (case (posix, win32) of
              (Some p, Some w) \<Rightarrow> Inr (equivalent_conditions p w)
            | _ \<Rightarrow> Inl Undefined))"

section \<open>Errors, conditions and domains\<close>

text \<open>An error points to the domain that raised it; here it carries the code of that domain
  only in its bits, and the operations that follow the pointer take the domain's state.\<close>

record 'l incident_entry =
  location :: 'l
  text_of :: string

record 'l domain_state =
  incidents :: "'l incident_entry list"
  next_incident :: nat

definition domain_new :: "'l \<Rightarrow> 'l domain_state" where
  "domain_new no_location =
     \<lparr>incidents = replicate 128 \<lparr>location = no_location, text_of = []\<rparr>, next_incident = 0\<rparr>"

text \<open>The first three statements of \<open>raise\<close>.\<close>

definition record_incident :: "'l \<Rightarrow> string \<Rightarrow> 'l domain_state \<Rightarrow> 'l domain_state" where
  "record_incident loc message st =
     (let current = next_incident st
      in st\<lparr>next_incident := Suc current mod length (incidents st),
           incidents := (incidents st)[current := \<lparr>location = loc, text_of = message\<rparr>]\<rparr>)"

definition posix_raise ::
    "u64 \<Rightarrow> 'l \<Rightarrow> string \<Rightarrow> 'l domain_state \<Rightarrow> 'l domain_state \<times> code outcome" where
  "posix_raise condition loc message st =
     (record_incident loc message st,
      Inr (code_of posix_domain_code condition (of_nat (next_incident st))))"

definition posix_expect :: "u64 \<Rightarrow> code" where
  "posix_expect condition = code_of posix_domain_code condition 0"

text \<open>The incident is recorded before \<open>condition_table_.at\<close> may throw.\<close>

definition win32_raise ::
    "u64 \<Rightarrow> 'l \<Rightarrow> string \<Rightarrow> 'l domain_state \<Rightarrow> 'l domain_state \<times> code outcome" where
  "win32_raise condition loc message st =
     (record_incident loc message st,
      and_then (table_at condition_table condition)
        (\<lambda>c. Inr (code_of win32_domain_code c (of_nat (next_incident st)))))"

definition win32_expect :: "u64 \<Rightarrow> code outcome" where
  "win32_expect condition =
     and_then (table_at condition_table condition)
       (\<lambda>c. Inr (code_of win32_domain_code c 0))"

definition incident_message :: "'l domain_state \<Rightarrow> code \<Rightarrow> string outcome" where
  "incident_message st err =
     and_then (checked_nth (incidents st) (unat (incident_bits err))) (\<lambda>i. Inr (text_of i))"

definition incident_location :: "'l domain_state \<Rightarrow> code \<Rightarrow> 'l outcome" where
  "incident_location st err =
     and_then (checked_nth (incidents st) (unat (incident_bits err))) (\<lambda>i. Inr (location i))"

definition domain_equivalent :: "code \<Rightarrow> code \<Rightarrow> bool" where
  "domain_equivalent err condition = False"

definition error_equals :: "code \<Rightarrow> code \<Rightarrow> bool" where
  "error_equals a b \<longleftrightarrow> same_condition a b \<or> domain_equivalent a b"

section \<open>stable_hash\<close>

definition shuffle :: "u64 \<Rightarrow> u64" where
  "shuffle block =
     drop_bit 16 (block AND 0xFFFF000000000000) OR
     drop_bit 32 (block AND 0x0000FFFF00000000) OR
     push_bit 32 (block AND 0x00000000FFFF0000) OR
     push_bit 16 (block AND 0x000000000000FFFF)"

definition diffuse :: "u64 \<Rightarrow> u64 \<Rightarrow> u64 \<Rightarrow> u64" where
  "diffuse block a b = block * a XOR NOT block * b"

definition m1 :: u64 where "m1 = 0xC2B2AE35C2B2AE35"
definition m2 :: u64 where "m2 = 0x42F0E1EBA9EA3693"
definition m3 :: u64 where "m3 = 0xC96C5795D7870F42"

text \<open>\<open>memcpy\<close> of eight bytes from position \<open>i\<close>, which leaves the string where fewer are left.\<close>

function hash_blocks :: "u8 list \<Rightarrow> nat \<Rightarrow> u64 \<Rightarrow> (nat \<times> u64) outcome" where
  "hash_blocks str i result =
     (if i < length str \<and> 8 \<le> length str
      then if i + 8 \<le> length str
        then hash_blocks str (i + 8)
          (shuffle result XOR diffuse (of_le_bytes (take 8 (drop i str))) (NOT m2) m3)
        else Inl Out_of_bounds
      else Inr (i, result))"
  by pat_completeness auto
termination by (relation "measure (\<lambda>(str, i, _). length str - i)") auto

text \<open>A \<open>char\<close> is signed on the host and is extended with its sign.\<close>

function hash_chars :: "u8 list \<Rightarrow> nat \<Rightarrow> u64 \<Rightarrow> u64" where
  "hash_chars str i result =
     (if i < length str
      then hash_chars str (i + 1) (shuffle result XOR diffuse (scast (str ! i)) m3 (NOT m1))
      else result)"
  by pat_completeness auto
termination by (relation "measure (\<lambda>(str, i, _). length str - i)") auto

declare hash_blocks.simps [simp del] hash_chars.simps [simp del]

definition stable_hash :: "u8 list \<Rightarrow> u64 outcome" where
  "stable_hash str =
     and_then (hash_blocks str 0 (diffuse (of_nat (length str)) m1 m2))
       (\<lambda>(i, result). Inr (diffuse (hash_chars str i result) m2 (NOT m3)))"

section \<open>Lemmas on codes\<close>

lemma field_masks:
  "domain_mask = push_bit 32 (mask 16)" "condition_mask = push_bit 16 (mask 16)"
  "incident_mask = mask 16"
  by (simp_all add: domain_mask_def condition_mask_def incident_mask_def mask_eq_exp_minus_1
      push_bit_eq_mult)

lemma bit_masks [simp]:
  "bit domain_mask n \<longleftrightarrow> 32 \<le> n \<and> n < 48"
  "bit condition_mask n \<longleftrightarrow> 16 \<le> n \<and> n < 32"
  "bit incident_mask n \<longleftrightarrow> n < 16"
  by (auto simp: field_masks bit_simps)

lemma small_bit: "unat (x :: u64) < 2 ^ 16 \<Longrightarrow> 16 \<le> n \<Longrightarrow> \<not> bit x n"
  using bit_imp_unat_ge[of x n] power_increasing[of 16 n "2 :: nat"] by fastforce

lemma small_bit_less: "unat (x :: u64) < 2 ^ 16 \<Longrightarrow> bit x n \<Longrightarrow> n < 16"
  using small_bit by (metis not_le)

lemma bit_code_of:
  "bit (code_of d c i) n \<longleftrightarrow>
     n < 64 \<and> (32 \<le> n \<and> bit d (n - 32) \<or> 16 \<le> n \<and> bit c (n - 16) \<or> bit i n)"
  by (auto simp: code_of_def domain_shift_def condition_shift_def incident_shift_def bit_simps
      dest: bit_imp_le_length)

lemma bit_fields:
  "bit (domain_bits x) n \<longleftrightarrow> n < 16 \<and> bit x (n + 32)"
  "bit (condition_bits x) n \<longleftrightarrow> n < 16 \<and> bit x (n + 16)"
  "bit (incident_bits x) n \<longleftrightarrow> n < 16 \<and> bit x n"
  by (auto simp: domain_bits_def condition_bits_def incident_bits_def domain_shift_def
      condition_shift_def incident_shift_def bit_simps ac_simps)

lemma code_bits:
  assumes d: "unat d < 2 ^ 16" and c: "unat c < 2 ^ 16" and i: "unat i < 2 ^ 16"
  shows "domain_bits (code_of d c i) = d" "condition_bits (code_of d c i) = c"
    "incident_bits (code_of d c i) = i"
proof -
  note s = small_bit[OF d] small_bit[OF c] small_bit[OF i]
  show "domain_bits (code_of d c i) = d"
    by (rule bit_word_eqI) (auto simp: bit_fields bit_code_of s not_less dest: small_bit_less[OF d])
  show "condition_bits (code_of d c i) = c"
    by (rule bit_word_eqI) (auto simp: bit_fields bit_code_of s not_less dest: small_bit_less[OF c])
  show "incident_bits (code_of d c i) = i"
    by (rule bit_word_eqI) (auto simp: bit_fields bit_code_of s not_less dest: small_bit_less[OF i])
qed

lemma same_condition_code_of:
  assumes "unat d < 2 ^ 16" "unat c < 2 ^ 16" "unat i < 2 ^ 16"
    and "unat d' < 2 ^ 16" "unat c' < 2 ^ 16" "unat i' < 2 ^ 16"
  shows "same_condition (code_of d c i) (code_of d' c' i') \<longleftrightarrow> d = d' \<and> c = c'"
proof
  assume s: "same_condition (code_of d c i) (code_of d' c' i')"
  have b: "bit (code_of d c i) n = bit (code_of d' c' i') n" if "16 \<le> n" "n < 48" for n
  proof -
    have "bit (code_of d c i AND condition_compare_mask) n = bit (code_of d' c' i' AND condition_compare_mask) n"
      using s by (simp add: same_condition_def)
    then show ?thesis using that by (cases "32 \<le> n") (simp_all add: condition_compare_mask_def bit_simps)
  qed
  have "domain_bits (code_of d c i) = domain_bits (code_of d' c' i')"
    "condition_bits (code_of d c i) = condition_bits (code_of d' c' i')"
    using b by (auto intro!: bit_word_eqI simp: bit_fields)
  then show "d = d' \<and> c = c'" using assms by (simp add: code_bits)
next
  assume "d = d' \<and> c = c'"
  moreover have "\<not> bit i n" "\<not> bit i' n" if "16 \<le> n" for n
    using small_bit[OF assms(3) that] small_bit[OF assms(6) that] by simp_all
  ultimately show "same_condition (code_of d c i) (code_of d' c' i')"
    by (auto intro!: bit_word_eqI simp: same_condition_def condition_compare_mask_def bit_simps bit_code_of)
qed

text \<open>A code whose bits above the three fields are clear is given by its fields.\<close>

lemma code_eqI:
  assumes "domain_bits x = domain_bits y" "condition_bits x = condition_bits y"
    "incident_bits x = incident_bits y" "\<And>n. 48 \<le> n \<Longrightarrow> \<not> bit x n" "\<And>n. 48 \<le> n \<Longrightarrow> \<not> bit y n"
  shows "x = y"
proof (rule bit_word_eqI)
  fix n assume "n < LENGTH(64)"
  consider "n < 16" | "16 \<le> n" "n < 32" | "32 \<le> n" "n < 48" | "48 \<le> n" by linarith
  then show "bit x n = bit y n"
  proof cases
    case 1 then show ?thesis using arg_cong[OF assms(3), of "\<lambda>z. bit z n"] by (simp add: bit_fields)
  next
    case 2
    then have "n - 16 < 16" by linarith
    then show ?thesis using 2 arg_cong[OF assms(2), of "\<lambda>z. bit z (n - 16)"] by (simp add: bit_fields)
  next
    case 3
    then have "n - 32 < 16" by linarith
    then show ?thesis using 3 arg_cong[OF assms(1), of "\<lambda>z. bit z (n - 32)"] by (simp add: bit_fields)
  next
    case 4 then show ?thesis using assms(4,5) by simp
  qed
qed

lemma set_bits_fields:
  assumes v: "unat v < 2 ^ 16"
  shows "domain_bits (set_domain_bits v x) = v" "condition_bits (set_domain_bits v x) = condition_bits x"
    "incident_bits (set_domain_bits v x) = incident_bits x"
    "domain_bits (set_condition_bits v x) = domain_bits x" "condition_bits (set_condition_bits v x) = v"
    "incident_bits (set_condition_bits v x) = incident_bits x"
    "domain_bits (set_incident_bits v x) = domain_bits x"
    "condition_bits (set_incident_bits v x) = condition_bits x"
    "incident_bits (set_incident_bits v x) = v"
  by (auto intro!: bit_word_eqI simp: bit_fields set_domain_bits_def set_condition_bits_def
      set_incident_bits_def domain_shift_def condition_shift_def incident_shift_def bit_simps not_less
      small_bit[OF v] dest: small_bit_less[OF v])

lemma code_of_high:
  assumes "unat d < 2 ^ 16" "unat c < 2 ^ 16" "unat i < 2 ^ 16" "48 \<le> n"
  shows "\<not> bit (code_of d c i) n"
  using small_bit[OF assms(1), of "n - 32"] small_bit[OF assms(2), of "n - 16"]
    small_bit[OF assms(3), of n] assms(4)
  by (simp add: bit_code_of)

lemma set_high:
  assumes "unat v < 2 ^ 16" "48 \<le> n" "\<not> bit x n"
  shows "\<not> bit (set_domain_bits v x) n" "\<not> bit (set_condition_bits v x) n"
    "\<not> bit (set_incident_bits v x) n"
  using small_bit[OF assms(1), of "n - 32"] small_bit[OF assms(1), of "n - 16"]
    small_bit[OF assms(1), of n] assms(2,3)
  by (simp_all add: set_domain_bits_def set_condition_bits_def set_incident_bits_def
      domain_shift_def condition_shift_def incident_shift_def bit_simps)

section \<open>The condition table\<close>

definition mapped_codes :: "nat list" where
  "mapped_codes =
     [0..<35] @ [36] @ [38..<40] @ [50..<73] @ [80] @ [82..<90] @ [100..<115] @ [117..<163]
     @ [164] @ [167] @ [170] @ [173..<175] @ [180] @ [182..<184] @ [186..<204] @ [205..<211]
     @ [212] @ [214..<217] @ [230..<235] @ [240] @ [254..<256] @ [258..<260] @ [266..<268]
     @ [275..<279] @ [282] @ [288] @ [298..<302] @ [317] @ [487] @ [534..<537] @ [994..<1000]"

lemma table_keys: "map fst condition_table = map of_nat mapped_codes"
  by (simp add: condition_table_def mapped_codes_def upt_conv_Cons)

lemma table_values: "map snd condition_table = map of_nat [0..<200]"
  unfolding condition_table_def by (simp add: upt_conv_Cons)

lemma mapped_codes_increasing: "sorted_wrt (<) mapped_codes"
proof -
  have "successively (<) mapped_codes" unfolding mapped_codes_def by (simp add: upt_conv_Cons)
  then show ?thesis by (simp add: successively_conv_sorted_wrt)
qed

lemma mapped_codes_small: "k \<in> set mapped_codes \<Longrightarrow> k < 2 ^ 64"
  by (auto simp: mapped_codes_def)

lemma unat_key: "k \<in> set mapped_codes \<Longrightarrow> unat (of_nat k :: u64) = k"
  using mapped_codes_small by (intro unat_of_nat_small) simp

lemma distinct_table_keys: "distinct (map fst condition_table)"
proof -
  have "inj_on (of_nat :: nat \<Rightarrow> u64) (set mapped_codes)"
    by (rule inj_on_inverseI[where g = unat]) (rule unat_key)
  then show ?thesis
    using mapped_codes_increasing by (simp add: table_keys distinct_map strict_sorted_iff)
qed

lemma distinct_table_values: "distinct (map snd condition_table)"
  unfolding table_values
  by (rule distinct_map_upt_inj, rule inj_on_inverseI[where g = unat])
    (rule unat_of_nat_small, simp)

lemma table_at_eq_Inr: "table_at condition_table k = Inr v \<longleftrightarrow> (k, v) \<in> set condition_table"
  using map_of_eq_Some_iff[OF distinct_table_keys, of k v]
  by (cases "map_of condition_table k") (auto simp: table_at_def)

lemma table_at_throws:
  "table_at condition_table k = Inl e \<longleftrightarrow> e = Out_of_range_thrown \<and> unat k \<notin> set mapped_codes"
proof -
  have "k \<in> set (map fst condition_table) \<longleftrightarrow> unat k \<in> set mapped_codes"
    unfolding table_keys by (auto simp: unat_key) (metis imageI word_unat_eq_iff unat_key of_nat_unat)
  then show ?thesis using map_of_eq_None_iff[of condition_table k]
    by (cases "map_of condition_table k") (auto simp: table_at_def)
qed

lemma table_at_bound: "table_at condition_table k = Inr v \<Longrightarrow> unat v < 200"
proof -
  assume "table_at condition_table k = Inr v"
  then have "v \<in> set (map snd condition_table)" by (force simp: table_at_eq_Inr)
  then show ?thesis unfolding table_values by (auto simp: unat_of_nat_small)
qed

lemma table_at_injective:
  assumes "table_at condition_table k = Inr v" "table_at condition_table j = Inr v"
  shows "k = j"
  using assms distinct_table_values
  by (auto simp: table_at_eq_Inr distinct_map dest: inj_onD[of snd _ "(k, v)" "(j, v)"])

section \<open>The incident log\<close>

definition log_ok :: "'l domain_state \<Rightarrow> bool" where
  "log_ok st \<longleftrightarrow> length (incidents st) = 128 \<and> next_incident st < 128"

lemma log_ok_new: "log_ok (domain_new no_location)"
  by (simp add: log_ok_def domain_new_def)

lemma log_ok_record: "log_ok st \<Longrightarrow> log_ok (record_incident l m st)"
  by (simp add: log_ok_def record_incident_def Let_def)

type_synonym 'l incident = "u64 \<times> 'l \<times> string"

definition log_all :: "'l incident list \<Rightarrow> 'l domain_state \<Rightarrow> 'l domain_state" where
  "log_all xs st = fold (\<lambda>(c, l, m). record_incident l m) xs st"

lemma log_all_snoc: "log_all (xs @ [(c, l, m)]) st = record_incident l m (log_all xs st)"
  by (simp add: log_all_def)

lemma log_all_ok:
  assumes "log_ok st"
  shows "log_ok (log_all xs st) \<and> next_incident (log_all xs st) = (next_incident st + length xs) mod 128"
proof (induction xs rule: rev_induct)
  case Nil
  then show ?case using assms by (simp add: log_all_def log_ok_def)
next
  case (snoc x xs)
  obtain c l m where x: "x = (c, l, m)" by (cases x)
  show ?case using snoc unfolding x log_all_snoc
    by (simp add: log_ok_record) (simp add: record_incident_def Let_def log_ok_def mod_simps)
qed

lemma log_all_slot:
  assumes "log_ok st"
  shows "j < length xs \<Longrightarrow> length xs - j \<le> 128 \<Longrightarrow>
    incidents (log_all xs st) ! ((next_incident st + j) mod 128) =
      \<lparr>location = fst (snd (xs ! j)), text_of = snd (snd (xs ! j))\<rparr>"
proof (induction xs rule: rev_induct)
  case (snoc x xs)
  obtain c l m where x: "x = (c, l, m)" by (cases x)
  let ?n = "next_incident st"
  have ok: "length (incidents (log_all xs st)) = 128"
    "next_incident (log_all xs st) = (?n + length xs) mod 128"
    using log_all_ok[OF assms, of xs] by (simp_all add: log_ok_def)
  show ?case
  proof (cases "j = length xs")
    case True
    then show ?thesis by (simp add: x log_all_snoc record_incident_def Let_def ok)
  next
    case False
    then have j: "j < length xs" "length xs - j < 128" using snoc.prems by auto
    have "(?n + j) mod 128 \<noteq> (?n + length xs) mod 128"
    proof
      assume "(?n + j) mod 128 = (?n + length xs) mod 128"
      then have "128 dvd (?n + length xs) - (?n + j)" by (metis mod_eq_dvd_iff_nat le_add1 nat_le_linear
            add_le_cancel_left j(1) less_imp_le)
      then show False using j nat_dvd_not_less[of "length xs - j" 128] by simp
    qed
    then show ?thesis
      using snoc.IH j by (simp add: x log_all_snoc record_incident_def Let_def ok nth_append)
  qed
qed simp

text \<open>The newest raise of those that used the same slot as raise \<open>i\<close> of \<open>n\<close>.\<close>

definition newest_in_slot :: "nat \<Rightarrow> nat \<Rightarrow> nat" where
  "newest_in_slot n i = i + 128 * ((n - 1 - i) div 128)"

lemma newest_in_slot_bounds:
  assumes "i < n"
  shows "newest_in_slot n i < n" "n - newest_in_slot n i \<le> 128"
proof -
  have "128 * ((n - 1 - i) div 128) + (n - 1 - i) mod 128 = n - 1 - i" by simp
  moreover have "(n - 1 - i) mod 128 < 128" by simp
  ultimately show "newest_in_slot n i < n" "n - newest_in_slot n i \<le> 128"
    using assms unfolding newest_in_slot_def by linarith+
qed

lemma log_all_message:
  assumes "log_ok st" "i < length xs"
  shows "incidents (log_all xs st) ! ((next_incident st + i) mod 128) =
    \<lparr>location = fst (snd (xs ! newest_in_slot (length xs) i)),
     text_of = snd (snd (xs ! newest_in_slot (length xs) i))\<rparr>"
proof -
  have "(next_incident st + newest_in_slot (length xs) i) mod 128 = (next_incident st + i) mod 128"
    by (simp add: newest_in_slot_def add.assoc[symmetric])
  then show ?thesis
    using log_all_slot[OF assms(1) newest_in_slot_bounds[OF assms(2)]] by simp
qed

section \<open>The contract of a domain\<close>

text \<open>A program that raises a list of errors and goes on when one throws.\<close>

fun raise_all ::
    "(u64 \<Rightarrow> 'l \<Rightarrow> string \<Rightarrow> 'l domain_state \<Rightarrow> 'l domain_state \<times> code outcome) \<Rightarrow>
     'l incident list \<Rightarrow> 'l domain_state \<Rightarrow> 'l domain_state \<times> code outcome list" where
  "raise_all raise [] st = (st, [])"
| "raise_all raise ((c, l, m) # xs) st =
     (let now = raise c l m st; later = raise_all raise xs (fst now)
      in (fst later, snd now # snd later))"

locale incident_log =
  fixes raise :: "u64 \<Rightarrow> 'l \<Rightarrow> string \<Rightarrow> 'l domain_state \<Rightarrow> 'l domain_state \<times> code outcome"
    and expected :: "u64 \<Rightarrow> code outcome"
    and encode :: "u64 \<Rightarrow> u64 outcome"
    and domain_code :: u64
  assumes domain_small: "unat domain_code < 2 ^ 16"
    and raise_records: "raise c l m st = (record_incident l m st,
      and_then (encode c) (\<lambda>k. Inr (code_of domain_code k (of_nat (next_incident st)))))"
    and expected_code: "expected c = and_then (encode c) (\<lambda>k. Inr (code_of domain_code k 0))"
begin

lemma raise_all_state: "fst (raise_all raise xs st) = log_all xs st"
  by (induction xs arbitrary: st) (auto simp: log_all_def raise_records Let_def)

lemma raise_all_length: "length (snd (raise_all raise xs st)) = length xs"
  by (induction xs arbitrary: st) (auto simp: Let_def)

lemma raise_all_error:
  "log_ok st \<Longrightarrow> i < length xs \<Longrightarrow> snd (raise_all raise xs st) ! i =
     and_then (encode (fst (xs ! i)))
       (\<lambda>k. Inr (code_of domain_code k (of_nat ((next_incident st + i) mod 128))))"
proof (induction xs arbitrary: st i)
  case (Cons x xs)
  obtain c l m where x: "x = (c, l, m)" by (cases x)
  have n: "next_incident (record_incident l m st) = Suc (next_incident st) mod 128"
    using Cons.prems by (simp add: record_incident_def Let_def log_ok_def)
  show ?case
  proof (cases i)
    case 0
    then show ?thesis using Cons.prems
      by (simp add: x raise_records Let_def log_ok_def)
  next
    case (Suc j)
    then show ?thesis
      using Cons.IH[OF log_ok_record[OF Cons.prems(1)], of j l m] Cons.prems
      by (simp add: x raise_records Let_def n mod_simps)
  qed
qed simp

lemma raise_all_message:
  assumes "log_ok st" "i < length xs" "encode (fst (xs ! i)) = Inr k" "unat k < 2 ^ 16"
  shows "\<exists>e. snd (raise_all raise xs st) ! i = Inr e \<and>
    incident_message (fst (raise_all raise xs st)) e =
      Inr (snd (snd (xs ! newest_in_slot (length xs) i))) \<and>
    incident_location (fst (raise_all raise xs st)) e =
      Inr (fst (snd (xs ! newest_in_slot (length xs) i)))"
proof -
  let ?s = "(next_incident st + i) mod 128"
  let ?e = "code_of domain_code k (of_nat ?s)"
  have "unat (of_nat ?s :: u64) = ?s"
    by (rule unat_of_nat_small, rule less_trans[of _ 128]) simp_all
  then have b: "unat (incident_bits ?e) = ?s"
    using assms(4) by (subst code_bits(3)[OF domain_small]) (auto intro: less_trans[of _ 128])
  have "?s < length (incidents (log_all xs st))"
    using log_all_ok[OF assms(1), of xs] by (simp add: log_ok_def)
  then show ?thesis
    using raise_all_error[OF assms(1,2)] assms(3)
    by (simp add: raise_all_state incident_message_def incident_location_def b
        log_all_message[OF assms(1,2)])
qed

lemma raise_matches:
  assumes "snd (raise c l m st) = Inr e" "expected c' = Inr x"
    and "encode c = Inr k" "encode c' = Inr k'" "unat k < 2 ^ 16" "unat k' < 2 ^ 16" "log_ok st"
  shows "error_equals e x \<longleftrightarrow> k = k'"
proof -
  have n: "unat (of_nat (next_incident st) :: u64) < 2 ^ 16" "unat (0 :: u64) < 2 ^ 16"
    using assms(7) by (simp_all add: log_ok_def unat_of_nat_small)
  have "e = code_of domain_code k (of_nat (next_incident st))" "x = code_of domain_code k' 0"
    using assms by (simp_all add: raise_records expected_code)
  then show ?thesis
    using same_condition_code_of[OF domain_small assms(5) n(1) domain_small assms(6) n(2)]
    by (simp add: error_equals_def domain_equivalent_def)
qed

end

interpretation posix: incident_log posix_raise "\<lambda>c. Inr (posix_expect c)" Inr posix_domain_code
  by unfold_locales (simp_all add: posix_domain_code_def posix_raise_def posix_expect_def)

interpretation win32: incident_log win32_raise win32_expect "table_at condition_table" win32_domain_code
  by unfold_locales (simp_all add: win32_domain_code_def win32_raise_def win32_expect_def)

section \<open>The hash of a string\<close>

function chunks :: "u8 list \<Rightarrow> u64 list" where
  "chunks bs = (if length bs < 8 then [] else of_le_bytes (take 8 bs) # chunks (drop 8 bs))"
  by pat_completeness auto
termination by (relation "measure length") auto

declare chunks.simps [simp del]

definition block_step :: "u64 \<Rightarrow> u64 \<Rightarrow> u64" where
  "block_step r b = shuffle r XOR diffuse b (NOT m2) m3"

definition char_step :: "u64 \<Rightarrow> u8 \<Rightarrow> u64" where
  "char_step r c = shuffle r XOR diffuse (scast c) m3 (NOT m1)"

lemma hash_chars_eq: "hash_chars str i r = foldl char_step r (drop i str)"
proof (induction str i r rule: hash_chars.induct)
  case (1 str i r)
  show ?case
  proof (cases "i < length str")
    case True
    then have "drop i str = str ! i # drop (i + 1) str" by (simp add: Cons_nth_drop_Suc)
    then show ?thesis using 1[OF True] True
      by (subst hash_chars.simps) (simp add: char_step_def[abs_def])
  next
    case False
    then show ?thesis by (subst hash_chars.simps) simp
  qed
qed

lemma hash_blocks_eq:
  "8 \<le> length str \<Longrightarrow> i \<le> length str \<Longrightarrow> i mod 8 = 0 \<Longrightarrow> hash_blocks str i r =
     (if length str mod 8 = 0 then Inr (length str, foldl block_step r (chunks (drop i str)))
      else Inl Out_of_bounds)"
proof (induction str i r rule: hash_blocks.induct)
  case (1 str i r)
  show ?case
  proof (cases "i < length str")
    case False
    then have "i = length str" using 1 by simp
    then show ?thesis using 1(4) by (subst hash_blocks.simps) (simp add: chunks.simps[of "[]"])
  next
    case True
    show ?thesis
    proof (cases "i + 8 \<le> length str")
      case fits: True
      have c: "chunks (drop i str) = of_le_bytes (take 8 (drop i str)) # chunks (drop (i + 8) str)"
        using fits by (subst chunks.simps) (simp add: add.commute)
      have "i < length str \<and> 8 \<le> length str" using True 1 by simp
      from 1(1)[OF this fits] show ?thesis
        using fits True 1(2,4) by (subst hash_blocks.simps) (simp add: c block_step_def[abs_def])
    next
      case over: False
      have "length str mod 8 \<noteq> 0"
      proof
        assume "length str mod 8 = 0"
        then have "8 dvd length str - i" using 1(4) by (simp add: dvd_diff_nat mod_eq_0_iff_dvd)
        then show False using over True nat_dvd_not_less[of "length str - i" 8] by simp
      qed
      then show ?thesis using over True 1(2) by (subst hash_blocks.simps) simp
    qed
  qed
qed

lemma chunk_cases:
  fixes n :: nat
  assumes "n < 64"
  obtains k where "n = k" "k < 16" | k where "n = k + 16" "k < 16"
    | k where "n = k + 32" "k < 16" | k where "n = k + 48" "k < 16"
proof -
  consider "n < 16" | "16 \<le> n \<and> n < 32" | "32 \<le> n \<and> n < 48" | "48 \<le> n \<and> n < 64"
    using assms by linarith
  then show ?thesis
    by cases (use that(1)[of n] that(2)[of "n - 16"] that(3)[of "n - 32"] that(4)[of "n - 48"]
        in \<open>simp_all, linarith+\<close>)
qed

lemma bit_shuffle:
  "bit (shuffle x) n \<longleftrightarrow> n < 64 \<and>
     bit x (if n < 16 then n + 32 else if n < 32 then n - 16 else if n < 48 then n + 16 else n - 32)"
proof -
  have m: "(0xFFFF000000000000 :: u64) = push_bit 48 (mask 16)"
    "(0x0000FFFF00000000 :: u64) = push_bit 32 (mask 16)"
    "(0x00000000FFFF0000 :: u64) = push_bit 16 (mask 16)"
    "(0x000000000000FFFF :: u64) = mask 16"
    by (simp_all add: mask_eq_exp_minus_1 push_bit_eq_mult)
  show ?thesis
  proof (cases "n < 64")
    case True
    then show ?thesis
      by (cases n rule: chunk_cases) (simp_all add: shuffle_def m bit_simps ac_simps)
  next
    case False
    then show ?thesis by (auto dest: bit_imp_le_length)
  qed
qed

lemma shuffle_cycle: "shuffle (shuffle (shuffle (shuffle x))) = x"
proof (rule bit_word_eqI)
  fix n assume "n < LENGTH(64)"
  then have "n < 64" by simp
  then show "bit (shuffle (shuffle (shuffle (shuffle x)))) n = bit x n"
    by (cases n rule: chunk_cases) (simp_all add: bit_shuffle ac_simps)
qed

lemma xor_right_cancel: "x XOR z = y XOR z \<longleftrightarrow> x = y" for x y z :: u64
proof
  assume "x XOR z = y XOR z"
  then have "(x XOR z) XOR z = (y XOR z) XOR z" by simp
  then show "x = y" by (simp only: xor.assoc xor_self_eq xor.right_neutral)
qed simp

lemma shuffle_injective: "shuffle x = shuffle y \<longleftrightarrow> x = y"
  by (metis shuffle_cycle)

section \<open>Properties\<close>

text \<open>Raising errors with the POSIX domain: every error of a run can be read back from the
  domain while at most 128 errors have been raised since, and after that it reads the message and the location
  of the newest error that took its slot of the ring.\<close>

theorem posix_incident_window:
  assumes "i < length xs" "unat (fst (xs ! i)) < 2 ^ 16"
  shows "\<exists>e. snd (raise_all posix_raise xs (domain_new no_location)) ! i = Inr e \<and>
    incident_message (fst (raise_all posix_raise xs (domain_new no_location))) e =
      Inr (snd (snd (xs ! newest_in_slot (length xs) i))) \<and>
    incident_location (fst (raise_all posix_raise xs (domain_new no_location))) e =
      Inr (fst (snd (xs ! newest_in_slot (length xs) i))) \<and>
    (newest_in_slot (length xs) i = i \<longleftrightarrow> length xs \<le> i + 128)"
proof -
  have "newest_in_slot (length xs) i = i \<longleftrightarrow> length xs \<le> i + 128"
    using assms(1) by (auto simp: newest_in_slot_def div_eq_0_iff)
  then show ?thesis
    using posix.raise_all_message[OF log_ok_new[of no_location] assms(1) refl assms(2)] by auto
qed

theorem posix_incident_window_witness:
  "\<exists>e r. r = raise_all posix_raise [(64, 7 :: nat, ''send help!''), (1, 8, ''again'')] (domain_new 0) \<and>
    snd r ! 0 = Inr e \<and> incident_message (fst r) e = Inr ''send help!''"
proof -
  have n: "newest_in_slot (Suc (Suc 0)) 0 = 0" by (simp add: newest_in_slot_def)
  show ?thesis
    using posix_incident_window[of 0 "[(64, 7 :: nat, ''send help!''), (1, 8, ''again'')]" 0]
    by (simp add: n del: raise_all.simps) blast
qed

text \<open>An error equals a condition exactly when both come from the same domain and name the
  same condition, for POSIX conditions below \<open>2 ^ 16\<close> and for all Win32 conditions of the
  table; the message, the location and the incident number play no part.\<close>

theorem error_matches_its_condition:
  assumes "log_ok st" "unat c < 2 ^ 16" "unat d < 2 ^ 16"
    and "unat v \<in> set mapped_codes" "unat w \<in> set mapped_codes"
  shows "\<exists>pe we wx. snd (posix_raise c l m st) = Inr pe \<and> snd (win32_raise v l m st) = Inr we \<and>
    win32_expect w = Inr wx \<and>
    (error_equals pe (posix_expect d) \<longleftrightarrow> c = d) \<and> (error_equals we wx \<longleftrightarrow> v = w) \<and>
    \<not> error_equals pe wx \<and> \<not> error_equals we (posix_expect d)"
proof -
  obtain kv kw where k: "table_at condition_table v = Inr kv" "table_at condition_table w = Inr kw"
    using assms(4,5) table_at_throws by (metis sum.exhaust)
  then have small: "unat kv < 2 ^ 16" "unat kw < 2 ^ 16"
    using table_at_bound[of v kv] table_at_bound[of w kw] by simp_all
  have n: "unat (of_nat (next_incident st) :: u64) < 2 ^ 16" "unat (0 :: u64) < 2 ^ 16"
    using assms(1) by (simp_all add: log_ok_def unat_of_nat_small)
  note doms = posix.domain_small win32.domain_small
  let ?pe = "code_of posix_domain_code c (of_nat (next_incident st))"
  let ?we = "code_of win32_domain_code kv (of_nat (next_incident st))"
  let ?wx = "code_of win32_domain_code kw 0"
  have e: "snd (posix_raise c l m st) = Inr ?pe" "snd (win32_raise v l m st) = Inr ?we"
    "win32_expect w = Inr ?wx"
    by (simp_all add: posix_raise_def win32_raise_def win32_expect_def k)
  have "error_equals ?pe (posix_expect d) \<longleftrightarrow> c = d"
    using posix.raise_matches[OF e(1) refl refl refl assms(2,3,1)] by simp
  moreover have "error_equals ?we ?wx \<longleftrightarrow> v = w"
    using win32.raise_matches[OF e(2,3) k small assms(1)] table_at_injective[of v kv w] k by auto
  moreover have "\<not> error_equals ?pe ?wx"
    using same_condition_code_of[OF doms(1) assms(2) n(1) doms(2) small(2) n(2)]
    by (simp add: error_equals_def domain_equivalent_def posix_domain_code_def win32_domain_code_def)
  moreover have "\<not> error_equals ?we (posix_expect d)"
    using same_condition_code_of[OF doms(2) small(1) n(1) doms(1) assms(3) n(2)]
    by (simp add: error_equals_def domain_equivalent_def posix_expect_def posix_domain_code_def
        win32_domain_code_def)
  ultimately show ?thesis using e by blast
qed

theorem error_matches_its_condition_witness:
  "\<exists>pe we wx. snd (posix_raise 64 () ''send help!'' (domain_new ())) = Inr pe \<and>
    snd (win32_raise 4 () ''send help!'' (domain_new ())) = Inr we \<and> win32_expect 4 = Inr wx \<and>
    error_equals pe (posix_expect 64) \<and> error_equals we wx"
proof -
  have "(4 :: nat) \<in> set mapped_codes" by (simp add: mapped_codes_def)
  then show ?thesis
    using error_matches_its_condition[OF log_ok_new[of "()"], of 64 64 4 4 "()" "''send help!''"]
    by auto
qed

text \<open>Raising or expecting a Win32 condition throws exactly when its value is not one of the
  codes of the table, 35 and 40 among them although they are enumerators, and a raise that throws has already
  taken a slot and overwritten its incident.\<close>

theorem win32_unmapped_throws:
  "(win32_expect c = Inl e \<longleftrightarrow> e = Out_of_range_thrown \<and> unat c \<notin> set mapped_codes) \<and>
   (snd (win32_raise c l m st) = Inl e \<longleftrightarrow> win32_expect c = Inl e) \<and>
   fst (win32_raise c l m st) = record_incident l m st \<and>
   win32_expect 35 = Inl Out_of_range_thrown \<and> win32_expect 40 = Inl Out_of_range_thrown \<and>
   length win32_condition = 199"
proof (intro conjI)
  show "win32_expect c = Inl e \<longleftrightarrow> e = Out_of_range_thrown \<and> unat c \<notin> set mapped_codes"
    by (simp only: win32_expect_def and_then_eq_Inl_iff table_at_throws) simp
  show "snd (win32_raise c l m st) = Inl e \<longleftrightarrow> win32_expect c = Inl e"
    by (simp add: win32_raise_def win32_expect_def and_then_eq_Inl_iff)
  show "fst (win32_raise c l m st) = record_incident l m st" by (simp add: win32_raise_def)
  have "(35 :: nat) \<notin> set mapped_codes" "(40 :: nat) \<notin> set mapped_codes"
    by (simp_all add: mapped_codes_def)
  then have "table_at condition_table 35 = Inl Out_of_range_thrown"
    "table_at condition_table 40 = Inl Out_of_range_thrown"
    by (simp_all add: table_at_throws)
  then show "win32_expect 35 = Inl Out_of_range_thrown" "win32_expect 40 = Inl Out_of_range_thrown"
    by (simp_all add: win32_expect_def)
  show "length win32_condition = 199" by (simp add: win32_condition_def)
qed

text \<open>The enumeration starts at \<open>INVALID_FUNCTION\<close> and the table and the categories at
  \<open>ERROR_SUCCESS\<close>: for every condition below 35 the code of the condition selects the category
  of the condition before it.\<close>

theorem win32_conditions_off_by_one:
  assumes "i < 35"
  shows "\<exists>x. win32_expect (of_nat i) = Inr x \<and>
    win32_categories ! unat (condition_bits x) =
      (if i = 0 then ''ERROR_SUCCESS'' else ''ERROR_'' @ win32_condition ! (i - 1))"
proof -
  have "map fst (take 35 condition_table) = map snd (take 35 condition_table)"
    by (simp add: condition_table_def)
  moreover have "take 35 (map snd condition_table) = map of_nat [0..<35]"
    by (simp add: table_values take_map take_upt)
  moreover have i: "i < length condition_table"
    using assms arg_cong[OF table_values, of length] by simp
  ultimately have "fst (condition_table ! i) = of_nat i" "snd (condition_table ! i) = of_nat i"
    using assms by (simp_all add: take_map list_eq_iff_nth_eq)
  then have t: "table_at condition_table (of_nat i) = Inr (of_nat i)"
    using i by (metis nth_mem prod.collapse table_at_eq_Inr)
  have u: "unat (of_nat i :: u64) = i" using assms by (intro unat_of_nat_small) simp
  have c: "condition_bits (code_of win32_domain_code (of_nat i) 0) = of_nat i"
    using assms by (intro code_bits(2)) (simp_all add: u win32_domain_code_def)
  have "take 35 win32_categories = ''ERROR_SUCCESS'' # map ((@) ''ERROR_'') (take 34 win32_condition)"
    by (simp add: win32_categories_def win32_condition_def)
  then have "win32_categories ! i =
      (''ERROR_SUCCESS'' # map ((@) ''ERROR_'') (take 34 win32_condition)) ! i"
    using assms by (metis nth_take)
  moreover have "34 \<le> length win32_condition" by (simp add: win32_condition_def)
  ultimately have "win32_categories ! i =
      (if i = 0 then ''ERROR_SUCCESS'' else ''ERROR_'' @ win32_condition ! (i - 1))"
    using assms by (cases i) simp_all
  then show ?thesis by (simp add: win32_expect_def t c u)
qed

theorem win32_conditions_off_by_one_witness:
  "\<exists>x. win32_expect 4 = Inr x \<and> win32_categories ! unat (condition_bits x) =
    ''ERROR_'' @ win32_condition ! 3"
  using win32_conditions_off_by_one[of 4] by simp

text \<open>\<open>stable_hash\<close> folds the eight-byte blocks of a string whose length is a multiple of
  eight, folds the characters of a string shorter than eight, and reads past the end of any other string. Both
  folds are injective in the value they start from.\<close>

theorem stable_hash_reads:
  "stable_hash str =
     (if 8 < length str \<and> length str mod 8 \<noteq> 0 then Inl Out_of_bounds
      else Inr (diffuse
        (if length str < 8 then foldl char_step (diffuse (of_nat (length str)) m1 m2) str
         else foldl block_step (diffuse (of_nat (length str)) m1 m2) (chunks str)) m2 (NOT m3))) \<and>
   (foldl char_step r str = foldl char_step s str \<longleftrightarrow> r = s) \<and>
   (foldl block_step r bs = foldl block_step s bs \<longleftrightarrow> r = s)"
proof (intro conjI)
  show "stable_hash str =
     (if 8 < length str \<and> length str mod 8 \<noteq> 0 then Inl Out_of_bounds
      else Inr (diffuse
        (if length str < 8 then foldl char_step (diffuse (of_nat (length str)) m1 m2) str
         else foldl block_step (diffuse (of_nat (length str)) m1 m2) (chunks str)) m2 (NOT m3)))"
  proof (cases "length str < 8")
    case True
    then have "hash_blocks str 0 r = Inr (0, r)" for r by (subst hash_blocks.simps) simp
    then show ?thesis using True by (simp add: stable_hash_def hash_chars_eq)
  next
    case False
    then have "hash_blocks str 0 r =
        (if length str mod 8 = 0 then Inr (length str, foldl block_step r (chunks str))
         else Inl Out_of_bounds)" for r
      using hash_blocks_eq[of str 0 r] by simp
    moreover have "8 < length str" if "length str mod 8 \<noteq> 0"
      using that False by (cases "length str = 8") simp_all
    ultimately show ?thesis using False by (auto simp: stable_hash_def hash_chars_eq)
  qed
  show "foldl char_step r str = foldl char_step s str \<longleftrightarrow> r = s"
    by (induction str arbitrary: r s) (auto simp: char_step_def shuffle_injective xor_right_cancel)
  show "foldl block_step r bs = foldl block_step s bs \<longleftrightarrow> r = s"
    by (induction bs arbitrary: r s) (auto simp: block_step_def shuffle_injective xor_right_cancel)
qed

text \<open>The three fields of a code read back what was stored and a setter changes its own
  field only, for values of sixteen bits; a wider condition leaks into the domain field, as bit \<open>16\<close> of
  the condition is bit \<open>0\<close> of the domain.\<close>

theorem code_fields:
  assumes "unat d < 2 ^ 16" "unat c < 2 ^ 16" "unat i < 2 ^ 16" "unat v < 2 ^ 16"
  shows "domain_bits (code_of d c i) = d \<and> condition_bits (code_of d c i) = c \<and>
    incident_bits (code_of d c i) = i \<and>
    set_domain_bits v (code_of d c i) = code_of v c i \<and>
    set_condition_bits v (code_of d c i) = code_of d v i \<and>
    set_incident_bits v (code_of d c i) = code_of d c v \<and>
    domain_bits (code_of 0 0x10000 i) = 1"
proof -
  note fields = assms[simplified] set_bits_fields code_bits code_of_high set_high
  have set: "set_domain_bits v (code_of d c i) = code_of v c i"
    by (rule code_eqI) (simp_all add: fields)
  have set': "set_condition_bits v (code_of d c i) = code_of d v i"
    by (rule code_eqI) (simp_all add: fields)
  have set'': "set_incident_bits v (code_of d c i) = code_of d c v"
    by (rule code_eqI) (simp_all add: fields)
  have "domain_bits (code_of 0 0x10000 i) = 1"
  proof (rule bit_word_eqI)
    fix n assume "n < LENGTH(64)"
    have t: "(0x10000 :: u64) = 2 ^ 16" by simp
    show "bit (domain_bits (code_of 0 0x10000 i)) n = bit (1 :: u64) n"
      using small_bit[OF assms(3), of "n + 32"]
      by (auto simp: t bit_fields bit_code_of bit_simps simp del: power_numeral)
  qed
  then show ?thesis using set set' set'' by (simp add: code_bits assms[simplified])
qed

theorem code_fields_witness:
  "domain_bits (code_of 2 5 127) = 2 \<and> condition_bits (code_of 2 5 127) = 5 \<and>
   incident_bits (code_of 2 5 127) = 127 \<and> set_condition_bits 9 (code_of 2 5 127) = code_of 2 9 127"
  using code_fields[of 2 5 127 9] by simp

end
