(* ===== verification/Core_Signal.thy ===== *)
theory Core_Signal
  imports Prelude
begin

text \<open>
  Signals and slots of \<open>core/Signal.hpp\<close> and the observed value of \<open>core/State.hpp\<close>.
  Objects refer to one another by pointer, so a network maps addresses to the signals and
  slots that are alive; using an address with no object is undefined. An ordered set of
  the library is its increasing list. A handler is an opaque value of \<open>'h\<close> that does not
  touch the network, and an emission returns the handlers it calls, with the arguments, in
  order. Forwarding may be cyclic, so an emission takes fuel: one unit for every signal on the
  path.
\<close>

section \<open>Objects\<close>

record 'h signal =
  handlers :: "'h option list"
  whenhandles :: "nat list"
  oncehandles :: "nat list"
  signals :: "nat list"
  slots :: "nat list"

record 'h slot =
  whenhandlers :: "'h list"
  oncehandlers :: "'h list"
  handlemap :: "(nat \<times> nat list) list"

definition signal_new :: "'h signal" where
  "signal_new = \<lparr>handlers = replicate 4 None, whenhandles = [], oncehandles = [], signals = [], slots = []\<rparr>"

definition slot_new :: "'h slot" where
  "slot_new = \<lparr>whenhandlers = [], oncehandlers = [], handlemap = []\<rparr>"

definition signal_connection_count :: "'h signal \<Rightarrow> nat" where
  "signal_connection_count sg = length (slots sg) + length (signals sg)"

definition signal_when_count :: "'h signal \<Rightarrow> nat" where
  "signal_when_count sg = length (whenhandles sg)"

definition signal_once_count :: "'h signal \<Rightarrow> nat" where
  "signal_once_count sg = length (oncehandles sg)"

definition slot_connection_count :: "'h slot \<Rightarrow> nat" where
  "slot_connection_count sl = length (handlemap sl)"

definition slot_when_count :: "'h slot \<Rightarrow> nat" where
  "slot_when_count sl = length (whenhandlers sl)"

definition slot_once_count :: "'h slot \<Rightarrow> nat" where
  "slot_once_count sl = length (oncehandlers sl)"

section \<open>Ordered sets and maps\<close>

definition set_insert :: "nat \<Rightarrow> nat list \<Rightarrow> nat list" where
  "set_insert x xs = (if x \<in> set xs then xs else insort x xs)"

definition set_erase :: "nat \<Rightarrow> nat list \<Rightarrow> nat list" where
  "set_erase x xs = filter (\<lambda>y. y \<noteq> x) xs"

fun map_put :: "nat \<Rightarrow> 'v \<Rightarrow> (nat \<times> 'v) list \<Rightarrow> (nat \<times> 'v) list" where
  "map_put k v [] = [(k, v)]"
| "map_put k v ((k', v') # m) =
     (if k < k' then (k, v) # (k', v') # m
      else if k = k' then (k, v) # m
      else (k', v') # map_put k v m)"

definition map_erase :: "nat \<Rightarrow> (nat \<times> 'v) list \<Rightarrow> (nat \<times> 'v) list" where
  "map_erase k m = filter (\<lambda>p. fst p \<noteq> k) m"

text \<open>\<open>handlemap_[signal]\<close> is an empty vector for a signal that has no entry.\<close>

definition handles_of :: "nat \<Rightarrow> (nat \<times> nat list) list \<Rightarrow> nat list" where
  "handles_of s m = (case map_of m s of None \<Rightarrow> [] | Some hs \<Rightarrow> hs)"

section \<open>install and erase\<close>

fun first_free :: "'h option list \<Rightarrow> nat" where
  "first_free [] = 0"
| "first_free (None # hs) = 0"
| "first_free (Some h # hs) = Suc (first_free hs)"

definition install :: "bool \<Rightarrow> 'h option list \<Rightarrow> 'h \<Rightarrow> ('h option list \<times> nat) outcome" where
  "install debug hs f =
     (let i = first_free hs in
      and_then (assertf debug (i < length hs)) (\<lambda>_.
      and_then (checked_update hs i (Some f)) (\<lambda>hs'.
      and_then (assertf debug (i \<le> 255)) (\<lambda>_. Inr (hs', i)))))"

definition erase :: "bool \<Rightarrow> 'h option list \<Rightarrow> nat \<Rightarrow> 'h option list outcome" where
  "erase debug hs i =
     and_then (assertf debug (i < length hs)) (\<lambda>_. checked_update hs i None)"

section \<open>Signal\<close>

definition signal_when :: "bool \<Rightarrow> 'h \<Rightarrow> 'h signal \<Rightarrow> (nat \<times> 'h signal) outcome" where
  "signal_when debug f sg =
     and_then (install debug (handlers sg) f) (\<lambda>(hs, i).
     Inr (i, sg\<lparr>handlers := hs, whenhandles := set_insert i (whenhandles sg)\<rparr>))"

definition signal_once :: "bool \<Rightarrow> 'h \<Rightarrow> 'h signal \<Rightarrow> (nat \<times> 'h signal) outcome" where
  "signal_once debug f sg =
     and_then (install debug (handlers sg) f) (\<lambda>(hs, i).
     Inr (i, sg\<lparr>handlers := hs, oncehandles := set_insert i (oncehandles sg)\<rparr>))"

definition signal_remove :: "bool \<Rightarrow> nat \<Rightarrow> 'h signal \<Rightarrow> 'h signal outcome" where
  "signal_remove debug i sg =
     and_then (assertf debug (i < length (handlers sg))) (\<lambda>_.
     and_then (erase debug (handlers sg) i) (\<lambda>hs.
     Inr (sg\<lparr>handlers := hs, whenhandles := set_erase i (whenhandles sg),
       oncehandles := set_erase i (oncehandles sg)\<rparr>)))"

definition signal_connect :: "nat \<Rightarrow> 'h signal \<Rightarrow> 'h signal" where
  "signal_connect slot sg = sg\<lparr>slots := set_insert slot (slots sg)\<rparr>"

definition signal_disconnect_slot :: "nat \<Rightarrow> 'h signal \<Rightarrow> 'h signal" where
  "signal_disconnect_slot slot sg = sg\<lparr>slots := set_erase slot (slots sg)\<rparr>"

definition signal_forward :: "nat \<Rightarrow> 'h signal \<Rightarrow> 'h signal" where
  "signal_forward target sg = sg\<lparr>signals := set_insert target (signals sg)\<rparr>"

definition signal_disconnect_signal :: "nat \<Rightarrow> 'h signal \<Rightarrow> 'h signal" where
  "signal_disconnect_signal target sg = sg\<lparr>signals := set_erase target (signals sg)\<rparr>"

section \<open>The network\<close>

record 'h network =
  signal_at :: "nat \<Rightarrow> 'h signal option"
  slot_at :: "nat \<Rightarrow> 'h slot option"

definition get_signal :: "nat \<Rightarrow> 'h network \<Rightarrow> 'h signal outcome" where
  "get_signal s net = (case signal_at net s of None \<Rightarrow> Inl Undefined | Some sg \<Rightarrow> Inr sg)"

definition put_signal :: "nat \<Rightarrow> 'h signal \<Rightarrow> 'h network \<Rightarrow> 'h network" where
  "put_signal s sg net = net\<lparr>signal_at := (signal_at net)(s \<mapsto> sg)\<rparr>"

definition get_slot :: "nat \<Rightarrow> 'h network \<Rightarrow> 'h slot outcome" where
  "get_slot k net = (case slot_at net k of None \<Rightarrow> Inl Undefined | Some sl \<Rightarrow> Inr sl)"

definition put_slot :: "nat \<Rightarrow> 'h slot \<Rightarrow> 'h network \<Rightarrow> 'h network" where
  "put_slot k sl net = net\<lparr>slot_at := (slot_at net)(k \<mapsto> sl)\<rparr>"

text \<open>A call through a pointer to a signal that changes that signal only.\<close>

definition through_signal ::
    "nat \<Rightarrow> ('h signal \<Rightarrow> ('r \<times> 'h signal) outcome) \<Rightarrow> 'h network \<Rightarrow> ('r \<times> 'h network) outcome" where
  "through_signal s f net =
     and_then (get_signal s net) (\<lambda>sg.
     and_then (f sg) (\<lambda>(r, sg'). Inr (r, put_signal s sg' net)))"

fun remove_handles :: "bool \<Rightarrow> nat \<Rightarrow> nat list \<Rightarrow> 'h network \<Rightarrow> 'h network outcome" where
  "remove_handles debug s [] net = Inr net"
| "remove_handles debug s (i # is) net =
     and_then (through_signal s (\<lambda>sg. and_then (signal_remove debug i sg) (\<lambda>sg'. Inr ((), sg'))) net)
       (\<lambda>(_, net'). remove_handles debug s is net')"

section \<open>Slot\<close>

fun install_everywhere ::
    "('h signal \<Rightarrow> (nat \<times> 'h signal) outcome) \<Rightarrow> (nat \<times> nat list) list \<Rightarrow> 'h network \<Rightarrow>
     ((nat \<times> nat list) list \<times> 'h network) outcome" where
  "install_everywhere put [] net = Inr ([], net)"
| "install_everywhere put ((s, hs) # m) net =
     and_then (through_signal s put net) (\<lambda>(i, net').
     and_then (install_everywhere put m net') (\<lambda>(m', net'').
     Inr ((s, hs @ [i]) # m', net'')))"

definition slot_when :: "bool \<Rightarrow> 'h \<Rightarrow> nat \<Rightarrow> 'h network \<Rightarrow> 'h network outcome" where
  "slot_when debug f k net =
     and_then (get_slot k net) (\<lambda>sl.
     and_then (install_everywhere (signal_when debug f) (handlemap sl) net) (\<lambda>(m, net').
     Inr (put_slot k (sl\<lparr>handlemap := m, whenhandlers := whenhandlers sl @ [f]\<rparr>) net')))"

definition slot_once :: "bool \<Rightarrow> 'h \<Rightarrow> nat \<Rightarrow> 'h network \<Rightarrow> 'h network outcome" where
  "slot_once debug f k net =
     and_then (get_slot k net) (\<lambda>sl.
     and_then (install_everywhere (signal_once debug f) (handlemap sl) net) (\<lambda>(m, net').
     Inr (put_slot k (sl\<lparr>handlemap := m, oncehandlers := oncehandlers sl @ [f]\<rparr>) net')))"

definition slot_call :: "nat \<Rightarrow> 'h network \<Rightarrow> 'h network outcome" where
  "slot_call k net = and_then (get_slot k net) (\<lambda>sl. Inr (put_slot k (sl\<lparr>oncehandlers := []\<rparr>) net))"

fun install_all ::
    "('h \<Rightarrow> 'h signal \<Rightarrow> (nat \<times> 'h signal) outcome) \<Rightarrow> 'h list \<Rightarrow> nat \<Rightarrow> 'h network \<Rightarrow>
     (nat list \<times> 'h network) outcome" where
  "install_all put [] s net = Inr ([], net)"
| "install_all put (f # fs) s net =
     and_then (through_signal s (put f) net) (\<lambda>(i, net').
     and_then (install_all put fs s net') (\<lambda>(is, net''). Inr (i # is, net'')))"

definition slot_connect :: "bool \<Rightarrow> nat \<Rightarrow> nat \<Rightarrow> 'h network \<Rightarrow> 'h network outcome" where
  "slot_connect debug s k net =
     and_then (get_slot k net) (\<lambda>sl.
     and_then (install_all (signal_when debug) (whenhandlers sl) s net) (\<lambda>(ws, net').
     and_then (install_all (signal_once debug) (oncehandlers sl) s net') (\<lambda>(os, net'').
     Inr (put_slot k (sl\<lparr>handlemap := map_put s (handles_of s (handlemap sl) @ ws @ os) (handlemap sl)\<rparr>)
       net''))))"

definition slot_disconnect_signal :: "bool \<Rightarrow> nat \<Rightarrow> nat \<Rightarrow> 'h network \<Rightarrow> 'h network outcome" where
  "slot_disconnect_signal debug s k net =
     and_then (get_slot k net) (\<lambda>sl.
     and_then (remove_handles debug s (handles_of s (handlemap sl)) net) (\<lambda>net'.
     Inr (put_slot k (sl\<lparr>handlemap := map_erase s (handlemap sl)\<rparr>) net')))"

fun slot_disconnect_loop ::
    "bool \<Rightarrow> nat \<Rightarrow> (nat \<times> nat list) list \<Rightarrow> 'h network \<Rightarrow> 'h network outcome" where
  "slot_disconnect_loop debug k [] net = Inr net"
| "slot_disconnect_loop debug k ((s, hs) # m) net =
     and_then (remove_handles debug s hs net) (\<lambda>net'.
     and_then (through_signal s (\<lambda>sg. Inr ((), signal_disconnect_slot k sg)) net') (\<lambda>(_, net'').
     slot_disconnect_loop debug k m net''))"

text \<open>The entries of \<open>handlemap_\<close> stay.\<close>

definition slot_disconnect :: "bool \<Rightarrow> nat \<Rightarrow> 'h network \<Rightarrow> 'h network outcome" where
  "slot_disconnect debug k net =
     and_then (get_slot k net) (\<lambda>sl. slot_disconnect_loop debug k (handlemap sl) net)"

definition slot_clear :: "bool \<Rightarrow> nat \<Rightarrow> 'h network \<Rightarrow> 'h network outcome" where
  "slot_clear debug k net =
     and_then (slot_disconnect debug k net) (\<lambda>net'.
     and_then (get_slot k net') (\<lambda>sl.
     Inr (put_slot k (sl\<lparr>whenhandlers := [], oncehandlers := []\<rparr>) net')))"

definition slot_delete :: "bool \<Rightarrow> nat \<Rightarrow> 'h network \<Rightarrow> 'h network outcome" where
  "slot_delete debug k net =
     and_then (slot_disconnect debug k net) (\<lambda>net'. Inr (net'\<lparr>slot_at := (slot_at net')(k := None)\<rparr>))"

section \<open>Signal operations that reach other objects\<close>

fun signal_disconnect_slots :: "bool \<Rightarrow> nat \<Rightarrow> nat list \<Rightarrow> 'h network \<Rightarrow> 'h network outcome" where
  "signal_disconnect_slots debug s [] net = Inr net"
| "signal_disconnect_slots debug s (k # ks) net =
     and_then (slot_disconnect_signal debug s k net) (\<lambda>net'. signal_disconnect_slots debug s ks net')"

fun signal_disconnect_signals :: "nat \<Rightarrow> nat list \<Rightarrow> 'h network \<Rightarrow> 'h network outcome" where
  "signal_disconnect_signals s [] net = Inr net"
| "signal_disconnect_signals s (t # ts) net =
     and_then (through_signal t (\<lambda>sg. Inr ((), signal_disconnect_signal s sg)) net)
       (\<lambda>(_, net'). signal_disconnect_signals s ts net')"

definition signal_disconnect :: "bool \<Rightarrow> nat \<Rightarrow> 'h network \<Rightarrow> 'h network outcome" where
  "signal_disconnect debug s net =
     and_then (get_signal s net) (\<lambda>sg0.
     and_then (signal_disconnect_slots debug s (slots sg0) net) (\<lambda>net1.
     and_then (get_signal s net1) (\<lambda>sg1.
     and_then (signal_disconnect_signals s (signals sg1) (put_signal s (sg1\<lparr>slots := []\<rparr>) net1)) (\<lambda>net2.
     and_then (get_signal s net2) (\<lambda>sg2. Inr (put_signal s (sg2\<lparr>signals := []\<rparr>) net2))))))"

definition signal_clear :: "bool \<Rightarrow> nat \<Rightarrow> 'h network \<Rightarrow> 'h network outcome" where
  "signal_clear debug s net =
     and_then (signal_disconnect debug s net) (\<lambda>net'.
     and_then (get_signal s net') (\<lambda>sg.
     Inr (put_signal s (sg\<lparr>handlers := map (\<lambda>_. None) (handlers sg), whenhandles := [],
       oncehandles := []\<rparr>) net')))"

definition signal_delete :: "bool \<Rightarrow> nat \<Rightarrow> 'h network \<Rightarrow> 'h network outcome" where
  "signal_delete debug s net =
     and_then (signal_disconnect debug s net) (\<lambda>net'.
     Inr (net'\<lparr>signal_at := (signal_at net')(s := None)\<rparr>))"

definition forward :: "nat \<Rightarrow> nat \<Rightarrow> 'h network \<Rightarrow> 'h network outcome" where
  "forward s target net =
     and_then (through_signal s (\<lambda>sg. Inr ((), signal_forward target sg)) net) (\<lambda>(_, net'). Inr net')"

text \<open>The free functions \<open>connect\<close> and \<open>disconnect\<close>.\<close>

definition connect :: "bool \<Rightarrow> nat \<Rightarrow> nat \<Rightarrow> 'h network \<Rightarrow> 'h network outcome" where
  "connect debug s k net =
     and_then (slot_connect debug s k net) (\<lambda>net'.
     and_then (through_signal s (\<lambda>sg. Inr ((), signal_connect k sg)) net') (\<lambda>(_, net''). Inr net''))"

definition disconnect :: "bool \<Rightarrow> nat \<Rightarrow> nat \<Rightarrow> 'h network \<Rightarrow> 'h network outcome" where
  "disconnect debug s k net =
     and_then (slot_disconnect_signal debug s k net) (\<lambda>net'.
     and_then (through_signal s (\<lambda>sg. Inr ((), signal_disconnect_slot k sg)) net') (\<lambda>(_, net''). Inr net''))"

section \<open>Emission\<close>

fun erase_handles :: "bool \<Rightarrow> nat list \<Rightarrow> 'h option list \<Rightarrow> 'h option list outcome" where
  "erase_handles debug [] hs = Inr hs"
| "erase_handles debug (i # is) hs = and_then (erase debug hs i) (\<lambda>hs'. erase_handles debug is hs')"

fun call_slots :: "nat list \<Rightarrow> 'h network \<Rightarrow> 'h network outcome" where
  "call_slots [] net = Inr net"
| "call_slots (k # ks) net = and_then (slot_call k net) (\<lambda>net'. call_slots ks net')"

definition called :: "'h option list \<Rightarrow> 'a \<Rightarrow> ('h \<times> 'a) list" where
  "called hs args = map (\<lambda>h. (the h, args)) (filter (\<lambda>h. h \<noteq> None) hs)"

function emit :: "bool \<Rightarrow> nat \<Rightarrow> 'a \<Rightarrow> nat \<Rightarrow> 'h network \<Rightarrow> (('h \<times> 'a) list \<times> 'h network) outcome"
  and emit_each :: "bool \<Rightarrow> nat \<Rightarrow> 'a \<Rightarrow> nat list \<Rightarrow> 'h network \<Rightarrow> (('h \<times> 'a) list \<times> 'h network) outcome"
where
  "emit debug 0 args s net = Inl Diverges"
| "emit debug (Suc fuel) args s net =
     and_then (get_signal s net) (\<lambda>sg.
     and_then (emit_each debug fuel args (signals sg) net) (\<lambda>(calls, net1).
     and_then (call_slots (slots sg) net1) (\<lambda>net2.
     and_then (get_signal s net2) (\<lambda>sg2.
     and_then (erase_handles debug (oncehandles sg2) (handlers sg2)) (\<lambda>hs.
     Inr (called (handlers sg) args @ calls,
          put_signal s (sg2\<lparr>handlers := hs, oncehandles := []\<rparr>) net2))))))"
| "emit_each debug fuel args [] net = Inr ([], net)"
| "emit_each debug fuel args (t # ts) net =
     and_then (emit debug fuel args t net) (\<lambda>(calls, net1).
     and_then (emit_each debug fuel args ts net1) (\<lambda>(calls', net2).
     Inr (calls @ calls', net2)))"
  by pat_completeness auto
termination
  by (relation "measures [case_sum (\<lambda>(_, n, _). n) (\<lambda>(_, n, _). n),
        case_sum (\<lambda>_. 0) (\<lambda>(_, _, _, ts, _). Suc (length ts))]") auto

section \<open>State\<close>

record 'v observed =
  state_value :: 'v
  Changed :: nat

definition state_get :: "'v observed \<Rightarrow> 'v" where
  "state_get st = state_value st"

definition state_assign ::
    "bool \<Rightarrow> nat \<Rightarrow> 'v \<Rightarrow> 'v observed \<Rightarrow> 'h network \<Rightarrow>
     (('h \<times> 'v \<times> 'v) list \<times> 'v observed \<times> 'h network) outcome" where
  "state_assign debug fuel v st net =
     (if state_value st \<noteq> v
      then and_then (emit debug fuel (state_value st, v) (Changed st) net)
        (\<lambda>(calls, net'). Inr (calls, st\<lparr>state_value := v\<rparr>, net'))
      else Inr ([], st, net))"

section \<open>Well-formed signals\<close>

definition signal_ok :: "'h signal \<Rightarrow> bool" where
  "signal_ok sg \<longleftrightarrow> length (handlers sg) = 4 \<and>
     sorted (whenhandles sg) \<and> distinct (whenhandles sg) \<and>
     sorted (oncehandles sg) \<and> distinct (oncehandles sg) \<and>
     set (whenhandles sg) \<inter> set (oncehandles sg) = {} \<and>
     set (whenhandles sg) \<union> set (oncehandles sg) = {i. i < 4 \<and> handlers sg ! i \<noteq> None}"

lemma signal_ok_new: "signal_ok signal_new"
  by (auto simp: signal_ok_def signal_new_def)

lemma signal_new_links [simp]: "signals signal_new = []" "slots signal_new = []"
  by (simp_all add: signal_new_def)

lemma set_insert_simps [simp]:
  "set (set_insert x xs) = insert x (set xs)"
  "sorted (set_insert x xs) \<longleftrightarrow> sorted xs"
  "distinct (set_insert x xs) \<longleftrightarrow> distinct xs"
  by (auto simp: set_insert_def set_insort_key sorted_insort distinct_insort)

lemma set_erase_simps [simp]:
  "set (set_erase x xs) = set xs - {x}"
  "sorted xs \<Longrightarrow> sorted (set_erase x xs)"
  "distinct xs \<Longrightarrow> distinct (set_erase x xs)"
  by (auto simp: set_erase_def sorted_filter[where f = id, simplified] sorted_wrt_filter)

lemma length_set_insert: "x \<notin> set xs \<Longrightarrow> length (set_insert x xs) = Suc (length xs)"
  by (simp add: set_insert_def)

lemma first_free_le: "first_free hs \<le> length hs"
  by (induction hs rule: first_free.induct) auto

lemma first_free_none: "first_free hs < length hs \<Longrightarrow> hs ! first_free hs = None"
  by (induction hs rule: first_free.induct) auto

lemma first_free_used: "i < first_free hs \<Longrightarrow> hs ! i \<noteq> None"
proof (induction hs arbitrary: i rule: first_free.induct)
  case (3 h hs)
  then show ?case by (cases i) auto
qed auto

lemma first_free_full: "first_free hs = length hs \<longleftrightarrow> None \<notin> set hs"
  by (induction hs rule: first_free.induct) auto

lemma install_ok:
  assumes "length hs = 4" "None \<in> set hs"
  shows "install debug hs f = Inr (hs[first_free hs := Some f], first_free hs)" "first_free hs < 4"
    "hs ! first_free hs = None"
proof -
  show "first_free hs < 4" using assms first_free_full[of hs] first_free_le[of hs] by auto
  then show "install debug hs f = Inr (hs[first_free hs := Some f], first_free hs)"
    "hs ! first_free hs = None"
    using assms(1) first_free_none[of hs] by (simp_all add: install_def Let_def)
qed

lemma install_full:
  "None \<notin> set hs \<Longrightarrow>
     install debug hs f = Inl (if debug then Assertion_failed else Out_of_bounds)"
  using first_free_full[of hs] by (cases debug) (simp_all add: install_def Let_def)

lemma free_unused:
  assumes "signal_ok sg" "handlers sg ! i = None"
  shows "i \<notin> set (whenhandles sg)" "i \<notin> set (oncehandles sg)"
proof -
  have "i \<notin> set (whenhandles sg) \<union> set (oncehandles sg)"
    using assms unfolding signal_ok_def by blast
  then show "i \<notin> set (whenhandles sg)" "i \<notin> set (oncehandles sg)" by simp_all
qed

lemma put_ok:
  assumes "signal_ok sg" "i < 4" "handlers sg ! i = None"
  shows "signal_ok (sg\<lparr>handlers := (handlers sg)[i := Some f], whenhandles := set_insert i (whenhandles sg)\<rparr>)"
    "signal_ok (sg\<lparr>handlers := (handlers sg)[i := Some f], oncehandles := set_insert i (oncehandles sg)\<rparr>)"
    "i \<notin> set (whenhandles sg)" "i \<notin> set (oncehandles sg)"
proof -
  show n: "i \<notin> set (whenhandles sg)" "i \<notin> set (oncehandles sg)"
    using free_unused[OF assms(1,3)] by simp_all
  have u: "{j. j < 4 \<and> (handlers sg)[i := Some f] ! j \<noteq> None} =
      insert i {j. j < 4 \<and> handlers sg ! j \<noteq> None}"
    using assms by (auto simp: signal_ok_def nth_list_update)
  show "signal_ok (sg\<lparr>handlers := (handlers sg)[i := Some f], whenhandles := set_insert i (whenhandles sg)\<rparr>)"
    "signal_ok (sg\<lparr>handlers := (handlers sg)[i := Some f], oncehandles := set_insert i (oncehandles sg)\<rparr>)"
    using assms n u by (auto simp: signal_ok_def)
qed

text \<open>A signal with the handles of \<open>X\<close> removed.\<close>

definition wiped :: "nat set \<Rightarrow> 'h signal \<Rightarrow> 'h signal" where
  "wiped X sg = sg\<lparr>handlers := map (\<lambda>i. if i \<in> X then None else handlers sg ! i) [0..<length (handlers sg)],
     whenhandles := filter (\<lambda>i. i \<notin> X) (whenhandles sg),
     oncehandles := filter (\<lambda>i. i \<notin> X) (oncehandles sg)\<rparr>"

lemma signal_remove_wiped:
  assumes "i < length (handlers sg)"
  shows "signal_remove debug i sg = Inr (wiped {i} sg)"
proof -
  have "(handlers sg)[i := None] = map (\<lambda>j. if j \<in> {i} then None else handlers sg ! j) [0..<length (handlers sg)]"
    by (rule nth_equalityI) (simp_all add: nth_list_update)
  then show ?thesis
    using assms by (simp add: signal_remove_def erase_def wiped_def set_erase_def)
qed

lemma wiped_wiped: "wiped X (wiped Y sg) = wiped (X \<union> Y) sg"
  by (auto simp: wiped_def intro!: signal.equality filter_cong)

lemma length_wiped [simp]: "length (handlers (wiped X sg)) = length (handlers sg)"
  by (simp add: wiped_def)

lemma wiped_links [simp]: "signals (wiped X sg) = signals sg" "slots (wiped X sg) = slots sg"
  by (simp_all add: wiped_def)

lemma wiped_empty [simp]: "wiped {} sg = sg"
  by (simp add: wiped_def map_nth)

lemma wiped_ok: "signal_ok sg \<Longrightarrow> signal_ok (wiped X sg)"
proof -
  assume ok: "signal_ok sg"
  have "{i. i < 4 \<and> handlers (wiped X sg) ! i \<noteq> None} = {i. i < 4 \<and> handlers sg ! i \<noteq> None} - X"
    using ok by (auto simp: signal_ok_def wiped_def split: if_splits cong: if_cong)
  also have "\<dots> = (set (whenhandles sg) \<union> set (oncehandles sg)) - X"
    using ok by (simp add: signal_ok_def)
  finally have "set (whenhandles (wiped X sg)) \<union> set (oncehandles (wiped X sg)) =
      {i. i < 4 \<and> handlers (wiped X sg) ! i \<noteq> None}"
    by (auto simp: wiped_def)
  then show ?thesis using ok
    by (auto simp: signal_ok_def wiped_def sorted_wrt_filter)
qed

lemma wiped_free:
  assumes "signal_ok sg" "\<forall>i \<in> X. i < 4 \<and> handlers sg ! i = None"
  shows "wiped X sg = sg"
proof -
  have d: "set (whenhandles sg) \<inter> X = {}" "set (oncehandles sg) \<inter> X = {}"
    using assms free_unused[OF assms(1)] by blast+
  have "map (\<lambda>i. if i \<in> X then None else handlers sg ! i) [0..<length (handlers sg)] = handlers sg"
    by (rule nth_equalityI) (use assms(2) in \<open>auto\<close>)
  moreover have "filter (\<lambda>i. i \<notin> X) (whenhandles sg) = whenhandles sg"
    "filter (\<lambda>i. i \<notin> X) (oncehandles sg) = oncehandles sg"
    using d by (auto simp: filter_id_conv)
  ultimately show ?thesis by (simp add: wiped_def)
qed

lemma wiped_put:
  assumes "i \<in> X"
  shows "wiped X (sg\<lparr>handlers := (handlers sg)[i := h], whenhandles := set_insert i (whenhandles sg)\<rparr>) = wiped X sg"
    "wiped X (sg\<lparr>handlers := (handlers sg)[i := h], oncehandles := set_insert i (oncehandles sg)\<rparr>) = wiped X sg"
proof -
  have "map (\<lambda>j. if j \<in> X then None else (handlers sg)[i := h] ! j) [0..<length (handlers sg)] =
      map (\<lambda>j. if j \<in> X then None else handlers sg ! j) [0..<length (handlers sg)]"
    using assms by (intro map_cong refl) (auto intro!: nth_list_update_neq)
  then show
    "wiped X (sg\<lparr>handlers := (handlers sg)[i := h], whenhandles := set_insert i (whenhandles sg)\<rparr>) = wiped X sg"
    "wiped X (sg\<lparr>handlers := (handlers sg)[i := h], oncehandles := set_insert i (oncehandles sg)\<rparr>) = wiped X sg"
    using assms by (simp_all add: wiped_def set_insert_def filter_insort_triv cong: if_cong)
qed

section \<open>Connecting and disconnecting\<close>

lemma through_signal_eq:
  assumes "signal_at net s = Some sg" "f sg = Inr (r, sg')"
  shows "through_signal s f net = Inr (r, put_signal s sg' net)"
  using assms by (simp add: through_signal_def get_signal_def)

lemma put_signal_simps [simp]:
  "signal_at (put_signal s sg net) = (signal_at net)(s \<mapsto> sg)"
  "slot_at (put_signal s sg net) = slot_at net"
  "put_signal s sg' (put_signal s sg net) = put_signal s sg' net"
  "signal_at (put_slot k sl net) = signal_at net"
  "slot_at (put_slot k sl net) = (slot_at net)(k \<mapsto> sl)"
  "put_slot k sl' (put_slot k sl net) = put_slot k sl' net"
  "put_signal s sg (put_slot k sl net) = put_slot k sl (put_signal s sg net)"
  by (simp_all add: put_signal_def put_slot_def)

lemma put_same [simp]:
  "signal_at net s = Some sg \<Longrightarrow> put_signal s sg net = net"
  "slot_at net k = Some sl \<Longrightarrow> put_slot k sl net = net"
  by (simp_all add: put_signal_def put_slot_def fun_upd_idem)

lemma remove_handles_wiped:
  "signal_at net s = Some sg \<Longrightarrow> \<forall>i \<in> set is. i < length (handlers sg) \<Longrightarrow>
     remove_handles debug s is net = Inr (put_signal s (wiped (set is) sg) net)"
proof (induction "is" arbitrary: net sg)
  case (Cons i "is")
  let ?net = "put_signal s (wiped {i} sg) net"
  have "through_signal s (\<lambda>sg. and_then (signal_remove debug i sg) (\<lambda>sg'. Inr ((), sg'))) net = Inr ((), ?net)"
    by (rule through_signal_eq[where sg = sg]) (use Cons.prems in \<open>simp_all add: signal_remove_wiped\<close>)
  moreover have "remove_handles debug s is ?net = Inr (put_signal s (wiped (set is) (wiped {i} sg)) ?net)"
    using Cons.prems by (intro Cons.IH) simp_all
  ultimately show ?case by (simp add: wiped_wiped)
qed simp

definition free_count :: "'h signal \<Rightarrow> nat" where
  "free_count sg = length (filter (\<lambda>h. h = None) (handlers sg))"

lemma free_count_update:
  "i < length hs \<Longrightarrow> hs ! i = None \<Longrightarrow>
     Suc (length (filter (\<lambda>h. h = None) (hs[i := Some f]))) = length (filter (\<lambda>h. h = None) hs)"
proof (induction hs arbitrary: i)
  case (Cons h hs)
  then show ?case by (cases i) auto
qed simp

text \<open>Installing through \<open>when\<close> or \<open>once\<close> puts the handlers into distinct free places, and
  wiping these places gives the signal back.\<close>

definition installs :: "('h \<Rightarrow> 'h signal \<Rightarrow> (nat \<times> 'h signal) outcome) \<Rightarrow> bool" where
  "installs put \<longleftrightarrow> (\<forall>f sg. signal_ok sg \<and> 0 < free_count sg \<longrightarrow>
     (\<exists>i sg'. put f sg = Inr (i, sg') \<and> i < 4 \<and> handlers sg ! i = None \<and> signal_ok sg' \<and>
        handlers sg' = (handlers sg)[i := Some f] \<and>
        signals sg' = signals sg \<and> slots sg' = slots sg \<and>
        (\<forall>X. i \<in> X \<longrightarrow> wiped X sg' = wiped X sg)))"

lemma installs_when_once: "installs (signal_when debug)" "installs (signal_once debug)"
proof -
  have "None \<in> set (handlers sg)" if "0 < free_count sg" for sg :: "'h signal"
    using that by (auto simp: free_count_def filter_empty_conv)
  then have i: "install debug (handlers sg) f = Inr ((handlers sg)[first_free (handlers sg) := Some f],
      first_free (handlers sg))" "first_free (handlers sg) < 4" "handlers sg ! first_free (handlers sg) = None"
    if "signal_ok sg \<and> 0 < free_count sg" for f and sg :: "'h signal"
    using that install_ok[of "handlers sg"] by (auto simp: signal_ok_def)
  {
    fix f and sg :: "'h signal" assume a: "signal_ok sg \<and> 0 < free_count sg"
    let ?i = "first_free (handlers sg)"
    let ?w = "sg\<lparr>handlers := (handlers sg)[?i := Some f], whenhandles := set_insert ?i (whenhandles sg)\<rparr>"
    let ?o = "sg\<lparr>handlers := (handlers sg)[?i := Some f], oncehandles := set_insert ?i (oncehandles sg)\<rparr>"
    note ok = put_ok[OF conjunct1[OF a] i(2,3)[OF a]]
    have e: "signal_when debug f sg = Inr (?i, ?w)" "signal_once debug f sg = Inr (?i, ?o)"
      by (simp_all add: signal_when_def signal_once_def i(1)[OF a])
    have "\<exists>i sg'. signal_when debug f sg = Inr (i, sg') \<and> i < 4 \<and> handlers sg ! i = None \<and>
        signal_ok sg' \<and> handlers sg' = (handlers sg)[i := Some f] \<and>
        signals sg' = signals sg \<and> slots sg' = slots sg \<and>
        (\<forall>X. i \<in> X \<longrightarrow> wiped X sg' = wiped X sg)"
      "\<exists>i sg'. signal_once debug f sg = Inr (i, sg') \<and> i < 4 \<and> handlers sg ! i = None \<and>
        signal_ok sg' \<and> handlers sg' = (handlers sg)[i := Some f] \<and>
        signals sg' = signals sg \<and> slots sg' = slots sg \<and>
        (\<forall>X. i \<in> X \<longrightarrow> wiped X sg' = wiped X sg)"
      subgoal using e(1) ok(1) i(2,3)[OF a]
        by (intro exI[of _ ?i] exI[of _ ?w] conjI allI impI) (simp_all add: wiped_put)
      subgoal using e(2) ok(2) i(2,3)[OF a]
        by (intro exI[of _ ?i] exI[of _ ?o] conjI allI impI) (simp_all add: wiped_put)
      done
  }
  note both = this
  show "installs (signal_when debug)" unfolding installs_def by (intro allI impI) (rule both(1))
  show "installs (signal_once debug)" unfolding installs_def by (intro allI impI) (rule both(2))
qed

lemma install_all_ok:
  assumes "installs put"
  shows "signal_at net s = Some sg \<Longrightarrow> signal_ok sg \<Longrightarrow> length fs \<le> free_count sg \<Longrightarrow>
    \<exists>is sg'. install_all put fs s net = Inr (is, put_signal s sg' net) \<and> signal_ok sg' \<and>
      length is = length fs \<and> (\<forall>i \<in> set is. i < 4 \<and> handlers sg ! i = None) \<and>
      free_count sg' = free_count sg - length fs \<and>
      (\<forall>i < 4. handlers sg' ! i = None \<longrightarrow> handlers sg ! i = None) \<and>
      signals sg' = signals sg \<and> slots sg' = slots sg \<and>
      (\<forall>X. set is \<subseteq> X \<longrightarrow> wiped X sg' = wiped X sg)"
proof (induction fs arbitrary: net sg)
  case Nil
  then show ?case by (intro exI[of _ "[]"] exI[of _ sg]) simp
next
  case (Cons f fs)
  have "signal_ok sg \<and> 0 < free_count sg" using Cons.prems by auto
  with assms obtain i sg1 where p: "put f sg = Inr (i, sg1)" "i < 4" "handlers sg ! i = None" "signal_ok sg1"
    "handlers sg1 = (handlers sg)[i := Some f]" "signals sg1 = signals sg" "slots sg1 = slots sg"
    "\<forall>X. i \<in> X \<longrightarrow> wiped X sg1 = wiped X sg"
    unfolding installs_def by blast
  have len: "length (handlers sg) = 4" using Cons.prems by (simp add: signal_ok_def)
  have fc: "Suc (free_count sg1) = free_count sg"
    unfolding free_count_def p(5) by (rule free_count_update) (use p len in simp_all)
  let ?net = "put_signal s sg1 net"
  have "\<exists>is sg'. install_all put fs s ?net = Inr (is, put_signal s sg' ?net) \<and> signal_ok sg' \<and>
      length is = length fs \<and> (\<forall>i \<in> set is. i < 4 \<and> handlers sg1 ! i = None) \<and>
      free_count sg' = free_count sg1 - length fs \<and>
      (\<forall>i < 4. handlers sg' ! i = None \<longrightarrow> handlers sg1 ! i = None) \<and>
      signals sg' = signals sg1 \<and> slots sg' = slots sg1 \<and>
      (\<forall>X. set is \<subseteq> X \<longrightarrow> wiped X sg' = wiped X sg1)"
    using Cons.prems p fc by (intro Cons.IH) simp_all
  then obtain "is" sg' where r: "install_all put fs s ?net = Inr (is, put_signal s sg' net)" "signal_ok sg'"
    "length is = length fs" "\<forall>i \<in> set is. i < 4 \<and> handlers sg1 ! i = None"
    "free_count sg' = free_count sg1 - length fs"
    "\<forall>i < 4. handlers sg' ! i = None \<longrightarrow> handlers sg1 ! i = None"
    "signals sg' = signals sg" "slots sg' = slots sg"
    "\<forall>X. set is \<subseteq> X \<longrightarrow> wiped X sg' = wiped X sg1" using p by auto
  have "through_signal s (put f) net = Inr (i, ?net)"
    by (rule through_signal_eq[where sg = sg]) (use Cons.prems p in simp_all)
  then have "install_all put (f # fs) s net = Inr (i # is, put_signal s sg' net)" using r(1) by simp
  moreover have "\<forall>j < 4. handlers sg1 ! j = None \<longrightarrow> handlers sg ! j = None"
    using p(2,5) len by (auto simp: nth_list_update)
  moreover have "free_count sg' = free_count sg - length (f # fs)" using r(5) fc by simp
  moreover have "wiped X sg' = wiped X sg" if "set (i # is) \<subseteq> X" for X
    using that r(9) p(8) by simp
  ultimately show ?case using r p by (intro exI[of _ "i # is"] exI[of _ sg']) simp
qed

lemma slot_connect_ok:
  assumes "signal_at net s = Some sg" "signal_ok sg" "slot_at net k = Some sl"
    and "length (whenhandlers sl) + length (oncehandlers sl) \<le> free_count sg"
  shows "\<exists>is sg'. slot_connect debug s k net =
      Inr (put_slot k (sl\<lparr>handlemap := map_put s (handles_of s (handlemap sl) @ is) (handlemap sl)\<rparr>)
        (put_signal s sg' net)) \<and> signal_ok sg' \<and>
    length is = length (whenhandlers sl) + length (oncehandlers sl) \<and>
    (\<forall>i \<in> set is. i < 4 \<and> handlers sg ! i = None) \<and>
    signals sg' = signals sg \<and> slots sg' = slots sg \<and> wiped (set is) sg' = sg"
proof -
  obtain ws sg1 where w: "install_all (signal_when debug) (whenhandlers sl) s net = Inr (ws, put_signal s sg1 net)"
    "signal_ok sg1" "length ws = length (whenhandlers sl)" "\<forall>i \<in> set ws. i < 4 \<and> handlers sg ! i = None"
    "free_count sg1 = free_count sg - length (whenhandlers sl)"
    "\<forall>i < 4. handlers sg1 ! i = None \<longrightarrow> handlers sg ! i = None"
    "signals sg1 = signals sg" "slots sg1 = slots sg" "\<forall>X. set ws \<subseteq> X \<longrightarrow> wiped X sg1 = wiped X sg"
    using install_all_ok[OF installs_when_once(1) assms(1,2), of "whenhandlers sl" debug] assms(4) by auto
  have l: "length (oncehandlers sl) \<le> free_count sg1" using w(5) assms(4) by linarith
  obtain os sg2 where o: "install_all (signal_once debug) (oncehandlers sl) s (put_signal s sg1 net) =
      Inr (os, put_signal s sg2 net)"
    "signal_ok sg2" "length os = length (oncehandlers sl)" "\<forall>i \<in> set os. i < 4 \<and> handlers sg1 ! i = None"
    "signals sg2 = signals sg" "slots sg2 = slots sg" "\<forall>X. set os \<subseteq> X \<longrightarrow> wiped X sg2 = wiped X sg1"
    using install_all_ok[OF installs_when_once(2), of "put_signal s sg1 net" s sg1 "oncehandlers sl" debug]
      w(2,7,8) l by auto
  have free: "\<forall>i \<in> set (ws @ os). i < 4 \<and> handlers sg ! i = None" using w(4,6) o(4) by auto
  have "wiped (set (ws @ os)) sg2 = wiped (set (ws @ os)) sg1" using o(7) by simp
  also have "\<dots> = wiped (set (ws @ os)) sg" using w(9) by simp
  also have "\<dots> = sg" by (rule wiped_free[OF assms(2) free])
  finally have restored: "wiped (set (ws @ os)) sg2 = sg" .
  have "slot_connect debug s k net =
      Inr (put_slot k (sl\<lparr>handlemap := map_put s (handles_of s (handlemap sl) @ ws @ os) (handlemap sl)\<rparr>)
        (put_signal s sg2 net))"
    using assms(3) w(1) o(1) by (simp add: slot_connect_def get_slot_def)
  then show ?thesis using restored free o w by (intro exI[of _ "ws @ os"] exI[of _ sg2]) simp
qed

lemma map_of_map_put [simp]: "map_of (map_put k v m) = (map_of m)(k \<mapsto> v)"
  by (induction k v m rule: map_put.induct) (auto simp: fun_upd_twist)

lemma map_erase_put: "k \<notin> fst ` set m \<Longrightarrow> map_erase k (map_put k v m) = m"
  by (induction k v m rule: map_put.induct) (auto simp: map_erase_def filter_id_conv)

lemma set_erase_insert: "k \<notin> set xs \<Longrightarrow> set_erase k (set_insert k xs) = xs"
  by (auto simp: set_erase_def set_insert_def filter_insort_triv filter_id_conv)

section \<open>Emission\<close>

lemma erase_handles_eq:
  "\<forall>i \<in> set is. i < length hs \<Longrightarrow> erase_handles debug is hs =
     Inr (map (\<lambda>j. if j \<in> set is then None else hs ! j) [0..<length hs])"
proof (induction "is" arbitrary: hs)
  case Nil
  then show ?case by (simp add: map_nth)
next
  case (Cons i "is")
  have "map (\<lambda>j. if j \<in> set is then None else hs[i := None] ! j) [0..<length hs] =
      map (\<lambda>j. if j \<in> set (i # is) then None else hs ! j) [0..<length hs]"
    by (rule map_cong) (auto simp: nth_list_update)
  then show ?case using Cons by (simp add: erase_def)
qed

lemma wiped_once:
  assumes "signal_ok sg"
  shows "erase_handles debug (oncehandles sg) (handlers sg) = Inr (handlers (wiped (set (oncehandles sg)) sg))"
    "wiped (set (oncehandles sg)) sg =
      sg\<lparr>handlers := handlers (wiped (set (oncehandles sg)) sg), oncehandles := []\<rparr>"
    "whenhandles (wiped (set (oncehandles sg)) sg) = whenhandles sg"
proof -
  have "\<forall>i \<in> set (oncehandles sg). i < length (handlers sg)"
    using assms unfolding signal_ok_def by auto
  then show "erase_handles debug (oncehandles sg) (handlers sg) = Inr (handlers (wiped (set (oncehandles sg)) sg))"
    by (simp add: erase_handles_eq wiped_def)
  have w: "filter (\<lambda>i. i \<notin> set (oncehandles sg)) (whenhandles sg) = whenhandles sg"
    using assms by (auto simp: signal_ok_def filter_id_conv)
  then show "whenhandles (wiped (set (oncehandles sg)) sg) = whenhandles sg" by (simp add: wiped_def)
  show "wiped (set (oncehandles sg)) sg =
      sg\<lparr>handlers := handlers (wiped (set (oncehandles sg)) sg), oncehandles := []\<rparr>"
    using w by (simp add: wiped_def)
qed

definition network_ok :: "(nat \<Rightarrow> nat) \<Rightarrow> 'h network \<Rightarrow> bool" where
  "network_ok rank net \<longleftrightarrow> (\<forall>s sg. signal_at net s = Some sg \<longrightarrow> signal_ok sg \<and>
     (\<forall>k \<in> set (slots sg). slot_at net k \<noteq> None) \<and>
     (\<forall>t \<in> set (signals sg). signal_at net t \<noteq> None \<and> rank t < rank s))"

text \<open>Two networks with the same objects and connections.\<close>

definition same_shape :: "'h network \<Rightarrow> 'h network \<Rightarrow> bool" where
  "same_shape net net' \<longleftrightarrow>
     (\<forall>k. slot_at net' k = None \<longleftrightarrow> slot_at net k = None) \<and>
     (\<forall>s. case (signal_at net s, signal_at net' s) of
        (None, None) \<Rightarrow> True
      | (Some sg, Some sg') \<Rightarrow> signals sg' = signals sg \<and> slots sg' = slots sg \<and>
          (signal_ok sg \<longrightarrow> signal_ok sg')
      | _ \<Rightarrow> False)"

lemma same_shape_refl: "same_shape net net"
  by (simp add: same_shape_def split: option.split)

lemma same_shape_signal:
  assumes "same_shape net net'"
  shows "signal_at net' s = None \<longleftrightarrow> signal_at net s = None"
    "signal_at net s = Some sg \<Longrightarrow> \<exists>sg'. signal_at net' s = Some sg' \<and> signals sg' = signals sg \<and>
       slots sg' = slots sg \<and> (signal_ok sg \<longrightarrow> signal_ok sg')"
proof -
  have "case (signal_at net s, signal_at net' s) of
        (None, None) \<Rightarrow> True
      | (Some sg, Some sg') \<Rightarrow> signals sg' = signals sg \<and> slots sg' = slots sg \<and>
          (signal_ok sg \<longrightarrow> signal_ok sg')
      | _ \<Rightarrow> False"
    using assms unfolding same_shape_def by blast
  then show "signal_at net' s = None \<longleftrightarrow> signal_at net s = None"
    "signal_at net s = Some sg \<Longrightarrow> \<exists>sg'. signal_at net' s = Some sg' \<and> signals sg' = signals sg \<and>
       slots sg' = slots sg \<and> (signal_ok sg \<longrightarrow> signal_ok sg')"
    by (cases "signal_at net s"; cases "signal_at net' s"; simp)+
qed

lemma same_shape_trans:
  assumes "same_shape a b" "same_shape b c"
  shows "same_shape a c"
proof -
  have "case (signal_at a s, signal_at c s) of
        (None, None) \<Rightarrow> True
      | (Some sg, Some sg') \<Rightarrow> signals sg' = signals sg \<and> slots sg' = slots sg \<and>
          (signal_ok sg \<longrightarrow> signal_ok sg')
      | _ \<Rightarrow> False" for s
    using same_shape_signal[OF assms(1), of s] same_shape_signal[OF assms(2), of s]
    by (cases "signal_at a s") (auto split: option.split)
  then show ?thesis using assms by (simp add: same_shape_def)
qed

lemma same_shape_ok: "same_shape net net' \<Longrightarrow> network_ok rank net \<Longrightarrow> network_ok rank net'"
  unfolding network_ok_def
proof (intro allI impI)
  fix s sg'
  assume a: "same_shape net net'" "signal_at net' s = Some sg'"
    and ok: "\<forall>s sg. signal_at net s = Some sg \<longrightarrow> signal_ok sg \<and>
     (\<forall>k \<in> set (slots sg). slot_at net k \<noteq> None) \<and>
     (\<forall>t \<in> set (signals sg). signal_at net t \<noteq> None \<and> rank t < rank s)"
  then obtain sg where sg: "signal_at net s = Some sg" using same_shape_signal(1)[OF a(1), of s] by auto
  then show "signal_ok sg' \<and> (\<forall>k \<in> set (slots sg'). slot_at net' k \<noteq> None) \<and>
     (\<forall>t \<in> set (signals sg'). signal_at net' t \<noteq> None \<and> rank t < rank s)"
    using same_shape_signal(2)[OF a(1) sg] a(2) ok same_shape_signal(1)[OF a(1)] a(1)
    by (auto simp: same_shape_def)
qed

lemma call_slots_ok:
  "\<forall>k \<in> set ks. slot_at net k \<noteq> None \<Longrightarrow>
     \<exists>net'. call_slots ks net = Inr net' \<and> signal_at net' = signal_at net \<and> same_shape net net'"
proof (induction ks arbitrary: net)
  case Nil
  then show ?case by (simp add: same_shape_refl)
next
  case (Cons k ks)
  then obtain sl where sl: "slot_at net k = Some sl" by auto
  let ?net = "put_slot k (sl\<lparr>oncehandlers := []\<rparr>) net"
  have sh: "same_shape net ?net"
    using sl by (auto simp: same_shape_def split: option.split)
  have "\<forall>j \<in> set ks. slot_at ?net j \<noteq> None" using Cons.prems by simp
  from Cons.IH[OF this] show ?case
    using sl sh same_shape_trans by (fastforce simp: slot_call_def get_slot_def)
qed

lemma emit_ok:
  fixes net :: "'h network" and args :: 'a
  shows "network_ok rank net \<Longrightarrow> signal_at net s \<noteq> None \<Longrightarrow> rank s < fuel \<Longrightarrow>
      \<exists>calls net'. emit debug fuel args s net = Inr (calls, net') \<and> same_shape net net'"
    and "network_ok rank net \<Longrightarrow> \<forall>t \<in> set ts. signal_at net t \<noteq> None \<and> rank t < fuel \<Longrightarrow>
      \<exists>calls net'. emit_each debug fuel args ts net = Inr (calls, net') \<and> same_shape net net'"
proof (induction debug fuel args s net and debug fuel args ts net rule: emit_emit_each.induct)
  case (2 debug fuel args s net)
  then obtain sg where sg: "signal_at net s = Some sg" by auto
  note ok = 2(2)[unfolded network_ok_def, rule_format, OF sg]
  have g: "get_signal s net = Inr sg" by (simp add: get_signal_def sg)
  have ts: "\<forall>t \<in> set (signals sg). signal_at net t \<noteq> None \<and> rank t < fuel" using ok 2(4) by fastforce
  obtain calls net1 where e: "emit_each debug fuel args (signals sg) net = Inr (calls, net1)" "same_shape net net1"
    using 2(1)[of sg, OF 2(2) ts] by blast
  have "\<forall>k \<in> set (slots sg). slot_at net1 k \<noteq> None" using ok e(2) by (simp add: same_shape_def)
  then obtain net2 where c: "call_slots (slots sg) net1 = Inr net2" "signal_at net2 = signal_at net1"
    "same_shape net1 net2" using call_slots_ok by blast
  have sh: "same_shape net net2" using e(2) c(3) by (rule same_shape_trans)
  obtain sg2 where sg2: "signal_at net2 s = Some sg2" "signal_ok sg2" "signals sg2 = signals sg" "slots sg2 = slots sg"
    using same_shape_signal(2)[OF sh sg] ok by auto
  let ?sg = "wiped (set (oncehandles sg2)) sg2"
  have "emit debug (Suc fuel) args s net = Inr (called (handlers sg) args @ calls, put_signal s ?sg net2)"
    using g e c sg2 wiped_once[OF sg2(2)] by (simp add: get_signal_def)
  moreover have "same_shape net2 (put_signal s ?sg net2)"
    using sg2 wiped_ok[OF sg2(2)] by (auto simp: same_shape_def split: option.split)
  ultimately show ?case using same_shape_trans[OF sh] by blast
next
  case (3 debug fuel args net)
  then show ?case by (simp add: same_shape_refl)
next
  case (4 debug fuel args t ts net)
  then obtain calls net1 where a: "emit debug fuel args t net = Inr (calls, net1)" "same_shape net net1"
    by auto
  have "\<forall>t \<in> set ts. signal_at net1 t \<noteq> None \<and> rank t < fuel"
    using 4(4) same_shape_signal(1)[OF a(2)] by simp
  then obtain calls' net2 where "emit_each debug fuel args ts net1 = Inr (calls', net2)" "same_shape net1 net2"
    using 4(2)[OF same_shape_ok[OF a(2) 4(3)]] by blast
  then show ?case using a same_shape_trans by fastforce
qed simp

section \<open>Properties\<close>

lemma free_count_zero: "free_count sg = 0 \<longleftrightarrow> None \<notin> set (handlers sg)"
proof -
  have "(\<forall>x \<in> set hs. x \<noteq> None) \<longleftrightarrow> None \<notin> set hs" for hs :: "'b option list"
    by (metis (no_types))
  then show ?thesis by (simp add: free_count_def filter_empty_conv del: not_None_eq)
qed

text \<open>A handler is installed in a free place of the four and counted, for \<open>when\<close> and for
  \<open>once\<close>, as long as there is one; with all four taken, the call asserts in a debug build and writes past the
  array in a release build. Removing a handle frees its place. The signal stays
  well formed: its two sets of handles are disjoint and name exactly the places in use.\<close>

theorem signal_handler_slots:
  fixes sg :: "'h signal"
  assumes "signal_ok sg"
  shows "(if free_count sg = 0
    then signal_when debug f sg = Inl (if debug then Assertion_failed else Out_of_bounds) \<and>
      signal_once debug f sg = Inl (if debug then Assertion_failed else Out_of_bounds)
    else \<exists>i w oc. signal_when debug f sg = Inr (i, w) \<and> signal_once debug f sg = Inr (i, oc) \<and>
      i < 4 \<and> handlers sg ! i = None \<and> handlers w ! i = Some f \<and> handlers oc ! i = Some f \<and>
      signal_ok w \<and> signal_ok oc \<and>
      signal_when_count w = Suc (signal_when_count sg) \<and> signal_once_count w = signal_once_count sg \<and>
      signal_once_count oc = Suc (signal_once_count sg) \<and> signal_when_count oc = signal_when_count sg) \<and>
    (i < 4 \<longrightarrow> (\<exists>sg'. signal_remove debug i sg = Inr sg' \<and> signal_ok sg' \<and> handlers sg' ! i = None))"
proof (intro conjI impI)
  show "if free_count sg = 0
    then signal_when debug f sg = Inl (if debug then Assertion_failed else Out_of_bounds) \<and>
      signal_once debug f sg = Inl (if debug then Assertion_failed else Out_of_bounds)
    else \<exists>i w oc. signal_when debug f sg = Inr (i, w) \<and> signal_once debug f sg = Inr (i, oc) \<and>
      i < 4 \<and> handlers sg ! i = None \<and> handlers w ! i = Some f \<and> handlers oc ! i = Some f \<and>
      signal_ok w \<and> signal_ok oc \<and>
      signal_when_count w = Suc (signal_when_count sg) \<and> signal_once_count w = signal_once_count sg \<and>
      signal_once_count oc = Suc (signal_once_count sg) \<and> signal_when_count oc = signal_when_count sg"
  proof (cases "free_count sg = 0")
    case True
    then show ?thesis
      by (simp add: free_count_zero install_full signal_when_def signal_once_def)
  next
    case False
    have len: "length (handlers sg) = 4" using assms by (simp add: signal_ok_def)
    have "None \<in> set (handlers sg)" using False by (simp add: free_count_zero)
    note i = install_ok[OF len this]
    let ?i = "first_free (handlers sg)"
    let ?w = "sg\<lparr>handlers := (handlers sg)[?i := Some f], whenhandles := set_insert ?i (whenhandles sg)\<rparr>"
    let ?o = "sg\<lparr>handlers := (handlers sg)[?i := Some f], oncehandles := set_insert ?i (oncehandles sg)\<rparr>"
    note ok = put_ok[OF assms i(2,3)]
    have "signal_when debug f sg = Inr (?i, ?w)" "signal_once debug f sg = Inr (?i, ?o)"
      by (simp_all add: signal_when_def signal_once_def i(1))
    moreover have "signal_when_count ?w = Suc (signal_when_count sg)"
      "signal_once_count ?o = Suc (signal_once_count sg)"
      using ok(3,4) by (simp_all add: signal_when_count_def signal_once_count_def length_set_insert)
    ultimately show ?thesis using False ok(1,2) i(2,3) len
      by (auto simp: signal_when_count_def signal_once_count_def)
  qed
next
  assume "i < 4"
  then have "i < length (handlers sg)" using assms by (simp add: signal_ok_def)
  then show "\<exists>sg'. signal_remove debug i sg = Inr sg' \<and> signal_ok sg' \<and> handlers sg' ! i = None"
    using wiped_ok[OF assms, of "{i}"]
    by (intro exI[of _ "wiped {i} sg"]) (simp add: signal_remove_wiped, simp add: wiped_def)
qed

theorem signal_handler_slots_witness:
  "\<exists>i w oc. signal_when True ''h'' signal_new = Inr (i, w) \<and> signal_once True ''h'' signal_new = Inr (i, oc) \<and>
     i < 4 \<and> handlers w ! i = Some ''h''"
proof -
  have "free_count (signal_new :: string signal) = 4" by (simp add: free_count_def signal_new_def numeral_eq_Suc)
  then show ?thesis
    using signal_handler_slots[OF signal_ok_new, of True "''h''" 0] by auto
qed

text \<open>Connecting a slot to a signal and disconnecting it again restores the network exactly:
  no handler, handle or connection of either object or of any other object changes, when the
  signal has room for the handlers of the slot and the two were not connected before.\<close>

theorem connect_disconnect_restores:
  assumes "signal_at net s = Some sg" "signal_ok sg" "slot_at net k = Some sl"
    and "length (whenhandlers sl) + length (oncehandlers sl) \<le> free_count sg"
    and "s \<notin> fst ` set (handlemap sl)" "k \<notin> set (slots sg)"
  shows "\<exists>net'. connect debug s k net = Inr net' \<and>
    (\<exists>sg' sl'. signal_at net' s = Some sg' \<and> slot_at net' k = Some sl' \<and> k \<in> set (slots sg') \<and>
       length (handles_of s (handlemap sl')) = length (whenhandlers sl) + length (oncehandlers sl)) \<and>
    disconnect debug s k net' = Inr net"
proof -
  obtain "is" sg' where c: "slot_connect debug s k net =
      Inr (put_slot k (sl\<lparr>handlemap := map_put s (handles_of s (handlemap sl) @ is) (handlemap sl)\<rparr>)
        (put_signal s sg' net))"
    and ok: "signal_ok sg'" "length is = length (whenhandlers sl) + length (oncehandlers sl)"
    and free: "\<forall>i \<in> set is. i < 4 \<and> handlers sg ! i = None"
    and links: "signals sg' = signals sg" "slots sg' = slots sg" and w: "wiped (set is) sg' = sg"
    using slot_connect_ok[OF assms(1-4), of debug] by blast
  have none: "handles_of s (handlemap sl) = []"
    using map_of_eq_None_iff[THEN iffD2, OF assms(5)] by (simp add: handles_of_def)
  let ?sl = "sl\<lparr>handlemap := map_put s is (handlemap sl)\<rparr>"
  let ?sg = "signal_connect k sg'"
  let ?net = "put_slot k ?sl (put_signal s ?sg net)"
  have conn: "connect debug s k net = Inr ?net"
    using c by (simp add: connect_def none through_signal_def get_signal_def)
  have hs: "handles_of s (map_put s is (handlemap sl)) = is" by (simp add: handles_of_def)
  have "\<forall>i \<in> set is. i < length (handlers ?sg)"
    using free ok(1) by (auto simp: signal_ok_def signal_connect_def)
  then have "remove_handles debug s is ?net = Inr (put_signal s (wiped (set is) ?sg) ?net)"
    by (intro remove_handles_wiped) simp_all
  moreover have "wiped (set is) ?sg = sg\<lparr>slots := set_insert k (slots sg)\<rparr>"
    using w links by (auto simp: signal_connect_def wiped_def)
  ultimately have "slot_disconnect_signal debug s k ?net =
      Inr (put_slot k sl (put_signal s (sg\<lparr>slots := set_insert k (slots sg)\<rparr>) net))"
    by (simp add: slot_disconnect_signal_def get_slot_def hs map_erase_put assms(5))
  then have "disconnect debug s k ?net = Inr (put_slot k sl (put_signal s sg net))"
    by (simp add: disconnect_def through_signal_def get_signal_def signal_disconnect_slot_def
        set_erase_insert assms(6))
  then have "disconnect debug s k ?net = Inr net" using assms(1,3) by simp
  then show ?thesis using conn ok(2) hs by (intro exI[of _ ?net]) (auto simp: signal_connect_def)
qed

definition empty_network :: "'h network" where
  "empty_network = \<lparr>signal_at = (\<lambda>_. None), slot_at = (\<lambda>_. None)\<rparr>"

theorem connect_disconnect_restores_witness:
  "\<exists>net net'. net = put_signal 0 signal_new (put_slot 1 (slot_new\<lparr>whenhandlers := [''h'']\<rparr>) empty_network) \<and>
     connect True 0 1 net = Inr net' \<and> disconnect True 0 1 net' = Inr net"
proof -
  let ?sl = "slot_new\<lparr>whenhandlers := [''h'']\<rparr>"
  let ?net = "put_signal 0 signal_new (put_slot 1 ?sl empty_network)"
  have "free_count (signal_new :: string signal) = 4"
    by (simp add: free_count_def signal_new_def numeral_eq_Suc)
  then have "length (whenhandlers ?sl) + length (oncehandlers ?sl) \<le> free_count (signal_new :: string signal)"
    by (simp add: slot_new_def)
  moreover have "signal_at ?net 0 = Some signal_new" "slot_at ?net 1 = Some ?sl"
    "0 \<notin> fst ` set (handlemap ?sl)" "1 \<notin> set (slots (signal_new :: string signal))"
    by (simp_all add: slot_new_def signal_new_def)
  ultimately show ?thesis
    using connect_disconnect_restores[of ?net 0 signal_new 1 ?sl True] signal_ok_new by blast
qed

text \<open>When forwarding has no cycle an emission returns with fuel for the rank of the signal,
  keeps every object and connection and the well-formedness of every signal; two signals that forward to each other never return, whatever the fuel.\<close>

theorem emission_termination:
  assumes "network_ok rank net" "signal_at net s \<noteq> None" "rank s < fuel"
    and "signal_at cyc a = Some sa" "signals sa = [b]" "signal_at cyc b = Some sb" "signals sb = [a]"
  shows "(\<exists>calls net'. emit debug fuel args s net = Inr (calls, net') \<and> same_shape net net' \<and>
      network_ok rank net') \<and> emit debug n args' a cyc = Inl Diverges"
proof
  show "\<exists>calls net'. emit debug fuel args s net = Inr (calls, net') \<and> same_shape net net' \<and>
      network_ok rank net'"
  proof -
    obtain calls net' where e: "emit debug fuel args s net = Inr (calls, net')" "same_shape net net'"
      using emit_ok(1)[OF assms(1-3), where debug = debug and args = args] by (elim exE conjE)
    have "network_ok rank net'" by (rule same_shape_ok[OF e(2) assms(1)])
    with e show ?thesis by (intro exI conjI)
  qed
  have "emit debug n args' a cyc = Inl Diverges \<and> emit debug n args' b cyc = Inl Diverges"
  proof (induction n)
    case (Suc n)
    then show ?case using assms(4-7) by (simp add: get_signal_def)
  qed simp
  then show "emit debug n args' a cyc = Inl Diverges" ..
qed

theorem emission_termination_witness:
  "(\<exists>calls net'. emit True 2 () 0 (put_signal 0 (signal_new\<lparr>signals := [1]\<rparr>)
      (put_signal 1 (signal_new :: string signal) empty_network)) = Inr (calls, net')) \<and>
   emit True 100 () 0 (put_signal 0 (signal_new\<lparr>signals := [1]\<rparr>)
      (put_signal 1 (signal_new\<lparr>signals := [0]\<rparr> :: string signal) empty_network)) = Inl Diverges"
proof -
  let ?net = "put_signal 0 (signal_new\<lparr>signals := [1]\<rparr>) (put_signal 1 (signal_new :: string signal) empty_network)"
  have "signal_ok (signal_new\<lparr>signals := [1]\<rparr> :: string signal)" "signal_ok (signal_new :: string signal)"
    using signal_ok_new by (simp_all add: signal_ok_def)
  then have n: "network_ok (\<lambda>s. 1 - s) ?net"
    by (simp add: network_ok_def empty_network_def)
  let ?cyc = "put_signal 0 (signal_new\<lparr>signals := [1]\<rparr>)
      (put_signal 1 (signal_new\<lparr>signals := [0]\<rparr> :: string signal) empty_network)"
  have p: "signal_at ?net 0 \<noteq> None" "(1 :: nat) - 0 < 2"
    "signal_at ?cyc 0 = Some (signal_new\<lparr>signals := [1]\<rparr>)"
    "signals (signal_new\<lparr>signals := [1]\<rparr> :: string signal) = [1]"
    "signal_at ?cyc 1 = Some (signal_new\<lparr>signals := [0]\<rparr>)"
    "signals (signal_new\<lparr>signals := [0]\<rparr> :: string signal) = [0]"
    by simp_all
  note both = emission_termination[where args = "()" and args' = "()" and n = 100 and debug = True,
      OF n p]
  show ?thesis
  proof
    show "\<exists>calls net'. emit True 2 () 0 ?net = Inr (calls, net')"
      using both[THEN conjunct1] by (elim exE conjE) (rule exI, rule exI, assumption)
    show "emit True 100 () 0 ?cyc = Inl Diverges" by (rule both[THEN conjunct2])
  qed
qed

text \<open>Emitting a signal without connections calls its handlers once each in the order of their
  places; the handlers installed with \<open>once\<close> are then gone and those installed with
  \<open>when\<close> stay, so a second emission calls exactly the latter.\<close>

theorem emission_calls_once_handlers_once:
  assumes "signal_at net s = Some sg" "signal_ok sg" "signals sg = []" "slots sg = []"
  shows "\<exists>net' net''. emit debug (Suc n) args s net = Inr (called (handlers sg) args, net') \<and>
    emit debug (Suc n) args' s net' =
      Inr (called (map (\<lambda>i. if i \<in> set (whenhandles sg) then handlers sg ! i else None) [0..<4]) args', net'') \<and>
    signal_at net' s = Some (wiped (set (oncehandles sg)) sg) \<and> net'' = net'"
proof -
  let ?sg = "wiped (set (oncehandles sg)) sg"
  let ?net = "put_signal s ?sg net"
  have ok: "signal_ok ?sg" by (rule wiped_ok[OF assms(2)])
  have once: "oncehandles ?sg = []" by (simp add: wiped_def)
  have "emit debug (Suc n) args s net = Inr (called (handlers sg) args, ?net)"
    using assms(1,3,4) wiped_once[OF assms(2)] by (simp add: get_signal_def)
  moreover have "emit debug (Suc n) args' s ?net = Inr (called (handlers ?sg) args', ?net)"
    using assms(3,4) once wiped_once(1)[OF ok] by (simp add: get_signal_def)
      (metis once put_signal_simps(3) signal.surjective signal.update_convs(1,3) wiped_empty wiped_once(2) ok list.set(1))
  moreover have "handlers ?sg = map (\<lambda>i. if i \<in> set (whenhandles sg) then handlers sg ! i else None) [0..<4]"
  proof (rule nth_equalityI)
    show "length (handlers ?sg) =
        length (map (\<lambda>i. if i \<in> set (whenhandles sg) then handlers sg ! i else None) [0..<4])"
      using assms(2) by (simp add: signal_ok_def)
    fix i assume "i < length (handlers ?sg)"
    then have i: "i < 4" "length (handlers sg) = 4" using assms(2) by (simp_all add: signal_ok_def)
    then have "handlers sg ! i \<noteq> None \<longleftrightarrow> i \<in> set (whenhandles sg) \<union> set (oncehandles sg)"
      using assms(2) unfolding signal_ok_def by blast
    then show "handlers ?sg ! i =
        map (\<lambda>i. if i \<in> set (whenhandles sg) then handlers sg ! i else None) [0..<4] ! i"
      using i assms(2) by (auto simp: wiped_def signal_ok_def)
  qed
  ultimately show ?thesis by auto
qed

theorem emission_calls_once_handlers_once_witness:
  "\<exists>net' net''. emit True 1 () 0 (put_signal 0 (\<lparr>handlers = [Some ''o'', Some ''w'', None, None],
      whenhandles = [1], oncehandles = [0], signals = [], slots = []\<rparr>) empty_network)
      = Inr ([(''o'', ()), (''w'', ())], net') \<and>
    emit True 1 () 0 net' = Inr ([(''w'', ())], net'')"
proof -
  let ?sg = "\<lparr>handlers = [Some ''o'', Some ''w'', None, None], whenhandles = [1], oncehandles = [0],
    signals = [], slots = []\<rparr>"
  have "{i. i < 4 \<and> handlers ?sg ! i \<noteq> None} = {0, 1}"
    by (auto simp: less_Suc_eq numeral_eq_Suc)
  then have ok: "signal_ok ?sg" by (auto simp: signal_ok_def)
  show ?thesis
    using emission_calls_once_handlers_once[of "put_signal 0 ?sg empty_network" 0 ?sg True 0 "()" "()"] ok
    by (auto simp: called_def numeral_eq_Suc)
qed

text \<open>The handles that a slot keeps are not updated when an emission drops its \<open>once\<close> handlers:
  if another slot takes the place, disconnecting the first slot removes the handler of the
  second, which stays connected and is no longer called.\<close>

theorem stale_handle_removes_other_handler:
  "\<exists>n1 n2 n3 n4 sg sb.
     connect debug 0 10 (put_signal 0 signal_new (put_slot 10 (slot_new\<lparr>oncehandlers := [f]\<rparr>)
       (put_slot 11 (slot_new\<lparr>whenhandlers := [g]\<rparr>) empty_network))) = Inr n1 \<and>
     emit debug 1 () 0 n1 = Inr ([(f, ())], n2) \<and>
     connect debug 0 11 n2 = Inr n3 \<and> disconnect debug 0 10 n3 = Inr n4 \<and>
     signal_at n4 0 = Some sg \<and> slot_at n4 11 = Some sb \<and>
     slots sg = [11] \<and> handlemap sb = [(0, [0])] \<and> handlers sg = [None, None, None, None] \<and>
     (\<exists>n5. emit debug 1 () 0 n4 = Inr ([], n5))"
  by (simp add: connect_def disconnect_def slot_connect_def slot_disconnect_signal_def get_slot_def
      get_signal_def through_signal_def signal_once_def signal_when_def install_def erase_def
      signal_connect_def signal_disconnect_slot_def signal_remove_def handles_of_def map_erase_def
      set_insert_def set_erase_def signal_new_def slot_new_def slot_call_def called_def Let_def
      numeral_eq_Suc empty_network_def)

text \<open>Destroying a signal tells its own targets, which never knew it, and not the signals that
  forward to it: the next emission of such a signal uses the destroyed one.\<close>

theorem forward_to_deleted_signal:
  assumes "s \<noteq> t" "signal_at net s = Some sg" "signals sg = t # ts"
    and "signal_at net t = Some tg" "slots tg = []" "signals tg = []"
  shows "\<exists>net'. signal_delete debug t net = Inr net' \<and>
    emit debug (Suc (Suc n)) args s net' = Inl Undefined"
proof -
  have "signal_disconnect debug t net = Inr net"
    using assms(4-6) by (simp add: signal_disconnect_def get_signal_def)
  then show ?thesis
    using assms by (simp add: signal_delete_def get_signal_def)
qed

theorem forward_to_deleted_signal_witness:
  "\<exists>net'. signal_delete True 1 (put_signal 0 (signal_new\<lparr>signals := [1]\<rparr> :: string signal)
      (put_signal 1 signal_new empty_network)) = Inr net' \<and> emit True 2 () 0 net' = Inl Undefined"
  using forward_to_deleted_signal[of 0 1 "put_signal 0 (signal_new\<lparr>signals := [1]\<rparr> :: string signal)
      (put_signal 1 signal_new empty_network)" "signal_new\<lparr>signals := [1]\<rparr>" "[]" signal_new True 0 "()"]
  by (simp add: numeral_2_eq_2)

text \<open>Assigning an observed value notifies every handler of \<open>Changed\<close> exactly when the value
  changes, with the previous and the new value, and assigning the same value again notifies nobody.\<close>

theorem state_notifies_changes:
  assumes "signal_at net (Changed st) = Some sg" "signal_ok sg" "signals sg = []" "slots sg = []"
  shows "\<exists>st' net'. state_assign debug (Suc n) v st net =
      Inr (if state_get st = v then [] else called (handlers sg) (state_get st, v), st', net') \<and>
    state_get st' = v \<and> Changed st' = Changed st \<and>
    state_assign debug (Suc n) v st' net' = Inr ([], st', net')"
proof -
  obtain net' where e: "emit debug (Suc n) (state_value st, v) (Changed st) net =
      Inr (called (handlers sg) (state_value st, v), net')"
    using assms wiped_once[OF assms(2)] by (simp add: get_signal_def)
  show ?thesis
  proof (cases "state_value st = v")
    case True
    then show ?thesis by (simp add: state_assign_def state_get_def)
  next
    case False
    then show ?thesis using e
      by (intro exI[of _ "st\<lparr>state_value := v\<rparr>"] exI[of _ net'])
        (simp add: state_assign_def state_get_def del: emit.simps)
  qed
qed

theorem state_notifies_changes_witness:
  "\<exists>st' net'. state_assign True 1 (5 :: int) \<lparr>state_value = 3, Changed = 0\<rparr>
      (put_signal 0 (\<lparr>handlers = [Some ''h'', None, None, None], whenhandles = [0], oncehandles = [],
        signals = [], slots = []\<rparr>) empty_network) = Inr ([(''h'', 3, 5)], st', net')"
proof -
  let ?sg = "\<lparr>handlers = [Some ''h'', None, None, None], whenhandles = [0], oncehandles = [],
    signals = [], slots = []\<rparr>"
  have "{i. i < 4 \<and> handlers ?sg ! i \<noteq> None} = {0}"
    by (auto simp: less_Suc_eq numeral_eq_Suc)
  then have ok: "signal_ok ?sg" by (auto simp: signal_ok_def)
  show ?thesis
    using state_notifies_changes[of "put_signal 0 ?sg empty_network" "\<lparr>state_value = 3, Changed = 0\<rparr>" ?sg
        True 0 "5 :: int"] ok
    by (auto simp: called_def state_get_def)
qed

end
