(* ===== verification/Binary_Heap.thy ===== *)
theory Binary_Heap
  imports Prelude "HOL-Library.Multiset"
begin

text \<open>
  The heap operations of the standard library, \<open>std::push_heap\<close>, \<open>std::pop_heap\<close> and \<open>std::make_heap\<close>, on a list
  with a comparison, as \<open>core/containers.hpp\<close> and \<open>exercises/memory.cpp\<close> use them. What the comparison has to be is
  the locale \<open>strict_weak_order\<close>, in which the operations keep the heap order.
\<close>

section \<open>Binary heaps\<close>

text \<open>\<open>push_heap\<close>, \<open>pop_heap\<close> and \<open>make_heap\<close> of the standard library: a new last element is
  sifted up, the top is exchanged with the last element and the new top sifted down, and a heap is
  made by sifting down from the last parent.\<close>

definition exchange :: "'a list \<Rightarrow> nat \<Rightarrow> nat \<Rightarrow> 'a list" where
  "exchange xs i j = xs[i := xs ! j, j := xs ! i]"

function sift_up :: "('a \<Rightarrow> 'a \<Rightarrow> bool) \<Rightarrow> 'a list \<Rightarrow> nat \<Rightarrow> 'a list" where
  "sift_up lt xs i =
     (if i > 0 \<and> lt (xs ! ((i - 1) div 2)) (xs ! i)
      then sift_up lt (exchange xs ((i - 1) div 2) i) ((i - 1) div 2) else xs)"
  by pat_completeness auto
termination by (relation "measure (\<lambda>(_, _, i). i)") auto

function sift_down :: "('a \<Rightarrow> 'a \<Rightarrow> bool) \<Rightarrow> nat \<Rightarrow> 'a list \<Rightarrow> nat \<Rightarrow> 'a list" where
  "sift_down lt n xs i =
     (if 2 * i + 1 < n
      then (let c = (if 2 * i + 2 < n \<and> lt (xs ! (2 * i + 1)) (xs ! (2 * i + 2))
                     then 2 * i + 2 else 2 * i + 1)
            in (if lt (xs ! i) (xs ! c) then sift_down lt n (exchange xs i c) c else xs))
      else xs)"
  by pat_completeness auto
termination by (relation "measure (\<lambda>(_, n, _, i). n - i)") (auto split: if_splits)

declare sift_up.simps [simp del] sift_down.simps [simp del]

definition push_heap :: "('a \<Rightarrow> 'a \<Rightarrow> bool) \<Rightarrow> 'a list \<Rightarrow> 'a list" where
  "push_heap lt xs = sift_up lt xs (length xs - 1)"

definition pop_heap :: "('a \<Rightarrow> 'a \<Rightarrow> bool) \<Rightarrow> 'a list \<Rightarrow> 'a list" where
  "pop_heap lt xs =
     (if length xs < 2 then xs
      else sift_down lt (length xs - 1) (exchange xs 0 (length xs - 1)) 0)"

definition make_heap :: "('a \<Rightarrow> 'a \<Rightarrow> bool) \<Rightarrow> 'a list \<Rightarrow> 'a list" where
  "make_heap lt xs = foldl (sift_down lt (length xs)) xs (rev [0..<length xs div 2])"

section \<open>Lemmas on heaps\<close>

definition parent :: "nat \<Rightarrow> nat" where
  "parent j = (j - 1) div 2"

lemma parent_less: "0 < j \<Longrightarrow> parent j < j"
  by (simp add: parent_def)

lemma parent_children: "0 < j \<Longrightarrow> parent j = i \<longleftrightarrow> j = 2 * i + 1 \<or> j = 2 * i + 2"
  by (auto simp: parent_def)

lemma exchange_simps:
  "length (exchange xs i j) = length xs"
  "i < length xs \<Longrightarrow> j < length xs \<Longrightarrow> k < length xs \<Longrightarrow>
     exchange xs i j ! k = (if k = j then xs ! i else if k = i then xs ! j else xs ! k)"
  "i < length xs \<Longrightarrow> j < length xs \<Longrightarrow> mset (exchange xs i j) = mset xs"
  by (simp_all add: exchange_def nth_list_update mset_swap)

text \<open>The heap order among the first \<open>n\<close> elements, below the parents from \<open>k\<close> on.\<close>

definition heap_from :: "('a \<Rightarrow> 'a \<Rightarrow> bool) \<Rightarrow> nat \<Rightarrow> nat \<Rightarrow> 'a list \<Rightarrow> bool" where
  "heap_from lt k n xs \<longleftrightarrow> (\<forall>j. 0 < j \<and> j < n \<and> k \<le> parent j \<longrightarrow> \<not> lt (xs ! parent j) (xs ! j))"

lemma sift_up_mset [simp]:
  "i < length xs \<Longrightarrow> mset (sift_up lt xs i) = mset xs"
  "i < length xs \<Longrightarrow> length (sift_up lt xs i) = length xs"
proof (induction lt xs i rule: sift_up.induct)
  case (1 lt xs i)
  {
    case 1
    then show ?case using "1.IH"(1) by (subst sift_up.simps) (auto simp: exchange_simps)
  next
    case 2
    then show ?case using "1.IH"(2) by (subst sift_up.simps) (auto simp: exchange_simps)
  }
qed

lemma sift_down_above:
  "n \<le> length xs \<Longrightarrow> n \<le> j \<Longrightarrow> j < length xs \<Longrightarrow> i < n \<Longrightarrow> sift_down lt n xs i ! j = xs ! j"
proof (induction lt n xs i rule: sift_down.induct)
  case (1 lt n xs i)
  then show ?case
    by (subst sift_down.simps) (auto simp: Let_def exchange_simps split: if_splits)
qed

lemma sift_down_length [simp]: "length (sift_down lt n xs i) = length xs"
proof (induction lt n xs i rule: sift_down.induct)
  case (1 lt n xs i)
  then show ?case by (subst sift_down.simps) (auto simp: Let_def exchange_simps)
qed

lemma sift_down_mset [simp]:
  "n \<le> length xs \<Longrightarrow> mset (sift_down lt n xs i) = mset xs"
proof (induction lt n xs i rule: sift_down.induct)
  case (1 lt n xs i)
  then show ?case by (subst sift_down.simps) (auto simp: Let_def exchange_simps)
qed

locale strict_weak_order =
  fixes lt :: "'a \<Rightarrow> 'a \<Rightarrow> bool"
  assumes asym: "lt a b \<Longrightarrow> \<not> lt b a"
    and neg_trans: "\<not> lt a b \<Longrightarrow> \<not> lt b c \<Longrightarrow> \<not> lt a c"
begin


lemma sift_up_heap:
  assumes "i < length xs"
    and "\<And>j. 0 < j \<Longrightarrow> j < length xs \<Longrightarrow> j \<noteq> i \<Longrightarrow> \<not> lt (xs ! parent j) (xs ! j)"
    and "\<And>j. 0 < j \<Longrightarrow> j < length xs \<Longrightarrow> parent j = i \<Longrightarrow> 0 < i \<Longrightarrow> \<not> lt (xs ! parent i) (xs ! j)"
  shows "heap_from lt 0 (length xs) (sift_up lt xs i)"
  using assms
proof (induction i arbitrary: xs rule: less_induct)
  case (less i)
  show ?case
  proof (cases "0 < i \<and> lt (xs ! parent i) (xs ! i)")
    case True
    define p where "p = parent i"
    define ys where "ys = exchange xs p i"
    have p: "p < i" "p < length xs" "i < length xs" "length ys = length xs"
      using True less.prems(1) parent_less[of i] by (auto simp: p_def ys_def exchange_simps)
    have at: "\<And>k. k < length xs \<Longrightarrow> ys ! k = (if k = i then xs ! p else if k = p then xs ! i else xs ! k)"
      using p unfolding ys_def by (simp add: exchange_simps)
    have up: "\<not> lt (xs ! i) (xs ! p)" using asym True p_def by blast
    have one: "\<not> lt (ys ! parent j) (ys ! j)" if j: "0 < j" "j < length ys" "j \<noteq> p" for j
    proof -
      have pj: "parent j < length xs" "parent j < j" "j < length xs"
        using j p(4) parent_less[of j] by auto
      consider "j = i" | "j \<noteq> i" "parent j = i" | "j \<noteq> i" "parent j = p" | "j \<noteq> i" "parent j \<noteq> i" "parent j \<noteq> p"
        by blast
      then show ?thesis
      proof cases
        case 1
        then show ?thesis using at[of i] at[of p] p up by (simp add: p_def)
      next
        case 2
        then show ?thesis using at[of i] at[of j] p j pj less.prems(3)[of j] True by (simp add: p_def)
      next
        case 3
        then show ?thesis
          using at[of p] at[of j] p j pj less.prems(2)[of j] up neg_trans[of "xs ! i" "xs ! p" "xs ! j"]
          by simp
      next
        case 4
        then show ?thesis using at[of "parent j"] at[of j] p j pj less.prems(2)[of j] by simp
      qed
    qed
    have two: "\<not> lt (ys ! parent p) (ys ! j)" if j: "0 < j" "j < length ys" "parent j = p" "0 < p" for j
    proof -
      have q: "parent p < p" using j(4) parent_less by blast
      then show ?thesis
        using j p at[of j] at[of "parent p"] less.prems(2)[of p] less.prems(2)[of j]
          neg_trans[of "xs ! parent p" "xs ! p" "xs ! j"] parent_less[of j]
        by (cases "j = i") (auto simp: p_def)
    qed
    have "heap_from lt 0 (length ys) (sift_up lt ys p)"
      using less.IH[OF p(1), of ys] p one two by auto
    moreover have "sift_up lt xs i = sift_up lt ys p"
      using True by (subst sift_up.simps) (simp add: ys_def p_def parent_def)
    ultimately show ?thesis using p by simp
  next
    case False
    then have "sift_up lt xs i = xs" by (subst sift_up.simps) (auto simp: parent_def)
    then show ?thesis using False less.prems(2) by (auto simp: heap_from_def)
  qed
qed

lemma sift_down_heap:
  assumes "n \<le> length xs" "k \<le> i"
    and "\<And>j. 0 < j \<Longrightarrow> j < n \<Longrightarrow> k \<le> parent j \<Longrightarrow> parent j \<noteq> i \<Longrightarrow> \<not> lt (xs ! parent j) (xs ! j)"
    and "\<And>j. 0 < j \<Longrightarrow> j < n \<Longrightarrow> parent j = i \<Longrightarrow> 0 < i \<Longrightarrow> k \<le> parent i \<Longrightarrow> \<not> lt (xs ! parent i) (xs ! j)"
  shows "heap_from lt k n (sift_down lt n xs i)"
  using assms
proof (induction "n - i" arbitrary: i xs rule: less_induct)
  case less
  define c where "c = (if 2 * i + 2 < n \<and> lt (xs ! (2 * i + 1)) (xs ! (2 * i + 2))
                     then 2 * i + 2 else 2 * i + 1)"
  show ?case
  proof (cases "2 * i + 1 < n \<and> lt (xs ! i) (xs ! c)")
    case True
    define ys where "ys = exchange xs i c"
    have c: "i < c" "c < n" "parent c = i" "length ys = length xs" "c < length xs" "i < length xs"
      using True less.prems(1) by (auto simp: c_def parent_def ys_def exchange_simps)
    have at: "\<And>j. j < length xs \<Longrightarrow> ys ! j = (if j = c then xs ! i else if j = i then xs ! c else xs ! j)"
      using c unfolding ys_def by (simp add: exchange_simps)
    have sib: "\<not> lt (xs ! c) (xs ! j)" if "0 < j" "j < n" "parent j = i" "j \<noteq> c" for j
      using that asym by (auto simp: parent_children c_def split: if_splits)
    have one: "\<not> lt (ys ! parent j) (ys ! j)"
      if j: "0 < j" "j < n" "k \<le> parent j" "parent j \<noteq> c" for j
    proof -
      have pj: "parent j < length xs" "parent j < j" "j < length xs"
        using j less.prems(1) parent_less[of j] by auto
      consider "j = c" | "j \<noteq> c" "parent j = i" | "j = i" | "j \<noteq> c" "j \<noteq> i" "parent j \<noteq> i"
        by blast
      then show ?thesis
      proof cases
        case 1
        then show ?thesis using at[of i] at[of c] c True asym by simp
      next
        case 2
        then show ?thesis using at[of i] at[of j] c pj sib[of j] j by simp
      next
        case 3
        then show ?thesis using at[of i] at[of "parent i"] c pj j less.prems(4)[of c] by simp
      next
        case 4
        then show ?thesis using at[of "parent j"] at[of j] c pj j less.prems(3)[of j] by simp
      qed
    qed
    have two: "\<not> lt (ys ! parent c) (ys ! j)" if j: "0 < j" "j < n" "parent j = c" for j
      using j c at[of i] at[of j] less.prems(1,2) less.prems(3)[of j] parent_less[of j] by auto
    have "n - c < n - i" using c by simp
    from less.hyps[OF this, of ys] have "heap_from lt k n (sift_down lt n ys c)"
      using c less.prems(1,2) one two by auto
    moreover have "sift_down lt n xs i = sift_down lt n ys c"
      using True by (subst sift_down.simps) (simp add: ys_def c_def)
    ultimately show ?thesis by simp
  next
    case False
    then have same: "sift_down lt n xs i = xs"
      by (subst sift_down.simps) (auto simp: c_def Let_def)
    have "\<not> lt (xs ! i) (xs ! j)" if j: "0 < j" "j < n" "parent j = i" for j
    proof -
      have "2 * i + 1 < n" using j by (auto simp: parent_children)
      then have nc: "\<not> lt (xs ! i) (xs ! c)" using False by simp
      have "\<not> lt (xs ! c) (xs ! j) \<or> j = c"
        using j asym by (auto simp: parent_children c_def split: if_splits)
      then show ?thesis using nc neg_trans by blast
    qed
    then show ?thesis using less.prems(3) same by (auto simp: heap_from_def)
  qed
qed

lemma heap_top:
  assumes "heap_from lt 0 n xs" "j < n"
  shows "\<not> lt (xs ! 0) (xs ! j)"
  using assms(2)
proof (induction j rule: less_induct)
  case (less j)
  show ?case
  proof (cases "j = 0")
    case True
    then show ?thesis using asym by auto
  next
    case False
    then have "\<not> lt (xs ! 0) (xs ! parent j)" "\<not> lt (xs ! parent j) (xs ! j)"
      using less parent_less[of j] assms(1) by (auto simp: heap_from_def)
    then show ?thesis using neg_trans by blast
  qed
qed

lemma push_heap_heap:
  assumes "heap_from lt 0 (length xs) xs"
  shows "heap_from lt 0 (Suc (length xs)) (push_heap lt (xs @ [x]))"
proof -
  have kids: "parent j \<noteq> length xs" if "0 < j" "j < Suc (length xs)" for j
    using that parent_less[of j] by auto
  have "\<not> lt ((xs @ [x]) ! parent j) ((xs @ [x]) ! j)" if "0 < j" "j < length xs" for j
    using that assms parent_less[of j] by (simp add: heap_from_def nth_append)
  then have "heap_from lt 0 (length (xs @ [x])) (sift_up lt (xs @ [x]) (length xs))"
    using kids by (intro sift_up_heap) auto
  then show ?thesis by (simp add: push_heap_def)
qed

lemma make_heap_heap: "heap_from lt 0 (length xs) (make_heap lt xs)"
proof -
  have go: "heap_from lt 0 n (foldl (sift_down lt n) ys (rev [0..<k]))"
    if "heap_from lt k n ys" "n \<le> length ys" for k n ys
    using that
  proof (induction k arbitrary: ys)
    case (Suc k)
    have "parent k < k" if "0 < k" using parent_less that by blast
    then have "heap_from lt k n (sift_down lt n ys k)"
      using Suc.prems by (intro sift_down_heap) (auto simp: heap_from_def)
    then show ?case using Suc by simp
  qed simp
  have "heap_from lt (length xs div 2) (length xs) xs"
    by (auto simp: heap_from_def parent_def)
  then show ?thesis unfolding make_heap_def by (rule go) simp
qed

lemma pop_heap_heap:
  assumes "heap_from lt 0 (length xs) xs" "xs \<noteq> []"
  shows "heap_from lt 0 (length xs - 1) (butlast (pop_heap lt xs)) \<and> last (pop_heap lt xs) = hd xs"
proof (cases "length xs < 2")
  case True
  then show ?thesis using assms by (cases xs) (auto simp: pop_heap_def heap_from_def)
next
  case False
  define n where "n = length xs - 1"
  define ys where "ys = exchange xs 0 n"
  have n: "0 < n" "n < length xs" "length ys = length xs" "length xs = Suc n"
    using False by (auto simp: n_def ys_def exchange_simps)
  have at: "ys ! j = (if j = n then xs ! 0 else if j = 0 then xs ! n else xs ! j)" if "j < length xs" for j
    using that n by (simp add: ys_def exchange_simps)
  have "\<not> lt (ys ! parent j) (ys ! j)" if j: "0 < j" "j < n" "parent j \<noteq> 0" for j
  proof -
    have "parent j < j" using parent_less j by blast
    then show ?thesis using j assms(1) n at[of j] at[of "parent j"] by (simp add: heap_from_def)
  qed
  then have heap: "heap_from lt 0 n (sift_down lt n ys 0)"
    using n by (intro sift_down_heap) auto
  have len: "length (sift_down lt n ys 0) = Suc n" by (simp add: n)
  have "sift_down lt n ys 0 ! n = xs ! 0"
    using sift_down_above[of n ys n 0 lt] n at[of n] by simp
  then have "last (sift_down lt n ys 0) = hd xs"
    using len assms(2) last_conv_nth[of "sift_down lt n ys 0"]
    by (metis Zero_not_Suc diff_Suc_1 hd_conv_nth list.size(3))
  moreover have "heap_from lt 0 n (butlast (sift_down lt n ys 0))"
    using heap len parent_less unfolding heap_from_def
    by (metis (no_types, lifting) One_nat_def diff_Suc_1 length_butlast less_trans nth_butlast)
  ultimately show ?thesis
    using False by (simp add: pop_heap_def ys_def n_def)
qed

end

section \<open>Comparisons that agree\<close>

text \<open>The sifting only compares elements at two places, so on distinct elements it depends on the
  order of distinct elements only.\<close>

lemma exchange_distinct [simp]:
  "i < length xs \<Longrightarrow> j < length xs \<Longrightarrow> distinct (exchange xs i j) = distinct xs"
  "i < length xs \<Longrightarrow> j < length xs \<Longrightarrow> set (exchange xs i j) = set xs"
  by (simp_all add: exchange_def)

lemma sift_up_agree:
  assumes "i < length xs" "distinct xs" "\<forall>a\<in>set xs. \<forall>b\<in>set xs. a \<noteq> b \<longrightarrow> lt a b = le a b"
  shows "sift_up lt xs i = sift_up le xs i"
  using assms
proof (induction lt xs i rule: sift_up.induct)
  case (1 lt xs i)
  show ?case
  proof (cases "0 < i")
    case True
    let ?p = "(i - 1) div 2"
    have p: "?p < i" using True by linarith
    then have "xs ! ?p \<noteq> xs ! i" using "1.prems" by (auto simp: nth_eq_iff_index_eq)
    then have "lt (xs ! ?p) (xs ! i) = le (xs ! ?p) (xs ! i)" using "1.prems" p by auto
    then show ?thesis
      using "1.IH" "1.prems" p True
      by (subst (1 2) sift_up.simps) (simp add: exchange_simps del: One_nat_def)
  qed (simp add: sift_up.simps)
qed

lemma sift_down_agree:
  assumes "n \<le> length xs" "distinct xs" "\<forall>a\<in>set xs. \<forall>b\<in>set xs. a \<noteq> b \<longrightarrow> lt a b = le a b"
  shows "sift_down lt n xs i = sift_down le n xs i"
  using assms
proof (induction "n - i" arbitrary: i xs rule: less_induct)
  case less
  show ?case
  proof (cases "2 * i + 1 < n")
    case True
    let ?c = "\<lambda>lt. if 2 * i + 2 < n \<and> lt (xs ! (2 * i + 1)) (xs ! (2 * i + 2)) then 2 * i + 2 else 2 * i + 1"
    have at: "lt (xs ! a) (xs ! b) = le (xs ! a) (xs ! b)" if "a \<noteq> b" "a < n" "b < n" for a b
      using that less.prems by (simp add: nth_eq_iff_index_eq)
    have c: "?c lt = ?c le" "i < ?c le" "?c le < n" using True at[of "2 * i + 1" "2 * i + 2"] by auto
    have cond: "lt (xs ! i) (xs ! ?c le) = le (xs ! i) (xs ! ?c le)" using at[of i "?c le"] c by simp
    have rest: "sift_down lt n (exchange xs i (?c le)) (?c le) = sift_down le n (exchange xs i (?c le)) (?c le)"
      using c less.prems by (intro less.hyps) (auto simp: exchange_simps)
    show ?thesis
      by (subst (1 2) sift_down.simps) (simp only: True if_True Let_def c(1) cond rest)
  qed (simp add: sift_down.simps)
qed

lemma push_heap_agree:
  assumes "distinct xs" "xs \<noteq> []" "\<forall>a\<in>set xs. \<forall>b\<in>set xs. a \<noteq> b \<longrightarrow> lt a b = le a b"
  shows "push_heap lt xs = push_heap le xs"
  using assms by (simp add: push_heap_def sift_up_agree)

lemma pop_heap_agree:
  assumes "distinct xs" "\<forall>a\<in>set xs. \<forall>b\<in>set xs. a \<noteq> b \<longrightarrow> lt a b = le a b"
  shows "pop_heap lt xs = pop_heap le xs"
proof (cases "length xs < 2")
  case False
  then have ends: "0 < length xs" "length xs - 1 < length xs" by auto
  show ?thesis
    unfolding pop_heap_def using assms ends
    by (simp add: exchange_simps sift_down_agree[of "length xs - 1"] del: One_nat_def)
qed (simp add: pop_heap_def)

lemma push_heap_mset [simp]: "xs \<noteq> [] \<Longrightarrow> mset (push_heap lt xs) = mset xs"
  by (simp add: push_heap_def)

lemma pop_heap_mset [simp]: "mset (pop_heap lt xs) = mset xs"
  by (cases xs) (auto simp: pop_heap_def exchange_simps)

lemma make_heap_mset [simp]: "mset (make_heap lt xs) = mset xs"
proof -
  have "length (foldl (sift_down lt n) ys is) = length ys \<and> mset (foldl (sift_down lt n) ys is) = mset ys"
    if "n \<le> length ys" for n ys "is"
    using that by (induction "is" arbitrary: ys) auto
  then show ?thesis unfolding make_heap_def by simp
qed

end
