(* ===== verification/Core_Queues.thy ===== *)
theory Core_Queues
  imports Binary_Heap "HOL-Library.Product_Lexorder"
begin

text \<open>
  The queues of \<open>core/\<close>: \<open>locked_queue.hpp\<close> as a system of threads that push, pop, wait on
  a condition variable and are woken, \<open>simple_locked_queue.hpp\<close> with its counting policy,
  \<open>stable_priority_queue\<close> of \<open>containers.hpp\<close> over a binary heap, the container
  algorithms of \<open>algorithms.hpp\<close>, and the latch and the spin mutex as shared counters.
\<close>

section \<open>algorithms.hpp\<close>

definition remove_erase :: "'a list \<Rightarrow> 'a \<Rightarrow> 'a list \<times> nat" where
  "remove_erase cont item =
     (let kept = filter (\<lambda>x. x \<noteq> item) cont in (kept, length cont - length kept))"

definition remove_erase_if :: "'a list \<Rightarrow> ('a \<Rightarrow> bool) \<Rightarrow> 'a list \<times> nat" where
  "remove_erase_if cont pred =
     (let kept = filter (\<lambda>x. \<not> pred x) cont in (kept, length cont - length kept))"

definition contains_item :: "'a list \<Rightarrow> 'a \<Rightarrow> bool" where
  "contains_item cont item = (find (\<lambda>x. x = item) cont \<noteq> None)"

definition contains_if :: "'a list \<Rightarrow> ('a \<Rightarrow> bool) \<Rightarrow> bool" where
  "contains_if cont pred = (find pred cont \<noteq> None)"

section \<open>common.hpp\<close>

definition ispow2 :: "u64 \<Rightarrow> bool" where
  "ispow2 value \<longleftrightarrow> value AND (value - 1) = 0"

text \<open>\<open>log2\<close> recurses until the value is one.\<close>

partial_function (option) log2_of :: "u64 \<Rightarrow> nat option" where
  "log2_of value =
     (if value = 1 then Some 0
      else Option.bind (log2_of (drop_bit 1 value)) (\<lambda>k. Some (k + 1)))"

section \<open>exclusive.hpp\<close>

definition cachewidth :: u64 where "cachewidth = 64"

definition cacheuse :: "u64 \<Rightarrow> u64 option" where
  "cacheuse size_of_type =
     Option.bind (log2_of cachewidth) (\<lambda>k. Some ((drop_bit k (size_of_type - 1) + 1) * cachewidth))"

section \<open>locked_queue\<close>

text \<open>
  Every operation runs under the mutex, so an operation is one step, and an operation that
  waits is two: it goes to sleep on the condition variable, and once woken it tries again.
  A step may find its predicate false and sleep again, and a sleeper may wake without a
  notification. The bound is \<open>bound\<close>, with zero for unbounded. \<open>pushed\<close> and \<open>popped\<close> record
  the history.
\<close>

record 'a locked_queue =
  queue :: "'a list"
  full_sleeping :: "'a list"
  full_woken :: "'a list"
  empty_sleeping :: nat
  empty_woken :: nat
  pushed :: "'a list"
  popped :: "'a list"

definition queue_new :: "'a locked_queue" where
  "queue_new = \<lparr>queue = [], full_sleeping = [], full_woken = [], empty_sleeping = 0, empty_woken = 0,
     pushed = [], popped = []\<rparr>"

definition is_bound :: "nat \<Rightarrow> bool" where
  "is_bound bound \<longleftrightarrow> bound > 0"

definition is_full :: "nat \<Rightarrow> 'a locked_queue \<Rightarrow> bool" where
  "is_full bound q \<longleftrightarrow> bound > 0 \<and> length (queue q) \<ge> bound"

definition is_empty :: "'a locked_queue \<Rightarrow> bool" where
  "is_empty q \<longleftrightarrow> queue q = []"

definition queue_empty :: "'a locked_queue \<Rightarrow> bool" where
  "queue_empty q \<longleftrightarrow> queue q = []"

definition queue_size :: "'a locked_queue \<Rightarrow> nat" where
  "queue_size q = length (queue q)"

text \<open>\<open>notify_one\<close> wakes one sleeper when there is one.\<close>

definition notify_empty :: "'a locked_queue \<Rightarrow> 'a locked_queue" where
  "notify_empty q = (if empty_sleeping q = 0 then q
     else q\<lparr>empty_sleeping := empty_sleeping q - 1, empty_woken := Suc (empty_woken q)\<rparr>)"

definition notify_full :: "'a locked_queue \<Rightarrow> 'a locked_queue" where
  "notify_full q = (case full_sleeping q of
       [] \<Rightarrow> q
     | x # xs \<Rightarrow> q\<lparr>full_sleeping := xs, full_woken := x # full_woken q\<rparr>)"

text \<open>The end of \<open>push\<close>, after the wait.\<close>

definition push_item :: "'a \<Rightarrow> 'a locked_queue \<Rightarrow> 'a locked_queue" where
  "push_item item q = notify_empty (q\<lparr>queue := queue q @ [item], pushed := pushed q @ [item]\<rparr>)"

definition take_front :: "'a locked_queue \<Rightarrow> 'a \<times> 'a locked_queue" where
  "take_front q = (hd (queue q), q\<lparr>queue := tl (queue q), popped := popped q @ [hd (queue q)]\<rparr>)"

text \<open>The end of \<open>pop\<close>, after the wait.\<close>

definition pop_item :: "nat \<Rightarrow> 'a locked_queue \<Rightarrow> 'a \<times> 'a locked_queue" where
  "pop_item bound q =
     (let (item, q') = take_front q in (item, if is_bound bound then notify_full q' else q'))"

definition push :: "nat \<Rightarrow> 'a \<Rightarrow> 'a locked_queue \<Rightarrow> 'a locked_queue" where
  "push bound item q =
     (if is_bound bound \<and> is_full bound q then q\<lparr>full_sleeping := full_sleeping q @ [item]\<rparr>
      else push_item item q)"

definition pop :: "nat \<Rightarrow> 'a locked_queue \<Rightarrow> 'a option \<times> 'a locked_queue" where
  "pop bound q =
     (if is_empty q then (None, q\<lparr>empty_sleeping := Suc (empty_sleeping q)\<rparr>)
      else (let (item, q') = pop_item bound q in (Some item, q')))"

definition try_push :: "nat \<Rightarrow> 'a \<Rightarrow> 'a locked_queue \<Rightarrow> bool \<times> 'a locked_queue" where
  "try_push bound item q =
     (if \<not> is_full bound q then (True, push_item item q) else (False, q))"

definition try_pop :: "nat \<Rightarrow> 'a locked_queue \<Rightarrow> 'a option \<times> 'a locked_queue" where
  "try_pop bound q =
     (if \<not> is_empty q then (let (item, q') = pop_item bound q in (Some item, q')) else (None, q))"

inductive queue_step :: "nat \<Rightarrow> 'a locked_queue \<Rightarrow> 'a locked_queue \<Rightarrow> bool" for bound where
  step_push: "queue_step bound q (push bound item q)"
| step_pop: "queue_step bound q (snd (pop bound q))"
| step_try_push: "queue_step bound q (snd (try_push bound item q))"
| step_try_pop: "queue_step bound q (snd (try_pop bound q))"
| step_push_again: "full_woken q = ws @ item # vs \<Longrightarrow>
    queue_step bound q (push bound item (q\<lparr>full_woken := ws @ vs\<rparr>))"
| step_pop_again: "empty_woken q = Suc w \<Longrightarrow>
    queue_step bound q (snd (pop bound (q\<lparr>empty_woken := w\<rparr>)))"
| step_spurious_push: "full_sleeping q = ws @ item # vs \<Longrightarrow>
    queue_step bound q (q\<lparr>full_sleeping := ws @ vs, full_woken := item # full_woken q\<rparr>)"
| step_spurious_pop: "empty_sleeping q = Suc w \<Longrightarrow>
    queue_step bound q (q\<lparr>empty_sleeping := w, empty_woken := Suc (empty_woken q)\<rparr>)"

inductive queue_reachable :: "nat \<Rightarrow> 'a locked_queue \<Rightarrow> bool" for bound where
  reachable_new: "queue_reachable bound queue_new"
| reachable_step: "queue_reachable bound q \<Longrightarrow> queue_step bound q q' \<Longrightarrow> queue_reachable bound q'"

inductive_cases queue_stepE: "queue_step bound q q'"

section \<open>simple_locked_queue\<close>

text \<open>The counter of the policy \<open>Counted\<close> is shared with its owner; the policy \<open>Empty\<close> keeps none.\<close>

record 'a simple_queue =
  container :: "'a list"
  counter :: int

datatype queue_policy = Policy_empty | Policy_counted

definition on_push :: "queue_policy \<Rightarrow> int \<Rightarrow> int" where
  "on_push p c = (case p of Policy_empty \<Rightarrow> c | Policy_counted \<Rightarrow> c + 1)"

definition on_pop :: "queue_policy \<Rightarrow> int \<Rightarrow> int" where
  "on_pop p c = (case p of Policy_empty \<Rightarrow> c | Policy_counted \<Rightarrow> c - 1)"

definition simple_push :: "queue_policy \<Rightarrow> 'a \<Rightarrow> 'a simple_queue \<Rightarrow> 'a simple_queue" where
  "simple_push p item q = q\<lparr>container := container q @ [item], counter := on_push p (counter q)\<rparr>"

definition simple_try_pop_if ::
    "queue_policy \<Rightarrow> ('a \<Rightarrow> bool) \<Rightarrow> 'a simple_queue \<Rightarrow> 'a option \<times> 'a simple_queue" where
  "simple_try_pop_if p pred q =
     (if container q \<noteq> [] \<and> pred (hd (container q))
      then (Some (hd (container q)), q\<lparr>container := tl (container q), counter := on_pop p (counter q)\<rparr>)
      else (None, q))"

definition simple_try_pop :: "queue_policy \<Rightarrow> 'a simple_queue \<Rightarrow> 'a option \<times> 'a simple_queue" where
  "simple_try_pop p q = simple_try_pop_if p (\<lambda>_. True) q"

definition simple_filter :: "('a \<Rightarrow> bool) \<Rightarrow> 'a simple_queue \<Rightarrow> nat \<times> 'a simple_queue" where
  "simple_filter pred q =
     (let (kept, n) = remove_erase_if (container q) pred in (n, q\<lparr>container := kept\<rparr>))"

text \<open>The accumulated value is returned as a \<open>size_t\<close>.\<close>

definition simple_accumulate :: "int \<Rightarrow> (int \<Rightarrow> 'a \<Rightarrow> int) \<Rightarrow> 'a simple_queue \<Rightarrow> u64" where
  "simple_accumulate init oper q = of_int (foldl oper init (container q))"

definition simple_clear :: "'a simple_queue \<Rightarrow> 'a simple_queue" where
  "simple_clear q = q\<lparr>container := []\<rparr>"

definition simple_size :: "'a simple_queue \<Rightarrow> nat" where
  "simple_size q = length (container q)"

section \<open>stable_priority_queue\<close>

record 'a priority_queue =
  heap :: "('a \<times> u64) list"
  seq_number :: u64

definition stable_compare :: "('a \<Rightarrow> 'a \<Rightarrow> bool) \<Rightarrow> 'a \<times> u64 \<Rightarrow> 'a \<times> u64 \<Rightarrow> bool" where
  "stable_compare compare a b \<longleftrightarrow>
     compare (fst a) (fst b) \<or> \<not> compare (fst b) (fst a) \<and> \<not> snd a < snd b"

definition priority_new :: "'a priority_queue" where
  "priority_new = \<lparr>heap = [], seq_number = 0\<rparr>"

definition priority_empty :: "'a priority_queue \<Rightarrow> bool" where
  "priority_empty q \<longleftrightarrow> heap q = []"

definition priority_size :: "'a priority_queue \<Rightarrow> nat" where
  "priority_size q = length (heap q)"

text \<open>\<open>front\<close> of an empty vector is not defined.\<close>

definition priority_top :: "'a priority_queue \<Rightarrow> 'a outcome" where
  "priority_top q = (case heap q of [] \<Rightarrow> Inl Undefined | x # xs \<Rightarrow> Inr (fst x))"

definition priority_push ::
    "bool \<Rightarrow> ('a \<Rightarrow> 'a \<Rightarrow> bool) \<Rightarrow> 'a \<Rightarrow> 'a priority_queue \<Rightarrow> 'a priority_queue outcome" where
  "priority_push debug compare v q =
     (let q' = q\<lparr>heap := push_heap (stable_compare compare) (heap q @ [(v, seq_number q)]),
        seq_number := seq_number q + 1\<rparr>
      in and_then (assertf debug (seq_number q' \<noteq> 0)) (\<lambda>_. Inr q'))"

definition priority_pop :: "('a \<Rightarrow> 'a \<Rightarrow> bool) \<Rightarrow> 'a priority_queue \<Rightarrow> 'a priority_queue outcome" where
  "priority_pop compare q =
     (if heap q = [] then Inl Undefined
      else Inr (q\<lparr>heap := butlast (pop_heap (stable_compare compare) (heap q))\<rparr>))"

definition priority_erase ::
    "('a \<Rightarrow> 'a \<Rightarrow> bool) \<Rightarrow> nat \<Rightarrow> 'a priority_queue \<Rightarrow> 'a priority_queue outcome" where
  "priority_erase compare i q =
     (if i < length (heap q)
      then Inr (q\<lparr>heap := make_heap (stable_compare compare) (take i (heap q) @ drop (Suc i) (heap q))\<rparr>)
      else Inl Undefined)"

definition priority_erase_range ::
    "('a \<Rightarrow> 'a \<Rightarrow> bool) \<Rightarrow> nat \<Rightarrow> nat \<Rightarrow> 'a priority_queue \<Rightarrow> 'a priority_queue outcome" where
  "priority_erase_range compare i j q =
     (if i \<le> j \<and> j \<le> length (heap q)
      then Inr (q\<lparr>heap := make_heap (stable_compare compare) (take i (heap q) @ drop j (heap q))\<rparr>)
      else Inl Undefined)"

definition priority_clear :: "'a priority_queue \<Rightarrow> 'a priority_queue" where
  "priority_clear q = q\<lparr>heap := []\<rparr>"

definition priority_swap ::
    "'a priority_queue \<Rightarrow> 'a priority_queue \<Rightarrow> 'a priority_queue \<times> 'a priority_queue" where
  "priority_swap this that =
     (this\<lparr>heap := heap that, seq_number := seq_number that\<rparr>,
      that\<lparr>heap := heap this, seq_number := seq_number this\<rparr>)"

section \<open>latch and spin_mutex\<close>

record latch_state =
  latch_count :: u64
  latch_limit :: u64

definition latch_new :: "u64 \<Rightarrow> latch_state" where
  "latch_new n = \<lparr>latch_count = 0, latch_limit = n\<rparr>"

definition latch_open :: "latch_state \<Rightarrow> bool" where
  "latch_open l \<longleftrightarrow> latch_count l \<ge> latch_limit l"

definition latch_ready :: "latch_state \<Rightarrow> u64 \<times> latch_state" where
  "latch_ready l = (latch_count l, l\<lparr>latch_count := latch_count l + 1\<rparr>)"

definition latch_reset :: "latch_state \<Rightarrow> latch_state" where
  "latch_reset l = l\<lparr>latch_count := 0\<rparr>"

text \<open>One iteration of the loop of \<open>await\<close>: \<open>True\<close> when it leaves.\<close>

definition latch_await_once :: "latch_state \<Rightarrow> bool" where
  "latch_await_once l \<longleftrightarrow> \<not> latch_count l < latch_limit l"

text \<open>One iteration of the loop of \<open>lock\<close>: the exchange stores \<open>true\<close> and the loop leaves when the
  old value was \<open>false\<close>.\<close>

definition spin_try :: "bool \<Rightarrow> bool \<times> bool" where
  "spin_try locked = (\<not> locked, True)"

definition spin_unlock :: "bool \<Rightarrow> bool" where
  "spin_unlock locked = False"

section \<open>Lemmas on the locked queue\<close>

definition queue_inv :: "nat \<Rightarrow> 'a locked_queue \<Rightarrow> bool" where
  "queue_inv bound q \<longleftrightarrow> pushed q = popped q @ queue q \<and>
     (0 < bound \<longrightarrow> length (queue q) \<le> bound) \<and>
     (full_sleeping q \<noteq> [] \<longrightarrow> 0 < bound \<and> bound - length (queue q) \<le> length (full_woken q)) \<and>
     (0 < empty_sleeping q \<longrightarrow> length (queue q) \<le> empty_woken q)"

lemma queue_inv_new: "queue_inv bound queue_new"
  by (simp add: queue_inv_def queue_new_def)

lemma push_item_inv:
  assumes "queue_inv bound q" "\<not> is_full bound q"
  shows "queue_inv bound (push_item item q)"
  using assms by (auto simp: queue_inv_def push_item_def notify_empty_def is_full_def)

lemma pop_item_inv:
  assumes "queue_inv bound q" "queue q \<noteq> []"
  shows "queue_inv bound (snd (pop_item bound q))"
  using assms
  by (auto simp: queue_inv_def pop_item_def take_front_def notify_full_def is_bound_def
      neq_Nil_conv split: list.split prod.split)

lemma push_inv: "queue_inv bound q \<Longrightarrow> queue_inv bound (push bound item q)"
  using push_item_inv[of bound q item]
  by (auto simp: push_def is_bound_def is_full_def) (auto simp: queue_inv_def)

lemma pop_inv: "queue_inv bound q \<Longrightarrow> queue_inv bound (snd (pop bound q))"
  using pop_item_inv[of bound q]
  by (auto simp: pop_def is_empty_def Let_def split: prod.split) (auto simp: queue_inv_def)

text \<open>A woken thread counts until it has run: taking it away keeps what its step needs.\<close>

lemma push_again_inv:
  assumes "queue_inv bound q" "full_woken q = ws @ item # vs"
  shows "queue_inv bound (push bound item (q\<lparr>full_woken := ws @ vs\<rparr>))"
  using assms
  by (auto simp: queue_inv_def push_def push_item_def notify_empty_def is_bound_def is_full_def)

lemma pop_again_inv:
  assumes "queue_inv bound q" "empty_woken q = Suc w"
  shows "queue_inv bound (snd (pop bound (q\<lparr>empty_woken := w\<rparr>)))"
  using assms
  by (auto simp: queue_inv_def pop_def pop_item_def take_front_def notify_full_def is_bound_def
      is_empty_def neq_Nil_conv Let_def split: list.split prod.split)

lemma queue_step_inv:
  assumes "queue_step bound q q'" "queue_inv bound q"
  shows "queue_inv bound q'"
  using assms
proof (induction rule: queue_step.induct)
  case (step_try_push q item)
  then show ?case using push_item_inv by (auto simp: try_push_def)
next
  case (step_try_pop q)
  then show ?case using pop_item_inv[of bound q]
    by (auto simp: try_pop_def is_empty_def Let_def split: prod.split)
next
  case (step_spurious_push q ws item vs)
  then show ?case by (auto simp: queue_inv_def)
next
  case (step_spurious_pop q w)
  then show ?case by (auto simp: queue_inv_def)
next
  case (step_push q item)
  then show ?case by (rule push_inv)
next
  case (step_pop q)
  then show ?case by (rule pop_inv)
next
  case (step_push_again q ws item vs)
  then show ?case using push_again_inv by metis
next
  case (step_pop_again q w)
  then show ?case using pop_again_inv by metis
qed

lemma queue_reachable_inv: "queue_reachable bound q \<Longrightarrow> queue_inv bound q"
  by (induction rule: queue_reachable.induct) (auto intro: queue_inv_new queue_step_inv)

section \<open>The priority queue over its order\<close>

text \<open>The order of the queue: by descending key, then by ascending sequence number.\<close>

definition rank :: "('a \<Rightarrow> int) \<Rightarrow> 'a \<times> u64 \<Rightarrow> int \<times> nat" where
  "rank key e = (- key (fst e), unat (snd e))"

definition lower :: "('a \<Rightarrow> int) \<Rightarrow> 'a \<times> u64 \<Rightarrow> 'a \<times> u64 \<Rightarrow> bool" where
  "lower key a b \<longleftrightarrow> rank key b < rank key a"

interpretation ranked: strict_weak_order "lower key" for key :: "'a \<Rightarrow> int"
  by unfold_locales (auto simp: lower_def)

definition by_key :: "('a \<Rightarrow> int) \<Rightarrow> 'a \<Rightarrow> 'a \<Rightarrow> bool" where
  "by_key key a b \<longleftrightarrow> key a < key b"

lemma stable_compare_lower:
  "snd a \<noteq> snd b \<Longrightarrow> stable_compare (by_key key) a b = lower key a b"
  by (auto simp: stable_compare_def by_key_def lower_def rank_def word_less_nat_alt
      less_prod_def unat_arith_simps)

definition priority_inv :: "('a \<Rightarrow> int) \<Rightarrow> 'a priority_queue \<Rightarrow> bool" where
  "priority_inv key q \<longleftrightarrow> heap_from (lower key) 0 (length (heap q)) (heap q) \<and>
     distinct (map snd (heap q)) \<and> (\<forall>e\<in>set (heap q). snd e < seq_number q)"

lemma distinct_snd_agree:
  assumes "distinct (map snd xs)"
  shows "distinct xs" "\<forall>a\<in>set xs. \<forall>b\<in>set xs. a \<noteq> b \<longrightarrow> stable_compare (by_key key) a b = lower key a b"
proof -
  show "distinct xs" using assms by (simp add: distinct_map)
  show "\<forall>a\<in>set xs. \<forall>b\<in>set xs. a \<noteq> b \<longrightarrow> stable_compare (by_key key) a b = lower key a b"
    using assms stable_compare_lower by (metis distinct_map inj_onD)
qed

text \<open>One entry taken after another.\<close>

fun priority_drain :: "('a \<Rightarrow> 'a \<Rightarrow> bool) \<Rightarrow> nat \<Rightarrow> 'a priority_queue \<Rightarrow> 'a list outcome" where
  "priority_drain compare 0 q = Inr []"
| "priority_drain compare (Suc n) q =
     (if priority_empty q then Inr []
      else and_then (priority_top q) (\<lambda>v. and_then (priority_pop compare q) (\<lambda>q'.
        and_then (priority_drain compare n q') (\<lambda>vs. Inr (v # vs)))))"

definition priority_pushes ::
    "bool \<Rightarrow> ('a \<Rightarrow> 'a \<Rightarrow> bool) \<Rightarrow> 'a list \<Rightarrow> 'a priority_queue \<Rightarrow> 'a priority_queue outcome" where
  "priority_pushes debug compare vs q =
     foldl (\<lambda>r v. and_then r (priority_push debug compare v)) (Inr q) vs"

lemma word_succ_less: "x \<noteq> - 1 \<Longrightarrow> x < x + 1" for x :: u64
  using inc_less_eq_self_iff_eq[of x] by (simp add: not_le)

lemma priority_push_ok:
  assumes "priority_inv key q" "seq_number q \<noteq> - 1"
  shows "\<exists>q'. priority_push debug (by_key key) v q = Inr q' \<and> priority_inv key q' \<and>
    seq_number q' = seq_number q + 1 \<and> mset (heap q') = add_mset (v, seq_number q) (mset (heap q))"
proof -
  let ?xs = "heap q @ [(v, seq_number q)]"
  let ?ys = "push_heap (stable_compare (by_key key)) ?xs"
  have d: "distinct (map snd ?xs)" using assms by (auto simp: priority_inv_def)
  have agree: "?ys = push_heap (lower key) ?xs"
    by (rule push_heap_agree) (use distinct_snd_agree[OF d] in auto)
  have m: "mset ?ys = mset ?xs" by simp
  then have s: "set ?ys = set ?xs" "length ?ys = length ?xs" by (metis set_mset_mset) (metis m size_mset)
  have next_le: "seq_number q < seq_number q + 1"
    using assms(2) by (simp add: word_succ_less)
  have "\<forall>e\<in>set ?ys. snd e < seq_number q + 1"
    using assms next_le s by (force simp: priority_inv_def)
  moreover have "distinct (map snd ?ys)"
    using d m by (metis mset_map distinct_count_atmost_1 set_mset_mset mset_eq_imp_distinct_iff)
  moreover have "heap_from (lower key) 0 (length ?ys) ?ys"
    using ranked.push_heap_heap[of key "heap q"] assms s agree by (simp add: priority_inv_def)
  moreover have "seq_number q + 1 \<noteq> 0" using next_le by auto
  ultimately show ?thesis
    by (auto simp: priority_push_def priority_inv_def assertf_def Let_def)
qed

lemma rank_inj: "distinct (map snd xs) \<Longrightarrow> inj_on (rank key) (set xs)"
  by (metis (mono_tags, lifting) distinct_map inj_on_def rank_def snd_conv unsigned_word_eqI)

lemma priority_pop_ok:
  assumes "priority_inv key q" "heap q \<noteq> []"
  shows "\<exists>q'. priority_pop (by_key key) q = Inr q' \<and> priority_inv key q' \<and>
    seq_number q' = seq_number q \<and> mset (heap q) = add_mset (hd (heap q)) (mset (heap q')) \<and>
    (\<forall>e\<in>set (heap q). rank key (hd (heap q)) \<le> rank key e)"
proof -
  let ?ys = "pop_heap (stable_compare (by_key key)) (heap q)"
  have d: "distinct (map snd (heap q))" using assms by (simp add: priority_inv_def)
  have agree: "?ys = pop_heap (lower key) (heap q)"
    by (rule pop_heap_agree) (use distinct_snd_agree[OF d] in auto)
  have h: "heap_from (lower key) 0 (length (heap q)) (heap q)"
    using assms by (simp add: priority_inv_def)
  have len: "length ?ys = length (heap q)" by (metis pop_heap_mset size_mset)
  have ne: "?ys \<noteq> []" using len assms(2) by auto
  have post: "heap_from (lower key) 0 (length (heap q) - 1) (butlast ?ys)" "last ?ys = hd (heap q)"
    using ranked.pop_heap_heap[OF h assms(2)] agree by auto
  have split: "?ys = butlast ?ys @ [hd (heap q)]"
    using ne post(2) append_butlast_last_id[OF ne] by simp
  have m: "mset (heap q) = add_mset (hd (heap q)) (mset (butlast ?ys))"
    by (metis pop_heap_mset split mset.simps(1,2) mset_append union_mset_add_mset_right add.right_neutral)
  have "distinct (map snd ?ys)" "set ?ys = set (heap q)"
    using d pop_heap_mset by (metis mset_map mset_eq_imp_distinct_iff, metis pop_heap_mset set_mset_mset)
  then have "distinct (map snd (butlast ?ys))" "set (butlast ?ys) \<subseteq> set (heap q)"
    by (auto simp: map_butlast distinct_butlast dest: in_set_butlastD)
  moreover have "rank key (hd (heap q)) \<le> rank key e" if e: "e \<in> set (heap q)" for e
  proof -
    obtain j where "j < length (heap q)" "e = heap q ! j" using e by (auto simp: in_set_conv_nth)
    then show ?thesis
      using ranked.heap_top[OF h] assms(2) by (auto simp: lower_def not_less hd_conv_nth)
  qed
  ultimately show ?thesis
    using assms post(1) len m by (auto simp: priority_pop_def priority_inv_def)
qed

lemma priority_drain_sorts:
  assumes "priority_inv key q" "length (heap q) \<le> n"
  shows "priority_drain (by_key key) n q = Inr (map fst (sort_key (rank key) (heap q)))"
  using assms
proof (induction n arbitrary: q)
  case (Suc n)
  show ?case
  proof (cases "heap q = []")
    case False
    then obtain q' where q': "priority_pop (by_key key) q = Inr q'" "priority_inv key q'"
      "mset (heap q) = add_mset (hd (heap q)) (mset (heap q'))"
      "\<forall>e\<in>set (heap q). rank key (hd (heap q)) \<le> rank key e"
      using priority_pop_ok[OF Suc.prems(1)] by blast
    have len: "length (heap q) = Suc (length (heap q'))" using q'(3) by (metis size_add_mset size_mset)
    have sub: "set (heap q') \<subseteq> set (heap q)" using q'(3) by (metis set_mset_add_mset_insert set_mset_mset subset_insertI)
    have "sort_key (rank key) (heap q) = hd (heap q) # sort_key (rank key) (heap q')"
      by (rule sort_key_inj_key_eq)
        (use q' sub Suc.prems rank_inj in \<open>auto simp: priority_inv_def\<close>)
    moreover have "priority_top q = Inr (fst (hd (heap q)))"
      using False by (auto simp: priority_top_def split: list.split)
    moreover have "priority_drain (by_key key) n q' = Inr (map fst (sort_key (rank key) (heap q')))"
      using Suc.IH[OF q'(2)] Suc.prems(2) len by simp
    ultimately show ?thesis using False q'(1) by (simp add: priority_empty_def)
  qed (simp add: priority_empty_def)
qed simp

lemma rank_sort_stable:
  assumes "length ss = length vs" "sorted_wrt (<) ss"
  shows "map fst (sort_key (rank key) (zip vs ss)) = sort_key (\<lambda>v. - key v) vs"
  using assms
proof (induction ss vs rule: list_induct2)
  case (Cons s ss v vs)
  have "map fst (insort_key (rank key) (v, s) zs) = insort_key (\<lambda>v. - key v) v (map fst zs)"
    if "\<forall>e\<in>set zs. s < snd e" for zs
    using that
    by (induction zs) (auto simp: rank_def less_eq_prod_def word_less_nat_alt)
  moreover have "\<forall>e\<in>set (sort_key (rank key) (zip vs ss)). s < snd e"
    using Cons.prems by (auto dest: set_zip_rightD)
  ultimately show ?case using Cons by simp
qed simp

lemma priority_pushes_ok:
  assumes "length vs < 2 ^ 64"
  shows "\<exists>q. priority_pushes debug (by_key key) vs priority_new = Inr q \<and> priority_inv key q \<and>
    seq_number q = of_nat (length vs) \<and> mset (heap q) = mset (zip vs (map of_nat [0..<length vs]))"
  using assms
proof (induction vs rule: rev_induct)
  case Nil
  then show ?case
    by (simp add: priority_pushes_def priority_inv_def priority_new_def heap_from_def)
next
  case (snoc v vs)
  then obtain q where q: "priority_pushes debug (by_key key) vs priority_new = Inr q" "priority_inv key q"
    "seq_number q = of_nat (length vs)" "mset (heap q) = mset (zip vs (map of_nat [0..<length vs]))"
    by auto
  have "unat (seq_number q) = length vs"
    using snoc.prems q(3) by (simp add: unat_of_nat take_bit_nat_eq_self)
  then have "seq_number q \<noteq> - 1"
    using snoc.prems by (auto simp: unsigned_minus_1_eq_mask mask_eq_exp_minus_1)
  from priority_push_ok[OF q(2) this, of debug v] obtain q' where
    "priority_push debug (by_key key) v q = Inr q'" "priority_inv key q'"
    "seq_number q' = seq_number q + 1" "mset (heap q') = add_mset (v, seq_number q) (mset (heap q))"
    by blast
  then show ?case using q by (simp add: priority_pushes_def add.commute)
qed

section \<open>Lemmas on the bit helpers\<close>

lemma log2_of_nonzero: "log2_of value = Some k \<Longrightarrow> value \<noteq> 0"
proof (rule log2_of.raw_induct[where P = "\<lambda>value k. value \<noteq> 0"])
  fix f and v :: u64 and y
  assume IH: "\<And>v y. f v = Some y \<Longrightarrow> v \<noteq> 0"
    and eq: "(if v = 1 then Some 0 else Option.bind (f (drop_bit 1 v)) (\<lambda>k. Some (k + 1))) = Some y"
  show "v \<noteq> 0"
  proof
    assume v: "v = 0"
    then have "f 0 \<noteq> None" using eq by (cases "f 0") auto
    then show False using IH[of 0] by auto
  qed
qed

lemma log2_of_some:
  assumes "value \<noteq> 0"
  shows "\<exists>k. log2_of value = Some k \<and> 2 ^ k \<le> unat value \<and> unat value < 2 ^ (k + 1)"
  using assms
proof (induction "unat value" arbitrary: "value" rule: less_induct)
  case less
  have pos: "0 < unat value" using less.prems by (simp add: unat_gt_0)
  show ?case
  proof (cases "value = 1")
    case True
    then show ?thesis by (simp add: log2_of.simps[of 1])
  next
    case False
    then have "1 < unat value" using pos by (metis One_nat_def Suc_lessI unsigned_1 unsigned_word_eqI)
    moreover have half: "unat (drop_bit 1 value) = unat value div 2"
      unfolding unsigned_drop_bit_eq by (simp add: drop_bit_eq_div take_bit_nat_eq_self unsigned_less[where 'b = 64, simplified])
    ultimately have "unat (drop_bit 1 value) < unat value" "drop_bit 1 value \<noteq> 0"
      by (auto simp: unat_eq_zero[symmetric] simp del: unat_eq_zero)
    from less.hyps[OF this] obtain k where
      k: "log2_of (drop_bit 1 value) = Some k" "2 ^ k \<le> unat value div 2" "unat value div 2 < 2 ^ (k + 1)"
      using half by auto
    have "log2_of value = Some (k + 1)" using False k(1) by (subst log2_of.simps) simp
    moreover have "2 ^ (k + 1) \<le> unat value" "unat value < 2 ^ (k + 1 + 1)" using k(2,3) by auto
    ultimately show ?thesis by blast
  qed
qed

lemma log2_of_64: "log2_of 64 = Some 6"
  by (simp add: log2_of.simps)

section \<open>Properties\<close>

text \<open>C36: In every state that the threads of a \<open>locked_queue\<close> reach, by pushing, popping, waiting,
  being woken with or without a notification and trying again, what was pushed is what was popped
  followed by what is queued, a bounded queue never exceeds its bound, and no wake-up is lost: when
  a pusher sleeps and none has been woken, the queue is full, and when a popper sleeps and none
  has been woken, the queue is empty.\<close>

theorem locked_queue_fifo:
  assumes "queue_reachable bound q"
  shows "pushed q = popped q @ queue q \<and>
    (is_bound bound \<longrightarrow> length (queue q) \<le> bound) \<and>
    (full_sleeping q \<noteq> [] \<and> full_woken q = [] \<longrightarrow> is_bound bound \<and> is_full bound q) \<and>
    (empty_sleeping q > 0 \<and> empty_woken q = 0 \<longrightarrow> is_empty q)"
  using queue_reachable_inv[OF assms]
  by (auto simp: queue_inv_def is_bound_def is_full_def is_empty_def)

theorem locked_queue_fifo_witness:
  defines "q \<equiv> snd (pop 1 (push 1 6 (push 1 (5 :: int) queue_new)))"
  shows "pushed q = popped q @ queue q \<and> length (queue q) \<le> 1 \<and> full_woken q = [6] \<and> popped q = [5]"
proof -
  have "queue_reachable 1 q"
    unfolding q_def by (intro reachable_step[OF _ step_pop] reachable_step[OF _ step_push] reachable_new)
  from locked_queue_fifo[OF this] show ?thesis
    by (simp add: is_bound_def)
      (simp add: q_def pop_def push_def queue_new_def is_empty_def push_item_def notify_empty_def
        is_full_def is_bound_def pop_item_def take_front_def notify_full_def)
qed

text \<open>C37: After any values are pushed on a new \<open>stable_priority_queue\<close> that compares them by a
  key, no assertion fails, and taking the top entry until the queue is empty gives the values by
  descending key, those of equal keys in the order of their pushes.\<close>

theorem priority_queue_stable:
  assumes "length vs < 2 ^ 64"
  shows "and_then (priority_pushes debug (by_key key) vs priority_new)
      (\<lambda>q. priority_drain (by_key key) (length vs) q) = Inr (sort_key (\<lambda>v. - key v) vs)"
proof -
  obtain q where q: "priority_pushes debug (by_key key) vs priority_new = Inr q" "priority_inv key q"
    "mset (heap q) = mset (zip vs (map of_nat [0..<length vs]))"
    using priority_pushes_ok[OF assms] by blast
  let ?ss = "map of_nat [0..<length vs] :: u64 list"
  have u: "unat (of_nat i :: u64) = i" if "i < length vs" for i
    using that assms by (simp add: unat_of_nat take_bit_nat_eq_self)
  have sorted: "sorted_wrt (<) ?ss"
    using u by (auto simp: sorted_wrt_iff_nth_less word_less_nat_alt)
  have len: "length (heap q) = length vs" using arg_cong[OF q(3), of size] by simp
  have "distinct (map snd (zip vs ?ss))"
    using sorted strict_sorted_iff[of ?ss] by (simp del: map_map)
  then have "inj_on (rank key) (set (heap q))"
    using rank_inj q(3) by (metis set_mset_mset)
  then have "sort_key (rank key) (heap q) = sort_key (rank key) (zip vs ?ss)"
    by (intro sort_key_inj_key_eq) (auto simp: q(3))
  moreover have "map fst (sort_key (rank key) (zip vs ?ss)) = sort_key (\<lambda>v. - key v) vs"
    using sorted by (intro rank_sort_stable) simp_all
  ultimately show ?thesis
    using priority_drain_sorts[OF q(2), of "length vs"] q(1) len by simp
qed

theorem priority_queue_stable_witness:
  "and_then (priority_pushes True (by_key (\<lambda>v. v div 10)) [11, 25, 12, 20] priority_new)
     (priority_drain (by_key (\<lambda>v. v div 10)) 4) = Inr [25, 20, 11, 12 :: int]"
proof -
  have "length [11, 25, 12, 20 :: int] = 4"
    "sort_key (\<lambda>v. - (v div 10)) [11, 25, 12, 20] = [25, 20, 11, 12 :: int]"
    and small: "(4 :: nat) < 2 ^ 64 \<longleftrightarrow> True" by simp_all
  then show ?thesis
    using priority_queue_stable[of "[11, 25, 12, 20]" True "\<lambda>v. v div 10"] by (simp only: small)
qed

text \<open>The comparison of \<open>stable_priority_queue\<close> says of an entry that it is ranked below
  itself, so it is not a strict order as the heap functions ask; two different sequence
  numbers keep it from mattering.\<close>

theorem stable_compare_reflexive:
  "\<not> compare (fst e) (fst e) \<Longrightarrow> stable_compare compare e e"
  by (simp add: stable_compare_def)

theorem stable_compare_reflexive_witness: "stable_compare (\<lambda>a b. a < (b :: int)) (3, 0) (3, 0)"
  using stable_compare_reflexive[of "\<lambda>a b. a < (b :: int)" "(3, 0)"] by simp

text \<open>The counter of a counted \<open>simple_locked_queue\<close> follows its size through \<open>push\<close> and
  \<open>try_pop\<close>, but \<open>filter\<close> and \<open>clear\<close> drop elements without telling the policy: it stays ahead by the
  number dropped.\<close>

theorem counted_queue_drifts:
  assumes "counter q = int (length (container q))"
  shows "counter (simple_push Policy_counted item q) = int (simple_size (simple_push Policy_counted item q)) \<and>
    counter (snd (simple_try_pop_if Policy_counted pred q)) =
      int (simple_size (snd (simple_try_pop_if Policy_counted pred q))) \<and>
    counter (snd (simple_filter pred q)) =
      int (simple_size (snd (simple_filter pred q))) + int (fst (simple_filter pred q)) \<and>
    counter (simple_clear q) = int (simple_size (simple_clear q)) + int (simple_size q)"
  using assms length_filter_le[of "\<lambda>x. \<not> pred x" "container q"]
  by (auto simp: simple_push_def simple_size_def on_push_def simple_try_pop_if_def on_pop_def
      simple_filter_def remove_erase_if_def simple_clear_def Let_def Suc_leI)

theorem counted_queue_drifts_witness:
  "counter (simple_clear \<lparr>container = [7 :: int, 8], counter = 2\<rparr>) = 2 \<and>
   simple_size (simple_clear \<lparr>container = [7 :: int, 8], counter = 2\<rparr>) = 0"
  using counted_queue_drifts[of "\<lparr>container = [7 :: int, 8], counter = 2\<rparr>" 9 "\<lambda>_. True"]
  by (simp add: simple_size_def simple_clear_def)

text \<open>\<open>log2\<close> is the floor of the binary logarithm for every positive value, and does not
  return for zero; the multiple of 64 that \<open>cacheuse\<close> gives covers the size.\<close>

theorem log2_of_floor:
  "(case log2_of value of
      Some k \<Rightarrow> 2 ^ k \<le> unat value \<and> unat value < 2 ^ (k + 1)
    | None \<Rightarrow> value = 0) \<and> log2_of 0 = None"
proof -
  have "log2_of 0 = None" using log2_of_nonzero[of 0] by (cases "log2_of 0") auto
  then show ?thesis using log2_of_some[of "value"] by (cases "value = 0") auto
qed

end
