(* ===== verification/Ceres_Stream.thy ===== *)
theory Ceres_Stream
  imports Ceres_Memory Ceres_Endian
begin

text \<open>
  The streams of \<open>ceres/src/core/stream.hpp\<close> over typed elements, bytes and bits, with the
  mappings of \<open>ceres/src/data/map.hpp\<close> that move a scalar to and from a buffer, as the policies
  of \<open>ceres/src/policy/data/mapper.hpp\<close> call them. \<open>debug\<close> says whether \<open>ASSERTF\<close> checks.
\<close>

section \<open>Mappings between scalars and byte buffers\<close>

fun sizeof_scalar :: "scalar \<Rightarrow> u64" where
  "sizeof_scalar (Uint8 v) = 1" | "sizeof_scalar (Uint16 v) = 2"
| "sizeof_scalar (Uint32 v) = 4" | "sizeof_scalar (Uint64 v) = 8"
| "sizeof_scalar (Int8 v) = 1" | "sizeof_scalar (Int16 v) = 2"
| "sizeof_scalar (Int32 v) = 4" | "sizeof_scalar (Int64 v) = 8"
| "sizeof_scalar (Float v) = 4" | "sizeof_scalar (Double v) = 8"

text \<open>A value of the type of the first argument out of an object representation.\<close>

fun read_scalar :: "scalar \<Rightarrow> u8 list \<Rightarrow> scalar" where
  "read_scalar (Uint8 v) bs = Uint8 (of_le_bytes bs)"
| "read_scalar (Uint16 v) bs = Uint16 (of_le_bytes bs)"
| "read_scalar (Uint32 v) bs = Uint32 (of_le_bytes bs)"
| "read_scalar (Uint64 v) bs = Uint64 (of_le_bytes bs)"
| "read_scalar (Int8 v) bs = Int8 (of_le_bytes bs)"
| "read_scalar (Int16 v) bs = Int16 (of_le_bytes bs)"
| "read_scalar (Int32 v) bs = Int32 (of_le_bytes bs)"
| "read_scalar (Int64 v) bs = Int64 (of_le_bytes bs)"
| "read_scalar (Float v) bs = Float (of_le_bytes bs)"
| "read_scalar (Double v) bs = Double (of_le_bytes bs)"

text \<open>The storage is the object that a stream's buffer spans: the byte at the buffer's first
  address is its first. A store or a load that leaves the object is out of bounds.\<close>

record storage =
  origin :: u64
  cells :: "u8 list"

definition store_object :: "storage \<Rightarrow> u64 \<Rightarrow> u8 list \<Rightarrow> storage outcome" where
  "store_object st p bs =
     (let i = unat (p - origin st)
      in if i + length bs \<le> length (cells st)
         then Inr (st\<lparr>cells := take i (cells st) @ bs @ drop (i + length bs) (cells st)\<rparr>)
         else Inl Out_of_bounds)"

definition load_object :: "storage \<Rightarrow> u64 \<Rightarrow> nat \<Rightarrow> u8 list outcome" where
  "load_object st p n =
     (let i = unat (p - origin st)
      in if i + n \<le> length (cells st) then Inr (take n (drop i (cells st))) else Inl Out_of_bounds)"

definition commit_size :: "buffer \<Rightarrow> scalar \<Rightarrow> u64" where
  "commit_size buf v = sizeof_scalar v"

definition can_insert :: "buffer \<Rightarrow> scalar \<Rightarrow> bool" where
  "can_insert buf v \<longleftrightarrow> bytes buf \<ge> commit_size buf v"

definition native_insert :: "storage \<Rightarrow> buffer \<Rightarrow> scalar \<Rightarrow> (storage \<times> buffer) outcome" where
  "native_insert st buf v =
     (let typed = buffer_cast buf
      in and_then (store_object st (begin_of typed) (object_bytes v)) (\<lambda>st'.
         Inr (st', buffer_reset buf (offset_by (sizeof_scalar v) typed 1))))"

definition can_extract :: "buffer \<Rightarrow> scalar \<Rightarrow> bool" where
  "can_extract buf v \<longleftrightarrow> bytes buf \<ge> commit_size buf v"

definition native_extract :: "storage \<Rightarrow> buffer \<Rightarrow> scalar \<Rightarrow> (scalar \<times> buffer) outcome" where
  "native_extract st buf out =
     (let typed = buffer_cast buf
      in and_then (load_object st (begin_of typed) (unat (sizeof_scalar out))) (\<lambda>bs.
         Inr (read_scalar out bs, buffer_reset buf (offset_by (sizeof_scalar out) typed 1))))"

text \<open>\<open>make_network_byte_order\<close> and \<open>make_host_byte_order\<close> are called and nowhere defined: they are
  the arguments \<open>to_net\<close> and \<open>to_host\<close>.\<close>

definition network_commit_size :: "buffer \<Rightarrow> scalar \<Rightarrow> u64" where
  "network_commit_size buf v = sizeof_scalar v"

definition network_can_insert :: "buffer \<Rightarrow> scalar \<Rightarrow> bool" where
  "network_can_insert buf v \<longleftrightarrow> bytes buf \<ge> network_commit_size buf v"

definition network_insert ::
    "(scalar \<Rightarrow> scalar) \<Rightarrow> storage \<Rightarrow> buffer \<Rightarrow> scalar \<Rightarrow> (storage \<times> buffer) outcome" where
  "network_insert to_net st buf v =
     (let typed = buffer_cast buf
      in and_then (store_object st (begin_of typed) (object_bytes (to_net v))) (\<lambda>st'.
         Inr (st', buffer_reset buf (offset_by (sizeof_scalar v) typed 1))))"

definition network_can_extract :: "buffer \<Rightarrow> scalar \<Rightarrow> bool" where
  "network_can_extract buf v \<longleftrightarrow> bytes buf \<ge> network_commit_size buf v"

definition network_extract ::
    "(scalar \<Rightarrow> scalar) \<Rightarrow> storage \<Rightarrow> buffer \<Rightarrow> scalar \<Rightarrow> (scalar \<times> buffer) outcome" where
  "network_extract to_host st buf out =
     (let typed = buffer_cast buf
      in and_then (load_object st (begin_of typed) (unat (sizeof_scalar out))) (\<lambda>bs.
         Inr (to_host (read_scalar out bs), buffer_reset buf (offset_by (sizeof_scalar out) typed 1))))"

section \<open>The policies\<close>

datatype mapper = Native_mapper | Network_mapper "scalar \<Rightarrow> scalar" "scalar \<Rightarrow> scalar"

fun mapper_commit_size :: "mapper \<Rightarrow> buffer \<Rightarrow> scalar \<Rightarrow> u64" where
  "mapper_commit_size Native_mapper buf v = commit_size buf v"
| "mapper_commit_size (Network_mapper to_net to_host) buf v = network_commit_size buf v"

fun mapper_can_insert :: "mapper \<Rightarrow> buffer \<Rightarrow> scalar \<Rightarrow> bool" where
  "mapper_can_insert Native_mapper buf v = can_insert buf v"
| "mapper_can_insert (Network_mapper to_net to_host) buf v = network_can_insert buf v"

fun mapper_insert :: "mapper \<Rightarrow> storage \<Rightarrow> buffer \<Rightarrow> scalar \<Rightarrow> (storage \<times> buffer) outcome" where
  "mapper_insert Native_mapper st buf v = native_insert st buf v"
| "mapper_insert (Network_mapper to_net to_host) st buf v = network_insert to_net st buf v"

fun mapper_can_extract :: "mapper \<Rightarrow> buffer \<Rightarrow> scalar \<Rightarrow> bool" where
  "mapper_can_extract Native_mapper buf v = can_extract buf v"
| "mapper_can_extract (Network_mapper to_net to_host) buf v = network_can_extract buf v"

fun mapper_extract :: "mapper \<Rightarrow> storage \<Rightarrow> buffer \<Rightarrow> scalar \<Rightarrow> (scalar \<times> buffer) outcome" where
  "mapper_extract Native_mapper st buf out = native_extract st buf out"
| "mapper_extract (Network_mapper to_net to_host) st buf out = network_extract to_host st buf out"

section \<open>The byte stream\<close>

record byte_stream =
  stream_buf :: buffer
  rdpos :: u64
  wrpos :: u64
  stream_error :: bool

definition byte_stream_new :: "buffer \<Rightarrow> byte_stream" where
  "byte_stream_new buf = \<lparr>stream_buf = buf, rdpos = 0, wrpos = 0, stream_error = False\<rparr>"

definition byte_stream_ok :: "byte_stream \<Rightarrow> bool" where
  "byte_stream_ok s \<longleftrightarrow> \<not> stream_error s"

definition byte_full :: "byte_stream \<Rightarrow> bool" where
  "byte_full s \<longleftrightarrow> wrpos s = size_of 1 (stream_buf s)"

definition byte_empty :: "byte_stream \<Rightarrow> bool" where
  "byte_empty s \<longleftrightarrow> wrpos s = rdpos s"

definition byte_capacity :: "byte_stream \<Rightarrow> u64" where
  "byte_capacity s = size_of 1 (stream_buf s)"

definition byte_occupied :: "byte_stream \<Rightarrow> u64" where
  "byte_occupied s = wrpos s - rdpos s"

definition byte_vacant :: "byte_stream \<Rightarrow> u64" where
  "byte_vacant s = size_of 1 (stream_buf s) - wrpos s"

definition byte_reset :: "byte_stream \<Rightarrow> byte_stream" where
  "byte_reset s = s\<lparr>stream_error := False, rdpos := 0, wrpos := 0\<rparr>"

definition byte_write ::
    "mapper \<Rightarrow> bool \<Rightarrow> storage \<Rightarrow> byte_stream \<Rightarrow> scalar \<Rightarrow> (storage \<times> byte_stream) outcome" where
  "byte_write io debug st s item =
     and_then (assertf debug (\<not> byte_full s)) (\<lambda>_.
       let wrbuf = buffer_items 1 (begin_of (stream_buf s) + wrpos s) (size_of 1 (stream_buf s));
           err = (stream_error s \<or> mapper_can_insert io wrbuf item = False)
       in if \<not> err
          then and_then (mapper_insert io st wrbuf item) (\<lambda>(st', wrbuf').
                 Inr (st', s\<lparr>stream_error := err, wrpos := wrpos s + mapper_commit_size io wrbuf' item\<rparr>))
          else Inr (st, s\<lparr>stream_error := err\<rparr>))"

text \<open>The value of the output variable after the read is the first component: it keeps the old
  one when the stream fails.\<close>

definition byte_read ::
    "mapper \<Rightarrow> bool \<Rightarrow> storage \<Rightarrow> byte_stream \<Rightarrow> scalar \<Rightarrow> (scalar \<times> byte_stream) outcome" where
  "byte_read io debug st s out =
     and_then (assertf debug (\<not> byte_empty s)) (\<lambda>_.
       let rdbuf = buffer_items 1 (begin_of (stream_buf s) + rdpos s) (wrpos s);
           err = (stream_error s \<or> mapper_can_extract io rdbuf out = False)
       in if \<not> err
          then and_then (mapper_extract io st rdbuf out) (\<lambda>(v, rdbuf').
                 Inr (v, s\<lparr>stream_error := err, rdpos := rdpos s + mapper_commit_size io rdbuf' v\<rparr>))
          else Inr (out, s\<lparr>stream_error := err\<rparr>))"

text \<open>\<open>serialize\<close> stops at the first argument that leaves the stream in error.\<close>

fun serialize ::
    "mapper \<Rightarrow> bool \<Rightarrow> storage \<Rightarrow> byte_stream \<Rightarrow> scalar list \<Rightarrow> (bool \<times> storage \<times> byte_stream) outcome" where
  "serialize io debug st s [] = Inr (byte_stream_ok s, st, s)"
| "serialize io debug st s (arg # args) =
     and_then (byte_write io debug st s arg) (\<lambda>(st', s').
       if args = [] \<or> \<not> byte_stream_ok s' then Inr (byte_stream_ok s', st', s')
       else serialize io debug st' s' args)"

text \<open>\<open>deserialize\<close> takes its arguments by value: the values it reads are not seen outside.\<close>

fun deserialize ::
    "mapper \<Rightarrow> bool \<Rightarrow> storage \<Rightarrow> byte_stream \<Rightarrow> scalar list \<Rightarrow> (bool \<times> byte_stream) outcome" where
  "deserialize io debug st s [] = Inr (byte_stream_ok s, s)"
| "deserialize io debug st s (arg # args) =
     and_then (byte_read io debug st s arg) (\<lambda>(_, s').
       if args = [] \<or> \<not> byte_stream_ok s' then Inr (byte_stream_ok s', s')
       else deserialize io debug st s' args)"

section \<open>The stream of typed elements\<close>

text \<open>\<open>IO::insert\<close> into an element and \<open>IO::extract\<close> from one are the arguments \<open>ins\<close> and \<open>ext\<close>;
  the positions count elements.\<close>

record 'e type_stream =
  items :: "'e list"
  occupied :: nat
  type_rdpos :: nat
  type_wrpos :: nat
  type_error :: bool

definition type_stream_new :: "'e list \<Rightarrow> 'e type_stream" where
  "type_stream_new buf =
     \<lparr>items = buf, occupied = 0, type_rdpos = 0, type_wrpos = 0, type_error = False\<rparr>"

definition type_stream_ok :: "'e type_stream \<Rightarrow> bool" where
  "type_stream_ok s \<longleftrightarrow> \<not> type_error s"

definition type_full :: "'e type_stream \<Rightarrow> bool" where
  "type_full s \<longleftrightarrow> occupied s = length (items s)"

definition type_empty :: "'e type_stream \<Rightarrow> bool" where
  "type_empty s \<longleftrightarrow> occupied s = 0"

definition type_capacity :: "'e type_stream \<Rightarrow> nat" where
  "type_capacity s = length (items s)"

definition type_vacant :: "'e type_stream \<Rightarrow> nat" where
  "type_vacant s = length (items s) - occupied s"

definition type_reset :: "'e type_stream \<Rightarrow> 'e type_stream" where
  "type_reset s = s\<lparr>type_error := False, occupied := 0, type_rdpos := 0, type_wrpos := 0\<rparr>"

definition type_write ::
    "('e \<Rightarrow> 't \<Rightarrow> 'e) \<Rightarrow> bool \<Rightarrow> 'e type_stream \<Rightarrow> 't \<Rightarrow> 'e type_stream outcome" where
  "type_write ins debug s item =
     and_then (assertf debug (\<not> type_full s)) (\<lambda>_.
       let err = (type_error s \<or> type_wrpos s = length (items s))
       in if \<not> err
          then and_then (checked_nth (items s) (type_wrpos s)) (\<lambda>e.
                 Inr (s\<lparr>type_error := err, items := (items s)[type_wrpos s := ins e item],
                   type_wrpos := Suc (type_wrpos s) mod length (items s), occupied := Suc (occupied s)\<rparr>))
          else Inr (s\<lparr>type_error := err\<rparr>))"

definition type_read ::
    "('e \<Rightarrow> 't) \<Rightarrow> bool \<Rightarrow> 'e type_stream \<Rightarrow> 't \<Rightarrow> ('t \<times> 'e type_stream) outcome" where
  "type_read ext debug s out =
     and_then (assertf debug (\<not> type_empty s)) (\<lambda>_.
       let err = (type_error s \<or> type_rdpos s = type_wrpos s)
       in if \<not> err
          then and_then (checked_nth (items s) (type_rdpos s)) (\<lambda>e.
                 Inr (ext e, s\<lparr>type_error := err, type_rdpos := Suc (type_rdpos s) mod length (items s),
                   occupied := occupied s - 1\<rparr>))
          else Inr (out, s\<lparr>type_error := err\<rparr>))"

section \<open>The bit stream\<close>

record bit_stream =
  bit_buf :: bitbuffer
  bit_rdpos :: u64
  bit_wrpos :: u64
  bit_error :: bool

definition bit_stream_new :: "bitbuffer \<Rightarrow> bit_stream" where
  "bit_stream_new buf = \<lparr>bit_buf = buf, bit_rdpos = 0, bit_wrpos = 0, bit_error = False\<rparr>"

definition bit_stream_ok :: "bit_stream \<Rightarrow> bool" where
  "bit_stream_ok s \<longleftrightarrow> \<not> bit_error s"

definition bit_full :: "bit_stream \<Rightarrow> bool" where
  "bit_full s \<longleftrightarrow> bit_wrpos s = bitbuffer_size (bit_buf s)"

definition bit_empty :: "bit_stream \<Rightarrow> bool" where
  "bit_empty s \<longleftrightarrow> bit_wrpos s = bit_rdpos s"

definition bit_capacity :: "bit_stream \<Rightarrow> u64" where
  "bit_capacity s = bitbuffer_size (bit_buf s)"

definition bit_occupied :: "bit_stream \<Rightarrow> u64" where
  "bit_occupied s = bit_wrpos s - bit_rdpos s"

definition bit_vacant :: "bit_stream \<Rightarrow> u64" where
  "bit_vacant s = bitbuffer_size (bit_buf s) - bit_wrpos s"

definition bit_reset :: "bit_stream \<Rightarrow> bit_stream" where
  "bit_reset s = s\<lparr>bit_error := False, bit_rdpos := 0, bit_wrpos := 0\<rparr>"

text \<open>The mappings for bit buffers: the value is encoded, or an empty one made, and dropped.\<close>

definition bit_commit_size :: "bitbuffer \<Rightarrow> scalar \<Rightarrow> u64" where
  "bit_commit_size buf v = sizeof_scalar v * 8"

definition bit_can_insert :: "bitbuffer \<Rightarrow> scalar \<Rightarrow> bool" where
  "bit_can_insert buf v \<longleftrightarrow> bitbuffer_size buf \<ge> bit_commit_size buf v"

definition bit_insert :: "u8 list \<Rightarrow> bitbuffer \<Rightarrow> scalar \<Rightarrow> u8 list \<times> bitbuffer" where
  "bit_insert mem buf v = (mem, buf)"

definition bit_can_extract :: "bitbuffer \<Rightarrow> scalar \<Rightarrow> bool" where
  "bit_can_extract buf v \<longleftrightarrow> bitbuffer_size buf \<ge> bit_commit_size buf v"

definition bit_extract :: "u8 list \<Rightarrow> bitbuffer \<Rightarrow> scalar \<Rightarrow> scalar \<times> bitbuffer" where
  "bit_extract mem buf out = (out, buf)"

definition bit_write ::
    "bool \<Rightarrow> u8 list \<Rightarrow> bit_stream \<Rightarrow> scalar \<Rightarrow> (u8 list \<times> bit_stream) outcome" where
  "bit_write debug mem s item =
     and_then (assertf debug (\<not> bit_full s)) (\<lambda>_.
       let wrbuf = bitbuffer_of (base (bit_buf s)) (ucast (limit (bit_buf s))) (bit_wrpos s);
           err = (bit_error s \<or> bit_can_insert wrbuf item = False)
       in if \<not> err
          then (let (mem', wrbuf') = bit_insert mem wrbuf item
                in Inr (mem', s\<lparr>bit_error := err, bit_rdpos := bit_rdpos s + bit_commit_size wrbuf' item\<rparr>))
          else Inr (mem, s\<lparr>bit_error := err\<rparr>))"

definition bit_read ::
    "bool \<Rightarrow> u8 list \<Rightarrow> bit_stream \<Rightarrow> scalar \<Rightarrow> (scalar \<times> bit_stream) outcome" where
  "bit_read debug mem s out =
     and_then (assertf debug (\<not> bit_empty s)) (\<lambda>_.
       let rdbuf = bitbuffer_of (base (bit_buf s)) (bit_wrpos s) (bit_rdpos s);
           err = (bit_error s \<or> bit_can_extract rdbuf out = False)
       in if \<not> err
          then (let (v, rdbuf') = bit_extract mem rdbuf out
                in Inr (v, s\<lparr>bit_error := err, bit_rdpos := bit_rdpos s + bit_commit_size rdbuf' v\<rparr>))
          else Inr (out, s\<lparr>bit_error := err\<rparr>))"

section \<open>Lemmas on the byte stream\<close>

definition same_kind :: "scalar \<Rightarrow> scalar \<Rightarrow> bool" where
  "same_kind a b \<longleftrightarrow> sizeof_scalar a = sizeof_scalar b \<and>
     read_scalar a (object_bytes b) = read_scalar b (object_bytes b)"

lemma read_object_bytes [simp]: "read_scalar v (object_bytes v) = v"
  by (cases v) (simp_all add: of_le_bytes_le_bytes)

lemma length_object_bytes [simp]: "length (object_bytes v) = unat (sizeof_scalar v)"
  by (cases v) simp_all

lemma sizeof_scalar_pos: "0 < unat (sizeof_scalar v)"
  by (cases v) simp_all

lemma sizeof_byte_swap [simp]: "sizeof_scalar (byte_swap v) = sizeof_scalar v"
  by (cases v) simp_all

lemma sizeof_convert [simp]: "sizeof_scalar (convert a b v) = sizeof_scalar v"
  by (cases a; cases b) simp_all

lemma byte_swap_same_kind: "same_kind a b \<Longrightarrow> read_scalar a (object_bytes (byte_swap b)) = byte_swap b"
  by (cases a; cases b) (auto simp: same_kind_def of_le_bytes_le_bytes)

lemma store_load_simps:
  assumes "cells st = pre @ mid @ rest" "p = origin st + of_nat (length pre)"
    "length (cells st) < 2 ^ 64"
  shows "length bs = length mid \<Longrightarrow> store_object st p bs = Inr (st\<lparr>cells := pre @ bs @ rest\<rparr>)"
    and "n = length mid \<Longrightarrow> load_object st p n = Inr mid"
proof -
  have "unat (p - origin st) = length pre"
    using assms by (simp add: unat_of_nat_small)
  then show "length bs = length mid \<Longrightarrow> store_object st p bs = Inr (st\<lparr>cells := pre @ bs @ rest\<rparr>)"
    and "n = length mid \<Longrightarrow> load_object st p n = Inr mid"
    using assms(1) by (simp_all add: store_object_def load_object_def)
qed

text \<open>One value read after another, into variables of the types of \<open>outs\<close>.\<close>

fun byte_read_all ::
    "mapper \<Rightarrow> bool \<Rightarrow> storage \<Rightarrow> byte_stream \<Rightarrow> scalar list \<Rightarrow> (scalar list \<times> byte_stream) outcome" where
  "byte_read_all io debug st s [] = Inr ([], s)"
| "byte_read_all io debug st s (out # outs) =
     and_then (byte_read io debug st s out) (\<lambda>(v, s').
       and_then (byte_read_all io debug st s' outs) (\<lambda>(vs, s''). Inr (v # vs, s'')))"

text \<open>What the stream relies on in a mapper: \<open>wire\<close> is the representation it moves.\<close>

locale byte_mapper =
  fixes io :: mapper and wire :: "scalar \<Rightarrow> u8 list"
  assumes commit: "mapper_commit_size io buf v = sizeof_scalar v"
    and may_insert: "mapper_can_insert io buf v \<longleftrightarrow> sizeof_scalar v \<le> bytes buf"
    and may_extract: "mapper_can_extract io buf v \<longleftrightarrow> sizeof_scalar v \<le> bytes buf"
    and wire_length: "length (wire v) = unat (sizeof_scalar v)"
    and inserts: "store_object st (address buf) (wire v) = Inr st' \<Longrightarrow>
      \<exists>buf'. mapper_insert io st buf v = Inr (st', buf')"
    and overruns: "store_object st (address buf) (wire v) = Inl e \<Longrightarrow> mapper_insert io st buf v = Inl e"
    and extracts: "load_object st (address buf) (unat (sizeof_scalar out)) = Inr (wire v) \<Longrightarrow>
      same_kind out v \<Longrightarrow> \<exists>buf'. mapper_extract io st buf out = Inr (v, buf')"
begin

lemma write_step:
  assumes "cells st = pre @ mid @ rest" "length mid = unat (sizeof_scalar v)"
    "length (cells st) = unat (bytes buf)" "origin st = address buf"
  shows "byte_write io debug st \<lparr>stream_buf = buf, rdpos = r, wrpos = of_nat (length pre), stream_error = False\<rparr> v =
    Inr (st\<lparr>cells := pre @ wire v @ rest\<rparr>, \<lparr>stream_buf = buf, rdpos = r,
      wrpos = of_nat (length pre + length mid), stream_error = False\<rparr>)"
proof -
  have small: "length (cells st) < 2 ^ 64" using assms(3) unsigned_less[of "bytes buf", where ?'a = nat] by simp
  have le: "sizeof_scalar v \<le> bytes buf"
    using assms(1-3) by (simp add: word_le_nat_alt)
  have "length pre < unat (bytes buf)"
    using arg_cong[OF assms(1), of length] assms(2,3) sizeof_scalar_pos[of v]
    by simp
  then have "of_nat (length pre) \<noteq> bytes buf"
    using unat_of_nat_small[of "length pre", where ?'a = 64] unsigned_less[of "bytes buf", where ?'a = nat]
    by auto
  moreover have "store_object st (address buf + of_nat (length pre)) (wire v) = Inr (st\<lparr>cells := pre @ wire v @ rest\<rparr>)"
    by (rule store_load_simps(1)[OF assms(1) _ small]) (simp_all add: assms wire_length)
  then obtain buf' where "mapper_insert io st \<lparr>address = address buf + of_nat (length pre), bytes = bytes buf\<rparr> v =
      Inr (st\<lparr>cells := pre @ wire v @ rest\<rparr>, buf')"
    using inserts[of st "\<lparr>address = address buf + of_nat (length pre), bytes = bytes buf\<rparr>"] by auto
  ultimately show ?thesis
    using le assms(2)
    by (simp add: byte_write_def byte_full_def size_of_def begin_of_def buffer_items_def may_insert commit)
qed

lemma write_overruns:
  assumes "length (cells st) = unat (bytes buf)" "origin st = address buf"
    "w < bytes buf" "unat (bytes buf) < unat w + unat (sizeof_scalar v)" "sizeof_scalar v \<le> bytes buf"
  shows "byte_write io debug st \<lparr>stream_buf = buf, rdpos = r, wrpos = w, stream_error = False\<rparr> v =
    Inl Out_of_bounds"
proof -
  have "store_object st (address buf + w) (wire v) = Inl Out_of_bounds"
    using assms by (simp add: store_object_def wire_length)
  then have "mapper_insert io st \<lparr>address = address buf + w, bytes = bytes buf\<rparr> v = Inl Out_of_bounds"
    by (intro overruns) simp
  then show ?thesis
    using assms less_imp_neq[OF assms(3)]
    by (simp add: byte_write_def byte_full_def size_of_def begin_of_def buffer_items_def may_insert)
qed

lemma serialize_step:
  assumes "cells st = pre @ mid @ rest" "length mid = length (concat (map wire vs))" "vs \<noteq> []"
    "length (cells st) = unat (bytes buf)" "origin st = address buf"
  shows "serialize io debug st \<lparr>stream_buf = buf, rdpos = r, wrpos = of_nat (length pre), stream_error = False\<rparr> vs =
    Inr (True, st\<lparr>cells := pre @ concat (map wire vs) @ rest\<rparr>, \<lparr>stream_buf = buf, rdpos = r,
      wrpos = of_nat (length pre + length mid), stream_error = False\<rparr>)"
  using assms
proof (induction vs arbitrary: st pre mid)
  case (Cons v vs)
  define a b where "a = take (length (wire v)) mid" and "b = drop (length (wire v)) mid"
  have ab: "mid = a @ b" "length a = length (wire v)" "length b = length (concat (map wire vs))"
    using Cons.prems(2) by (simp_all add: a_def b_def)
  have w: "byte_write io debug st \<lparr>stream_buf = buf, rdpos = r, wrpos = of_nat (length pre), stream_error = False\<rparr> v =
    Inr (st\<lparr>cells := pre @ wire v @ b @ rest\<rparr>, \<lparr>stream_buf = buf, rdpos = r,
      wrpos = of_nat (length pre + length a), stream_error = False\<rparr>)"
    using Cons.prems ab by (intro write_step) (simp_all add: wire_length)
  show ?case
  proof (cases "vs = []")
    case True
    then show ?thesis using w ab by (simp add: byte_stream_ok_def)
  next
    case False
    have "serialize io debug (st\<lparr>cells := pre @ wire v @ b @ rest\<rparr>) \<lparr>stream_buf = buf, rdpos = r,
        wrpos = of_nat (length (pre @ wire v)), stream_error = False\<rparr> vs =
      Inr (True, (st\<lparr>cells := pre @ wire v @ b @ rest\<rparr>)\<lparr>cells := (pre @ wire v) @ concat (map wire vs) @ rest\<rparr>,
        \<lparr>stream_buf = buf, rdpos = r, wrpos = of_nat (length (pre @ wire v) + length b), stream_error = False\<rparr>)"
      using Cons.prems ab False by (intro Cons.IH) simp_all
    then show ?thesis using w ab False by (simp add: byte_stream_ok_def add.assoc)
  qed
qed simp

lemma read_step:
  assumes "cells st = pre @ wire v @ rest" "same_kind out v" "unat w \<le> length (cells st)"
    "length pre + length (wire v) \<le> unat w" "origin st = address buf"
  shows "byte_read io debug st \<lparr>stream_buf = buf, rdpos = of_nat (length pre), wrpos = w, stream_error = False\<rparr> out =
    Inr (v, \<lparr>stream_buf = buf, rdpos = of_nat (length pre + length (wire v)), wrpos = w, stream_error = False\<rparr>)"
proof -
  have small: "length (cells st) < 2 ^ 64" if "length (cells st) = unat (x :: u64)" for x
    using that unsigned_less[of x, where ?'a = nat] by simp
  have size: "sizeof_scalar out = sizeof_scalar v" using assms(2) by (simp add: same_kind_def)
  have wl: "unat w < 2 ^ 64" using unsigned_less[of w, where ?'a = nat] by simp
  have pre: "unat (of_nat (length pre) :: u64) = length pre"
    using assms(4) wl by (simp add: unat_of_nat_small)
  have "of_nat (length pre) \<noteq> w"
    using pre assms(4) wire_length[of v] sizeof_scalar_pos[of v] by auto
  moreover have "sizeof_scalar out \<le> w"
    using assms(4) wire_length[of v] size by (simp add: word_le_nat_alt)
  moreover have "unat (address buf + of_nat (length pre) - origin st) = length pre"
    using assms(5) pre by simp
  then have "load_object st (address buf + of_nat (length pre)) (unat (sizeof_scalar out)) = Inr (wire v)"
    using assms(1) wire_length[of v] size by (simp add: load_object_def)
  then obtain buf' where "mapper_extract io st \<lparr>address = address buf + of_nat (length pre), bytes = w\<rparr> out = Inr (v, buf')"
    using extracts[of st "\<lparr>address = address buf + of_nat (length pre), bytes = w\<rparr>"] assms(2) by auto
  ultimately show ?thesis
    using wire_length[of v]
    by (simp add: byte_read_def byte_empty_def begin_of_def buffer_items_def may_extract commit eq_commute[of w])
qed

lemma read_all_step:
  assumes "cells st = pre @ concat (map wire vs) @ rest" "list_all2 same_kind outs vs"
    "unat w \<le> length (cells st)" "length pre + length (concat (map wire vs)) \<le> unat w"
    "origin st = address buf"
  shows "byte_read_all io debug st \<lparr>stream_buf = buf, rdpos = of_nat (length pre), wrpos = w, stream_error = False\<rparr> outs =
    Inr (vs, \<lparr>stream_buf = buf, rdpos = of_nat (length pre + length (concat (map wire vs))), wrpos = w,
      stream_error = False\<rparr>)"
  using assms(2,1,3-)
proof (induction outs vs arbitrary: pre rule: list_all2_induct)
  case (Cons out outs v vs)
  have "byte_read io debug st \<lparr>stream_buf = buf, rdpos = of_nat (length pre), wrpos = w, stream_error = False\<rparr> out =
    Inr (v, \<lparr>stream_buf = buf, rdpos = of_nat (length (pre @ wire v)), wrpos = w, stream_error = False\<rparr>)"
    using read_step[of st pre v "concat (map wire vs) @ rest" out w buf debug] Cons by simp
  moreover have "byte_read_all io debug st \<lparr>stream_buf = buf, rdpos = of_nat (length (pre @ wire v)), wrpos = w,
      stream_error = False\<rparr> outs =
    Inr (vs, \<lparr>stream_buf = buf, rdpos = of_nat (length (pre @ wire v) + length (concat (map wire vs))), wrpos = w,
      stream_error = False\<rparr>)"
    using Cons by (intro Cons.IH) simp_all
  ultimately show ?case by (simp add: add.assoc)
qed simp

lemma round_trip:
  assumes "vs \<noteq> []" "length (concat (map wire vs)) \<le> length (cells st)" "list_all2 same_kind outs vs"
    "length (cells st) = unat (bytes buf)" "origin st = address buf"
  shows "\<exists>st' s'. serialize io debug st (byte_stream_new buf) vs = Inr (True, st', s') \<and>
    (\<exists>s''. byte_read_all io debug st' s' outs = Inr (vs, s'') \<and> byte_empty s'' \<and> byte_stream_ok s'')"
proof -
  let ?n = "length (concat (map wire vs))"
  have n: "unat (of_nat ?n :: u64) = ?n"
    using assms(2,4) unsigned_less[of "bytes buf", where ?'a = nat] by (simp add: unat_of_nat_small)
  have "serialize io debug st \<lparr>stream_buf = buf, rdpos = 0, wrpos = of_nat (length ([] :: u8 list)), stream_error = False\<rparr> vs =
    Inr (True, st\<lparr>cells := [] @ concat (map wire vs) @ drop ?n (cells st)\<rparr>, \<lparr>stream_buf = buf, rdpos = 0,
      wrpos = of_nat (length ([] :: u8 list) + length (take ?n (cells st))), stream_error = False\<rparr>)"
    by (rule serialize_step) (use assms in simp_all)
  moreover have "byte_read_all io debug (st\<lparr>cells := concat (map wire vs) @ drop ?n (cells st)\<rparr>)
      \<lparr>stream_buf = buf, rdpos = of_nat (length ([] :: u8 list)), wrpos = of_nat ?n, stream_error = False\<rparr> outs =
    Inr (vs, \<lparr>stream_buf = buf, rdpos = of_nat (length ([] :: u8 list) + ?n), wrpos = of_nat ?n, stream_error = False\<rparr>)"
    using assms n by (intro read_all_step[of _ _ _ "drop ?n (cells st)"]) simp_all
  ultimately show ?thesis
    using assms(2) by (simp add: byte_stream_new_def byte_empty_def byte_stream_ok_def min.absorb2)
qed

end

interpretation native_wire: byte_mapper Native_mapper object_bytes
proof
  fix st :: storage and buf :: buffer and out v assume "load_object st (address buf) (unat (sizeof_scalar out)) = Inr (object_bytes v)" "same_kind out v"
  then show "\<exists>buf'. mapper_extract Native_mapper st buf out = Inr (v, buf')"
    by (simp add: native_extract_def begin_of_def buffer_cast_def buffer_bytes_def same_kind_def)
qed (auto simp: commit_size_def can_insert_def can_extract_def native_insert_def begin_of_def
    buffer_cast_def buffer_bytes_def)

interpretation network_wire: byte_mapper "Network_mapper (convert native network) (convert network native)"
    "\<lambda>v. object_bytes (convert native network v)"
proof
  fix st :: storage and buf :: buffer and out v assume "load_object st (address buf) (unat (sizeof_scalar out)) =
    Inr (object_bytes (convert native network v))" "same_kind out v"
  then show "\<exists>buf'. mapper_extract (Network_mapper (convert native network) (convert network native)) st buf out = Inr (v, buf')"
    by (simp add: network_extract_def begin_of_def buffer_cast_def buffer_bytes_def native_def network_def
        is_big_def byte_swap_same_kind byte_swap_involution)
qed (auto simp: network_commit_size_def network_can_insert_def network_can_extract_def network_insert_def
    begin_of_def buffer_cast_def buffer_bytes_def)

section \<open>Lemmas on the stream of typed elements\<close>

text \<open>The ring holds its occupied elements from the read position on.\<close>

definition type_inv :: "'e type_stream \<Rightarrow> bool" where
  "type_inv s \<longleftrightarrow> \<not> type_error s \<and> items s \<noteq> [] \<and> occupied s \<le> length (items s) \<and>
     type_rdpos s < length (items s) \<and>
     type_wrpos s = (type_rdpos s + occupied s) mod length (items s)"

definition type_contents :: "'e type_stream \<Rightarrow> 'e list" where
  "type_contents s = map (\<lambda>k. items s ! ((type_rdpos s + k) mod length (items s))) [0..<occupied s]"

lemma ring_index_inj:
  fixes n :: nat
  assumes "j < n" "k < n" "(r + j) mod n = (r + k) mod n"
  shows "j = k"
  using assms
proof (induction j k rule: linorder_wlog)
  case (le j k)
  then have "n dvd (r + k) - (r + j)" using mod_eq_dvd_iff_nat[of "r + j" "r + k" n] by simp
  then show ?case using le by (auto dest: dvd_imp_le)
qed metis

lemma type_write_ok:
  assumes "type_inv s" "occupied s < length (items s)"
  shows "\<exists>s'. type_write ins debug s item = Inr s' \<and> type_inv s' \<and> length (items s') = length (items s) \<and>
    type_contents s' = type_contents s @ [ins (items s ! type_wrpos s) item]"
proof -
  let ?n = "length (items s)" and ?w = "type_wrpos s"
  have n: "0 < ?n" "?w < ?n" using assms by (auto simp: type_inv_def)
  have noerr: "\<not> type_error s" using assms(1) by (simp add: type_inv_def)
  define s' where "s' = s\<lparr>type_error := False, items := (items s)[?w := ins (items s ! ?w) item],
    type_wrpos := Suc ?w mod ?n, occupied := Suc (occupied s)\<rparr>"
  have "type_write ins debug s item = Inr s'"
    using assms(2) n noerr by (simp add: type_write_def type_full_def s'_def Let_def)
  moreover have "type_inv s'"
    using assms n by (simp add: type_inv_def s'_def mod_Suc_eq)
  moreover have "(type_rdpos s + k) mod ?n \<noteq> ?w" if "k < occupied s" for k
    using that ring_index_inj[of k ?n "occupied s" "type_rdpos s"] assms by (auto simp: type_inv_def)
  then have "type_contents s' = type_contents s @ [ins (items s ! ?w) item]"
    using assms n by (auto simp: type_contents_def s'_def type_inv_def nth_list_update) metis
  ultimately show ?thesis by (auto simp: s'_def)
qed

lemma type_read_ok:
  assumes "type_inv s" "0 < occupied s" "occupied s < length (items s)"
  shows "\<exists>s'. type_read ext debug s out = Inr (ext (hd (type_contents s)), s') \<and> type_inv s' \<and>
    type_contents s' = tl (type_contents s)"
proof -
  let ?n = "length (items s)" and ?r = "type_rdpos s"
  have n: "0 < ?n" "?r < ?n" using assms by (auto simp: type_inv_def)
  have noerr: "\<not> type_error s" using assms(1) by (simp add: type_inv_def)
  have ne: "?r \<noteq> type_wrpos s"
    using ring_index_inj[of 0 ?n "occupied s" ?r] assms n by (auto simp: type_inv_def)
  define s' where "s' = s\<lparr>type_error := False, type_rdpos := Suc ?r mod ?n, occupied := occupied s - 1\<rparr>"
  obtain m where m: "occupied s = Suc m" using assms(2) gr0_conv_Suc by blast
  have "hd (type_contents s) = items s ! ?r"
    using n m by (simp add: type_contents_def upt_conv_Cons del: upt_Suc)
  then have "type_read ext debug s out = Inr (ext (hd (type_contents s)), s')"
    using assms(2) n ne noerr by (simp add: type_read_def type_empty_def s'_def Let_def)
  moreover have "type_inv s'"
    using assms n m by (simp add: type_inv_def s'_def mod_add_left_eq)
  moreover have "type_contents s' = tl (type_contents s)"
    using m by (simp add: type_contents_def s'_def map_tl[symmetric] mod_add_left_eq
        map_Suc_upt[symmetric] upt_conv_Cons comp_def del: upt_Suc map_Suc_upt)
  ultimately show ?thesis by blast
qed

section \<open>Properties\<close>

text \<open>C40: Scalars serialized one after another to a byte stream that has room for them are accepted,
  and reading variables of the same types gives them back in order and leaves the stream empty
  and without error, with the native mapper and with a network mapper that swaps bytes; no
  access leaves the buffer and no assertion fails.\<close>

theorem byte_stream_round_trip:
  assumes "vs \<noteq> []" "sum_list (map (\<lambda>v. unat (sizeof_scalar v)) vs) \<le> length (cells st)"
    "list_all2 same_kind outs vs"
    "length (cells st) = unat (bytes buf)" "origin st = address buf"
    "io = Native_mapper \<or> io = Network_mapper (convert native network) (convert network native)"
  shows "\<exists>st' s'. serialize io debug st (byte_stream_new buf) vs = Inr (True, st', s') \<and>
    (\<exists>s''. byte_read_all io debug st' s' outs = Inr (vs, s'') \<and> byte_empty s'' \<and> byte_stream_ok s'')"
  using assms(6)
proof
  assume "io = Native_mapper"
  then show ?thesis
    using native_wire.round_trip[OF assms(1) _ assms(3-5)] assms(2) by (simp add: length_concat comp_def)
next
  assume "io = Network_mapper (convert native network) (convert network native)"
  then show ?thesis
    using network_wire.round_trip[OF assms(1) _ assms(3-5)] assms(2) by (simp add: length_concat comp_def)
qed

theorem byte_stream_round_trip_witness:
  "\<exists>st' s'. serialize Native_mapper True \<lparr>origin = 64, cells = replicate 6 0\<rparr>
      (byte_stream_new \<lparr>address = 64, bytes = 6\<rparr>) [Uint32 70000, Int16 5] = Inr (True, st', s') \<and>
    (\<exists>s''. byte_read_all Native_mapper True st' s' [Uint32 0, Int16 0] = Inr ([Uint32 70000, Int16 5], s'') \<and>
      byte_empty s'' \<and> byte_stream_ok s'')"
  by (rule byte_stream_round_trip) (simp_all add: same_kind_def)

text \<open>The window that a write offers to the mapper has the size of the whole buffer: a value that
  does not fit in what is left of a stream that is not full is not refused with an error but
  stored past the end of the buffer, in both builds.\<close>

theorem byte_write_overruns:
  assumes "length (cells st) = unat (bytes buf)" "origin st = address buf"
    "w < bytes buf" "unat (bytes buf) < unat w + unat (sizeof_scalar v)" "sizeof_scalar v \<le> bytes buf"
  shows "byte_write Native_mapper debug st \<lparr>stream_buf = buf, rdpos = r, wrpos = w, stream_error = False\<rparr> v =
    Inl Out_of_bounds"
  using assms by (rule native_wire.write_overruns)

theorem byte_write_overruns_witness:
  "byte_write Native_mapper False \<lparr>origin = 64, cells = replicate 6 0\<rparr>
     \<lparr>stream_buf = \<lparr>address = 64, bytes = 6\<rparr>, rdpos = 0, wrpos = 4, stream_error = False\<rparr> (Uint32 1) =
   Inl Out_of_bounds"
  by (rule byte_write_overruns) simp_all

text \<open>The ring of a typed stream is a first-in first-out queue while it is neither full nor empty:
  a write appends the element and a read takes the oldest one. When the ring is full, reading
  fails: the positions agree, the stream goes into error and gives nothing.\<close>

theorem type_stream_queue:
  assumes "type_inv s"
  shows "(occupied s < length (items s) \<longrightarrow>
      (\<exists>s'. type_write ins debug s item = Inr s' \<and> type_inv s' \<and>
        type_contents s' = type_contents s @ [ins (items s ! type_wrpos s) item])) \<and>
    (0 < occupied s \<and> occupied s < length (items s) \<longrightarrow>
      (\<exists>s'. type_read ext debug s out = Inr (ext (hd (type_contents s)), s') \<and> type_inv s' \<and>
        type_contents s' = tl (type_contents s))) \<and>
    (type_full s \<longrightarrow> type_read ext debug s out = Inr (out, s\<lparr>type_error := True\<rparr>))"
proof (intro conjI impI)
  show "\<exists>s'. type_write ins debug s item = Inr s' \<and> type_inv s' \<and>
      type_contents s' = type_contents s @ [ins (items s ! type_wrpos s) item]"
    if "occupied s < length (items s)"
    using type_write_ok[OF assms that, of ins debug item] by blast
  show "\<exists>s'. type_read ext debug s out = Inr (ext (hd (type_contents s)), s') \<and> type_inv s' \<and>
      type_contents s' = tl (type_contents s)"
    if "0 < occupied s \<and> occupied s < length (items s)"
    using type_read_ok[OF assms, of ext debug out] that by simp
  show "type_read ext debug s out = Inr (out, s\<lparr>type_error := True\<rparr>)" if "type_full s"
    using assms that
    by (simp add: type_read_def type_empty_def type_inv_def type_full_def)
qed

theorem type_stream_queue_witness:
  defines "s \<equiv> \<lparr>items = [7, 8 :: int], occupied = 2, type_rdpos = 0, type_wrpos = 0, type_error = False\<rparr>"
  shows "type_read (\<lambda>e. e) True s 0 = Inr (0, s\<lparr>type_error := True\<rparr>)"
  using type_stream_queue[of s "\<lambda>e i. i" True 0 "\<lambda>e. e" 0]
  by (simp add: s_def type_inv_def type_full_def)

text \<open>A bit stream moves nothing: a write leaves the memory and the write position as they are and
  moves the read position, and a read leaves its variable as it was.\<close>

theorem bit_stream_moves_nothing:
  "(case bit_write debug mem s item of Inl e \<Rightarrow> e = Assertion_failed
     | Inr (mem', s') \<Rightarrow> mem' = mem \<and> bit_wrpos s' = bit_wrpos s \<and>
         (bit_stream_ok s' \<longrightarrow> bit_rdpos s' = bit_rdpos s + sizeof_scalar item * 8)) \<and>
   (case bit_read debug mem s out of Inl e \<Rightarrow> e = Assertion_failed | Inr (v, s') \<Rightarrow> v = out)"
  by (auto simp: bit_write_def bit_read_def Let_def bit_insert_def bit_extract_def bit_commit_size_def
      bit_stream_ok_def assertf_def)

end
