(* ===== verification/Ex_Ring.thy ===== *)
theory Ex_Ring
  imports Prelude
begin

text \<open>
  The two ring buffers of \<open>exercises/circular_buffer.cpp\<close> and
  \<open>exercises/simple_circular_buffer.cpp\<close>, and the contract they share: a ring of \<open>N\<close>
  elements holds the last \<open>N\<close> that were pushed. The array of a ring is a list of length \<open>N\<close>;
  a \<open>size_t\<close> is a natural number with its wrap-around written out.
\<close>

definition size_t_limit :: nat where
  "size_t_limit = 2 ^ 64"

section \<open>circular_buffer\<close>

record 'a circular_buffer =
  samples :: "'a list"
  total :: nat

text \<open>An iterator over the array of a buffer, of length \<open>n\<close>.\<close>

record 'a circular_iterator =
  iter_data :: "'a list"
  iter_index :: nat

definition iterator_equal :: "'a circular_iterator \<Rightarrow> 'a circular_iterator \<Rightarrow> bool" where
  "iterator_equal this that \<longleftrightarrow> iter_data this = iter_data that \<and> iter_index this = iter_index that"

definition iterator_differs :: "'a circular_iterator \<Rightarrow> 'a circular_iterator \<Rightarrow> bool" where
  "iterator_differs this that \<longleftrightarrow> \<not> iterator_equal this that"

definition iterator_deref :: "'a circular_iterator \<Rightarrow> 'a" where
  "iterator_deref it = iter_data it ! (iter_index it mod length (iter_data it))"

definition iterator_next :: "'a circular_iterator \<Rightarrow> 'a circular_iterator" where
  "iterator_next it = it\<lparr>iter_index := (iter_index it + 1) mod size_t_limit\<rparr>"

text \<open>The postfix increment: the old iterator, and the object after it.\<close>

definition iterator_next_post :: "'a circular_iterator \<Rightarrow> 'a circular_iterator \<times> 'a circular_iterator" where
  "iterator_next_post it = (it, it\<lparr>iter_index := (iter_index it + 1) mod size_t_limit\<rparr>)"

definition circular_push :: "'a \<Rightarrow> 'a circular_buffer \<Rightarrow> 'a circular_buffer" where
  "circular_push sample b =
     b\<lparr>samples := (samples b)[total b mod length (samples b) := sample],
       total := (total b + 1) mod size_t_limit\<rparr>"

definition circular_size :: "'a circular_buffer \<Rightarrow> nat" where
  "circular_size b = min (total b) (length (samples b))"

definition circular_head :: "'a circular_buffer \<Rightarrow> 'a" where
  "circular_head b =
     samples b ! ((total b + size_t_limit - 1) mod size_t_limit mod length (samples b))"

definition circular_tail :: "'a circular_buffer \<Rightarrow> 'a" where
  "circular_tail b = samples b ! ((total b - circular_size b) mod length (samples b))"

definition circular_begin :: "'a circular_buffer \<Rightarrow> 'a circular_iterator" where
  "circular_begin b = \<lparr>iter_data = samples b, iter_index = total b - circular_size b\<rparr>"

definition circular_end :: "'a circular_buffer \<Rightarrow> 'a circular_iterator" where
  "circular_end b = \<lparr>iter_data = samples b, iter_index = total b\<rparr>"

text \<open>A loop from one iterator to another, with a bound on its rounds.\<close>

fun iterate :: "nat \<Rightarrow> 'a circular_iterator \<Rightarrow> 'a circular_iterator \<Rightarrow> 'a list option" where
  "iterate 0 from past = (if iterator_differs from past then None else Some [])"
| "iterate (Suc fuel) from past =
     (if iterator_differs from past
      then Option.bind (iterate fuel (iterator_next from) past) (\<lambda>xs. Some (iterator_deref from # xs))
      else Some [])"

section \<open>CircularBuffer\<close>

record 'a simple_ring =
  ring_next :: nat
  ring_size :: nat
  ring_buf :: "'a list"

definition ring_push :: "'a \<Rightarrow> 'a simple_ring \<Rightarrow> 'a simple_ring" where
  "ring_push v r =
     r\<lparr>ring_buf := (ring_buf r)[ring_next r := v],
       ring_next := (ring_next r + 1) mod length (ring_buf r),
       ring_size := min (ring_size r + 1) (length (ring_buf r))\<rparr>"

text \<open>\<open>pop\<close> asserts that the ring is not empty; without the assertion the size wraps around.\<close>

definition ring_pop :: "bool \<Rightarrow> 'a simple_ring \<Rightarrow> ('a \<times> 'a simple_ring) outcome" where
  "ring_pop debug r =
     and_then (assertf debug (ring_size r \<noteq> 0)) (\<lambda>_.
       let last_index = length (ring_buf r) + ring_next r - ring_size r
       in Inr (ring_buf r ! (last_index mod length (ring_buf r)),
          r\<lparr>ring_size := (ring_size r + size_t_limit - 1) mod size_t_limit\<rparr>))"

text \<open>The elements that \<open>print\<close> shows.\<close>

definition ring_print :: "'a simple_ring \<Rightarrow> 'a list" where
  "ring_print r =
     (let last_index = length (ring_buf r) + ring_next r - ring_size r
      in map (\<lambda>i. ring_buf r ! ((last_index + i) mod length (ring_buf r))) [0..<ring_size r])"

section \<open>The contract\<close>

text \<open>\<open>good k s\<close> says that \<open>k\<close> more elements may be pushed on \<open>s\<close>.\<close>

locale sliding_window =
  fixes good :: "nat \<Rightarrow> 's \<Rightarrow> bool" and contents :: "'s \<Rightarrow> 'a list" and push :: "'a \<Rightarrow> 's \<Rightarrow> 's"
    and width :: "'s \<Rightarrow> nat"
  assumes good_push: "good (Suc k) s \<Longrightarrow> good k (push v s)"
    and width_push: "good (Suc k) s \<Longrightarrow> width (push v s) = width s"
    and contents_push: "good (Suc k) s \<Longrightarrow>
      contents (push v s) = drop (Suc (length (contents s)) - width s) (contents s @ [v])"
    and contents_fit: "good k s \<Longrightarrow> length (contents s) \<le> width s"
begin

lemma pushes:
  "good (length vs) s \<Longrightarrow>
    contents (fold push vs s) = drop (length (contents s @ vs) - width s) (contents s @ vs)"
proof (induction vs arbitrary: s)
  case Nil
  then show ?case using contents_fit by simp
next
  case (Cons v vs)
  have g: "good (Suc (length vs)) s" using Cons.prems by simp
  let ?z = "contents s @ v # vs" and ?m = "Suc (length (contents s)) - width s"
  have z: "contents (push v s) @ vs = drop ?m ?z"
    using contents_push[OF g, of v] by (cases "width s") auto
  have "contents (fold push vs (push v s)) = drop (length (drop ?m ?z) - width s) (drop ?m ?z)"
    using Cons.IH[OF good_push[OF g, of v]] width_push[OF g] z by simp
  also have "\<dots> = drop (length ?z - width s) ?z"
  proof -
    have "?m + (length ?z - width s - ?m) = length ?z - width s" by simp
    then show ?thesis by (simp only: drop_drop length_drop add.commute[of ?m] diff_diff_left)
  qed
  finally show ?case by simp
qed

end

section \<open>The rings are sliding windows\<close>

text \<open>What a loop over the buffer sees.\<close>

definition circular_contents :: "'a circular_buffer \<Rightarrow> 'a list" where
  "circular_contents b =
     map (\<lambda>i. samples b ! (i mod length (samples b))) [total b - circular_size b..<total b]"

definition circular_good :: "nat \<Rightarrow> 'a circular_buffer \<Rightarrow> bool" where
  "circular_good k b \<longleftrightarrow> samples b \<noteq> [] \<and> total b + k < size_t_limit"

lemma recent_mod_differs:
  fixes i t n :: nat
  assumes "t - min t n < Suc i" "i < t" "t - n < i \<or> t < n"
  shows "i mod n \<noteq> t mod n"
proof
  assume "i mod n = t mod n"
  then have "n dvd t - i" using mod_eq_dvd_iff_nat[of i t n] assms(2) by simp
  then have "n \<le> t - i" using assms(2) by (intro dvd_imp_le) auto
  then show False using assms by auto
qed

interpretation circular: sliding_window circular_good circular_contents circular_push "\<lambda>b. length (samples b)"
proof
  fix k v and b :: "'a circular_buffer"
  assume g: "circular_good (Suc k) b"
  let ?n = "length (samples b)" and ?t = "total b"
  have n: "0 < ?n" "?t mod ?n < ?n" "Suc ?t < size_t_limit" using g by (auto simp: circular_good_def)
  show "circular_good k (circular_push v b)" "length (samples (circular_push v b)) = ?n"
    using g n by (auto simp: circular_good_def circular_push_def)
  define f where "f = (\<lambda>i. samples b ! (i mod ?n))"
  define f' where "f' = (\<lambda>i. (samples b)[?t mod ?n := v] ! (i mod ?n))"
  have same: "f' i = f i" if "?t - min ?t (?n - 1) \<le> i" "i < ?t" for i
  proof -
    have "i mod ?n \<noteq> ?t mod ?n"
      using that n by (intro recent_mod_differs) auto
    then show ?thesis using n by (simp add: f_def f'_def nth_list_update)
  qed
  have at: "f' ?t = v" using n by (simp add: f'_def)
  have lower: "Suc ?t - min (Suc ?t) ?n = ?t - min ?t (?n - 1)"
    using n(1) by (cases ?n) auto
  have "circular_contents (circular_push v b) = map f' [Suc ?t - min (Suc ?t) ?n..<Suc ?t]"
    using n by (simp add: circular_contents_def circular_push_def circular_size_def f'_def mod_less del: upt_Suc)
  also have "\<dots> = map f' [?t - min ?t (?n - 1)..<?t] @ [v]"
    unfolding lower by (simp add: at)
  also have "map f' [?t - min ?t (?n - 1)..<?t] = map f [?t - min ?t (?n - 1)..<?t]"
    using same by simp
  also have "\<dots> = drop (Suc (min ?t ?n) - ?n) (map f [?t - min ?t ?n..<?t])"
  proof -
    have "?t - min ?t (?n - 1) = ?t - min ?t ?n + (Suc (min ?t ?n) - ?n)"
      using n(1) by (cases ?n) auto
    then show ?thesis by (simp add: drop_map drop_upt)
  qed
  finally show "circular_contents (circular_push v b) =
      drop (Suc (length (circular_contents b)) - ?n) (circular_contents b @ [v])"
    using n(1) by (cases ?n) (simp_all add: circular_contents_def circular_size_def f_def)
next
  fix k and b :: "'a circular_buffer"
  show "length (circular_contents b) \<le> length (samples b)"
    by (simp add: circular_contents_def circular_size_def)
qed

definition ring_good :: "nat \<Rightarrow> 'a simple_ring \<Rightarrow> bool" where
  "ring_good k r \<longleftrightarrow> ring_next r < length (ring_buf r) \<and> ring_size r \<le> length (ring_buf r)"

lemma ring_print_upt:
  assumes "ring_good k r"
  shows "ring_print r = map (\<lambda>i. ring_buf r ! ((ring_next r + i) mod length (ring_buf r)))
    [length (ring_buf r) - ring_size r..<length (ring_buf r)]"
  using assms
  by (intro nth_equalityI)
    (auto simp: ring_print_def Let_def ring_good_def algebra_simps add_diff_assoc2 intro!: arg_cong[of _ _ "(!) _"])

lemma ring_offset_differs:
  "next_index < n \<Longrightarrow> 0 < d \<Longrightarrow> d < n \<Longrightarrow> (next_index + d) mod n \<noteq> (next_index :: nat)"
  using mod_eq_dvd_iff_nat[of next_index "next_index + d" n] dvd_imp_le[of n d] by auto

interpretation ring: sliding_window ring_good ring_print ring_push "\<lambda>r. length (ring_buf r)"
proof
  fix k v and r :: "'a simple_ring"
  assume g: "ring_good (Suc k) r"
  let ?n = "length (ring_buf r)" and ?x = "ring_next r" and ?s = "ring_size r"
  have n: "0 < ?n" "?x < ?n" "?s \<le> ?n" using g by (auto simp: ring_good_def)
  have off: "?x \<noteq> (?x + i) mod ?n" if "Suc a \<le> i" "i < ?n" for a i
    using ring_offset_differs[OF n(2), of i] that by simp
  show "ring_good k (ring_push v r)" "length (ring_buf (ring_push v r)) = ?n"
    using g n by (auto simp: ring_good_def ring_push_def)
  then have "ring_print (ring_push v r) =
    map (\<lambda>i. (ring_buf r)[?x := v] ! (((?x + 1) mod ?n + i) mod ?n)) [?n - min (?s + 1) ?n..<?n]"
    using ring_print_upt[of k "ring_push v r"] by (simp add: ring_push_def)
  also have "\<dots> = map (\<lambda>i. (ring_buf r)[?x := v] ! ((?x + Suc i) mod ?n)) [?n - min (?s + 1) ?n..<?n]"
    by (simp add: mod_add_left_eq)
  also have "\<dots> = map (\<lambda>i. (ring_buf r)[?x := v] ! ((?x + i) mod ?n)) (map Suc [?n - min (?s + 1) ?n..<?n])"
    by (simp add: comp_def del: map_Suc_upt)
  also have "map Suc [?n - min (?s + 1) ?n..<?n] = [Suc (?n - min (?s + 1) ?n)..<?n] @ [?n]"
    using n by (simp add: map_Suc_upt)
  also have "map (\<lambda>i. (ring_buf r)[?x := v] ! ((?x + i) mod ?n)) ([Suc (?n - min (?s + 1) ?n)..<?n] @ [?n]) =
    map (\<lambda>i. ring_buf r ! ((?x + i) mod ?n)) [Suc (?n - min (?s + 1) ?n)..<?n] @ [v]"
    using n off by (auto simp: nth_list_update)
  also have "[Suc (?n - min (?s + 1) ?n)..<?n] = drop (Suc ?s - ?n) [?n - ?s..<?n]"
  proof -
    have "Suc (?n - min (?s + 1) ?n) = ?n - ?s + (Suc ?s - ?n)"
      using n by (simp add: min_def) arith
    then show ?thesis by (simp only: drop_upt)
  qed
  finally show "ring_print (ring_push v r) = drop (Suc (length (ring_print r)) - ?n) (ring_print r @ [v])"
    using n ring_print_upt[OF g] by (simp add: drop_map)
next
  fix k and r :: "'a simple_ring"
  assume "ring_good k r"
  then show "length (ring_print r) \<le> length (ring_buf r)"
    by (simp add: ring_print_def Let_def ring_good_def)
qed

lemma ring_pop_takes_oldest:
  assumes "ring_good k r" "ring_size r \<noteq> 0" "length (ring_buf r) \<le> size_t_limit"
  shows "\<exists>r'. ring_pop debug r = Inr (hd (ring_print r), r') \<and> ring_good k r' \<and>
    ring_print r' = tl (ring_print r)"
proof -
  let ?n = "length (ring_buf r)" and ?s = "ring_size r"
  have s: "(?s + size_t_limit - 1) mod size_t_limit = ?s - 1"
  proof -
    have "?s + size_t_limit - 1 = (?s - 1) + size_t_limit" "?s - 1 < size_t_limit"
      using assms by (auto simp: ring_good_def)
    then show ?thesis by (metis mod_add_self2 mod_less)
  qed
  let ?r = "r\<lparr>ring_size := ?s - 1\<rparr>"
  have good: "ring_good k ?r" using assms by (auto simp: ring_good_def)
  have up: "[?n - ?s..<?n] = (?n - ?s) # [Suc (?n - ?s)..<?n]" "Suc (?n - ?s) = ?n - (?s - 1)"
    using assms(1,2) by (auto simp: ring_good_def upt_conv_Cons)
  have "hd (ring_print r) = ring_buf r ! ((?n + ring_next r - ?s) mod ?n)"
    using ring_print_upt[OF assms(1)] up(1) assms(1) by (simp add: ring_good_def add.commute del: upt_Suc)
  moreover have "ring_print ?r = tl (ring_print r)"
    using ring_print_upt[OF assms(1)] ring_print_upt[OF good] up by simp
  ultimately show ?thesis
    using assms(2) good s by (simp add: ring_pop_def)
qed

lemma iterate_upt:
  assumes "i \<le> j" "j < size_t_limit" "j - i \<le> fuel"
  shows "iterate fuel \<lparr>iter_data = xs, iter_index = i\<rparr> \<lparr>iter_data = xs, iter_index = j\<rparr> =
    Some (map (\<lambda>i. xs ! (i mod length xs)) [i..<j])"
  using assms
proof (induction fuel arbitrary: i)
  case 0
  then show ?case by (simp add: iterator_differs_def iterator_equal_def)
next
  case (Suc fuel)
  then show ?case
    by (cases "i = j") (simp_all add: iterator_differs_def iterator_equal_def iterator_next_def
        iterator_deref_def upt_conv_Cons del: upt_Suc)
qed

section \<open>Properties\<close>

text \<open>After any fewer than \<open>2^64\<close> elements are pushed on a new \<open>circular_buffer\<close> of \<open>N > 0\<close>
  elements, a loop from its begin to its end returns and sees the last \<open>N\<close> of them in order.\<close>

theorem circular_buffer_window:
  assumes "samples b \<noteq> []" "total b = 0" "length vs < size_t_limit"
  defines "b' \<equiv> fold circular_push vs b"
  shows "iterate (length (samples b)) (circular_begin b') (circular_end b') =
    Some (drop (length vs - length (samples b)) vs)"
proof -
  have good: "circular_good (length vs) b" using assms by (simp add: circular_good_def)
  have kept: "circular_good 0 (fold circular_push us c) \<and>
      length (samples (fold circular_push us c)) = length (samples c)"
    if "circular_good (length us) c" for us :: "'a list" and c
    using that
  proof (induction us arbitrary: c)
    case (Cons u us)
    then show ?case using circular.good_push circular.width_push by (metis fold_simps(2) length_Cons)
  qed simp
  have "circular_contents b' = drop (length vs - length (samples b)) vs"
    using circular.pushes[OF good] assms(2) by (simp add: b'_def circular_contents_def circular_size_def)
  moreover have "iterate (length (samples b)) (circular_begin b') (circular_end b') = Some (circular_contents b')"
    unfolding circular_begin_def circular_end_def circular_contents_def
    using kept[OF good] by (intro iterate_upt) (auto simp: b'_def circular_good_def circular_size_def)
  ultimately show ?thesis by simp
qed

theorem circular_buffer_window_witness:
  "iterate 3 (circular_begin (fold circular_push [1, 2, 3, 4, 5 :: int] \<lparr>samples = [0, 0, 0], total = 0\<rparr>))
     (circular_end (fold circular_push [1, 2, 3, 4, 5] \<lparr>samples = [0, 0, 0], total = 0\<rparr>)) = Some [3, 4, 5]"
proof -
  have "length [1, 2, 3, 4, 5 :: int] < size_t_limit" by (simp add: size_t_limit_def)
  from circular_buffer_window[OF _ _ this, of "\<lparr>samples = [0, 0, 0], total = 0\<rparr>"] show ?thesis
    by (simp add: numeral_3_eq_3 del: fold_simps iterate.simps)
qed

text \<open>A \<open>CircularBuffer\<close> of \<open>N\<close> elements shows, after any pushes, the last \<open>N\<close> of what it held
  and what was pushed; while it is not empty, a pop gives the oldest element and leaves the rest.\<close>

theorem ring_is_window:
  assumes "ring_next r < length (ring_buf r)" "ring_size r \<le> length (ring_buf r)"
    "length (ring_buf r) \<le> size_t_limit"
  shows "ring_print (fold ring_push vs r) =
      drop (length (ring_print r @ vs) - length (ring_buf r)) (ring_print r @ vs) \<and>
    (ring_size r \<noteq> 0 \<longrightarrow> (\<exists>r'. ring_pop debug r = Inr (hd (ring_print r), r') \<and>
      ring_print r' = tl (ring_print r)))"
proof -
  have good: "ring_good k r" for k using assms by (simp add: ring_good_def)
  show ?thesis using ring.pushes[OF good] ring_pop_takes_oldest[OF good _ assms(3)] by blast
qed

theorem ring_is_window_witness:
  "ring_print (fold ring_push [3, 4] \<lparr>ring_next = 2, ring_size = 2, ring_buf = [1, 2, 0 :: int]\<rparr>) = [2, 3, 4]"
  using ring_is_window[of "\<lparr>ring_next = 2, ring_size = 2, ring_buf = [1, 2, 0 :: int]\<rparr>" "[3, 4]" True]
  by (simp add: size_t_limit_def ring_print_def upt_rec)

end
