(* ===== verification/Ex_Cache.thy ===== *)
theory Ex_Cache
  imports Prelude
begin

text \<open>
  The two caches of \<open>exercises/simple_lru_cache.cpp\<close>. The arrays are lists of the length of
  the capacity, which is positive; a reference that \<open>operator[]\<close> returns is the index of its
  entry. The nodes of the list of \<open>HashLruCache\<close> never change their content, so the iterator of
  an entry is the entry's place in the list.
\<close>

section \<open>FlatLruCache\<close>

record ('k, 'v) flat_cache =
  flat_keys :: "'k list"
  flat_values :: "'v list"
  use_count :: "u64 list"

text \<open>\<open>std::find\<close> gives the first position, or the end.\<close>

definition find_position :: "'a list \<Rightarrow> 'a \<Rightarrow> nat" where
  "find_position xs x = length (takeWhile (\<lambda>y. y \<noteq> x) xs)"

text \<open>\<open>std::min_element\<close> gives the first least element.\<close>

definition min_position :: "'a::linorder list \<Rightarrow> nat" where
  "min_position xs = find_position xs (Min (set xs))"

definition try_find_index :: "'k \<Rightarrow> ('k, 'v) flat_cache \<Rightarrow> nat \<times> bool" where
  "try_find_index key c =
     (let index = find_position (flat_keys c) key
      in if index \<noteq> length (flat_keys c) \<and> use_count c ! index \<noteq> 0 then (index, True) else (0, False))"

definition flat_index :: "'k \<Rightarrow> ('k, 'v) flat_cache \<Rightarrow> nat \<times> ('k, 'v) flat_cache" where
  "flat_index key c =
     (let (index, found) = try_find_index key c;
          (index, c) = (if \<not> found
            then (let index = min_position (use_count c)
                  in (index, c\<lparr>use_count := (use_count c)[index := 0],
                               flat_keys := (flat_keys c)[index := key]\<rparr>))
            else (index, c))
      in (index, c\<lparr>use_count := (use_count c)[index := use_count c ! index + 1]\<rparr>))"

definition flat_has :: "'k \<Rightarrow> ('k, 'v) flat_cache \<Rightarrow> bool" where
  "flat_has key c = snd (try_find_index key c)"

text \<open>\<open>values_[index] = {}\<close> stores the default value of the type, the argument \<open>none\<close>.\<close>

definition flat_invalidate :: "'v \<Rightarrow> 'k \<Rightarrow> ('k, 'v) flat_cache \<Rightarrow> bool \<times> ('k, 'v) flat_cache" where
  "flat_invalidate none key c =
     (let (index, found) = try_find_index key c
      in (found, if found
                 then c\<lparr>use_count := (use_count c)[index := 0],
                       flat_values := (flat_values c)[index := none]\<rparr>
                 else c))"

section \<open>HashLruCache\<close>

record ('k, 'v) hash_cache =
  entries :: "'v list"
  key_entries :: "'k \<rightharpoonup> nat"
  used_order :: "nat list"

text \<open>The values of the entries are those of the array as it is made.\<close>

definition hash_new :: "'v list \<Rightarrow> ('k, 'v) hash_cache" where
  "hash_new vs = \<lparr>entries = vs, key_entries = Map.empty,
     used_order = foldl (\<lambda>order i. order @ [i]) [] [0..<length vs]\<rparr>"

definition hash_index :: "'k \<Rightarrow> ('k, 'v) hash_cache \<Rightarrow> nat \<times> ('k, 'v) hash_cache" where
  "hash_index key c =
     (let (used, c') = (case key_entries c key of
            Some e \<Rightarrow> (e, c)
          | None \<Rightarrow> (last (used_order c), c\<lparr>key_entries := (key_entries c)(key \<mapsto> last (used_order c))\<rparr>))
      in (used, c'\<lparr>used_order := used # remove1 used (used_order c')\<rparr>))"

definition hash_has :: "'k \<Rightarrow> ('k, 'v) hash_cache \<Rightarrow> bool" where
  "hash_has key c \<longleftrightarrow> key_entries c key \<noteq> None"

definition hash_invalidate :: "'v \<Rightarrow> 'k \<Rightarrow> ('k, 'v) hash_cache \<Rightarrow> bool \<times> ('k, 'v) hash_cache" where
  "hash_invalidate none key c =
     (case key_entries c key of
        Some e \<Rightarrow> (True, c\<lparr>entries := (entries c)[e := none], key_entries := (key_entries c)(key := None)\<rparr>)
      | None \<Rightarrow> (False, c))"

text \<open>\<open>cache[key] = v\<close> and a read of \<open>cache[key]\<close>.\<close>

definition hash_store :: "'k \<Rightarrow> 'v \<Rightarrow> ('k, 'v) hash_cache \<Rightarrow> ('k, 'v) hash_cache" where
  "hash_store key v c = (let (e, c') = hash_index key c in c'\<lparr>entries := (entries c')[e := v]\<rparr>)"

definition hash_fetch :: "'k \<Rightarrow> ('k, 'v) hash_cache \<Rightarrow> 'v \<times> ('k, 'v) hash_cache" where
  "hash_fetch key c = (let (e, c') = hash_index key c in (entries c' ! e, c'))"

section \<open>Lemmas on the flat cache\<close>

lemma find_position_le: "find_position xs x \<le> length xs"
  by (simp add: find_position_def length_takeWhile_le)

lemma find_position_less_iff: "find_position xs x < length xs \<longleftrightarrow> x \<in> set xs"
  unfolding find_position_def
  by (metis (mono_tags, lifting) length_takeWhile_le nat_less_le takeWhile_eq_all_conv takeWhile_eq_take take_all_iff order_refl)

lemma find_position_hit: "x \<in> set xs \<Longrightarrow> xs ! find_position xs x = x"
  unfolding find_position_def
  using nth_length_takeWhile[of "\<lambda>y. y \<noteq> x" xs] find_position_less_iff[of xs x]
  by (simp add: find_position_def)

lemma find_position_before: "i < find_position xs x \<Longrightarrow> xs ! i \<noteq> x"
  unfolding find_position_def by (metis (mono_tags) nth_mem set_takeWhileD takeWhile_nth)

lemma find_position_eqI:
  assumes "i < length xs" "xs ! i = x" "\<And>j. j < i \<Longrightarrow> xs ! j \<noteq> x"
  shows "find_position xs x = i"
proof -
  have "x \<in> set xs" using assms(1,2) by auto
  then show ?thesis
    using assms find_position_hit find_position_before by (metis nat_neq_iff)
qed

text \<open>A key that is in use is at the first of its positions.\<close>

definition flat_inv :: "('k, 'v) flat_cache \<Rightarrow> bool" where
  "flat_inv c \<longleftrightarrow> 0 < length (flat_keys c) \<and> length (flat_values c) = length (flat_keys c) \<and>
     length (use_count c) = length (flat_keys c) \<and>
     (\<forall>j < length (flat_keys c). use_count c ! j \<noteq> 0 \<longrightarrow>
       (\<forall>i < j. flat_keys c ! i \<noteq> flat_keys c ! j))"

lemma flat_has_iff:
  assumes "flat_inv c"
  shows "flat_has key c \<longleftrightarrow> (\<exists>j < length (flat_keys c). flat_keys c ! j = key \<and> use_count c ! j \<noteq> 0)"
proof
  assume "flat_has key c"
  then show "\<exists>j < length (flat_keys c). flat_keys c ! j = key \<and> use_count c ! j \<noteq> 0"
    using find_position_le[of "flat_keys c" key] find_position_less_iff[of "flat_keys c" key]
      find_position_hit[of key "flat_keys c"]
    by (intro exI[of _ "find_position (flat_keys c) key"])
      (auto simp: flat_has_def try_find_index_def Let_def split: if_splits)
next
  assume "\<exists>j < length (flat_keys c). flat_keys c ! j = key \<and> use_count c ! j \<noteq> 0"
  then obtain j where j: "j < length (flat_keys c)" "flat_keys c ! j = key" "use_count c ! j \<noteq> 0" by blast
  then have "find_position (flat_keys c) key = j"
    using assms by (intro find_position_eqI) (auto simp: flat_inv_def)
  then show "flat_has key c" using j by (simp add: flat_has_def try_find_index_def)
qed

lemma min_position_props:
  assumes "xs \<noteq> []"
  shows "min_position xs < length xs" "xs ! min_position xs = Min (set xs)"
    "i < min_position xs \<Longrightarrow> Min (set xs) < xs ! i"
proof -
  have m: "Min (set xs) \<in> set xs" using assms by simp
  show l: "min_position xs < length xs" "xs ! min_position xs = Min (set xs)"
    using m by (simp_all add: min_position_def find_position_less_iff find_position_hit)
  assume i: "i < min_position xs"
  then have "xs ! i \<noteq> Min (set xs)" unfolding min_position_def by (rule find_position_before)
  moreover have "Min (set xs) \<le> xs ! i" using i l(1) by simp
  ultimately show "Min (set xs) < xs ! i" by simp
qed

lemma flat_index_found:
  assumes "flat_inv c" "flat_has key c"
  shows "\<exists>j < length (flat_keys c). flat_keys c ! j = key \<and> use_count c ! j \<noteq> 0 \<and>
    flat_index key c = (j, c\<lparr>use_count := (use_count c)[j := use_count c ! j + 1]\<rparr>)"
  using assms find_position_le[of "flat_keys c" key] find_position_less_iff[of "flat_keys c" key]
    find_position_hit[of key "flat_keys c"]
  by (auto simp: flat_has_def flat_index_def try_find_index_def Let_def split: if_splits)

lemma flat_index_missing:
  assumes "\<not> flat_has key c" "length (use_count c) = length (flat_keys c)" "flat_keys c \<noteq> []"
  defines "j \<equiv> min_position (use_count c)"
  shows "flat_index key c = (j, c\<lparr>use_count := (use_count c)[j := 1], flat_keys := (flat_keys c)[j := key]\<rparr>)"
proof -
  have "try_find_index key c = (0, False)"
    using assms(1) by (auto simp: flat_has_def try_find_index_def Let_def split: if_splits)
  moreover have "j < length (use_count c)"
    using min_position_props(1)[of "use_count c"] assms(2,3) by (cases "use_count c") (auto simp: j_def)
  ultimately show ?thesis by (simp add: flat_index_def j_def Let_def)
qed

lemma flat_inv_index:
  assumes "flat_inv c" "\<forall>n\<in>set (use_count c). n \<noteq> - 1"
  shows "flat_inv (snd (flat_index key c))"
proof (cases "flat_has key c")
  case True
  then show ?thesis
    using flat_index_found[OF assms(1) True] assms(1)
    by (auto simp: flat_inv_def nth_list_update split: if_splits)
next
  case False
  let ?j = "min_position (use_count c)"
  have len: "length (use_count c) = length (flat_keys c)" "flat_keys c \<noteq> []" "use_count c \<noteq> []"
    using assms(1) by (auto simp: flat_inv_def)
  have absent: "flat_keys c ! i \<noteq> key" if "i < length (flat_keys c)" "use_count c ! i \<noteq> 0" for i
    using False that flat_has_iff[OF assms(1)] by blast
  have live: "use_count c ! i \<noteq> 0" if "i < ?j" for i
    using min_position_props(3)[OF len(3) that] by auto
  have j: "?j < length (flat_keys c)" using min_position_props(1)[OF len(3)] len(1) by simp
  have "flat_inv (c\<lparr>use_count := (use_count c)[?j := 1], flat_keys := (flat_keys c)[?j := key]\<rparr>)"
    using assms(1) absent live j len(1) less_trans[OF _ j]
    unfolding flat_inv_def by (auto simp: nth_list_update)
  then show ?thesis using flat_index_missing[OF False len(1,2)] by simp
qed

lemma flat_invalidate_ok:
  assumes "flat_inv c"
  shows "flat_inv (snd (flat_invalidate none key c)) \<and> \<not> flat_has key (snd (flat_invalidate none key c)) \<and>
    fst (flat_invalidate none key c) = flat_has key c"
proof (cases "flat_has key c")
  case True
  define j where "j = find_position (flat_keys c) key"
  have t: "try_find_index key c = (j, True)"
    using True by (auto simp: flat_has_def try_find_index_def Let_def j_def split: if_splits)
  have j: "j < length (flat_keys c)"
    using True find_position_le[of "flat_keys c" key]
    by (auto simp: flat_has_def try_find_index_def Let_def j_def split: if_splits)
  let ?c = "c\<lparr>use_count := (use_count c)[j := 0], flat_values := (flat_values c)[j := none]\<rparr>"
  have inv: "flat_inv ?c" using assms j by (auto simp: flat_inv_def nth_list_update split: if_splits)
  have "\<not> flat_has key ?c"
  proof
    assume "flat_has key ?c"
    then obtain i where i: "i < length (flat_keys c)" "flat_keys c ! i = key" "i \<noteq> j" "use_count c ! i \<noteq> 0"
      using flat_has_iff[OF inv] assms j by (auto simp: nth_list_update flat_inv_def split: if_splits)
    then have "find_position (flat_keys c) key = i"
      using assms by (intro find_position_eqI) (auto simp: flat_inv_def)
    then show False using i(3) by (simp add: j_def)
  qed
  then show ?thesis using True inv t by (simp add: flat_invalidate_def)
next
  case False
  then have "try_find_index key c = (0, False)"
    by (auto simp: flat_has_def try_find_index_def Let_def split: if_splits)
  then show ?thesis using False assms by (simp add: flat_invalidate_def)
qed

section \<open>Lemmas on the hash cache\<close>

text \<open>While nothing is invalidated, the entries in use are the first ones of the order.\<close>

definition hash_inv :: "('k, 'v) hash_cache \<Rightarrow> bool" where
  "hash_inv c \<longleftrightarrow> distinct (used_order c) \<and> set (used_order c) = {..<length (entries c)} \<and>
     finite (dom (key_entries c)) \<and> inj_on (key_entries c) (dom (key_entries c)) \<and>
     ran (key_entries c) = set (take (card (dom (key_entries c))) (used_order c))"

definition hash_agrees :: "('k \<rightharpoonup> 'v) \<Rightarrow> ('k, 'v) hash_cache \<Rightarrow> bool" where
  "hash_agrees m c \<longleftrightarrow> hash_inv c \<and> dom (key_entries c) = dom m \<and>
     (\<forall>k e. key_entries c k = Some e \<longrightarrow> m k = Some (entries c ! e))"

lemma hash_new_order [simp]: "used_order (hash_new vs) = [0..<length vs]"
proof -
  have "foldl (\<lambda>order i. order @ [i]) ys xs = ys @ xs" for ys xs :: "nat list"
    by (induction xs arbitrary: ys) simp_all
  then show ?thesis by (simp add: hash_new_def)
qed

lemma hash_new_keys [simp]: "key_entries (hash_new vs) = Map.empty" "entries (hash_new vs) = vs"
  by (simp_all add: hash_new_def)

lemma hash_agrees_new: "hash_agrees Map.empty (hash_new vs)"
  by (auto simp: hash_agrees_def hash_inv_def)

lemma set_take_move:
  assumes "distinct xs" "x \<in> set (take n xs)"
  shows "set (take n (x # remove1 x xs)) = set (take n xs)"
proof -
  obtain ys zs where xs: "xs = ys @ x # zs" using assms(2) by (meson in_set_takeD split_list)
  have n: "length ys < n"
    using assms xs by (auto simp: take_Cons' split: if_splits dest: in_set_takeD)
  have "x \<notin> set ys" using assms(1) xs by simp
  then have "remove1 x xs = ys @ zs" by (simp add: xs remove1_append)
  moreover obtain m where "n = length ys + Suc m" using n less_iff_Suc_add by auto
  ultimately show ?thesis by (auto simp: xs)
qed

lemma insert_remove1: "insert x (set (remove1 x xs)) = insert x (set xs)"
  by (induction xs) auto

lemma remove1_last: "distinct xs \<Longrightarrow> xs \<noteq> [] \<Longrightarrow> remove1 (last xs) xs = butlast xs"
  by (induction xs) auto

lemma hash_index_ok:
  assumes "hash_inv c" "key \<in> dom (key_entries c) \<or> card (dom (key_entries c)) < length (entries c)"
  shows "\<exists>e c'. hash_index key c = (e, c') \<and> hash_inv c' \<and> entries c' = entries c \<and> e < length (entries c) \<and>
    key_entries c' = (key_entries c)(key \<mapsto> e) \<and> (\<forall>k. k \<noteq> key \<longrightarrow> key_entries c k \<noteq> Some e)"
proof (cases "key_entries c key")
  case (Some e)
  let ?n = "card (dom (key_entries c))"
  have e: "e \<in> set (take ?n (used_order c))" "e \<in> set (used_order c)"
    using assms(1) Some by (auto simp: hash_inv_def ran_def dest: in_set_takeD)
  let ?c = "c\<lparr>used_order := e # remove1 e (used_order c)\<rparr>"
  have "hash_inv ?c"
    using assms(1) e set_take_move[of "used_order c" e ?n] by (auto simp: hash_inv_def)
  moreover have "key_entries c k \<noteq> Some e" if "k \<noteq> key" for k
    using assms(1) Some that by (auto simp: hash_inv_def inj_on_def) (metis domI)
  ultimately show ?thesis
    using Some e assms(1) by (auto simp: hash_index_def hash_inv_def fun_upd_idem)
next
  case None
  let ?n = "card (dom (key_entries c))" and ?e = "last (used_order c)"
  have d: "distinct (used_order c)" "set (used_order c) = {..<length (entries c)}"
    using assms(1) by (auto simp: hash_inv_def)
  then have len: "length (used_order c) = length (entries c)" by (metis card_lessThan distinct_card)
  have n: "?n < length (used_order c)" using assms(2) None len by auto
  then have ne: "used_order c \<noteq> []" by auto
  have e: "?e < length (entries c)" using ne d(2) by (metis last_in_set lessThan_iff)
  have r: "remove1 ?e (used_order c) = butlast (used_order c)" using d(1) ne by (rule remove1_last)
  have fresh: "?e \<notin> set (take ?n (used_order c))"
    using d(1) n ne by (metis (no_types, lifting) append_butlast_last_id distinct_append in_set_takeD
        length_append_singleton less_Suc_eq_le not_distinct_conv_prefix disjoint_iff list.set_intros(1) take_all_iff take_append take_butlast)
  let ?c = "c\<lparr>key_entries := (key_entries c)(key \<mapsto> ?e), used_order := ?e # butlast (used_order c)\<rparr>"
  have k: "key \<notin> dom (key_entries c)" using None by auto
  have "ran ((key_entries c)(key \<mapsto> ?e)) = insert ?e (set (take ?n (used_order c)))"
    using assms(1) None by (simp add: hash_inv_def)
  moreover have "take ?n (butlast (used_order c)) = take ?n (used_order c)"
    using n by (simp add: take_butlast)
  moreover have "inj_on ((key_entries c)(key \<mapsto> ?e)) (insert key (dom (key_entries c)))"
    using assms(1) k fresh unfolding hash_inv_def inj_on_def ran_def by (auto simp: domIff)
  moreover have "distinct (?e # butlast (used_order c))" "set (?e # butlast (used_order c)) = {..<length (entries c)}"
    using d ne r by (metis distinct_remove1 distinct.simps(2) set_remove1_eq insert_Diff last_in_set list.set(2) Diff_iff insertI1)+
  ultimately have "hash_inv ?c"
    using assms(1) k by (simp add: hash_inv_def)
  moreover have "key_entries c k \<noteq> Some ?e" for k
    using fresh assms(1) by (auto simp: hash_inv_def ran_def)
  ultimately show ?thesis
    using None e r by (auto simp: hash_index_def)
qed

section \<open>Properties\<close>

text \<open>The flat cache finds what it was asked for, while no use count is at its maximum: after
  \<open>operator[]\<close> the key is in use at the entry returned, an access to a key in use keeps all
  others in use, and after \<open>invalidate\<close> the key is not in use. What a new key replaces is the least
  often used entry, not the least recently used one, and the value under the new key is
  the one of the key it replaces.\<close>

theorem flat_cache_lookup:
  fixes c :: "('k, 'v) flat_cache" and key :: 'k
  assumes "flat_inv c" "\<forall>n\<in>set (use_count c). n \<noteq> - 1"
  defines "i \<equiv> fst (flat_index key c)" and "c' \<equiv> snd (flat_index key c)"
  shows "flat_inv c' \<and> flat_has key c' \<and> flat_keys c' ! i = key \<and> flat_values c' = flat_values c \<and>
    (flat_has key c \<longrightarrow> (\<forall>k. flat_has k c' = flat_has k c)) \<and>
    (\<not> flat_has key c \<longrightarrow> (\<forall>n\<in>set (use_count c). use_count c ! i \<le> n)) \<and>
    flat_inv (snd (flat_invalidate none key c)) \<and> \<not> flat_has key (snd (flat_invalidate none key c))"
proof -
  have inv: "flat_inv c'" unfolding c'_def using assms(1,2) by (rule flat_inv_index)
  have len: "length (use_count c) = length (flat_keys c)" "flat_keys c \<noteq> []" "use_count c \<noteq> []"
    using assms(1) by (auto simp: flat_inv_def)
  have nowrap: "use_count c ! j + 1 \<noteq> 0" if "j < length (flat_keys c)" for j
    using assms(2) that len(1) by (metis add_eq_0_iff2 nth_mem)
  have inval: "flat_inv (snd (flat_invalidate none key c)) \<and> \<not> flat_has key (snd (flat_invalidate none key c))"
    using flat_invalidate_ok[OF assms(1)] by blast
  show ?thesis
  proof (cases "flat_has key c")
    case True
    obtain j where j: "j < length (flat_keys c)" "flat_keys c ! j = key" "use_count c ! j \<noteq> 0"
      "flat_index key c = (j, c\<lparr>use_count := (use_count c)[j := use_count c ! j + 1]\<rparr>)"
      using flat_index_found[OF assms(1) True] by blast
    have "flat_has k c' = flat_has k c" for k
      using flat_has_iff[OF inv] flat_has_iff[OF assms(1)] j nowrap[OF j(1)] len(1)
      by (auto simp: c'_def nth_list_update)
    then show ?thesis using inv inval True j by (simp add: i_def c'_def)
  next
    case False
    let ?j = "min_position (use_count c)"
    have idx: "flat_index key c = (?j, c\<lparr>use_count := (use_count c)[?j := 1], flat_keys := (flat_keys c)[?j := key]\<rparr>)"
      by (rule flat_index_missing[OF False len(1,2)])
    have j: "?j < length (flat_keys c)" using min_position_props(1)[OF len(3)] len(1) by simp
    have "flat_has key c'"
      using flat_has_iff[OF inv] idx j len(1) by (auto simp: c'_def intro!: exI[of _ ?j])
    then show ?thesis
      using inv inval False idx j min_position_props(2)[OF len(3)] len(1) by (simp add: i_def c'_def)
  qed
qed

theorem flat_cache_lookup_witness:
  "flat_has ''c'' (snd (flat_index ''c'' \<lparr>flat_keys = [''a'', ''b''], flat_values = [1 :: int, 2], use_count = [2, 1]\<rparr>))"
proof -
  have inv: "flat_inv \<lparr>flat_keys = [''a'', ''b''], flat_values = [1 :: int, 2], use_count = [2, 1]\<rparr>"
    by (simp add: flat_inv_def less_Suc_eq numeral_2_eq_2)
  show ?thesis using flat_cache_lookup[OF inv, of "''c''"] by simp
qed

text \<open>While at most as many keys as there are entries have been used, the hash cache is a map:
  storing under a key and fetching it agree with the same on a map from keys to values.\<close>

theorem hash_cache_refines_map:
  assumes "hash_agrees m c" "card (insert key (dom m)) \<le> length (entries c)"
  shows "hash_agrees (m(key \<mapsto> v)) (hash_store key v c) \<and>
    length (entries (hash_store key v c)) = length (entries c) \<and>
    (key \<in> dom m \<longrightarrow> Some (fst (hash_fetch key c)) = m key \<and> hash_agrees m (snd (hash_fetch key c))) \<and>
    (\<forall>k. hash_has k c \<longleftrightarrow> k \<in> dom m)"
proof -
  have inv: "hash_inv c" and d: "dom (key_entries c) = dom m"
    and vals: "\<And>k e. key_entries c k = Some e \<Longrightarrow> m k = Some (entries c ! e)"
    using assms(1) by (auto simp: hash_agrees_def)
  have "finite (dom m)" using inv d by (simp add: hash_inv_def)
  then have room: "key \<in> dom (key_entries c) \<or> card (dom (key_entries c)) < length (entries c)"
    using assms(2) d by (cases "key \<in> dom m") auto
  obtain e c' where ok: "hash_index key c = (e, c')" "hash_inv c'" "entries c' = entries c"
    "e < length (entries c)" "key_entries c' = (key_entries c)(key \<mapsto> e)"
    "\<forall>k. k \<noteq> key \<longrightarrow> key_entries c k \<noteq> Some e"
    using hash_index_ok[OF inv room] by blast
  have stored: "hash_agrees (m(key \<mapsto> v)) (hash_store key v c)"
    unfolding hash_agrees_def
  proof (intro conjI allI impI)
    show "hash_inv (hash_store key v c)"
      using ok(2) by (simp add: hash_store_def ok(1) hash_inv_def)
    show "dom (key_entries (hash_store key v c)) = dom (m(key \<mapsto> v))"
      using d by (simp add: hash_store_def ok(1,5))
    fix k f assume "key_entries (hash_store key v c) k = Some f"
    then show "(m(key \<mapsto> v)) k = Some (entries (hash_store key v c) ! f)"
      using ok vals by (auto simp: hash_store_def split: if_splits)
  qed
  have "Some (fst (hash_fetch key c)) = m key \<and> hash_agrees m (snd (hash_fetch key c))" if k: "key \<in> dom m"
  proof -
    obtain f where f: "key_entries c key = Some f" using k d by blast
    then have "hash_index key c = (f, c\<lparr>used_order := f # remove1 f (used_order c)\<rparr>)"
      by (simp add: hash_index_def)
    then have "e = f" "c' = c\<lparr>used_order := f # remove1 f (used_order c)\<rparr>" using ok(1) by simp_all
    then show ?thesis
      using ok(1,2) f vals d by (simp add: hash_fetch_def hash_agrees_def)
  qed
  then show ?thesis
    using stored ok d by (auto simp: hash_store_def hash_has_def)
qed

theorem hash_cache_refines_map_witness:
  "fst (hash_fetch ''k'' (hash_store ''k'' 5 (hash_new [0, 0, 0 :: int]))) = 5"
proof -
  have one: "hash_agrees [''k'' \<mapsto> 5] (hash_store ''k'' 5 (hash_new [0, 0, 0 :: int]))"
    "length (entries (hash_store ''k'' 5 (hash_new [0, 0, 0 :: int]))) = 3"
    using hash_cache_refines_map[OF hash_agrees_new, of "''k''" "[0, 0, 0 :: int]" 5]
    by (simp_all add: hash_new_def)
  then show ?thesis using hash_cache_refines_map[OF one(1), of "''k''" 0] by simp
qed

text \<open>The hash cache never evicts: every key it was indexed with stays, so once more keys than
  entries have been used, two of them share an entry.\<close>

theorem hash_cache_never_evicts:
  fixes vs :: "'v list" and ks :: "'k list"
  assumes "vs \<noteq> []" "length vs < card (set ks)"
  defines "c \<equiv> fold (\<lambda>k c. snd (hash_index k c)) ks (hash_new vs)"
  shows "(\<forall>k\<in>set ks. hash_has k c) \<and>
    (\<exists>k\<in>set ks. \<exists>l\<in>set ks. k \<noteq> l \<and> key_entries c k = key_entries c l)"
proof -
  have step: "dom (key_entries (fold (\<lambda>k c. snd (hash_index k c)) us b)) = dom (key_entries b) \<union> set us \<and>
      ran (key_entries (fold (\<lambda>k c. snd (hash_index k c)) us b)) \<subseteq> {..<n}"
    if "set (used_order b) = {..<n}" "ran (key_entries b) \<subseteq> {..<n}" "0 < n" for us and b :: "('k, 'v) hash_cache" and n
    using that
  proof (induction us arbitrary: b)
    case (Cons u us)
    have ne: "used_order b \<noteq> []" using Cons.prems by auto
    have e: "fst (hash_index u b) \<in> set (used_order b)"
      using Cons.prems ne by (auto simp: hash_index_def ran_def split: option.split)
    have "set (used_order (snd (hash_index u b))) = {..<n}"
      using e Cons.prems(1) by (auto simp: hash_index_def insert_remove1 split: option.splits)
    moreover have "ran (key_entries (snd (hash_index u b))) \<subseteq> {..<n}"
      using e Cons.prems(1,2) by (auto simp: hash_index_def ran_def split: option.splits if_splits)
    moreover have "dom (key_entries (snd (hash_index u b))) = insert u (dom (key_entries b))"
      by (auto simp: hash_index_def split: option.splits)
    ultimately show ?case using Cons.IH[of "snd (hash_index u b)"] Cons.prems(3) by simp
  qed simp
  have d: "dom (key_entries c) = set ks" and r: "ran (key_entries c) \<subseteq> {..<length vs}"
    using step[of "hash_new vs" "length vs" ks] assms(1)
    by (simp_all add: c_def atLeast0LessThan)
  have "card ((\<lambda>k. the (key_entries c k)) ` set ks) \<le> card {..<length vs}"
  proof (intro card_mono)
    show "(\<lambda>k. the (key_entries c k)) ` set ks \<subseteq> {..<length vs}"
    proof clarify
      fix k assume "k \<in> set ks"
      then obtain e where "key_entries c k = Some e" using d by blast
      then show "the (key_entries c k) < length vs" using r by (auto dest: ranI)
    qed
  qed simp
  then have "\<not> inj_on (\<lambda>k. the (key_entries c k)) (set ks)"
    using assms(2) pigeonhole by (metis card_lessThan card_image not_less)
  then show ?thesis
    using d by (auto simp: inj_on_def hash_has_def domIff) (metis domIff option.expand)
qed

theorem hash_cache_never_evicts_witness:
  "\<exists>k\<in>{''a'', ''b'', ''c''}. \<exists>l\<in>{''a'', ''b'', ''c''}. k \<noteq> l \<and>
     key_entries (fold (\<lambda>k c. snd (hash_index k c)) [''a'', ''b'', ''c''] (hash_new [0, 0 :: int])) k =
     key_entries (fold (\<lambda>k c. snd (hash_index k c)) [''a'', ''b'', ''c''] (hash_new [0, 0 :: int])) l"
proof -
  have "[0, 0 :: int] \<noteq> []" "length [0, 0 :: int] < card (set [''a'', ''b'', ''c''])" by simp_all
  from hash_cache_never_evicts[OF this] show ?thesis unfolding list.set by (rule conjunct2)
qed

end
