(* ===== verification/Ex_Bst.thy ===== *)
theory Ex_Bst
  imports Prelude "HOL-Library.Tree"
begin

text \<open>
  The binary search tree of \<open>exercises/bst.cpp\<close>, over an explicit store: a node is at an
  address, null is zero, and the member that a \<open>Node **\<close> points to is named by a link. A loop or
  a recursion over the nodes may not return, since an erasure can make a cycle: \<open>None\<close> is
  not returning, and the outcome inside carries the access to a node that is not there.
\<close>

section \<open>The store\<close>

record 'a bst_node =
  node_value :: 'a
  node_left :: nat
  node_right :: nat

type_synonym 'a bst_store = "nat \<rightharpoonup> 'a bst_node"

datatype link = No_link | Left_of nat | Right_of nat

record 'a bst =
  bst_size :: u64
  bst_head :: nat
  bst_fresh :: nat
  bst_heap :: "'a bst_store"

definition bst_new :: "'a bst" where
  "bst_new = \<lparr>bst_size = 0, bst_head = 0, bst_fresh = 1, bst_heap = Map.empty\<rparr>"

definition new_node :: "'a \<Rightarrow> 'a bst_node" where
  "new_node v = \<lparr>node_value = v, node_left = 0, node_right = 0\<rparr>"

text \<open>\<open>*link = n\<close>, for a link to a member.\<close>

fun assign_link :: "link \<Rightarrow> nat \<Rightarrow> 'a bst_store \<Rightarrow> 'a bst_store outcome" where
  "assign_link No_link n h = Inl Undefined"
| "assign_link (Left_of a) n h =
     (case h a of None \<Rightarrow> Inl Undefined | Some nd \<Rightarrow> Inr (h(a \<mapsto> nd\<lparr>node_left := n\<rparr>)))"
| "assign_link (Right_of a) n h =
     (case h a of None \<Rightarrow> Inl Undefined | Some nd \<Rightarrow> Inr (h(a \<mapsto> nd\<lparr>node_right := n\<rparr>)))"

definition node_at :: "'a bst_store \<Rightarrow> nat \<Rightarrow> 'a bst_node outcome" where
  "node_at h a = (case h a of None \<Rightarrow> Inl Undefined | Some nd \<Rightarrow> Inr nd)"

section \<open>Finding\<close>

partial_function (option) find_from ::
    "('a::linorder) bst_store \<Rightarrow> 'a \<Rightarrow> link \<Rightarrow> nat \<Rightarrow> (link \<times> nat) outcome option" where
  "find_from h v link node =
     (if node = 0 then Some (Inr (link, node))
      else case h node of
        None \<Rightarrow> Some (Inl Undefined)
      | Some nd \<Rightarrow>
          if v = node_value nd then Some (Inr (link, node))
          else if v < node_value nd then find_from h v (Left_of node) (node_left nd)
          else find_from h v (Right_of node) (node_right nd))"

definition bst_find :: "('a::linorder) bst \<Rightarrow> 'a \<Rightarrow> (link \<times> nat) outcome option" where
  "bst_find s v = find_from (bst_heap s) v No_link (bst_head s)"

partial_function (option) rotate_left_from ::
    "'a bst_store \<Rightarrow> link \<Rightarrow> nat \<Rightarrow> (link \<times> nat) outcome option" where
  "rotate_left_from h link node =
     (case h node of
        None \<Rightarrow> Some (Inl Undefined)
      | Some nd \<Rightarrow>
          if node_left nd = 0 then Some (Inr (link, node))
          else rotate_left_from h (Left_of node) (node_left nd))"

definition find_rotate_left :: "'a bst_store \<Rightarrow> nat \<Rightarrow> (link \<times> nat) outcome option" where
  "find_rotate_left h n = rotate_left_from h No_link n"

section \<open>Inserting and erasing\<close>

definition bst_insert :: "('a::linorder) \<Rightarrow> 'a bst \<Rightarrow> (nat \<times> 'a bst) outcome option" where
  "bst_insert v s = map_option (\<lambda>r. and_then r (\<lambda>(link, node).
     if node \<noteq> 0 then Inr (node, s)
     else (let n = bst_fresh s;
               s = s\<lparr>bst_heap := (bst_heap s)(n \<mapsto> new_node v), bst_fresh := n + 1, bst_size := bst_size s + 1\<rparr>
           in if link \<noteq> No_link
              then and_then (assign_link link n (bst_heap s)) (\<lambda>h. Inr (n, s\<lparr>bst_heap := h\<rparr>))
              else Inr (n, s\<lparr>bst_head := n\<rparr>)))) (bst_find s v)"

text \<open>The node that takes the place of one with two children, after it has been found at
  \<open>(rlink, rnode)\<close>.\<close>

definition replace_node :: "link \<Rightarrow> nat \<Rightarrow> (link \<times> nat) \<Rightarrow> 'a bst_store \<Rightarrow> 'a bst_store outcome" where
  "replace_node link node r h = (case r of (rlink, rnode) \<Rightarrow>
     and_then (if rlink \<noteq> No_link
       then and_then (node_at h rnode) (\<lambda>rn.
              if node_right rn \<noteq> 0 then assign_link rlink (node_right rn) h else assign_link rlink 0 h)
       else Inr h) (\<lambda>h.
     and_then (node_at h node) (\<lambda>nd.
     and_then (assign_link (Left_of rnode) (node_left nd) h) (\<lambda>h.
     and_then (node_at h node) (\<lambda>nd.
     and_then (assign_link (Right_of rnode) (node_right nd) h) (\<lambda>h.
     assign_link link rnode h))))))"

text \<open>The changes of the links when the node found has one.\<close>

definition unlink_node :: "link \<Rightarrow> nat \<Rightarrow> 'a bst_store \<Rightarrow> 'a bst_store outcome option" where
  "unlink_node link node h = (case h node of
       None \<Rightarrow> Some (Inl Undefined)
     | Some nd \<Rightarrow>
         if node_left nd \<noteq> 0 \<and> node_right nd \<noteq> 0
         then map_option (\<lambda>r. and_then r (\<lambda>r. replace_node link node r h)) (find_rotate_left h (node_right nd))
         else if node_left nd \<noteq> 0 \<and> node_right nd = 0 then Some (assign_link link (node_left nd) h)
         else if node_left nd = 0 \<and> node_right nd \<noteq> 0 then Some (assign_link link (node_right nd) h)
         else Some (assign_link link 0 h))"

text \<open>\<open>erase\<close> always returns null.\<close>

definition bst_erase :: "('a::linorder) \<Rightarrow> 'a bst \<Rightarrow> (nat \<times> 'a bst) outcome option" where
  "bst_erase v s = Option.bind (bst_find s v) (\<lambda>r. case r of
       Inl e \<Rightarrow> Some (Inl e)
     | Inr (link, node) \<Rightarrow>
         if node = 0 then Some (Inr (0, s))
         else map_option (\<lambda>r. and_then r (\<lambda>s.
             Inr (0, s\<lparr>bst_heap := (bst_heap s)(node := None), bst_size := bst_size s - 1\<rparr>)))
           (if link \<noteq> No_link
            then map_option (\<lambda>r. and_then r (\<lambda>h. Inr (s\<lparr>bst_heap := h\<rparr>))) (unlink_node link node (bst_heap s))
            else Some (Inr (s\<lparr>bst_head := 0\<rparr>))))"

section \<open>Traversals\<close>

text \<open>The values that the function is applied to, in order.\<close>

partial_function (option) apply_inorder :: "'a bst_store \<Rightarrow> nat \<Rightarrow> 'a list outcome option" where
  "apply_inorder h n =
     (if n = 0 then Some (Inr [])
      else case h n of None \<Rightarrow> Some (Inl Undefined) | Some nd \<Rightarrow>
        Option.bind (apply_inorder h (node_left nd)) (\<lambda>l. case l of Inl e \<Rightarrow> Some (Inl e) | Inr xs \<Rightarrow>
          Option.bind (apply_inorder h (node_right nd)) (\<lambda>r. case r of Inl e \<Rightarrow> Some (Inl e) | Inr ys \<Rightarrow>
            Some (Inr (xs @ node_value nd # ys)))))"

partial_function (option) apply_preorder :: "'a bst_store \<Rightarrow> nat \<Rightarrow> 'a list outcome option" where
  "apply_preorder h n =
     (if n = 0 then Some (Inr [])
      else case h n of None \<Rightarrow> Some (Inl Undefined) | Some nd \<Rightarrow>
        Option.bind (apply_preorder h (node_left nd)) (\<lambda>l. case l of Inl e \<Rightarrow> Some (Inl e) | Inr xs \<Rightarrow>
          Option.bind (apply_preorder h (node_right nd)) (\<lambda>r. case r of Inl e \<Rightarrow> Some (Inl e) | Inr ys \<Rightarrow>
            Some (Inr (node_value nd # xs @ ys)))))"

partial_function (option) apply_postorder :: "'a bst_store \<Rightarrow> nat \<Rightarrow> 'a list outcome option" where
  "apply_postorder h n =
     (if n = 0 then Some (Inr [])
      else case h n of None \<Rightarrow> Some (Inl Undefined) | Some nd \<Rightarrow>
        Option.bind (apply_postorder h (node_left nd)) (\<lambda>l. case l of Inl e \<Rightarrow> Some (Inl e) | Inr xs \<Rightarrow>
          Option.bind (apply_postorder h (node_right nd)) (\<lambda>r. case r of Inl e \<Rightarrow> Some (Inl e) | Inr ys \<Rightarrow>
            Some (Inr (xs @ ys @ [node_value nd])))))"

definition bst_apply :: "'a bst \<Rightarrow> 'a list outcome option" where
  "bst_apply s = apply_inorder (bst_heap s) (bst_head s)"

section \<open>The tree in the store\<close>

text \<open>A tree of addresses and values, for the properties.\<close>

fun tree_at :: "'a bst_store \<Rightarrow> nat \<Rightarrow> (nat \<times> 'a) tree \<Rightarrow> bool" where
  "tree_at h p Leaf \<longleftrightarrow> p = 0"
| "tree_at h p (Node l (a, v) r) \<longleftrightarrow> p = a \<and> a \<noteq> 0 \<and>
     (case h a of None \<Rightarrow> False
      | Some nd \<Rightarrow> node_value nd = v \<and> tree_at h (node_left nd) l \<and> tree_at h (node_right nd) r)"

definition places :: "(nat \<times> 'a) tree \<Rightarrow> nat set" where
  "places t = fst ` set_tree t"

definition values_of :: "(nat \<times> 'a) tree \<Rightarrow> 'a list" where
  "values_of t = map snd (inorder t)"

lemma places_simps [simp]:
  "places Leaf = {}" "places (Node l x r) = insert (fst x) (places l \<union> places r)"
  by (auto simp: places_def)

lemma values_of_simps [simp]:
  "values_of Leaf = []" "values_of (Node l x r) = values_of l @ snd x # values_of r"
  by (simp_all add: values_of_def)

lemma tree_at_frame:
  "tree_at h p t \<Longrightarrow> (\<And>a. a \<in> places t \<Longrightarrow> h' a = h a) \<Longrightarrow> tree_at h' p t"
proof (induction t arbitrary: p)
  case (Node l x r)
  then show ?case by (cases x) (auto split: option.splits)
qed simp

lemma tree_at_apply:
  "tree_at h p t \<Longrightarrow> apply_inorder h p = Some (Inr (values_of t))"
proof (induction t arbitrary: p)
  case (Node l x r)
  then show ?case
    by (cases x) (subst apply_inorder.simps, auto split: option.splits)
qed (simp add: apply_inorder.simps)

text \<open>The insertion of a value below a tree.\<close>

fun tree_insert :: "nat \<Rightarrow> 'a::linorder \<Rightarrow> (nat \<times> 'a) tree \<Rightarrow> (nat \<times> 'a) tree" where
  "tree_insert n v Leaf = Node Leaf (n, v) Leaf"
| "tree_insert n v (Node l (a, w) r) =
     (if v < w then Node (tree_insert n v l) (a, w) r else Node l (a, w) (tree_insert n v r))"

lemma places_tree_insert [simp]: "places (tree_insert n v t) = insert n (places t)"
  by (induction n v t rule: tree_insert.induct) auto

section \<open>Lemmas on finding and inserting\<close>

fun link_place :: "link \<Rightarrow> nat set" where
  "link_place No_link = {}"
| "link_place (Left_of a) = {a}"
| "link_place (Right_of a) = {a}"

definition ordered :: "(nat \<times> 'a::linorder) tree \<Rightarrow> bool" where
  "ordered t \<longleftrightarrow> sorted_wrt (<) (values_of t)"

lemma ordered_leaf [simp]: "ordered Leaf"
  by (simp add: ordered_def)

lemma ordered_node [simp]:
  "ordered (Node l (a, w) r) \<longleftrightarrow> ordered l \<and> ordered r \<and>
     (\<forall>x\<in>set (values_of l). x < w) \<and> (\<forall>x\<in>set (values_of r). w < x)"
  by (auto simp: ordered_def sorted_wrt_append dest: less_trans)

lemma find_from_node:
  assumes "tree_at h p (Node l (a, w) r)"
  shows "\<exists>nd. h a = Some nd \<and> node_value nd = w \<and> tree_at h (node_left nd) l \<and> tree_at h (node_right nd) r \<and>
    find_from h v k p = (if v = w then Some (Inr (k, a))
      else if v < w then find_from h v (Left_of a) (node_left nd)
      else find_from h v (Right_of a) (node_right nd))"
  using assms by (subst find_from.simps) (auto split: option.splits)

text \<open>Finding a value of the tree reaches its node, and finding another one returns.\<close>

lemma find_in_tree:
  assumes "tree_at h p t" "ordered t"
  shows "\<exists>k' q. find_from h v k p = Some (Inr (k', q)) \<and>
    (v \<in> set (values_of t) \<longrightarrow> q \<in> places t \<and> (\<exists>nd. h q = Some nd \<and> node_value nd = v)) \<and>
    (v \<notin> set (values_of t) \<longrightarrow> q = 0)"
  using assms
proof (induction t arbitrary: p k)
  case Leaf
  then show ?case by (simp add: find_from.simps)
next
  case (Node l x r)
  obtain a w where x: "x = (a, w)" by (cases x)
  obtain nd where nd: "h a = Some nd" "node_value nd = w" "tree_at h (node_left nd) l" "tree_at h (node_right nd) r"
    "find_from h v k p = (if v = w then Some (Inr (k, a))
      else if v < w then find_from h v (Left_of a) (node_left nd)
      else find_from h v (Right_of a) (node_right nd))"
    using find_from_node[of h p l a w r v k] Node.prems(1) unfolding x by blast
  consider "v = w" | "v < w" | "w < v" by fastforce
  then show ?case
  proof cases
    case 1
    then show ?thesis using nd by (simp add: x)
  next
    case 2
    then have "v \<notin> set (values_of r)" using Node.prems(2) by (auto simp: x)
    then show ?thesis
      using Node.IH(1)[OF nd(3), of "Left_of a"] Node.prems(2) nd(5) 2 by (auto simp: x)
  next
    case 3
    then have "v \<notin> set (values_of l)" using Node.prems(2) by (auto simp: x)
    then show ?thesis
      using Node.IH(2)[OF nd(4), of "Right_of a"] Node.prems(2) nd(5) 3 by (auto simp: x)
  qed
qed

text \<open>Storing a new node through the link at which the search ended inserts its value.\<close>

lemma insert_below:
  assumes "tree_at h p t" "ordered t" "distinct (map fst (inorder t))" "v \<notin> set (values_of t)"
    "n \<noteq> 0" "n \<notin> places t"
  shows "\<exists>k'. find_from h v k p = Some (Inr (k', 0)) \<and>
    (t = Leaf \<longrightarrow> k' = k) \<and>
    (t \<noteq> Leaf \<longrightarrow> k' \<noteq> No_link \<and> link_place k' \<subseteq> places t \<and>
      (\<exists>h'. assign_link k' n (h(n \<mapsto> new_node v)) = Inr h' \<and> tree_at h' p (tree_insert n v t) \<and>
        (\<forall>b. b \<notin> link_place k' \<and> b \<noteq> n \<longrightarrow> h' b = h b)))"
  using assms
proof (induction t arbitrary: p k)
  case Leaf
  then show ?case by (simp add: find_from.simps)
next
  case (Node l x r)
  obtain a w where x: "x = (a, w)" by (cases x)
  have pa: "p = a" "a \<noteq> 0" "a \<noteq> n" using Node.prems by (auto simp: x)
  obtain nd where nd: "h a = Some nd" "node_value nd = w" "tree_at h (node_left nd) l" "tree_at h (node_right nd) r"
    "find_from h v k p = (if v = w then Some (Inr (k, a))
      else if v < w then find_from h v (Left_of a) (node_left nd)
      else find_from h v (Right_of a) (node_right nd))"
    using find_from_node[of h p l a w r v k] Node.prems(1) unfolding x by blast
  have vw: "v \<noteq> w" using Node.prems(4) by (simp add: x)
  have apart: "a \<notin> places l" "a \<notin> places r" "places l \<inter> places r = {}"
    using Node.prems(3) by (auto simp: x places_def)
  have fresh: "n \<notin> places l" "n \<notin> places r" using Node.prems(6) by auto
  have sub: "ordered l" "ordered r" "distinct (map fst (inorder l))" "distinct (map fst (inorder r))"
    "v \<notin> set (values_of l)" "v \<notin> set (values_of r)"
    using Node.prems(2-4) by (auto simp: x)
  let ?h = "h(n \<mapsto> new_node v)"
  show ?case
  proof (cases "v < w")
    case True
    obtain k1 where k1: "find_from h v (Left_of a) (node_left nd) = Some (Inr (k1, 0))" "l = Leaf \<longrightarrow> k1 = Left_of a"
      "l \<noteq> Leaf \<longrightarrow> k1 \<noteq> No_link \<and> link_place k1 \<subseteq> places l \<and>
        (\<exists>h'. assign_link k1 n ?h = Inr h' \<and> tree_at h' (node_left nd) (tree_insert n v l) \<and>
          (\<forall>b. b \<notin> link_place k1 \<and> b \<noteq> n \<longrightarrow> h' b = h b))"
      using Node.IH(1)[OF nd(3) sub(1,3,5) Node.prems(5) fresh(1), of "Left_of a"] by blast
    have found: "find_from h v k p = Some (Inr (k1, 0))" using nd(5) True vw k1(1) by simp
    show ?thesis
    proof (cases "l = Leaf")
      case l: True
      let ?h' = "?h(a \<mapsto> nd\<lparr>node_left := n\<rparr>)"
      have "tree_at ?h' (node_right nd) r"
        using nd(4) fresh apart pa by (intro tree_at_frame[OF nd(4)]) auto
      then have "tree_at ?h' p (tree_insert n v (Node l x r))"
        using l nd(2) pa True Node.prems(5) by (simp add: x new_node_def del: fun_upd_apply)
          (simp add: new_node_def)
      moreover have "assign_link (Left_of a) n ?h = Inr ?h'" using nd(1) pa(3) by simp
      moreover have "\<forall>b. b \<notin> link_place (Left_of a) \<and> b \<noteq> n \<longrightarrow> ?h' b = h b" by simp
      moreover have "Node l x r \<noteq> Leaf" "link_place (Left_of a) \<subseteq> places (Node l x r)" "Left_of a \<noteq> No_link"
        by (simp_all add: x)
      moreover have "find_from h v k p = Some (Inr (Left_of a, 0))" using found k1(2) l by simp
      ultimately show ?thesis by blast
    next
      case False
      then obtain h' where h': "assign_link k1 n ?h = Inr h'" "tree_at h' (node_left nd) (tree_insert n v l)"
        "\<forall>b. b \<notin> link_place k1 \<and> b \<noteq> n \<longrightarrow> h' b = h b" "k1 \<noteq> No_link" "link_place k1 \<subseteq> places l"
        using k1(3) by blast
      have "h' a = Some nd" using h'(3,5) apart pa nd(1) by auto
      moreover have "tree_at h' (node_right nd) r"
        using h'(3,5) fresh apart by (intro tree_at_frame[OF nd(4)]) (metis disjoint_iff subsetD)
      ultimately have "tree_at h' p (tree_insert n v (Node l x r))"
        using h'(2) nd(2) pa True by (simp add: x)
      moreover have "Node l x r \<noteq> Leaf" "link_place k1 \<subseteq> places (Node l x r)"
        using h'(5) by (auto simp: x)
      ultimately show ?thesis using found h'(1,3,4) by blast
    qed
  next
    case False
    obtain k1 where k1: "find_from h v (Right_of a) (node_right nd) = Some (Inr (k1, 0))" "r = Leaf \<longrightarrow> k1 = Right_of a"
      "r \<noteq> Leaf \<longrightarrow> k1 \<noteq> No_link \<and> link_place k1 \<subseteq> places r \<and>
        (\<exists>h'. assign_link k1 n ?h = Inr h' \<and> tree_at h' (node_right nd) (tree_insert n v r) \<and>
          (\<forall>b. b \<notin> link_place k1 \<and> b \<noteq> n \<longrightarrow> h' b = h b))"
      using Node.IH(2)[OF nd(4) sub(2,4,6) Node.prems(5) fresh(2), of "Right_of a"] by blast
    have found: "find_from h v k p = Some (Inr (k1, 0))" using nd(5) False vw k1(1) by simp
    show ?thesis
    proof (cases "r = Leaf")
      case r: True
      let ?h' = "?h(a \<mapsto> nd\<lparr>node_right := n\<rparr>)"
      have "tree_at ?h' (node_left nd) l"
        using nd(3) fresh apart pa by (intro tree_at_frame[OF nd(3)]) auto
      then have "tree_at ?h' p (tree_insert n v (Node l x r))"
        using r nd(2) pa False Node.prems(5) by (simp add: x new_node_def del: fun_upd_apply)
          (simp add: new_node_def)
      moreover have "assign_link (Right_of a) n ?h = Inr ?h'" using nd(1) pa(3) by simp
      moreover have "\<forall>b. b \<notin> link_place (Right_of a) \<and> b \<noteq> n \<longrightarrow> ?h' b = h b" by simp
      moreover have "Node l x r \<noteq> Leaf" "link_place (Right_of a) \<subseteq> places (Node l x r)" "Right_of a \<noteq> No_link"
        by (simp_all add: x)
      moreover have "find_from h v k p = Some (Inr (Right_of a, 0))" using found k1(2) r by simp
      ultimately show ?thesis by blast
    next
      case r: False
      then obtain h' where h': "assign_link k1 n ?h = Inr h'" "tree_at h' (node_right nd) (tree_insert n v r)"
        "\<forall>b. b \<notin> link_place k1 \<and> b \<noteq> n \<longrightarrow> h' b = h b" "k1 \<noteq> No_link" "link_place k1 \<subseteq> places r"
        using k1(3) by blast
      have "h' a = Some nd" using h'(3,5) apart pa nd(1) by auto
      moreover have "tree_at h' (node_left nd) l"
        using h'(3,5) fresh apart by (intro tree_at_frame[OF nd(3)]) (metis disjoint_iff subsetD)
      ultimately have "tree_at h' p (tree_insert n v (Node l x r))"
        using h'(2) nd(2) pa False by (simp add: x)
      moreover have "Node l x r \<noteq> Leaf" "link_place k1 \<subseteq> places (Node l x r)"
        using h'(5) by (auto simp: x)
      ultimately show ?thesis using found h'(1,3,4) by blast
    qed
  qed
qed

section \<open>Properties\<close>

text \<open>A tree that is well formed: its nodes are apart in the store, in order, and counted.\<close>

definition bst_ok :: "('a::linorder) bst \<Rightarrow> (nat \<times> 'a) tree \<Rightarrow> bool" where
  "bst_ok s t \<longleftrightarrow> tree_at (bst_heap s) (bst_head s) t \<and> ordered t \<and> distinct (map fst (inorder t)) \<and>
     (\<forall>a\<in>places t. a < bst_fresh s) \<and> 0 < bst_fresh s \<and> bst_size s = of_nat (length (values_of t))"

lemma values_tree_insert:
  "set (values_of (tree_insert n v t)) = insert v (set (values_of t)) \<and>
   length (values_of (tree_insert n v t)) = Suc (length (values_of t))"
  by (induction n v t rule: tree_insert.induct) auto

lemma ordered_tree_insert: "ordered t \<Longrightarrow> v \<notin> set (values_of t) \<Longrightarrow> ordered (tree_insert n v t)"
  by (induction n v t rule: tree_insert.induct) (auto simp: values_tree_insert)

lemma tree_at_member:
  "tree_at h p t \<Longrightarrow> (a, v) \<in> set_tree t \<Longrightarrow> a \<noteq> 0 \<and> (\<exists>nd. h a = Some nd \<and> node_value nd = v)"
proof (induction t arbitrary: p)
  case (Node l x r)
  then show ?case by (cases x) (auto split: option.splits)
qed simp

lemma tree_insert_member: "(n, v) \<in> set_tree (tree_insert n v t)"
  by (induction n v t rule: tree_insert.induct) auto

lemma distinct_tree_insert:
  "distinct (map fst (inorder t)) \<Longrightarrow> n \<notin> places t \<Longrightarrow> distinct (map fst (inorder (tree_insert n v t)))"
proof (induction n v t rule: tree_insert.induct)
  case (2 n v l a w r)
  have "fst ` set_tree (tree_insert n v u) = insert n (fst ` set_tree u)" for u
    using places_tree_insert[of n v u] by (simp add: places_def)
  then show ?case using 2 by (auto simp: places_def)
qed simp

text \<open>Inserting a value in a well-formed tree returns; when the value is there its node is given
  and nothing changes, and otherwise a new node is linked in so that the tree is well formed
  with one more node. Applying a function then visits the values in order: those of
  before and the new one.\<close>

theorem bst_insert_ordered:
  assumes "bst_ok s t"
  shows "\<exists>n s' t'. bst_insert v s = Some (Inr (n, s')) \<and> bst_ok s' t' \<and>
    (if v \<in> set (values_of t) then s' = s else bst_size s' = bst_size s + 1) \<and>
    bst_apply s' = Some (Inr (values_of t')) \<and> sorted_wrt (<) (values_of t') \<and>
    set (values_of t') = insert v (set (values_of t)) \<and>
    (\<exists>nd. bst_heap s' n = Some nd \<and> node_value nd = v)"
proof (cases "v \<in> set (values_of t)")
  case True
  have ok: "tree_at (bst_heap s) (bst_head s) t" "ordered t" using assms by (auto simp: bst_ok_def)
  obtain k q where f: "find_from (bst_heap s) v No_link (bst_head s) = Some (Inr (k, q))" "q \<in> places t"
    "\<exists>nd. bst_heap s q = Some nd \<and> node_value nd = v"
    using find_in_tree[OF ok] True by blast
  have "q \<noteq> 0"
    using tree_at_member[OF ok(1)] f(2) by (auto simp: places_def)
  then have "bst_insert v s = Some (Inr (q, s))"
    using f(1) by (simp add: bst_insert_def bst_find_def)
  then show ?thesis
    using assms True f(3) tree_at_apply[OF ok(1)] ok(2)
    by (auto simp: bst_apply_def ordered_def insert_absorb intro!: exI[of _ t])
next
  case False
  have ok: "tree_at (bst_heap s) (bst_head s) t" "ordered t" "distinct (map fst (inorder t))"
    "bst_fresh s \<noteq> 0" "bst_fresh s \<notin> places t"
    using assms by (auto simp: bst_ok_def)
  let ?n = "bst_fresh s" and ?t = "tree_insert (bst_fresh s) v t"
  obtain k where k: "find_from (bst_heap s) v No_link (bst_head s) = Some (Inr (k, 0))" "t = Leaf \<longrightarrow> k = No_link"
    "t \<noteq> Leaf \<longrightarrow> k \<noteq> No_link \<and> link_place k \<subseteq> places t \<and>
      (\<exists>h'. assign_link k ?n ((bst_heap s)(?n \<mapsto> new_node v)) = Inr h' \<and> tree_at h' (bst_head s) ?t \<and>
        (\<forall>b. b \<notin> link_place k \<and> b \<noteq> ?n \<longrightarrow> h' b = bst_heap s b))"
    using insert_below[OF ok(1-3) False ok(4,5), of No_link] by blast
  obtain s' where s': "bst_insert v s = Some (Inr (?n, s'))" "tree_at (bst_heap s') (bst_head s') ?t"
    "bst_size s' = bst_size s + 1" "bst_fresh s' = ?n + 1"
  proof (cases "t = Leaf")
    case True
    then show ?thesis
      using that k(1,2) ok(4) by (simp add: bst_insert_def bst_find_def Let_def new_node_def)
  next
    case False
    then obtain h' where "k \<noteq> No_link" "assign_link k ?n ((bst_heap s)(?n \<mapsto> new_node v)) = Inr h'"
      "tree_at h' (bst_head s) ?t"
      using k(3) by blast
    then show ?thesis
      using that k(1) by (simp add: bst_insert_def bst_find_def Let_def del: fun_upd_apply)
  qed
  have "bst_ok s' ?t"
    using s' assms False ok values_tree_insert[of ?n v t] ordered_tree_insert[of t v ?n]
      distinct_tree_insert[of t ?n v]
    by (auto simp: bst_ok_def)
  moreover have "\<exists>nd. bst_heap s' ?n = Some nd \<and> node_value nd = v"
    using tree_at_member[OF s'(2) tree_insert_member] by blast
  ultimately show ?thesis
    using s' False tree_at_apply[OF s'(2)] values_tree_insert[of ?n v t] ordered_tree_insert[OF ok(2) False]
    by (auto simp: bst_apply_def ordered_def intro!: exI[of _ ?t])
qed

theorem bst_insert_ordered_witness:
  "\<exists>n s' t'. bst_insert (3 :: int) bst_new = Some (Inr (n, s')) \<and> bst_ok s' t' \<and> bst_apply s' = Some (Inr (values_of t'))"
proof -
  have "bst_ok (bst_new :: int bst) Leaf" by (simp add: bst_ok_def bst_new_def)
  from bst_insert_ordered[OF this, of 3] show ?thesis by blast
qed

text \<open>Erasing the value of the head makes the tree empty, however many nodes it has, and counts one
  node less.\<close>

theorem bst_erase_head_drops_all:
  assumes "bst_ok s (Node l (a, v) r)"
  shows "\<exists>s'. bst_erase v s = Some (Inr (0, s')) \<and> bst_apply s' = Some (Inr []) \<and>
    bst_size s' = of_nat (length (values_of l) + length (values_of r))"
proof -
  have t: "tree_at (bst_heap s) (bst_head s) (Node l (a, v) r)" and h: "bst_head s \<noteq> 0"
    and n: "bst_size s = of_nat (Suc (length (values_of l) + length (values_of r)))"
    using assms by (auto simp: bst_ok_def)
  have "bst_find s v = Some (Inr (No_link, bst_head s))"
    using find_from_node[OF t, of v No_link] t by (auto simp: bst_find_def)
  then show ?thesis
    using h n by (simp add: bst_erase_def bst_apply_def apply_inorder.simps)
qed

theorem bst_erase_head_drops_all_witness:
  "\<exists>s'. bst_erase (7 :: int) \<lparr>bst_size = 2, bst_head = 1, bst_fresh = 3, bst_heap =
      [1 \<mapsto> \<lparr>node_value = 7, node_left = 2, node_right = 0\<rparr>, 2 \<mapsto> \<lparr>node_value = 3, node_left = 0, node_right = 0\<rparr>]\<rparr> =
    Some (Inr (0, s')) \<and> bst_apply s' = Some (Inr [])"
  (is "\<exists>s'. bst_erase 7 ?s = _ \<and> _")
proof -
  have "bst_ok ?s (Node (Node Leaf (2, 3) Leaf) (1, 7) Leaf)" by (simp add: bst_ok_def)
  from bst_erase_head_drops_all[OF this] show ?thesis by blast
qed

lemma apply_inorder_self:
  "apply_inorder g n = Some r \<Longrightarrow> g n = Some nd \<and> node_right nd = n \<and> n \<noteq> 0 \<longrightarrow> (\<forall>xs. r \<noteq> Inr xs)"
proof (rule apply_inorder.raw_induct[where P = "\<lambda>g n r. g n = Some nd \<and> node_right nd = n \<and> n \<noteq> 0 \<longrightarrow> (\<forall>xs. r \<noteq> Inr xs)"];
    (intro impI allI notI)?)
  fix f and g :: "'a bst_store" and n r ys
  assume IH: "\<And>g n r. f g n = Some r \<Longrightarrow> g n = Some nd \<and> node_right nd = n \<and> n \<noteq> 0 \<longrightarrow> (\<forall>xs. r \<noteq> Inr xs)"
    and g: "g n = Some nd \<and> node_right nd = n \<and> n \<noteq> 0" and r: "r = Inr ys"
    and eq: "(if n = 0 then Some (Inr [])
      else case g n of None \<Rightarrow> Some (Inl Undefined) | Some nd \<Rightarrow>
        Option.bind (f g (node_left nd)) (\<lambda>l. case l of Inl e \<Rightarrow> Some (Inl e) | Inr xs \<Rightarrow>
          Option.bind (f g (node_right nd)) (\<lambda>r. case r of Inl e \<Rightarrow> Some (Inl e) | Inr ys \<Rightarrow>
            Some (Inr (xs @ node_value nd # ys))))) = Some r"
  obtain zs where "f g n = Some (Inr zs)"
    using eq g r by (auto split: bind_splits sum.splits)
  then show False using IH[of g n "Inr zs"] g by blast
qed

text \<open>Erasing a node with two children whose right child has no left child links that right child
  to itself, and a traversal that reaches it does not finish.\<close>

theorem bst_erase_makes_cycle:
  assumes "bst_find s v = Some (Inr (link, n))" "link \<noteq> No_link" "n \<noteq> 0" "bst_heap s n = Some nd"
    "node_left nd \<noteq> 0" "node_right nd = m" "m \<noteq> 0" "m \<noteq> n" "bst_heap s m = Some md" "node_left md = 0"
    "\<forall>p\<in>link_place link. p \<noteq> m \<and> p \<noteq> n \<and> bst_heap s p \<noteq> None"
  shows "\<exists>s' md'. bst_erase v s = Some (Inr (0, s')) \<and> bst_heap s' m = Some md' \<and> node_right md' = m \<and>
    (\<forall>xs. apply_inorder (bst_heap s') m \<noteq> Some (Inr xs))"
proof -
  let ?md = "md\<lparr>node_left := node_left nd, node_right := m\<rparr>"
  have "find_rotate_left (bst_heap s) m = Some (Inr (No_link, m))"
    using assms by (simp add: find_rotate_left_def rotate_left_from.simps)
  then have u: "unlink_node link n (bst_heap s) =
      Some (assign_link link m ((bst_heap s)(m \<mapsto> ?md)))"
    using assms by (simp add: unlink_node_def replace_node_def node_at_def fun_upd_twist)
  obtain h where h: "assign_link link m ((bst_heap s)(m \<mapsto> ?md)) = Inr h" "h m = Some ?md"
    using assms(2,11) by (cases link) (auto split: option.split)
  have e: "bst_erase v s = Some (Inr (0, s\<lparr>bst_heap := h(n := None), bst_size := bst_size s - 1\<rparr>))"
    using assms(1-3) u h(1) by (simp add: bst_erase_def)
  have "apply_inorder (h(n := None)) m \<noteq> Some (Inr xs)" for xs
    using apply_inorder_self[of "h(n := None)" m "Inr xs" ?md] h(2) assms(7,8) by auto
  then show ?thesis using e h(2) assms(8) by auto
qed

theorem bst_erase_makes_cycle_witness:
  "\<exists>s' md'. bst_erase (3 :: int) \<lparr>bst_size = 4, bst_head = 1, bst_fresh = 5, bst_heap =
      [1 \<mapsto> \<lparr>node_value = 7, node_left = 2, node_right = 0\<rparr>, 2 \<mapsto> \<lparr>node_value = 3, node_left = 3, node_right = 4\<rparr>,
       3 \<mapsto> \<lparr>node_value = 2, node_left = 0, node_right = 0\<rparr>, 4 \<mapsto> \<lparr>node_value = 5, node_left = 0, node_right = 0\<rparr>]\<rparr> =
    Some (Inr (0, s')) \<and> bst_heap s' 4 = Some md' \<and> node_right md' = 4 \<and>
    (\<forall>xs. apply_inorder (bst_heap s') 4 \<noteq> Some (Inr xs))"
  by (rule bst_erase_makes_cycle[where link = "Left_of 1" and n = 2
      and nd = "\<lparr>node_value = 3, node_left = 3, node_right = 4\<rparr>"
      and md = "\<lparr>node_value = 5, node_left = 0, node_right = 0\<rparr>"])
    (simp_all add: bst_find_def find_from.simps)

end
