(* ===== verification/Ex_Memory.thy ===== *)
theory Ex_Memory
  imports Binary_Heap
begin

text \<open>
  The allocators of \<open>exercises/memory.cpp\<close>: \<open>StaticAllocation\<close>, whose free list lives in the memory it manages,
  byte by byte; \<open>LargeBlockAllocator\<close>, whose free blocks are a heap by size; and \<open>Factory\<close> over an
  allocator. Addresses are 64-bit words, memory is a function from addresses to bytes, and an access outside the
  block of an allocation is the fault \<open>Out_of_bounds\<close>, also where it lands in the block of a parent.

  The blocks of the large-block allocator, free and held, tile its arena whatever a client does that asks for at least one byte (\<open>large_run\<close>);
  an allocation takes the largest; defragmenting is the merge of runs, but looks at the element behind the last
  block: what it finds there is the argument \<open>past\<close>. A static allocation writes
  outside its block in its first allocation, except for requests that are small or fill the block.
\<close>

section \<open>Alignment\<close>

definition align :: "u64 \<Rightarrow> u64 \<Rightarrow> u64" where
  "align p alignment = (p + alignment - 1) AND NOT (alignment - 1)"

definition alignment_offset :: "u64 \<Rightarrow> u64 \<Rightarrow> u64" where
  "alignment_offset p alignment = align p alignment - p"

section \<open>StaticAllocation\<close>

text \<open>A record is a guard of four bytes, a size at offset 8 and the next record at offset 16, where the memory of
  the block starts.\<close>

type_synonym bytes_at = "u64 \<Rightarrow> u8"

definition record_size :: u64 where "record_size = 24"
definition overhead :: u64 where "overhead = 16"
definition free_guard :: u32 where "free_guard = 0xDDDDDDDD"
definition alloc_guard :: u32 where "alloc_guard = 0xAAAAAAAA"

definition read_bytes :: "bytes_at \<Rightarrow> u64 \<Rightarrow> nat \<Rightarrow> u8 list" where
  "read_bytes m a n = map (\<lambda>i. m (a + of_nat i)) [0..<n]"

definition write_bytes :: "bytes_at \<Rightarrow> u64 \<Rightarrow> u8 list \<Rightarrow> bytes_at" where
  "write_bytes m a bs = (\<lambda>x. if unat (x - a) < length bs then bs ! unat (x - a) else m x)"

record static_allocation =
  sa_memory :: u64
  sa_max :: u64
  sa_free_bytes :: u64
  sa_free_list :: u64

definition in_arena :: "static_allocation \<Rightarrow> u64 \<Rightarrow> nat \<Rightarrow> bool" where
  "in_arena s a n \<longleftrightarrow> unat (sa_memory s) \<le> unat a \<and> unat a + n \<le> unat (sa_memory s) + unat (sa_max s)"

definition get_guard :: "static_allocation \<Rightarrow> bytes_at \<Rightarrow> u64 \<Rightarrow> u32 outcome" where
  "get_guard s m r = (if in_arena s r 4 then Inr (of_le_bytes (read_bytes m r 4)) else Inl Out_of_bounds)"

definition get_word :: "static_allocation \<Rightarrow> bytes_at \<Rightarrow> u64 \<Rightarrow> u64 outcome" where
  "get_word s m a = (if in_arena s a 8 then Inr (of_le_bytes (read_bytes m a 8)) else Inl Out_of_bounds)"

definition put_guard :: "static_allocation \<Rightarrow> bytes_at \<Rightarrow> u64 \<Rightarrow> u32 \<Rightarrow> bytes_at outcome" where
  "put_guard s m r g = (if in_arena s r 4 then Inr (write_bytes m r (le_bytes 4 g)) else Inl Out_of_bounds)"

definition put_word :: "static_allocation \<Rightarrow> bytes_at \<Rightarrow> u64 \<Rightarrow> u64 \<Rightarrow> bytes_at outcome" where
  "put_word s m a v = (if in_arena s a 8 then Inr (write_bytes m a (le_bytes 8 v)) else Inl Out_of_bounds)"

definition write_free_record ::
    "u64 \<Rightarrow> u64 \<Rightarrow> static_allocation \<Rightarrow> bytes_at \<Rightarrow> (static_allocation \<times> bytes_at) outcome" where
  "write_free_record r n s m =
     and_then (put_guard s m r free_guard) (\<lambda>m.
     and_then (put_word s m (r + 8) n) (\<lambda>m.
     and_then (put_word s m (r + 16) (sa_free_list s)) (\<lambda>m.
     Inr (s\<lparr>sa_free_list := r\<rparr>, m))))"

definition write_alloc_record ::
    "u64 \<Rightarrow> u64 \<Rightarrow> u64 \<Rightarrow> static_allocation \<Rightarrow> bytes_at \<Rightarrow> (static_allocation \<times> bytes_at) outcome" where
  "write_alloc_record prev r n s m =
     and_then (put_guard s m r alloc_guard) (\<lambda>m.
     and_then (put_word s m (r + 8) n) (\<lambda>m.
     and_then (get_word s m (r + 16)) (\<lambda>next_free.
     if prev \<noteq> 0
     then and_then (put_word s m (prev + 16) next_free) (\<lambda>m. Inr (s, m))
     else Inr (s\<lparr>sa_free_list := next_free\<rparr>, m))))"

definition check_free_record :: "bool \<Rightarrow> u64 \<Rightarrow> u64 \<Rightarrow> u64 \<Rightarrow> static_allocation \<Rightarrow> bytes_at \<Rightarrow> u64 outcome" where
  "check_free_record debug r n alignment s m =
     and_then (get_guard s m r) (\<lambda>g.
     and_then (assertf debug (g = free_guard)) (\<lambda>_.
     and_then (get_word s m (r + 8)) (\<lambda>have_bytes.
     Inr (have_bytes - (n + alignment_offset (r + overhead) alignment)))))"

definition check_alloc_record :: "bool \<Rightarrow> u64 \<Rightarrow> static_allocation \<Rightarrow> bytes_at \<Rightarrow> u64 outcome" where
  "check_alloc_record debug r s m =
     and_then (get_guard s m r) (\<lambda>g.
     and_then (assertf debug (g = alloc_guard)) (\<lambda>_. get_word s m (r + 8)))"

text \<open>The block given by \<open>base_allocate_\<close> is at \<open>base\<close>.\<close>

definition static_new :: "u64 \<Rightarrow> u64 \<Rightarrow> bytes_at \<Rightarrow> (static_allocation \<times> bytes_at) outcome" where
  "static_new base n m =
     and_then (write_free_record base (n - overhead)
        \<lparr>sa_memory = base, sa_max = n, sa_free_bytes = n - overhead, sa_free_list = 0\<rparr> m) (\<lambda>(s, m).
     Inr (s\<lparr>sa_free_list := base\<rparr>, m))"

text \<open>The search looks for a difference below zero, which no unsigned number is, so it stops at the first free
  record; the fragment is placed by arithmetic on pointers to records, and the memory is
  returned where it starts, not where it is aligned. The result is its address, zero when there is none.\<close>

definition static_allocate ::
    "bool \<Rightarrow> u64 \<Rightarrow> u64 \<Rightarrow> static_allocation \<Rightarrow> bytes_at \<Rightarrow> (u64 \<times> static_allocation \<times> bytes_at) outcome" where
  "static_allocate debug n alignment s m =
     (let n = (if n < 8 then 8 else n);
          r = sa_free_list s
      in if r = 0 then Inr (0, s, m)
         else and_then (check_free_record debug r n alignment s m) (\<lambda>diff.
           let fragment = (diff > record_size);
               n = (if fragment then n else n + diff);
               p = r + overhead;
               n = n + alignment_offset p alignment
           in and_then (write_alloc_record 0 r n s m) (\<lambda>(s, m).
              let s = s\<lparr>sa_free_bytes := sa_free_bytes s - n\<rparr>
              in and_then (if fragment
                   then write_free_record (r + n * record_size) (diff - overhead)
                          (s\<lparr>sa_free_bytes := sa_free_bytes s - overhead\<rparr>) m
                   else Inr (s, m)) (\<lambda>(s, m).
                 and_then (assertf debug (p > sa_memory s \<and> p < sa_memory s + sa_max s)) (\<lambda>_.
                 Inr (p, s, m))))))"

definition static_deallocate ::
    "bool \<Rightarrow> u64 \<Rightarrow> static_allocation \<Rightarrow> bytes_at \<Rightarrow> (static_allocation \<times> bytes_at) outcome" where
  "static_deallocate debug p s m =
     and_then (assertf debug (p > sa_memory s \<and> p < sa_memory s + sa_max s)) (\<lambda>_.
     and_then (check_alloc_record debug (p - overhead) s m) (\<lambda>n.
     and_then (write_free_record (p - overhead) n s m) (\<lambda>(s, m).
     Inr (s\<lparr>sa_free_bytes := sa_free_bytes s + n\<rparr>, m))))"

text \<open>The allocation in the memory of another, for an object of \<open>object_size\<close> bytes.\<close>

definition suballocate ::
    "bool \<Rightarrow> u64 \<Rightarrow> u64 \<Rightarrow> u64 \<Rightarrow> static_allocation \<Rightarrow> bytes_at \<Rightarrow>
     (u64 \<times> static_allocation \<times> static_allocation \<times> bytes_at) outcome" where
  "suballocate debug object_size object_align n s m =
     and_then (static_allocate debug object_size object_align s m) (\<lambda>(p, s, m).
     and_then (static_allocate debug n 1 s m) (\<lambda>(base, s, m).
     and_then (static_new base n m) (\<lambda>(child, m). Inr (p, child, s, m))))"

section \<open>Defragmentation in place\<close>

partial_function (option) collect_free :: "static_allocation \<Rightarrow> bytes_at \<Rightarrow> u64 \<Rightarrow> u64 list outcome option" where
  "collect_free s m r =
     (if r = 0 then Some (Inr [])
      else (case get_word s m (r + 16) of
          Inl e \<Rightarrow> Some (Inl e)
        | Inr next_free \<Rightarrow> Option.bind (collect_free s m next_free)
            (\<lambda>rs. Some (and_then rs (\<lambda>rs. Inr (r # rs))))))"

fun absorb_records :: "static_allocation \<Rightarrow> u64 \<Rightarrow> u64 list \<Rightarrow> bytes_at \<Rightarrow> (u64 list \<times> bytes_at) outcome" where
  "absorb_records s a [] m = Inr ([], m)"
| "absorb_records s a (b # bs) m =
     and_then (get_word s m (a + 8)) (\<lambda>n.
     if a + n + overhead = b
     then and_then (get_word s m (b + 8)) (\<lambda>k.
          and_then (put_word s m (a + 8) (n + (k + overhead))) (absorb_records s a bs))
     else Inr (b # bs, m))"

fun relink_records :: "static_allocation \<Rightarrow> u64 list \<Rightarrow> bytes_at \<Rightarrow> bytes_at outcome" where
  "relink_records s [] m = Inr m"
| "relink_records s (a # as) m =
     and_then (absorb_records s a as m) (\<lambda>(rest, m).
     and_then (put_word s m (a + 16) (if rest = [] then 0 else hd rest)) (\<lambda>m.
     if rest = [] then Inr m else relink_records s as m))"

fun sum_records :: "static_allocation \<Rightarrow> bytes_at \<Rightarrow> u64 list \<Rightarrow> u64 \<Rightarrow> u64 outcome" where
  "sum_records s m [] acc = Inr acc"
| "sum_records s m (r # rs) acc = and_then (get_word s m (r + 8)) (\<lambda>n. sum_records s m rs (acc + n))"

definition static_defragment ::
    "static_allocation \<Rightarrow> bytes_at \<Rightarrow> (static_allocation \<times> bytes_at) outcome option" where
  "static_defragment s m =
     Option.bind (collect_free s m (sa_free_list s)) (\<lambda>rs. case rs of
        Inl e \<Rightarrow> Some (Inl e)
      | Inr rs \<Rightarrow>
          (case sort rs of
             [] \<Rightarrow> Some (Inl Undefined)
           | first # later \<Rightarrow>
               (case relink_records s (first # later) m of
                  Inl e \<Rightarrow> Some (Inl e)
                | Inr m \<Rightarrow> map_option (\<lambda>rs. and_then rs (\<lambda>rs.
                    and_then (sum_records s m rs 0) (\<lambda>n.
                    Inr (s\<lparr>sa_free_list := first, sa_free_bytes := n\<rparr>, m)))) (collect_free s m first))))"

section \<open>LargeBlockAllocator\<close>

record free_block =
  block_size :: u64
  block_memory :: u64

definition smaller_block :: "free_block \<Rightarrow> free_block \<Rightarrow> bool" where
  "smaller_block l r \<longleftrightarrow> block_size l < block_size r"

record large_allocator =
  lb_memory :: u64
  lb_max :: u64
  lb_free_bytes :: u64
  lb_free_list :: "free_block list"

definition push_free_record :: "free_block \<Rightarrow> large_allocator \<Rightarrow> large_allocator" where
  "push_free_record r s = s\<lparr>lb_free_bytes := lb_free_bytes s + block_size r,
     lb_free_list := push_heap smaller_block (lb_free_list s @ [r])\<rparr>"

definition pop_free_record :: "large_allocator \<Rightarrow> large_allocator outcome" where
  "pop_free_record s =
     (if lb_free_list s = [] then Inl Undefined
      else (let xs = pop_heap smaller_block (lb_free_list s)
            in Inr (s\<lparr>lb_free_bytes := lb_free_bytes s - block_size (last xs), lb_free_list := butlast xs\<rparr>)))"

definition top_free_record :: "large_allocator \<Rightarrow> free_block" where
  "top_free_record s = (if length (lb_free_list s) \<noteq> 0 then hd (lb_free_list s) else \<lparr>block_size = 0, block_memory = 0\<rparr>)"

text \<open>The block of \<open>base_allocate_\<close> is at \<open>base\<close>: aligned memory of the system, or a block of a parent.\<close>

definition base_address :: "(u64 \<Rightarrow> u64) \<Rightarrow> u64 \<Rightarrow> u64 \<Rightarrow> u64" where
  "base_address new_bytes n alignment = align (new_bytes (n + (alignment - 1))) alignment"

definition base_allocate ::
    "(u64 \<Rightarrow> u64) \<Rightarrow> bool \<Rightarrow> (static_allocation \<times> bytes_at) option \<Rightarrow> u64 \<Rightarrow> u64 \<Rightarrow>
     (u64 \<times> (static_allocation \<times> bytes_at) option) outcome" where
  "base_allocate new_bytes debug parent_alloc n alignment =
     (case parent_alloc of
        None \<Rightarrow> Inr (base_address new_bytes n alignment, None)
      | Some (s, m) \<Rightarrow>
          and_then (static_allocate debug n alignment s m) (\<lambda>(p, s, m). Inr (p, Some (s, m))))"

text \<open>Giving the block back sets the pointer to it to zero.\<close>

definition base_deallocate ::
    "bool \<Rightarrow> (static_allocation \<times> bytes_at) option \<Rightarrow> u64 \<Rightarrow> u64 \<Rightarrow>
     (u64 \<times> (static_allocation \<times> bytes_at) option) outcome" where
  "base_deallocate debug parent_alloc p n =
     (case parent_alloc of
        None \<Rightarrow> Inr (0, None)
      | Some (s, m) \<Rightarrow> and_then (static_deallocate debug p s m) (\<lambda>sm. Inr (0, Some sm)))"

definition large_new :: "u64 \<Rightarrow> u64 \<Rightarrow> large_allocator" where
  "large_new base n = push_free_record \<lparr>block_size = n, block_memory = base\<rparr>
     \<lparr>lb_memory = base, lb_max = n, lb_free_bytes = 0, lb_free_list = []\<rparr>"

text \<open>The alignment is not looked at.\<close>

definition large_allocate :: "u64 \<Rightarrow> u64 \<Rightarrow> large_allocator \<Rightarrow> (u64 \<times> large_allocator) outcome" where
  "large_allocate n alignment s =
     (let r = top_free_record s
      in if block_size r \<ge> n
         then and_then (pop_free_record s) (\<lambda>s.
           Inr (block_memory r,
             if block_size r > n
             then push_free_record \<lparr>block_size = block_size r - n, block_memory = block_memory r + n\<rparr> s
             else s))
         else Inr (0, s))"

definition large_deallocate :: "u64 \<Rightarrow> u64 \<Rightarrow> large_allocator \<Rightarrow> large_allocator" where
  "large_deallocate p n s = push_free_record \<lparr>block_size = n, block_memory = p\<rparr> s"

text \<open>The loops of \<open>defragment\<close> over positions of the sorted list. The condition of the inner one reads the
  element before it compares with the end, and so reads past the end. \<open>past\<close> is what that read gives: some
  record that happens to be there, or, where reads are checked, a fault.\<close>

definition contiguous :: "free_block \<Rightarrow> free_block \<Rightarrow> bool" where
  "contiguous a b \<longleftrightarrow> block_memory a + block_size a = block_memory b"

definition block_at :: "free_block option \<Rightarrow> free_block list \<Rightarrow> nat \<Rightarrow> free_block outcome" where
  "block_at past xs n =
     (if n < length xs then Inr (xs ! n)
      else (case past of None \<Rightarrow> Inl Out_of_bounds | Some junk \<Rightarrow> Inr junk))"

function absorb_blocks ::
    "free_block option \<Rightarrow> nat \<Rightarrow> nat \<Rightarrow> free_block list \<Rightarrow> (nat \<times> free_block list) outcome" where
  "absorb_blocks past i n xs =
     and_then (block_at past xs n) (\<lambda>b.
       if contiguous (xs ! i) b \<and> n < length xs
       then absorb_blocks past i (Suc n)
         (xs[i := (xs ! i)\<lparr>block_size := block_size (xs ! i) + block_size (xs ! n)\<rparr>, n := (xs ! n)\<lparr>block_size := 0\<rparr>])
       else Inr (n, xs))"
  by pat_completeness auto
termination by (relation "measure (\<lambda>(_, _, n, xs). length xs - n)") auto

declare absorb_blocks.simps [simp del]

lemma absorb_blocks_result:
  "absorb_blocks past i n xs = Inr (k, ys) \<Longrightarrow> length ys = length xs \<and> (n \<le> length xs \<longrightarrow> n \<le> k \<and> k \<le> length xs) \<and>
     (past = None \<longrightarrow> k < length xs)"
proof (induction past i n xs rule: absorb_blocks.induct)
  case (1 past i n xs)
  obtain b where b: "block_at past xs n = Inr b"
    using 1(2) by (subst (asm) absorb_blocks.simps) (auto simp: and_then_eq_Inr_iff)
  show ?case
  proof (cases "contiguous (xs ! i) b \<and> n < length xs")
    case True
    then show ?thesis using 1(1)[OF True] 1(2) b by (subst (asm) (2) absorb_blocks.simps) auto
  next
    case False
    then show ?thesis using 1(2) b
      by (subst (asm) absorb_blocks.simps) (auto simp: block_at_def split: if_splits option.splits)
  qed
qed

lemma and_then_cong [fundef_cong]:
  "m = m' \<Longrightarrow> (\<And>x. m' = Inr x \<Longrightarrow> f x = g x) \<Longrightarrow> and_then m f = and_then m' g"
  by (cases m') simp_all

function coalesce_blocks :: "free_block option \<Rightarrow> nat \<Rightarrow> nat \<Rightarrow> free_block list \<Rightarrow> free_block list outcome" where
  "coalesce_blocks past i n xs =
     (if i < length xs \<and> n < length xs
      then and_then (absorb_blocks past i (Suc i) xs) (\<lambda>(n, xs). coalesce_blocks past (Suc i) n xs)
      else Inr xs)"
  by pat_completeness auto
termination
  by (relation "measure (\<lambda>(_, i, _, xs). length xs - i)") (auto dest: absorb_blocks_result)

declare coalesce_blocks.simps [simp del]

definition large_defragment :: "free_block option \<Rightarrow> large_allocator \<Rightarrow> large_allocator outcome" where
  "large_defragment past s =
     and_then (coalesce_blocks past 0 0 (sort_key block_memory (lb_free_list s))) (\<lambda>xs.
     Inr (s\<lparr>lb_free_list := make_heap smaller_block (filter (\<lambda>r. block_size r \<noteq> 0) xs)\<rparr>))"

section \<open>SmallBlockAllocator\<close>

text \<open>Only its constructor has a body. \<open>allocate\<close> returns without the value it promises.\<close>

record small_allocator =
  sb_memory :: u64
  sb_max :: u64
  sb_free_bytes :: u64

definition small_new :: "u64 \<Rightarrow> u64 \<Rightarrow> small_allocator" where
  "small_new base n = \<lparr>sb_memory = base, sb_max = n, sb_free_bytes = 0\<rparr>"

definition small_allocate :: "u64 \<Rightarrow> small_allocator \<Rightarrow> (u64 \<times> small_allocator) outcome" where
  "small_allocate n s = Inl Undefined"

definition small_deallocate :: "u64 \<Rightarrow> small_allocator \<Rightarrow> small_allocator" where
  "small_deallocate p s = s"

section \<open>Factory\<close>

text \<open>Creating an object, whatever the arguments of its constructor, throws \<open>std::bad_alloc\<close>, here \<open>None\<close>, when there is
  no memory.\<close>

definition create ::
    "(u64 \<Rightarrow> u64 \<Rightarrow> 's \<Rightarrow> (u64 \<times> 's) outcome) \<Rightarrow> u64 \<Rightarrow> u64 \<Rightarrow> 's \<Rightarrow> (u64 option \<times> 's) outcome" where
  "create allocate size_of_type align_of_type s =
     and_then (allocate size_of_type align_of_type s) (\<lambda>(p, s). Inr (if p = 0 then None else Some p, s))"

text \<open>The cast takes the last operand of a comma, the alignment, for the address of the array.\<close>

definition create_array ::
    "(u64 \<Rightarrow> u64 \<Rightarrow> 's \<Rightarrow> (u64 \<times> 's) outcome) \<Rightarrow> u64 \<Rightarrow> u64 \<Rightarrow> u64 \<Rightarrow> 's \<Rightarrow> (u64 option \<times> 's) outcome" where
  "create_array allocate size_of_type align_of_type num s =
     (let n = size_of_type * num
      in and_then (allocate n 1 s) (\<lambda>(_, s).
         if align_of_type = 0 then Inr (None, s)
         else if n = 0 then Inr (Some align_of_type, s) else Inl Undefined))"

definition destroy :: "(u64 \<Rightarrow> u64 \<Rightarrow> 's \<Rightarrow> 's) \<Rightarrow> u64 \<Rightarrow> u64 \<Rightarrow> 's \<Rightarrow> 's" where
  "destroy deallocate size_of_type p s = deallocate p size_of_type s"

definition destroy_array :: "(u64 \<Rightarrow> u64 \<Rightarrow> 's \<Rightarrow> 's) \<Rightarrow> u64 \<Rightarrow> u64 \<Rightarrow> u64 \<Rightarrow> 's \<Rightarrow> 's" where
  "destroy_array deallocate size_of_type num p s = deallocate p (size_of_type * num) s"


section \<open>Coalescing is the merging of runs\<close>

text \<open>The loops within the list: whatever record the read past the end gives, the comparison with the end
  behind it makes no use of it.\<close>

function absorb_within :: "nat \<Rightarrow> nat \<Rightarrow> free_block list \<Rightarrow> nat \<times> free_block list" where
  "absorb_within i n xs =
     (if n < length xs \<and> contiguous (xs ! i) (xs ! n)
      then absorb_within i (Suc n)
        (xs[i := (xs ! i)\<lparr>block_size := block_size (xs ! i) + block_size (xs ! n)\<rparr>, n := (xs ! n)\<lparr>block_size := 0\<rparr>])
      else (n, xs))"
  by pat_completeness auto
termination by (relation "measure (\<lambda>(_, n, xs). length xs - n)") auto

declare absorb_within.simps [simp del]

lemma absorb_within_length [simp]: "length (snd (absorb_within i n xs)) = length xs"
proof (induction i n xs rule: absorb_within.induct)
  case (1 i n xs)
  then show ?case by (subst absorb_within.simps) simp
qed

function coalesce_within :: "nat \<Rightarrow> nat \<Rightarrow> free_block list \<Rightarrow> free_block list" where
  "coalesce_within i n xs =
     (if i < length xs \<and> n < length xs
      then coalesce_within (Suc i) (fst (absorb_within i (Suc i) xs)) (snd (absorb_within i (Suc i) xs))
      else xs)"
  by pat_completeness auto
termination by (relation "measure (\<lambda>(i, _, xs). length xs - i)") (auto simp: prod.case_eq_if)

declare coalesce_within.simps [simp del]

lemma absorb_blocks_within: "absorb_blocks (Some junk) i n xs = Inr (absorb_within i n xs)"
proof (induction i n xs rule: absorb_within.induct)
  case (1 i n xs)
  then show ?case
    by (subst absorb_blocks.simps, subst absorb_within.simps) (auto simp: block_at_def)
qed

lemma coalesce_blocks_within: "coalesce_blocks (Some junk) i n xs = Inr (coalesce_within i n xs)"
proof (induction i n xs rule: coalesce_within.induct)
  case (1 i n xs)
  then show ?case
    by (subst coalesce_blocks.simps, subst coalesce_within.simps) (simp add: absorb_blocks_within prod.case_eq_if)
qed

text \<open>A checked read past the end is a fault, which every list that is not empty runs into.\<close>

lemma absorb_blocks_fault: "absorb_blocks None i n xs = Inl e \<Longrightarrow> e = Out_of_bounds"
proof (induction i n xs rule: absorb_within.induct)
  case (1 i n xs)
  then show ?case
    by (subst (asm) (2) absorb_blocks.simps) (auto simp: block_at_def split: if_splits)
qed

lemma coalesce_blocks_fault:
  "i < length xs \<Longrightarrow> n < length xs \<Longrightarrow> coalesce_blocks None i n xs = Inl Out_of_bounds"
proof (induction "length xs - i" arbitrary: i n xs rule: less_induct)
  case less
  show ?case
  proof (cases "absorb_blocks None i (Suc i) xs")
    case (Inl e)
    then show ?thesis using less.prems absorb_blocks_fault[OF Inl] by (subst coalesce_blocks.simps) simp
  next
    case (Inr r)
    obtain k ys where r: "r = (k, ys)" by fastforce
    have "length ys = length xs" "Suc i \<le> k" "k < length xs"
      using absorb_blocks_result[of None i "Suc i" xs k ys] Inr r less.prems by auto
    then show ?thesis
      using less.hyps[of ys "Suc i" k] less.prems Inr r by (subst coalesce_blocks.simps) simp
  qed
qed

lemma large_defragment_within:
  "large_defragment (Some junk) s = Inr (s\<lparr>lb_free_list := make_heap smaller_block
     (filter (\<lambda>r. block_size r \<noteq> 0) (coalesce_within 0 0 (sort_key block_memory (lb_free_list s))))\<rparr>)"
  by (simp add: large_defragment_def coalesce_blocks_within)

lemma large_defragment_fault:
  "lb_free_list s \<noteq> [] \<Longrightarrow> large_defragment None s = Inl Out_of_bounds"
  by (simp add: large_defragment_def coalesce_blocks_fault)

lemma large_defragment_returns:
  assumes "large_defragment past s = Inr s'"
  shows "large_defragment (Some junk) s = Inr s'"
proof (cases past)
  case None
  then have "lb_free_list s = []" using assms large_defragment_fault[of s] by auto
  then show ?thesis using assms by (simp add: large_defragment_def coalesce_blocks.simps)
next
  case (Some k)
  then show ?thesis using assms large_defragment_within by simp
qed


fun merge_runs :: "free_block list \<Rightarrow> free_block list" where
  "merge_runs (a # b # xs) =
     (if contiguous a b then merge_runs (a\<lparr>block_size := block_size a + block_size b\<rparr> # xs)
      else a # merge_runs (b # xs))"
| "merge_runs xs = xs"

fun run_of :: "free_block \<Rightarrow> free_block list \<Rightarrow> free_block \<times> free_block list \<times> free_block list" where
  "run_of a [] = (a, [], [])"
| "run_of a (b # bs) =
     (if contiguous a b
      then (case run_of (a\<lparr>block_size := block_size a + block_size b\<rparr>) bs of
              (c, ts, rs) \<Rightarrow> (c, b\<lparr>block_size := 0\<rparr> # ts, rs))
      else (a, [], b # bs))"

lemma merge_runs_run_of: "run_of a bs = (c, ts, rs) \<Longrightarrow> merge_runs (a # bs) = c # merge_runs rs"
  by (induction a bs arbitrary: c ts rs rule: run_of.induct) (auto split: if_splits prod.splits)

lemma run_of_parts:
  "run_of a bs = (c, ts, rs) \<Longrightarrow>
     (\<forall>t\<in>set ts. block_size t = 0) \<and> (\<exists>us. bs = us @ rs \<and> map block_memory us = map block_memory ts)"
proof (induction a bs arbitrary: c ts rs rule: run_of.induct)
  case (2 a b bs)
  show ?case
  proof (cases "contiguous a b")
    case True
    then obtain ts' where ts: "ts = b\<lparr>block_size := 0\<rparr> # ts'"
      and run: "run_of (a\<lparr>block_size := block_size a + block_size b\<rparr>) bs = (c, ts', rs)"
      using 2(2) by (auto split: prod.splits)
    from 2(1)[OF True run] obtain us where "bs = us @ rs" "map block_memory us = map block_memory ts'"
      "\<forall>t\<in>set ts'. block_size t = 0" by blast
    then show ?thesis using ts by (auto intro: exI[of _ "b # us"])
  next
    case False
    then show ?thesis using 2(2) by simp
  qed
qed simp

lemma absorb_within_run_of:
  "run_of a bs = (c, ts, rs) \<Longrightarrow>
   absorb_within (length pre) (Suc (length pre + length zs)) (pre @ a # zs @ bs) =
     (Suc (length pre + length zs + length ts), pre @ c # zs @ ts @ rs)"
proof (induction a bs arbitrary: c ts rs zs rule: run_of.induct)
  case (1 a)
  then show ?case by (simp add: absorb_within.simps)
next
  case (2 a b bs)
  show ?case
  proof (cases "contiguous a b")
    case True
    then obtain ts' where ts: "ts = b\<lparr>block_size := 0\<rparr> # ts'"
      and run: "run_of (a\<lparr>block_size := block_size a + block_size b\<rparr>) bs = (c, ts', rs)"
      using 2(2) by (auto split: prod.splits)
    show ?thesis
      using True 2(1)[OF True run, of "zs @ [b\<lparr>block_size := 0\<rparr>]"] ts
      by (subst absorb_within.simps) (simp add: nth_append list_update_append)
  next
    case False
    then show ?thesis using 2(2) by (subst absorb_within.simps) (auto simp: nth_append)
  qed
qed

definition before :: "free_block \<Rightarrow> free_block \<Rightarrow> bool" where
  "before a b \<longleftrightarrow> unat (block_memory a) + unat (block_size a) \<le> unat (block_memory b)"

definition laid_out :: "free_block list \<Rightarrow> bool" where
  "laid_out xs \<longleftrightarrow> sorted_wrt before xs \<and>
     (\<forall>x\<in>set xs. block_size x \<noteq> 0 \<and> unat (block_memory x) + unat (block_size x) < 2 ^ 64)"

lemma contiguous_unat:
  "unat (block_memory a) + unat (block_size a) < 2 ^ 64 \<Longrightarrow>
   contiguous a b \<longleftrightarrow> unat (block_memory a) + unat (block_size a) = unat (block_memory b)"
  by (auto simp: contiguous_def unat_word_ariths word_unat_eq_iff)

lemma laid_out_merge:
  assumes "laid_out (a # b # xs)" "contiguous a b"
  shows "laid_out (a\<lparr>block_size := block_size a + block_size b\<rparr> # xs)"
    and "unat (block_size a + block_size b) = unat (block_size a) + unat (block_size b)"
    and "unat (block_memory b) = unat (block_memory a) + unat (block_size a)"
proof -
  have at: "unat (block_memory b) = unat (block_memory a) + unat (block_size a)"
    using assms contiguous_unat[of a b] by (simp add: laid_out_def)
  moreover have "unat (block_memory b) + unat (block_size b) < 2 ^ 64" using assms by (simp add: laid_out_def)
  ultimately have sum: "unat (block_size a + block_size b) = unat (block_size a) + unat (block_size b)"
    by (simp add: unat_word_ariths)
  have "block_size a + block_size b \<noteq> 0"
    using sum assms by (auto simp: laid_out_def word_unat_eq_iff)
  then show "laid_out (a\<lparr>block_size := block_size a + block_size b\<rparr> # xs)"
    using assms at sum by (auto simp: laid_out_def before_def add.assoc)
  show "unat (block_size a + block_size b) = unat (block_size a) + unat (block_size b)" by (rule sum)
  show "unat (block_memory b) = unat (block_memory a) + unat (block_size a)" by (rule at)
qed

lemma run_of_laid_out: "laid_out (a # bs) \<Longrightarrow> run_of a bs = (c, ts, rs) \<Longrightarrow> laid_out (c # rs)"
proof (induction a bs arbitrary: c ts rs rule: run_of.induct)
  case (2 a b bs)
  then show ?case using laid_out_merge(1)[of a b bs] by (auto split: if_splits prod.splits)
qed simp

lemma coalesce_within_at_end: "coalesce_within i (length xs) xs = xs"
  by (subst coalesce_within.simps) simp

lemma coalesce_within_suffix:
  assumes "\<forall>z\<in>set zs. block_size z = 0" "laid_out rs" "n < length (pre @ zs @ rs)"
    and "sorted_wrt (<) (map block_memory (zs @ rs))"
  shows "\<exists>cs. coalesce_within (length pre) n (pre @ zs @ rs) = pre @ zs @ cs \<and>
           filter (\<lambda>r. block_size r \<noteq> 0) cs = merge_runs rs"
  using assms
proof (induction "length zs + length rs" arbitrary: pre zs rs n rule: less_induct)
  case less
  show ?case
  proof (cases zs)
    case (Cons z zs')
    have still: "run_of z (zs' @ rs) = (z, [], zs' @ rs)"
    proof (cases "zs' @ rs")
      case (Cons b bs)
      have "b \<in> set (zs' @ rs)" unfolding Cons by simp
      then have "block_memory z < block_memory b" "block_size z = 0"
        using less.prems(1,4) \<open>zs = z # zs'\<close> by auto
      then have "\<not> contiguous z b" by (auto simp: contiguous_def)
      then show ?thesis by (simp add: Cons)
    qed simp
    have step: "coalesce_within (length pre) n (pre @ zs @ rs) =
        coalesce_within (length (pre @ [z])) (Suc (length pre)) ((pre @ [z]) @ zs' @ rs)"
      using less.prems(3) absorb_within_run_of[OF still, of pre "[]"] Cons
      by (subst coalesce_within.simps) simp
    show ?thesis
    proof (cases "zs' @ rs = []")
      case True
      then show ?thesis unfolding step using Cons coalesce_within_at_end[of _ "pre @ [z]"] by simp
    next
      case False
      have "\<exists>cs. coalesce_within (length (pre @ [z])) (Suc (length pre)) ((pre @ [z]) @ zs' @ rs) =
              (pre @ [z]) @ zs' @ cs \<and> filter (\<lambda>r. block_size r \<noteq> 0) cs = merge_runs rs"
        using less.prems Cons False by (intro less.hyps) auto
      then show ?thesis unfolding step using Cons by simp
    qed
  next
    case Nil
    show ?thesis
    proof (cases rs)
      case Nil
      then show ?thesis using \<open>zs = []\<close> by (subst coalesce_within.simps) simp
    next
      case (Cons a bs)
      obtain c ts us where run: "run_of a bs = (c, ts, us)" by (metis prod_cases3)
      from run_of_parts[OF run] obtain vs where parts: "\<forall>t\<in>set ts. block_size t = 0" "bs = vs @ us"
        "map block_memory vs = map block_memory ts" by blast
      have step: "coalesce_within (length pre) n (pre @ zs @ rs) =
          coalesce_within (length (pre @ [c])) (Suc (length pre + length ts)) ((pre @ [c]) @ ts @ us)"
        using less.prems(3) absorb_within_run_of[OF run, of pre "[]"] Cons Nil
        by (subst coalesce_within.simps) simp
      have "laid_out (c # us)" using run_of_laid_out[OF _ run] less.prems(2) Cons by simp
      then have c: "block_size c \<noteq> 0" "laid_out us" by (simp_all add: laid_out_def)
      have len: "length vs = length ts" using parts(3) by (metis length_map)
      show ?thesis
      proof (cases "us = []")
        case True
        then show ?thesis unfolding step
          using coalesce_within_at_end[of "Suc (length pre)" "pre @ c # ts"] parts c merge_runs_run_of[OF run] Cons Nil
          by (intro exI[of _ "c # ts"]) (auto simp: filter_empty_conv)
      next
        case False
        have "\<exists>cs. coalesce_within (length (pre @ [c])) (Suc (length pre + length ts)) ((pre @ [c]) @ ts @ us) =
                (pre @ [c]) @ ts @ cs \<and> filter (\<lambda>r. block_size r \<noteq> 0) cs = merge_runs us"
          using less.prems(4) Cons Nil parts len c False by (intro less.hyps) auto
        then obtain cs where "coalesce_within (length (pre @ [c])) (Suc (length pre + length ts)) ((pre @ [c]) @ ts @ us) =
                pre @ c # ts @ cs" "filter (\<lambda>r. block_size r \<noteq> 0) cs = merge_runs us" by auto
        then show ?thesis unfolding step
          using parts c merge_runs_run_of[OF run] Cons Nil
          by (intro exI[of _ "c # ts @ cs"]) (auto simp: filter_empty_conv)
      qed
    qed
  qed
qed

lemma before_ascending: "before a b \<Longrightarrow> block_size a \<noteq> 0 \<Longrightarrow> block_memory a < block_memory b"
  using unat_gt_0[of "block_size a"] unfolding before_def word_less_nat_alt by linarith

lemma laid_out_ascending: "laid_out xs \<Longrightarrow> sorted_wrt (<) (map block_memory xs)"
  unfolding laid_out_def sorted_wrt_map
  by (rule sorted_wrt_mono_rel[of xs before]) (auto intro: before_ascending)

text \<open>Coalescing sorted, disjoint blocks position by position and then dropping the empty ones merges each run of
  adjacent blocks.\<close>

theorem coalesce_within_merges_runs:
  assumes "laid_out xs"
  shows "filter (\<lambda>r. block_size r \<noteq> 0) (coalesce_within 0 0 xs) = merge_runs xs"
proof (cases "xs = []")
  case False
  then show ?thesis
    using coalesce_within_suffix[of "[]" xs 0 "[]"] assms laid_out_ascending[OF assms] by auto
qed (simp add: coalesce_within.simps)

lemma merge_runs_apart: "laid_out xs \<Longrightarrow> successively (\<lambda>a b. \<not> contiguous a b) (merge_runs xs)"
proof (induction xs rule: merge_runs.induct)
  case (1 a b xs)
  show ?case
  proof (cases "contiguous a b")
    case True
    then show ?thesis using 1(1) laid_out_merge(1)[OF 1(3)] by simp
  next
    case False
    have "laid_out (b # xs)" using 1(3) by (simp add: laid_out_def)
    then have rest: "successively (\<lambda>a b. \<not> contiguous a b) (merge_runs (b # xs))" using 1(2) False by blast
    obtain c ts rs where run: "run_of b xs = (c, ts, rs)" by (metis prod_cases3)
    then have c: "merge_runs (b # xs) = c # merge_runs rs" by (rule merge_runs_run_of)
    have "block_memory c = block_memory b"
      using run by (induction b xs arbitrary: c ts rs rule: run_of.induct) (auto split: if_splits prod.splits)
    then show ?thesis using False rest c by (simp add: contiguous_def)
  qed
qed simp_all

section \<open>The blocks of an arena\<close>

text \<open>A block is an address and a number of bytes. The blocks of a large-block allocator are the free ones and those
  its client holds.\<close>

type_synonym block = "u64 \<times> u64"

definition extent :: "free_block \<Rightarrow> block" where
  "extent r = (block_memory r, block_size r)"

definition covers :: "nat \<Rightarrow> block \<Rightarrow> bool" where
  "covers a b \<longleftrightarrow> unat (fst b) \<le> a \<and> a < unat (fst b) + unat (snd b)"

definition covering :: "nat \<Rightarrow> block multiset \<Rightarrow> nat" where
  "covering a M = size (filter_mset (covers a) M)"

definition in_range :: "u64 \<Rightarrow> u64 \<Rightarrow> block \<Rightarrow> bool" where
  "in_range base n b \<longleftrightarrow> snd b \<noteq> 0 \<and> unat base \<le> unat (fst b) \<and>
     unat (fst b) + unat (snd b) \<le> unat base + unat n"

definition bytes_of :: "block multiset \<Rightarrow> nat" where
  "bytes_of M = sum_mset (image_mset (\<lambda>b. unat (snd b)) M)"

definition tiles :: "u64 \<Rightarrow> u64 \<Rightarrow> block multiset \<Rightarrow> bool" where
  "tiles base n M \<longleftrightarrow> (\<forall>b\<in>#M. in_range base n b) \<and>
     (\<forall>a. covering a M = of_bool (unat base \<le> a \<and> a < unat base + unat n)) \<and> bytes_of M = unat n"

lemma covering_simps [simp]:
  "covering a {#} = 0"
  "covering a (add_mset b M) = of_bool (covers a b) + covering a M"
  "covering a (M + N) = covering a M + covering a N"
  by (simp_all add: covering_def)

lemma bytes_of_simps [simp]:
  "bytes_of {#} = 0"
  "bytes_of (add_mset b M) = unat (snd b) + bytes_of M"
  "bytes_of (M + N) = bytes_of M + bytes_of N"
  by (simp_all add: bytes_of_def)

lemma tiles_cut:
  assumes base: "unat base + unat n < 2 ^ 64" and k: "k = j + l" and l: "unat (j + l) = unat j + unat l" "j \<noteq> 0" "l \<noteq> 0"
    and p: "unat (p + j) = unat p + unat j"
  shows "tiles base n (add_mset (p, j) (add_mset (p + j, l) M)) \<longleftrightarrow> tiles base n (add_mset (p, k) M)"
proof -
  have nz: "0 < unat j" "0 < unat l" using l by (simp_all add: unat_gt_0)
  then have "k \<noteq> 0" using k l by (metis add_eq_0_iff_both_eq_0 not_less_zero unat_0)
  then have "in_range base n (p, k) \<longleftrightarrow> in_range base n (p, j) \<and> in_range base n (p + j, l)"
    using k l p by (auto simp: in_range_def)
  moreover have "of_bool (covers a (p, k)) = of_bool (covers a (p, j)) + (of_bool (covers a (p + j, l)) :: nat)" for a
    using k l p by (auto simp: covers_def)
  ultimately show ?thesis using k l by (auto simp: tiles_def add.assoc)
qed

lemma tiles_start: "n \<noteq> 0 \<Longrightarrow> tiles base n {#(base, n)#}"
  by (auto simp: tiles_def in_range_def covers_def)

lemma tiles_in_range: "tiles base n M \<Longrightarrow> b \<in># M \<Longrightarrow> in_range base n b"
  by (simp add: tiles_def)

lemma covering_mono: "M \<subseteq># N \<Longrightarrow> covering a M \<le> covering a N"
  by (metis covering_def multiset_filter_mono size_mset_mono)

lemma tiles_apart:
  assumes "tiles base n M" "{#b, c#} \<subseteq># M" "unat (fst b) \<le> unat (fst c)"
  shows "unat (fst b) + unat (snd b) \<le> unat (fst c)"
proof (rule ccontr)
  assume "\<not> ?thesis"
  moreover have "c \<in># M" using assms(2) by (metis add_mset_commute in_multiset_in_set insert_subset_eq_iff mset_subset_eq_insertD)
  then have "snd c \<noteq> 0" using tiles_in_range[OF assms(1)] by (simp add: in_range_def)
  then have "0 < unat (snd c)" by (simp add: unat_gt_0)
  ultimately have "covering (unat (fst c)) {#b, c#} = 2" using assms(3) by (simp add: covers_def)
  then have "2 \<le> covering (unat (fst c)) M" using covering_mono[OF assms(2)] by metis
  moreover have "covering (unat (fst c)) M \<le> 1" using assms(1) by (simp add: tiles_def)
  ultimately show False by simp
qed

section \<open>A client of the large-block allocator\<close>

interpretation by_size: strict_weak_order smaller_block
  by unfold_locales (auto simp: smaller_block_def)

text \<open>The client allocates at least one byte at a time, gives back blocks that it holds, with their size, and
  defragments, where the read past the end gives anything.\<close>

inductive large_run :: "u64 \<Rightarrow> u64 \<Rightarrow> large_allocator \<Rightarrow> block list \<Rightarrow> bool" for base n where
  run_new: "large_run base n (large_new base n) []"
| run_allocate: "large_run base n s held \<Longrightarrow> k \<noteq> 0 \<Longrightarrow> large_allocate k alignment s = Inr (p, s') \<Longrightarrow>
    large_run base n s' (if p = 0 then held else (p, k) # held)"
| run_deallocate: "large_run base n s held \<Longrightarrow> (p, k) \<in> set held \<Longrightarrow>
    large_run base n (large_deallocate p k s) (remove1 (p, k) held)"
| run_defragment: "large_run base n s held \<Longrightarrow> large_defragment past s = Inr s' \<Longrightarrow> large_run base n s' held"

definition blocks_of :: "large_allocator \<Rightarrow> block list \<Rightarrow> block multiset" where
  "blocks_of s held = image_mset extent (mset (lb_free_list s)) + mset held"

definition large_inv :: "u64 \<Rightarrow> u64 \<Rightarrow> large_allocator \<Rightarrow> block list \<Rightarrow> bool" where
  "large_inv base n s held \<longleftrightarrow>
     heap_from smaller_block 0 (length (lb_free_list s)) (lb_free_list s) \<and>
     lb_free_bytes s = sum_list (map block_size (lb_free_list s)) \<and> tiles base n (blocks_of s held)"

lemma push_free_record_simps [simp]:
  "mset (lb_free_list (push_free_record r s)) = add_mset r (mset (lb_free_list s))"
  "lb_free_bytes (push_free_record r s) = lb_free_bytes s + block_size r"
  by (simp_all add: push_free_record_def)

lemma sum_list_mset: "sum_list (map f xs) = sum_mset (image_mset f (mset xs))"
  by (metis mset_map sum_mset_sum_list)

definition heap_counted :: "large_allocator \<Rightarrow> bool" where
  "heap_counted s \<longleftrightarrow> heap_from smaller_block 0 (length (lb_free_list s)) (lb_free_list s) \<and>
     lb_free_bytes s = sum_list (map block_size (lb_free_list s))"

lemma heap_counted_push: "heap_counted s \<Longrightarrow> heap_counted (push_free_record r s)"
  using by_size.push_heap_heap[of "lb_free_list s" r] push_heap_mset[of "lb_free_list s @ [r]" smaller_block]
  by (auto simp: heap_counted_def sum_list_mset push_free_record_def size_mset[symmetric] simp del: size_mset)

lemma pop_free_record_spec:
  assumes "heap_counted s" "lb_free_list s \<noteq> []"
  obtains s' where "pop_free_record s = Inr s'" "heap_counted s'"
    "mset (lb_free_list s) = add_mset (hd (lb_free_list s)) (mset (lb_free_list s'))"
proof -
  define xs where "xs = pop_heap smaller_block (lb_free_list s)"
  have heap: "heap_from smaller_block 0 (length (lb_free_list s) - 1) (butlast xs)" "last xs = hd (lb_free_list s)"
    using by_size.pop_heap_heap[of "lb_free_list s"] assms by (auto simp: heap_counted_def xs_def)
  have m: "mset xs = mset (lb_free_list s)" by (simp add: xs_def)
  then have len: "length xs = length (lb_free_list s)" by (rule mset_eq_length)
  then have "xs \<noteq> []" using assms(2) by auto
  then have split: "mset (lb_free_list s) = add_mset (hd (lb_free_list s)) (mset (butlast xs))"
    using m heap(2) by (metis append_butlast_last_id mset_append add.right_neutral union_mset_add_mset_right mset.simps)
  show ?thesis
  proof (rule that)
    show "pop_free_record s = Inr (s\<lparr>lb_free_bytes := lb_free_bytes s - block_size (last xs), lb_free_list := butlast xs\<rparr>)"
      using assms(2) by (simp add: pop_free_record_def xs_def Let_def)
    show "heap_counted (s\<lparr>lb_free_bytes := lb_free_bytes s - block_size (last xs), lb_free_list := butlast xs\<rparr>)"
      using assms(1) heap len split by (simp add: heap_counted_def sum_list_mset)
    show "mset (lb_free_list s) = add_mset (hd (lb_free_list s)) (mset (lb_free_list
        (s\<lparr>lb_free_bytes := lb_free_bytes s - block_size (last xs), lb_free_list := butlast xs\<rparr>)))"
      using split by simp
  qed
qed

lemma large_inv_alt: "large_inv base n s held \<longleftrightarrow> heap_counted s \<and> tiles base n (blocks_of s held)"
  by (simp add: large_inv_def heap_counted_def)

lemma worst_fit:
  assumes "heap_counted s" "r \<in> set (lb_free_list s)"
  shows "block_size r \<le> block_size (top_free_record s)"
proof -
  obtain j where j: "j < length (lb_free_list s)" "r = lb_free_list s ! j" using assms(2) by (metis in_set_conv_nth)
  then have "\<not> smaller_block (lb_free_list s ! 0) (lb_free_list s ! j)"
    using by_size.heap_top[of "length (lb_free_list s)" "lb_free_list s" j] assms(1) by (simp add: heap_counted_def)
  then show ?thesis using j assms(2) by (auto simp: smaller_block_def top_free_record_def hd_conv_nth)
qed

lemma top_free_record_in:
  assumes "k \<noteq> 0" "k \<le> block_size (top_free_record s)"
  shows "lb_free_list s \<noteq> []" "top_free_record s = hd (lb_free_list s)"
  using assms by (auto simp: top_free_record_def word_le_nat_alt unat_eq_0)

lemma large_allocate_inv:
  assumes inv: "large_inv base n s held" and k: "k \<noteq> 0" and base: "base \<noteq> 0" "unat base + unat n < 2 ^ 64"
  shows "\<exists>p s'. large_allocate k alignment s = Inr (p, s') \<and>
    (if k \<le> block_size (top_free_record s) then p \<noteq> 0 \<and> large_inv base n s' ((p, k) # held) else p = 0 \<and> s' = s)"
proof (cases "k \<le> block_size (top_free_record s)")
  case True
  note top = top_free_record_in[OF k True]
  define r where "r = hd (lb_free_list s)"
  have hc: "heap_counted s" and tiled: "tiles base n (blocks_of s held)" using inv by (simp_all add: large_inv_alt)
  obtain s1 where s1: "pop_free_record s = Inr s1" "heap_counted s1"
    "mset (lb_free_list s) = add_mset r (mset (lb_free_list s1))"
    using pop_free_record_spec[OF hc top(1)] unfolding r_def by metis
  then have blocks: "blocks_of s held = add_mset (extent r) (blocks_of s1 held)" by (simp add: blocks_of_def)
  have "in_range base n (extent r)" using tiled unfolding blocks by (rule tiles_in_range) simp
  then have range: "unat base \<le> unat (block_memory r)"
    "unat (block_memory r) + unat (block_size r) \<le> unat base + unat n" by (simp_all add: in_range_def extent_def)
  have p: "block_memory r \<noteq> 0" using range(1) base(1) by (metis le_zero_eq unat_0 unat_eq_0)
  show ?thesis
  proof (cases "block_size r = k")
    case True
    have ext: "extent r = (block_memory r, k)" using True by (simp add: extent_def)
    have "large_inv base n s1 ((block_memory r, k) # held)"
      using s1(2) tiled by (simp add: large_inv_alt blocks ext) (simp add: blocks_of_def)
    moreover have "large_allocate k alignment s = Inr (block_memory r, s1)"
      using top s1 True by (simp add: large_allocate_def r_def)
    ultimately show ?thesis using p top True r_def by simp
  next
    case False
    define s2 where "s2 = push_free_record \<lparr>block_size = block_size r - k, block_memory = block_memory r + k\<rparr> s1"
    have less: "k < block_size r" using False True top r_def by (simp add: order_le_less)
    have cut: "unat (block_size r - k) = unat (block_size r) - unat k"
      using less by (simp add: unat_sub order_less_imp_le)
    have le: "unat k < unat (block_size r)" using less by (simp add: word_less_nat_alt)
    have p_k: "unat (block_memory r + k) = unat (block_memory r) + unat k"
      using range base le by (simp add: unat_word_ariths)
    have "tiles base n (add_mset (block_memory r, block_size r) (blocks_of s1 held))"
      using tiled by (simp add: blocks extent_def)
    then have "tiles base n (add_mset (block_memory r, k) (add_mset (block_memory r + k, block_size r - k) (blocks_of s1 held)))"
      using tiles_cut[OF base(2), of "block_size r" k "block_size r - k" "block_memory r" "blocks_of s1 held"]
        k False cut le p_k by simp
    moreover have "blocks_of s2 ((block_memory r, k) # held) =
        add_mset (block_memory r, k) (add_mset (block_memory r + k, block_size r - k) (blocks_of s1 held))"
      by (simp add: blocks_of_def s2_def extent_def)
    ultimately have "large_inv base n s2 ((block_memory r, k) # held)"
      using heap_counted_push[OF s1(2)] by (simp add: large_inv_alt s2_def)
    moreover have "large_allocate k alignment s = Inr (block_memory r, s2)"
      using top s1 less by (simp add: large_allocate_def Let_def r_def s2_def order_less_imp_le)
    ultimately show ?thesis using p True by simp
  qed
next
  case False
  then show ?thesis by (simp add: large_allocate_def)
qed

lemma large_deallocate_inv:
  assumes "large_inv base n s held" "(p, k) \<in> set held"
  shows "large_inv base n (large_deallocate p k s) (remove1 (p, k) held)"
proof -
  have "blocks_of (large_deallocate p k s) (remove1 (p, k) held) = blocks_of s held"
    using assms(2) by (simp add: blocks_of_def large_deallocate_def extent_def)
  then show ?thesis using assms(1) heap_counted_push by (simp add: large_inv_alt large_deallocate_def)
qed

lemma laid_out_sorted:
  assumes "sorted (map block_memory xs)" "tiles base n (image_mset extent (mset xs) + M)" "unat base + unat n < 2 ^ 64"
  shows "laid_out xs"
  unfolding laid_out_def
proof
  have range: "in_range base n (extent x)" if "x \<in> set xs" for x
    using that by (intro tiles_in_range[OF assms(2)]) auto
  show "\<forall>x\<in>set xs. block_size x \<noteq> 0 \<and> unat (block_memory x) + unat (block_size x) < 2 ^ 64"
  proof
    fix x assume "x \<in> set xs"
    from range[OF this] assms(3)
    show "block_size x \<noteq> 0 \<and> unat (block_memory x) + unat (block_size x) < 2 ^ 64"
      unfolding in_range_def extent_def by (simp del: unat_gt_0)
  qed
  show "sorted_wrt before xs"
    using assms(1,2)
  proof (induction xs arbitrary: M)
    case (Cons x xs)
    have "before x y" if "y \<in> set xs" for y
    proof -
      have "y \<in># mset xs" using that by (simp only: set_mset_mset)
      then obtain N where N: "mset xs = add_mset y N" by (rule mset_add)
      have "image_mset extent (mset (x # xs)) + M = {#extent x, extent y#} + (image_mset extent N + M)"
        by (simp only: N mset.simps image_mset_add_mset union_mset_add_mset_left add_0)
      then have "{#extent x, extent y#} \<subseteq># image_mset extent (mset (x # xs)) + M"
        by (metis mset_subset_eq_add_left)
      moreover have "unat (block_memory x) \<le> unat (block_memory y)"
        using Cons.prems(1) that by (simp add: word_le_nat_alt)
      ultimately show ?thesis
        using tiles_apart[OF Cons.prems(2), of "extent x" "extent y"] by (simp add: before_def extent_def)
    qed
    moreover have "sorted_wrt before xs"
      using Cons.prems by (intro Cons.IH[of "add_mset (extent x) M"]) simp_all
    ultimately show ?case by simp
  qed simp
qed

lemma merge_runs_tiles:
  assumes "unat base + unat n < 2 ^ 64"
  shows "laid_out xs \<Longrightarrow> tiles base n (image_mset extent (mset xs) + M) \<Longrightarrow>
    tiles base n (image_mset extent (mset (merge_runs xs)) + M)"
proof (induction xs arbitrary: M rule: merge_runs.induct)
  case (1 a b xs)
  show ?case
  proof (cases "contiguous a b")
    case True
    note m = laid_out_merge[OF 1(3) True]
    have at: "block_memory b = block_memory a + block_size a" using True by (simp add: contiguous_def)
    have "tiles base n (add_mset (block_memory a, block_size a + block_size b) (image_mset extent (mset xs) + M))"
      using 1(3,4) m(2,3) tiles_cut[OF assms, of "block_size a + block_size b" "block_size a" "block_size b" "block_memory a"]
      by (simp add: extent_def[of a] extent_def[of b] at laid_out_def)
    then show ?thesis using 1(1)[OF True m(1), of M] True
      by (simp add: extent_def[of "a\<lparr>block_size := block_size a + block_size b\<rparr>"])
  next
    case False
    have "laid_out (b # xs)" using 1(3) by (simp add: laid_out_def)
    then show ?thesis using 1(2)[OF False, of "add_mset (extent a) M"] 1(4) False by simp
  qed
qed simp_all

lemma bytes_of_extent:
  assumes "bytes_of (image_mset extent (mset xs)) < 2 ^ 64"
  shows "unat (sum_list (map block_size xs)) = bytes_of (image_mset extent (mset xs))"
  using assms by (induction xs) (simp_all add: extent_def unat_word_ariths)

lemma large_defragment_inv:
  assumes inv: "large_inv base n s held" and base: "unat base + unat n < 2 ^ 64"
    and ret: "large_defragment past s = Inr s'"
  shows "large_inv base n s' held"
    and "lb_free_list s' = make_heap smaller_block (merge_runs (sort_key block_memory (lb_free_list s)))"
    and "laid_out (sort_key block_memory (lb_free_list s))"
proof -
  have s': "s' = s\<lparr>lb_free_list := make_heap smaller_block
     (filter (\<lambda>r. block_size r \<noteq> 0) (coalesce_within 0 0 (sort_key block_memory (lb_free_list s))))\<rparr>"
    using large_defragment_returns[OF ret, of undefined] large_defragment_within[of undefined s] by simp
  define xs where "xs = sort_key block_memory (lb_free_list s)"
  have tiled: "tiles base n (image_mset extent (mset xs) + mset held)"
    using inv by (simp add: large_inv_alt blocks_of_def xs_def)
  then show laid: "laid_out (sort_key block_memory (lb_free_list s))"
    using laid_out_sorted[of xs] base by (simp add: xs_def)
  then show list: "lb_free_list s' = make_heap smaller_block (merge_runs (sort_key block_memory (lb_free_list s)))"
    using coalesce_within_merges_runs s' by simp
  have merged: "tiles base n (image_mset extent (mset (merge_runs xs)) + mset held)"
    using merge_runs_tiles[OF base _ tiled] laid by (simp add: xs_def)
  have n: "unat n < 2 ^ 64" using unsigned_less[of n] by simp
  have "bytes_of (image_mset extent (mset (merge_runs xs))) = bytes_of (image_mset extent (mset xs))"
    "bytes_of (image_mset extent (mset xs)) < 2 ^ 64"
    using tiled merged n by (simp_all add: tiles_def)
  then have "sum_list (map block_size (merge_runs xs)) = sum_list (map block_size xs)"
    using bytes_of_extent[of xs] bytes_of_extent[of "merge_runs xs"] by (simp add: word_unat_eq_iff)
  moreover have "lb_free_bytes s' = lb_free_bytes s" using s' by simp
  ultimately have "lb_free_bytes s' = sum_list (map block_size (lb_free_list s'))"
    using inv unfolding list by (simp add: large_inv_def sum_list_mset xs_def)
  then show "large_inv base n s' held"
    using merged by_size.make_heap_heap[of "merge_runs xs"] make_heap_mset[of smaller_block "merge_runs xs"]
    unfolding large_inv_def list blocks_of_def xs_def by (metis mset_eq_length)
qed

lemma large_new_inv: "n \<noteq> 0 \<Longrightarrow> large_inv base n (large_new base n) []"
  using tiles_start[of n base]
  by (simp add: large_inv_def large_new_def push_free_record_def push_heap_def sift_up.simps heap_from_def blocks_of_def
      extent_def)

lemma large_run_inv:
  assumes "base \<noteq> 0" "n \<noteq> 0" "unat base + unat n < 2 ^ 64"
  shows "large_run base n s held \<Longrightarrow> large_inv base n s held"
proof (induction rule: large_run.induct)
  case (run_allocate s held k alignment p s')
  then show ?case
    using large_allocate_inv[OF run_allocate.IH run_allocate.hyps(2) assms(1,3), of alignment] by (auto split: if_splits)
next
  case (run_defragment s held past s')
  then show ?case using large_defragment_inv(1)[OF _ assms(3)] by blast
qed (simp_all add: large_new_inv large_deallocate_inv assms)

lemma merge_runs_laid_out: "laid_out xs \<Longrightarrow> laid_out (merge_runs xs)"
proof (induction xs rule: merge_runs.induct)
  case (1 a b xs)
  show ?case
  proof (cases "contiguous a b")
    case True
    then show ?thesis using 1(1) laid_out_merge(1)[OF 1(3)] by simp
  next
    case False
    have "laid_out (b # xs)" using 1(3) by (simp add: laid_out_def)
    then have rest: "laid_out (merge_runs (b # xs))" using 1(2) False by blast
    obtain c ts rs where run: "run_of b xs = (c, ts, rs)" by (metis prod_cases3)
    then have c: "merge_runs (b # xs) = c # merge_runs rs" by (rule merge_runs_run_of)
    have "block_memory c = block_memory b"
      using run by (induction b xs arbitrary: c ts rs rule: run_of.induct) (auto split: if_splits prod.splits)
    then have "before a c" using 1(3) by (simp add: laid_out_def before_def)
    moreover have "before c y" if "y \<in> set (merge_runs rs)" for y using rest that c by (simp add: laid_out_def)
    ultimately have "before a y" if "y \<in> set (merge_runs rs)" for y
      using that unfolding before_def by fastforce
    then show ?thesis using False 1(3) rest c \<open>before a c\<close> by (simp add: laid_out_def)
  qed
qed simp_all

lemma laid_out_apart:
  "laid_out xs \<Longrightarrow> successively (\<lambda>a b. \<not> contiguous a b) xs \<Longrightarrow> a \<in> set xs \<Longrightarrow> b \<in> set xs \<Longrightarrow> \<not> contiguous a b"
proof (induction xs arbitrary: a b)
  case (Cons x xs)
  have tail: "laid_out xs" "successively (\<lambda>a b. \<not> contiguous a b) xs"
    using Cons.prems(1,2) by (auto simp: laid_out_def successively_Cons)
  have fits: "unat (block_memory c) + unat (block_size c) < 2 ^ 64" "0 < unat (block_size c)" if "c \<in> set (x # xs)" for c
    using Cons.prems(1) that by (auto simp: laid_out_def unat_gt_0)
  have up: "before x c" if "c \<in> set xs" for c using Cons.prems(1) that by (simp add: laid_out_def)
  have self: "\<not> contiguous x x" using fits[of x] contiguous_unat[of x x] by simp
  have down: "\<not> contiguous c x" if "c \<in> set xs" for c
    using fits[of c] fits(2)[of x] contiguous_unat[of c x] up[OF that] that by (simp add: before_def)
  have first: "\<not> contiguous x c" if c: "c \<in> set xs" for c
  proof (cases xs)
    case (Cons y ys)
    show ?thesis
    proof (cases "c = y")
      case True
      then show ?thesis using Cons.prems(2) Cons by simp
    next
      case False
      then have "before y c" using tail(1) c Cons by (simp add: laid_out_def)
      moreover have "before x y" "0 < unat (block_size y)" using up[of y] fits(2)[of y] Cons by simp_all
      ultimately show ?thesis using fits(1)[of x] contiguous_unat[of x c] by (simp add: before_def)
    qed
  qed (use c in simp)
  show ?case using Cons.IH[OF tail] Cons.prems(3,4) self down first by auto
qed simp

section \<open>Properties of the large-block allocator\<close>

text \<open>C12: After any sequence of allocations of at least one byte, deallocations of blocks that are held, with
  their size, and defragmentations, whatever the read past the end in these gives, every byte of the arena
  belongs to exactly one block, free or held, no block reaches out of it, and the count of free bytes is right:
  blocks in use never overlap and none is lost. A request for zero bytes is left out because it takes a free block
  off the heap without looking whether there is one: when nothing is free it is undefined.\<close>

theorem large_blocks_tile_the_arena:
  assumes "large_run base n s held" "base \<noteq> 0" "n \<noteq> 0" "unat base + unat n < 2 ^ 64"
  shows "covering a (blocks_of s held) = of_bool (unat base \<le> a \<and> a < unat base + unat n) \<and>
    unat (lb_free_bytes s) + bytes_of (mset held) = unat n \<and>
    (lb_free_list s = [] \<longrightarrow> large_allocate 0 alignment s = Inl Undefined)"
proof -
  have zero: "lb_free_list s = [] \<longrightarrow> large_allocate 0 alignment s = Inl Undefined"
    by (simp add: large_allocate_def pop_free_record_def Let_def)
  have inv: "large_inv base n s held" using large_run_inv[OF assms(2,3,4,1)] .
  then have sum: "bytes_of (image_mset extent (mset (lb_free_list s))) + bytes_of (mset held) = unat n"
    by (simp add: large_inv_def tiles_def blocks_of_def)
  moreover have "unat n < 2 ^ 64" using unsigned_less[of n] by simp
  ultimately have "unat (lb_free_bytes s) = bytes_of (image_mset extent (mset (lb_free_list s)))"
    using bytes_of_extent[of "lb_free_list s"] inv by (simp add: large_inv_def)
  then show ?thesis using sum inv zero by (simp add: large_inv_def tiles_def)
qed

text \<open>An allocation fails when no free block is large enough, and only then; otherwise it cuts the largest.\<close>

theorem large_allocate_is_worst_fit:
  assumes "large_run base n s held" "base \<noteq> 0" "n \<noteq> 0" "unat base + unat n < 2 ^ 64" "k \<noteq> 0"
  shows "\<exists>p s'. large_allocate k alignment s = Inr (p, s') \<and>
    (p = 0 \<longleftrightarrow> (\<forall>r\<in>set (lb_free_list s). block_size r < k)) \<and>
    (p \<noteq> 0 \<longrightarrow> (\<exists>r\<in>set (lb_free_list s). block_memory r = p \<and>
       (\<forall>q\<in>set (lb_free_list s). block_size q \<le> block_size r)))"
proof -
  have inv: "large_inv base n s held" using large_run_inv[OF assms(2,3,4,1)] .
  then have most: "block_size r \<le> block_size (top_free_record s)" if "r \<in> set (lb_free_list s)" for r
    using worst_fit that by (simp add: large_inv_alt)
  obtain p s' where a: "large_allocate k alignment s = Inr (p, s')"
    "if k \<le> block_size (top_free_record s) then p \<noteq> 0 \<and> large_inv base n s' ((p, k) # held) else p = 0 \<and> s' = s"
    using large_allocate_inv[OF inv assms(5,2,4), of alignment] by (elim exE conjE) (rule that)
  show ?thesis
  proof (cases "k \<le> block_size (top_free_record s)")
    case True
    note top = top_free_record_in[OF assms(5) True]
    have "block_memory (top_free_record s) = p"
      using a(1) True top by (auto simp: large_allocate_def Let_def and_then_eq_Inr_iff)
    moreover have "top_free_record s \<in> set (lb_free_list s)" using top by simp
    moreover have "p \<noteq> 0" using a(2) True by simp
    moreover have "\<not> (\<forall>r\<in>set (lb_free_list s). block_size r < k)"
      using True calculation(2) by (metis leD)
    ultimately show ?thesis using a(1) most by blast
  next
    case False
    then have "block_size r < k" if "r \<in> set (lb_free_list s)" for r
      using most[OF that] by (meson leI order_trans)
    then show ?thesis using a False by (simp only: if_False) blast
  qed
qed

text \<open>C13: Defragmenting merges the runs of adjacent free blocks: whatever record the loop finds when it reads past the
  end of the list, what it leaves is the merge of the sorted blocks, and no two free blocks are adjacent
  afterwards. It does read past the end whenever there is a free block: where reads are checked, it faults.\<close>

theorem large_defragment_merges_runs:
  assumes "large_run base n s held" "base \<noteq> 0" "n \<noteq> 0" "unat base + unat n < 2 ^ 64"
  shows "(\<exists>s'. large_defragment (Some junk) s = Inr s' \<and>
      lb_free_list s' = make_heap smaller_block (merge_runs (sort_key block_memory (lb_free_list s))) \<and>
      (\<forall>a\<in>set (lb_free_list s'). \<forall>b\<in>set (lb_free_list s'). \<not> contiguous a b)) \<and>
    (lb_free_list s \<noteq> [] \<longrightarrow> large_defragment None s = Inl Out_of_bounds)"
proof -
  obtain s' where s': "large_defragment (Some junk) s = Inr s'" using large_defragment_within by blast
  note d = large_defragment_inv[OF large_run_inv[OF assms(2,3,4,1)] assms(4) s']
  have "set (make_heap smaller_block xs) = set xs" for xs by (rule mset_eq_setD) simp
  then have "\<forall>a\<in>set (lb_free_list s'). \<forall>b\<in>set (lb_free_list s'). \<not> contiguous a b"
    using laid_out_apart[OF merge_runs_laid_out[OF d(3)] merge_runs_apart[OF d(3)]] unfolding d(2) by (simp only:) blast
  then show ?thesis using s' d(2) large_defragment_fault[of s] by blast
qed

text \<open>A client that allocated 100 and 50 bytes of an arena of 400, gave the first block back and defragmented.\<close>

definition example_arena :: large_allocator where
  "example_arena = \<lparr>lb_memory = 0x1000, lb_max = 400, lb_free_bytes = 350,
     lb_free_list = [\<lparr>block_size = 250, block_memory = 0x1096\<rparr>, \<lparr>block_size = 100, block_memory = 0x1000\<rparr>]\<rparr>"

lemmas large_eval = large_new_def large_allocate_def large_deallocate_def top_free_record_def pop_free_record_def
  push_free_record_def push_heap_def pop_heap_def exchange_def sift_up.simps sift_down.simps smaller_block_def Let_def

lemma example_arena_run: "large_run 0x1000 400 example_arena [(0x1064, 50)]"
proof -
  let ?s1 = "\<lparr>lb_memory = 0x1000, lb_max = 400, lb_free_bytes = 300,
      lb_free_list = [\<lparr>block_size = 300, block_memory = 0x1064\<rparr>]\<rparr>"
  have "large_allocate 100 1 (large_new 0x1000 400) = Inr (0x1000, ?s1)" by (simp add: large_eval)
  from run_allocate[OF run_new _ this] have s1: "large_run 0x1000 400 ?s1 [(0x1000, 100)]"
    by simp
  have "large_allocate 50 1 ?s1 = Inr (0x1064, \<lparr>lb_memory = 0x1000, lb_max = 400, lb_free_bytes = 250,
      lb_free_list = [\<lparr>block_size = 250, block_memory = 0x1096\<rparr>]\<rparr>)" (is "_ = Inr (_, ?s2)")
    by (simp add: large_eval)
  from run_allocate[OF s1 _ this] have s2: "large_run 0x1000 400 ?s2 [(0x1064, 50), (0x1000, 100)]"
    by simp
  have "large_deallocate 0x1000 100 ?s2 = example_arena" by (simp add: large_eval example_arena_def)
  then show ?thesis using run_deallocate[OF s2, of "0x1000" 100] by simp
qed

theorem large_blocks_tile_the_arena_witness:
  "covering 0x1064 (blocks_of example_arena [(0x1064, 50)]) = 1 \<and> unat (lb_free_bytes example_arena) + 50 = 400"
  using large_blocks_tile_the_arena[OF example_arena_run, of "0x1064"] by simp

theorem large_allocate_is_worst_fit_witness: "\<exists>s'. large_allocate 300 1 example_arena = Inr (0, s')"
  using large_allocate_is_worst_fit[OF example_arena_run, of 300 1] by (auto simp: example_arena_def)

theorem large_defragment_merges_runs_witness:
  "(\<exists>s'. large_defragment (Some \<lparr>block_size = 5, block_memory = 0x1190\<rparr>) example_arena = Inr s' \<and>
     lb_free_list s' = make_heap smaller_block (merge_runs (sort_key block_memory (lb_free_list example_arena)))) \<and>
   large_defragment None example_arena = Inl Out_of_bounds"
  using large_defragment_merges_runs[OF example_arena_run, of "\<lparr>block_size = 5, block_memory = 0x1190\<rparr>"]
  by (auto simp: example_arena_def)

section \<open>Bytes of a static allocation\<close>

lemma read_write_same: "length bs < 2 ^ 64 \<Longrightarrow> read_bytes (write_bytes m a bs) a (length bs) = bs"
  by (rule nth_equalityI) (simp_all add: read_bytes_def write_bytes_def unat_of_nat_small)

lemma read_write_other:
  assumes "length bs \<le> unat (b - a)" "unat (b - a) + n \<le> 2 ^ 64"
  shows "read_bytes (write_bytes m a bs) b n = read_bytes m b n"
proof -
  have "unat (b + of_nat i - a) = unat (b - a) + i" if "i < n" for i
  proof -
    define d where "d = b - a"
    have "unat (of_nat i :: u64) = i" using that assms by (intro unat_of_nat_small) simp
    moreover have "unat d + i < 2 ^ 64" using that assms by (simp add: d_def)
    ultimately have "unat (d + of_nat i) = unat d + i" by (simp add: unat_word_ariths)
    moreover have "b + of_nat i - a = d + of_nat i" by (simp add: d_def)
    ultimately show ?thesis by (simp only: d_def)
  qed
  then show ?thesis using assms(1) by (simp add: read_bytes_def write_bytes_def)
qed

text \<open>What a record at an address holds.\<close>

definition guard_at :: "bytes_at \<Rightarrow> u64 \<Rightarrow> u32" where
  "guard_at m r = of_le_bytes (read_bytes m r 4)"

definition word_at :: "bytes_at \<Rightarrow> u64 \<Rightarrow> u64" where
  "word_at m a = of_le_bytes (read_bytes m a 8)"

definition set_guard :: "u64 \<Rightarrow> u32 \<Rightarrow> bytes_at \<Rightarrow> bytes_at" where
  "set_guard r g m = write_bytes m r (le_bytes 4 g)"

definition set_word :: "u64 \<Rightarrow> u64 \<Rightarrow> bytes_at \<Rightarrow> bytes_at" where
  "set_word a v m = write_bytes m a (le_bytes 8 v)"

lemma at_set_same [simp]:
  "guard_at (set_guard r g m) r = g"
  "word_at (set_word a v m) a = v"
  using read_write_same[of "le_bytes 4 g" m r] read_write_same[of "le_bytes 8 v" m a]
  by (simp_all add: guard_at_def word_at_def set_guard_def set_word_def of_le_bytes_le_bytes)

lemma at_set_other:
  "8 \<le> unat (r - a) \<Longrightarrow> unat (r - a) + 4 \<le> 2 ^ 64 \<Longrightarrow> guard_at (set_word a v m) r = guard_at m r"
  "4 \<le> unat (a - r) \<Longrightarrow> unat (a - r) + 8 \<le> 2 ^ 64 \<Longrightarrow> word_at (set_guard r g m) a = word_at m a"
  "8 \<le> unat (b - a) \<Longrightarrow> unat (b - a) + 8 \<le> 2 ^ 64 \<Longrightarrow> word_at (set_word a v m) b = word_at m b"
  by (simp_all add: guard_at_def word_at_def set_guard_def set_word_def read_write_other)

lemma at_set_fields [simp]:
  "guard_at (set_word (r + 8) v m) r = guard_at m r"
  "guard_at (set_word (r + 16) v m) r = guard_at m r"
  "word_at (set_guard r g m) (r + 8) = word_at m (r + 8)"
  "word_at (set_guard r g m) (r + 16) = word_at m (r + 16)"
  "word_at (set_word (r + 8) v m) (r + 16) = word_at m (r + 16)"
  "word_at (set_word (r + 16) v m) (r + 8) = word_at m (r + 8)"
  by (simp_all add: at_set_other)

lemma arena_access:
  "in_arena s r 4 \<Longrightarrow> get_guard s m r = Inr (guard_at m r)"
  "in_arena s a 8 \<Longrightarrow> get_word s m a = Inr (word_at m a)"
  "in_arena s r 4 \<Longrightarrow> put_guard s m r g = Inr (set_guard r g m)"
  "in_arena s a 8 \<Longrightarrow> put_word s m a v = Inr (set_word a v m)"
  "\<not> in_arena s a 8 \<Longrightarrow> put_word s m a v = Inl Out_of_bounds"
  "\<not> in_arena s r 4 \<Longrightarrow> put_guard s m r g = Inl Out_of_bounds"
  by (simp_all add: get_guard_def get_word_def put_guard_def put_word_def guard_at_def word_at_def set_guard_def set_word_def)

section \<open>A static allocation\<close>

definition fresh :: "u64 \<Rightarrow> u64 \<Rightarrow> static_allocation" where
  "fresh base n = \<lparr>sa_memory = base, sa_max = n, sa_free_bytes = n - overhead, sa_free_list = base\<rparr>"

definition fresh_memory :: "u64 \<Rightarrow> u64 \<Rightarrow> bytes_at \<Rightarrow> bytes_at" where
  "fresh_memory base n m = set_word (base + 16) 0 (set_word (base + 8) (n - 16) (set_guard base free_guard m))"

lemma in_arena_offset:
  assumes "sa_memory s = base" "sa_max s = n" "unat base + unat n < 2 ^ 64" "unat d + w \<le> unat n"
  shows "in_arena s (base + d) w"
  using assms by (simp add: in_arena_def unat_word_ariths)

lemma not_in_arena_offset:
  assumes "sa_memory s = base" "sa_max s = n" "unat base + unat n < 2 ^ 64" "unat n < unat d + w" "w \<noteq> 0"
  shows "\<not> in_arena s (base + d) w"
proof (cases "unat base + unat d < 2 ^ 64")
  case True
  then have "unat (base + d) = unat base + unat d" by (simp add: unat_word_ariths)
  then show ?thesis using assms by (simp add: in_arena_def)
next
  case False
  have "unat base < 2 ^ 64" "unat d < 2 ^ 64" using unsigned_less[of base] unsigned_less[of d] by simp_all
  then have "unat (base + d) = unat base + unat d - 2 ^ 64"
    using False by (simp add: unat_word_ariths mod_if)
  then show ?thesis using assms \<open>unat d < 2 ^ 64\<close> False by (auto simp: in_arena_def)
qed

lemma header_in_arena:
  assumes "sa_memory s = base" "sa_max s = n" "unat base + unat n < 2 ^ 64" "24 \<le> unat n"
  shows "in_arena s base 4" "in_arena s (base + 8) 8" "in_arena s (base + 16) 8"
  using in_arena_offset[OF assms(1-3), of 0 4] in_arena_offset[OF assms(1-3), of 8 8] in_arena_offset[OF assms(1-3), of 16 8]
    assms(4) by simp_all

lemma static_new_fresh:
  assumes "unat base + unat n < 2 ^ 64" "24 \<le> unat n"
  shows "static_new base n m = Inr (fresh base n, fresh_memory base n m)"
  using header_in_arena[of "\<lparr>sa_memory = base, sa_max = n, sa_free_bytes = n - overhead, sa_free_list = 0\<rparr>" base n] assms
  by (simp add: static_new_def write_free_record_def arena_access fresh_def fresh_memory_def overhead_def)

lemma fresh_memory_fields [simp]:
  "guard_at (fresh_memory base n m) base = free_guard"
  "word_at (fresh_memory base n m) (base + 8) = n - 16"
  "word_at (fresh_memory base n m) (base + 16) = 0"
  by (simp_all add: fresh_memory_def)

lemma alignment_offset_one [simp]: "alignment_offset p 1 = 0"
  by (simp add: alignment_offset_def align_def)

definition taken_memory :: "u64 \<Rightarrow> u64 \<Rightarrow> bytes_at \<Rightarrow> bytes_at" where
  "taken_memory base k m = set_word (base + 8) k (set_guard base alloc_guard m)"

lemma unat_16: "24 \<le> unat (n :: u64) \<Longrightarrow> unat (n - 16) = unat n - 16"
  by (subst unat_sub) (simp_all add: word_le_nat_alt)

lemma static_allocate_fresh:
  assumes base: "base \<noteq> 0" "unat base + unat n < 2 ^ 64" "24 \<le> unat n" and k: "8 \<le> unat k"
    and diff: "diff = n - 16 - k"
  shows "static_allocate debug k 1 (fresh base n) (fresh_memory base n m) =
    (if diff > 24
     then and_then (write_free_record (base + k * 24) (diff - 16)
            ((fresh base n)\<lparr>sa_free_list := 0, sa_free_bytes := n - 16 - k - 16\<rparr>)
            (taken_memory base k (fresh_memory base n m)))
          (\<lambda>(s, m). Inr (base + 16, s, m))
     else Inr (base + 16, (fresh base n)\<lparr>sa_free_list := 0, sa_free_bytes := 0\<rparr>,
            taken_memory base (n - 16) (fresh_memory base n m)))"
proof -
  have k8: "\<not> k < 8" using k by (simp add: word_less_nat_alt)
  note arena = header_in_arena[of "fresh base n" base n, OF _ _ base(2,3), simplified fresh_def, simplified]
  have p: "base + 16 > base" "base + 16 < base + n"
    using base by (simp_all add: word_less_nat_alt unat_word_ariths)
  have keep: "sa_memory s' = base \<and> sa_max s' = n" if "write_free_record r j
      \<lparr>sa_memory = base, sa_max = n, sa_free_bytes = f, sa_free_list = g\<rparr> m1 = Inr (s', m2)" for r j f g m1 s' m2
    using that by (auto simp: write_free_record_def and_then_eq_Inr_iff)
  show ?thesis
  proof (cases "diff > 24")
    case True
    then show ?thesis
      using k8 base(1) arena p diff
      by (auto simp: static_allocate_def Let_def check_free_record_def write_alloc_record_def arena_access fresh_def
          record_size_def overhead_def taken_memory_def and_then_def add.commute mult.commute
          split: sum.splits dest!: keep)
  next
    case False
    then show ?thesis
      using k8 base(1) arena p diff
      by (simp add: static_allocate_def Let_def check_free_record_def write_alloc_record_def arena_access fresh_def
          record_size_def overhead_def taken_memory_def add.commute)
  qed
qed

text \<open>The first allocation of a fresh block writes outside the memory of the allocation, unless the request nearly
  fills the block or 24 times the request fits: the fragment is placed by arithmetic on pointers to records, which
  counts in records of 24 bytes, and a request that is too large is not refused, as its difference wraps around.\<close>

theorem first_allocation_overruns:
  assumes "base \<noteq> 0" "unat base + unat n < 2 ^ 64" "24 \<le> unat n" "unat n < 2 ^ 59"
    and "8 \<le> unat k" "unat k < 2 ^ 59"
    and "static_new base n m = Inr (s, m')"
  shows "static_allocate debug k 1 s m' = Inl Out_of_bounds \<longleftrightarrow>
    unat n < 24 * unat k + 24 \<and> (unat n < unat k + 16 \<or> unat k + 40 < unat n)"
proof -
  define diff where "diff = n - 16 - k"
  have s: "s = fresh base n" "m' = fresh_memory base n m" using static_new_fresh assms(2,3,7) by simp_all
  have fragment: "diff > 24 \<longleftrightarrow> unat n < unat k + 16 \<or> unat k + 40 < unat n"
  proof (cases "unat n < unat k + 16")
    case True
    then have "unat diff = 2 ^ 64 + (unat n - 16) - unat k"
      using unat_16[OF assms(3)] assms(3,6) by (simp add: diff_def unat_sub_if')
    then show ?thesis using True assms(4,6) by (simp add: word_less_nat_alt)
  next
    case False
    then have "unat diff = unat n - 16 - unat k"
      using unat_16[OF assms(3)] by (simp add: diff_def unat_sub word_le_nat_alt)
    then show ?thesis using False by (simp add: word_less_nat_alt) arith
  qed
  have k24: "unat (k * 24) = unat k * 24" using assms(6) by (simp add: unat_word_ariths)
  then have at: "unat (k * 24 + 8) = unat k * 24 + 8" "unat (k * 24 + 16) = unat k * 24 + 16"
    using assms(6) by (simp_all add: unat_word_ariths)
  define s1 where "s1 = (fresh base n)\<lparr>sa_free_list := 0, sa_free_bytes := n - 16 - k - 16\<rparr>"
  have s1: "sa_memory s1 = base" "sa_max s1 = n" by (simp_all add: s1_def fresh_def)
  have wrote: "(\<exists>r. write_free_record (base + k * 24) j s1 m1 = Inr r) \<or> write_free_record (base + k * 24) j s1 m1 = Inl Out_of_bounds"
    "(\<exists>r. write_free_record (base + k * 24) j s1 m1 = Inr r) \<longleftrightarrow> 24 * unat k + 24 \<le> unat n" for j m1
    using in_arena_offset[OF s1 assms(2), of "k * 24" 4] in_arena_offset[OF s1 assms(2), of "k * 24 + 8" 8]
      in_arena_offset[OF s1 assms(2), of "k * 24 + 16" 8] not_in_arena_offset[OF s1 assms(2), of "k * 24 + 16" 8]
    by (cases "in_arena s1 (base + k * 24) 4"; cases "in_arena s1 (base + k * 24 + 8) 8"; cases "in_arena s1 (base + k * 24 + 16) 8";
        force simp: write_free_record_def arena_access k24 at add.assoc)+
  have "write_free_record (base + k * 24) j s1 m1 = Inl Out_of_bounds \<longleftrightarrow> unat n < 24 * unat k + 24" for j m1
    using wrote[of j m1] by (metis Inl_Inr_False linorder_not_le)
  then show ?thesis
    unfolding s static_allocate_fresh[OF assms(1-3,5) diff_def] fragment s1_def[symmetric]
    by (auto simp: and_then_eq_Inl_iff)
qed

text \<open>A request that nearly fills a fresh block gets all of it, after which nothing is left, and giving the memory back
  restores the allocation.\<close>

theorem whole_block_roundtrip:
  assumes "base \<noteq> 0" "unat base + unat n < 2 ^ 64" "24 \<le> unat n" "8 \<le> unat k" "unat k + 16 \<le> unat n" "unat n \<le> unat k + 40"
    and "static_new base n m = Inr (s, m')"
  shows "\<exists>s1 m1 m2. static_allocate debug k 1 s m' = Inr (base + 16, s1, m1) \<and> sa_free_bytes s1 = 0 \<and>
    static_allocate debug j alignment s1 m1 = Inr (0, s1, m1) \<and>
    static_deallocate debug (base + 16) s1 m1 = Inr (s, m2) \<and>
    guard_at m2 base = guard_at m' base \<and> word_at m2 (base + 8) = word_at m' (base + 8) \<and>
    word_at m2 (base + 16) = word_at m' (base + 16)"
proof -
  have s: "s = fresh base n" "m' = fresh_memory base n m" using static_new_fresh assms(2,3,7) by simp_all
  define diff where "diff = n - 16 - k"
  have "unat diff = unat n - 16 - unat k"
    using unat_16[OF assms(3)] assms(5) by (simp add: diff_def unat_sub word_le_nat_alt)
  then have fit: "\<not> diff > 24" using assms(6) by (simp add: word_less_nat_alt)
  define s1 where "s1 = (fresh base n)\<lparr>sa_free_list := 0, sa_free_bytes := 0\<rparr>"
  define m1 where "m1 = taken_memory base (n - 16) (fresh_memory base n m)"
  have "static_allocate debug k 1 s m' = Inr (base + 16, s1, m1)"
    unfolding s static_allocate_fresh[OF assms(1-4) diff_def] s1_def m1_def using fit by simp
  moreover have s1: "sa_memory s1 = base" "sa_max s1 = n" "sa_free_bytes s1 = 0" "sa_free_list s1 = 0"
    by (simp_all add: s1_def fresh_def)
  moreover have "static_allocate debug j alignment s1 m1 = Inr (0, s1, m1)"
    by (simp add: static_allocate_def Let_def s1)
  moreover have p: "base < base + 16" "base + 16 < base + n"
    using assms(2,3) by (simp_all add: word_less_nat_alt unat_word_ariths)
  note arena = header_in_arena[OF s1(1,2) assms(2,3)]
  define m2 where "m2 = set_word (base + 16) 0 (set_word (base + 8) (n - 16) (set_guard base free_guard m1))"
  have "static_deallocate debug (base + 16) s1 m1 = Inr (fresh base n, m2)"
    using p arena
    by (simp add: static_deallocate_def check_alloc_record_def write_free_record_def arena_access s1 overhead_def
        m1_def m2_def taken_memory_def) (simp add: s1_def fresh_def overhead_def)
  ultimately show ?thesis
    by (intro exI[of _ s1] exI[of _ m1] exI[of _ m2] conjI) (simp_all add: s m2_def)
qed

text \<open>The program's own main module asks a fresh allocation of 1000 bytes for 50.\<close>

theorem first_allocation_overruns_witness:
  "\<exists>s m. static_new 0x1000 1000 (\<lambda>_. 0) = Inr (s, m) \<and> static_allocate True 50 1 s m = Inl Out_of_bounds"
proof -
  have new: "static_new 0x1000 1000 (\<lambda>_. 0) = Inr (fresh 0x1000 1000, fresh_memory 0x1000 1000 (\<lambda>_. 0))"
    by (rule static_new_fresh) simp_all
  then show ?thesis using first_allocation_overruns[OF _ _ _ _ _ _ new, of 50 True] by simp
qed

theorem whole_block_roundtrip_witness:
  "\<exists>s1 m1. static_allocate True 480 1 (fresh 0x1000 500) (fresh_memory 0x1000 500 (\<lambda>_. 0)) = Inr (0x1010, s1, m1) \<and>
     static_allocate True 8 1 s1 m1 = Inr (0, s1, m1)"
proof -
  have new: "static_new 0x1000 500 (\<lambda>_. 0) = Inr (fresh 0x1000 500, fresh_memory 0x1000 500 (\<lambda>_. 0))"
    by (rule static_new_fresh) simp_all
  then show ?thesis using whole_block_roundtrip[OF _ _ _ _ _ _ new, of 480 True 8 1] by auto
qed

section \<open>Arrays\<close>

lemma create_array_never_constructs:
  "allocate (size_of_type * num) 1 s = Inr (p, s') \<Longrightarrow> align_of_type \<noteq> 0 \<Longrightarrow> size_of_type * num \<noteq> 0 \<Longrightarrow>
     create_array allocate size_of_type align_of_type num s = Inl Undefined"
  by (simp add: create_array_def)

end
