(* ===== verification/Ex_Gap.thy ===== *)
theory Ex_Gap
  imports Prelude
begin

text \<open>
  The sequence number translation of \<open>exercises/gapcontrol.cpp\<close>: incoming packets are passed on with
  outgoing numbers that leave no gap where packets were discarded or injected. The two arrays of
  \<open>kMapSize\<close> entries are functions of the index. \<open>execute\<close> runs a test, and the tests of the file
  follow it. The specification is the history of what was passed, discarded and injected.
\<close>

section \<open>GapControl\<close>

datatype direction = Incoming | Outgoing

record gap_map =
  map_incoming :: u16
  map_outgoing :: u16
  discarded :: bool
  valid :: bool

definition no_map :: gap_map where
  "no_map = \<lparr>map_incoming = 0, map_outgoing = 0, discarded = False, valid = False\<rparr>"

datatype gap_state = Initial | Injecting | Translating | Discarding

record gap_control =
  next_incoming :: u16
  next_outgoing :: u16
  gap_mode :: gap_state
  incoming_map :: "nat \<Rightarrow> gap_map"
  outgoing_map :: "nat \<Rightarrow> gap_map"

definition map_size :: nat where "map_size = 4096"

definition gap_index :: "u16 \<Rightarrow> nat" where
  "gap_index seqnum = unat seqnum mod map_size"

definition gap_new :: "u16 \<Rightarrow> u16 \<Rightarrow> gap_control" where
  "gap_new instart outstart = \<lparr>next_incoming = instart, next_outgoing = outstart, gap_mode = Initial,
     incoming_map = (\<lambda>_. no_map), outgoing_map = (\<lambda>_. no_map)\<rparr>"

text \<open>The loops count down a 16-bit number. The first result is the last outgoing number.\<close>

fun inject_loop :: "nat \<Rightarrow> u16 \<Rightarrow> gap_control \<Rightarrow> u16 \<times> gap_control" where
  "inject_loop 0 out g = (out, g)"
| "inject_loop (Suc n) out g =
     (let out = next_outgoing g
      in inject_loop n out (g\<lparr>next_outgoing := out + 1,
           outgoing_map := (outgoing_map g)(gap_index out :=
             \<lparr>map_incoming = 0, map_outgoing = out, discarded = False, valid = True\<rparr>)\<rparr>))"

definition inject :: "u16 \<Rightarrow> gap_control \<Rightarrow> u16 \<times> gap_control" where
  "inject count g = (let (out, g) = inject_loop (unat count) 0 g in (out, g\<lparr>gap_mode := Injecting\<rparr>))"

fun translate_loop :: "nat \<Rightarrow> u16 \<Rightarrow> gap_control \<Rightarrow> u16 \<times> gap_control" where
  "translate_loop 0 out g = (out, g)"
| "translate_loop (Suc n) out g =
     (let out = next_outgoing g;
          inc = next_incoming g;
          m = \<lparr>map_incoming = inc, map_outgoing = out, discarded = False, valid = True\<rparr>
      in translate_loop n out (g\<lparr>next_outgoing := out + 1, next_incoming := inc + 1,
           incoming_map := (incoming_map g)(gap_index inc := m),
           outgoing_map := (outgoing_map g)(gap_index out := m)\<rparr>))"

definition translate :: "u16 \<Rightarrow> gap_control \<Rightarrow> u16 \<times> gap_control" where
  "translate inc g =
     (let g = (if gap_mode g = Initial then g\<lparr>next_incoming := inc\<rparr> else g);
          (out, g) = translate_loop (unat (inc - next_incoming g + 1)) (next_outgoing g) g
      in (out, g\<lparr>gap_mode := Translating\<rparr>))"

fun discard_loop :: "nat \<Rightarrow> gap_control \<Rightarrow> gap_control" where
  "discard_loop 0 g = g"
| "discard_loop (Suc n) g =
     (let inc = next_incoming g
      in discard_loop n (g\<lparr>next_incoming := inc + 1,
           incoming_map := (incoming_map g)(gap_index inc :=
             \<lparr>map_incoming = inc, map_outgoing = 0, discarded = True, valid = True\<rparr>)\<rparr>))"

definition discard :: "u16 \<Rightarrow> gap_control \<Rightarrow> gap_control" where
  "discard inc g =
     (let g = (if gap_mode g = Translating then snd (translate (inc - 1) g) else g)
      in (discard_loop (unat (inc - next_incoming g + 1)) g)\<lparr>gap_mode := Discarding\<rparr>)"

definition gap_contains :: "direction \<Rightarrow> u16 \<Rightarrow> gap_control \<Rightarrow> bool" where
  "gap_contains dir seqnum g = (case dir of
       Incoming \<Rightarrow> valid (incoming_map g (gap_index seqnum)) \<and> map_incoming (incoming_map g (gap_index seqnum)) = seqnum
     | Outgoing \<Rightarrow> valid (outgoing_map g (gap_index seqnum)) \<and> map_outgoing (outgoing_map g (gap_index seqnum)) = seqnum)"

definition gap_lookup :: "direction \<Rightarrow> u16 \<Rightarrow> gap_control \<Rightarrow> gap_map" where
  "gap_lookup dir seqnum g = (case dir of
       Incoming \<Rightarrow> incoming_map g (gap_index seqnum)
     | Outgoing \<Rightarrow> outgoing_map g (gap_index seqnum))"

section \<open>The simulation of a test\<close>

datatype event_type = Lost_passed | Lost_discarded | Discarded | Passed | Custom

record gap_event =
  original :: int
  expected :: int
  event :: event_type

definition make_event :: "int \<Rightarrow> int \<Rightarrow> event_type \<Rightarrow> gap_event" where
  "make_event a b e = \<lparr>original = a, expected = b, event = e\<rparr>"

record gap_test =
  events :: "gap_event list"
  init_incoming :: u16
  init_outgoing :: u16

text \<open>The numbers of an event are converted to 16 bits, and compared as integers.\<close>

definition original_num :: "gap_event \<Rightarrow> u16" where "original_num e = word_of_int (original e)"
definition expected_num :: "gap_event \<Rightarrow> u16" where "expected_num e = word_of_int (expected e)"

definition run_passed :: "bool \<Rightarrow> gap_event \<Rightarrow> gap_control \<Rightarrow> gap_control outcome" where
  "run_passed debug e g =
     (let g = (if \<not> gap_contains Incoming (original_num e) g then snd (translate (original_num e) g) else g);
          map1 = gap_lookup Incoming (original_num e) g;
          map2 = gap_lookup Outgoing (expected_num e) g
      in and_then (assertf debug (gap_contains Incoming (original_num e) g)) (\<lambda>_.
         and_then (assertf debug (gap_contains Outgoing (expected_num e) g)) (\<lambda>_.
         and_then (assertf debug (uint (map_incoming map1) = original e)) (\<lambda>_.
         and_then (assertf debug (uint (map_outgoing map1) = expected e)) (\<lambda>_.
         and_then (assertf debug (\<not> discarded map1)) (\<lambda>_.
         and_then (assertf debug (valid map1)) (\<lambda>_.
         and_then (assertf debug (map_incoming map2 = map_incoming map1)) (\<lambda>_.
         and_then (assertf debug (map_outgoing map2 = map_outgoing map1)) (\<lambda>_.
         and_then (assertf debug (discarded map2 = discarded map1)) (\<lambda>_.
         Inr g))))))))))"

definition run_discarded :: "bool \<Rightarrow> gap_event \<Rightarrow> gap_control \<Rightarrow> gap_control outcome" where
  "run_discarded debug e g =
     (let g = discard (original_num e) g;
          m = gap_lookup Incoming (original_num e) g
      in and_then (assertf debug (gap_contains Incoming (original_num e) g)) (\<lambda>_.
         and_then (assertf debug (uint (map_incoming m) = original e)) (\<lambda>_.
         and_then (assertf debug (discarded m)) (\<lambda>_.
         and_then (assertf debug (valid m)) (\<lambda>_. Inr g)))))"

definition run_custom :: "bool \<Rightarrow> gap_event \<Rightarrow> gap_control \<Rightarrow> gap_control outcome" where
  "run_custom debug e g =
     (let g = (if \<not> gap_contains Incoming (original_num e) g then snd (inject 1 g) else g);
          m = gap_lookup Outgoing (expected_num e) g
      in and_then (assertf debug (gap_contains Outgoing (expected_num e) g)) (\<lambda>_.
         and_then (assertf debug (uint (map_outgoing m) = expected e)) (\<lambda>_.
         and_then (assertf debug (\<not> discarded m)) (\<lambda>_.
         and_then (assertf debug (valid m)) (\<lambda>_. Inr g)))))"

fun simulate :: "bool \<Rightarrow> gap_event list \<Rightarrow> gap_control \<Rightarrow> gap_control outcome" where
  "simulate debug [] g = Inr g"
| "simulate debug (e # es) g =
     and_then (case event e of
         Passed \<Rightarrow> run_passed debug e g
       | Discarded \<Rightarrow> run_discarded debug e g
       | Custom \<Rightarrow> run_custom debug e g
       | _ \<Rightarrow> Inr g) (simulate debug es)"

definition check_entry :: "bool \<Rightarrow> bool \<Rightarrow> gap_map \<Rightarrow> gap_event \<Rightarrow> unit outcome" where
  "check_entry debug has m e =
     and_then (assertf debug has) (\<lambda>_.
     and_then (assertf debug (uint (map_incoming m) = original e)) (\<lambda>_.
     and_then (assertf debug (uint (map_outgoing m) = expected e)) (\<lambda>_.
     and_then (assertf debug (\<not> discarded m)) (\<lambda>_. assertf debug (valid m)))))"

fun check_incoming :: "bool \<Rightarrow> gap_control \<Rightarrow> gap_event list \<Rightarrow> unit outcome" where
  "check_incoming debug g [] = Inr ()"
| "check_incoming debug g (e # es) =
     and_then (if event e = Passed
       then check_entry debug (gap_contains Incoming (original_num e) g) (gap_lookup Incoming (original_num e) g) e
       else Inr ()) (\<lambda>_. check_incoming debug g es)"

fun check_outgoing :: "bool \<Rightarrow> gap_control \<Rightarrow> gap_event list \<Rightarrow> unit outcome" where
  "check_outgoing debug g [] = Inr ()"
| "check_outgoing debug g (e # es) =
     and_then (if event e = Passed
       then check_entry debug (gap_contains Outgoing (expected_num e) g) (gap_lookup Outgoing (expected_num e) g) e
       else Inr ()) (\<lambda>_. check_outgoing debug g es)"

fun check_discarded :: "bool \<Rightarrow> gap_control \<Rightarrow> gap_event list \<Rightarrow> unit outcome" where
  "check_discarded debug g [] = Inr ()"
| "check_discarded debug g (e # es) =
     and_then (if event e = Discarded
       then (let m = gap_lookup Incoming (original_num e) g
             in and_then (assertf debug (gap_contains Incoming (original_num e) g)) (\<lambda>_.
                and_then (assertf debug (uint (map_incoming m) = original e)) (\<lambda>_.
                and_then (assertf debug (discarded m)) (\<lambda>_. assertf debug (valid m)))))
       else Inr ()) (\<lambda>_. check_discarded debug g es)"

definition execute :: "bool \<Rightarrow> gap_test \<Rightarrow> bool outcome" where
  "execute debug t =
     and_then (simulate debug (events t) (gap_new (init_incoming t) (init_outgoing t))) (\<lambda>g.
     and_then (check_incoming debug g (events t)) (\<lambda>_.
     and_then (check_outgoing debug g (events t)) (\<lambda>_.
     and_then (check_discarded debug g (events t)) (\<lambda>_. Inr True))))"

section \<open>The tests\<close>

text \<open>The argument of an assertion is evaluated in a debug build only.\<close>

fun run_tests :: "bool \<Rightarrow> (bool \<Rightarrow> bool outcome) list \<Rightarrow> unit outcome" where
  "run_tests debug [] = Inr ()"
| "run_tests debug (t # ts) =
     (if debug then and_then (t debug) (\<lambda>b. and_then (assertf debug b) (\<lambda>_. run_tests debug ts))
      else run_tests debug ts)"

definition packet_loss_none :: "bool \<Rightarrow> bool outcome" where
  "packet_loss_none debug = execute debug \<lparr>events =
     [make_event 5 4 Passed,
      make_event 6 5 Passed,
      make_event 7 0 Discarded,
      make_event 8 0 Discarded,
      make_event 9 6 Passed,
      make_event 10 7 Passed,
      make_event 11 8 Passed],
     init_incoming = 5, init_outgoing = 4\<rparr>"

definition packet_loss_some :: "bool \<Rightarrow> bool outcome" where
  "packet_loss_some debug = execute debug \<lparr>events =
     [make_event 5 4 Passed,
      make_event 6 5 Passed,
      make_event 7 6 Lost_passed,
      make_event 8 7 Lost_passed,
      make_event 9 8 Passed,
      make_event 10 9 Passed],
     init_incoming = 5, init_outgoing = 4\<rparr>"

definition packet_loss_begining :: "bool \<Rightarrow> bool outcome" where
  "packet_loss_begining debug = execute debug \<lparr>events =
     [make_event 7 6 Passed,
      make_event 8 7 Lost_passed,
      make_event 9 8 Lost_passed,
      make_event 10 0 Discarded,
      make_event 11 0 Discarded,
      make_event 12 9 Passed],
     init_incoming = 7, init_outgoing = 6\<rparr>"

definition packet_loss_middle :: "bool \<Rightarrow> bool outcome" where
  "packet_loss_middle debug = execute debug \<lparr>events =
     [make_event 6 5 Passed,
      make_event 7 0 Discarded,
      make_event 8 0 Lost_discarded,
      make_event 9 0 Discarded,
      make_event 10 6 Passed],
     init_incoming = 6, init_outgoing = 5\<rparr>"

definition packet_loss_end :: "bool \<Rightarrow> bool outcome" where
  "packet_loss_end debug = execute debug \<lparr>events =
     [make_event 7 6 Passed,
      make_event 8 0 Discarded,
      make_event 9 0 Discarded,
      make_event 10 7 Lost_passed,
      make_event 11 8 Lost_passed,
      make_event 12 9 Passed],
     init_incoming = 7, init_outgoing = 6\<rparr>"

definition packet_loss_beginning_middle :: "bool \<Rightarrow> bool outcome" where
  "packet_loss_beginning_middle debug = execute debug \<lparr>events =
     [make_event 7 6 Passed,
      make_event 8 7 Lost_passed,
      make_event 9 8 Lost_passed,
      make_event 10 0 Discarded,
      make_event 11 0 Discarded,
      make_event 12 0 Lost_discarded,
      make_event 13 0 Discarded,
      make_event 14 9 Passed,
      make_event 15 10 Passed],
     init_incoming = 7, init_outgoing = 6\<rparr>"

definition packet_loss_middle_end :: "bool \<Rightarrow> bool outcome" where
  "packet_loss_middle_end debug = execute debug \<lparr>events =
     [make_event 7 6 Passed,
      make_event 8 0 Discarded,
      make_event 9 0 Discarded,
      make_event 10 0 Lost_discarded,
      make_event 11 0 Discarded,
      make_event 12 7 Lost_passed,
      make_event 13 8 Lost_passed,
      make_event 14 9 Passed,
      make_event 15 10 Passed],
     init_incoming = 7, init_outgoing = 6\<rparr>"

definition packet_loss_beginning_end :: "bool \<Rightarrow> bool outcome" where
  "packet_loss_beginning_end debug = execute debug \<lparr>events =
     [make_event 7 6 Passed,
      make_event 8 7 Lost_passed,
      make_event 9 8 Lost_passed,
      make_event 10 0 Discarded,
      make_event 11 0 Discarded,
      make_event 12 0 Discarded,
      make_event 13 9 Lost_passed,
      make_event 14 10 Passed],
     init_incoming = 7, init_outgoing = 6\<rparr>"

definition packet_loss_beginning_middle_end :: "bool \<Rightarrow> bool outcome" where
  "packet_loss_beginning_middle_end debug = execute debug \<lparr>events =
     [make_event 7 6 Passed,
      make_event 8 7 Lost_passed,
      make_event 9 8 Lost_passed,
      make_event 10 0 Discarded,
      make_event 11 0 Discarded,
      make_event 12 0 Lost_discarded,
      make_event 13 0 Lost_discarded,
      make_event 14 0 Lost_discarded,
      make_event 15 0 Discarded,
      make_event 16 9 Lost_passed,
      make_event 17 10 Passed,
      make_event 18 11 Passed],
     init_incoming = 7, init_outgoing = 6\<rparr>"

definition wrap_around_1 :: "bool \<Rightarrow> bool outcome" where
  "wrap_around_1 debug = execute debug \<lparr>events =
     [make_event 65533 65533 Passed,
      make_event 65534 65534 Lost_passed,
      make_event 65535 65535 Passed,
      make_event 0 0 Lost_passed,
      make_event 1 1 Passed],
     init_incoming = 65533, init_outgoing = 65533\<rparr>"

definition wrap_around_2 :: "bool \<Rightarrow> bool outcome" where
  "wrap_around_2 debug = execute debug \<lparr>events =
     [make_event 65535 65535 Passed,
      make_event 0 0 Discarded,
      make_event 1 0 Discarded,
      make_event 2 0 Discarded,
      make_event 3 0 Passed],
     init_incoming = 65535, init_outgoing = 65535\<rparr>"

definition late_arrival_no_losses :: "bool \<Rightarrow> bool outcome" where
  "late_arrival_no_losses debug = execute debug \<lparr>events =
     [make_event 1 0 Passed,
      make_event 2 1 Passed,
      make_event 4 3 Passed,
      make_event 5 4 Passed,
      make_event 3 2 Passed],
     init_incoming = 0, init_outgoing = 0\<rparr>"

definition late_arrival_packets_discarded :: "bool \<Rightarrow> bool outcome" where
  "late_arrival_packets_discarded debug = execute debug \<lparr>events =
     [make_event 1 0 Passed,
      make_event 2 1 Passed,
      make_event 3 2 Lost_passed,
      make_event 4 0 Discarded,
      make_event 5 3 Passed,
      make_event 3 2 Passed],
     init_incoming = 0, init_outgoing = 0\<rparr>"

definition custom_packet_1 :: "bool \<Rightarrow> bool outcome" where
  "custom_packet_1 debug = execute debug \<lparr>events =
     [make_event 5 6 Passed,
      make_event 6 7 Passed,
      make_event 0 8 Custom,
      make_event 0 9 Custom,
      make_event 7 10 Passed],
     init_incoming = 5, init_outgoing = 6\<rparr>"

definition custom_packet_discarded_before :: "bool \<Rightarrow> bool outcome" where
  "custom_packet_discarded_before debug = execute debug \<lparr>events =
     [make_event 5 6 Passed,
      make_event 6 0 Discarded,
      make_event 0 7 Custom,
      make_event 0 8 Custom,
      make_event 7 9 Passed],
     init_incoming = 5, init_outgoing = 6\<rparr>"

definition custom_packet_discarded_after :: "bool \<Rightarrow> bool outcome" where
  "custom_packet_discarded_after debug = execute debug \<lparr>events =
     [make_event 5 6 Passed,
      make_event 6 7 Passed,
      make_event 0 8 Custom,
      make_event 0 9 Custom,
      make_event 7 0 Discarded,
      make_event 8 10 Passed],
     init_incoming = 5, init_outgoing = 6\<rparr>"

definition custom_packet_discarded_before_and_after :: "bool \<Rightarrow> bool outcome" where
  "custom_packet_discarded_before_and_after debug = execute debug \<lparr>events =
     [make_event 5 6 Passed,
      make_event 6 7 Passed,
      make_event 7 0 Discarded,
      make_event 8 0 Discarded,
      make_event 0 8 Custom,
      make_event 0 9 Custom,
      make_event 9 0 Discarded,
      make_event 10 10 Discarded],
     init_incoming = 5, init_outgoing = 6\<rparr>"

definition custom_packet_discarded_interleaved :: "bool \<Rightarrow> bool outcome" where
  "custom_packet_discarded_interleaved debug = execute debug \<lparr>events =
     [make_event 5 6 Passed,
      make_event 6 7 Passed,
      make_event 0 8 Custom,
      make_event 7 0 Discarded,
      make_event 8 0 Discarded,
      make_event 0 9 Custom,
      make_event 9 0 Discarded,
      make_event 0 10 Custom,
      make_event 10 11 Passed],
     init_incoming = 5, init_outgoing = 6\<rparr>"

definition gap_main :: "bool \<Rightarrow> unit outcome" where
  "gap_main debug = run_tests debug [
     packet_loss_none,
     packet_loss_some,
     packet_loss_begining,
     packet_loss_middle,
     packet_loss_end,
     packet_loss_beginning_middle,
     packet_loss_middle_end,
     packet_loss_beginning_end,
     packet_loss_beginning_middle_end,
     wrap_around_1,
     wrap_around_2,
     late_arrival_no_losses,
     late_arrival_packets_discarded,
     custom_packet_1,
     custom_packet_discarded_before,
     custom_packet_discarded_after,
     custom_packet_discarded_before_and_after,
     custom_packet_discarded_interleaved]"

section \<open>The specification\<close>

text \<open>The history of a translation: for each incoming number since the first the position of the outgoing
  number it was passed with, or \<open>None\<close> when it was discarded, and for each outgoing number
  the position of the incoming one, or \<open>None\<close> when it was injected.\<close>

record gap_history =
  hist_in :: "nat option list"
  hist_out :: "nat option list"

definition spec_translate :: "nat \<Rightarrow> gap_history \<Rightarrow> gap_history" where
  "spec_translate n h = \<lparr>
     hist_in = hist_in h @ map (\<lambda>k. Some (length (hist_out h) + k)) [0..<n],
     hist_out = hist_out h @ map (\<lambda>k. Some (length (hist_in h) + k)) [0..<n]\<rparr>"

definition spec_discard :: "nat \<Rightarrow> gap_history \<Rightarrow> gap_history" where
  "spec_discard n h = h\<lparr>hist_in := hist_in h @ replicate n None\<rparr>"

definition spec_inject :: "nat \<Rightarrow> gap_history \<Rightarrow> gap_history" where
  "spec_inject n h = h\<lparr>hist_out := hist_out h @ replicate n None\<rparr>"

text \<open>A history is consistent when the two directions agree.\<close>

definition passed_at :: "nat option list \<Rightarrow> nat \<Rightarrow> nat option" where
  "passed_at xs i = (if i < length xs then xs ! i else None)"

definition hist_ok :: "gap_history \<Rightarrow> bool" where
  "hist_ok h \<longleftrightarrow> (\<forall>i j. passed_at (hist_in h) i = Some j \<longleftrightarrow> passed_at (hist_out h) j = Some i)"

definition in_entry :: "u16 \<Rightarrow> u16 \<Rightarrow> nat \<Rightarrow> nat option \<Rightarrow> gap_map" where
  "in_entry i0 o0 i e = (case e of
       Some j \<Rightarrow> \<lparr>map_incoming = i0 + of_nat i, map_outgoing = o0 + of_nat j, discarded = False, valid = True\<rparr>
     | None \<Rightarrow> \<lparr>map_incoming = i0 + of_nat i, map_outgoing = 0, discarded = True, valid = True\<rparr>)"

definition out_entry :: "u16 \<Rightarrow> u16 \<Rightarrow> nat \<Rightarrow> nat option \<Rightarrow> gap_map" where
  "out_entry i0 o0 j e = (case e of
       Some i \<Rightarrow> \<lparr>map_incoming = i0 + of_nat i, map_outgoing = o0 + of_nat j, discarded = False, valid = True\<rparr>
     | None \<Rightarrow> \<lparr>map_incoming = 0, map_outgoing = o0 + of_nat j, discarded = False, valid = True\<rparr>)"

text \<open>The code holds the last \<open>map_size\<close> entries of each direction of the history.\<close>

definition holds_last :: "(nat \<Rightarrow> nat option \<Rightarrow> gap_map) \<Rightarrow> u16 \<Rightarrow> nat option list \<Rightarrow> (nat \<Rightarrow> gap_map) \<Rightarrow> bool" where
  "holds_last entry a xs m \<longleftrightarrow>
     (\<forall>k<length xs. length xs \<le> k + map_size \<longrightarrow> m (gap_index (a + of_nat k)) = entry k (xs ! k))"

definition represents :: "u16 \<Rightarrow> u16 \<Rightarrow> gap_history \<Rightarrow> gap_control \<Rightarrow> bool" where
  "represents i0 o0 h g \<longleftrightarrow>
     next_incoming g = i0 + of_nat (length (hist_in h)) \<and> next_outgoing g = o0 + of_nat (length (hist_out h)) \<and>
     holds_last (in_entry i0 o0) i0 (hist_in h) (incoming_map g) \<and>
     holds_last (out_entry i0 o0) o0 (hist_out h) (outgoing_map g)"

section \<open>Refinement\<close>

lemma gap_index_shift: "gap_index (a + of_nat k) = (unat a + k) mod map_size"
proof -
  have "unat (a + of_nat k) = (unat a + k) mod 2 ^ 16"
    by (simp add: unat_word_ariths unat_of_nat take_bit_eq_mod mod_add_right_eq)
  moreover have "map_size dvd 2 ^ 16" by (simp add: map_size_def)
  ultimately show ?thesis by (simp add: gap_index_def mod_mod_cancel)
qed

lemma gap_index_distinct:
  assumes "k < n" "n \<le> k + map_size" "l < n" "n \<le> l + map_size" "gap_index (a + of_nat k) = gap_index (a + of_nat l)"
  shows "k = l"
proof -
  have "(unat a + k) mod map_size = (unat a + l) mod map_size" using assms(5) by (simp add: gap_index_shift)
  then have "int map_size dvd int (unat a + k) - int (unat a + l)"
    by (metis mod_eq_dvd_iff zmod_int)
  moreover have "\<bar>int (unat a + k) - int (unat a + l)\<bar> < int map_size" using assms(1-4) by auto
  ultimately show ?thesis using zdvd_imp_le by (smt (verit) dvd_minus_iff of_nat_eq_iff of_nat_add)
qed

lemma holds_last_append:
  assumes "holds_last entry a xs m" "e = entry (length xs) x"
  shows "holds_last entry a (xs @ [x]) (m(gap_index (a + of_nat (length xs)) := e))"
  unfolding holds_last_def
proof (intro allI impI)
  fix k assume k: "k < length (xs @ [x])" "length (xs @ [x]) \<le> k + map_size"
  show "(m(gap_index (a + of_nat (length xs)) := e)) (gap_index (a + of_nat k)) = entry k ((xs @ [x]) ! k)"
  proof (cases "k = length xs")
    case False
    then have "gap_index (a + of_nat k) \<noteq> gap_index (a + of_nat (length xs))"
      using gap_index_distinct[of k "Suc (length xs)" "length xs" a] k by (auto simp: map_size_def)
    moreover have "m (gap_index (a + of_nat k)) = entry k (xs ! k)"
      using assms(1) k False by (simp add: holds_last_def)
    ultimately show ?thesis using k False by (simp add: nth_append)
  qed (simp add: assms(2))
qed

lemma spec_step:
  "spec_translate (Suc n) h = spec_translate n (spec_translate 1 h)"
  "spec_discard (Suc n) h = spec_discard n (spec_discard 1 h)"
  "spec_inject (Suc n) h = spec_inject n (spec_inject 1 h)"
  by (simp_all add: spec_translate_def spec_discard_def spec_inject_def map_upt_Suc del: upt_Suc)

lemma spec_zero [simp]: "spec_translate 0 h = h" "spec_discard 0 h = h" "spec_inject 0 h = h"
  by (simp_all add: spec_translate_def spec_discard_def spec_inject_def)

lemma represents_update:
  assumes "represents i0 o0 h g"
  shows "e = in_entry i0 o0 (length (hist_in h)) x \<Longrightarrow>
      holds_last (in_entry i0 o0) i0 (hist_in h @ [x]) ((incoming_map g)(gap_index (next_incoming g) := e))"
    and "f = out_entry i0 o0 (length (hist_out h)) y \<Longrightarrow>
      holds_last (out_entry i0 o0) o0 (hist_out h @ [y]) ((outgoing_map g)(gap_index (next_outgoing g) := f))"
  using assms holds_last_append by (simp_all add: represents_def)

lemma represents_entries:
  assumes "represents i0 o0 h g"
  shows "\<lparr>map_incoming = next_incoming g, map_outgoing = next_outgoing g, discarded = False, valid = True\<rparr> =
      in_entry i0 o0 (length (hist_in h)) (Some (length (hist_out h)))"
    "\<lparr>map_incoming = next_incoming g, map_outgoing = next_outgoing g, discarded = False, valid = True\<rparr> =
      out_entry i0 o0 (length (hist_out h)) (Some (length (hist_in h)))"
    "\<lparr>map_incoming = next_incoming g, map_outgoing = 0, discarded = True, valid = True\<rparr> =
      in_entry i0 o0 (length (hist_in h)) None"
    "\<lparr>map_incoming = 0, map_outgoing = next_outgoing g, discarded = False, valid = True\<rparr> =
      out_entry i0 o0 (length (hist_out h)) None"
  using assms by (simp_all add: represents_def in_entry_def out_entry_def)

lemma represents_next:
  assumes "represents i0 o0 h g"
  shows "next_incoming g + 1 = i0 + of_nat (length (hist_in h @ [x]))"
    "next_outgoing g + 1 = o0 + of_nat (length (hist_out h @ [x]))"
  using assms by (simp_all add: represents_def)

lemma represents_translate:
  "represents i0 o0 h g \<Longrightarrow>
    represents i0 o0 (spec_translate n h) (snd (translate_loop n out g)) \<and>
    fst (translate_loop n out g) = (if n = 0 then out else next_outgoing g + of_nat n - 1)"
proof (induction n arbitrary: h g out)
  case (Suc n)
  let ?m = "\<lparr>map_incoming = next_incoming g, map_outgoing = next_outgoing g, discarded = False, valid = True\<rparr>"
  let ?g = "g\<lparr>next_outgoing := next_outgoing g + 1, next_incoming := next_incoming g + 1,
     incoming_map := (incoming_map g)(gap_index (next_incoming g) := ?m),
     outgoing_map := (outgoing_map g)(gap_index (next_outgoing g) := ?m)\<rparr>"
  have h: "spec_translate 1 h = \<lparr>hist_in = hist_in h @ [Some (length (hist_out h))], hist_out = hist_out h @ [Some (length (hist_in h))]\<rparr>"
    by (simp add: spec_translate_def)
  have sel: "next_incoming ?g = next_incoming g + 1" "next_outgoing ?g = next_outgoing g + 1"
    "incoming_map ?g = (incoming_map g)(gap_index (next_incoming g) := ?m)"
    "outgoing_map ?g = (outgoing_map g)(gap_index (next_outgoing g) := ?m)" by simp_all
  have "represents i0 o0 (spec_translate 1 h) ?g"
    unfolding represents_def h sel gap_history.simps
    by (intro conjI represents_next[OF Suc.prems] represents_update[OF Suc.prems] represents_entries[OF Suc.prems])
  from Suc.IH[OF this, of "next_outgoing g"] show ?case
    unfolding spec_step(1)[of n] by (simp add: Let_def algebra_simps split: if_splits)
qed simp

lemma represents_discard:
  "represents i0 o0 h g \<Longrightarrow> represents i0 o0 (spec_discard n h) (discard_loop n g)"
proof (induction n arbitrary: h g)
  case (Suc n)
  let ?m = "\<lparr>map_incoming = next_incoming g, map_outgoing = 0, discarded = True, valid = True\<rparr>"
  let ?g = "g\<lparr>next_incoming := next_incoming g + 1,
     incoming_map := (incoming_map g)(gap_index (next_incoming g) := ?m)\<rparr>"
  have sel: "hist_in (spec_discard 1 h) = hist_in h @ [None]" "hist_out (spec_discard 1 h) = hist_out h"
    "next_incoming ?g = next_incoming g + 1" "next_outgoing ?g = next_outgoing g"
    "incoming_map ?g = (incoming_map g)(gap_index (next_incoming g) := ?m)" "outgoing_map ?g = outgoing_map g"
    by (simp_all add: spec_discard_def)
  have "represents i0 o0 (spec_discard 1 h) ?g"
    unfolding represents_def sel
    using Suc.prems represents_next(1)[OF Suc.prems] represents_update(1)[OF Suc.prems represents_entries(3)[OF Suc.prems]]
    unfolding represents_def by blast
  from Suc.IH[OF this] show ?case unfolding spec_step(2)[of n] by (simp add: Let_def)
qed simp

lemma represents_inject:
  "represents i0 o0 h g \<Longrightarrow>
    represents i0 o0 (spec_inject n h) (snd (inject_loop n out g)) \<and>
    fst (inject_loop n out g) = (if n = 0 then out else next_outgoing g + of_nat n - 1)"
proof (induction n arbitrary: h g out)
  case (Suc n)
  let ?m = "\<lparr>map_incoming = 0, map_outgoing = next_outgoing g, discarded = False, valid = True\<rparr>"
  let ?g = "g\<lparr>next_outgoing := next_outgoing g + 1,
     outgoing_map := (outgoing_map g)(gap_index (next_outgoing g) := ?m)\<rparr>"
  have sel: "hist_in (spec_inject 1 h) = hist_in h" "hist_out (spec_inject 1 h) = hist_out h @ [None]"
    "next_incoming ?g = next_incoming g" "next_outgoing ?g = next_outgoing g + 1"
    "incoming_map ?g = incoming_map g" "outgoing_map ?g = (outgoing_map g)(gap_index (next_outgoing g) := ?m)"
    by (simp_all add: spec_inject_def)
  have "represents i0 o0 (spec_inject 1 h) ?g"
    unfolding represents_def sel
    using Suc.prems represents_next(2)[OF Suc.prems] represents_update(2)[OF Suc.prems represents_entries(4)[OF Suc.prems]]
    unfolding represents_def by blast
  from Suc.IH[OF this, of "next_outgoing g"] show ?case
    unfolding spec_step(3)[of n] by (simp add: Let_def algebra_simps split: if_splits)
qed simp

lemma represents_mode [simp]: "represents i0 o0 h (g\<lparr>gap_mode := s\<rparr>) = represents i0 o0 h g"
  by (simp add: represents_def)

lemma represents_new: "represents i0 o0 \<lparr>hist_in = [], hist_out = []\<rparr> (gap_new i0 o0)"
  by (simp add: represents_def gap_new_def holds_last_def)

lemma passed_at_simps:
  "passed_at [] i = None"
  "passed_at (xs @ replicate n None) i = passed_at xs i"
  "passed_at (xs @ map (\<lambda>k. Some (l + k)) [0..<n]) i = Some j \<longleftrightarrow>
     passed_at xs i = Some j \<or> length xs \<le> i \<and> i < length xs + n \<and> j = l + (i - length xs)"
  by (auto simp: passed_at_def nth_append)

lemma hist_ok_new: "hist_ok \<lparr>hist_in = [], hist_out = []\<rparr>"
  by (simp add: hist_ok_def passed_at_simps)

lemma hist_ok_spec:
  assumes "hist_ok h"
  shows "hist_ok (spec_translate n h)" "hist_ok (spec_discard n h)" "hist_ok (spec_inject n h)"
proof -
  show "hist_ok (spec_discard n h)" "hist_ok (spec_inject n h)"
    using assms by (simp_all add: hist_ok_def spec_discard_def spec_inject_def passed_at_simps)
  have "lo \<le> i \<and> i < lo + n \<and> j = l + (i - lo) \<longleftrightarrow> l \<le> j \<and> j < l + n \<and> i = lo + (j - l)" for l lo i j :: nat
    by arith
  then show "hist_ok (spec_translate n h)"
    using assms by (simp add: hist_ok_def spec_translate_def passed_at_simps)
qed

text \<open>How many incoming numbers an operation goes over.\<close>

definition ahead :: "u16 \<Rightarrow> gap_control \<Rightarrow> nat" where
  "ahead inc g = unat (inc - next_incoming g + 1)"

lemma represents_translate_op:
  assumes "represents i0 o0 h g" "gap_mode g \<noteq> Initial"
  shows "represents i0 o0 (spec_translate (ahead inc g) h) (snd (translate inc g))"
    "fst (translate inc g) = next_outgoing g + of_nat (ahead inc g) - of_bool (ahead inc g \<noteq> 0)"
    "next_incoming (snd (translate inc g)) = inc + 1" "gap_mode (snd (translate inc g)) = Translating"
proof -
  let ?t = "translate_loop (ahead inc g) (next_outgoing g) g"
  have t: "translate inc g = (fst ?t, snd ?t\<lparr>gap_mode := Translating\<rparr>)"
    using assms(2) by (simp add: translate_def ahead_def split: prod.split)
  show r: "represents i0 o0 (spec_translate (ahead inc g) h) (snd (translate inc g))"
    "fst (translate inc g) = next_outgoing g + of_nat (ahead inc g) - of_bool (ahead inc g \<noteq> 0)"
    "gap_mode (snd (translate inc g)) = Translating"
    using represents_translate[OF assms(1), of "ahead inc g" "next_outgoing g"] by (simp_all add: t)
  have "next_incoming (snd (translate inc g)) = next_incoming g + of_nat (ahead inc g)"
    using r(1) assms(1) by (simp add: represents_def spec_translate_def)
  then show "next_incoming (snd (translate inc g)) = inc + 1" by (simp add: ahead_def)
qed

definition spec_discard_op :: "u16 \<Rightarrow> gap_control \<Rightarrow> gap_history \<Rightarrow> gap_history" where
  "spec_discard_op inc g h =
     (if gap_mode g = Translating then spec_discard 1 (spec_translate (ahead (inc - 1) g) h)
      else spec_discard (ahead inc g) h)"

lemma represents_discard_op:
  assumes "represents i0 o0 h g"
  shows "represents i0 o0 (spec_discard_op inc g h) (discard inc g)"
proof (cases "gap_mode g = Translating")
  case True
  let ?g = "snd (translate (inc - 1) g)"
  have "represents i0 o0 (spec_translate (ahead (inc - 1) g) h) ?g" "next_incoming ?g = inc"
    using represents_translate_op[OF assms, where inc = "inc - 1"] True by simp_all
  moreover have "discard inc g = (discard_loop (unat (inc - next_incoming ?g + 1)) ?g)\<lparr>gap_mode := Discarding\<rparr>"
    using True by (simp only: discard_def Let_def if_True simp_thms)
  ultimately show ?thesis
    using represents_discard[of i0 o0 "spec_translate (ahead (inc - 1) g) h" ?g 1] True
    by (simp add: spec_discard_op_def del: discard_loop.simps)
next
  case False
  then show ?thesis
    using represents_discard[OF assms, of "ahead inc g"]
    by (simp add: discard_def spec_discard_op_def ahead_def del: discard_loop.simps)
qed

lemma represents_inject_op:
  assumes "represents i0 o0 h g"
  shows "represents i0 o0 (spec_inject (unat count) h) (snd (inject count g))"
    "fst (inject count g) = (if count = 0 then 0 else next_outgoing g + count - 1)"
  using represents_inject[OF assms, where n = "unat count" and out = 0]
  by (auto simp: inject_def unat_eq_zero split: prod.split)

text \<open>The states of a translation.\<close>

inductive gap_reachable :: "u16 \<Rightarrow> gap_control \<Rightarrow> bool" for o0 :: u16 where
  gap_start: "gap_reachable o0 (gap_new i0 o0)"
| gap_translate: "gap_reachable o0 g \<Longrightarrow> gap_reachable o0 (snd (translate inc g))"
| gap_discard: "gap_reachable o0 g \<Longrightarrow> gap_reachable o0 (discard inc g)"
| gap_inject: "gap_reachable o0 g \<Longrightarrow> gap_reachable o0 (snd (inject count g))"

lemma gap_reachable_represents:
  "gap_reachable o0 g \<Longrightarrow> \<exists>i0 h. represents i0 o0 h g \<and> hist_ok h \<and> (gap_mode g = Initial \<longrightarrow> g = gap_new i0 o0)"
proof (induction rule: gap_reachable.induct)
  case (gap_start i0)
  then show ?case using represents_new hist_ok_new by blast
next
  case (gap_translate g inc)
  obtain i0 h where h: "represents i0 o0 h g" "hist_ok h" "gap_mode g = Initial \<longrightarrow> g = gap_new i0 o0"
    using gap_translate.IH by blast
  show ?case
  proof (cases "gap_mode g = Initial")
    case True
    have "translate inc g = (fst (translate_loop 1 o0 (gap_new inc o0)),
        (snd (translate_loop 1 o0 (gap_new inc o0)))\<lparr>gap_mode := Translating\<rparr>)"
      using h(3) True by (simp add: translate_def gap_new_def Let_def)
    then show ?thesis
      using represents_translate[OF represents_new[of inc o0], of 1 o0] hist_ok_spec(1)[OF hist_ok_new, of 1]
      by (intro exI[of _ inc] exI[of _ "spec_translate 1 \<lparr>hist_in = [], hist_out = []\<rparr>"])
        (simp del: translate_loop.simps)
  next
    case False
    then show ?thesis
      using represents_translate_op(1,4)[OF h(1) False, of inc] hist_ok_spec(1)[OF h(2), of "ahead inc g"] by auto
  qed
next
  case (gap_discard g inc)
  obtain i0 h where h: "represents i0 o0 h g" "hist_ok h" using gap_discard.IH by blast
  have "hist_ok (spec_discard_op inc g h)" using h(2) by (simp add: spec_discard_op_def hist_ok_spec)
  moreover have "gap_mode (discard inc g) \<noteq> Initial" by (simp add: discard_def Let_def)
  ultimately show ?case using represents_discard_op[OF h(1)] by blast
next
  case (gap_inject g count)
  obtain i0 h where h: "represents i0 o0 h g" "hist_ok h" using gap_inject.IH by blast
  have "gap_mode (snd (inject count g)) \<noteq> Initial" by (simp add: inject_def split: prod.split)
  then show ?case using represents_inject_op(1)[OF h(1)] hist_ok_spec(3)[OF h(2)] by blast
qed

lemma holds_lastD:
  "holds_last entry a xs m \<Longrightarrow> k < length xs \<Longrightarrow> length xs \<le> k + map_size \<Longrightarrow> m (gap_index (a + of_nat k)) = entry k (xs ! k)"
  by (simp add: holds_last_def)

section \<open>Evaluation of the tests\<close>

lemmas loop_numerals =
  translate_loop.simps(2)[where n = "pred_numeral k" for k, folded numeral_eq_Suc]
  discard_loop.simps(2)[where n = "pred_numeral k" for k, folded numeral_eq_Suc]
  inject_loop.simps(2)[where n = "pred_numeral k" for k, folded numeral_eq_Suc]

lemmas gap_eval = execute_def make_event_def run_passed_def run_discarded_def run_custom_def gap_contains_def
  gap_lookup_def gap_new_def translate_def discard_def inject_def gap_index_def map_size_def original_num_def
  expected_num_def check_entry_def Let_def no_map_def loop_numerals

lemma packet_loss_none_passes: "packet_loss_none True = Inr True"
  by (simp add: packet_loss_none_def gap_eval)

lemma packet_loss_some_passes: "packet_loss_some True = Inr True"
  by (simp add: packet_loss_some_def gap_eval)

lemma packet_loss_begining_passes: "packet_loss_begining True = Inr True"
  by (simp add: packet_loss_begining_def gap_eval)

lemma packet_loss_middle_passes: "packet_loss_middle True = Inr True"
  by (simp add: packet_loss_middle_def gap_eval)

lemma packet_loss_end_passes: "packet_loss_end True = Inr True"
  by (simp add: packet_loss_end_def gap_eval)

lemma packet_loss_beginning_middle_passes: "packet_loss_beginning_middle True = Inr True"
  by (simp add: packet_loss_beginning_middle_def gap_eval)

lemma packet_loss_middle_end_passes: "packet_loss_middle_end True = Inr True"
  by (simp add: packet_loss_middle_end_def gap_eval)

lemma packet_loss_beginning_end_passes: "packet_loss_beginning_end True = Inr True"
  by (simp add: packet_loss_beginning_end_def gap_eval)

lemma packet_loss_beginning_middle_end_passes: "packet_loss_beginning_middle_end True = Inr True"
  by (simp add: packet_loss_beginning_middle_end_def gap_eval)

lemma wrap_around_1_passes: "wrap_around_1 True = Inr True"
  by (simp add: wrap_around_1_def gap_eval)

lemma wrap_around_2_passes: "wrap_around_2 True = Inr True"
  by (simp add: wrap_around_2_def gap_eval)

lemma late_arrival_no_losses_passes: "late_arrival_no_losses True = Inr True"
  by (simp add: late_arrival_no_losses_def gap_eval)

lemma late_arrival_packets_discarded_passes: "late_arrival_packets_discarded True = Inr True"
  by (simp add: late_arrival_packets_discarded_def gap_eval)

lemma custom_packet_1_passes: "custom_packet_1 True = Inr True"
  by (simp add: custom_packet_1_def gap_eval)

lemma custom_packet_discarded_before_passes: "custom_packet_discarded_before True = Inr True"
  by (simp add: custom_packet_discarded_before_def gap_eval)

lemma custom_packet_discarded_after_passes: "custom_packet_discarded_after True = Inr True"
  by (simp add: custom_packet_discarded_after_def gap_eval)

lemma custom_packet_discarded_before_and_after_passes: "custom_packet_discarded_before_and_after True = Inr True"
  by (simp add: custom_packet_discarded_before_and_after_def gap_eval)

lemma custom_packet_discarded_interleaved_passes: "custom_packet_discarded_interleaved True = Inr True"
  by (simp add: custom_packet_discarded_interleaved_def gap_eval)

lemmas test_results =
  packet_loss_none_passes
  packet_loss_some_passes
  packet_loss_begining_passes
  packet_loss_middle_passes
  packet_loss_end_passes
  packet_loss_beginning_middle_passes
  packet_loss_middle_end_passes
  packet_loss_beginning_end_passes
  packet_loss_beginning_middle_end_passes
  wrap_around_1_passes
  wrap_around_2_passes
  late_arrival_no_losses_passes
  late_arrival_packets_discarded_passes
  custom_packet_1_passes
  custom_packet_discarded_before_passes
  custom_packet_discarded_after_passes
  custom_packet_discarded_before_and_after_passes
  custom_packet_discarded_interleaved_passes

section \<open>Properties\<close>

text \<open>Every state that the translation reaches is a window on a history in which each incoming
  number is passed with one outgoing number or discarded, each outgoing number carries one incoming number
  or is injected, and the two directions agree; for the last \<open>map_size\<close> numbers of each direction
  \<open>contains\<close> is true, and \<open>lookup\<close> gives what the history says, the same entry from both sides.\<close>

theorem gap_lookup_recalls:
  assumes "gap_reachable o0 g"
  shows "\<exists>i0 h. hist_ok h \<and>
    (\<forall>i<length (hist_in h). length (hist_in h) \<le> i + map_size \<longrightarrow>
      gap_contains Incoming (i0 + of_nat i) g \<and>
      discarded (gap_lookup Incoming (i0 + of_nat i) g) = (hist_in h ! i = None) \<and>
      (\<forall>j. hist_in h ! i = Some j \<longrightarrow> map_outgoing (gap_lookup Incoming (i0 + of_nat i) g) = o0 + of_nat j \<and>
        (length (hist_out h) \<le> j + map_size \<longrightarrow>
          gap_lookup Outgoing (o0 + of_nat j) g = gap_lookup Incoming (i0 + of_nat i) g))) \<and>
    (\<forall>j<length (hist_out h). length (hist_out h) \<le> j + map_size \<longrightarrow> gap_contains Outgoing (o0 + of_nat j) g) \<and>
    next_incoming g = i0 + of_nat (length (hist_in h)) \<and> next_outgoing g = o0 + of_nat (length (hist_out h))"
proof -
  obtain i0 h where r: "represents i0 o0 h g" "hist_ok h" using gap_reachable_represents[OF assms] by blast
  have inc: "incoming_map g (gap_index (i0 + of_nat i)) = in_entry i0 o0 i (hist_in h ! i)"
    if "i < length (hist_in h)" "length (hist_in h) \<le> i + map_size" for i
    using r(1) that by (simp add: represents_def holds_last_def)
  have out: "outgoing_map g (gap_index (o0 + of_nat j)) = out_entry i0 o0 j (hist_out h ! j)"
    if "j < length (hist_out h)" "length (hist_out h) \<le> j + map_size" for j
    using r(1) that by (simp add: represents_def holds_last_def)
  have both: "j < length (hist_out h) \<and> hist_out h ! j = Some i" if "i < length (hist_in h)" "hist_in h ! i = Some j" for i j
    using r(2) that by (metis hist_ok_def passed_at_def option.distinct(1))
  show ?thesis
    using r inc out both
    by (intro exI[of _ i0] exI[of _ h])
      (auto simp: gap_contains_def gap_lookup_def in_entry_def out_entry_def represents_def split: option.split)
qed

theorem gap_lookup_recalls_witness:
  "\<exists>h. hist_ok h \<and> next_outgoing (snd (translate 7 (discard 6 (snd (translate 5 (gap_new 5 4)))))) = 4 + of_nat (length (hist_out h))"
proof -
  have "gap_reachable 4 (snd (translate 7 (discard 6 (snd (translate 5 (gap_new 5 4))))))"
    by (intro gap_translate gap_discard gap_start)
  from gap_lookup_recalls[OF this] show ?thesis by blast
qed

text \<open>C38: The operations implement the history: once started, \<open>translate\<close> passes every incoming number
  up to its argument with the next outgoing numbers and returns the last of them, \<open>discard\<close>
  passes what was lost before its argument when the last packet was passed and discards the rest,
  and \<open>inject\<close> takes outgoing numbers only.\<close>

theorem gap_refines_history:
  assumes "represents i0 o0 h g" "gap_mode g \<noteq> Initial"
  shows "represents i0 o0 (spec_translate (ahead inc g) h) (snd (translate inc g)) \<and>
    (ahead inc g \<noteq> 0 \<longrightarrow> fst (translate inc g) = o0 + of_nat (length (hist_out h) + ahead inc g - 1)) \<and>
    represents i0 o0
      (if gap_mode g = Translating then spec_discard 1 (spec_translate (ahead (inc - 1) g) h)
       else spec_discard (ahead inc g) h) (discard inc g) \<and>
    represents i0 o0 (spec_inject (unat count) h) (snd (inject count g)) \<and>
    (count \<noteq> 0 \<longrightarrow> fst (inject count g) = o0 + of_nat (length (hist_out h) + unat count - 1))"
proof -
  have "next_outgoing g = o0 + of_nat (length (hist_out h))" using assms(1) by (simp add: represents_def)
  moreover have shift: "(of_nat (l + n - 1) :: u16) = of_nat l + of_nat n - 1" if "n \<noteq> 0" for l n
    using that by (cases n) simp_all
  moreover have "count \<noteq> 0 \<Longrightarrow> (of_nat (length (hist_out h) + unat count - 1) :: u16) = of_nat (length (hist_out h)) + count - 1"
    using shift[of "unat count" "length (hist_out h)"] by (simp add: unat_eq_zero)
  ultimately show ?thesis
    using represents_translate_op[OF assms, of inc] represents_discard_op[OF assms(1), of inc]
      represents_inject_op[OF assms(1), of count]
    by (simp add: spec_discard_op_def add_diff_eq)
qed

theorem gap_refines_history_witness:
  "represents 5 4 (spec_translate 3 (spec_translate 1 \<lparr>hist_in = [], hist_out = []\<rparr>)) (snd (translate 8 (snd (translate 5 (gap_new 5 4)))))"
proof -
  let ?g = "gap_new 5 4\<lparr>gap_mode := Discarding\<rparr>"
  have start: "represents 5 4 \<lparr>hist_in = [], hist_out = []\<rparr> ?g" "gap_mode ?g \<noteq> Initial"
    using represents_new by simp_all
  have "translate 5 ?g = translate 5 (gap_new 5 4)" by (simp add: translate_def gap_new_def Let_def)
  moreover have "ahead 5 ?g = 1" by (simp add: ahead_def gap_new_def)
  ultimately have one: "represents 5 4 (spec_translate 1 \<lparr>hist_in = [], hist_out = []\<rparr>) (snd (translate 5 (gap_new 5 4)))"
    using gap_refines_history[OF start, of 5 0] by simp
  have g: "next_incoming (snd (translate 5 (gap_new 5 4))) = 6" "gap_mode (snd (translate 5 (gap_new 5 4))) \<noteq> Initial"
    by (simp_all add: translate_def gap_new_def Let_def)
  moreover have "ahead 8 (snd (translate 5 (gap_new 5 4))) = 3" by (simp add: ahead_def g)
  ultimately show ?thesis using gap_refines_history[OF one, of 8 0] by simp
qed

text \<open>A packet that is translated again, or late, is taken for one that is \<open>2 ^ 16\<close> numbers ahead: for the
  last packet \<open>translate\<close> returns an outgoing number that was never assigned to it, and
  for one that is \<open>d\<close> numbers older the outgoing numbers go back by \<open>d\<close>, so that the next packets are
  given numbers that are in use.\<close>

theorem late_packet_rewinds:
  assumes "gap_mode g \<noteq> Initial" "0 < d" "represents i0 o0 h g"
  shows "fst (translate (next_incoming g - 1) g) = next_outgoing g \<and>
    next_outgoing (snd (translate (next_incoming g - 1) g)) = next_outgoing g \<and>
    next_outgoing (snd (translate (next_incoming g - 1 - d) g)) = next_outgoing g - d \<and>
    next_incoming (snd (translate (next_incoming g - 1 - d) g)) = next_incoming g - d"
proof -
  have out: "next_outgoing (snd (translate inc g)) = next_outgoing g + of_nat (ahead inc g)" for inc
    using represents_translate_op(1)[OF assms(3,1), of inc] assms(3)
    by (simp add: represents_def spec_translate_def algebra_simps)
  have "ahead (next_incoming g - 1) g = 0" "(of_nat (ahead (next_incoming g - 1 - d) g) :: u16) = - d"
    by (simp_all add: ahead_def)
  then show ?thesis
    using represents_translate_op(2,3)[OF assms(3,1)] out by simp
qed

theorem late_packet_rewinds_witness:
  "next_outgoing (snd (translate (8 - 1 - 3) (gap_new 8 20\<lparr>gap_mode := Translating\<rparr>))) = 20 - 3"
proof -
  have "represents 8 20 \<lparr>hist_in = [], hist_out = []\<rparr> (gap_new 8 20\<lparr>gap_mode := Translating\<rparr>)"
    using represents_new by simp
  from late_packet_rewinds[OF _ _ this, of 3] show ?thesis by (simp add: gap_new_def)
qed

text \<open>Every test of the file passes: the sequences of passed, lost, discarded, injected and late
  packets, across the wrap-around of the numbers, get the numbers that the tests expect, and
  keep them to the end.\<close>

theorem gap_tests_pass: "gap_main True = Inr ()"
  by (simp add: gap_main_def test_results)

end
