(* ===== verification/Clip_Socket.thy ===== *)
theory Clip_Socket
  imports Prelude
begin

text \<open>
  The sockets of \<open>exercises/clipserver/Server/Server/socket.cpp\<close>. The system calls are a record of functions on
  the state \<open>'w\<close> of the outside world, each with the result of the call on a POSIX system, and \<open>errno\<close>
  is read from that state; the conversions of addresses and numbers are arguments. A buffer is the list of
  its bytes. What the kernel is known to do is stated by \<open>send_law\<close> and \<open>recv_law\<close>.
\<close>

section \<open>System calls\<close>

record inet_address =
  sin_family :: int
  sin_port :: u16
  sin_addr :: u32

record 'w system_calls =
  sys_errno :: "'w \<Rightarrow> nat"
  sys_socket :: "int \<Rightarrow> int \<Rightarrow> int \<Rightarrow> 'w \<Rightarrow> int \<times> 'w"
  sys_close :: "int \<Rightarrow> 'w \<Rightarrow> int \<times> 'w"
  sys_bind :: "int \<Rightarrow> inet_address \<Rightarrow> 'w \<Rightarrow> int \<times> 'w"
  sys_connect :: "int \<Rightarrow> inet_address \<Rightarrow> 'w \<Rightarrow> int \<times> 'w"
  sys_listen :: "int \<Rightarrow> int \<Rightarrow> 'w \<Rightarrow> int \<times> 'w"
  sys_accept :: "int \<Rightarrow> 'w \<Rightarrow> int \<times> 'w"
  sys_setsockopt :: "int \<Rightarrow> int \<Rightarrow> int \<Rightarrow> int list \<Rightarrow> 'w \<Rightarrow> int \<times> 'w"
  sys_getsockname :: "int \<Rightarrow> 'w \<Rightarrow> int \<times> inet_address \<times> 'w"
  sys_getpeername :: "int \<Rightarrow> 'w \<Rightarrow> int \<times> inet_address \<times> 'w"
  sys_send :: "int \<Rightarrow> u8 list \<Rightarrow> 'w \<Rightarrow> int \<times> 'w"
  sys_sendto :: "int \<Rightarrow> inet_address \<Rightarrow> u8 list \<Rightarrow> 'w \<Rightarrow> int \<times> 'w"
  sys_recv :: "int \<Rightarrow> nat \<Rightarrow> 'w \<Rightarrow> int \<times> u8 list \<times> 'w"
  sys_recvfrom :: "int \<Rightarrow> nat \<Rightarrow> 'w \<Rightarrow> int \<times> u8 list \<times> inet_address \<times> 'w"

definition invalid_handle :: int where "invalid_handle = - 1"

text \<open>The constants of the system headers that the code uses.\<close>

definition af_inet :: int where "af_inet = 2"
definition sock_stream :: int where "sock_stream = 1"
definition sock_dgram :: int where "sock_dgram = 2"
definition ipproto_tcp :: int where "ipproto_tcp = 6"
definition ipproto_udp :: int where "ipproto_udp = 17"
definition sol_socket :: int where "sol_socket = 1"
definition so_sndtimeo :: int where "so_sndtimeo = 21"
definition so_rcvtimeo :: int where "so_rcvtimeo = 20"

section \<open>sys::socket\<close>

definition try_set_socket_options ::
    "'w system_calls \<Rightarrow> int \<Rightarrow> int \<Rightarrow> int \<Rightarrow> int list \<Rightarrow> 'w \<Rightarrow> bool \<times> 'w" where
  "try_set_socket_options sys h level name v w = (let (r, w) = sys_setsockopt sys h level name v w in (r = 0, w))"

text \<open>A timeout in milliseconds as seconds and microseconds.\<close>

definition timeval_of :: "int \<Rightarrow> int list" where
  "timeval_of ms = [ms div 1000, (ms - ms div 1000 * 1000) * 1000]"

definition try_set_send_timeout :: "'w system_calls \<Rightarrow> int \<Rightarrow> int \<Rightarrow> 'w \<Rightarrow> bool \<times> 'w" where
  "try_set_send_timeout sys h ms w = try_set_socket_options sys h sol_socket so_sndtimeo (timeval_of ms) w"

definition try_set_receive_timeout :: "'w system_calls \<Rightarrow> int \<Rightarrow> int \<Rightarrow> 'w \<Rightarrow> bool \<times> 'w" where
  "try_set_receive_timeout sys h ms w = try_set_socket_options sys h sol_socket so_rcvtimeo (timeval_of ms) w"

text \<open>The second argument of each operation with a reference is the value before the call.\<close>

definition try_open :: "'w system_calls \<Rightarrow> int \<Rightarrow> int \<Rightarrow> int \<Rightarrow> int \<Rightarrow> 'w \<Rightarrow> bool \<times> int \<times> 'w" where
  "try_open sys h family type protocol w =
     (let (r, w) = sys_socket sys family type protocol w in (r \<ge> 0, if r \<ge> 0 then r else h, w))"

definition try_close :: "'w system_calls \<Rightarrow> int \<Rightarrow> 'w \<Rightarrow> bool \<times> int \<times> 'w" where
  "try_close sys h w = (let (r, w) = sys_close sys h w in (r = 0, if r = 0 then invalid_handle else h, w))"

definition try_bind :: "'w system_calls \<Rightarrow> int \<Rightarrow> inet_address \<Rightarrow> 'w \<Rightarrow> bool \<times> 'w" where
  "try_bind sys h addr w = (let (r, w) = sys_bind sys h addr w in (r \<noteq> invalid_handle, w))"

definition try_connect :: "'w system_calls \<Rightarrow> int \<Rightarrow> inet_address \<Rightarrow> 'w \<Rightarrow> bool \<times> 'w" where
  "try_connect sys h addr w = (let (r, w) = sys_connect sys h addr w in (r \<noteq> invalid_handle, w))"

definition try_listen :: "'w system_calls \<Rightarrow> int \<Rightarrow> int \<Rightarrow> 'w \<Rightarrow> bool \<times> 'w" where
  "try_listen sys h backlog w = (let (r, w) = sys_listen sys h backlog w in (r \<noteq> invalid_handle, w))"

definition try_accept :: "'w system_calls \<Rightarrow> int \<Rightarrow> int \<Rightarrow> 'w \<Rightarrow> bool \<times> int \<times> 'w" where
  "try_accept sys h accepted w =
     (let (r, w) = sys_accept sys h w in (r \<noteq> invalid_handle, if r \<noteq> invalid_handle then r else accepted, w))"

definition try_get_local_address :: "'w system_calls \<Rightarrow> int \<Rightarrow> 'w \<Rightarrow> bool \<times> inet_address \<times> 'w" where
  "try_get_local_address sys h w = (let (r, addr, w) = sys_getsockname sys h w in (r = 0, addr, w))"

definition try_get_remote_address :: "'w system_calls \<Rightarrow> int \<Rightarrow> 'w \<Rightarrow> bool \<times> inet_address \<times> 'w" where
  "try_get_remote_address sys h w = (let (r, addr, w) = sys_getpeername sys h w in (r = 0, addr, w))"

text \<open>The number of bytes is passed as a 32-bit \<open>socklen_t\<close>.\<close>

definition first_bytes :: "u8 list \<Rightarrow> u8 list" where
  "first_bytes buf = take (unat (of_nat (length buf) :: u32)) buf"

definition try_send :: "'w system_calls \<Rightarrow> int \<Rightarrow> u8 list \<Rightarrow> 'w \<Rightarrow> bool \<times> nat \<times> 'w" where
  "try_send sys h buf w = (let (r, w) = sys_send sys h (first_bytes buf) w in (r \<ge> 0, nat r, w))"

definition try_sendto :: "'w system_calls \<Rightarrow> int \<Rightarrow> inet_address \<Rightarrow> u8 list \<Rightarrow> 'w \<Rightarrow> bool \<times> nat \<times> 'w" where
  "try_sendto sys h addr buf w = (let (r, w) = sys_sendto sys h addr (first_bytes buf) w in (r \<ge> 0, nat r, w))"

definition try_recv :: "'w system_calls \<Rightarrow> int \<Rightarrow> nat \<Rightarrow> 'w \<Rightarrow> bool \<times> nat \<times> u8 list \<times> 'w" where
  "try_recv sys h n w = (let (r, bs, w) = sys_recv sys h (n mod 2 ^ 32) w in (r > 0, nat r, bs, w))"

definition try_recvfrom :: "'w system_calls \<Rightarrow> int \<Rightarrow> nat \<Rightarrow> 'w \<Rightarrow> bool \<times> nat \<times> u8 list \<times> inet_address \<times> 'w" where
  "try_recvfrom sys h n w =
     (let (r, bs, addr, w) = sys_recvfrom sys h (n mod 2 ^ 32) w in (r > 0, nat r, bs, addr, w))"

section \<open>Addresses\<close>

text \<open>The host in front of the last colon and the port behind it; \<open>stoul\<close> throws when it gives \<open>None\<close>.\<close>

definition after_colon :: "string \<Rightarrow> string option" where
  "after_colon s = (if CHR '':'' \<in> set s then Some (rev (takeWhile (\<lambda>c. c \<noteq> CHR '':'') (rev s))) else None)"

definition before_colon :: "string \<Rightarrow> string" where
  "before_colon s = (if CHR '':'' \<in> set s then rev (tl (dropWhile (\<lambda>c. c \<noteq> CHR '':'') (rev s))) else s)"

definition htons :: "u16 \<Rightarrow> u16" where
  "htons v = push_bit 8 v OR drop_bit 8 v"

definition try_string_to_inet4 ::
    "(string \<Rightarrow> u64 option) \<Rightarrow> (string \<Rightarrow> u32 option) \<Rightarrow> string \<Rightarrow> inet_address \<Rightarrow> (bool \<times> inet_address) outcome" where
  "try_string_to_inet4 stoul pton s addr =
     and_then (case after_colon s of
         None \<Rightarrow> Inr addr
       | Some p \<Rightarrow> (case stoul p of
             None \<Rightarrow> Inl Out_of_range_thrown
           | Some n \<Rightarrow> Inr (addr\<lparr>sin_port := htons (ucast n)\<rparr>))) (\<lambda>addr.
     Inr (case pton (before_colon s) of
         None \<Rightarrow> (False, addr)
       | Some a \<Rightarrow> (True, addr\<lparr>sin_addr := a\<rparr>)))"

definition try_inet4_to_string ::
    "(u32 \<Rightarrow> string option) \<Rightarrow> (nat \<Rightarrow> string) \<Rightarrow> inet_address \<Rightarrow> string \<Rightarrow> bool \<times> string" where
  "try_inet4_to_string ntop to_str addr s =
     (case ntop (sin_addr addr) of
        None \<Rightarrow> (False, s)
      | Some host \<Rightarrow> (True, host @ '':'' @ to_str (unat (htons (sin_port addr)))))"

definition address_port :: "inet_address \<Rightarrow> u16" where
  "address_port addr = htons (sin_port addr)"

definition set_port :: "u16 \<Rightarrow> inet_address \<Rightarrow> inet_address" where
  "set_port p addr = addr\<lparr>sin_port := htons p\<rparr>"

definition has_same_port :: "inet_address \<Rightarrow> inet_address \<Rightarrow> bool" where
  "has_same_port a b \<longleftrightarrow> sin_port a = sin_port b"

definition has_same_host :: "inet_address \<Rightarrow> inet_address \<Rightarrow> bool" where
  "has_same_host a b \<longleftrightarrow> sin_addr a = sin_addr b"

definition same_address :: "inet_address \<Rightarrow> inet_address \<Rightarrow> bool" where
  "same_address a b \<longleftrightarrow> has_same_port a b \<and> has_same_host a b"

section \<open>net::socket\<close>

datatype socket_kind = No_kind | Tcp | Udp

record net_socket =
  fd :: int
  kind :: socket_kind
  error_code :: nat
  interrupted :: bool

definition net_socket_new :: net_socket where
  "net_socket_new = \<lparr>fd = invalid_handle, kind = No_kind, error_code = 0, interrupted = False\<rparr>"

fun map_socket_type :: "socket_kind \<Rightarrow> int \<times> int \<times> int" where
  "map_socket_type Tcp = (af_inet, sock_stream, ipproto_tcp)"
| "map_socket_type Udp = (af_inet, sock_dgram, ipproto_udp)"
| "map_socket_type No_kind = (- 1, - 1, - 1)"

definition load_last_error_code :: "'w system_calls \<Rightarrow> 'w \<Rightarrow> net_socket \<Rightarrow> net_socket" where
  "load_last_error_code sys w sk = sk\<lparr>error_code := sys_errno sys w\<rparr>"

text \<open>Every operation ends with the same lines: the error is loaded when the call failed, and the error
  of the socket, which may be an older one, is returned.\<close>

definition with_error :: "'w system_calls \<Rightarrow> bool \<Rightarrow> 'w \<Rightarrow> net_socket \<Rightarrow> nat \<times> net_socket \<times> 'w" where
  "with_error sys success w sk =
     (let sk = (if success then sk else load_last_error_code sys w sk) in (error_code sk, sk, w))"

definition net_is_open :: "net_socket \<Rightarrow> bool" where
  "net_is_open sk \<longleftrightarrow> fd sk \<noteq> invalid_handle \<and> error_code sk = 0"

definition socket_equal :: "net_socket \<Rightarrow> net_socket \<Rightarrow> bool" where
  "socket_equal a b \<longleftrightarrow> fd a = fd b"

definition socket_less :: "net_socket \<Rightarrow> net_socket \<Rightarrow> bool" where
  "socket_less a b \<longleftrightarrow> fd a < fd b"

definition clear_error :: "net_socket \<Rightarrow> net_socket" where
  "clear_error sk = sk\<lparr>error_code := 0\<rparr>"

definition invalidate_socket :: "net_socket \<Rightarrow> net_socket" where
  "invalidate_socket sk = sk\<lparr>fd := invalid_handle\<rparr>"

text \<open>The moved-to and the moved-from socket; the constructor does not copy the interrupt flag.\<close>

definition socket_move :: "net_socket \<Rightarrow> net_socket \<times> net_socket" where
  "socket_move other =
     (net_socket_new\<lparr>fd := fd other, kind := kind other, error_code := error_code other\<rparr>, invalidate_socket other)"

definition socket_assign :: "net_socket \<Rightarrow> net_socket \<Rightarrow> net_socket \<times> net_socket" where
  "socket_assign sk other =
     (sk\<lparr>fd := fd other, kind := kind other, error_code := error_code other\<rparr>, invalidate_socket other)"

definition set_send_timeout :: "'w system_calls \<Rightarrow> int \<Rightarrow> net_socket \<Rightarrow> 'w \<Rightarrow> net_socket \<times> 'w" where
  "set_send_timeout sys ms sk w =
     (let (ok, w) = try_set_send_timeout sys (fd sk) ms w in snd (with_error sys ok w sk))"

definition set_receive_timeout :: "'w system_calls \<Rightarrow> int \<Rightarrow> net_socket \<Rightarrow> 'w \<Rightarrow> net_socket \<times> 'w" where
  "set_receive_timeout sys ms sk w =
     (let (ok, w) = try_set_receive_timeout sys (fd sk) ms w in snd (with_error sys ok w sk))"

definition socket_open :: "'w system_calls \<Rightarrow> socket_kind \<Rightarrow> net_socket \<Rightarrow> 'w \<Rightarrow> nat \<times> net_socket \<times> 'w" where
  "socket_open sys k sk w =
     (let (fam, ty, proto) = map_socket_type k;
          (ok, h, w) = try_open sys (fd sk) fam ty proto w
      in with_error sys ok w (sk\<lparr>kind := k, fd := h\<rparr>))"

definition socket_close :: "'w system_calls \<Rightarrow> net_socket \<Rightarrow> 'w \<Rightarrow> nat \<times> net_socket \<times> 'w" where
  "socket_close sys sk w =
     (let (ok, h, w) = try_close sys (fd sk) w;
          (e, sk, w) = with_error sys ok w (sk\<lparr>fd := h\<rparr>)
      in (e, invalidate_socket sk, w))"

definition socket_bind :: "'w system_calls \<Rightarrow> inet_address \<Rightarrow> net_socket \<Rightarrow> 'w \<Rightarrow> nat \<times> net_socket \<times> 'w" where
  "socket_bind sys addr sk w = (let (ok, w) = try_bind sys (fd sk) addr w in with_error sys ok w sk)"

definition socket_connect :: "'w system_calls \<Rightarrow> inet_address \<Rightarrow> net_socket \<Rightarrow> 'w \<Rightarrow> nat \<times> net_socket \<times> 'w" where
  "socket_connect sys addr sk w = (let (ok, w) = try_connect sys (fd sk) addr w in with_error sys ok w sk)"

definition socket_listen :: "'w system_calls \<Rightarrow> int \<Rightarrow> net_socket \<Rightarrow> 'w \<Rightarrow> nat \<times> net_socket \<times> 'w" where
  "socket_listen sys backlog sk w = (let (ok, w) = try_listen sys (fd sk) backlog w in with_error sys ok w sk)"

text \<open>Only the handle of the accepted socket is set.\<close>

definition socket_accept ::
    "'w system_calls \<Rightarrow> net_socket \<Rightarrow> net_socket \<Rightarrow> 'w \<Rightarrow> net_socket \<times> nat \<times> net_socket \<times> 'w" where
  "socket_accept sys accepted sk w =
     (let (ok, h, w) = try_accept sys (fd sk) (fd accepted) w in (accepted\<lparr>fd := h\<rparr>, with_error sys ok w sk))"

definition local_address :: "'w system_calls \<Rightarrow> net_socket \<Rightarrow> 'w \<Rightarrow> inet_address \<times> nat \<times> net_socket \<times> 'w" where
  "local_address sys sk w = (let (ok, addr, w) = try_get_local_address sys (fd sk) w in (addr, with_error sys ok w sk))"

definition remote_address :: "'w system_calls \<Rightarrow> net_socket \<Rightarrow> 'w \<Rightarrow> inet_address \<times> nat \<times> net_socket \<times> 'w" where
  "remote_address sys sk w = (let (ok, addr, w) = try_get_remote_address sys (fd sk) w in (addr, with_error sys ok w sk))"

section \<open>Sending and receiving\<close>

definition socket_send :: "'w system_calls \<Rightarrow> u8 list \<Rightarrow> net_socket \<Rightarrow> 'w \<Rightarrow> nat \<times> nat \<times> net_socket \<times> 'w" where
  "socket_send sys buf sk w =
     (let (ok, sent, w) = try_send sys (fd sk) buf w in (sent, with_error sys ok w sk))"

text \<open>The loop of \<open>send_all\<close> ends when nothing is left or a send fails; a send that takes no byte repeats
  it. The result has the number of bytes sent, and whether the last send succeeded.\<close>

partial_function (option) send_loop ::
    "'w system_calls \<Rightarrow> int \<Rightarrow> u8 list \<Rightarrow> nat \<Rightarrow> 'w \<Rightarrow> (nat \<times> bool \<times> 'w) option" where
  "send_loop sys h buf done_bytes w =
     (if buf = [] then Some (done_bytes, True, w)
      else if fst (try_send sys h buf w)
      then send_loop sys h (drop (fst (snd (try_send sys h buf w))) buf)
             (done_bytes + fst (snd (try_send sys h buf w))) (snd (snd (try_send sys h buf w)))
      else Some (done_bytes, False, snd (snd (try_send sys h buf w))))"

definition send_all :: "'w system_calls \<Rightarrow> u8 list \<Rightarrow> net_socket \<Rightarrow> 'w \<Rightarrow> (nat \<times> nat \<times> net_socket \<times> 'w) option" where
  "send_all sys buf sk w =
     map_option (\<lambda>(done_bytes, success, w). (done_bytes, with_error sys success w sk)) (send_loop sys (fd sk) buf 0 w)"

definition send_to ::
    "'w system_calls \<Rightarrow> inet_address \<Rightarrow> u8 list \<Rightarrow> net_socket \<Rightarrow> 'w \<Rightarrow> nat \<times> nat \<times> net_socket \<times> 'w" where
  "send_to sys addr buf sk w =
     (let (ok, sent, w) = try_sendto sys (fd sk) addr buf w in (sent, with_error sys ok w sk))"

text \<open>What was received, the error, the socket and the world.\<close>

definition socket_receive ::
    "'w system_calls \<Rightarrow> nat \<Rightarrow> net_socket \<Rightarrow> 'w \<Rightarrow> u8 list \<times> nat \<times> net_socket \<times> 'w" where
  "socket_receive sys n sk w =
     (let (ok, r, bs, w) = try_recv sys (fd sk) n w;
          (e, sk, w) = with_error sys ok w sk
      in (if ok then bs else [], e, sk\<lparr>interrupted := \<not> ok \<or> r = 0\<rparr>, w))"

text \<open>The loop of \<open>receive_all\<close>: the bytes so far, whether the last call succeeded, and the size of the last
  block.\<close>

function recv_loop ::
    "'w system_calls \<Rightarrow> int \<Rightarrow> nat \<Rightarrow> u8 list \<Rightarrow> nat \<Rightarrow> 'w \<Rightarrow> u8 list \<times> bool \<times> nat \<times> 'w" where
  "recv_loop sys h n acc block w =
     (if n = 0 then (acc, True, block, w)
      else (let (ok, r, bs, w) = try_recv sys h n w
            in if ok \<and> r \<noteq> 0 then recv_loop sys h (n - r) (acc @ bs) r w else (acc, ok, 0, w)))"
  by pat_completeness auto
termination
  by (relation "measure (\<lambda>(_, _, n, _, _, _). n)") auto

definition receive_all ::
    "'w system_calls \<Rightarrow> nat \<Rightarrow> net_socket \<Rightarrow> 'w \<Rightarrow> u8 list \<times> nat \<times> net_socket \<times> 'w" where
  "receive_all sys n sk w =
     (let (bs, success, block, w) = recv_loop sys (fd sk) n [] 0 w;
          (e, sk, w) = with_error sys success w sk
      in (bs, e, sk\<lparr>interrupted := block = 0\<rparr>, w))"

definition receive_from ::
    "'w system_calls \<Rightarrow> nat \<Rightarrow> net_socket \<Rightarrow> 'w \<Rightarrow> inet_address \<times> u8 list \<times> nat \<times> net_socket \<times> 'w" where
  "receive_from sys n sk w =
     (let (ok, r, bs, addr, w) = try_recvfrom sys (fd sk) n w;
          (e, sk, w) = with_error sys ok w sk
      in (addr, if ok then bs else [], e, sk\<lparr>interrupted := \<not> ok \<or> r = 0\<rparr>, w))"

section \<open>What the kernel is known to do\<close>

text \<open>\<open>send\<close> takes a prefix of the bytes that it is given, or fails and takes none; it takes at least one byte of a
  block that is not empty. \<open>taken\<close> is what it has taken on a handle so far.\<close>

definition send_law :: "'w system_calls \<Rightarrow> (int \<Rightarrow> 'w \<Rightarrow> u8 list) \<Rightarrow> bool" where
  "send_law sys taken \<longleftrightarrow> (\<forall>h bs w.
     (let (r, w') = sys_send sys h bs w
      in if r < 0 then taken h w' = taken h w
         else nat r \<le> length bs \<and> (bs \<noteq> [] \<longrightarrow> r \<noteq> 0) \<and> taken h w' = taken h w @ take (nat r) bs))"

text \<open>\<open>recv\<close> gives as many bytes as it says, at most as many as it is asked for, from the front of the stream that
  arrives on the handle, or fails and gives none.\<close>

definition recv_law :: "'w system_calls \<Rightarrow> (int \<Rightarrow> 'w \<Rightarrow> u8 list) \<Rightarrow> bool" where
  "recv_law sys stream \<longleftrightarrow> (\<forall>h n w.
     (let (r, bs, w') = sys_recv sys h n w
      in if r \<le> 0 then stream h w' = stream h w
         else length bs = nat r \<and> nat r \<le> n \<and> stream h w = bs @ stream h w'))"

text \<open>\<open>recv\<close> does not fail while the stream has a byte.\<close>

definition recv_ready :: "'w system_calls \<Rightarrow> (int \<Rightarrow> 'w \<Rightarrow> u8 list) \<Rightarrow> bool" where
  "recv_ready sys stream \<longleftrightarrow> (\<forall>h n w. n \<noteq> 0 \<longrightarrow> stream h w \<noteq> [] \<longrightarrow> fst (sys_recv sys h n w) > 0)"

lemma first_bytes_id: "length buf < 2 ^ 32 \<Longrightarrow> first_bytes buf = buf"
  by (simp add: first_bytes_def unat_of_nat_small)

lemma try_send_law:
  assumes "send_law sys taken" "length buf < 2 ^ 32" "try_send sys h buf w = (ok, n, w')"
  shows "ok \<Longrightarrow> n \<le> length buf \<and> (buf \<noteq> [] \<longrightarrow> n \<noteq> 0) \<and> taken h w' = taken h w @ take n buf"
    "\<not> ok \<Longrightarrow> n = 0 \<and> taken h w' = taken h w"
proof -
  obtain r where r: "sys_send sys h buf w = (r, w')" "ok = (r \<ge> 0)" "n = nat r"
    using assms(2,3) by (auto simp: try_send_def first_bytes_id split: prod.splits)
  have law: "if r < 0 then taken h w' = taken h w
      else nat r \<le> length buf \<and> (buf \<noteq> [] \<longrightarrow> r \<noteq> 0) \<and> taken h w' = taken h w @ take (nat r) buf"
    using assms(1) r(1) unfolding send_law_def by (metis (mono_tags, lifting) case_prod_conv)
  show "ok \<Longrightarrow> n \<le> length buf \<and> (buf \<noteq> [] \<longrightarrow> n \<noteq> 0) \<and> taken h w' = taken h w @ take n buf"
    "\<not> ok \<Longrightarrow> n = 0 \<and> taken h w' = taken h w"
    using law r(2,3) by (auto split: if_splits)
qed

lemma send_loop_result:
  assumes "send_law sys taken" "length buf < 2 ^ 32"
  shows "\<exists>n success w'. send_loop sys h buf done_bytes w = Some (done_bytes + n, success, w') \<and> n \<le> length buf \<and>
    taken h w' = taken h w @ take n buf \<and> (success \<longleftrightarrow> n = length buf) \<and>
    ((\<forall>h bs w. 0 \<le> fst (sys_send sys h bs w)) \<longrightarrow> success)"
  using assms(2)
proof (induction buf arbitrary: done_bytes w rule: length_induct)
  case (1 buf)
  obtain ok k v where t: "try_send sys h buf w = (ok, k, v)" by (cases "try_send sys h buf w")
  note law = try_send_law[OF assms(1) "1.prems" t]
  show ?case
  proof (cases "buf = []")
    case True
    then show ?thesis by (subst send_loop.simps) simp
  next
    case False
    note step = send_loop.simps[of sys h buf done_bytes w]
    show ?thesis
    proof (cases ok)
      case True
      then have k: "k \<le> length buf" "k \<noteq> 0" "taken h v = taken h w @ take k buf" using law(1) False by auto
      have "length (drop k buf) < length buf" "length (drop k buf) < 2 ^ 32" using k(2) False "1.prems" by simp_all
      then obtain n success w' where n: "send_loop sys h (drop k buf) (done_bytes + k) v = Some (done_bytes + k + n, success, w')"
        "n \<le> length (drop k buf)" "taken h w' = taken h v @ take n (drop k buf)" "success \<longleftrightarrow> n = length (drop k buf)"
        "(\<forall>h bs w. 0 \<le> fst (sys_send sys h bs w)) \<longrightarrow> success"
        using "1.IH" by blast
      have "send_loop sys h buf done_bytes w = Some (done_bytes + (k + n), success, w')"
        using True False t n(1) by (simp add: step add.assoc)
      moreover have "taken h w' = taken h w @ take (k + n) buf" using n(3) k(3) by (simp add: take_add)
      moreover have "k + n \<le> length buf" "success \<longleftrightarrow> k + n = length buf" using n(2,4) k(1) by auto
      ultimately show ?thesis using n(5) by blast
    next
      case no: False
      then have "send_loop sys h buf done_bytes w = Some (done_bytes + 0, False, v)" using False t by (simp add: step)
      moreover have "taken h v = taken h w @ take 0 buf" using law(2)[OF no] by simp
      moreover have "\<not> (\<forall>h bs w. 0 \<le> fst (sys_send sys h bs w))"
        using t no "1.prems" by (auto simp: try_send_def first_bytes_id split: prod.splits) (metis fst_conv)
      ultimately show ?thesis using False by (intro exI[of _ 0] exI[of _ False] exI[of _ v]) simp
    qed
  qed
qed

lemma try_recv_law:
  assumes "recv_law sys stream" "n < 2 ^ 32" "try_recv sys h n w = (ok, r, bs, w')"
  shows "ok \<Longrightarrow> r \<noteq> 0 \<and> r \<le> n \<and> length bs = r \<and> stream h w = bs @ stream h w'"
    "\<not> ok \<Longrightarrow> r = 0 \<and> stream h w' = stream h w"
    "recv_ready sys stream \<Longrightarrow> n \<noteq> 0 \<Longrightarrow> stream h w \<noteq> [] \<Longrightarrow> ok"
proof -
  obtain i where i: "sys_recv sys h n w = (i, bs, w')" "ok = (i > 0)" "r = nat i"
    using assms(2,3) by (auto simp: try_recv_def split: prod.splits)
  have law: "if i \<le> 0 then stream h w' = stream h w
      else length bs = nat i \<and> nat i \<le> n \<and> stream h w = bs @ stream h w'"
    using assms(1) i(1) unfolding recv_law_def by (metis (mono_tags, lifting) case_prod_conv)
  show "ok \<Longrightarrow> r \<noteq> 0 \<and> r \<le> n \<and> length bs = r \<and> stream h w = bs @ stream h w'"
    "\<not> ok \<Longrightarrow> r = 0 \<and> stream h w' = stream h w"
    "recv_ready sys stream \<Longrightarrow> n \<noteq> 0 \<Longrightarrow> stream h w \<noteq> [] \<Longrightarrow> ok"
    using law i by (auto simp: recv_ready_def split: if_splits) (metis fst_conv not_less)
qed

lemma recv_loop_result:
  assumes "recv_law sys stream" "n < 2 ^ 32"
  shows "\<exists>bs success block' w'. recv_loop sys h n acc block w = (acc @ bs, success, block', w') \<and> length bs \<le> n \<and>
    stream h w = bs @ stream h w' \<and> (success \<longleftrightarrow> length bs = n) \<and> (block' = 0 \<longleftrightarrow> length bs < n \<or> n = 0 \<and> block = 0) \<and>
    (recv_ready sys stream \<longrightarrow> n \<le> length (stream h w) \<longrightarrow> success)"
  using assms(2)
proof (induction n arbitrary: acc block w rule: less_induct)
  case (less n)
  obtain ok r bs v where t: "try_recv sys h n w = (ok, r, bs, v)" by (cases "try_recv sys h n w")
  note law = try_recv_law[OF assms(1) less.prems t]
  note step = recv_loop.simps[of sys h n acc block w]
  show ?case
  proof (cases "n = 0")
    case False
    show ?thesis
    proof (cases ok)
      case True
      then have r: "r \<noteq> 0" "r \<le> n" "length bs = r" "stream h w = bs @ stream h v" using law(1) by auto
      then have "n - r < n" "n - r < 2 ^ 32" using less.prems by auto
      then obtain cs success block' w' where cs: "recv_loop sys h (n - r) (acc @ bs) r v = ((acc @ bs) @ cs, success, block', w')"
        "length cs \<le> n - r" "stream h v = cs @ stream h w'" "success \<longleftrightarrow> length cs = n - r"
        "block' = 0 \<longleftrightarrow> length cs < n - r \<or> n - r = 0 \<and> r = 0"
        "recv_ready sys stream \<longrightarrow> n - r \<le> length (stream h v) \<longrightarrow> success"
        using less.IH by blast
      have "recv_loop sys h n acc block w = (acc @ (bs @ cs), success, block', w')"
        using False True r(1) t cs(1) by (simp add: step)
      then show ?thesis
        using cs r by (intro exI[of _ "bs @ cs"] exI[of _ success] exI[of _ block'] exI[of _ w']) auto
    next
      case no: False
      have "recv_loop sys h n acc block w = (acc @ [], False, 0, v)" using False no t by (simp add: step)
      moreover have "stream h v = stream h w" using law(2)[OF no] by simp
      moreover have "recv_ready sys stream \<longrightarrow> n \<le> length (stream h w) \<longrightarrow> False"
        using law(3) no False by (cases "stream h w") auto
      ultimately show ?thesis using False by (intro exI[of _ "[]"] exI[of _ False] exI[of _ 0] exI[of _ v]) auto
    qed
  qed (simp add: step)
qed

end
