(* ===== verification/Clip_Server.thy ===== *)
theory Clip_Server
  imports Prelude Clip_Socket
begin

text \<open>
  The clipboard server of \<open>exercises/clipserver/Server/Server/server.cpp\<close>: its accounts, tokens,
  connections and pending requests, and one handler per message, with the content records of
  \<open>content.hpp\<close> and the token generator of \<open>util.cpp\<close>. A \<open>std::map\<close> is its list of entries by
  ascending key, so that loops over it are loops over the list; a socket is the object at an
  address, which may be gone; what the network does to a send, a receive or a close, what
  \<open>std::rand\<close> gives after a seed and the time are arguments. Handlers run under the global lock,
  so a handler is one step.
\<close>

section \<open>Maps by ascending key\<close>

type_synonym 'v dictionary = "(u64 \<times> 'v) list"

fun put :: "u64 \<Rightarrow> 'v \<Rightarrow> 'v dictionary \<Rightarrow> 'v dictionary" where
  "put k v [] = [(k, v)]"
| "put k v ((l, w) # xs) =
     (if k < l then (k, v) # (l, w) # xs else if k = l then (k, v) # xs else (l, w) # put k v xs)"

definition erase_key :: "u64 \<Rightarrow> 'v dictionary \<Rightarrow> nat \<times> 'v dictionary" where
  "erase_key k xs = (length (filter (\<lambda>e. fst e = k) xs), filter (\<lambda>e. fst e \<noteq> k) xs)"

text \<open>\<open>map[k]\<close> inserts a default value when there is none.\<close>

definition index_map :: "'v \<Rightarrow> u64 \<Rightarrow> 'v dictionary \<Rightarrow> 'v \<times> 'v dictionary" where
  "index_map d k xs = (case map_of xs k of Some v \<Rightarrow> (v, xs) | None \<Rightarrow> (d, put k d xs))"

text \<open>A multimap inserts after the entries of the same key.\<close>

definition multi_put :: "u64 \<Rightarrow> 'v \<Rightarrow> 'v dictionary \<Rightarrow> 'v dictionary" where
  "multi_put k v xs = takeWhile (\<lambda>e. fst e \<le> k) xs @ (k, v) # dropWhile (\<lambda>e. fst e \<le> k) xs"

definition set_insert :: "u64 \<Rightarrow> u64 list \<Rightarrow> u64 list" where
  "set_insert x xs = (if x \<in> set xs then xs else insort x xs)"

section \<open>Content\<close>

record content_buffer =
  buffer_id :: u64
  buffer_size :: u32
  buffer_bytes :: "u8 list option"

record content_node =
  node_id :: u64
  node_type :: "string list"
  node_devices :: "u64 list"
  node_description :: string
  node_buffer :: content_buffer

definition no_buffer :: content_buffer where
  "no_buffer = \<lparr>buffer_id = 0, buffer_size = 0, buffer_bytes = None\<rparr>"

definition no_node :: content_node where
  "no_node = \<lparr>node_id = 0, node_type = [], node_devices = [], node_description = '''', node_buffer = no_buffer\<rparr>"

definition make_node :: "u64 \<Rightarrow> string list \<Rightarrow> string \<Rightarrow> content_node" where
  "make_node i t d =
     \<lparr>node_id = i, node_type = t, node_devices = [], node_description = d, node_buffer = no_buffer\<rparr>"

definition node_bool :: "content_node \<Rightarrow> bool" where
  "node_bool n \<longleftrightarrow> node_id n \<noteq> 0 \<and> length (node_type n) > 0 \<and> length (node_devices n) > 0"

type_synonym dataset = "content_node dictionary"

text \<open>\<open>NONE\<close>, \<open>CLIPBOARD\<close>.\<close>

definition clipboard :: u16 where "clipboard = 1"
definition num_datasets :: nat where "num_datasets = 2"

section \<open>Messages\<close>

datatype message =
    Authenticate_request u64 u64 u64
  | Authenticate_response u64 u16
  | Refresh_index_request u64 u16
  | Refresh_index_response "content_node list" u16
  | Notify_available_request u64 u16 content_node
  | Sync_request u64 u64 u16
  | Sync_response u64 u16 content_buffer u16
  | Ping u64
  | Byte_block "u8 list"

section \<open>The state of the server\<close>

record connection =
  remote :: nat
  device_id :: u64
  user_id :: u64
  token :: u64

definition no_connection :: connection where
  "no_connection = \<lparr>remote = 0, device_id = 0, user_id = 0, token = 0\<rparr>"

definition same_connection :: "connection \<Rightarrow> connection \<Rightarrow> bool" where
  "same_connection a b \<longleftrightarrow> device_id a = device_id b"

definition connection_less :: "connection \<Rightarrow> connection \<Rightarrow> bool" where
  "connection_less a b \<longleftrightarrow> device_id a < device_id b"

text \<open>The set of connections of an account is ordered by device: inserting one of a device that is
  there leaves the set as it is.\<close>

record account =
  account_id :: u64
  secret :: u64
  datasets :: "dataset list"
  connections :: "connection list"

definition make_account :: "u64 \<Rightarrow> u64 \<Rightarrow> account" where
  "make_account i sec =
     \<lparr>account_id = i, secret = sec, datasets = replicate num_datasets [], connections = []\<rparr>"

fun insert_connection :: "connection \<Rightarrow> connection list \<Rightarrow> connection list" where
  "insert_connection c [] = [c]"
| "insert_connection c (d # ds) =
     (if connection_less c d then c # d # ds
      else if connection_less d c then d # insert_connection c ds
      else d # ds)"

text \<open>A socket object: its handle, \<open>None\<close> when invalid, its error, zero for none, and whether its last
  receive was interrupted.\<close>

record socket =
  handle :: "nat option"
  socket_error :: nat
  recv_interrupt :: bool

definition is_open :: "socket \<Rightarrow> bool" where
  "is_open sk \<longleftrightarrow> handle sk \<noteq> None \<and> socket_error sk = 0"

record server =
  accounts :: "account dictionary"
  token_to_device :: "u64 dictionary"
  token_to_user :: "u64 dictionary"
  device_connections :: "connection dictionary"
  pending :: "connection dictionary"
  sockets :: "nat \<rightharpoonup> socket"
  sent :: "(nat \<times> message) list"
  closed :: bool
  receiver_error :: nat

text \<open>The network: the error of the \<open>n\<close>-th send, on a socket; the error of closing a socket; and
  what a receive of a number of bytes gives.\<close>

record network =
  send_result :: "nat \<Rightarrow> nat \<Rightarrow> nat"
  close_result :: "nat \<Rightarrow> nat"
  receive_result :: "nat \<Rightarrow> nat \<Rightarrow> nat \<times> u8 list"

definition server_new :: server where
  "server_new = \<lparr>accounts = [], token_to_device = [], token_to_user = [], device_connections = [],
     pending = [], sockets = Map.empty, sent = [], closed = False, receiver_error = 0\<rparr>"

definition socket_at :: "nat \<Rightarrow> server \<Rightarrow> socket outcome" where
  "socket_at a s = (case sockets s a of None \<Rightarrow> Inl Undefined | Some sk \<Rightarrow> Inr sk)"

text \<open>\<open>glb_accounts[user_id]\<close> as a reference: the account, in a state that has it; and an assignment
  through the reference.\<close>

definition account_of :: "u64 \<Rightarrow> server \<Rightarrow> account \<times> server" where
  "account_of uid s =
     (let (acc, accs) = index_map (make_account 0 0) uid (accounts s) in (acc, s\<lparr>accounts := accs\<rparr>))"

definition set_account :: "u64 \<Rightarrow> account \<Rightarrow> server \<Rightarrow> server" where
  "set_account uid acc s = s\<lparr>accounts := put uid acc (accounts s)\<rparr>"

text \<open>\<open>msg::send\<close> of a message does nothing and reports no error when the socket is not open. Here a message is
  taken as a whole, or fails; \<^theory_text>\<open>Clip_Message\<close> has its bytes and blocks.\<close>

definition send_message :: "network \<Rightarrow> nat \<Rightarrow> message \<Rightarrow> server \<Rightarrow> (nat \<times> server) outcome" where
  "send_message net a m s = and_then (socket_at a s) (\<lambda>sk.
     if is_open sk
     then (let e = send_result net (length (sent s)) a
           in Inr (e, s\<lparr>sent := sent s @ [(a, m)], sockets := (sockets s)(a \<mapsto> sk\<lparr>socket_error := e\<rparr>)\<rparr>))
     else Inr (0, s))"

text \<open>\<open>msg::send\<close> of a block of bytes asserts that it succeeds.\<close>

definition send_block :: "network \<Rightarrow> bool \<Rightarrow> nat \<Rightarrow> u8 list \<Rightarrow> server \<Rightarrow> (nat \<times> server) outcome" where
  "send_block net debug a bs s = and_then (socket_at a s) (\<lambda>sk.
     let go = (socket_error sk = 0);
         e = (if go then send_result net (length (sent s)) a else 0);
         s = (if go then s\<lparr>sent := sent s @ [(a, Byte_block bs)],
                sockets := (sockets s)(a \<mapsto> sk\<lparr>socket_error := e\<rparr>)\<rparr> else s)
     in and_then (assertf debug (go \<and> e = 0)) (\<lambda>_. Inr (e, s)))"

text \<open>\<open>receive_all\<close> of a number of bytes into a socket, where \<open>result\<close> is what the network gives: the bytes
  that arrive and, when they are not all, the error of the call that gave none, which may be zero. Fewer
  bytes load that error into the socket; the receive counts as interrupted when its last call gave nothing, and
  also when there was no call because no byte was asked for.\<close>

definition receive_into :: "nat \<Rightarrow> nat \<Rightarrow> nat \<times> u8 list \<Rightarrow> server \<Rightarrow> (nat \<times> u8 list \<times> server) outcome" where
  "receive_into a n result s = and_then (socket_at a s) (\<lambda>sk.
     let bs = take n (snd result);
         sk = (if length bs = n then sk\<lparr>recv_interrupt := (n = 0)\<rparr>
               else sk\<lparr>socket_error := fst result, recv_interrupt := True\<rparr>)
     in Inr (socket_error sk, bs, s\<lparr>sockets := (sockets s)(a \<mapsto> sk)\<rparr>))"

text \<open>\<open>msg::recv\<close> asserts that all the bytes were received.\<close>

definition receive_block :: "network \<Rightarrow> bool \<Rightarrow> nat \<Rightarrow> nat \<Rightarrow> server \<Rightarrow> (nat \<times> u8 list \<times> server) outcome" where
  "receive_block net debug a n s = and_then (socket_at a s) (\<lambda>sk.
     if is_open sk
     then and_then (receive_into a n (receive_result net a n) s) (\<lambda>(e, bs, s).
       and_then (assertf debug (e = 0 \<and> length bs = n)) (\<lambda>_. Inr (e, bs, s)))
     else and_then (assertf debug False) (\<lambda>_. Inr (0, [], s)))"

section \<open>Closing\<close>

text \<open>The first connection whose socket has the same handle; every socket on the way is read.\<close>

fun find_connection :: "(nat \<rightharpoonup> socket) \<Rightarrow> nat option \<Rightarrow> connection dictionary \<Rightarrow> (u64 \<times> connection) option outcome" where
  "find_connection socks h [] = Inr None"
| "find_connection socks h ((d, c) # cs) =
     (case socks (remote c) of
        None \<Rightarrow> Inl Undefined
      | Some sk \<Rightarrow> if handle sk = h then Inr (Some (d, c)) else find_connection socks h cs)"

definition drop_connection :: "u64 \<Rightarrow> connection \<Rightarrow> server \<Rightarrow> server" where
  "drop_connection d c s =
     (let (acc, s) = account_of (user_id c) s;
          s = set_account (user_id c) (acc\<lparr>connections := filter (\<lambda>x. \<not> same_connection x c) (connections acc)\<rparr>) s
      in s\<lparr>token_to_device := snd (erase_key (token c) (token_to_device s)),
           token_to_user := snd (erase_key (token c) (token_to_user s)),
           pending := filter (\<lambda>e. \<not> same_connection (snd e) c) (pending s),
           device_connections := snd (erase_key d (device_connections s))\<rparr>)"

definition on_close :: "nat \<Rightarrow> server \<Rightarrow> server outcome" where
  "on_close a s = and_then (socket_at a s) (\<lambda>sk.
     and_then (find_connection (sockets s) (handle sk) (device_connections s)) (\<lambda>found.
       case found of None \<Rightarrow> Inr s | Some (d, c) \<Rightarrow> Inr (drop_connection d c s)))"

text \<open>\<open>receiver::close\<close>.\<close>

definition close_socket :: "network \<Rightarrow> nat \<Rightarrow> server \<Rightarrow> server outcome" where
  "close_socket net a s = and_then (on_close a s) (\<lambda>s.
     and_then (socket_at a s) (\<lambda>sk.
       let e = close_result net a
       in Inr (s\<lparr>sockets := (sockets s)(a \<mapsto> sk\<lparr>handle := None, socket_error := (if e \<noteq> 0 then e else socket_error sk)\<rparr>),
                 closed := True\<rparr>)))"

definition on_error :: "network \<Rightarrow> nat \<Rightarrow> server \<Rightarrow> server outcome" where
  "on_error net a s = and_then (socket_at a s) (\<lambda>sk.
     let s = s\<lparr>receiver_error := socket_error sk\<rparr>
     in if socket_error sk \<noteq> 0 then close_socket net a s else Inr s)"

text \<open>A send whose error, when there is one, is handled.\<close>

definition send_checked :: "network \<Rightarrow> nat \<Rightarrow> message \<Rightarrow> server \<Rightarrow> server outcome" where
  "send_checked net a m s = and_then (send_message net a m s) (\<lambda>(e, s).
     if e \<noteq> 0 then on_error net a s else Inr s)"

definition on_interrupt :: "network \<Rightarrow> nat \<Rightarrow> nat \<Rightarrow> server \<Rightarrow> server outcome" where
  "on_interrupt net timed_out a s = and_then (socket_at a s) (\<lambda>sk.
     if socket_error sk = 0 then close_socket net a s
     else if socket_error sk = timed_out
     then and_then (send_message net a (Ping 0) (s\<lparr>sockets := (sockets s)(a \<mapsto> sk\<lparr>socket_error := 0\<rparr>)\<rparr>))
            (\<lambda>(e, s). Inr s)
     else Inr s)"

section \<open>The token generator\<close>

text \<open>\<open>generate_rand64\<close> seeds the generator with the time in seconds and takes four values, where
  \<open>rand seed i\<close> is the \<open>i\<close>-th value after a seed.\<close>

definition generate_rand64 :: "(u32 \<Rightarrow> nat \<Rightarrow> u32) \<Rightarrow> u64 \<Rightarrow> u64" where
  "generate_rand64 rand time =
     (let seed = ucast time :: u32;
          draw = (\<lambda>i. 0xFFFF AND ucast (rand seed i) :: u64)
      in push_bit 48 (draw 0) OR push_bit 32 (draw 1) OR push_bit 16 (draw 2) OR draw 3)"

definition generate_rand63 :: "(u32 \<Rightarrow> nat \<Rightarrow> u32) \<Rightarrow> u64 \<Rightarrow> u64" where
  "generate_rand63 rand time = generate_rand64 rand time AND 0x7FFFFFFFFFFFFFFF"

section \<open>Requests\<close>

definition on_authenticate_request ::
    "network \<Rightarrow> (u32 \<Rightarrow> nat \<Rightarrow> u32) \<Rightarrow> u64 \<Rightarrow> nat \<Rightarrow> u64 \<Rightarrow> u64 \<Rightarrow> u64 \<Rightarrow> server \<Rightarrow> server outcome" where
  "on_authenticate_request net rand time a uid did sec s =
     (let s = (if map_of (accounts s) uid = None then set_account uid (make_account uid sec) s else s);
          (acc, s) = account_of uid s;
          tok = generate_rand63 rand time;
          c = \<lparr>remote = a, device_id = did, user_id = uid, token = tok\<rparr>;
          s = s\<lparr>device_connections := put did c (device_connections s)\<rparr>;
          s = set_account uid (acc\<lparr>connections := insert_connection c (connections acc)\<rparr>) s;
          s = s\<lparr>token_to_device := put tok did (token_to_device s),
                token_to_user := put tok uid (token_to_user s)\<rparr>
      in send_checked net a (Authenticate_response tok 1) s)"

text \<open>\<open>account.datasets[dataset_id]\<close> does not check the index.\<close>

definition dataset_of :: "account \<Rightarrow> u16 \<Rightarrow> dataset outcome" where
  "dataset_of acc i = checked_nth (datasets acc) (unat i)"

definition set_dataset :: "u64 \<Rightarrow> account \<Rightarrow> u16 \<Rightarrow> dataset \<Rightarrow> server \<Rightarrow> server" where
  "set_dataset uid acc i d s = set_account uid (acc\<lparr>datasets := (datasets acc)[unat i := d]\<rparr>) s"

definition on_refresh_index_request :: "network \<Rightarrow> nat \<Rightarrow> u64 \<Rightarrow> u16 \<Rightarrow> server \<Rightarrow> server outcome" where
  "on_refresh_index_request net a tok ds s =
     (case map_of (token_to_user s) tok of
        Some uid \<Rightarrow>
          (let (acc, s) = account_of uid s
           in and_then (dataset_of acc ds) (\<lambda>d.
                send_checked net a (Refresh_index_response (map snd d) 1) s))
      | None \<Rightarrow> send_checked net a (Refresh_index_response [] 0) s)"

text \<open>The loop over the connections of an account while the sends and their errors may change them:
  it goes on from the device it has reached, and fails when that one has been erased.\<close>

function forward_from :: "network \<Rightarrow> message \<Rightarrow> u64 \<Rightarrow> u64 \<Rightarrow> connection list \<Rightarrow> server \<Rightarrow> server outcome" where
  "forward_from net m uid did [] s = Inr s"
| "forward_from net m uid did (c # cs) s =
     and_then (if did \<noteq> device_id c then send_checked net (remote c) m s else Inr s) (\<lambda>s.
       let left = connections (fst (account_of uid s))
       in if \<exists>x \<in> set left. device_id x = device_id c
          then forward_from net m uid did (filter (\<lambda>x. x \<in> set left) cs) s
          else Inl Undefined)"
  by pat_completeness auto
termination
  by (relation "measure (\<lambda>(_, _, _, _, cs, _). length cs)") (auto simp: less_Suc_eq_le length_filter_le)

text \<open>The content of a notification in the dataset, and the device that has it.\<close>

definition note_content :: "u64 \<Rightarrow> content_node \<Rightarrow> dataset \<Rightarrow> dataset" where
  "note_content did n d =
     (let (node, d) = index_map no_node (node_id n) d;
          node = (if \<not> node_bool node then make_node (node_id n) (node_type n) (node_description n) else node)
      in put (node_id n) (node\<lparr>node_devices := set_insert did (node_devices node)\<rparr>) d)"

definition on_notify_available_request ::
    "network \<Rightarrow> u64 \<Rightarrow> u16 \<Rightarrow> content_node \<Rightarrow> server \<Rightarrow> server outcome" where
  "on_notify_available_request net tok ds n s =
     (case (map_of (token_to_user s) tok, map_of (token_to_device s) tok) of
        (Some uid, Some did) \<Rightarrow>
          (let (acc, s) = account_of uid s
           in and_then (dataset_of acc ds) (\<lambda>d.
                forward_from net (Notify_available_request tok ds n) uid did (connections acc)
                  (set_dataset uid acc ds (note_content did n d) s)))
      | _ \<Rightarrow> Inr s)"

text \<open>The loop over the devices that have the content: \<open>glb_connections[id]\<close> makes a connection
  with a null socket when the device is not connected.\<close>

fun ask_devices :: "network \<Rightarrow> message \<Rightarrow> u64 \<Rightarrow> u64 list \<Rightarrow> server \<Rightarrow> server outcome" where
  "ask_devices net m did [] s = Inr s"
| "ask_devices net m did (i # ids) s =
     and_then (if i \<noteq> did
       then (let (c, cs) = index_map no_connection i (device_connections s)
             in send_checked net (remote c) m (s\<lparr>device_connections := cs\<rparr>))
       else Inr s) (ask_devices net m did ids)"

text \<open>The answer from the content that is cached, and the request for the content that is not.\<close>

definition serve_cached :: "network \<Rightarrow> bool \<Rightarrow> nat \<Rightarrow> content_buffer \<Rightarrow> u8 list \<Rightarrow> server \<Rightarrow> server outcome" where
  "serve_cached net debug a buf bs s =
     and_then (send_message net a (Sync_response 0 clipboard buf 1) s) (\<lambda>(e, s).
     and_then (if e = 0 then send_block net debug a (take (unat (buffer_size buf)) bs) s else Inr (e, s)) (\<lambda>(e, s).
     if e \<noteq> 0 then on_error net a s else Inr s))"

definition forward_sync :: "network \<Rightarrow> message \<Rightarrow> u64 \<Rightarrow> connection \<Rightarrow> u64 list \<Rightarrow> server \<Rightarrow> server outcome" where
  "forward_sync net m cid requestor devices s =
     ask_devices net m (device_id requestor) devices (s\<lparr>pending := multi_put cid requestor (pending s)\<rparr>)"

text \<open>The user and the device of the token are read with \<open>operator[]\<close> before the token is looked up.\<close>

definition read_token :: "u64 \<Rightarrow> server \<Rightarrow> u64 \<times> u64 \<times> server" where
  "read_token tok s =
     (let (uid, users) = index_map 0 tok (token_to_user s);
          (did, devices) = index_map 0 tok (token_to_device s)
      in (uid, did, s\<lparr>token_to_user := users, token_to_device := devices\<rparr>))"

definition on_sync_request ::
    "network \<Rightarrow> bool \<Rightarrow> nat \<Rightarrow> u64 \<Rightarrow> u64 \<Rightarrow> u16 \<Rightarrow> server \<Rightarrow> server outcome" where
  "on_sync_request net debug a tok cid ds s =
     (let (uid, did, s) = read_token tok s
      in case map_of (token_to_user s) tok of
           None \<Rightarrow> Inr s
         | Some uid' \<Rightarrow>
             (let (acc, s) = account_of uid' s
              in and_then (dataset_of acc ds) (\<lambda>d.
                   case map_of d cid of
                     None \<Rightarrow> Inr s
                   | Some node \<Rightarrow>
                       (case buffer_bytes (node_buffer node) of
                          Some bs \<Rightarrow>
                            if buffer_size (node_buffer node) > 0
                            then serve_cached net debug a (node_buffer node) bs s
                            else forward_sync net (Sync_request tok cid ds) cid
                              \<lparr>remote = a, device_id = did, user_id = uid, token = tok\<rparr> (node_devices node) s
                        | None \<Rightarrow>
                            forward_sync net (Sync_request tok cid ds) cid
                              \<lparr>remote = a, device_id = did, user_id = uid, token = tok\<rparr> (node_devices node) s))))"

text \<open>The loop over the requestors stops after a block that could not be sent; what the first of the
  two sends reports is overwritten.\<close>

fun deliver :: "network \<Rightarrow> bool \<Rightarrow> message \<Rightarrow> u8 list \<Rightarrow> bool \<Rightarrow> connection list \<Rightarrow> server \<Rightarrow> server outcome" where
  "deliver net debug m bs go [] s = Inr s"
| "deliver net debug m bs go (c # cs) s =
     (if go
      then and_then (send_message net (remote c) m s) (\<lambda>(_, s).
           and_then (send_block net debug (remote c) bs s) (\<lambda>(e, s).
           deliver net debug m bs (e = 0) cs s))
      else Inr s)"

definition requestors :: "u64 \<Rightarrow> server \<Rightarrow> connection list" where
  "requestors cid s = map snd (filter (\<lambda>e. fst e = cid) (pending s))"

text \<open>The content is received when the socket is open, and kept in the node with its size.\<close>

definition receive_content ::
    "network \<Rightarrow> bool \<Rightarrow> nat \<Rightarrow> u32 \<Rightarrow> content_node \<Rightarrow> server \<Rightarrow> (bool \<times> u8 list \<times> content_node \<times> server) outcome" where
  "receive_content net debug a amount node s = and_then (socket_at a s) (\<lambda>sk.
     if is_open sk
     then and_then (receive_block net debug a (unat amount) s) (\<lambda>(e, bs, s).
       Inr (e = 0, bs, node\<lparr>node_buffer := (node_buffer node)\<lparr>buffer_bytes := Some bs, buffer_size := amount\<rparr>\<rparr>, s))
     else Inr (False, [], node\<lparr>node_buffer := (node_buffer node)\<lparr>buffer_bytes := None, buffer_size := 0\<rparr>\<rparr>, s))"

definition on_sync_response ::
    "network \<Rightarrow> bool \<Rightarrow> nat \<Rightarrow> u64 \<Rightarrow> u16 \<Rightarrow> content_buffer \<Rightarrow> u16 \<Rightarrow> server \<Rightarrow> server outcome" where
  "on_sync_response net debug a tok ds content mes s =
     (case map_of (token_to_user s) tok of
        None \<Rightarrow> Inr s
      | Some uid \<Rightarrow>
          (let (acc, s) = account_of uid s
           in and_then (dataset_of acc ds) (\<lambda>d.
                case map_of d (buffer_id content) of
                  None \<Rightarrow> Inr s
                | Some node \<Rightarrow>
                    and_then (receive_content net debug a (buffer_size content) node s) (\<lambda>(go, bs, node, s).
                    let s = set_dataset uid acc ds (put (buffer_id content) node d) s
                    in and_then (deliver net debug (Sync_response tok ds content mes) bs go
                         (requestors (buffer_id content) s) s) (\<lambda>s.
                         Inr (s\<lparr>pending := snd (erase_key (buffer_id content) (pending s))\<rparr>))))))"

section \<open>Dispatch\<close>

text \<open>What \<open>on_receive\<close> does with each message; the two responses are for clients, and so is a
  ping.\<close>

fun on_receive :: "network \<Rightarrow> (u32 \<Rightarrow> nat \<Rightarrow> u32) \<Rightarrow> u64 \<Rightarrow> bool \<Rightarrow> nat \<Rightarrow> message \<Rightarrow> server \<Rightarrow> server outcome" where
  "on_receive net rand time debug a (Authenticate_request uid did sec) s =
     on_authenticate_request net rand time a uid did sec s"
| "on_receive net rand time debug a (Refresh_index_request tok ds) s = on_refresh_index_request net a tok ds s"
| "on_receive net rand time debug a (Notify_available_request tok ds n) s =
     on_notify_available_request net tok ds n s"
| "on_receive net rand time debug a (Sync_request tok cid ds) s = on_sync_request net debug a tok cid ds s"
| "on_receive net rand time debug a (Sync_response tok ds content mes) s =
     on_sync_response net debug a tok ds content mes s"
| "on_receive net rand time debug a m s = Inr s"

section \<open>The life of a connection\<close>

text \<open>A thread accepts a socket at an address of its own with a receiver that is not closed,
  dispatches on it until the receiver is closed, and then the socket object goes away. The socket has no
  handle when the accept failed, and an error when its timeout could not be set. The flag and the error of
  the receiver are those of the thread that runs; no handler reads them.\<close>

definition accept_socket :: "nat \<Rightarrow> nat option \<Rightarrow> nat \<Rightarrow> server \<Rightarrow> server" where
  "accept_socket a h e s =
     s\<lparr>sockets := (sockets s)(a \<mapsto> \<lparr>handle = h, socket_error = e, recv_interrupt = False\<rparr>), closed := False,
       receiver_error := 0\<rparr>"

definition release_socket :: "nat \<Rightarrow> server \<Rightarrow> server" where
  "release_socket a s = s\<lparr>sockets := (sockets s)(a := None)\<rparr>"

text \<open>The size in the header is in network order.\<close>

definition try_parse_header :: "u8 list \<Rightarrow> u16 option" where
  "try_parse_header buf = (if length buf \<ge> 2 then Some (htons (of_le_bytes (take 2 buf))) else None)"

text \<open>The first half of \<open>dispatch\<close>: the header is received and says how long the payload is, and \<open>decode\<close>
  reads the message from the payload, when it finds one; \<^theory_text>\<open>Clip_Message\<close> has the decoding. \<open>header\<close> and
  \<open>payload\<close> are what the network gives to the two receives: whatever fails, and however few bytes come, goes
  into the socket.\<close>

definition receive_request ::
    "(u8 list \<Rightarrow> message option outcome) \<Rightarrow> nat \<Rightarrow> nat \<times> u8 list \<Rightarrow> nat \<times> u8 list \<Rightarrow> server \<Rightarrow>
      (message option \<times> server) outcome" where
  "receive_request decode a header payload s = and_then (socket_at a s) (\<lambda>sk.
     if \<not> is_open sk then Inr (None, s)
     else and_then (receive_into a 2 header s) (\<lambda>(e, hdr, s).
       if e \<noteq> 0 \<or> length hdr \<noteq> 2 then Inr (None, s)
       else (case try_parse_header hdr of
           None \<Rightarrow> Inr (None, s)
         | Some n \<Rightarrow>
             and_then (receive_into a (unat n) payload s) (\<lambda>(e, bs, s).
               if e \<noteq> 0 \<or> length bs \<noteq> unat n then Inr (None, s)
               else and_then (decode bs) (\<lambda>m. Inr (m, s))))))"

text \<open>A round of \<open>dispatch\<close>: the message that came, if one came, and then the state that the receives and the
  handler left in the socket.\<close>

definition dispatch ::
    "network \<Rightarrow> (u32 \<Rightarrow> nat \<Rightarrow> u32) \<Rightarrow> u64 \<Rightarrow> bool \<Rightarrow> nat \<Rightarrow> (u8 list \<Rightarrow> message option outcome) \<Rightarrow> nat \<Rightarrow>
      nat \<times> u8 list \<Rightarrow> nat \<times> u8 list \<Rightarrow> server \<Rightarrow> server outcome" where
  "dispatch net rand time debug timed_out decode a header payload s =
     and_then (receive_request decode a header payload s) (\<lambda>(m, s).
     and_then (case m of None \<Rightarrow> Inr s | Some m \<Rightarrow> on_receive net rand time debug a m s) (\<lambda>s.
     and_then (socket_at a s) (\<lambda>sk.
     and_then (if recv_interrupt sk then on_interrupt net timed_out a s else Inr s) (\<lambda>s.
     and_then (socket_at a s) (\<lambda>sk. if socket_error sk \<noteq> 0 then on_error net a s else Inr s)))))"

inductive server_step :: "server \<Rightarrow> server \<Rightarrow> bool" where
  step_accept: "a \<noteq> 0 \<Longrightarrow> sockets s a = None \<Longrightarrow> server_step s (accept_socket a h e s)"
| step_dispatch: "dispatch net rand time debug timed_out decode a header payload s = Inr s' \<Longrightarrow> server_step s s'"
| step_release: "server_step s (release_socket a s)"

inductive server_reachable :: "server \<Rightarrow> bool" where
  reach_new: "server_reachable server_new"
| reach_step: "server_reachable s \<Longrightarrow> server_step s s' \<Longrightarrow> server_reachable s'"

section \<open>Lemmas on the dictionaries\<close>

definition ascending :: "'v dictionary \<Rightarrow> bool" where
  "ascending xs \<longleftrightarrow> sorted_wrt (<) (map fst xs)"

lemma map_of_put [simp]: "map_of (put k v xs) = (map_of xs)(k \<mapsto> v)"
  by (induction k v xs rule: put.induct) auto

lemma set_put: "set (put k v xs) \<subseteq> insert (k, v) (set xs)"
  by (induction k v xs rule: put.induct) auto

lemma fst_set_put [simp]: "fst ` set (put k v xs) = insert k (fst ` set xs)"
  by (induction k v xs rule: put.induct) auto

lemma ascending_put [simp]: "ascending xs \<Longrightarrow> ascending (put k v xs)"
proof (induction k v xs rule: put.induct)
  case (2 k v l w xs)
  then show ?case
    by (cases "k < l"; cases "k = l") (auto simp: ascending_def dest: less_trans)
qed (simp add: ascending_def)

lemma map_of_erase_key [simp]: "map_of (snd (erase_key k xs)) = (map_of xs)(k := None)"
  by (induction xs) (auto simp: erase_key_def fun_eq_iff)

lemma ascending_filter [simp]: "ascending xs \<Longrightarrow> ascending (filter P xs)"
  unfolding ascending_def by (induction xs) auto

lemma ascending_erase_key [simp]: "ascending xs \<Longrightarrow> ascending (snd (erase_key k xs))"
  by (simp add: erase_key_def)

lemma ascending_Nil [simp]: "ascending []"
  by (simp add: ascending_def)

lemma index_map_simps [simp]:
  "fst (index_map d k xs) = (case map_of xs k of Some v \<Rightarrow> v | None \<Rightarrow> d)"
  "map_of (snd (index_map d k xs)) = (case map_of xs k of Some v \<Rightarrow> map_of xs | None \<Rightarrow> (map_of xs)(k \<mapsto> d))"
  "ascending xs \<Longrightarrow> ascending (snd (index_map d k xs))"
  by (auto simp: index_map_def split: option.split)

section \<open>What holds after an operation that returns\<close>

definition after :: "('a \<Rightarrow> bool) \<Rightarrow> 'a outcome \<Rightarrow> bool" where
  "after P m \<longleftrightarrow> (case m of Inl e \<Rightarrow> True | Inr x \<Rightarrow> P x)"

lemma after_simps [simp]: "after P (Inr x) \<longleftrightarrow> P x" "after P (Inl e)"
  by (simp_all add: after_def)

lemma after_and_then: "after Q m \<Longrightarrow> (\<And>x. Q x \<Longrightarrow> after P (f x)) \<Longrightarrow> after P (and_then m f)"
  by (cases m) simp_all

lemma after_any: "(\<And>x. m = Inr x \<Longrightarrow> after P (f x)) \<Longrightarrow> after P (and_then m f)"
  by (cases m) simp_all

lemma afterD: "after P m \<Longrightarrow> m = Inr x \<Longrightarrow> P x"
  by simp

section \<open>The well-formed states of the server\<close>

definition account_ok :: "u64 \<Rightarrow> account \<Rightarrow> bool" where
  "account_ok uid acc \<longleftrightarrow> length (datasets acc) = num_datasets \<and> (\<forall>d\<in>set (datasets acc). ascending d) \<and>
     sorted_wrt (<) (map device_id (connections acc)) \<and> (\<forall>c\<in>set (connections acc). user_id c = uid)"

definition server_ok :: "server \<Rightarrow> bool" where
  "server_ok s \<longleftrightarrow> ascending (accounts s) \<and> ascending (token_to_device s) \<and> ascending (token_to_user s) \<and>
     ascending (device_connections s) \<and> dom (map_of (token_to_user s)) = dom (map_of (token_to_device s)) \<and>
     (\<forall>uid acc. map_of (accounts s) uid = Some acc \<longrightarrow> account_ok uid acc) \<and>
     (\<forall>d c. map_of (device_connections s) d = Some c \<longrightarrow> device_id c = d) \<and> sockets s 0 = None"

lemma server_ok_new: "server_ok server_new"
  by (simp add: server_ok_def server_new_def)

lemma server_ok_cong:
  "server_ok s \<Longrightarrow> accounts s' = accounts s \<Longrightarrow> token_to_device s' = token_to_device s \<Longrightarrow>
    token_to_user s' = token_to_user s \<Longrightarrow> device_connections s' = device_connections s \<Longrightarrow> sockets s' 0 = None \<Longrightarrow>
    server_ok s'"
  by (simp add: server_ok_def)

lemma account_ok_default [simp]: "account_ok uid (make_account i sec)"
  by (simp add: account_ok_def make_account_def num_datasets_def)

lemma insert_connection_simps:
  fixes ds :: "connection list"
  shows "set (insert_connection c ds) \<subseteq> insert c (set ds)"
  "sorted_wrt (<) (map device_id ds) \<Longrightarrow> sorted_wrt (<) (map device_id (insert_connection c ds))"
proof -
  have sub: "set (insert_connection c ds) \<subseteq> insert c (set ds)" for c ds
    by (induction c ds rule: insert_connection.induct) auto
  then show "set (insert_connection c ds) \<subseteq> insert c (set ds)" .
  assume "sorted_wrt (<) (map device_id ds)"
  then show "sorted_wrt (<) (map device_id (insert_connection c ds))"
  proof (induction c ds rule: insert_connection.induct)
    case (2 c d ds)
    then show ?case by (auto simp: connection_less_def dest!: subsetD[OF sub])
  qed simp
qed

lemma account_ok_insert:
  "account_ok uid acc \<Longrightarrow> user_id c = uid \<Longrightarrow>
    account_ok uid (acc\<lparr>connections := insert_connection c (connections acc)\<rparr>)"
  using insert_connection_simps[where c = c and ds = "connections acc"] by (auto simp: account_ok_def)

lemma account_ok_filter:
  "account_ok uid acc \<Longrightarrow> account_ok uid (acc\<lparr>connections := filter P (connections acc)\<rparr>)"
proof -
  have "sorted_wrt (<) (map device_id cs) \<Longrightarrow> sorted_wrt (<) (map device_id (filter P cs))" for cs :: "connection list"
    by (induction cs) auto
  then show "account_ok uid acc \<Longrightarrow> account_ok uid (acc\<lparr>connections := filter P (connections acc)\<rparr>)"
    by (simp add: account_ok_def)
qed

lemma account_ok_dataset:
  "account_ok uid acc \<Longrightarrow> ascending d \<Longrightarrow> account_ok uid (acc\<lparr>datasets := (datasets acc)[i := d]\<rparr>)"
  using set_update_subset_insert[of "datasets acc" i d] by (auto simp: account_ok_def)

text \<open>Reading or making the account of a user.\<close>

lemma account_of_ok:
  assumes "server_ok s" "account_of uid s = (acc, s')"
  shows "server_ok s'" "account_ok uid acc" "account_of uid s' = (acc, s')"
proof -
  obtain accs where i: "index_map (make_account 0 0) uid (accounts s) = (acc, accs)" and s': "s' = s\<lparr>accounts := accs\<rparr>"
    using assms(2) by (auto simp: account_of_def split: prod.splits)
  have acc: "acc = (case map_of (accounts s) uid of Some v \<Rightarrow> v | None \<Rightarrow> make_account 0 0)"
    and lookup: "map_of accs = (case map_of (accounts s) uid of Some v \<Rightarrow> map_of (accounts s)
      | None \<Rightarrow> (map_of (accounts s))(uid \<mapsto> make_account 0 0))"
    and asc: "ascending accs"
    using index_map_simps[where d = "make_account 0 0" and k = uid and xs = "accounts s"] i assms(1)
    by (simp_all add: server_ok_def)
  show "account_ok uid acc" using acc assms(1) by (auto simp: server_ok_def split: option.split)
  show "server_ok s'"
    using assms(1) asc lookup by (auto simp: s' server_ok_def split: option.splits if_splits)
  show "account_of uid s' = (acc, s')"
    using acc lookup by (simp add: s' account_of_def index_map_def split: option.splits)
qed

lemma set_account_ok: "server_ok s \<Longrightarrow> account_ok uid acc \<Longrightarrow> server_ok (set_account uid acc s)"
  by (auto simp: server_ok_def set_account_def split: if_splits)

lemma set_dataset_ok:
  "server_ok s \<Longrightarrow> account_ok uid acc \<Longrightarrow> ascending d \<Longrightarrow> server_ok (set_dataset uid acc i d s)"
  by (simp add: set_dataset_def set_account_ok account_ok_dataset)

lemma send_message_ok: "server_ok s \<Longrightarrow> after (\<lambda>(e, s). server_ok s) (send_message net a m s)"
  by (auto simp: send_message_def socket_at_def server_ok_def Let_def split: option.split)

lemma send_block_ok: "server_ok s \<Longrightarrow> after (\<lambda>(e, s). server_ok s) (send_block net debug a bs s)"
  by (auto simp: send_block_def socket_at_def server_ok_def Let_def assertf_def split: option.split)

lemma receive_into_ok: "server_ok s \<Longrightarrow> after (\<lambda>(e, bs, s). server_ok s) (receive_into a n r s)"
  by (auto simp: receive_into_def socket_at_def server_ok_def Let_def split: option.split)

lemma receive_block_ok: "server_ok s \<Longrightarrow> after (\<lambda>(e, bs, s). server_ok s) (receive_block net debug a n s)"
  by (auto simp: receive_block_def socket_at_def assertf_def split: option.split
      intro!: after_and_then[OF receive_into_ok])

lemma drop_connection_ok: "server_ok s \<Longrightarrow> server_ok (drop_connection d c s)"
proof -
  assume ok: "server_ok s"
  obtain acc s' where i: "account_of (user_id c) s = (acc, s')" by fastforce
  have "server_ok (set_account (user_id c) (acc\<lparr>connections := filter (\<lambda>x. \<not> same_connection x c) (connections acc)\<rparr>) s')"
    using account_of_ok[OF ok i] by (intro set_account_ok account_ok_filter)
  then show ?thesis
    using i by (auto simp: drop_connection_def server_ok_def Let_def split: if_splits)
qed

lemma on_close_ok: "server_ok s \<Longrightarrow> after server_ok (on_close a s)"
  unfolding on_close_def
  by (intro after_and_then[where Q = "\<lambda>_. True"])
    (auto simp: after_def drop_connection_ok split: sum.split option.split)

lemma close_socket_ok: "server_ok s \<Longrightarrow> after server_ok (close_socket net a s)"
  unfolding close_socket_def
  by (rule after_and_then[OF on_close_ok])
    (auto simp: socket_at_def Let_def server_ok_def split: option.split)

lemma on_error_ok: "server_ok s \<Longrightarrow> after server_ok (on_error net a s)"
  using close_socket_ok[of "s\<lparr>receiver_error := e\<rparr>" for e]
  by (auto simp: on_error_def socket_at_def Let_def server_ok_def split: option.split)

lemma send_checked_ok: "server_ok s \<Longrightarrow> after server_ok (send_checked net a m s)"
  unfolding send_checked_def
  by (rule after_and_then[OF send_message_ok]) (auto simp: on_error_ok)

lemma authenticate_ok:
  assumes "server_ok s"
  shows "after server_ok (on_authenticate_request net rand time a uid did sec s)"
proof -
  define s1 where "s1 = (if map_of (accounts s) uid = None then set_account uid (make_account uid sec) s else s)"
  obtain acc s2 where i: "account_of uid s1 = (acc, s2)" by fastforce
  have "server_ok s1" using assms by (simp add: s1_def set_account_ok)
  note acc = account_of_ok[OF this i]
  define tok where "tok = generate_rand63 rand time"
  define c where "c = \<lparr>remote = a, device_id = did, user_id = uid, token = tok\<rparr>"
  have "server_ok (s2\<lparr>device_connections := put did c (device_connections s2)\<rparr>)"
    using acc(1) by (auto simp: server_ok_def c_def split: if_splits)
  moreover have "account_ok uid (acc\<lparr>connections := insert_connection c (connections acc)\<rparr>)"
    using acc(2) by (rule account_ok_insert) (simp add: c_def)
  ultimately have ok: "server_ok (set_account uid (acc\<lparr>connections := insert_connection c (connections acc)\<rparr>)
      (s2\<lparr>device_connections := put did c (device_connections s2)\<rparr>))" (is "server_ok ?s")
    by (rule set_account_ok)
  have "server_ok (?s\<lparr>token_to_device := put tok did (token_to_device ?s), token_to_user := put tok uid (token_to_user ?s)\<rparr>)"
    using ok by (simp add: server_ok_def)
  then show ?thesis
    by (simp add: on_authenticate_request_def s1_def[symmetric] i tok_def[symmetric] c_def[symmetric] send_checked_ok Let_def)
qed

lemma after_dataset:
  "account_ok uid acc \<Longrightarrow> (\<And>d. ascending d \<Longrightarrow> after P (f d)) \<Longrightarrow> after P (and_then (dataset_of acc ds) f)"
  by (auto simp: dataset_of_def checked_nth_def account_ok_def)

text \<open>The shape of the handlers that work on a dataset of an account.\<close>

lemma after_account:
  assumes "server_ok s"
    and "\<And>acc t d. account_of uid s = (acc, t) \<Longrightarrow> server_ok t \<Longrightarrow> account_ok uid acc \<Longrightarrow> ascending d \<Longrightarrow> after P (f acc t d)"
  shows "after P (case account_of uid s of (acc, t) \<Rightarrow> and_then (dataset_of acc ds) (f acc t))"
proof -
  obtain acc t where i: "account_of uid s = (acc, t)" by fastforce
  show ?thesis
    unfolding i prod.case
    by (rule after_dataset[OF account_of_ok(2)[OF assms(1) i]]) (rule assms(2)[OF i account_of_ok(1,2)[OF assms(1) i]])
qed

lemma refresh_ok: "server_ok s \<Longrightarrow> after server_ok (on_refresh_index_request net a tok ds s)"
  by (auto simp: on_refresh_index_request_def intro!: send_checked_ok after_account split: option.split)

lemma forward_ok: "server_ok s \<Longrightarrow> after server_ok (forward_from net m uid did cs s)"
proof (induction net m uid did cs s rule: forward_from.induct)
  case (2 net m uid did c cs s)
  have "after server_ok (if did \<noteq> device_id c then send_checked net (remote c) m s else Inr s)"
    using 2(2) send_checked_ok by simp
  then show ?case
    unfolding forward_from.simps by (rule after_and_then) (use 2(1) in \<open>auto simp: Let_def\<close>)
qed simp

lemma note_content_ascending: "ascending d \<Longrightarrow> ascending (note_content did n d)"
proof -
  assume d: "ascending d"
  obtain node e where i: "index_map no_node (node_id n) d = (node, e)" by fastforce
  have "ascending e" using index_map_simps(3)[OF d, of no_node "node_id n"] i by simp
  then show ?thesis using i by (simp add: note_content_def Let_def)
qed

lemma notify_ok: "server_ok s \<Longrightarrow> after server_ok (on_notify_available_request net tok ds n s)"
  unfolding on_notify_available_request_def
  by (auto split: option.split intro!: after_account forward_ok set_dataset_ok note_content_ascending)

lemma ask_devices_ok: "server_ok s \<Longrightarrow> after server_ok (ask_devices net m did ids s)"
proof (induction net m did ids s rule: ask_devices.induct)
  case (2 net m did i ids s)
  show ?case
  proof (cases "i \<noteq> did")
    case True
    obtain c cs where i: "index_map no_connection i (device_connections s) = (c, cs)" by fastforce
    show ?thesis
    proof (cases "map_of (device_connections s) i")
      case None
      then have "c = no_connection" using i by (simp add: index_map_def)
      then show ?thesis
        using True i 2(2) by (simp add: send_checked_def send_message_def socket_at_def no_connection_def server_ok_def)
    next
      case (Some d)
      then have "cs = device_connections s" using i by (simp add: index_map_def)
      moreover have "after server_ok (and_then (send_checked net (remote c) m s) (ask_devices net m did ids))"
        by (rule after_and_then[OF send_checked_ok[OF 2(2)] 2(1)])
      ultimately show ?thesis using True i by simp
    qed
  qed (use 2 in simp)
qed simp

lemma deliver_ok: "server_ok s \<Longrightarrow> after server_ok (deliver net debug m bs go cs s)"
proof (induction net debug m bs go cs s rule: deliver.induct)
  case (2 net debug m bs go c cs s)
  then show ?case
    by (auto intro!: after_and_then[OF send_message_ok] after_and_then[OF send_block_ok])
qed simp

lemma pending_ok [simp]: "server_ok (s\<lparr>pending := p\<rparr>) = server_ok s"
  by (simp add: server_ok_def)

lemma read_token_ok:
  assumes "server_ok s" "read_token tok s = (uid, did, s')"
  shows "server_ok s'" "map_of (token_to_user s') tok = Some uid"
proof -
  obtain users devices where i: "index_map 0 tok (token_to_user s) = (uid, users)"
      "index_map 0 tok (token_to_device s) = (did, devices)"
    and s': "s' = s\<lparr>token_to_user := users, token_to_device := devices\<rparr>"
    using assms(2) by (auto simp: read_token_def split: prod.splits)
  have d: "ascending users" "ascending devices"
    "map_of users = (case map_of (token_to_user s) tok of Some v \<Rightarrow> map_of (token_to_user s) | None \<Rightarrow> (map_of (token_to_user s))(tok \<mapsto> 0))"
    "map_of devices = (case map_of (token_to_device s) tok of Some v \<Rightarrow> map_of (token_to_device s) | None \<Rightarrow> (map_of (token_to_device s))(tok \<mapsto> 0))"
    "uid = (case map_of (token_to_user s) tok of Some v \<Rightarrow> v | None \<Rightarrow> 0)"
    using assms i index_map_simps[where d = 0 and k = tok and xs = "token_to_user s"]
      index_map_simps[where d = 0 and k = tok and xs = "token_to_device s"]
    by (simp_all add: server_ok_def)
  moreover have "tok \<in> dom (map_of (token_to_user s)) \<longleftrightarrow> tok \<in> dom (map_of (token_to_device s))"
    using assms(1) by (simp add: server_ok_def)
  ultimately show "server_ok s'"
    using assms(1) by (auto simp: s' server_ok_def dom_def split: option.splits)
  show "map_of (token_to_user s') tok = Some uid" using d(3,5) by (simp add: s' split: option.splits)
qed

lemma serve_cached_ok: "server_ok s \<Longrightarrow> after server_ok (serve_cached net debug a buf bs s)"
  unfolding serve_cached_def
  by (rule after_and_then[OF send_message_ok], assumption)
    (auto intro!: after_and_then[OF send_block_ok] on_error_ok split: prod.split)

lemma forward_sync_ok: "server_ok s \<Longrightarrow> after server_ok (forward_sync net m cid r devices s)"
  by (simp add: forward_sync_def ask_devices_ok)

lemma sync_request_ok:
  assumes "server_ok s"
  shows "after server_ok (on_sync_request net debug a tok cid ds s)"
proof -
  obtain uid did t where t: "read_token tok s = (uid, did, t)" by (metis prod_cases3)
  show ?thesis
    unfolding on_sync_request_def t Let_def prod.case read_token_ok(2)[OF assms t] option.case
    by (rule after_account[OF read_token_ok(1)[OF assms t]])
      (auto intro: serve_cached_ok forward_sync_ok split: option.split)
qed

lemma receive_content_ok:
  "server_ok s \<Longrightarrow> after (\<lambda>(go, bs, node, s). server_ok s) (receive_content net debug a n node s)"
  by (auto simp: receive_content_def socket_at_def split: option.split
      intro!: after_and_then[OF receive_block_ok])

lemma sync_response_ok: "server_ok s \<Longrightarrow> after server_ok (on_sync_response net debug a tok ds content mes s)"
  unfolding on_sync_response_def
  by (auto split: option.split simp: Let_def
      intro!: after_account after_and_then[OF receive_content_ok] after_and_then[OF deliver_ok] set_dataset_ok)

lemma on_receive_ok: "server_ok s \<Longrightarrow> after server_ok (on_receive net rand time debug a m s)"
  by (cases m) (simp_all add: authenticate_ok refresh_ok notify_ok sync_request_ok sync_response_ok)

lemma on_interrupt_ok: "server_ok s \<Longrightarrow> after server_ok (on_interrupt net timed_out a s)"
proof -
  assume ok: "server_ok s"
  show ?thesis
  proof (cases "sockets s a")
    case (Some sk)
    then have "server_ok (s\<lparr>sockets := (sockets s)(a \<mapsto> sk')\<rparr>)" for sk'
      using ok by (cases "a = 0") (auto simp: server_ok_def)
    then show ?thesis
      using Some ok by (auto simp: on_interrupt_def socket_at_def intro!: close_socket_ok after_and_then[OF send_message_ok])
  qed (simp add: on_interrupt_def socket_at_def)
qed

lemma after_receive:
  "server_ok t \<Longrightarrow> (\<And>e bs u. server_ok u \<Longrightarrow> after P (f (e, bs, u))) \<Longrightarrow> after P (and_then (receive_into a n r t) f)"
  using after_and_then[OF receive_into_ok, of t P f a n r] by auto

lemma receive_request_ok:
  "server_ok s \<Longrightarrow> after (\<lambda>(m, s). server_ok s) (receive_request decode a header payload s)"
  unfolding receive_request_def
  by (rule after_any) (auto intro!: after_receive after_any[where m = "decode _"] split: option.split)

lemma dispatch_ok:
  assumes "server_ok s"
  shows "after server_ok (dispatch net rand time debug timed_out decode a header payload s)"
proof -
  have tail: "after server_ok (and_then (socket_at a t) (\<lambda>sk.
      and_then (if recv_interrupt sk then on_interrupt net timed_out a t else Inr t) (\<lambda>s.
      and_then (socket_at a s) (\<lambda>sk. if socket_error sk \<noteq> 0 then on_error net a s else Inr s))))"
    if "server_ok t" for t
    using that by (intro after_any after_and_then[where Q = server_ok]) (auto intro: on_interrupt_ok on_error_ok)
  have "after server_ok (and_then (case m of None \<Rightarrow> Inr t | Some m \<Rightarrow> on_receive net rand time debug a m t)
      (\<lambda>s. and_then (socket_at a s) (\<lambda>sk.
      and_then (if recv_interrupt sk then on_interrupt net timed_out a s else Inr s) (\<lambda>s.
      and_then (socket_at a s) (\<lambda>sk. if socket_error sk \<noteq> 0 then on_error net a s else Inr s)))))"
    if "server_ok t" for m t
    by (rule after_and_then[where Q = server_ok]) (use that in \<open>auto intro: tail on_receive_ok simp del: neq0_conv split: option.split\<close>)
  then show ?thesis
    unfolding dispatch_def by (intro after_and_then[OF receive_request_ok[OF assms]]) auto
qed

lemma server_step_ok:
  assumes "server_step s s'" "server_ok s"
  shows "server_ok s'"
  using assms
proof (induction rule: server_step.induct)
  case (step_dispatch net rand time debug timed_out decode a header payload s s')
  then show ?case by (metis after_simps(1) dispatch_ok)
qed (auto simp: server_ok_def accept_socket_def release_socket_def)

lemma server_reachable_ok: "server_reachable s \<Longrightarrow> server_ok s"
  by (induction rule: server_reachable.induct) (auto intro: server_ok_new server_step_ok)

section \<open>When the network does not fail\<close>

definition no_send_errors :: "network \<Rightarrow> bool" where
  "no_send_errors net \<longleftrightarrow> (\<forall>k a. send_result net k a = 0)"

text \<open>A socket that is there and open stays so, since a send then succeeds.\<close>

definition reachable_sockets :: "nat set \<Rightarrow> server \<Rightarrow> bool" where
  "reachable_sockets A s \<longleftrightarrow> (\<forall>a\<in>A. \<exists>sk. sockets s a = Some sk \<and> is_open sk)"

lemma send_open:
  assumes "send_result net (length (sent s)) a = 0" "sockets s a = Some sk" "is_open sk"
  shows "send_message net a m s = Inr (0, s\<lparr>sent := sent s @ [(a, m)]\<rparr>)"
    "send_checked net a m s = Inr (s\<lparr>sent := sent s @ [(a, m)]\<rparr>)"
    "send_block net debug a bs s = Inr (0, s\<lparr>sent := sent s @ [(a, Byte_block bs)]\<rparr>)"
proof -
  have "(sockets s)(a \<mapsto> sk\<lparr>socket_error := 0\<rparr>) = sockets s"
    using assms by (simp add: is_open_def fun_upd_idem)
  then show msg: "send_message net a m s = Inr (0, s\<lparr>sent := sent s @ [(a, m)]\<rparr>)"
    "send_block net debug a bs s = Inr (0, s\<lparr>sent := sent s @ [(a, Byte_block bs)]\<rparr>)"
    using assms by (simp_all add: send_message_def send_block_def socket_at_def is_open_def)
  show "send_checked net a m s = Inr (s\<lparr>sent := sent s @ [(a, m)]\<rparr>)"
    by (simp add: send_checked_def msg(1))
qed

lemma forward_all:
  assumes "no_send_errors net" "reachable_sockets (remote ` set cs) s" "map_of (accounts s) uid = Some acc"
    "set cs \<subseteq> set (connections acc)"
  shows "forward_from net m uid did cs s =
    Inr (s\<lparr>sent := sent s @ map (\<lambda>c. (remote c, m)) (filter (\<lambda>c. did \<noteq> device_id c) cs)\<rparr>)"
  using assms(2-)
proof (induction cs arbitrary: s)
  case (Cons c cs)
  let ?s = "if did \<noteq> device_id c then s\<lparr>sent := sent s @ [(remote c, m)]\<rparr> else s"
  obtain sk where "sockets s (remote c) = Some sk" "is_open sk"
    using Cons.prems(1) by (auto simp: reachable_sockets_def)
  then have first: "(if did \<noteq> device_id c then send_checked net (remote c) m s else Inr s) = Inr ?s"
    using assms(1) send_open(2) by (simp add: no_send_errors_def)
  have left: "connections (fst (account_of uid ?s)) = connections acc"
    using Cons.prems(2) by (simp add: account_of_def index_map_def)
  have "filter (\<lambda>x. x \<in> set (connections acc)) cs = cs" using Cons.prems(3) by (simp add: filter_id_conv subset_iff)
  moreover have "\<exists>x\<in>set (connections acc). device_id x = device_id c" using Cons.prems(3) by auto
  ultimately have "forward_from net m uid did (c # cs) s = forward_from net m uid did cs ?s"
    by (simp add: first left del: index_map_simps)
  moreover have "forward_from net m uid did cs ?s =
      Inr (?s\<lparr>sent := sent ?s @ map (\<lambda>c. (remote c, m)) (filter (\<lambda>c. did \<noteq> device_id c) cs)\<rparr>)"
    using Cons.prems by (intro Cons.IH) (auto simp: reachable_sockets_def)
  ultimately show ?case by simp
qed simp

lemma deliver_all:
  assumes "no_send_errors net" "reachable_sockets (remote ` set cs) s"
  shows "deliver net debug m bs True cs s =
    Inr (s\<lparr>sent := sent s @ concat (map (\<lambda>c. [(remote c, m), (remote c, Byte_block bs)]) cs)\<rparr>)"
  using assms(2)
proof (induction cs arbitrary: s)
  case (Cons c cs)
  obtain sk where sk: "sockets s (remote c) = Some sk" "is_open sk"
    using Cons.prems by (auto simp: reachable_sockets_def)
  have "reachable_sockets (remote ` set cs) (s\<lparr>sent := l\<rparr>)" for l
    using Cons.prems by (simp add: reachable_sockets_def)
  then show ?case
    using assms(1) sk Cons.IH by (simp add: send_open no_send_errors_def)
qed simp

lemma ask_disconnected:
  assumes "no_send_errors net" "server_ok s" "\<exists>i\<in>set ids. i \<noteq> did \<and> map_of (device_connections s) i = None"
    "\<And>i c. i \<in> set ids \<Longrightarrow> map_of (device_connections s) i = Some c \<Longrightarrow> \<exists>sk. sockets s (remote c) = Some sk \<and> is_open sk"
  shows "ask_devices net m did ids s = Inl Undefined"
  using assms(2-)
proof (induction ids arbitrary: s)
  case (Cons i ids)
  show ?case
  proof (cases "i \<noteq> did")
    case True
    show ?thesis
    proof (cases "map_of (device_connections s) i")
      case None
      then show ?thesis
        using True Cons.prems(1)
        by (simp add: index_map_def send_checked_def send_message_def socket_at_def no_connection_def server_ok_def)
    next
      case (Some c)
      obtain sk where sk: "sockets s (remote c) = Some sk" "is_open sk" using Cons.prems(3)[of i c] Some by auto
      have "ask_devices net m did ids (s\<lparr>sent := sent s @ [(remote c, m)]\<rparr>) = Inl Undefined"
        using Cons.prems Some by (intro Cons.IH) (auto simp: server_ok_def)
      then show ?thesis
        using True Some sk assms(1) by (simp add: index_map_def send_open no_send_errors_def)
    qed
  qed (use Cons in auto)
qed simp

text \<open>A server with two devices of one user, and a content of a third device that has gone and that
  the second one waits for.\<close>

definition calm_network :: network where
  "calm_network = \<lparr>send_result = (\<lambda>_ _. 0), close_result = (\<lambda>_. 0), receive_result = (\<lambda>_ n. (0, replicate n 7))\<rparr>"

definition first_device :: connection where
  "first_device = \<lparr>remote = 10, device_id = 5, user_id = 0, token = 100\<rparr>"

definition second_device :: connection where
  "second_device = \<lparr>remote = 11, device_id = 6, user_id = 0, token = 101\<rparr>"

definition gone_content :: content_node where
  "gone_content = \<lparr>node_id = 7, node_type = [''text''], node_devices = [9], node_description = ''d'',
     node_buffer = no_buffer\<rparr>"

definition two_devices :: account where
  "two_devices = \<lparr>account_id = 0, secret = 3, datasets = [[], [(7, gone_content)]],
     connections = [first_device, second_device]\<rparr>"

definition two_device_server :: server where
  "two_device_server =
     \<lparr>accounts = [(0, two_devices)], token_to_device = [(100, 5), (101, 6)], token_to_user = [(100, 0), (101, 0)],
      device_connections = [(5, first_device), (6, second_device)], pending = [(7, second_device)],
      sockets = [10 \<mapsto> \<lparr>handle = Some 1, socket_error = 0, recv_interrupt = False\<rparr>, 11 \<mapsto> \<lparr>handle = Some 2, socket_error = 0, recv_interrupt = False\<rparr>],
      sent = [], closed = False, receiver_error = 0\<rparr>"

lemmas two_device_defs = two_device_server_def two_devices_def first_device_def second_device_def gone_content_def
  no_buffer_def calm_network_def

lemma calm_network_ok: "no_send_errors calm_network"
  by (simp add: no_send_errors_def calm_network_def)

lemma two_device_server_ok: "server_ok two_device_server"
  by (auto simp: server_ok_def two_device_defs account_ok_def num_datasets_def ascending_def split: if_splits)

lemma two_device_facts:
  "map_of (accounts two_device_server) 0 = Some two_devices"
  "map_of (token_to_user two_device_server) 100 = Some 0" "map_of (token_to_user two_device_server) 101 = Some 0"
  "map_of (token_to_user two_device_server) 999 = None" "map_of (token_to_device two_device_server) 100 = Some 5"
  "sockets two_device_server 10 = Some \<lparr>handle = Some 1, socket_error = 0, recv_interrupt = False\<rparr>"
  "sockets two_device_server 11 = Some \<lparr>handle = Some 2, socket_error = 0, recv_interrupt = False\<rparr>"
  "device_connections two_device_server = [(5, first_device), (6, second_device)]"
  "connections two_devices = [first_device, second_device]" "datasets two_devices = [[], [(7, gone_content)]]"
  "requestors 7 two_device_server = [second_device]" "remote first_device = 10" "remote second_device = 11"
  "device_id first_device = 5" "device_id second_device = 6" "node_devices gone_content = [9]"
  "buffer_bytes (node_buffer gone_content) = None" "sent two_device_server = []"
  by (simp_all add: two_device_defs requestors_def)

lemma two_devices_reachable: "reachable_sockets (insert 10 (remote ` set [first_device, second_device])) two_device_server"
  by (simp add: reachable_sockets_def two_device_facts is_open_def)

lemma example_index: "unat (1 :: u16) < num_datasets" "unat (1 :: u16) = 1"
  by (simp_all add: num_datasets_def)

lemma account_okD:
  assumes "account_ok uid acc"
  shows "length (datasets acc) = num_datasets" "d \<in> set (datasets acc) \<Longrightarrow> ascending d"
    "distinct (map device_id (connections acc))" "c \<in> set (connections acc) \<Longrightarrow> user_id c = uid"
  using assms strict_sorted_iff[of "map device_id (connections acc)"] by (auto simp: account_ok_def)

section \<open>Properties\<close>

text \<open>C7: In every state that the server reaches, the accounts, both maps of tokens and the connections are
  ordered by key without repetition, every token names a user exactly when it names a device, every account
  has its two datasets with their contents in order and at most one connection per device, all of that user,
  and every connection is filed under its device. The steps are accepting a socket, a round of \<open>dispatch\<close> and
  releasing a socket, in any order, where each send, receive and close, of the header and of the payload too,
  may succeed, time out, break off or fail as the network likes.\<close>

theorem server_well_formed:
  assumes "server_reachable s"
  shows "ascending (accounts s) \<and> ascending (device_connections s) \<and>
    ascending (token_to_user s) \<and> ascending (token_to_device s) \<and>
    dom (map_of (token_to_user s)) = dom (map_of (token_to_device s)) \<and>
    (\<forall>uid acc. map_of (accounts s) uid = Some acc \<longrightarrow> length (datasets acc) = num_datasets \<and>
      (\<forall>d\<in>set (datasets acc). ascending d) \<and> distinct (map device_id (connections acc)) \<and>
      (\<forall>c\<in>set (connections acc). user_id c = uid)) \<and>
    (\<forall>d c. map_of (device_connections s) d = Some c \<longrightarrow> device_id c = d)"
proof -
  have ok: "server_ok s" using assms by (rule server_reachable_ok)
  then show ?thesis
    using ok by (simp add: server_ok_def) (blast dest: account_okD)
qed

text \<open>A client is accepted and authenticates, its next message breaks off in the payload, and its last receive
  times out, on which the server clears the error and sends a ping.\<close>

definition example_decode :: "u8 list \<Rightarrow> message option outcome" where
  "example_decode bs = Inr (if bs = [1] then Some (Authenticate_request 3 5 9) else None)"

definition example_round :: "nat \<times> u8 list \<Rightarrow> nat \<times> u8 list \<Rightarrow> server \<Rightarrow> server outcome" where
  "example_round = dispatch calm_network (\<lambda>_ _. 0) 0 True 11 example_decode 10"

definition example_visit :: "server outcome" where
  "example_visit =
     and_then (example_round (0, [0, 1]) (0, [1]) (accept_socket 10 (Some 4) 0 server_new)) (example_round (11, []) (0, []))"

lemma example_reachable:
  assumes "example_visit = Inr s"
  shows "server_reachable s"
proof -
  obtain t where t: "example_round (0, [0, 1]) (0, [1]) (accept_socket 10 (Some 4) 0 server_new) = Inr t"
    "example_round (11, []) (0, []) t = Inr s"
    using assms by (auto simp: example_visit_def and_then_eq_Inr_iff)
  have "server_reachable (accept_socket 10 (Some 4) 0 server_new)"
    by (rule reach_step[OF reach_new step_accept]) (simp_all add: server_new_def)
  then show ?thesis
    using t by (auto simp: example_round_def intro: reach_step step_dispatch)
qed

lemma example_visit_result:
  "(case example_visit of Inl e \<Rightarrow> False
    | Inr s \<Rightarrow> sent s = [(10, Authenticate_response 0 1), (10, Ping 0)] \<and> map_of (token_to_device s) 0 = Some 5 \<and>
        map_option connections (map_of (accounts s) 3) =
          Some [\<lparr>remote = 10, device_id = 5, user_id = 3, token = 0\<rparr>])"
  by code_simp

theorem server_well_formed_witness:
  "\<exists>s acc c. example_visit = Inr s \<and> sent s = [(10, Authenticate_response 0 1), (10, Ping 0)] \<and>
    map_of (accounts s) 3 = Some acc \<and> connections acc = [c] \<and> user_id c = 3 \<and> length (datasets acc) = num_datasets \<and>
    0 \<in> dom (map_of (token_to_user s)) \<and> ascending (token_to_user s)"
proof -
  obtain s where s: "example_visit = Inr s" "sent s = [(10, Authenticate_response 0 1), (10, Ping 0)]"
    "map_of (token_to_device s) 0 = Some 5"
    "map_option connections (map_of (accounts s) 3) = Some [\<lparr>remote = 10, device_id = 5, user_id = 3, token = 0\<rparr>]"
    using example_visit_result by (auto split: sum.splits)
  then obtain acc where acc: "map_of (accounts s) 3 = Some acc"
    "connections acc = [\<lparr>remote = 10, device_id = 5, user_id = 3, token = 0\<rparr>]"
    by auto
  note ok = server_well_formed[OF example_reachable[OF s(1)]]
  have "0 \<in> dom (map_of (token_to_user s))" using ok s(3) by blast
  moreover have "length (datasets acc) = num_datasets" "ascending (token_to_user s)" using ok acc(1) by blast+
  ultimately show ?thesis using s(1,2) acc
    by (intro exI[of _ s] exI[of _ acc] exI[of _ "hd (connections acc)"]) simp
qed

text \<open>With a network that does not fail, a notification with a known token is sent to every other
  device connected to the account and to no other socket, the content is then in the dataset
  with the device among those that have it, and an index request with any token of the
  user is answered with it.\<close>

theorem notification_reaches_devices:
  assumes "server_ok s" "no_send_errors net" "map_of (token_to_user s) tok = Some uid"
    "map_of (token_to_device s) tok = Some did" "map_of (accounts s) uid = Some acc" "unat ds < num_datasets"
    "reachable_sockets (insert a (remote ` set (connections acc))) s" "map_of (token_to_user s) tok' = Some uid"
  shows "\<exists>s' d node. on_notify_available_request net tok ds n s = Inr s' \<and>
    sent s' = sent s @ map (\<lambda>c. (remote c, Notify_available_request tok ds n))
      (filter (\<lambda>c. device_id c \<noteq> did) (connections acc)) \<and>
    map_of d (node_id n) = Some node \<and> did \<in> set (node_devices node) \<and>
    (\<exists>s''. on_refresh_index_request net a tok' ds s' = Inr s'' \<and>
      sent s'' = sent s' @ [(a, Refresh_index_response (map snd d) 1)])"
proof -
  have ok: "account_ok uid acc" using assms(1,5) by (simp add: server_ok_def)
  then have len: "unat ds < length (datasets acc)" using assms(6) by (simp add: account_ok_def)
  let ?d = "note_content did n (datasets acc ! unat ds)"
  let ?acc = "acc\<lparr>datasets := (datasets acc)[unat ds := ?d]\<rparr>"
  let ?s = "set_dataset uid acc ds ?d s"
  let ?s' = "?s\<lparr>sent := sent ?s @ map (\<lambda>c. (remote c, Notify_available_request tok ds n))
      (filter (\<lambda>c. did \<noteq> device_id c) (connections acc))\<rparr>"
  have acc: "account_of uid s = (acc, s)" using assms(5) by (simp add: account_of_def index_map_def)
  have s: "accounts ?s = put uid ?acc (accounts s)" "sent ?s = sent s" "sockets ?s = sockets s"
    "token_to_user ?s = token_to_user s"
    by (simp_all add: set_dataset_def set_account_def)
  have "forward_from net (Notify_available_request tok ds n) uid did (connections acc) ?s = Inr ?s'"
    using assms(2,7) by (intro forward_all[where acc = ?acc]) (auto simp: s reachable_sockets_def)
  then have notify: "on_notify_available_request net tok ds n s = Inr ?s'"
    using assms(3,4) acc len by (simp add: on_notify_available_request_def dataset_of_def)
  have node: "\<exists>node. map_of ?d (node_id n) = Some node \<and> did \<in> set (node_devices node)"
    by (auto simp: note_content_def set_insert_def Let_def set_insort_key split: prod.split)
  obtain sk where "sockets ?s' a = Some sk" "is_open sk" using assms(7) s by (auto simp: reachable_sockets_def)
  then have "send_checked net a m ?s' = Inr (?s'\<lparr>sent := sent ?s' @ [(a, m)]\<rparr>)" for m
    using assms(2) by (intro send_open(2)) (auto simp: no_send_errors_def)
  moreover have "account_of uid ?s' = (?acc, ?s')" by (simp add: account_of_def index_map_def s)
  ultimately have "on_refresh_index_request net a tok' ds ?s' =
      Inr (?s'\<lparr>sent := sent ?s' @ [(a, Refresh_index_response (map snd ?d) 1)]\<rparr>)"
    using assms(8) len s by (simp add: on_refresh_index_request_def dataset_of_def)
  then show ?thesis using notify node s(2) by (auto simp: eq_commute[of did])
qed

theorem notification_reaches_devices_witness:
  "\<exists>s'. on_notify_available_request calm_network 100 1 (gone_content\<lparr>node_id := 8\<rparr>) two_device_server = Inr s' \<and>
    sent s' = [(11, Notify_available_request 100 1 (gone_content\<lparr>node_id := 8\<rparr>))]"
proof -
  have "reachable_sockets (insert 10 (remote ` set (connections two_devices))) two_device_server"
    using two_devices_reachable by (simp add: two_device_facts)
  from notification_reaches_devices[OF two_device_server_ok calm_network_ok two_device_facts(2,5,1) example_index(1)
      this two_device_facts(3)]
  show ?thesis by (auto simp: two_device_facts)
qed



text \<open>Two authentications within the same second are given the same token, and the token of the
  first client then names the second user.\<close>

theorem same_second_same_token:
  fixes rand :: "u32 \<Rightarrow> nat \<Rightarrow> u32" and time :: u64
  assumes "no_send_errors net" "sockets s a = Some sk" "is_open sk" "sockets s b = Some sl" "is_open sl"
  defines "tok \<equiv> generate_rand63 rand time"
  shows "\<exists>s' s''. on_authenticate_request net rand time a uid did sec s = Inr s' \<and>
    last (sent s') = (a, Authenticate_response tok 1) \<and> map_of (token_to_user s') tok = Some uid \<and>
    on_authenticate_request net rand time b uid' did' sec' s' = Inr s'' \<and>
    last (sent s'') = (b, Authenticate_response tok 1) \<and> map_of (token_to_user s'') tok = Some uid'"
proof -
  have auth: "\<exists>t. on_authenticate_request net rand time c u d x r = Inr t \<and> last (sent t) = (c, Authenticate_response tok 1) \<and>
      map_of (token_to_user t) tok = Some u \<and> sockets t = sockets r"
    if "sockets r c = Some sc" "is_open sc" for c u d x r sc
  proof -
    have "send_checked net c m t = Inr (t\<lparr>sent := sent t @ [(c, m)]\<rparr>)" if "sockets t = sockets r" for m t
      using that \<open>sockets r c = Some sc\<close> \<open>is_open sc\<close> assms(1) by (intro send_open(2)) (auto simp: no_send_errors_def)
    then show ?thesis
      by (simp add: on_authenticate_request_def Let_def account_of_def set_account_def tok_def split: prod.split)
  qed
  obtain s' where s': "on_authenticate_request net rand time a uid did sec s = Inr s'"
    "last (sent s') = (a, Authenticate_response tok 1)" "map_of (token_to_user s') tok = Some uid" "sockets s' = sockets s"
    using auth[OF assms(2,3)] by blast
  then show ?thesis using auth[of s' b sl uid' did' sec'] assms(4,5) by auto
qed

theorem same_second_same_token_witness:
  "\<exists>s' s''. on_authenticate_request calm_network (\<lambda>_ _. 1) 5 10 1 2 3 two_device_server = Inr s' \<and>
    on_authenticate_request calm_network (\<lambda>_ _. 1) 5 11 4 5 6 s' = Inr s'' \<and>
    map_of (token_to_user s'') (generate_rand63 (\<lambda>_ _. 1) 5) = Some 4"
proof -
  have "is_open \<lparr>handle = Some h, socket_error = 0, recv_interrupt = False\<rparr>" for h by (simp add: is_open_def)
  from same_second_same_token[OF calm_network_ok two_device_facts(6) this two_device_facts(7) this,
      where rand = "\<lambda>_ _. 1" and time = 5 and uid = 1 and did = 2 and sec = 3 and uid' = 4 and did' = 5 and sec' = 6]
  show ?thesis by blast
qed

text \<open>A synchronization request for content that is not cached, and that a device announced which
  is no longer connected, dereferences a null socket.\<close>

theorem sync_of_disconnected_device:
  assumes "server_ok s" "no_send_errors net" "map_of (token_to_user s) tok = Some uid"
    "map_of (token_to_device s) tok = Some did" "map_of (accounts s) uid = Some acc" "unat ds < num_datasets"
    "map_of (datasets acc ! unat ds) cid = Some node" "buffer_bytes (node_buffer node) = None"
    "\<exists>i\<in>set (node_devices node). i \<noteq> did \<and> map_of (device_connections s) i = None"
    "\<forall>c\<in>ran (map_of (device_connections s)). \<exists>sk. sockets s (remote c) = Some sk \<and> is_open sk"
  shows "on_sync_request net debug a tok cid ds s = Inl Undefined"
proof -
  have len: "unat ds < length (datasets acc)"
    using assms(1,5,6) by (auto simp: server_ok_def account_ok_def)
  have "read_token tok s = (uid, did, s)" using assms(3,4) by (simp add: read_token_def index_map_def)
  moreover have "account_of uid s = (acc, s)" using assms(5) by (simp add: account_of_def index_map_def)
  moreover have "ask_devices net m did (node_devices node) (s\<lparr>pending := p\<rparr>) = Inl Undefined" for m p
    using assms(1,2,9,10) by (intro ask_disconnected) (auto simp: ranI)
  ultimately show ?thesis
    using assms(3,7,8) len by (simp add: on_sync_request_def dataset_of_def forward_sync_def)
qed

theorem sync_of_disconnected_device_witness:
  "on_sync_request calm_network True 10 100 7 1 two_device_server = Inl Undefined"
proof (rule sync_of_disconnected_device[OF two_device_server_ok calm_network_ok two_device_facts(2,5,1) example_index(1)])
  show "map_of (datasets two_devices ! unat (1 :: u16)) 7 = Some gone_content" by (simp add: two_device_facts)
qed (auto simp: two_device_facts is_open_def ran_def split: if_splits)

text \<open>C8: With a network that does not fail, the content that arrives for a pending request is sent, the
  message and then the bytes, to every requestor in the order of their requests, no request
  for it is left pending, and the content is cached.\<close>

theorem content_reaches_requestors:
  assumes "server_ok s" "no_send_errors net" "map_of (token_to_user s) tok = Some uid"
    "map_of (accounts s) uid = Some acc" "unat ds < num_datasets"
    "map_of (datasets acc ! unat ds) (buffer_id content) = Some node"
    "reachable_sockets (insert a (remote ` set (requestors (buffer_id content) s))) s"
    "receive_result net a (unat (buffer_size content)) = (0, bs)" "length bs = unat (buffer_size content)"
  shows "\<exists>s' acc' node'. on_sync_response net debug a tok ds content mes s = Inr s' \<and>
    sent s' = sent s @ concat (map (\<lambda>c. [(remote c, Sync_response tok ds content mes), (remote c, Byte_block bs)])
      (requestors (buffer_id content) s)) \<and>
    requestors (buffer_id content) s' = [] \<and>
    map_of (accounts s') uid = Some acc' \<and> map_of (datasets acc' ! unat ds) (buffer_id content) = Some node' \<and>
    buffer_bytes (node_buffer node') = Some bs"
proof -
  have len: "unat ds < length (datasets acc)"
    using assms(1,4,5) by (auto simp: server_ok_def account_ok_def)
  obtain sk where sk: "sockets s a = Some sk" "is_open sk" using assms(7) by (auto simp: reachable_sockets_def)
  let ?t = "s\<lparr>sockets := (sockets s)(a \<mapsto> sk\<lparr>recv_interrupt := (unat (buffer_size content) = 0)\<rparr>)\<rparr>"
  let ?node = "node\<lparr>node_buffer := (node_buffer node)\<lparr>buffer_bytes := Some bs, buffer_size := buffer_size content\<rparr>\<rparr>"
  let ?s = "set_dataset uid acc ds (put (buffer_id content) ?node (datasets acc ! unat ds)) ?t"
  have s: "sent ?s = sent s" "sockets ?s = sockets ?t" "pending ?s = pending s"
    "accounts ?s = put uid (acc\<lparr>datasets := (datasets acc)[unat ds := put (buffer_id content) ?node (datasets acc ! unat ds)]\<rparr>) (accounts s)"
    by (simp_all add: set_dataset_def set_account_def)
  have "receive_content net debug a (buffer_size content) node s = Inr (True, bs, ?node, ?t)"
    using sk assms(8,9) by (simp add: receive_content_def receive_block_def receive_into_def socket_at_def is_open_def)
  moreover have "account_of uid s = (acc, s)" using assms(4) by (simp add: account_of_def index_map_def)
  moreover have "deliver net debug m bs True (requestors (buffer_id content) ?s) ?s =
      Inr (?s\<lparr>sent := sent ?s @ concat (map (\<lambda>c. [(remote c, m), (remote c, Byte_block bs)]) (requestors (buffer_id content) ?s))\<rparr>)" for m
    using assms(2,7) s sk by (intro deliver_all) (auto simp: reachable_sockets_def requestors_def is_open_def)
  ultimately show ?thesis
    using assms(3,6) len s by (auto simp: on_sync_response_def dataset_of_def requestors_def erase_key_def)
qed

theorem content_reaches_requestors_witness:
  "\<exists>s'. on_sync_response calm_network True 10 100 1 \<lparr>buffer_id = 7, buffer_size = 2, buffer_bytes = None\<rparr> 1
      two_device_server = Inr s' \<and> last (sent s') = (11, Byte_block (replicate 2 7)) \<and> requestors 7 s' = []"
proof -
  let ?c = "\<lparr>buffer_id = 7, buffer_size = 2, buffer_bytes = None\<rparr>"
  have "map_of (datasets two_devices ! unat (1 :: u16)) (buffer_id ?c) = Some gone_content" by (simp add: two_device_facts)
  moreover have "reachable_sockets (insert 10 (remote ` set (requestors (buffer_id ?c) two_device_server))) two_device_server"
    using two_devices_reachable by (simp add: two_device_facts reachable_sockets_def)
  moreover have "receive_result calm_network 10 (unat (buffer_size ?c)) = (0, replicate 2 7)"
    "length (replicate 2 (7 :: u8)) = unat (buffer_size ?c)"
    by (simp_all add: calm_network_def)
  ultimately show ?thesis
    using content_reaches_requestors[OF two_device_server_ok calm_network_ok two_device_facts(2,1) example_index(1),
        where content = ?c and node = gone_content and a = 10 and bs = "replicate 2 7" and debug = True and mes = 1]
    by (auto simp: two_device_facts)
qed

end
