(* ===== verification/Clip_Message.thy ===== *)
theory Clip_Message
  imports Clip_Server Clip_Socket
begin

text \<open>
  The messages of \<open>exercises/clipserver/Server/Server/message.cpp\<close>: what is written for each message, what is
  read back, and how a message travels over a socket, behind a header with its size. The JSON library
  is a record of its functions on the type \<open>'j\<close> of its values; a function that throws gives a fault. What the
  library is known to do is stated by \<open>json_laws\<close> and \<open>reads_back\<close>.
\<close>

section \<open>The JSON library\<close>

record 'j json =
  json_null :: 'j
  json_uint64 :: "u64 \<Rightarrow> 'j"
  json_uint :: "u32 \<Rightarrow> 'j"
  json_int :: "int \<Rightarrow> 'j"
  json_string :: "string \<Rightarrow> 'j"
  json_set :: "'j \<Rightarrow> string \<Rightarrow> 'j \<Rightarrow> 'j"
  json_append :: "'j \<Rightarrow> 'j \<Rightarrow> 'j"
  json_member :: "'j \<Rightarrow> string \<Rightarrow> bool outcome"
  json_get :: "'j \<Rightarrow> string \<Rightarrow> 'j outcome"
  json_size :: "'j \<Rightarrow> nat"
  json_at :: "'j \<Rightarrow> nat \<Rightarrow> 'j outcome"
  json_is_uint64 :: "'j \<Rightarrow> bool"
  json_is_uint :: "'j \<Rightarrow> bool"
  json_is_string :: "'j \<Rightarrow> bool"
  json_is_array :: "'j \<Rightarrow> bool"
  json_as_uint64 :: "'j \<Rightarrow> u64 outcome"
  json_as_uint :: "'j \<Rightarrow> u32 outcome"
  json_as_int :: "'j \<Rightarrow> int outcome"
  json_as_string :: "'j \<Rightarrow> string outcome"
  json_write :: "'j \<Rightarrow> u8 list"
  json_parse :: "u8 list \<Rightarrow> 'j option"

text \<open>Assignments to members of a value that starts as null, and appending to one.\<close>

definition object_of :: "'j json \<Rightarrow> (string \<times> 'j) list \<Rightarrow> 'j" where
  "object_of J kvs = foldl (\<lambda>v (k, x). json_set J v k x) (json_null J) kvs"

definition array_of :: "'j json \<Rightarrow> 'j list \<Rightarrow> 'j" where
  "array_of J xs = foldl (json_append J) (json_null J) xs"

section \<open>Writing\<close>

definition msg_buffer_size :: nat where "msg_buffer_size = 4096"

definition try_write_message :: "'j json \<Rightarrow> 'j \<Rightarrow> nat \<Rightarrow> bool \<times> u8 list" where
  "try_write_message J v capacity =
     (let str = json_write J v
      in if 0 < length str \<and> length str \<le> capacity then (True, str) else (False, []))"

definition try_read_message :: "'j json \<Rightarrow> u8 list \<Rightarrow> 'j option" where
  "try_read_message J buf = json_parse J buf"

text \<open>The size is stored in network order.\<close>

definition generate_header :: "u16 \<Rightarrow> u8 list" where
  "generate_header payload_size = le_bytes 2 (htons payload_size)"

definition type_entry :: "'j json \<Rightarrow> string list \<Rightarrow> (string \<times> 'j) list" where
  "type_entry J ts = (if ts = [] then [] else [(''content_type'', array_of J (map (json_string J) ts))])"

text \<open>The value that is written for each message; a list that is never appended to stays null.\<close>

definition authenticate_request_json :: "'j json \<Rightarrow> u64 \<Rightarrow> u64 \<Rightarrow> u64 \<Rightarrow> 'j" where
  "authenticate_request_json J uid did sec = object_of J
     [(''message_id'', json_int J 101), (''user_id'', json_uint64 J uid),
      (''device_id'', json_uint64 J did), (''secret'', json_uint64 J sec)]"

definition authenticate_response_json :: "'j json \<Rightarrow> u64 \<Rightarrow> u16 \<Rightarrow> 'j" where
  "authenticate_response_json J tok m = object_of J
     [(''message_id'', json_int J 102), (''token'', json_uint64 J tok), (''message'', json_int J (uint m))]"

definition refresh_index_request_json :: "'j json \<Rightarrow> u64 \<Rightarrow> u16 \<Rightarrow> 'j" where
  "refresh_index_request_json J tok ds = object_of J
     [(''message_id'', json_int J 103), (''token'', json_uint64 J tok), (''dataset_id'', json_int J (uint ds))]"

definition refresh_index_response_json :: "'j json \<Rightarrow> content_node list \<Rightarrow> u16 \<Rightarrow> 'j" where
  "refresh_index_response_json J nodes m = object_of J
     [(''message_id'', json_int J 104), (''message'', json_int J (uint m)),
      (''contents'', array_of J (map (\<lambda>n. object_of J
         ([(''id'', json_uint64 J (node_id n))] @ type_entry J (node_type n) @
          [(''description'', json_string J (node_description n))])) nodes))]"

definition notify_available_request_json :: "'j json \<Rightarrow> u64 \<Rightarrow> u16 \<Rightarrow> content_node \<Rightarrow> 'j" where
  "notify_available_request_json J tok ds n = object_of J
     ([(''message_id'', json_int J 105), (''token'', json_uint64 J tok), (''dataset_id'', json_int J (uint ds)),
       (''content_id'', json_uint64 J (node_id n))] @ type_entry J (node_type n) @
      [(''description'', json_string J (node_description n))])"

definition sync_request_json :: "'j json \<Rightarrow> u64 \<Rightarrow> u64 \<Rightarrow> u16 \<Rightarrow> 'j" where
  "sync_request_json J tok cid ds = object_of J
     [(''message_id'', json_int J 106), (''token'', json_uint64 J tok), (''content_id'', json_uint64 J cid),
      (''dataset_id'', json_int J (uint ds))]"

definition sync_response_json :: "'j json \<Rightarrow> u64 \<Rightarrow> u16 \<Rightarrow> content_buffer \<Rightarrow> u16 \<Rightarrow> 'j" where
  "sync_response_json J tok ds content m = object_of J
     [(''message_id'', json_int J 107), (''token'', json_uint64 J tok), (''dataset_id'', json_int J (uint ds)),
      (''content_id'', json_uint64 J (buffer_id content)), (''content_size'', json_uint J (buffer_size content)),
      (''message'', json_int J (uint m))]"

definition ping_json :: "'j json \<Rightarrow> u64 \<Rightarrow> 'j" where
  "ping_json J tok = object_of J [(''message_id'', json_int J 108), (''token'', json_uint64 J tok)]"

text \<open>The generator of the message that is sent; bytes have none.\<close>

fun message_json :: "'j json \<Rightarrow> message \<Rightarrow> 'j" where
  "message_json J (Authenticate_request uid did sec) = authenticate_request_json J uid did sec"
| "message_json J (Authenticate_response tok m) = authenticate_response_json J tok m"
| "message_json J (Refresh_index_request tok ds) = refresh_index_request_json J tok ds"
| "message_json J (Refresh_index_response nodes m) = refresh_index_response_json J nodes m"
| "message_json J (Notify_available_request tok ds n) = notify_available_request_json J tok ds n"
| "message_json J (Sync_request tok cid ds) = sync_request_json J tok cid ds"
| "message_json J (Sync_response tok ds content m) = sync_response_json J tok ds content m"
| "message_json J (Ping tok) = ping_json J tok"
| "message_json J (Byte_block bs) = json_null J"

lemmas message_json_defs = authenticate_request_json_def authenticate_response_json_def refresh_index_request_json_def
  refresh_index_response_json_def notify_available_request_json_def sync_request_json_def sync_response_json_def
  ping_json_def

text \<open>The bytes in the buffer after a message was generated into it: none when it could not be written.\<close>

definition generate_message :: "'j json \<Rightarrow> nat \<Rightarrow> message \<Rightarrow> u8 list" where
  "generate_message J capacity m = snd (try_write_message J (message_json J m) capacity)"

section \<open>Reading\<close>

text \<open>The conjunction of the code, which stops at the first condition that is false.\<close>

fun all_of :: "bool outcome list \<Rightarrow> bool outcome" where
  "all_of [] = Inr True"
| "all_of (m # ms) = and_then m (\<lambda>b. if b then all_of ms else Inr False)"

definition member_is :: "'j json \<Rightarrow> 'j \<Rightarrow> string \<Rightarrow> ('j \<Rightarrow> bool) \<Rightarrow> bool outcome" where
  "member_is J v k p = and_then (json_get J v k) (\<lambda>x. Inr (p x))"

definition get_uint64 :: "'j json \<Rightarrow> 'j \<Rightarrow> string \<Rightarrow> u64 outcome" where
  "get_uint64 J v k = and_then (json_get J v k) (json_as_uint64 J)"

definition get_uint :: "'j json \<Rightarrow> 'j \<Rightarrow> string \<Rightarrow> u32 outcome" where
  "get_uint J v k = and_then (json_get J v k) (json_as_uint J)"

definition get_string :: "'j json \<Rightarrow> 'j \<Rightarrow> string \<Rightarrow> string outcome" where
  "get_string J v k = and_then (json_get J v k) (json_as_string J)"

definition when_ok :: "bool outcome \<Rightarrow> message outcome \<Rightarrow> message option outcome" where
  "when_ok proceed m = and_then proceed (\<lambda>ok. if ok then and_then m (\<lambda>x. Inr (Some x)) else Inr None)"

text \<open>The secret is not read, and the type of the user is checked twice.\<close>

definition parse_authenticate_request :: "'j json \<Rightarrow> 'j \<Rightarrow> message option outcome" where
  "parse_authenticate_request J root = when_ok
     (all_of [json_member J root ''user_id'', member_is J root ''user_id'' (json_is_uint64 J),
              json_member J root ''device_id'', member_is J root ''user_id'' (json_is_uint64 J)])
     (and_then (get_uint64 J root ''user_id'') (\<lambda>uid.
      and_then (get_uint64 J root ''device_id'') (\<lambda>did. Inr (Authenticate_request uid did 0))))"

definition parse_authenticate_response :: "'j json \<Rightarrow> 'j \<Rightarrow> message option outcome" where
  "parse_authenticate_response J root = when_ok
     (all_of [json_member J root ''token'', member_is J root ''token'' (json_is_uint64 J),
              json_member J root ''message'', member_is J root ''message'' (json_is_uint64 J)])
     (and_then (get_uint64 J root ''token'') (\<lambda>tok.
      and_then (get_uint J root ''message'') (\<lambda>m. Inr (Authenticate_response tok (ucast m)))))"

definition parse_refresh_index_request :: "'j json \<Rightarrow> 'j \<Rightarrow> message option outcome" where
  "parse_refresh_index_request J root = when_ok
     (all_of [json_member J root ''token'', member_is J root ''token'' (json_is_uint64 J),
              json_member J root ''dataset_id'', member_is J root ''dataset_id'' (json_is_uint J)])
     (and_then (get_uint64 J root ''token'') (\<lambda>tok.
      and_then (get_uint J root ''dataset_id'') (\<lambda>ds. Inr (Refresh_index_request tok (ucast ds)))))"

text \<open>The types of a content are looked for in the message instead of the content, and a list of them
  would be read as one string for each of its elements.\<close>

definition index_types :: "'j json \<Rightarrow> 'j \<Rightarrow> string list outcome" where
  "index_types J root = and_then (json_get J root ''content_type'') (\<lambda>types.
     if json_size J types = 0 then Inr []
     else and_then (json_as_string J types) (\<lambda>t. Inr (replicate (json_size J types) t)))"

fun parse_index :: "'j json \<Rightarrow> 'j \<Rightarrow> 'j \<Rightarrow> nat list \<Rightarrow> string list \<Rightarrow> content_node list \<Rightarrow>
    (bool \<times> content_node list) outcome" where
  "parse_index J root list [] types nodes = Inr (True, nodes)"
| "parse_index J root list (i # is) types nodes =
     and_then (json_at J list i) (\<lambda>content.
     and_then (all_of [json_member J content ''id'', json_member J content ''content_type'',
         member_is J content ''content_type'' (json_is_array J), json_member J content ''description'']) (\<lambda>proceed.
     and_then (if proceed then index_types J root else Inr []) (\<lambda>ts.
     and_then (get_uint64 J content ''id'') (\<lambda>cid.
     and_then (get_string J content ''description'') (\<lambda>descr.
       let nodes = nodes @ [make_node cid (types @ ts) descr]
       in if proceed then parse_index J root list is (types @ ts) nodes else Inr (False, nodes))))))"

definition parse_refresh_index_response :: "'j json \<Rightarrow> 'j \<Rightarrow> message option outcome" where
  "parse_refresh_index_response J root =
     and_then (all_of [json_member J root ''message'', member_is J root ''message'' (json_is_uint J),
         json_member J root ''contents'', member_is J root ''contents'' (json_is_array J)]) (\<lambda>ok.
     if ok
     then and_then (get_uint J root ''message'') (\<lambda>m.
          and_then (json_get J root ''contents'') (\<lambda>list.
          and_then (parse_index J root list [0..<json_size J list] [] []) (\<lambda>(proceed, nodes).
          Inr (if proceed then Some (Refresh_index_response nodes (ucast m)) else None))))
     else Inr None)"

fun read_strings :: "'j json \<Rightarrow> 'j \<Rightarrow> nat list \<Rightarrow> string list outcome" where
  "read_strings J list [] = Inr []"
| "read_strings J list (i # is) =
     and_then (and_then (json_at J list i) (json_as_string J)) (\<lambda>s.
     and_then (read_strings J list is) (\<lambda>ss. Inr (s # ss)))"

definition parse_notify_available_request :: "'j json \<Rightarrow> 'j \<Rightarrow> message option outcome" where
  "parse_notify_available_request J root = when_ok
     (all_of [json_member J root ''token'', member_is J root ''token'' (json_is_uint64 J),
              json_member J root ''dataset_id'', member_is J root ''dataset_id'' (json_is_uint J),
              json_member J root ''content_id'', member_is J root ''content_id'' (json_is_uint64 J),
              json_member J root ''content_type'', member_is J root ''content_type'' (json_is_array J),
              json_member J root ''description'', member_is J root ''description'' (json_is_string J)])
     (and_then (get_uint64 J root ''token'') (\<lambda>tok.
      and_then (get_uint J root ''dataset_id'') (\<lambda>ds.
      and_then (json_get J root ''content_type'') (\<lambda>list.
      and_then (read_strings J list [0..<json_size J list]) (\<lambda>types.
      and_then (get_uint64 J root ''content_id'') (\<lambda>cid.
      and_then (get_string J root ''description'') (\<lambda>descr.
      Inr (Notify_available_request tok (ucast ds) (make_node cid types descr)))))))))"

definition parse_sync_request :: "'j json \<Rightarrow> 'j \<Rightarrow> message option outcome" where
  "parse_sync_request J root = when_ok
     (all_of [json_member J root ''token'', member_is J root ''token'' (json_is_uint64 J),
              json_member J root ''content_id'', member_is J root ''content_id'' (json_is_uint64 J),
              json_member J root ''dataset_id'', member_is J root ''dataset_id'' (json_is_uint J)])
     (and_then (get_uint64 J root ''token'') (\<lambda>tok.
      and_then (get_uint64 J root ''content_id'') (\<lambda>cid.
      and_then (get_uint J root ''dataset_id'') (\<lambda>ds. Inr (Sync_request tok cid (ucast ds))))))"

definition parse_sync_response :: "'j json \<Rightarrow> 'j \<Rightarrow> message option outcome" where
  "parse_sync_response J root = when_ok
     (all_of [json_member J root ''token'', member_is J root ''token'' (json_is_uint64 J),
              json_member J root ''dataset_id'', member_is J root ''dataset_id'' (json_is_uint J),
              json_member J root ''content_id'', member_is J root ''content_id'' (json_is_uint64 J),
              json_member J root ''content_size'', member_is J root ''content_size'' (json_is_uint J),
              json_member J root ''message'', member_is J root ''message'' (json_is_uint J)])
     (and_then (get_uint64 J root ''token'') (\<lambda>tok.
      and_then (get_uint J root ''dataset_id'') (\<lambda>ds.
      and_then (get_uint64 J root ''content_id'') (\<lambda>cid.
      and_then (get_uint J root ''content_size'') (\<lambda>n.
      and_then (get_uint J root ''message'') (\<lambda>m.
      Inr (Sync_response tok (ucast ds) \<lparr>buffer_id = cid, buffer_size = n, buffer_bytes = None\<rparr> (ucast m))))))))"

definition parse_ping :: "'j json \<Rightarrow> 'j \<Rightarrow> message option outcome" where
  "parse_ping J root = when_ok
     (all_of [json_member J root ''token'', member_is J root ''token'' (json_is_uint64 J)])
     (and_then (get_uint64 J root ''token'') (\<lambda>tok. Inr (Ping tok)))"

definition parse_message :: "'j json \<Rightarrow> 'j \<Rightarrow> message option outcome" where
  "parse_message J root =
     and_then (json_get J root ''message_id'') (\<lambda>v.
     and_then (json_as_int J v) (\<lambda>msgid.
       if msgid = 101 then parse_authenticate_request J root
       else if msgid = 102 then parse_authenticate_response J root
       else if msgid = 103 then parse_refresh_index_request J root
       else if msgid = 104 then parse_refresh_index_response J root
       else if msgid = 105 then parse_notify_available_request J root
       else if msgid = 106 then parse_sync_request J root
       else if msgid = 107 then parse_sync_response J root
       else if msgid = 108 then parse_ping J root
       else Inr None))"

section \<open>Transport\<close>

text \<open>The header is sent with one call, the message with as many as it takes.\<close>

definition generic_send ::
    "'w system_calls \<Rightarrow> 'j json \<Rightarrow> message \<Rightarrow> net_socket \<Rightarrow> 'w \<Rightarrow> (nat \<times> net_socket \<times> 'w) option" where
  "generic_send sys J m sk w =
     (let payload = generate_message J msg_buffer_size m;
          header = generate_header (of_nat (length payload))
      in if \<not> net_is_open sk then Some (0, sk, w)
         else (let (sent, e, sk, w) = socket_send sys header sk w
               in if e = 0 \<and> sent = length header
                  then map_option (\<lambda>(sent, e, sk, w). (e, sk, w)) (send_all sys payload sk w)
                  else Some (e, sk, w)))"

text \<open>The message in a payload, when it can be parsed.\<close>

definition decode_payload :: "'j json \<Rightarrow> u8 list \<Rightarrow> message option outcome" where
  "decode_payload J payload =
     (case try_read_message J payload of
        None \<Rightarrow> Inr None
      | Some root \<Rightarrow>
          and_then (json_member J root ''message_id'') (\<lambda>there. if there then parse_message J root else Inr None))"

text \<open>The first half of \<open>dispatch\<close> over the system calls: the header, the payload, and the message in it.
  \<open>receive_request\<close> of \<^theory_text>\<open>Clip_Server\<close> is the same on the sockets of the server.\<close>

definition receive_message ::
    "'w system_calls \<Rightarrow> 'j json \<Rightarrow> net_socket \<Rightarrow> 'w \<Rightarrow> message option outcome \<times> net_socket \<times> 'w" where
  "receive_message sys J sk w =
     (if \<not> net_is_open sk then (Inr None, sk, w)
      else (let (hdr, e, sk, w) = receive_all sys 2 sk w
            in if e \<noteq> 0 \<or> length hdr \<noteq> 2 then (Inr None, sk, w)
               else (case try_parse_header hdr of
                   None \<Rightarrow> (Inr None, sk, w)
                 | Some n \<Rightarrow>
                     (let (payload, e, sk, w) = receive_all sys (unat n) sk w
                      in if e \<noteq> 0 \<or> length payload \<noteq> unat n then (Inr None, sk, w)
                         else (decode_payload J payload, sk, w)))))"

definition send_block_on ::
    "'w system_calls \<Rightarrow> bool \<Rightarrow> u8 list \<Rightarrow> net_socket \<Rightarrow> 'w \<Rightarrow> (nat \<times> net_socket \<times> 'w) outcome option" where
  "send_block_on sys debug buf sk w =
     (if error_code sk \<noteq> 0 then Some (and_then (assertf debug False) (\<lambda>_. Inr (0, sk, w)))
      else map_option (\<lambda>(sent, e, sk, w).
        and_then (assertf debug (e = 0 \<and> sent = length buf)) (\<lambda>_. Inr (e, sk, w))) (send_all sys buf sk w))"

definition recv_block_on ::
    "'w system_calls \<Rightarrow> bool \<Rightarrow> nat \<Rightarrow> net_socket \<Rightarrow> 'w \<Rightarrow> (nat \<times> u8 list \<times> net_socket \<times> 'w) outcome" where
  "recv_block_on sys debug n sk w =
     (if \<not> net_is_open sk then and_then (assertf debug False) (\<lambda>_. Inr (0, [], sk, w))
      else (let (bs, e, sk, w) = receive_all sys n sk w
            in and_then (assertf debug (e = 0 \<and> length bs = n)) (\<lambda>_. Inr (e, bs, sk, w))))"

text \<open>\<open>recv_size\<close> calls \<open>receive\<close> whether or not the socket is open.\<close>

definition recv_size :: "'w system_calls \<Rightarrow> bool \<Rightarrow> net_socket \<Rightarrow> 'w \<Rightarrow> (nat \<times> u32 \<times> net_socket \<times> 'w) outcome" where
  "recv_size sys debug sk w =
     (let (bs, e, sk, w) = socket_receive sys 4 sk w;
          proceed = (e = 0 \<and> length bs \<ge> 4)
      in and_then (assertf debug proceed) (\<lambda>_.
         Inr (e, if proceed then of_le_bytes (rev bs) else 0, sk, w)))"

section \<open>What the JSON library is known to do\<close>

text \<open>Members, elements and scalars are read as they were stored; the keys of an object are distinct.\<close>

definition json_laws :: "'j json \<Rightarrow> bool" where
  "json_laws J \<longleftrightarrow>
     (\<forall>kvs k. distinct (map fst kvs) \<longrightarrow>
        json_member J (object_of J kvs) k = Inr (k \<in> fst ` set kvs) \<and>
        json_get J (object_of J kvs) k = Inr (case map_of kvs k of Some v \<Rightarrow> v | None \<Rightarrow> json_null J)) \<and>
     (\<forall>xs. xs \<noteq> [] \<longrightarrow> json_is_array J (array_of J xs) \<and> json_size J (array_of J xs) = length xs \<and>
        (\<forall>i<length xs. json_at J (array_of J xs) i = Inr (xs ! i))) \<and>
     json_size J (json_null J) = 0 \<and>
     (\<forall>n. json_is_uint64 J (json_uint64 J n) \<and> json_as_uint64 J (json_uint64 J n) = Inr n) \<and>
     (\<forall>n. json_is_uint J (json_uint J n) \<and> json_as_uint J (json_uint J n) = Inr n) \<and>
     (\<forall>n. 0 \<le> n \<and> n < 2 ^ 31 \<longrightarrow> json_is_uint J (json_int J n) \<and> json_is_uint64 J (json_int J n) \<and>
        json_as_uint J (json_int J n) = Inr (of_int n) \<and> json_as_int J (json_int J n) = Inr n) \<and>
     (\<forall>s. json_is_string J (json_string J s) \<and> json_as_string J (json_string J s) = Inr s)"

text \<open>Two values are read the same to a depth: the library may store a number in another way.\<close>

fun same_upto :: "'j json \<Rightarrow> nat \<Rightarrow> 'j \<Rightarrow> 'j \<Rightarrow> bool" where
  "same_upto J 0 v u = True"
| "same_upto J (Suc n) v u \<longleftrightarrow>
     json_is_uint64 J u = json_is_uint64 J v \<and> (json_is_uint64 J v \<longrightarrow> json_as_uint64 J u = json_as_uint64 J v) \<and>
     json_is_uint J u = json_is_uint J v \<and> (json_is_uint J v \<longrightarrow> json_as_uint J u = json_as_uint J v) \<and>
     (json_is_uint J v \<longrightarrow> json_as_int J u = json_as_int J v) \<and>
     json_is_string J u = json_is_string J v \<and> (json_is_string J v \<longrightarrow> json_as_string J u = json_as_string J v) \<and>
     json_is_array J u = json_is_array J v \<and> json_size J u = json_size J v \<and>
     (\<forall>k. json_member J u k = json_member J v k) \<and>
     (\<forall>k x. json_get J v k = Inr x \<longrightarrow> (\<exists>y. json_get J u k = Inr y \<and> same_upto J n x y)) \<and>
     (\<forall>i x. i < json_size J v \<longrightarrow> json_at J v i = Inr x \<longrightarrow> (\<exists>y. json_at J u i = Inr y \<and> same_upto J n x y))"

text \<open>What is parsed from the text of a value is read as that value.\<close>

definition reads_back :: "'j json \<Rightarrow> 'j \<Rightarrow> bool" where
  "reads_back J v \<longleftrightarrow> (\<exists>u. json_parse J (json_write J v) = Some u \<and> same_upto J 4 v u)"

section \<open>Round trips\<close>

text \<open>What arrives of a message that is sent.\<close>

fun as_received :: "message \<Rightarrow> message" where
  "as_received (Authenticate_request uid did sec) = Authenticate_request uid did 0"
| "as_received (Refresh_index_response nodes m) =
     Refresh_index_response (map (\<lambda>n. make_node (node_id n) [] (node_description n)) nodes) m"
| "as_received (Notify_available_request tok ds n) =
     Notify_available_request tok ds (make_node (node_id n) (node_type n) (node_description n))"
| "as_received (Sync_response tok ds content m) = Sync_response tok ds (content\<lparr>buffer_bytes := None\<rparr>) m"
| "as_received m = m"

fun transportable :: "message \<Rightarrow> bool" where
  "transportable (Refresh_index_response nodes m) \<longleftrightarrow> nodes \<noteq> [] \<and> (\<forall>n\<in>set nodes. node_type n \<noteq> [])"
| "transportable (Notify_available_request tok ds n) \<longleftrightarrow> node_type n \<noteq> []"
| "transportable (Byte_block bs) \<longleftrightarrow> False"
| "transportable m \<longleftrightarrow> True"

lemma object_laws:
  assumes "json_laws J" "distinct (map fst kvs)"
  shows "json_member J (object_of J kvs) k = Inr (k \<in> fst ` set kvs)"
    "json_get J (object_of J kvs) k = Inr (case map_of kvs k of Some v \<Rightarrow> v | None \<Rightarrow> json_null J)"
  using assms by (simp_all add: json_laws_def)

lemma same_uptoD:
  assumes "same_upto J (Suc n) v u"
  shows "json_member J u k = json_member J v k"
    "json_get J v k = Inr x \<Longrightarrow> \<exists>y. json_get J u k = Inr y \<and> same_upto J n x y"
    "json_size J u = json_size J v"
    "json_is_array J u = json_is_array J v"
    "i < json_size J v \<Longrightarrow> json_at J v i = Inr x \<Longrightarrow> \<exists>y. json_at J u i = Inr y \<and> same_upto J n x y"
    "json_is_uint64 J v \<Longrightarrow> json_is_uint64 J u \<and> json_as_uint64 J u = json_as_uint64 J v"
    "json_is_uint J v \<Longrightarrow> json_is_uint J u \<and> json_as_uint J u = json_as_uint J v \<and> json_as_int J u = json_as_int J v"
    "json_is_string J v \<Longrightarrow> json_is_string J u \<and> json_as_string J u = json_as_string J v"
  using assms unfolding same_upto.simps by metis+

text \<open>A value that is read as an object made of these members.\<close>

definition reads_object :: "'j json \<Rightarrow> nat \<Rightarrow> (string \<times> 'j) list \<Rightarrow> 'j \<Rightarrow> bool" where
  "reads_object J n kvs u \<longleftrightarrow> (\<forall>k. json_member J u k = Inr (k \<in> fst ` set kvs) \<and>
     (\<exists>y. json_get J u k = Inr y \<and> same_upto J n (case map_of kvs k of Some v \<Rightarrow> v | None \<Rightarrow> json_null J) y))"

lemma reads_object:
  assumes "json_laws J" "distinct (map fst kvs)" "same_upto J (Suc n) (object_of J kvs) u"
  shows "reads_object J n kvs u"
  unfolding reads_object_def
  using same_uptoD(1,2)[OF assms(3)] object_laws[OF assms(1,2)] by metis

lemma read_member:
  assumes "reads_object J n kvs u"
  shows "json_member J u k = Inr (k \<in> fst ` set kvs)"
    "\<exists>y. json_get J u k = Inr y \<and> same_upto J n (case map_of kvs k of Some v \<Rightarrow> v | None \<Rightarrow> json_null J) y"
  using assms by (simp_all add: reads_object_def)

text \<open>Reading a scalar member.\<close>

lemma read_uint64:
  assumes "json_laws J" "reads_object J (Suc n) kvs u" "map_of kvs k = Some (json_uint64 J x)"
  shows "member_is J u k (json_is_uint64 J) = Inr True" "get_uint64 J u k = Inr x"
proof -
  obtain y where y: "json_get J u k = Inr y" "same_upto J (Suc n) (json_uint64 J x) y"
    using read_member(2)[OF assms(2), of k] assms(3) by auto
  have "json_is_uint64 J (json_uint64 J x)" "json_as_uint64 J (json_uint64 J x) = Inr x"
    using assms(1) by (simp_all add: json_laws_def)
  with same_uptoD(6)[OF y(2)] have "json_is_uint64 J y" "json_as_uint64 J y = Inr x" by simp_all
  with y(1) show "member_is J u k (json_is_uint64 J) = Inr True" "get_uint64 J u k = Inr x"
    by (simp_all add: member_is_def get_uint64_def)
qed

lemma read_uint:
  assumes "json_laws J" "reads_object J (Suc n) kvs u" "map_of kvs k = Some (json_uint J x)"
  shows "member_is J u k (json_is_uint J) = Inr True" "get_uint J u k = Inr x"
proof -
  obtain y where y: "json_get J u k = Inr y" "same_upto J (Suc n) (json_uint J x) y"
    using read_member(2)[OF assms(2), of k] assms(3) by auto
  have "json_is_uint J (json_uint J x)" "json_as_uint J (json_uint J x) = Inr x"
    using assms(1) by (simp_all add: json_laws_def)
  with same_uptoD(7)[OF y(2)] have "json_is_uint J y" "json_as_uint J y = Inr x" by simp_all
  with y(1) show "member_is J u k (json_is_uint J) = Inr True" "get_uint J u k = Inr x"
    by (simp_all add: member_is_def get_uint_def)
qed

lemma read_int:
  assumes "json_laws J" "reads_object J (Suc n) kvs u" "map_of kvs k = Some (json_int J x)" "0 \<le> x" "x < 2 ^ 31"
  shows "member_is J u k (json_is_uint J) = Inr True" "member_is J u k (json_is_uint64 J) = Inr True"
    "get_uint J u k = Inr (of_int x)" "\<exists>y. json_get J u k = Inr y \<and> json_as_int J y = Inr x"
proof -
  obtain y where y: "json_get J u k = Inr y" "same_upto J (Suc n) (json_int J x) y"
    using read_member(2)[OF assms(2), of k] assms(3) by auto
  have "json_is_uint J (json_int J x)" "json_is_uint64 J (json_int J x)"
    "json_as_uint J (json_int J x) = Inr (of_int x)" "json_as_int J (json_int J x) = Inr x"
    using assms(1,4,5) by (simp_all add: json_laws_def)
  with same_uptoD(6,7)[OF y(2)] have "json_is_uint J y" "json_is_uint64 J y"
    "json_as_uint J y = Inr (of_int x)" "json_as_int J y = Inr x" by simp_all
  with y(1) show "member_is J u k (json_is_uint J) = Inr True" "member_is J u k (json_is_uint64 J) = Inr True"
    "get_uint J u k = Inr (of_int x)" "\<exists>y. json_get J u k = Inr y \<and> json_as_int J y = Inr x"
    by (simp_all add: member_is_def get_uint_def)
qed

lemma read_string:
  assumes "json_laws J" "reads_object J (Suc n) kvs u" "map_of kvs k = Some (json_string J x)"
  shows "member_is J u k (json_is_string J) = Inr True" "get_string J u k = Inr x"
proof -
  obtain y where y: "json_get J u k = Inr y" "same_upto J (Suc n) (json_string J x) y"
    using read_member(2)[OF assms(2), of k] assms(3) by auto
  have "json_is_string J (json_string J x)" "json_as_string J (json_string J x) = Inr x"
    using assms(1) by (simp_all add: json_laws_def)
  with same_uptoD(8)[OF y(2)] have "json_is_string J y" "json_as_string J y = Inr x" by simp_all
  with y(1) show "member_is J u k (json_is_string J) = Inr True" "get_string J u k = Inr x"
    by (simp_all add: member_is_def get_string_def)
qed

lemma read_array:
  assumes "json_laws J" "reads_object J (Suc n) kvs u" "map_of kvs k = Some (array_of J xs)" "xs \<noteq> []"
  shows "member_is J u k (json_is_array J) = Inr True"
    "\<exists>y. json_get J u k = Inr y \<and> json_size J y = length xs \<and>
       (\<forall>i<length xs. \<exists>z. json_at J y i = Inr z \<and> same_upto J n (xs ! i) z)"
proof -
  obtain y where y: "json_get J u k = Inr y" "same_upto J (Suc n) (array_of J xs) y"
    using read_member(2)[OF assms(2), of k] assms(3) by auto
  have "json_is_array J (array_of J xs)" "json_size J (array_of J xs) = length xs"
    "\<forall>i<length xs. json_at J (array_of J xs) i = Inr (xs ! i)"
    using assms(1,4) by (simp_all add: json_laws_def)
  with same_uptoD(3,4,5)[OF y(2)] have "json_is_array J y" "json_size J y = length xs"
    "\<forall>i<length xs. \<exists>z. json_at J y i = Inr z \<and> same_upto J n (xs ! i) z" by simp_all
  with y(1) show "member_is J u k (json_is_array J) = Inr True"
    "\<exists>y. json_get J u k = Inr y \<and> json_size J y = length xs \<and>
       (\<forall>i<length xs. \<exists>z. json_at J y i = Inr z \<and> same_upto J n (xs ! i) z)"
    by (simp_all add: member_is_def)
qed

lemma read_strings_all:
  assumes "json_laws J" "\<forall>i<length xs. \<exists>z. json_at J y i = Inr z \<and> same_upto J (Suc n) (json_string J (xs ! i)) z"
    "set is \<subseteq> {..<length xs}"
  shows "read_strings J y is = Inr (map (nth xs) is)"
  using assms(3)
proof (induction "is")
  case (Cons i "is")
  obtain z where z: "json_at J y i = Inr z" "same_upto J (Suc n) (json_string J (xs ! i)) z"
    using assms(2) Cons.prems by auto
  have "json_is_string J (json_string J (xs ! i))" "json_as_string J (json_string J (xs ! i)) = Inr (xs ! i)"
    using assms(1) by (simp_all add: json_laws_def)
  with same_uptoD(8)[OF z(2)] have "json_as_string J z = Inr (xs ! i)" by simp
  then show ?case using z(1) Cons by simp
qed simp

lemma ucast_16 [simp]: "ucast (ucast (m :: u16) :: u32) = m"
  by (rule bit_word_eqI) (auto simp: bit_simps)

lemma uint16_range: "0 \<le> uint (m :: u16)" "uint (m :: u16) < 2 ^ 31"
proof -
  have "uint m < 2 ^ LENGTH(16)" by (rule uint_bounded)
  then show "uint m < 2 ^ 31" by (rule order_less_trans) simp
qed simp

lemma read_int16:
  assumes "json_laws J" "reads_object J (Suc n) kvs u" "map_of kvs k = Some (json_int J (uint (m :: u16)))"
  shows "member_is J u k (json_is_uint J) = Inr True" "member_is J u k (json_is_uint64 J) = Inr True"
    "get_uint J u k = Inr (word_of_int (uint m))"
  using read_int[OF assms uint16_range] by simp_all

lemma parse_by_id:
  assumes "json_laws J" "reads_object J (Suc n) kvs u" "map_of kvs ''message_id'' = Some (json_int J i)" "0 \<le> i" "i < 2 ^ 31"
  shows "parse_message J u =
      (if i = 101 then parse_authenticate_request J u
       else if i = 102 then parse_authenticate_response J u
       else if i = 103 then parse_refresh_index_request J u
       else if i = 104 then parse_refresh_index_response J u
       else if i = 105 then parse_notify_available_request J u
       else if i = 106 then parse_sync_request J u
       else if i = 107 then parse_sync_response J u
       else if i = 108 then parse_ping J u
       else Inr None)"
    "json_member J u ''message_id'' = Inr True"
proof -
  show "json_member J u ''message_id'' = Inr True"
    using read_member(1)[OF assms(2)] map_of_SomeD[OF assms(3)] by (force simp: image_iff)
qed (use read_int(4)[OF assms] in \<open>auto simp: parse_message_def\<close>)

lemma parse_simple:
  assumes J: "json_laws J" and m: "same_upto J (Suc (Suc n)) (message_json J m) u"
    and kind: "case m of Refresh_index_response _ _ \<Rightarrow> False | Notify_available_request _ _ _ \<Rightarrow> False
      | Byte_block _ \<Rightarrow> False | _ \<Rightarrow> True"
  shows "parse_message J u = Inr (Some (as_received m)) \<and> json_member J u ''message_id'' = Inr True"
proof (cases m)
  case (Authenticate_request uid did sec)
  let ?kvs = "[(''message_id'', json_int J 101), (''user_id'', json_uint64 J uid),
      (''device_id'', json_uint64 J did), (''secret'', json_uint64 J sec)]"
  have r: "reads_object J (Suc n) ?kvs u"
    using m by (intro reads_object[OF J]) (simp_all add: Authenticate_request message_json_defs)
  show ?thesis
    using parse_by_id[OF J r] read_uint64[OF J r, of "''user_id''" uid] read_uint64[OF J r, of "''device_id''" did]
    by (simp add: Authenticate_request parse_authenticate_request_def when_ok_def read_member(1)[OF r])
next
  case (Sync_response tok ds content k)
  let ?kvs = "[(''message_id'', json_int J 107), (''token'', json_uint64 J tok), (''dataset_id'', json_int J (uint ds)),
      (''content_id'', json_uint64 J (buffer_id content)), (''content_size'', json_uint J (buffer_size content)),
      (''message'', json_int J (uint k))]"
  have r: "reads_object J (Suc n) ?kvs u"
    using m by (intro reads_object[OF J]) (simp_all add: Sync_response message_json_defs)
  show ?thesis
    using parse_by_id[OF J r] read_uint64[OF J r, of "''token''" tok] read_uint64[OF J r, of "''content_id''" "buffer_id content"]
      read_uint[OF J r, of "''content_size''" "buffer_size content"] read_int16[OF J r, of "''dataset_id''" ds]
      read_int16[OF J r, of "''message''" k]
    by (simp add: Sync_response parse_sync_response_def when_ok_def read_member(1)[OF r])
next
  case (Authenticate_response tok k)
  let ?kvs = "[(''message_id'', json_int J 102), (''token'', json_uint64 J tok), (''message'', json_int J (uint k))]"
  have r: "reads_object J (Suc n) ?kvs u"
    using m by (intro reads_object[OF J]) (simp_all add: Authenticate_response message_json_defs)
  show ?thesis
    using parse_by_id[OF J r] read_uint64[OF J r, of "''token''" tok] read_int16[OF J r, of "''message''" k]
    by (simp add: Authenticate_response parse_authenticate_response_def when_ok_def read_member(1)[OF r])
next
  case (Refresh_index_request tok ds)
  let ?kvs = "[(''message_id'', json_int J 103), (''token'', json_uint64 J tok), (''dataset_id'', json_int J (uint ds))]"
  have r: "reads_object J (Suc n) ?kvs u"
    using m by (intro reads_object[OF J]) (simp_all add: Refresh_index_request message_json_defs)
  show ?thesis
    using parse_by_id[OF J r] read_uint64[OF J r, of "''token''" tok] read_int16[OF J r, of "''dataset_id''" ds]
    by (simp add: Refresh_index_request parse_refresh_index_request_def when_ok_def read_member(1)[OF r])
next
  case (Sync_request tok cid ds)
  let ?kvs = "[(''message_id'', json_int J 106), (''token'', json_uint64 J tok), (''content_id'', json_uint64 J cid),
      (''dataset_id'', json_int J (uint ds))]"
  have r: "reads_object J (Suc n) ?kvs u"
    using m by (intro reads_object[OF J]) (simp_all add: Sync_request message_json_defs)
  show ?thesis
    using parse_by_id[OF J r] read_uint64[OF J r, of "''token''" tok] read_uint64[OF J r, of "''content_id''" cid]
      read_int16[OF J r, of "''dataset_id''" ds]
    by (simp add: Sync_request parse_sync_request_def when_ok_def read_member(1)[OF r])
next
  case (Ping tok)
  let ?kvs = "[(''message_id'', json_int J 108), (''token'', json_uint64 J tok)]"
  have r: "reads_object J (Suc n) ?kvs u"
    using m by (intro reads_object[OF J]) (simp_all add: Ping message_json_defs)
  show ?thesis
    using parse_by_id[OF J r] read_uint64[OF J r, of "''token''" tok]
    by (simp add: Ping parse_ping_def when_ok_def read_member(1)[OF r])
qed (use kind in simp_all)

lemma parse_notify:
  assumes J: "json_laws J" and types: "node_type c \<noteq> []"
    and m: "same_upto J (Suc (Suc (Suc n))) (message_json J (Notify_available_request tok ds c)) u"
  shows "parse_message J u = Inr (Some (as_received (Notify_available_request tok ds c))) \<and>
    json_member J u ''message_id'' = Inr True"
proof -
  let ?types = "map (json_string J) (node_type c)"
  let ?kvs = "[(''message_id'', json_int J 105), (''token'', json_uint64 J tok), (''dataset_id'', json_int J (uint ds)),
      (''content_id'', json_uint64 J (node_id c)), (''content_type'', array_of J ?types),
      (''description'', json_string J (node_description c))]"
  have r: "reads_object J (Suc (Suc n)) ?kvs u"
    using m types by (intro reads_object[OF J]) (simp_all add: type_entry_def message_json_defs)
  obtain y where y: "json_get J u ''content_type'' = Inr y" "json_size J y = length (node_type c)"
    "\<forall>i<length (node_type c). \<exists>z. json_at J y i = Inr z \<and> same_upto J (Suc n) (json_string J (node_type c ! i)) z"
    using read_array(2)[OF J r, of "''content_type''" ?types] types by auto
  have "read_strings J y [0..<length (node_type c)] = Inr (node_type c)"
    using read_strings_all[OF J y(3), of "[0..<length (node_type c)]"] by (simp add: atLeast0LessThan map_nth)
  then show ?thesis
    using parse_by_id[OF J r] read_uint64[OF J r, of "''token''" tok] read_uint64[OF J r, of "''content_id''" "node_id c"]
      read_int16[OF J r, of "''dataset_id''" ds] read_array(1)[OF J r, of "''content_type''" ?types]
      read_string[OF J r, of "''description''" "node_description c"] y(1,2) types
    by (simp add: parse_notify_available_request_def when_ok_def read_member(1)[OF r])
qed

definition index_entry :: "'j json \<Rightarrow> content_node \<Rightarrow> 'j" where
  "index_entry J c = object_of J ([(''id'', json_uint64 J (node_id c))] @ type_entry J (node_type c) @
     [(''description'', json_string J (node_description c))])"

lemma parse_index_all:
  assumes J: "json_laws J" and types: "\<forall>c\<in>set cs. node_type c \<noteq> []"
    and root: "index_types J root = Inr []"
    and items: "\<forall>i<length cs. \<exists>z. json_at J y i = Inr z \<and> same_upto J (Suc (Suc n)) (index_entry J (cs ! i)) z"
    and range: "set is \<subseteq> {..<length cs}"
  shows "parse_index J root y is [] nodes =
    Inr (True, nodes @ map (\<lambda>i. make_node (node_id (cs ! i)) [] (node_description (cs ! i))) is)"
  using range
proof (induction "is" arbitrary: nodes)
  case (Cons i "is")
  let ?c = "cs ! i"
  let ?types = "map (json_string J) (node_type ?c)"
  let ?kvs = "[(''id'', json_uint64 J (node_id ?c)), (''content_type'', array_of J ?types),
      (''description'', json_string J (node_description ?c))]"
  obtain z where z: "json_at J y i = Inr z" "same_upto J (Suc (Suc n)) (index_entry J ?c) z"
    using items Cons.prems by auto
  have t: "node_type ?c \<noteq> []" using types Cons.prems by simp
  have r: "reads_object J (Suc n) ?kvs z"
    using z(2) t by (intro reads_object[OF J]) (simp_all add: index_entry_def type_entry_def)
  show ?case
    using Cons z(1) root t read_uint64[OF J r, of "''id''" "node_id ?c"] read_array(1)[OF J r, of "''content_type''" ?types]
      read_string[OF J r, of "''description''" "node_description ?c"]
    by (simp add: read_member(1)[OF r])
qed simp

lemma parse_index_response:
  assumes J: "json_laws J" and cs: "cs \<noteq> []" "\<forall>c\<in>set cs. node_type c \<noteq> []"
    and m: "same_upto J (Suc (Suc (Suc (Suc n)))) (message_json J (Refresh_index_response cs k)) u"
  shows "parse_message J u = Inr (Some (as_received (Refresh_index_response cs k))) \<and>
    json_member J u ''message_id'' = Inr True"
proof -
  let ?items = "map (index_entry J) cs"
  let ?kvs = "[(''message_id'', json_int J 104), (''message'', json_int J (uint k)), (''contents'', array_of J ?items)]"
  have items: "map (\<lambda>n. object_of J ([(''id'', json_uint64 J (node_id n))] @ type_entry J (node_type n) @
      [(''description'', json_string J (node_description n))])) cs = ?items"
    by (simp add: index_entry_def)
  have r: "reads_object J (Suc (Suc (Suc n))) ?kvs u"
    using m unfolding message_json.simps refresh_index_response_json_def items by (intro reads_object[OF J]) simp_all
  obtain y where y: "json_get J u ''contents'' = Inr y" "json_size J y = length cs"
    "\<forall>i<length cs. \<exists>z. json_at J y i = Inr z \<and> same_upto J (Suc (Suc n)) (index_entry J (cs ! i)) z"
    using read_array(2)[OF J r, of "''contents''" ?items] cs(1) by auto
  obtain t where t: "json_get J u ''content_type'' = Inr t" "same_upto J (Suc (Suc (Suc n))) (json_null J) t"
    using read_member(2)[OF r, of "''content_type''"] by auto
  have "json_size J t = 0" using same_uptoD(3)[OF t(2)] J by (simp add: json_laws_def)
  then have root: "index_types J u = Inr []" using t(1) by (simp add: index_types_def)
  have "map (\<lambda>i. make_node (node_id (cs ! i)) [] (node_description (cs ! i))) [0..<length cs] =
      map (\<lambda>c. make_node (node_id c) [] (node_description c)) cs"
    by (rule nth_equalityI) simp_all
  then have "parse_index J u y [0..<length cs] [] [] = Inr (True, map (\<lambda>c. make_node (node_id c) [] (node_description c)) cs)"
    using parse_index_all[OF J cs(2) root y(3), of "[0..<length cs]" "[]"] by (simp add: atLeast0LessThan)
  then show ?thesis
    using parse_by_id[OF J r] read_int16[OF J r, of "''message''" k] read_array(1)[OF J r, of "''contents''" ?items] y(1,2) cs(1)
    by (simp add: parse_refresh_index_response_def read_member(1)[OF r])
qed

lemma parse_received:
  assumes "json_laws J" "transportable m" "same_upto J 4 (message_json J m) u"
  shows "parse_message J u = Inr (Some (as_received m)) \<and> json_member J u ''message_id'' = Inr True"
proof -
  have d: "same_upto J (Suc (Suc (Suc (Suc 0)))) (message_json J m) u" using assms(3) by (simp add: numeral_eq_Suc)
  show ?thesis
  proof (cases m)
    case (Refresh_index_response cs k)
    then have cs: "cs \<noteq> []" "\<forall>c\<in>set cs. node_type c \<noteq> []" using assms(2) by simp_all
    show ?thesis
      unfolding Refresh_index_response by (rule parse_index_response[OF assms(1) cs d[unfolded Refresh_index_response]])
  next
    case (Notify_available_request tok ds c)
    then have "node_type c \<noteq> []" using assms(2) by simp
    from parse_notify[OF assms(1) this d[unfolded Notify_available_request]] show ?thesis
      unfolding Notify_available_request .
  qed (use assms(2) parse_simple[OF assms(1) d] in \<open>simp_all del: same_upto.simps message_json.simps as_received.simps\<close>)
qed

section \<open>Messages over a socket\<close>

lemma header_round_trip: "try_parse_header (generate_header n) = Some n"
proof -
  have "htons (htons n) = n" by (rule bit_word_eqI) (auto simp: htons_def bit_simps)
  moreover have "of_le_bytes (le_bytes 2 v) = v" for v :: u16 by (rule of_le_bytes_le_bytes) simp
  ultimately show ?thesis by (simp add: try_parse_header_def generate_header_def)
qed

lemma length_header [simp]: "length (generate_header n) = 2"
  by (simp add: generate_header_def)

lemma receive_all_ready:
  assumes "recv_law sys stream" "recv_ready sys stream" "length bs < 2 ^ 32" "stream (fd sk) w = bs @ rest" "error_code sk = 0"
  shows "\<exists>w'. receive_all sys (length bs) sk w = (bs, 0, sk\<lparr>interrupted := (bs = [])\<rparr>, w') \<and> stream (fd sk) w' = rest"
proof -
  obtain cs success block w' where r: "recv_loop sys (fd sk) (length bs) [] 0 w = ([] @ cs, success, block, w')"
    "length cs \<le> length bs" "stream (fd sk) w = cs @ stream (fd sk) w'" "success \<longleftrightarrow> length cs = length bs"
    "block = 0 \<longleftrightarrow> length cs < length bs \<or> length bs = 0 \<and> (0 :: nat) = 0"
    "recv_ready sys stream \<longrightarrow> length bs \<le> length (stream (fd sk) w) \<longrightarrow> success"
    using recv_loop_result[OF assms(1,3), of "fd sk" "[]" 0 w] by (elim exE conjE) (rule that)
  have "success" using r(6) assms(2,4) by simp
  then have len: "length cs = length bs" using r(4) by simp
  moreover have "cs @ stream (fd sk) w' = bs @ rest" using r(3) assms(4) by simp
  ultimately have "cs = bs" "stream (fd sk) w' = rest" by simp_all
  moreover have "block = 0 \<longleftrightarrow> bs = []" using r(5) len by simp
  ultimately show ?thesis using r(1) \<open>success\<close> assms(5) by (simp add: receive_all_def with_error_def)
qed

lemma generate_message_fits:
  assumes "0 < length (json_write J (message_json J m))" "length (json_write J (message_json J m)) \<le> msg_buffer_size"
  shows "generate_message J msg_buffer_size m = json_write J (message_json J m)"
  using assms by (simp add: generate_message_def try_write_message_def)

lemma receive_frame:
  assumes "recv_law sys stream" "recv_ready sys stream" "net_is_open sk" "length payload < 2 ^ 16"
    "stream (fd sk) w = generate_header (of_nat (length payload)) @ payload @ rest"
  shows "\<exists>w'. receive_message sys J sk w =
      (decode_payload J payload, sk\<lparr>interrupted := (payload = [])\<rparr>, w') \<and> stream (fd sk) w' = rest"
proof -
  let ?n = "of_nat (length payload) :: u16"
  let ?sk = "sk\<lparr>interrupted := False\<rparr>"
  have sk: "error_code sk = 0" using assms(3) by (simp add: net_is_open_def)
  have n: "unat ?n = length payload" using assms(4) by (simp add: unat_of_nat_small)
  obtain v where v: "receive_all sys 2 sk w = (generate_header ?n, 0, ?sk, v)" "stream (fd sk) v = payload @ rest"
    using receive_all_ready[OF assms(1,2) _ assms(5) sk] by (auto simp: generate_header_def le_bytes_def)
  obtain w' where w': "receive_all sys (length payload) ?sk v = (payload, 0, ?sk\<lparr>interrupted := (payload = [])\<rparr>, w')"
    "stream (fd sk) w' = rest"
    using receive_all_ready[OF assms(1,2), of payload ?sk v rest] v(2) sk assms(4) by auto
  show ?thesis
    using assms(3) v(1) w' n
    by (simp add: receive_message_def header_round_trip)
qed

lemma send_short:
  assumes "net_is_open sk" "\<forall>h bs w. fst (sys_send sys h bs w) = 1"
    and "generate_message J msg_buffer_size m = payload"
  shows "generic_send sys J m sk w =
    Some (0, sk, snd (sys_send sys (fd sk) (generate_header (of_nat (length payload))) w))"
proof -
  let ?h = "generate_header (of_nat (length payload))"
  have "first_bytes ?h = ?h" by (rule first_bytes_id) simp
  moreover obtain w' where "sys_send sys (fd sk) ?h w = (1, w')" using assms(2) by (metis prod.collapse)
  ultimately show ?thesis
    using assms(1,3) by (simp add: generic_send_def socket_send_def try_send_def with_error_def net_is_open_def Let_def)
qed

lemma send_frame:
  assumes "send_law sys taken" "net_is_open sk" "length payload < 2 ^ 32"
    "generate_message J msg_buffer_size m = payload"
    "\<forall>h bs w. 0 \<le> fst (sys_send sys h bs w)" "\<forall>h bs w. length bs = 2 \<longrightarrow> fst (sys_send sys h bs w) = 2"
  shows "\<exists>w'. generic_send sys J m sk w = Some (0, sk, w') \<and>
    taken (fd sk) w' = taken (fd sk) w @ generate_header (of_nat (length payload)) @ payload"
proof -
  let ?h = "generate_header (of_nat (length payload))"
  have sk: "error_code sk = 0" using assms(2) by (simp add: net_is_open_def)
  obtain ok k v where t: "try_send sys (fd sk) ?h w = (ok, k, v)" by (cases "try_send sys (fd sk) ?h w")
  have "fst (sys_send sys (fd sk) ?h w) = 2" using assms(6) by simp
  then have "ok" "k = 2" using t by (auto simp: try_send_def first_bytes_id split: prod.splits)
  then have v: "taken (fd sk) v = taken (fd sk) w @ ?h" "socket_send sys ?h sk w = (2, 0, sk, v)"
    using try_send_law(1)[OF assms(1) _ t] t sk by (simp_all add: socket_send_def with_error_def)
  obtain n success w' where r: "send_loop sys (fd sk) payload 0 v = Some (0 + n, success, w')" "n \<le> length payload"
    "taken (fd sk) w' = taken (fd sk) v @ take n payload" "success \<longleftrightarrow> n = length payload"
    "(\<forall>h bs w. 0 \<le> fst (sys_send sys h bs w)) \<longrightarrow> success"
    using send_loop_result[OF assms(1,3)] by blast
  have "success" using r(5) assms(5) by blast
  then have "send_all sys payload sk v = Some (length payload, 0, sk, w')"
    using r sk by (simp add: send_all_def with_error_def)
  then show ?thesis using v r \<open>success\<close> assms(2,4) by (simp add: generic_send_def Let_def)
qed

section \<open>A library and a network for examples\<close>

text \<open>Values are trees; the text of a value stands for the one value the example writes.\<close>

datatype tree_value = V_null | V_number int | V_string string | V_array "tree_value list" | V_object "string \<Rightarrow> tree_value option"

fun set_value :: "tree_value \<Rightarrow> string \<Rightarrow> tree_value \<Rightarrow> tree_value" where
  "set_value (V_object m) k v = V_object (m(k \<mapsto> v))"
| "set_value _ k v = V_object [k \<mapsto> v]"

fun append_value :: "tree_value \<Rightarrow> tree_value \<Rightarrow> tree_value" where
  "append_value (V_array xs) v = V_array (xs @ [v])"
| "append_value _ v = V_array [v]"

fun member_value :: "tree_value \<Rightarrow> string \<Rightarrow> bool outcome" where
  "member_value (V_object m) k = Inr (m k \<noteq> None)"
| "member_value V_null k = Inr False"
| "member_value _ k = Inl Assertion_failed"

fun get_value :: "tree_value \<Rightarrow> string \<Rightarrow> tree_value outcome" where
  "get_value (V_object m) k = Inr (case m k of Some v \<Rightarrow> v | None \<Rightarrow> V_null)"
| "get_value V_null k = Inr V_null"
| "get_value _ k = Inl Assertion_failed"

fun array_items :: "tree_value \<Rightarrow> tree_value list" where
  "array_items (V_array xs) = xs"
| "array_items _ = []"

fun number_of :: "tree_value \<Rightarrow> int outcome" where
  "number_of (V_number n) = Inr n"
| "number_of _ = Inl Assertion_failed"

fun is_number_below :: "int \<Rightarrow> tree_value \<Rightarrow> bool" where
  "is_number_below b (V_number n) \<longleftrightarrow> 0 \<le> n \<and> n < b"
| "is_number_below b _ \<longleftrightarrow> False"

fun string_of :: "tree_value \<Rightarrow> string outcome" where
  "string_of (V_string s) = Inr s"
| "string_of _ = Inl Assertion_failed"

definition tree_json :: "u8 list \<Rightarrow> tree_value \<Rightarrow> tree_value json" where
  "tree_json text root = \<lparr>json_null = V_null, json_uint64 = (\<lambda>n. V_number (uint n)), json_uint = (\<lambda>n. V_number (uint n)),
     json_int = V_number, json_string = V_string, json_set = set_value, json_append = append_value,
     json_member = member_value, json_get = get_value, json_size = (\<lambda>v. length (array_items v)),
     json_at = (\<lambda>v i. checked_nth (array_items v) i), json_is_uint64 = is_number_below (2 ^ 64),
     json_is_uint = is_number_below (2 ^ 32), json_is_string = (\<lambda>v. string_of v \<noteq> Inl Assertion_failed),
     json_is_array = (\<lambda>v. case v of V_array xs \<Rightarrow> True | _ \<Rightarrow> False),
     json_as_uint64 = (\<lambda>v. and_then (number_of v) (\<lambda>n. Inr (of_int n))),
     json_as_uint = (\<lambda>v. and_then (number_of v) (\<lambda>n. Inr (of_int n))), json_as_int = number_of,
     json_as_string = string_of, json_write = (\<lambda>v. text), json_parse = (\<lambda>bs. if bs = text then Some root else None)\<rparr>"

lemma tree_object: "distinct (map fst kvs) \<Longrightarrow> kvs \<noteq> [] \<Longrightarrow> object_of (tree_json t r) kvs = V_object (map_of kvs)"
proof (induction kvs rule: rev_induct)
  case (snoc kv kvs)
  obtain k v where kv: "kv = (k, v)" by fastforce
  have step: "object_of (tree_json t r) (kvs @ [kv]) = set_value (object_of (tree_json t r) kvs) k v"
    by (simp add: object_of_def kv tree_json_def)
  show ?case
  proof (cases "kvs = []")
    case True
    then show ?thesis unfolding step by (simp add: kv fun_eq_iff) (simp add: object_of_def tree_json_def fun_eq_iff)
  next
    case False
    then have "object_of (tree_json t r) kvs = V_object (map_of kvs)" using snoc by simp
    moreover have "map_of kvs k = None" using snoc.prems(1) by (simp add: kv map_of_eq_None_iff)
    then have "(map_of kvs)(k \<mapsto> v) = map_of (kvs @ [kv])"
      by (auto simp: kv map_add_def fun_eq_iff split: option.split)
    ultimately show ?thesis by (simp add: step)
  qed
qed simp

lemma tree_array: "xs \<noteq> [] \<Longrightarrow> array_of (tree_json t r) xs = V_array xs"
proof (induction xs rule: rev_induct)
  case (snoc x xs)
  have "array_of (tree_json t r) (xs @ [x]) = append_value (array_of (tree_json t r) xs) x"
    by (simp add: array_of_def tree_json_def)
  then show ?case using snoc by (cases "xs = []") (simp_all add: array_of_def tree_json_def)
qed simp

lemma tree_json_laws: "json_laws (tree_json t r)"
proof -
  let ?J = "tree_json t r"
  have obj: "json_member ?J (object_of ?J kvs) k = Inr (k \<in> fst ` set kvs) \<and>
      json_get ?J (object_of ?J kvs) k = Inr (case map_of kvs k of Some v \<Rightarrow> v | None \<Rightarrow> json_null ?J)"
    if "distinct (map fst kvs)" for kvs k
  proof (cases "kvs = []")
    case True
    then show ?thesis by (simp add: object_of_def tree_json_def)
  next
    case False
    have "json_member ?J = member_value" "json_get ?J = get_value" "json_null ?J = V_null"
      by (simp_all add: tree_json_def)
    then show ?thesis
      using tree_object[OF that False, of t r] by (simp add: dom_map_of_conv_image_fst[symmetric] domIff cong: option.case_cong)
  qed
  have arr: "json_is_array ?J (array_of ?J xs) \<and> json_size ?J (array_of ?J xs) = length xs \<and>
      (\<forall>i<length xs. json_at ?J (array_of ?J xs) i = Inr (xs ! i))" if "xs \<noteq> []" for xs
    using tree_array[OF that, of t r] by (simp add: tree_json_def)
  have "0 \<le> uint n \<and> uint n < 2 ^ 64" for n :: u64 using uint_bounded[of n] by simp
  moreover have "0 \<le> uint n \<and> uint n < 2 ^ 32" for n :: u32 using uint_bounded[of n] by simp
  ultimately show ?thesis using obj arr by (simp add: json_laws_def) (simp add: tree_json_def)
qed

lemma same_upto_refl: "same_upto J n v v"
  by (induction n arbitrary: v) auto

text \<open>The receives of the server's model are those of the sockets: what \<open>receive_all\<close> does over the system
  calls is what \<open>receive_into\<close> does for some result of the network, and so for the first half of
  \<open>dispatch\<close>.\<close>

definition socket_matches :: "socket \<Rightarrow> net_socket \<Rightarrow> bool" where
  "socket_matches sk ns \<longleftrightarrow> (handle sk \<noteq> None \<longleftrightarrow> fd ns \<noteq> invalid_handle) \<and> socket_error sk = error_code ns \<and>
     recv_interrupt sk = interrupted ns"

lemma receive_all_into:
  assumes "recv_law sys stream" "n < 2 ^ 32" "sockets s a = Some sk" "socket_matches sk ns"
  shows "\<exists>bs e ns' w' sk' r. receive_all sys n ns w = (bs, e, ns', w') \<and>
    receive_into a n r s = Inr (e, bs, s\<lparr>sockets := (sockets s)(a \<mapsto> sk')\<rparr>) \<and> socket_matches sk' ns'"
proof -
  obtain bs success block w' where r: "recv_loop sys (fd ns) n [] 0 w = (bs, success, block, w')"
    "length bs \<le> n" "success \<longleftrightarrow> length bs = n" "block = 0 \<longleftrightarrow> length bs < n \<or> n = 0"
    using recv_loop_result[OF assms(1,2), of "fd ns" "[]" 0 w] by auto
  let ?ns = "(if success then ns else load_last_error_code sys w' ns)\<lparr>interrupted := (block = 0)\<rparr>"
  let ?sk = "if length bs = n then sk\<lparr>recv_interrupt := (n = 0)\<rparr>
    else sk\<lparr>socket_error := sys_errno sys w', recv_interrupt := True\<rparr>"
  have "receive_all sys n ns w = (bs, error_code ?ns, ?ns, w')"
    using r(1) by (simp add: receive_all_def with_error_def Let_def)
  moreover have m: "socket_matches ?sk ?ns"
    using r(2-4) assms(4) by (auto simp: socket_matches_def load_last_error_code_def)
  moreover have "receive_into a n (sys_errno sys w', bs) s =
      Inr (error_code ?ns, bs, s\<lparr>sockets := (sockets s)(a \<mapsto> ?sk)\<rparr>)"
    using r(2) assms(3) m by (cases "length bs = n") (simp_all add: receive_into_def socket_at_def socket_matches_def)
  ultimately show ?thesis by blast
qed

theorem receive_request_simulates:
  assumes "recv_law sys stream" "sockets s a = Some sk" "socket_matches sk ns"
    and "receive_message sys J ns w = (Inr m, ns', w')"
  shows "\<exists>header payload t sk'. receive_request (decode_payload J) a header payload s = Inr (m, t) \<and>
    t = s\<lparr>sockets := (sockets s)(a \<mapsto> sk')\<rparr> \<and> socket_matches sk' ns'"
proof (cases "is_open sk")
  case False
  then have "\<not> net_is_open ns" using assms(3) by (auto simp: is_open_def net_is_open_def socket_matches_def)
  then have "m = None" "ns' = ns" using assms(4) by (simp_all add: receive_message_def)
  then show ?thesis using False assms(2,3)
    by (intro exI[of _ "(0, [])"] exI[of _ s] exI[of _ sk]) (simp add: receive_request_def socket_at_def fun_upd_idem)
next
  case True
  then have op: "net_is_open ns" using assms(3) by (auto simp: is_open_def net_is_open_def socket_matches_def)
  obtain hdr e n1 w1 sk1 r1 where h: "receive_all sys 2 ns w = (hdr, e, n1, w1)"
    "receive_into a 2 r1 s = Inr (e, hdr, s\<lparr>sockets := (sockets s)(a \<mapsto> sk1)\<rparr>)" "socket_matches sk1 n1"
    using receive_all_into[OF assms(1) _ assms(2,3), of 2 w] by auto
  let ?s1 = "s\<lparr>sockets := (sockets s)(a \<mapsto> sk1)\<rparr>"
  show ?thesis
  proof (cases "e \<noteq> 0 \<or> length hdr \<noteq> 2 \<or> try_parse_header hdr = None")
    case stop: True
    then have "m = None" "ns' = n1"
      using assms(4) h(1) op by (auto simp: receive_message_def split: if_splits)
    moreover have "receive_request (decode_payload J) a r1 p s = Inr (None, ?s1)" for p
      using stop h(2) True assms(2) by (auto simp: receive_request_def socket_at_def)
    ultimately show ?thesis using h(3) by blast
  next
    case go: False
    then obtain k where k: "e = 0" "length hdr = 2" "try_parse_header hdr = Some k" by auto
    have "unat k < 2 ^ 32" using unsigned_less[of k, where ?'a = nat] by simp
    then obtain bs d n2 w2 sk2 r2 where p: "receive_all sys (unat k) n1 w1 = (bs, d, n2, w2)"
      "receive_into a (unat k) r2 ?s1 = Inr (d, bs, ?s1\<lparr>sockets := (sockets ?s1)(a \<mapsto> sk2)\<rparr>)" "socket_matches sk2 n2"
      using receive_all_into[OF assms(1) _ _ h(3), of "unat k" ?s1 a w1] by auto
    have "ns' = n2" "(if d \<noteq> 0 \<or> length bs \<noteq> unat k then Inr None else decode_payload J bs) = Inr m"
      using assms(4) h(1) p(1) k op by (auto simp: receive_message_def split: if_splits)
    moreover from this have "receive_request (decode_payload J) a r1 r2 s = Inr (m, ?s1\<lparr>sockets := (sockets ?s1)(a \<mapsto> sk2)\<rparr>)"
      using h(2) p(2) k True assms(2) by (auto simp: receive_request_def socket_at_def split: if_splits)
    ultimately show ?thesis using p(3) by (intro exI[of _ r1] exI[of _ r2]) auto
  qed
qed

text \<open>A network of small blocks: a send takes at most three bytes, a receive gives at most two.\<close>

definition small_blocks :: "(u8 list \<times> u8 list) system_calls" where
  "small_blocks = \<lparr>sys_errno = (\<lambda>_. 11), sys_socket = (\<lambda>_ _ _ w. (3, w)), sys_close = (\<lambda>_ w. (0, w)),
     sys_bind = (\<lambda>_ _ w. (0, w)), sys_connect = (\<lambda>_ _ w. (0, w)), sys_listen = (\<lambda>_ _ w. (0, w)),
     sys_accept = (\<lambda>_ w. (4, w)), sys_setsockopt = (\<lambda>_ _ _ _ w. (0, w)),
     sys_getsockname = (\<lambda>_ w. (0, \<lparr>sin_family = 2, sin_port = 0, sin_addr = 0\<rparr>, w)),
     sys_getpeername = (\<lambda>_ w. (0, \<lparr>sin_family = 2, sin_port = 0, sin_addr = 0\<rparr>, w)),
     sys_send = (\<lambda>_ bs (out, inp). (int (min 3 (length bs)), out @ take 3 bs, inp)),
     sys_sendto = (\<lambda>_ _ bs w. (int (length bs), w)),
     sys_recv = (\<lambda>_ n (out, inp). let k = min 2 (min n (length inp))
        in (if k = 0 then - 1 else int k, take k inp, out, drop k inp)),
     sys_recvfrom = (\<lambda>_ _ w. (- 1, [], \<lparr>sin_family = 2, sin_port = 0, sin_addr = 0\<rparr>, w))\<rparr>"

lemma small_blocks_laws:
  "send_law small_blocks (\<lambda>_. fst)" "recv_law small_blocks (\<lambda>_. snd)" "recv_ready small_blocks (\<lambda>_. snd)"
  "\<forall>h bs w. 0 \<le> fst (sys_send small_blocks h bs w)"
  "\<forall>h bs w. length bs = 2 \<longrightarrow> fst (sys_send small_blocks h bs w) = 2"
  by (auto simp: send_law_def recv_law_def recv_ready_def small_blocks_def Let_def min_def)

definition open_socket :: net_socket where
  "open_socket = \<lparr>fd = 5, kind = Tcp, error_code = 0, interrupted = False\<rparr>"

lemma open_socket_open: "net_is_open open_socket"
  by (simp add: net_is_open_def open_socket_def invalid_handle_def)

lemma send_loop_stuck:
  assumes "send_loop sys h bs d v = Some x"
  shows "(\<forall>h bs w. sys_send sys h bs w = (0, w)) \<longrightarrow> bs = []"
proof (rule send_loop.raw_induct[OF _ assms, of "\<lambda>sys h bs d v x. (\<forall>h bs w. sys_send sys h bs w = (0, w)) \<longrightarrow> bs = []"],
    intro impI)
  fix loop :: "'a system_calls \<Rightarrow> int \<Rightarrow> u8 list \<Rightarrow> nat \<Rightarrow> 'a \<Rightarrow> (nat \<times> bool \<times> 'a) option" and sys h buf d w x
  assume IH: "\<And>sys h buf d w y. loop sys h buf d w = Some y \<Longrightarrow> (\<forall>h bs w. sys_send sys h bs w = (0, w)) \<longrightarrow> buf = []"
    and step: "(if buf = [] then Some (d, True, w)
      else if fst (try_send sys h buf w)
      then loop sys h (drop (fst (snd (try_send sys h buf w))) buf) (d + fst (snd (try_send sys h buf w)))
             (snd (snd (try_send sys h buf w)))
      else Some (d, False, snd (snd (try_send sys h buf w)))) = Some x"
    and stuck: "\<forall>h bs w. sys_send sys h bs w = (0, w)"
  show "buf = []"
  proof (rule ccontr)
    assume "buf \<noteq> []"
    then have "loop sys h buf d w = Some x" using step stuck by (simp add: try_send_def)
    then show False using IH stuck \<open>buf \<noteq> []\<close> by blast
  qed
qed

section \<open>Properties\<close>

text \<open>C9: A message that fits the buffer is delivered over kernels that do not fail. The kernel of the
  sender takes blocks of any sizes, but for the two bytes of a header, which it must take in one call: the
  send of the header is not repeated, and when only one of its bytes is taken, nothing else is sent and no error is
  reported. Then sending terminates without an error, and a receiver that finds the bytes on its stream,
  which its kernel gives in blocks of any sizes, gets the message and nothing of what follows it. Of an
  authentication the secret is lost, of an index the types of its contents, and of a content its bytes and
  devices. An index without contents and a content without a type, whose lists are never written, are not among
  the messages of the theorem, and neither is a block of bytes, which is not sent as a message. What the JSON
  library writes is assumed to be read back as the value it was written from.\<close>

theorem message_delivered:
  assumes "json_laws J" "reads_back J (message_json J m)" "transportable m"
    "0 < length (json_write J (message_json J m))" "length (json_write J (message_json J m)) \<le> msg_buffer_size"
    "send_law here taken" "\<forall>h bs w. 0 \<le> fst (sys_send here h bs w)"
    "\<forall>h bs w. length bs = 2 \<longrightarrow> fst (sys_send here h bs w) = 2"
    "recv_law there stream" "recv_ready there stream" "net_is_open a" "net_is_open b"
    "\<forall>h bs w. fst (sys_send short h bs w) = 1"
  shows "\<exists>w' out. generic_send here J m a w = Some (0, a, w') \<and> taken (fd a) w' = taken (fd a) w @ out \<and>
    (\<forall>v rest. stream (fd b) v = out @ rest \<longrightarrow>
      (\<exists>v'. receive_message there J b v = (Inr (Some (as_received m)), b\<lparr>interrupted := False\<rparr>, v') \<and>
        stream (fd b) v' = rest)) \<and>
    generic_send short J m a q = Some (0, a, snd (sys_send short (fd a) (take 2 out) q))"
proof -
  let ?payload = "json_write J (message_json J m)"
  have small: "length ?payload < 2 ^ 32" "length ?payload < 2 ^ 16" and ne: "?payload \<noteq> []"
    using assms(4,5) by (auto simp: msg_buffer_size_def)
  obtain w' where w': "generic_send here J m a w = Some (0, a, w')"
    "taken (fd a) w' = taken (fd a) w @ generate_header (of_nat (length ?payload)) @ ?payload"
    using send_frame[OF assms(6,11) small(1) generate_message_fits[OF assms(4,5)] assms(7,8)] by blast
  obtain u where u: "json_parse J ?payload = Some u" "same_upto J 4 (message_json J m) u"
    using assms(2) by (auto simp: reads_back_def)
  have "\<exists>v'. receive_message there J b v = (Inr (Some (as_received m)), b\<lparr>interrupted := False\<rparr>, v') \<and> stream (fd b) v' = rest"
    if "stream (fd b) v = (generate_header (of_nat (length ?payload)) @ ?payload) @ rest" for v rest
    using receive_frame[OF assms(9,10,12) small(2), of v rest J] that ne parse_received[OF assms(1,3) u(2)] u(1)
    by (simp add: decode_payload_def try_read_message_def)
  moreover have "generic_send short J m a q =
      Some (0, a, snd (sys_send short (fd a) (generate_header (of_nat (length ?payload))) q))"
    by (rule send_short[OF assms(11,13) generate_message_fits[OF assms(4,5)]])
  ultimately show ?thesis using w'
    by (intro exI[of _ w'] exI[of _ "generate_header (of_nat (length ?payload)) @ ?payload"]) auto
qed

theorem message_delivered_witness:
  "\<exists>w' v'. generic_send small_blocks (tree_json [123, 125, 10] (V_object
      [''message_id'' \<mapsto> V_number 108, ''token'' \<mapsto> V_number 77])) (Ping 77) open_socket ([], []) = Some (0, open_socket, w') \<and>
    receive_message small_blocks (tree_json [123, 125, 10] (V_object
      [''message_id'' \<mapsto> V_number 108, ''token'' \<mapsto> V_number 77])) open_socket ([], fst w') =
      (Inr (Some (Ping 77)), open_socket, v')"
proof -
  let ?J = "tree_json [123, 125, 10] (V_object [''message_id'' \<mapsto> V_number 108, ''token'' \<mapsto> V_number 77])"
  have "message_json ?J (Ping 77) = V_object (map_of [(''message_id'', V_number 108), (''token'', V_number 77)])"
    using tree_object[of "[(''message_id'', V_number 108), (''token'', V_number 77)]"] by (simp add: tree_json_def ping_json_def)
  moreover have "map_of [(''message_id'', V_number 108), (''token'', V_number 77)] =
      [''message_id'' \<mapsto> V_number 108, ''token'' \<mapsto> V_number 77]"
    by (auto simp: fun_eq_iff)
  ultimately have r: "reads_back ?J (message_json ?J (Ping 77))"
    using same_upto_refl by (simp add: reads_back_def) (simp add: tree_json_def)
  have w: "json_write ?J (message_json ?J (Ping 77)) = [123, 125, 10]" by (simp add: tree_json_def)
  let ?short = "small_blocks\<lparr>sys_send := \<lambda>_ _ w. (1, w)\<rparr>"
  have short: "\<forall>h bs w. fst (sys_send ?short h bs w) = 1" by simp
  have same: "open_socket\<lparr>interrupted := False\<rparr> = open_socket" by (simp add: open_socket_def)
  have p: "transportable (Ping 77)" "0 < length (json_write ?J (message_json ?J (Ping 77)))"
    "length (json_write ?J (message_json ?J (Ping 77))) \<le> msg_buffer_size"
    by (simp_all only: w msg_buffer_size_def transportable.simps list.size)
  obtain w' out where d: "generic_send small_blocks ?J (Ping 77) open_socket ([], []) = Some (0, open_socket, w')"
    "fst w' = fst ([], [] :: u8 list) @ out" "\<forall>v rest. snd v = out @ rest \<longrightarrow>
      (\<exists>v'. receive_message small_blocks ?J open_socket v =
        (Inr (Some (as_received (Ping 77))), open_socket\<lparr>interrupted := False\<rparr>, v') \<and> snd v' = rest)"
    using message_delivered[OF tree_json_laws r p small_blocks_laws(1,4,5,2,3) open_socket_open open_socket_open short,
        where w = "([], [])" and q = "([], [])"] by (elim exE conjE) (rule that, assumption+)
  then have "snd ([] :: u8 list, fst w') = out @ []" by simp
  then obtain v' where "receive_message small_blocks ?J open_socket ([], fst w') =
        (Inr (Some (as_received (Ping 77))), open_socket\<lparr>interrupted := False\<rparr>, v')"
    using d(3) by blast
  then show ?thesis using d(1) same by auto
qed

text \<open>C11: A message that does not fit the buffer of 4096 bytes is not refused: an empty one is sent in its
  place, without an error, and the receiver, which takes no byte for a payload of size zero, finds
  no message and an interruption without an error, on which a round of \<open>dispatch\<close> of the server closes the
  connection. The kernel of the sender does not fail and takes the two bytes of a header in one call.\<close>

theorem oversized_message_interrupts:
  assumes "msg_buffer_size < length (json_write J (message_json J m))" "json_parse J [] = None"
    "send_law here taken" "\<forall>h bs w. 0 \<le> fst (sys_send here h bs w)"
    "\<forall>h bs w. length bs = 2 \<longrightarrow> fst (sys_send here h bs w) = 2"
    "recv_law there stream" "recv_ready there stream" "net_is_open a" "net_is_open b"
    "sockets s addr = Some sk" "is_open sk"
  shows "\<exists>w'. generic_send here J m a w = Some (0, a, w') \<and> taken (fd a) w' = taken (fd a) w @ [0, 0] \<and>
    (\<forall>v rest. stream (fd b) v = [0, 0] @ rest \<longrightarrow>
      (\<exists>v'. receive_message there J b v = (Inr None, b\<lparr>interrupted := True\<rparr>, v') \<and> error_code b = 0)) \<and>
    dispatch net rand time debug timed_out (decode_payload J) addr (0, [0, 0]) (e, []) s =
      and_then (close_socket net addr (s\<lparr>sockets := (sockets s)(addr \<mapsto> sk\<lparr>recv_interrupt := True\<rparr>)\<rparr>))
        (\<lambda>s. and_then (socket_at addr s) (\<lambda>sk. if socket_error sk \<noteq> 0 then on_error net addr s else Inr s))"
proof -
  have gen: "generate_message J msg_buffer_size m = []"
    using assms(1) by (simp add: generate_message_def try_write_message_def Let_def)
  have hdr: "generate_header (of_nat (length ([] :: u8 list))) @ [] = [0, 0]"
    by (simp add: generate_header_def htons_def le_bytes_def numeral_2_eq_2)
  obtain w' where w': "generic_send here J m a w = Some (0, a, w')" "taken (fd a) w' = taken (fd a) w @ [0, 0]"
    using send_frame[OF assms(3,8) _ gen assms(4,5), of w] hdr by auto
  have "try_parse_header [0, 0] = Some 0"
    by (simp add: try_parse_header_def htons_def)
  then have "receive_request (decode_payload J) addr (0, [0, 0]) (e, []) s =
      Inr (None, s\<lparr>sockets := (sockets s)(addr \<mapsto> sk\<lparr>recv_interrupt := True\<rparr>)\<rparr>)"
    using assms(2,10,11)
    by (auto simp: receive_request_def receive_into_def socket_at_def is_open_def decode_payload_def try_read_message_def)
  then have round: "dispatch net rand time debug timed_out (decode_payload J) addr (0, [0, 0]) (e, []) s =
      and_then (close_socket net addr (s\<lparr>sockets := (sockets s)(addr \<mapsto> sk\<lparr>recv_interrupt := True\<rparr>)\<rparr>))
        (\<lambda>s. and_then (socket_at addr s) (\<lambda>sk. if socket_error sk \<noteq> 0 then on_error net addr s else Inr s))"
    using assms(11) by (simp add: dispatch_def on_interrupt_def socket_at_def is_open_def)
  have "\<exists>v'. receive_message there J b v = (Inr None, b\<lparr>interrupted := True\<rparr>, v')"
    if "stream (fd b) v = [0, 0] @ rest" for v rest
    using receive_frame[OF assms(6,7,9), of "[]" v rest J] that hdr assms(2) by (auto simp: decode_payload_def try_read_message_def)
  then show ?thesis
    using w' assms(9) round by (auto simp: net_is_open_def)
qed

theorem oversized_message_interrupts_witness:
  "\<exists>w'. generic_send small_blocks (tree_json (replicate 5000 32) V_null) (Ping 1) open_socket ([], []) = Some (0, open_socket, w') \<and>
    fst w' = [0, 0]"
proof -
  let ?J = "tree_json (replicate 5000 32) V_null"
  have J: "msg_buffer_size < length (json_write ?J (message_json ?J (Ping 1)))" "json_parse ?J [] = None"
    by (simp_all add: tree_json_def msg_buffer_size_def)
  show ?thesis
    using oversized_message_interrupts[OF J small_blocks_laws(1,4,5,2,3) open_socket_open open_socket_open,
        where w = "([], [])" and s = "server_new\<lparr>sockets := [1 \<mapsto> \<lparr>handle = Some 5, socket_error = 0, recv_interrupt = False\<rparr>]\<rparr>"
          and addr = 1] by (auto simp: is_open_def)
qed

text \<open>\<open>send_all\<close> returns for a kernel that takes at least one byte of each block or fails, and what the kernel
  has then taken is exactly the first bytes of the buffer, as many as it reports, all of them
  if and only if no send failed; for a kernel that takes no byte of some block it never returns.\<close>

theorem send_all_terminates:
  assumes "send_law sys taken" "length buf < 2 ^ 32" "error_code sk = 0"
    "\<forall>h bs w. sys_send stuck h bs w = (0, w)" "bufs \<noteq> []"
  shows "(\<exists>n e sk' w'. send_all sys buf sk w = Some (n, e, sk', w') \<and> n \<le> length buf \<and>
      taken (fd sk) w' = taken (fd sk) w @ take n buf \<and> (n = length buf \<longrightarrow> e = 0) \<and>
      (n < length buf \<longrightarrow> e = sys_errno sys w')) \<and>
    send_all stuck bufs sk w = None"
proof -
  obtain n success w' where r: "send_loop sys (fd sk) buf 0 w = Some (0 + n, success, w')" "n \<le> length buf"
    "taken (fd sk) w' = taken (fd sk) w @ take n buf" "success \<longleftrightarrow> n = length buf"
    using send_loop_result[OF assms(1,2)] by blast
  have "send_loop stuck (fd sk) bufs 0 w = None"
    using send_loop_stuck[of stuck "fd sk" bufs 0 w] assms(4,5) by (metis not_None_eq)
  then show ?thesis
    using r assms(3) by (auto simp: send_all_def with_error_def load_last_error_code_def)
qed

theorem send_all_terminates_witness:
  "\<exists>n e sk' w'. send_all small_blocks [1, 2, 3, 4, 5] open_socket ([9], []) = Some (n, e, sk', w') \<and>
    fst w' = 9 # take n [1, 2, 3, 4, 5]"
proof -
  let ?stuck = "small_blocks\<lparr>sys_send := \<lambda>_ _ w. (0, w)\<rparr>"
  have stuck: "\<forall>h bs w. sys_send ?stuck h bs w = (0, w)" "error_code open_socket = 0" "length [1, 2, 3, 4, 5 :: u8] < 2 ^ 32"
    by (simp_all add: open_socket_def)
  show ?thesis
    using send_all_terminates[OF small_blocks_laws(1) stuck(3,2,1), of "[0]" "([9], [])"] by auto
qed

end
