(* ===== verification/Ex_Graph.thy ===== *)
theory Ex_Graph
  imports Prelude "HOL-Library.Multiset"
begin

text \<open>
  The sparse graph and its traversal of \<open>exercises/graph.cpp\<close>. A traversal is a loop over a fringe of vertices,
  which is a stack or a queue: what it needs of a fringe is the locale \<open>fringe\<close>, interpreted on both. A traversal
  returns and visits exactly the vertices that are reachable from its start. The graph keeps its lists of edges
  sorted, and joining, cutting and looking up edges agree.
\<close>

section \<open>SparseGraph\<close>

record edge =
  edge_vertex :: int
  edge_weight :: int

record sparse_graph =
  adjacent :: "edge list list"
  nedges :: u64

definition int_max :: int where "int_max = 2147483647"

text \<open>The comparison of a vertex, which is signed, with a size, which is not.\<close>

definition below :: "int \<Rightarrow> nat \<Rightarrow> bool" where
  "below v n \<longleftrightarrow> 0 \<le> v \<and> nat v < n"

definition graph_new :: "nat \<Rightarrow> sparse_graph" where
  "graph_new nv = \<lparr>adjacent = replicate nv [], nedges = 0\<rparr>"

definition nvertices :: "sparse_graph \<Rightarrow> nat" where
  "nvertices g = length (adjacent g)"

definition edges_at :: "sparse_graph \<Rightarrow> int \<Rightarrow> edge list outcome" where
  "edges_at g v = (if below v (nvertices g) then Inr (adjacent g ! nat v) else Inl Out_of_bounds)"

definition has_edge :: "sparse_graph \<Rightarrow> int \<Rightarrow> int \<Rightarrow> bool" where
  "has_edge g v w \<longleftrightarrow> below v (nvertices g) \<and> find (\<lambda>e. edge_vertex e = w) (adjacent g ! nat v) \<noteq> None"

definition weight_of :: "sparse_graph \<Rightarrow> int \<Rightarrow> int \<Rightarrow> int" where
  "weight_of g v w =
     (if below v (nvertices g)
      then (case find (\<lambda>e. edge_vertex e = w) (adjacent g ! nat v) of None \<Rightarrow> -1 | Some e \<Rightarrow> edge_weight e)
      else -1)"

definition resize_list :: "'a \<Rightarrow> nat \<Rightarrow> 'a list \<Rightarrow> 'a list" where
  "resize_list x n xs = take n xs @ replicate (n - length xs) x"

fun insert_edge :: "edge \<Rightarrow> edge list \<Rightarrow> edge list" where
  "insert_edge e [] = [e]"
| "insert_edge e (d # ds) = (if edge_vertex d < edge_vertex e then d # insert_edge e ds else e # d # ds)"

text \<open>Vertices below zero compare as numbers above every size: the list of vertices is resized to
  their successor, and the edges of a vertex below zero are not there.\<close>

definition join :: "int \<Rightarrow> int \<Rightarrow> int \<Rightarrow> sparse_graph \<Rightarrow> sparse_graph outcome" where
  "join v w weight g =
     (let m = max v w
      in if \<not> below m (nvertices g) \<and> m = int_max then Inl Undefined
         else if \<not> below m (nvertices g) \<and> m + 1 < 0 then Inl Out_of_range_thrown
         else (let adj = (if below m (nvertices g) then adjacent g else resize_list [] (nat (m + 1)) (adjacent g))
               in if below v (length adj)
                  then Inr \<lparr>adjacent = adj[nat v := insert_edge \<lparr>edge_vertex = w, edge_weight = weight\<rparr> (adj ! nat v)],
                            nedges = nedges g + 1\<rparr>
                  else Inl Out_of_bounds))"

fun erase_edge :: "int \<Rightarrow> edge list \<Rightarrow> edge list" where
  "erase_edge w [] = []"
| "erase_edge w (d # ds) = (if edge_vertex d = w then ds else d # erase_edge w ds)"

definition cut_edge :: "int \<Rightarrow> int \<Rightarrow> sparse_graph \<Rightarrow> sparse_graph" where
  "cut_edge v w g =
     (if has_edge g v w
      then g\<lparr>adjacent := (adjacent g)[nat v := erase_edge w (adjacent g ! nat v)], nedges := nedges g - 1\<rparr>
      else g)"

section \<open>Traversal\<close>

record traversal =
  order :: "int list"
  parent_of :: "int list"
  visited :: "bool list"
  processed :: "bool list"

definition traversal_reset :: "traversal \<Rightarrow> traversal" where
  "traversal_reset t =
     \<lparr>order = map (\<lambda>_. -1) (order t), parent_of = map (\<lambda>_. -1) (parent_of t),
      visited = map (\<lambda>_. False) (visited t), processed = map (\<lambda>_. False) (processed t)\<rparr>"

definition traversal_new :: "sparse_graph \<Rightarrow> traversal" where
  "traversal_new g =
     (let n = nvertices g
      in traversal_reset \<lparr>order = resize_list 0 n [], parent_of = resize_list 0 n [],
           visited = resize_list False n [], processed = resize_list False n []\<rparr>)"

record 'f fringe_type =
  fringe_empty :: 'f
  fringe_size :: "'f \<Rightarrow> nat"
  fringe_next :: "'f \<Rightarrow> int"
  fringe_push :: "int \<Rightarrow> 'f \<Rightarrow> 'f"
  fringe_pop :: "'f \<Rightarrow> 'f"

definition stack_fringe :: "int list fringe_type" where
  "stack_fringe = \<lparr>fringe_empty = [], fringe_size = length, fringe_next = hd, fringe_push = (#), fringe_pop = tl\<rparr>"

definition queue_fringe :: "int list fringe_type" where
  "queue_fringe = \<lparr>fringe_empty = [], fringe_size = length, fringe_next = hd, fringe_push = (\<lambda>v f. f @ [v]),
     fringe_pop = tl\<rparr>"

text \<open>What a traversal calls the visitor and the processor with, in order.\<close>

datatype call = Visit int | Process int

record 'f walk =
  walk_fringe :: 'f
  walk_time :: int
  walk_calls :: "call list"
  walk_traversal :: traversal

definition at_vertex :: "'a list \<Rightarrow> int \<Rightarrow> 'a outcome" where
  "at_vertex xs v = (if below v (length xs) then Inr (xs ! nat v) else Inl Out_of_bounds)"

definition set_vertex :: "'a list \<Rightarrow> int \<Rightarrow> 'a \<Rightarrow> 'a list outcome" where
  "set_vertex xs v x = (if below v (length xs) then Inr (xs[nat v := x]) else Inl Out_of_bounds)"

fun push_edges :: "'f fringe_type \<Rightarrow> int \<Rightarrow> edge list \<Rightarrow> int list \<Rightarrow> 'f \<Rightarrow> (int list \<times> 'f) outcome" where
  "push_edges ft vertex [] parents f = Inr (parents, f)"
| "push_edges ft vertex (e # es) parents f =
     and_then (set_vertex parents (edge_vertex e) vertex) (\<lambda>parents.
     push_edges ft vertex es parents (fringe_push ft (edge_vertex e) f))"

definition expand_vertex :: "'f fringe_type \<Rightarrow> sparse_graph \<Rightarrow> int \<Rightarrow> 'f walk \<Rightarrow> 'f walk outcome" where
  "expand_vertex ft g vertex s =
     (let t = walk_traversal s
      in and_then (set_vertex (visited t) vertex True) (\<lambda>vs.
         and_then (set_vertex (order t) vertex (walk_time s)) (\<lambda>os.
         and_then (edges_at g vertex) (\<lambda>es.
         and_then (push_edges ft vertex es (parent_of t) (walk_fringe s)) (\<lambda>(ps, f).
         Inr \<lparr>walk_fringe = f, walk_time = walk_time s + 1, walk_calls = walk_calls s @ [Visit vertex],
              walk_traversal = t\<lparr>visited := vs, order := os, parent_of := ps\<rparr>\<rparr>)))))"

definition collapse_vertex :: "'f fringe_type \<Rightarrow> int \<Rightarrow> 'f walk \<Rightarrow> 'f walk outcome" where
  "collapse_vertex ft vertex s =
     (let t = walk_traversal s
      in and_then (set_vertex (processed t) vertex True) (\<lambda>ps.
         Inr (s\<lparr>walk_fringe := fringe_pop ft (walk_fringe s), walk_calls := walk_calls s @ [Process vertex],
                walk_traversal := t\<lparr>processed := ps\<rparr>\<rparr>)))"

definition walk_step :: "'f fringe_type \<Rightarrow> sparse_graph \<Rightarrow> 'f walk \<Rightarrow> 'f walk outcome" where
  "walk_step ft g s =
     (let vertex = fringe_next ft (walk_fringe s)
      in and_then (at_vertex (visited (walk_traversal s)) vertex) (\<lambda>seen.
         if \<not> seen then expand_vertex ft g vertex s else collapse_vertex ft vertex s))"

partial_function (option) walk_loop :: "'f fringe_type \<Rightarrow> sparse_graph \<Rightarrow> 'f walk \<Rightarrow> 'f walk outcome option" where
  "walk_loop ft g s =
     (if fringe_size ft (walk_fringe s) > 0
      then (case walk_step ft g s of Inl e \<Rightarrow> Some (Inl e) | Inr s \<Rightarrow> walk_loop ft g s)
      else Some (Inr s))"

definition traverse :: "'f fringe_type \<Rightarrow> sparse_graph \<Rightarrow> int \<Rightarrow> traversal \<Rightarrow> 'f walk outcome option" where
  "traverse ft g start t =
     walk_loop ft g \<lparr>walk_fringe = fringe_push ft start (fringe_empty ft), walk_time = 0, walk_calls = [],
       walk_traversal = t\<rparr>"

section \<open>Lemmas on the graph\<close>

lemma below_simps [simp]: "below (int i) n \<longleftrightarrow> i < n" "\<not> below v 0"
  by (auto simp: below_def)

lemma below_mono: "below v m \<Longrightarrow> m \<le> n \<Longrightarrow> below v n"
  by (simp add: below_def)

lemma resize_list_grow:
  "length xs \<le> n \<Longrightarrow> length (resize_list x n xs) = n"
  "length xs \<le> n \<Longrightarrow> i < n \<Longrightarrow> resize_list x n xs ! i = (if i < length xs then xs ! i else x)"
  by (auto simp: resize_list_def nth_append)

lemma find_insert_edge:
  "find (\<lambda>d. edge_vertex d = w) (insert_edge e es) =
     (if edge_vertex e = w then Some e else find (\<lambda>d. edge_vertex d = w) es)"
  by (induction es) auto

lemma set_insert_edge [simp]: "set (insert_edge e es) = insert e (set es)"
  by (induction es) auto

lemma length_insert_edge [simp]: "length (insert_edge e es) = Suc (length es)"
  by (induction es) auto

lemma sorted_insert_edge: "sorted (map edge_vertex es) \<Longrightarrow> sorted (map edge_vertex (insert_edge e es))"
  by (induction es) auto

lemma erase_insert_edge:
  "sorted (map edge_vertex es) \<Longrightarrow> erase_edge (edge_vertex e) (insert_edge e es) = es"
proof (induction es)
  case (Cons d ds)
  then show ?case by (cases "edge_vertex d < edge_vertex e") auto
qed simp

lemma sorted_erase_edge: "sorted (map edge_vertex es) \<Longrightarrow> sorted (map edge_vertex (erase_edge w es))"
  and set_erase_edge: "set (erase_edge w es) \<subseteq> set es"
  by (induction es) auto

lemma length_erase_edge: "find (\<lambda>d. edge_vertex d = w) es \<noteq> None \<Longrightarrow> Suc (length (erase_edge w es)) = length es"
  by (induction es) (auto split: if_splits)

definition graph_inv :: "sparse_graph \<Rightarrow> bool" where
  "graph_inv g \<longleftrightarrow> (\<forall>es\<in>set (adjacent g). sorted (map edge_vertex es) \<and> (\<forall>e\<in>set es. below (edge_vertex e) (nvertices g))) \<and>
     nedges g = of_nat (sum_list (map length (adjacent g)))"

lemma graph_inv_new: "graph_inv (graph_new n)"
  by (simp add: graph_inv_def graph_new_def sum_list_replicate)

definition grown :: "int \<Rightarrow> sparse_graph \<Rightarrow> edge list list" where
  "grown m g = (if below m (nvertices g) then adjacent g else resize_list [] (nat (m + 1)) (adjacent g))"

lemma grown_nth:
  assumes "0 \<le> m"
  shows "length (grown m g) = max (nvertices g) (Suc (nat m))"
    and "i < length (grown m g) \<Longrightarrow> grown m g ! i = (if i < nvertices g then adjacent g ! i else [])"
proof -
  have "nat (m + 1) = Suc (nat m)" using assms by simp
  then show "length (grown m g) = max (nvertices g) (Suc (nat m))"
    "i < length (grown m g) \<Longrightarrow> grown m g ! i = (if i < nvertices g then adjacent g ! i else [])"
    using assms by (auto simp: grown_def below_def nvertices_def resize_list_grow)
qed

lemma sum_list_resize: "length xs \<le> n \<Longrightarrow> sum_list (map length (resize_list [] n xs)) = sum_list (map length xs)"
  by (simp add: resize_list_def sum_list_replicate)

lemma join_grown:
  assumes "0 \<le> v" "0 \<le> w" "v < int_max" "w < int_max"
  shows "join v w x g = Inr \<lparr>adjacent = (grown (max v w) g)[nat v := insert_edge \<lparr>edge_vertex = w, edge_weight = x\<rparr>
    (grown (max v w) g ! nat v)], nedges = nedges g + 1\<rparr>"
proof -
  have "below v (length (grown (max v w) g))"
    using assms grown_nth(1)[where m = "max v w" and g = g] by (auto simp: below_def)
  moreover have "max v w \<noteq> int_max" "\<not> max v w + 1 < 0" using assms by auto
  ultimately show ?thesis unfolding join_def Let_def grown_def by (simp del: max_less_iff_conj)
qed

lemma sum_list_map_update:
  "i < length xs \<Longrightarrow> sum_list (map f (xs[i := x])) + f (xs ! i) = sum_list (map f xs) + (f x :: nat)"
  by (induction xs arbitrary: i) (auto simp: nth_Cons' less_Suc_eq_0_disj)

lemma join_inv:
  assumes inv: "graph_inv g" and v: "0 \<le> v" "0 \<le> w" "v < int_max" "w < int_max"
    and joined: "join v w x g = Inr g'"
  shows "graph_inv g'" "nvertices g' = max (nvertices g) (Suc (nat (max v w)))"
proof -
  define adj where "adj = grown (max v w) g"
  define e where "e = \<lparr>edge_vertex = w, edge_weight = x\<rparr>"
  have g': "g' = \<lparr>adjacent = adj[nat v := insert_edge e (adj ! nat v)], nedges = nedges g + 1\<rparr>"
    using joined join_grown[OF v] by (simp add: adj_def e_def)
  have len: "length adj = max (nvertices g) (Suc (nat (max v w)))"
    and nth: "\<And>i. i < length adj \<Longrightarrow> adj ! i = (if i < nvertices g then adjacent g ! i else [])"
    using grown_nth[where m = "max v w" and g = g] v by (simp_all add: adj_def)
  have nv: "nat v < length adj" using len v by auto
  show n: "nvertices g' = max (nvertices g) (Suc (nat (max v w)))" by (simp add: nvertices_def g' len)
  have row: "sorted (map edge_vertex (adj ! i)) \<and> (\<forall>e\<in>set (adj ! i). below (edge_vertex e) (length adj))"
    if "i < length adj" for i
  proof (cases "i < nvertices g")
    case True
    then have "adj ! i \<in> set (adjacent g)" using nth[OF that] by (simp add: nvertices_def)
    then have "sorted (map edge_vertex (adj ! i))" "\<forall>e\<in>set (adj ! i). below (edge_vertex e) (nvertices g)"
      using inv unfolding graph_inv_def by blast+
    then show ?thesis using len below_mono by (metis max.cobounded1)
  next
    case False
    then show ?thesis using nth[OF that] by simp
  qed
  have e: "below (edge_vertex e) (length adj)" using len v by (auto simp: e_def below_def)
  have "sorted (map edge_vertex es) \<and> (\<forall>e\<in>set es. below (edge_vertex e) (length adj))" if "es \<in> set (adjacent g')" for es
  proof -
    from that[unfolded in_set_conv_nth] obtain i where "i < length (adjacent g')" "adjacent g' ! i = es" by blast
    then have i: "i < length adj" "es = (if i = nat v then insert_edge e (adj ! i) else adj ! i)"
      by (auto simp: g' nth_list_update)
    then show ?thesis using row[OF i(1)] e by (auto intro: sorted_insert_edge)
  qed
  moreover have "sum_list (map length adj) = sum_list (map length (adjacent g))"
    using sum_list_resize[of "adjacent g"] v by (auto simp: adj_def grown_def below_def nvertices_def)
  then have "sum_list (map length (adjacent g')) = Suc (sum_list (map length (adjacent g)))"
    using sum_list_map_update[OF nv, of length "insert_edge e (adj ! nat v)"] by (simp add: g')
  ultimately show "graph_inv g'" using inv n len by (auto simp: graph_inv_def nvertices_def g')
qed

lemma join_lookups:
  assumes v: "0 \<le> v" "0 \<le> w" "v < int_max" "w < int_max" and joined: "join v w x g = Inr g'"
  shows "weight_of g' a b = (if a = v \<and> b = w then x else weight_of g a b)"
    and "has_edge g' a b \<longleftrightarrow> a = v \<and> b = w \<or> has_edge g a b"
proof -
  define adj where "adj = grown (max v w) g"
  have g': "g' = \<lparr>adjacent = adj[nat v := insert_edge \<lparr>edge_vertex = w, edge_weight = x\<rparr> (adj ! nat v)], nedges = nedges g + 1\<rparr>"
    using joined join_grown[OF v] by (simp add: adj_def)
  have len: "length adj = max (nvertices g) (Suc (nat (max v w)))"
    and nth: "\<And>i. i < length adj \<Longrightarrow> adj ! i = (if i < nvertices g then adjacent g ! i else [])"
    using grown_nth[where m = "max v w" and g = g] v by (simp_all add: adj_def)
  have nv: "nat v < length adj" using len v by auto
  let ?row = "\<lambda>h. if below a (nvertices h) then adjacent h ! nat a else []"
  have row: "?row g' = (if a = v then insert_edge \<lparr>edge_vertex = w, edge_weight = x\<rparr> (?row g) else ?row g)"
  proof (cases "below a (length adj)")
    case True
    then have a: "0 \<le> a" "nat a < length adj" by (simp_all add: below_def)
    have "below a (nvertices g) \<longleftrightarrow> nat a < nvertices g" using a by (simp add: below_def)
    moreover have "nat v = nat a \<longleftrightarrow> a = v" using a v by auto
    moreover have "nvertices g' = length adj" by (simp add: g' nvertices_def)
    moreover have "adjacent g' ! nat a = (if nat v = nat a then insert_edge \<lparr>edge_vertex = w, edge_weight = x\<rparr> (adj ! nat v) else adj ! nat a)"
      using a nv by (simp add: g' nth_list_update)
    ultimately show ?thesis using True nth[OF a(2)] by auto
  next
    case False
    then have "\<not> below a (nvertices g)" "a \<noteq> v" using len v by (auto simp: below_def)
    moreover have "nvertices g' = length adj" by (simp add: g' nvertices_def)
    ultimately show ?thesis using False by simp
  qed
  have weight: "weight_of h a b = (case find (\<lambda>e. edge_vertex e = b) (?row h) of None \<Rightarrow> -1 | Some e \<Rightarrow> edge_weight e)" for h
    by (simp add: weight_of_def)
  have has: "has_edge h a b \<longleftrightarrow> find (\<lambda>e. edge_vertex e = b) (?row h) \<noteq> None" for h
    by (simp add: has_edge_def)
  show "weight_of g' a b = (if a = v \<and> b = w then x else weight_of g a b)"
    unfolding weight row by (simp add: find_insert_edge)
  show "has_edge g' a b \<longleftrightarrow> a = v \<and> b = w \<or> has_edge g a b"
    unfolding has row by (simp add: find_insert_edge)
qed

text \<open>Joining two vertices adds one edge, whose weight is then the one that is looked up, changes the weight of no
  other pair and keeps the lists sorted; cutting takes the edge away again.\<close>

theorem join_then_cut:
  assumes "graph_inv g" "0 \<le> v" "0 \<le> w" "v < int_max" "w < int_max"
  shows "\<exists>g'. join v w x g = Inr g' \<and> graph_inv g' \<and>
    weight_of g' a b = (if a = v \<and> b = w then x else weight_of g a b) \<and>
    (has_edge g' a b \<longleftrightarrow> a = v \<and> b = w \<or> has_edge g a b) \<and>
    cut_edge v w g' = g\<lparr>adjacent := grown (max v w) g\<rparr>"
proof -
  define adj where "adj = grown (max v w) g"
  obtain g' where joined: "join v w x g = Inr g'" using join_grown[OF assms(2-5)] by blast
  then have g': "g' = \<lparr>adjacent = adj[nat v := insert_edge \<lparr>edge_vertex = w, edge_weight = x\<rparr> (adj ! nat v)], nedges = nedges g + 1\<rparr>"
    using join_grown[OF assms(2-5)] by (simp add: adj_def)
  have nth: "length adj = max (nvertices g) (Suc (nat (max v w)))"
    "\<And>i. i < length adj \<Longrightarrow> adj ! i = (if i < nvertices g then adjacent g ! i else [])"
    using grown_nth[where m = "max v w" and g = g] assms(2,3) by (simp_all add: adj_def)
  have nv: "nat v < length adj" using nth assms(2,3) by auto
  have "sorted (map edge_vertex (adj ! nat v))"
    using assms(1) nth nv by (auto simp: graph_inv_def nvertices_def)
  then have "erase_edge w (insert_edge \<lparr>edge_vertex = w, edge_weight = x\<rparr> (adj ! nat v)) = adj ! nat v"
    using erase_insert_edge[of "adj ! nat v" "\<lparr>edge_vertex = w, edge_weight = x\<rparr>"] by simp
  moreover have "has_edge g' v w" using join_lookups(2)[OF assms(2-5) joined] by blast
  ultimately have "cut_edge v w g' = g\<lparr>adjacent := adj\<rparr>"
    using nv by (simp add: cut_edge_def) (simp add: g')
  then show ?thesis
    using joined join_inv[OF assms joined] join_lookups[OF assms(2-5) joined] by (auto simp: adj_def)
qed

section \<open>Fringes\<close>

text \<open>What a traversal relies on: the fringe holds what was pushed, its next element is one of them, and popping
  takes that one.\<close>

locale fringe =
  fixes ft :: "'f fringe_type" and elems :: "'f \<Rightarrow> int multiset"
  assumes elems_empty: "elems (fringe_empty ft) = {#}"
    and size_elems: "fringe_size ft f = size (elems f)"
    and elems_push: "elems (fringe_push ft v f) = add_mset v (elems f)"
    and next_in: "elems f \<noteq> {#} \<Longrightarrow> fringe_next ft f \<in># elems f"
    and elems_pop: "elems f \<noteq> {#} \<Longrightarrow> elems (fringe_pop ft f) = elems f - {#fringe_next ft f#}"

definition successors :: "sparse_graph \<Rightarrow> int \<Rightarrow> int set" where
  "successors g v = (if below v (nvertices g) then edge_vertex ` set (adjacent g ! nat v) else {})"

definition reach :: "sparse_graph \<Rightarrow> int \<Rightarrow> int set" where
  "reach g start = {v. (\<lambda>a b. b \<in> successors g a)\<^sup>*\<^sup>* start v}"

lemma reach_start: "start \<in> reach g start" by (simp add: reach_def)

lemma reach_step: "v \<in> reach g start \<Longrightarrow> w \<in> successors g v \<Longrightarrow> w \<in> reach g start"
  by (auto simp: reach_def intro: rtranclp.rtrancl_into_rtrancl)

lemma reach_least:
  assumes "start \<in> S" "\<And>v w. v \<in> S \<Longrightarrow> w \<in> successors g v \<Longrightarrow> w \<in> S"
  shows "reach g start \<subseteq> S"
proof
  fix v assume "v \<in> reach g start"
  then have "(\<lambda>a b. b \<in> successors g a)\<^sup>*\<^sup>* start v" by (simp add: reach_def)
  then show "v \<in> S" by (induction) (use assms in auto)
qed

definition marked :: "bool list \<Rightarrow> int set" where
  "marked bs = {v. below v (length bs) \<and> bs ! nat v}"

definition visits :: "call list \<Rightarrow> int list" where
  "visits cs = List.map_filter (\<lambda>c. case c of Visit v \<Rightarrow> Some v | Process _ \<Rightarrow> None) cs"

definition processes :: "call list \<Rightarrow> int list" where
  "processes cs = List.map_filter (\<lambda>c. case c of Visit _ \<Rightarrow> None | Process v \<Rightarrow> Some v) cs"

lemma visits_simps [simp]:
  "visits [] = []" "visits (cs @ [Visit v]) = visits cs @ [v]" "visits (cs @ [Process v]) = visits cs"
  "processes [] = []" "processes (cs @ [Visit v]) = processes cs" "processes (cs @ [Process v]) = processes cs @ [v]"
  by (simp_all add: visits_def processes_def List.map_filter_def)

lemma marked_update: "below v (length bs) \<Longrightarrow> marked (bs[nat v := True]) = insert v (marked bs)"
  by (auto simp: marked_def below_def nth_list_update)

text \<open>The invariant of the walk over a graph whose edges stay inside it.\<close>

definition graph_closed :: "sparse_graph \<Rightarrow> bool" where
  "graph_closed g \<longleftrightarrow> (\<forall>es\<in>set (adjacent g). \<forall>e\<in>set es. below (edge_vertex e) (nvertices g))"

definition search_inv :: "sparse_graph \<Rightarrow> int \<Rightarrow> int set \<Rightarrow> int set \<Rightarrow> int set \<Rightarrow> bool" where
  "search_inv g start W V P \<longleftrightarrow>
     W \<subseteq> reach g start \<and> (\<forall>v\<in>W. below v (nvertices g)) \<and> V \<subseteq> reach g start \<and> start \<in> V \<union> W \<and>
     (\<forall>v\<in>V. successors g v \<subseteq> V \<union> W) \<and> V \<subseteq> P \<union> W \<and> P \<subseteq> V"

definition numbered :: "int list \<Rightarrow> int list \<Rightarrow> int set \<Rightarrow> int \<Rightarrow> bool" where
  "numbered os vs V time \<longleftrightarrow>
     distinct vs \<and> set vs = V \<and> time = int (length vs) \<and> (\<forall>i<length vs. os ! nat (vs ! i) = int i)"

definition parents_ok :: "sparse_graph \<Rightarrow> int \<Rightarrow> int list \<Rightarrow> int set \<Rightarrow> int set \<Rightarrow> bool" where
  "parents_ok g start ps W V \<longleftrightarrow> (\<forall>v\<in>V \<union> W. v \<noteq> start \<longrightarrow> ps ! nat v \<in> V \<and> v \<in> successors g (ps ! nat v))"

definition sizes_ok :: "nat \<Rightarrow> traversal \<Rightarrow> bool" where
  "sizes_ok n t \<longleftrightarrow> length (visited t) = n \<and> length (order t) = n \<and> length (parent_of t) = n \<and> length (processed t) = n"

definition walk_inv :: "sparse_graph \<Rightarrow> int \<Rightarrow> int multiset \<Rightarrow> 'f walk \<Rightarrow> bool" where
  "walk_inv g start waiting s \<longleftrightarrow>
     (let t = walk_traversal s; V = marked (visited t); P = marked (processed t); W = set_mset waiting
      in sizes_ok (nvertices g) t \<and> search_inv g start W V P \<and> set (processes (walk_calls s)) = P \<and>
         numbered (order t) (visits (walk_calls s)) V (walk_time s) \<and> parents_ok g start (parent_of t) W V)"

definition unvisited :: "'f walk \<Rightarrow> nat" where
  "unvisited s = length (filter Not (visited (walk_traversal s)))"

lemma unvisited_update:
  "i < length bs \<Longrightarrow> \<not> bs ! i \<Longrightarrow> length (filter Not (bs[i := True])) < length (filter Not bs)"
proof (induction bs arbitrary: i)
  case (Cons b bs)
  then show ?case by (cases i; cases b) simp_all
qed simp

lemma successors_below: "graph_closed g \<Longrightarrow> w \<in> successors g v \<Longrightarrow> below w (nvertices g)"
  by (auto simp: successors_def graph_closed_def nvertices_def below_def split: if_splits)

lemma marked_below: "v \<in> marked bs \<Longrightarrow> below v (length bs)"
  by (simp add: marked_def)

lemma search_inv_expand:
  "search_inv g start W V P \<Longrightarrow> graph_closed g \<Longrightarrow> v \<in> W \<Longrightarrow> search_inv g start (W \<union> successors g v) (insert v V) P"
  using successors_below[of g _ v] reach_step[of v g start]
  unfolding search_inv_def by (intro conjI; elim conjE) (simp, blast, auto)

lemma search_inv_collapse:
  "search_inv g start W V P \<Longrightarrow> v \<in> V \<Longrightarrow> W = insert v W' \<Longrightarrow> search_inv g start W' V (insert v P)"
  unfolding search_inv_def by auto

lemma numbered_visit:
  assumes "numbered os vs V time" "v \<notin> V" "below v (length os)" "\<forall>w\<in>V. 0 \<le> w"
  shows "numbered (os[nat v := time]) (vs @ [v]) (insert v V) (time + 1)"
proof -
  have "os[nat v := time] ! nat ((vs @ [v]) ! i) = int i" if "i < Suc (length vs)" for i
  proof (cases "i = length vs")
    case True
    then show ?thesis using assms by (simp add: numbered_def below_def)
  next
    case False
    then have i: "i < length vs" using that by simp
    then have "vs ! i \<in> V" using assms(1) nth_mem by (auto simp: numbered_def)
    then have "nat v \<noteq> nat (vs ! i)" using assms(2,3,4) by (metis below_def eq_nat_nat_iff)
    then show ?thesis using i assms(1) by (simp add: numbered_def nth_append)
  qed
  then show ?thesis using assms(1,2) by (auto simp: numbered_def)
qed

lemma parents_expand:
  assumes "parents_ok g start ps W V" "v \<in> W" "\<forall>w\<in>W \<union> V \<union> successors g v. below w n"
    and "\<forall>w. below w n \<longrightarrow> ps' ! nat w = (if w \<in> successors g v then v else ps ! nat w)"
  shows "parents_ok g start ps' (W \<union> successors g v) (insert v V)"
  using assms unfolding parents_ok_def by (auto split: if_splits)

context fringe begin

lemma push_edges_spec:
  "\<forall>e\<in>set es. below (edge_vertex e) (length ps) \<Longrightarrow>
     \<exists>ps' f'. push_edges ft vertex es ps f = Inr (ps', f') \<and> elems f' = elems f + mset (map edge_vertex es) \<and>
       length ps' = length ps \<and>
       (\<forall>v. below v (length ps) \<longrightarrow> ps' ! nat v = (if v \<in> edge_vertex ` set es then vertex else ps ! nat v))"
proof (induction es arbitrary: ps f)
  case (Cons e es)
  let ?v = "edge_vertex e"
  have below: "below ?v (length ps)" "\<forall>e\<in>set es. below (edge_vertex e) (length (ps[nat ?v := vertex]))"
    using Cons.prems by simp_all
  from Cons.IH[OF below(2), of "fringe_push ft ?v f"] obtain ps' f' where
    IH: "push_edges ft vertex es (ps[nat ?v := vertex]) (fringe_push ft ?v f) = Inr (ps', f')"
    "elems f' = add_mset ?v (elems f) + mset (map edge_vertex es)" "length ps' = length ps"
    "\<forall>v. below v (length ps) \<longrightarrow> ps' ! nat v =
       (if v \<in> edge_vertex ` set es then vertex else ps[nat ?v := vertex] ! nat v)"
    by (auto simp: elems_push)
  have "ps[nat ?v := vertex] ! nat v = (if v = ?v then vertex else ps ! nat v)" if "below v (length ps)" for v
    using that below(1) by (auto simp: below_def nth_list_update)
  then show ?case using IH below(1) by (auto simp: set_vertex_def)
qed simp

end

context fringe begin

lemma expand_spec:
  assumes inv: "walk_inv g start (elems (walk_fringe s)) s" and closed: "graph_closed g"
    and v: "v \<in># elems (walk_fringe s)" "v \<notin> marked (visited (walk_traversal s))"
  shows "\<exists>s'. expand_vertex ft g v s = Inr s' \<and> walk_inv g start (elems (walk_fringe s')) s' \<and> unvisited s' < unvisited s"
proof -
  define t where "t = walk_traversal s"
  define V where "V = marked (visited t)"
  define W where "W = set_mset (elems (walk_fringe s))"
  define n where "n = nvertices g"
  define es where "es = adjacent g ! nat v"
  have I: "sizes_ok n t" "search_inv g start W V (marked (processed t))" "set (processes (walk_calls s)) = marked (processed t)"
    "numbered (order t) (visits (walk_calls s)) V (walk_time s)" "parents_ok g start (parent_of t) W V"
    using inv by (simp_all add: walk_inv_def Let_def t_def V_def W_def n_def)
  have len: "length (visited t) = n" "length (order t) = n" "length (parent_of t) = n" "length (processed t) = n"
    using I(1) by (simp_all add: sizes_ok_def)
  have vW: "v \<in> W" "v \<notin> V" using v by (simp_all add: W_def V_def t_def)
  have below: "\<forall>w\<in>W \<union> V \<union> successors g v. below w n"
    using I(2) marked_below[of _ "visited t"] len(1) successors_below[OF closed, of _ v]
    by (auto simp: search_inv_def V_def n_def)
  then have bv: "below v n" using vW by blast
  have succ: "successors g v = edge_vertex ` set es" using bv by (simp add: successors_def n_def es_def)
  have bes: "\<forall>e\<in>set es. below (edge_vertex e) (length (parent_of t))" using below succ len(3) by auto
  obtain ps f where pushed: "push_edges ft v es (parent_of t) (walk_fringe s) = Inr (ps, f)"
    "elems f = elems (walk_fringe s) + mset (map edge_vertex es)" "length ps = n"
    "\<forall>w. below w n \<longrightarrow> ps ! nat w = (if w \<in> successors g v then v else parent_of t ! nat w)"
    using push_edges_spec[OF bes, of v "walk_fringe s"] unfolding len(3) succ by blast
  define s' where "s' = \<lparr>walk_fringe = f, walk_time = walk_time s + 1, walk_calls = walk_calls s @ [Visit v],
    walk_traversal = t\<lparr>visited := (visited t)[nat v := True], order := (order t)[nat v := walk_time s], parent_of := ps\<rparr>\<rparr>"
  have "expand_vertex ft g v s = Inr s'"
    using len(1,2) bv pushed(1)
    by (simp add: expand_vertex_def Let_def set_vertex_def edges_at_def t_def[symmetric] n_def[symmetric] es_def[symmetric] s'_def)
  moreover have "set_mset (elems (walk_fringe s')) = W \<union> successors g v" by (simp add: s'_def pushed(2) succ W_def)
  moreover have "marked (visited (walk_traversal s')) = insert v V"
    using marked_update[of v "visited t"] bv len(1) by (simp add: s'_def V_def)
  moreover have "\<forall>w\<in>V. 0 \<le> w" using below by (auto simp: below_def)
  ultimately have "walk_inv g start (elems (walk_fringe s')) s'"
    using I(3) search_inv_expand[OF I(2) closed vW(1)] numbered_visit[OF I(4) vW(2), unfolded len, OF bv]
      parents_expand[OF I(5) vW(1) below pushed(4)] len pushed(3)
    by (simp add: walk_inv_def Let_def s'_def sizes_ok_def n_def)
  moreover have "unvisited s' < unvisited s"
    using unvisited_update[of "nat v" "visited t"] vW(2) len(1) bv
    by (simp add: unvisited_def s'_def t_def[symmetric] V_def marked_def below_def)
  ultimately show ?thesis using \<open>expand_vertex ft g v s = Inr s'\<close> by blast
qed

lemma collapse_spec:
  assumes inv: "walk_inv g start (elems (walk_fringe s)) s"
    and v: "v = fringe_next ft (walk_fringe s)" "elems (walk_fringe s) \<noteq> {#}" "v \<in> marked (visited (walk_traversal s))"
  shows "\<exists>s'. collapse_vertex ft v s = Inr s' \<and> walk_inv g start (elems (walk_fringe s')) s' \<and> unvisited s' = unvisited s \<and>
    size (elems (walk_fringe s')) < size (elems (walk_fringe s))"
proof -
  define t where "t = walk_traversal s"
  define F where "F = elems (walk_fringe s)"
  have I: "sizes_ok (nvertices g) t" "search_inv g start (set_mset F) (marked (visited t)) (marked (processed t))"
    "set (processes (walk_calls s)) = marked (processed t)"
    "numbered (order t) (visits (walk_calls s)) (marked (visited t)) (walk_time s)"
    "parents_ok g start (parent_of t) (set_mset F) (marked (visited t))"
    using inv by (simp_all add: walk_inv_def Let_def t_def F_def)
  have vV: "v \<in> marked (visited t)" "v \<in># F" using v next_in by (simp_all add: t_def F_def)
  then have bv: "below v (length (processed t))" using I(1,2) by (auto simp: sizes_ok_def search_inv_def)
  define s' where "s' = s\<lparr>walk_fringe := fringe_pop ft (walk_fringe s), walk_calls := walk_calls s @ [Process v],
    walk_traversal := t\<lparr>processed := (processed t)[nat v := True]\<rparr>\<rparr>"
  have "collapse_vertex ft v s = Inr s'"
    using bv by (simp add: collapse_vertex_def Let_def set_vertex_def t_def[symmetric] s'_def)
  moreover have popped: "elems (walk_fringe s') = F - {#v#}" using elems_pop v by (simp add: s'_def F_def)
  then have F: "set_mset F = insert v (set_mset (elems (walk_fringe s')))"
    using vV(2) by (metis insert_DiffM set_mset_add_mset_insert)
  have P: "marked (processed (walk_traversal s')) = insert v (marked (processed t))"
    using marked_update[OF bv] by (simp add: s'_def)
  have "parents_ok g start (parent_of t) (set_mset (elems (walk_fringe s'))) (marked (visited t))"
    using I(5) F by (auto simp: parents_ok_def)
  then have "walk_inv g start (elems (walk_fringe s')) s'"
    using I(1,3,4) search_inv_collapse[OF I(2) vV(1) F] P by (simp add: walk_inv_def Let_def s'_def sizes_ok_def)
  moreover have "unvisited s' = unvisited s" by (simp add: unvisited_def s'_def t_def)
  moreover have "size (elems (walk_fringe s')) < size (elems (walk_fringe s))"
    using popped size_Diff1_less[OF vV(2)] by (simp add: F_def)
  ultimately show ?thesis by blast
qed

lemma walk_loop_returns:
  assumes "graph_closed g"
  shows "walk_inv g start (elems (walk_fringe s)) s \<Longrightarrow>
    \<exists>s'. walk_loop ft g s = Some (Inr s') \<and> walk_inv g start {#} s'"
proof (induction s rule: wf_induct_rule[OF wf_measures[of "[unvisited, \<lambda>s. size (elems (walk_fringe s))]"]])
  case (1 s)
  show ?case
  proof (cases "elems (walk_fringe s) = {#}")
    case True
    then show ?thesis using "1.prems" by (subst walk_loop.simps) (simp add: size_elems)
  next
    case False
    define v where "v = fringe_next ft (walk_fringe s)"
    have v: "v \<in># elems (walk_fringe s)" using next_in[OF False] by (simp add: v_def)
    then have bv: "below v (length (visited (walk_traversal s)))"
      using "1.prems" by (auto simp: walk_inv_def Let_def sizes_ok_def search_inv_def)
    have "\<exists>s'. walk_step ft g s = Inr s' \<and> walk_inv g start (elems (walk_fringe s')) s' \<and>
        (s', s) \<in> measures [unvisited, \<lambda>s. size (elems (walk_fringe s))]"
    proof (cases "v \<in> marked (visited (walk_traversal s))")
      case True
      then have "visited (walk_traversal s) ! nat v" by (simp add: marked_def)
      then show ?thesis
        using collapse_spec[OF "1.prems" v_def False True] bv
        by (auto simp: walk_step_def Let_def v_def[symmetric] at_vertex_def)
    next
      case unseen: False
      then have "\<not> visited (walk_traversal s) ! nat v" using bv by (simp add: marked_def)
      then show ?thesis
        using expand_spec[OF "1.prems" assms v unseen] bv
        by (auto simp: walk_step_def Let_def v_def[symmetric] at_vertex_def)
    qed
    then obtain s' where s': "walk_step ft g s = Inr s'" "walk_inv g start (elems (walk_fringe s')) s'"
      "(s', s) \<in> measures [unvisited, \<lambda>s. size (elems (walk_fringe s))]" by blast
    have "walk_loop ft g s = walk_loop ft g s'"
      using False s'(1) by (subst walk_loop.simps) (simp add: size_elems nonempty_has_size)
    then show ?thesis using "1.IH"[OF s'(3,2)] by simp
  qed
qed

end

section \<open>Traversals with a stack and with a queue\<close>

interpretation stack: fringe stack_fringe mset
proof
  fix f :: "int list" and v
  show "mset (fringe_empty stack_fringe) = {#}" "fringe_size stack_fringe f = size (mset f)"
    "mset (fringe_push stack_fringe v f) = add_mset v (mset f)" by (simp_all add: stack_fringe_def)
  show "mset f \<noteq> {#} \<Longrightarrow> fringe_next stack_fringe f \<in># mset f"
    "mset f \<noteq> {#} \<Longrightarrow> mset (fringe_pop stack_fringe f) = mset f - {#fringe_next stack_fringe f#}"
    by (cases f; simp add: stack_fringe_def)+
qed

interpretation queue: fringe queue_fringe mset
proof
  fix f :: "int list" and v
  show "mset (fringe_empty queue_fringe) = {#}" "fringe_size queue_fringe f = size (mset f)"
    "mset (fringe_push queue_fringe v f) = add_mset v (mset f)" by (simp_all add: queue_fringe_def)
  show "mset f \<noteq> {#} \<Longrightarrow> fringe_next queue_fringe f \<in># mset f"
    "mset f \<noteq> {#} \<Longrightarrow> mset (fringe_pop queue_fringe f) = mset f - {#fringe_next queue_fringe f#}"
    by (cases f; simp add: queue_fringe_def)+
qed

lemma graph_inv_closed: "graph_inv g \<Longrightarrow> graph_closed g"
  by (simp add: graph_inv_def graph_closed_def)

lemma marked_replicate [simp]: "marked (replicate n False) = {}"
  by (auto simp: marked_def below_def)

lemma traversal_new_fields:
  "traversal_new g = \<lparr>order = replicate (nvertices g) (-1), parent_of = replicate (nvertices g) (-1),
     visited = replicate (nvertices g) False, processed = replicate (nvertices g) False\<rparr>"
  by (simp add: traversal_new_def Let_def traversal_reset_def resize_list_def map_replicate_const)

lemma walk_inv_start:
  "below start (nvertices g) \<Longrightarrow> walk_inv g start {#start#}
     \<lparr>walk_fringe = f, walk_time = 0, walk_calls = [], walk_traversal = traversal_new g\<rparr>"
  by (simp add: walk_inv_def Let_def traversal_new_fields reach_start sizes_ok_def search_inv_def numbered_def parents_ok_def)

lemma walk_inv_result:
  assumes "walk_inv g start {#} s"
  shows "marked (visited (walk_traversal s)) = reach g start" "marked (processed (walk_traversal s)) = reach g start"
    "distinct (visits (walk_calls s))" "set (visits (walk_calls s)) = reach g start"
    "i < length (visits (walk_calls s)) \<Longrightarrow> order (walk_traversal s) ! nat (visits (walk_calls s) ! i) = int i"
    "set (processes (walk_calls s)) = reach g start"
    "v \<in> reach g start \<Longrightarrow> v \<noteq> start \<Longrightarrow> v \<in> successors g (parent_of (walk_traversal s) ! nat v)"
proof -
  define V where "V = marked (visited (walk_traversal s))"
  have V: "V \<subseteq> reach g start" "start \<in> V" "\<forall>v\<in>V. successors g v \<subseteq> V"
    "V \<subseteq> marked (processed (walk_traversal s))" "marked (processed (walk_traversal s)) \<subseteq> V"
    "set (processes (walk_calls s)) = marked (processed (walk_traversal s))"
    using assms by (auto simp: walk_inv_def Let_def search_inv_def V_def)
  have "reach g start \<subseteq> V" using V(2,3) by (intro reach_least) auto
  then show r: "marked (visited (walk_traversal s)) = reach g start" "marked (processed (walk_traversal s)) = reach g start"
    "set (processes (walk_calls s)) = reach g start"
    using V by (auto simp: V_def)
  show "distinct (visits (walk_calls s))" "set (visits (walk_calls s)) = reach g start"
    "i < length (visits (walk_calls s)) \<Longrightarrow> order (walk_traversal s) ! nat (visits (walk_calls s) ! i) = int i"
    "v \<in> reach g start \<Longrightarrow> v \<noteq> start \<Longrightarrow> v \<in> successors g (parent_of (walk_traversal s) ! nat v)"
    using assms r by (auto simp: walk_inv_def Let_def numbered_def parents_ok_def)
qed

text \<open>C17: A traversal of a graph, with a stack or with a queue, returns; it visits each vertex that is reachable from its
  start once and no other, numbers them in the order of the visits, processes them all, and gives each but the
  start a parent that has an edge to it.\<close>

theorem traverse_visits_reachable:
  assumes "graph_inv g" "below start (nvertices g)" "ft = stack_fringe \<or> ft = queue_fringe"
  shows "\<exists>s. traverse ft g start (traversal_new g) = Some (Inr s) \<and>
    distinct (visits (walk_calls s)) \<and> set (visits (walk_calls s)) = reach g start \<and>
    set (processes (walk_calls s)) = reach g start \<and>
    marked (visited (walk_traversal s)) = reach g start \<and> marked (processed (walk_traversal s)) = reach g start \<and>
    (\<forall>i<length (visits (walk_calls s)). order (walk_traversal s) ! nat (visits (walk_calls s) ! i) = int i) \<and>
    (\<forall>v\<in>reach g start - {start}. v \<in> successors g (parent_of (walk_traversal s) ! nat v))"
proof -
  let ?s = "\<lparr>walk_fringe = [start], walk_time = 0, walk_calls = [], walk_traversal = traversal_new g\<rparr>"
  have start: "traverse ft g start (traversal_new g) = walk_loop ft g ?s"
    using assms(3) by (auto simp: traverse_def stack_fringe_def queue_fringe_def)
  have "walk_inv g start (mset (walk_fringe ?s)) ?s" using walk_inv_start[OF assms(2)] by simp
  then obtain s where "walk_loop ft g ?s = Some (Inr s)" "walk_inv g start {#} s"
    using stack.walk_loop_returns queue.walk_loop_returns graph_inv_closed[OF assms(1)] assms(3) by blast
  then show ?thesis unfolding start using walk_inv_result[of g start s]
    by (intro exI[of _ s] conjI allI impI ballI) simp_all
qed

text \<open>The parents are those of the last edge that was seen, not of the visit: two vertices that point at each other
  become each other's parents, and the start gets one.\<close>

definition example_graph :: sparse_graph where
  "example_graph = \<lparr>adjacent = [[\<lparr>edge_vertex = 1, edge_weight = -1\<rparr>], [\<lparr>edge_vertex = 0, edge_weight = -1\<rparr>]], nedges = 2\<rparr>"

lemma example_graph_joined:
  "join 0 1 (-1) (graph_new 1) = Inr \<lparr>adjacent = [[\<lparr>edge_vertex = 1, edge_weight = -1\<rparr>], []], nedges = 1\<rparr>"
  "join 1 0 (-1) \<lparr>adjacent = [[\<lparr>edge_vertex = 1, edge_weight = -1\<rparr>], []], nedges = 1\<rparr> = Inr example_graph"
  by (simp_all add: join_def below_def graph_new_def nvertices_def Let_def int_max_def resize_list_def example_graph_def)

lemma example_graph_inv: "graph_inv example_graph"
  by (simp add: example_graph_def graph_inv_def nvertices_def below_def)

theorem traversal_parents_cycle:
  "\<exists>s. traverse stack_fringe example_graph 0 (traversal_new example_graph) = Some (Inr s) \<and>
     parent_of (walk_traversal s) = [1, 0] \<and> processes (walk_calls s) = [0, 1, 0]"
  by (simp add: traverse_def stack_fringe_def traversal_new_fields example_graph_def nvertices_def
      walk_loop.simps walk_step_def at_vertex_def below_def expand_vertex_def set_vertex_def edges_at_def Let_def
      collapse_vertex_def processes_def List.map_filter_def)

theorem join_then_cut_witness:
  "\<exists>g'. join 0 1 7 example_graph = Inr g' \<and> weight_of g' 0 1 = 7 \<and> weight_of g' 1 0 = weight_of example_graph 1 0"
  using join_then_cut[OF example_graph_inv, of 0 1 7 0 1] join_then_cut[OF example_graph_inv, of 0 1 7 1 0]
  by (auto simp: int_max_def)

theorem traverse_visits_reachable_witness:
  "\<exists>s. traverse queue_fringe example_graph 0 (traversal_new example_graph) = Some (Inr s) \<and>
     set (visits (walk_calls s)) = reach example_graph 0"
  using traverse_visits_reachable[OF example_graph_inv, of 0 queue_fringe]
  by (auto simp: example_graph_def nvertices_def below_def)

end
