(* ===== verification/Ex_Dijkstra.thy ===== *)
theory Ex_Dijkstra
  imports Prelude
begin

text \<open>
  The shortest path of \<open>exercises/dijkstra.cpp\<close> over a matrix of weights, in which a weight below zero is no edge.
  The parents are uninitialised memory until they are set, and adding weights may overflow. Where the
  weights leave room for the sums, the function returns a path of least weight to every vertex that
  can be reached, and reads an uninitialised parent for every other.
\<close>

section \<open>The program\<close>

definition int_limit :: int where "int_limit = 2147483647"

type_synonym weights = "int list list"

record search =
  seen :: "bool list"
  distance :: "int list"
  previous :: "nat option list"

definition search_new :: "nat \<Rightarrow> nat \<Rightarrow> search" where
  "search_new n a = \<lparr>seen = replicate n False, distance = (replicate n int_limit)[a := 0], previous = replicate n None\<rparr>"

definition relax :: "weights \<Rightarrow> nat \<Rightarrow> nat \<Rightarrow> search \<Rightarrow> search outcome" where
  "relax g current i s =
     (let weight = g ! current ! i
      in if \<not> seen s ! i \<and> weight \<ge> 0
         then if distance s ! current + weight > int_limit then Inl Undefined
              else if distance s ! current + weight < distance s ! i
              then Inr (s\<lparr>distance := (distance s)[i := distance s ! current + weight],
                          previous := (previous s)[i := Some current]\<rparr>)
              else Inr s
         else Inr s)"

fun relax_all :: "weights \<Rightarrow> nat \<Rightarrow> nat list \<Rightarrow> search \<Rightarrow> search outcome" where
  "relax_all g current [] s = Inr s"
| "relax_all g current (i # is) s = and_then (relax g current i s) (relax_all g current is)"

fun select_next :: "search \<Rightarrow> nat list \<Rightarrow> int \<Rightarrow> nat \<Rightarrow> nat" where
  "select_next s [] d current = current"
| "select_next s (i # is) d current =
     (if \<not> seen s ! i \<and> distance s ! i < d then select_next s is (distance s ! i) i else select_next s is d current)"

lemma relax_seen: "relax g c i s = Inr s' \<Longrightarrow> seen s' = seen s"
  by (auto simp: relax_def Let_def split: if_splits)

lemma relax_all_seen: "relax_all g c is s = Inr s' \<Longrightarrow> seen s' = seen s"
  by (induction "is" arbitrary: s) (auto simp: and_then_eq_Inr_iff relax_seen)

lemma mark_fewer: "i < length bs \<Longrightarrow> \<not> bs ! i \<Longrightarrow> length (filter Not (bs[i := True])) < length (filter Not bs)"
proof (induction bs arbitrary: i)
  case (Cons b bs)
  then show ?case by (cases i; cases b) simp_all
qed simp

function search_loop :: "weights \<Rightarrow> nat \<Rightarrow> nat \<Rightarrow> search \<Rightarrow> search outcome" where
  "search_loop g n current s =
     (if current < length (seen s) \<and> \<not> seen s ! current
      then (case relax_all g current [0..<n] (s\<lparr>seen := (seen s)[current := True]\<rparr>) of
              Inl e \<Rightarrow> Inl e
            | Inr s' \<Rightarrow> search_loop g n (select_next s' [0..<n] int_limit current) s')
      else Inr s)"
  by pat_completeness auto
termination
  by (relation "measure (\<lambda>(_, _, _, s). length (filter Not (seen s)))") (fastforce dest: relax_all_seen intro: mark_fewer)+

declare search_loop.simps [simp del]

partial_function (option) walk_back :: "nat \<Rightarrow> nat option list \<Rightarrow> nat \<Rightarrow> nat list \<Rightarrow> nat list outcome option" where
  "walk_back a parents current acc =
     (if current = a then Some (Inr (acc @ [a]))
      else (case parents ! current of
              None \<Rightarrow> Some (Inl Undefined)
            | Some p \<Rightarrow> walk_back a parents p (acc @ [current])))"

definition find_shortest_path :: "weights \<Rightarrow> nat \<Rightarrow> nat \<Rightarrow> nat \<Rightarrow> nat list outcome option" where
  "find_shortest_path g n a b =
     (case search_loop g n a (search_new n a) of
        Inl e \<Rightarrow> Some (Inl e)
      | Inr s \<Rightarrow> map_option (map_sum id rev) (walk_back a (previous s) b []))"

section \<open>Paths\<close>

definition weight :: "weights \<Rightarrow> nat \<Rightarrow> nat \<Rightarrow> int" where
  "weight g u v = g ! u ! v"

fun path_weight :: "weights \<Rightarrow> nat list \<Rightarrow> int" where
  "path_weight g (u # v # xs) = weight g u v + path_weight g (v # xs)"
| "path_weight g xs = 0"

fun edges_present :: "weights \<Rightarrow> nat list \<Rightarrow> bool" where
  "edges_present g (u # v # xs) \<longleftrightarrow> 0 \<le> weight g u v \<and> edges_present g (v # xs)"
| "edges_present g xs \<longleftrightarrow> True"

definition path_between :: "weights \<Rightarrow> nat \<Rightarrow> nat \<Rightarrow> nat \<Rightarrow> nat list \<Rightarrow> bool" where
  "path_between g n a b xs \<longleftrightarrow> xs \<noteq> [] \<and> hd xs = a \<and> last xs = b \<and> set xs \<subseteq> {..<n} \<and> edges_present g xs"

lemma path_extend:
  "xs \<noteq> [] \<Longrightarrow> path_weight g (xs @ [v]) = path_weight g xs + weight g (last xs) v"
  "xs \<noteq> [] \<Longrightarrow> edges_present g (xs @ [v]) \<longleftrightarrow> edges_present g xs \<and> 0 \<le> weight g (last xs) v"
  by (induction xs rule: induct_list012) auto

section \<open>The search\<close>

text \<open>After the vertices \<open>vs\<close> have been seen, in this order: the parents make a tree of seen vertices with the distances
  of its paths, each vertex after its parent; the seen vertices are the nearest and their edges are relaxed; and with
  weights of at most \<open>w\<close> the distances stay small.\<close>

definition seen_ok :: "nat \<Rightarrow> nat \<Rightarrow> nat list \<Rightarrow> search \<Rightarrow> bool" where
  "seen_ok n a vs s \<longleftrightarrow>
     length (seen s) = n \<and> length (distance s) = n \<and> length (previous s) = n \<and> distinct vs \<and> set vs \<subseteq> {..<n} \<and>
     (\<forall>v<n. seen s ! v \<longleftrightarrow> v \<in> set vs) \<and> (vs \<noteq> [] \<longrightarrow> hd vs = a) \<and> distance s ! a = 0"

definition tree_ok :: "weights \<Rightarrow> nat \<Rightarrow> nat \<Rightarrow> nat list \<Rightarrow> search \<Rightarrow> bool" where
  "tree_ok g n a vs s \<longleftrightarrow>
     (\<forall>v<n. v \<noteq> a \<longrightarrow> (case previous s ! v of
         None \<Rightarrow> distance s ! v = int_limit \<and> v \<notin> set vs
       | Some p \<Rightarrow> p \<in> set vs \<and> 0 \<le> weight g p v \<and> distance s ! v = distance s ! p + weight g p v)) \<and>
     (\<forall>i<length vs. \<forall>p. 0 < i \<longrightarrow> previous s ! (vs ! i) = Some p \<longrightarrow> p \<in> set (take i vs))"

definition nearest_ok :: "weights \<Rightarrow> nat \<Rightarrow> nat list \<Rightarrow> search \<Rightarrow> bool" where
  "nearest_ok g n vs s \<longleftrightarrow>
     (\<forall>u\<in>set vs. \<forall>v<n. (v \<notin> set vs \<longrightarrow> distance s ! u \<le> distance s ! v) \<and>
        (0 \<le> weight g u v \<longrightarrow> distance s ! v \<le> distance s ! u + weight g u v))"

definition budget_ok :: "int \<Rightarrow> nat list \<Rightarrow> search \<Rightarrow> bool" where
  "budget_ok w vs s \<longleftrightarrow> (\<forall>i<length vs. distance s ! (vs ! i) \<le> int i * w)"

definition search_inv :: "weights \<Rightarrow> nat \<Rightarrow> nat \<Rightarrow> int \<Rightarrow> nat list \<Rightarrow> search \<Rightarrow> bool" where
  "search_inv g n a w vs s \<longleftrightarrow> seen_ok n a vs s \<and> tree_ok g n a vs s \<and> nearest_ok g n vs s \<and> budget_ok w vs s"

lemma relax_all_spec:
  assumes room: "\<And>v. v < n \<Longrightarrow> distance s ! c + weight g c v \<le> int_limit"
    and c: "c < n" "seen s ! c"
  shows "distinct is \<Longrightarrow> set is \<subseteq> {..<n} \<Longrightarrow> length (distance s) = n \<Longrightarrow> length (previous s) = n \<Longrightarrow>
    \<exists>s'. relax_all g c is s = Inr s' \<and> seen s' = seen s \<and> length (distance s') = n \<and> length (previous s') = n \<and>
      (\<forall>v<n. let better = (v \<in> set is \<and> \<not> seen s ! v \<and> 0 \<le> weight g c v \<and>
                             distance s ! c + weight g c v < distance s ! v)
              in distance s' ! v = (if better then distance s ! c + weight g c v else distance s ! v) \<and>
                 previous s' ! v = (if better then Some c else previous s ! v))"
  using assms
proof (induction "is" arbitrary: s)
  case (Cons i "is")
  have i: "i < n" "i \<notin> set is" "distinct is" "set is \<subseteq> {..<n}" using Cons.prems(1,2) by auto
  define better where "better \<longleftrightarrow> \<not> seen s ! i \<and> 0 \<le> weight g c i \<and> distance s ! c + weight g c i < distance s ! i"
  define s1 where "s1 = (if better then s\<lparr>distance := (distance s)[i := distance s ! c + weight g c i],
    previous := (previous s)[i := Some c]\<rparr> else s)"
  have one: "relax g c i s = Inr s1"
    using Cons.prems(5)[OF i(1)] by (auto simp: relax_def Let_def s1_def better_def weight_def)
  have s1: "seen s1 = seen s" "length (distance s1) = n" "length (previous s1) = n"
    "\<And>v. v < n \<Longrightarrow> distance s1 ! v = (if v = i \<and> better then distance s ! c + weight g c i else distance s ! v)"
    "\<And>v. v < n \<Longrightarrow> previous s1 ! v = (if v = i \<and> better then Some c else previous s ! v)"
    using Cons.prems(3,4) i(1) by (auto simp: s1_def nth_list_update)
  have c1: "distance s1 ! c = distance s ! c" using s1(4)[OF Cons.prems(6)] Cons.prems(7) by (auto simp: better_def)
  obtain s' where s': "relax_all g c is s1 = Inr s'" "seen s' = seen s" "length (distance s') = n" "length (previous s') = n"
    "\<forall>v<n. let better = (v \<in> set is \<and> \<not> seen s ! v \<and> 0 \<le> weight g c v \<and> distance s ! c + weight g c v < distance s1 ! v)
       in distance s' ! v = (if better then distance s ! c + weight g c v else distance s1 ! v) \<and>
          previous s' ! v = (if better then Some c else previous s1 ! v)"
    using Cons.IH[OF i(3,4) s1(2,3)] Cons.prems(5,6,7) unfolding c1 s1(1) by blast
  have "distance s' ! v = (if v \<in> set (i # is) \<and> \<not> seen s ! v \<and> 0 \<le> weight g c v \<and> distance s ! c + weight g c v < distance s ! v
          then distance s ! c + weight g c v else distance s ! v) \<and>
        previous s' ! v = (if v \<in> set (i # is) \<and> \<not> seen s ! v \<and> 0 \<le> weight g c v \<and> distance s ! c + weight g c v < distance s ! v
          then Some c else previous s ! v)" if v: "v < n" for v
    using s'(5)[rule_format, OF v] i(2) unfolding Let_def s1(4)[OF v] s1(5)[OF v]
    by (cases "v = i") (simp_all add: better_def)
  then show ?case using one s' by (auto simp: Let_def)
qed (simp add: Let_def)

lemma select_next_spec:
  "(select_next s is d c = c \<and> (\<forall>i\<in>set is. \<not> seen s ! i \<longrightarrow> d \<le> distance s ! i)) \<or>
   (select_next s is d c \<in> set is \<and> \<not> seen s ! (select_next s is d c) \<and> distance s ! (select_next s is d c) < d \<and>
    (\<forall>i\<in>set is. \<not> seen s ! i \<longrightarrow> distance s ! (select_next s is d c) \<le> distance s ! i))"
proof (induction "is" arbitrary: d c)
  case (Cons i "is")
  show ?case using Cons.IH[of "distance s ! i" i] Cons.IH[of d c] by (cases "\<not> seen s ! i \<and> distance s ! i < d") force+
qed simp

text \<open>The next vertex is unseen, nearest among the unseen, and the start when there is no other.\<close>

definition next_ok :: "nat \<Rightarrow> nat \<Rightarrow> nat list \<Rightarrow> search \<Rightarrow> nat \<Rightarrow> bool" where
  "next_ok n a vs s c \<longleftrightarrow> c < n \<and> c \<notin> set vs \<and> distance s ! c < int_limit \<and> (vs = [] \<longrightarrow> c = a) \<and>
     (\<forall>v<n. v \<notin> set vs \<longrightarrow> distance s ! c \<le> distance s ! v)"

text \<open>What relaxing the edges of \<open>c\<close> does to the distances and parents.\<close>

definition relaxed :: "weights \<Rightarrow> nat \<Rightarrow> nat list \<Rightarrow> nat \<Rightarrow> search \<Rightarrow> search \<Rightarrow> bool" where
  "relaxed g n vs c s s' \<longleftrightarrow> length (distance s') = n \<and> length (previous s') = n \<and> seen s' = (seen s)[c := True] \<and>
     (\<forall>v<n. let better = (v \<notin> set vs \<and> v \<noteq> c \<and> 0 \<le> weight g c v \<and> distance s ! c + weight g c v < distance s ! v)
            in distance s' ! v = (if better then distance s ! c + weight g c v else distance s ! v) \<and>
               previous s' ! v = (if better then Some c else previous s ! v))"

lemma relaxed_nth:
  assumes "relaxed g n vs c s s'" "v < n"
  shows "v \<in> set vs \<or> v = c \<Longrightarrow> distance s' ! v = distance s ! v \<and> previous s' ! v = previous s ! v"
    and "distance s' ! v \<le> distance s ! v"
    and "distance s' ! v = distance s ! v \<and> previous s' ! v = previous s ! v \<or>
      v \<notin> set vs \<and> v \<noteq> c \<and> 0 \<le> weight g c v \<and> distance s' ! v = distance s ! c + weight g c v \<and> previous s' ! v = Some c"
    and "v \<notin> set vs \<Longrightarrow> v \<noteq> c \<Longrightarrow> 0 \<le> weight g c v \<Longrightarrow> distance s' ! v \<le> distance s ! c + weight g c v"
  using assms by (auto simp: relaxed_def Let_def split: if_splits)

lemma next_distance:
  assumes "search_inv g n a w vs s" "next_ok n a vs s c" "a < n" "0 \<le> w" "\<forall>u<n. \<forall>v<n. weight g u v \<le> w"
  shows "distance s ! c \<le> int (length vs) * w" "0 < length vs \<Longrightarrow> \<exists>p\<in>set vs. previous s ! c = Some p" "0 < length vs \<Longrightarrow> c \<noteq> a"
proof -
  have c: "c < n" "c \<notin> set vs" "distance s ! c < int_limit" "vs = [] \<longrightarrow> c = a" using assms(2) by (simp_all add: next_ok_def)
  have S: "distance s ! a = 0" "vs \<noteq> [] \<longrightarrow> hd vs = a" "set vs \<subseteq> {..<n}" using assms(1) by (simp_all add: search_inv_def seen_ok_def)
  show ca: "0 < length vs \<Longrightarrow> c \<noteq> a" using S(2) c(2) by auto
  have prev: "\<exists>p\<in>set vs. previous s ! c = Some p \<and> distance s ! c = distance s ! p + weight g p c" if "0 < length vs"
    using assms(1) c ca[OF that] by (auto simp: search_inv_def tree_ok_def split: option.splits)
  then show "0 < length vs \<Longrightarrow> \<exists>p\<in>set vs. previous s ! c = Some p" by blast
  show "distance s ! c \<le> int (length vs) * w"
  proof (cases "vs = []")
    case True
    then show ?thesis using c S by simp
  next
    case False
    then obtain p where p: "p \<in> set vs" "distance s ! c = distance s ! p + weight g p c" using prev by auto
    then obtain i where i: "i < length vs" "p = vs ! i" by (metis in_set_conv_nth)
    then have "distance s ! p \<le> int i * w" using assms(1) by (simp add: search_inv_def budget_ok_def)
    moreover have "weight g p c \<le> w" using assms(5) p(1) c(1) S(3) by auto
    moreover have "int i * w + w \<le> int (length vs) * w"
      using i(1) assms(4) mult_right_mono[of "int i + 1" "int (length vs)" w] by (simp add: distrib_right)
    ultimately show ?thesis using p(2) by linarith
  qed
qed

lemma relax_all_relaxed:
  assumes inv: "search_inv g n a w vs s" and c: "next_ok n a vs s c" and a: "a < n" "0 \<le> w"
    and w: "\<forall>u<n. \<forall>v<n. weight g u v \<le> w" "int n * w < int_limit"
  shows "\<exists>s'. relax_all g c [0..<n] (s\<lparr>seen := (seen s)[c := True]\<rparr>) = Inr s' \<and> relaxed g n vs c s s'"
proof -
  let ?s = "s\<lparr>seen := (seen s)[c := True]\<rparr>"
  have S: "length (seen s) = n" "length (distance s) = n" "length (previous s) = n" "\<forall>v<n. seen s ! v \<longleftrightarrow> v \<in> set vs"
    "distinct vs" "set vs \<subseteq> {..<n}"
    using inv by (simp_all add: search_inv_def seen_ok_def)
  have cn: "c < n" "c \<notin> set vs" using c by (simp_all add: next_ok_def)
  have "card (insert c (set vs)) \<le> card {..<n}" using cn S(6) by (intro card_mono) auto
  then have "Suc (length vs) \<le> n" using cn S(5) by (simp add: distinct_card)
  then have "int (length vs) * w + w \<le> int n * w"
    using a(2) mult_right_mono[of "int (length vs) + 1" "int n" w] by (simp add: distrib_right)
  then have room: "distance ?s ! c + weight g c v \<le> int_limit" if "v < n" for v
    using next_distance(1)[OF inv c a w(1)] w cn(1) that by fastforce
  have mark: "seen ?s ! v \<longleftrightarrow> v \<in> set vs \<or> v = c" if "v < n" for v
    using that S(1,4) cn(1) by (simp add: nth_list_update)
  obtain s' where s': "relax_all g c [0..<n] ?s = Inr s'" "seen s' = seen ?s" "length (distance s') = n" "length (previous s') = n"
    "\<forall>v<n. let better = (v \<in> set [0..<n] \<and> \<not> seen ?s ! v \<and> 0 \<le> weight g c v \<and> distance ?s ! c + weight g c v < distance ?s ! v)
       in distance s' ! v = (if better then distance ?s ! c + weight g c v else distance ?s ! v) \<and>
          previous s' ! v = (if better then Some c else previous ?s ! v)"
    using relax_all_spec[of n ?s c g "[0..<n]", OF room cn(1)] mark[OF cn(1)] S(2,3)
    by (auto simp: atLeast0LessThan)
  have "relaxed g n vs c s s'"
    using s' mark unfolding relaxed_def Let_def by auto
  then show ?thesis using s'(1) by blast
qed

lemma relaxed_tree:
  assumes inv: "search_inv g n a w vs s" and c: "next_ok n a vs s c" and a: "a < n" "0 \<le> w" "\<forall>u<n. \<forall>v<n. weight g u v \<le> w"
    and rel: "relaxed g n vs c s s'"
  shows "tree_ok g n a (vs @ [c]) s'"
  unfolding tree_ok_def
proof (intro conjI allI impI)
  have S: "set vs \<subseteq> {..<n}" "distinct vs" using inv by (simp_all add: search_inv_def seen_ok_def)
  have cn: "c < n" "c \<notin> set vs" "distance s ! c < int_limit" using c by (simp_all add: next_ok_def)
  have keep: "distance s' ! p = distance s ! p" "previous s' ! p = previous s ! p" if "p \<in> set (vs @ [c])" for p
    using relaxed_nth(1)[OF rel, of p] that S(1) cn(1) by auto
  fix v assume v: "v < n" "v \<noteq> a"
  have old: "case previous s ! v of None \<Rightarrow> distance s ! v = int_limit \<and> v \<notin> set vs
      | Some p \<Rightarrow> p \<in> set vs \<and> 0 \<le> weight g p v \<and> distance s ! v = distance s ! p + weight g p v"
    using inv v by (simp add: search_inv_def tree_ok_def)
  show "case previous s' ! v of None \<Rightarrow> distance s' ! v = int_limit \<and> v \<notin> set (vs @ [c])
      | Some p \<Rightarrow> p \<in> set (vs @ [c]) \<and> 0 \<le> weight g p v \<and> distance s' ! v = distance s' ! p + weight g p v"
    using relaxed_nth(3)[OF rel v(1)]
  proof
    assume same: "distance s' ! v = distance s ! v \<and> previous s' ! v = previous s ! v"
    show ?thesis
    proof (cases "previous s ! v")
      case None
      then show ?thesis using old same cn(3) by auto
    next
      case (Some p)
      then show ?thesis using old same keep(1)[of p] by simp
    qed
  qed (use keep(1)[of c] in simp)
next
  have S: "set vs \<subseteq> {..<n}" using inv by (simp add: search_inv_def seen_ok_def)
  have cn: "c < n" using c by (simp add: next_ok_def)
  fix i p assume i: "i < length (vs @ [c])" "0 < i" "previous s' ! ((vs @ [c]) ! i) = Some p"
  have "(vs @ [c]) ! i \<in> set (vs @ [c])" using i(1) by (rule nth_mem)
  then have old: "previous s ! ((vs @ [c]) ! i) = Some p"
    using i(3) relaxed_nth(1)[OF rel, of "(vs @ [c]) ! i"] S cn by auto
  show "p \<in> set (take i (vs @ [c]))"
  proof (cases "i < length vs")
    case True
    then have "p \<in> set (take i vs)" using inv i(2) old by (simp add: search_inv_def tree_ok_def nth_append)
    then show ?thesis by simp
  next
    case False
    then have "i = length vs" using i(1) by simp
    then show ?thesis using next_distance(2)[OF inv c a] old i(2) by auto
  qed
qed

lemma relaxed_nearest:
  assumes inv: "search_inv g n a w vs s" and c: "next_ok n a vs s c" and rel: "relaxed g n vs c s s'"
  shows "nearest_ok g n (vs @ [c]) s'"
  unfolding nearest_ok_def
proof (intro ballI allI impI conjI)
  have S: "set vs \<subseteq> {..<n}" using inv by (simp add: search_inv_def seen_ok_def)
  have cn: "c < n" "\<And>v. v < n \<Longrightarrow> v \<notin> set vs \<Longrightarrow> distance s ! c \<le> distance s ! v" using c by (simp_all add: next_ok_def)
  have near: "u \<in> set vs \<Longrightarrow> v < n \<Longrightarrow> v \<notin> set vs \<Longrightarrow> distance s ! u \<le> distance s ! v"
    "u \<in> set vs \<Longrightarrow> v < n \<Longrightarrow> 0 \<le> weight g u v \<Longrightarrow> distance s ! v \<le> distance s ! u + weight g u v" for u v
    using inv by (simp_all add: search_inv_def nearest_ok_def)
  fix u v assume u: "u \<in> set (vs @ [c])" and v: "v < n"
  have du: "distance s' ! u = distance s ! u" using relaxed_nth(1)[OF rel, of u] u S cn(1) by auto
  have uc: "distance s ! u \<le> distance s ! c" using near(1)[of u c] u cn(1) c by (auto simp: next_ok_def)
  show "distance s' ! u \<le> distance s' ! v" if "v \<notin> set (vs @ [c])"
    using relaxed_nth(3)[OF rel v] that du uc cn(2)[OF v] by fastforce
  show "distance s' ! v \<le> distance s' ! u + weight g u v" if e: "0 \<le> weight g u v"
  proof (cases "u = c")
    case True
    show ?thesis
    proof (cases "v \<in> set vs \<or> v = c")
      case seen: True
      then have "distance s ! v \<le> distance s ! c" using near(1)[of v c] cn(1) c by (auto simp: next_ok_def)
      then show ?thesis using seen relaxed_nth(1)[OF rel v] True du e by auto
    next
      case False
      then show ?thesis using relaxed_nth(4)[OF rel v] True du e by auto
    qed
  next
    case False
    then have "distance s ! v \<le> distance s ! u + weight g u v" using near(2)[of u v] u v e by auto
    then show ?thesis using relaxed_nth(2)[OF rel v] du by linarith
  qed
qed

lemma relaxed_inv:
  assumes inv: "search_inv g n a w vs s" and c: "next_ok n a vs s c" and a: "a < n" "0 \<le> w" "\<forall>u<n. \<forall>v<n. weight g u v \<le> w"
    and rel: "relaxed g n vs c s s'"
  shows "search_inv g n a w (vs @ [c]) s'"
proof -
  have S: "length (seen s) = n" "distinct vs" "set vs \<subseteq> {..<n}" "\<forall>v<n. seen s ! v \<longleftrightarrow> v \<in> set vs"
    "vs \<noteq> [] \<longrightarrow> hd vs = a" "distance s ! a = 0" using inv by (simp_all add: search_inv_def seen_ok_def)
  have cn: "c < n" "c \<notin> set vs" "vs = [] \<longrightarrow> c = a" using c by (simp_all add: next_ok_def)
  have "a \<in> set (vs @ [c])" using S(5) cn(3) by (cases vs) auto
  then have "distance s' ! a = 0" using relaxed_nth(1)[OF rel a(1)] S(6) by auto
  then have "seen_ok n a (vs @ [c]) s'"
    using rel S cn by (auto simp: seen_ok_def relaxed_def nth_list_update hd_append)
  moreover have "distance s' ! ((vs @ [c]) ! i) \<le> int i * w" if i: "i < Suc (length vs)" for i
  proof -
    have "(vs @ [c]) ! i \<in> set (vs @ [c])" using i by (intro nth_mem) simp
    then have "distance s' ! ((vs @ [c]) ! i) = distance s ! ((vs @ [c]) ! i)"
      using relaxed_nth(1)[OF rel, of "(vs @ [c]) ! i"] S(3) cn(1) by auto
    then show ?thesis
      using inv next_distance(1)[OF inv c a] i by (auto simp: search_inv_def budget_ok_def nth_append less_Suc_eq)
  qed
  ultimately show ?thesis
    using relaxed_tree[OF inv c a rel] relaxed_nearest[OF inv c rel] by (simp add: search_inv_def budget_ok_def)
qed

definition finished :: "nat \<Rightarrow> nat list \<Rightarrow> search \<Rightarrow> bool" where
  "finished n vs s \<longleftrightarrow> vs \<noteq> [] \<and> (\<forall>v<n. v \<notin> set vs \<longrightarrow> int_limit \<le> distance s ! v)"

lemma search_loop_finishes:
  assumes "a < n" "0 \<le> w" "\<forall>u<n. \<forall>v<n. weight g u v \<le> w" "int n * w < int_limit"
  shows "search_inv g n a w vs s \<Longrightarrow> next_ok n a vs s c \<or> c \<in> set vs \<and> finished n vs s \<Longrightarrow>
    \<exists>vs' s'. search_loop g n c s = Inr s' \<and> search_inv g n a w vs' s' \<and> finished n vs' s'"
proof (induction "n - length vs" arbitrary: vs s c rule: less_induct)
  case less
  have S: "length (seen s) = n" "distinct vs" "set vs \<subseteq> {..<n}" "\<forall>v<n. seen s ! v \<longleftrightarrow> v \<in> set vs"
    using less.prems(1) by (simp_all add: search_inv_def seen_ok_def)
  from less.prems(2) show ?case
  proof
    assume c: "next_ok n a vs s c"
    then have cn: "c < n" "c \<notin> set vs" by (simp_all add: next_ok_def)
    obtain s' where s': "relax_all g c [0..<n] (s\<lparr>seen := (seen s)[c := True]\<rparr>) = Inr s'" "relaxed g n vs c s s'"
      using relax_all_relaxed[OF less.prems(1) c assms] by blast
    have inv': "search_inv g n a w (vs @ [c]) s'" by (rule relaxed_inv[OF less.prems(1) c assms(1-3) s'(2)])
    then have seen': "\<forall>v<n. seen s' ! v \<longleftrightarrow> v \<in> set (vs @ [c])" by (simp add: search_inv_def seen_ok_def)
    have "card (insert c (set vs)) \<le> card {..<n}" using cn S(3) by (intro card_mono) auto
    then have fewer: "n - length (vs @ [c]) < n - length vs" using cn S(2) by (simp add: distinct_card)
    define d where "d = select_next s' [0..<n] int_limit c"
    have "next_ok n a (vs @ [c]) s' d \<or> d \<in> set (vs @ [c]) \<and> finished n (vs @ [c]) s'"
      using select_next_spec[of s' "[0..<n]" int_limit c] seen' unfolding d_def[symmetric]
      by (auto simp: next_ok_def finished_def)
    then obtain vs' t where t: "search_loop g n d s' = Inr t" "search_inv g n a w vs' t" "finished n vs' t"
      using less.hyps[OF fewer inv'] by blast
    have "search_loop g n c s = Inr t"
      using t(1) s'(1) S(1,4) cn by (subst search_loop.simps) (simp add: d_def)
    then show ?thesis using t by blast
  next
    assume c: "c \<in> set vs \<and> finished n vs s"
    then have "c < n" "seen s ! c" using S(3,4) by auto
    then have "search_loop g n c s = Inr s" by (subst search_loop.simps) simp
    then show ?thesis using less.prems(1) c by blast
  qed
qed

lemma search_new_inv:
  "a < n \<Longrightarrow> search_inv g n a w [] (search_new n a)" "a < n \<Longrightarrow> next_ok n a [] (search_new n a) a"
  by (auto simp: search_inv_def seen_ok_def tree_ok_def nearest_ok_def budget_ok_def next_ok_def search_new_def
      nth_list_update int_limit_def)

section \<open>The result\<close>

lemma finished_shortest:
  assumes inv: "search_inv g n a w vs s" and fin: "finished n vs s"
    and w: "0 \<le> w" "\<forall>u<n. \<forall>v<n. weight g u v \<le> w" "int n * w < int_limit"
  shows "path_between g n a b xs \<Longrightarrow> b \<in> set vs \<and> distance s ! b \<le> path_weight g xs"
proof (induction xs arbitrary: b rule: rev_induct)
  case (snoc b' xs)
  have S: "distinct vs" "set vs \<subseteq> {..<n}" "vs \<noteq> []" "hd vs = a" "distance s ! a = 0"
    using inv fin by (auto simp: search_inv_def seen_ok_def finished_def)
  have b: "b' = b" "b < n" using snoc.prems by (auto simp: path_between_def)
  show ?case
  proof (cases "xs = []")
    case True
    then show ?thesis using snoc.prems b S by (auto simp: path_between_def)
  next
    case False
    define u where "u = last xs"
    have "path_between g n a u xs" and e: "0 \<le> weight g u b"
      using snoc.prems False b path_extend(2)[OF False, of g b] by (auto simp: path_between_def u_def)
    then have u: "u \<in> set vs" "distance s ! u \<le> path_weight g xs" using snoc.IH by blast+
    have step: "distance s ! b \<le> distance s ! u + weight g u b"
      using inv u(1) b(2) e by (simp add: search_inv_def nearest_ok_def)
    obtain i where i: "i < length vs" "u = vs ! i" using u(1) by (metis in_set_conv_nth)
    have "card (set vs) \<le> card {..<n}" using S(2) by (intro card_mono) auto
    then have "Suc i \<le> n" using i(1) S(1) by (simp add: distinct_card)
    then have "int i * w + w \<le> int n * w" using w(1) mult_right_mono[of "int i + 1" "int n" w] by (simp add: distrib_right)
    moreover have "distance s ! u \<le> int i * w" using inv i by (simp add: search_inv_def budget_ok_def)
    moreover have "weight g u b \<le> w" using w(2) u(1) b(2) S(2) by auto
    ultimately have "distance s ! b < int_limit" using step w(3) by linarith
    then have "b \<in> set vs" using fin b(2) by (auto simp: finished_def)
    then show ?thesis using step u(2) path_extend(1)[OF False, of g b] b(1) by (simp add: u_def)
  qed
qed (simp add: path_between_def)

lemma walk_back_path:
  assumes inv: "search_inv g n a w vs s" and vs: "vs \<noteq> []"
  shows "i < length vs \<Longrightarrow> \<exists>xs. walk_back a (previous s) (vs ! i) acc = Some (Inr (acc @ rev xs)) \<and>
    path_between g n a (vs ! i) xs \<and> path_weight g xs = distance s ! (vs ! i)"
proof (induction i arbitrary: acc rule: less_induct)
  case (less i)
  have S: "distinct vs" "set vs \<subseteq> {..<n}" "vs ! 0 = a" "distance s ! a = 0"
    using inv vs by (auto simp: search_inv_def seen_ok_def hd_conv_nth)
  have v: "vs ! i \<in> set vs" "vs ! i < n" using less.prems S(2) nth_mem by auto
  show ?case
  proof (cases "i = 0")
    case True
    then show ?thesis using S v by (intro exI[of _ "[a]"]) (simp add: walk_back.simps path_between_def)
  next
    case False
    then have va: "vs ! i \<noteq> a" using S(1,3) less.prems by (metis length_pos_if_in_set nth_eq_iff_index_eq v(1))
    have "case previous s ! (vs ! i) of None \<Rightarrow> distance s ! (vs ! i) = int_limit \<and> vs ! i \<notin> set vs
      | Some p \<Rightarrow> p \<in> set vs \<and> 0 \<le> weight g p (vs ! i) \<and> distance s ! (vs ! i) = distance s ! p + weight g p (vs ! i)"
      using inv v(2) va by (simp add: search_inv_def tree_ok_def)
    then obtain p where p: "previous s ! (vs ! i) = Some p" "0 \<le> weight g p (vs ! i)"
      "distance s ! (vs ! i) = distance s ! p + weight g p (vs ! i)"
      using v(1) by (cases "previous s ! (vs ! i)") auto
    then have "p \<in> set (take i vs)" using inv less.prems False by (simp add: search_inv_def tree_ok_def)
    then obtain j where j: "j < i" "p = vs ! j" using less.prems by (auto simp: in_set_conv_nth)
    obtain xs where xs: "walk_back a (previous s) p (acc @ [vs ! i]) = Some (Inr ((acc @ [vs ! i]) @ rev xs))"
      "path_between g n a p xs" "path_weight g xs = distance s ! p"
      using less.IH[OF j(1), of "acc @ [vs ! i]"] j less.prems by auto
    have "walk_back a (previous s) (vs ! i) acc = Some (Inr (acc @ rev (xs @ [vs ! i])))"
      using va p(1) xs(1) by (subst walk_back.simps) simp
    moreover have "path_between g n a (vs ! i) (xs @ [vs ! i])"
      using xs(2) v p(2) path_extend(2)[of xs g "vs ! i"] by (auto simp: path_between_def)
    moreover have "path_weight g (xs @ [vs ! i]) = distance s ! (vs ! i)"
      using xs p(3) path_extend(1)[of xs g "vs ! i"] by (simp add: path_between_def)
    ultimately show ?thesis by blast
  qed
qed

text \<open>C18: The result is a path of least weight when there is a path at all; otherwise the function reads a parent that
  nothing has set.\<close>

theorem dijkstra_shortest:
  assumes "a < n" "b < n" "0 \<le> w" "\<forall>u<n. \<forall>v<n. weight g u v \<le> w" "int n * w < int_limit"
  shows "if \<exists>ys. path_between g n a b ys
    then \<exists>xs. find_shortest_path g n a b = Some (Inr xs) \<and> path_between g n a b xs \<and>
      (\<forall>ys. path_between g n a b ys \<longrightarrow> path_weight g xs \<le> path_weight g ys)
    else find_shortest_path g n a b = Some (Inl Undefined)"
proof -
  obtain vs s where run: "search_loop g n a (search_new n a) = Inr s" "search_inv g n a w vs s" "finished n vs s"
    using search_loop_finishes[OF assms(1,3,4,5) search_new_inv(1)[OF assms(1)]] search_new_inv(2)[OF assms(1)] by blast
  have vs: "vs \<noteq> []" "hd vs = a" using run(2,3) by (auto simp: search_inv_def seen_ok_def finished_def)
  note best = finished_shortest[OF run(2,3) assms(3,4,5)]
  show ?thesis
  proof (cases "b \<in> set vs")
    case True
    then obtain i where "i < length vs" "b = vs ! i" by (metis in_set_conv_nth)
    then obtain xs where xs: "walk_back a (previous s) b [] = Some (Inr (rev xs))" "path_between g n a b xs"
      "path_weight g xs = distance s ! b" using walk_back_path[OF run(2) vs(1), of i "[]"] by auto
    have "find_shortest_path g n a b = Some (Inr xs)" by (simp add: find_shortest_path_def run(1) xs(1))
    then show ?thesis using xs best by auto
  next
    case False
    then have none: "\<not> path_between g n a b ys" for ys using best by blast
    have ba: "b \<noteq> a" using False vs by auto
    have far: "int_limit \<le> distance s ! b" using run(3) False assms(2) by (simp add: finished_def)
    have "previous s ! b = None"
    proof (cases "previous s ! b")
      case (Some p)
      then have p: "p \<in> set vs" "0 \<le> weight g p b" "distance s ! b = distance s ! p + weight g p b"
        using run(2) ba assms(2) by (auto simp: search_inv_def tree_ok_def)
      then obtain i where i: "i < length vs" "p = vs ! i" by (metis in_set_conv_nth)
      obtain xs where "path_between g n a p xs" using walk_back_path[OF run(2) vs(1) i(1), of "[]"] i(2) by auto
      then have "path_between g n a b (xs @ [b])"
        using p(2) assms(2) path_extend(2)[of xs g b] by (auto simp: path_between_def)
      then show ?thesis using none by blast
    qed simp
    then have "find_shortest_path g n a b = Some (Inl Undefined)"
      using ba by (simp add: find_shortest_path_def run(1) walk_back.simps)
    then show ?thesis using none by auto
  qed
qed

text \<open>The map of the program's main module.\<close>

definition main_map :: weights where
  "main_map =
     [[-1, -1, -1, -1, -1, -1, -1, -1, -1, -1],
      [-1,  0,  7,  9, -1, -1, 14, -1, -1, -1],
      [-1,  7,  0, 10, 15, -1, -1, -1, -1, -1],
      [-1,  9, 10,  0, 11, -1,  2, -1, -1, -1],
      [-1, -1, 15, 11,  0,  6, -1, -1, -1, -1],
      [-1, -1, -1, -1,  6,  0,  9, -1, -1, -1],
      [-1, 14, -1,  2, -1,  9, -1, -1, -1, -1],
      [-1, -1, -1, -1, -1, -1, -1, -1, -1, -1],
      [-1, -1, -1, -1, -1, -1, -1, -1, -1, -1],
      [-1, -1, -1, -1, -1, -1, -1, -1, -1, -1]]"

lemma main_map_weights: "\<forall>u<10. \<forall>v<10. weight main_map u v \<le> 15"
  by (simp add: weight_def main_map_def All_less_Suc numeral_eq_Suc)

theorem dijkstra_shortest_witness:
  "\<exists>xs. find_shortest_path main_map 10 1 5 = Some (Inr xs) \<and> path_weight main_map xs \<le> 20"
proof -
  have path: "path_between main_map 10 1 5 [1, 3, 6, 5]" "path_weight main_map [1, 3, 6, 5] = 20"
    by (simp_all add: path_between_def weight_def main_map_def)
  have "if \<exists>ys. path_between main_map 10 1 5 ys
    then \<exists>xs. find_shortest_path main_map 10 1 5 = Some (Inr xs) \<and> path_between main_map 10 1 5 xs \<and>
      (\<forall>ys. path_between main_map 10 1 5 ys \<longrightarrow> path_weight main_map xs \<le> path_weight main_map ys)
    else find_shortest_path main_map 10 1 5 = Some (Inl Undefined)"
    by (rule dijkstra_shortest[OF _ _ _ main_map_weights]) (simp_all add: int_limit_def)
  then show ?thesis using path by metis
qed

end
