(* ===== verification/Ex_Mofunction.thy ===== *)
theory Ex_Mofunction
  imports Prelude
begin

text \<open>
  The move-only function object of \<open>exercises/move-only-function.cpp\<close>: a target of any type on the heap, an erased
  dispatch that allocates, copies, moves and deletes it, and an erased call. Heap cells remember the type they were
  made with, so an access through the dispatch of another type is a fault. The theory shows which uses keep every
  target owned by one function object of its type, without leaks, and that assignments lose that.
\<close>

section \<open>Types, memory and errors\<close>

datatype mo_error = Fault cpp_fault | Bad_erasure_trait | Bad_function_call

definition chain :: "mo_error + 'a \<Rightarrow> ('a \<Rightarrow> mo_error + 'b) \<Rightarrow> mo_error + 'b" where
  "chain m f = (case m of Inl e \<Rightarrow> Inl e | Inr a \<Rightarrow> f a)"

lemma chain_simps [simp]: "chain (Inl e) f = Inl e" "chain (Inr a) f = f a"
  by (simp_all add: chain_def)

text \<open>How a function object is called: \<open>R (As)\<close>, \<open>R (As) const\<close> or \<open>R (As) &&\<close>.\<close>

datatype signature = Plain | Const | Rvref

text \<open>What a type offers, with values \<open>'v\<close>, the state outside of the heap \<open>'w\<close>, arguments \<open>'a\<close> and results \<open>'r\<close>.
  An operation that the type does not have is \<open>None\<close>. \<open>forward_construct\<close> makes a value from the argument that
  the constructor of a function object forwards.\<close>

record ('v, 'w, 'a, 'r) target_type =
  type_name :: string
  forward_construct :: "'v \<Rightarrow> 'w \<Rightarrow> 'v \<times> 'w"
  default_construct :: "('w \<Rightarrow> 'v \<times> 'w) option"
  destruct :: "('v \<Rightarrow> 'w \<Rightarrow> 'w) option"
  copy_construct :: "('v \<Rightarrow> 'w \<Rightarrow> 'v \<times> 'w) option"
  copy_assign :: "('v \<Rightarrow> 'v \<Rightarrow> 'w \<Rightarrow> 'v \<times> 'w) option"
  move_construct :: "('v \<Rightarrow> 'w \<Rightarrow> 'v \<times> 'v \<times> 'w) option"
  move_assign :: "('v \<Rightarrow> 'v \<Rightarrow> 'w \<Rightarrow> 'v \<times> 'v \<times> 'w) option"
  invoke :: "signature \<Rightarrow> ('a \<Rightarrow> 'v \<Rightarrow> 'w \<Rightarrow> 'r \<times> 'v \<times> 'w) option"

text \<open>A cell is raw storage until an object is constructed in it.\<close>

record ('v, 'w, 'a, 'r) memory =
  cells :: "nat \<Rightarrow> (('v, 'w, 'a, 'r) target_type \<times> 'v option) option"
  next_cell :: nat
  outside :: 'w

definition put_cell ::
    "nat \<Rightarrow> ('v, 'w, 'a, 'r) target_type \<Rightarrow> 'v option \<Rightarrow> 'w \<Rightarrow> ('v, 'w, 'a, 'r) memory \<Rightarrow> ('v, 'w, 'a, 'r) memory" where
  "put_cell a T v w m = m\<lparr>cells := (cells m)(a := Some (T, v)), outside := w\<rparr>"

definition storage_at :: "('v, 'w, 'a, 'r) target_type \<Rightarrow> nat option \<Rightarrow> ('v, 'w, 'a, 'r) memory \<Rightarrow> mo_error + nat" where
  "storage_at T p m =
     (case p of
        None \<Rightarrow> Inl (Fault Undefined)
      | Some a \<Rightarrow> (case cells m a of
            None \<Rightarrow> Inl (Fault Undefined)
          | Some (T', v) \<Rightarrow> if type_name T' = type_name T then Inr a else Inl (Fault Undefined)))"

definition object_at :: "('v, 'w, 'a, 'r) target_type \<Rightarrow> nat option \<Rightarrow> ('v, 'w, 'a, 'r) memory \<Rightarrow> mo_error + nat \<times> 'v" where
  "object_at T p m =
     (case p of
        None \<Rightarrow> Inl (Fault Undefined)
      | Some a \<Rightarrow> (case cells m a of
            Some (T', Some v) \<Rightarrow> if type_name T' = type_name T then Inr (a, v) else Inl (Fault Undefined)
          | _ \<Rightarrow> Inl (Fault Undefined)))"

section \<open>Erased operations\<close>

type_synonym ('v, 'w, 'a, 'r) effect = "mo_error + nat option \<times> ('v, 'w, 'a, 'r) memory"

definition typed_allocate :: "('v, 'w, 'a, 'r) target_type \<Rightarrow> ('v, 'w, 'a, 'r) memory \<Rightarrow> ('v, 'w, 'a, 'r) effect" where
  "typed_allocate T m =
     Inr (Some (next_cell m), m\<lparr>cells := (cells m)(next_cell m := Some (T, None)), next_cell := Suc (next_cell m)\<rparr>)"

definition typed_delete ::
    "('v, 'w, 'a, 'r) target_type \<Rightarrow> nat option \<Rightarrow> ('v, 'w, 'a, 'r) memory \<Rightarrow> ('v, 'w, 'a, 'r) effect" where
  "typed_delete T p m =
     (if p = None then Inr (None, m)
      else chain (object_at T p m) (\<lambda>(a, v).
        case destruct T of
          None \<Rightarrow> Inl (Fault Undefined)
        | Some d \<Rightarrow> Inr (None, m\<lparr>cells := (cells m)(a := None), outside := d v (outside m)\<rparr>)))"

definition typed_construct ::
    "('v, 'w, 'a, 'r) target_type \<Rightarrow> nat option \<Rightarrow> ('v, 'w, 'a, 'r) memory \<Rightarrow> ('v, 'w, 'a, 'r) effect" where
  "typed_construct T p m =
     (case default_construct T of
        None \<Rightarrow> Inl Bad_erasure_trait
      | Some c \<Rightarrow> chain (storage_at T p m) (\<lambda>a.
          case c (outside m) of (v, w) \<Rightarrow> Inr (None, put_cell a T (Some v) w m)))"

definition typed_destroy ::
    "('v, 'w, 'a, 'r) target_type \<Rightarrow> nat option \<Rightarrow> ('v, 'w, 'a, 'r) memory \<Rightarrow> ('v, 'w, 'a, 'r) effect" where
  "typed_destroy T p m =
     (case destruct T of
        None \<Rightarrow> Inl Bad_erasure_trait
      | Some d \<Rightarrow> chain (object_at T p m) (\<lambda>(a, v). Inr (None, put_cell a T None (d v (outside m)) m)))"

definition typed_copy_construct ::
    "('v, 'w, 'a, 'r) target_type \<Rightarrow> nat option \<Rightarrow> nat option \<Rightarrow> ('v, 'w, 'a, 'r) memory \<Rightarrow> ('v, 'w, 'a, 'r) effect" where
  "typed_copy_construct T src dst m =
     (case copy_construct T of
        None \<Rightarrow> Inl Bad_erasure_trait
      | Some c \<Rightarrow> chain (object_at T src m) (\<lambda>(_, v). chain (storage_at T dst m) (\<lambda>b.
          case c v (outside m) of (u, w) \<Rightarrow> Inr (None, put_cell b T (Some u) w m))))"

definition typed_copy_assign ::
    "('v, 'w, 'a, 'r) target_type \<Rightarrow> nat option \<Rightarrow> nat option \<Rightarrow> ('v, 'w, 'a, 'r) memory \<Rightarrow> ('v, 'w, 'a, 'r) effect" where
  "typed_copy_assign T src dst m =
     (case copy_assign T of
        None \<Rightarrow> Inl Bad_erasure_trait
      | Some c \<Rightarrow> chain (object_at T src m) (\<lambda>(_, v). chain (object_at T dst m) (\<lambda>(b, u).
          case c v u (outside m) of (u, w) \<Rightarrow> Inr (None, put_cell b T (Some u) w m))))"

definition typed_move_construct ::
    "('v, 'w, 'a, 'r) target_type \<Rightarrow> nat option \<Rightarrow> nat option \<Rightarrow> ('v, 'w, 'a, 'r) memory \<Rightarrow> ('v, 'w, 'a, 'r) effect" where
  "typed_move_construct T src dst m =
     (case move_construct T of
        None \<Rightarrow> Inl Bad_erasure_trait
      | Some c \<Rightarrow> chain (object_at T src m) (\<lambda>(a, v). chain (storage_at T dst m) (\<lambda>b.
          case c v (outside m) of (v, u, w) \<Rightarrow> Inr (None, put_cell b T (Some u) w (put_cell a T (Some v) w m)))))"

definition typed_move_assign ::
    "('v, 'w, 'a, 'r) target_type \<Rightarrow> nat option \<Rightarrow> nat option \<Rightarrow> ('v, 'w, 'a, 'r) memory \<Rightarrow> ('v, 'w, 'a, 'r) effect" where
  "typed_move_assign T src dst m =
     (case move_assign T of
        None \<Rightarrow> Inl Bad_erasure_trait
      | Some c \<Rightarrow> chain (object_at T src m) (\<lambda>(a, v). chain (object_at T dst m) (\<lambda>(b, u).
          case c v u (outside m) of (v, u, w) \<Rightarrow> Inr (None, put_cell b T (Some u) w (put_cell a T (Some v) w m)))))"

text \<open>The call of a target as the signature says; a type without that call is excluded when a function object is made.\<close>

definition typed_call ::
    "signature \<Rightarrow> ('v, 'w, 'a, 'r) target_type \<Rightarrow> nat option \<Rightarrow> 'a \<Rightarrow> ('v, 'w, 'a, 'r) memory \<Rightarrow>
     mo_error + 'r \<times> ('v, 'w, 'a, 'r) memory" where
  "typed_call sig T p x m =
     (case invoke T sig of
        None \<Rightarrow> Inl (Fault Undefined)
      | Some f \<Rightarrow> chain (object_at T p m) (\<lambda>(a, v).
          case f x v (outside m) of (r, v, w) \<Rightarrow> Inr (r, put_cell a T (Some v) w m)))"

datatype operation =
    Do_allocate | Do_delete | Do_destroy | Do_default_construct
  | Do_copy_construct | Do_copy_assign | Do_move_construct | Do_move_assign

fun typed_dispatch ::
    "('v, 'w, 'a, 'r) target_type \<Rightarrow> operation \<Rightarrow> nat option \<Rightarrow> nat option \<Rightarrow> ('v, 'w, 'a, 'r) memory \<Rightarrow>
     ('v, 'w, 'a, 'r) effect" where
  "typed_dispatch T Do_allocate lhs rhs m = typed_allocate T m"
| "typed_dispatch T Do_delete lhs rhs m = typed_delete T lhs m"
| "typed_dispatch T Do_default_construct lhs rhs m = typed_construct T lhs m"
| "typed_dispatch T Do_destroy lhs rhs m = typed_destroy T lhs m"
| "typed_dispatch T Do_copy_construct lhs rhs m = typed_copy_construct T lhs rhs m"
| "typed_dispatch T Do_copy_assign lhs rhs m = typed_copy_assign T lhs rhs m"
| "typed_dispatch T Do_move_construct lhs rhs m = typed_move_construct T lhs rhs m"
| "typed_dispatch T Do_move_assign lhs rhs m = typed_move_assign T lhs rhs m"

section \<open>Function objects\<close>

text \<open>The erased functions are pointers, here to the type they were made for.\<close>

record ('v, 'w, 'a, 'r) mofunction =
  erased_call :: "('v, 'w, 'a, 'r) target_type option"
  erased_dispatch :: "('v, 'w, 'a, 'r) target_type option"
  address :: "nat option"

definition operate ::
    "('v, 'w, 'a, 'r) mofunction \<Rightarrow> operation \<Rightarrow> nat option \<Rightarrow> nat option \<Rightarrow> ('v, 'w, 'a, 'r) memory \<Rightarrow>
     ('v, 'w, 'a, 'r) effect" where
  "operate f op lhs rhs m =
     (case erased_dispatch f of None \<Rightarrow> Inl (Fault Undefined) | Some T \<Rightarrow> typed_dispatch T op lhs rhs m)"

definition operate_call ::
    "signature \<Rightarrow> ('v, 'w, 'a, 'r) mofunction \<Rightarrow> nat option \<Rightarrow> 'a \<Rightarrow> ('v, 'w, 'a, 'r) memory \<Rightarrow>
     mo_error + 'r \<times> ('v, 'w, 'a, 'r) memory" where
  "operate_call sig f p x m =
     (case erased_call f of None \<Rightarrow> Inl Bad_function_call | Some T \<Rightarrow> typed_call sig T p x m)"

definition storage_make ::
    "('v, 'w, 'a, 'r) target_type \<Rightarrow> 'v \<Rightarrow> ('v, 'w, 'a, 'r) memory \<Rightarrow> nat option \<times> ('v, 'w, 'a, 'r) memory" where
  "storage_make T x m =
     (case forward_construct T x (outside m) of (v, w) \<Rightarrow>
        (Some (next_cell m), (put_cell (next_cell m) T (Some v) w m)\<lparr>next_cell := Suc (next_cell m)\<rparr>))"

definition storage_release ::
    "('v, 'w, 'a, 'r) mofunction \<Rightarrow> ('v, 'w, 'a, 'r) memory \<Rightarrow> mo_error + ('v, 'w, 'a, 'r) memory" where
  "storage_release f m =
     (if address f \<noteq> None then chain (operate f Do_delete (address f) None m) (\<lambda>(_, m). Inr m) else Inr m)"

definition storage_copy_construct ::
    "('v, 'w, 'a, 'r) mofunction \<Rightarrow> nat option \<Rightarrow> ('v, 'w, 'a, 'r) memory \<Rightarrow>
     mo_error + ('v, 'w, 'a, 'r) mofunction \<times> ('v, 'w, 'a, 'r) memory" where
  "storage_copy_construct f that_address m =
     chain (operate f Do_allocate None None m) (\<lambda>(p, m).
     chain (operate f Do_copy_construct that_address p m) (\<lambda>(_, m). Inr (f\<lparr>address := p\<rparr>, m)))"

definition storage_copy_assign ::
    "('v, 'w, 'a, 'r) mofunction \<Rightarrow> nat option \<Rightarrow> ('v, 'w, 'a, 'r) memory \<Rightarrow>
     mo_error + ('v, 'w, 'a, 'r) mofunction \<times> ('v, 'w, 'a, 'r) memory" where
  "storage_copy_assign f that_address m =
     (if address f \<noteq> that_address
      then chain (if address f = None then operate f Do_allocate None None m else Inr (address f, m)) (\<lambda>(p, m).
           chain (operate f Do_copy_assign that_address p m) (\<lambda>(_, m). Inr (f\<lparr>address := p\<rparr>, m)))
      else Inr (f, m))"

definition mo_empty :: "('v, 'w, 'a, 'r) mofunction" where
  "mo_empty = \<lparr>erased_call = None, erased_dispatch = None, address = None\<rparr>"

definition mo_target ::
    "('v, 'w, 'a, 'r) target_type \<Rightarrow> 'v \<Rightarrow> ('v, 'w, 'a, 'r) memory \<Rightarrow>
     ('v, 'w, 'a, 'r) mofunction \<times> ('v, 'w, 'a, 'r) memory" where
  "mo_target T x m = (case storage_make T x m of (p, m) \<Rightarrow> (\<lparr>erased_call = Some T, erased_dispatch = Some T, address = p\<rparr>, m))"

text \<open>Moving: the new object and what is left of the old one. The pointers of the dispatch are copied, the addresses
  swapped.\<close>

definition mo_move_construct ::
    "('v, 'w, 'a, 'r) mofunction \<Rightarrow> ('v, 'w, 'a, 'r) mofunction \<times> ('v, 'w, 'a, 'r) mofunction" where
  "mo_move_construct f = (f, f\<lparr>address := None\<rparr>)"

definition mo_move_assign ::
    "('v, 'w, 'a, 'r) mofunction \<Rightarrow> ('v, 'w, 'a, 'r) mofunction \<Rightarrow>
     ('v, 'w, 'a, 'r) mofunction \<times> ('v, 'w, 'a, 'r) mofunction" where
  "mo_move_assign g f = (g\<lparr>erased_call := erased_call f, erased_dispatch := erased_dispatch f, address := address f\<rparr>,
     f\<lparr>address := address g\<rparr>)"

text \<open>Assigning a target destroys a temporary that is a storage only: its \<open>release\<close> takes it for a whole function
  object. Assigning \<open>nullptr\<close> returns nothing where a reference is promised.\<close>

definition mo_assign_target ::
    "('v, 'w, 'a, 'r) mofunction \<Rightarrow> ('v, 'w, 'a, 'r) target_type \<Rightarrow> 'v \<Rightarrow> ('v, 'w, 'a, 'r) memory \<Rightarrow>
     mo_error + ('v, 'w, 'a, 'r) mofunction \<times> ('v, 'w, 'a, 'r) memory" where
  "mo_assign_target f T x m =
     (case storage_make T x m of (p, m) \<Rightarrow>
        if address f = None then Inr (\<lparr>erased_call = Some T, erased_dispatch = Some T, address = p\<rparr>, m)
        else Inl (Fault Undefined))"

definition mo_assign_null ::
    "('v, 'w, 'a, 'r) mofunction \<Rightarrow> ('v, 'w, 'a, 'r) memory \<Rightarrow>
     mo_error + ('v, 'w, 'a, 'r) mofunction \<times> ('v, 'w, 'a, 'r) memory" where
  "mo_assign_null f m = chain (storage_release f m) (\<lambda>m. Inl (Fault Undefined))"

definition mo_swap ::
    "('v, 'w, 'a, 'r) mofunction \<Rightarrow> ('v, 'w, 'a, 'r) mofunction \<Rightarrow>
     ('v, 'w, 'a, 'r) mofunction \<times> ('v, 'w, 'a, 'r) mofunction" where
  "mo_swap f g = (g, f)"

definition mo_destroy ::
    "('v, 'w, 'a, 'r) mofunction \<Rightarrow> ('v, 'w, 'a, 'r) memory \<Rightarrow> mo_error + ('v, 'w, 'a, 'r) memory" where
  "mo_destroy f m = storage_release f m"

definition mo_bool :: "('v, 'w, 'a, 'r) mofunction \<Rightarrow> bool" where
  "mo_bool f \<longleftrightarrow> address f \<noteq> None"

definition mo_equals_null :: "('v, 'w, 'a, 'r) mofunction \<Rightarrow> bool" where
  "mo_equals_null f \<longleftrightarrow> \<not> mo_bool f"

definition mo_call ::
    "signature \<Rightarrow> ('v, 'w, 'a, 'r) mofunction \<Rightarrow> 'a \<Rightarrow> ('v, 'w, 'a, 'r) memory \<Rightarrow>
     mo_error + 'r \<times> ('v, 'w, 'a, 'r) memory" where
  "mo_call sig f x m = operate_call sig f (address f) x m"

section \<open>Ownership\<close>

text \<open>A program with variables that hold function objects of one signature. It makes and destroys them, moves them
  into new variables, swaps them and calls them; it move-assigns only where the assigned variable is empty
  or has a target of the same type, and assigns a target only to an empty variable.\<close>

record ('v, 'w, 'a, 'r) program =
  vars :: "nat \<Rightarrow> ('v, 'w, 'a, 'r) mofunction option"
  heap :: "('v, 'w, 'a, 'r) memory"

definition usable :: "signature \<Rightarrow> ('v, 'w, 'a, 'r) target_type \<Rightarrow> bool" where
  "usable sig T \<longleftrightarrow> destruct T \<noteq> None \<and> invoke T sig \<noteq> None"

inductive mo_run :: "signature \<Rightarrow> ('v, 'w, 'a, 'r) program \<Rightarrow> bool" for sig where
  run_start: "mo_run sig \<lparr>vars = (\<lambda>_. None), heap = \<lparr>cells = (\<lambda>_. None), next_cell = 0, outside = w\<rparr>\<rparr>"
| run_empty: "mo_run sig c \<Longrightarrow> vars c i = None \<Longrightarrow> mo_run sig (c\<lparr>vars := (vars c)(i := Some mo_empty)\<rparr>)"
| run_target: "mo_run sig c \<Longrightarrow> vars c i = None \<Longrightarrow> usable sig T \<Longrightarrow> mo_target T x (heap c) = (f, m) \<Longrightarrow>
    mo_run sig \<lparr>vars = (vars c)(i := Some f), heap = m\<rparr>"
| run_move: "mo_run sig c \<Longrightarrow> vars c i = Some f \<Longrightarrow> vars c j = None \<Longrightarrow> mo_move_construct f = (g, f') \<Longrightarrow>
    mo_run sig (c\<lparr>vars := (vars c)(i := Some f', j := Some g)\<rparr>)"
| run_move_assign: "mo_run sig c \<Longrightarrow> vars c i = Some f \<Longrightarrow> vars c j = Some g \<Longrightarrow> i \<noteq> j \<Longrightarrow>
    address g = None \<or> erased_dispatch f = erased_dispatch g \<Longrightarrow> mo_move_assign g f = (g', f') \<Longrightarrow>
    mo_run sig (c\<lparr>vars := (vars c)(i := Some f', j := Some g')\<rparr>)"
| run_assign_target: "mo_run sig c \<Longrightarrow> vars c i = Some f \<Longrightarrow> address f = None \<Longrightarrow> usable sig T \<Longrightarrow>
    mo_assign_target f T x (heap c) = Inr (f', m) \<Longrightarrow> mo_run sig \<lparr>vars = (vars c)(i := Some f'), heap = m\<rparr>"
| run_swap: "mo_run sig c \<Longrightarrow> vars c i = Some f \<Longrightarrow> vars c j = Some g \<Longrightarrow> i \<noteq> j \<Longrightarrow> mo_swap f g = (f', g') \<Longrightarrow>
    mo_run sig (c\<lparr>vars := (vars c)(i := Some f', j := Some g')\<rparr>)"
| run_call: "mo_run sig c \<Longrightarrow> vars c i = Some f \<Longrightarrow> mo_call sig f x (heap c) = Inr (r, m) \<Longrightarrow> mo_run sig (c\<lparr>heap := m\<rparr>)"
| run_destroy: "mo_run sig c \<Longrightarrow> vars c i = Some f \<Longrightarrow> mo_destroy f (heap c) = Inr m \<Longrightarrow>
    mo_run sig \<lparr>vars = (vars c)(i := None), heap = m\<rparr>"

text \<open>A function object with a target is the only owner of a cell with an object of its type, and every cell has
  an owner.\<close>

definition owns :: "signature \<Rightarrow> ('v, 'w, 'a, 'r) memory \<Rightarrow> ('v, 'w, 'a, 'r) mofunction \<Rightarrow> bool" where
  "owns sig m f \<longleftrightarrow> erased_call f = erased_dispatch f \<and>
     (\<forall>a. address f = Some a \<longrightarrow> (\<exists>T v. cells m a = Some (T, Some v) \<and> erased_dispatch f = Some T \<and> usable sig T))"

definition owner :: "(nat \<Rightarrow> ('v, 'w, 'a, 'r) mofunction option) \<Rightarrow> nat \<Rightarrow> nat \<Rightarrow> bool" where
  "owner vs i a \<longleftrightarrow> (\<exists>f. vs i = Some f \<and> address f = Some a)"

definition program_inv :: "signature \<Rightarrow> ('v, 'w, 'a, 'r) program \<Rightarrow> bool" where
  "program_inv sig c \<longleftrightarrow>
     (\<forall>i f. vars c i = Some f \<longrightarrow> owns sig (heap c) f) \<and>
     (\<forall>i j a. owner (vars c) i a \<longrightarrow> owner (vars c) j a \<longrightarrow> i = j) \<and>
     (\<forall>a. cells (heap c) a \<noteq> None \<longleftrightarrow> (\<exists>i. owner (vars c) i a)) \<and>
     (\<forall>a\<ge>next_cell (heap c). cells (heap c) a = None)"

lemma owns_call:
  assumes "owns sig m f" "address f = Some a"
  shows "\<exists>r w T v. mo_call sig f x m = Inr (r, put_cell a T (Some v) w m) \<and> erased_dispatch f = Some T \<and> usable sig T"
proof -
  obtain T v where T: "cells m a = Some (T, Some v)" "erased_dispatch f = Some T" "erased_call f = Some T" "usable sig T"
    using assms by (auto simp: owns_def)
  obtain h where h: "invoke T sig = Some h" using T(4) by (auto simp: usable_def)
  obtain r v' w where "h x v (outside m) = (r, v', w)" by (metis prod_cases3)
  then have "mo_call sig f x m = Inr (r, put_cell a T (Some v') w m)"
    using T assms(2) h by (simp add: mo_call_def operate_call_def typed_call_def object_at_def)
  then show ?thesis using T by blast
qed

lemma owns_destroy:
  assumes "owns sig m f"
  shows "\<exists>w. mo_destroy f m = Inr (case address f of None \<Rightarrow> m | Some a \<Rightarrow> m\<lparr>cells := (cells m)(a := None), outside := w\<rparr>)"
proof (cases "address f")
  case None
  then show ?thesis by (simp add: mo_destroy_def storage_release_def)
next
  case (Some a)
  then obtain T v where T: "cells m a = Some (T, Some v)" "erased_dispatch f = Some T" "usable sig T"
    using assms by (auto simp: owns_def)
  then obtain d where "destruct T = Some d" by (auto simp: usable_def)
  then show ?thesis
    using T Some by (auto simp: mo_destroy_def storage_release_def operate_def typed_delete_def object_at_def intro: exI[of _ "d v (outside m)"])
qed

lemma owns_elsewhere:
  assumes "owns sig m f" "\<And>b. address f = Some b \<Longrightarrow> cells m' b = cells m b"
  shows "owns sig m' f"
  using assms by (auto simp: owns_def)

lemma program_inv_target:
  assumes inv: "program_inv sig c" and T: "usable sig T" and old: "\<And>a. \<not> owner (vars c) i a"
    and made: "storage_make T x (heap c) = (p, m)"
  shows "program_inv sig \<lparr>vars = (vars c)(i := Some \<lparr>erased_call = Some T, erased_dispatch = Some T, address = p\<rparr>), heap = m\<rparr>"
proof -
  define n where "n = next_cell (heap c)"
  obtain v w where v: "forward_construct T x (outside (heap c)) = (v, w)" by fastforce
  have m: "p = Some n" "cells m = (cells (heap c))(n := Some (T, Some v))" "next_cell m = Suc n"
    using made v by (auto simp: storage_make_def put_cell_def n_def)
  have free: "cells (heap c) n = None" "\<forall>a\<ge>n. cells (heap c) a = None"
    using inv by (simp_all add: program_inv_def n_def)
  then have none: "\<not> owner (vars c) j n" for j using inv unfolding program_inv_def by blast
  define f0 where "f0 = \<lparr>erased_call = Some T, erased_dispatch = Some T, address = p\<rparr>"
  have owner': "owner ((vars c)(i := Some f0)) j a \<longleftrightarrow> (if j = i then a = n else owner (vars c) j a)" for j a
    by (auto simp: owner_def m(1) f0_def)
  have "owns sig m f" if "vars c j = Some f" for j f
  proof (rule owns_elsewhere)
    show "owns sig (heap c) f" using inv that by (simp add: program_inv_def)
    show "cells m b = cells (heap c) b" if "address f = Some b" for b
      using none[of j] \<open>vars c j = Some f\<close> that by (auto simp: m(2) owner_def)
  qed
  moreover have "owns sig m f0" using T by (simp add: owns_def f0_def m(1,2))
  ultimately have "\<forall>j f. ((vars c)(i := Some f0)) j = Some f \<longrightarrow> owns sig m f" by auto
  moreover have "\<forall>j k a. owner ((vars c)(i := Some f0)) j a \<longrightarrow> owner ((vars c)(i := Some f0)) k a \<longrightarrow> j = k"
    using inv none unfolding owner' program_inv_def by (auto split: if_splits)
  moreover have "\<forall>a. cells m a \<noteq> None \<longleftrightarrow> (\<exists>j. owner ((vars c)(i := Some f0)) j a)"
  proof
    fix a
    have "cells (heap c) a \<noteq> None \<longleftrightarrow> (\<exists>j. owner (vars c) j a)" using inv by (simp add: program_inv_def)
    then show "cells m a \<noteq> None \<longleftrightarrow> (\<exists>j. owner ((vars c)(i := Some f0)) j a)"
      unfolding owner' using old[of a] by (cases "a = n") (auto simp: m(2))
  qed
  moreover have "\<forall>a\<ge>next_cell m. cells m a = None" using free by (simp add: m(2,3))
  ultimately show ?thesis by (simp add: program_inv_def f0_def)
qed

lemma program_inv_pair:
  assumes inv: "program_inv sig c" and ij: "i \<noteq> j" and vs: "vs' = (vars c)(i := Some f', j := Some g')"
    and owns: "owns sig (heap c) f'" "owns sig (heap c) g'"
    and addresses: "\<And>a. (owner vs' i a \<longleftrightarrow> owner (vars c) j a) \<and> (owner vs' j a \<longleftrightarrow> owner (vars c) i a)"
  shows "program_inv sig (c\<lparr>vars := vs'\<rparr>)"
proof -
  have other: "k \<noteq> i \<Longrightarrow> k \<noteq> j \<Longrightarrow> owner vs' k a = owner (vars c) k a" for k a by (simp add: owner_def vs)
  define swap where "swap k = (if k = i then j else if k = j then i else k)" for k
  have to: "owner vs' k a = owner (vars c) (swap k) a" for k a
    using addresses[of a] other[of k a] by (auto simp: swap_def)
  have inj: "swap k = swap l \<Longrightarrow> k = l" for k l by (auto simp: swap_def split: if_splits)
  have "(\<exists>k. owner vs' k a) \<longleftrightarrow> (\<exists>k. owner (vars c) k a)" for a
    unfolding to using ij by (metis swap_def)
  moreover have "owns sig (heap c) f" if "vs' k = Some f" for k f
    using inv owns that by (auto simp: program_inv_def vs split: if_splits)
  moreover have "\<forall>k l a. owner vs' k a \<longrightarrow> owner vs' l a \<longrightarrow> k = l"
    using inv inj unfolding to program_inv_def by blast
  ultimately show ?thesis using inv by (simp add: program_inv_def)
qed

lemma owner_upd: "owner (vs(i := f)) k a \<longleftrightarrow> (if k = i then (\<exists>g. f = Some g \<and> address g = Some a) else owner vs k a)"
  by (simp add: owner_def)

lemma program_inv_empty:
  "program_inv sig c \<Longrightarrow> vars c i = None \<Longrightarrow> program_inv sig (c\<lparr>vars := (vars c)(i := Some mo_empty)\<rparr>)"
proof -
  assume inv: "program_inv sig c" "vars c i = None"
  have "owner ((vars c)(i := Some mo_empty)) k a \<longleftrightarrow> owner (vars c) k a" for k a
    using inv(2) by (simp add: owner_def mo_empty_def)
  moreover have "owns sig m mo_empty" for m :: "('v, 'w, 'a, 'r) memory" by (simp add: owns_def mo_empty_def)
  ultimately show ?thesis using inv(1) by (simp add: program_inv_def owns_def mo_empty_def)
qed

lemma program_inv_call:
  assumes inv: "program_inv sig c" and f: "vars c i = Some f" and call: "mo_call sig f x (heap c) = Inr (r, m)"
  shows "program_inv sig (c\<lparr>heap := m\<rparr>)"
proof -
  have owns: "owns sig (heap c) f" using inv f by (simp add: program_inv_def)
  obtain a where a: "address f = Some a"
  proof (cases "address f")
    case None
    then have False using call owns
      by (auto simp: mo_call_def operate_call_def typed_call_def object_at_def owns_def split: option.splits)
    then show ?thesis ..
  qed
  obtain T v w where m: "m = put_cell a T (Some v) w (heap c)" "erased_dispatch f = Some T" "usable sig T"
    using owns_call[OF owns a, of x] call by auto
  have "owns sig m g" if "vars c k = Some g" for k g
  proof -
    have g: "owns sig (heap c) g" using inv that by (simp add: program_inv_def)
    show ?thesis
    proof (cases "address g = Some a")
      case True
      then have "k = i" using inv that f a by (auto simp: program_inv_def owner_def)
      then show ?thesis using g that f m by (auto simp: owns_def put_cell_def)
    next
      case False
      then show ?thesis by (intro owns_elsewhere[OF g]) (simp add: m(1) put_cell_def)
    qed
  qed
  moreover have "cells m b = None \<longleftrightarrow> cells (heap c) b = None" for b
    using owns a by (auto simp: m(1) put_cell_def owns_def)
  moreover have "next_cell m = next_cell (heap c)" by (simp add: m(1) put_cell_def)
  ultimately show ?thesis using inv by (simp add: program_inv_def del: not_None_eq)
qed

lemma program_inv_destroy:
  assumes inv: "program_inv sig c" and f: "vars c i = Some f" and destroy: "mo_destroy f (heap c) = Inr m"
  shows "program_inv sig \<lparr>vars = (vars c)(i := None), heap = m\<rparr>"
proof -
  have owns: "owns sig (heap c) f" using inv f by (simp add: program_inv_def)
  obtain w where m: "m = (case address f of None \<Rightarrow> heap c | Some a \<Rightarrow> (heap c)\<lparr>cells := (cells (heap c))(a := None), outside := w\<rparr>)"
    using owns_destroy[OF owns] destroy by auto
  have cell: "cells m b = (if address f = Some b then None else cells (heap c) b)" "next_cell m = next_cell (heap c)" for b
    by (auto simp: m split: option.splits)
  have unique: "\<forall>i j a. owner (vars c) i a \<longrightarrow> owner (vars c) j a \<longrightarrow> i = j"
    and all: "\<forall>a. cells (heap c) a \<noteq> None \<longleftrightarrow> (\<exists>i. owner (vars c) i a)"
    and top: "\<forall>a\<ge>next_cell (heap c). cells (heap c) a = None" using inv by (simp_all add: program_inv_def)
  have i: "owner (vars c) i a \<longleftrightarrow> address f = Some a" for a by (simp add: owner_def f)
  have owner': "owner ((vars c)(i := None)) k a \<longleftrightarrow> k \<noteq> i \<and> owner (vars c) k a" for k a by (simp add: owner_upd)
  have "owns sig m g" if g: "vars c k = Some g" "k \<noteq> i" for k g
  proof (rule owns_elsewhere)
    show "owns sig (heap c) g" using inv g by (simp add: program_inv_def)
    show "cells m b = cells (heap c) b" if "address g = Some b" for b
      using unique g i[of b] that by (auto simp: cell(1) owner_def)
  qed
  moreover have "cells m a \<noteq> None \<longleftrightarrow> (\<exists>k. owner ((vars c)(i := None)) k a)" for a
    using all unique i[of a] unfolding owner' cell(1) by (cases "address f = Some a") auto
  moreover have "\<forall>a\<ge>next_cell m. cells m a = None" using top by (simp add: cell)
  moreover have "\<forall>k l a. owner ((vars c)(i := None)) k a \<longrightarrow> owner ((vars c)(i := None)) l a \<longrightarrow> k = l"
    using unique unfolding owner' by blast
  ultimately show ?thesis by (simp add: program_inv_def)
qed

lemma mo_run_inv: "mo_run sig c \<Longrightarrow> program_inv sig c"
proof (induction rule: mo_run.induct)
  case (run_start w)
  show ?case by (simp add: program_inv_def owner_def)
next
  case (run_empty c i)
  then show ?case by (rule_tac program_inv_empty)
next
  case (run_target c i T x f m)
  then show ?case
    using program_inv_target[OF run_target.IH run_target.hyps(3), of i x "fst (storage_make T x (heap c))" m]
    by (auto simp: mo_target_def owner_def split: prod.splits)
next
  case (run_move c i f j g f')
  then have "owns sig (heap c) f" "i \<noteq> j" by (auto simp: program_inv_def)
  then show ?case using run_move
    by (intro program_inv_pair[OF run_move.IH, of i j _ f' g]) (auto simp: mo_move_construct_def owns_def owner_def)
next
  case (run_move_assign c i f j g g' f')
  then have "owns sig (heap c) f" "owns sig (heap c) g" by (auto simp: program_inv_def)
  then show ?case using run_move_assign
    by (intro program_inv_pair[OF run_move_assign.IH, of i j _ f' g']) (auto simp: mo_move_assign_def owns_def owner_def)
next
  case (run_assign_target c i f T x f' m)
  then show ?case
    using program_inv_target[OF run_assign_target.IH run_assign_target.hyps(4), of i x "fst (storage_make T x (heap c))" m]
    by (auto simp: mo_assign_target_def owner_def split: prod.splits if_splits)
next
  case (run_swap c i f j g f' g')
  then have "owns sig (heap c) f" "owns sig (heap c) g" by (auto simp: program_inv_def)
  then show ?case using run_swap
    by (intro program_inv_pair[OF run_swap.IH, of i j _ f' g']) (auto simp: mo_swap_def owner_def)
next
  case (run_call c i f x r m)
  then show ?case by (rule_tac program_inv_call)
next
  case (run_destroy c i f m)
  then show ?case by (rule_tac program_inv_destroy)
qed

text \<open>Every function object of such a program can be destroyed, one that has a target can be called, the heap has
  exactly the targets of the variables, each owned by one of them, and nothing is left when no variable is.\<close>

theorem function_objects_own_targets:
  assumes "mo_run sig c"
  shows "(\<forall>i f. vars c i = Some f \<longrightarrow> (\<exists>m. mo_destroy f (heap c) = Inr m) \<and>
      (mo_bool f \<longrightarrow> (\<exists>r m. mo_call sig f x (heap c) = Inr (r, m)))) \<and>
    (\<forall>a. cells (heap c) a \<noteq> None \<longleftrightarrow> (\<exists>!i. owner (vars c) i a)) \<and>
    ((\<forall>i. vars c i = None) \<longrightarrow> (\<forall>a. cells (heap c) a = None))"
proof -
  have inv: "program_inv sig c" using mo_run_inv[OF assms] .
  have owns: "owns sig (heap c) f" if "vars c i = Some f" for i f using inv that by (simp add: program_inv_def)
  have all: "cells (heap c) a \<noteq> None \<longleftrightarrow> (\<exists>!i. owner (vars c) i a)" for a
    using inv unfolding program_inv_def by blast
  moreover have "\<exists>m. mo_destroy f (heap c) = Inr m" if "vars c i = Some f" for i f
    using owns_destroy[OF owns[OF that]] by blast
  moreover have "\<exists>r m. mo_call sig f x (heap c) = Inr (r, m)" if "vars c i = Some f" "mo_bool f" for i f
  proof -
    obtain a where "address f = Some a" using \<open>mo_bool f\<close> by (auto simp: mo_bool_def)
    then show ?thesis using owns_call[OF owns[OF that(1)], of a x] by blast
  qed
  moreover have "cells (heap c) a = None" if "\<forall>i. vars c i = None" for a
    using all[of a] that by (auto simp: owner_def)
  ultimately show ?thesis by blast
qed

text \<open>Move-assigning an object without that type to one that has a target leaves the old target with the wrong
  dispatch, and destroying the source is undefined: to assign an empty function object is already enough.\<close>

theorem move_assign_loses_target:
  assumes "mo_run sig c" "vars c j = Some g" "address g = Some a" "erased_dispatch g = Some T"
    and "\<And>S. erased_dispatch f = Some S \<Longrightarrow> type_name S \<noteq> type_name T"
  shows "mo_destroy (snd (mo_move_assign g f)) (heap c) = Inl (Fault Undefined)"
proof -
  have "owns sig (heap c) g" using mo_run_inv[OF assms(1)] assms(2) by (simp add: program_inv_def)
  then obtain v where "cells (heap c) a = Some (T, Some v)" using assms(3,4) by (auto simp: owns_def)
  then show ?thesis using assms(3,5)
    by (auto simp: mo_move_assign_def mo_destroy_def storage_release_def operate_def typed_delete_def object_at_def
        split: option.splits)
qed

text \<open>Calling an object whose target was moved away is undefined where calling an empty one throws.\<close>

theorem moved_from_call_undefined:
  assumes "mo_run sig c" "vars c i = Some f" "address f = Some a"
  shows "mo_call sig (snd (mo_move_construct f)) x (heap c) = Inl (Fault Undefined) \<and>
    mo_call sig mo_empty x (heap c) = Inl Bad_function_call"
proof -
  have "owns sig (heap c) f" using mo_run_inv[OF assms(1)] assms(2) by (simp add: program_inv_def)
  then obtain T where "erased_call f = Some T" using assms(3) by (auto simp: owns_def)
  then show ?thesis
    by (auto simp: mo_call_def operate_call_def typed_call_def object_at_def mo_move_construct_def mo_empty_def
        split: option.splits)
qed

section \<open>The tests of the program\<close>

text \<open>Targets count through pointers: a value is a pointer to a counter or none, the state outside of the heap is the
  counters, and a call gets such a pointer.\<close>

type_synonym test_type = "(nat option, nat \<Rightarrow> nat, nat option, unit) target_type"
type_synonym test_memory = "(nat option, nat \<Rightarrow> nat, nat option, unit) memory"
type_synonym test_mofunction = "(nat option, nat \<Rightarrow> nat, nat option, unit) mofunction"

definition bump :: "nat option \<Rightarrow> (nat \<Rightarrow> nat) \<Rightarrow> nat \<Rightarrow> nat" where
  "bump p w = (case p of None \<Rightarrow> w | Some i \<Rightarrow> w(i := Suc (w i)))"

definition quiet_call :: "nat option \<Rightarrow> nat option \<Rightarrow> (nat \<Rightarrow> nat) \<Rightarrow> unit \<times> nat option \<times> (nat \<Rightarrow> nat)" where
  "quiet_call x v w = ((), v, w)"

definition counting_call :: "nat option \<Rightarrow> nat option \<Rightarrow> (nat \<Rightarrow> nat) \<Rightarrow> unit \<times> nat option \<times> (nat \<Rightarrow> nat)" where
  "counting_call x v w = ((), v, bump x w)"

definition plain_type :: "string \<Rightarrow> (signature \<Rightarrow> (nat option \<Rightarrow> nat option \<Rightarrow> (nat \<Rightarrow> nat) \<Rightarrow> unit \<times> nat option \<times> (nat \<Rightarrow> nat)) option) \<Rightarrow> test_type" where
  "plain_type name calls =
     \<lparr>type_name = name, forward_construct = Pair, default_construct = Some (\<lambda>w. (None, w)), destruct = Some (\<lambda>v w. w),
      copy_construct = Some Pair, copy_assign = Some (\<lambda>v u w. (v, w)), move_construct = Some (\<lambda>v w. (v, v, w)),
      move_assign = Some (\<lambda>v u w. (v, v, w)), invoke = calls\<rparr>"

definition empty_function :: test_type where
  "empty_function = plain_type ''void (*)()'' (\<lambda>_. Some quiet_call)"

definition empty_lambda :: test_type where
  "empty_lambda = (plain_type ''test_empty_lambda'' (\<lambda>_. Some quiet_call))\<lparr>default_construct := None, copy_assign := None, move_assign := None\<rparr>"

definition test_function :: test_type where
  "test_function = plain_type ''void (*)(size_t *)'' (\<lambda>_. Some counting_call)"

definition test_lambda :: test_type where
  "test_lambda = (plain_type ''test_lambda'' (\<lambda>_. Some counting_call))\<lparr>default_construct := None, copy_assign := None, move_assign := None\<rparr>"

definition test_callable :: test_type where
  "test_callable = plain_type ''TestCallable'' (\<lambda>sig. if sig = Const then None else Some counting_call)"

definition test_const_callable :: test_type where
  "test_const_callable = plain_type ''TestConstCallable'' (\<lambda>_. Some counting_call)"

definition test_rvref_callable :: test_type where
  "test_rvref_callable = plain_type ''TestRvrefCallable'' (\<lambda>sig. if sig = Rvref then Some counting_call else None)"

definition test_copy_only :: test_type where
  "test_copy_only =
     \<lparr>type_name = ''TestCopyOnly'', forward_construct = (\<lambda>v w. (v, bump v w)), default_construct = Some (\<lambda>w. (None, w)),
      destruct = Some (\<lambda>v w. w), copy_construct = Some (\<lambda>v w. (v, bump v w)), copy_assign = Some (\<lambda>v u w. (v, w)),
      move_construct = Some (\<lambda>v w. (v, v, bump v w)), move_assign = Some (\<lambda>v u w. (v, v, w)), invoke = (\<lambda>_. Some quiet_call)\<rparr>"

definition test_destroy :: test_type where
  "test_destroy = (plain_type ''TestDestroy'' (\<lambda>_. Some quiet_call))\<lparr>destruct := Some bump\<rparr>"

definition test_copy :: test_type where
  "test_copy = plain_type ''TestCopy'' (\<lambda>_. Some quiet_call)"

definition test_move_only :: test_type where
  "test_move_only =
     \<lparr>type_name = ''TestMoveOnly'', forward_construct = (\<lambda>v w. (v, bump v w)), default_construct = Some (\<lambda>w. (None, w)),
      destruct = Some (\<lambda>v w. w), copy_construct = None, copy_assign = None,
      move_construct = Some (\<lambda>v w. (v, v, bump v w)), move_assign = Some (\<lambda>v u w. (v, v, w)), invoke = (\<lambda>_. Some quiet_call)\<rparr>"

definition test_start :: test_memory where
  "test_start = \<lparr>cells = (\<lambda>_. None), next_cell = 0, outside = (\<lambda>_. 0)\<rparr>"

text \<open>A function object made from a temporary of a type, which is then destroyed.\<close>

definition from_temporary :: "test_type \<Rightarrow> nat option \<Rightarrow> test_mofunction \<times> test_memory" where
  "from_temporary T x =
     (case mo_target T x test_start of (f, m) \<Rightarrow>
        (f, case destruct T of None \<Rightarrow> m | Some d \<Rightarrow> m\<lparr>outside := d x (outside m)\<rparr>))"

definition call_counts :: "signature \<Rightarrow> test_mofunction \<Rightarrow> test_memory \<Rightarrow> bool" where
  "call_counts sig f m = (case mo_call sig f (Some 0) m of Inl _ \<Rightarrow> False | Inr (_, m) \<Rightarrow> outside m 0 > 0)"

definition made_and_called :: "signature \<Rightarrow> test_type \<Rightarrow> bool" where
  "made_and_called sig T = (invoke T sig \<noteq> None \<and> (case from_temporary T None of (f, m) \<Rightarrow> call_counts sig f m))"

definition made_not_called :: "signature \<Rightarrow> test_type \<Rightarrow> bool" where
  "made_not_called sig T = (invoke T sig \<noteq> None \<and> (case from_temporary T None of (f, m) \<Rightarrow> outside m 0 = 0))"

definition not_made :: "signature \<Rightarrow> test_type \<Rightarrow> bool" where
  "not_made sig T = (invoke T sig = None)"

definition move_made :: "signature \<Rightarrow> test_type \<Rightarrow> bool" where
  "move_made sig T = (case from_temporary T None of (f, m) \<Rightarrow> call_counts sig (fst (mo_move_construct f)) m)"

definition move_assigned :: "signature \<Rightarrow> test_type \<Rightarrow> bool" where
  "move_assigned sig T = (case from_temporary T None of (f, m) \<Rightarrow> call_counts sig (fst (mo_move_assign mo_empty f)) m)"

definition swapped :: "signature \<Rightarrow> test_type \<Rightarrow> bool" where
  "swapped sig T = (case from_temporary T None of (f, m) \<Rightarrow>
     case mo_swap f mo_empty of (f, g) \<Rightarrow> \<not> mo_bool f \<and> call_counts sig g m)"

definition targeting_tests :: "bool list" where
  "targeting_tests =
     [\<not> mo_bool (mo_empty :: test_mofunction), \<not> mo_bool (mo_empty :: test_mofunction),
      mo_equals_null (mo_empty :: test_mofunction), mo_bool (fst (from_temporary empty_function None)),
      \<not> mo_equals_null (fst (from_temporary empty_function None)), mo_bool (fst (from_temporary empty_lambda None)),
      mo_bool (fst (from_temporary test_move_only None)), mo_bool (fst (from_temporary test_copy None)),
      mo_bool (fst (from_temporary test_destroy None)), mo_bool (fst (from_temporary test_copy_only None))]"

definition copy_move_tests :: "bool list" where
  "copy_move_tests =
     [outside (snd (from_temporary test_move_only (Some 0))) 0 > 0,
      outside (snd (from_temporary test_destroy (Some 0))) 0 > 0,
      outside (snd (from_temporary test_copy_only (Some 0))) 0 > 0,
      \<not> mo_bool (fst (mo_move_construct (mo_empty :: test_mofunction))),
      mo_bool (fst (mo_move_construct (fst (from_temporary empty_function None))))]"

definition bad_call_test :: bool where
  "bad_call_test = (case mo_call Plain (mo_empty :: test_mofunction) None test_start of
     Inl Bad_function_call \<Rightarrow> True | _ \<Rightarrow> False)"

definition plain_lvalue_tests :: "bool list" where
  "plain_lvalue_tests = [made_and_called Plain test_function, made_and_called Plain test_lambda,
     made_and_called Plain test_callable, made_and_called Plain test_const_callable, not_made Plain test_rvref_callable]"

definition plain_const_tests :: "bool list" where
  "plain_const_tests = [made_not_called Plain test_function, made_not_called Plain test_lambda,
     made_not_called Plain test_callable, made_not_called Plain test_const_callable, not_made Plain test_rvref_callable]"

definition plain_rvalue_tests :: "bool list" where
  "plain_rvalue_tests = [made_and_called Plain test_function, made_and_called Plain test_lambda,
     made_and_called Plain test_callable, made_and_called Plain test_const_callable, not_made Plain test_rvref_callable]"

definition const_lvalue_tests :: "bool list" where
  "const_lvalue_tests = [made_and_called Const test_function, made_and_called Const test_lambda,
     not_made Const test_callable, made_and_called Const test_const_callable, not_made Const test_rvref_callable]"

definition const_const_tests :: "bool list" where
  "const_const_tests = [made_and_called Const test_function, made_and_called Const test_lambda,
     not_made Const test_callable, made_and_called Const test_const_callable, not_made Const test_rvref_callable]"

definition const_rvalue_tests :: "bool list" where
  "const_rvalue_tests = [made_and_called Const test_function, made_and_called Const test_lambda,
     not_made Const test_callable, made_and_called Const test_const_callable, not_made Const test_rvref_callable]"

definition rvref_lvalue_tests :: "bool list" where
  "rvref_lvalue_tests = [made_not_called Rvref test_function, made_not_called Rvref test_lambda,
     made_not_called Rvref test_callable, made_not_called Const test_const_callable, made_not_called Rvref test_rvref_callable]"

definition rvref_const_tests :: "bool list" where
  "rvref_const_tests = [made_not_called Rvref test_function, made_not_called Rvref test_lambda,
     made_not_called Rvref test_callable, made_not_called Const test_const_callable, made_not_called Rvref test_rvref_callable]"

definition rvref_rvalue_tests :: "bool list" where
  "rvref_rvalue_tests = [made_and_called Rvref test_function, made_and_called Rvref test_lambda,
     made_and_called Rvref test_callable, made_and_called Const test_const_callable, made_and_called Rvref test_rvref_callable]"

definition move_tests :: "bool list" where
  "move_tests = [move_made Plain test_callable, move_assigned Plain test_callable,
     made_not_called Plain test_callable, made_not_called Plain test_callable,
     move_made Const test_const_callable, move_assigned Const test_const_callable,
     move_made Rvref test_rvref_callable, move_assigned Rvref test_rvref_callable]"

definition rvref_signature_tests :: "bool list" where
  "rvref_signature_tests = [made_not_called Rvref test_rvref_callable, made_not_called Rvref test_rvref_callable,
     made_not_called Plain test_callable, made_not_called Plain test_callable]"

definition swap_tests :: "bool list" where
  "swap_tests = [swapped Plain test_callable, swapped Plain test_callable, swapped Const test_const_callable,
     swapped Const test_const_callable, swapped Rvref test_rvref_callable, swapped Rvref test_rvref_callable]"

definition swap_signature_tests :: "bool list" where
  "swap_signature_tests = [made_not_called Const test_const_callable, made_not_called Const test_const_callable,
     made_not_called Rvref test_rvref_callable, made_not_called Rvref test_rvref_callable]"

lemmas test_defs = plain_type_def empty_function_def empty_lambda_def test_function_def test_lambda_def test_callable_def
  test_const_callable_def test_rvref_callable_def test_copy_only_def test_destroy_def test_copy_def test_move_only_def
  quiet_call_def counting_call_def bump_def test_start_def from_temporary_def call_counts_def made_and_called_def
  made_not_called_def not_made_def move_made_def move_assigned_def swapped_def

lemmas mo_defs = mo_target_def storage_make_def put_cell_def mo_call_def operate_call_def typed_call_def object_at_def
  mo_move_construct_def mo_move_assign_def mo_swap_def mo_bool_def mo_equals_null_def mo_empty_def

lemma targeting_tests_pass: "list_all id targeting_tests" "list_all id copy_move_tests" bad_call_test
  by (simp_all add: targeting_tests_def copy_move_tests_def bad_call_test_def test_defs mo_defs)

lemma call_tests_pass:
  "list_all id plain_lvalue_tests" "list_all id plain_const_tests" "list_all id plain_rvalue_tests"
  "list_all id const_lvalue_tests" "list_all id const_const_tests" "list_all id const_rvalue_tests"
  "list_all id rvref_lvalue_tests" "list_all id rvref_const_tests" "list_all id rvref_rvalue_tests"
  by (simp_all add: plain_lvalue_tests_def plain_const_tests_def plain_rvalue_tests_def const_lvalue_tests_def
      const_const_tests_def const_rvalue_tests_def rvref_lvalue_tests_def rvref_const_tests_def rvref_rvalue_tests_def
      test_defs mo_defs)

lemma move_tests_pass:
  "list_all id move_tests" "list_all id rvref_signature_tests" "list_all id swap_tests" "list_all id swap_signature_tests"
  by (simp_all add: move_tests_def rvref_signature_tests_def swap_tests_def swap_signature_tests_def test_defs mo_defs)

section \<open>Witnesses\<close>

definition example_program :: "(nat option, nat \<Rightarrow> nat, nat option, unit) program" where
  "example_program = \<lparr>vars = [0 \<mapsto> \<lparr>erased_call = Some test_lambda, erased_dispatch = Some test_lambda, address = Some 0\<rparr>],
     heap = snd (mo_target test_lambda None test_start)\<rparr>"

lemma example_program_run: "mo_run Plain example_program"
proof -
  have "usable Plain test_lambda" by (simp add: usable_def test_lambda_def plain_type_def)
  moreover have start: "mo_run Plain \<lparr>vars = (\<lambda>_. None), heap = test_start\<rparr>" unfolding test_start_def by (rule run_start)
  ultimately have "mo_run Plain \<lparr>vars = [0 \<mapsto> fst (mo_target test_lambda None test_start)],
      heap = snd (mo_target test_lambda None test_start)\<rparr>"
    using run_target[OF start, of 0 test_lambda None] by simp
  moreover have "fst (mo_target test_lambda None test_start) =
      \<lparr>erased_call = Some test_lambda, erased_dispatch = Some test_lambda, address = Some 0\<rparr>"
    by (simp add: mo_target_def storage_make_def test_start_def split: prod.splits)
  ultimately show ?thesis by (simp add: example_program_def)
qed

theorem function_objects_own_targets_witness:
  "\<exists>r m. mo_call Plain \<lparr>erased_call = Some test_lambda, erased_dispatch = Some test_lambda, address = Some 0\<rparr> (Some 0)
     (heap example_program) = Inr (r, m)"
  using function_objects_own_targets[OF example_program_run, of "Some 0"]
  by (auto simp: example_program_def mo_bool_def)

theorem move_assign_loses_target_witness:
  "mo_destroy (snd (mo_move_assign \<lparr>erased_call = Some test_lambda, erased_dispatch = Some test_lambda, address = Some 0\<rparr> mo_empty))
     (heap example_program) = Inl (Fault Undefined)"
  using move_assign_loses_target[OF example_program_run, of 0 _ 0 test_lambda mo_empty]
  by (simp add: example_program_def mo_empty_def)

theorem moved_from_call_undefined_witness:
  "mo_call Plain (snd (mo_move_construct \<lparr>erased_call = Some test_lambda, erased_dispatch = Some test_lambda, address = Some 0\<rparr>))
     None (heap example_program) = Inl (Fault Undefined)"
  using moved_from_call_undefined[OF example_program_run, of 0 _ 0 None] by (simp add: example_program_def)

end
