(* ===== verification/Ex_Coroutine.thy ===== *)
theory Ex_Coroutine
  imports Prelude
begin

text \<open>
  The building blocks of \<open>exercises/minimal-coroutine.cpp\<close>: the count of unfinished tasks in \<open>async_scope\<close>, as steps
  that threads interleave, with the coroutine that waits for them; the intrusive queue of \<open>manual_event_loop\<close> over a
  store of items, refined to a list; the results of \<open>task\<close> and \<open>sync_wait\<close>; and \<open>scope_guard\<close>. The count of a scope is
  a natural number: the tasks of a program stay below \<open>2 ^ 62\<close>.
\<close>

section \<open>scope_guard\<close>

record 's guard =
  guard_func :: "'s \<Rightarrow> 's"
  guard_cancelled :: bool

definition guard_new :: "('s \<Rightarrow> 's) \<Rightarrow> 's guard" where
  "guard_new f = \<lparr>guard_func = f, guard_cancelled = False\<rparr>"

text \<open>The new guard and what is left of the old one.\<close>

definition guard_move :: "'s guard \<Rightarrow> 's guard \<times> 's guard" where
  "guard_move g = (g, g\<lparr>guard_cancelled := True\<rparr>)"

definition guard_cancel :: "'s guard \<Rightarrow> 's guard" where
  "guard_cancel g = g\<lparr>guard_cancelled := True\<rparr>"

definition guard_call_now :: "'s guard \<Rightarrow> 's \<Rightarrow> 's guard \<times> 's" where
  "guard_call_now g s =
     (if \<not> guard_cancelled g then (g\<lparr>guard_cancelled := True\<rparr>, guard_func g s) else (g, s))"

definition guard_destroy :: "'s guard \<Rightarrow> 's \<Rightarrow> 's" where
  "guard_destroy g s = snd (guard_call_now g s)"

lemma guard_runs_once:
  "guard_destroy (fst (guard_call_now g s)) (snd (guard_call_now g s)) = guard_destroy g s"
  "guard_destroy (guard_cancel g) s = s"
  "guard_destroy (snd (guard_move g)) (guard_destroy (fst (guard_move g)) s) = guard_destroy g s"
  by (simp_all add: guard_destroy_def guard_call_now_def guard_cancel_def guard_move_def)

section \<open>Results of tasks\<close>

text \<open>The variant of a promise: nothing, a value, or an exception.\<close>

datatype ('a, 'e) task_result = Nothing | Returned 'a | Thrown 'e

record ('a, 'e) promise =
  promise_continuation :: "nat option"
  promise_result :: "('a, 'e) task_result"

definition promise_new :: "('a, 'e) promise" where
  "promise_new = \<lparr>promise_continuation = None, promise_result = Nothing\<rparr>"

definition return_value :: "'a \<Rightarrow> ('a, 'e) promise \<Rightarrow> ('a, 'e) promise" where
  "return_value x p = p\<lparr>promise_result := Returned x\<rparr>"

definition unhandled_exception :: "'e \<Rightarrow> ('a, 'e) promise \<Rightarrow> ('a, 'e) promise" where
  "unhandled_exception e p = p\<lparr>promise_result := Thrown e\<rparr>"

text \<open>Awaiting a task makes the awaiting coroutine its continuation and runs the task; at its end the task gives way
  to its continuation.\<close>

definition task_await_suspend :: "nat \<Rightarrow> nat \<Rightarrow> ('a, 'e) promise \<Rightarrow> nat \<times> ('a, 'e) promise" where
  "task_await_suspend coro h p = (coro, p\<lparr>promise_continuation := Some h\<rparr>)"

definition final_await_suspend :: "('a, 'e) promise \<Rightarrow> nat option" where
  "final_await_suspend p = promise_continuation p"

definition task_await_resume :: "bool \<Rightarrow> ('a, 'e) promise \<Rightarrow> ('e + 'a) outcome" where
  "task_await_resume debug p =
     (case promise_result p of
        Thrown e \<Rightarrow> Inr (Inl e)
      | Returned x \<Rightarrow> Inr (Inr x)
      | Nothing \<Rightarrow> and_then (assertf debug False) (\<lambda>_. Inl Out_of_range_thrown))"

text \<open>\<open>sync_wait\<close> resumes its coroutine, waits for the semaphore that the end of the coroutine releases, and takes the result.\<close>

record ('a, 'e) sync_promise =
  sem :: nat
  sync_result :: "('a, 'e) task_result"

definition sync_finish :: "('a, 'e) task_result \<Rightarrow> ('a, 'e) sync_promise \<Rightarrow> ('a, 'e) sync_promise" where
  "sync_finish r p = p\<lparr>sync_result := r, sem := sem p + 1\<rparr>"

definition sync_run :: "bool \<Rightarrow> ('a, 'e) sync_promise \<Rightarrow> ('e + 'a) outcome option" where
  "sync_run debug p =
     (if sem p = 0 then None
      else Some (case sync_result p of
             Thrown e \<Rightarrow> Inr (Inl e)
           | Returned x \<Rightarrow> Inr (Inr x)
           | Nothing \<Rightarrow> and_then (assertf debug False) (\<lambda>_. Inl Undefined)))"

lemma task_result_delivered:
  "task_await_resume debug (return_value x p) = Inr (Inr x)"
  "task_await_resume debug (unhandled_exception e p) = Inr (Inl e)"
  "final_await_suspend (return_value x (snd (task_await_suspend coro h p))) = Some h"
  "sync_run debug (sync_finish (Returned x) q) = Some (Inr (Inr x))"
  by (simp_all add: task_await_resume_def return_value_def unhandled_exception_def final_await_suspend_def
      task_await_suspend_def sync_run_def sync_finish_def)

section \<open>manual_event_loop\<close>

text \<open>Items live at addresses, zero is the null pointer.\<close>

record queue_item =
  item_next :: nat
  item_coro :: nat

record event_loop =
  loop_items :: "nat \<Rightarrow> queue_item"
  loop_head :: nat
  loop_tail :: nat

definition loop_new :: "(nat \<Rightarrow> queue_item) \<Rightarrow> event_loop" where
  "loop_new items = \<lparr>loop_items = items, loop_head = 0, loop_tail = 0\<rparr>"

definition set_next :: "nat \<Rightarrow> nat \<Rightarrow> event_loop \<Rightarrow> event_loop" where
  "set_next p q l = l\<lparr>loop_items := (loop_items l)(p := (loop_items l p)\<lparr>item_next := q\<rparr>)\<rparr>"

definition enqueue :: "nat \<Rightarrow> event_loop \<Rightarrow> event_loop" where
  "enqueue item l =
     (let l = set_next item 0 l;
          l = (if loop_head l = 0 then l\<lparr>loop_head := item\<rparr> else set_next (loop_tail l) item l)
      in l\<lparr>loop_tail := item\<rparr>)"

definition pop_item :: "event_loop \<Rightarrow> nat \<times> event_loop" where
  "pop_item l =
     (let front = loop_head l
      in if loop_head l \<noteq> 0
         then (let l = l\<lparr>loop_head := item_next (loop_items l front)\<rparr>
               in (front, if loop_head l = 0 then l\<lparr>loop_tail := 0\<rparr> else l))
         else (front, l))"

definition schedule_await_suspend :: "nat \<Rightarrow> nat \<Rightarrow> event_loop \<Rightarrow> event_loop" where
  "schedule_await_suspend item coro l =
     enqueue item (l\<lparr>loop_items := (loop_items l)(item := (loop_items l item)\<lparr>item_coro := coro\<rparr>)\<rparr>)"

text \<open>What a thread in \<open>run\<close> does when it holds the lock: it waits, returns, or resumes a coroutine.\<close>

datatype loop_action = Wait | Return | Resume nat

definition run_turn :: "bool \<Rightarrow> event_loop \<Rightarrow> loop_action \<times> event_loop" where
  "run_turn stop_requested l =
     (if \<not> (loop_head l \<noteq> 0 \<or> stop_requested) then (Wait, l)
      else if stop_requested then (Return, l)
      else (case pop_item l of (item, l) \<Rightarrow> (Resume (item_coro (loop_items l item)), l)))"

text \<open>The items from a head along the next pointers.\<close>

fun chain_of :: "(nat \<Rightarrow> queue_item) \<Rightarrow> nat \<Rightarrow> nat list \<Rightarrow> bool" where
  "chain_of items p [] \<longleftrightarrow> p = 0"
| "chain_of items p (x # xs) \<longleftrightarrow> p = x \<and> x \<noteq> 0 \<and> chain_of items (item_next (items x)) xs"

definition loop_queue :: "event_loop \<Rightarrow> nat list \<Rightarrow> bool" where
  "loop_queue l xs \<longleftrightarrow> chain_of (loop_items l) (loop_head l) xs \<and> distinct xs \<and>
     loop_tail l = (if xs = [] then 0 else last xs)"

lemma chain_of_cong: "(\<And>x. x \<in> set xs \<Longrightarrow> item_next (f x) = item_next (g x)) \<Longrightarrow> chain_of f p xs \<longleftrightarrow> chain_of g p xs"
  by (induction xs arbitrary: p) auto

lemma chain_of_append:
  "chain_of f p xs \<Longrightarrow> xs \<noteq> [] \<Longrightarrow> distinct xs \<Longrightarrow> q \<noteq> 0 \<Longrightarrow> q \<notin> set xs \<Longrightarrow> item_next (f q) = 0 \<Longrightarrow>
     chain_of (f(last xs := (f (last xs))\<lparr>item_next := q\<rparr>)) p (xs @ [q])"
proof (induction xs arbitrary: p)
  case (Cons x xs)
  show ?case
  proof (cases "xs = []")
    case True
    then show ?thesis using Cons.prems by auto
  next
    case False
    then have "last xs \<noteq> x" using Cons.prems(3) last_in_set by fastforce
    then show ?thesis using Cons False by simp
  qed
qed simp

lemma enqueue_appends:
  assumes "loop_queue l xs" "item \<noteq> 0" "item \<notin> set xs"
  shows "loop_queue (enqueue item l) (xs @ [item])"
proof (cases "xs = []")
  case True
  then show ?thesis using assms by (auto simp: loop_queue_def enqueue_def set_next_def Let_def)
next
  case False
  define f where "f = (loop_items l)(item := (loop_items l item)\<lparr>item_next := 0\<rparr>)"
  have l: "loop_head l \<noteq> 0" "loop_tail l = last xs" "distinct xs" "chain_of (loop_items l) (loop_head l) xs"
    using assms(1) False by (cases xs; auto simp: loop_queue_def)+
  moreover have "chain_of f (loop_head l) xs \<longleftrightarrow> chain_of (loop_items l) (loop_head l) xs"
    using assms(3) by (intro chain_of_cong) (auto simp: f_def)
  ultimately have "chain_of f (loop_head l) xs" by simp
  then have "chain_of (f(last xs := (f (last xs))\<lparr>item_next := item\<rparr>)) (loop_head l) (xs @ [item])"
    using l(3) False assms(2,3) by (intro chain_of_append) (simp_all add: f_def)
  then show ?thesis
    using l assms(3) by (simp add: loop_queue_def enqueue_def set_next_def Let_def f_def)
qed

lemma pop_item_takes_front:
  assumes "loop_queue l xs"
  shows "pop_item l = (if xs = [] then 0 else hd xs, snd (pop_item l))" "loop_queue (snd (pop_item l)) (tl xs)"
    "loop_items (snd (pop_item l)) = loop_items l"
  using assms by (cases xs; cases "tl xs"; auto simp: loop_queue_def pop_item_def Let_def)+

text \<open>C16: The intrusive list of the loop is a queue. The loop resumes what was scheduled first, and a stopped loop returns with what is left in the queue.\<close>

theorem loop_is_fifo:
  assumes "loop_queue l xs" "item \<noteq> 0" "item \<notin> set xs"
  shows "loop_queue (schedule_await_suspend item coro l) (xs @ [item]) \<and>
    item_coro (loop_items (schedule_await_suspend item coro l) item) = coro \<and>
    run_turn False (schedule_await_suspend item coro l) =
      (Resume (if xs = [] then coro else item_coro (loop_items l (hd xs))), snd (pop_item (schedule_await_suspend item coro l))) \<and>
    loop_queue (snd (pop_item (schedule_await_suspend item coro l))) (tl (xs @ [item])) \<and>
    run_turn True l = (Return, l) \<and> (xs = [] \<longrightarrow> run_turn False l = (Wait, l))"
proof -
  define l1 where "l1 = l\<lparr>loop_items := (loop_items l)(item := (loop_items l item)\<lparr>item_coro := coro\<rparr>)\<rparr>"
  define l2 where "l2 = schedule_await_suspend item coro l"
  have l2: "l2 = enqueue item l1" by (simp add: l2_def schedule_await_suspend_def l1_def)
  have "chain_of (loop_items l1) p xs \<longleftrightarrow> chain_of (loop_items l) p xs" for p
    by (rule chain_of_cong) (simp add: l1_def)
  then have "loop_queue l1 xs" using assms(1) by (simp add: loop_queue_def l1_def)
  then have q: "loop_queue l2 (xs @ [item])" unfolding l2 using assms(2,3) by (rule enqueue_appends)
  have coros: "item_coro (loop_items l2 x) = (if x = item then coro else item_coro (loop_items l x))" for x
    by (simp add: l2 l1_def enqueue_def set_next_def Let_def)
  note pop = pop_item_takes_front[OF q]
  have "loop_head l2 \<noteq> 0" using q by (cases xs) (auto simp: loop_queue_def)
  then have "run_turn False l2 = (Resume (item_coro (loop_items l2 (hd (xs @ [item])))), snd (pop_item l2))"
    using pop(3) arg_cong[OF pop(1), of fst] by (simp add: run_turn_def case_prod_beta)
  moreover have "hd (xs @ [item]) = (if xs = [] then item else hd xs)" by simp
  moreover have "xs \<noteq> [] \<Longrightarrow> hd xs \<noteq> item" using assms(3) by (metis list.set_sel(1))
  moreover have "xs = [] \<longrightarrow> run_turn False l = (Wait, l)" using assms(1) by (auto simp: run_turn_def loop_queue_def)
  moreover have "run_turn True l = (Return, l)" by (simp add: run_turn_def)
  ultimately show ?thesis unfolding l2_def[symmetric] using q pop(2) coros by simp
qed

section \<open>async_scope\<close>

text \<open>A detached task runs, reads the count when it ends, then subtracts itself from it unless it found itself to be the
  last, and resumes the joiner when the value says so. The joiner looks at the count, sets its handle, adds its flag, and is
  suspended unless the count was zero.\<close>

datatype detached_task =
    Running
  | Loaded nat
  | Decided bool nat
  | Finished bool nat

datatype join_phase = Idle | Unready | Armed | Suspended | Joined

record async_scope =
  ref_count :: nat
  joiner :: join_phase
  scope_tasks :: "detached_task list"
  resumes :: nat

definition joiner_flag :: nat where "joiner_flag = 1"
definition ref_increment :: nat where "ref_increment = 2"

definition scope_new :: async_scope where
  "scope_new = \<lparr>ref_count = 0, joiner = Idle, scope_tasks = [], resumes = 0\<rparr>"

definition add_ref :: "async_scope \<Rightarrow> async_scope" where
  "add_ref s = s\<lparr>ref_count := ref_count s + ref_increment\<rparr>"

definition spawn_detached :: "async_scope \<Rightarrow> async_scope" where
  "spawn_detached s = (add_ref s)\<lparr>scope_tasks := scope_tasks s @ [Running]\<rparr>"

text \<open>The three atomic parts of \<open>notify_task_finished\<close> of the task at \<open>i\<close>.\<close>

definition notify_load :: "nat \<Rightarrow> async_scope \<Rightarrow> async_scope" where
  "notify_load i s = s\<lparr>scope_tasks := (scope_tasks s)[i := Loaded (ref_count s)]\<rparr>"

definition notify_decide :: "nat \<Rightarrow> nat \<Rightarrow> async_scope \<Rightarrow> async_scope" where
  "notify_decide i old s =
     (if old > joiner_flag + ref_increment
      then s\<lparr>ref_count := ref_count s - ref_increment, scope_tasks := (scope_tasks s)[i := Decided True (ref_count s)]\<rparr>
      else s\<lparr>scope_tasks := (scope_tasks s)[i := Decided False old]\<rparr>)"

definition notify_resume :: "nat \<Rightarrow> bool \<Rightarrow> nat \<Rightarrow> async_scope \<Rightarrow> async_scope" where
  "notify_resume i subtracted old s =
     (let s = s\<lparr>scope_tasks := (scope_tasks s)[i := Finished subtracted old]\<rparr>
      in if old = joiner_flag + ref_increment then s\<lparr>resumes := resumes s + 1, joiner := Joined\<rparr> else s)"

definition join_await_ready :: "async_scope \<Rightarrow> async_scope" where
  "join_await_ready s = s\<lparr>joiner := (if ref_count s = 0 then Joined else Unready)\<rparr>"

definition join_set_handle :: "async_scope \<Rightarrow> async_scope" where
  "join_set_handle s = s\<lparr>joiner := Armed\<rparr>"

definition join_add_flag :: "async_scope \<Rightarrow> async_scope" where
  "join_add_flag s = s\<lparr>ref_count := ref_count s + joiner_flag, joiner := (if ref_count s \<noteq> 0 then Suspended else Joined)\<rparr>"

text \<open>The owner spawns until it joins; a running task may spawn at any time.\<close>

inductive scope_step :: "async_scope \<Rightarrow> async_scope \<Rightarrow> bool" where
  step_spawn: "joiner s = Idle \<or> Running \<in> set (scope_tasks s) \<Longrightarrow> scope_step s (spawn_detached s)"
| step_load: "i < length (scope_tasks s) \<Longrightarrow> scope_tasks s ! i = Running \<Longrightarrow> scope_step s (notify_load i s)"
| step_decide: "i < length (scope_tasks s) \<Longrightarrow> scope_tasks s ! i = Loaded old \<Longrightarrow> scope_step s (notify_decide i old s)"
| step_resume: "i < length (scope_tasks s) \<Longrightarrow> scope_tasks s ! i = Decided subtracted old \<Longrightarrow>
    scope_step s (notify_resume i subtracted old s)"
| step_ready: "joiner s = Idle \<Longrightarrow> scope_step s (join_await_ready s)"
| step_handle: "joiner s = Unready \<Longrightarrow> scope_step s (join_set_handle s)"
| step_flag: "joiner s = Armed \<Longrightarrow> scope_step s (join_add_flag s)"

inductive scope_reach :: "async_scope \<Rightarrow> bool" where
  reach_new: "scope_reach scope_new"
| reach_step: "scope_reach s \<Longrightarrow> scope_step s t \<Longrightarrow> scope_reach t"

inductive_cases scope_step_cases: "scope_step s t"

text \<open>A task that still counts, one that may still touch the scope, one that resumes the joiner, and one that left without
  subtracting itself because it was alone before the joiner came.\<close>

fun counted :: "detached_task \<Rightarrow> bool" where
  "counted (Decided subtracted _) = (\<not> subtracted)"
| "counted (Finished subtracted _) = (\<not> subtracted)"
| "counted _ = True"

fun active :: "detached_task \<Rightarrow> bool" where
  "active Running = True" | "active (Loaded _) = True" | "active _ = False"

fun triggers :: "detached_task \<Rightarrow> bool" where
  "triggers (Decided _ old) = (old = 3)" | "triggers (Finished _ old) = (old = 3)" | "triggers _ = False"

fun forgotten :: "detached_task \<Rightarrow> bool" where
  "forgotten (Decided False old) = (old = 2)" | "forgotten (Finished False old) = (old = 2)" | "forgotten _ = False"

fun resumed :: "detached_task \<Rightarrow> bool" where
  "resumed (Finished _ old) = (old = 3)" | "resumed _ = False"

definition count :: "(detached_task \<Rightarrow> bool) \<Rightarrow> async_scope \<Rightarrow> nat" where
  "count P s = length (filter P (scope_tasks s))"

lemma count_update:
  "i < length ts \<Longrightarrow> length (filter P (ts[i := t])) + of_bool (P (ts ! i)) = length (filter P ts) + of_bool (P t)"
proof (induction ts arbitrary: i)
  case (Cons a ts)
  then show ?case by (cases i) auto
qed simp

lemma count_le:
  "(\<And>t. P t \<Longrightarrow> R t) \<Longrightarrow> (\<And>t. Q t \<Longrightarrow> R t) \<Longrightarrow> (\<And>t. \<not> (P t \<and> Q t)) \<Longrightarrow> count P s + count Q s \<le> count R s"
proof -
  assume "\<And>t. P t \<Longrightarrow> R t" "\<And>t. Q t \<Longrightarrow> R t" "\<And>t. \<not> (P t \<and> Q t)"
  then have "length (filter P ts) + length (filter Q ts) \<le> length (filter R ts)" for ts
    by (induction ts) (auto simp: le_SucI)
  then show ?thesis by (simp add: count_def)
qed

lemma count_mono: "(\<And>t. P t \<Longrightarrow> R t) \<Longrightarrow> count P s \<le> count R s"
  using count_le[of P R "\<lambda>_. False" s] by (simp add: count_def)

lemma count_pos: "i < length (scope_tasks s) \<Longrightarrow> P (scope_tasks s ! i) \<Longrightarrow> 1 \<le> count P s"
  by (metis One_nat_def Suc_leI count_def filter_empty_conv length_greater_0_conv nth_mem)

lemma count_at:
  "scope_tasks s' = (scope_tasks s)[i := t] \<Longrightarrow> i < length (scope_tasks s) \<Longrightarrow> scope_tasks s ! i = t0 \<Longrightarrow>
     count P s' + of_bool (P t0) = count P s + of_bool (P t)"
  using count_update[of i "scope_tasks s" P t] by (simp add: count_def)

fun wf_task :: "detached_task \<Rightarrow> bool" where
  "wf_task (Loaded old) = (2 \<le> old)"
| "wf_task (Decided False old) = (old = 2 \<or> old = 3)"
| "wf_task (Finished False old) = (old = 2 \<or> old = 3)"
| "wf_task _ = True"

definition loaded3 :: "detached_task \<Rightarrow> bool" where
  "loaded3 t \<longleftrightarrow> t = Loaded 3"

lemma loaded3_simps [simp]:
  "loaded3 (Loaded old) \<longleftrightarrow> old = 3" "\<not> loaded3 Running" "\<not> loaded3 (Decided b old)" "\<not> loaded3 (Finished b old)"
  by (simp_all add: loaded3_def)

text \<open>What holds of the count \<open>r\<close>, the phase of the joiner and the numbers of tasks that are counted (\<open>u\<close>), active (\<open>a\<close>),
  triggers (\<open>t\<close>), forgotten (\<open>f\<close>), have resumed the joiner (\<open>x\<close>) and have read a three (\<open>l\<close>).\<close>

definition scope_law :: "nat \<Rightarrow> join_phase \<Rightarrow> nat \<Rightarrow> nat \<Rightarrow> nat \<Rightarrow> nat \<Rightarrow> nat \<Rightarrow> nat \<Rightarrow> bool" where
  "scope_law r J u a t f x l \<longleftrightarrow>
     (r = 2 * u \<and> J \<noteq> Suspended \<or> r = 2 * u + 1 \<and> (J = Suspended \<or> J = Joined)) \<and>
     (1 \<le> l \<longrightarrow> r = 3) \<and> t \<le> 1 \<and> (t = 1 \<longrightarrow> a = 0 \<and> r = 2 * u + 1 \<and> f = 0) \<and>
     (J = Suspended \<and> t = 0 \<longrightarrow> 1 \<le> u) \<and> (J = Joined \<longrightarrow> a = 0) \<and> (1 \<le> x \<longrightarrow> J = Joined) \<and>
     (x < t \<longrightarrow> J = Suspended) \<and> x \<le> t \<and> (J = Joined \<and> t = 0 \<longrightarrow> u = 0)"

lemma law_spawn:
  "scope_law r J u a t f x l \<Longrightarrow> J = Idle \<or> 1 \<le> a \<and> l = 0 \<Longrightarrow> scope_law (r + 2) J (u + 1) (a + 1) t f x l"
  unfolding scope_law_def by (cases J; simp; presburger)

lemma law_load:
  "scope_law r J u a t f x l \<Longrightarrow> scope_law r J u a t f x (l + of_bool (r = 3))"
  unfolding scope_law_def by (cases "r = 3") simp_all

lemma law_subtract:
  "scope_law r J u a t f x l \<Longrightarrow> 1 \<le> a \<Longrightarrow> l + 1 \<le> u \<Longrightarrow> a + f \<le> u \<Longrightarrow>
     scope_law (r - 2) J (u - 1) (a - 1) (t + of_bool (r = 3)) f x l"
  unfolding scope_law_def by (cases J; cases "r = 3"; simp; presburger)

lemma law_stay:
  "scope_law r J u a t f x l \<Longrightarrow> 1 \<le> a \<Longrightarrow> a + f \<le> u \<Longrightarrow> (old :: nat) = 2 \<or> old = 3 \<and> 1 \<le> l \<Longrightarrow>
     scope_law r J u (a - 1) (t + of_bool (old = 3)) (f + of_bool (old = 2)) x (l - of_bool (old = 3))"
  unfolding scope_law_def by (cases J; cases "old = 3"; simp; presburger)

lemma law_resume:
  "scope_law r J u a t f x l \<Longrightarrow> (old :: nat) = 3 \<longrightarrow> x < t \<Longrightarrow>
     scope_law r (if old = 3 then Joined else J) u a t f (x + of_bool (old = 3)) l"
  unfolding scope_law_def by (cases J; cases "old = 3"; simp; presburger)

lemma law_ready: "scope_law r Idle u a t f x l \<Longrightarrow> a \<le> u \<Longrightarrow> scope_law r (if r = 0 then Joined else Unready) u a t f x l"
  unfolding scope_law_def by auto

lemma law_handle: "scope_law r Unready u a t f x l \<Longrightarrow> scope_law r Armed u a t f x l"
  unfolding scope_law_def by auto

lemma law_flag: "scope_law r Armed u a t f x l \<Longrightarrow> a \<le> u \<Longrightarrow> scope_law (r + 1) (if r \<noteq> 0 then Suspended else Joined) u a t f x l"
  unfolding scope_law_def by auto

definition scope_inv :: "async_scope \<Rightarrow> bool" where
  "scope_inv s \<longleftrightarrow> (\<forall>t\<in>set (scope_tasks s). wf_task t) \<and>
     scope_law (ref_count s) (joiner s) (count counted s) (count active s) (count triggers s) (count forgotten s)
       (count resumed s) (count loaded3 s) \<and> resumes s = count resumed s"

lemma active_counted: "count active s + count forgotten s \<le> count counted s"
  by (rule count_le) (auto elim: active.elims forgotten.elims)

lemma loaded3_counted: "old \<noteq> 3 \<Longrightarrow> count loaded3 s + count ((=) (Loaded old)) s \<le> count counted s"
  by (rule count_le) (auto simp: loaded3_def)

lemma running_counted: "count loaded3 s + count ((=) Running) s \<le> count counted s"
  by (rule count_le) (auto simp: loaded3_def)

lemma wf_update: "\<forall>t\<in>set ts. wf_task t \<Longrightarrow> wf_task t \<Longrightarrow> \<forall>t\<in>set (ts[i := t]). wf_task t"
  using set_update_subset_insert[of ts i t] by auto

lemma law_loaded3: "scope_law r J u a t f x l \<Longrightarrow> 1 \<le> l \<Longrightarrow> u = 1"
  unfolding scope_law_def by (cases J; simp; presburger)

lemma scope_inv_spawn:
  assumes inv: "scope_inv s" and may: "joiner s = Idle \<or> Running \<in> set (scope_tasks s)"
  shows "scope_inv (spawn_detached s)"
proof -
  have c: "count P (spawn_detached s) = count P s + of_bool (P Running)" for P
    by (simp add: count_def spawn_detached_def)
  have law: "scope_law (ref_count s) (joiner s) (count counted s) (count active s) (count triggers s) (count forgotten s)
      (count resumed s) (count loaded3 s)" using inv by (simp add: scope_inv_def)
  have "1 \<le> count active s \<and> count loaded3 s = 0" if run: "Running \<in> set (scope_tasks s)"
  proof -
    obtain i where i: "i < length (scope_tasks s)" "scope_tasks s ! i = Running"
      using run[unfolded in_set_conv_nth] by blast
    have "1 \<le> count active s" by (rule count_pos[OF i(1)]) (simp add: i(2))
    moreover have "1 \<le> count ((=) Running) s" by (rule count_pos[OF i(1)]) (simp add: i(2))
    moreover have "count loaded3 s = 0 \<or> count counted s = 1"
      using law_loaded3[OF law] by (cases "count loaded3 s") simp_all
    ultimately show ?thesis using running_counted[of s] by auto
  qed
  then have "scope_law (ref_count s + 2) (joiner s) (count counted s + 1) (count active s + 1) (count triggers s)
      (count forgotten s) (count resumed s) (count loaded3 s)" using law_spawn[OF law] may by blast
  then show ?thesis using inv by (simp add: scope_inv_def c) (simp add: spawn_detached_def add_ref_def ref_increment_def)
qed

lemma scope_inv_load:
  assumes inv: "scope_inv s" and i: "i < length (scope_tasks s)" "scope_tasks s ! i = Running"
  shows "scope_inv (notify_load i s)"
proof -
  have t: "scope_tasks (notify_load i s) = (scope_tasks s)[i := Loaded (ref_count s)]" by (simp add: notify_load_def)
  note c = count_at[OF t i]
  have law: "scope_law (ref_count s) (joiner s) (count counted s) (count active s) (count triggers s) (count forgotten s)
      (count resumed s) (count loaded3 s)" using inv by (simp add: scope_inv_def)
  have "1 \<le> count counted s" using count_pos[of i s counted] i by simp
  then have "2 \<le> ref_count s" using law by (auto simp: scope_law_def)
  then have "\<forall>t\<in>set (scope_tasks (notify_load i s)). wf_task t" using inv unfolding t scope_inv_def by (intro wf_update) simp_all
  moreover have "count loaded3 (notify_load i s) = count loaded3 s + of_bool (ref_count s = 3)" using c[of loaded3] by simp
  moreover have "count counted (notify_load i s) = count counted s" "count active (notify_load i s) = count active s"
    "count triggers (notify_load i s) = count triggers s" "count forgotten (notify_load i s) = count forgotten s"
    "count resumed (notify_load i s) = count resumed s"
    using c[of counted] c[of active] c[of triggers] c[of forgotten] c[of resumed] by simp_all
  moreover have "ref_count (notify_load i s) = ref_count s" "joiner (notify_load i s) = joiner s" "resumes (notify_load i s) = resumes s"
    by (simp_all add: notify_load_def)
  ultimately show ?thesis using law_load[OF law] inv by (simp only: scope_inv_def)
qed

lemma scope_inv_decide:
  assumes inv: "scope_inv s" and i: "i < length (scope_tasks s)" "scope_tasks s ! i = Loaded old"
  shows "scope_inv (notify_decide i old s)"
proof -
  define s' where "s' = notify_decide i old s"
  have pos: "1 \<le> count active s" "1 \<le> count ((=) (Loaded old)) s" using count_pos[of i s] i by simp_all
  have wf: "\<forall>t\<in>set (scope_tasks s). wf_task t" and law: "scope_law (ref_count s) (joiner s) (count counted s) (count active s)
      (count triggers s) (count forgotten s) (count resumed s) (count loaded3 s)" using inv by (simp_all add: scope_inv_def)
  have old: "2 \<le> old" using wf i nth_mem[OF i(1)] by force
  have J: "joiner s' = joiner s" "resumes s' = resumes s" by (simp_all add: s'_def notify_decide_def)
  show ?thesis
  proof (cases "old > 3")
    case True
    have t: "scope_tasks s' = (scope_tasks s)[i := Decided True (ref_count s)]" and r: "ref_count s' = ref_count s - 2"
      using True by (simp_all add: s'_def notify_decide_def joiner_flag_def ref_increment_def)
    note c = count_at[OF t i]
    have "\<forall>t\<in>set (scope_tasks s'). wf_task t" unfolding t using wf by (intro wf_update) simp_all
    moreover have "count loaded3 s + 1 \<le> count counted s" using loaded3_counted[of old s] pos(2) True by simp
    then have "scope_law (ref_count s - 2) (joiner s) (count counted s - 1) (count active s - 1)
        (count triggers s + of_bool (ref_count s = 3)) (count forgotten s) (count resumed s) (count loaded3 s)"
      by (rule law_subtract[OF law pos(1) _ active_counted])
    moreover have "count counted s - 1 = count counted s'" "count active s - 1 = count active s'"
      using c[of counted] c[of active] by simp_all
    ultimately show ?thesis unfolding s'_def[symmetric]
      using c[of triggers] c[of forgotten] c[of resumed] c[of loaded3] inv True by (simp add: scope_inv_def r J)
  next
    case False
    have t: "scope_tasks s' = (scope_tasks s)[i := Decided False old]" and r: "ref_count s' = ref_count s"
      using False by (simp_all add: s'_def notify_decide_def joiner_flag_def ref_increment_def)
    note c = count_at[OF t i]
    have two: "old = 2 \<or> old = 3 \<and> 1 \<le> count loaded3 s"
      using old False count_pos[of i s loaded3] i by auto
    have "\<forall>t\<in>set (scope_tasks s'). wf_task t" unfolding t using wf two by (intro wf_update) auto
    moreover note law_stay[OF law pos(1) active_counted two]
    moreover have "count active s - 1 = count active s'" "count loaded3 s - of_bool (old = 3) = count loaded3 s'"
      using c[of active] c[of loaded3] by simp_all
    ultimately show ?thesis unfolding s'_def[symmetric]
      using c[of counted] c[of triggers] c[of forgotten] c[of resumed] inv by (simp add: scope_inv_def r J)
  qed
qed

lemma scope_inv_resume:
  assumes inv: "scope_inv s" and i: "i < length (scope_tasks s)" "scope_tasks s ! i = Decided subtracted old"
  shows "scope_inv (notify_resume i subtracted old s)"
proof -
  define s' where "s' = notify_resume i subtracted old s"
  have wf: "\<forall>t\<in>set (scope_tasks s). wf_task t" and law: "scope_law (ref_count s) (joiner s) (count counted s) (count active s)
      (count triggers s) (count forgotten s) (count resumed s) (count loaded3 s)" using inv by (simp_all add: scope_inv_def)
  have t: "scope_tasks s' = (scope_tasks s)[i := Finished subtracted old]"
    and r: "ref_count s' = ref_count s" "joiner s' = (if old = 3 then Joined else joiner s)" "resumes s' = resumes s + of_bool (old = 3)"
    by (simp_all add: s'_def notify_resume_def Let_def joiner_flag_def ref_increment_def)
  note c = count_at[OF t i]
  have "wf_task (Decided subtracted old)" using wf i nth_mem by metis
  then have "\<forall>t\<in>set (scope_tasks s'). wf_task t" unfolding t using wf by (intro wf_update) (cases subtracted; simp)+
  moreover have "count resumed s + count ((=) (Decided subtracted old)) s \<le> count triggers s" if "old = 3"
    using that by (intro count_le) (auto elim: resumed.elims)
  then have "old = 3 \<longrightarrow> count resumed s < count triggers s" using count_pos[of i s "(=) (Decided subtracted old)"] i by fastforce
  note law_resume[OF law this]
  moreover have "count forgotten s' = count forgotten s" using c[of forgotten] by (cases subtracted) simp_all
  ultimately show ?thesis unfolding s'_def[symmetric]
    using c[of counted] c[of active] c[of triggers] c[of resumed] c[of loaded3] inv by (simp add: scope_inv_def r)
qed

lemma scope_reach_inv: "scope_reach s \<Longrightarrow> scope_inv s"
proof (induction rule: scope_reach.induct)
  case reach_new
  show ?case by (simp add: scope_inv_def scope_new_def count_def scope_law_def)
next
  case (reach_step s t)
  have tasks: "count P (join_await_ready s) = count P s" "count P (join_set_handle s) = count P s"
    "count P (join_add_flag s) = count P s" for P
    by (simp_all add: count_def join_await_ready_def join_set_handle_def join_add_flag_def)
  have a: "count active s \<le> count counted s" using active_counted[of s] by simp
  from reach_step.hyps(2) show ?case
  proof cases
    case step_ready
    then show ?thesis using reach_step.IH law_ready[OF _ a, of "ref_count s"]
      by (simp add: scope_inv_def tasks) (simp add: join_await_ready_def)
  next
    case step_handle
    then show ?thesis using reach_step.IH law_handle
      by (simp add: scope_inv_def tasks) (simp add: join_set_handle_def)
  next
    case step_flag
    then show ?thesis using reach_step.IH law_flag[OF _ a, of "ref_count s"]
      by (simp add: scope_inv_def tasks) (simp add: join_add_flag_def joiner_flag_def)
  qed (use reach_step.IH in \<open>simp_all add: scope_inv_spawn scope_inv_load scope_inv_decide scope_inv_resume\<close>)
qed

fun finished :: "detached_task \<Rightarrow> bool" where
  "finished (Finished _ _) = True" | "finished _ = False"

lemma count_0_iff: "count P s = 0 \<longleftrightarrow> (\<forall>t\<in>set (scope_tasks s). \<not> P t)"
  by (auto simp: count_def filter_empty_conv)

lemma scope_reach_law:
  assumes "scope_reach s"
  shows "scope_law (ref_count s) (joiner s) (count counted s) (count active s) (count triggers s) (count forgotten s)
      (count resumed s) (count loaded3 s)" "resumes s = count resumed s" "t \<in> set (scope_tasks s) \<Longrightarrow> wf_task t"
  using scope_reach_inv[OF assms] by (simp_all add: scope_inv_def)

text \<open>C14: However the threads interleave, the joiner is resumed at most once, and not before every task has read the
  count for the last time; the assertion of \<open>notify_task_finished\<close> holds.\<close>

theorem joiner_resumed_at_most_once:
  assumes "scope_reach s"
  shows "resumes s \<le> 1 \<and> (1 \<le> resumes s \<longrightarrow> joiner s = Joined) \<and>
    (joiner s = Joined \<longrightarrow> (\<forall>t\<in>set (scope_tasks s). \<not> active t)) \<and>
    (\<forall>old. Loaded old \<in> set (scope_tasks s) \<longrightarrow> ref_increment \<le> old)"
proof (intro conjI allI impI)
  note law = scope_reach_law[OF assms]
  show "resumes s \<le> 1" "1 \<le> resumes s \<Longrightarrow> joiner s = Joined" using law(1,2) by (auto simp: scope_law_def)
  show "\<forall>t\<in>set (scope_tasks s). \<not> active t" if "joiner s = Joined"
    using law(1) that by (simp add: scope_law_def count_0_iff)
  show "ref_increment \<le> old" if "Loaded old \<in> set (scope_tasks s)" for old
    using law(3)[OF that] by (simp add: ref_increment_def)
qed

lemma finished_resumed: "\<forall>t\<in>set (scope_tasks s). finished t \<Longrightarrow> count resumed s = count triggers s"
  unfolding count_def by (intro arg_cong[of _ _ length] filter_cong refl) (auto elim!: finished.elims)

text \<open>C15: When every task has finished and the coroutine has asked to join, the join is over exactly if no task was
  forgotten. A task is forgotten when it ends alone before the join: it reads two, leaves the count as it is, and the joiner, which then
  finds the count at two, is suspended with no step left to wake it.\<close>

theorem join_ends_unless_forgotten:
  assumes "scope_reach s" "\<forall>t\<in>set (scope_tasks s). finished t" "joiner s = Suspended \<or> joiner s = Joined"
  shows "(joiner s = Joined \<longleftrightarrow> Finished False 2 \<notin> set (scope_tasks s)) \<and> (\<forall>u. \<not> scope_step s u)"
proof
  note law = scope_reach_law[OF assms(1)]
  have same: "count resumed s = count triggers s" using assms(2) by (rule finished_resumed)
  have f: "count forgotten s = 0 \<longleftrightarrow> Finished False 2 \<notin> set (scope_tasks s)"
    using assms(2) unfolding count_0_iff by (auto elim!: forgotten.elims)
  have counted0: "count counted s = 0" if "count forgotten s = 0" "count triggers s = 0"
    unfolding count_0_iff
  proof
    fix t assume t: "t \<in> set (scope_tasks s)"
    then have "finished t" "wf_task t" "\<not> forgotten t" "\<not> triggers t"
      using assms(2) law(3) that by (simp_all add: count_0_iff)
    then show "\<not> counted t" by (auto elim!: finished.elims wf_task.elims)
  qed
  have fu: "count forgotten s \<le> count counted s" using active_counted[of s] by simp
  show "joiner s = Joined \<longleftrightarrow> Finished False 2 \<notin> set (scope_tasks s)" unfolding f[symmetric]
  proof
    assume "joiner s = Joined"
    then have "count triggers s = 0 \<longrightarrow> count counted s = 0" "count triggers s = 1 \<longrightarrow> count forgotten s = 0" "count triggers s \<le> 1"
      using law(1) unfolding scope_law_def by simp_all
    then show "count forgotten s = 0" using fu by linarith
  next
    assume f0: "count forgotten s = 0"
    show "joiner s = Joined"
    proof (rule ccontr)
      assume "joiner s \<noteq> Joined"
      then have J: "joiner s = Suspended" using assms(3) by simp
      then have "count triggers s = 0" using law(1) same unfolding scope_law_def by (cases "count triggers s") auto
      then show False using law(1) J counted0[OF f0] unfolding scope_law_def by simp
    qed
  qed
  show "\<forall>u. \<not> scope_step s u"
  proof (intro allI notI)
    fix u assume "scope_step s u"
    then show False
    proof cases
      case step_spawn
      then show False using assms(2,3) by auto
    qed (use assms(2,3) nth_mem in \<open>fastforce+\<close>)
  qed
qed

definition one_task :: async_scope where
  "one_task = spawn_detached scope_new"

definition lost_wake_up :: async_scope where
  "lost_wake_up = join_add_flag (join_set_handle (join_await_ready
     (notify_resume 0 False 2 (notify_decide 0 2 (notify_load 0 one_task)))))"

definition good_join :: async_scope where
  "good_join = notify_resume 0 False 3 (notify_decide 0 3 (notify_load 0
     (join_add_flag (join_set_handle (join_await_ready one_task)))))"

lemmas scope_ops = one_task_def scope_new_def spawn_detached_def add_ref_def notify_load_def notify_decide_def
  notify_resume_def join_await_ready_def join_set_handle_def join_add_flag_def joiner_flag_def ref_increment_def Let_def

lemma one_task_reach: "scope_reach one_task"
  unfolding one_task_def by (rule reach_step[OF reach_new step_spawn]) (simp add: scope_new_def)

lemma lost_wake_up_reach: "scope_reach lost_wake_up"
proof -
  have "scope_reach (notify_load 0 one_task)"
    by (rule reach_step[OF one_task_reach step_load]) (simp_all add: scope_ops)
  then have "scope_reach (notify_decide 0 2 (notify_load 0 one_task))"
    by (rule reach_step[OF _ step_decide]) (simp_all add: scope_ops)
  then have "scope_reach (notify_resume 0 False 2 (notify_decide 0 2 (notify_load 0 one_task)))"
    by (rule reach_step[OF _ step_resume]) (simp_all add: scope_ops)
  then have "scope_reach (join_await_ready (notify_resume 0 False 2 (notify_decide 0 2 (notify_load 0 one_task))))"
    by (rule reach_step[OF _ step_ready]) (simp add: scope_ops)
  then have "scope_reach (join_set_handle (join_await_ready (notify_resume 0 False 2 (notify_decide 0 2 (notify_load 0 one_task)))))"
    by (rule reach_step[OF _ step_handle]) (simp add: scope_ops)
  then show ?thesis unfolding lost_wake_up_def by (rule reach_step[OF _ step_flag]) (simp add: scope_ops)
qed

lemma good_join_reach: "scope_reach good_join"
proof -
  have "scope_reach (join_await_ready one_task)" by (rule reach_step[OF one_task_reach step_ready]) (simp add: scope_ops)
  then have "scope_reach (join_set_handle (join_await_ready one_task))"
    by (rule reach_step[OF _ step_handle]) (simp add: scope_ops)
  then have "scope_reach (join_add_flag (join_set_handle (join_await_ready one_task)))"
    by (rule reach_step[OF _ step_flag]) (simp add: scope_ops)
  then have "scope_reach (notify_load 0 (join_add_flag (join_set_handle (join_await_ready one_task))))"
    by (rule reach_step[OF _ step_load]) (simp_all add: scope_ops)
  then have "scope_reach (notify_decide 0 3 (notify_load 0 (join_add_flag (join_set_handle (join_await_ready one_task)))))"
    by (rule reach_step[OF _ step_decide]) (simp_all add: scope_ops)
  then show ?thesis unfolding good_join_def by (rule reach_step[OF _ step_resume]) (simp_all add: scope_ops)
qed

theorem joiner_resumed_at_most_once_witness:
  "resumes good_join \<le> 1 \<and> (\<forall>old. Loaded old \<notin> set (scope_tasks good_join)) \<and> resumes good_join = 1"
  using joiner_resumed_at_most_once[OF good_join_reach] by (simp add: good_join_def scope_ops)

theorem join_ends_unless_forgotten_witness:
  "joiner lost_wake_up = Suspended \<and> ref_count lost_wake_up = 3 \<and> (\<forall>u. \<not> scope_step lost_wake_up u)"
  using join_ends_unless_forgotten[OF lost_wake_up_reach] by (simp add: lost_wake_up_def scope_ops)

theorem loop_is_fifo_witness:
  "loop_queue (schedule_await_suspend 2 7 (schedule_await_suspend 1 6 (loop_new (\<lambda>_. \<lparr>item_next = 0, item_coro = 0\<rparr>)))) [1, 2]"
  using loop_is_fifo[of "schedule_await_suspend 1 6 (loop_new (\<lambda>_. \<lparr>item_next = 0, item_coro = 0\<rparr>))" "[1]" 2 7]
  by (simp add: loop_queue_def loop_new_def schedule_await_suspend_def enqueue_def set_next_def Let_def)

end
