(* ===== verification/Ex_Tiles.thy ===== *)
theory Ex_Tiles
  imports Prelude
begin

text \<open>
  The game of tiles of \<open>exercises/tiles.cpp\<close>: square tiles with a character in each corner are put next to each other
  where the characters agree. The board is a matrix that grows in the four directions, with an index from characters
  to positions that the code shifts along. The theorems show that the index stays exact and that a tile is only put
  where it fits, and what happens to a tile that has nothing in common with the board. Coordinates are far from the
  limits of \<open>int\<close>.
\<close>

section \<open>Positions and boxes\<close>

record position =
  px :: int
  py :: int

definition north :: "position \<Rightarrow> position" where "north p = \<lparr>px = px p, py = py p - 1\<rparr>"
definition south :: "position \<Rightarrow> position" where "south p = \<lparr>px = px p, py = py p + 1\<rparr>"
definition east :: "position \<Rightarrow> position" where "east p = \<lparr>px = px p + 1, py = py p\<rparr>"
definition west :: "position \<Rightarrow> position" where "west p = \<lparr>px = px p - 1, py = py p\<rparr>"

record box =
  box_nw :: position
  box_ne :: position
  box_se :: position
  box_sw :: position

definition from_nw_corner :: "position \<Rightarrow> box" where
  "from_nw_corner p = \<lparr>box_nw = \<lparr>px = px p, py = py p\<rparr>, box_ne = \<lparr>px = px p + 1, py = py p\<rparr>,
     box_se = \<lparr>px = px p + 1, py = py p + 1\<rparr>, box_sw = \<lparr>px = px p, py = py p + 1\<rparr>\<rparr>"

definition from_ne_corner :: "position \<Rightarrow> box" where
  "from_ne_corner p = \<lparr>box_nw = \<lparr>px = px p - 1, py = py p\<rparr>, box_ne = \<lparr>px = px p, py = py p\<rparr>,
     box_se = \<lparr>px = px p, py = py p + 1\<rparr>, box_sw = \<lparr>px = px p - 1, py = py p + 1\<rparr>\<rparr>"

definition from_se_corner :: "position \<Rightarrow> box" where
  "from_se_corner p = \<lparr>box_nw = \<lparr>px = px p - 1, py = py p - 1\<rparr>, box_ne = \<lparr>px = px p, py = py p - 1\<rparr>,
     box_se = \<lparr>px = px p, py = py p\<rparr>, box_sw = \<lparr>px = px p - 1, py = py p\<rparr>\<rparr>"

definition from_sw_corner :: "position \<Rightarrow> box" where
  "from_sw_corner p = \<lparr>box_nw = \<lparr>px = px p, py = py p - 1\<rparr>, box_ne = \<lparr>px = px p + 1, py = py p - 1\<rparr>,
     box_se = \<lparr>px = px p + 1, py = py p\<rparr>, box_sw = \<lparr>px = px p, py = py p\<rparr>\<rparr>"

record neighbor_box =
  north_west :: position
  north_east :: position
  south_west :: position
  south_east :: position
  east_north :: position
  east_south :: position
  west_north :: position
  west_south :: position

definition box_expand :: "box \<Rightarrow> neighbor_box" where
  "box_expand b =
     \<lparr>north_west = north (box_nw b), north_east = north (box_ne b), south_west = south (box_sw b),
      south_east = south (box_se b), east_north = east (box_ne b), east_south = east (box_se b),
      west_north = west (box_nw b), west_south = west (box_sw b)\<rparr>"

lemmas box_defs = from_nw_corner_def from_ne_corner_def from_se_corner_def from_sw_corner_def
  north_def south_def east_def west_def

text \<open>Every box of the code is the square at its north-western corner.\<close>

lemma corner_boxes:
  "from_ne_corner p = from_nw_corner \<lparr>px = px p - 1, py = py p\<rparr>"
  "from_se_corner p = from_nw_corner \<lparr>px = px p - 1, py = py p - 1\<rparr>"
  "from_sw_corner p = from_nw_corner \<lparr>px = px p, py = py p - 1\<rparr>"
  by (simp_all add: box_defs)

section \<open>Tiles\<close>

record tile =
  tile_nw :: char
  tile_ne :: char
  tile_se :: char
  tile_sw :: char

text \<open>The three swaps of \<open>rotate\<close>.\<close>

definition swap_nw_ne :: "tile \<Rightarrow> tile" where
  "swap_nw_ne t = t\<lparr>tile_nw := tile_ne t, tile_ne := tile_nw t\<rparr>"

definition swap_nw_se :: "tile \<Rightarrow> tile" where
  "swap_nw_se t = t\<lparr>tile_nw := tile_se t, tile_se := tile_nw t\<rparr>"

definition swap_nw_sw :: "tile \<Rightarrow> tile" where
  "swap_nw_sw t = t\<lparr>tile_nw := tile_sw t, tile_sw := tile_nw t\<rparr>"

definition tile_rotate :: "tile \<Rightarrow> tile" where
  "tile_rotate t = swap_nw_sw (swap_nw_se (swap_nw_ne t))"

lemma tile_rotate_clockwise:
  "tile_rotate t = \<lparr>tile_nw = tile_sw t, tile_ne = tile_nw t, tile_se = tile_ne t, tile_sw = tile_se t, \<dots> = tile.more t\<rparr>"
  by (simp add: tile_rotate_def swap_nw_ne_def swap_nw_se_def swap_nw_sw_def)

lemma tile_rotate_four: "(tile_rotate ^^ 4) t = t"
  by (simp add: tile_rotate_clockwise numeral_eq_Suc)

definition tile_chars :: "tile \<Rightarrow> char set" where
  "tile_chars t = {tile_nw t, tile_ne t, tile_se t, tile_sw t}"

lemma tile_chars_rotate: "tile_chars (tile_rotate t) = tile_chars t"
  by (auto simp: tile_chars_def tile_rotate_clockwise)

lemma tile_chars_rotations: "tile_chars ((tile_rotate ^^ n) t) = tile_chars t"
  by (induction n) (simp_all add: tile_chars_rotate)

section \<open>The board\<close>

type_synonym matrix = "char list list"

record board =
  link :: nat
  table :: matrix
  jump :: "char \<Rightarrow> position list"

definition no_char :: char where "no_char = CHR 0x00"

definition board_new :: board where
  "board_new = \<lparr>link = 0, table = [], jump = (\<lambda>_. [])\<rparr>"

definition board_width :: "matrix \<Rightarrow> nat" where
  "board_width m = (if m \<noteq> [] then length (m ! 0) else 0)"

definition shift_jump :: "(position \<Rightarrow> position) \<Rightarrow> board \<Rightarrow> board" where
  "shift_jump f b = b\<lparr>jump := (\<lambda>c. map f (jump b c))\<rparr>"

primrec grow_north :: "nat \<Rightarrow> board \<Rightarrow> board" where
  "grow_north 0 b = b"
| "grow_north (Suc amount) b =
     grow_north amount (shift_jump (\<lambda>p. p\<lparr>py := py p + 1\<rparr>)
       (b\<lparr>table := replicate (board_width (table b)) no_char # table b\<rparr>))"

primrec grow_south :: "nat \<Rightarrow> board \<Rightarrow> board" where
  "grow_south 0 b = b"
| "grow_south (Suc amount) b =
     grow_south amount (b\<lparr>table := table b @ [replicate (board_width (table b)) no_char]\<rparr>)"

primrec grow_east :: "nat \<Rightarrow> board \<Rightarrow> board" where
  "grow_east 0 b = b"
| "grow_east (Suc amount) b = grow_east amount (b\<lparr>table := map (\<lambda>row. row @ [no_char]) (table b)\<rparr>)"

primrec grow_west :: "nat \<Rightarrow> board \<Rightarrow> board" where
  "grow_west 0 b = b"
| "grow_west (Suc amount) b =
     grow_west amount (shift_jump (\<lambda>p. p\<lparr>px := px p + 1\<rparr>)
       (b\<lparr>table := map (\<lambda>row. no_char # row) (table b)\<rparr>))"

definition in_bounds :: "board \<Rightarrow> position \<Rightarrow> bool" where
  "in_bounds b p \<longleftrightarrow> 0 \<le> py p \<and> nat (py p) < length (table b) \<and> 0 \<le> px p \<and> nat (px p) < length (table b ! 0)"

definition character_at :: "board \<Rightarrow> position \<Rightarrow> char" where
  "character_at b p = table b ! nat (py p) ! nat (px p)"

text \<open>The character at a position, zero outside the matrix: the conditional that \<open>fits_in\<close> repeats.\<close>

definition probe :: "board \<Rightarrow> position \<Rightarrow> char" where
  "probe b p = (if in_bounds b p then character_at b p else no_char)"

definition fits_in :: "board \<Rightarrow> box \<Rightarrow> tile \<Rightarrow> bool" where
  "fits_in b area t =
     (let nw = probe b (box_nw area); ne = probe b (box_ne area);
          se = probe b (box_se area); sw = probe b (box_sw area);
          has_room = (nw = ne \<and> ne = se \<and> se = sw \<and> sw = no_char);
          n = box_expand area;
          nwn = probe b (north_west n); nen = probe b (north_east n);
          sen = probe b (south_east n); swn = probe b (south_west n);
          wnn = probe b (west_north n); enn = probe b (east_north n);
          esn = probe b (east_south n); wsn = probe b (west_south n);
          connects =
            ((tile_nw t = nwn \<or> nwn = no_char) \<and> (tile_nw t = wnn \<or> wnn = no_char) \<and>
             (tile_ne t = nen \<or> nen = no_char) \<and> (tile_ne t = enn \<or> enn = no_char) \<and>
             (tile_se t = sen \<or> sen = no_char) \<and> (tile_se t = esn \<or> esn = no_char) \<and>
             (tile_sw t = swn \<or> swn = no_char) \<and> (tile_sw t = wsn \<or> wsn = no_char));
          connect_count =
            of_bool (tile_nw t = nwn) + of_bool (tile_nw t = wnn) +
            of_bool (tile_ne t = nen) + of_bool (tile_ne t = enn) +
            of_bool (tile_se t = sen) + of_bool (tile_se t = esn) +
            of_bool (tile_sw t = swn) + of_bool (tile_sw t = wsn) :: nat
      in has_room \<and> connects \<and> connect_count \<ge> 2)"

definition write_cell :: "position \<Rightarrow> char \<Rightarrow> board \<Rightarrow> board outcome" where
  "write_cell p c b =
     (if 0 \<le> py p \<and> nat (py p) < length (table b) \<and> 0 \<le> px p \<and> nat (px p) < length (table b ! nat (py p))
      then Inr (b\<lparr>table := (table b)[nat (py p) := (table b ! nat (py p))[nat (px p) := c]]\<rparr>)
      else Inl Out_of_bounds)"

definition note_jump :: "char \<Rightarrow> position \<Rightarrow> board \<Rightarrow> board" where
  "note_jump c p b = b\<lparr>jump := (jump b)(c := jump b c @ [p])\<rparr>"

definition place_in :: "box \<Rightarrow> tile \<Rightarrow> board \<Rightarrow> board outcome" where
  "place_in area t b =
     (let height = int (length (table b)); width = int (board_width (table b));
          amount_north = (if py (box_nw area) < 0 then 0 - py (box_nw area) else 0);
          amount_south = (if py (box_se area) \<ge> height then py (box_se area) - height + 1 else 0);
          amount_east = (if px (box_se area) \<ge> width then px (box_se area) - width + 1 else 0);
          amount_west = (if px (box_nw area) < 0 then 0 - px (box_nw area) else 0);
          b = grow_west (nat amount_west) (grow_east (nat amount_east) (grow_south (nat amount_south)
                (grow_north (nat amount_north) b)));
          move = (\<lambda>p. \<lparr>px = px p + amount_west, py = py p + amount_north\<rparr>);
          nw = move (box_nw area); ne = move (box_ne area); se = move (box_se area); sw = move (box_sw area)
      in and_then (write_cell nw (tile_nw t) b) (\<lambda>b.
         and_then (write_cell ne (tile_ne t) b) (\<lambda>b.
         and_then (write_cell se (tile_se t) b) (\<lambda>b.
         and_then (write_cell sw (tile_sw t) b) (\<lambda>b.
         Inr (note_jump (tile_sw t) sw (note_jump (tile_se t) se (note_jump (tile_ne t) ne (note_jump (tile_nw t) nw b)))))))))"

section \<open>Placing a tile\<close>

record attempt =
  att_board :: board
  att_tries :: nat
  att_placed :: bool

definition try_box :: "box \<Rightarrow> tile \<Rightarrow> attempt \<Rightarrow> attempt outcome" where
  "try_box trial t a =
     (if \<not> att_placed a \<and> fits_in (att_board a) trial t
      then and_then (place_in trial t (att_board a)) (\<lambda>b. Inr (a\<lparr>att_board := b, att_placed := True\<rparr>))
      else Inr a)"

text \<open>The loop over the positions of one character, which offers two boxes at each.\<close>

fun corner_loop :: "(position \<Rightarrow> box) \<Rightarrow> (position \<Rightarrow> box) \<Rightarrow> tile \<Rightarrow> position list \<Rightarrow> attempt \<Rightarrow> attempt outcome" where
  "corner_loop f g t [] a = Inr a"
| "corner_loop f g t (p # ps) a =
     and_then (try_box (f p) t (a\<lparr>att_tries := att_tries a + 1\<rparr>)) (\<lambda>a.
     and_then (try_box (g p) t a) (\<lambda>a.
     if att_placed a then Inr a else corner_loop f g t ps a))"

definition try_corners :: "tile \<Rightarrow> attempt \<Rightarrow> attempt outcome" where
  "try_corners t a =
     and_then (corner_loop (\<lambda>p. from_nw_corner (east p)) (\<lambda>p. from_nw_corner (south p)) t (jump (att_board a) (tile_nw t)) a) (\<lambda>a.
     and_then (corner_loop (\<lambda>p. from_ne_corner (south p)) (\<lambda>p. from_ne_corner (west p)) t (jump (att_board a) (tile_ne t)) a) (\<lambda>a.
     and_then (corner_loop (\<lambda>p. from_se_corner (west p)) (\<lambda>p. from_se_corner (north p)) t (jump (att_board a) (tile_se t)) a) (\<lambda>a.
     corner_loop (\<lambda>p. from_sw_corner (north p)) (\<lambda>p. from_sw_corner (east p)) t (jump (att_board a) (tile_sw t)) a)))"

text \<open>The loop over the rotations that are left, with the number of those done.\<close>

fun try_rotations :: "nat \<Rightarrow> nat \<Rightarrow> tile \<Rightarrow> attempt \<Rightarrow> (nat \<times> tile \<times> attempt) outcome" where
  "try_rotations 0 rotation t a = Inr (rotation, t, a)"
| "try_rotations (Suc n) rotation t a =
     and_then (try_corners t a) (\<lambda>a.
     if att_placed a then Inr (rotation, t, a) else try_rotations n (rotation + 1) (tile_rotate t) a)"

text \<open>What is written to the output: the number of the tile, its rotation in degrees and the rows of the board.\<close>

datatype report = Linked nat nat "string list" | Not_placed

definition print_rows :: "board \<Rightarrow> string list" where
  "print_rows b = map (map (\<lambda>ch. if ch \<noteq> no_char then ch else CHR '' '')) (table b)"

definition place :: "tile \<Rightarrow> board \<Rightarrow> (report \<times> board) outcome" where
  "place t b =
     and_then (try_rotations 4 0 t \<lparr>att_board = b, att_tries = 0, att_placed = False\<rparr>) (\<lambda>(rotation, t, a).
     and_then (if \<not> att_placed a \<and> att_tries a = 0
               then and_then (place_in (from_nw_corner \<lparr>px = 0, py = 0\<rparr>) t (att_board a))
                      (\<lambda>b. Inr (a\<lparr>att_board := b, att_placed := True\<rparr>))
               else Inr a) (\<lambda>a.
     if att_placed a
     then (let b = (att_board a)\<lparr>link := link (att_board a) + 1\<rparr>
           in Inr (Linked (link b) (if rotation mod 4 \<noteq> 0 then rotation * 90 else 0) (print_rows b), b))
     else Inr (Not_placed, att_board a)))"

section \<open>Loading and playing\<close>

text \<open>A character of a zero-terminated string.\<close>

definition c_char :: "string \<Rightarrow> nat \<Rightarrow> char outcome" where
  "c_char s i = (if i < length s then Inr (s ! i) else if i = length s then Inr no_char else Inl Out_of_bounds)"

definition read_tile :: "string \<Rightarrow> string \<Rightarrow> tile outcome" where
  "read_tile row1 row2 =
     and_then (c_char row1 0) (\<lambda>nw. and_then (c_char row1 1) (\<lambda>ne.
     and_then (c_char row2 0) (\<lambda>sw. and_then (c_char row2 1) (\<lambda>se.
     Inr \<lparr>tile_nw = nw, tile_ne = ne, tile_se = se, tile_sw = sw\<rparr>))))"

text \<open>The array of strings up to its null pointer. A null pointer that is read as a string is undefined, and so is what
  lies behind it.\<close>

function load :: "string list \<Rightarrow> tile list outcome" where
  "load [] = Inr []"
| "load (s # ss) =
     (case (if s = [] then ss else s # ss) of
        row1 # row2 # rest \<Rightarrow> and_then (read_tile row1 row2) (\<lambda>t. and_then (load rest) (\<lambda>ts. Inr (t # ts)))
      | [row1] \<Rightarrow> Inl Undefined
      | [] \<Rightarrow> Inl Out_of_bounds)"
  by pat_completeness auto
termination by (relation "measure length") (auto split: if_splits)

fun place_all :: "tile list \<Rightarrow> board \<Rightarrow> (report list \<times> board) outcome" where
  "place_all [] b = Inr ([], b)"
| "place_all (t # ts) b =
     and_then (place t b) (\<lambda>(r, b). and_then (place_all ts b) (\<lambda>(rs, b). Inr (r # rs, b)))"

definition tiles1 :: "string list" where
  "tiles1 = [''11'', ''23'', '''', ''44'', ''11'', '''', ''16'', ''36'', '''', ''51'', ''71'', '''', ''46'', ''26'', '''',
     ''14'', ''68'']"

definition tiles2 :: "string list" where
  "tiles2 = [''12'', ''34'', '''', ''36'', ''15'', '''', ''56'', ''78'', '''', ''78'', ''90'', '''', ''46'', ''26'', '''',
     ''88'', ''01'', '''', ''93'', ''54'']"

definition tiles3 :: "string list" where
  "tiles3 = [''11'', ''12'', '''', ''12'', ''93'', '''', ''93'', ''99'', '''', ''39'', ''98'', '''', ''95'', ''86'', '''',
     ''57'', ''66'', '''', ''77'', ''57'', '''', ''13'', ''24'', '''', ''45'', ''47'', '''', ''24'', ''39'']"

section \<open>Cells of the matrix\<close>

definition cell :: "matrix \<Rightarrow> int \<Rightarrow> int \<Rightarrow> char" where
  "cell m x y = (if 0 \<le> y \<and> nat y < length m \<and> 0 \<le> x \<and> nat x < length (m ! 0) then m ! nat y ! nat x else no_char)"

lemma probe_cell: "probe b p = cell (table b) (px p) (py p)"
  by (simp add: probe_def cell_def in_bounds_def character_at_def)

definition rect :: "matrix \<Rightarrow> bool" where
  "rect m \<longleftrightarrow> (\<forall>row\<in>set m. length row = board_width m)"

lemma rect_Nil [simp]: "rect []" "board_width [] = 0"
  by (simp_all add: rect_def board_width_def)

lemma rect_row: "rect m \<Longrightarrow> i < length m \<Longrightarrow> length (m ! i) = board_width m"
  by (simp add: rect_def)

lemma cell_rect:
  "rect m \<Longrightarrow> cell m x y =
     (if 0 \<le> y \<and> nat y < length m \<and> 0 \<le> x \<and> nat x < board_width m then m ! nat y ! nat x else no_char)"
  by (auto simp: cell_def board_width_def)

lemma cell_Nil [simp]: "cell [] x y = no_char"
  by (simp add: cell_def)

lemma width_map: "board_width (map f m) = (if m = [] then 0 else length (f (m ! 0)))"
  by (simp add: board_width_def)

lemma rect_north:
  assumes "rect m"
  shows "rect (replicate (board_width m) no_char # m)" "board_width (replicate (board_width m) no_char # m) = board_width m"
  using assms by (simp_all add: rect_def board_width_def)

lemma cell_north:
  assumes "rect m"
  shows "cell (replicate (board_width m) no_char # m) x y = cell m x (y - 1)"
proof (cases "0 < y")
  case True
  then have "nat y = Suc (nat (y - 1))" by simp
  then show ?thesis using assms True by (simp add: cell_rect rect_north)
next
  case False
  then show ?thesis using assms by (auto simp: cell_rect rect_north)
qed

lemma rect_south:
  assumes "rect m"
  shows "rect (m @ [replicate (board_width m) no_char])" "board_width (m @ [replicate (board_width m) no_char]) = board_width m"
proof -
  show w: "board_width (m @ [replicate (board_width m) no_char]) = board_width m" by (cases m) (simp_all add: board_width_def)
  show "rect (m @ [replicate (board_width m) no_char])" using assms unfolding rect_def w by auto
qed

lemma cell_south:
  assumes "rect m"
  shows "cell (m @ [replicate (board_width m) no_char]) x y = cell m x y"
  using assms by (auto simp: cell_rect rect_south nth_append)

lemma rect_east:
  assumes "rect m"
  shows "rect (map (\<lambda>row. row @ [no_char]) m)"
    "board_width (map (\<lambda>row. row @ [no_char]) m) = (if m = [] then 0 else board_width m + 1)"
proof -
  show w: "board_width (map (\<lambda>row. row @ [no_char]) m) = (if m = [] then 0 else board_width m + 1)"
    by (cases m) (simp_all add: board_width_def)
  show "rect (map (\<lambda>row. row @ [no_char]) m)" using assms unfolding rect_def w by auto
qed

lemma cell_east:
  assumes "rect m"
  shows "cell (map (\<lambda>row. row @ [no_char]) m) x y = cell m x y"
  using assms by (auto simp: cell_rect rect_east rect_row nth_append)

lemma rect_west:
  assumes "rect m"
  shows "rect (map (\<lambda>row. no_char # row) m)"
    "board_width (map (\<lambda>row. no_char # row) m) = (if m = [] then 0 else board_width m + 1)"
proof -
  show w: "board_width (map (\<lambda>row. no_char # row) m) = (if m = [] then 0 else board_width m + 1)"
    by (cases m) (simp_all add: board_width_def)
  show "rect (map (\<lambda>row. no_char # row) m)" using assms unfolding rect_def w by auto
qed

lemma cell_west:
  assumes "rect m"
  shows "cell (map (\<lambda>row. no_char # row) m) x y = cell m (x - 1) y"
proof (cases "0 < x")
  case True
  then have "nat x = Suc (nat (x - 1))" by simp
  then show ?thesis using assms True by (auto simp: cell_rect rect_west rect_row)
next
  case False
  then show ?thesis using assms by (auto simp: cell_rect rect_west rect_row)
qed

text \<open>What growing does: cells and positions move together.\<close>

definition moved :: "int \<Rightarrow> int \<Rightarrow> board \<Rightarrow> board \<Rightarrow> bool" where
  "moved dx dy b b' \<longleftrightarrow> rect (table b') \<and> link b' = link b \<and>
     (\<forall>x y. cell (table b') x y = cell (table b) (x - dx) (y - dy)) \<and>
     (\<forall>c. jump b' c = map (\<lambda>p. \<lparr>px = px p + dx, py = py p + dy\<rparr>) (jump b c))"

lemma position_eta: "\<lparr>px = px p, py = py p\<rparr> = (p :: position)"
  by (cases p) simp

lemma moved_none: "rect (table b) \<Longrightarrow> moved 0 0 b b"
  by (simp add: moved_def position_eta)

lemma moved_trans: "moved dx dy a b \<Longrightarrow> moved dx' dy' b c \<Longrightarrow> dx'' = dx + dx' \<Longrightarrow> dy'' = dy + dy' \<Longrightarrow> moved dx'' dy'' a c"
  by (simp add: moved_def add_ac diff_diff_eq)

lemma grow_north_moved:
  "rect (table b) \<Longrightarrow> moved 0 (int n) b (grow_north n b) \<and> length (table (grow_north n b)) = length (table b) + n \<and>
     board_width (table (grow_north n b)) = board_width (table b)"
proof (induction n arbitrary: b)
  case (Suc n)
  let ?b = "shift_jump (\<lambda>p. p\<lparr>py := py p + 1\<rparr>) (b\<lparr>table := replicate (board_width (table b)) no_char # table b\<rparr>)"
  have t: "table ?b = replicate (board_width (table b)) no_char # table b" by (simp add: shift_jump_def)
  have r: "rect (table ?b)" "board_width (table ?b) = board_width (table b)" unfolding t using rect_north Suc.prems by blast+
  have "moved 0 1 b ?b"
    using r(1) cell_north[OF Suc.prems] by (auto simp: moved_def t shift_jump_def)
  then have "moved 0 (int (Suc n)) b (grow_north (Suc n) b)"
    by (rule moved_trans) (use Suc.IH[OF r(1)] in auto)
  then show ?case using Suc.IH[OF r(1)] r(2) by (simp add: t)
qed (simp add: moved_none)

lemma grow_south_moved:
  "rect (table b) \<Longrightarrow> moved 0 0 b (grow_south n b) \<and> length (table (grow_south n b)) = length (table b) + n \<and>
     board_width (table (grow_south n b)) = board_width (table b)"
proof (induction n arbitrary: b)
  case (Suc n)
  let ?b = "b\<lparr>table := table b @ [replicate (board_width (table b)) no_char]\<rparr>"
  have r: "rect (table ?b)" "board_width (table ?b) = board_width (table b)" using rect_south[OF Suc.prems] by simp_all
  have "moved 0 0 b ?b" using r(1) cell_south[OF Suc.prems] by (simp add: moved_def position_eta)
  then have "moved 0 0 b (grow_south (Suc n) b)" by (rule moved_trans) (use Suc.IH[OF r(1)] in auto)
  then show ?case using Suc.IH[OF r(1)] r(2) by simp
qed (simp add: moved_none)

lemma grow_east_moved:
  "rect (table b) \<Longrightarrow> moved 0 0 b (grow_east n b) \<and> length (table (grow_east n b)) = length (table b) \<and>
     board_width (table (grow_east n b)) = (if table b = [] then 0 else board_width (table b) + n)"
proof (induction n arbitrary: b)
  case (Suc n)
  let ?b = "b\<lparr>table := map (\<lambda>row. row @ [no_char]) (table b)\<rparr>"
  have r: "rect (table ?b)" "board_width (table ?b) = (if table b = [] then 0 else board_width (table b) + 1)"
    using rect_east[OF Suc.prems] by simp_all
  have "moved 0 0 b ?b" using r(1) cell_east[OF Suc.prems] by (simp add: moved_def position_eta)
  then have "moved 0 0 b (grow_east (Suc n) b)" by (rule moved_trans) (use Suc.IH[OF r(1)] in auto)
  then show ?case using Suc.IH[OF r(1)] r(2) by simp
qed (simp add: moved_none)

lemma grow_west_moved:
  "rect (table b) \<Longrightarrow> moved (int n) 0 b (grow_west n b) \<and> length (table (grow_west n b)) = length (table b) \<and>
     board_width (table (grow_west n b)) = (if table b = [] then 0 else board_width (table b) + n)"
proof (induction n arbitrary: b)
  case (Suc n)
  let ?b = "shift_jump (\<lambda>p. p\<lparr>px := px p + 1\<rparr>) (b\<lparr>table := map (\<lambda>row. no_char # row) (table b)\<rparr>)"
  have t: "table ?b = map (\<lambda>row. no_char # row) (table b)" by (simp add: shift_jump_def)
  have r: "rect (table ?b)" "board_width (table ?b) = (if table b = [] then 0 else board_width (table b) + 1)"
    unfolding t using rect_west[OF Suc.prems] by simp_all
  have "moved 1 0 b ?b"
    using r(1) cell_west[OF Suc.prems] by (auto simp: moved_def t shift_jump_def)
  then have "moved (int (Suc n)) 0 b (grow_west (Suc n) b)"
    by (rule moved_trans) (use Suc.IH[OF r(1)] in auto)
  then show ?case using Suc.IH[OF r(1)] r(2) by (simp add: t)
qed (simp add: moved_none)

section \<open>Putting a tile on the board\<close>

text \<open>The character that a tile at \<open>x\<close>, \<open>y\<close> has in a cell.\<close>

definition tile_cell :: "tile \<Rightarrow> int \<Rightarrow> int \<Rightarrow> int \<Rightarrow> int \<Rightarrow> char option" where
  "tile_cell t x y X Y =
     (if X = x \<and> Y = y then Some (tile_nw t) else if X = x + 1 \<and> Y = y then Some (tile_ne t)
      else if X = x + 1 \<and> Y = y + 1 then Some (tile_se t) else if X = x \<and> Y = y + 1 then Some (tile_sw t) else None)"

text \<open>The tile is at \<open>x\<close>, \<open>y\<close> of a board that has moved by \<open>dx\<close>, \<open>dy\<close>, and the rest is as it was.\<close>

definition placed_at :: "int \<Rightarrow> int \<Rightarrow> int \<Rightarrow> int \<Rightarrow> tile \<Rightarrow> board \<Rightarrow> board \<Rightarrow> bool" where
  "placed_at x y dx dy t b b' \<longleftrightarrow> rect (table b') \<and>
     (\<forall>X Y. cell (table b') X Y =
        (case tile_cell t (x + dx) (y + dy) X Y of Some c \<Rightarrow> c | None \<Rightarrow> cell (table b) (X - dx) (Y - dy))) \<and>
     (\<forall>c p. p \<in> set (jump b' c) \<longleftrightarrow>
        \<lparr>px = px p - dx, py = py p - dy\<rparr> \<in> set (jump b c) \<or> tile_cell t (x + dx) (y + dy) (px p) (py p) = Some c)"

definition written :: "position \<Rightarrow> char \<Rightarrow> board \<Rightarrow> board" where
  "written p c b = b\<lparr>table := (table b)[nat (py p) := (table b ! nat (py p))[nat (px p) := c]]\<rparr>"

definition inside :: "board \<Rightarrow> position \<Rightarrow> bool" where
  "inside b p \<longleftrightarrow> 0 \<le> py p \<and> nat (py p) < length (table b) \<and> 0 \<le> px p \<and> nat (px p) < board_width (table b)"

lemma write_cell_inside: "rect (table b) \<Longrightarrow> inside b p \<Longrightarrow> write_cell p c b = Inr (written p c b)"
  by (simp add: write_cell_def written_def inside_def rect_row)

lemma written_keeps:
  "rect (table b) \<Longrightarrow> inside b p \<Longrightarrow> rect (table (written p c b))"
  "rect (table b) \<Longrightarrow> inside b p \<Longrightarrow> inside (written p c b) q = inside b q"
proof -
  assume r: "rect (table b)" and i: "inside b p"
  have w: "board_width (table (written p c b)) = board_width (table b)"
    using r i by (cases "table b") (auto simp: board_width_def written_def inside_def rect_row nth_list_update nth_Cons split: nat.splits)
  have "length row = board_width (table b)" if "row \<in> set (table (written p c b))" for row
    using that i by (auto simp: written_def inside_def in_set_conv_nth nth_list_update rect_row[OF r] split: if_splits)
  then show "rect (table (written p c b))" unfolding rect_def w by blast
  show "inside (written p c b) q = inside b q" unfolding inside_def w by (simp add: written_def)
qed

lemma written_same: "link (written p c b) = link b" "jump (written p c b) = jump b"
  by (simp_all add: written_def)

lemma cell_written:
  assumes "rect (table b)" "inside b p"
  shows "cell (table (written p c b)) x y = (if x = px p \<and> y = py p then c else cell (table b) x y)"
proof -
  have w: "board_width (table (written p c b)) = board_width (table b)"
    using written_keeps(2)[OF assms, of c p] assms by (cases "table b")
      (auto simp: board_width_def written_def inside_def rect_row nth_list_update nth_Cons split: nat.splits)
  have "cell (table (written p c b)) x y =
      (if inside b \<lparr>px = x, py = y\<rparr> then table (written p c b) ! nat y ! nat x else no_char)"
    using written_keeps(1)[OF assms] by (simp add: cell_rect w inside_def) (simp add: written_def)
  moreover have "cell (table b) x y = (if inside b \<lparr>px = x, py = y\<rparr> then table b ! nat y ! nat x else no_char)"
    using assms(1) by (simp add: cell_rect inside_def)
  moreover have "table (written p c b) ! nat y ! nat x =
      (if x = px p \<and> y = py p then c else table b ! nat y ! nat x)" if "inside b \<lparr>px = x, py = y\<rparr>"
    using assms that by (auto simp: written_def inside_def nth_list_update rect_row eq_nat_nat_iff)
  ultimately show ?thesis using assms(2) by (auto simp: position_eta)
qed

lemma place_in_square:
  assumes "rect (table b)"
  shows "\<exists>b'. place_in (from_nw_corner \<lparr>px = x, py = y\<rparr>) t b = Inr b' \<and>
    placed_at x y (max 0 (- x)) (max 0 (- y)) t b b' \<and> link b' = link b"
proof -
  define dx dy where "dx = (if x < 0 then 0 - x else 0)" and "dy = (if y < 0 then 0 - y else 0)"
  let ?h = "int (length (table b))" and ?w = "int (board_width (table b))"
  define s e where "s = nat (if y + 1 \<ge> ?h then y + 1 - ?h + 1 else 0)"
    and "e = nat (if x + 1 \<ge> ?w then x + 1 - ?w + 1 else 0)"
  define b1 b2 b3 where "b1 = grow_north (nat dy) b" and "b2 = grow_south s b1" and "b3 = grow_east e b2"
  define g where "g = grow_west (nat dx) b3"
  note n = grow_north_moved[OF assms, of "nat dy", folded b1_def]
  then have "rect (table b1)" by (simp add: moved_def)
  note so = grow_south_moved[OF this, of s, folded b2_def]
  then have "rect (table b2)" by (simp add: moved_def)
  note ea = grow_east_moved[OF this, of e, folded b3_def]
  then have "rect (table b3)" by (simp add: moved_def)
  note we = grow_west_moved[OF this, of "nat dx", folded g_def]
  have d0: "0 \<le> dx" "0 \<le> dy" by (simp_all add: dx_def dy_def)
  have "moved 0 dy b b2" using n so moved_trans[of 0 dy b b1 0 0 b2 0 dy] d0 by simp
  then have "moved 0 dy b b3" using ea moved_trans[of 0 dy b b2 0 0 b3 0 dy] by simp
  then have m: "moved dx dy b g" using we moved_trans[of 0 dy b b3 dx 0 g dx dy] d0 by simp
  have h2: "length (table b2) = length (table b) + nat dy + s" using n so by simp
  have rows: "0 \<le> y + dy" "y + dy + 1 < int (length (table b2))"
    unfolding h2 by (auto simp: dy_def s_def)
  then have "table b2 \<noteq> []" by auto
  then have "table b3 \<noteq> []" using ea by fastforce
  then have width: "board_width (table g) = board_width (table b) + e + nat dx"
    using n so ea we \<open>table b2 \<noteq> []\<close> by simp
  have cols: "0 \<le> x + dx" "x + dx + 1 < int (board_width (table g))"
    unfolding width by (auto simp: dx_def e_def)
  have len: "length (table g) = length (table b2)" using ea we by simp
  let ?nw = "\<lparr>px = x + dx, py = y + dy\<rparr>" and ?ne = "\<lparr>px = x + 1 + dx, py = y + dy\<rparr>"
    and ?se = "\<lparr>px = x + 1 + dx, py = y + 1 + dy\<rparr>" and ?sw = "\<lparr>px = x + dx, py = y + 1 + dy\<rparr>"
  have ins: "inside g ?nw" "inside g ?ne" "inside g ?se" "inside g ?sw"
    using rows cols by (auto simp: inside_def len)
  have rg: "rect (table g)" using m by (simp add: moved_def)
  note i0 = ins(1)
  define w1 where "w1 = written ?nw (tile_nw t) g"
  define w2 where "w2 = written ?ne (tile_ne t) w1"
  define w3 where "w3 = written ?se (tile_se t) w2"
  define w4 where "w4 = written ?sw (tile_sw t) w3"
  have r1: "rect (table w1)" "\<And>q. inside w1 q = inside g q" and c1: "\<And>X Y. cell (table w1) X Y = (if X = x + dx \<and> Y = y + dy then tile_nw t else cell (table g) X Y)"
    unfolding w1_def using written_keeps[OF rg i0] cell_written[OF rg i0] by simp_all
  have i1: "inside w1 ?ne" using ins unfolding r1(2) by blast
  have r2: "rect (table w2)" "\<And>q. inside w2 q = inside g q" and c2: "\<And>X Y. cell (table w2) X Y = (if X = x + dx + 1 \<and> Y = y + dy then tile_ne t else cell (table w1) X Y)"
    unfolding w2_def using written_keeps[OF r1(1) i1] cell_written[OF r1(1) i1] r1(2) by simp_all
  have i2: "inside w2 ?se" using ins unfolding r2(2) by blast
  have r3: "rect (table w3)" "\<And>q. inside w3 q = inside g q" and c3: "\<And>X Y. cell (table w3) X Y = (if X = x + dx + 1 \<and> Y = y + dy + 1 then tile_se t else cell (table w2) X Y)"
    unfolding w3_def using written_keeps[OF r2(1) i2] cell_written[OF r2(1) i2] r2(2) by simp_all
  have i3: "inside w3 ?sw" using ins unfolding r3(2) by blast
  have r4: "rect (table w4)" and c4: "\<And>X Y. cell (table w4) X Y = (if X = x + dx \<and> Y = y + dy + 1 then tile_sw t else cell (table w3) X Y)"
    unfolding w4_def using written_keeps[OF r3(1) i3] cell_written[OF r3(1) i3] by simp_all
  have j4: "jump w4 = jump g" "link w4 = link g" by (simp_all add: w4_def w3_def w2_def w1_def written_same)
  define b' where "b' = note_jump (tile_sw t) ?sw (note_jump (tile_se t) ?se
    (note_jump (tile_ne t) ?ne (note_jump (tile_nw t) ?nw w4)))"
  have run: "place_in (from_nw_corner \<lparr>px = x, py = y\<rparr>) t b = Inr b'"
  proof -
    have "place_in (from_nw_corner \<lparr>px = x, py = y\<rparr>) t b =
        and_then (write_cell ?nw (tile_nw t) g) (\<lambda>b.
        and_then (write_cell ?ne (tile_ne t) b) (\<lambda>b.
        and_then (write_cell ?se (tile_se t) b) (\<lambda>b.
        and_then (write_cell ?sw (tile_sw t) b) (\<lambda>b.
        Inr (note_jump (tile_sw t) ?sw (note_jump (tile_se t) ?se (note_jump (tile_ne t) ?ne (note_jump (tile_nw t) ?nw b))))))))"
      by (simp only: place_in_def from_nw_corner_def Let_def box.simps position.simps g_def b3_def b2_def b1_def s_def e_def
          dx_def dy_def)
    then show ?thesis
      using write_cell_inside[OF rg i0] write_cell_inside[OF r1(1) i1] write_cell_inside[OF r2(1) i2]
        write_cell_inside[OF r3(1) i3] by (simp add: b'_def w4_def w3_def w2_def w1_def)
  qed
  have tb: "table b' = table w4" "link b' = link w4" by (simp_all add: b'_def note_jump_def)
  have cells: "cell (table b') X Y = (case tile_cell t (x + dx) (y + dy) X Y of Some c \<Rightarrow> c | None \<Rightarrow> cell (table b) (X - dx) (Y - dy))"
    for X Y using m by (simp add: tb c4 c3 c2 c1 tile_cell_def moved_def)
  have old: "p \<in> set (jump g c) \<longleftrightarrow> \<lparr>px = px p - dx, py = py p - dy\<rparr> \<in> set (jump b c)" for p c
  proof -
    have "set (jump g c) = (\<lambda>p. \<lparr>px = px p + dx, py = py p + dy\<rparr>) ` set (jump b c)" using m by (simp add: moved_def)
    moreover have "p \<in> (\<lambda>p. \<lparr>px = px p + dx, py = py p + dy\<rparr>) ` set (jump b c)"
      if "\<lparr>px = px p - dx, py = py p - dy\<rparr> \<in> set (jump b c)"
      using imageI[OF that, of "\<lambda>p. \<lparr>px = px p + dx, py = py p + dy\<rparr>"] by (simp add: position_eta)
    ultimately show ?thesis by (auto simp: position_eta)
  qed
  have "p \<in> set (jump b' c) \<longleftrightarrow> p \<in> set (jump g c) \<or> tile_cell t (x + dx) (y + dy) (px p) (py p) = Some c" for p c
    unfolding b'_def note_jump_def using j4(1) by (cases p) (auto simp: tile_cell_def add_ac)
  then have "placed_at x y dx dy t b b'" unfolding placed_at_def using cells r4 old by (simp add: tb)
  moreover have "dx = max 0 (- x)" "dy = max 0 (- y)" by (auto simp: dx_def dy_def)
  ultimately show ?thesis using run m by (simp add: tb j4 moved_def)
qed

section \<open>The index stays exact\<close>

definition index_ok :: "board \<Rightarrow> bool" where
  "index_ok b \<longleftrightarrow> rect (table b) \<and>
     (\<forall>c p. p \<in> set (jump b c) \<longleftrightarrow> c \<noteq> no_char \<and> cell (table b) (px p) (py p) = c)"

definition room_at :: "matrix \<Rightarrow> int \<Rightarrow> int \<Rightarrow> bool" where
  "room_at m x y \<longleftrightarrow> cell m x y = no_char \<and> cell m (x + 1) y = no_char \<and>
     cell m (x + 1) (y + 1) = no_char \<and> cell m x (y + 1) = no_char"

text \<open>The characters of a tile with the cells outside it that they touch.\<close>

definition borders :: "tile \<Rightarrow> int \<Rightarrow> int \<Rightarrow> (char \<times> int \<times> int) list" where
  "borders t x y =
     [(tile_nw t, x, y - 1), (tile_nw t, x - 1, y), (tile_ne t, x + 1, y - 1), (tile_ne t, x + 2, y),
      (tile_se t, x + 1, y + 2), (tile_se t, x + 2, y + 1), (tile_sw t, x, y + 2), (tile_sw t, x - 1, y + 1)]"

definition matches :: "matrix \<Rightarrow> tile \<Rightarrow> int \<Rightarrow> int \<Rightarrow> bool" where
  "matches m t x y \<longleftrightarrow>
     (\<forall>(c, X, Y)\<in>set (borders t x y). c = cell m X Y \<or> cell m X Y = no_char) \<and>
     2 \<le> length (filter (\<lambda>(c, X, Y). c = cell m X Y) (borders t x y))"

lemma length_filter_Cons: "length (filter P (z # zs)) = of_bool (P z) + length (filter P zs)"
  by simp

lemma fits_in_square:
  "fits_in b (from_nw_corner \<lparr>px = x, py = y\<rparr>) t \<longleftrightarrow> room_at (table b) x y \<and> matches (table b) t x y"
proof -
  have add: "x + 1 + 1 = x + 2" "y + 1 + 1 = y + 2" by simp_all
  have room: "(a = c \<and> c = d \<and> d = e \<and> e = z \<and> Q) \<longleftrightarrow> (a = z \<and> c = z \<and> d = z \<and> e = z \<and> Q)" for a c d e z :: char and Q
    by blast
  show ?thesis
    by (simp only: fits_in_def Let_def probe_cell from_nw_corner_def box_expand_def north_def south_def east_def west_def
        box.simps neighbor_box.simps position.simps room_at_def matches_def borders_def list.set ball_simps prod.case
        length_filter_Cons filter.simps(1) list.size add room add_0_right conj_assoc simp_thms add.assoc one_add_one)
qed

lemma index_ok_placed:
  assumes "index_ok b" "no_char \<notin> tile_chars t" "room_at (table b) x y" "placed_at x y dx dy t b b'"
  shows "index_ok b'"
proof -
  have "p \<in> set (jump b' c) \<longleftrightarrow> c \<noteq> no_char \<and> cell (table b') (px p) (py p) = c" for c p
  proof (cases "tile_cell t (x + dx) (y + dy) (px p) (py p)")
    case None
    then show ?thesis using assms(1,4) by (simp add: placed_at_def index_ok_def)
  next
    case (Some d)
    then have "d \<noteq> no_char" using assms(2) by (auto simp: tile_cell_def tile_chars_def split: if_splits)
    moreover have "cell (table b) (px p - dx) (py p - dy) = no_char"
      using Some assms(3) by (auto simp: tile_cell_def room_at_def algebra_simps split: if_splits)
    ultimately show ?thesis using Some assms(1,4) by (auto simp: placed_at_def index_ok_def)
  qed
  then show ?thesis using assms(4) by (simp add: index_ok_def placed_at_def)
qed

text \<open>What a part of the search does to an attempt.\<close>

definition tried :: "tile \<Rightarrow> attempt \<Rightarrow> attempt \<Rightarrow> bool" where
  "tried t a a' \<longleftrightarrow> index_ok (att_board a') \<and> att_tries a \<le> att_tries a' \<and> (att_placed a \<longrightarrow> att_placed a') \<and>
     link (att_board a') = link (att_board a) \<and>
     (if att_placed a' \<and> \<not> att_placed a
      then \<exists>x y. room_at (table (att_board a)) x y \<and> matches (table (att_board a)) t x y \<and>
             placed_at x y (max 0 (- x)) (max 0 (- y)) t (att_board a) (att_board a')
      else att_board a' = att_board a)"

lemma tried_refl: "index_ok (att_board a) \<Longrightarrow> tried t a a"
  by (simp add: tried_def)

lemma tried_trans: "tried t a b \<Longrightarrow> tried t b c \<Longrightarrow> tried t a c"
  unfolding tried_def by (cases "att_placed a"; cases "att_placed b"; cases "att_placed c"; auto)

lemma try_box_tried:
  assumes "index_ok (att_board a)" "no_char \<notin> tile_chars t"
  shows "\<exists>a'. try_box (from_nw_corner p) t a = Inr a' \<and> tried t a a'"
proof (cases "\<not> att_placed a \<and> fits_in (att_board a) (from_nw_corner p) t")
  case True
  let ?x = "px p" and ?y = "py p"
  have r: "rect (table (att_board a))" using assms(1) by (simp add: index_ok_def)
  obtain b' where b: "place_in (from_nw_corner p) t (att_board a) = Inr b'"
      "placed_at ?x ?y (max 0 (- ?x)) (max 0 (- ?y)) t (att_board a) b'" "link b' = link (att_board a)"
    using place_in_square[OF r, of ?x ?y t] by (auto simp: position_eta)
  have room: "room_at (table (att_board a)) ?x ?y" "matches (table (att_board a)) t ?x ?y"
    using True fits_in_square[of "att_board a" ?x ?y t] by (simp_all add: position_eta)
  have "index_ok b'" by (rule index_ok_placed[OF assms room(1) b(2)])
  then have "tried t a (a\<lparr>att_board := b', att_placed := True\<rparr>)"
    using True b(2,3) room unfolding tried_def by auto
  then show ?thesis using True b(1) by (simp add: try_box_def)
qed (use assms in \<open>auto simp: try_box_def tried_refl\<close>)

lemma corner_loop_tried:
  assumes "\<And>p. \<exists>q. f p = from_nw_corner q" "\<And>p. \<exists>q. g p = from_nw_corner q" "no_char \<notin> tile_chars t"
  shows "index_ok (att_board a) \<Longrightarrow> \<exists>a'. corner_loop f g t ps a = Inr a' \<and> tried t a a' \<and>
    (ps \<noteq> [] \<longrightarrow> att_tries a < att_tries a')"
proof (induction ps arbitrary: a)
  case Nil
  then show ?case by (simp add: tried_refl)
next
  case (Cons p ps)
  let ?a = "a\<lparr>att_tries := att_tries a + 1\<rparr>"
  have t0: "tried t a ?a" using Cons.prems by (simp add: tried_def)
  obtain q q' where q: "f p = from_nw_corner q" "g p = from_nw_corner q'" using assms(1)[of p] assms(2)[of p] by blast
  have ia: "index_ok (att_board ?a)" using Cons.prems by simp
  obtain a1 where a1: "try_box (f p) t ?a = Inr a1" "tried t ?a a1"
    using try_box_tried[OF ia assms(3), of q] unfolding q by blast
  then have "index_ok (att_board a1)" by (simp add: tried_def)
  then obtain a2 where a2: "try_box (g p) t a1 = Inr a2" "tried t a1 a2"
    using try_box_tried[OF _ assms(3), of a1 q'] unfolding q by blast
  have t2: "tried t ?a a2" by (rule tried_trans[OF a1(2) a2(2)])
  then have i2: "index_ok (att_board a2)" by (simp add: tried_def)
  have "\<exists>a3. (if att_placed a2 then Inr a2 else corner_loop f g t ps a2) = Inr a3 \<and> tried t a2 a3"
    using Cons.IH[OF i2] tried_refl[OF i2, of t] by (cases "att_placed a2") auto
  then obtain a3 where a3: "(if att_placed a2 then Inr a2 else corner_loop f g t ps a2) = Inr a3" "tried t a2 a3" by blast
  have t3: "tried t ?a a3" by (rule tried_trans[OF t2 a3(2)])
  then have "att_tries a < att_tries a3" by (simp add: tried_def)
  then show ?case using a1(1) a2(1) a3(1) tried_trans[OF t0 t3] by simp
qed

lemma corner_loop_all:
  assumes "index_ok (att_board a)" "no_char \<notin> tile_chars t"
  shows
    "\<exists>a'. corner_loop (\<lambda>p. from_nw_corner (east p)) (\<lambda>p. from_nw_corner (south p)) t ps a = Inr a' \<and> tried t a a' \<and> (ps \<noteq> [] \<longrightarrow> att_tries a < att_tries a')"
    "\<exists>a'. corner_loop (\<lambda>p. from_ne_corner (south p)) (\<lambda>p. from_ne_corner (west p)) t ps a = Inr a' \<and> tried t a a' \<and> (ps \<noteq> [] \<longrightarrow> att_tries a < att_tries a')"
    "\<exists>a'. corner_loop (\<lambda>p. from_se_corner (west p)) (\<lambda>p. from_se_corner (north p)) t ps a = Inr a' \<and> tried t a a' \<and> (ps \<noteq> [] \<longrightarrow> att_tries a < att_tries a')"
    "\<exists>a'. corner_loop (\<lambda>p. from_sw_corner (north p)) (\<lambda>p. from_sw_corner (east p)) t ps a = Inr a' \<and> tried t a a' \<and> (ps \<noteq> [] \<longrightarrow> att_tries a < att_tries a')"
  by (rule corner_loop_tried[OF _ _ assms(2,1)], (auto simp: corner_boxes)[], (auto simp: corner_boxes)[])+

lemma try_corners_tried:
  assumes "index_ok (att_board a)" "no_char \<notin> tile_chars t"
  shows "\<exists>a'. try_corners t a = Inr a' \<and> tried t a a' \<and>
    ((\<exists>c\<in>tile_chars t. jump (att_board a) c \<noteq> []) \<longrightarrow> att_placed a' \<or> att_tries a < att_tries a')"
proof -
  obtain a1 where a1: "corner_loop (\<lambda>p. from_nw_corner (east p)) (\<lambda>p. from_nw_corner (south p)) t (jump (att_board a) (tile_nw t)) a = Inr a1"
    "tried t a a1" "jump (att_board a) (tile_nw t) \<noteq> [] \<longrightarrow> att_tries a < att_tries a1"
    using corner_loop_all(1)[OF assms] by blast
  have i1: "index_ok (att_board a1)" using a1(2) by (simp add: tried_def)
  obtain a2 where a2: "corner_loop (\<lambda>p. from_ne_corner (south p)) (\<lambda>p. from_ne_corner (west p)) t (jump (att_board a1) (tile_ne t)) a1 = Inr a2"
    "tried t a1 a2" "jump (att_board a1) (tile_ne t) \<noteq> [] \<longrightarrow> att_tries a1 < att_tries a2"
    using corner_loop_all(2)[OF i1 assms(2)] by blast
  have i2: "index_ok (att_board a2)" using a2(2) by (simp add: tried_def)
  obtain a3 where a3: "corner_loop (\<lambda>p. from_se_corner (west p)) (\<lambda>p. from_se_corner (north p)) t (jump (att_board a2) (tile_se t)) a2 = Inr a3"
    "tried t a2 a3" "jump (att_board a2) (tile_se t) \<noteq> [] \<longrightarrow> att_tries a2 < att_tries a3"
    using corner_loop_all(3)[OF i2 assms(2)] by blast
  have i3: "index_ok (att_board a3)" using a3(2) by (simp add: tried_def)
  obtain a4 where a4: "corner_loop (\<lambda>p. from_sw_corner (north p)) (\<lambda>p. from_sw_corner (east p)) t (jump (att_board a3) (tile_sw t)) a3 = Inr a4"
    "tried t a3 a4" "jump (att_board a3) (tile_sw t) \<noteq> [] \<longrightarrow> att_tries a3 < att_tries a4"
    using corner_loop_all(4)[OF i3 assms(2)] by blast
  have "try_corners t a = Inr a4" using a1(1) a2(1) a3(1) a4(1) by (simp add: try_corners_def)
  moreover have "tried t a a4" using a1(2) a2(2) a3(2) a4(2) tried_trans by blast
  moreover have "att_placed a4 \<or> att_tries a < att_tries a4" if "\<exists>c\<in>tile_chars t. jump (att_board a) c \<noteq> []"
  proof (cases "att_placed a4")
    case False
    then have "\<not> att_placed a1" "\<not> att_placed a2" "\<not> att_placed a3"
      using a2(2) a3(2) a4(2) by (auto simp: tried_def)
    then have "att_board a1 = att_board a" "att_board a2 = att_board a" "att_board a3 = att_board a"
      using a1(2) a2(2) a3(2) by (simp_all add: tried_def)
    moreover have "att_tries a \<le> att_tries a1" "att_tries a1 \<le> att_tries a2" "att_tries a2 \<le> att_tries a3" "att_tries a3 \<le> att_tries a4"
      using a1(2) a2(2) a3(2) a4(2) by (simp_all add: tried_def)
    ultimately show ?thesis using that a1(3) a2(3) a3(3) a4(3) by (auto simp: tile_chars_def)
  qed simp
  ultimately show ?thesis by blast
qed

lemma try_corners_nothing:
  "(\<And>c. c \<in> tile_chars t \<Longrightarrow> jump (att_board a) c = []) \<Longrightarrow> try_corners t a = Inr a"
  by (simp add: try_corners_def tile_chars_def)

lemma try_rotations_tried:
  assumes "no_char \<notin> tile_chars t"
  shows "index_ok (att_board a) \<Longrightarrow> \<not> att_placed a \<Longrightarrow>
    \<exists>k a'. try_rotations n r t a = Inr (r + k, (tile_rotate ^^ k) t, a') \<and> k \<le> n \<and> (att_placed a' \<longrightarrow> k < n) \<and>
      (\<not> att_placed a' \<longrightarrow> k = n) \<and> tried ((tile_rotate ^^ k) t) a a' \<and>
      (0 < n \<and> (\<exists>c\<in>tile_chars t. jump (att_board a) c \<noteq> []) \<longrightarrow> att_placed a' \<or> att_tries a < att_tries a')"
  using assms
proof (induction n arbitrary: r t a)
  case 0
  then show ?case by (intro exI[of _ 0] exI[of _ a]) (simp add: tried_refl)
next
  case (Suc n)
  obtain a1 where a1: "try_corners t a = Inr a1" "tried t a a1"
    "(\<exists>c\<in>tile_chars t. jump (att_board a) c \<noteq> []) \<longrightarrow> att_placed a1 \<or> att_tries a < att_tries a1"
    using try_corners_tried[OF Suc.prems(1,3)] by blast
  show ?case
  proof (cases "att_placed a1")
    case True
    then show ?thesis using a1 by (intro exI[of _ 0] exI[of _ a1]) simp
  next
    case False
    then have b: "att_board a1 = att_board a" "att_tries a \<le> att_tries a1" "index_ok (att_board a1)"
      using a1(2) by (auto simp: tried_def)
    obtain k a' where k: "try_rotations n (r + 1) (tile_rotate t) a1 = Inr (r + 1 + k, (tile_rotate ^^ k) (tile_rotate t), a')"
      "k \<le> n" "att_placed a' \<longrightarrow> k < n" "\<not> att_placed a' \<longrightarrow> k = n" "tried ((tile_rotate ^^ k) (tile_rotate t)) a1 a'"
      using Suc.IH[of a1 "tile_rotate t" "r + 1"] b(3) False Suc.prems(3) unfolding tile_chars_rotate by blast
    have "tried ((tile_rotate ^^ k) (tile_rotate t)) a a'"
      using k(5) False Suc.prems(2) b by (auto simp: tried_def)
    moreover have "att_tries a1 \<le> att_tries a'" using k(5) by (simp add: tried_def)
    ultimately show ?thesis using k a1(1,3) False b(1)
      by (intro exI[of _ "Suc k"] exI[of _ a']) (auto simp: funpow_swap1)
  qed
qed

lemma try_rotations_nothing:
  "(\<And>c. c \<in> tile_chars t \<Longrightarrow> jump (att_board a) c = []) \<Longrightarrow> \<not> att_placed a \<Longrightarrow>
     try_rotations n r t a = Inr (r + n, (tile_rotate ^^ n) t, a)"
proof (induction n arbitrary: r t)
  case (Suc n)
  then show ?case using Suc.IH[of "tile_rotate t" "r + 1"]
    by (simp add: try_corners_nothing tile_chars_rotate funpow_swap1)
qed simp

section \<open>Placing tiles\<close>

text \<open>A tile that has a character in common with the board, or is the first, is put where its characters agree with all
  that it touches and at least two of them touch something, turned by the reported angle, and changes no other cell; or
  the board stays as it is. The index of characters stays exact and no access is out of bounds.\<close>

theorem place_keeps_board:
  assumes "index_ok b" "no_char \<notin> tile_chars t" "table b = [] \<or> (\<exists>c\<in>tile_chars t. jump b c \<noteq> [])"
  shows "\<exists>r b'. place t b = Inr (r, b') \<and> index_ok b' \<and>
    (r = Not_placed \<and> b' = b \<or>
     (\<exists>k<4. \<exists>x y. r = Linked (link b + 1) (k * 90) (print_rows b') \<and> link b' = link b + 1 \<and>
        placed_at x y (max 0 (- x)) (max 0 (- y)) ((tile_rotate ^^ k) t) b b' \<and>
        (if table b = [] then x = 0 \<and> y = 0 \<and> k = 0
         else room_at (table b) x y \<and> matches (table b) ((tile_rotate ^^ k) t) x y)))"
proof -
  let ?a = "\<lparr>att_board = b, att_tries = 0, att_placed = False\<rparr>"
  have r: "rect (table b)" using assms(1) by (simp add: index_ok_def)
  have relink: "placed_at x y dx dy t' b (b'\<lparr>link := n\<rparr>) \<longleftrightarrow> placed_at x y dx dy t' b b'"
    "index_ok (b'\<lparr>link := n\<rparr>) \<longleftrightarrow> index_ok b'" "print_rows (b'\<lparr>link := n\<rparr>) = print_rows b'" for x y dx dy t' b' n
    by (simp_all add: placed_at_def index_ok_def print_rows_def)
  show ?thesis
  proof (cases "table b = []")
    case True
    then have none: "jump b c = []" for c using assms(1) by (auto simp: index_ok_def intro: ccontr dest!: hd_in_set)
    obtain b' where b: "place_in (from_nw_corner \<lparr>px = 0, py = 0\<rparr>) t b = Inr b'" "placed_at 0 0 0 0 t b b'" "link b' = link b"
      using place_in_square[OF r, of 0 0 t] by auto
    have room: "room_at (table b) 0 0" using True by (simp add: room_at_def)
    have "index_ok b'" by (rule index_ok_placed[OF assms(1,2) room b(2)])
    have rot: "try_rotations 4 0 t ?a = Inr (4, (tile_rotate ^^ 4) t, ?a)"
      using try_rotations_nothing[of t ?a 4 0] none by simp
    have "place t b = Inr (Linked (link b + 1) (0 * 90) (print_rows b'), b'\<lparr>link := link b + 1\<rparr>)"
      unfolding place_def rot using b by (simp add: tile_rotate_four relink Let_def)
    then show ?thesis using True b \<open>index_ok b'\<close>
      by (intro exI[of _ "Linked (link b + 1) (0 * 90) (print_rows b')"] exI[of _ "b'\<lparr>link := link b + 1\<rparr>"] conjI disjI2
          exI[of _ "0 :: nat"] exI[of _ "0 :: int"]) (simp_all add: relink)
  next
    case False
    obtain k a' where k: "try_rotations 4 0 t ?a = Inr (0 + k, (tile_rotate ^^ k) t, a')" "k \<le> 4" "att_placed a' \<longrightarrow> k < 4"
      "tried ((tile_rotate ^^ k) t) ?a a'" "att_placed a' \<or> 0 < att_tries a'"
      using try_rotations_tried[OF assms(2), of ?a 4 0] assms(1,3) False by auto
    show ?thesis
    proof (cases "att_placed a'")
      case placed: True
      let ?b = "(att_board a')\<lparr>link := link b + 1\<rparr>"
      have l: "link (att_board a') = link b" "index_ok (att_board a')" using k(4) by (simp_all add: tried_def)
      obtain x y where xy: "room_at (table b) x y" "matches (table b) ((tile_rotate ^^ k) t) x y"
        "placed_at x y (max 0 (- x)) (max 0 (- y)) ((tile_rotate ^^ k) t) b (att_board a')"
        using k(4) placed unfolding tried_def by auto
      have "place t b = Inr (Linked (link b + 1) (k * 90) (print_rows ?b), ?b)"
        unfolding place_def k(1) using placed k(3) l by (simp add: Let_def)
      then show ?thesis using xy l k(3) placed False relink by (intro exI[of _ "Linked (link b + 1) (k * 90) (print_rows ?b)"]
          exI[of _ ?b] conjI disjI2 exI[of _ k] exI[of _ x] exI[of _ y]) simp_all
    next
      case not: False
      then have "att_board a' = b" using k(4) by (simp add: tried_def)
      then have "place t b = Inr (Not_placed, b)" unfolding place_def k(1) using not k(5) by simp
      then show ?thesis using assms(1) by blast
    qed
  qed
qed

text \<open>A tile that has nothing in common with a board that has tiles is put into the corner of the matrix, over what is there.\<close>

theorem unrelated_tile_overwrites:
  assumes "index_ok b" "no_char \<notin> tile_chars t" "\<forall>c\<in>tile_chars t. jump b c = []" "cell (table b) 0 0 \<noteq> no_char"
  shows "\<exists>b'. place t b = Inr (Linked (link b + 1) 0 (print_rows b'), b') \<and> placed_at 0 0 0 0 t b b' \<and> \<not> index_ok b'"
proof -
  let ?a = "\<lparr>att_board = b, att_tries = 0, att_placed = False\<rparr>" and ?p = "\<lparr>px = 0, py = 0\<rparr> :: position"
  have r: "rect (table b)" using assms(1) by (simp add: index_ok_def)
  obtain b' where b: "place_in (from_nw_corner ?p) t b = Inr b'" "placed_at 0 0 0 0 t b b'" "link b' = link b"
    using place_in_square[OF r, of 0 0 t] by auto
  let ?b = "b'\<lparr>link := link b + 1\<rparr>"
  have rot: "try_rotations 4 0 t ?a = Inr (4, (tile_rotate ^^ 4) t, ?a)"
    using try_rotations_nothing[of t ?a 4 0] assms(3) by simp
  have run: "place t b = Inr (Linked (link b + 1) 0 (print_rows ?b), ?b)"
    unfolding place_def rot using b by (simp add: tile_rotate_four Let_def)
  have at: "placed_at 0 0 0 0 t b ?b" using b(2) by (simp add: placed_at_def)
  let ?c = "cell (table b) 0 0"
  have "?p \<in> set (jump b ?c)" using assms(1,4) by (simp add: index_ok_def)
  then have "?p \<in> set (jump ?b ?c)" "?c \<noteq> tile_nw t"
    using at assms(3) by (auto simp: placed_at_def tile_chars_def)
  moreover have "cell (table ?b) 0 0 = tile_nw t" using at by (simp add: placed_at_def tile_cell_def)
  ultimately have "\<not> (?p \<in> set (jump ?b ?c) \<longrightarrow> cell (table ?b) (px ?p) (py ?p) = ?c)" by simp
  then have "\<not> index_ok ?b" unfolding index_ok_def by blast
  then show ?thesis using run at by blast
qed

section \<open>The games of the program\<close>

definition play :: "string list \<Rightarrow> (report list \<times> board) outcome" where
  "play tiles = and_then (load tiles) (\<lambda>ts. place_all ts board_new)"

lemma index_ok_new: "index_ok board_new"
  by (auto simp: index_ok_def board_new_def)

definition first_tile :: tile where
  "first_tile = \<lparr>tile_nw = CHR ''1'', tile_ne = CHR ''2'', tile_se = CHR ''4'', tile_sw = CHR ''3''\<rparr>"

definition other_tile :: tile where
  "other_tile = \<lparr>tile_nw = CHR ''5'', tile_ne = CHR ''6'', tile_se = CHR ''8'', tile_sw = CHR ''7''\<rparr>"

lemma example_tiles: "no_char \<notin> tile_chars first_tile" "no_char \<notin> tile_chars other_tile" "table board_new = []"
  by (simp_all add: tile_chars_def first_tile_def other_tile_def no_char_def board_new_def)

lemma first_placed: "place first_tile board_new = Inr (Linked 1 0 [''12'', ''34''], snd (projr (place first_tile board_new)))"
  "cell (table (snd (projr (place first_tile board_new)))) 0 0 = CHR ''1''"
  "jump (snd (projr (place first_tile board_new))) (CHR ''5'') = []" "jump (snd (projr (place first_tile board_new))) (CHR ''6'') = []"
  "jump (snd (projr (place first_tile board_new))) (CHR ''7'') = []" "jump (snd (projr (place first_tile board_new))) (CHR ''8'') = []"
  by code_simp+

theorem place_keeps_board_witness:
  "\<exists>r b'. place first_tile board_new = Inr (r, b') \<and> index_ok b'"
  using place_keeps_board[OF index_ok_new example_tiles(1) disjI1[OF example_tiles(3)]]
  by (elim exE conjE) (rule exI, rule exI, rule conjI)

lemma first_index_ok: "index_ok (snd (projr (place first_tile board_new)))"
proof -
  obtain b' where b: "place_in (from_nw_corner \<lparr>px = 0, py = 0\<rparr>) first_tile board_new = Inr b'" "placed_at 0 0 0 0 first_tile board_new b'"
    using place_in_square[of board_new 0 0 first_tile] by (auto simp: board_new_def)
  have "index_ok b'" by (rule index_ok_placed[OF index_ok_new example_tiles(1) _ b(2)]) (simp add: room_at_def board_new_def)
  moreover have "try_rotations 4 0 first_tile \<lparr>att_board = board_new, att_tries = 0, att_placed = False\<rparr> =
      Inr (4, first_tile, \<lparr>att_board = board_new, att_tries = 0, att_placed = False\<rparr>)"
    using try_rotations_nothing[of first_tile "\<lparr>att_board = board_new, att_tries = 0, att_placed = False\<rparr>" 4 0]
    by (simp add: board_new_def tile_rotate_four)
  ultimately show ?thesis using b(1) by (simp add: place_def index_ok_def Let_def)
qed

theorem unrelated_tile_overwrites_witness:
  "\<exists>b'. place other_tile (snd (projr (place first_tile board_new))) =
     Inr (Linked (link (snd (projr (place first_tile board_new))) + 1) 0 (print_rows b'), b') \<and> \<not> index_ok b'"
  using unrelated_tile_overwrites[OF first_index_ok example_tiles(2)] first_placed(2-6)
  by (auto simp: tile_chars_def other_tile_def no_char_def)

lemma first_two_tiles:
  "map_sum id (last \<circ> fst) (play (take 5 tiles1)) = Inr (Linked 2 0 [''44'', ''11'', ''11'', ''23''])"
  by code_simp

end
