(* ===== verification/Leet_Permutations.thy ===== *)
theory Leet_Permutations
  imports Prelude "HOL-Library.Multiset" "HOL-Library.List_Lexorder"
begin

text \<open>
  The next permutation of \<open>exercises/leetcode/31-next-permutation.cpp\<close>, in its two versions, and the combinations of
  \<open>exercises/leetcode/77-combinations.cpp\<close>, which runs through the permutations of a mask with \<open>std::next_permutation\<close>.
  Both versions compute the least greater permutation in the lexicographic order, and start again after the last; the
  combinations are therefore enumerated completely and once each.
\<close>

section \<open>Algorithms of the standard library\<close>

text \<open>Positions of the first match, as \<open>std::adjacent_find\<close> and \<open>std::find_if\<close> return them.\<close>

fun adjacent_find :: "('a \<Rightarrow> 'a \<Rightarrow> bool) \<Rightarrow> 'a list \<Rightarrow> nat option" where
  "adjacent_find R (a # b # xs) = (if R a b then Some 0 else map_option Suc (adjacent_find R (b # xs)))"
| "adjacent_find R _ = None"

fun find_index :: "('a \<Rightarrow> bool) \<Rightarrow> 'a list \<Rightarrow> nat option" where
  "find_index P [] = None"
| "find_index P (x # xs) = (if P x then Some 0 else map_option Suc (find_index P xs))"

definition iter_swap :: "nat \<Rightarrow> nat \<Rightarrow> 'a list \<Rightarrow> 'a list" where
  "iter_swap i j xs = xs[i := xs ! j, j := xs ! i]"

definition reverse_prefix :: "nat \<Rightarrow> 'a list \<Rightarrow> 'a list" where
  "reverse_prefix n xs = rev (take n xs) @ drop n xs"

definition reverse_suffix :: "nat \<Rightarrow> 'a list \<Rightarrow> 'a list" where
  "reverse_suffix n xs = take n xs @ rev (drop n xs)"

section \<open>nextPermutation\<close>

text \<open>The first version works on reverse iterators, positions in the reversed list.\<close>

definition nextPermutation :: "'a::linorder list \<Rightarrow> 'a list" where
  "nextPermutation nums =
     (if length nums > 1
      then (let r = rev nums
            in case adjacent_find (\<lambda>a b. a > b) r of
                 None \<Rightarrow> rev nums
               | Some prev \<Rightarrow>
                   (let pivot = prev + 1; p = r ! pivot
                    in case find_index (\<lambda>v. v > p) r of
                         None \<Rightarrow> rev nums
                       | Some swap \<Rightarrow> rev (reverse_prefix pivot (iter_swap pivot swap r))))
      else nums)"

text \<open>The second walks back with two iterators and looks for the value to swap from the end; reading before the first
  element is a fault.\<close>

fun find_swap :: "'a::linorder list \<Rightarrow> nat \<Rightarrow> nat \<Rightarrow> nat outcome" where
  "find_swap nums pivot 0 = (if nums ! pivot < nums ! 0 then Inr 0 else Inl Out_of_bounds)"
| "find_swap nums pivot (Suc swap) =
     (if nums ! pivot < nums ! Suc swap then Inr (Suc swap) else find_swap nums pivot swap)"

fun walk_pivot :: "nat \<Rightarrow> 'a::linorder list \<Rightarrow> 'a list outcome" where
  "walk_pivot 0 nums = Inr (rev nums)"
| "walk_pivot (Suc pivot) nums =
     (if nums ! pivot < nums ! Suc pivot
      then and_then (find_swap nums pivot (length nums - 1)) (\<lambda>swap.
           Inr (reverse_suffix (Suc pivot) (iter_swap pivot swap nums)))
      else walk_pivot pivot nums)"

definition nextPermutation1 :: "'a::linorder list \<Rightarrow> 'a list outcome" where
  "nextPermutation1 nums = (if length nums > 1 then walk_pivot (length nums - 1) nums else Inr nums)"

section \<open>What both compute\<close>

text \<open>A list that is not descending is a prefix, a pivot below the head of a descending rest, and in this rest the last
  value above the pivot.\<close>

abbreviation descending :: "'a::linorder list \<Rightarrow> bool" where
  "descending xs \<equiv> sorted_wrt (\<ge>) xs"

lemma descending_rev: "descending xs \<longleftrightarrow> sorted (rev xs)"
  by (simp add: sorted_wrt_rev)

lemma descending_split:
  assumes "\<not> descending (xs :: 'a::linorder list)"
  obtains p x u y v where "xs = p @ x # u @ y # v" "descending (u @ y # v)" "x < y" "\<forall>z\<in>set u. y \<le> z" "\<forall>z\<in>set v. z \<le> x"
proof -
  have "\<exists>p x s. xs = p @ x # s \<and> descending s \<and> s \<noteq> [] \<and> x < hd s" using assms
  proof (induction xs)
    case (Cons a xs)
    show ?case
    proof (cases "descending xs")
      case True
      then obtain z where "z \<in> set xs" "a < z" using Cons.prems by (auto simp: not_le)
      then have "xs \<noteq> []" "a < hd xs" using True by (cases xs; auto)+
      then show ?thesis using True by (intro exI[of _ "[]"]) simp
    next
      case False
      then obtain p x s where "xs = p @ x # s" "descending s" "s \<noteq> []" "x < hd s" using Cons.IH by blast
      then show ?thesis by (intro exI[of _ "a # p"]) simp
    qed
  qed simp
  then obtain p x s where s: "xs = p @ x # s" "descending s" "s \<noteq> []" "x < hd s" by blast
  define u where "u = takeWhile (\<lambda>z. x < z) s"
  have "u \<noteq> []" using s(3,4) by (cases s) (simp_all add: u_def)
  have d: "descending (u @ dropWhile (\<lambda>z. x < z) s)" using s(2) by (simp add: u_def)
  have v: "z \<le> x" if "z \<in> set (dropWhile (\<lambda>z. x < z) s)" for z
  proof (cases "dropWhile (\<lambda>z. x < z) s")
    case (Cons w ws)
    then have "w \<le> x" using hd_dropWhile[of "\<lambda>z. x < z" s] by (simp add: not_less)
    moreover have "z \<le> w" using that d Cons by (auto simp: sorted_wrt_append)
    ultimately show ?thesis by simp
  next
    case Nil
    show ?thesis using that unfolding Nil by simp
  qed
  have "x < last u" using \<open>u \<noteq> []\<close> set_takeWhileD[of "last u" "\<lambda>z. x < z" s] by (simp add: u_def)
  moreover have e: "s = butlast u @ last u # dropWhile (\<lambda>z. x < z) s"
    using \<open>u \<noteq> []\<close> takeWhile_dropWhile_id[of "\<lambda>z. x < z" s] by (metis append_Cons append_Nil append_assoc append_butlast_last_id u_def)
  moreover have "\<forall>z\<in>set (butlast u). last u \<le> z"
    using s(2) e by (metis (no_types, lifting) list.set_intros(1) sorted_wrt_append)
  ultimately show ?thesis using that[of p x "butlast u" "last u" "dropWhile (\<lambda>z. x < z) s"] s(1,2) v by metis
qed

text \<open>The permutation that follows.\<close>

lemma adjacent_find_None: "adjacent_find (\<lambda>a b. a > b) xs = None \<longleftrightarrow> sorted (xs :: 'a::linorder list)"
  by (induction "\<lambda>a b :: 'a. a > b" xs rule: adjacent_find.induct) auto

lemma adjacent_find_Some:
  "sorted (us :: 'a::linorder list) \<Longrightarrow> us \<noteq> [] \<Longrightarrow> x < last us \<Longrightarrow>
     adjacent_find (\<lambda>a b. a > b) (us @ x # ps) = Some (length us - 1)"
  by (induction us rule: induct_list012) auto

lemma find_index_append: "(\<forall>x\<in>set us. \<not> P x) \<Longrightarrow> P y \<Longrightarrow> find_index P (us @ y # vs) = Some (length us)"
  by (induction us) auto

lemma iter_swap_append:
  "iter_swap (length p) (length p + Suc (length u)) (p @ x # u @ y # v) = p @ y # u @ x # v"
  "iter_swap (length p + Suc (length u)) (length p) (p @ x # u @ y # v) = p @ y # u @ x # v"
proof -
  have n: "(p @ x # u @ y # v) ! (length p + Suc (length u)) = y" "(p @ x # u @ y # v) ! length p = x"
    by (simp_all add: nth_append)
  have x: "(p @ x # u @ z # v)[length p := y] = p @ y # u @ z # v" for z by simp
  have y: "(p @ z # u @ y # v)[length p + Suc (length u) := x] = p @ z # u @ x # v" for z
    by (simp add: list_update_append)
  show "iter_swap (length p) (length p + Suc (length u)) (p @ x # u @ y # v) = p @ y # u @ x # v"
    unfolding iter_swap_def n x y ..
  show "iter_swap (length p + Suc (length u)) (length p) (p @ x # u @ y # v) = p @ y # u @ x # v"
    unfolding iter_swap_def n y x ..
qed

lemma nth_second: "(a @ y # b @ x # c) ! (length a + Suc (length b)) = x"
  by (simp add: nth_append)

lemma nextPermutation_split:
  assumes "descending (u @ y # v)" "x < y" "\<forall>z\<in>set v. z \<le> x"
  shows "nextPermutation (p @ x # u @ y # v) = p @ y # rev (u @ x # v)"
proof -
  let ?r = "rev v @ y # rev u @ x # rev p"
  let ?s = "rev v @ y # rev u"
  have r: "rev (p @ x # u @ y # v) = ?r" "?r = ?s @ x # rev p" by simp_all
  have "sorted ?s" using assms(1) descending_rev[of "u @ y # v"] by simp
  moreover have "x < last ?s" using assms(1,2) by (cases u) (auto simp: last_append)
  ultimately have adj: "adjacent_find (\<lambda>a b. a > b) ?r = Some (length v + length u)"
    using adjacent_find_Some[of ?s x "rev p"] by simp
  have "?r ! (length v + length u + 1) = x" using nth_second[of "rev v" y "rev u" x "rev p"] by simp
  moreover have "find_index (\<lambda>z. z > x) ?r = Some (length v)"
    using find_index_append[of "rev v" "\<lambda>z. z > x" y] assms(2,3) by (auto simp: not_less)
  moreover have "iter_swap (length v + length u + 1) (length v) ?r = rev v @ x # rev u @ y # rev p"
    using iter_swap_append(2)[of "rev v" "rev u" y x "rev p"] by simp
  ultimately show ?thesis
    unfolding nextPermutation_def r(1) by (simp add: adj Let_def reverse_prefix_def)
qed

lemma nextPermutation_descending: "descending xs \<Longrightarrow> nextPermutation xs = rev xs"
proof (cases "length xs > 1")
  case True
  moreover assume "descending xs"
  then have "adjacent_find (\<lambda>a b. a > b) (rev xs) = None" by (simp add: adjacent_find_None descending_rev)
  ultimately show ?thesis by (simp add: nextPermutation_def Let_def)
next
  case False
  then have "rev xs = xs" by (cases xs; cases "tl xs") auto
  then show ?thesis using False by (simp add: nextPermutation_def)
qed

lemma find_swap_found:
  "j \<le> i \<Longrightarrow> nums ! pivot < nums ! j \<Longrightarrow> (\<forall>k. j < k \<and> k \<le> i \<longrightarrow> \<not> nums ! pivot < nums ! k) \<Longrightarrow> find_swap nums pivot i = Inr j"
proof (induction i)
  case (Suc i)
  then show ?case by (cases "j = Suc i") (auto simp: le_Suc_eq)
qed simp

lemma walk_pivot_skip:
  "pivot \<le> i \<Longrightarrow> (\<forall>k. pivot < k \<and> k \<le> i \<longrightarrow> \<not> nums ! (k - 1) < nums ! k) \<Longrightarrow> walk_pivot i nums = walk_pivot pivot nums"
proof (induction i)
  case (Suc i)
  show ?case
  proof (cases "pivot = Suc i")
    case False
    then have "pivot < Suc i" using Suc.prems(1) by simp
    then have "\<not> nums ! i < nums ! Suc i" using Suc.prems(2) by (metis diff_Suc_1 le_refl)
    then show ?thesis using Suc False by simp
  qed simp
qed simp

lemma nextPermutation1_split:
  assumes "descending (u @ y # v)" "x < y" "\<forall>z\<in>set v. z \<le> x"
  shows "nextPermutation1 (p @ x # u @ y # v) = Inr (p @ y # rev (u @ x # v))"
proof -
  let ?xs = "p @ x # u @ y # v" and ?s = "u @ y # v"
  let ?n = "length p"
  have "\<not> ?xs ! (k - 1) < ?xs ! k" if "Suc ?n < k" "k \<le> length ?xs - 1" for k
  proof -
    have "?xs ! (k - 1) = ?s ! (k - ?n - 2)" "?xs ! k = ?s ! (k - ?n - 1)"
      using that by (auto simp: nth_append nth_Cons' Suc_diff_le numeral_2_eq_2)
    moreover have "?s ! (k - ?n - 1) \<le> ?s ! (k - ?n - 2)"
      by (rule sorted_wrt_nth_less[OF assms(1)]) (use that in simp_all)
    ultimately show ?thesis by simp
  qed
  then have "walk_pivot (length ?xs - 1) ?xs = walk_pivot (Suc ?n) ?xs" by (intro walk_pivot_skip) auto
  moreover have "?xs ! ?n < ?xs ! Suc ?n" using assms(1,2) by (cases u) (auto simp: nth_append)
  moreover have "find_swap ?xs ?n (length ?xs - 1) = Inr (?n + Suc (length u))"
  proof (rule find_swap_found)
    show "\<forall>k. ?n + Suc (length u) < k \<and> k \<le> length ?xs - 1 \<longrightarrow> \<not> ?xs ! ?n < ?xs ! k"
    proof (intro allI impI)
      fix k assume k: "?n + Suc (length u) < k \<and> k \<le> length ?xs - 1"
      have "?xs = (p @ x # u @ [y]) @ v" by simp
      then have "?xs ! k = v ! (k - (?n + length u + 2))" using k by (simp only: nth_append) simp
      moreover have "k - (?n + length u + 2) < length v" using k by simp linarith
      ultimately have "?xs ! k \<in> set v" by simp
      then show "\<not> ?xs ! ?n < ?xs ! k" using assms(3) by (simp add: nth_append not_less)
    qed
  qed (use assms(2) in \<open>simp_all add: nth_append\<close>)
  ultimately show ?thesis
    using iter_swap_append(1)[of p u x y v] by (simp add: nextPermutation1_def reverse_suffix_def)
qed

lemma nextPermutation1_descending:
  assumes "descending xs"
  shows "nextPermutation1 xs = Inr (rev xs)"
proof (cases "length xs > 1")
  case True
  have "\<not> xs ! (k - 1) < xs ! k" if "0 < k" "k \<le> length xs - 1" for k
  proof -
    have "k < length xs" using that True by linarith
    then show ?thesis using sorted_wrt_nth_less[OF assms, of "k - 1" k] that by (simp add: not_less)
  qed
  then have "walk_pivot (length xs - 1) xs = walk_pivot 0 xs" by (intro walk_pivot_skip) auto
  then show ?thesis using True by (simp add: nextPermutation1_def)
next
  case False
  then have "rev xs = xs" by (cases xs; cases "tl xs") auto
  then show ?thesis using False by (simp add: nextPermutation1_def)
qed

lemma append_less_same: "(p @ a < p @ b) = (a < (b :: 'a::linorder list))" "(p @ a \<le> p @ b) = (a \<le> b)"
  by (induction p) simp_all

lemma sorted_is_least:
  "sorted ts \<Longrightarrow> mset ws = mset ts \<Longrightarrow> ts \<le> (ws :: 'a::linorder list)"
proof (induction ts arbitrary: ws)
  case (Cons t ts)
  then obtain w ws' where ws: "ws = w # ws'" by (cases ws) auto
  have "w \<in> set (t # ts)" using Cons.prems(2) ws by (metis list.set_intros(1) set_mset_mset)
  then have "t \<le> w" using Cons.prems(1) by auto
  then show ?case using Cons.IH[of ws'] Cons.prems ws by (cases "t = w") auto
qed simp

lemma descending_is_greatest:
  "descending ts \<Longrightarrow> mset ws = mset ts \<Longrightarrow> (ws :: 'a::linorder list) \<le> ts"
proof (induction ts arbitrary: ws)
  case (Cons t ts)
  then obtain w ws' where ws: "ws = w # ws'" by (cases ws) auto
  have "w \<in> set (t # ts)" using Cons.prems(2) ws by (metis list.set_intros(1) set_mset_mset)
  then have "w \<le> t" using Cons.prems(1) by auto
  then show ?case using Cons.IH[of ws'] Cons.prems ws by (cases "t = w") auto
qed simp

lemma split_is_least:
  assumes "descending (u @ y # v)" "x < y" "\<forall>z\<in>set u. y \<le> z" "\<forall>z\<in>set v. z \<le> x"
  shows "mset zs = mset (p @ x # u @ y # v) \<Longrightarrow> p @ x # u @ y # v < zs \<Longrightarrow> p @ y # rev (u @ x # v) \<le> (zs :: 'a::linorder list)"
proof (induction p arbitrary: zs)
  case Nil
  then obtain z w where zs: "zs = z # w" by (cases zs) auto
  have "z \<noteq> x"
  proof
    assume "z = x"
    then have "u @ y # v < w" "mset w = mset (u @ y # v)" using Nil zs by simp_all
    then show False using descending_is_greatest[OF assms(1)] by (metis leD)
  qed
  then have xz: "x < z" using Nil(2) zs by simp
  have "z \<in> set (x # u @ y # v)" using Nil(1) zs by (metis append_Nil list.set_intros(1) set_mset_mset)
  then have "z \<in> set u \<or> z = y" using xz assms(4) by auto
  then have yz: "y \<le> z" using assms(3) by auto
  show ?case
  proof (cases "y = z")
    case True
    have "descending (u @ x # v)" using assms by (auto simp: sorted_wrt_append)
    moreover have "mset w = mset (rev (u @ x # v))" using Nil(1) zs True by simp
    ultimately show ?thesis using sorted_is_least[of "rev (u @ x # v)" w] True zs by (simp add: descending_rev)
  qed (use yz zs in simp)
next
  case (Cons a p)
  then obtain z w where zs: "zs = z # w" by (cases zs) auto
  then show ?case using Cons by (cases "a = z") auto
qed

lemma mset_nextPermutation: "mset (nextPermutation xs) = mset (xs :: 'a::linorder list)"
proof (cases "descending xs")
  case False
  then obtain p x u y v where s: "xs = p @ x # u @ y # v" "descending (u @ y # v)" "x < y" "\<forall>z\<in>set v. z \<le> x"
    using descending_split[of xs] by metis
  show ?thesis unfolding s(1) nextPermutation_split[OF s(2-4)] by simp
qed (simp add: nextPermutation_descending)

lemma nextPermutation_greater: "xs < nextPermutation xs \<longleftrightarrow> \<not> descending (xs :: 'a::linorder list)"
proof (cases "descending xs")
  case True
  then show ?thesis using descending_is_greatest[OF True mset_nextPermutation] by (simp add: not_less)
next
  case False
  then obtain p x u y v where s: "xs = p @ x # u @ y # v" "descending (u @ y # v)" "x < y" "\<forall>z\<in>set v. z \<le> x"
    using descending_split[of xs] by metis
  show ?thesis using False unfolding s(1) nextPermutation_split[OF s(2-4)] by (simp add: append_less_same s(3))
qed

lemma nextPermutation_least:
  assumes "mset zs = mset xs" "xs < (zs :: 'a::linorder list)"
  shows "nextPermutation xs \<le> zs"
proof -
  have "\<not> descending xs" using descending_is_greatest[OF _ assms(1)] assms(2) by (metis leD)
  then obtain p x u y v where s: "xs = p @ x # u @ y # v" "descending (u @ y # v)" "x < y" "\<forall>z\<in>set u. y \<le> z" "\<forall>z\<in>set v. z \<le> x"
    using descending_split[of xs] by metis
  show ?thesis
    unfolding s(1) nextPermutation_split[OF s(2,3,5)] using split_is_least[OF s(2-5)] assms unfolding s(1) by blast
qed

text \<open>C39: Both versions return the same list, a permutation of their argument: the least of those that are greater, and the
  sorted one when there is none.\<close>

theorem next_permutation_is_next:
  fixes nums :: "'a::linorder list"
  shows "nextPermutation1 nums = Inr (nextPermutation nums) \<and> mset (nextPermutation nums) = mset nums \<and>
    (if \<exists>zs. mset zs = mset nums \<and> nums < zs
     then nums < nextPermutation nums \<and> (\<forall>zs. mset zs = mset nums \<and> nums < zs \<longrightarrow> nextPermutation nums \<le> zs)
     else nextPermutation nums = sort nums)"
proof (cases "descending nums")
  case True
  then have "\<not> (\<exists>zs. mset zs = mset nums \<and> nums < zs)" using descending_is_greatest[OF True] by (metis leD)
  moreover have "rev nums = sort nums" using True by (intro properties_for_sort[symmetric]) (simp_all add: descending_rev)
  ultimately show ?thesis
    using True by (simp add: nextPermutation_descending nextPermutation1_descending)
next
  case False
  then obtain p x u y v where s: "nums = p @ x # u @ y # v" "descending (u @ y # v)" "x < y" "\<forall>z\<in>set v. z \<le> x"
    using descending_split[of nums] by metis
  have "nextPermutation1 nums = Inr (nextPermutation nums)"
    unfolding s(1) nextPermutation_split[OF s(2-4)] nextPermutation1_split[OF s(2-4)] ..
  moreover have "nums < nextPermutation nums" using False by (simp add: nextPermutation_greater)
  ultimately show ?thesis using nextPermutation_least[of _ nums] mset_nextPermutation[of nums] by auto
qed

definition permutation_examples :: "nat list list" where
  "permutation_examples =
     (let p = nextPermutation in [p [1, 2, 3], p (p [1, 2, 3]), p (p (p [1, 2, 3])), p (p (p (p [1, 2, 3]))),
        p (p (p (p (p [1, 2, 3])))), p [3, 2, 1], p [1, 1, 5], p (p [1, 1, 5]), p [1]])"

lemma permutation_examples_printed:
  "permutation_examples = [[1, 3, 2], [2, 1, 3], [2, 3, 1], [3, 1, 2], [3, 2, 1], [1, 2, 3], [1, 5, 1], [5, 1, 1], [1]]"
  by code_simp

theorem next_permutation_is_next_witness:
  "nextPermutation1 [1, 3, 2 :: nat] = Inr [2, 1, 3] \<and> [2, 1, 3] \<le> [3, 1, 2 :: nat]"
proof -
  have "nextPermutation [1, 3, 2 :: nat] = [2, 1, 3]" by code_simp
  moreover have "mset [3, 1, 2 :: nat] = mset [1, 3, 2] \<and> [1, 3, 2 :: nat] < [3, 1, 2]" by simp
  ultimately show ?thesis using next_permutation_is_next[of "[1, 3, 2 :: nat]"] by simp
qed

section \<open>combine\<close>

text \<open>\<open>std::next_permutation\<close> advances like the functions above and says whether there was a greater permutation.\<close>

definition std_next_permutation :: "'a::linorder list \<Rightarrow> 'a list \<times> bool" where
  "std_next_permutation xs = (nextPermutation xs, xs < nextPermutation xs)"

definition selected :: "nat \<Rightarrow> int list \<Rightarrow> int list" where
  "selected n bits = map (\<lambda>i. int i + 1) (filter (\<lambda>i. bits ! i \<noteq> 0) [0..<n])"

partial_function (option) combine_loop :: "nat \<Rightarrow> int list \<Rightarrow> int list list \<Rightarrow> int list list option" where
  "combine_loop n bits result =
     (let result = result @ [selected n bits]; (bits, more) = std_next_permutation bits
      in if more then combine_loop n bits result else Some result)"

text \<open>A negative number of values throws; a mask that is too short for its ones is filled out of bounds.\<close>

definition combine :: "int \<Rightarrow> int \<Rightarrow> int list list outcome option" where
  "combine n k =
     (if n < 0 then Some (Inl Out_of_range_thrown)
      else if k < 0 \<or> n < k then Some (Inl Out_of_bounds)
      else map_option Inr (combine_loop (nat n) (replicate (nat (n - k)) 0 @ replicate (nat k) 1) []))"

lemma finite_perms: "finite {m'. mset m' = mset m}"
proof (rule finite_subset)
  show "{m'. mset m' = mset m} \<subseteq> {m'. set m' \<subseteq> set m \<and> length m' = length m}"
    using mset_eq_setD mset_eq_length by blast
qed (simp add: finite_lists_length_eq)

lemma combine_loop_enumerates:
  "\<exists>ms. combine_loop n m acc = Some (acc @ map (selected n) ms) \<and> sorted_wrt (<) ms \<and> set ms = {m'. mset m' = mset m \<and> m \<le> m'}"
proof (induction "card {m'. mset m' = mset m \<and> m < m'}" arbitrary: m acc rule: less_induct)
  case less
  let ?nm = "nextPermutation m"
  show ?case
  proof (cases "m < ?nm")
    case True
    have sub: "{m'. mset m' = mset m \<and> ?nm < m'} \<subset> {m'. mset m' = mset m \<and> m < m'}"
      using True mset_nextPermutation[of m] by auto
    have "card {m'. mset m' = mset ?nm \<and> ?nm < m'} < card {m'. mset m' = mset m \<and> m < m'}"
      unfolding mset_nextPermutation by (rule psubset_card_mono[OF _ sub]) (use finite_perms[of m] in \<open>rule rev_finite_subset\<close>, auto)
    from less[OF this, of "acc @ [selected n m]"] obtain ms where ms:
      "combine_loop n ?nm (acc @ [selected n m]) = Some ((acc @ [selected n m]) @ map (selected n) ms)"
      "sorted_wrt (<) ms" "set ms = {m'. mset m' = mset m \<and> ?nm \<le> m'}" unfolding mset_nextPermutation by blast
    have "set (m # ms) = {m'. mset m' = mset m \<and> m \<le> m'}"
      using ms(3) True nextPermutation_least[of _ m] by (auto simp: le_less)
    moreover have "sorted_wrt (<) (m # ms)" using ms(2,3) True by auto
    moreover have "combine_loop n m acc = Some (acc @ map (selected n) (m # ms))"
      using True ms(1) by (subst combine_loop.simps) (simp add: std_next_permutation_def)
    ultimately show ?thesis by blast
  next
    case False
    then have "descending m" by (simp add: nextPermutation_greater)
    then have "set [m] = {m'. mset m' = mset m \<and> m \<le> m'}" using descending_is_greatest[of m] by (auto intro: antisym)
    moreover have "combine_loop n m acc = Some (acc @ map (selected n) [m])"
      using False by (subst combine_loop.simps) (simp add: std_next_permutation_def)
    ultimately show ?thesis by (intro exI[of _ "[m]"]) simp
  qed
qed

lemma mset_mask: "mset m = mset (replicate a (0 :: int) @ replicate k 1) \<longleftrightarrow> set m \<subseteq> {0, 1} \<and> length m = a + k \<and> length (filter (\<lambda>z. z \<noteq> 0) m) = k"
proof
  assume m: "mset m = mset (replicate a (0 :: int) @ replicate k 1)"
  have "set m \<subseteq> {0, 1}" using mset_eq_setD[OF m] by auto
  moreover have "length m = a + k" using mset_eq_length[OF m] by simp
  moreover have "filter_mset (\<lambda>z. z \<noteq> 0) (mset m) = replicate_mset k 1" unfolding m by (induction a; induction k) simp_all
  then have "length (filter (\<lambda>z. z \<noteq> 0) m) = k" by (metis mset_filter size_mset size_replicate_mset)
  ultimately show "set m \<subseteq> {0, 1} \<and> length m = a + k \<and> length (filter (\<lambda>z. z \<noteq> 0) m) = k" by blast
next
  show "set m \<subseteq> {0, 1} \<and> length m = a + k \<and> length (filter (\<lambda>z. z \<noteq> 0) m) = k \<Longrightarrow> mset m = mset (replicate a (0 :: int) @ replicate k 1)"
  proof (induction m arbitrary: a k)
    case (Cons z m)
    then have z: "z = 0 \<or> z = 1" by auto
    show ?case
    proof (cases "z = 0")
      case True
      have "length (filter (\<lambda>z. z \<noteq> 0) m) \<le> length m" by (rule length_filter_le)
      moreover have "length (filter (\<lambda>z. z \<noteq> 0) m) = k" "Suc (length m) = a + k" using Cons.prems True by simp_all
      ultimately have "a \<noteq> 0" by linarith
      then obtain b where "a = Suc b" by (cases a) auto
      then show ?thesis using Cons True by simp
    next
      case False
      then obtain j where "k = Suc j" using Cons.prems by (cases k) auto
      then show ?thesis using Cons False z by simp
    qed
  qed simp
qed

lemma length_selected: "length m = n \<Longrightarrow> length (selected n m) = length (filter (\<lambda>z. z \<noteq> 0) m)"
  by (metis (no_types, lifting) length_filter_map length_map map_nth selected_def comp_apply filter_cong)

lemma set_selected: "set (selected n m) = {i. 1 \<le> i \<and> i \<le> int n \<and> m ! nat (i - 1) \<noteq> 0}"
proof -
  have "i \<in> set (selected n m) \<longleftrightarrow> 1 \<le> i \<and> i \<le> int n \<and> m ! nat (i - 1) \<noteq> 0" for i
    proof -
    have "\<exists>x<n. m ! x \<noteq> 0 \<and> i = int x + 1" if "1 \<le> i" "i \<le> int n" "m ! nat (i - 1) \<noteq> 0"
      using that by (intro exI[of _ "nat (i - 1)"]) auto
    then show ?thesis unfolding selected_def by auto
  qed
  then show ?thesis by blast
qed

lemma sorted_selected: "sorted_wrt (<) (selected n m)"
  unfolding selected_def sorted_wrt_map by (rule sorted_wrt_filter) (auto simp: sorted_wrt_iff_nth_less)

text \<open>All increasing lists of \<open>k\<close> of the numbers from one to \<open>n\<close> are listed, each once.\<close>

theorem combine_lists_combinations:
  assumes "0 \<le> k" "k \<le> n"
  shows "\<exists>cs. combine n k = Some (Inr cs) \<and> distinct cs \<and>
    set cs = {c. sorted_wrt (<) c \<and> set c \<subseteq> {1..n} \<and> int (length c) = k}"
proof -
  let ?m = "replicate (nat (n - k)) (0 :: int) @ replicate (nat k) 1"
  have "sorted ?m" by (simp add: sorted_append sorted_replicate)
  then have least: "{m. mset m = mset ?m \<and> ?m \<le> m} = {m. mset m = mset ?m}" using sorted_is_least[of ?m] by auto
  obtain ms where ms: "combine_loop (nat n) ?m [] = Some (map (selected (nat n)) ms)" "sorted_wrt (<) ms" "set ms = {m. mset m = mset ?m}"
    using combine_loop_enumerates[of "nat n" ?m "[]"] unfolding least by auto
  have len: "nat (n - k) + nat k = nat n" using assms by simp
  have mask: "m \<in> set ms \<longleftrightarrow> set m \<subseteq> {0, 1} \<and> length m = nat n \<and> length (filter (\<lambda>z. z \<noteq> 0) m) = nat k" for m
    unfolding ms(3) mem_Collect_eq mset_mask len ..
  have inj: "inj_on (selected (nat n)) (set ms)"
  proof (rule inj_onI)
    fix m m' assume m: "m \<in> set ms" "m' \<in> set ms" "selected (nat n) m = selected (nat n) m'"
    have "m ! i = m' ! i" if "i < nat n" for i
    proof -
      have "(int i + 1 \<in> set (selected (nat n) m)) = (int i + 1 \<in> set (selected (nat n) m'))" using m(3) by simp
      moreover have "1 \<le> int i + 1" "int i + 1 \<le> int (nat n)" "nat (int i + 1 - 1) = i" using that by linarith+
      ultimately have "(m ! i \<noteq> 0) = (m' ! i \<noteq> 0)" unfolding set_selected mem_Collect_eq by (simp only: simp_thms)
      moreover have "m ! i \<in> {0, 1}" "m' ! i \<in> {0, 1}" using m(1,2) that unfolding mask by (metis nth_mem subsetD)+
      ultimately show ?thesis by auto
    qed
    then show "m = m'" using m(1,2) unfolding mask by (intro nth_equalityI) auto
  qed
  have "set (map (selected (nat n)) ms) = {c. sorted_wrt (<) c \<and> set c \<subseteq> {1..n} \<and> int (length c) = k}"
  proof (intro equalityI subsetI)
    fix c assume "c \<in> set (map (selected (nat n)) ms)"
    then obtain m where m: "m \<in> set ms" "c = selected (nat n) m" by auto
    then show "c \<in> {c. sorted_wrt (<) c \<and> set c \<subseteq> {1..n} \<and> int (length c) = k}"
      using assms by (auto simp: sorted_selected set_selected length_selected mask)
  next
    fix c assume "c \<in> {c. sorted_wrt (<) c \<and> set c \<subseteq> {1..n} \<and> int (length c) = k}"
    then have c: "sorted_wrt (<) c" "set c \<subseteq> {1..n}" "int (length c) = k" by auto
    define m :: "int list" where "m = map (\<lambda>i. of_bool (int i + 1 \<in> set c)) [0..<nat n]"
    have l: "length m = nat n" by (simp add: m_def)
    have "set (selected (nat n) m) = set c"
      unfolding set_selected using c(2) assms by (auto simp: m_def subset_iff)
    then have s: "selected (nat n) m = c" using c(1) sorted_selected[of "nat n" m] by (metis strict_sorted_equal)
    then have "length (filter (\<lambda>z. z \<noteq> 0) m) = nat k" using length_selected[OF l] c(3) by simp
    then have "m \<in> set ms" unfolding mask using l by (auto simp: m_def)
    then show "c \<in> set (map (selected (nat n)) ms)" using s by auto
  qed
  moreover have "distinct (map (selected (nat n)) ms)" using inj ms(2) by (simp add: distinct_map strict_sorted_iff)
  ultimately show ?thesis using assms ms(1) by (simp add: combine_def)
qed

theorem combine_lists_combinations_witness:
  "\<exists>cs. combine 5 3 = Some (Inr cs) \<and> distinct cs \<and> [2, 4, 5] \<in> set cs"
  using combine_lists_combinations[of 3 5] by auto
end
