(* ===== verification/Leet_Arrays.thy ===== *)
theory Leet_Arrays
  imports Complex_Main Leet_Permutations
begin

text \<open>
  The programs on arrays and strings of \<open>exercises/leetcode\<close>: each function of a \<open>Solution\<close> with the loops it has, on
  lists for vectors and the rest of a list for an iterator, and what it computes: the median of two sorted arrays, the
  merging of intervals, the pair with a given sum, the common elements, the distinct elements of a sorted array and the
  rotation of an array. What a program does outside its intended inputs is a fault where the code leaves its objects.
  Integers are unbounded: the sums and differences of the programs are taken not to overflow.
\<close>

section \<open>Median of two sorted arrays\<close>

text \<open>What is left of the two arrays and the element that \<open>merged\<close> points to, if it points to one.\<close>

definition find_merged :: "bool \<Rightarrow> int list \<times> int list \<times> int option \<Rightarrow> (int list \<times> int list \<times> int option) outcome" where
  "find_merged debug s =
     (case s of
        (x # xs, y # ys, m) \<Rightarrow> if x < y then Inr (xs, y # ys, Some x) else Inr (x # xs, ys, Some y)
      | (x # xs, [], m) \<Rightarrow> Inr (xs, [], Some x)
      | ([], y # ys, m) \<Rightarrow> Inr ([], ys, Some y)
      | ([], [], m) \<Rightarrow> and_then (assertf debug False) (\<lambda>_. Inr ([], [], None)))"

primrec find_merged_times :: "bool \<Rightarrow> nat \<Rightarrow> int list \<times> int list \<times> int option \<Rightarrow> (int list \<times> int list \<times> int option) outcome" where
  "find_merged_times debug 0 s = Inr s"
| "find_merged_times debug (Suc i) s = and_then (find_merged debug s) (find_merged_times debug i)"

definition read_merged :: "int list \<times> int list \<times> int option \<Rightarrow> real outcome" where
  "read_merged s = (case snd (snd s) of Some x \<Rightarrow> Inr (real_of_int x) | None \<Rightarrow> Inl Out_of_bounds)"

definition findMedianSortedArrays :: "bool \<Rightarrow> int list \<Rightarrow> int list \<Rightarrow> real outcome" where
  "findMedianSortedArrays debug nums1 nums2 =
     (let combined_size = length nums1 + length nums2;
          mid_point = combined_size div 2;
          is_even = (combined_size mod 2 = 0);
          start = (nums1, nums2, case nums1 of [] \<Rightarrow> None | x # _ \<Rightarrow> Some x)
      in and_then (find_merged_times debug mid_point start) (\<lambda>s.
         if is_even
         then and_then (read_merged s) (\<lambda>a. and_then (find_merged debug s) (\<lambda>s.
              and_then (read_merged s) (\<lambda>b. Inr ((a + b) / 2))))
         else and_then (find_merged debug s) read_merged))"

definition median :: "int list \<Rightarrow> real" where
  "median xs = (let n = length xs in
     if n mod 2 = 0 then (real_of_int (xs ! (n div 2 - 1)) + real_of_int (xs ! (n div 2))) / 2 else real_of_int (xs ! (n div 2)))"

lemma find_merged_step:
  assumes "sorted xs" "sorted ys" "xs \<noteq> [] \<or> ys \<noteq> []"
  shows "\<exists>xs' ys' z. find_merged debug (xs, ys, m) = Inr (xs', ys', Some z) \<and> sorted xs' \<and> sorted ys' \<and>
    sort (xs @ ys) = z # sort (xs' @ ys')"
proof -
  have cons: "sort (as @ bs) = z # sort (cs @ ds)"
    if "\<forall>w\<in>set (cs @ ds). z \<le> w" "mset (as @ bs) = add_mset z (mset (cs @ ds))" for as bs cs ds and z :: int
    by (rule properties_for_sort) (use that in \<open>auto\<close>)
  show ?thesis
  proof (cases xs)
    case Nil
    then obtain y ys' where "ys = y # ys'" using assms(3) by (cases ys) auto
    then show ?thesis using Nil assms(2) by (simp add: find_merged_def sorted_sort_id insort_is_Cons)
  next
    case (Cons x xs')
    note xs = this
    show ?thesis
    proof (cases ys)
      case Nil
      then show ?thesis using xs assms(1) by (simp add: find_merged_def sorted_sort_id insort_is_Cons)
    next
      case (Cons y ys')
      show ?thesis
      proof (cases "x < y")
        case True
        have "sort (xs @ ys) = x # sort (xs' @ ys)" using assms(1,2) xs Cons True by (intro cons) auto
        then show ?thesis using xs Cons True assms(1,2) by (simp add: find_merged_def)
      next
        case False
        have "sort (xs @ ys) = y # sort (xs @ ys')" using assms(1,2) xs Cons False by (intro cons) auto
        then show ?thesis using xs Cons False assms(1,2) by (simp add: find_merged_def)
      qed
    qed
  qed
qed

lemma find_merged_run:
  "sorted xs \<Longrightarrow> sorted ys \<Longrightarrow> i \<le> length xs + length ys \<Longrightarrow>
     \<exists>xs' ys' m'. find_merged_times debug i (xs, ys, m) = Inr (xs', ys', m') \<and> sorted xs' \<and> sorted ys' \<and>
       sort (xs' @ ys') = drop i (sort (xs @ ys)) \<and> (0 < i \<longrightarrow> m' = Some (sort (xs @ ys) ! (i - 1)))"
proof (induction i arbitrary: xs ys m)
  case (Suc i)
  have "xs \<noteq> [] \<or> ys \<noteq> []" using Suc.prems(3) by auto
  then obtain xs1 ys1 z where s: "find_merged debug (xs, ys, m) = Inr (xs1, ys1, Some z)" "sorted xs1" "sorted ys1"
    "sort (xs @ ys) = z # sort (xs1 @ ys1)" using find_merged_step[OF Suc.prems(1,2)] by metis
  have "Suc (length xs1 + length ys1) = length xs + length ys" using arg_cong[OF s(4), of length] by simp
  then obtain xs' ys' m' where r: "find_merged_times debug i (xs1, ys1, Some z) = Inr (xs', ys', m')" "sorted xs'" "sorted ys'"
    "sort (xs' @ ys') = drop i (sort (xs1 @ ys1))" "0 < i \<longrightarrow> m' = Some (sort (xs1 @ ys1) ! (i - 1))"
    using Suc.IH[OF s(2,3)] Suc.prems(3) by (metis Suc_le_mono)
  have "i = 0 \<longrightarrow> m' = Some z" using r(1) by auto
  then show ?case using s r by (auto simp: nth_Cons')
qed simp

text \<open>The result is the median of the elements of both arrays; two empty arrays read an element that is not there.\<close>

theorem median_of_sorted_arrays:
  assumes "sorted nums1" "sorted nums2" "nums1 \<noteq> [] \<or> nums2 \<noteq> []"
  shows "findMedianSortedArrays debug nums1 nums2 = Inr (median (sort (nums1 @ nums2))) \<and>
    findMedianSortedArrays debug [] [] = Inl Out_of_bounds"
proof -
  let ?n = "length nums1 + length nums2" and ?m = "case nums1 of [] \<Rightarrow> None | x # _ \<Rightarrow> Some x"
  have n: "0 < ?n" using assms(3) by auto
  obtain xs' ys' m' where r: "find_merged_times debug (?n div 2) (nums1, nums2, ?m) = Inr (xs', ys', m')" "sorted xs'" "sorted ys'"
    "sort (xs' @ ys') = drop (?n div 2) (sort (nums1 @ nums2))" "0 < ?n div 2 \<longrightarrow> m' = Some (sort (nums1 @ nums2) ! (?n div 2 - 1))"
    using find_merged_run[OF assms(1,2), of "?n div 2" debug ?m] by auto
  have lt: "?n div 2 < ?n" using n by simp
  have "length xs' + length ys' = ?n - ?n div 2" using arg_cong[OF r(4), of length] by simp
  then have "xs' \<noteq> [] \<or> ys' \<noteq> []" using lt by auto
  then obtain xs1 ys1 z where s: "find_merged debug (xs', ys', m') = Inr (xs1, ys1, Some z)" "sort (xs' @ ys') = z # sort (xs1 @ ys1)"
    using find_merged_step[OF r(2,3)] by metis
  have z: "z = sort (nums1 @ nums2) ! (?n div 2)"
    using s(2) r(4) lt by (metis Cons_nth_drop_Suc length_append length_sort list.inject)
  have "?n mod 2 = 0 \<Longrightarrow> 0 < ?n div 2" using n by presburger
  then show ?thesis using r(1,5) s(1) z
    by (auto simp: findMedianSortedArrays_def Let_def median_def read_merged_def)
qed

definition median_examples :: "bool \<Rightarrow> real outcome list" where
  "median_examples debug =
     [findMedianSortedArrays debug [1, 3] [2], findMedianSortedArrays debug [1, 2] [3, 4],
      findMedianSortedArrays debug [0, 0] [0, 0], findMedianSortedArrays debug [] [1], findMedianSortedArrays debug [2] []]"

lemma find_merged_times_numeral:
  "find_merged_times debug (numeral k) s = and_then (find_merged debug s) (find_merged_times debug (pred_numeral k))"
  by (simp add: numeral_eq_Suc)

lemmas median_eval = findMedianSortedArrays_def find_merged_def read_merged_def Let_def find_merged_times_numeral

lemma median_examples_printed: "median_examples debug = [Inr 2, Inr (5 / 2), Inr 0, Inr 1, Inr 2]"
  by (simp add: median_examples_def median_eval)

theorem median_of_sorted_arrays_witness:
  "findMedianSortedArrays True [1, 2] [3, 4] = Inr (median [1, 2, 3, 4])"
  using median_of_sorted_arrays[of "[1, 2]" "[3, 4]" True] by (simp add: sorted_sort_id)

section \<open>Merge intervals\<close>

text \<open>The inner loop: what an interval absorbs of those that follow it, which are cleared.\<close>

fun absorb_next :: "int list \<Rightarrow> int list list \<Rightarrow> (int list \<times> int list list) outcome" where
  "absorb_next cur [] = Inr (cur, [])"
| "absorb_next cur (n # ns) =
     (if n = [] \<or> cur = [] then Inl Undefined
      else if hd n \<le> last cur
      then and_then (absorb_next (butlast cur @ [max (last cur) (last n)]) ns) (\<lambda>(cur, ns). Inr (cur, [] # ns))
      else and_then (absorb_next cur ns) (\<lambda>(cur, ns). Inr (cur, n # ns)))"

lemma absorb_length: "absorb_next c ns = Inr (c', ns') \<Longrightarrow> length ns' = length ns"
  by (induction c ns arbitrary: c' ns' rule: absorb_next.induct) (auto simp: and_then_eq_Inr_iff split: if_splits)

function merge_loop :: "int list list \<Rightarrow> int list list outcome" where
  "merge_loop [] = Inr []"
| "merge_loop ([] # ns) = and_then (merge_loop ns) (\<lambda>ns. Inr ([] # ns))"
| "merge_loop ((a # as) # ns) =
     (case absorb_next (a # as) ns of
        Inl e \<Rightarrow> Inl e
      | Inr (c, ns') \<Rightarrow> and_then (merge_loop ns') (\<lambda>ns'. Inr (c # ns')))"
  by pat_completeness auto
termination by (relation "measure length") (auto dest: absorb_length)

definition merge_intervals :: "int list list \<Rightarrow> int list list outcome" where
  "merge_intervals intervals =
     and_then (if length intervals > 1 then merge_loop (sort intervals) else Inr intervals)
       (\<lambda>intervals. Inr (filter (\<lambda>interval. interval \<noteq> []) intervals))"

definition is_interval :: "int list \<Rightarrow> bool" where
  "is_interval i \<longleftrightarrow> length i = 2 \<and> i ! 0 \<le> i ! 1"

definition points :: "int list list \<Rightarrow> int set" where
  "points is = (\<Union>i\<in>set is. {hd i..last i})"

lemma is_interval_iff: "is_interval i \<longleftrightarrow> (\<exists>a b. i = [a, b] \<and> a \<le> b)"
  unfolding is_interval_def by (cases i; cases "tl i") (auto simp: length_Suc_conv numeral_2_eq_2)

text \<open>Of sorted intervals a first part is absorbed.\<close>

lemma absorb_sorted:
  assumes "a \<le> b" "\<forall>n\<in>set ns. is_interval n \<and> a \<le> hd n" "sorted (map hd ns)"
  shows "\<exists>k c. absorb_next [a, b] ns = Inr ([a, c], replicate k [] @ drop k ns) \<and> k \<le> length ns \<and> b \<le> c \<and>
    points ([a, b] # take k ns) = {a..c} \<and> (\<forall>n\<in>set (drop k ns). c < hd n)"
  using assms
proof (induction ns arbitrary: b)
  case Nil
  then show ?case by (intro exI[of _ 0] exI[of _ b]) (simp add: points_def)
next
  case (Cons n ns)
  then obtain x y where n: "n = [x, y]" "x \<le> y" "a \<le> x" by (auto simp: is_interval_iff)
  show ?case
  proof (cases "x \<le> b")
    case True
    have p: "a \<le> max b y" "\<forall>n\<in>set ns. is_interval n \<and> a \<le> hd n" "sorted (map hd ns)" using Cons.prems by auto
    obtain k c where k: "absorb_next [a, max b y] ns = Inr ([a, c], replicate k [] @ drop k ns)" "k \<le> length ns" "max b y \<le> c"
      "points ([a, max b y] # take k ns) = {a..c}" "\<forall>n\<in>set (drop k ns). c < hd n"
      using Cons.IH[OF p] by blast
    have "points ([a, b] # take (Suc k) (n # ns)) = {a..max b y} \<union> points (take k ns)"
      using True n by (auto simp: points_def)
    also have "\<dots> = {a..c}" using k(4) by (simp add: points_def)
    finally show ?thesis using True n k by (intro exI[of _ "Suc k"] exI[of _ c]) simp
  next
    case False
    have all: "b < hd m" if "m \<in> set (n # ns)" for m using that Cons.prems(3) False n by fastforce
    have "absorb_next [a, b] ms = Inr ([a, b], ms)" if "\<forall>m\<in>set ms. b < hd m \<and> m \<noteq> []" for ms
      using that by (induction ms) auto
    moreover have "\<forall>m\<in>set (n # ns). m \<noteq> []" using Cons.prems(2) by (auto simp: is_interval_def)
    ultimately have "absorb_next [a, b] (n # ns) = Inr ([a, b], n # ns)" using all by blast
    then show ?thesis using all by (intro exI[of _ 0] exI[of _ b]) (simp add: points_def)
  qed
qed

lemma merge_loop_blanks: "merge_loop (replicate k [] @ ns) = and_then (merge_loop ns) (\<lambda>ns. Inr (replicate k [] @ ns))"
proof (induction k)
  case 0
  show ?case by (cases "merge_loop ns") simp_all
next
  case (Suc k)
  then show ?case by (cases "merge_loop ns") simp_all
qed

definition separated :: "int list list \<Rightarrow> bool" where
  "separated is \<longleftrightarrow> (\<forall>i\<in>set is. is_interval i) \<and> sorted_wrt (\<lambda>i j. last i < hd j) is"

lemma points_append: "points (is @ js) = points is \<union> points js"
  by (auto simp: points_def)

lemma merge_loop_sorted:
  "\<forall>n\<in>set ns. is_interval n \<Longrightarrow> sorted (map hd ns) \<Longrightarrow>
     \<exists>ms. merge_loop ns = Inr ms \<and> separated (filter (\<lambda>i. i \<noteq> []) ms) \<and> points (filter (\<lambda>i. i \<noteq> []) ms) = points ns \<and>
       (\<forall>i\<in>set ms. i \<noteq> [] \<longrightarrow> (\<exists>n\<in>set ns. hd n = hd i))"
proof (induction "length ns" arbitrary: ns rule: less_induct)
  case less
  show ?case
  proof (cases ns)
    case Nil
    then show ?thesis by (simp add: separated_def points_def)
  next
    case (Cons n rest)
    then obtain a b where n: "n = [a, b]" "a \<le> b" using less.prems(1) by (auto simp: is_interval_iff)
    obtain k c where k: "absorb_next [a, b] rest = Inr ([a, c], replicate k [] @ drop k rest)" "k \<le> length rest" "b \<le> c"
      "points ([a, b] # take k rest) = {a..c}" "\<forall>n\<in>set (drop k rest). c < hd n"
      using absorb_sorted[OF n(2), of rest] less.prems Cons n(1) by auto
    have rest: "\<forall>n\<in>set (drop k rest). is_interval n" "sorted (map hd (drop k rest))"
      using less.prems Cons by (auto simp: drop_map[symmetric] sorted_wrt_drop dest: in_set_dropD)
    have "length (drop k rest) < length ns" using Cons by simp
    from less.hyps[OF this rest] obtain ms where ms: "merge_loop (drop k rest) = Inr ms" "separated (filter (\<lambda>i. i \<noteq> []) ms)"
      "points (filter (\<lambda>i. i \<noteq> []) ms) = points (drop k rest)" "\<forall>i\<in>set ms. i \<noteq> [] \<longrightarrow> (\<exists>n\<in>set (drop k rest). hd n = hd i)"
      by blast
    have run: "merge_loop ns = Inr ([a, c] # replicate k [] @ ms)"
      using Cons n(1) k(1) ms(1) by (simp add: merge_loop_blanks)
    have fil: "filter (\<lambda>i. i \<noteq> []) ([a, c] # replicate k [] @ ms) = [a, c] # filter (\<lambda>i. i \<noteq> []) ms" by simp
    have "separated ([a, c] # filter (\<lambda>i. i \<noteq> []) ms)"
      using ms(2,4) k(5) k(3) n(2) by (fastforce simp: separated_def is_interval_def)
    moreover have "points ns = points ([a, b] # take k rest) \<union> points (drop k rest)"
      unfolding Cons n(1) points_append[symmetric] by simp
    then have "points ([a, c] # filter (\<lambda>i. i \<noteq> []) ms) = points ns"
      unfolding k(4) ms(3)[symmetric] by (auto simp: points_def)
    moreover have "\<exists>n\<in>set ns. hd n = hd i" if "i \<in> set ([a, c] # replicate k [] @ ms)" "i \<noteq> []" for i
      using that ms(4) Cons n(1) by (auto dest: in_set_dropD)
    ultimately show ?thesis using run fil by (metis (no_types, lifting))
  qed
qed

text \<open>Merging intervals gives separate intervals in ascending order that cover the same points.\<close>

theorem merge_intervals_covers:
  assumes "\<forall>i\<in>set intervals. is_interval i"
  shows "\<exists>is. merge_intervals intervals = Inr is \<and> separated is \<and> points is = points intervals"
proof (cases "length intervals > 1")
  case True
  have "hd i \<le> hd j" if "i \<le> j" "is_interval i" "is_interval j" for i j
    using that by (auto simp: is_interval_iff)
  then have "sorted (map hd (sort intervals))"
    using assms by (auto simp: sorted_map intro!: sorted_wrt_mono_rel[OF _ sorted_sort])
  then obtain ms where "merge_loop (sort intervals) = Inr ms" "separated (filter (\<lambda>i. i \<noteq> []) ms)"
    "points (filter (\<lambda>i. i \<noteq> []) ms) = points (sort intervals)"
    using merge_loop_sorted[of "sort intervals"] assms by auto
  then show ?thesis using True by (simp add: merge_intervals_def points_def)
next
  case False
  have "filter (\<lambda>i. i \<noteq> []) intervals = intervals" using assms by (auto simp: filter_id_conv is_interval_def)
  moreover have "separated intervals" using False assms by (cases intervals; cases "tl intervals") (auto simp: separated_def)
  ultimately show ?thesis using False by (simp add: merge_intervals_def)
qed

definition interval_examples :: "int list list outcome list" where
  "interval_examples =
     [merge_intervals [[1, 3], [2, 6], [8, 10], [15, 18]], merge_intervals [[1, 4], [4, 5]],
      merge_intervals [[1, 4], [5, 6]], merge_intervals [[1, 4], [2, 3]]]"

lemma interval_examples_printed:
  "interval_examples = [Inr [[1, 6], [8, 10], [15, 18]], Inr [[1, 5]], Inr [[1, 4], [5, 6]], Inr [[1, 4]]]"
  by (simp add: interval_examples_def merge_intervals_def)

theorem merge_intervals_covers_witness:
  "\<exists>is. merge_intervals [[2, 6], [1, 3], [8, 10]] = Inr is \<and> separated is \<and> points is = points [[2, 6], [1, 3], [8, 10]]"
  using merge_intervals_covers[of "[[2, 6], [1, 3], [8, 10]]"] by (simp add: is_interval_def)

section \<open>Two sum\<close>

text \<open>The multimap from values to indices, in the order of its iteration: equal values stay in the order of insertion.\<close>

definition value_to_index :: "int list \<Rightarrow> (int \<times> nat) list" where
  "value_to_index nums = sort_key fst (zip nums [0..<length nums])"

fun two_sum_loop :: "(int \<times> nat) list \<Rightarrow> int \<Rightarrow> (int \<times> nat) list \<Rightarrow> nat list" where
  "two_sum_loop m target [] = []"
| "two_sum_loop m target ((v, i) # rest) =
     (let remain = target - v; found = filter (\<lambda>p. fst p = remain) m
      in case found of
           [] \<Rightarrow> two_sum_loop m target rest
         | [p] \<Rightarrow> if snd p \<noteq> i then [snd p, i] else two_sum_loop m target rest
         | _ \<Rightarrow> (case find (\<lambda>p. snd p \<noteq> i) found of
                   Some p \<Rightarrow> [snd p, i]
                 | None \<Rightarrow> two_sum_loop m target rest))"

definition twoSum :: "int list \<Rightarrow> int \<Rightarrow> nat list" where
  "twoSum nums target =
     (if length nums > 1 then two_sum_loop (value_to_index nums) target (value_to_index nums) else [])"

definition sums_to :: "int list \<Rightarrow> int \<Rightarrow> nat \<Rightarrow> nat \<Rightarrow> bool" where
  "sums_to nums target i j \<longleftrightarrow> i < length nums \<and> j < length nums \<and> i \<noteq> j \<and> nums ! i + nums ! j = target"

lemma two_sum_loop_step:
  "two_sum_loop m target ((v, i) # rest) =
     (case find (\<lambda>p. snd p \<noteq> i) (filter (\<lambda>p. fst p = target - v) m) of
        Some p \<Rightarrow> [snd p, i] | None \<Rightarrow> two_sum_loop m target rest)"
proof (cases "filter (\<lambda>p. fst p = target - v) m")
  case (Cons p ps)
  then show ?thesis by (cases ps) (auto simp: Let_def)
qed (simp add: Let_def)

lemma two_sum_loop_found:
  assumes "\<And>w j. (w, j) \<in> set m \<longleftrightarrow> j < length nums \<and> nums ! j = w"
  shows "set rest \<subseteq> set m \<Longrightarrow>
    two_sum_loop m target rest = [] \<and> (\<forall>(v, i)\<in>set rest. \<forall>j. \<not> sums_to nums target j i) \<or>
    (\<exists>i j. two_sum_loop m target rest = [j, i] \<and> sums_to nums target j i)"
proof (induction rest)
  case (Cons p rest)
  obtain v i where p: "p = (v, i)" by (cases p)
  have i: "i < length nums" "nums ! i = v" using Cons.prems assms p by auto
  let ?f = "find (\<lambda>p. snd p \<noteq> i) (filter (\<lambda>p. fst p = target - v) m)"
  show ?case
  proof (cases ?f)
    case None
    have "\<not> sums_to nums target j i" for j
    proof
      assume j: "sums_to nums target j i"
      then have "(target - v, j) \<in> set m" using assms i by (auto simp: sums_to_def)
      then show False using None j by (auto simp: find_None_iff sums_to_def)
    qed
    moreover have "two_sum_loop m target (p # rest) = two_sum_loop m target rest" unfolding p two_sum_loop_step None by simp
    ultimately show ?thesis using Cons p by auto
  next
    case (Some q)
    then have q: "q \<in> set m" "snd q \<noteq> i" "fst q = target - v" by (auto simp: find_Some_iff dest: nth_mem)
    have "(fst q, snd q) \<in> set m" using q(1) by (simp only: prod.collapse)
    then have "sums_to nums target (snd q) i" unfolding assms using q i by (auto simp: sums_to_def)
    moreover have "two_sum_loop m target (p # rest) = [snd q, i]" unfolding p two_sum_loop_step Some by simp
    ultimately show ?thesis by blast
  qed
qed simp

text \<open>The result is a pair of different indices whose values have the sum, and is empty only if there is none.\<close>

theorem two_sum_finds:
  "twoSum nums target = [] \<and> \<not> (\<exists>i j. sums_to nums target i j) \<or>
   (\<exists>i j. twoSum nums target = [j, i] \<and> sums_to nums target j i)"
proof (cases "length nums > 1")
  case True
  have m: "(w, j) \<in> set (value_to_index nums) \<longleftrightarrow> j < length nums \<and> nums ! j = w" for w j
    by (auto simp: value_to_index_def in_set_zip)
  have "\<not> (\<exists>i j. sums_to nums target i j)" if "\<forall>(v, i)\<in>set (value_to_index nums). \<forall>j. \<not> sums_to nums target j i"
  proof (intro notI, elim exE)
    fix i j assume ij: "sums_to nums target i j"
    then have "(nums ! j, j) \<in> set (value_to_index nums)" unfolding m by (simp add: sums_to_def)
    then show False using that ij by blast
  qed
  then show ?thesis using two_sum_loop_found[OF m, of "value_to_index nums" target] True by (auto simp: twoSum_def)
next
  case False
  then show ?thesis by (auto simp: twoSum_def sums_to_def)
qed

section \<open>Intersection of two arrays\<close>

definition count_first :: "int \<Rightarrow> (nat \<times> nat) list \<Rightarrow> (nat \<times> nat) list outcome" where
  "count_first e fs = (if 0 \<le> e \<and> nat e < length fs
     then Inr (fs[nat e := (fst (fs ! nat e) + 1, snd (fs ! nat e))]) else Inl Out_of_bounds)"

definition count_second :: "int \<Rightarrow> (nat \<times> nat) list \<Rightarrow> (nat \<times> nat) list outcome" where
  "count_second e fs = (if 0 \<le> e \<and> nat e < length fs
     then Inr (fs[nat e := (fst (fs ! nat e), snd (fs ! nat e) + 1)]) else Inl Out_of_bounds)"

fun count_all :: "(int \<Rightarrow> (nat \<times> nat) list \<Rightarrow> (nat \<times> nat) list outcome) \<Rightarrow> int list \<Rightarrow> (nat \<times> nat) list \<Rightarrow> (nat \<times> nat) list outcome" where
  "count_all f [] fs = Inr fs"
| "count_all f (e # es) fs = and_then (f e fs) (count_all f es)"

definition intersect :: "int list \<Rightarrow> int list \<Rightarrow> int list outcome" where
  "intersect nums1 nums2 =
     and_then (count_all count_first nums1 (replicate 1001 (0, 0))) (\<lambda>fs.
     and_then (count_all count_second nums2 fs) (\<lambda>fs.
     Inr (concat (map (\<lambda>e. if fst (fs ! e) \<noteq> 0 \<and> snd (fs ! e) \<noteq> 0
                           then replicate (min (fst (fs ! e)) (snd (fs ! e))) (int e) else []) [0..<length fs]))))"

lemma count_all_first:
  "set es \<subseteq> {0..<int (length fs)} \<Longrightarrow> \<exists>fs'. count_all count_first es fs = Inr fs' \<and> length fs' = length fs \<and>
     (\<forall>e<length fs. fs' ! e = (fst (fs ! e) + count (mset es) (int e), snd (fs ! e)))"
proof (induction es arbitrary: fs)
  case (Cons a es)
  let ?fs = "fs[nat a := (fst (fs ! nat a) + 1, snd (fs ! nat a))]"
  have f: "count_first a fs = Inr ?fs" using Cons.prems by (auto simp: count_first_def)
  obtain fs' where "count_all count_first es ?fs = Inr fs'" "length fs' = length ?fs"
    "\<forall>e<length ?fs. fs' ! e = (fst (?fs ! e) + count (mset es) (int e), snd (?fs ! e))" using Cons.IH[of ?fs] Cons.prems by auto
  then show ?case using f Cons.prems by (auto simp: nth_list_update)
qed simp

lemma count_all_second:
  "set es \<subseteq> {0..<int (length fs)} \<Longrightarrow> \<exists>fs'. count_all count_second es fs = Inr fs' \<and> length fs' = length fs \<and>
     (\<forall>e<length fs. fs' ! e = (fst (fs ! e), snd (fs ! e) + count (mset es) (int e)))"
proof (induction es arbitrary: fs)
  case (Cons a es)
  let ?fs = "fs[nat a := (fst (fs ! nat a), snd (fs ! nat a) + 1)]"
  have f: "count_second a fs = Inr ?fs" using Cons.prems by (auto simp: count_second_def)
  obtain fs' where "count_all count_second es ?fs = Inr fs'" "length fs' = length ?fs"
    "\<forall>e<length ?fs. fs' ! e = (fst (?fs ! e), snd (?fs ! e) + count (mset es) (int e))" using Cons.IH[of ?fs] Cons.prems by auto
  then show ?case using f Cons.prems by (auto simp: nth_list_update)
qed simp

lemma concat_replicate_sorted: "sorted (concat (map (\<lambda>e. replicate (f e) (int e)) [0..<n]))"
  by (induction n) (auto simp: sorted_append sorted_replicate)

lemma count_concat_replicate:
  "count (mset (concat (map (\<lambda>e. replicate (f e) (int e)) [0..<n]))) z = (if 0 \<le> z \<and> z < int n then f (nat z) else 0)"
  by (induction n) (auto simp: count_replicate_mset)

text \<open>The common elements with their multiplicity, in ascending order; a number outside the table is out of bounds.\<close>

theorem intersect_is_intersection:
  assumes "set nums1 \<subseteq> {0..1000}" "set nums2 \<subseteq> {0..1000}"
  shows "\<exists>r. intersect nums1 nums2 = Inr r \<and> mset r = mset nums1 \<inter># mset nums2 \<and> sorted r"
proof -
  obtain f1 where f1: "count_all count_first nums1 (replicate 1001 (0, 0)) = Inr f1" "length f1 = 1001"
    "\<forall>e<1001. f1 ! e = (count (mset nums1) (int e), 0)" using count_all_first[of nums1 "replicate 1001 (0, 0)"] assms(1) by fastforce
  obtain f2 where f2: "count_all count_second nums2 f1 = Inr f2" "length f2 = 1001"
    "\<forall>e<1001. f2 ! e = (count (mset nums1) (int e), count (mset nums2) (int e))"
    using count_all_second[of nums2 f1] assms(2) f1 by fastforce
  define g where "g = (\<lambda>e. min (count (mset nums1) (int e)) (count (mset nums2) (int e)))"
  have none: "count (mset xs) w = 0" if "w \<notin> set xs" for xs :: "int list" and w using that by (simp add: count_eq_zero_iff)
  have "intersect nums1 nums2 = Inr (concat (map (\<lambda>e. replicate (g e) (int e)) [0..<1001]))"
    using f1 f2 by (auto simp: intersect_def g_def none intro!: arg_cong[of _ _ concat] map_cong)
  moreover have "mset (concat (map (\<lambda>e. replicate (g e) (int e)) [0..<1001])) = mset nums1 \<inter># mset nums2"
  proof (rule multiset_eqI)
    fix z
    have "z \<notin> set nums1" if "\<not> (0 \<le> z \<and> z < 1001)" using that assms(1) by auto
    then show "count (mset (concat (map (\<lambda>e. replicate (g e) (int e)) [0..<1001]))) z = count (mset nums1 \<inter># mset nums2) z"
      unfolding count_concat_replicate by (auto simp: g_def none)
  qed
  ultimately show ?thesis using concat_replicate_sorted[of g 1001] by blast
qed

section \<open>Remove duplicates from a sorted array\<close>

function dedup_loop :: "int list \<Rightarrow> nat \<Rightarrow> nat \<Rightarrow> int list \<times> nat" where
  "dedup_loop nums out_pos next_input =
     (if next_input < length nums
      then if nums ! out_pos \<noteq> nums ! next_input
           then dedup_loop (nums[out_pos + 1 := nums ! next_input]) (out_pos + 1) (next_input + 1)
           else dedup_loop nums out_pos (next_input + 1)
      else (nums, out_pos + 1))"
  by pat_completeness auto
termination by (relation "measure (\<lambda>(nums, out_pos, next_input). length nums - next_input)") auto

declare dedup_loop.simps [simp del]

definition removeDuplicates :: "int list \<Rightarrow> (int list \<times> nat) outcome" where
  "removeDuplicates nums = (if nums = [] then Inl Undefined else Inr (dedup_loop nums 0 1))"

lemma remdups_adj_snoc:
  "remdups_adj (xs @ [z]) = (if xs \<noteq> [] \<and> last xs = z then remdups_adj xs else remdups_adj xs @ [z])"
proof (cases xs rule: rev_cases)
  case (snoc ys y)
  then show ?thesis using remdups_adj_append_two[of ys y z] by simp
qed simp

lemma dedup_loop_inv:
  "take (out_pos + 1) nums = remdups_adj (take n orig) \<Longrightarrow> drop n nums = drop n orig \<Longrightarrow> length nums = length orig \<Longrightarrow>
   out_pos < n \<Longrightarrow> n \<le> length orig \<Longrightarrow>
   take (snd (dedup_loop nums out_pos n)) (fst (dedup_loop nums out_pos n)) = remdups_adj orig \<and>
   length (fst (dedup_loop nums out_pos n)) = length orig \<and> snd (dedup_loop nums out_pos n) = length (remdups_adj orig)"
proof (induction nums out_pos n rule: dedup_loop.induct)
  case (1 nums out_pos n)
  show ?case
  proof (cases "n < length nums")
    case True
    have x: "nums ! n = orig ! n" using 1(4,5) True by (metis drop_eq_nths nth_via_drop Cons_nth_drop_Suc)
    have d: "drop (n + 1) nums = drop (n + 1) orig" using 1(4) by (metis Suc_eq_plus1 drop_Suc tl_drop)
    have t: "take (n + 1) orig = take n orig @ [orig ! n]" using True 1(5) by (simp add: take_Suc_conv_app_nth)
    have "take (out_pos + 1) nums \<noteq> []" "last (take (out_pos + 1) nums) = nums ! out_pos"
      using 1(6) True by (auto simp: take_Suc_conv_app_nth)
    then have r: "remdups_adj (take (n + 1) orig) =
        (if nums ! out_pos = orig ! n then take (out_pos + 1) nums else take (out_pos + 1) nums @ [orig ! n])"
      unfolding t remdups_adj_snoc using 1(3) last_remdups_adj[of "take n orig"] by (metis remdups_adj_Nil_iff)
    show ?thesis
    proof (cases "nums ! out_pos = nums ! n")
      case eq: True
      have e: "dedup_loop nums out_pos n = dedup_loop nums out_pos (n + 1)" using True eq by (subst dedup_loop.simps) simp
      have "take (out_pos + 1) nums = remdups_adj (take (n + 1) orig)" using r eq x by simp
      then show ?thesis unfolding e using 1(2)[OF True _ _ d 1(5)] eq 1(5,6) True by auto
    next
      case neq: False
      let ?nums = "nums[out_pos + 1 := nums ! n]"
      have e: "dedup_loop nums out_pos n = dedup_loop ?nums (out_pos + 1) (n + 1)" using True neq by (subst dedup_loop.simps) simp
      have "take (out_pos + 1 + 1) ?nums = take (out_pos + 1) nums @ [orig ! n]"
        using take_Suc_conv_app_nth[of "out_pos + 1" ?nums] 1(6) True x by simp
      then have "take (out_pos + 1 + 1) ?nums = remdups_adj (take (n + 1) orig)" using r neq x by simp
      moreover have "drop (n + 1) ?nums = drop (n + 1) orig" using d 1(6) by simp
      ultimately show ?thesis unfolding e using 1(1)[OF True neq] 1(5,6) True by auto
    qed
  next
    case False
    then have "n = length orig" using 1(5,7) by simp
    moreover have e: "dedup_loop nums out_pos n = (nums, out_pos + 1)" using False by (subst dedup_loop.simps) simp
    moreover have "length (remdups_adj orig) = out_pos + 1" using arg_cong[OF 1(3), of length] 1(5,6) calculation(1) by simp
    ultimately show ?thesis using 1(3,5) by simp
  qed
qed

text \<open>The distinct elements of a sorted array come first, as many as the function returns.\<close>

theorem remove_duplicates_keeps_distinct:
  assumes "sorted nums" "nums \<noteq> []"
  shows "\<exists>nums' k. removeDuplicates nums = Inr (nums', k) \<and> length nums' = length nums \<and>
    sorted_wrt (<) (take k nums') \<and> set (take k nums') = set nums \<and> k = card (set nums)"
proof -
  let ?r = "dedup_loop nums 0 1"
  obtain x xs where "nums = x # xs" using assms(2) by (cases nums) auto
  then have r: "take (snd ?r) (fst ?r) = remdups_adj nums" "length (fst ?r) = length nums" "snd ?r = length (remdups_adj nums)"
    using dedup_loop_inv[of 0 nums 1 nums] by auto
  have "distinct (remdups_adj nums)" using assms(1) by (induction nums rule: remdups_adj.induct) auto
  moreover have "sorted (remdups_adj nums)" using assms(1) by (rule sorted_remdups_adj)
  ultimately have "sorted_wrt (<) (remdups_adj nums)" "length (remdups_adj nums) = card (set nums)"
    by (simp_all add: strict_sorted_iff distinct_card[symmetric])
  then have "sorted_wrt (<) (take (snd ?r) (fst ?r))" "set (take (snd ?r) (fst ?r)) = set nums" "snd ?r = card (set nums)"
    using r(3) unfolding r(1) by simp_all
  moreover have "removeDuplicates nums = Inr (fst ?r, snd ?r)" using assms(2) by (simp add: removeDuplicates_def)
  ultimately show ?thesis using r(2) by blast
qed

section \<open>Rotate array\<close>

text \<open>The swaps go through reverse iterators.\<close>

definition rotate_swaps :: "int list \<Rightarrow> int \<Rightarrow> int list" where
  "rotate_swaps nums k =
     (if length nums > 1 \<and> k > 0
      then (let k = nat k mod length nums;
                shifted = drop (length nums - k) nums;
                nums = rev (foldl (\<lambda>r i. iter_swap i (i - k) r) (rev nums) [k..<length nums])
            in shifted @ drop (length shifted) nums)
      else nums)"

text \<open>\<open>std::rotate\<close> with the new first element outside the range is undefined.\<close>

definition rotate_std :: "int list \<Rightarrow> int \<Rightarrow> int list outcome" where
  "rotate_std nums k =
     (if 0 \<le> k \<and> nat k \<le> length nums then Inr (rev (drop (nat k) (rev nums) @ take (nat k) (rev nums))) else Inl Undefined)"

lemma shift_swaps:
  "k + m \<le> length r \<Longrightarrow>
     (let r' = foldl (\<lambda>r i. iter_swap i (i - k) r) r [k..<k + m]
      in length r' = length r \<and> (\<forall>j<m. r' ! j = r ! (j + k)) \<and> (\<forall>j. k + m \<le> j \<and> j < length r \<longrightarrow> r' ! j = r ! j))"
proof (induction m)
  case (Suc m)
  define r' where "r' = foldl (\<lambda>r i. iter_swap i (i - k) r) r [k..<k + m]"
  have ih: "length r' = length r" "\<forall>j<m. r' ! j = r ! (j + k)" "\<forall>j. k + m \<le> j \<and> j < length r \<longrightarrow> r' ! j = r ! j"
    using Suc by (simp_all add: r'_def Let_def)
  have "foldl (\<lambda>r i. iter_swap i (i - k) r) r [k..<k + Suc m] = r'[k + m := r' ! m, m := r' ! (k + m)]"
    by (simp add: r'_def iter_swap_def)
  then show ?case using ih Suc.prems by (auto simp: Let_def nth_list_update add.commute less_Suc_eq)
qed simp

text \<open>Both turn the array right by \<open>k\<close> places, but only the first for a \<open>k\<close> above the length, as in the third call of \<open>main\<close>.\<close>

theorem rotate_array_agree:
  assumes "0 \<le> k"
  shows "rotate_swaps nums k = (let j = length nums - nat k mod length nums in drop j nums @ take j nums) \<and>
    rotate_std nums k = (if nat k \<le> length nums then Inr (rotate_swaps nums k) else Inl Undefined)"
proof -
  have one: "rotate_swaps nums k = (let j = length nums - nat k mod length nums in drop j nums @ take j nums)"
  proof (cases "length nums > 1 \<and> k > 0")
    case True
    define n d where "n = length nums" and "d = nat k mod length nums"
    have d: "d < n" using True unfolding d_def n_def by (intro mod_less_divisor) auto
    define r' where "r' = foldl (\<lambda>r i. iter_swap i (i - d) r) (rev nums) [d..<n]"
    have r': "length r' = n" "\<forall>j<n - d. r' ! j = rev nums ! (j + d)"
      using shift_swaps[of d "n - d" "rev nums"] d by (simp_all add: r'_def n_def Let_def)
    have "take (n - d) r' = drop d (rev nums)" using d r' by (intro nth_equalityI) (auto simp: n_def add.commute)
    then have "drop d (rev r') = take (n - d) nums" using d r'(1) by (simp add: drop_rev n_def)
    then show ?thesis using True d by (simp add: rotate_swaps_def Let_def n_def d_def r'_def)
  next
    case False
    then have "nums = [] \<or> length nums = 1 \<or> nat k = 0" using assms by (cases nums) auto
    then show ?thesis using False by (auto simp: rotate_swaps_def)
  qed
  have "rev (drop (nat k) (rev nums) @ take (nat k) (rev nums)) = drop (length nums - nat k) nums @ take (length nums - nat k) nums"
    by (simp add: rev_drop rev_take)
  moreover have "nat k mod length nums = (if nat k = length nums then 0 else nat k)" if "nat k \<le> length nums"
    using that by auto
  ultimately show ?thesis unfolding one using assms by (auto simp: rotate_std_def Let_def)
qed

section \<open>The examples of the programs\<close>

definition two_sum_examples :: "nat list list" where
  "two_sum_examples =
     [twoSum [2, 7, 11, 15] 9, twoSum [3, 2, 4] 6, twoSum [3, 3] 6, twoSum [-1, -2, -3, -4, -5] (-8),
      twoSum [-10, -1, -18, -19] (-19), twoSum [2, 4, 11, 3] 6]"

definition dedup_examples :: "(int list \<times> nat) outcome list" where
  "dedup_examples = [removeDuplicates [1, 2, 2], removeDuplicates [0, 0, 1, 1, 1, 2, 2, 3, 3, 4]]"

definition rotate_examples :: "int list outcome list" where
  "rotate_examples = [rotate_std [1, 2, 3, 4, 5, 6, 7] 3, rotate_std [-1, -100, 3, 99] 2, rotate_std [1, 2] 3]"

lemma array_examples:
  "two_sum_examples = [[1, 0], [2, 1], [1, 0], [2, 4], [1, 2], [1, 0]]"
  "dedup_examples = [Inr ([1, 2, 2], 2), Inr ([0, 1, 2, 3, 4, 2, 2, 3, 3, 4], 5)]"
  "rotate_examples = [Inr [5, 6, 7, 1, 2, 3, 4], Inr [3, 99, -1, -100], Inl Undefined]"
  by (code_simp+)

theorem intersect_is_intersection_witness:
  "\<exists>r. intersect [1, 2, 2, 1] [2, 2] = Inr r \<and> mset r = mset [1, 2, 2, 1] \<inter># mset [2, 2] \<and> sorted r"
  by (rule intersect_is_intersection) simp_all

theorem remove_duplicates_keeps_distinct_witness:
  "\<exists>nums' k. removeDuplicates [1, 2, 2] = Inr (nums', k) \<and> sorted_wrt (<) (take k nums') \<and> set (take k nums') = {1, 2}"
  using remove_duplicates_keeps_distinct[of "[1, 2, 2]"] by auto

theorem rotate_array_agree_witness:
  "rotate_swaps [1, 2] 3 = [2, 1] \<and> rotate_std [1, 2] 3 = Inl Undefined"
  using rotate_array_agree[of 3 "[1, 2]"] by (simp add: Let_def numeral_2_eq_2[symmetric])

end
