(* ===== verification/Leet_Strings.thy ===== *)
theory Leet_Strings
  imports Prelude "HOL-Library.Sublist"
begin

text \<open>
  Further programs of \<open>exercises/leetcode\<close>: the longest substring without repetition, the longest palindrome, powers of
  three, and the stack that knows its minimum.
\<close>

section \<open>Longest substring without repeating characters\<close>

text \<open>The inner loop: the size of the substring at \<open>i\<close> once \<open>j\<close> reaches a character that is in it already.\<close>

function grow_substr :: "'a list \<Rightarrow> nat \<Rightarrow> nat \<Rightarrow> nat \<Rightarrow> nat" where
  "grow_substr s i j substr_size =
     (if j < length s
      then if s ! j \<notin> set (take (j - i) (drop i s)) then grow_substr s i (j + 1) (substr_size + 1) else substr_size
      else substr_size)"
  by pat_completeness auto
termination by (relation "measure (\<lambda>(s, i, j, substr_size). length s - j)") auto

declare grow_substr.simps [simp del]

definition lengthOfLongestSubstring :: "'a list \<Rightarrow> nat" where
  "lengthOfLongestSubstring s =
     foldl (\<lambda>substr_max i. max substr_max (grow_substr s i (i + 1) 1)) 0 [0..<length s]"

lemma grow_substr_longest:
  "i < j \<Longrightarrow> j \<le> length s \<Longrightarrow> distinct (take (j - i) (drop i s)) \<Longrightarrow>
     (let n = grow_substr s i j (j - i) in j - i \<le> n \<and> i + n \<le> length s \<and> distinct (take n (drop i s)) \<and>
        (\<forall>m. i + m \<le> length s \<and> distinct (take m (drop i s)) \<longrightarrow> m \<le> n))"
proof (induction s i j "j - i" rule: grow_substr.induct)
  case (1 s i j)
  have tk: "take (j + 1 - i) (drop i s) = take (j - i) (drop i s) @ [s ! j]" if "j < length s"
    using that 1(2) by (simp add: Suc_diff_le take_Suc_conv_app_nth)
  show ?case
  proof (cases "j < length s \<and> s ! j \<notin> set (take (j - i) (drop i s))")
    case True
    then have "distinct (take (j + 1 - i) (drop i s))" using tk 1(4) by simp
    moreover have "j - i + 1 = j + 1 - i" using 1(2) by simp
    ultimately have ih: "let n = grow_substr s i (j + 1) (j + 1 - i) in j + 1 - i \<le> n \<and> i + n \<le> length s \<and> distinct (take n (drop i s)) \<and>
        (\<forall>m. i + m \<le> length s \<and> distinct (take m (drop i s)) \<longrightarrow> m \<le> n)"
      using 1(1) 1(2) True by auto
    moreover have "grow_substr s i j (j - i) = grow_substr s i (j + 1) (j + 1 - i)"
      using True \<open>j - i + 1 = j + 1 - i\<close> by (subst grow_substr.simps) simp
    moreover have "j - i \<le> j + 1 - i" by simp
    ultimately show ?thesis unfolding Let_def by (metis order.trans)
  next
    case False
    then have n: "grow_substr s i j (j - i) = j - i" by (subst grow_substr.simps) simp
    have "m \<le> j - i" if m: "i + m \<le> length s" "distinct (take m (drop i s))" for m
    proof (rule ccontr)
      assume gt: "\<not> m \<le> j - i"
      then have "j < length s" "j + 1 - i \<le> m" using m(1) 1(2) by auto
      then have "take (j + 1 - i) (drop i s) = take (j + 1 - i) (take m (drop i s))" by (simp add: min_def)
      then have "distinct (take (j + 1 - i) (drop i s))" using m(2) distinct_take by metis
      then show False using tk[OF \<open>j < length s\<close>] False \<open>j < length s\<close> by simp
    qed
    then show ?thesis using n 1(2-4) by (auto simp: Let_def)
  qed
qed

lemma Max_insert_max: "finite S \<Longrightarrow> Max (insert (max a b) S) = Max (insert a (insert (b :: nat) S))"
  by (cases "S = {}") (simp_all add: max.assoc)

lemma foldl_max_bounds:
  fixes f :: "'a \<Rightarrow> nat"
  shows "foldl (\<lambda>m x. max m (f x)) a xs = Max (insert a (f ` set xs))"
proof (induction xs arbitrary: a)
  case (Cons x xs)
  show ?case using Cons[of "max a (f x)"] Max_insert_max[of "f ` set xs" a "f x"] by simp
qed simp

text \<open>The result is the length of a substring without repetition, and no such substring is longer.\<close>

theorem longest_substring_is_longest:
  "(\<exists>t. sublist t s \<and> distinct t \<and> length t = lengthOfLongestSubstring s) \<and>
   (\<forall>t. sublist t s \<and> distinct t \<longrightarrow> length t \<le> lengthOfLongestSubstring s)"
proof -
  let ?g = "\<lambda>i. grow_substr s i (i + 1) 1"
  have g: "i + ?g i \<le> length s" "distinct (take (?g i) (drop i s))"
    "\<And>m. i + m \<le> length s \<Longrightarrow> distinct (take m (drop i s)) \<Longrightarrow> m \<le> ?g i" if "i < length s" for i
    using grow_substr_longest[of i "i + 1" s] that by (simp_all add: Let_def take_Suc_conv_app_nth)
  have max: "lengthOfLongestSubstring s = Max (insert 0 (?g ` {0..<length s}))"
    by (simp add: lengthOfLongestSubstring_def foldl_max_bounds)
  have "length t \<le> lengthOfLongestSubstring s" if "sublist t s" "distinct t" for t
  proof (cases t)
    case (Cons a as)
    obtain ps ss where s: "s = ps @ t @ ss" using \<open>sublist t s\<close> by (auto simp: sublist_def)
    then have "length ps < length s" "length ps + length t \<le> length s" "distinct (take (length t) (drop (length ps) s))"
      using that(2) Cons by simp_all
    then have "length t \<le> ?g (length ps)" using g(3) by blast
    also have "\<dots> \<le> lengthOfLongestSubstring s" unfolding max using \<open>length ps < length s\<close> by (intro Max_ge) auto
    finally show ?thesis .
  qed simp
  moreover have "\<exists>t. sublist t s \<and> distinct t \<and> length t = lengthOfLongestSubstring s"
  proof -
    have "lengthOfLongestSubstring s \<in> insert 0 (?g ` {0..<length s})" unfolding max by (intro Max_in) auto
    then consider "lengthOfLongestSubstring s = 0" | i where "i < length s" "lengthOfLongestSubstring s = ?g i" by auto
    then show ?thesis
    proof cases
      case 1
      then show ?thesis by (intro exI[of _ "[]"]) simp
    next
      case (2 i)
      have "sublist (take (?g i) (drop i s)) s"
        by (meson sublist_drop sublist_order.order_trans sublist_take)
      then show ?thesis using 2 g[of i] by (intro exI[of _ "take (?g i) (drop i s)"]) auto
    qed
  qed
  ultimately show ?thesis by blast
qed

theorem longest_substring_is_longest_witness:
  "length ''abc'' \<le> lengthOfLongestSubstring ''abcabcbb''"
proof -
  have "sublist ''abc'' (''abc'' @ ''abcbb'')" by (rule sublist_append_rightI)
  then have "sublist ''abc'' ''abcabcbb'' \<and> distinct ''abc''" by simp
  then show ?thesis using longest_substring_is_longest[of "''abcabcbb''"] by blast
qed

section \<open>Longest palindrome\<close>

definition is_palindrome :: "'a list \<Rightarrow> bool" where
  "is_palindrome s \<longleftrightarrow> list_all (\<lambda>i. s ! i = s ! (length s - i - 1)) [0..<length s div 2]"

primrec try_lengths :: "'a list \<Rightarrow> nat \<Rightarrow> nat \<Rightarrow> 'a list \<Rightarrow> 'a list" where
  "try_lengths s i 0 palindrome = palindrome"
| "try_lengths s i (Suc j) palindrome =
     (let substr = take (Suc j) (drop i s)
      in try_lengths s i j (if length substr > length palindrome \<and> is_palindrome substr then substr else palindrome))"

text \<open>The first palindrome has one character, which of an empty string is its terminator.\<close>

definition longestPalindrome :: "char list \<Rightarrow> char list" where
  "longestPalindrome s =
     foldl (\<lambda>palindrome i. try_lengths s i (length s - i) palindrome) (if s = [] then [CHR 0x00] else [s ! 0]) [0..<length s]"

lemma is_palindrome_rev: "is_palindrome s \<longleftrightarrow> rev s = s"
proof
  assume p: "is_palindrome s"
  show "rev s = s"
  proof (rule nth_equalityI)
    fix i assume "i < length (rev s)"
    then have i: "i < length s" by simp
    consider "i < length s div 2" | "length s - i - 1 < length s div 2" | "i = length s - i - 1" using i by linarith
    then have "s ! i = s ! (length s - i - 1)"
    proof cases
      case 2
      have "s ! (length s - i - 1) = s ! (length s - (length s - i - 1) - 1)"
        using p 2 by (auto simp: is_palindrome_def list_all_iff)
      then show ?thesis using i by simp
    qed (use p in \<open>auto simp: is_palindrome_def list_all_iff\<close>)
    then show "rev s ! i = s ! i" using i by (simp add: rev_nth)
  qed simp
next
  assume r: "rev s = s"
  have "s ! i = s ! (length s - i - 1)" if "i < length s div 2" for i
  proof -
    have "i < length s" using that by simp
    then show ?thesis using rev_nth[of i s] r by simp
  qed
  then show "is_palindrome s" by (auto simp: is_palindrome_def list_all_iff)
qed

definition palindrome_in :: "'a list \<Rightarrow> 'a list \<Rightarrow> bool" where
  "palindrome_in s t \<longleftrightarrow> sublist t s \<and> rev t = t"

lemma try_lengths_keeps:
  "palindrome_in s p \<Longrightarrow> palindrome_in s (try_lengths s i n p) \<and> length p \<le> length (try_lengths s i n p) \<and>
     (\<forall>j\<le>n. rev (take j (drop i s)) = take j (drop i s) \<longrightarrow> length (take j (drop i s)) \<le> length (try_lengths s i n p))"
proof (induction n arbitrary: p)
  case (Suc n)
  let ?t = "take (Suc n) (drop i s)"
  let ?p = "if length ?t > length p \<and> is_palindrome ?t then ?t else p"
  have "sublist ?t s" by (meson sublist_drop sublist_order.order_trans sublist_take)
  then have "palindrome_in s ?p" using Suc.prems by (simp add: palindrome_in_def is_palindrome_rev)
  note ih = Suc.IH[OF this]
  have "rev ?t = ?t \<Longrightarrow> length ?t \<le> length ?p" by (auto simp: is_palindrome_rev simp del: length_take)
  moreover have "length p \<le> length ?p" by simp
  moreover define r where "r = try_lengths s i n ?p"
  ultimately have "length p \<le> length r" "rev ?t = ?t \<Longrightarrow> length ?t \<le> length r" using ih by (meson order.trans)+
  moreover have "try_lengths s i (Suc n) p = r" by (simp only: r_def try_lengths.simps Let_def)
  ultimately show ?case using ih[folded r_def] by (auto simp only: le_Suc_eq)
qed simp

lemma palindrome_loop:
  "palindrome_in s p \<Longrightarrow>
     (let r = foldl (\<lambda>p i. try_lengths s i (length s - i) p) p is
      in palindrome_in s r \<and> length p \<le> length r \<and>
        (\<forall>i\<in>set is. \<forall>j\<le>length s - i. rev (take j (drop i s)) = take j (drop i s) \<longrightarrow> length (take j (drop i s)) \<le> length r))"
proof (induction "is" arbitrary: p)
  case (Cons i "is")
  have k: "palindrome_in s (try_lengths s i (length s - i) p)" "length p \<le> length (try_lengths s i (length s - i) p)"
    "\<And>j. j \<le> length s - i \<Longrightarrow> rev (take j (drop i s)) = take j (drop i s) \<Longrightarrow> length (take j (drop i s)) \<le> length (try_lengths s i (length s - i) p)"
    using try_lengths_keeps[OF Cons.prems, of i "length s - i"] by blast+
  define r where "r = foldl (\<lambda>p i. try_lengths s i (length s - i) p) (try_lengths s i (length s - i) p) is"
  have ih: "palindrome_in s r" "length (try_lengths s i (length s - i) p) \<le> length r"
    "\<forall>i\<in>set is. \<forall>j\<le>length s - i. rev (take j (drop i s)) = take j (drop i s) \<longrightarrow> length (take j (drop i s)) \<le> length r"
    using Cons.IH[OF k(1)] unfolding Let_def r_def by blast+
  have "\<forall>j\<le>length s - i. rev (take j (drop i s)) = take j (drop i s) \<longrightarrow> length (take j (drop i s)) \<le> length r"
    using k(3) ih(2) order.trans by blast
  moreover have "length p \<le> length r" using k(2) ih(2) by (rule order.trans)
  ultimately show ?case using ih(1,3) unfolding Let_def foldl_Cons r_def[symmetric] by simp
qed simp

text \<open>The result is a palindrome of the string and none is longer; the empty string gives a zero character.\<close>

theorem longest_palindrome_is_longest:
  assumes "s \<noteq> []"
  shows "palindrome_in s (longestPalindrome s) \<and> (\<forall>t. palindrome_in s t \<longrightarrow> length t \<le> length (longestPalindrome s)) \<and>
    longestPalindrome [] = [CHR 0x00]"
proof -
  obtain c cs where c: "s = c # cs" using assms by (cases s) auto
  have "palindrome_in s [s ! 0]" using c by (simp add: palindrome_in_def sublist_def) (metis append_Cons append_Nil)
  note r = palindrome_loop[OF this, of "[0..<length s]", unfolded Let_def]
  have l: "longestPalindrome s = foldl (\<lambda>p i. try_lengths s i (length s - i) p) [s ! 0] [0..<length s]"
    using assms by (simp add: longestPalindrome_def)
  have "length t \<le> length (longestPalindrome s)" if pal: "palindrome_in s t" for t
  proof (cases t)
    case (Cons a as)
    obtain ps ss where s: "s = ps @ t @ ss" using pal by (auto simp: palindrome_in_def sublist_def)
    then have "length ps \<in> set [0..<length s]" "length t \<le> length s - length ps" "take (length t) (drop (length ps) s) = t"
      using Cons by simp_all
    moreover have "rev t = t" using pal by (simp add: palindrome_in_def)
    moreover note conjunct2[OF conjunct2[OF r], folded l, rule_format, of "length ps" "length t"]
    ultimately show ?thesis by simp
  qed simp
  then show ?thesis using r unfolding l[symmetric] by (simp add: longestPalindrome_def)
qed

theorem longest_palindrome_is_longest_witness:
  "palindrome_in ''babad'' (longestPalindrome ''babad'') \<and> longestPalindrome [] = [CHR 0x00]"
  using longest_palindrome_is_longest[of "''babad''"] by blast

section \<open>Power of three\<close>

primrec pow3s_upto :: "nat \<Rightarrow> int list" where
  "pow3s_upto 0 = [1]"
| "pow3s_upto (Suc i) = (let pow3s = pow3s_upto i in pow3s @ [last pow3s * 3])"

definition pow3s :: "int list" where
  "pow3s = pow3s_upto 19"

definition isPowerOfThree :: "int \<Rightarrow> bool" where
  "isPowerOfThree n \<longleftrightarrow> (if n > 0 then abs n \<in> set pow3s else False)"

lemma pow3s_upto_map: "pow3s_upto n = map (\<lambda>i. 3 ^ i) [0..<Suc n]"
  by (induction n) (simp_all add: Let_def)

text \<open>The test is exact for every number of 32 bits, and the table stays within them.\<close>

theorem power_of_three_exact:
  assumes "- (2 ^ 31) \<le> n" "n < 2 ^ 31"
  shows "isPowerOfThree n = (\<exists>k. n = 3 ^ k) \<and> length pow3s = 20 \<and> (\<forall>x\<in>set pow3s. x < 2 ^ 31)"
proof -
  have k: "k < 20" if "n = 3 ^ k" for k
  proof (rule ccontr)
    assume "\<not> k < 20"
    then have "(3 :: int) ^ 20 \<le> 3 ^ k" by (intro power_increasing) simp_all
    then show False using that assms(2) by simp
  qed
  have "set pow3s = (\<lambda>i. 3 ^ i) ` {0..<20}" by (simp add: pow3s_def pow3s_upto_map)
  then have "isPowerOfThree n = (\<exists>k. n = 3 ^ k)" using k by (auto simp: isPowerOfThree_def)
  moreover have "(3 :: int) ^ i < 2 ^ 31" if "i < 20" for i
  proof -
    have "(3 :: int) ^ i \<le> 3 ^ 19" using that by (intro power_increasing) simp_all
    then show ?thesis by simp
  qed
  ultimately show ?thesis by (auto simp: pow3s_def pow3s_upto_map)
qed

theorem power_of_three_exact_witness: "isPowerOfThree 27"
proof -
  have "isPowerOfThree 27 = (\<exists>k. (27 :: int) = 3 ^ k)" by (rule conjunct1[OF power_of_three_exact]) simp_all
  moreover have "(27 :: int) = 3 ^ 3" by simp
  ultimately show ?thesis by blast
qed

section \<open>Min stack\<close>

type_synonym min_stack = "(int \<times> int) list"

definition ms_push :: "int \<Rightarrow> min_stack \<Rightarrow> min_stack" where
  "ms_push val s = (val, if length s \<noteq> 0 then min val (snd (hd s)) else val) # s"

definition ms_pop :: "min_stack \<Rightarrow> min_stack outcome" where
  "ms_pop s = (if s = [] then Inl Undefined else Inr (tl s))"

definition ms_top :: "min_stack \<Rightarrow> int outcome" where
  "ms_top s = (if s = [] then Inl Undefined else Inr (fst (hd s)))"

definition ms_get_min :: "min_stack \<Rightarrow> int outcome" where
  "ms_get_min s = (if s = [] then Inl Undefined else Inr (snd (hd s)))"

fun min_stack_ok :: "min_stack \<Rightarrow> bool" where
  "min_stack_ok [] = True"
| "min_stack_ok ((v, m) # s) \<longleftrightarrow> m = Min (insert v (fst ` set s)) \<and> min_stack_ok s"

text \<open>The stack is the list of its values, with the least of them at hand.\<close>

theorem min_stack_refines_list:
  assumes "min_stack_ok s"
  shows "min_stack_ok (ms_push val s) \<and> map fst (ms_push val s) = val # map fst s \<and>
    (s \<noteq> [] \<longrightarrow> ms_top s = Inr (hd (map fst s)) \<and> ms_get_min s = Inr (Min (set (map fst s))) \<and>
       (\<exists>s'. ms_pop s = Inr s' \<and> min_stack_ok s' \<and> map fst s' = tl (map fst s)))"
proof (cases s)
  case Nil
  then show ?thesis by (simp add: ms_push_def)
next
  case (Cons p s')
  obtain v m where p: "p = (v, m)" by (cases p)
  have "m = Min (insert v (fst ` set s'))" "min_stack_ok s'" using assms Cons p by simp_all
  then show ?thesis using Cons p by (auto simp: ms_push_def ms_pop_def ms_top_def ms_get_min_def min_stack_ok.simps)
qed

definition min_stack_main :: "int outcome list" where
  "min_stack_main =
     (let s = ms_push (-3) (ms_push 0 (ms_push (-2) []))
      in ms_get_min s # (case ms_pop s of Inl e \<Rightarrow> [Inl e] | Inr s \<Rightarrow> [ms_top s, ms_get_min s]))"

lemma min_stack_main_printed: "min_stack_main = [Inr (-3), Inr 0, Inr (-2)]"
  by code_simp

theorem min_stack_refines_list_witness:
  "ms_get_min [(0, -2), (-2, -2)] = Inr (-2) \<and> min_stack_ok (ms_push (-3) [(0, -2), (-2, -2)])"
  using min_stack_refines_list[of "[(0, -2), (-2, -2)]" "-3"] by simp

end
