(* ===== verification/Ex_Trees.thy ===== *)
theory Ex_Trees
  imports Prelude "HOL-Library.Tree" "HOL-Library.Multiset"
begin

text \<open>
  The programs on binary trees: the traversals of \<open>exercises/tree.cpp\<close>, the depth of
  \<open>exercises/leetcode/max-depth-of-binary-tree.cpp\<close>, the cousins of \<open>exercises/leetcode/993-cousins-in-binary-tree.cpp\<close> and
  the tests for a search tree of \<open>exercises/leetcode/validate-binary-search-tree.cpp\<close> and
  \<open>exercises/hackerrank/is-this-bst.cpp\<close>. None of them changes a node, so a pointer to a node is the tree below it, and
  null the leaf; where a program compares pointers, they are paths from the root.
\<close>

section \<open>Traversals\<close>

text \<open>The calls of the function, in their order.\<close>

fun apply_r :: "'a tree \<Rightarrow> 'a list" where
  "apply_r Leaf = []"
| "apply_r (Node l v r) = v # apply_r l @ apply_r r"

definition forest_size :: "'a tree list \<Rightarrow> nat" where
  "forest_size ts = sum_list (map (\<lambda>t. size t + size t + 1) ts)"

lemma forest_size_simps [simp]:
  "forest_size [] = 0" "forest_size (t # ts) = size t + size t + 1 + forest_size ts"
  "forest_size (ts @ us) = forest_size ts + forest_size us"
  by (simp_all add: forest_size_def)

function dfs_loop :: "'a tree list \<Rightarrow> 'a list" where
  "dfs_loop [] = []"
| "dfs_loop (Leaf # stack) = dfs_loop stack"
| "dfs_loop (Node l v r # stack) = v # dfs_loop (l # r # stack)"
  by pat_completeness auto
termination by (relation "measure forest_size") auto

definition apply_dfs :: "'a tree \<Rightarrow> 'a list" where
  "apply_dfs t = dfs_loop [t]"

function bfs_loop :: "'a tree list \<Rightarrow> 'a list" where
  "bfs_loop [] = []"
| "bfs_loop (Leaf # queue) = bfs_loop queue"
| "bfs_loop (Node l v r # queue) = v # bfs_loop (queue @ [l, r])"
  by pat_completeness auto
termination by (relation "measure forest_size") auto

definition apply_bfs :: "'a tree \<Rightarrow> 'a list" where
  "apply_bfs t = bfs_loop [t]"

fun level :: "nat \<Rightarrow> 'a tree \<Rightarrow> 'a list" where
  "level d Leaf = []"
| "level 0 (Node l v r) = [v]"
| "level (Suc d) (Node l v r) = level d l @ level d r"

fun children :: "'a tree \<Rightarrow> 'a tree list" where
  "children Leaf = []"
| "children (Node l v r) = [l, r]"

lemma dfs_loop_preorder: "dfs_loop ts = concat (map preorder ts)"
  by (induction ts rule: dfs_loop.induct) simp_all

lemma bfs_loop_append: "bfs_loop (ts @ us) = concat (map (level 0) ts) @ bfs_loop (us @ concat (map children ts))"
proof (induction ts arbitrary: us)
  case (Cons t ts)
  then show ?case using Cons[of us] Cons[of "us @ children t"] by (cases t) simp_all
qed simp

lemma level_children: "concat (map (level (Suc d)) ts) = concat (map (level d) (concat (map children ts)))"
proof (induction ts)
  case (Cons t ts)
  then show ?case by (cases t) simp_all
qed simp

lemma bfs_loop_levels:
  "\<forall>t\<in>set ts. height t \<le> n \<Longrightarrow> bfs_loop ts = concat (map (\<lambda>d. concat (map (level d) ts)) [0..<n])"
proof (induction n arbitrary: ts)
  case 0
  then have "\<forall>t\<in>set ts. t = Leaf" by simp
  then show ?case by (induction ts) auto
next
  case (Suc n)
  have sub: "\<forall>t\<in>set (concat (map children ts)). height t \<le> n"
  proof
    fix t assume "t \<in> set (concat (map children ts))"
    then obtain u where "u \<in> set ts" "t \<in> set (children u)" by auto
    moreover have "height u \<le> Suc n" using Suc.prems \<open>u \<in> set ts\<close> by blast
    ultimately show "height t \<le> n" by (cases u rule: tree.exhaust) auto
  qed
  have "bfs_loop ts = concat (map (level 0) ts) @ bfs_loop (concat (map children ts))"
    using bfs_loop_append[of ts "[]"] by simp
  also have "\<dots> = concat (map (\<lambda>d. concat (map (level d) ts)) (0 # map Suc [0..<n]))"
    unfolding Suc.IH[OF sub] list.map(2) concat.simps map_map comp_def level_children ..
  also have "0 # map Suc [0..<n] = [0..<Suc n]" by (simp add: map_Suc_upt upt_conv_Cons)
  finally show ?case .
qed

text \<open>Recursion and the stack visit in preorder, the queue level by level; all three see every value once.\<close>

theorem traversals_agree:
  "apply_r t = preorder t \<and> apply_dfs t = preorder t \<and> apply_bfs t = concat (map (\<lambda>d. level d t) [0..<height t])"
proof -
  have "apply_r t = preorder t" by (induction t) simp_all
  then show ?thesis using bfs_loop_levels[of "[t]" "height t"] by (simp add: apply_dfs_def apply_bfs_def dfs_loop_preorder)
qed

text \<open>The tree of \<open>main\<close>, if the pointers that the constructor of \<open>Node\<close> leaves uninitialised are null.\<close>

definition tree_main :: "nat list list" where
  "tree_main =
     (let tree = Node (Node (Node Leaf 4 Leaf) 2 (Node Leaf 5 Leaf)) 1 (Node (Node Leaf 6 Leaf) 3 (Node Leaf 7 Leaf))
      in [apply_r tree, apply_dfs tree, apply_bfs tree])"

lemma tree_main_printed: "tree_main = [[1, 2, 4, 5, 3, 6, 7], [1, 2, 4, 5, 3, 6, 7], [1, 2, 3, 4, 5, 6, 7]]"
  by (simp add: tree_main_def Let_def apply_dfs_def apply_bfs_def)

section \<open>Maximum depth\<close>

function depth_loop :: "(nat \<times> 'a tree) list \<Rightarrow> nat \<Rightarrow> nat outcome" where
  "depth_loop [] depth = Inr depth"
| "depth_loop ((d, Leaf) # next) depth = Inl Undefined"
| "depth_loop ((d, Node l v r) # next) depth =
     (let next = (if l \<noteq> Leaf then (d + 1, l) # next else next);
          next = (if r \<noteq> Leaf then (d + 1, r) # next else next)
      in depth_loop next (max depth d))"
  by pat_completeness auto
termination by (relation "measure (\<lambda>(ts, d). forest_size (map snd ts))") auto

definition maxDepth :: "'a tree \<Rightarrow> nat outcome" where
  "maxDepth t = (if t \<noteq> Leaf then depth_loop [(1, t)] 0 else Inr 0)"

lemma depth_loop_max:
  "\<forall>(d, t)\<in>set next. t \<noteq> Leaf \<Longrightarrow>
     depth_loop next depth = Inr (Max (insert depth ((\<lambda>(d, t). d + height t - 1) ` set next)))"
proof (induction "next" depth rule: depth_loop.induct)
  case (3 d l v r "next" depth)
  let ?f = "\<lambda>(d, t :: 'a tree). d + height t - 1"
  define n1 where "n1 = (if l \<noteq> Leaf then (d + 1, l) # next else next)"
  define n2 where "n2 = (if r \<noteq> Leaf then (d + 1, r) # n1 else n1)"
  have "\<forall>(d, t)\<in>set n2. t \<noteq> Leaf" using 3(2) by (auto simp: n1_def n2_def)
  then have "depth_loop n2 (max depth d) = Inr (Max (insert (max depth d) (?f ` set n2)))"
    using 3(1) unfolding n1_def n2_def by blast
  moreover have "Max (insert (max depth d) (?f ` set n2)) = Max (insert depth (?f ` set ((d, Node l v r) # next)))"
  proof (rule antisym)
    show "Max (insert (max depth d) (?f ` set n2)) \<le> Max (insert depth (?f ` set ((d, Node l v r) # next)))"
    proof (rule Max.boundedI)
      fix a assume "a \<in> insert (max depth d) (?f ` set n2)"
      moreover have "?f p \<le> Max (insert depth (?f ` set ((d, Node l v r) # next)))" if "p \<in> set ((d, Node l v r) # next)" for p
        using that by (intro Max_ge) auto
      from this[of "(d, Node l v r)"] this have top: "d + max (height l) (height r) \<le> Max (insert depth (?f ` set ((d, Node l v r) # next)))"
        and rest: "\<And>p. p \<in> set next \<Longrightarrow> ?f p \<le> Max (insert depth (?f ` set ((d, Node l v r) # next)))" by auto
      have dep: "depth \<le> Max (insert depth (?f ` set ((d, Node l v r) # next)))" by (intro Max_ge) auto
      ultimately show "a \<le> Max (insert depth (?f ` set ((d, Node l v r) # next)))"
        using top rest dep by (fastforce simp: n1_def n2_def split: if_splits)
    qed auto
    show "Max (insert depth (?f ` set ((d, Node l v r) # next))) \<le> Max (insert (max depth d) (?f ` set n2))"
    proof (rule Max.boundedI)
      fix a assume a: "a \<in> insert depth (?f ` set ((d, Node l v r) # next))"
      have md: "max depth d \<le> Max (insert (max depth d) (?f ` set n2))" by (intro Max_ge) auto
      have in2: "?f p \<le> Max (insert (max depth d) (?f ` set n2))" if "p \<in> set n2" for p using that by (intro Max_ge) auto
      have l: "d + height l \<le> Max (insert (max depth d) (?f ` set n2))"
      proof (cases "l = Leaf")
        case False
        then show ?thesis using in2[of "(d + 1, l)"] by (simp add: n1_def n2_def)
      qed (use md in simp)
      have r: "d + height r \<le> Max (insert (max depth d) (?f ` set n2))"
      proof (cases "r = Leaf")
        case False
        then show ?thesis using in2[of "(d + 1, r)"] by (simp add: n2_def)
      qed (use md in simp)
      have "?f p \<le> Max (insert (max depth d) (?f ` set n2))" if "p \<in> set next" for p
        using in2[of p] that by (simp add: n1_def n2_def split: if_splits)
      then show "a \<le> Max (insert (max depth d) (?f ` set n2))" using a md l r by auto
    qed auto
  qed
  ultimately show ?case unfolding depth_loop.simps(3) Let_def n1_def[symmetric] n2_def[symmetric] by simp
qed auto

text \<open>The result is the height of the tree.\<close>

theorem max_depth_is_height: "maxDepth t = Inr (height t)"
proof (cases "t = Leaf")
  case False
  then have "height t = Suc (height t - 1)" by (cases t) auto
  then show ?thesis using False depth_loop_max[of "[(1, t)]" 0] by (simp add: maxDepth_def)
qed (simp add: maxDepth_def)

definition max_depth_main :: "nat outcome list" where
  "max_depth_main =
     [maxDepth (Node (Node Leaf (9 :: int) Leaf) 3 (Node (Node Leaf 15 Leaf) 20 (Node Leaf 7 Leaf))),
      maxDepth (Node Leaf (1 :: int) (Node Leaf 2 Leaf))]"

lemma max_depth_main_printed: "max_depth_main = [Inr 3, Inr 2]"
  unfolding max_depth_main_def max_depth_is_height by simp

section \<open>Cousins\<close>

record heritage =
  heritage_parent :: int
  heritage_depth :: nat

definition no_heritage :: heritage where
  "no_heritage = \<lparr>heritage_parent = 0, heritage_depth = 0\<rparr>"

text \<open>The queue holds nodes with the value of their parent and their depth; the loop ends when both values were found.\<close>

type_synonym cousin_queue = "(int tree \<times> int \<times> nat) list"

definition queue_size :: "cousin_queue \<Rightarrow> nat" where
  "queue_size q = forest_size (map fst q)"

lemma queue_size_simps [simp]:
  "queue_size [] = 0" "queue_size (p # q) = size (fst p) + size (fst p) + 1 + queue_size q"
  "queue_size (q @ q') = queue_size q + queue_size q'"
  by (simp_all add: queue_size_def)

function find_loop :: "int \<Rightarrow> int \<Rightarrow> cousin_queue \<Rightarrow> nat \<Rightarrow> heritage \<times> heritage \<Rightarrow> (heritage \<times> heritage) outcome" where
  "find_loop x y [] found result = Inr result"
| "find_loop x y ((Leaf, parent, depth) # next) found result = (if found = 2 then Inr result else Inl Undefined)"
| "find_loop x y ((Node l v r, parent, depth) # next) found result =
     (if found = 2 then Inr result
      else let h = \<lparr>heritage_parent = parent, heritage_depth = depth\<rparr>;
               (result, found) = (if v = x then ((h, snd result), found + 1) else (result, found));
               (result, found) = (if v = y then ((fst result, h), found + 1) else (result, found));
               next = (if l \<noteq> Leaf then next @ [(l, v, depth + 1)] else next);
               next = (if r \<noteq> Leaf then next @ [(r, v, depth + 1)] else next)
           in find_loop x y next found result)"
  by pat_completeness auto
termination by (relation "measure (\<lambda>(x, y, q, found, result). queue_size q)") auto

definition cousin_find :: "int tree \<Rightarrow> int \<Rightarrow> int \<Rightarrow> (heritage \<times> heritage) outcome" where
  "cousin_find root x y = find_loop x y [(root, 0, 0)] 0 (no_heritage, no_heritage)"

definition isCousins :: "int tree \<Rightarrow> int \<Rightarrow> int \<Rightarrow> bool outcome" where
  "isCousins root x y =
     and_then (cousin_find root x y) (\<lambda>(x_heritage, y_heritage).
     Inr (heritage_depth x_heritage = heritage_depth y_heritage \<and> heritage_parent x_heritage \<noteq> heritage_parent y_heritage))"

text \<open>The parent and the depth of a value, below a node with this parent and depth.\<close>

fun family :: "int tree \<Rightarrow> int \<Rightarrow> nat \<Rightarrow> int \<Rightarrow> heritage \<Rightarrow> bool" where
  "family Leaf parent depth x h = False"
| "family (Node l v r) parent depth x h \<longleftrightarrow>
     x = v \<and> h = \<lparr>heritage_parent = parent, heritage_depth = depth\<rparr> \<or> family l v (depth + 1) x h \<or> family r v (depth + 1) x h"

definition queued :: "cousin_queue \<Rightarrow> int \<Rightarrow> heritage \<Rightarrow> bool" where
  "queued q x h \<longleftrightarrow> (\<exists>(t, p, d)\<in>set q. family t p d x h)"

definition queue_values :: "cousin_queue \<Rightarrow> int list" where
  "queue_values q = concat (map (\<lambda>p. inorder (fst p)) q)"

lemma family_value: "family t p d x h \<Longrightarrow> x \<in> set_tree t"
  by (induction t p d x h rule: family.induct) auto

lemma queued_values: "queued q x h \<Longrightarrow> x \<in> set (queue_values q)"
proof -
  assume "queued q x h"
  then obtain t p d where "(t, p, d) \<in> set q" "x \<in> set_tree t" by (auto simp: queued_def dest: family_value)
  then show ?thesis by (force simp: queue_values_def)
qed

text \<open>What the loop has found, and what it will find.\<close>

definition find_inv :: "int \<Rightarrow> int \<Rightarrow> (int \<Rightarrow> heritage \<Rightarrow> bool) \<Rightarrow> cousin_queue \<Rightarrow> nat \<Rightarrow> heritage \<times> heritage \<Rightarrow> bool" where
  "find_inv x y H q found result \<longleftrightarrow> (\<forall>(t, p, d)\<in>set q. t \<noteq> Leaf) \<and> distinct (queue_values q) \<and>
     (\<forall>z h. queued q z h \<longrightarrow> H z h) \<and>
     (if x \<in> set (queue_values q) then True else H x (fst result)) \<and>
     (if y \<in> set (queue_values q) then True else H y (snd result)) \<and>
     found = of_bool (x \<notin> set (queue_values q)) + of_bool (y \<notin> set (queue_values q))"

lemma find_loop_inv:
  "find_inv x y H q found result \<Longrightarrow> x \<noteq> y \<Longrightarrow> \<exists>hx hy. find_loop x y q found result = Inr (hx, hy) \<and> H x hx \<and> H y hy"
proof (induction "queue_size q" arbitrary: q found result rule: less_induct)
  case less
  note prems = less.prems
  consider "q = []" | "next" parent depth where "q = (Leaf, parent, depth) # next"
    | l v r parent depth "next" where "q = (Node l v r, parent, depth) # next"
    by (metis list.exhaust prod_cases3 tree.exhaust)
  then show ?case
  proof cases
    case 1
    then show ?thesis using prems by (cases result) (simp add: find_inv_def queue_values_def)
  next
    case 2
    then show ?thesis using prems by (simp add: find_inv_def)
  next
    case q: (3 l v r parent depth "next")
    let ?q = "(Node l v r, parent, depth) # next" and ?h = "\<lparr>heritage_parent = parent, heritage_depth = depth\<rparr>"
  show ?thesis
  proof (cases "found = 2")
    case True
    then have "x \<notin> set (queue_values ?q)" "y \<notin> set (queue_values ?q)"
      using prems(1)[unfolded q] by (auto simp: find_inv_def of_bool_def split: if_splits)
    then show ?thesis using prems(1)[unfolded q] True by (cases result) (simp add: find_inv_def q)
  next
    case False
    define r1 f1 where "r1 = (if v = x then (?h, snd result) else result)" and "f1 = (if v = x then found + 1 else found)"
    define r2 f2 where "r2 = (if v = y then (fst r1, ?h) else r1)" and "f2 = (if v = y then f1 + 1 else f1)"
    define n1 where "n1 = (if l \<noteq> Leaf then next @ [(l, v, depth + 1)] else next)"
    define n2 where "n2 = (if r \<noteq> Leaf then n1 @ [(r, v, depth + 1)] else n1)"
    have run: "find_loop x y ?q found result = find_loop x y n2 f2 r2"
      using False by (simp add: r1_def f1_def r2_def f2_def n1_def n2_def Let_def)
    have vals: "set (queue_values ?q) = insert v (set (queue_values n2))" "mset (queue_values ?q) = add_mset v (mset (queue_values n2))"
      by (auto simp: queue_values_def n1_def n2_def)
    have "distinct (queue_values ?q)" using prems(1)[unfolded q] by (simp add: find_inv_def)
    then have "distinct (v # queue_values n2)"
      using mset_eq_imp_distinct_iff[of "queue_values ?q" "v # queue_values n2"] vals(2) by simp
    then have d: "distinct (queue_values n2)" "v \<notin> set (queue_values n2)" by simp_all
    have sub: "queued ?q z h" if "queued n2 z h" for z h
      using that by (auto simp: queued_def n1_def n2_def split: if_splits)
    have h: "queued ?q v ?h" by (simp add: queued_def)
    have inv: "find_inv x y H n2 f2 r2"
      using prems(1)[unfolded q] prems(2) d sub h vals(1)
      by (auto simp: find_inv_def r1_def f1_def r2_def f2_def n1_def n2_def of_bool_def split: if_splits)
    have "queue_size n2 < queue_size q" by (simp add: q n1_def n2_def)
    from less.hyps[OF this inv prems(2)] show ?thesis unfolding q run .
  qed
  qed
qed

text \<open>In a tree of different values two of them are cousins when they have the same depth and different parents; an empty
  tree is read through null.\<close>

theorem cousins_by_depth_and_parent:
  assumes "distinct (inorder t)" "x \<in> set_tree t" "y \<in> set_tree t" "x \<noteq> y"
  shows "\<exists>hx hy. family t 0 0 x hx \<and> family t 0 0 y hy \<and> isCousins Leaf x y = Inl Undefined \<and>
    isCousins t x y = Inr (heritage_depth hx = heritage_depth hy \<and> heritage_parent hx \<noteq> heritage_parent hy)"
proof -
  have "t \<noteq> Leaf" using assms(2) by auto
  then have "find_inv x y (family t 0 0) [(t, 0, 0)] 0 (no_heritage, no_heritage)"
    using assms(1-3) by (simp add: find_inv_def queue_values_def queued_def)
  from find_loop_inv[OF this assms(4)] obtain hx hy where
    "cousin_find t x y = Inr (hx, hy)" "family t 0 0 x hx" "family t 0 0 y hy" unfolding cousin_find_def by blast
  then show ?thesis by (intro exI[of _ hx] exI[of _ hy]) (simp add: isCousins_def cousin_find_def)
qed

definition cousins_main :: "bool outcome list" where
  "cousins_main =
     [isCousins (Node (Node (Node Leaf 4 Leaf) 2 Leaf) 1 (Node Leaf 3 Leaf)) 4 3,
      isCousins (Node (Node Leaf 2 (Node Leaf 4 Leaf)) 1 (Node Leaf 3 (Node Leaf 5 Leaf))) 5 4,
      isCousins (Node (Node Leaf 2 (Node Leaf 4 Leaf)) 1 (Node Leaf 3 Leaf)) 2 3]"

lemma cousins_main_printed: "cousins_main = [Inr False, Inr True, Inr False]"
  by (simp add: cousins_main_def isCousins_def cousin_find_def no_heritage_def)

theorem cousins_by_depth_and_parent_witness:
  "\<exists>hx hy. family (Node (Node Leaf 2 Leaf) 1 (Node Leaf 3 Leaf)) 0 0 2 hx \<and>
     family (Node (Node Leaf 2 Leaf) 1 (Node Leaf 3 Leaf)) 0 0 3 hy \<and>
     isCousins (Node (Node Leaf 2 Leaf) 1 (Node Leaf 3 Leaf)) 2 3 = Inr (heritage_depth hx = heritage_depth hy \<and> heritage_parent hx \<noteq> heritage_parent hy)"
  using cousins_by_depth_and_parent[of "Node (Node Leaf 2 Leaf) 1 (Node Leaf 3 Leaf)" 2 3] by fastforce

section \<open>Is this a search tree\<close>

fun node_less :: "int tree \<Rightarrow> int \<Rightarrow> bool" where
  "node_less Leaf bound = True"
| "node_less (Node l data r) bound \<longleftrightarrow> data < bound \<and> node_less l bound \<and> node_less r bound \<and> node_less l data"

fun node_greater :: "int tree \<Rightarrow> int \<Rightarrow> bool" where
  "node_greater Leaf bound = True"
| "node_greater (Node l data r) bound \<longleftrightarrow> data > bound \<and> node_greater l bound \<and> node_greater r bound \<and> node_greater r data"

definition checkBST :: "int tree \<Rightarrow> bool" where
  "checkBST t = (case t of Leaf \<Rightarrow> True | Node l data r \<Rightarrow> node_less l data \<and> node_greater r data)"

text \<open>On the way down, left subtrees are only compared with what is left of a node and right ones with what is right of it.\<close>

fun left_ordered :: "int tree \<Rightarrow> bool" where
  "left_ordered Leaf = True"
| "left_ordered (Node l v r) \<longleftrightarrow> (\<forall>x\<in>set_tree l. x < v) \<and> left_ordered l \<and> left_ordered r"

fun right_ordered :: "int tree \<Rightarrow> bool" where
  "right_ordered Leaf = True"
| "right_ordered (Node l v r) \<longleftrightarrow> (\<forall>x\<in>set_tree r. v < x) \<and> right_ordered l \<and> right_ordered r"

lemma node_less_iff: "node_less t v \<longleftrightarrow> (\<forall>x\<in>set_tree t. x < v) \<and> left_ordered t"
  by (induction t v rule: node_less.induct) auto

lemma node_greater_iff: "node_greater t v \<longleftrightarrow> (\<forall>x\<in>set_tree t. v < x) \<and> right_ordered t"
  by (induction t v rule: node_greater.induct) auto

lemma bst_ordered: "bst t \<Longrightarrow> left_ordered t \<and> right_ordered t"
  by (induction t) auto

text \<open>Every search tree passes, but so do trees that are none: below the root, the right side of a left subtree and the
  left side of a right one are not compared with their nodes.\<close>

theorem checkBST_accepts_too_much:
  "checkBST t = (case t of Leaf \<Rightarrow> True | Node l v r \<Rightarrow>
     (\<forall>x\<in>set_tree l. x < v) \<and> left_ordered l \<and> (\<forall>x\<in>set_tree r. v < x) \<and> right_ordered r) \<and>
   (bst t \<longrightarrow> checkBST t) \<and>
   checkBST (Node (Node Leaf 3 (Node Leaf 2 Leaf)) 5 Leaf) \<and> \<not> bst (Node (Node Leaf 3 (Node Leaf 2 Leaf)) (5 :: int) Leaf)"
  by (cases t) (auto simp: checkBST_def node_less_iff node_greater_iff bst_ordered)

theorem checkBST_accepts_too_much_witness:
  "checkBST (Node (Node Leaf 1 Leaf) 2 (Node Leaf 3 Leaf))"
  using checkBST_accepts_too_much[of "Node (Node Leaf 1 Leaf) 2 (Node Leaf 3 Leaf)"] by simp

section \<open>Validating a search tree\<close>

text \<open>A node is its path from the root; the map of parents has null for what it does not hold.\<close>

datatype turn = To_left | To_right

type_synonym path = "turn list"

fun node_below :: "'a tree \<Rightarrow> path \<Rightarrow> 'a tree" where
  "node_below t [] = t"
| "node_below Leaf p = Leaf"
| "node_below (Node l v r) (To_left # p) = node_below l p"
| "node_below (Node l v r) (To_right # p) = node_below r p"

definition node_val :: "int tree \<Rightarrow> path \<Rightarrow> int" where
  "node_val t p = (case node_below t p of Leaf \<Rightarrow> 0 | Node l v r \<Rightarrow> v)"

text \<open>The way up from a node, whose value is compared with every node it is left or right of.\<close>

partial_function (option) climb :: "int tree \<Rightarrow> (path \<Rightarrow> path option) \<Rightarrow> path \<Rightarrow> path \<Rightarrow> path option \<Rightarrow> bool option" where
  "climb t parents node cur parent =
     (case parent of
        None \<Rightarrow> Some True
      | Some up \<Rightarrow>
          if cur = up @ [To_left] \<and> node_val t node \<ge> node_val t up \<or> cur = up @ [To_right] \<and> node_val t node \<le> node_val t up
          then Some False
          else climb t parents node up (parents up))"

partial_function (option) valid_loop :: "int tree \<Rightarrow> (path \<times> bool) list \<Rightarrow> (path \<Rightarrow> path option) \<Rightarrow> bool option" where
  "valid_loop t next parents =
     (case next of
        [] \<Rightarrow> Some True
      | (node, expanded) # next \<Rightarrow>
          if expanded
          then Option.bind (climb t parents node node (parents node))
                 (\<lambda>ok. if ok then valid_loop t next (parents(node := None)) else Some False)
          else (let next = (node, True) # next;
                    has_right = node_below t (node @ [To_right]) \<noteq> Leaf;
                    next = (if has_right then (node @ [To_right], False) # next else next);
                    parents = (if has_right then parents(node @ [To_right] := Some node) else parents);
                    has_left = node_below t (node @ [To_left]) \<noteq> Leaf;
                    next = (if has_left then (node @ [To_left], False) # next else next)
                in valid_loop t next (if has_left then parents(node @ [To_left] := Some node) else parents)))"

definition isValidBST :: "int tree \<Rightarrow> bool option" where
  "isValidBST t = (if t \<noteq> Leaf then valid_loop t [([], False)] (\<lambda>_. None) else Some True)"

text \<open>A node is in order when it is on the right side of all nodes above it.\<close>

definition in_order_at :: "int tree \<Rightarrow> path \<Rightarrow> nat \<Rightarrow> bool" where
  "in_order_at t p k \<longleftrightarrow>
     (case p ! k of To_left \<Rightarrow> node_val t p < node_val t (take k p) | To_right \<Rightarrow> node_val t (take k p) < node_val t p)"

definition in_order :: "int tree \<Rightarrow> path \<Rightarrow> bool" where
  "in_order t p \<longleftrightarrow> (\<forall>k<length p. in_order_at t p k)"

definition node_paths :: "'a tree \<Rightarrow> path set" where
  "node_paths t = {p. node_below t p \<noteq> Leaf}"

definition parents_of :: "(path \<Rightarrow> path option) \<Rightarrow> path \<Rightarrow> bool" where
  "parents_of parents p \<longleftrightarrow> parents [] = None \<and> (\<forall>k<length p. parents (take (Suc k) p) = Some (take k p))"

lemma climb_upto:
  assumes "parents_of parents p"
  shows "j \<le> length p \<Longrightarrow> climb t parents p (take j p) (parents (take j p)) = Some (\<forall>k<j. in_order_at t p k)"
proof (induction j)
  case 0
  then show ?case using assms by (subst climb.simps) (simp add: parents_of_def)
next
  case (Suc j)
  have up: "parents (take (Suc j) p) = Some (take j p)" "take (Suc j) p = take j p @ [p ! j]"
    using assms Suc.prems by (simp_all add: parents_of_def take_Suc_conv_app_nth)
  have "climb t parents p (take (Suc j) p) (Some (take j p)) =
      (if \<not> in_order_at t p j then Some False else climb t parents p (take j p) (parents (take j p)))"
    by (subst climb.simps) (auto simp: up(2) in_order_at_def not_less split: turn.splits)
  then show ?case using Suc.IH Suc.prems by (auto simp: up(1) less_Suc_eq)
qed

lemma climb_node: "parents_of parents p \<Longrightarrow> climb t parents p p (parents p) = Some (in_order t p)"
  using climb_upto[of parents p "length p" t] by (simp add: in_order_def)

lemma node_below_append: "node_below t (p @ q) = node_below (node_below t p) q"
proof (induction t p rule: node_below.induct)
  case (2 d p)
  then show ?case by (cases q) simp_all
qed simp_all

lemma node_paths_Node:
  "node_paths (Node l v r) = insert [] ((#) To_left ` node_paths l \<union> (#) To_right ` node_paths r)"
proof -
  have "p \<in> node_paths (Node l v r) \<longleftrightarrow> p \<in> insert [] ((#) To_left ` node_paths l \<union> (#) To_right ` node_paths r)" for p
    by (cases p; cases "hd p") (auto simp: node_paths_def)
  then show ?thesis by blast
qed

lemma node_paths_Leaf [simp]: "node_paths Leaf = {}"
proof -
  have "node_below Leaf p = Leaf" for p by (cases p) simp_all
  then show ?thesis unfolding node_paths_def by blast
qed

lemma parents_of_snoc:
  "parents_of parents p \<Longrightarrow> parents_of (parents(p @ [d] := Some p)) (p @ [d])"
  "parents_of parents p \<Longrightarrow> parents_of (parents(p @ [d] := q)) p"
  by (auto simp: parents_of_def less_Suc_eq append_eq_conv_conj dest: arg_cong[of _ _ length])

lemma parents_of_cong:
  "parents_of parents p \<Longrightarrow> (\<And>k. k \<le> length p \<Longrightarrow> parents' (take k p) = parents (take k p)) \<Longrightarrow> parents_of parents' p"
  using take_0 by (fastforce simp: parents_of_def)

definition all_in_order :: "int tree \<Rightarrow> path \<Rightarrow> bool" where
  "all_in_order t p \<longleftrightarrow> (\<forall>q\<in>node_paths (node_below t p). in_order t (p @ q))"

lemma all_in_order_split:
  "node_below t p = Node l v r \<Longrightarrow>
     all_in_order t p \<longleftrightarrow> in_order t p \<and> all_in_order t (p @ [To_left]) \<and> all_in_order t (p @ [To_right])"
  by (auto simp: all_in_order_def node_below_append node_paths_Node)

text \<open>What processing the tree below a node does to the rest of the loop.\<close>

definition subtree_done :: "int tree \<Rightarrow> path \<Rightarrow> (path \<Rightarrow> path option) \<Rightarrow> (path \<Rightarrow> path option) \<Rightarrow> (path \<times> bool) list \<Rightarrow> bool" where
  "subtree_done t p parents parents' next \<longleftrightarrow> (\<forall>q. (\<forall>r. q \<noteq> p @ r) \<longrightarrow> parents' q = parents q) \<and>
     valid_loop t ((p, False) # next) parents = (if all_in_order t p then valid_loop t next parents' else Some False)"

lemma valid_loop_subtree:
  "node_below t p = s \<Longrightarrow> s \<noteq> Leaf \<Longrightarrow> parents_of parents p \<Longrightarrow> \<exists>parents'. subtree_done t p parents parents' next"
proof (induction s arbitrary: p parents "next")
  case (Node l v r)
  define pl pr where "pl = p @ [To_left]" and "pr = p @ [To_right]"
  have sub: "node_below t pl = l" "node_below t pr = r" using Node.prems(1) by (simp_all add: pl_def pr_def node_below_append)
  define n1 where "n1 = (if r \<noteq> Leaf then (pr, False) # (p, True) # next else (p, True) # next)"
  define ps1 where "ps1 = (if r \<noteq> Leaf then parents(pr := Some p) else parents)"
  define ps2 where "ps2 = (if l \<noteq> Leaf then ps1(pl := Some p) else ps1)"
  have start: "valid_loop t ((p, False) # next) parents =
      valid_loop t (if l \<noteq> Leaf then (pl, False) # n1 else n1) ps2"
    by (subst valid_loop.simps) (simp add: sub[unfolded pl_def pr_def] pl_def pr_def n1_def ps1_def ps2_def)
  have out: "pl \<noteq> pr" "pr \<noteq> pl @ x" "pl \<noteq> pr @ x" "p \<noteq> pl @ x" "p \<noteq> pr @ x" for x by (simp_all add: pl_def pr_def)
  have p2: "parents_of ps2 p" using Node.prems(3) by (simp add: ps2_def ps1_def pl_def pr_def parents_of_snoc)
  have outside: "take k p \<noteq> p @ d # x" for k d x by (metis append_eq_conv_conj append_self_conv length_append length_take less_irrefl list.distinct(1) min.cobounded1 min.strict_order_iff take_all_iff take_take)
  obtain ps3 where ps3: "\<forall>q. (\<forall>x. q \<noteq> pl @ x) \<longrightarrow> ps3 q = ps2 q"
    "valid_loop t (if l \<noteq> Leaf then (pl, False) # n1 else n1) ps2 = (if all_in_order t pl then valid_loop t n1 ps3 else Some False)"
  proof (cases "l = Leaf")
    case True
    then have "all_in_order t pl" by (simp add: all_in_order_def sub)
    then show ?thesis using that[of ps2] True by simp
  next
    case False
    have "parents_of ps2 pl" using False Node.prems(3) parents_of_snoc[of ps1 p To_left] parents_of_snoc(2)[of parents p To_right]
      by (simp add: ps2_def ps1_def pl_def pr_def)
    then obtain ps3 where "subtree_done t pl ps2 ps3 n1" using Node.IH(1)[OF sub(1) False] by blast
    then show ?thesis using that[of ps3] False by (simp add: subtree_done_def)
  qed
  have p3: "parents_of ps3 p" using p2 ps3(1) outside by (intro parents_of_cong[OF p2]) (simp add: pl_def)
  obtain ps4 where ps4: "\<forall>q. (\<forall>x. q \<noteq> pr @ x) \<longrightarrow> ps4 q = ps3 q"
    "valid_loop t n1 ps3 = (if all_in_order t pr then valid_loop t ((p, True) # next) ps4 else Some False)"
  proof (cases "r = Leaf")
    case True
    then have "all_in_order t pr" by (simp add: all_in_order_def sub)
    then show ?thesis using that[of ps3] True by (simp add: n1_def)
  next
    case False
    have "ps3 pr = Some p" using ps3(1) out False by (simp add: ps2_def ps1_def)
    then have "parents_of ps3 pr" using p3 by (auto simp: parents_of_def pr_def less_Suc_eq)
    then obtain ps4 where "subtree_done t pr ps3 ps4 ((p, True) # next)" using Node.IH(2)[OF sub(2) False] by blast
    then show ?thesis using that[of ps4] False by (simp add: subtree_done_def n1_def)
  qed
  have "parents_of ps4 p" using ps4(1) outside by (intro parents_of_cong[OF p3]) (simp add: pr_def)
  then have last: "valid_loop t ((p, True) # next) ps4 = (if in_order t p then valid_loop t next (ps4(p := None)) else Some False)"
    by (subst valid_loop.simps) (simp add: climb_node)
  have same: "(ps4(p := None)) q = parents q" if "\<forall>x. q \<noteq> p @ x" for q
  proof -
    have "q \<noteq> p" "\<forall>x. q \<noteq> pl @ x" "\<forall>x. q \<noteq> pr @ x" using that by (auto simp: pl_def pr_def)
    moreover have "q \<noteq> pl" "q \<noteq> pr" using calculation(2,3) by (metis append_Nil2)+
    ultimately show ?thesis using ps3(1) ps4(1) by (simp add: ps2_def ps1_def)
  qed
  have "all_in_order t p = (in_order t p \<and> all_in_order t pl \<and> all_in_order t pr)"
    unfolding pl_def pr_def by (rule all_in_order_split[OF Node.prems(1)])
  then have "subtree_done t p parents (ps4(p := None)) next"
    unfolding subtree_done_def start ps3(2) ps4(2) last using same by simp
  then show ?case by blast
qed simp

lemma node_val_simps [simp]:
  "node_val (Node l v r) [] = v" "node_val (Node l v r) (To_left # q) = node_val l q"
  "node_val (Node l v r) (To_right # q) = node_val r q"
  by (simp_all add: node_val_def)

lemma set_tree_node_val: "set_tree t = node_val t ` node_paths t"
proof (induction t)
  case (Node l v r)
  have "node_val (Node l v r) ` node_paths (Node l v r) = insert v (node_val l ` node_paths l \<union> node_val r ` node_paths r)"
    by (simp add: node_paths_Node image_Un image_image)
  then show ?case using Node by simp
qed simp

lemma in_order_Cons:
  "in_order (Node l v r) (To_left # q) \<longleftrightarrow> node_val l q < v \<and> in_order l q"
  "in_order (Node l v r) (To_right # q) \<longleftrightarrow> v < node_val r q \<and> in_order r q"
  by (simp_all add: in_order_def in_order_at_def All_less_Suc2 split: turn.split)

lemma all_in_order_bst: "(\<forall>q\<in>node_paths t. in_order t q) \<longleftrightarrow> bst t"
proof (induction t)
  case (Node l v r)
  have "in_order (Node l v r) []" by (simp add: in_order_def)
  then have "(\<forall>q\<in>node_paths (Node l v r). in_order (Node l v r) q) \<longleftrightarrow>
      (\<forall>q\<in>node_paths l. node_val l q < v \<and> in_order l q) \<and> (\<forall>q\<in>node_paths r. v < node_val r q \<and> in_order r q)"
    by (simp add: node_paths_Node ball_Un in_order_Cons)
  then show ?case using Node.IH by (auto simp: set_tree_node_val)
qed simp

text \<open>The loop returns, and its answer is whether the tree is a search tree.\<close>

theorem valid_bst_decides: "isValidBST t = Some (bst t)"
proof (cases "t = Leaf")
  case False
  obtain ps where "subtree_done t [] (\<lambda>_. None) ps []"
    using valid_loop_subtree[of t "[]" t "\<lambda>_. None" "[]"] False by (auto simp: parents_of_def)
  then have "isValidBST t = (if all_in_order t [] then valid_loop t [] ps else Some False)"
    using False by (simp add: subtree_done_def isValidBST_def)
  moreover have "valid_loop t [] ps = Some True" by (subst valid_loop.simps) simp
  ultimately show ?thesis by (simp add: all_in_order_def all_in_order_bst)
qed (simp add: isValidBST_def)

definition valid_bst_main :: "bool option list" where
  "valid_bst_main =
     [isValidBST (Node (Node Leaf 1 Leaf) 5 (Node (Node Leaf 3 Leaf) 4 (Node Leaf 6 Leaf))),
      isValidBST (Node (Node Leaf 1 Leaf) 2 (Node Leaf 3 Leaf)),
      isValidBST (Node (Node Leaf 4 Leaf) 5 (Node (Node Leaf 3 Leaf) 6 (Node Leaf 7 Leaf)))]"

end
