(* ===== verification/Ex_Rpc.thy ===== *)
theory Ex_Rpc
  imports Prelude
begin

text \<open>
  Remote calls between a device and a server, \<open>exercises/rpc2.cpp\<close>: the messages, actors and the fibers that run on
  them, the registry of calls, channels, and the dispatcher with its two services. An actor is a thread that runs the
  jobs of its list with its mutex held, so a job is one step; a channel is locked for each operation. The threads
  of the program are a relation of such steps. A pointer to a handler is the name of the actor that keeps it
  with its tag. The headers of requests and responses have no fields.
\<close>

section \<open>Messages\<close>

datatype error_code = Error_success | Error_failure

record target_id =
  id_which :: int
  id_user :: string
  id_space :: string

record user_request =
  user_which :: int
  auth_password :: string
  get_username :: string
  ping_username :: string
  user_target :: target_id

record space_request =
  space_which :: int
  join_username :: string
  space_target :: target_id

record user_response =
  uresp_which :: int
  auth_token :: string
  get_name :: string
  ping_error :: int

record space_response =
  sresp_which :: int
  join_error :: int

record request =
  req_which :: int
  req_user :: user_request
  req_space :: space_request

text \<open>The field \<open>error\<close> of a response has no initial value.\<close>

record response =
  resp_which :: int
  resp_user :: user_response
  resp_space :: space_response
  resp_error :: "error_code option"

record packet =
  requests :: "request list"
  responses :: "response list"

definition no_id :: target_id where
  "no_id = \<lparr>id_which = 0, id_user = '''', id_space = ''''\<rparr>"

definition no_request :: request where
  "no_request = \<lparr>req_which = 0,
     req_user = \<lparr>user_which = 0, auth_password = '''', get_username = '''', ping_username = '''', user_target = no_id\<rparr>,
     req_space = \<lparr>space_which = 0, join_username = '''', space_target = no_id\<rparr>\<rparr>"

definition no_response :: response where
  "no_response = \<lparr>resp_which = 0,
     resp_user = \<lparr>uresp_which = 0, auth_token = '''', get_name = '''', ping_error = 0\<rparr>,
     resp_space = \<lparr>sresp_which = 0, join_error = 0\<rparr>, resp_error = None\<rparr>"

definition no_packet :: packet where
  "no_packet = \<lparr>requests = [], responses = []\<rparr>"

section \<open>Channels\<close>

type_synonym 'a channel = "'a list"

definition channel_size :: "'a channel \<Rightarrow> nat" where
  "channel_size c = length c"

definition channel_empty :: "'a channel \<Rightarrow> bool" where
  "channel_empty c = (c = [])"

definition channel_push :: "'a \<Rightarrow> 'a channel \<Rightarrow> 'a channel" where
  "channel_push v c = c @ [v]"

definition channel_pop :: "'a \<Rightarrow> 'a channel \<Rightarrow> bool \<times> 'a \<times> 'a channel" where
  "channel_pop v c = (case c of [] \<Rightarrow> (False, v, c) | x # xs \<Rightarrow> (True, x, xs))"

section \<open>Actors\<close>

text \<open>What a function given to a fiber does with its continuation before it returns. The states of the fibers of an actor
  are a list, and a pointer to one is its position.\<close>

datatype fiber_call = Call_next | Call_quit | Call_fail

datatype fiber_status = Status_initial | Status_succeed | Status_fail

record fiber_state =
  fiber_work :: "fiber_call list list"
  next_work_id :: u64
  on_success :: "fiber_call list option"
  on_failure :: "fiber_call list option"
  host_alive :: bool
  dispose :: bool
  fiber_status :: fiber_status
  is_strand :: bool

record 'j actor =
  fiber_states :: "fiber_state list"
  fibers :: "nat list"
  work_list :: "'j list"
  locked :: bool

text \<open>A mutex that its own thread locks again is undefined.\<close>

definition post :: "'j \<Rightarrow> ('j, 'z) actor_scheme \<Rightarrow> ('j, 'z) actor_scheme outcome" where
  "post work a = (if locked a then Inl Undefined else Inr (a\<lparr>work_list := work_list a @ [work]\<rparr>))"

text \<open>A job may give something back that others see.\<close>

definition actor_run_once ::
    "('j \<Rightarrow> ('j, 'z) actor_scheme \<Rightarrow> (('j, 'z) actor_scheme \<times> 'e list) outcome) \<Rightarrow>
     ('j, 'z) actor_scheme \<Rightarrow> (('j, 'z) actor_scheme \<times> 'e list) outcome" where
  "actor_run_once run a =
     (let a = a\<lparr>locked := True\<rparr>
      in case work_list a of
           [] \<Rightarrow> Inr (a\<lparr>locked := False\<rparr>, [])
         | work # _ \<Rightarrow> and_then (run work a) (\<lambda>(a, out).
             Inr (a\<lparr>work_list := tl (work_list a), locked := False\<rparr>, out)))"

section \<open>Fibers\<close>

datatype fiber_job = Job_run nat | Job_terminate nat fiber_status

definition fiber_new :: fiber_state where
  "fiber_new = \<lparr>fiber_work = [], next_work_id = 0, on_success = None, on_failure = None, host_alive = True,
     dispose = False, fiber_status = Status_initial, is_strand = False\<rparr>"

text \<open>A fiber holds its state until it is started.\<close>

type_synonym fiber = "nat option"

definition create_fiber :: "fiber_job actor \<Rightarrow> fiber \<times> fiber_job actor" where
  "create_fiber a =
     (let state = length (fiber_states a)
      in (Some state, a\<lparr>fiber_states := fiber_states a @ [fiber_new], fibers := fibers a @ [state]\<rparr>))"

definition is_ready :: "fiber \<Rightarrow> bool" where
  "is_ready f = (f \<noteq> None)"

definition update_fiber :: "nat \<Rightarrow> (fiber_state \<Rightarrow> fiber_state) \<Rightarrow> fiber_job actor \<Rightarrow> fiber_job actor" where
  "update_fiber k f a = a\<lparr>fiber_states := (fiber_states a)[k := f (fiber_states a ! k)]\<rparr>"

definition fiber_then :: "fiber \<Rightarrow> fiber_call list \<Rightarrow> fiber_job actor \<Rightarrow> fiber_job actor outcome" where
  "fiber_then f work a =
     (case f of None \<Rightarrow> Inl Undefined
      | Some k \<Rightarrow> Inr (update_fiber k (\<lambda>s. s\<lparr>fiber_work := fiber_work s @ [work]\<rparr>) a))"

definition fiber_start :: "fiber \<Rightarrow> nat option \<times> fiber" where
  "fiber_start f = (f, None)"

definition continuation_run_once :: "nat \<Rightarrow> fiber_job actor \<Rightarrow> fiber_job actor outcome" where
  "continuation_run_once k a = (if host_alive (fiber_states a ! k) then post (Job_run k) a else Inr a)"

definition continuation_terminate :: "fiber_status \<Rightarrow> nat \<Rightarrow> fiber_job actor \<Rightarrow> fiber_job actor outcome" where
  "continuation_terminate status k a =
     (if host_alive (fiber_states a ! k) then post (Job_terminate k status) a else Inr a)"

definition continuation_call :: "nat \<Rightarrow> fiber_call \<Rightarrow> fiber_job actor \<Rightarrow> fiber_job actor outcome" where
  "continuation_call k c a =
     (case c of Call_next \<Rightarrow> continuation_run_once k a
      | Call_quit \<Rightarrow> continuation_terminate Status_succeed k a
      | Call_fail \<Rightarrow> continuation_terminate Status_fail k a)"

fun run_work :: "nat \<Rightarrow> fiber_call list \<Rightarrow> fiber_job actor \<Rightarrow> fiber_job actor outcome" where
  "run_work k [] a = Inr a"
| "run_work k (c # cs) a = and_then (continuation_call k c a) (run_work k cs)"

definition run_once_here :: "nat \<Rightarrow> fiber_job actor \<Rightarrow> fiber_job actor outcome" where
  "run_once_here k a =
     (let work_id = next_work_id (fiber_states a ! k);
          a = update_fiber k (\<lambda>s. s\<lparr>next_work_id := work_id + 1\<rparr>) a
      in if unat work_id < length (fiber_work (fiber_states a ! k))
         then run_work k (fiber_work (fiber_states a ! k) ! unat work_id) a
         else Inr (update_fiber k (\<lambda>s. s\<lparr>dispose := True\<rparr>) a))"

text \<open>Calling an empty function throws on the thread of the actor, where nothing catches it.\<close>

definition terminate_here :: "fiber_status \<Rightarrow> nat \<Rightarrow> fiber_job actor \<Rightarrow> fiber_job actor outcome" where
  "terminate_here status k a =
     (let handler = (case status of Status_fail \<Rightarrow> on_failure (fiber_states a ! k)
                     | _ \<Rightarrow> on_success (fiber_states a ! k))
      in case handler of None \<Rightarrow> Inl Terminated
         | Some work \<Rightarrow> and_then (run_work k work a) (\<lambda>a.
             Inr (if host_alive (fiber_states a ! k) then a\<lparr>fibers := filter (\<lambda>s. s \<noteq> k) (fibers a)\<rparr> else a)))"

definition run_fiber_job :: "fiber_job \<Rightarrow> fiber_job actor \<Rightarrow> (fiber_job actor \<times> unit list) outcome" where
  "run_fiber_job j a =
     and_then (case j of Job_run k \<Rightarrow> run_once_here k a | Job_terminate k status \<Rightarrow> terminate_here status k a)
       (\<lambda>a. Inr (a, []))"

section \<open>The registry of calls\<close>

datatype rpc_method = User_auth | User_get | User_ping | Space_join

text \<open>The one function that the program sets as the handler of a completion is that of \<open>Dispatcher::handle\<close>.\<close>

record rpc_handler =
  rpc_method :: rpc_method
  handler_request :: request
  handler_response :: response
  on_complete :: bool

record rpc_registry =
  rpcs :: "(u64, rpc_handler option) map"
  tag :: u64

definition registry_new :: rpc_registry where
  "registry_new = \<lparr>rpcs = Map.empty, tag = 1\<rparr>"

definition adopt :: "rpc_handler \<Rightarrow> rpc_registry \<Rightarrow> u64 \<times> rpc_registry" where
  "adopt rpc r = (tag r, r\<lparr>rpcs := (rpcs r)(tag r \<mapsto> Some rpc), tag := tag r + 1\<rparr>)"

text \<open>\<open>rpcs[tag]\<close> inserts a null pointer for a tag that is not there.\<close>

definition registry_index :: "u64 \<Rightarrow> rpc_registry \<Rightarrow> rpc_handler option \<times> rpc_registry" where
  "registry_index t r = (case rpcs r t of Some p \<Rightarrow> (p, r) | None \<Rightarrow> (None, r\<lparr>rpcs := (rpcs r)(t \<mapsto> None)\<rparr>))"

definition registry_release :: "u64 \<Rightarrow> rpc_registry \<Rightarrow> rpc_handler option \<times> rpc_registry" where
  "registry_release t r = (let (p, r) = registry_index t r in (p, r\<lparr>rpcs := (rpcs r)(t \<mapsto> None)\<rparr>))"

definition registry_at :: "u64 \<Rightarrow> rpc_registry \<Rightarrow> rpc_handler option \<times> rpc_registry" where
  "registry_at t r = registry_index t r"

section \<open>Services\<close>

datatype service_kind = User_service | Space_service

text \<open>A job of a service is the call with a tag.\<close>

record service = "u64 actor" +
  service_kind :: service_kind
  registry :: rpc_registry

definition service_new :: "service_kind \<Rightarrow> service" where
  "service_new kind = \<lparr>fiber_states = [], fibers = [], work_list = [], locked = False, service_kind = kind,
     registry = registry_new\<rparr>"

definition service_Auth :: "string \<Rightarrow> string" where
  "service_Auth password = (if password = ''sekret'' then ''guhjob'' else ''buhboo'')"

definition service_Get :: "string \<Rightarrow> string" where
  "service_Get username = ''''"

definition service_Ping :: "string \<Rightarrow> int" where
  "service_Ping username = 0"

definition service_Join :: "string \<Rightarrow> int" where
  "service_Join username = 0"

definition invoke_method :: "rpc_handler \<Rightarrow> rpc_handler" where
  "invoke_method h =
     (let req = handler_request h; resp = handler_response h; u = resp_user resp; s = resp_space resp
      in h\<lparr>handler_response :=
        (case rpc_method h of
           User_auth \<Rightarrow> resp\<lparr>resp_user := u\<lparr>auth_token := service_Auth (auth_password (req_user req))\<rparr>\<rparr>
         | User_get \<Rightarrow> resp\<lparr>resp_user := u\<lparr>get_name := service_Get (get_username (req_user req))\<rparr>\<rparr>
         | User_ping \<Rightarrow> resp\<lparr>resp_user := u\<lparr>ping_error := service_Ping (ping_username (req_user req))\<rparr>\<rparr>
         | Space_join \<Rightarrow> resp\<lparr>resp_space := s\<lparr>join_error := service_Join (join_username (req_space req))\<rparr>\<rparr>)\<rparr>)"

text \<open>The completion that \<open>handle\<close> sets: the response with its error, in a packet of its own.\<close>

definition complete :: "error_code \<Rightarrow> rpc_handler \<Rightarrow> rpc_handler \<times> packet list" where
  "complete error h =
     (let response = (handler_response h)\<lparr>resp_error := Some error\<rparr>
      in (h\<lparr>handler_response := response\<rparr>, [no_packet\<lparr>responses := [response]\<rparr>]))"

definition run_rpc :: "u64 \<Rightarrow> service \<Rightarrow> (service \<times> packet list) outcome" where
  "run_rpc t a =
     (case rpcs (registry a) t of
        Some (Some h) \<Rightarrow>
          (let h = invoke_method h;
               (h, out) = (if on_complete h then complete Error_success h else (h, []))
           in Inr (a\<lparr>registry := (registry a)\<lparr>rpcs := (rpcs (registry a))(t \<mapsto> Some h)\<rparr>\<rparr>, out))
      | _ \<Rightarrow> Inl Undefined)"

definition execute :: "u64 \<Rightarrow> service option \<Rightarrow> service option outcome" where
  "execute t m_service =
     (case m_service of None \<Rightarrow> Inr None | Some a \<Rightarrow> and_then (post t a) (\<lambda>a. Inr (Some a)))"

definition set_on_complete :: "u64 \<Rightarrow> service \<Rightarrow> service outcome" where
  "set_on_complete t a =
     (case rpcs (registry a) t of
        Some (Some h) \<Rightarrow> Inr (a\<lparr>registry := (registry a)\<lparr>rpcs := (rpcs (registry a))(t \<mapsto> Some (h\<lparr>on_complete := True\<rparr>))\<rparr>\<rparr>)
      | _ \<Rightarrow> Inl Undefined)"

text \<open>The types of the calls are compared one after the other, and each answer is no.\<close>

definition is_server_only_rpc :: "rpc_method \<Rightarrow> bool" where
  "is_server_only_rpc rpc =
     (if rpc = User_auth then False else if rpc = User_get then False
      else if rpc = User_ping then False else if rpc = Space_join then False else False)"

section \<open>The pool and the mesh\<close>

datatype actor_group = Global_group

type_synonym actor_pool = "(string, service) map"

text \<open>The argument of \<open>emplace\<close> is made before the name is looked up. When the name is taken the new actor is destroyed,
  and with it a thread that has not been joined.\<close>

definition get_or_create_actor :: "service_kind \<Rightarrow> actor_group \<Rightarrow> string \<Rightarrow> actor_pool \<Rightarrow> actor_pool outcome" where
  "get_or_create_actor kind grp i actors =
     (case actors i of None \<Rightarrow> Inr (actors(i \<mapsto> service_new kind)) | Some _ \<Rightarrow> Inl Terminated)"

datatype domain_type = Domain_local | Domain_remote

record domain =
  domain_type :: domain_type
  local_group :: "actor_group option"
  local_singleton :: bool

definition no_domain :: domain where
  "no_domain = \<lparr>domain_type = Domain_local, local_group = None, local_singleton = False\<rparr>"

definition should_forward :: "string \<Rightarrow> domain" where
  "should_forward i = no_domain\<lparr>domain_type := Domain_local, local_group := Some Global_group\<rparr>"

definition resolve_rpc :: "request \<Rightarrow> domain" where
  "resolve_rpc request =
     (if req_which request = 1 then should_forward (id_user (user_target (req_user request)))
      else if req_which request = 2 then should_forward (id_space (space_target (req_space request)))
      else no_domain)"

text \<open>A handler copies the request; its response carries the two tags of the call.\<close>

definition make_handler :: "rpc_method \<Rightarrow> request \<Rightarrow> rpc_handler" where
  "make_handler m request =
     (let response = no_response;
          user = (\<lambda>n. response\<lparr>resp_which := 1, resp_user := (resp_user response)\<lparr>uresp_which := n\<rparr>\<rparr>)
      in \<lparr>rpc_method = m, handler_request = request,
          handler_response =
            (case m of User_auth \<Rightarrow> user 1 | User_get \<Rightarrow> user 2 | User_ping \<Rightarrow> user 3
             | Space_join \<Rightarrow> response\<lparr>resp_which := 2, resp_space := (resp_space response)\<lparr>sresp_which := 1\<rparr>\<rparr>),
          on_complete = False\<rparr>)"

definition adopt_handler :: "string \<Rightarrow> rpc_method \<Rightarrow> request \<Rightarrow> actor_pool \<Rightarrow> ((string \<times> u64) option \<times> actor_pool) outcome" where
  "adopt_handler uuid m request actors =
     (case actors uuid of
        None \<Rightarrow> Inl Undefined
      | Some a \<Rightarrow> (let (t, r) = adopt (make_handler m request) (registry a)
                 in Inr (Some (uuid, t), actors(uuid \<mapsto> a\<lparr>registry := r\<rparr>))))"

definition reify_rpc :: "actor_group \<Rightarrow> request \<Rightarrow> actor_pool \<Rightarrow> ((string \<times> u64) option \<times> actor_pool) outcome" where
  "reify_rpc grp request actors =
     (if req_which request = 1 then
        (let uuid = id_user (user_target (req_user request))
         in and_then (get_or_create_actor User_service grp uuid actors) (\<lambda>actors.
              if user_which (req_user request) = 1 then adopt_handler uuid User_auth request actors
              else if user_which (req_user request) = 2 then adopt_handler uuid User_get request actors
              else if user_which (req_user request) = 3 then adopt_handler uuid User_ping request actors
              else Inr (None, actors)))
      else if req_which request = 2 then
        (let uuid = id_space (space_target (req_space request))
         in and_then (get_or_create_actor Space_service grp uuid actors) (\<lambda>actors.
              if space_which (req_space request) = 1 then adopt_handler uuid Space_join request actors
              else Inr (None, actors)))
      else Inr (None, actors))"

section \<open>The dispatcher\<close>

text \<open>A null handler and a null group are dereferenced.\<close>

definition handle_request :: "request \<Rightarrow> actor_pool \<Rightarrow> actor_pool outcome" where
  "handle_request request actors =
     (let result = resolve_rpc request
      in case domain_type result of
           Domain_remote \<Rightarrow> Inr actors
         | Domain_local \<Rightarrow>
             (case local_group result of
                None \<Rightarrow> Inl Undefined
              | Some grp \<Rightarrow> and_then (reify_rpc grp request actors) (\<lambda>(handler, actors).
                  case handler of
                    None \<Rightarrow> Inl Undefined
                  | Some (i, t) \<Rightarrow>
                      (case actors i of None \<Rightarrow> Inl Undefined
                       | Some a \<Rightarrow> and_then (set_on_complete t a) (\<lambda>a.
                           and_then (execute t (Some a)) (\<lambda>m_service.
                           Inr (actors(i := m_service))))))))"

fun handle_requests :: "request list \<Rightarrow> actor_pool \<Rightarrow> actor_pool outcome" where
  "handle_requests [] actors = Inr actors"
| "handle_requests (r # rs) actors = and_then (handle_request r actors) (handle_requests rs)"

definition handle :: "packet \<Rightarrow> actor_pool \<Rightarrow> actor_pool outcome" where
  "handle packet = handle_requests (requests packet)"

section \<open>The threads\<close>

text \<open>The two channels, the pool, the requests of the packet that the server is in the middle of, the last packet of each
  loop, and what the device has printed; \<open>sent\<close>, \<open>handled\<close> and \<open>answered\<close> are the history.\<close>

record rpc_system =
  from_device :: "packet channel"
  from_server :: "packet channel"
  pool :: actor_pool
  handling :: "request list"
  server_packet :: packet
  device_packet :: packet
  authenticated :: nat
  stopped :: "cpp_fault option"
  sent :: "request list"
  handled :: "request list"
  answered :: "(string \<times> response) list"

definition rpc_start :: rpc_system where
  "rpc_start = \<lparr>from_device = [], from_server = [], pool = Map.empty, handling = [], server_packet = no_packet,
     device_packet = no_packet, authenticated = 0, stopped = None, sent = [], handled = [], answered = []\<rparr>"

definition device_send :: "packet \<Rightarrow> rpc_system \<Rightarrow> rpc_system" where
  "device_send p s = s\<lparr>device_packet := p, from_device := channel_push p (from_device s),
     sent := sent s @ requests p\<rparr>"

definition server_recv :: "rpc_system \<Rightarrow> rpc_system" where
  "server_recv s =
     (let (ok, p, c) = channel_pop (server_packet s) (from_device s)
      in if ok then s\<lparr>server_packet := p, from_device := c, handling := requests p\<rparr> else s)"

definition server_handle :: "rpc_system \<Rightarrow> rpc_system" where
  "server_handle s =
     (case handling s of
        [] \<Rightarrow> s
      | r # rs \<Rightarrow>
          (case handle_request r (pool s) of
             Inl e \<Rightarrow> s\<lparr>stopped := Some e\<rparr>
           | Inr actors \<Rightarrow> s\<lparr>pool := actors, handling := rs, handled := handled s @ [r]\<rparr>))"

definition service_turn :: "string \<Rightarrow> rpc_system \<Rightarrow> rpc_system" where
  "service_turn i s =
     (case pool s i of
        None \<Rightarrow> s
      | Some a \<Rightarrow>
          (case actor_run_once run_rpc a of
             Inl e \<Rightarrow> s\<lparr>stopped := Some e\<rparr>
           | Inr (a, out) \<Rightarrow> s\<lparr>pool := (pool s)(i \<mapsto> a), from_server := fold channel_push out (from_server s),
                answered := answered s @ map (\<lambda>p. (i, last (responses p))) out\<rparr>))"

text \<open>The device looks at the last response of a packet.\<close>

definition is_authenticated :: "packet \<Rightarrow> bool outcome" where
  "is_authenticated p =
     (if responses p = [] then Inl Undefined
      else (let response = last (responses p)
            in Inr (resp_which response = 1 \<and> uresp_which (resp_user response) = 1 \<and>
                    auth_token (resp_user response) = ''guhjob'')))"

definition device_recv :: "rpc_system \<Rightarrow> rpc_system" where
  "device_recv s =
     (let (ok, p, c) = channel_pop (device_packet s) (from_server s)
      in if \<not> ok then s
         else (case is_authenticated p of
                 Inl e \<Rightarrow> s\<lparr>stopped := Some e\<rparr>
               | Inr yes \<Rightarrow> s\<lparr>device_packet := p, from_server := c,
                               authenticated := (if yes then authenticated s + 1 else authenticated s)\<rparr>))"

text \<open>The packet of \<open>main\<close>.\<close>

definition main_packet :: packet where
  "main_packet =
     (let request = no_request\<lparr>req_which := 1, req_user := (req_user no_request)\<lparr>user_which := 1,
            auth_password := ''sekret'', user_target := no_id\<lparr>id_user := ''bob''\<rparr>\<rparr>\<rparr>
      in no_packet\<lparr>requests := requests no_packet @ [request]\<rparr>)"

text \<open>A step of the server, an actor or the device that does something; \<open>rpc_step\<close> also lets the device send, where \<open>main\<close>
  sends its packet once.\<close>

inductive rpc_work :: "rpc_system \<Rightarrow> rpc_system \<Rightarrow> bool" where
  work_recv: "stopped s = None \<Longrightarrow> handling s = [] \<Longrightarrow> from_device s \<noteq> [] \<Longrightarrow> rpc_work s (server_recv s)"
| work_handle: "stopped s = None \<Longrightarrow> handling s \<noteq> [] \<Longrightarrow> rpc_work s (server_handle s)"
| work_service: "stopped s = None \<Longrightarrow> pool s i = Some a \<Longrightarrow> work_list a \<noteq> [] \<Longrightarrow> rpc_work s (service_turn i s)"
| work_device: "stopped s = None \<Longrightarrow> from_server s \<noteq> [] \<Longrightarrow> rpc_work s (device_recv s)"

inductive rpc_step :: "rpc_system \<Rightarrow> rpc_system \<Rightarrow> bool" where
  step_work: "rpc_work s t \<Longrightarrow> rpc_step s t"
| step_send: "stopped s = None \<Longrightarrow> rpc_step s (device_send p s)"

inductive rpc_reachable :: "rpc_system \<Rightarrow> bool" where
  reach_start: "rpc_reachable rpc_start"
| reach_step: "rpc_reachable s \<Longrightarrow> rpc_step s t \<Longrightarrow> rpc_reachable t"

inductive_cases rpc_workE: "rpc_work s t"
inductive_cases rpc_stepE: "rpc_step s t"

section \<open>Fibers\<close>

text \<open>A function of a fiber that calls its continuation before it returns locks the mutex that its actor holds.\<close>

lemma run_work_locked:
  "locked a \<Longrightarrow> host_alive (fiber_states a ! k) \<Longrightarrow> run_work k cs a = (if cs = [] then Inr a else Inl Undefined)"
  by (cases cs) (auto simp: continuation_call_def continuation_run_once_def continuation_terminate_def post_def split: fiber_call.split)

text \<open>A turn of the actor whose first job is the next function of a fiber: the function must leave its continuation for
  another thread. After the last function the fiber is marked for disposal.\<close>

theorem fiber_turn:
  assumes "work_list a = Job_run k # js" "k < length (fiber_states a)" "host_alive (fiber_states a ! k)"
  shows "actor_run_once run_fiber_job a =
     (let s = fiber_states a ! k; i = unat (next_work_id s); stepped = s\<lparr>next_work_id := next_work_id s + 1\<rparr>
      in if i < length (fiber_work s)
         then if fiber_work s ! i = []
              then Inr (a\<lparr>fiber_states := (fiber_states a)[k := stepped], work_list := js, locked := False\<rparr>, [])
              else Inl Undefined
         else Inr (a\<lparr>fiber_states := (fiber_states a)[k := stepped\<lparr>dispose := True\<rparr>], work_list := js, locked := False\<rparr>, []))"
  using assms
  by (simp add: actor_run_once_def run_fiber_job_def run_once_here_def update_fiber_def Let_def run_work_locked)

theorem fiber_turn_witness:
  "actor_run_once run_fiber_job \<lparr>fiber_states = [fiber_new\<lparr>fiber_work := [[Call_next]]\<rparr>], fibers = [0],
     work_list = [Job_run 0], locked = False\<rparr> = Inl Undefined"
  using fiber_turn[of "\<lparr>fiber_states = [fiber_new\<lparr>fiber_work := [[Call_next]]\<rparr>], fibers = [0],
     work_list = [Job_run 0], locked = False\<rparr>" 0 "[]"]
  by (simp add: fiber_new_def)

text \<open>Driven from other threads, a fiber of quiet functions runs each of them once and is then disposed of.\<close>

fun drive_fiber :: "nat \<Rightarrow> nat \<Rightarrow> fiber_job actor \<Rightarrow> fiber_job actor outcome" where
  "drive_fiber k 0 a = Inr a"
| "drive_fiber k (Suc n) a =
     and_then (drive_fiber k n a) (\<lambda>a.
     and_then (continuation_run_once k a) (\<lambda>a.
     and_then (actor_run_once run_fiber_job a) (\<lambda>(a, out). Inr a)))"

lemma drive_quiet_fiber:
  assumes "k < length (fiber_states a)" "fiber_states a ! k = s" "host_alive s" "\<not> locked a" "work_list a = []"
    "next_work_id s = 0" "set (fiber_work s) \<subseteq> {[]}" "n < 2 ^ 64"
  shows "drive_fiber k n a = Inr (a\<lparr>fiber_states := (fiber_states a)[k := s\<lparr>next_work_id := of_nat n,
    dispose := (dispose s \<or> length (fiber_work s) < n)\<rparr>]\<rparr>)"
  using assms(8)
proof (induction n)
  case 0
  have "s\<lparr>next_work_id := 0\<rparr> = s" using assms(6) by (cases s) simp
  then show ?case using assms(1-5) by (auto simp: list_update_same_conv)
next
  case (Suc n)
  let ?s = "s\<lparr>next_work_id := of_nat n, dispose := (dispose s \<or> length (fiber_work s) < n)\<rparr>"
  let ?a = "a\<lparr>fiber_states := (fiber_states a)[k := ?s], work_list := [Job_run k]\<rparr>"
  have un: "unat (of_nat n :: u64) = n" using Suc.prems by (simp add: unat_of_nat_small)
  have quiet: "n < length (fiber_work s) \<Longrightarrow> fiber_work s ! n = []" using assms(7) nth_mem by fastforce
  have post: "continuation_run_once k (a\<lparr>fiber_states := (fiber_states a)[k := ?s]\<rparr>) = Inr ?a"
    using assms(1-5) by (simp add: continuation_run_once_def post_def)
  have turn: "actor_run_once run_fiber_job ?a = Inr (a\<lparr>fiber_states := (fiber_states a)[k := s\<lparr>next_work_id := of_nat (Suc n),
      dispose := (dispose s \<or> length (fiber_work s) < Suc n)\<rparr>]\<rparr>, [])"
    using assms(1-5) quiet
    by (simp add: actor_run_once_def run_fiber_job_def run_once_here_def update_fiber_def Let_def un)
      (auto simp: add.commute less_Suc_eq_le not_less)
  show ?case using Suc.IH Suc.prems post turn by simp
qed

section \<open>What a request is answered\<close>

definition target_of :: "request \<Rightarrow> string" where
  "target_of r = (if req_which r = 1 then id_user (user_target (req_user r)) else id_space (space_target (req_space r)))"

definition method_of :: "request \<Rightarrow> rpc_method option" where
  "method_of r =
     (if req_which r = 1 \<and> user_which (req_user r) = 1 then Some User_auth
      else if req_which r = 1 \<and> user_which (req_user r) = 2 then Some User_get
      else if req_which r = 1 \<and> user_which (req_user r) = 3 then Some User_ping
      else if req_which r = 2 \<and> space_which (req_space r) = 1 then Some Space_join
      else None)"

definition answer_of :: "request \<Rightarrow> response" where
  "answer_of r =
     (let user = (\<lambda>n token. \<lparr>resp_which = 1, resp_user = \<lparr>uresp_which = n, auth_token = token, get_name = '''', ping_error = 0\<rparr>,
            resp_space = \<lparr>sresp_which = 0, join_error = 0\<rparr>, resp_error = Some Error_success\<rparr>)
      in case method_of r of
           Some User_auth \<Rightarrow> user 1 (if auth_password (req_user r) = ''sekret'' then ''guhjob'' else ''buhboo'')
         | Some User_get \<Rightarrow> user 2 ''''
         | Some User_ping \<Rightarrow> user 3 ''''
         | _ \<Rightarrow> \<lparr>resp_which = 2, resp_user = \<lparr>uresp_which = 0, auth_token = '''', get_name = '''', ping_error = 0\<rparr>,
                resp_space = \<lparr>sresp_which = 1, join_error = 0\<rparr>, resp_error = Some Error_success\<rparr>)"

definition armed_service :: "rpc_method \<Rightarrow> request \<Rightarrow> service" where
  "armed_service m r =
     (service_new (if req_which r = 1 then User_service else Space_service))\<lparr>
        registry := \<lparr>rpcs = [1 \<mapsto> Some ((make_handler m r)\<lparr>on_complete := True\<rparr>)], tag = 2\<rparr>, work_list := [1]\<rparr>"

lemma service_new_fields [simp]:
  "work_list (service_new kind) = []" "\<not> locked (service_new kind)" "registry (service_new kind) = registry_new"
  by (simp_all add: service_new_def)

lemma adopt_new:
  "adopt_handler i m r (actors(i \<mapsto> service_new kind)) =
     Inr (Some (i, 1), actors(i \<mapsto> (service_new kind)\<lparr>registry := \<lparr>rpcs = [1 \<mapsto> Some (make_handler m r)], tag = 2\<rparr>\<rparr>))"
  by (simp add: adopt_handler_def adopt_def registry_new_def)

lemma method_which: "method_of r = Some m \<Longrightarrow> req_which r = 1 \<or> req_which r = 2"
  by (auto simp: method_of_def split: if_splits)

lemma which_domain:
  "domain_type (resolve_rpc r) = Domain_local"
  "local_group (resolve_rpc r) = (if req_which r = 1 \<or> req_which r = 2 then Some Global_group else None)"
  by (simp_all add: resolve_rpc_def should_forward_def no_domain_def)

lemma reify_rpc_cases:
  assumes "req_which r = 1 \<or> req_which r = 2"
  shows "reify_rpc grp r actors =
    (if actors (target_of r) \<noteq> None then Inl Terminated
     else let kind = (if req_which r = 1 then User_service else Space_service) in
       case method_of r of
         None \<Rightarrow> Inr (None, actors(target_of r \<mapsto> service_new kind))
       | Some m \<Rightarrow> adopt_handler (target_of r) m r (actors(target_of r \<mapsto> service_new kind)))"
  using assms
  by (auto simp: reify_rpc_def get_or_create_actor_def target_of_def method_of_def Let_def split: option.split)

text \<open>What the dispatcher does with a request: it stops the program when the target already has an actor or the kind of
  request is not known.\<close>

theorem handle_request_cases:
  "handle_request r actors =
    (if req_which r \<noteq> 1 \<and> req_which r \<noteq> 2 then Inl Undefined
     else if actors (target_of r) \<noteq> None then Inl Terminated
     else case method_of r of None \<Rightarrow> Inl Undefined
          | Some m \<Rightarrow> Inr (actors(target_of r \<mapsto> armed_service m r)))"
  by (auto simp: handle_request_def which_domain reify_rpc_cases Let_def adopt_new set_on_complete_def execute_def post_def
      armed_service_def split: option.split)

lemma run_armed:
  assumes "method_of r = Some m"
  shows "\<exists>a. actor_run_once run_rpc (armed_service m r) = Inr (a, [no_packet\<lparr>responses := [answer_of r]\<rparr>]) \<and>
    work_list a = [] \<and> \<not> locked a"
proof -
  have "handler_response (invoke_method ((make_handler m r)\<lparr>on_complete := True\<rparr>))\<lparr>resp_error := Some Error_success\<rparr> = answer_of r"
    using assms by (cases m) (auto simp: invoke_method_def make_handler_def answer_of_def no_response_def service_Auth_def
      service_Get_def service_Ping_def service_Join_def Let_def)
  then show ?thesis
    by (simp add: actor_run_once_def armed_service_def service_new_def run_rpc_def complete_def Let_def invoke_method_def)
qed

section \<open>Requests and answers\<close>

definition grants :: "response \<Rightarrow> bool" where
  "grants r = (resp_which r = 1 \<and> uresp_which (resp_user r) = 1 \<and> auth_token (resp_user r) = ''guhjob'')"

text \<open>A handled request has an actor of its own, which either still has to run it or has answered it.\<close>

definition request_state :: "rpc_system \<Rightarrow> request \<Rightarrow> bool" where
  "request_state s r \<longleftrightarrow>
     (\<exists>m. method_of r = Some m \<and> pool s (target_of r) = Some (armed_service m r) \<and> target_of r \<notin> fst ` set (answered s)) \<or>
     (\<exists>a. pool s (target_of r) = Some a \<and> work_list a = [] \<and> (target_of r, answer_of r) \<in> set (answered s))"

definition rpc_ok :: "rpc_system \<Rightarrow> bool" where
  "rpc_ok s \<longleftrightarrow>
     distinct (map target_of (handled s)) \<and>
     dom (pool s) = target_of ` set (handled s) \<and>
     (\<forall>r\<in>set (handled s). request_state s r) \<and>
     distinct (map fst (answered s)) \<and>
     set (answered s) \<subseteq> (\<lambda>r. (target_of r, answer_of r)) ` set (handled s) \<and>
     (\<forall>p\<in>set (from_server s). length (responses p) = 1) \<and>
     authenticated s + length (filter (\<lambda>p. grants (last (responses p))) (from_server s)) =
       length (filter (\<lambda>a. grants (snd a)) (answered s)) \<and>
     sent s = handled s @ handling s @ concat (map requests (from_device s))"

lemma rpc_ok_answered: "rpc_ok s \<Longrightarrow> fst ` set (answered s) \<subseteq> target_of ` set (handled s)"
  unfolding rpc_ok_def by (elim conjE, drule image_mono[of "set (answered s)" _ fst]) (simp add: image_image)

lemma rpc_ok_start: "rpc_ok rpc_start"
  by (simp add: rpc_ok_def rpc_start_def)

lemma rpc_ok_send: "rpc_ok s \<Longrightarrow> rpc_ok (device_send p s)"
  by (auto simp: rpc_ok_def device_send_def channel_push_def request_state_def)

lemma rpc_ok_recv:
  assumes "rpc_ok s" "handling s = []"
  shows "rpc_ok (server_recv s)"
proof (cases "from_device s")
  case (Cons p c)
  then show ?thesis using assms by (simp add: rpc_ok_def server_recv_def channel_pop_def request_state_def)
qed (use assms in \<open>simp add: server_recv_def channel_pop_def\<close>)

lemma rpc_ok_handle:
  assumes "rpc_ok s" "stopped (server_handle s) = None" "stopped s = None"
  shows "rpc_ok (server_handle s)"
proof (cases "handling s")
  case (Cons r rs)
  with assms(2) obtain actors where h: "handle_request r (pool s) = Inr actors"
    by (simp add: server_handle_def split: sum.splits)
  then obtain m where m: "method_of r = Some m" and free: "pool s (target_of r) = None"
    and actors: "actors = (pool s)(target_of r \<mapsto> armed_service m r)"
    by (auto simp: handle_request_cases split: if_splits option.splits)
  let ?t = "s\<lparr>pool := (pool s)(target_of r \<mapsto> armed_service m r), handling := rs, handled := handled s @ [r]\<rparr>"
  have t: "server_handle s = ?t"
    using Cons h actors by (simp add: server_handle_def)
  have new: "target_of r \<notin> target_of ` set (handled s)" using free assms(1) by (auto simp: rpc_ok_def domIff)
  have "target_of r \<notin> fst ` set (answered s)" using new rpc_ok_answered[OF assms(1)] by (metis subsetD)
  then have "request_state ?t r" using m by (simp add: request_state_def)
  moreover have "request_state ?t x" if "x \<in> set (handled s)" for x
  proof -
    have "target_of x \<in> target_of ` set (handled s)" using that by simp
    then have "target_of x \<noteq> target_of r" using new by metis
    then show ?thesis using that assms(1) by (simp add: rpc_ok_def request_state_def)
  qed
  ultimately have "\<forall>x\<in>set (handled ?t). request_state ?t x" by simp
  then show ?thesis using assms(1) new Cons by (simp add: rpc_ok_def t subset_insertI2 image_insert subset_iff)
qed (use assms in \<open>simp add: server_handle_def\<close>)

lemma service_turn_armed:
  assumes "rpc_ok s" "pool s i = Some a" "work_list a \<noteq> []"
  shows "\<exists>r m b. r \<in> set (handled s) \<and> i = target_of r \<and> method_of r = Some m \<and> work_list b = [] \<and>
    i \<notin> fst ` set (answered s) \<and>
    service_turn i s = s\<lparr>pool := (pool s)(i \<mapsto> b), from_server := from_server s @ [no_packet\<lparr>responses := [answer_of r]\<rparr>],
      answered := answered s @ [(i, answer_of r)]\<rparr>"
proof -
  have "i \<in> dom (pool s)" using assms(2) by blast
  then obtain r where r: "r \<in> set (handled s)" "i = target_of r" using assms(1) by (auto simp: rpc_ok_def)
  then have "request_state s r" using assms(1) by (simp add: rpc_ok_def)
  then obtain m where m: "method_of r = Some m" "a = armed_service m r" "i \<notin> fst ` set (answered s)"
    using assms(2,3) r(2) by (auto simp: request_state_def)
  then obtain b where "actor_run_once run_rpc a = Inr (b, [no_packet\<lparr>responses := [answer_of r]\<rparr>])" "work_list b = []"
    using run_armed by blast
  then show ?thesis using r m assms(2) by (intro exI[of _ r] exI[of _ m] exI[of _ b]) (simp add: service_turn_def channel_push_def)
qed

lemma rpc_ok_turn:
  assumes "rpc_ok s" "pool s i = Some a" "work_list a \<noteq> []"
  shows "rpc_ok (service_turn i s)"
proof -
  obtain r m b where r: "r \<in> set (handled s)" "i = target_of r" "work_list b = []" "i \<notin> fst ` set (answered s)"
    and t: "service_turn i s = s\<lparr>pool := (pool s)(i \<mapsto> b), from_server := from_server s @ [no_packet\<lparr>responses := [answer_of r]\<rparr>],
      answered := answered s @ [(i, answer_of r)]\<rparr>"
    using service_turn_armed[OF assms] by blast
  let ?t = "s\<lparr>pool := (pool s)(i \<mapsto> b), from_server := from_server s @ [no_packet\<lparr>responses := [answer_of r]\<rparr>],
      answered := answered s @ [(i, answer_of r)]\<rparr>"
  have "request_state ?t x" if "x \<in> set (handled s)" for x
  proof (cases "x = r")
    case False
    then have "target_of x \<noteq> i" using that r(1,2) assms(1) by (auto simp: rpc_ok_def distinct_map inj_on_def)
    then show ?thesis using that assms(1) unfolding rpc_ok_def by (auto simp: request_state_def)
  qed (use r in \<open>simp add: request_state_def\<close>)
  then have "\<forall>x\<in>set (handled ?t). request_state ?t x" by simp
  then show ?thesis using assms(1) r unfolding rpc_ok_def t by (intro conjI) auto
qed

lemma rpc_ok_device:
  assumes "rpc_ok s" "from_server s \<noteq> []" "stopped s = None"
  shows "rpc_ok (device_recv s) \<and> stopped (device_recv s) = None"
proof -
  obtain p c where c: "from_server s = p # c" using assms(2) by (cases "from_server s") auto
  then have "length (responses p) = 1" using assms(1) by (simp add: rpc_ok_def)
  then have "is_authenticated p = Inr (grants (last (responses p)))" by (cases "responses p") (simp_all add: is_authenticated_def grants_def Let_def)
  then show ?thesis using assms(1,3) c by (auto simp: rpc_ok_def device_recv_def channel_pop_def request_state_def)
qed

lemma stopped_fields [simp]:
  "stopped (device_send p s) = stopped s" "stopped (server_recv s) = stopped s"
  by (simp_all add: device_send_def server_recv_def split: prod.split)

lemma rpc_ok_work: "rpc_work s t \<Longrightarrow> rpc_ok s \<Longrightarrow> stopped t = None \<Longrightarrow> rpc_ok t"
  by (erule rpc_workE) (simp_all add: rpc_ok_recv rpc_ok_handle rpc_ok_turn rpc_ok_device)

lemma rpc_work_running: "rpc_work s t \<Longrightarrow> stopped s = None"
  by (auto elim: rpc_workE)

lemma rpc_reachable_ok: "rpc_reachable s \<Longrightarrow> stopped s = None \<Longrightarrow> rpc_ok s"
proof (induction rule: rpc_reachable.induct)
  case (reach_step s t)
  from reach_step.hyps(2) show ?case
  proof (cases rule: rpc_step.cases)
    case step_work
    show ?thesis by (rule rpc_ok_work[OF step_work reach_step.IH[OF rpc_work_running[OF step_work]] reach_step.prems])
  next
    case (step_send p)
    then show ?thesis using reach_step.IH rpc_ok_send by blast
  qed
qed (simp add: rpc_ok_start)

text \<open>C19: While the program runs, the requests are handled in the order in which the device sends them, a response is the answer
  to a request that has been handled, no request is answered twice, and the device prints its line once for every right
  password whose response it has taken.\<close>

theorem responses_answer_requests:
  assumes "rpc_reachable s" "stopped s = None"
  shows "sent s = handled s @ handling s @ concat (map requests (from_device s)) \<and>
    distinct (map target_of (handled s)) \<and> distinct (map fst (answered s)) \<and>
    set (answered s) \<subseteq> (\<lambda>r. (target_of r, answer_of r)) ` set (handled s) \<and>
    authenticated s + length (filter (\<lambda>p. grants (last (responses p))) (from_server s)) =
      length (filter (\<lambda>a. grants (snd a)) (answered s))"
  using rpc_reachable_ok[OF assms] by (simp add: rpc_ok_def)

section \<open>Work ends\<close>

definition pending :: "rpc_system \<Rightarrow> nat" where
  "pending s = card {i. \<exists>a. pool s i = Some a \<and> work_list a \<noteq> []}"

definition work_left :: "rpc_system \<Rightarrow> nat" where
  "work_left s = 3 * length (concat (map requests (from_device s))) + length (from_device s) + 3 * length (handling s) +
     2 * pending s + length (from_server s) + (if stopped s = None then 1 else 0)"

lemma rpc_ok_finite: "rpc_ok s \<Longrightarrow> finite {i. \<exists>a. pool s i = Some a \<and> work_list a \<noteq> []}"
  by (rule finite_subset[of _ "dom (pool s)"]) (auto simp: rpc_ok_def)

lemma work_left_handle:
  assumes "rpc_ok s" "handling s \<noteq> []" "stopped s = None"
  shows "work_left (server_handle s) < work_left s"
proof -
  obtain r rs where c: "handling s = r # rs" using assms(2) by (cases "handling s") auto
  show ?thesis
  proof (cases "handle_request r (pool s)")
    case (Inl e)
    then show ?thesis using c assms(3) by (simp add: server_handle_def work_left_def pending_def)
  next
    case (Inr actors)
    then obtain m where "actors = (pool s)(target_of r \<mapsto> armed_service m r)"
      by (auto simp: handle_request_cases split: if_splits option.splits)
    then have sub: "{i. \<exists>a. actors i = Some a \<and> work_list a \<noteq> []} \<subseteq> insert (target_of r) {i. \<exists>a. pool s i = Some a \<and> work_list a \<noteq> []}"
      by auto
    have "card {i. \<exists>a. actors i = Some a \<and> work_list a \<noteq> []} \<le> Suc (pending s)"
      unfolding pending_def using rpc_ok_finite[OF assms(1)]
      by (intro order_trans[OF card_mono[OF _ sub]]) (simp_all add: card_insert_if)
    then have "pending (server_handle s) \<le> Suc (pending s)"
      using Inr c by (simp add: pending_def server_handle_def)
    then show ?thesis using Inr c assms(3) by (simp add: server_handle_def work_left_def)
  qed
qed

lemma work_left_turn:
  assumes "rpc_ok s" "pool s i = Some a" "work_list a \<noteq> []"
  shows "work_left (service_turn i s) < work_left s"
proof -
  obtain r m b where b: "work_list b = []"
    and t: "service_turn i s = s\<lparr>pool := (pool s)(i \<mapsto> b), from_server := from_server s @ [no_packet\<lparr>responses := [answer_of r]\<rparr>],
      answered := answered s @ [(i, answer_of r)]\<rparr>"
    using service_turn_armed[OF assms] by blast
  have "{j. \<exists>a. pool (service_turn i s) j = Some a \<and> work_list a \<noteq> []} = {j. \<exists>a. pool s j = Some a \<and> work_list a \<noteq> []} - {i}"
    using b by (auto simp: t)
  moreover have "i \<in> {j. \<exists>a. pool s j = Some a \<and> work_list a \<noteq> []}" using assms by blast
  ultimately have "pending (service_turn i s) < pending s"
    unfolding pending_def using card_Diff1_less[OF rpc_ok_finite[OF assms(1)]] by simp
  then show ?thesis by (simp add: work_left_def t)
qed

lemma work_left_decreases: "rpc_work s t \<Longrightarrow> rpc_ok s \<Longrightarrow> work_left t < work_left s"
proof (erule rpc_workE)
  assume "t = server_recv s" "handling s = []" "from_device s \<noteq> []"
  then show "work_left t < work_left s"
    by (cases "from_device s") (simp_all add: server_recv_def channel_pop_def work_left_def pending_def)
next
  assume "rpc_ok s" "t = device_recv s" "stopped s = None" "from_server s \<noteq> []"
  then show "work_left t < work_left s"
    using rpc_ok_device[of s]
    by (cases "from_server s") (auto simp: device_recv_def channel_pop_def work_left_def pending_def split: sum.splits)
qed (simp_all add: work_left_handle work_left_turn)

text \<open>C20: Every step of the work leaves less of it, so the program comes to rest; and when it rests while it runs, every request
  that the device has sent is answered and every response has been taken.\<close>

theorem rpc_comes_to_rest:
  assumes "rpc_reachable s" "stopped s = None"
  shows "(\<forall>t. rpc_work s t \<longrightarrow> work_left t < work_left s) \<and>
    ((\<nexists>t. rpc_work s t) \<longrightarrow>
       handled s = sent s \<and> set (answered s) = (\<lambda>r. (target_of r, answer_of r)) ` set (sent s) \<and>
       authenticated s = length (filter (\<lambda>a. grants (snd a)) (answered s)))"
proof -
  have ok: "rpc_ok s" by (rule rpc_reachable_ok[OF assms])
  have "handled s = sent s \<and> set (answered s) = (\<lambda>r. (target_of r, answer_of r)) ` set (sent s) \<and>
       authenticated s = length (filter (\<lambda>a. grants (snd a)) (answered s))" if rest: "\<nexists>t. rpc_work s t"
  proof -
    have "handling s = []" using rest work_handle[OF assms(2)] by blast
    moreover have "from_device s = []" using rest work_recv[OF assms(2) \<open>handling s = []\<close>] by blast
    moreover have "from_server s = []" using rest work_device[OF assms(2)] by blast
    moreover have "(target_of r, answer_of r) \<in> set (answered s)" if r: "r \<in> set (handled s)" for r
    proof -
      have "request_state s r" using ok r by (simp add: rpc_ok_def)
      moreover have "work_list a = []" if "pool s (target_of r) = Some a" for a
        using rest work_service[OF assms(2) that] by blast
      moreover have "work_list (armed_service m r) \<noteq> []" for m by (simp add: armed_service_def)
      ultimately show ?thesis unfolding request_state_def by blast
    qed
    ultimately show ?thesis using ok by (auto simp: rpc_ok_def)
  qed
  then show ?thesis using work_left_decreases[OF _ ok] by blast
qed

section \<open>The program\<close>

text \<open>What \<open>main\<close> does: the packet is sent, taken, handled and run, and the device prints its line once.\<close>

definition main_handled :: rpc_system where
  "main_handled = server_handle (server_recv (device_send main_packet rpc_start))"

definition main_end :: rpc_system where
  "main_end = device_recv (service_turn ''bob'' main_handled)"

lemmas main_defs = main_packet_def no_packet_def no_request_def no_id_def device_send_def channel_push_def

lemma main_handle:
  "main_handled =
     (let r = hd (requests main_packet)
      in rpc_start\<lparr>pool := [''bob'' \<mapsto> armed_service User_auth r], server_packet := main_packet, device_packet := main_packet,
           sent := [r], handled := [r]\<rparr>)"
  by (simp add: main_handled_def rpc_start_def main_defs server_recv_def channel_pop_def server_handle_def handle_request_cases
      target_of_def method_of_def Let_def)

lemma main_reach: "rpc_reachable main_handled"
proof -
  have "rpc_reachable (device_send main_packet rpc_start)"
    by (intro reach_step[OF reach_start] step_send) (simp add: rpc_start_def)
  moreover have "rpc_work (device_send main_packet rpc_start) (server_recv (device_send main_packet rpc_start))"
    by (rule work_recv) (simp_all add: rpc_start_def main_defs)
  moreover have "rpc_work (server_recv (device_send main_packet rpc_start)) main_handled" unfolding main_handled_def
    by (rule work_handle) (simp_all add: rpc_start_def main_defs server_recv_def channel_pop_def)
  ultimately show ?thesis by (meson reach_step step_work)
qed

lemma main_authenticates:
  "rpc_reachable main_end" "stopped main_end = None" "authenticated main_end = 1" "\<nexists>t. rpc_work main_end t"
proof -
  let ?r = "hd (requests main_packet)"
  let ?s4 = "service_turn ''bob'' main_handled"
  have m: "method_of ?r = Some User_auth" by (simp add: main_defs method_of_def)
  obtain b where b: "actor_run_once run_rpc (armed_service User_auth ?r) = Inr (b, [no_packet\<lparr>responses := [answer_of ?r]\<rparr>])"
    "work_list b = []"
    using run_armed[OF m] by blast
  have s3: "pool main_handled = [''bob'' \<mapsto> armed_service User_auth ?r]" "stopped main_handled = None"
    "from_server main_handled = []" "authenticated main_handled = 0" "handling main_handled = []" "from_device main_handled = []"
    unfolding main_handle by (simp_all add: Let_def rpc_start_def)
  have s4: "from_server ?s4 = [no_packet\<lparr>responses := [answer_of ?r]\<rparr>]" "stopped ?s4 = None" "authenticated ?s4 = 0"
    "handling ?s4 = []" "from_device ?s4 = []" "pool ?s4 = [''bob'' \<mapsto> b]"
    using s3 b by (simp_all add: service_turn_def channel_push_def)
  have "answer_of ?r = \<lparr>resp_which = 1, resp_user = \<lparr>uresp_which = 1, auth_token = ''guhjob'', get_name = '''', ping_error = 0\<rparr>,
      resp_space = \<lparr>sresp_which = 0, join_error = 0\<rparr>, resp_error = Some Error_success\<rparr>"
    unfolding answer_of_def m by (simp add: main_defs Let_def)
  then have e: "authenticated main_end = 1" "stopped main_end = None" "from_server main_end = []" "handling main_end = []"
    "from_device main_end = []" "pool main_end = [''bob'' \<mapsto> b]"
    unfolding main_end_def using s4
    by (simp_all add: device_recv_def channel_pop_def is_authenticated_def no_packet_def Let_def)
  have "rpc_work main_handled ?s4" using s3 by (intro work_service) (auto simp: armed_service_def)
  moreover have "rpc_work ?s4 main_end" unfolding main_end_def using s4 by (intro work_device) auto
  ultimately show "rpc_reachable main_end" using main_reach by (meson reach_step step_work)
  show "\<nexists>t. rpc_work main_end t" using e b(2) by (auto elim!: rpc_workE split: if_splits)
  show "stopped main_end = None" "authenticated main_end = 1" by (rule e)+
qed

theorem responses_answer_requests_witness:
  "distinct (map target_of (handled main_end)) \<and> length (filter (\<lambda>a. grants (snd a)) (answered main_end)) \<ge> 1"
  using responses_answer_requests[OF main_authenticates(1,2)] main_authenticates(3) by linarith

theorem rpc_comes_to_rest_witness:
  "handled main_end = sent main_end \<and> length (filter (\<lambda>a. grants (snd a)) (answered main_end)) = 1"
  using rpc_comes_to_rest[OF main_authenticates(1,2)] main_authenticates(3,4) by simp

end
