(* ===== verification/Ex_Crypto.thy ===== *)
theory Ex_Crypto
  imports Prelude
begin

text \<open>
  The encryption of a text with a password, \<open>exercises/crypto.cpp\<close>: its guard, base64, views of memory, passwords and
  their bytes, and the loops of \<open>main\<close> over an encryptor and a decryptor. OpenSSL is the record \<open>evp\<close> of the
  functions that the program calls; what is assumed of the number of bytes an encryption writes is the predicate
  \<open>encrypts_blocks\<close>. Memory is a map from addresses to bytes, with no byte where nothing is allocated;
  \<open>char\<close> is signed.
\<close>

section \<open>guard_ptr\<close>

text \<open>A guard is the pointer it holds; what it does on exit is the list of the pointers it frees.\<close>

type_synonym guard_ptr = "nat option"

definition guard_bool :: "guard_ptr \<Rightarrow> bool" where
  "guard_bool g = (g \<noteq> None)"

definition guard_release :: "guard_ptr \<Rightarrow> nat option \<times> guard_ptr" where
  "guard_release g = (g, None)"

definition guard_destroy :: "guard_ptr \<Rightarrow> nat list" where
  "guard_destroy g = (case g of Some p \<Rightarrow> [p] | None \<Rightarrow> [])"

section \<open>base64\<close>

definition b64_table :: string where
  "b64_table = ''ABCDEFGHIJKLMNOPQRSTUVWXYZ'' @ ''abcdefghijklmnopqrstuvwxyz'' @ ''0123456789+/''"

text \<open>A \<open>char\<close> is promoted to an \<open>int\<close>, so its sign fills the bits above.\<close>

definition promote :: "u8 \<Rightarrow> u32" where
  "promote c = scast c"

definition sextet :: "u32 \<Rightarrow> nat \<Rightarrow> char" where
  "sextet accum k = b64_table ! unat (drop_bit k accum AND 0x3f)"

definition sextets :: "u32 \<Rightarrow> string" where
  "sextets accum = [sextet accum 18, sextet accum 12, sextet accum 6, sextet accum 0]"

text \<open>Shifting an \<open>int\<close> that is negative to the left is not defined, be it by no place.\<close>

definition shift_char :: "u8 \<Rightarrow> nat \<Rightarrow> u32 outcome" where
  "shift_char c k = (if sint (promote c) < 0 then Inl Undefined else Inr (push_bit k (promote c)))"

text \<open>The loop; \<open>pad\<close> has no value before the first turn.\<close>

fun base64_loop :: "u8 list \<Rightarrow> string \<Rightarrow> nat option \<Rightarrow> (string \<times> nat option) outcome" where
  "base64_loop [] result pad = Inr (result, pad)"
| "base64_loop [a] result pad =
     and_then (shift_char a 16) (\<lambda>x. Inr (result @ sextets x, Some 2))"
| "base64_loop [a, b] result pad =
     and_then (shift_char a 16) (\<lambda>x. and_then (shift_char b 8) (\<lambda>y. Inr (result @ sextets (x OR y), Some 1)))"
| "base64_loop (a # b # c # rest) result pad =
     and_then (shift_char a 16) (\<lambda>x. and_then (shift_char b 8) (\<lambda>y. and_then (shift_char c 0) (\<lambda>z.
     base64_loop rest (result @ sextets (x OR y OR z)) (Some 0))))"

definition base64_encode :: "u8 list \<Rightarrow> string outcome" where
  "base64_encode input =
     and_then (base64_loop input [] None) (\<lambda>(result, padding).
     case padding of
       None \<Rightarrow> Inl Undefined
     | Some pad \<Rightarrow>
         (let result = (if pad \<ge> 1 then result[length result - 1 := CHR ''=''] else result)
          in Inr (if pad \<ge> 2 then result[length result - 2 := CHR ''=''] else result)))"

section \<open>Views of memory\<close>

record buffer =
  base :: nat
  bsize :: u64

definition buffer_bool :: "buffer \<Rightarrow> bool" where
  "buffer_bool b = (base b \<noteq> 0)"

definition buffer_begin :: "buffer \<Rightarrow> nat" where
  "buffer_begin b = base b"

definition buffer_end :: "buffer \<Rightarrow> nat" where
  "buffer_end b = base b + unat (bsize b)"

text \<open>An \<open>int\<close> that is added to a size is converted; added to a pointer it moves it.\<close>

type_synonym s32 = "32 word"

definition grow :: "buffer \<Rightarrow> s32 \<Rightarrow> buffer" where
  "grow b n = \<lparr>base = base b, bsize = bsize b + scast n\<rparr>"

definition slide :: "buffer \<Rightarrow> s32 \<Rightarrow> buffer" where
  "slide b n = \<lparr>base = nat (int (base b) + sint n), bsize = bsize b\<rparr>"

definition advance :: "buffer \<Rightarrow> s32 \<Rightarrow> buffer" where
  "advance b n = \<lparr>base = nat (int (base b) + sint n), bsize = bsize b - scast n\<rparr>"

definition align_size :: "buffer \<Rightarrow> s32 \<Rightarrow> buffer" where
  "align_size b alignment = \<lparr>base = base b, bsize = bsize b - bsize b mod scast alignment\<rparr>"

type_synonym memory = "nat \<Rightarrow> u8 option"

definition read_mem :: "memory \<Rightarrow> nat \<Rightarrow> nat \<Rightarrow> u8 list outcome" where
  "read_mem m a n =
     (if \<forall>i<n. m (a + i) \<noteq> None then Inr (map (\<lambda>i. the (m (a + i))) [0..<n]) else Inl Out_of_bounds)"

definition write_mem :: "memory \<Rightarrow> nat \<Rightarrow> u8 list \<Rightarrow> memory outcome" where
  "write_mem m a bs =
     (if \<forall>i<length bs. m (a + i) \<noteq> None
      then Inr (\<lambda>x. if a \<le> x \<and> x < a + length bs then Some (bs ! (x - a)) else m x)
      else Inl Out_of_bounds)"

definition copy_buffer :: "buffer \<Rightarrow> buffer \<Rightarrow> memory \<Rightarrow> (u64 \<times> memory) outcome" where
  "copy_buffer source destination m =
     (let count = min (bsize source) (bsize destination)
      in and_then (read_mem m (base source) (unat count)) (\<lambda>bs.
         and_then (write_mem m (base destination) bs) (\<lambda>m. Inr (count, m))))"

definition copy_count :: "buffer \<Rightarrow> buffer \<Rightarrow> u64 \<Rightarrow> memory \<Rightarrow> (u64 \<times> memory) outcome" where
  "copy_count source destination count m =
     (let count = min (min count (bsize destination)) (bsize source)
      in and_then (read_mem m (base source) (unat count)) (\<lambda>bs.
         and_then (write_mem m (base destination) bs) (\<lambda>m. Inr (count, m))))"

definition print_buffer :: "buffer \<Rightarrow> memory \<Rightarrow> u8 list outcome" where
  "print_buffer b m = read_mem m (buffer_begin b) (buffer_end b - buffer_begin b)"

section \<open>Blocks and passwords\<close>

text \<open>A byte that has not been written has no value.\<close>

definition block_random :: "nat \<Rightarrow> (nat \<Rightarrow> u8) \<Rightarrow> u8 list" where
  "block_random bits device = map device [0..<bits div 8]"

definition block_copy :: "bool \<Rightarrow> nat \<Rightarrow> u8 list \<Rightarrow> u8 option list outcome" where
  "block_copy debug bits buf =
     and_then (assertf debug (length buf \<ge> bits div 8)) (\<lambda>_.
     if length buf > bits div 8 then Inl Out_of_bounds
     else Inr (map Some buf @ replicate (bits div 8 - length buf) None))"

definition block_destroy :: "u8 list \<Rightarrow> u8 list" where
  "block_destroy bs = replicate (length bs) 0"

text \<open>The enumerations have a byte below them, and any byte may be cast to them.\<close>

record password =
  version :: u8
  algorithm :: u8
  mode :: u8
  key_bytes :: "u8 list"
  iv_bytes :: "u8 list"

definition password_new :: "(nat \<Rightarrow> u8) \<Rightarrow> (nat \<Rightarrow> u8) \<Rightarrow> password" where
  "password_new device1 device2 =
     \<lparr>version = 1, algorithm = 1, mode = 1, key_bytes = block_random 256 device1, iv_bytes = block_random 128 device2\<rparr>"

definition password_ok :: "password \<Rightarrow> bool" where
  "password_ok p = (length (key_bytes p) = 32 \<and> length (iv_bytes p) = 16)"

definition password_serialize :: "password \<Rightarrow> u8 list" where
  "password_serialize p = [version p, algorithm p, mode p] @ key_bytes p @ iv_bytes p"

definition password_deserialize :: "u8 list \<Rightarrow> password \<Rightarrow> password outcome" where
  "password_deserialize input p =
     and_then (checked_nth input 0) (\<lambda>v.
     and_then (checked_nth input 1) (\<lambda>a.
     and_then (checked_nth input 2) (\<lambda>m.
     (let key = length (key_bytes p); iv = length (iv_bytes p)
      in if length input < 3 + key + iv then Inl Out_of_bounds
         else Inr \<lparr>version = v, algorithm = a, mode = m, key_bytes = take key (drop 3 input),
                iv_bytes = take iv (drop (3 + key) input)\<rparr>))))"

definition password_to_string :: "password \<Rightarrow> string outcome" where
  "password_to_string p = base64_encode (password_serialize p)"

definition password_equal :: "password \<Rightarrow> password \<Rightarrow> bool" where
  "password_equal a b =
     (version a = version b \<and> algorithm a = algorithm b \<and> mode a = mode b \<and> key_bytes a = key_bytes b \<and>
      iv_bytes a = iv_bytes b)"

lemma deserialize_serialize:
  "password_ok p \<Longrightarrow> password_ok q \<Longrightarrow> password_deserialize (password_serialize p) q = Inr p"
  by (simp add: password_serialize_def password_deserialize_def password_ok_def checked_nth_def Let_def)

text \<open>Writing a password and reading it over any other gives it back; a shorter input is read past its end.\<close>

theorem password_round_trip:
  assumes "password_ok p" "password_ok q"
  shows "length (password_serialize p) = 51 \<and> password_deserialize (password_serialize p) q = Inr p \<and>
    password_equal p p \<and> (\<forall>input. (length input < 51) = (password_deserialize input q = Inl Out_of_bounds))"
proof -
  have "password_deserialize input q = Inl Out_of_bounds \<longleftrightarrow> length input < 51" for input
    using assms(2) by (auto simp: password_deserialize_def password_ok_def checked_nth_def Let_def)
  then show ?thesis
    using assms deserialize_serialize[OF assms] by (simp add: password_serialize_def password_ok_def password_equal_def)
qed

theorem password_round_trip_witness:
  "password_deserialize (password_serialize (password_new (\<lambda>i. of_nat i) (\<lambda>_. 200))) (password_new (\<lambda>_. 0) (\<lambda>_. 0)) =
     Inr (password_new (\<lambda>i. of_nat i) (\<lambda>_. 200))"
  using password_round_trip[of "password_new (\<lambda>i. of_nat i) (\<lambda>_. 200)" "password_new (\<lambda>_. 0) (\<lambda>_. 0)"]
  by (simp add: password_ok_def password_new_def block_random_def)

section \<open>base64 read back\<close>

text \<open>A decoder, written from the definition of the encoding.\<close>

definition sextet_value :: "char \<Rightarrow> nat" where
  "sextet_value c = length (takeWhile (\<lambda>d. d \<noteq> c) b64_table)"

definition group_value :: "char \<Rightarrow> char \<Rightarrow> char \<Rightarrow> char \<Rightarrow> nat" where
  "group_value p q r s = ((sextet_value p * 64 + sextet_value q) * 64 + sextet_value r) * 64 + sextet_value s"

fun b64_decode :: "string \<Rightarrow> u8 list" where
  "b64_decode (p # q # r # s # rest) =
     (if r = CHR ''='' then [of_nat ((sextet_value p * 64 + sextet_value q) div 16)]
      else if s = CHR ''='' then
        (let n = (sextet_value p * 64 + sextet_value q) * 64 + sextet_value r
         in [of_nat (n div 1024), of_nat (n div 4 mod 256)])
      else (let n = group_value p q r s
            in of_nat (n div 65536) # of_nat (n div 256 mod 256) # of_nat (n mod 256) # b64_decode rest))"
| "b64_decode _ = []"

lemma length_b64_table: "length b64_table = 64"
  by (simp add: b64_table_def)

lemma distinct_b64_table: "distinct b64_table"
  by (simp add: b64_table_def)

lemma pad_not_in_table: "CHR ''='' \<notin> set b64_table"
  by (simp add: b64_table_def)

lemma sextet_value_nth [simp]:
  assumes "i < 64"
  shows "sextet_value (b64_table ! i) = i"
proof -
  have "takeWhile (\<lambda>d. d \<noteq> b64_table ! i) b64_table = take i b64_table"
    using assms distinct_b64_table
    by (intro takeWhile_eq_take_P_nth) (auto simp: length_b64_table nth_eq_iff_index_eq)
  then show ?thesis using assms by (simp add: sextet_value_def length_b64_table)
qed

lemma table_not_pad [simp]: "i < 64 \<Longrightarrow> b64_table ! i \<noteq> CHR ''=''"
  by (metis length_b64_table nth_mem pad_not_in_table)

lemma promote_plain: "unat c < 128 \<Longrightarrow> promote c = of_nat (unat c)"
proof -
  assume "unat c < 128"
  then have "int (unat c) < int (2 ^ 7)" unfolding of_nat_less_iff by simp
  then have "uint c < 2 ^ 7" by simp
  moreover have "- (2 ^ 7) \<le> uint c" by (rule order_trans[OF _ uint_ge_0]) simp
  ultimately have "sint c = uint c" unfolding sint_uint by (simp add: signed_take_bit_int_eq_self)
  then show ?thesis by (simp add: promote_def scast_eq)
qed

lemma unat_sextet:
  assumes "n < 2 ^ 32"
  shows "unat (drop_bit k (of_nat n :: u32) AND 0x3f) = n div 2 ^ k mod 64"
proof -
  have "(0x3f :: u32) = mask 6" by (simp add: mask_eq_exp_minus_1)
  then have "unat (drop_bit k (of_nat n :: u32) AND 0x3f) = unat (take_bit 6 (drop_bit k (of_nat n :: u32)))"
    by (simp add: take_bit_eq_mask)
  also have "\<dots> = unat (drop_bit k (of_nat n :: u32)) mod 64" by (simp add: take_bit_eq_mod unat_mod)
  also have "\<dots> = n div 2 ^ k mod 64" unfolding unat_drop_bit_eq
    using assms by (simp add: unat_of_nat_small drop_bit_eq_div)
  finally show ?thesis .
qed

lemma sextets_of_nat:
  "n < 2 ^ 24 \<Longrightarrow> sextets (of_nat n) =
     [b64_table ! (n div 262144 mod 64), b64_table ! (n div 4096 mod 64), b64_table ! (n div 64 mod 64), b64_table ! (n mod 64)]"
  using unat_sextet[of n 0] by (simp add: sextets_def sextet_def unat_sextet)

lemma accum_plain:
  fixes a b c :: nat
  assumes "a < 256" "b < 256" "c < 256"
  shows "push_bit 16 (of_nat a :: u32) OR push_bit 8 (of_nat b) OR of_nat c = of_nat (a * 65536 + b * 256 + c)"
proof -
  have bits: "\<not> bit (of_nat x :: u32) k" if "x < 256" "8 \<le> k" for x k
  proof -
    have "x < 2 ^ k" using that power_increasing[OF that(2), of "2 :: nat"] by simp
    then show ?thesis using bit_unsigned_iff[where 'a = nat, of "of_nat x :: u32" k] that(1) by (auto simp: unat_of_nat_small bit_iff_odd[of x] dest: bit_imp_le_length)
  qed
  have "(push_bit 8 (of_nat b :: u32)) AND of_nat c = 0"
    using bits[OF assms(3)] by (auto intro!: bit_word_eqI simp: bit_simps)
  then have bc: "push_bit 8 (of_nat b :: u32) OR of_nat c = of_nat (b * 256 + c)"
    by (simp flip: disjunctive_add_eq_or add: push_bit_eq_mult mult.commute)
  have "push_bit 16 (of_nat a :: u32) AND (push_bit 8 (of_nat b) OR of_nat c) = 0"
    using bits[OF assms(2)] bits[OF assms(3)] by (auto intro!: bit_word_eqI simp: bit_simps)
  then have "push_bit 16 (of_nat a :: u32) OR (push_bit 8 (of_nat b) OR of_nat c) =
      push_bit 16 (of_nat a) + (push_bit 8 (of_nat b) OR of_nat c)"
    by (simp add: disjunctive_add_eq_or)
  then show ?thesis unfolding bc by (simp add: push_bit_eq_mult mult.commute or.assoc add.assoc)
qed

lemma group_value_nth:
  fixes n :: nat
  assumes "n < 2 ^ 24"
  shows "((n div 262144 mod 64 * 64 + n div 4096 mod 64) * 64 + n div 64 mod 64) * 64 + n mod 64 = n"
proof -
  have "n div 262144 < 64" using assms by (simp add: less_mult_imp_div_less)
  then have "n div 262144 mod 64 = n div 64 div 64 div 64" by (simp add: div_mult2_eq[symmetric])
  moreover have "n div 4096 mod 64 = n div 64 div 64 mod 64" by (simp add: div_mult2_eq[symmetric])
  ultimately show ?thesis by (simp add: div_mult_mod_eq)
qed

lemma decode_group:
  assumes "n < 2 ^ 24"
  shows "b64_decode (sextets (of_nat n) @ rest) =
    of_nat (n div 65536) # of_nat (n div 256 mod 256) # of_nat (n mod 256) # b64_decode rest"
proof -
  have "group_value (b64_table ! (n div 262144 mod 64)) (b64_table ! (n div 4096 mod 64)) (b64_table ! (n div 64 mod 64))
      (b64_table ! (n mod 64)) = n"
    using group_value_nth[OF assms] by (simp only: group_value_def sextet_value_nth mod_less_divisor zero_less_numeral)
  then show ?thesis using assms by (simp add: sextets_of_nat Let_def)
qed

lemma length_sextets [simp]: "length (sextets w) = 4"
  by (simp add: sextets_def)

text \<open>Bytes of plain characters.\<close>

definition plain_bytes :: "u8 list \<Rightarrow> bool" where
  "plain_bytes xs \<longleftrightarrow> (\<forall>x\<in>set xs. unat x < 128)"

text \<open>The loop on plain bytes, where no shift fails.\<close>

fun base64_groups :: "u8 list \<Rightarrow> string \<Rightarrow> nat option \<Rightarrow> string \<times> nat option" where
  "base64_groups [] result pad = (result, pad)"
| "base64_groups [a] result pad = (result @ sextets (push_bit 16 (promote a)), Some 2)"
| "base64_groups [a, b] result pad = (result @ sextets (push_bit 16 (promote a) OR push_bit 8 (promote b)), Some 1)"
| "base64_groups (a # b # c # rest) result pad =
     base64_groups rest (result @ sextets (push_bit 16 (promote a) OR push_bit 8 (promote b) OR promote c)) (Some 0)"

lemma shift_char_plain: "shift_char c k = (if unat c < 128 then Inr (push_bit k (promote c)) else Inl Undefined)"
proof -
  have r: "- 128 \<le> sint c" "sint c < 128" using sint_ge[of c] sint_lt[of c] by simp_all
  have "sint (promote c) = signed_take_bit 31 (sint c)" by (simp add: promote_def signed_scast_eq)
  also have "\<dots> = sint c" using r by (intro signed_take_bit_int_eq_self) simp_all
  finally have "sint (promote c) = sint c" .
  moreover have "sint c < 0 \<longleftrightarrow> \<not> unat c < 128"
  proof -
    have "int (unat c) = (if sint c < 0 then sint c + 256 else sint c)" using uint_of_sint[of c] by simp
    moreover have "int 128 = 128" by simp
    ultimately have "sint c < 0 \<longleftrightarrow> \<not> int (unat c) < int 128" using r by (cases "sint c < 0") simp_all
    then show ?thesis unfolding of_nat_less_iff .
  qed
  ultimately show ?thesis by (simp add: shift_char_def)
qed

lemma base64_loop_plain:
  "base64_loop xs result pad = (if plain_bytes xs then Inr (base64_groups xs result pad) else Inl Undefined)"
  by (induction xs result pad rule: base64_groups.induct) (auto simp: shift_char_plain plain_bytes_def)

text \<open>The result so far is kept in front, and \<open>pad\<close> is that of the last group.\<close>

lemma base64_groups_result:
  "base64_groups xs result pad =
     (result @ fst (base64_groups xs [] None), if xs = [] then pad else snd (base64_groups xs [] None))"
proof (induction "length xs" arbitrary: xs result pad rule: less_induct)
  case less
  show ?case
  proof (cases "(xs, result, pad)" rule: base64_groups.cases)
    case (4 a b c rest r p)
    then have shorter: "length rest < length xs" by simp
    show ?thesis
      using less[OF shorter, of "result @ sextets (push_bit 16 (promote a) OR push_bit 8 (promote b) OR promote c)" "Some 0"]
        less[OF shorter, of "sextets (push_bit 16 (promote a) OR push_bit 8 (promote b) OR promote c)" "Some 0"] 4
      by simp
  qed auto
qed

definition close_pad :: "nat \<Rightarrow> string \<Rightarrow> string" where
  "close_pad pad result =
     (let result = (if pad \<ge> 1 then result[length result - 1 := CHR ''=''] else result)
      in if pad \<ge> 2 then result[length result - 2 := CHR ''=''] else result)"

lemma base64_encode_close:
  "base64_encode input = (if plain_bytes input then
     (case base64_groups input [] None of (result, None) \<Rightarrow> Inl Undefined
     | (result, Some pad) \<Rightarrow> Inr (close_pad pad result)) else Inl Undefined)"
  by (auto simp: base64_encode_def base64_loop_plain close_pad_def Let_def split: prod.split option.split)

lemma close_pad_append:
  assumes "length ys \<ge> 2"
  shows "close_pad pad (xs @ ys) = xs @ close_pad pad ys"
proof -
  have "(xs @ zs)[length xs + length zs - Suc k := c] = xs @ zs[length zs - Suc k := c]" if "k < length zs" for zs c k
    using that by (subst list_update_append) (auto simp: not_less intro: arg_cong)
  note one = this[of 0] and two = this[of 1]
  have "ys \<noteq> []" using assms by auto
  then show ?thesis
    using one[of ys] two[of "ys[length ys - Suc 0 := CHR ''='']"] assms
    by (auto simp: close_pad_def Let_def numeral_2_eq_2)
qed

lemma encode_plain_group:
  assumes "unat a < 128" "unat b < 128" "unat c < 128"
  shows "\<exists>n. n < 2 ^ 24 \<and> n div 65536 = unat a \<and> n div 256 mod 256 = unat b \<and> n mod 256 = unat c \<and>
    push_bit 16 (promote a) OR push_bit 8 (promote b) OR promote c = of_nat n"
proof -
  let ?n = "unat a * 65536 + unat b * 256 + unat c"
  have "?n < 2 ^ 24" using assms by simp
  moreover have "?n div 65536 = unat a" using assms by simp
  moreover have "?n div 256 mod 256 = unat b"
  proof -
    have "?n = (unat a * 256 + unat b) * 256 + unat c" by simp
    then have "?n div 256 = unat a * 256 + unat b" using assms by (simp only: div_mult_self3)
    then show ?thesis using assms by simp
  qed
  moreover have "?n mod 256 = unat c"
  proof -
    have "?n = (unat a * 256 + unat b) * 256 + unat c" by simp
    then show ?thesis using assms by (simp only: mod_mult_self3) simp
  qed
  ultimately show ?thesis
    using accum_plain[of "unat a" "unat b" "unat c"] assms by (intro exI[of _ ?n]) (simp add: promote_plain)
qed

lemma top_sextets:
  fixes n :: nat
  assumes "n < 2 ^ 24"
  shows "n div 262144 mod 64 * 64 + n div 4096 mod 64 = n div 4096"
    and "(n div 262144 mod 64 * 64 + n div 4096 mod 64) * 64 + n div 64 mod 64 = n div 64"
    and "n div 262144 mod 64 = n div 262144"
proof -
  have "n div 262144 < 64" using assms by (simp add: less_mult_imp_div_less)
  then show m: "n div 262144 mod 64 = n div 262144" by simp
  have "n div 262144 = n div 4096 div 64" by (simp add: div_mult2_eq[symmetric])
  then show top: "n div 262144 mod 64 * 64 + n div 4096 mod 64 = n div 4096" unfolding m by (simp add: div_mult_mod_eq)
  have "n div 4096 = n div 64 div 64" by (simp add: div_mult2_eq[symmetric])
  then show "(n div 262144 mod 64 * 64 + n div 4096 mod 64) * 64 + n div 64 mod 64 = n div 64"
    unfolding top by (simp add: div_mult_mod_eq)
qed

lemma decode_padded:
  assumes "i < 64" "j < 64" "k < 64" "l < 64"
  shows "b64_decode (close_pad 2 [b64_table ! i, b64_table ! j, b64_table ! k, b64_table ! l]) = [of_nat ((i * 64 + j) div 16)]"
    and "b64_decode (close_pad 1 [b64_table ! i, b64_table ! j, b64_table ! k, b64_table ! l]) =
      [of_nat (((i * 64 + j) * 64 + k) div 1024), of_nat (((i * 64 + j) * 64 + k) div 4 mod 256)]"
  using assms by (simp_all add: close_pad_def Let_def)

lemma decode_two:
  assumes "n < 2 ^ 24"
  shows "b64_decode (close_pad 2 (sextets (of_nat n))) = [of_nat (n div 65536)]"
    and "b64_decode (close_pad 1 (sextets (of_nat n))) = [of_nat (n div 65536), of_nat (n div 256 mod 256)]"
proof -
  have d: "n div 4096 div 16 = n div 65536" "n div 64 div 1024 = n div 65536" "n div 64 div 4 = n div 256"
    by (simp_all add: div_mult2_eq[symmetric])
  have m: "x mod 64 < 64" for x :: nat by simp
  show "b64_decode (close_pad 2 (sextets (of_nat n))) = [of_nat (n div 65536)]"
    unfolding sextets_of_nat[OF assms] decode_padded(1)[OF m m m m] top_sextets(1)[OF assms] d by (rule refl)
  show "b64_decode (close_pad 1 (sextets (of_nat n))) = [of_nat (n div 65536), of_nat (n div 256 mod 256)]"
    unfolding sextets_of_nat[OF assms] decode_padded(2)[OF m m m m] top_sextets(2)[OF assms] d by (rule refl)
qed

lemma base64_groups_some: "xs \<noteq> [] \<Longrightarrow> \<exists>r pad. base64_groups xs [] None = (r, Some pad) \<and> 4 \<le> length r"
proof (induction "length xs" arbitrary: xs rule: less_induct)
  case less
  show ?case
  proof (cases "(xs, [] :: string, None :: nat option)" rule: base64_groups.cases)
    case (4 a b c rest)
    then show ?thesis
      using less.hyps[of rest]
        base64_groups_result[of rest "sextets (push_bit 16 (promote a) OR push_bit 8 (promote b) OR promote c)" "Some 0"]
      by (cases "rest = []") auto
  qed (use less.prems in simp_all)
qed

lemma base64_plain:
  assumes "plain_bytes xs" "xs \<noteq> []"
  shows "\<exists>r. base64_encode xs = Inr r \<and> b64_decode r = xs"
  using assms
proof (induction "length xs" arbitrary: xs rule: less_induct)
  case less
  show ?case
  proof (cases "(xs, [] :: string, None :: nat option)" rule: base64_groups.cases)
    case (2 a)
    then obtain n where "n < 2 ^ 24" "n div 65536 = unat a" "push_bit 16 (promote a) = of_nat n"
      using encode_plain_group[of a 0 0] less.prems by (auto simp: plain_bytes_def promote_def)
    then show ?thesis using 2 less.prems decode_two[of n] by (simp add: base64_encode_close)
  next
    case (3 a b)
    then obtain n where "n < 2 ^ 24" "n div 65536 = unat a" "n div 256 mod 256 = unat b"
      "push_bit 16 (promote a) OR push_bit 8 (promote b) = of_nat n"
      using encode_plain_group[of a b 0] less.prems by (auto simp: plain_bytes_def promote_def)
    then show ?thesis using 3 less.prems decode_two[of n] by (simp add: base64_encode_close)
  next
    case (4 a b c rest)
    then obtain n where n: "n < 2 ^ 24" "n div 65536 = unat a" "n div 256 mod 256 = unat b" "n mod 256 = unat c"
      "push_bit 16 (promote a) OR push_bit 8 (promote b) OR promote c = of_nat n"
      using encode_plain_group[of a b c] less.prems by (auto simp: plain_bytes_def)
    show ?thesis
    proof (cases "rest = []")
      case True
      then show ?thesis using 4 n less.prems decode_group[OF n(1), of "[]"] by (simp add: base64_encode_close close_pad_def)
    next
      case False
      then obtain r where r: "base64_encode rest = Inr r" "b64_decode r = rest"
        using less.hyps[of rest] less.prems 4 by (auto simp: plain_bytes_def)
      obtain s pad where s: "base64_groups rest [] None = (s, Some pad)" "4 \<le> length s"
        using base64_groups_some[OF False] by blast
      have "base64_groups xs [] None = (sextets (of_nat n) @ s, Some pad)"
        using base64_groups_result[of rest "sextets (of_nat n)" "Some 0"] s(1) False 4 n(5) by simp
      moreover have "close_pad pad s = r" using r(1) s(1) by (simp add: base64_encode_close split: if_splits)
      ultimately have "base64_encode xs = Inr (sextets (of_nat n) @ r)"
        using close_pad_append[of s pad] s(2) less.prems by (simp add: base64_encode_close)
      then show ?thesis using r(2) 4 n decode_group[OF n(1), of r] by simp
    qed
  qed (use less.prems in simp)
qed

lemma length_base64_groups: "length (fst (base64_groups xs result pad)) = length result + 4 * ((length xs + 2) div 3)"
proof (induction xs result pad rule: base64_groups.induct)
  case (4 a b c rest result pad)
  have "(length (a # b # c # rest) + 2) div 3 = Suc ((length rest + 2) div 3)" by simp
  then show ?case using 4 by (simp only: base64_groups.simps length_append length_sextets mult_Suc_right add.assoc)
qed simp_all

lemma length_close_pad [simp]: "length (close_pad pad r) = length r"
  by (simp add: close_pad_def Let_def)

text \<open>C21: Encoding a text is defined exactly when the text is not empty and all its characters are below 128, where
  \<open>char\<close> is signed: the padding of an empty text is read before it has a value, and a character from 128 on is a
  negative number, which must not be shifted to the left (before C++20). Then the result has four characters for
  each three or fewer of the text, and a decoder reads the text back from it.\<close>

theorem base64_round_trip:
  "if xs \<noteq> [] \<and> plain_bytes xs
   then \<exists>r. base64_encode xs = Inr r \<and> b64_decode r = xs \<and> length r = 4 * ((length xs + 2) div 3)
   else base64_encode xs = Inl Undefined"
proof (cases "xs \<noteq> [] \<and> plain_bytes xs")
  case True
  then obtain r where r: "base64_encode xs = Inr r" "b64_decode r = xs" using base64_plain[of xs] by blast
  then have "length r = 4 * ((length xs + 2) div 3)"
    using True length_base64_groups[of xs "[]" None]
    by (auto simp: base64_encode_close split: prod.splits option.splits)
  with True r show ?thesis by simp
qed (auto simp: base64_encode_close)

theorem base64_round_trip_witness:
  "(\<exists>r. base64_encode [77, 97, 110, 46] = Inr r \<and> b64_decode r = [77, 97, 110, 46] \<and> length r = 8) \<and>
   base64_encode [77, 200] = Inl Undefined"
  using base64_round_trip[of "[77, 97, 110, 46]"] base64_round_trip[of "[77, 200]"] by (simp add: plain_bytes_def)

section \<open>OpenSSL\<close>

text \<open>A call gives the context after it and the bytes it writes, or none when it fails.\<close>

record 'c evp =
  ctx_new :: "'c option"
  key_length :: nat
  iv_length :: nat
  encrypt_init :: "'c \<Rightarrow> u8 list \<Rightarrow> u8 list \<Rightarrow> 'c \<times> bool"
  decrypt_init :: "'c \<Rightarrow> u8 list \<Rightarrow> u8 list \<Rightarrow> 'c \<times> bool"
  ctx_block_size :: "'c \<Rightarrow> s32"
  encrypt_update :: "'c \<Rightarrow> u8 list \<Rightarrow> 'c \<times> u8 list option"
  encrypt_final :: "'c \<Rightarrow> 'c \<times> u8 list option"
  decrypt_update :: "'c \<Rightarrow> u8 list \<Rightarrow> 'c \<times> u8 list option"
  decrypt_final :: "'c \<Rightarrow> 'c \<times> u8 list option"

text \<open>Keys in the text of a certificate, and RSA.\<close>

record pem =
  bio_new_mem_buf :: "string \<Rightarrow> nat option"
  read_x509 :: "nat option \<Rightarrow> nat option"
  get_pubkey :: "nat option \<Rightarrow> nat option"
  read_private_key :: "nat option \<Rightarrow> nat option"

record rsa =
  pkey_size :: s32
  public_encrypt :: "u8 list \<Rightarrow> u8 list option"
  private_decrypt :: "u8 list \<Rightarrow> u8 list option"

section \<open>Encryptor and Decryptor\<close>

text \<open>The two have the same members; \<open>fed\<close> is the history of the bytes given to the cipher.\<close>

record 'c cryptor =
  cipher_context :: "'c option"
  cipher_password :: password
  cipher_error :: bool
  fed :: "u8 list"

definition cryptor_new ::
    "bool \<Rightarrow> 'c evp \<Rightarrow> ('c \<Rightarrow> u8 list \<Rightarrow> u8 list \<Rightarrow> 'c \<times> bool) \<Rightarrow> password \<Rightarrow> 'c cryptor outcome" where
  "cryptor_new debug evp init p =
     (case ctx_new evp of
        None \<Rightarrow> Inr \<lparr>cipher_context = None, cipher_password = p, cipher_error = False, fed = []\<rparr>
      | Some c \<Rightarrow>
          and_then (assertf debug (key_length evp = length (key_bytes p))) (\<lambda>_.
          and_then (assertf debug (iv_length evp = length (iv_bytes p))) (\<lambda>_.
          (let (c, ok) = init c (key_bytes p) (iv_bytes p)
           in Inr \<lparr>cipher_context = Some c, cipher_password = p, cipher_error = \<not> ok, fed = []\<rparr>))))"

definition encryptor_new :: "bool \<Rightarrow> 'c evp \<Rightarrow> password \<Rightarrow> 'c cryptor outcome" where
  "encryptor_new debug evp p = cryptor_new debug evp (encrypt_init evp) p"

definition decryptor_new :: "bool \<Rightarrow> 'c evp \<Rightarrow> password \<Rightarrow> 'c cryptor outcome" where
  "decryptor_new debug evp p = cryptor_new debug evp (decrypt_init evp) p"

definition cryptor_bool :: "'c cryptor \<Rightarrow> bool" where
  "cryptor_bool e = (cipher_context e \<noteq> None \<and> \<not> cipher_error e)"

definition int_min :: "s32 \<Rightarrow> s32 \<Rightarrow> s32" where
  "int_min a b = (if sint b < sint a then b else a)"

definition int_max :: "s32 \<Rightarrow> s32 \<Rightarrow> s32" where
  "int_max a b = (if sint a < sint b then b else a)"

text \<open>A negative count is outside what the library allows.\<close>

definition cryptor_write ::
    "('c \<Rightarrow> s32) \<Rightarrow> ('c \<Rightarrow> u8 list \<Rightarrow> 'c \<times> u8 list option) \<Rightarrow> buffer \<Rightarrow> buffer \<Rightarrow> 'c cryptor \<Rightarrow> memory \<Rightarrow>
     (u64 \<times> 'c cryptor \<times> memory) outcome" where
  "cryptor_write block_size update input out e m =
     (case cipher_context e of
        None \<Rightarrow> Inl Undefined
      | Some c \<Rightarrow>
          (let block = int_max (int_min (block_size c) (ucast (bsize input))) 1;
               input = align_size input block;
               out = align_size out block;
               requested = ucast (min (bsize input) (bsize out)) :: s32
           in if cipher_error e then Inr (0, e, m)
              else if sint requested < 0 then Inl Undefined
              else and_then (read_mem m (base input) (nat (sint requested))) (\<lambda>bs.
                case update c bs of
                  (c, None) \<Rightarrow> Inr (0, e\<lparr>cipher_context := Some c, cipher_error := True, fed := fed e @ bs\<rparr>, m)
                | (c, Some ys) \<Rightarrow>
                    and_then (write_mem m (base out) ys) (\<lambda>m.
                    Inr (scast (of_nat (length ys) :: s32), e\<lparr>cipher_context := Some c, fed := fed e @ bs\<rparr>, m)))))"

definition encryptor_write ::
    "'c evp \<Rightarrow> buffer \<Rightarrow> buffer \<Rightarrow> 'c cryptor \<Rightarrow> memory \<Rightarrow> (u64 \<times> 'c cryptor \<times> memory) outcome" where
  "encryptor_write evp = cryptor_write (ctx_block_size evp) (encrypt_update evp)"

definition decryptor_write ::
    "'c evp \<Rightarrow> buffer \<Rightarrow> buffer \<Rightarrow> 'c cryptor \<Rightarrow> memory \<Rightarrow> (u64 \<times> 'c cryptor \<times> memory) outcome" where
  "decryptor_write evp = cryptor_write (ctx_block_size evp) (decrypt_update evp)"

text \<open>The end of the text; an earlier error is forgotten.\<close>

definition cryptor_finish ::
    "('c \<Rightarrow> 'c \<times> u8 list option) \<Rightarrow> buffer \<Rightarrow> 'c cryptor \<Rightarrow> memory \<Rightarrow> (u64 \<times> 'c cryptor \<times> memory) outcome" where
  "cryptor_finish final out e m =
     (case cipher_context e of
        None \<Rightarrow> Inl Undefined
      | Some c \<Rightarrow>
          (case final c of
             (c, None) \<Rightarrow> Inr (0, e\<lparr>cipher_context := Some c, cipher_error := True\<rparr>, m)
           | (c, Some ys) \<Rightarrow>
               and_then (write_mem m (base out) ys) (\<lambda>m.
               Inr (scast (of_nat (length ys) :: s32), e\<lparr>cipher_context := Some c, cipher_error := False\<rparr>, m))))"

definition encryptor_finish :: "'c evp \<Rightarrow> buffer \<Rightarrow> 'c cryptor \<Rightarrow> memory \<Rightarrow> (u64 \<times> 'c cryptor \<times> memory) outcome" where
  "encryptor_finish evp = cryptor_finish (encrypt_final evp)"

definition decryptor_finish :: "'c evp \<Rightarrow> buffer \<Rightarrow> 'c cryptor \<Rightarrow> memory \<Rightarrow> (u64 \<times> 'c cryptor \<times> memory) outcome" where
  "decryptor_finish evp = cryptor_finish (decrypt_final evp)"

section \<open>Keys\<close>

text \<open>A key, and the objects freed by the guards when the constructor ends, the last first.\<close>

definition public_key_new :: "pem \<Rightarrow> string \<Rightarrow> nat option \<times> nat list" where
  "public_key_new pem text =
     (let bio = bio_new_mem_buf pem text;
          certificate = read_x509 pem bio;
          key = get_pubkey pem certificate
      in (key, guard_destroy certificate @ guard_destroy bio))"

definition private_key_new :: "pem \<Rightarrow> string \<Rightarrow> nat option \<times> nat list" where
  "private_key_new pem text =
     (let bio = bio_new_mem_buf pem text; key = read_private_key pem bio in (key, guard_destroy bio))"

text \<open>RSA gives \<open>-1\<close> when it fails, and the comparison with a size converts it.\<close>

definition encrypt_password :: "rsa \<Rightarrow> password \<Rightarrow> buffer \<Rightarrow> memory \<Rightarrow> (u64 \<times> memory) outcome" where
  "encrypt_password rsa p out m =
     (let buffer = password_serialize p;
          n = int_max (int_min (of_nat (length buffer)) (ucast (bsize out))) 0;
          result = (\<lambda>written :: s32. if scast written > (of_nat (length buffer) :: u64) then scast written else 0)
      in case public_encrypt rsa (take (nat (sint n)) buffer) of
           None \<Rightarrow> Inr (result (- 1), m)
         | Some ys \<Rightarrow> and_then (write_mem m (base out) ys) (\<lambda>m. Inr (result (of_nat (length ys)), m)))"

definition decrypt_password :: "rsa \<Rightarrow> buffer \<Rightarrow> password \<Rightarrow> memory \<Rightarrow> (u64 \<times> password) outcome" where
  "decrypt_password rsa input p m =
     (let buffer = password_serialize p;
          n = int_max (int_min (pkey_size rsa) (ucast (bsize input))) 0
      in and_then (read_mem m (base input) (nat (sint n))) (\<lambda>bs.
         and_then
           (case private_decrypt rsa bs of
              None \<Rightarrow> Inr (- 1, buffer)
            | Some ys \<Rightarrow> if length ys > length buffer then Inl Out_of_bounds
                        else Inr (of_nat (length ys) :: s32, ys @ drop (length ys) buffer))
           (\<lambda>(written, buffer).
         and_then (password_deserialize buffer p) (\<lambda>p.
         Inr (if scast written = (of_nat (length buffer) :: u64) then scast written else 0, p)))))"

section \<open>The program\<close>

text \<open>Both loops of \<open>main\<close>: what is left of the source, of the room, and what has been made.\<close>

partial_function (option) transfer_loop ::
    "(buffer \<Rightarrow> buffer \<Rightarrow> 'c cryptor \<Rightarrow> memory \<Rightarrow> (u64 \<times> 'c cryptor \<times> memory) outcome) \<Rightarrow>
     buffer \<Rightarrow> buffer \<Rightarrow> buffer \<Rightarrow> 'c cryptor \<Rightarrow> memory \<Rightarrow> (buffer \<times> buffer \<times> buffer \<times> 'c cryptor \<times> memory) outcome option" where
  "transfer_loop wr source available made e m =
     (if cryptor_bool e then
        (case wr source available e m of
           Inl f \<Rightarrow> Some (Inl f)
         | Inr (w, e, m) \<Rightarrow>
             if (ucast w :: s32) = 0
             then Some (Inr (advance source (ucast w), advance available (ucast w), grow made (ucast w), e, m))
             else transfer_loop wr (advance source (ucast w)) (advance available (ucast w)) (grow made (ucast w)) e m)
      else Some (Inr (source, available, made, e, m)))"

definition encrypt_loop where
  "encrypt_loop evp plaintext available ciphertext e m =
     transfer_loop (encryptor_write evp) plaintext available ciphertext e m"

definition decrypt_loop where
  "decrypt_loop evp ciphertext available plaintext e m =
     transfer_loop (decryptor_write evp) ciphertext available plaintext e m"

datatype main_result = Keys_missing | No_encryptor | No_decryptor | Printed "u8 list"

definition start_failed :: "'a outcome \<Rightarrow> ('a \<Rightarrow> 'b outcome option) \<Rightarrow> 'b outcome option" where
  "start_failed r f = (case r of Inl e \<Rightarrow> Some (Inl e) | Inr a \<Rightarrow> f a)"

text \<open>The two arrays of \<open>main\<close> have 1024 bytes at the addresses \<open>cipherbuf\<close> and \<open>plainbuf\<close>.\<close>

definition main_program ::
    "bool \<Rightarrow> 'c evp \<Rightarrow> pem \<Rightarrow> string \<Rightarrow> string \<Rightarrow> u8 list \<Rightarrow> password \<Rightarrow> nat \<Rightarrow> nat \<Rightarrow> memory \<Rightarrow> main_result outcome option" where
  "main_program debug evp pem cert key text p cipherbuf plainbuf m =
     (if fst (public_key_new pem cert) = None \<or> fst (private_key_new pem key) = None then Some (Inr Keys_missing)
      else if length text > 1024 then Some (Inl Out_of_bounds)
      else
        start_failed (and_then (write_mem m cipherbuf (replicate 1024 0)) (\<lambda>m. write_mem m plainbuf text)) (\<lambda>m.
        start_failed (encryptor_new debug evp p) (\<lambda>e.
        if \<not> cryptor_bool e then Some (Inr No_encryptor)
        else Option.bind (encrypt_loop evp \<lparr>base = plainbuf, bsize = of_nat (length text)\<rparr> \<lparr>base = cipherbuf, bsize = 1024\<rparr>
               \<lparr>base = cipherbuf, bsize = 0\<rparr> e m) (\<lambda>r.
        start_failed r (\<lambda>(plaintext, available, ciphertext, e, m).
        start_failed (encryptor_finish evp available e m) (\<lambda>(w, e, m).
        start_failed (write_mem m plainbuf (replicate 1024 0)) (\<lambda>m.
        start_failed (decryptor_new debug evp (cipher_password e)) (\<lambda>d.
        if \<not> cryptor_bool d then Some (Inr No_decryptor)
        else Option.bind (decrypt_loop evp (grow ciphertext (ucast w)) \<lparr>base = plainbuf, bsize = 1024\<rparr>
               \<lparr>base = plainbuf, bsize = 0\<rparr> d m) (\<lambda>r.
        start_failed r (\<lambda>(ciphertext, available, plaintext, d, m).
        start_failed (decryptor_finish evp available d m) (\<lambda>(w, d, m).
        start_failed (print_buffer (grow plaintext (ucast w)) m) (\<lambda>bs. Some (Inr (Printed bs))))))))))))))"

section \<open>What the loops feed\<close>

text \<open>What is assumed of the cipher, an AES in a mode that pads: an encryption that does not fail writes the whole blocks
  it has been given.\<close>

definition writes_blocks :: "('c \<Rightarrow> u8 list \<Rightarrow> 'c \<times> u8 list option) \<Rightarrow> ('c \<Rightarrow> nat) \<Rightarrow> (nat \<Rightarrow> nat) \<Rightarrow> bool" where
  "writes_blocks update seen written \<longleftrightarrow>
     (\<forall>c xs. \<exists>c' ys. update c xs = (c', Some ys) \<and> seen c' = seen c + length xs \<and>
        length ys = written (seen c + length xs) - written (seen c))"

definition encrypts_blocks :: "'c evp \<Rightarrow> ('c \<Rightarrow> nat) \<Rightarrow> bool" where
  "encrypts_blocks evp seen \<longleftrightarrow>
     (\<forall>c. ctx_block_size evp c = 16) \<and> writes_blocks (encrypt_update evp) seen (\<lambda>n. 16 * (n div 16))"

lemma sint_of_nat:
  assumes "k < 2 ^ 31"
  shows "sint (of_nat k :: s32) = int k"
proof -
  have "uint (of_nat k :: s32) = int k" using assms unat_of_nat_small[of k, where 'a = 32] by (simp add: uint_nat)
  then show ?thesis using assms by (simp add: sint_uint signed_take_bit_int_eq_self)
qed

lemma scast_of_nat: "k < 2 ^ 31 \<Longrightarrow> (scast (of_nat k :: s32) :: u64) = of_nat k"
  by (simp add: scast_eq sint_of_nat)

lemma ucast_of_nat: "k < 2 ^ 31 \<Longrightarrow> (ucast (of_nat k :: u64) :: s32) = of_nat k"
  by (simp add: unsigned_of_nat take_bit_nat_eq_self)

lemma align_size_of_nat:
  assumes "n < 2 ^ 31" "b < 2 ^ 31"
  shows "align_size \<lparr>base = a, bsize = of_nat n\<rparr> (of_nat b) = \<lparr>base = a, bsize = of_nat (n - n mod b)\<rparr>"
proof -
  have m: "n mod b < 2 ^ 31" by (rule le_less_trans[OF mod_less_eq_dividend assms(1)])
  have un: "unat (of_nat n :: u64) = n" "unat (of_nat b :: u64) = b" "unat (of_nat (n mod b) :: u64) = n mod b"
    using assms m by (simp_all add: unat_of_nat_small)
  have "(of_nat n mod of_nat b :: u64) = of_nat (n mod b)"
    by (rule word_unat_eq_iff[THEN iffD2]) (simp only: unat_mod un)
  then show ?thesis using assms by (simp add: align_size_def scast_of_nat)
qed

lemma advance_of_nat:
  "k \<le> n \<Longrightarrow> n < 2 ^ 31 \<Longrightarrow> advance \<lparr>base = a, bsize = of_nat n\<rparr> (of_nat k) = \<lparr>base = a + k, bsize = of_nat (n - k)\<rparr>"
  by (simp add: advance_def sint_of_nat scast_of_nat)

lemma grow_of_nat:
  "k < 2 ^ 31 \<Longrightarrow> grow \<lparr>base = a, bsize = of_nat n\<rparr> (of_nat k) = \<lparr>base = a, bsize = of_nat (n + k)\<rparr>"
  by (simp add: grow_def scast_of_nat)

lemma block_of_nat:
  assumes "n < 2 ^ 31"
  shows "int_max (int_min 16 (ucast (of_nat n :: u64))) 1 = of_nat (max (min 16 n) 1)"
  using assms sint_of_nat[of 16] sint_of_nat[of 1]
  by (auto simp: int_max_def int_min_def ucast_of_nat sint_of_nat min_def max_def le_Suc_eq)

lemma min_of_nat: "x < 2 ^ 31 \<Longrightarrow> y < 2 ^ 31 \<Longrightarrow> min (of_nat x :: u64) (of_nat y) = of_nat (min x y)"
  by (auto simp: min_def word_le_nat_alt unat_of_nat_small)

lemma cryptor_write_step:
  fixes n room :: nat
  defines "b \<equiv> max (min 16 n) 1"
  defines "r \<equiv> min (n - n mod b) (room - room mod b)"
  assumes "cipher_context e = Some c" "\<not> cipher_error e" "block_size c = 16" "n < 2 ^ 31" "room < 2 ^ 31"
    "read_mem m a r = Inr bs" "update c bs = (c', Some ys)" "write_mem m d ys = Inr m'" "length ys < 2 ^ 31"
  shows "cryptor_write block_size update \<lparr>base = a, bsize = of_nat n\<rparr> \<lparr>base = d, bsize = of_nat room\<rparr> e m =
    Inr (of_nat (length ys), e\<lparr>cipher_context := Some c', fed := fed e @ bs\<rparr>, m')"
proof -
  have b: "b < 2 ^ 31" by (simp add: b_def)
  have r: "r < 2 ^ 31" using assms(6) by (simp add: r_def)
  have bl: "int_max (int_min 16 (ucast (of_nat n :: u64))) 1 = of_nat b"
    unfolding b_def by (rule block_of_nat[OF assms(6)])
  define p where "p = n - n mod b"
  define q where "q = room - room mod b"
  have pq: "p < 2 ^ 31" "q < 2 ^ 31" "r = min p q" using assms(6,7) by (auto simp: p_def q_def r_def)
  have al: "align_size \<lparr>base = a, bsize = of_nat n\<rparr> (of_nat b) = \<lparr>base = a, bsize = of_nat p\<rparr>"
    "align_size \<lparr>base = d, bsize = of_nat room\<rparr> (of_nat b) = \<lparr>base = d, bsize = of_nat q\<rparr>"
    using align_size_of_nat[OF assms(6) b] align_size_of_nat[OF assms(7) b] by (simp_all only: p_def q_def)
  have "(ucast (min (of_nat p :: u64) (of_nat q)) :: s32) = of_nat r"
    using min_of_nat[OF pq(1,2)] ucast_of_nat[OF r] by (simp add: pq(3))
  then show ?thesis
    using assms(3-5,8-11) bl r
    by (simp add: cryptor_write_def Let_def al sint_of_nat scast_of_nat)
qed

text \<open>One turn of a loop.\<close>

lemma transfer_step:
  assumes "wr \<lparr>base = a, bsize = of_nat n\<rparr> \<lparr>base = d, bsize = of_nat room\<rparr> e m = Inr (of_nat k, e', m')"
    "cryptor_bool e" "k \<le> n" "k \<le> room" "n < 2 ^ 31" "room < 2 ^ 31"
  shows "transfer_loop wr \<lparr>base = a, bsize = of_nat n\<rparr> \<lparr>base = d, bsize = of_nat room\<rparr> \<lparr>base = f, bsize = of_nat so_far\<rparr> e m =
    (if k = 0 then Some (Inr (\<lparr>base = a, bsize = of_nat n\<rparr>, \<lparr>base = d, bsize = of_nat room\<rparr>, \<lparr>base = f, bsize = of_nat so_far\<rparr>, e', m'))
     else transfer_loop wr \<lparr>base = a + k, bsize = of_nat (n - k)\<rparr> \<lparr>base = d + k, bsize = of_nat (room - k)\<rparr>
       \<lparr>base = f, bsize = of_nat (so_far + k)\<rparr> e' m')"
proof -
  have k: "k < 2 ^ 31" using assms(3,5) by simp
  have w: "(ucast (of_nat k :: u64) :: s32) = of_nat k" by (rule ucast_of_nat[OF k])
  have u: "unat (of_nat k :: s32) = k" using k by (simp add: unat_of_nat_small)
  have z: "(of_nat k :: s32) = 0 \<longleftrightarrow> k = 0"
  proof
    assume "(of_nat k :: s32) = 0"
    then show "k = 0" using u by (simp only: unat_0)
  qed simp
  have "transfer_loop wr \<lparr>base = a, bsize = of_nat n\<rparr> \<lparr>base = d, bsize = of_nat room\<rparr> \<lparr>base = f, bsize = of_nat so_far\<rparr> e m =
    (if k = 0 then Some (Inr (advance \<lparr>base = a, bsize = of_nat n\<rparr> (of_nat k), advance \<lparr>base = d, bsize = of_nat room\<rparr> (of_nat k),
       grow \<lparr>base = f, bsize = of_nat so_far\<rparr> (of_nat k), e', m'))
     else transfer_loop wr (advance \<lparr>base = a, bsize = of_nat n\<rparr> (of_nat k)) (advance \<lparr>base = d, bsize = of_nat room\<rparr> (of_nat k))
       (grow \<lparr>base = f, bsize = of_nat so_far\<rparr> (of_nat k)) e' m')"
    using assms(2) by (subst transfer_loop.simps) (simp only: assms(1) w z if_True sum.case prod.case)
  then show ?thesis
    unfolding advance_of_nat[OF assms(3,5)] advance_of_nat[OF assms(4,6)] grow_of_nat[OF k] by simp
qed

text \<open>Reading and writing of blocks of memory.\<close>

definition holds :: "memory \<Rightarrow> nat \<Rightarrow> u8 list \<Rightarrow> bool" where
  "holds m a xs \<longleftrightarrow> (\<forall>i<length xs. m (a + i) = Some (xs ! i))"

definition allocated :: "memory \<Rightarrow> nat \<Rightarrow> nat \<Rightarrow> bool" where
  "allocated m a n \<longleftrightarrow> (\<forall>i<n. m (a + i) \<noteq> None)"

lemma read_holds: "holds m a xs \<Longrightarrow> k \<le> length xs \<Longrightarrow> read_mem m a k = Inr (take k xs)"
  by (auto simp: read_mem_def holds_def intro!: nth_equalityI)

lemma holds_drop: "holds m a xs \<Longrightarrow> k \<le> length xs \<Longrightarrow> holds m (a + k) (drop k xs)"
  by (simp add: holds_def add.assoc)

lemma write_allocated:
  assumes "allocated m d n" "length ys \<le> n"
  shows "\<exists>m'. write_mem m d ys = Inr m' \<and> holds m' d ys \<and> allocated m' d n \<and> (\<forall>x. x < d \<or> d + n \<le> x \<longrightarrow> m' x = m x)"
  using assms by (auto simp: write_mem_def allocated_def holds_def)

lemma allocated_drop: "allocated m d n \<Longrightarrow> k \<le> n \<Longrightarrow> allocated m (d + k) (n - k)"
  by (auto simp: allocated_def add.assoc)

lemma holds_cong: "holds m a xs \<Longrightarrow> (\<And>x. a \<le> x \<Longrightarrow> x < a + length xs \<Longrightarrow> m' x = m x) \<Longrightarrow> holds m' a xs"
  by (simp add: holds_def)

definition apart :: "nat \<Rightarrow> nat \<Rightarrow> nat \<Rightarrow> nat \<Rightarrow> bool" where
  "apart a n d room \<longleftrightarrow> a + n \<le> d \<or> d + room \<le> a"

text \<open>One write of a cipher that keeps to the manual.\<close>

lemma cipher_write:
  assumes "writes_blocks update seen written" "\<forall>c. block_size c = 16"
    and "cipher_context e = Some c" "\<not> cipher_error e"
    and "holds m a xs" "length xs < 2 ^ 31" "allocated m d room" "room < 2 ^ 31" "apart a (length xs) d room"
    and "r = min (length xs - length xs mod max (min 16 (length xs)) 1) (room - room mod max (min 16 (length xs)) 1)"
    and "k = written (seen c + r) - written (seen c)" "k \<le> room"
  shows "\<exists>c' m' ys. cryptor_write block_size update \<lparr>base = a, bsize = of_nat (length xs)\<rparr> \<lparr>base = d, bsize = of_nat room\<rparr> e m =
      Inr (of_nat k, e\<lparr>cipher_context := Some c', fed := fed e @ take r xs\<rparr>, m') \<and>
    seen c' = seen c + r \<and> holds m' a xs \<and> allocated m' d room \<and> length ys = k \<and> holds m' d ys \<and>
    (\<forall>x. x < d \<or> d + room \<le> x \<longrightarrow> m' x = m x)"
proof -
  have r: "r \<le> length xs" unfolding assms(10) by (rule min.coboundedI1) (rule diff_le_self)
  obtain c' ys where u: "update c (take r xs) = (c', Some ys)" "seen c' = seen c + r" "length ys = k"
    using assms(1) r assms(11) unfolding writes_blocks_def by (metis length_take min.absorb2)
  obtain m' where m': "write_mem m d ys = Inr m'" "holds m' d ys" "allocated m' d room" "\<forall>x. x < d \<or> d + room \<le> x \<longrightarrow> m' x = m x"
    using write_allocated[OF assms(7)] assms(12) u(3) by blast
  have y: "length ys < 2 ^ 31" using u(3) assms(8,12) by simp
  have "cryptor_write block_size update \<lparr>base = a, bsize = of_nat (length xs)\<rparr> \<lparr>base = d, bsize = of_nat room\<rparr> e m =
      Inr (of_nat k, e\<lparr>cipher_context := Some c', fed := fed e @ take r xs\<rparr>, m')"
    using cryptor_write_step[where block_size = block_size and update = update, OF assms(3,4) assms(2)[rule_format] assms(6,8) read_holds[OF assms(5) r, unfolded assms(10)]
      u(1)[unfolded assms(10)] m'(1) y] unfolding u(3) assms(10)[symmetric] .
  moreover have "holds m' a xs" using assms(5,9) m'(4) by (intro holds_cong[OF assms(5)]) (auto simp: apart_def)
  ultimately show ?thesis using u m' by (intro exI[of _ c'] exI[of _ m'] exI[of _ ys]) simp
qed

text \<open>A turn that feeds what there is, when it is less than a block or a whole number of them.\<close>

lemma requested_whole:
  fixes n room :: nat
  assumes "n < 16 \<or> 16 dvd n" "n \<le> room"
  shows "min (n - n mod max (min 16 n) 1) (room - room mod max (min 16 n) 1) = n"
proof -
  define b where "b = max (min 16 n) 1"
  have "b dvd n" using assms(1) by (cases "n = 0") (auto simp: b_def min_def max_def le_Suc_eq)
  then obtain j where "n = b * j" by (rule dvdE)
  moreover have "b > 0" by (simp add: b_def)
  ultimately have "n \<le> room - room mod b" using assms(2)
    by (simp add: minus_mod_eq_mult_div less_eq_div_iff_mult_less_eq mult.commute)
  then have "min (n - n mod b) (room - room mod b) = n" using \<open>b dvd n\<close> by (simp add: dvd_imp_mod_0)
  then show ?thesis unfolding b_def .
qed

lemma requested_blocks:
  fixes n room :: nat
  assumes "16 \<le> n" "n \<le> room"
  shows "min (n - n mod max (min 16 n) 1) (room - room mod max (min 16 n) 1) = 16 * (n div 16)"
proof -
  have "max (min 16 n) 1 = 16" using assms(1) by simp
  moreover have "16 * (n div 16) \<le> 16 * (room div 16)" using assms(2) by (simp add: div_le_mono)
  ultimately show ?thesis by (simp add: minus_mod_eq_mult_div)
qed

lemma transfer_turn:
  assumes "writes_blocks update seen written" "\<forall>c. block_size c = 16"
    and "cipher_context e = Some c" "\<not> cipher_error e"
    and "holds m a xs" "length xs < 2 ^ 31" "allocated m d room" "room < 2 ^ 31" "apart a (length xs) d room"
    and "r = min (length xs - length xs mod max (min 16 (length xs)) 1) (room - room mod max (min 16 (length xs)) 1)"
    and "k = written (seen c + r) - written (seen c)" "k \<le> room" "k \<le> length xs"
  shows "\<exists>e' c' m'. transfer_loop (cryptor_write block_size update) \<lparr>base = a, bsize = of_nat (length xs)\<rparr>
      \<lparr>base = d, bsize = of_nat room\<rparr> \<lparr>base = f, bsize = of_nat so_far\<rparr> e m =
     (if k = 0 then Some (Inr (\<lparr>base = a, bsize = of_nat (length xs)\<rparr>, \<lparr>base = d, bsize = of_nat room\<rparr>,
        \<lparr>base = f, bsize = of_nat so_far\<rparr>, e', m'))
      else transfer_loop (cryptor_write block_size update) \<lparr>base = a + k, bsize = of_nat (length xs - k)\<rparr>
        \<lparr>base = d + k, bsize = of_nat (room - k)\<rparr> \<lparr>base = f, bsize = of_nat (so_far + k)\<rparr> e' m') \<and>
    cipher_context e' = Some c' \<and> \<not> cipher_error e' \<and> fed e' = fed e @ take r xs \<and> seen c' = seen c + r \<and>
    holds m' (a + k) (drop k xs) \<and> allocated m' (d + k) (room - k) \<and> apart (a + k) (length xs - k) (d + k) (room - k)"
proof -
  obtain c' m' ys where w: "cryptor_write block_size update \<lparr>base = a, bsize = of_nat (length xs)\<rparr> \<lparr>base = d, bsize = of_nat room\<rparr> e m =
      Inr (of_nat k, e\<lparr>cipher_context := Some c', fed := fed e @ take r xs\<rparr>, m')" and
    m': "seen c' = seen c + r" "holds m' a xs" "allocated m' d room"
    using cipher_write[OF assms(1-12)] by blast
  have on: "cryptor_bool e" using assms(3,4) by (simp add: cryptor_bool_def)
  note step = transfer_step[where wr = "cryptor_write block_size update" and f = f and so_far = so_far, OF w on assms(13,12,6,8)]
  have "apart (a + k) (length xs - k) (d + k) (room - k)" using assms(9) by (auto simp: apart_def)
  then show ?thesis
    using step m'(1) holds_drop[OF m'(2) assms(13)] allocated_drop[OF m'(3) assms(12)] assms(4)
    by (intro exI[of _ "e\<lparr>cipher_context := Some c', fed := fed e @ take r xs\<rparr>"] exI[of _ c'] exI[of _ m']) simp
qed

text \<open>The loop of an encryption feeds the text once, in its order, and leaves room for what the end writes.\<close>

theorem encryption_feeds_text:
  assumes "encrypts_blocks evp seen" "cipher_context e = Some c" "\<not> cipher_error e" "seen c = 0"
    "holds m a xs" "allocated m d room" "apart a (length xs) d room" "length xs + 16 \<le> room" "room < 2 ^ 31"
  shows "\<exists>e' m'. encrypt_loop evp \<lparr>base = a, bsize = of_nat (length xs)\<rparr> \<lparr>base = d, bsize = of_nat room\<rparr> \<lparr>base = d, bsize = 0\<rparr> e m =
      Some (Inr (\<lparr>base = a + 16 * (length xs div 16), bsize = of_nat (length xs mod 16)\<rparr>,
        \<lparr>base = d + 16 * (length xs div 16), bsize = of_nat (room - 16 * (length xs div 16))\<rparr>,
        \<lparr>base = d, bsize = of_nat (16 * (length xs div 16))\<rparr>, e', m')) \<and>
    fed e' = fed e @ xs \<and> cryptor_bool e'"
proof -
  let ?loop = "transfer_loop (cryptor_write (ctx_block_size evp) (encrypt_update evp))"
  have law: "writes_blocks (encrypt_update evp) seen (\<lambda>n. 16 * (n div 16))" "\<forall>c. ctx_block_size evp c = 16"
    using assms(1) by (simp_all add: encrypts_blocks_def)
  have short: "\<exists>e' m'. ?loop \<lparr>base = a, bsize = of_nat (length xs)\<rparr> \<lparr>base = d, bsize = of_nat room\<rparr> \<lparr>base = f, bsize = of_nat so_far\<rparr> e m =
      Some (Inr (\<lparr>base = a, bsize = of_nat (length xs)\<rparr>, \<lparr>base = d, bsize = of_nat room\<rparr>, \<lparr>base = f, bsize = of_nat so_far\<rparr>, e', m')) \<and>
      fed e' = fed e @ xs \<and> cryptor_bool e'"
    if "length xs < 16" "16 dvd seen c" "cipher_context e = Some c" "\<not> cipher_error e" "holds m a xs" "allocated m d room"
      "apart a (length xs) d room" "length xs + 16 \<le> room" "room < 2 ^ 31" for a d f room so_far xs e c and m :: memory
  proof -
    have r: "length xs = min (length xs - length xs mod max (min 16 (length xs)) 1) (room - room mod max (min 16 (length xs)) 1)"
      using requested_whole[of "length xs" room] that(1,8) by simp
    from that(2) obtain q where "seen c = 16 * q" by (rule dvdE)
    then have k: "0 = 16 * ((seen c + length xs) div 16) - 16 * (seen c div 16)" using that(1) by simp
    have "length xs < 2 ^ 31" using that(1) by simp
    from transfer_turn[OF law that(3-5) this that(6,9,7) r k, of f so_far] show ?thesis
      by (auto simp: cryptor_bool_def)
  qed
  show ?thesis
  proof (cases "length xs < 16")
    case True
    then show ?thesis
      using short[OF True _ assms(2,3,5,6,7,8,9), of d 0] assms(4) by (simp add: encrypt_loop_def encryptor_write_def)
  next
    case False
    let ?k = "16 * (length xs div 16)"
    have r: "?k = min (length xs - length xs mod max (min 16 (length xs)) 1) (room - room mod max (min 16 (length xs)) 1)"
      using requested_blocks[of "length xs" room] False assms(8) by simp
    have k: "?k = 16 * ((seen c + ?k) div 16) - 16 * (seen c div 16)" using assms(4) by simp
    have le: "?k \<le> length xs" "?k \<le> room" "length xs < 2 ^ 31" "?k \<noteq> 0" using assms(8,9) False by auto
    obtain e' c' m' where t: "?loop \<lparr>base = a, bsize = of_nat (length xs)\<rparr> \<lparr>base = d, bsize = of_nat room\<rparr> \<lparr>base = d, bsize = of_nat 0\<rparr> e m =
        ?loop \<lparr>base = a + ?k, bsize = of_nat (length xs - ?k)\<rparr> \<lparr>base = d + ?k, bsize = of_nat (room - ?k)\<rparr>
          \<lparr>base = d, bsize = of_nat (0 + ?k)\<rparr> e' m'"
      and e': "cipher_context e' = Some c'" "\<not> cipher_error e'" "fed e' = fed e @ take ?k xs" "seen c' = seen c + ?k"
        "holds m' (a + ?k) (drop ?k xs)" "allocated m' (d + ?k) (room - ?k)" "apart (a + ?k) (length xs - ?k) (d + ?k) (room - ?k)"
      using transfer_turn[OF law assms(2,3,5) le(3) assms(6,9,7) r k le(2,1), of d 0] le(4) by auto
    have rest: "length (drop ?k xs) = length xs mod 16" by (simp add: minus_mult_div_eq_mod)
    have room: "length (drop ?k xs) + 16 \<le> room - ?k" "room - ?k < 2 ^ 31" using assms(8,9) by auto
    have rest': "length xs - ?k = length xs mod 16" by (simp add: minus_mult_div_eq_mod)
    obtain e'' m'' where s: "?loop \<lparr>base = a + ?k, bsize = of_nat (length (drop ?k xs))\<rparr> \<lparr>base = d + ?k, bsize = of_nat (room - ?k)\<rparr>
        \<lparr>base = d, bsize = of_nat ?k\<rparr> e' m' = Some (Inr (\<lparr>base = a + ?k, bsize = of_nat (length (drop ?k xs))\<rparr>,
        \<lparr>base = d + ?k, bsize = of_nat (room - ?k)\<rparr>, \<lparr>base = d, bsize = of_nat ?k\<rparr>, e'', m''))"
      and e'': "fed e'' = fed e' @ drop ?k xs" "cryptor_bool e''"
      using short[OF _ _ e'(1,2,5,6) _ room, of d ?k] e'(4,7) assms(4) rest by auto
    have z: "(0 :: u64) = of_nat 0" by simp
    show ?thesis
      unfolding encrypt_loop_def encryptor_write_def z t rest' add_0
      by (rule exI[of _ e''], rule exI[of _ m'']) (use s[unfolded rest] e'' e'(3) in \<open>simp only: append_assoc append_take_drop_id\<close>)
  qed
qed

section \<open>A password in RSA\<close>

text \<open>A key that is longer than a password carries it to the one who has the private key; when RSA fails, the length that is
  returned is the largest there is.\<close>

theorem password_travels:
  assumes "password_ok p" "password_ok q" "\<forall>xs. length xs = 51 \<longrightarrow> (\<exists>ys. public_encrypt rsa xs = Some ys \<and> length ys = k \<and>
      private_decrypt rsa ys = Some xs)" "pkey_size rsa = of_nat k" "51 < k" "k < 2 ^ 31"
    "allocated m d k" "bsize out = of_nat k" "base out = d"
  shows "(\<exists>m'. encrypt_password rsa p out m = Inr (of_nat k, m') \<and> decrypt_password rsa out q m' = Inr (51, p)) \<and>
    encrypt_password \<lparr>pkey_size = of_nat k, public_encrypt = (\<lambda>_. None), private_decrypt = private_decrypt rsa\<rparr> p out m =
      Inr (2 ^ 64 - 1, m)"
proof -
  have ser: "length (password_serialize p) = 51" "length (password_serialize q) = 51"
    using assms(1,2) by (simp_all add: password_serialize_def password_ok_def)
  obtain ys where ys: "public_encrypt rsa (password_serialize p) = Some ys" "length ys = k" "private_decrypt rsa ys = Some (password_serialize p)"
    using assms(3) ser(1) by blast
  obtain m' where m': "write_mem m d ys = Inr m'" "holds m' d ys"
    using write_allocated[OF assms(7), of ys] ys(2) by auto
  have sint51: "sint (51 :: s32) = 51" using sint_of_nat[of 51] by simp
  have c: "(scast (of_nat k :: s32) :: u64) > 51"
    using assms(5,6) by (simp add: scast_of_nat word_less_nat_alt unat_of_nat_small)
  have n1: "nat (sint (int_max (int_min 51 (of_nat k :: s32)) 0)) = 51"
    using assms(5,6) sint51 by (simp add: int_max_def int_min_def sint_of_nat)
  have n2: "nat (sint (int_max (int_min (of_nat k) (of_nat k :: s32)) 0)) = k"
    using assms(5,6) by (simp add: int_max_def int_min_def sint_of_nat)
  have "encrypt_password rsa p out m = Inr (of_nat k, m')"
    using c ser(1) ys m'(1) assms(8,9) n1 ucast_of_nat[OF assms(6)] scast_of_nat[OF assms(6)]
    by (simp add: encrypt_password_def Let_def)
  moreover have "decrypt_password rsa out q m' = Inr (51, p)"
    using ser ys(2,3) m'(2) assms(1,2,4,8,9) n2 ucast_of_nat[OF assms(6)] read_holds[OF m'(2), of k]
      deserialize_serialize[OF assms(1,2)]
    by (simp add: decrypt_password_def Let_def scast_of_nat)
  moreover have "encrypt_password \<lparr>pkey_size = of_nat k, public_encrypt = (\<lambda>_. None), private_decrypt = private_decrypt rsa\<rparr> p out m =
      Inr (2 ^ 64 - 1, m)"
    using ser(1) by (simp add: encrypt_password_def Let_def)
  ultimately show ?thesis by blast
qed

section \<open>A cipher that keeps to the manual\<close>

text \<open>It writes the bytes it is given, in blocks.\<close>

definition emit_between :: "(nat \<Rightarrow> nat) \<Rightarrow> u8 list \<Rightarrow> u8 list \<Rightarrow> u8 list" where
  "emit_between written c xs = take (written (length (c @ xs)) - written (length c)) (drop (written (length c)) (c @ xs))"

definition plain_cipher :: "u8 list evp" where
  "plain_cipher = \<lparr>ctx_new = Some [], key_length = 32, iv_length = 16, encrypt_init = (\<lambda>c k i. (c, True)),
     decrypt_init = (\<lambda>c k i. (c, True)), ctx_block_size = (\<lambda>c. 16),
     encrypt_update = (\<lambda>c xs. (c @ xs, Some (emit_between (\<lambda>n. 16 * (n div 16)) c xs))), encrypt_final = (\<lambda>c. (c, Some (replicate 16 16))),
     decrypt_update = (\<lambda>c xs. (c @ xs, Some (emit_between (\<lambda>n. 16 * ((n - 1) div 16)) c xs))), decrypt_final = (\<lambda>c. (c, None))\<rparr>"

lemma emit_between_length: "written (length c + length xs) \<le> length c + length xs \<Longrightarrow>
    length (emit_between written c xs) = written (length c + length xs) - written (length c)"
  by (simp add: emit_between_def)

lemma plain_cipher_encrypts: "encrypts_blocks plain_cipher length"
  by (simp add: encrypts_blocks_def writes_blocks_def plain_cipher_def emit_between_length)

definition plain_cryptor :: "u8 list cryptor" where
  "plain_cryptor = \<lparr>cipher_context = Some [], cipher_password = password_new (\<lambda>_. 0) (\<lambda>_. 0), cipher_error = False, fed = []\<rparr>"

lemma sevens: "holds (\<lambda>_. Some 7) a (replicate n 7)" "allocated (\<lambda>_. Some 7) d k"
  by (simp_all add: holds_def allocated_def)

theorem encryption_feeds_text_witness:
  "\<exists>e' m'. encrypt_loop plain_cipher \<lparr>base = 0, bsize = 20\<rparr> \<lparr>base = 100, bsize = 64\<rparr> \<lparr>base = 100, bsize = 0\<rparr> plain_cryptor (\<lambda>_. Some 7) =
     Some (Inr (\<lparr>base = 16, bsize = 4\<rparr>, \<lparr>base = 116, bsize = 48\<rparr>, \<lparr>base = 100, bsize = 16\<rparr>, e', m')) \<and> fed e' = replicate 20 7"
  using encryption_feeds_text[OF plain_cipher_encrypts, of plain_cryptor "[]" "\<lambda>_. Some 7" 0 "replicate 20 7" 100 64]
  by (auto simp: plain_cryptor_def sevens apart_def)

text \<open>A key of 128 bytes that pads.\<close>

definition plain_rsa :: rsa where
  "plain_rsa = \<lparr>pkey_size = 128, public_encrypt = (\<lambda>xs. Some (xs @ replicate (128 - length xs) 0)),
     private_decrypt = (\<lambda>ys. Some (take 51 ys))\<rparr>"

theorem password_travels_witness:
  "\<exists>m'. encrypt_password plain_rsa (password_new (\<lambda>_. 1) (\<lambda>_. 2)) \<lparr>base = 100, bsize = 128\<rparr> (\<lambda>_. Some 7) = Inr (128, m') \<and>
     decrypt_password plain_rsa \<lparr>base = 100, bsize = 128\<rparr> (password_new (\<lambda>_. 3) (\<lambda>_. 4)) m' =
       Inr (51, password_new (\<lambda>_. 1) (\<lambda>_. 2))"
proof -
  have ok: "password_ok (password_new f g)" for f g by (simp add: password_ok_def password_new_def block_random_def)
  have "\<forall>xs. length xs = 51 \<longrightarrow> (\<exists>ys. public_encrypt plain_rsa xs = Some ys \<and> length ys = 128 \<and> private_decrypt plain_rsa ys = Some xs)"
    by (simp add: plain_rsa_def)
  from password_travels[OF ok ok this, where m = "\<lambda>_. Some 7" and d = 100 and out = "\<lparr>base = 100, bsize = 128\<rparr>"]
  show ?thesis by (simp add: sevens plain_rsa_def)
qed

end
