(* ===== verification/Ex_Signal.thy ===== *)
theory Ex_Signal
  imports Prelude "HOL-Library.Sublist"
begin

text \<open>
  Signals over lists of types, \<open>exercises/signal/\<close>: the type lists of \<open>type_list.h\<close>, and the connections, emitters,
  switchboards and managers of \<open>main.cpp\<close>. Shared pointers are addresses with a count of their owners; a weak pointer is an
  address whose object may be gone, or empty. An emission works on a copy of what it calls, so it is the
  list of the filters and slots it runs, in their order.
\<close>

section \<open>Type lists\<close>

text \<open>A type is a list, the null type or any other type. A template without a body for its arguments has no result.\<close>

datatype cpp_type = Null_type | Type_list (tl_head: cpp_type) (tl_tail: cpp_type) | Type_name nat

fun type_length :: "cpp_type \<Rightarrow> int option" where
  "type_length Null_type = Some 0"
| "type_length (Type_list h t) = map_option (\<lambda>n. 1 + n) (type_length t)"
| "type_length (Type_name n) = None"

fun type_at :: "cpp_type \<Rightarrow> nat \<Rightarrow> cpp_type option" where
  "type_at (Type_list h t) 0 = Some h"
| "type_at (Type_list h t) (Suc i) = type_at t i"
| "type_at _ i = None"

fun type_index_of :: "cpp_type \<Rightarrow> cpp_type \<Rightarrow> int option" where
  "type_index_of Null_type x = Some (- 1)"
| "type_index_of (Type_list h t) x =
     (if h = x then Some 0 else map_option (\<lambda>temp. if temp < 0 then - 1 else temp + 1) (type_index_of t x))"
| "type_index_of (Type_name n) x = None"

fun type_append :: "cpp_type \<Rightarrow> cpp_type \<Rightarrow> cpp_type option" where
  "type_append Null_type Null_type = Some Null_type"
| "type_append Null_type (Type_name n) = Some (Type_list (Type_name n) Null_type)"
| "type_append Null_type (Type_list h t) = Some (Type_list h t)"
| "type_append (Type_list h t) x = map_option (Type_list h) (type_append t x)"
| "type_append (Type_name n) x = None"

fun type_extends :: "cpp_type \<Rightarrow> cpp_type \<Rightarrow> bool option" where
  "type_extends x Null_type = Some True"
| "type_extends Null_type x = Some False"
| "type_extends (Type_list h1 t1) (Type_list h2 t2) =
     map_option (\<lambda>r. r \<and> h1 = h2) (type_extends t1 t2)"
| "type_extends _ _ = None"

text \<open>The objects made for the types of a list, in its order.\<close>

fun type_allocate :: "cpp_type \<Rightarrow> (cpp_type \<Rightarrow> 'a) \<Rightarrow> 'a list option" where
  "type_allocate Null_type new = Some []"
| "type_allocate (Type_list h t) new = map_option (\<lambda>as. new h # as) (type_allocate t new)"
| "type_allocate (Type_name n) new = None"

fun type_list :: "cpp_type list \<Rightarrow> cpp_type" where
  "type_list [] = Null_type"
| "type_list (t # ts) = Type_list t (type_list ts)"

text \<open>What the templates compute for a list of types.\<close>

definition first_index :: "'a \<Rightarrow> 'a list \<Rightarrow> int" where
  "first_index x xs = (if x \<in> set xs then int (length (takeWhile (\<lambda>y. y \<noteq> x) xs)) else - 1)"

lemma type_index_of_list: "type_index_of (type_list ts) t = Some (first_index t ts)"
  by (induction ts) (auto simp: first_index_def)

theorem type_lists_compute:
  "type_length (type_list ts) = Some (int (length ts)) \<and>
   (\<forall>i. type_at (type_list ts) i = (if i < length ts then Some (ts ! i) else None)) \<and>
   type_index_of (type_list ts) t = Some (first_index t ts) \<and>
   type_append (type_list ts) (type_list us) = Some (type_list (ts @ us)) \<and>
   type_append (type_list ts) (Type_name n) = Some (type_list (ts @ [Type_name n])) \<and>
   type_extends (type_list ts) (type_list us) = Some (prefix us ts) \<and>
   type_allocate (type_list ts) new = Some (map new ts)"
proof (intro conjI allI)
  show "type_length (type_list ts) = Some (int (length ts))" by (induction ts) auto
  show "type_at (type_list ts) i = (if i < length ts then Some (ts ! i) else None)" for i
    by (induction ts arbitrary: i; case_tac i) auto
  show "type_append (type_list ts) (type_list us) = Some (type_list (ts @ us))"
    by (induction ts; cases us) auto
  show "type_append (type_list ts) (Type_name n) = Some (type_list (ts @ [Type_name n]))" by (induction ts) auto
  show "type_extends (type_list ts) (type_list us) = Some (prefix us ts)"
  proof (induction ts arbitrary: us)
    case Nil
    then show ?case by (cases us) auto
  next
    case (Cons t ts)
    then show ?case by (cases us) auto
  qed
  show "type_allocate (type_list ts) new = Some (map new ts)" by (induction ts) auto
qed (rule type_index_of_list)

section \<open>Connections and emitters\<close>

text \<open>A slot and a filter are named; what a filter answers to a message is an argument of an emission.\<close>

record ('f, 's) connection_state =
  slot :: 's
  filters :: "'f list"
  disconnected :: bool
  blocked :: bool
  conn_owners :: nat

record emitter_state =
  connections :: "nat list"
  emitter_owners :: nat

text \<open>The heap of one switchboard, and the weak pointers of its names.\<close>

record ('f, 's) switchboard =
  conn_heap :: "('f, 's) connection_state list"
  emitter_heap :: "emitter_state list"
  signal_state :: "(string, nat option) map"

definition switchboard_new :: "('f, 's) switchboard" where
  "switchboard_new = \<lparr>conn_heap = [], emitter_heap = [], signal_state = Map.empty\<rparr>"

definition conn_expired :: "('f, 's) switchboard \<Rightarrow> nat \<Rightarrow> bool" where
  "conn_expired sb c = (conn_owners (conn_heap sb ! c) = 0)"

definition emitter_expired :: "('f, 's) switchboard \<Rightarrow> nat option \<Rightarrow> bool" where
  "emitter_expired sb e = (case e of None \<Rightarrow> True | Some i \<Rightarrow> emitter_owners (emitter_heap sb ! i) = 0)"

definition update_conn ::
    "nat \<Rightarrow> (('f, 's) connection_state \<Rightarrow> ('f, 's) connection_state) \<Rightarrow> ('f, 's) switchboard \<Rightarrow> ('f, 's) switchboard" where
  "update_conn c f sb = sb\<lparr>conn_heap := (conn_heap sb)[c := f (conn_heap sb ! c)]\<rparr>"

definition update_emitter :: "nat \<Rightarrow> (emitter_state \<Rightarrow> emitter_state) \<Rightarrow> ('f, 's) switchboard \<Rightarrow> ('f, 's) switchboard" where
  "update_emitter e f sb = sb\<lparr>emitter_heap := (emitter_heap sb)[e := f (emitter_heap sb ! e)]\<rparr>"

text \<open>A connection is its name and its owned state.\<close>

record connection =
  conn_name :: string
  conn_state :: nat

definition conn_disconnect :: "connection \<Rightarrow> ('f, 's) switchboard \<Rightarrow> ('f, 's) switchboard" where
  "conn_disconnect c = update_conn (conn_state c) (\<lambda>s. s\<lparr>disconnected := True\<rparr>)"

definition conn_block :: "connection \<Rightarrow> ('f, 's) switchboard \<Rightarrow> ('f, 's) switchboard" where
  "conn_block c = update_conn (conn_state c) (\<lambda>s. s\<lparr>blocked := True\<rparr>)"

definition conn_unblock :: "connection \<Rightarrow> ('f, 's) switchboard \<Rightarrow> ('f, 's) switchboard" where
  "conn_unblock c = update_conn (conn_state c) (\<lambda>s. s\<lparr>blocked := False\<rparr>)"

definition conn_filter :: "connection \<Rightarrow> 'f \<Rightarrow> ('f, 's) switchboard \<Rightarrow> ('f, 's) switchboard" where
  "conn_filter c f = update_conn (conn_state c) (\<lambda>s. s\<lparr>filters := filters s @ [f]\<rparr>)"

text \<open>A copy of a connection is one more owner of its state; the end of a connection is one less.\<close>

definition conn_copy :: "connection \<Rightarrow> ('f, 's) switchboard \<Rightarrow> ('f, 's) switchboard" where
  "conn_copy c = update_conn (conn_state c) (\<lambda>s. s\<lparr>conn_owners := conn_owners s + 1\<rparr>)"

definition conn_destroy :: "connection \<Rightarrow> ('f, 's) switchboard \<Rightarrow> ('f, 's) switchboard" where
  "conn_destroy c = update_conn (conn_state c) (\<lambda>s. s\<lparr>conn_owners := conn_owners s - 1\<rparr>)"

text \<open>The active calls are copies of the slot and the filters.\<close>

definition get_call_state :: "nat \<Rightarrow> ('f, 's) switchboard \<Rightarrow> ('s \<times> 'f list) list" where
  "get_call_state e sb =
     map (\<lambda>c. (slot (conn_heap sb ! c), filters (conn_heap sb ! c)))
       (filter (\<lambda>c. \<not> conn_expired sb c \<and> \<not> disconnected (conn_heap sb ! c) \<and> \<not> blocked (conn_heap sb ! c))
         (connections (emitter_heap sb ! e)))"

datatype ('f, 's) call_event = Filter_run 'f bool | Slot_run 's

fun run_filters :: "('f \<Rightarrow> bool) \<Rightarrow> 'f list \<Rightarrow> ('f, 's) call_event list \<times> bool" where
  "run_filters stops [] = ([], False)"
| "run_filters stops (f # fs) =
     (if stops f then ([Filter_run f True], True)
      else (let (es, filtered) = run_filters stops fs in (Filter_run f False # es, filtered)))"

text \<open>A message that is filtered ends the loop over the connections.\<close>

fun emit_calls :: "('f \<Rightarrow> bool) \<Rightarrow> ('s \<times> 'f list) list \<Rightarrow> ('f, 's) call_event list" where
  "emit_calls stops [] = []"
| "emit_calls stops ((s, fs) # active) =
     (let (es, filtered) = run_filters stops fs
      in if filtered then es else es @ Slot_run s # emit_calls stops active)"

record signal =
  sig_name :: string
  sig_emitter :: nat

definition signal_emit :: "('f \<Rightarrow> 'm \<Rightarrow> bool) \<Rightarrow> signal \<Rightarrow> 'm \<Rightarrow> ('f, 's) switchboard \<Rightarrow> ('f, 's) call_event list" where
  "signal_emit answers sig data sb = emit_calls (\<lambda>f. answers f data) (get_call_state (sig_emitter sig) sb)"

definition signal_copy :: "signal \<Rightarrow> ('f, 's) switchboard \<Rightarrow> ('f, 's) switchboard" where
  "signal_copy sig = update_emitter (sig_emitter sig) (\<lambda>e. e\<lparr>emitter_owners := emitter_owners e + 1\<rparr>)"

definition signal_destroy :: "signal \<Rightarrow> ('f, 's) switchboard \<Rightarrow> ('f, 's) switchboard" where
  "signal_destroy sig = update_emitter (sig_emitter sig) (\<lambda>e. e\<lparr>emitter_owners := emitter_owners e - 1\<rparr>)"

section \<open>The switchboard\<close>

definition signal_add_if_missing :: "string \<Rightarrow> ('f, 's) switchboard \<Rightarrow> nat \<times> ('f, 's) switchboard" where
  "signal_add_if_missing name sb =
     (let sb = (if signal_state sb name = None then sb\<lparr>signal_state := (signal_state sb)(name \<mapsto> None)\<rparr> else sb);
          weak = the (signal_state sb name)
      in if emitter_expired sb weak
         then (let state = length (emitter_heap sb)
               in (state, sb\<lparr>emitter_heap := emitter_heap sb @ [\<lparr>connections = [], emitter_owners = 1\<rparr>],
                    signal_state := (signal_state sb)(name \<mapsto> Some state)\<rparr>))
         else (let state = the weak in (state, update_emitter state (\<lambda>e. e\<lparr>emitter_owners := emitter_owners e + 1\<rparr>) sb)))"

definition get_signal :: "string \<Rightarrow> ('f, 's) switchboard \<Rightarrow> signal \<times> ('f, 's) switchboard" where
  "get_signal name sb = (let (e, sb) = signal_add_if_missing name sb in (\<lparr>sig_name = name, sig_emitter = e\<rparr>, sb))"

text \<open>No emitter: \<open>signal_error\<close> is thrown.\<close>

definition signal_exception_if_missing :: "string \<Rightarrow> ('f, 's) switchboard \<Rightarrow> nat option" where
  "signal_exception_if_missing name sb =
     (case signal_state sb name of
        None \<Rightarrow> None
      | Some weak \<Rightarrow> if emitter_expired sb weak then None else weak)"

definition board_connect :: "string \<Rightarrow> 's \<Rightarrow> ('f, 's) switchboard \<Rightarrow> (connection \<times> ('f, 's) switchboard) option" where
  "board_connect name func sb =
     (case signal_exception_if_missing name sb of
        None \<Rightarrow> None
      | Some e \<Rightarrow>
          (let c = length (conn_heap sb);
               sb = sb\<lparr>conn_heap := conn_heap sb @ [\<lparr>slot = func, filters = [], disconnected = False, blocked = False, conn_owners = 1\<rparr>]\<rparr>;
               sb = update_emitter e (\<lambda>s. s\<lparr>connections := connections s @ [c]\<rparr>) sb
           in Some (\<lparr>conn_name = name, conn_state = c\<rparr>, sb)))"

section \<open>Managers\<close>

text \<open>A manager is the list of its switchboards, addresses in the store of all of them; a copied manager shares those of the
  original. \<open>switchboard_base\<close> has no virtual destructor, so deleting a switchboard through it is undefined; \<open>lenient\<close> is a
  platform that does nothing then.\<close>

type_synonym ('f, 's) board_store = "('f, 's) switchboard list"

definition initialize_switchboards :: "cpp_type \<Rightarrow> ('f, 's) board_store \<Rightarrow> (nat list \<times> ('f, 's) board_store) option" where
  "initialize_switchboards types store =
     map_option (\<lambda>new. ([length store..<length store + length new], store @ new))
       (type_allocate types (\<lambda>t. switchboard_new))"

fun copy_dispatchers :: "bool \<Rightarrow> nat list \<Rightarrow> nat \<Rightarrow> nat list \<Rightarrow> nat list outcome" where
  "copy_dispatchers lenient [] i own = Inr own"
| "copy_dispatchers lenient (d # ds) i own =
     (if i \<ge> length own then Inl Out_of_bounds
      else if \<not> lenient then Inl Undefined
      else copy_dispatchers lenient ds (Suc i) (own[i := d]))"

definition manager_extend ::
    "bool \<Rightarrow> bool \<Rightarrow> cpp_type \<Rightarrow> cpp_type \<Rightarrow> nat list \<Rightarrow> ('f, 's) board_store \<Rightarrow> (nat list \<times> ('f, 's) board_store) outcome option" where
  "manager_extend debug lenient types copy_types r store =
     (case (initialize_switchboards types store, type_extends types copy_types) of
        (Some (own, store), Some ext) \<Rightarrow>
          Some (and_then (assertf debug ext) (\<lambda>_.
                and_then (copy_dispatchers lenient r 0 own) (\<lambda>own. Inr (own, store))))
      | _ \<Rightarrow> None)"

text \<open>The switchboard of a message; none when \<open>signal_error\<close> is thrown.\<close>

definition get_switchboard :: "cpp_type \<Rightarrow> cpp_type \<Rightarrow> nat list \<Rightarrow> nat option" where
  "get_switchboard types message m =
     (case type_index_of types message of
        Some i \<Rightarrow> if i < 0 then None else Some (m ! nat i)
      | None \<Rightarrow> None)"

definition manager_get_signal ::
    "cpp_type \<Rightarrow> cpp_type \<Rightarrow> string \<Rightarrow> nat list \<Rightarrow> ('f, 's) board_store \<Rightarrow> (signal \<times> ('f, 's) board_store) option" where
  "manager_get_signal types message name m store =
     (case get_switchboard types message m of
        None \<Rightarrow> None
      | Some b \<Rightarrow> (let (s, sb) = get_signal name (store ! b) in Some (s, store[b := sb])))"

definition manager_connect ::
    "cpp_type \<Rightarrow> cpp_type \<Rightarrow> string \<Rightarrow> 's \<Rightarrow> nat list \<Rightarrow> ('f, 's) board_store \<Rightarrow> (connection \<times> ('f, 's) board_store) option" where
  "manager_connect types message name func m store =
     (case get_switchboard types message m of
        None \<Rightarrow> None
      | Some b \<Rightarrow> map_option (\<lambda>(c, sb). (c, store[b := sb])) (board_connect name func (store ! b)))"

section \<open>The program\<close>

text \<open>The messages \<open>A\<close> and \<open>int\<close> are their numbers, a filter is the number it stops, a slot what \<open>main\<close> gives to \<open>connect\<close>.\<close>

datatype main_slot = Handler int | Callback int | Err

definition type_A :: cpp_type where
  "type_A = Type_name 0"

definition type_int :: cpp_type where
  "type_int = Type_name 1"

definition type_list_1 :: cpp_type where
  "type_list_1 = Type_list type_A Null_type"

definition type_list_2 :: cpp_type where
  "type_list_2 = Type_list type_A (Type_list type_int Null_type)"

definition filter_answers :: "int \<Rightarrow> int \<Rightarrow> bool" where
  "filter_answers b value = (value = b)"

definition main_emit :: "nat \<Rightarrow> signal \<Rightarrow> int \<Rightarrow> (int, main_slot) board_store \<Rightarrow> (int, main_slot) call_event list" where
  "main_emit b sig a store = signal_emit filter_answers sig a (store ! b)"

definition on_board :: "nat \<Rightarrow> (('f, 's) switchboard \<Rightarrow> ('f, 's) switchboard) \<Rightarrow> ('f, 's) board_store \<Rightarrow> ('f, 's) board_store" where
  "on_board b f store = store[b := f (store ! b)]"

definition main_signals :: "bool \<Rightarrow> bool \<Rightarrow> (int, main_slot) call_event list outcome option" where
  "main_signals debug lenient =
     Option.bind (initialize_switchboards type_list_1 []) (\<lambda>(sm1, st).
     Option.bind (manager_extend debug lenient type_list_2 type_list_1 sm1 st) (\<lambda>r.
     case r of Inl e \<Rightarrow> Some (Inl e) | Inr (sm2, st) \<Rightarrow>
     Option.bind (manager_get_signal type_list_1 type_A ''my signal 1'' sm1 st) (\<lambda>(sig1, st).
     Option.bind (manager_get_signal type_list_1 type_A ''my signal 1'' sm1 st) (\<lambda>(sig11, st).
     Option.bind (manager_get_signal type_list_1 type_A ''my signal 2'' sm1 st) (\<lambda>(sig2, st).
     Option.bind (manager_get_signal type_list_2 type_int ''my signal 2'' sm2 st) (\<lambda>(s, st).
     Option.bind (manager_connect type_list_2 type_int ''my signal 2'' Err sm2 st) (\<lambda>(c, st).
     Option.bind (get_switchboard type_list_2 type_int sm2) (\<lambda>b2.
     let out1 = main_emit b2 s 101 st;
         st = on_board b2 (signal_destroy s) (on_board b2 (conn_destroy c) st)
     in
     Option.bind (manager_connect type_list_1 type_A ''my signal 1'' (Handler 1) sm1 st) (\<lambda>(c1, st).
     Option.bind (manager_connect type_list_1 type_A ''my signal 2'' (Callback 6) sm1 st) (\<lambda>(c2, st).
     Option.bind (get_switchboard type_list_1 type_A sm1) (\<lambda>b1.
     let st = on_board b1 (conn_block c1) st;
         out2 = main_emit b1 sig1 5 st;
         st = on_board b1 (conn_unblock c1) st;
         out3 = main_emit b1 sig11 5 st;
         st = on_board b1 (conn_filter c2 9) st;
         out4 = main_emit b1 sig2 9 st
     in Some (Inr (out1 @ out2 @ out3 @ out4)))))))))))))"

section \<open>What an emission runs\<close>

fun slots_run :: "('f, 's) call_event list \<Rightarrow> 's list" where
  "slots_run [] = []"
| "slots_run (Slot_run s # es) = s # slots_run es"
| "slots_run (Filter_run f b # es) = slots_run es"

lemma slots_run_append [simp]: "slots_run (es @ fs) = slots_run es @ slots_run fs"
  by (induction es rule: slots_run.induct) auto

lemma run_filters_result:
  "run_filters stops fs = (es, filtered) \<Longrightarrow> filtered = (\<exists>f\<in>set fs. stops f) \<and> slots_run es = []"
  by (induction fs arbitrary: es filtered) (auto split: if_splits prod.splits)

lemma main_runs:
  "main_signals True True = Some (Inr [Slot_run Err, Slot_run (Handler 1), Filter_run 9 True])"
  "main_signals False True = Some (Inr [Slot_run Err, Slot_run (Handler 1), Filter_run 9 True])"
  "main_signals True False = Some (Inl Undefined)" "main_signals False False = Some (Inl Undefined)"
  by code_simp+

text \<open>The slots that run are those of the active connections up to the first whose filter stops the message: it silences
  every connection after its own.\<close>

theorem emission_stops_at_filter:
  "slots_run (emit_calls stops active) = map fst (takeWhile (\<lambda>(s, fs). \<forall>f\<in>set fs. \<not> stops f) active) \<and>
   main_signals debug True = Some (Inr [Slot_run Err, Slot_run (Handler 1), Filter_run 9 True]) \<and>
   main_signals debug False = Some (Inl Undefined)"
proof (intro conjI)
  show "slots_run (emit_calls stops active) = map fst (takeWhile (\<lambda>(s, fs). \<forall>f\<in>set fs. \<not> stops f) active)"
  proof (induction active)
    case (Cons a active)
    obtain s fs where a: "a = (s, fs)" by (cases a)
    show ?case using Cons.IH by (auto simp: a dest!: run_filters_result split: prod.split)
  qed simp
  show "main_signals debug True = Some (Inr [Slot_run Err, Slot_run (Handler 1), Filter_run 9 True])"
    by (cases debug) (simp_all only: main_runs)
  show "main_signals debug False = Some (Inl Undefined)"
    by (cases debug) (simp_all only: main_runs)
qed

section \<open>Names, emitters and connections\<close>

text \<open>Addresses lie in the heaps, a connection belongs to one emitter, and no two names share an emitter.\<close>

definition board_ok :: "('f, 's) switchboard \<Rightarrow> bool" where
  "board_ok sb \<longleftrightarrow>
     (\<forall>e<length (emitter_heap sb). set (connections (emitter_heap sb ! e)) \<subseteq> {..<length (conn_heap sb)} \<and>
        distinct (connections (emitter_heap sb ! e))) \<and>
     (\<forall>e<length (emitter_heap sb). \<forall>f<length (emitter_heap sb). e \<noteq> f \<longrightarrow>
        set (connections (emitter_heap sb ! e)) \<inter> set (connections (emitter_heap sb ! f)) = {}) \<and>
     (\<forall>name e. signal_state sb name = Some (Some e) \<longrightarrow> e < length (emitter_heap sb)) \<and>
     (\<forall>n1 n2 e. signal_state sb n1 = Some (Some e) \<longrightarrow> signal_state sb n2 = Some (Some e) \<longrightarrow> n1 = n2)"

lemma board_okI:
  assumes "\<And>e. e < length (emitter_heap sb) \<Longrightarrow>
      set (connections (emitter_heap sb ! e)) \<subseteq> {..<length (conn_heap sb)} \<and> distinct (connections (emitter_heap sb ! e))"
    "\<And>e f. e < length (emitter_heap sb) \<Longrightarrow> f < length (emitter_heap sb) \<Longrightarrow> e \<noteq> f \<Longrightarrow>
      set (connections (emitter_heap sb ! e)) \<inter> set (connections (emitter_heap sb ! f)) = {}"
    "\<And>name e. signal_state sb name = Some (Some e) \<Longrightarrow> e < length (emitter_heap sb)"
    "\<And>n1 n2 e. signal_state sb n1 = Some (Some e) \<Longrightarrow> signal_state sb n2 = Some (Some e) \<Longrightarrow> n1 = n2"
  shows "board_ok sb"
  unfolding board_ok_def using assms by metis

lemma board_okD:
  assumes "board_ok sb"
  shows "e < length (emitter_heap sb) \<Longrightarrow>
      set (connections (emitter_heap sb ! e)) \<subseteq> {..<length (conn_heap sb)} \<and> distinct (connections (emitter_heap sb ! e))"
    "e < length (emitter_heap sb) \<Longrightarrow> f < length (emitter_heap sb) \<Longrightarrow> e \<noteq> f \<Longrightarrow>
      set (connections (emitter_heap sb ! e)) \<inter> set (connections (emitter_heap sb ! f)) = {}"
    "signal_state sb name = Some (Some e) \<Longrightarrow> e < length (emitter_heap sb)"
    "signal_state sb n1 = Some (Some e) \<Longrightarrow> signal_state sb n2 = Some (Some e) \<Longrightarrow> n1 = n2"
  using assms by (simp_all add: board_ok_def)

inductive board_step :: "('f, 's) switchboard \<Rightarrow> ('f, 's) switchboard \<Rightarrow> bool" where
  step_get: "board_step sb (snd (get_signal name sb))"
| step_connect: "board_connect name func sb = Some (c, t) \<Longrightarrow> board_step sb t"
| step_disconnect: "board_step sb (conn_disconnect c sb)"
| step_block: "board_step sb (conn_block c sb)"
| step_unblock: "board_step sb (conn_unblock c sb)"
| step_filter: "board_step sb (conn_filter c f sb)"
| step_copy: "board_step sb (conn_copy c sb)"
| step_drop: "board_step sb (conn_destroy c sb)"
| step_signal_copy: "board_step sb (signal_copy s sb)"
| step_signal_drop: "board_step sb (signal_destroy s sb)"

inductive board_reachable :: "('f, 's) switchboard \<Rightarrow> bool" where
  board_start: "board_reachable switchboard_new"
| board_more: "board_reachable sb \<Longrightarrow> board_step sb t \<Longrightarrow> board_reachable t"

lemma board_ok_conn: "board_ok sb \<Longrightarrow> board_ok (update_conn c f sb)"
  by (simp add: board_ok_def update_conn_def)

lemma connections_update:
  assumes "\<And>e. connections (f e) = connections e" "x < length es"
  shows "connections (es[k := f (es ! k)] ! x) = connections (es ! x)"
  using assms by (cases "k = x") auto

lemma board_ok_emitter: "(\<And>e. connections (f e) = connections e) \<Longrightarrow> board_ok sb \<Longrightarrow> board_ok (update_emitter k f sb)"
  unfolding board_ok_def update_emitter_def by (auto simp: connections_update)

lemma get_signal_cases:
  "get_signal name sb =
    (case signal_state sb name of
       Some (Some e) \<Rightarrow>
         if emitter_owners (emitter_heap sb ! e) \<noteq> 0
         then (\<lparr>sig_name = name, sig_emitter = e\<rparr>, update_emitter e (\<lambda>s. s\<lparr>emitter_owners := emitter_owners s + 1\<rparr>) sb)
         else (\<lparr>sig_name = name, sig_emitter = length (emitter_heap sb)\<rparr>,
           sb\<lparr>emitter_heap := emitter_heap sb @ [\<lparr>connections = [], emitter_owners = 1\<rparr>],
             signal_state := (signal_state sb)(name \<mapsto> Some (length (emitter_heap sb)))\<rparr>)
     | _ \<Rightarrow> (\<lparr>sig_name = name, sig_emitter = length (emitter_heap sb)\<rparr>,
           sb\<lparr>emitter_heap := emitter_heap sb @ [\<lparr>connections = [], emitter_owners = 1\<rparr>],
             signal_state := (signal_state sb)(name \<mapsto> Some (length (emitter_heap sb)))\<rparr>))"
  by (auto simp: get_signal_def signal_add_if_missing_def emitter_expired_def Let_def split: option.splits)

lemma board_ok_new_emitter:
  assumes "board_ok sb"
  shows "board_ok (sb\<lparr>emitter_heap := emitter_heap sb @ [\<lparr>connections = [], emitter_owners = 1\<rparr>],
    signal_state := (signal_state sb)(name \<mapsto> Some (length (emitter_heap sb)))\<rparr>)" (is "board_ok ?t")
proof (rule board_okI)
  have conns: "connections (emitter_heap ?t ! e) = (if e < length (emitter_heap sb) then connections (emitter_heap sb ! e) else [])"
    if "e < length (emitter_heap ?t)" for e
    using that by (auto simp: nth_append)
  show "set (connections (emitter_heap ?t ! e)) \<subseteq> {..<length (conn_heap ?t)} \<and> distinct (connections (emitter_heap ?t ! e))"
    if "e < length (emitter_heap ?t)" for e
    unfolding conns[OF that] using board_okD(1)[OF assms, of e] by simp
  show "set (connections (emitter_heap ?t ! e)) \<inter> set (connections (emitter_heap ?t ! f)) = {}"
    if "e < length (emitter_heap ?t)" "f < length (emitter_heap ?t)" "e \<noteq> f" for e f
    using board_okD(2)[OF assms, of e f] that(3) unfolding conns[OF that(1)] conns[OF that(2)]
    by (cases "e < length (emitter_heap sb)"; cases "f < length (emitter_heap sb)") simp_all
  show "e < length (emitter_heap ?t)" if "signal_state ?t n = Some (Some e)" for n e
    using that board_okD(3)[OF assms, of n e] by (auto split: if_splits)
  show "n1 = n2" if "signal_state ?t n1 = Some (Some e)" "signal_state ?t n2 = Some (Some e)" for n1 n2 e
    using that board_okD(3)[OF assms, of n1 e] board_okD(3)[OF assms, of n2 e] board_okD(4)[OF assms, of n1 e n2]
    by (auto split: if_splits)
qed

lemma board_ok_get: "board_ok sb \<Longrightarrow> board_ok (snd (get_signal name sb))"
  by (auto simp: get_signal_cases board_ok_new_emitter board_ok_emitter simp del: One_nat_def split: option.split)

lemma connect_eq:
  "board_connect name func sb = Some (c, t) \<longleftrightarrow>
   (\<exists>e. signal_state sb name = Some (Some e) \<and> emitter_owners (emitter_heap sb ! e) \<noteq> 0 \<and>
     c = \<lparr>conn_name = name, conn_state = length (conn_heap sb)\<rparr> \<and>
     t = update_emitter e (\<lambda>s. s\<lparr>connections := connections s @ [length (conn_heap sb)]\<rparr>)
          (sb\<lparr>conn_heap := conn_heap sb @ [\<lparr>slot = func, filters = [], disconnected = False, blocked = False, conn_owners = 1\<rparr>]\<rparr>))"
  by (auto simp: board_connect_def signal_exception_if_missing_def emitter_expired_def Let_def split: option.splits if_splits)

lemma board_ok_connect: "board_ok sb \<Longrightarrow> board_connect name func sb = Some (c, t) \<Longrightarrow> board_ok t"
proof -
  assume ok: "board_ok sb" and "board_connect name func sb = Some (c, t)"
  then obtain e where e: "signal_state sb name = Some (Some e)" and
    t: "t = update_emitter e (\<lambda>s. s\<lparr>connections := connections s @ [length (conn_heap sb)]\<rparr>)
          (sb\<lparr>conn_heap := conn_heap sb @ [\<lparr>slot = func, filters = [], disconnected = False, blocked = False, conn_owners = 1\<rparr>]\<rparr>)"
    unfolding connect_eq by blast
  have el: "e < length (emitter_heap sb)" using ok e by (auto simp: board_ok_def)
  let ?es = "emitter_heap t"
  have conns: "connections (?es ! x) = (if x = e then connections (emitter_heap sb ! e) @ [length (conn_heap sb)]
      else connections (emitter_heap sb ! x))" for x
    using el by (auto simp: t update_emitter_def)
  have len: "length ?es = length (emitter_heap sb)" "length (conn_heap t) = Suc (length (conn_heap sb))"
    "signal_state t = signal_state sb" by (simp_all add: t update_emitter_def)
  have below: "set (connections (emitter_heap sb ! x)) \<subseteq> {..<length (conn_heap sb)}" "distinct (connections (emitter_heap sb ! x))"
    if "x < length (emitter_heap sb)" for x using board_okD(1)[OF ok that] by simp_all
  show ?thesis
  proof (rule board_okI)
    show "set (connections (?es ! x)) \<subseteq> {..<length (conn_heap t)} \<and> distinct (connections (?es ! x))" if "x < length ?es" for x
      using below[of x] that unfolding conns len by (auto simp: less_Suc_eq)
    show "set (connections (?es ! x)) \<inter> set (connections (?es ! y)) = {}"
      if "x < length ?es" "y < length ?es" "x \<noteq> y" for x y
    proof -
      have "set (connections (emitter_heap sb ! x)) \<inter> set (connections (emitter_heap sb ! y)) = {}"
        using board_okD(2)[OF ok, of x y] that unfolding len by blast
      moreover have "length (conn_heap sb) \<notin> set (connections (emitter_heap sb ! x))"
        "length (conn_heap sb) \<notin> set (connections (emitter_heap sb ! y))"
        using below(1)[of x] below(1)[of y] that(1,2) unfolding len by blast+
      ultimately show ?thesis using that(3) unfolding conns by (cases "x = e"; cases "y = e") simp_all
    qed
    show "x < length ?es" if "signal_state t n = Some (Some x)" for n x
      using board_okD(3)[OF ok] that unfolding len by blast
    show "n1 = n2" if "signal_state t n1 = Some (Some x)" "signal_state t n2 = Some (Some x)" for n1 n2 x
      using board_okD(4)[OF ok] that unfolding len by blast
  qed
qed

lemma board_reachable_ok: "board_reachable sb \<Longrightarrow> board_ok sb"
proof (induction rule: board_reachable.induct)
  case board_start
  show ?case by (simp add: board_ok_def switchboard_new_def)
next
  case (board_more sb t)
  from board_more.hyps(2) board_more.IH show ?case
    by (cases rule: board_step.cases)
      (simp_all add: board_ok_get board_ok_connect board_ok_conn board_ok_emitter conn_disconnect_def conn_block_def
        conn_unblock_def conn_filter_def conn_copy_def conn_destroy_def signal_copy_def signal_destroy_def)
qed

definition live_calls :: "('f, 's) connection_state list \<Rightarrow> nat list \<Rightarrow> ('s \<times> 'f list) list" where
  "live_calls h cs = map (\<lambda>c. (slot (h ! c), filters (h ! c)))
     (filter (\<lambda>c. conn_owners (h ! c) \<noteq> 0 \<and> \<not> disconnected (h ! c) \<and> \<not> blocked (h ! c)) cs)"

lemma get_call_state_live: "get_call_state e sb = live_calls (conn_heap sb) (connections (emitter_heap sb ! e))"
  by (simp add: get_call_state_def live_calls_def conn_expired_def)

lemma live_calls_append: "live_calls h (cs @ ds) = live_calls h cs @ live_calls h ds"
  by (simp add: live_calls_def)

lemma live_calls_cong: "(\<And>c. c \<in> set cs \<Longrightarrow> h ! c = g ! c) \<Longrightarrow> live_calls h cs = live_calls g cs"
  by (induction cs) (auto simp: live_calls_def)

text \<open>What the owners of a connection do with it, one after the other. Somebody has to own the connection to do anything with it.\<close>

datatype 'f conn_op = Op_copy | Op_destroy | Op_disconnect | Op_block | Op_unblock | Op_filter 'f

fun conn_do :: "connection \<Rightarrow> 'f conn_op \<Rightarrow> ('f, 's) switchboard \<Rightarrow> ('f, 's) switchboard" where
  "conn_do c Op_copy = conn_copy c"
| "conn_do c Op_destroy = conn_destroy c"
| "conn_do c Op_disconnect = conn_disconnect c"
| "conn_do c Op_block = conn_block c"
| "conn_do c Op_unblock = conn_unblock c"
| "conn_do c (Op_filter f) = conn_filter c f"

fun owners_after :: "'f conn_op list \<Rightarrow> nat \<Rightarrow> nat option" where
  "owners_after [] n = Some n"
| "owners_after (x # ops) n =
     (if n = 0 then None else owners_after ops (case x of Op_copy \<Rightarrow> n + 1 | Op_destroy \<Rightarrow> n - 1 | _ \<Rightarrow> n))"

fun blocked_after :: "'f conn_op list \<Rightarrow> bool \<Rightarrow> bool" where
  "blocked_after [] b = b"
| "blocked_after (x # ops) b = blocked_after ops (case x of Op_block \<Rightarrow> True | Op_unblock \<Rightarrow> False | _ \<Rightarrow> b)"

fun filters_added :: "'f conn_op list \<Rightarrow> 'f list" where
  "filters_added [] = []"
| "filters_added (x # ops) = (case x of Op_filter f \<Rightarrow> [f] | _ \<Rightarrow> []) @ filters_added ops"

text \<open>The operations work on the state of the connection only.\<close>

fun conn_change :: "'f conn_op \<Rightarrow> ('f, 's) connection_state \<Rightarrow> ('f, 's) connection_state" where
  "conn_change Op_copy s = s\<lparr>conn_owners := conn_owners s + 1\<rparr>"
| "conn_change Op_destroy s = s\<lparr>conn_owners := conn_owners s - 1\<rparr>"
| "conn_change Op_disconnect s = s\<lparr>disconnected := True\<rparr>"
| "conn_change Op_block s = s\<lparr>blocked := True\<rparr>"
| "conn_change Op_unblock s = s\<lparr>blocked := False\<rparr>"
| "conn_change (Op_filter f) s = s\<lparr>filters := filters s @ [f]\<rparr>"

lemma conn_do_change: "conn_do c x = update_conn (conn_state c) (conn_change x)"
  by (cases x) (auto simp: conn_copy_def conn_destroy_def conn_disconnect_def conn_block_def conn_unblock_def conn_filter_def
      intro!: arg_cong[where f = "update_conn (conn_state c)"])

lemma conn_ops_change:
  "conn_state c < length (conn_heap sb) \<Longrightarrow>
   conn_heap (fold (conn_do c) ops sb) = (conn_heap sb)[conn_state c := fold conn_change ops (conn_heap sb ! conn_state c)] \<and>
   emitter_heap (fold (conn_do c) ops sb) = emitter_heap sb"
proof (induction ops arbitrary: sb)
  case (Cons x ops)
  show ?case using Cons.IH[of "conn_do c x sb"] Cons.prems by (simp add: conn_do_change update_conn_def)
qed simp

lemma conn_change_fields:
  "slot (fold conn_change ops s) = slot s"
  "filters (fold conn_change ops s) = filters s @ filters_added ops"
  "disconnected (fold conn_change ops s) = (disconnected s \<or> Op_disconnect \<in> set ops)"
  "blocked (fold conn_change ops s) = blocked_after ops (blocked s)"
proof (induction ops arbitrary: s)
  case (Cons x ops)
  { case 1 show ?case using Cons.IH(1)[of "conn_change x s"] by (cases x) simp_all }
  { case 2 show ?case using Cons.IH(2)[of "conn_change x s"] by (cases x) simp_all }
  { case 3 show ?case using Cons.IH(3)[of "conn_change x s"] by (cases x) auto }
  { case 4 show ?case using Cons.IH(4)[of "conn_change x s"] by (cases x) simp_all }
qed simp_all

lemma conn_change_owners: "owners_after ops (conn_owners s) = Some n \<Longrightarrow> conn_owners (fold conn_change ops s) = n"
proof (induction ops arbitrary: s)
  case (Cons x ops)
  then show ?case using Cons.IH[of "conn_change x s"] by (cases x) (auto split: if_splits)
qed simp

text \<open>An emission calls one more connection at the end of the others unless one of these stops the message.\<close>

lemma emit_calls_append:
  fixes xs ys :: "('s \<times> 'f list) list"
  shows "emit_calls stops (xs @ ys) =
    emit_calls stops xs @ (if \<forall>(s, fs)\<in>set xs. \<forall>f\<in>set fs. \<not> stops f then emit_calls stops ys else [])"
proof (induction xs)
  case (Cons x xs)
  obtain s fs where x: "x = (s, fs)" by (cases x)
  obtain es :: "('f, 's) call_event list" and b where r: "run_filters stops fs = (es, b)" by (metis surj_pair)
  show ?case using Cons.IH run_filters_result[OF r] by (auto simp: x r)
qed simp

text \<open>C35: A connection is among the active calls of its signal, behind those of the connections made before it and with the filters it
  was given, exactly while it has an owner, was never disconnected and is not blocked: after every sequence of copies, ends,
  disconnections, blocks, unblocks and filters by its owners. An emission then runs what it ran without the connection, and its
  filters and slot after that, unless a filter of an earlier connection stops the message. Other signals never call it.\<close>

theorem connection_lives_with_its_owner:
  assumes "board_reachable sb" "e < length (emitter_heap sb)" "board_connect name func sb = Some (c, t)"
    and "owners_after ops 1 = Some n" "sig_emitter sig = e"
    and live: "live \<longleftrightarrow> signal_state sb name = Some (Some e) \<and> n \<noteq> 0 \<and> Op_disconnect \<notin> set ops \<and> \<not> blocked_after ops False"
  shows "get_call_state e (fold (conn_do c) ops t) = get_call_state e sb @ (if live then [(func, filters_added ops)] else []) \<and>
    signal_emit answers sig data (fold (conn_do c) ops t) = signal_emit answers sig data sb @
      (if live \<and> (\<forall>(s, fs)\<in>set (get_call_state e sb). \<forall>f\<in>set fs. \<not> answers f data)
       then emit_calls (\<lambda>f. answers f data) [(func, filters_added ops)] else [])"
proof -
  have ok: "board_ok sb" by (rule board_reachable_ok[OF assms(1)])
  let ?new = "\<lparr>slot = func, filters = [], disconnected = False, blocked = False, conn_owners = 1\<rparr>"
  let ?u = "fold (conn_do c) ops t"
  obtain i where i: "signal_state sb name = Some (Some i)" and c: "conn_state c = length (conn_heap sb)" and
    t: "t = update_emitter i (\<lambda>s. s\<lparr>connections := connections s @ [length (conn_heap sb)]\<rparr>)
          (sb\<lparr>conn_heap := conn_heap sb @ [?new]\<rparr>)"
    using assms(3) unfolding connect_eq by auto
  have il: "i < length (emitter_heap sb)" by (rule board_okD(3)[OF ok i])
  have heap_t: "conn_heap t = conn_heap sb @ [?new]" by (simp add: t update_emitter_def)
  then have heap: "conn_heap ?u = conn_heap sb @ [fold conn_change ops ?new]" and em: "emitter_heap ?u = emitter_heap t"
    using conn_ops_change[of c t ops] c by simp_all
  have es: "connections (emitter_heap ?u ! e) = connections (emitter_heap sb ! e) @ (if i = e then [length (conn_heap sb)] else [])"
    using il em by (auto simp: t update_emitter_def)
  have old: "live_calls (conn_heap sb @ ys) (connections (emitter_heap sb ! e)) = get_call_state e sb" for ys
    unfolding get_call_state_live
    using board_okD(1)[OF ok assms(2)] by (intro live_calls_cong) (auto simp: nth_append)
  have n: "conn_owners (fold conn_change ops ?new) = n" using conn_change_owners[of ops ?new n] assms(4) by simp
  have calls: "get_call_state e ?u = get_call_state e sb @ (if live then [(func, filters_added ops)] else [])"
    unfolding get_call_state_live[of e ?u] es heap live_calls_append old live using i n
    by (simp add: live_calls_def conn_change_fields)
  then show ?thesis unfolding signal_emit_def assms(5) calls by (simp add: emit_calls_append)
qed

theorem connection_lives_with_its_owner_witness:
  "\<exists>c t. board_connect ''a'' (Handler 1) (snd (get_signal ''a'' (switchboard_new :: (int, main_slot) switchboard))) = Some (c, t) \<and>
     get_call_state 0 (fold (conn_do c) [Op_copy, Op_destroy, Op_block, Op_filter 5, Op_unblock] t) = [(Handler 1, [5])] \<and>
     signal_emit filter_answers \<lparr>sig_name = ''a'', sig_emitter = 0\<rparr> 6
       (fold (conn_do c) [Op_copy, Op_destroy, Op_block, Op_filter 5, Op_unblock] t) = [Filter_run 5 False, Slot_run (Handler 1)]"
proof -
  let ?sb = "snd (get_signal ''a'' (switchboard_new :: (int, main_slot) switchboard))"
  let ?ops = "[Op_copy, Op_destroy, Op_block, Op_filter 5, Op_unblock] :: int conn_op list"
  have r: "board_reachable ?sb" by (rule board_more[OF board_start step_get])
  have l: "0 < length (emitter_heap ?sb)" by code_simp
  obtain c t where c: "board_connect ''a'' (Handler 1) ?sb = Some (c, t)"
    by (simp add: board_connect_def signal_exception_if_missing_def emitter_expired_def get_signal_cases switchboard_new_def Let_def)
  have e: "get_call_state 0 ?sb = []" "signal_state ?sb ''a'' = Some (Some 0)" by code_simp+
  have o: "owners_after ?ops 1 = Some 1" by simp
  have live: "True \<longleftrightarrow> signal_state ?sb ''a'' = Some (Some 0) \<and> (1::nat) \<noteq> 0 \<and> Op_disconnect \<notin> set ?ops \<and> \<not> blocked_after ?ops False"
    using e(2) by simp
  have "signal_emit filter_answers \<lparr>sig_name = ''a'', sig_emitter = 0\<rparr> 6 ?sb = []" using e(1) by (simp add: signal_emit_def)
  then show ?thesis
    using connection_lives_with_its_owner[OF r l c o _ live, of "\<lparr>sig_name = ''a'', sig_emitter = 0\<rparr>" filter_answers 6] c e(1)
    by (intro exI[of _ c] exI[of _ t]) (simp add: filter_answers_def)
qed

text \<open>A name has one emitter while a signal of that name is alive, and none to connect to when the last is gone.\<close>

theorem signals_of_a_name:
  assumes "board_reachable sb"
  shows "(case get_signal name sb of (s, t) \<Rightarrow>
      sig_emitter s = sig_emitter (fst (get_signal name t)) \<and>
      (\<forall>other. other \<noteq> name \<longrightarrow> signal_state sb other \<noteq> Some (Some (sig_emitter s))) \<and>
      (\<exists>c u. board_connect name func t = Some (c, u)) \<and>
      (emitter_owners (emitter_heap t ! sig_emitter s) = 1 \<longrightarrow> board_connect name func (signal_destroy s t) = None))"
proof -
  have ok: "board_ok sb" by (rule board_reachable_ok[OF assms])
  obtain s t where g: "get_signal name sb = (s, t)" by (metis surj_pair)
  have live: "signal_state t name = Some (Some (sig_emitter s))" "emitter_owners (emitter_heap t ! sig_emitter s) \<noteq> 0"
    "sig_emitter s < length (emitter_heap t)"
    using g board_okD(3)[OF ok, of name]
    by (auto simp: get_signal_cases update_emitter_def split: option.splits if_splits)
  have "board_reachable t" using board_more[OF assms step_get[of sb name]] g by simp
  then have okt: "board_ok t" by (rule board_reachable_ok)
  have n1: "sig_emitter s = sig_emitter (fst (get_signal name t))" using live by (simp add: get_signal_cases)
  have n2: "signal_state sb other \<noteq> Some (Some (sig_emitter s))" if "other \<noteq> name" for other
  proof
    assume o: "signal_state sb other = Some (Some (sig_emitter s))"
    then have "signal_state t other = Some (Some (sig_emitter s))"
      using g that by (auto simp: get_signal_cases update_emitter_def split: option.splits if_splits)
    then show False using board_okD(4)[OF okt _ live(1)] that by blast
  qed
  have n3: "\<exists>c u. board_connect name func t = Some (c, u)" unfolding connect_eq using live by blast
  have n4: "board_connect name func (signal_destroy s t) = None"
    if "emitter_owners (emitter_heap t ! sig_emitter s) = 1"
    using that live by (simp add: board_connect_def signal_exception_if_missing_def emitter_expired_def signal_destroy_def update_emitter_def)
  show ?thesis unfolding g prod.case using n1 n2 n3 n4 by (intro conjI allI impI)
qed

theorem signals_of_a_name_witness:
  "\<exists>c u. board_connect ''a'' Err (snd (get_signal ''a'' (switchboard_new :: (int, main_slot) switchboard))) = Some (c, u)"
  using signals_of_a_name[OF board_start, of "''a''" Err] by (auto simp only: split_beta)

end
