(* ===== verification/Ex_Transaction.thy ===== *)
theory Ex_Transaction
  imports Prelude
begin

text \<open>
  Transactions on the fields of a shared component, \<open>exercises/shared-memory/main.cpp\<close>: the component with its dirty
  bits and active transactions, the view and the log of a transaction, and the loop of a thread. A section that holds the
  lock of the dirty bits is one step, and so is an access to a field or to the dirty bits without it. The event log is left
  out, and what \<open>rand\<close> gives is chosen freely.
\<close>

section \<open>Bits\<close>

definition set_bits :: "u32 \<Rightarrow> u32 \<Rightarrow> u32" where
  "set_bits b c = b OR c"

definition clear_bits :: "u32 \<Rightarrow> u32 \<Rightarrow> u32" where
  "clear_bits b c = b AND NOT c"

definition clear_all_bits :: "u32 \<Rightarrow> u32" where
  "clear_all_bits b = b XOR b"

definition bits_from_field :: "nat \<Rightarrow> u32" where
  "bits_from_field f = push_bit f 1"

definition num_fields :: nat where
  "num_fields = 3"

section \<open>The component and its transactions\<close>

text \<open>A transaction is the object of its thread; the log is a map by ascending field.\<close>

record transaction =
  shadow_fields :: "int list"
  touched :: u32
  write_delta :: u32
  read_delta :: u32
  change_delta :: u32
  clean_log :: "(nat \<times> int) list"
  write_inconsistency :: bool

record component =
  comp_fields :: "int list"
  dirty :: u32
  active :: "nat list"
  transactions :: "nat \<Rightarrow> transaction"

definition no_transaction :: transaction where
  "no_transaction = \<lparr>shadow_fields = [0, 0, 0], touched = 0, write_delta = 0, read_delta = 0, change_delta = 0, clean_log = [],
     write_inconsistency = False\<rparr>"

definition component_new :: component where
  "component_new = \<lparr>comp_fields = replicate num_fields 0, dirty = 0, active = [], transactions = (\<lambda>_. no_transaction)\<rparr>"

definition update_transaction :: "nat \<Rightarrow> (transaction \<Rightarrow> transaction) \<Rightarrow> component \<Rightarrow> component" where
  "update_transaction t f c = c\<lparr>transactions := (transactions c)(t := f (transactions c t))\<rparr>"

definition set_field :: "nat \<Rightarrow> int \<Rightarrow> component \<Rightarrow> component" where
  "set_field f v c = c\<lparr>comp_fields := (comp_fields c)[f := v]\<rparr>"

definition get_field :: "nat \<Rightarrow> component \<Rightarrow> int" where
  "get_field f c = comp_fields c ! f"

definition dirty_field :: "nat \<Rightarrow> component \<Rightarrow> component" where
  "dirty_field f c = c\<lparr>dirty := set_bits (dirty c) (bits_from_field f)\<rparr>"

definition clean_field :: "nat \<Rightarrow> component \<Rightarrow> component" where
  "clean_field f c = c\<lparr>dirty := clear_bits (dirty c) (bits_from_field f)\<rparr>"

definition clean_fields :: "u32 \<Rightarrow> component \<Rightarrow> component" where
  "clean_fields b c = c\<lparr>dirty := clear_bits (dirty c) b\<rparr>"

definition add_transaction :: "nat \<Rightarrow> component \<Rightarrow> component" where
  "add_transaction t c = c\<lparr>active := active c @ [t]\<rparr>"

text \<open>The first of the transactions that are equal is erased; erasing the end is undefined.\<close>

definition remove_transaction :: "nat \<Rightarrow> component \<Rightarrow> component outcome" where
  "remove_transaction t c = (if t \<in> set (active c) then Inr (c\<lparr>active := remove1 t (active c)\<rparr>) else Inl Undefined)"

section \<open>The view\<close>

definition view_new :: "component \<Rightarrow> transaction" where
  "view_new c = no_transaction\<lparr>shadow_fields := comp_fields c, touched := 0\<rparr>"

definition view_read :: "nat \<Rightarrow> nat \<Rightarrow> component \<Rightarrow> int \<times> component" where
  "view_read t f c =
     (let v = comp_fields c ! f
      in (v, update_transaction t (\<lambda>x. x\<lparr>touched := touched x OR bits_from_field f,
                shadow_fields := (shadow_fields x)[f := v]\<rparr>) c))"

definition view_write :: "nat \<Rightarrow> nat \<Rightarrow> int \<Rightarrow> component \<Rightarrow> component" where
  "view_write t f v c =
     update_transaction t (\<lambda>x. x\<lparr>shadow_fields := (shadow_fields x)[f := v], touched := touched x OR bits_from_field f\<rparr>)
       (c\<lparr>comp_fields := (comp_fields c)[f := v]\<rparr>)"

definition view_consistent :: "nat \<Rightarrow> nat \<Rightarrow> component \<Rightarrow> bool" where
  "view_consistent t f c =
     (let x = transactions c t
      in if touched x AND bits_from_field f \<noteq> 0 \<and> comp_fields c ! f \<noteq> shadow_fields x ! f then False else True)"

definition view_all_consistent :: "nat \<Rightarrow> component \<Rightarrow> bool" where
  "view_all_consistent t c = list_all (\<lambda>i. view_consistent t i c) [0..<num_fields]"

section \<open>A transaction\<close>

definition transaction_new :: "nat \<Rightarrow> component \<Rightarrow> component" where
  "transaction_new t c = add_transaction t (update_transaction t (\<lambda>_. view_new c) c)"

text \<open>\<open>insert\<close> keeps the value of a field that is in the log.\<close>

definition log_insert :: "nat \<Rightarrow> int \<Rightarrow> (nat \<times> int) list \<Rightarrow> (nat \<times> int) list" where
  "log_insert f v l =
     (if f \<in> fst ` set l then l
      else filter (\<lambda>p. fst p < f) l @ (f, v) # filter (\<lambda>p. f < fst p) l)"

definition log_write :: "nat \<Rightarrow> nat \<Rightarrow> component \<Rightarrow> component" where
  "log_write t f c =
     update_transaction t (\<lambda>x. x\<lparr>write_delta := set_bits (write_delta x) (bits_from_field f),
       clean_log := log_insert f (get_field f c) (clean_log x)\<rparr>) c"

definition log_read :: "nat \<Rightarrow> nat \<Rightarrow> component \<Rightarrow> component" where
  "log_read t f c = update_transaction t (\<lambda>x. x\<lparr>read_delta := set_bits (read_delta x) (bits_from_field f)\<rparr>) c"

definition notify_change :: "nat \<Rightarrow> component \<Rightarrow> component" where
  "notify_change t c =
     (let delta = write_delta (transactions c t)
      in fold (\<lambda>i. update_transaction i (\<lambda>x. x\<lparr>change_delta := change_delta x OR delta\<rparr>)) (active c) c)"

definition rollback :: "nat \<Rightarrow> component \<Rightarrow> component" where
  "rollback t c =
     (let c = fold (\<lambda>(f, v). set_field f v) (clean_log (transactions c t)) c;
          c = notify_change t c
      in clean_fields (write_delta (transactions c t)) c)"

text \<open>What makes \<open>check\<close> roll back and throw.\<close>

definition check_fails :: "nat \<Rightarrow> u32 \<Rightarrow> component \<Rightarrow> bool" where
  "check_fails t b c =
     (let x = transactions c t;
          foreign_writes = dirty c XOR write_delta x;
          local_delta = read_delta x OR write_delta x
      in change_delta x AND local_delta \<noteq> 0 \<or> foreign_writes AND read_delta x \<noteq> 0 \<or> foreign_writes AND b \<noteq> 0)"

datatype thrown = Transaction_exception | Inconsistent_exception

type_synonym 'a throws = "(thrown \<times> component) + 'a"

definition check :: "nat \<Rightarrow> u32 \<Rightarrow> component \<Rightarrow> component throws" where
  "check t b c = (if check_fails t b c then Inl (Transaction_exception, rollback t c) else Inr c)"

definition after :: "'a throws \<Rightarrow> ('a \<Rightarrow> 'b throws) \<Rightarrow> 'b throws" where
  "after m f = (case m of Inl e \<Rightarrow> Inl e | Inr a \<Rightarrow> f a)"

lemma after_throws_simps [simp]: "after (Inl e) f = Inl e" "after (Inr a) f = f a"
  by (simp_all add: after_def)

definition txn_get :: "nat \<Rightarrow> nat \<Rightarrow> component \<Rightarrow> (int \<times> component) throws" where
  "txn_get t f c =
     (let (v, c) = view_read t f c; c = log_read t f c
      in after (check t 0 c) (\<lambda>c. Inr (v, c)))"

definition txn_set :: "nat \<Rightarrow> nat \<Rightarrow> int \<Rightarrow> component \<Rightarrow> component throws" where
  "txn_set t f v c =
     after (check t (bits_from_field f) c) (\<lambda>c.
     (let c = (if view_consistent t f c then c else update_transaction t (\<lambda>x. x\<lparr>write_inconsistency := True\<rparr>) c);
          c = log_write t f c;
          c = view_write t f v c
      in Inr (dirty_field f c)))"

text \<open>The part of \<open>commit\<close> under the lock, and what follows it.\<close>

definition commit_locked :: "nat \<Rightarrow> component \<Rightarrow> component throws" where
  "commit_locked t c =
     after (check t 0 c) (\<lambda>c.
     if \<not> view_all_consistent t c \<or> write_inconsistency (transactions c t) then Inl (Inconsistent_exception, c)
     else (let c = notify_change t c in Inr (clean_fields (write_delta (transactions c t)) c)))"

definition commit_clear :: "nat \<Rightarrow> component \<Rightarrow> component" where
  "commit_clear t = update_transaction t (\<lambda>x. x\<lparr>write_delta := clear_all_bits (write_delta x)\<rparr>)"

definition txn_commit :: "nat \<Rightarrow> component \<Rightarrow> component throws" where
  "txn_commit t c = after (commit_locked t c) (\<lambda>c. Inr (commit_clear t c))"

definition destroy_rollback :: "nat \<Rightarrow> component \<Rightarrow> component" where
  "destroy_rollback t c = (if write_delta (transactions c t) \<noteq> 0 then rollback t c else c)"

definition transaction_destroy :: "nat \<Rightarrow> component \<Rightarrow> component outcome" where
  "transaction_destroy t c = and_then (remove_transaction t c) (\<lambda>c. Inr (destroy_rollback t c))"

section \<open>The threads\<close>

text \<open>Where the loop of a thread stands, with the numbers of this round.\<close>

datatype place =
    At_start
  | At_read nat nat int bool
  | At_check nat nat int bool
  | At_rollback
  | At_set nat nat int
  | At_commit
  | At_clear
  | At_remove
  | At_destroy

record threads =
  comp :: component
  places :: "nat \<Rightarrow> place"

definition threads_start :: threads where
  "threads_start = \<lparr>comp = component_new, places = (\<lambda>_. At_start)\<rparr>"

definition go :: "nat \<Rightarrow> place \<Rightarrow> component \<Rightarrow> threads \<Rightarrow> threads" where
  "go t p c s = s\<lparr>comp := c, places := (places s)(t := p)\<rparr>"

text \<open>The flag tells the first \<open>get\<close> from the second, which check without the lock that \<open>rollback\<close> takes. An exception leaves the block, which destroys the transaction.\<close>

inductive thread_step :: "threads \<Rightarrow> threads \<Rightarrow> bool" where
  begin_step: "places s t = At_start \<Longrightarrow> f < num_fields \<Longrightarrow> g < num_fields \<Longrightarrow> 0 \<le> r \<Longrightarrow> r < 100 \<Longrightarrow>
    thread_step s (go t (At_read f g r True) (transaction_new t (comp s)) s)"
| read_step: "places s t = At_read f g r first \<Longrightarrow>
    thread_step s (go t (At_check f g r first) (log_read t (if first then f else g) (snd (view_read t (if first then f else g) (comp s)))) s)"
| check_step: "places s t = At_check f g r first \<Longrightarrow> check t 0 (comp s) = Inr c \<Longrightarrow>
    thread_step s (go t (if first then At_read f g r False else At_set f g r) c s)"
| check_throws: "places s t = At_check f g r first \<Longrightarrow> check t 0 (comp s) = Inl (e, c) \<Longrightarrow>
    thread_step s (go t At_rollback (comp s) s)"
| rollback_step: "places s t = At_rollback \<Longrightarrow> thread_step s (go t At_remove (rollback t (comp s)) s)"
| set_step: "places s t = At_set f g r \<Longrightarrow> txn_set t g r (comp s) = Inr c \<Longrightarrow> thread_step s (go t At_commit c s)"
| set_throws: "places s t = At_set f g r \<Longrightarrow> txn_set t g r (comp s) = Inl (e, c) \<Longrightarrow> thread_step s (go t At_remove c s)"
| commit_step: "places s t = At_commit \<Longrightarrow> commit_locked t (comp s) = Inr c \<Longrightarrow> thread_step s (go t At_clear c s)"
| commit_throws: "places s t = At_commit \<Longrightarrow> commit_locked t (comp s) = Inl (e, c) \<Longrightarrow> thread_step s (go t At_remove c s)"
| clear_step: "places s t = At_clear \<Longrightarrow> thread_step s (go t At_remove (commit_clear t (comp s)) s)"
| remove_step: "places s t = At_remove \<Longrightarrow> remove_transaction t (comp s) = Inr c \<Longrightarrow> thread_step s (go t At_destroy c s)"
| destroy_step: "places s t = At_destroy \<Longrightarrow> thread_step s (go t At_start (destroy_rollback t (comp s)) s)"

inductive thread_reachable :: "threads \<Rightarrow> bool" where
  reach_start: "thread_reachable threads_start"
| reach_step: "thread_reachable s \<Longrightarrow> thread_step s t \<Longrightarrow> thread_reachable t"

inductive_cases thread_stepE: "thread_step s u"

text \<open>A round of a thread from end to end, with the exception it catches.\<close>

definition test_body :: "nat \<Rightarrow> nat \<Rightarrow> nat \<Rightarrow> int \<Rightarrow> component \<Rightarrow> component throws" where
  "test_body t f g r c =
     after (txn_get t f c) (\<lambda>(x, c).
     after (txn_get t g c) (\<lambda>(y, c).
     after (txn_set t g r c) (txn_commit t)))"

definition test_round :: "nat \<Rightarrow> nat \<Rightarrow> nat \<Rightarrow> int \<Rightarrow> component \<Rightarrow> (thrown option \<times> component) outcome" where
  "test_round t f g r c =
     (case test_body t f g r (transaction_new t c) of
        Inl (e, c) \<Rightarrow> and_then (transaction_destroy t c) (\<lambda>c. Inr (Some e, c))
      | Inr c \<Rightarrow> and_then (transaction_destroy t c) (\<lambda>c. Inr (None, c)))"

section \<open>A lost commit\<close>

text \<open>The move of a thread as a function, for schedules.\<close>

definition thread_move :: "nat \<times> nat \<times> nat \<times> int \<Rightarrow> threads \<Rightarrow> threads" where
  "thread_move = (\<lambda>(t, f0, g0, r0) s.
     (case places s t of
        At_start \<Rightarrow> go t (At_read f0 g0 r0 True) (transaction_new t (comp s)) s
      | At_read f g r first \<Rightarrow>
          go t (At_check f g r first) (log_read t (if first then f else g) (snd (view_read t (if first then f else g) (comp s)))) s
      | At_check f g r first \<Rightarrow>
          (case check t 0 (comp s) of Inr c \<Rightarrow> go t (if first then At_read f g r False else At_set f g r) c s
           | Inl (e, c) \<Rightarrow> go t At_rollback (comp s) s)
      | At_rollback \<Rightarrow> go t At_remove (rollback t (comp s)) s
      | At_set f g r \<Rightarrow>
          (case txn_set t g r (comp s) of Inr c \<Rightarrow> go t At_commit c s | Inl (e, c) \<Rightarrow> go t At_remove c s)
      | At_commit \<Rightarrow>
          (case commit_locked t (comp s) of Inr c \<Rightarrow> go t At_clear c s | Inl (e, c) \<Rightarrow> go t At_remove c s)
      | At_clear \<Rightarrow> go t At_remove (commit_clear t (comp s)) s
      | At_remove \<Rightarrow> (case remove_transaction t (comp s) of Inr c \<Rightarrow> go t At_destroy c s | Inl e \<Rightarrow> s)
      | At_destroy \<Rightarrow> go t At_start (destroy_rollback t (comp s)) s))"

lemma thread_move_step:
  assumes "f0 < num_fields" "g0 < num_fields" "0 \<le> r0" "r0 < 100"
  shows "thread_move (t, f0, g0, r0) s = s \<or> thread_step s (thread_move (t, f0, g0, r0) s)"
proof (cases "places s t")
  case At_remove
  then show ?thesis by (auto simp: thread_move_def split: sum.split intro: remove_step)
next
  case (At_read f g r first)
  then show ?thesis using read_step[OF At_read] by (simp add: thread_move_def)
next
  case (At_check f g r first)
  then show ?thesis
    using check_step[OF At_check] check_throws[OF At_check] by (auto simp: thread_move_def split: sum.split)
qed (use assms in \<open>auto simp: thread_move_def split: sum.split intro: thread_step.intros\<close>)

lemma schedule_reachable:
  assumes "\<forall>(t, f, g, r)\<in>set ms. f < num_fields \<and> g < num_fields \<and> 0 \<le> r \<and> r < 100" "thread_reachable s"
  shows "thread_reachable (fold thread_move ms s)"
  using assms
proof (induction ms arbitrary: s)
  case (Cons m ms)
  obtain t f g r where m: "m = (t, f, g, r)" by (metis prod_cases4)
  then have "thread_reachable (thread_move m s)"
    using thread_move_step[of f g r t s] Cons.prems reach_step[OF Cons.prems(2)] by fastforce
  then show ?case using Cons by simp
qed simp

text \<open>The first thread writes field 0 and reads field 1, which the second one commits, so the first rolls back; before its
  transaction is destroyed the third one commits 9 to field 0, and then the first one rolls back again.\<close>

definition lost_schedule :: "(nat \<times> nat \<times> nat \<times> int) list" where
  "lost_schedule =
     replicate 6 (0, 1, 0, 5) @ replicate 10 (1, 1, 1, 7) @ [(0, 1, 0, 5)] @ replicate 10 (2, 0, 0, 9) @ [(0, 1, 0, 5)]"

lemmas transaction_defs = set_bits_def clear_bits_def clear_all_bits_def bits_from_field_def num_fields_def no_transaction_def
  component_new_def update_transaction_def set_field_def get_field_def dirty_field_def clean_fields_def add_transaction_def
  remove_transaction_def view_new_def view_read_def view_write_def view_consistent_def view_all_consistent_def
  transaction_new_def log_insert_def log_write_def log_read_def notify_change_def rollback_def check_fails_def check_def
  txn_get_def txn_set_def commit_locked_def commit_clear_def destroy_rollback_def go_def threads_start_def

lemma component_new_fields: "comp_fields component_new = [0, 0, 0]"
  by (simp add: component_new_def num_fields_def numeral_3_eq_3)


text \<open>The states between the parts of the schedule.\<close>

definition three_threads :: "int list \<Rightarrow> u32 \<Rightarrow> nat list \<Rightarrow> transaction \<Rightarrow> transaction \<Rightarrow> transaction \<Rightarrow> place \<Rightarrow> threads" where
  "three_threads fs d act x y z p =
     \<lparr>comp = \<lparr>comp_fields = fs, dirty = d, active = act, transactions = (\<lambda>_. no_transaction)(0 := x, 1 := y, 2 := z)\<rparr>,
      places = (\<lambda>_. At_start)(0 := p)\<rparr>"

lemma lost_part_1:
  "fold thread_move ([(0, 1, 0, 5), (0, 1, 0, 5), (0, 1, 0, 5), (0, 1, 0, 5), (0, 1, 0, 5), (0, 1, 0, 5)]) (three_threads [0, 0, 0] 0 []
    no_transaction
    no_transaction
    no_transaction At_start) =
   three_threads [5, 0, 0] 1 [0]
    \<lparr>shadow_fields = [5, 0, 0], touched = 3, write_delta = 1, read_delta = 3, change_delta = 0, clean_log = [(0, 0)], write_inconsistency = False\<rparr>
    no_transaction
    no_transaction At_commit"
  unfolding three_threads_def
  by (simp add: thread_move_def transaction_defs numeral_3_eq_3; simp add: fun_eq_iff)

lemma lost_part_2:
  "fold thread_move ([(1, 1, 1, 7), (1, 1, 1, 7), (1, 1, 1, 7), (1, 1, 1, 7), (1, 1, 1, 7), (1, 1, 1, 7), (1, 1, 1, 7), (1, 1, 1, 7), (1, 1, 1, 7), (1, 1, 1, 7)]) (three_threads [5, 0, 0] 1 [0]
    \<lparr>shadow_fields = [5, 0, 0], touched = 3, write_delta = 1, read_delta = 3, change_delta = 0, clean_log = [(0, 0)], write_inconsistency = False\<rparr>
    no_transaction
    no_transaction At_commit) =
   three_threads [5, 7, 0] 1 [0]
    \<lparr>shadow_fields = [5, 0, 0], touched = 3, write_delta = 1, read_delta = 3, change_delta = 2, clean_log = [(0, 0)], write_inconsistency = False\<rparr>
    \<lparr>shadow_fields = [5, 7, 0], touched = 2, write_delta = 0, read_delta = 2, change_delta = 2, clean_log = [(1, 0)], write_inconsistency = False\<rparr>
    no_transaction At_commit"
  unfolding three_threads_def
  by (simp add: thread_move_def transaction_defs numeral_3_eq_3; simp add: fun_eq_iff)

lemma lost_part_3:
  "fold thread_move ([(0, 1, 0, 5)]) (three_threads [5, 7, 0] 1 [0]
    \<lparr>shadow_fields = [5, 0, 0], touched = 3, write_delta = 1, read_delta = 3, change_delta = 2, clean_log = [(0, 0)], write_inconsistency = False\<rparr>
    \<lparr>shadow_fields = [5, 7, 0], touched = 2, write_delta = 0, read_delta = 2, change_delta = 2, clean_log = [(1, 0)], write_inconsistency = False\<rparr>
    no_transaction At_commit) =
   three_threads [0, 7, 0] 0 [0]
    \<lparr>shadow_fields = [5, 0, 0], touched = 3, write_delta = 1, read_delta = 3, change_delta = 3, clean_log = [(0, 0)], write_inconsistency = False\<rparr>
    \<lparr>shadow_fields = [5, 7, 0], touched = 2, write_delta = 0, read_delta = 2, change_delta = 2, clean_log = [(1, 0)], write_inconsistency = False\<rparr>
    no_transaction At_remove"
  unfolding three_threads_def
  by (simp add: thread_move_def transaction_defs numeral_3_eq_3; simp add: fun_eq_iff)

lemma lost_part_4:
  "fold thread_move ([(2, 0, 0, 9), (2, 0, 0, 9), (2, 0, 0, 9), (2, 0, 0, 9), (2, 0, 0, 9), (2, 0, 0, 9), (2, 0, 0, 9), (2, 0, 0, 9), (2, 0, 0, 9), (2, 0, 0, 9)]) (three_threads [0, 7, 0] 0 [0]
    \<lparr>shadow_fields = [5, 0, 0], touched = 3, write_delta = 1, read_delta = 3, change_delta = 3, clean_log = [(0, 0)], write_inconsistency = False\<rparr>
    \<lparr>shadow_fields = [5, 7, 0], touched = 2, write_delta = 0, read_delta = 2, change_delta = 2, clean_log = [(1, 0)], write_inconsistency = False\<rparr>
    no_transaction At_remove) =
   three_threads [9, 7, 0] 0 [0]
    \<lparr>shadow_fields = [5, 0, 0], touched = 3, write_delta = 1, read_delta = 3, change_delta = 3, clean_log = [(0, 0)], write_inconsistency = False\<rparr>
    \<lparr>shadow_fields = [5, 7, 0], touched = 2, write_delta = 0, read_delta = 2, change_delta = 2, clean_log = [(1, 0)], write_inconsistency = False\<rparr>
    \<lparr>shadow_fields = [9, 7, 0], touched = 1, write_delta = 0, read_delta = 1, change_delta = 1, clean_log = [(0, 0)], write_inconsistency = False\<rparr> At_remove"
  unfolding three_threads_def
  by (simp add: thread_move_def transaction_defs numeral_3_eq_3; simp add: fun_eq_iff)

lemma lost_part_5:
  "fold thread_move ([(0, 1, 0, 5)]) (three_threads [9, 7, 0] 0 [0]
    \<lparr>shadow_fields = [5, 0, 0], touched = 3, write_delta = 1, read_delta = 3, change_delta = 3, clean_log = [(0, 0)], write_inconsistency = False\<rparr>
    \<lparr>shadow_fields = [5, 7, 0], touched = 2, write_delta = 0, read_delta = 2, change_delta = 2, clean_log = [(1, 0)], write_inconsistency = False\<rparr>
    \<lparr>shadow_fields = [9, 7, 0], touched = 1, write_delta = 0, read_delta = 1, change_delta = 1, clean_log = [(0, 0)], write_inconsistency = False\<rparr> At_remove) =
   three_threads [9, 7, 0] 0 []
    \<lparr>shadow_fields = [5, 0, 0], touched = 3, write_delta = 1, read_delta = 3, change_delta = 3, clean_log = [(0, 0)], write_inconsistency = False\<rparr>
    \<lparr>shadow_fields = [5, 7, 0], touched = 2, write_delta = 0, read_delta = 2, change_delta = 2, clean_log = [(1, 0)], write_inconsistency = False\<rparr>
    \<lparr>shadow_fields = [9, 7, 0], touched = 1, write_delta = 0, read_delta = 1, change_delta = 1, clean_log = [(0, 0)], write_inconsistency = False\<rparr> At_destroy"
  unfolding three_threads_def
  by (simp add: thread_move_def transaction_defs numeral_3_eq_3; simp add: fun_eq_iff)

definition lost_end :: threads where
  "lost_end = fold thread_move lost_schedule threads_start"

lemma lost_end_state:
  "lost_end = three_threads [9, 7, 0] 0 []
    \<lparr>shadow_fields = [5, 0, 0], touched = 3, write_delta = 1, read_delta = 3, change_delta = 3, clean_log = [(0, 0)], write_inconsistency = False\<rparr>
    \<lparr>shadow_fields = [5, 7, 0], touched = 2, write_delta = 0, read_delta = 2, change_delta = 2, clean_log = [(1, 0)], write_inconsistency = False\<rparr>
    \<lparr>shadow_fields = [9, 7, 0], touched = 1, write_delta = 0, read_delta = 1, change_delta = 1, clean_log = [(0, 0)], write_inconsistency = False\<rparr>
    At_destroy"
proof -
  have start: "threads_start = three_threads [0, 0, 0] 0 [] no_transaction no_transaction no_transaction At_start"
    by (simp add: threads_start_def three_threads_def component_new_def num_fields_def numeral_3_eq_3 fun_eq_iff)
  have parts: "replicate 6 x = [x, x, x, x, x, x]" "replicate 10 x = [x, x, x, x, x, x, x, x, x, x]" for x :: "nat \<times> nat \<times> nat \<times> int"
    by (simp_all add: numeral_eq_Suc)
  show ?thesis
    unfolding lost_end_def lost_schedule_def start parts fold_append o_apply lost_part_1 lost_part_2 lost_part_3 lost_part_4 lost_part_5
    by (rule refl)
qed

lemma lost_end_reachable: "thread_reachable lost_end"
  unfolding lost_end_def
  by (rule schedule_reachable[OF _ reach_start]) (auto simp: lost_schedule_def num_fields_def)

text \<open>The 9 is committed, no transaction is active any more, and the last step of the first thread takes it back.\<close>

theorem commit_can_be_lost:
  "thread_reachable lost_end \<and> places lost_end = (\<lambda>_. At_start)(0 := At_destroy) \<and> active (comp lost_end) = [] \<and>
   comp_fields (comp lost_end) = [9, 7, 0] \<and>
   thread_step lost_end (go 0 At_start (destroy_rollback 0 (comp lost_end)) lost_end) \<and>
   comp_fields (destroy_rollback 0 (comp lost_end)) = [0, 7, 0]"
proof -
  note lost_end_reachable
  moreover have "places lost_end 0 = At_destroy" by (simp add: lost_end_state three_threads_def)
  then have "thread_step lost_end (go 0 At_start (destroy_rollback 0 (comp lost_end)) lost_end)" by (rule destroy_step)
  ultimately show ?thesis by (simp add: lost_end_state three_threads_def transaction_defs)
qed

section \<open>Dirty fields have a writer\<close>

text \<open>A thread may hold uncommitted writes from its \<open>set\<close> to the end of its transaction.\<close>

definition may_hold :: "place \<Rightarrow> bool" where
  "may_hold p \<longleftrightarrow> p \<in> {At_commit, At_remove, At_destroy}"

definition dirty_held :: "threads \<Rightarrow> bool" where
  "dirty_held s \<longleftrightarrow> (\<forall>n. bit (dirty (comp s)) n \<longrightarrow>
     (\<exists>t. bit (write_delta (transactions (comp s) t)) n \<and> may_hold (places s t)))"

lemma fold_set_field [simp]:
  "dirty (fold (\<lambda>(f, v). set_field f v) l c) = dirty c"
  "transactions (fold (\<lambda>(f, v). set_field f v) l c) = transactions c"
  "active (fold (\<lambda>(f, v). set_field f v) l c) = active c"
  by (induction l arbitrary: c) (auto simp: set_field_def)

lemma fold_update [simp]:
  "dirty (fold (\<lambda>i. update_transaction i g) l c) = dirty c"
  "comp_fields (fold (\<lambda>i. update_transaction i g) l c) = comp_fields c"
  "active (fold (\<lambda>i. update_transaction i g) l c) = active c"
  by (induction l arbitrary: c) (auto simp: update_transaction_def)

lemma fold_update_write_delta:
  "(\<And>x. write_delta (g x) = write_delta x) \<Longrightarrow>
   write_delta (transactions (fold (\<lambda>i. update_transaction i g) l c) t) = write_delta (transactions c t)"
  by (induction l arbitrary: c) (auto simp: update_transaction_def)

lemma notify_fields [simp]:
  "dirty (notify_change t c) = dirty c" "comp_fields (notify_change t c) = comp_fields c"
  "write_delta (transactions (notify_change t c) i) = write_delta (transactions c i)"
  by (simp_all add: notify_change_def Let_def fold_update_write_delta)

lemma rollback_fields [simp]:
  "dirty (rollback t c) = dirty c AND NOT (write_delta (transactions c t))"
  "write_delta (transactions (rollback t c) i) = write_delta (transactions c i)"
  by (simp_all add: rollback_def Let_def clean_fields_def clear_bits_def)

lemma check_result:
  "check t b c = Inr c' \<Longrightarrow> c' = c" "check t b c = Inl (e, c') \<Longrightarrow> e = Transaction_exception \<and> c' = rollback t c"
  by (auto simp: check_def split: if_splits)

lemma set_result:
  "txn_set t f v c = Inr c' \<Longrightarrow> dirty c' = dirty c OR bits_from_field f \<and>
     write_delta (transactions c' i) = (if i = t then write_delta (transactions c t) OR bits_from_field f else write_delta (transactions c i))"
  "txn_set t f v c = Inl (e, c') \<Longrightarrow> c' = rollback t c"
  by (auto simp: txn_set_def check_def Let_def after_def dirty_field_def view_write_def log_write_def update_transaction_def
      set_bits_def split: if_splits)

lemma commit_result:
  "commit_locked t c = Inr c' \<Longrightarrow> dirty c' = dirty c AND NOT (write_delta (transactions c t)) \<and>
     write_delta (transactions c' i) = write_delta (transactions c i)"
  "commit_locked t c = Inl (e, c') \<Longrightarrow> c' = rollback t c \<or> c' = c"
  by (auto simp: commit_locked_def check_def Let_def after_def clean_fields_def clear_bits_def split: if_splits)

lemma dirty_held_go:
  assumes "dirty_held s"
    and "\<And>i. i \<noteq> t \<Longrightarrow> write_delta (transactions c i) = write_delta (transactions (comp s) i)"
    and "\<And>n. bit (dirty c) n \<Longrightarrow> bit (write_delta (transactions c t)) n \<and> may_hold p \<or>
      bit (dirty (comp s)) n \<and> (bit (write_delta (transactions (comp s) t)) n \<and> may_hold (places s t) \<longrightarrow>
        bit (write_delta (transactions c t)) n \<and> may_hold p)"
  shows "dirty_held (go t p c s)"
  unfolding dirty_held_def
proof (intro allI impI)
  fix n assume b: "bit (dirty (comp (go t p c s))) n"
  then have "bit (dirty c) n" by (simp add: go_def)
  from assms(3)[OF this] show "\<exists>i. bit (write_delta (transactions (comp (go t p c s)) i)) n \<and> may_hold (places (go t p c s) i)"
  proof
    assume "bit (write_delta (transactions c t)) n \<and> may_hold p"
    then show ?thesis by (intro exI[of _ t]) (simp add: go_def)
  next
    assume o: "bit (dirty (comp s)) n \<and> (bit (write_delta (transactions (comp s) t)) n \<and> may_hold (places s t) \<longrightarrow>
        bit (write_delta (transactions c t)) n \<and> may_hold p)"
    then obtain i where i: "bit (write_delta (transactions (comp s) i)) n" "may_hold (places s i)"
      using assms(1) by (auto simp: dirty_held_def)
    then show ?thesis using o assms(2)[of i] by (cases "i = t") (auto simp: go_def intro!: exI[of _ i])
  qed
qed

lemma dirty_held_step: "thread_step s u \<Longrightarrow> dirty_held s \<Longrightarrow> dirty_held u"
proof (induction rule: thread_step.induct)
  case (begin_step s t f g r)
  then show ?case
    by (intro dirty_held_go) (auto simp: transaction_new_def add_transaction_def update_transaction_def may_hold_def)
next
  case (read_step s t f g r first)
  then show ?case
    by (intro dirty_held_go) (auto simp: log_read_def view_read_def Let_def update_transaction_def may_hold_def)
next
  case (check_step s t f g r first c)
  then show ?case by (intro dirty_held_go) (auto simp: may_hold_def dest!: check_result)
next
  case (check_throws s t f g r first e c)
  then show ?case by (intro dirty_held_go) (auto simp: may_hold_def)
next
  case (rollback_step s t)
  then show ?case by (intro dirty_held_go) (auto simp: may_hold_def bit_simps)
next
  case (set_step s t f g r c)
  then show ?case
    using set_result(1)[OF set_step.hyps(2)] by (intro dirty_held_go) (auto simp: may_hold_def bit_simps)
next
  case (set_throws s t f g r e c)
  then show ?case using set_result(2)[OF set_throws.hyps(2)] by (intro dirty_held_go) (auto simp: may_hold_def bit_simps)
next
  case (commit_step s t c)
  then show ?case using commit_result(1)[OF commit_step.hyps(2)] by (intro dirty_held_go) (auto simp: may_hold_def bit_simps)
next
  case (commit_throws s t e c)
  then show ?case using commit_result(2)[OF commit_throws.hyps(2)] by (intro dirty_held_go) (auto simp: may_hold_def bit_simps)
next
  case (clear_step s t)
  then show ?case by (intro dirty_held_go) (auto simp: may_hold_def commit_clear_def update_transaction_def)
next
  case (remove_step s t c)
  then show ?case by (intro dirty_held_go) (auto simp: may_hold_def remove_transaction_def split: if_splits)
next
  case (destroy_step s t)
  then show ?case by (intro dirty_held_go) (auto simp: may_hold_def destroy_rollback_def bit_simps split: if_splits)
qed

text \<open>C29: Every dirty field has a transaction that has written it and not ended, so none is dirty when no transaction is under way.\<close>

theorem dirty_fields_have_a_writer:
  assumes "thread_reachable s"
  shows "dirty_held s \<and> ((\<forall>t. places s t = At_start) \<longrightarrow> dirty (comp s) = 0)"
proof -
  have h: "dirty_held s"
    using assms
  proof (induction rule: thread_reachable.induct)
    case (reach_step s u)
    then show ?case by (blast intro: dirty_held_step)
  qed (simp add: dirty_held_def threads_start_def component_new_def)
  have "dirty (comp s) = 0" if "\<forall>t. places s t = At_start"
    using h that by (intro bit_word_eqI) (auto simp: dirty_held_def may_hold_def)
  then show ?thesis using h by blast
qed

theorem dirty_fields_have_a_writer_witness:
  "dirty_held lost_end"
  using dirty_fields_have_a_writer[OF lost_end_reachable] by blast

section \<open>A transaction by itself\<close>

text \<open>Without another transaction a round commits its write and leaves nothing dirty.\<close>

theorem lone_round_commits:
  assumes "active c = []" "dirty c = 0" "comp_fields c = [x0, x1, x2]" "f < num_fields" "g < num_fields"
  shows "\<exists>c'. test_round t f g r c = Inr (None, c') \<and> comp_fields c' = (comp_fields c)[g := r] \<and> dirty c' = 0 \<and> active c' = []"
proof -
  have "f = 0 \<or> f = 1 \<or> f = 2" "g = 0 \<or> g = 1 \<or> g = 2" using assms(4,5) by (auto simp: num_fields_def)
  then show ?thesis
    using assms(1-3)
    by (elim disjE; simp add: test_round_def test_body_def txn_commit_def transaction_destroy_def transaction_defs Let_def
        numeral_3_eq_3 upt_rec)
qed

theorem lone_round_commits_witness:
  "\<exists>c. test_round 0 1 2 50 component_new = Inr (None, c) \<and> comp_fields c = [0, 0, 50]"
  using lone_round_commits[of component_new 0 0 0 1 2 0 50]
  by (simp add: component_new_def num_fields_def numeral_3_eq_3) blast

text \<open>Writes that are not committed are undone when the transaction ends.\<close>

fun set_all :: "nat \<Rightarrow> (nat \<times> int) list \<Rightarrow> component \<Rightarrow> component throws" where
  "set_all t [] c = Inr c"
| "set_all t ((f, v) # ws) c = after (txn_set t f v c) (set_all t ws)"

definition only_writer :: "nat \<Rightarrow> int list \<Rightarrow> component \<Rightarrow> bool" where
  "only_writer t old c \<longleftrightarrow>
     (let x = transactions c t
      in dirty c = write_delta x \<and> read_delta x = 0 \<and> change_delta x = 0 \<and> active c = [t] \<and> length (comp_fields c) = length old \<and>
         (\<forall>(f, v)\<in>set (clean_log x). f < length old \<and> v = old ! f) \<and>
         (\<forall>i<length old. i \<notin> fst ` set (clean_log x) \<longrightarrow> comp_fields c ! i = old ! i) \<and>
         (clean_log x \<noteq> [] \<longrightarrow> write_delta x \<noteq> 0))"

lemma bits_from_field_nonzero: "f < 32 \<Longrightarrow> bits_from_field f \<noteq> 0"
proof
  assume "f < 32" "bits_from_field f = 0"
  then have "bit (bits_from_field f) f = False" by simp
  then show False using \<open>f < 32\<close> by (simp add: bits_from_field_def bit_simps)
qed

lemma set_log_insert: "set (log_insert f v l) = (if f \<in> fst ` set l then set l else insert (f, v) (set l))"
  by (auto simp: log_insert_def) (metis fst_conv image_eqI linorder_neqE_nat)

lemma only_writer_set:
  assumes "only_writer t old c" "f < length old" "length old \<le> 32"
  shows "\<exists>c'. txn_set t f v c = Inr c' \<and> only_writer t old c'"
proof -
  let ?x = "transactions c t"
  have x: "dirty c = write_delta ?x" "read_delta ?x = 0" "change_delta ?x = 0" "active c = [t]" "length (comp_fields c) = length old"
    and log: "\<forall>(f, v)\<in>set (clean_log ?x). f < length old \<and> v = old ! f"
    and clean: "\<And>i. i < length old \<Longrightarrow> i \<notin> fst ` set (clean_log ?x) \<Longrightarrow> comp_fields c ! i = old ! i"
    using assms(1) by (simp_all add: only_writer_def Let_def)
  have "\<not> check_fails t (bits_from_field f) c" by (simp add: check_fails_def x Let_def)
  then obtain c' y where s: "txn_set t f v c = Inr c'" and y: "transactions c' t = y"
    by (simp add: txn_set_def check_def Let_def)
  have new: "write_delta y = write_delta ?x OR bits_from_field f" "read_delta y = 0" "change_delta y = 0"
    "clean_log y = log_insert f (comp_fields c ! f) (clean_log ?x)"
    "dirty c' = dirty c OR bits_from_field f" "active c' = [t]" "comp_fields c' = (comp_fields c)[f := v]"
    using s y x \<open>\<not> check_fails t (bits_from_field f) c\<close>
    by (auto simp: txn_set_def check_def Let_def dirty_field_def view_write_def log_write_def update_transaction_def set_bits_def get_field_def
        split: if_splits)
  have "bits_from_field f \<noteq> 0" using assms(2,3) by (intro bits_from_field_nonzero) simp
  then have "write_delta y \<noteq> 0" unfolding new(1) by (metis bit_0_eq bit_or_iff bit_word_eqI bot_apply bot_bool_def)
  moreover have "\<forall>(f, v)\<in>set (clean_log y). f < length old \<and> v = old ! f"
    using log assms(2) clean[OF assms(2)] by (auto simp: new(4) set_log_insert)
  moreover have "comp_fields c' ! i = old ! i" if "i < length old" "i \<notin> fst ` set (clean_log y)" for i
  proof -
    have "i \<noteq> f" "i \<notin> fst ` set (clean_log ?x)" using that(2) by (auto simp: new(4) set_log_insert split: if_splits)
    then show ?thesis using clean[OF that(1)] by (simp add: new(7))
  qed
  ultimately have "only_writer t old c'" using x new y by (simp add: only_writer_def Let_def)
  then show ?thesis using s by blast
qed

lemma set_field_fields: "comp_fields (set_field f v c) = (comp_fields c)[f := v]"
  by (simp add: set_field_def)

lemma fold_set_field_nth:
  assumes "\<forall>(f, v)\<in>set l. f < length old \<and> v = old ! f" "i < length old" "length (comp_fields c) = length old"
  shows "comp_fields (fold (\<lambda>(f, v). set_field f v) l c) ! i = (if i \<in> fst ` set l then old ! i else comp_fields c ! i) \<and>
    length (comp_fields (fold (\<lambda>(f, v). set_field f v) l c)) = length old"
  using assms
proof (induction l arbitrary: c)
  case (Cons p l)
  obtain f v where p: "p = (f, v)" by (cases p)
  have "comp_fields (fold (\<lambda>(f, v). set_field f v) l (set_field f v c)) ! i =
      (if i \<in> fst ` set l then old ! i else comp_fields (set_field f v c) ! i) \<and>
      length (comp_fields (fold (\<lambda>(f, v). set_field f v) l (set_field f v c))) = length old"
    using Cons.prems by (intro Cons.IH) (auto simp: set_field_fields)
  then show ?case using Cons.prems p by (auto simp: set_field_fields nth_list_update)
qed simp

lemma rollback_restores:
  assumes "only_writer t old c" "transactions d = transactions c" "comp_fields d = comp_fields c"
  shows "comp_fields (fold (\<lambda>(f, v). set_field f v) (clean_log (transactions d t)) d) = old"
proof (rule nth_equalityI)
  have a: "\<forall>(f, v)\<in>set (clean_log (transactions d t)). f < length old \<and> v = old ! f" "length (comp_fields d) = length old"
    using assms by (simp_all add: only_writer_def Let_def)
  show "comp_fields (fold (\<lambda>(f, v). set_field f v) (clean_log (transactions d t)) d) ! i = old ! i"
    if "i < length (comp_fields (fold (\<lambda>(f, v). set_field f v) (clean_log (transactions d t)) d))" for i
  proof -
    have "length (comp_fields (fold (\<lambda>(f, v). set_field f v) l e)) = length (comp_fields e)" for l e
      by (induction l arbitrary: e) (auto simp: set_field_def)
    then have i: "i < length old" using that a(2) by simp
    show ?thesis using fold_set_field_nth[OF a(1) i a(2)] assms i by (auto simp: only_writer_def Let_def)
  qed
  show "length (comp_fields (fold (\<lambda>(f, v). set_field f v) (clean_log (transactions d t)) d)) = length old"
  proof -
    have "length (comp_fields (fold (\<lambda>(f, v). set_field f v) l e)) = length (comp_fields e)" for l e
      by (induction l arbitrary: e) (auto simp: set_field_def)
    then show ?thesis using a(2) by simp
  qed
qed

lemma only_writer_set_all:
  assumes "only_writer t old c" "list_all (\<lambda>(f, v). f < length old) ws" "length old \<le> 32"
  shows "\<exists>c'. set_all t ws c = Inr c' \<and> only_writer t old c'"
  using assms(1,2)
proof (induction ws arbitrary: c)
  case (Cons w ws)
  obtain f v where w: "w = (f, v)" by (cases w)
  then obtain d where "txn_set t f v c = Inr d" "only_writer t old d"
    using only_writer_set[OF Cons.prems(1) _ assms(3), of f v] Cons.prems(2) by auto
  then show ?case using Cons.IH[of d] Cons.prems(2) w by simp
qed simp

theorem abandoned_writes_are_undone:
  assumes "active c = []" "dirty c = 0" "length (comp_fields c) = num_fields" "list_all (\<lambda>(f, v). f < num_fields) ws"
  shows "\<exists>c' c''. set_all t ws (transaction_new t c) = Inr c' \<and> transaction_destroy t c' = Inr c'' \<and>
    comp_fields c'' = comp_fields c \<and> dirty c'' = 0 \<and> active c'' = []"
proof -
  let ?old = "comp_fields c"
  have "only_writer t ?old (transaction_new t c)"
    using assms by (simp add: only_writer_def transaction_new_def add_transaction_def update_transaction_def view_new_def
        no_transaction_def Let_def)
  moreover have "length ?old \<le> 32" "list_all (\<lambda>(f, v). f < length ?old) ws" using assms(3,4) by (simp_all add: num_fields_def)
  ultimately obtain c' where c': "set_all t ws (transaction_new t c) = Inr c'" "only_writer t ?old c'"
    using only_writer_set_all by blast
  let ?d = "c'\<lparr>active := []\<rparr>"
  have rem: "remove_transaction t c' = Inr ?d" using c'(2) by (simp add: remove_transaction_def only_writer_def Let_def)
  have dw: "dirty c' = write_delta (transactions c' t)" using c'(2) by (simp add: only_writer_def Let_def)
  have restored: "comp_fields (fold (\<lambda>(f, v). set_field f v) (clean_log (transactions c' t)) ?d) = ?old"
    using rollback_restores[OF c'(2), of ?d] by simp
  have "comp_fields (destroy_rollback t ?d) = ?old \<and> dirty (destroy_rollback t ?d) = 0 \<and> active (destroy_rollback t ?d) = []"
  proof (cases "write_delta (transactions c' t) = 0")
    case True
    then have "clean_log (transactions c' t) = []" using c'(2) by (auto simp: only_writer_def Let_def)
    then show ?thesis using True dw restored by (simp add: destroy_rollback_def)
  next
    case False
    then show ?thesis using dw restored
      by (simp add: destroy_rollback_def rollback_def notify_change_def clean_fields_def clear_bits_def Let_def)
  qed
  then show ?thesis using c'(1) rem by (simp add: transaction_destroy_def)
qed

theorem abandoned_writes_are_undone_witness:
  "\<exists>c' c''. set_all 0 [(1, 5), (1, 6)] (transaction_new 0 component_new) = Inr c' \<and> transaction_destroy 0 c' = Inr c'' \<and>
    comp_fields c'' = [0, 0, 0]"
  using abandoned_writes_are_undone[of component_new "[(1, 5), (1, 6)]" 0]
  by (simp add: component_new_def num_fields_def numeral_3_eq_3) blast

end
