(* ===== verification/Ex_Bitstream.thy ===== *)
theory Ex_Bitstream
  imports Prelude
begin

text \<open>
  The reader of bits of \<open>exercises/bitstream.cpp\<close>, the high bit of a byte first, and the fields it parses: fields of a
  fixed width and exponential Golomb codes. Reading is shown to append the bits of the stream in order, and a code to have the
  value its definition gives it.
\<close>

section \<open>BitStream\<close>

record bit_stream =
  stream_base :: "u8 list"
  pos_bit :: u32
  end_bit :: u32

definition to_offset_byte :: "u32 \<Rightarrow> u32" where
  "to_offset_byte b = drop_bit 3 b"

definition to_offset_bit :: "u32 \<Rightarrow> u32" where
  "to_offset_bit b = b AND 0x7"

definition build_bitstream :: "u8 list \<Rightarrow> bit_stream" where
  "build_bitstream bytes = \<lparr>stream_base = bytes, pos_bit = 0, end_bit = of_nat (length bytes * 8)\<rparr>"

partial_function (option) read_loop ::
    "u8 list \<Rightarrow> u32 \<Rightarrow> u32 \<Rightarrow> u32 \<Rightarrow> u32 \<Rightarrow> u32 \<Rightarrow> u64 \<Rightarrow> (u32 \<times> u64) outcome option" where
  "read_loop base stop bits tot cur term out =
     (if cur < term \<and> term \<le> stop then
        (case checked_nth base (unat (to_offset_byte cur)) of
           Inl e \<Rightarrow> Some (Inl e)
         | Inr byte \<Rightarrow>
             (let off = to_offset_bit cur;
                  count = min (bits - tot) (8 - off);
                  data = drop_bit (unat (8 - count)) (push_bit (unat off) byte)
              in read_loop base stop bits (tot + count) (cur + count) term (push_bit (unat count) out OR ucast data)))
      else Some (Inr (tot, out)))"

definition read_bits :: "u32 \<Rightarrow> u64 \<Rightarrow> bit_stream \<Rightarrow> (u32 \<times> u64 \<times> bit_stream) outcome option" where
  "read_bits bits out s =
     Option.bind (read_loop (stream_base s) (end_bit s) bits 0 (pos_bit s) (pos_bit s + bits) out) (\<lambda>r.
     Some (and_then r (\<lambda>(tot, out). Inr (tot, out, s\<lparr>pos_bit := pos_bit s + tot\<rparr>))))"

text \<open>A single bit is read without a look at the end.\<close>

definition read_bit :: "bit_stream \<Rightarrow> (bool \<times> bit_stream) outcome" where
  "read_bit s =
     (let cur = pos_bit s
      in and_then (checked_nth (stream_base s) (unat (to_offset_byte cur))) (\<lambda>byte.
         Inr (push_bit (unat (to_offset_bit cur)) (ucast byte :: u32) AND 0x80 \<noteq> 0, s\<lparr>pos_bit := cur + 1\<rparr>)))"

definition seek_bits :: "u32 \<Rightarrow> bit_stream \<Rightarrow> u32 \<times> bit_stream" where
  "seek_bits bits s =
     (let count = min bits (end_bit s - pos_bit s) in (count, s\<lparr>pos_bit := pos_bit s + count\<rparr>))"

definition tell_bits :: "bit_stream \<Rightarrow> u32" where
  "tell_bits s = pos_bit s"

section \<open>Fields\<close>

datatype field_type = Field_unknown | Field_fixed | Field_exp_golomb

record field =
  bit_pattern :: u64
  bit_position :: u16
  bit_width :: u8
  field_type :: field_type
  valid :: bool

definition new_field :: "field_type \<Rightarrow> u8 \<Rightarrow> field" where
  "new_field t width = \<lparr>bit_pattern = 0, bit_position = 0, bit_width = width, field_type = t, valid = False\<rparr>"

type_synonym parse_map = "(string \<times> field) list"

definition build_sps_parse_map :: parse_map where
  "build_sps_parse_map =
     [(''sps_max_sub_layers_minus1'', new_field Field_fixed 3), (''sps_video_paramter_set_id'', new_field Field_fixed 4)]"

type_synonym parsed = "(bool \<times> bit_stream \<times> field) outcome option"

definition try_parse_fixed_width :: "bit_stream \<Rightarrow> field \<Rightarrow> parsed" where
  "try_parse_fixed_width s f =
     (let expect_count = ucast (bit_width f) :: u32;
          f = f\<lparr>bit_pattern := 0, bit_position := ucast (tell_bits s)\<rparr>
      in Option.bind (read_bits (ucast (bit_width f)) (bit_pattern f) s) (\<lambda>r.
         Some (and_then r (\<lambda>(n, pattern, s).
           let f = f\<lparr>bit_pattern := pattern, bit_width := ucast n\<rparr>;
               ok = (ucast (bit_width f) = expect_count)
           in Inr (ok, s, f\<lparr>valid := ok\<rparr>)))))"

partial_function (option) count_zeros :: "bit_stream \<Rightarrow> u32 \<Rightarrow> (u32 \<times> bit_stream) outcome option" where
  "count_zeros s zero_count =
     (case read_bit s of
        Inl e \<Rightarrow> Some (Inl e)
      | Inr (b, s) \<Rightarrow> if b then Some (Inr (zero_count, s)) else count_zeros s (zero_count + 1))"

text \<open>A shift of an \<open>int\<close> past its value bits is undefined.\<close>

definition try_parse_variable_exp_golomb :: "bit_stream \<Rightarrow> field \<Rightarrow> parsed" where
  "try_parse_variable_exp_golomb s f =
     (let f = f\<lparr>bit_pattern := 0, bit_position := ucast (tell_bits s)\<rparr>
      in Option.bind (count_zeros s 0) (\<lambda>r.
         case r of Inl e \<Rightarrow> Some (Inl e) | Inr (zero_count, s) \<Rightarrow>
         Option.bind (read_bits zero_count (bit_pattern f) s) (\<lambda>r.
         Some (and_then r (\<lambda>(n, pattern, s).
           if 31 \<le> unat zero_count then Inl Undefined
           else (let f = f\<lparr>bit_width := ucast (n + zero_count + 1), bit_pattern := pattern + (push_bit (unat zero_count) 1 - 1)\<rparr>;
                     ok = (ucast (bit_width f) = 2 * zero_count + 1)
                 in Inr (ok, s, f\<lparr>valid := ok\<rparr>)))))))"

definition try_parse :: "string \<Rightarrow> bit_stream \<Rightarrow> parse_map \<Rightarrow> (bool \<times> bit_stream \<times> parse_map) outcome option" where
  "try_parse name s fs =
     (case map_of fs name of
        None \<Rightarrow> Some (Inr (False, s, fs))
      | Some f \<Rightarrow>
          (let store = (\<lambda>r. Some (and_then r (\<lambda>(ok, s, f).
                 Inr (ok, s, map (\<lambda>(n, g). if n = name then (n, f) else (n, g)) fs))))
           in case field_type f of
                Field_fixed \<Rightarrow> Option.bind (try_parse_fixed_width s f) store
              | Field_exp_golomb \<Rightarrow> Option.bind (try_parse_variable_exp_golomb s f) store
              | Field_unknown \<Rightarrow> Some (Inr (False, s, fs))))"

definition parse_sps :: "u8 list \<Rightarrow> parse_map outcome option" where
  "parse_sps rbsp =
     Option.bind (try_parse ''sps_video_paramter_set_id'' (build_bitstream rbsp) build_sps_parse_map) (\<lambda>r.
     case r of Inl e \<Rightarrow> Some (Inl e) | Inr (ok, s, fs) \<Rightarrow>
     Option.bind (try_parse ''sps_max_sub_layers_minus1'' s fs) (\<lambda>r.
     Some (and_then r (\<lambda>(ok, s, fs). Inr fs))))"

text \<open>What the log prints of a valid field: its position, name, pattern and width.\<close>

definition log_parsed_field :: "string \<times> field \<Rightarrow> (u16 \<times> string \<times> u64 \<times> nat) list" where
  "log_parsed_field = (\<lambda>(name, f).
     if valid f then [(bit_position f, name, bit_pattern f, unat (bit_width f))] else [])"

definition log_parsed_map :: "parse_map \<Rightarrow> (u16 \<times> string \<times> u64 \<times> nat) list" where
  "log_parsed_map fs = concat (map log_parsed_field fs)"

section \<open>Bits in order\<close>

text \<open>Bit \<open>i\<close> of a list of bytes, the high bit of a byte first, and a number from bits.\<close>

definition stream_bit :: "u8 list \<Rightarrow> nat \<Rightarrow> bool" where
  "stream_bit bs i = bit (bs ! (i div 8)) (7 - i mod 8)"

definition append_bits :: "u8 list \<Rightarrow> nat \<Rightarrow> nat \<Rightarrow> u64 \<Rightarrow> u64" where
  "append_bits bs p n v = fold (\<lambda>i v. 2 * v + of_bool (stream_bit bs i)) [p..<p + n] v"

lemma append_bits_add: "append_bits bs p (m + n) v = append_bits bs (p + m) n (append_bits bs p m v)"
proof -
  have "[p..<p + (m + n)] = [p..<p + m] @ [p + m..<p + m + n]" using upt_add_eq_append[of p "p + m" n] by (simp add: add.assoc)
  then show ?thesis by (simp add: append_bits_def)
qed

lemma double_or: "2 * v + of_bool b = push_bit 1 v OR (of_bool b :: u64)"
proof -
  have "push_bit 1 v AND (of_bool b :: u64) = 0"
    by (rule bit_word_eqI) (auto simp only: bit_and_iff bit_push_bit_iff bit_of_bool_iff bit_0_eq bot_apply bot_bool_def)
  then have "push_bit 1 v + of_bool b = push_bit 1 v OR (of_bool b :: u64)" by (rule disjunctive_add_eq_or)
  then show ?thesis by (simp add: push_bit_eq_mult mult.commute)
qed

lemma bit_double_or:
  "n < LENGTH(64) \<Longrightarrow> bit (push_bit 1 x OR of_bool b :: u64) n = (if n = 0 then b else bit x (n - 1))"
  by (cases n) (simp_all only: bit_or_iff bit_push_bit_iff bit_of_bool_iff possible_bit_word, simp_all)

lemma bit_ucast_chunk: "bit (ucast (take_bit c (drop_bit k (byte :: u8))) :: u64) n \<longleftrightarrow> n < c \<and> n < 64 \<and> bit byte (k + n)"
  by (auto simp: bit_unsigned_iff bit_take_bit_iff bit_drop_bit_eq)

lemma chunk_append:
  assumes "off + c \<le> 8" "p mod 8 = off"
  shows "append_bits bs p c v = push_bit c v OR ucast (take_bit c (drop_bit (8 - off - c) (bs ! (p div 8))))"
  using assms(1)
proof (induction c)
  case 0
  then show ?case by (simp add: append_bits_def)
next
  case (Suc c)
  let ?byte = "bs ! (p div 8)"
  have p: "p = 8 * (p div 8) + off" using mult_div_mod_eq[of 8 p] assms(2) by simp
  then have "p + c = off + c + 8 * (p div 8)" by linarith
  moreover have "off + c < 8" using Suc.prems by simp
  ultimately have d: "(p + c) div 8 = p div 8" "(p + c) mod 8 = off + c" by (simp_all only: div_mult_self2 mod_mult_self2) simp_all
  have "append_bits bs p (Suc c) v = 2 * append_bits bs p c v + of_bool (bit ?byte (7 - (off + c)))"
    by (simp only: append_bits_def add_Suc_right upt_Suc_append[OF le_add1] fold_append o_apply fold_simps id_apply stream_bit_def d)
  also have "\<dots> = push_bit 1 (push_bit c v OR ucast (take_bit c (drop_bit (8 - off - c) ?byte))) OR of_bool (bit ?byte (7 - (off + c)))"
    using Suc.prems by (simp only: double_or Suc.IH[OF Suc_leD] add_Suc_right)
  also have "\<dots> = push_bit (Suc c) v OR ucast (take_bit (Suc c) (drop_bit (8 - off - Suc c) ?byte))"
  proof (rule bit_word_eqI)
    define k where "k = 8 - off - Suc c"
    have e: "8 - off - c = Suc k" "7 - (off + c) = k" using Suc.prems by (simp_all add: k_def)
    fix n assume n: "n < LENGTH(64)"
    show "bit (push_bit 1 (push_bit c v OR ucast (take_bit c (drop_bit (8 - off - c) ?byte))) OR of_bool (bit ?byte (7 - (off + c)))) n =
        bit (push_bit (Suc c) v OR ucast (take_bit (Suc c) (drop_bit (8 - off - Suc c) ?byte))) n"
      unfolding e k_def[symmetric] bit_double_or[OF n] bit_or_iff bit_ucast_chunk
      using n by (cases n) (simp_all only: bit_or_iff bit_ucast_chunk bit_push_bit_iff possible_bit_word, simp_all)
  qed
  finally show ?case .
qed

lemma chunk_data:
  fixes byte :: u8
  assumes "off + c \<le> 8"
  shows "drop_bit (8 - c) (push_bit off byte) = take_bit c (drop_bit (8 - off - c) byte)"
  by (rule bit_word_eqI) (use assms in \<open>auto simp: bit_simps add.commute[of c off]\<close>)

text \<open>The reader stays inside its bytes.\<close>

definition stream_ok :: "bit_stream \<Rightarrow> bool" where
  "stream_ok s \<longleftrightarrow> end_bit s = of_nat (8 * length (stream_base s)) \<and> 8 * length (stream_base s) < 2 ^ 31 \<and> pos_bit s \<le> end_bit s"

lemma offset_of_nat:
  assumes "p < 2 ^ 32"
  shows "unat (to_offset_byte (of_nat p)) = p div 8" "to_offset_bit (of_nat p) = of_nat (p mod 8)"
proof -
  show "unat (to_offset_byte (of_nat p)) = p div 8"
    unfolding to_offset_byte_def unat_drop_bit_eq using assms by (simp add: unat_of_nat_small drop_bit_eq_div)
  have "(7 :: u32) = mask 3" by (simp add: mask_eq_exp_minus_1)
  then have "to_offset_bit (of_nat p) = of_nat p mod 2 ^ 3"
    unfolding to_offset_bit_def by (simp only: take_bit_eq_mask[symmetric] take_bit_eq_mod)
  moreover have "unat (of_nat p mod 2 ^ 3 :: u32) = p mod 8" using assms by (simp add: unat_mod unat_of_nat_small)
  ultimately show "to_offset_bit (of_nat p) = of_nat (p mod 8)" using assms by (intro word_unat_eq_iff[THEN iffD2]) (simp add: unat_of_nat_small)
qed

lemma u32_order:
  "a < 2 ^ 32 \<Longrightarrow> b < 2 ^ 32 \<Longrightarrow> (of_nat a < (of_nat b :: u32)) = (a < b)"
  "a < 2 ^ 32 \<Longrightarrow> b < 2 ^ 32 \<Longrightarrow> (of_nat a \<le> (of_nat b :: u32)) = (a \<le> b)"
  by (simp_all add: word_less_nat_alt word_le_nat_alt unat_of_nat_small)

lemma read_loop_result:
  assumes "p + (n - t) \<le> 8 * length base" "8 * length base < 2 ^ 31" "t \<le> n" "n < 2 ^ 31"
  shows "read_loop base (of_nat (8 * length base)) (of_nat n) (of_nat t) (of_nat p) (of_nat (p + (n - t))) out =
    Some (Inr (of_nat n, append_bits base p (n - t) out))"
  using assms
proof (induction "n - t" arbitrary: p t out rule: less_induct)
  case less
  let ?stop = "8 * length base"
  have small: "p < 2 ^ 32" "p + (n - t) < 2 ^ 32" using less.prems by auto
  show ?case
  proof (cases "n = t")
    case True
    then show ?thesis by (subst read_loop.simps) (simp add: append_bits_def)
  next
    case False
    define off where "off = p mod 8"
    define c where "c = min (n - t) (8 - off)"
    have c: "0 < c" "c \<le> n - t" "off + c \<le> 8" using False less.prems(3) by (auto simp: c_def off_def)
    have cmp: "(of_nat p :: u32) < of_nat (p + (n - t))" "(of_nat (p + (n - t)) :: u32) \<le> of_nat ?stop"
    proof -
      have "?stop < 2 ^ 32" using less.prems(2) by simp
      then show "(of_nat (p + (n - t)) :: u32) \<le> of_nat ?stop" using u32_order(2)[OF small(2)] less.prems(1) by blast
      show "(of_nat p :: u32) < of_nat (p + (n - t))" using u32_order(1)[OF small] less.prems(3) False by simp
    qed
    have idx: "p div 8 < length base" using less.prems(1,3) False by linarith
    have cnt: "min (of_nat n - of_nat t :: u32) (8 - of_nat off) = of_nat c"
    proof -
      have "(of_nat n - of_nat t :: u32) = of_nat (n - t)" "(8 - of_nat off :: u32) = of_nat (8 - off)"
        using less.prems(3) by (simp_all add: off_def of_nat_diff)
      moreover have "min (of_nat (n - t) :: u32) (of_nat (8 - off)) = of_nat (min (n - t) (8 - off))"
        using less.prems(4) by (auto simp: min_def word_le_nat_alt unat_of_nat_small)
      ultimately show ?thesis by (simp only: c_def)
    qed
    have un: "unat (of_nat c :: u32) = c" "unat (of_nat off :: u32) = off" "unat (8 - of_nat c :: u32) = 8 - c"
    proof -
      show "unat (of_nat c :: u32) = c" "unat (of_nat off :: u32) = off" using c by (simp_all add: unat_of_nat_small off_def)
      have "(8 - of_nat c :: u32) = of_nat (8 - c)" using c by (simp add: of_nat_diff)
      then show "unat (8 - of_nat c :: u32) = 8 - c" by (simp add: unat_of_nat_small)
    qed
    have "read_loop base (of_nat ?stop) (of_nat n) (of_nat t) (of_nat p) (of_nat (p + (n - t))) out =
        read_loop base (of_nat ?stop) (of_nat n) (of_nat t + of_nat c) (of_nat p + of_nat c) (of_nat (p + (n - t)))
          (push_bit c out OR ucast (drop_bit (8 - c) (push_bit off (base ! (p div 8)))))"
      by (subst read_loop.simps)
        (simp only: cmp simp_thms if_True checked_nth_simps(1)[OF idx] offset_of_nat(1)[OF small(1)] sum.case Let_def cnt un
          offset_of_nat(2)[OF small(1)] off_def[symmetric])
    also have "(push_bit c out OR ucast (drop_bit (8 - c) (push_bit off (base ! (p div 8))))) = append_bits base p c out"
      by (simp only: chunk_data[OF c(3)] chunk_append[OF c(3) off_def[symmetric]])
    also have "read_loop base (of_nat ?stop) (of_nat n) (of_nat t + of_nat c) (of_nat p + of_nat c) (of_nat (p + (n - t))) (append_bits base p c out) =
        Some (Inr (of_nat n, append_bits base (p + c) (n - (t + c)) (append_bits base p c out)))"
      using less.hyps[of "t + c" "p + c" "append_bits base p c out"] less.prems c by simp
    also have "append_bits base (p + c) (n - (t + c)) (append_bits base p c out) = append_bits base p (n - t) out"
    proof -
      have "c + (n - (t + c)) = n - t" using c(2) by simp
      then show ?thesis using append_bits_add[of base p c "n - (t + c)" out] by simp
    qed
    finally show ?thesis .
  qed
qed

lemma stream_okD:
  assumes "stream_ok s"
  obtains p where "pos_bit s = of_nat p" "p \<le> 8 * length (stream_base s)" "8 * length (stream_base s) < 2 ^ 31" "unat (pos_bit s) = p"
    "end_bit s = of_nat (8 * length (stream_base s))"
proof
  have e: "unat (end_bit s) = 8 * length (stream_base s)"
    using assms unat_of_nat_small[of "8 * length (stream_base s)", where 'a = 32] by (simp only: stream_ok_def) simp
  show "pos_bit s = of_nat (unat (pos_bit s))" by simp
  show "unat (pos_bit s) \<le> 8 * length (stream_base s)" using assms e by (simp add: stream_ok_def word_le_nat_alt)
qed (use assms in \<open>simp_all add: stream_ok_def\<close>)

lemma read_bits_result:
  assumes "stream_ok s" "n < 2 ^ 31"
  shows "read_bits (of_nat n) v s = Some (Inr
    (if unat (pos_bit s) + n \<le> 8 * length (stream_base s)
     then (of_nat n, append_bits (stream_base s) (unat (pos_bit s)) n v, s\<lparr>pos_bit := pos_bit s + of_nat n\<rparr>)
     else (0, v, s)))"
proof -
  obtain p where p: "pos_bit s = of_nat p" "p \<le> 8 * length (stream_base s)" "8 * length (stream_base s) < 2 ^ 31" "unat (pos_bit s) = p"
    "end_bit s = of_nat (8 * length (stream_base s))" using assms(1) by (rule stream_okD)
  have sum: "pos_bit s + of_nat n = of_nat (p + (n - 0))" by (simp add: p(1))
  show ?thesis
  proof (cases "p + n \<le> 8 * length (stream_base s)")
    case True
    then have "read_loop (stream_base s) (end_bit s) (of_nat n) (of_nat 0) (of_nat p) (of_nat (p + (n - 0))) v =
        Some (Inr (of_nat n, append_bits (stream_base s) p (n - 0) v))"
      unfolding p(5) using p(3) assms(2) by (intro read_loop_result) simp_all
    then show ?thesis using True sum p(1,4) by (simp add: read_bits_def)
  next
    case False
    have "\<not> (of_nat (p + n) :: u32) \<le> of_nat (8 * length (stream_base s))"
      using u32_order(2)[of "p + n" "8 * length (stream_base s)"] False p(2,3) assms(2) by simp
    then have "read_loop (stream_base s) (end_bit s) (of_nat n) 0 (of_nat p) (of_nat (p + n)) v = Some (Inr (0, v))"
      by (subst read_loop.simps) (simp only: p(5) simp_thms if_False)
    then show ?thesis using False sum p(1,4) by (simp add: read_bits_def)
  qed
qed

text \<open>Reading \<open>n\<close> bits appends them, the first one highest; when fewer are left nothing is read.\<close>

theorem read_appends_bits:
  assumes "stream_ok s" "n < 2 ^ 31"
  shows "read_bits (of_nat n) v s = Some (Inr
    (if unat (pos_bit s) + n \<le> 8 * length (stream_base s)
     then (of_nat n, append_bits (stream_base s) (unat (pos_bit s)) n v, s\<lparr>pos_bit := pos_bit s + of_nat n\<rparr>)
     else (0, v, s)))"
  using assms by (rule read_bits_result)

lemma read_bit_result:
  assumes "stream_base s = bs" "pos_bit s = of_nat p" "p < 8 * length bs" "p < 2 ^ 32"
  shows "read_bit s = Inr (stream_bit bs p, s\<lparr>pos_bit := of_nat (Suc p)\<rparr>)"
proof -
  have idx: "p div 8 < length bs" using assms(3) by linarith
  have off: "unat (to_offset_bit (of_nat p)) = p mod 8"
    by (simp add: offset_of_nat(2)[OF assms(4)] unat_of_nat_small)
  have m: "(0x80 :: u32) = push_bit 7 1" by simp
  have "(push_bit (p mod 8) (ucast (bs ! (p div 8)) :: u32) AND 0x80 \<noteq> 0) = bit (push_bit (p mod 8) (ucast (bs ! (p div 8)) :: u32)) 7"
    unfolding m by (rule bit_iff_and_push_bit_not_eq_0[symmetric])
  also have "\<dots> = stream_bit bs p" by (auto simp: bit_simps stream_bit_def)
  finally show ?thesis using assms(1,2) idx offset_of_nat(1)[OF assms(4)] off by (simp add: read_bit_def Let_def add.commute)
qed

lemma count_zeros_result:
  assumes "stream_base s = bs" "pos_bit s = of_nat p" "\<forall>i<k. \<not> stream_bit bs (p + i)" "stream_bit bs (p + k)"
    "p + k < 8 * length bs" "p + k < 2 ^ 32 - 1"
  shows "count_zeros s z = Some (Inr (z + of_nat k, s\<lparr>pos_bit := of_nat (p + k + 1)\<rparr>))"
  using assms
proof (induction k arbitrary: s p z)
  case 0
  then have "read_bit s = Inr (True, s\<lparr>pos_bit := of_nat (Suc p)\<rparr>)" using read_bit_result[of s bs p] by simp
  then show ?case by (subst count_zeros.simps) simp
next
  case (Suc k)
  have "\<not> stream_bit bs p" using Suc.prems(3) by (metis add_0_right zero_less_Suc)
  then have r: "read_bit s = Inr (False, s\<lparr>pos_bit := of_nat (Suc p)\<rparr>)"
    using read_bit_result[of s bs p] Suc.prems by simp
  have "count_zeros (s\<lparr>pos_bit := of_nat (Suc p)\<rparr>) (z + 1) =
      Some (Inr (z + 1 + of_nat k, s\<lparr>pos_bit := of_nat (Suc p)\<rparr>\<lparr>pos_bit := of_nat (Suc p + k + 1)\<rparr>))"
    using Suc.prems by (intro Suc.IH) auto
  then show ?case by (subst count_zeros.simps) (simp add: r add.commute add.left_commute)
qed

text \<open>An exponential Golomb code: zeros, a one and as many bits as there were zeros.\<close>

theorem exp_golomb_value:
  assumes "stream_ok s" "unat (pos_bit s) = p" "stream_base s = bs" "k < 31"
    "\<forall>i<k. \<not> stream_bit bs (p + i)" "stream_bit bs (p + k)" "p + 2 * k + 1 \<le> 8 * length bs"
  shows "try_parse_variable_exp_golomb s f = Some (Inr (True, s\<lparr>pos_bit := of_nat (p + 2 * k + 1)\<rparr>,
    f\<lparr>bit_pattern := append_bits bs (p + k + 1) k 0 + (2 ^ k - 1), bit_position := ucast (pos_bit s),
      bit_width := of_nat (2 * k + 1), valid := True\<rparr>))"
proof -
  have len: "8 * length bs < 2 ^ 31" "end_bit s = of_nat (8 * length bs)" "pos_bit s = of_nat p"
    using assms(1,2,3) by (auto simp: stream_ok_def)
  have zeros: "count_zeros s 0 = Some (Inr (of_nat k, s\<lparr>pos_bit := of_nat (p + k + 1)\<rparr>))"
    using count_zeros_result[of s bs p k 0] assms len by simp
  let ?t = "s\<lparr>pos_bit := of_nat (p + k + 1)\<rparr>"
  have pos: "unat (pos_bit ?t) = p + k + 1"
    using assms(7) len(1) unat_of_nat_small[of "p + k + 1", where 'a = 32] by simp
  have ok: "stream_ok ?t"
    using len assms(3,7) u32_order(2)[of "p + k + 1" "8 * length bs"] by (simp add: stream_ok_def)
  have nxt: "pos_bit ?t + of_nat k = (of_nat (p + 2 * k + 1) :: u32)" by (simp add: algebra_simps)
  have fits: "unat (pos_bit ?t) + k \<le> 8 * length (stream_base ?t)" using assms(3,7) unfolding pos by simp
  have k31: "k < 2 ^ 31" using assms(4) by simp
  have read: "read_bits (of_nat k) 0 ?t = Some (Inr (of_nat k, append_bits bs (p + k + 1) k 0, s\<lparr>pos_bit := of_nat (p + 2 * k + 1)\<rparr>))"
    unfolding read_bits_result[OF ok k31] if_P[OF fits]
    unfolding pos nxt using assms(3) by simp
  have un: "unat (of_nat k :: u32) = k" using assms(4) by (simp add: unat_of_nat_small)
  have sum: "(of_nat k + of_nat k + 1 :: u32) = of_nat (2 * k + 1)" "(2 * of_nat k + 1 :: u32) = of_nat (2 * k + 1)"
    by simp_all
  have w: "(ucast (of_nat (2 * k + 1) :: u32) :: u8) = of_nat (2 * k + 1)" "(ucast (of_nat (2 * k + 1) :: u8) :: u32) = of_nat (2 * k + 1)"
    using assms(4) by (simp_all only: unsigned_of_nat) (simp_all add: take_bit_nat_eq_self)
  have k: "\<not> 31 \<le> k" "(push_bit k 1 :: u64) = 2 ^ k" using assms(4) by (simp_all add: push_bit_of_1)
  have rec: "bit_pattern (f\<lparr>bit_pattern := 0, bit_position := x\<rparr>) = 0"
    "bit_width (f\<lparr>bit_pattern := 0, bit_position := x, bit_width := y, bit_pattern := z\<rparr>) = y" for x y z
    by simp_all
  have upd: "f\<lparr>bit_pattern := 0, bit_position := x, bit_width := y, bit_pattern := z, valid := True\<rparr> =
    f\<lparr>bit_pattern := z, bit_position := x, bit_width := y, valid := True\<rparr>" for x y z
    by simp
  show ?thesis
    unfolding try_parse_variable_exp_golomb_def tell_bits_def Let_def zeros
    by (simp only: Option.bind.simps sum.case prod.case rec read and_then_simps un k if_False sum w simp_thms upd)
qed

theorem read_appends_bits_witness:
  "\<exists>t. read_bits 12 0 (build_bitstream [0xAB, 0xCD]) = Some (Inr (12, 0xABC, t))"
proof -
  have ok: "stream_ok (build_bitstream [0xAB, 0xCD])" by (simp add: stream_ok_def build_bitstream_def)
  have "append_bits [0xAB, 0xCD] 0 12 0 = 0xABC" by code_simp
  then show ?thesis using read_appends_bits[OF ok, of 12 0] by (simp add: build_bitstream_def)
qed

theorem exp_golomb_value_witness:
  "\<exists>t f. try_parse_variable_exp_golomb (build_bitstream [0x28]) (new_field Field_exp_golomb 0) = Some (Inr (True, t, f)) \<and>
     bit_pattern f = 4 \<and> bit_width f = 5"
proof -
  have ok: "stream_ok (build_bitstream [0x28])" by (simp add: stream_ok_def build_bitstream_def)
  have b: "\<forall>i<2. \<not> stream_bit [0x28] (0 + i)" "stream_bit [0x28] (0 + 2)" by code_simp+
  have v: "append_bits [0x28] (0 + 2 + 1) 2 0 + (2 ^ 2 - 1) = 4" by code_simp
  show ?thesis
    using exp_golomb_value[OF ok _ _ _ b, of "new_field Field_exp_golomb 0"] v by (simp add: build_bitstream_def)
qed

end
