(* ===== verification/Ex_Bounded.thy ===== *)
theory Ex_Bounded
  imports Prelude
begin

text \<open>
  The bounded queue of \<open>exercises/concurrent.cpp\<close>, for many producers and consumers. A producer takes a ticket and spins until
  its turn has come and there is room; a consumer does the same until its turn has come and there is data. Every access to one of
  the atomic counters is a step, and so is an access to the buffer. The counters are integers: they start at 0 and have 64 bits. The variant
  that \<open>TEST\<close> selects is a pair of critical sections.
\<close>

section \<open>State\<close>

text \<open>Where a thread stands in an operation: the value and ticket it has, and what it has loaded of \<open>head_\<close> and \<open>tail_\<close>.\<close>

datatype 'a bq_place =
    Idle
  | Try_push 'a
  | Try_push_head 'a int
  | Push_begin 'a
  | Push_wait 'a int
  | Push_head 'a int int
  | Push_test 'a int int int
  | Push_size 'a int
  | Push_size_head 'a int int
  | Push_write 'a int
  | Push_inc 'a int
  | Try_pop
  | Try_pop_head int
  | Pop_begin
  | Pop_wait int
  | Pop_head int int
  | Pop_test int int int
  | Pop_size int
  | Pop_size_head int int
  | Pop_read int
  | Pop_inc int 'a
  | Aborted

text \<open>\<open>entered\<close> and \<open>left\<close> are not in the code: the values in the order of their tickets, and the values handed out.\<close>

record 'a bq =
  head :: int
  tail :: int
  head_ticket :: int
  tail_ticket :: int
  buffer :: "'a list"
  bq_places :: "nat \<Rightarrow> 'a bq_place"
  entered :: "'a list"
  left :: "'a list"

definition bq_new :: "'a list \<Rightarrow> 'a bq" where
  "bq_new garbage = \<lparr>head = 0, tail = 0, head_ticket = 0, tail_ticket = 0, buffer = garbage, bq_places = (\<lambda>_. Idle), entered = [],
     left = []\<rparr>"

definition at :: "nat \<Rightarrow> 'a bq_place \<Rightarrow> 'a bq \<Rightarrow> 'a bq" where
  "at p x s = s\<lparr>bq_places := (bq_places s)(p := x)\<rparr>"

section \<open>Operations\<close>

text \<open>The difference is returned as an unsigned number.\<close>

definition bq_size :: "int \<Rightarrow> int \<Rightarrow> int" where
  "bq_size h t = (h - t) mod 2 ^ 64"

definition bq_full :: "int \<Rightarrow> int \<Rightarrow> int \<Rightarrow> bool" where
  "bq_full N h t \<longleftrightarrow> bq_size h t = N"

definition bq_empty :: "int \<Rightarrow> int \<Rightarrow> bool" where
  "bq_empty h t \<longleftrightarrow> bq_size h t = 0"

text \<open>The next step of a thread in \<open>push\<close> or \<open>try_push\<close>.\<close>

fun push_move :: "int \<Rightarrow> nat \<Rightarrow> 'a bq_place \<Rightarrow> 'a bq \<Rightarrow> 'a bq" where
  "push_move N p (Try_push v) s = at p (Try_push_head v (head s)) s"
| "push_move N p (Try_push_head v h) s = at p (if bq_full N h (tail s) then Idle else Push_begin v) s"
| "push_move N p (Push_begin v) s =
     at p (Push_wait v (head_ticket s)) (s\<lparr>head_ticket := head_ticket s + 1, entered := entered s @ [v]\<rparr>)"
| "push_move N p (Push_wait v t) s = at p (Push_head v t (head s)) s"
| "push_move N p (Push_head v t h) s = at p (Push_test v t h (tail s)) s"
| "push_move N p (Push_test v t h l) s = at p (if N \<le> h - l \<or> t \<noteq> h then Push_wait v t else Push_size v t) s"
| "push_move N p (Push_size v t) s = at p (Push_size_head v t (head s)) s"
| "push_move N p (Push_size_head v t h) s = at p (if bq_size h (tail s) \<le> N then Push_write v t else Aborted) s"
| "push_move N p (Push_write v t) s = at p (Push_inc v t) (s\<lparr>buffer := (buffer s)[nat (t mod N) := v]\<rparr>)"
| "push_move N p (Push_inc v t) s = at p Idle (s\<lparr>head := head s + 1\<rparr>)"
| "push_move N p _ s = s"

text \<open>The next step of a thread in \<open>pop\<close> or \<open>try_pop\<close>. A value that \<open>pop\<close> assigns is handed out with the last step.\<close>

fun pop_move :: "int \<Rightarrow> nat \<Rightarrow> 'a bq_place \<Rightarrow> 'a bq \<Rightarrow> 'a bq" where
  "pop_move N p Try_pop s = at p (Try_pop_head (head s)) s"
| "pop_move N p (Try_pop_head h) s = at p (if bq_empty h (tail s) then Idle else Pop_begin) s"
| "pop_move N p Pop_begin s = at p (Pop_wait (tail_ticket s)) (s\<lparr>tail_ticket := tail_ticket s + 1\<rparr>)"
| "pop_move N p (Pop_wait t) s = at p (Pop_head t (head s)) s"
| "pop_move N p (Pop_head t h) s = at p (Pop_test t h (tail s)) s"
| "pop_move N p (Pop_test t h l) s = at p (if h - l \<le> 0 \<or> t \<noteq> l then Pop_wait t else Pop_size t) s"
| "pop_move N p (Pop_size t) s = at p (Pop_size_head t (head s)) s"
| "pop_move N p (Pop_size_head t h) s = at p (if bq_size h (tail s) \<le> N then Pop_read t else Aborted) s"
| "pop_move N p (Pop_read t) s = at p (Pop_inc t (buffer s ! nat (t mod N))) s"
| "pop_move N p (Pop_inc t v) s = at p Idle (s\<lparr>tail := tail s + 1, left := left s @ [v]\<rparr>)"
| "pop_move N p _ s = s"

fun pushes :: "'a bq_place \<Rightarrow> bool" where
  "pushes (Try_push v) = True"
| "pushes (Try_push_head v h) = True"
| "pushes (Push_begin v) = True"
| "pushes (Push_wait v t) = True"
| "pushes (Push_head v t h) = True"
| "pushes (Push_test v t h l) = True"
| "pushes (Push_size v t) = True"
| "pushes (Push_size_head v t h) = True"
| "pushes (Push_write v t) = True"
| "pushes (Push_inc v t) = True"
| "pushes _ = False"

definition bq_move :: "int \<Rightarrow> nat \<Rightarrow> 'a bq \<Rightarrow> 'a bq" where
  "bq_move N p s = (let x = bq_places s p in if pushes x then push_move N p x s else pop_move N p x s)"

inductive bq_step :: "int \<Rightarrow> nat \<Rightarrow> 'a bq \<Rightarrow> 'a bq \<Rightarrow> bool" for N where
  call: "bq_places s p = Idle \<Longrightarrow> x \<in> {Try_push v, Push_begin v, Try_pop, Pop_begin} \<Longrightarrow> bq_step N p s (at p x s)"
| move: "bq_places s p \<noteq> Idle \<Longrightarrow> bq_step N p s (bq_move N p s)"

inductive bq_reachable :: "int \<Rightarrow> 'a bq \<Rightarrow> bool" for N where
  start: "length g = nat N \<Longrightarrow> 0 < N \<Longrightarrow> N < 2 ^ 31 \<Longrightarrow> bq_reachable N (bq_new g)"
| step: "bq_reachable N s \<Longrightarrow> bq_step N p s t \<Longrightarrow> bq_reachable N t"

section \<open>The variant with a mutex\<close>

record 'a tq =
  t_head :: int
  t_tail :: int
  t_size :: int
  t_buffer :: "'a list"

definition tq_full :: "int \<Rightarrow> 'a tq \<Rightarrow> bool" where
  "tq_full N q \<longleftrightarrow> bq_full N (t_head q) (t_tail q)"

definition tq_empty :: "'a tq \<Rightarrow> bool" where
  "tq_empty q \<longleftrightarrow> bq_empty (t_head q) (t_tail q)"

text \<open>A critical section that cannot be entered yet has no result.\<close>

definition tq_push :: "int \<Rightarrow> 'a \<Rightarrow> 'a tq \<Rightarrow> 'a tq option" where
  "tq_push N v q =
     (if tq_full N q then None
      else Some (q\<lparr>t_buffer := (t_buffer q)[nat (t_head q mod N) := v], t_head := t_head q + 1, t_size := t_size q + 1\<rparr>))"

definition tq_pop :: "int \<Rightarrow> 'a tq \<Rightarrow> ('a \<times> 'a tq) option" where
  "tq_pop N q =
     (if tq_empty q then None
      else Some (t_buffer q ! nat (t_tail q mod N), q\<lparr>t_tail := t_tail q + 1, t_size := t_size q - 1\<rparr>))"

section \<open>Tickets\<close>

fun push_ticket :: "'a bq_place \<Rightarrow> (int \<times> 'a) option" where
  "push_ticket (Push_wait v t) = Some (t, v)"
| "push_ticket (Push_head v t h) = Some (t, v)"
| "push_ticket (Push_test v t h l) = Some (t, v)"
| "push_ticket (Push_size v t) = Some (t, v)"
| "push_ticket (Push_size_head v t h) = Some (t, v)"
| "push_ticket (Push_write v t) = Some (t, v)"
| "push_ticket (Push_inc v t) = Some (t, v)"
| "push_ticket _ = None"

fun pop_ticket :: "'a bq_place \<Rightarrow> int option" where
  "pop_ticket (Pop_wait t) = Some t"
| "pop_ticket (Pop_head t h) = Some t"
| "pop_ticket (Pop_test t h l) = Some t"
| "pop_ticket (Pop_size t) = Some t"
| "pop_ticket (Pop_size_head t h) = Some t"
| "pop_ticket (Pop_read t) = Some t"
| "pop_ticket (Pop_inc t v) = Some t"
| "pop_ticket _ = None"

text \<open>The counters and the buffer: the slots between \<open>tail_\<close> and \<open>head_\<close> hold the values of their tickets.\<close>

definition slots_ok :: "int \<Rightarrow> 'a bq \<Rightarrow> bool" where
  "slots_ok N s \<longleftrightarrow> 0 < N \<and> N < 2 ^ 31 \<and> length (buffer s) = nat N \<and> 0 \<le> tail s \<and> tail s \<le> head s \<and> head s - tail s \<le> N \<and>
     head s \<le> head_ticket s \<and> tail s \<le> tail_ticket s \<and> head_ticket s = int (length (entered s)) \<and>
     left s = take (nat (tail s)) (entered s) \<and>
     (\<forall>i. tail s \<le> i \<and> i < head s \<longrightarrow> buffer s ! nat (i mod N) = entered s ! nat i)"

text \<open>What a place knows of the counters.\<close>

fun place_ok :: "int \<Rightarrow> 'a bq \<Rightarrow> 'a bq_place \<Rightarrow> bool" where
  "place_ok N s (Push_head v t h) \<longleftrightarrow> h \<le> head s"
| "place_ok N s (Push_test v t h l) \<longleftrightarrow> h \<le> head s \<and> l \<le> tail s"
| "place_ok N s (Push_size v t) \<longleftrightarrow> t = head s \<and> head s - tail s < N"
| "place_ok N s (Push_size_head v t h) \<longleftrightarrow> t = head s \<and> h = head s \<and> head s - tail s < N"
| "place_ok N s (Push_write v t) \<longleftrightarrow> t = head s \<and> head s - tail s < N"
| "place_ok N s (Push_inc v t) \<longleftrightarrow> t = head s \<and> head s - tail s < N \<and> buffer s ! nat (t mod N) = v"
| "place_ok N s (Pop_head t h) \<longleftrightarrow> h \<le> head s"
| "place_ok N s (Pop_test t h l) \<longleftrightarrow> h \<le> head s \<and> l \<le> tail s"
| "place_ok N s (Pop_size t) \<longleftrightarrow> t = tail s \<and> tail s < head s"
| "place_ok N s (Pop_size_head t h) \<longleftrightarrow> t = tail s \<and> tail s < h \<and> h \<le> head s"
| "place_ok N s (Pop_read t) \<longleftrightarrow> t = tail s \<and> tail s < head s"
| "place_ok N s (Pop_inc t v) \<longleftrightarrow> t = tail s \<and> tail s < head s \<and> v = entered s ! nat t"
| "place_ok N s Aborted \<longleftrightarrow> False"
| "place_ok N s _ \<longleftrightarrow> True"

definition ticket_ok :: "'a bq \<Rightarrow> 'a bq_place \<Rightarrow> bool" where
  "ticket_ok s x \<longleftrightarrow>
     (case push_ticket x of None \<Rightarrow> True | Some (t, v) \<Rightarrow> head s \<le> t \<and> t < head_ticket s \<and> v = entered s ! nat t) \<and>
     (case pop_ticket x of None \<Rightarrow> True | Some t \<Rightarrow> tail s \<le> t \<and> t < tail_ticket s)"

definition tickets_apart :: "'a bq \<Rightarrow> bool" where
  "tickets_apart s \<longleftrightarrow> (\<forall>p q. p \<noteq> q \<longrightarrow>
     (\<forall>t v w. push_ticket (bq_places s p) = Some (t, v) \<longrightarrow> push_ticket (bq_places s q) \<noteq> Some (t, w)) \<and>
     (\<forall>t. pop_ticket (bq_places s p) = Some t \<longrightarrow> pop_ticket (bq_places s q) \<noteq> Some t))"

text \<open>Every ticket whose turn is still to come is held by a thread.\<close>

definition tickets_held :: "'a bq \<Rightarrow> bool" where
  "tickets_held s \<longleftrightarrow>
     (\<forall>t. head s \<le> t \<and> t < head_ticket s \<longrightarrow> (\<exists>p v. push_ticket (bq_places s p) = Some (t, v))) \<and>
     (\<forall>t. tail s \<le> t \<and> t < tail_ticket s \<longrightarrow> (\<exists>p. pop_ticket (bq_places s p) = Some t))"

definition bq_ok :: "int \<Rightarrow> 'a bq \<Rightarrow> bool" where
  "bq_ok N s \<longleftrightarrow> slots_ok N s \<and> (\<forall>p. place_ok N s (bq_places s p) \<and> ticket_ok s (bq_places s p)) \<and> tickets_apart s \<and> tickets_held s"


section \<open>The invariant\<close>

lemma at_fields [simp]:
  "bq_places (at p x s) = (bq_places s)(p := x)" "head (at p x s) = head s" "tail (at p x s) = tail s"
  "head_ticket (at p x s) = head_ticket s" "tail_ticket (at p x s) = tail_ticket s" "buffer (at p x s) = buffer s"
  "entered (at p x s) = entered s" "left (at p x s) = left s"
  by (simp_all add: at_def)

lemma place_ok_at [simp]: "place_ok N (at p x s) y = place_ok N s y"
  by (cases y) simp_all

lemma ticket_ok_at [simp]: "ticket_ok (at p x s) y = ticket_ok s y"
  by (auto simp: ticket_ok_def split: option.splits)

lemma ticket_ok_same:
  "push_ticket x = push_ticket y \<Longrightarrow> pop_ticket x = pop_ticket y \<Longrightarrow> ticket_ok s x = ticket_ok s y"
  by (simp only: ticket_ok_def)

lemma slots_ok_at [simp]: "slots_ok N (at p x s) = slots_ok N s"
  by (simp add: slots_ok_def)

lemma bq_okI:
  assumes "slots_ok N s" "\<And>p. place_ok N s (bq_places s p)" "\<And>p. ticket_ok s (bq_places s p)" "tickets_apart s" "tickets_held s"
  shows "bq_ok N s"
  using assms by (simp add: bq_ok_def)

lemma bq_okD:
  assumes "bq_ok N s"
  shows "slots_ok N s" "place_ok N s (bq_places s p)" "ticket_ok s (bq_places s p)" "tickets_apart s" "tickets_held s"
  using assms by (simp_all add: bq_ok_def)

lemma slots_okD:
  assumes "slots_ok N s"
  shows "0 < N" "N < 2 ^ 31" "length (buffer s) = nat N" "0 \<le> tail s" "tail s \<le> head s" "head s - tail s \<le> N"
    "head s \<le> head_ticket s" "tail s \<le> tail_ticket s" "head_ticket s = int (length (entered s))"
    "left s = take (nat (tail s)) (entered s)"
    "\<And>i. tail s \<le> i \<Longrightarrow> i < head s \<Longrightarrow> buffer s ! nat (i mod N) = entered s ! nat i"
  using assms by (simp_all add: slots_ok_def)

lemma apart_push:
  "tickets_apart s \<Longrightarrow> p \<noteq> q \<Longrightarrow> push_ticket (bq_places s p) = Some (t, v) \<Longrightarrow> push_ticket (bq_places s q) = Some (u, w) \<Longrightarrow> t \<noteq> u"
  by (auto simp: tickets_apart_def)

lemma apart_pop:
  "tickets_apart s \<Longrightarrow> p \<noteq> q \<Longrightarrow> pop_ticket (bq_places s p) = Some t \<Longrightarrow> pop_ticket (bq_places s q) = Some u \<Longrightarrow> t \<noteq> u"
  by (auto simp: tickets_apart_def)

lemma held_push: "tickets_held s \<Longrightarrow> head s \<le> t \<Longrightarrow> t < head_ticket s \<Longrightarrow> \<exists>p v. push_ticket (bq_places s p) = Some (t, v)"
  by (simp add: tickets_held_def)

lemma held_pop: "tickets_held s \<Longrightarrow> tail s \<le> t \<Longrightarrow> t < tail_ticket s \<Longrightarrow> \<exists>p. pop_ticket (bq_places s p) = Some t"
  by (simp add: tickets_held_def)

text \<open>A move that leaves the counters and its ticket alone.\<close>

lemma local_move:
  assumes ok: "bq_ok N s" and same: "push_ticket x = push_ticket (bq_places s p)" "pop_ticket x = pop_ticket (bq_places s p)"
    and x: "place_ok N s x"
  shows "bq_ok N (at p x s)"
proof (rule bq_okI)
  have tickets: "push_ticket (bq_places (at p x s) q) = push_ticket (bq_places s q)"
    "pop_ticket (bq_places (at p x s) q) = pop_ticket (bq_places s q)" for q
    using same by simp_all
  show "slots_ok N (at p x s)" using bq_okD(1)[OF ok] by simp
  show "place_ok N (at p x s) (bq_places (at p x s) q)" for q using bq_okD(2)[OF ok] x by simp
  show "ticket_ok (at p x s) (bq_places (at p x s) q)" for q
    using bq_okD(3)[OF ok, of q] ticket_ok_same[OF tickets] by simp
  show "tickets_apart (at p x s)" using bq_okD(4)[OF ok] by (simp only: tickets_apart_def tickets)
  show "tickets_held (at p x s)" using bq_okD(5)[OF ok] by (simp only: tickets_held_def tickets) simp
qed

lemma push_begin_ok:
  assumes ok: "bq_ok N s" and p: "bq_places s p = Push_begin v"
  shows "bq_ok N (at p (Push_wait v (head_ticket s)) (s\<lparr>head_ticket := head_ticket s + 1, entered := entered s @ [v]\<rparr>))"
    (is "bq_ok N (at p ?x ?s)")
proof (rule bq_okI)
  note sl = slots_okD[OF bq_okD(1)[OF ok]]
  have nth: "(entered s @ [v]) ! nat i = entered s ! nat i" if "0 \<le> i" "i < head_ticket s" for i
    using that sl(9) by (simp add: nth_append nat_less_iff)
  show "slots_ok N (at p ?x ?s)"
    using sl nth by (auto simp: slots_ok_def nat_le_iff)
  show "place_ok N (at p ?x ?s) (bq_places (at p ?x ?s) q)" for q
    using bq_okD(2)[OF ok, of q] nth[of "tail s"] sl by (cases "bq_places s q") auto
  show "ticket_ok (at p ?x ?s) (bq_places (at p ?x ?s) q)" for q
  proof (cases "q = p")
    case True
    then show ?thesis using sl by (auto simp: ticket_ok_def)
  next
    case False
    then show ?thesis
      using bq_okD(3)[OF ok, of q] nth sl by (fastforce simp: ticket_ok_def split: option.splits)
  qed
  have old: "u < head_ticket s" if "push_ticket (bq_places s q) = Some (u, w)" for q u w
    using bq_okD(3)[OF ok, of q] that by (simp add: ticket_ok_def)
  show "tickets_apart (at p ?x ?s)"
    using bq_okD(4)[OF ok] old p by (fastforce simp: tickets_apart_def)
  show "tickets_held (at p ?x ?s)"
    unfolding tickets_held_def
  proof (intro conjI allI impI)
    fix t assume t: "head (at p ?x ?s) \<le> t \<and> t < head_ticket (at p ?x ?s)"
    show "\<exists>q w. push_ticket (bq_places (at p ?x ?s) q) = Some (t, w)"
    proof (cases "t = head_ticket s")
      case True
      then show ?thesis by (intro exI[of _ p]) simp
    next
      case False
      then obtain q w where "push_ticket (bq_places s q) = Some (t, w)"
        using t bq_okD(5)[OF ok] by (auto simp: tickets_held_def)
      then show ?thesis using p by (intro exI[of _ q]) auto
    qed
  next
    fix t assume t: "tail (at p ?x ?s) \<le> t \<and> t < tail_ticket (at p ?x ?s)"
    then obtain q where "pop_ticket (bq_places s q) = Some t" using bq_okD(5)[OF ok] by (auto simp: tickets_held_def)
    then show "\<exists>q. pop_ticket (bq_places (at p ?x ?s) q) = Some t" using p by (intro exI[of _ q]) auto
  qed
qed

lemma pop_begin_ok:
  assumes ok: "bq_ok N s" and p: "bq_places s p = Pop_begin"
  shows "bq_ok N (at p (Pop_wait (tail_ticket s)) (s\<lparr>tail_ticket := tail_ticket s + 1\<rparr>))" (is "bq_ok N (at p ?x ?s)")
proof (rule bq_okI)
  note sl = slots_okD[OF bq_okD(1)[OF ok]]
  show "slots_ok N (at p ?x ?s)" using sl by (auto simp: slots_ok_def)
  show "place_ok N (at p ?x ?s) (bq_places (at p ?x ?s) q)" for q
    using bq_okD(2)[OF ok, of q] by (cases "bq_places s q") auto
  show "ticket_ok (at p ?x ?s) (bq_places (at p ?x ?s) q)" for q
    using bq_okD(3)[OF ok, of q] sl by (fastforce simp: ticket_ok_def split: option.splits)
  have old: "u < tail_ticket s" if "pop_ticket (bq_places s q) = Some u" for q u
    using bq_okD(3)[OF ok, of q] that by (simp add: ticket_ok_def)
  show "tickets_apart (at p ?x ?s)"
    using bq_okD(4)[OF ok] old p by (fastforce simp: tickets_apart_def)
  show "tickets_held (at p ?x ?s)"
    unfolding tickets_held_def
  proof (intro conjI allI impI)
    fix t assume t: "head (at p ?x ?s) \<le> t \<and> t < head_ticket (at p ?x ?s)"
    then obtain q w where "push_ticket (bq_places s q) = Some (t, w)" using bq_okD(5)[OF ok] by (auto simp: tickets_held_def)
    then show "\<exists>q w. push_ticket (bq_places (at p ?x ?s) q) = Some (t, w)" using p by (intro exI[of _ q]) auto
  next
    fix t assume t: "tail (at p ?x ?s) \<le> t \<and> t < tail_ticket (at p ?x ?s)"
    show "\<exists>q. pop_ticket (bq_places (at p ?x ?s) q) = Some t"
    proof (cases "t = tail_ticket s")
      case True
      then show ?thesis by (intro exI[of _ p]) simp
    next
      case False
      then obtain q where "pop_ticket (bq_places s q) = Some t"
        using t bq_okD(5)[OF ok] by (auto simp: tickets_held_def)
      then show ?thesis using p by (intro exI[of _ q]) auto
    qed
  qed
qed

lemma slots_differ:
  assumes "0 < (N :: int)" "0 < i - j" "i - j < N"
  shows "i mod N \<noteq> j mod N"
proof
  assume "i mod N = j mod N"
  then have "N dvd i - j" by (simp add: mod_eq_dvd_iff)
  then show False using assms zdvd_imp_le[of N "i - j"] by simp
qed

lemma push_write_ok:
  assumes ok: "bq_ok N s" and p: "bq_places s p = Push_write v t"
  shows "bq_ok N (at p (Push_inc v t) (s\<lparr>buffer := (buffer s)[nat (t mod N) := v]\<rparr>))" (is "bq_ok N (at p ?x ?s)")
proof (rule bq_okI)
  note sl = slots_okD[OF bq_okD(1)[OF ok]]
  have t: "t = head s" "head s - tail s < N" using bq_okD(2)[OF ok, of p] p by simp_all
  have idx: "nat (t mod N) < length (buffer s)" using sl(1,3) by (simp add: nat_less_iff)
  have other: "(buffer s)[nat (t mod N) := v] ! nat (i mod N) = buffer s ! nat (i mod N)" if "tail s \<le> i" "i < head s" for i
  proof -
    have "t mod N \<noteq> i mod N" using slots_differ[of N t i] sl(1) t that by simp
    then have "nat (t mod N) \<noteq> nat (i mod N)" using sl(1) by (simp add: nat_eq_iff)
    then show ?thesis by simp
  qed
  show "slots_ok N (at p ?x ?s)" using sl other by (auto simp: slots_ok_def)
  show "place_ok N (at p ?x ?s) (bq_places (at p ?x ?s) q)" for q
  proof (cases "q = p")
    case True
    then show ?thesis using t idx by simp
  next
    case False
    have "bq_places s q \<noteq> Push_inc w u" for w u
      using apart_push[OF bq_okD(4)[OF ok], of p q t v u w] False p t(1) bq_okD(2)[OF ok, of q] by auto
    then show ?thesis using False bq_okD(2)[OF ok, of q] by (cases "bq_places s q") auto
  qed
  have same: "push_ticket (bq_places (at p ?x ?s) q) = push_ticket (bq_places s q)"
    "pop_ticket (bq_places (at p ?x ?s) q) = pop_ticket (bq_places s q)" for q
    using p by simp_all
  show "ticket_ok (at p ?x ?s) (bq_places (at p ?x ?s) q)" for q
    using bq_okD(3)[OF ok, of q] ticket_ok_same[OF same, of "at p ?x ?s" q] by (auto simp: ticket_ok_def split: option.splits)
  show "tickets_apart (at p ?x ?s)" using bq_okD(4)[OF ok] by (simp only: tickets_apart_def same)
  show "tickets_held (at p ?x ?s)" using bq_okD(5)[OF ok] by (simp only: tickets_held_def same) simp
qed

lemma push_inc_ok:
  assumes ok: "bq_ok N s" and p: "bq_places s p = Push_inc v t"
  shows "bq_ok N (at p Idle (s\<lparr>head := head s + 1\<rparr>))" (is "bq_ok N (at p ?x ?s)")
proof (rule bq_okI)
  note sl = slots_okD[OF bq_okD(1)[OF ok]]
  have t: "t = head s" "head s - tail s < N" "buffer s ! nat (t mod N) = v" using bq_okD(2)[OF ok, of p] unfolding p by auto
  have v: "head s < head_ticket s" "v = entered s ! nat t" using bq_okD(3)[OF ok, of p] p t(1) by (simp_all add: ticket_ok_def)
  have later: "head s + 1 \<le> u" if "q \<noteq> p" "push_ticket (bq_places s q) = Some (u, w)" for q u w
  proof -
    have "t \<noteq> u" using apart_push[OF bq_okD(4)[OF ok], of p q t v u w] that p by simp
    moreover have "head s \<le> u" using bq_okD(3)[OF ok, of q] that(2) by (simp add: ticket_ok_def)
    ultimately show ?thesis using t(1) by simp
  qed
  show "slots_ok N (at p ?x ?s)"
  proof -
    have "buffer s ! nat (i mod N) = entered s ! nat i" if "tail s \<le> i" "i < head s + 1" for i
      using sl(11)[of i] that t v by (cases "i = head s") auto
    then show ?thesis using sl t v by (auto simp: slots_ok_def)
  qed
  show "place_ok N (at p ?x ?s) (bq_places (at p ?x ?s) q)" for q
  proof (cases "q = p")
    case False
    then show ?thesis using bq_okD(2)[OF ok, of q] later[of q] by (cases "bq_places s q") auto
  qed simp
  show "ticket_ok (at p ?x ?s) (bq_places (at p ?x ?s) q)" for q
  proof (cases "q = p")
    case False
    then show ?thesis using bq_okD(3)[OF ok, of q] later[of q] by (auto simp: ticket_ok_def split: option.splits)
  qed (simp add: ticket_ok_def)
  show "tickets_apart (at p ?x ?s)" using bq_okD(4)[OF ok] p by (auto simp: tickets_apart_def)
  show "tickets_held (at p ?x ?s)"
    unfolding tickets_held_def
  proof (intro conjI allI impI)
    fix u assume u: "head (at p ?x ?s) \<le> u \<and> u < head_ticket (at p ?x ?s)"
    then obtain q w where q: "push_ticket (bq_places s q) = Some (u, w)" using held_push[OF bq_okD(5)[OF ok], of u] by auto
    then have "q \<noteq> p" using u p t(1) by auto
    then show "\<exists>q w. push_ticket (bq_places (at p ?x ?s) q) = Some (u, w)" using q by (intro exI[of _ q]) auto
  next
    fix u assume u: "tail (at p ?x ?s) \<le> u \<and> u < tail_ticket (at p ?x ?s)"
    then obtain q where "pop_ticket (bq_places s q) = Some u" using bq_okD(5)[OF ok] by (auto simp: tickets_held_def)
    then show "\<exists>q. pop_ticket (bq_places (at p ?x ?s) q) = Some u" using p by (intro exI[of _ q]) auto
  qed
qed

lemma pop_inc_ok:
  assumes ok: "bq_ok N s" and p: "bq_places s p = Pop_inc t v"
  shows "bq_ok N (at p Idle (s\<lparr>tail := tail s + 1, left := left s @ [v]\<rparr>))" (is "bq_ok N (at p ?x ?s)")
proof (rule bq_okI)
  note sl = slots_okD[OF bq_okD(1)[OF ok]]
  have t: "t = tail s" "tail s < head s" "v = entered s ! nat t" using bq_okD(2)[OF ok, of p] p by simp_all
  have lt: "tail s < tail_ticket s" using bq_okD(3)[OF ok, of p] p t(1) by (simp add: ticket_ok_def)
  have later: "tail s + 1 \<le> u" if "q \<noteq> p" "pop_ticket (bq_places s q) = Some u" for q u
  proof -
    have "t \<noteq> u" using apart_pop[OF bq_okD(4)[OF ok], of p q t u] that p by simp
    moreover have "tail s \<le> u" using bq_okD(3)[OF ok, of q] that(2) by (simp add: ticket_ok_def)
    ultimately show ?thesis using t(1) by simp
  qed
  show "slots_ok N (at p ?x ?s)"
  proof -
    have "nat (tail s) < length (entered s)" using sl(7,9) t(2) sl(4) by linarith
    then have "take (nat (tail s)) (entered s) @ [v] = take (nat (tail s + 1)) (entered s)"
      using t(1,3) sl(4) by (simp add: take_Suc_conv_app_nth nat_add_distrib)
    then show ?thesis using sl t lt by (auto simp: slots_ok_def)
  qed
  show "place_ok N (at p ?x ?s) (bq_places (at p ?x ?s) q)" for q
  proof (cases "q = p")
    case False
    then show ?thesis using bq_okD(2)[OF ok, of q] later[of q] by (cases "bq_places s q") auto
  qed simp
  show "ticket_ok (at p ?x ?s) (bq_places (at p ?x ?s) q)" for q
  proof (cases "q = p")
    case False
    then show ?thesis using bq_okD(3)[OF ok, of q] later[of q] by (auto simp: ticket_ok_def split: option.splits)
  qed (simp add: ticket_ok_def)
  show "tickets_apart (at p ?x ?s)" using bq_okD(4)[OF ok] p by (auto simp: tickets_apart_def)
  show "tickets_held (at p ?x ?s)"
    unfolding tickets_held_def
  proof (intro conjI allI impI)
    fix u assume u: "head (at p ?x ?s) \<le> u \<and> u < head_ticket (at p ?x ?s)"
    then obtain q w where "push_ticket (bq_places s q) = Some (u, w)" using bq_okD(5)[OF ok] by (auto simp: tickets_held_def)
    then show "\<exists>q w. push_ticket (bq_places (at p ?x ?s) q) = Some (u, w)" using p by (intro exI[of _ q]) auto
  next
    fix u assume u: "tail (at p ?x ?s) \<le> u \<and> u < tail_ticket (at p ?x ?s)"
    then obtain q where q: "pop_ticket (bq_places s q) = Some u" using held_pop[OF bq_okD(5)[OF ok], of u] by auto
    then have "q \<noteq> p" using u p t(1) by auto
    then show "\<exists>q. pop_ticket (bq_places (at p ?x ?s) q) = Some u" using q by (intro exI[of _ q]) auto
  qed
qed

text \<open>Inside the window the unsigned size is the difference.\<close>

lemma bq_size_window: "0 \<le> h - l \<Longrightarrow> h - l \<le> N \<Longrightarrow> N < 2 ^ 31 \<Longrightarrow> bq_size h l \<le> N"
  by (simp add: bq_size_def)

lemma bq_move_ok:
  assumes ok: "bq_ok N s"
  shows "bq_ok N (bq_move N p s)"
proof -
  note sl = slots_okD[OF bq_okD(1)[OF ok]]
  note pl = bq_okD(2)[OF ok, of p]
  note tk = bq_okD(3)[OF ok, of p]
  show ?thesis
  proof (cases "bq_places s p")
    case (Push_begin v)
    then show ?thesis using push_begin_ok[OF ok Push_begin] by (simp add: bq_move_def)
  next
    case (Push_write v t)
    then show ?thesis using push_write_ok[OF ok Push_write] by (simp add: bq_move_def)
  next
    case (Push_inc v t)
    then show ?thesis using push_inc_ok[OF ok Push_inc] by (simp add: bq_move_def)
  next
    case Pop_begin
    then show ?thesis using pop_begin_ok[OF ok Pop_begin] by (simp add: bq_move_def)
  next
    case (Pop_inc t v)
    then show ?thesis using pop_inc_ok[OF ok Pop_inc] by (simp add: bq_move_def)
  next
    case (Push_test v t h l)
    then have "head s \<le> t" using tk by (simp add: ticket_ok_def)
    then show ?thesis using local_move[OF ok] pl sl Push_test by (simp add: bq_move_def)
  next
    case (Push_size_head v t h)
    then have "bq_size h (tail s) \<le> N" using pl sl(2,5) by (intro bq_size_window) auto
    then show ?thesis using local_move[OF ok] pl sl Push_size_head by (simp add: bq_move_def)
  next
    case (Pop_test t h l)
    then have "tail s \<le> t" using tk by (simp add: ticket_ok_def)
    then show ?thesis using local_move[OF ok] pl sl Pop_test by (simp add: bq_move_def)
  next
    case (Pop_size_head t h)
    then have "bq_size h (tail s) \<le> N" using pl sl(2,6) by (intro bq_size_window) auto
    then show ?thesis using local_move[OF ok] pl sl Pop_size_head by (simp add: bq_move_def)
  next
    case (Pop_read t)
    then have "buffer s ! nat (t mod N) = entered s ! nat t" using pl sl(11)[of t] by simp
    then show ?thesis using local_move[OF ok] pl Pop_read by (simp add: bq_move_def)
  qed (use local_move[OF ok] ok pl sl(1,2) in \<open>simp_all add: bq_move_def\<close>)
qed

lemma bq_step_ok: "bq_step N p s t \<Longrightarrow> bq_ok N s \<Longrightarrow> bq_ok N t"
proof (induction rule: bq_step.induct)
  case (call s p x v)
  then show ?case by (intro local_move) auto
next
  case (move s p)
  then show ?case by (intro bq_move_ok)
qed

lemma bq_new_ok: "length g = nat N \<Longrightarrow> 0 < N \<Longrightarrow> N < 2 ^ 31 \<Longrightarrow> bq_ok N (bq_new g)"
  by (auto simp: bq_ok_def slots_ok_def ticket_ok_def tickets_apart_def tickets_held_def bq_new_def)

lemma bq_reachable_ok: "bq_reachable N s \<Longrightarrow> bq_ok N s"
  by (induction rule: bq_reachable.induct) (auto intro: bq_new_ok bq_step_ok)


section \<open>The queue\<close>

text \<open>C30: Values are handed out in the order in which their producers took tickets, no more than \<open>N\<close> are in the buffer, and no
  assertion fails.\<close>

theorem bounded_queue_fifo:
  assumes "bq_reachable N s"
  shows "left s = take (length (left s)) (entered s) \<and> head s - tail s \<le> N \<and> int (length (left s)) = tail s \<and>
    (\<forall>p. bq_places s p \<noteq> Aborted)"
proof -
  note ok = bq_reachable_ok[OF assms]
  note sl = slots_okD[OF bq_okD(1)[OF ok]]
  have len: "length (left s) = nat (tail s)" using sl(4,5,7,9,10) by simp
  have "bq_places s p \<noteq> Aborted" for p using bq_okD(2)[OF ok, of p] by auto
  then show ?thesis using len sl(4,6,10) by simp
qed

text \<open>Two threads at the buffer at the same time are at different slots.\<close>

lemma one_writer:
  assumes "bq_ok N s" "bq_places s p = Push_write v t" "bq_places s q = Push_write w u"
  shows "p = q"
  using apart_push[OF bq_okD(4)[OF assms(1)], of p q t v u w] bq_okD(2)[OF assms(1), of p] bq_okD(2)[OF assms(1), of q] assms(2,3)
  by auto

theorem accesses_do_not_race:
  assumes "bq_reachable N s" "p \<noteq> q"
    and "bq_places s p = Push_write v t"
    and "bq_places s q = Push_write w u \<or> bq_places s q = Pop_read u"
  shows "nat (t mod N) \<noteq> nat (u mod N)"
proof -
  note ok = bq_reachable_ok[OF assms(1)]
  note sl = slots_okD[OF bq_okD(1)[OF ok]]
  have q: "bq_places s q = Pop_read u" using one_writer[OF ok assms(3), of q w u] assms(2,4) by auto
  then have "t = head s" "head s - tail s < N" "u = tail s" "tail s < head s"
    using bq_okD(2)[OF ok, of p] bq_okD(2)[OF ok, of q] assms(3) by simp_all
  then have "t mod N \<noteq> u mod N" using slots_differ[of N t u] sl(1) by simp
  then show ?thesis using sl(1) by (simp add: nat_eq_iff)
qed

section \<open>Progress\<close>

text \<open>How many steps the thread whose turn it is may still take.\<close>

fun push_rank :: "int \<Rightarrow> 'a bq \<Rightarrow> 'a bq_place \<Rightarrow> nat" where
  "push_rank N s (Push_inc v t) = 0"
| "push_rank N s (Push_write v t) = 1"
| "push_rank N s (Push_size_head v t h) = 2"
| "push_rank N s (Push_size v t) = 3"
| "push_rank N s (Push_test v t h l) = (if h = head s \<and> h - l < N then 4 else 7)"
| "push_rank N s (Push_head v t h) = (if h = head s then 5 else 8)"
| "push_rank N s (Push_wait v t) = 6"
| "push_rank N s _ = 0"

fun pop_rank :: "'a bq \<Rightarrow> 'a bq_place \<Rightarrow> nat" where
  "pop_rank s (Pop_inc t v) = 0"
| "pop_rank s (Pop_read t) = 1"
| "pop_rank s (Pop_size_head t h) = 2"
| "pop_rank s (Pop_size t) = 3"
| "pop_rank s (Pop_test t h l) = (if l = tail s \<and> l < h then 4 else 7)"
| "pop_rank s (Pop_head t h) = (if tail s < h then 5 else 8)"
| "pop_rank s (Pop_wait t) = 6"
| "pop_rank s _ = 0"

lemma push_rank_move:
  assumes ok: "bq_ok N s" and t: "push_ticket (bq_places s p) = Some (head s, v)" and room: "head s - tail s < N"
    and r: "0 < push_rank N s (bq_places s p)"
  shows "push_rank N (bq_move N p s) (bq_places (bq_move N p s) p) < push_rank N s (bq_places s p) \<and>
    push_ticket (bq_places (bq_move N p s) p) = Some (head s, v) \<and> head (bq_move N p s) = head s \<and> tail (bq_move N p s) = tail s"
proof (cases "bq_places s p")
  case (Push_size_head w u h)
  then have "bq_size h (tail s) \<le> N"
    using bq_okD(2)[OF ok, of p] slots_okD(2,5)[OF bq_okD(1)[OF ok]] by (intro bq_size_window) auto
  then show ?thesis using t Push_size_head by (simp add: bq_move_def)
qed (use t room r in \<open>auto simp: bq_move_def\<close>)

lemma pop_rank_move:
  assumes ok: "bq_ok N s" and t: "pop_ticket (bq_places s p) = Some (tail s)" and data: "tail s < head s"
    and r: "0 < pop_rank s (bq_places s p)"
  shows "pop_rank (bq_move N p s) (bq_places (bq_move N p s) p) < pop_rank s (bq_places s p) \<and>
    pop_ticket (bq_places (bq_move N p s) p) = Some (tail s) \<and> head (bq_move N p s) = head s \<and> tail (bq_move N p s) = tail s"
proof (cases "bq_places s p")
  case (Pop_size_head u h)
  then have "bq_size h (tail s) \<le> N"
    using bq_okD(2)[OF ok, of p] slots_okD(2,6)[OF bq_okD(1)[OF ok]] by (intro bq_size_window) auto
  then show ?thesis using t Pop_size_head by (simp add: bq_move_def)
qed (use t data r in \<open>auto simp: bq_move_def\<close>)

lemma push_runs:
  assumes "bq_ok N s" "push_ticket (bq_places s p) = Some (head s, v)" "head s - tail s < N"
  shows "\<exists>u. (bq_step N p)\<^sup>*\<^sup>* s u \<and> head u = head s + 1 \<and> tail u = tail s"
  using assms
proof (induction "push_rank N s (bq_places s p)" arbitrary: s rule: less_induct)
  case less
  have "bq_places s p \<noteq> Idle" using less.prems(2) by auto
  then have st: "bq_step N p s (bq_move N p s)" by (rule move)
  show ?case
  proof (cases "push_rank N s (bq_places s p) = 0")
    case True
    then obtain w u where "bq_places s p = Push_inc w u" using less.prems(2) by (cases "bq_places s p") (auto split: if_splits)
    then have "head (bq_move N p s) = head s + 1 \<and> tail (bq_move N p s) = tail s" by (simp add: bq_move_def)
    then show ?thesis using st by blast
  next
    case False
    note m = push_rank_move[OF less.prems, simplified, OF False[simplified]]
    obtain u where "(bq_step N p)\<^sup>*\<^sup>* (bq_move N p s) u" "head u = head s + 1" "tail u = tail s"
      using less.hyps[of "bq_move N p s"] m less.prems(3) bq_move_ok[OF less.prems(1), of p] by auto
    then show ?thesis using st by (meson converse_rtranclp_into_rtranclp)
  qed
qed

lemma pop_runs:
  assumes "bq_ok N s" "pop_ticket (bq_places s p) = Some (tail s)" "tail s < head s"
  shows "\<exists>u. (bq_step N p)\<^sup>*\<^sup>* s u \<and> tail u = tail s + 1 \<and> head u = head s"
  using assms
proof (induction "pop_rank s (bq_places s p)" arbitrary: s rule: less_induct)
  case less
  have "bq_places s p \<noteq> Idle" using less.prems(2) by auto
  then have st: "bq_step N p s (bq_move N p s)" by (rule move)
  show ?case
  proof (cases "pop_rank s (bq_places s p) = 0")
    case True
    then obtain u w where "bq_places s p = Pop_inc u w" using less.prems(2) by (cases "bq_places s p") (auto split: if_splits)
    then have "tail (bq_move N p s) = tail s + 1 \<and> head (bq_move N p s) = head s" by (simp add: bq_move_def)
    then show ?thesis using st by blast
  next
    case False
    note m = pop_rank_move[OF less.prems, simplified, OF False[simplified]]
    obtain u where "(bq_step N p)\<^sup>*\<^sup>* (bq_move N p s) u" "tail u = tail s + 1" "head u = head s"
      using less.hyps[of "bq_move N p s"] m less.prems(3) bq_move_ok[OF less.prems(1), of p] by auto
    then show ?thesis using st by (meson converse_rtranclp_into_rtranclp)
  qed
qed

text \<open>C31: While there is room and a producer waits, one of them can finish by itself, and so can a consumer while there is data.\<close>

theorem waiting_threads_can_finish:
  assumes "bq_reachable N s"
  shows "(head s < head_ticket s \<and> head s - tail s < N \<longrightarrow> (\<exists>p u. (bq_step N p)\<^sup>*\<^sup>* s u \<and> head u = head s + 1)) \<and>
    (tail s < tail_ticket s \<and> tail s < head s \<longrightarrow> (\<exists>p u. (bq_step N p)\<^sup>*\<^sup>* s u \<and> tail u = tail s + 1))"
proof -
  note ok = bq_reachable_ok[OF assms]
  have "\<exists>p u. (bq_step N p)\<^sup>*\<^sup>* s u \<and> head u = head s + 1" if "head s < head_ticket s" "head s - tail s < N"
    using held_push[OF bq_okD(5)[OF ok] order_refl that(1)] push_runs[OF ok _ that(2)] by blast
  moreover have "\<exists>p u. (bq_step N p)\<^sup>*\<^sup>* s u \<and> tail u = tail s + 1" if "tail s < tail_ticket s" "tail s < head s"
    using held_pop[OF bq_okD(5)[OF ok] order_refl that(1)] pop_runs[OF ok _ that(2)] by blast
  ultimately show ?thesis by blast
qed

section \<open>Runs\<close>

text \<open>A run: a thread without an operation starts the one that is given, any other takes a step.\<close>

definition bq_turn :: "int \<Rightarrow> nat \<times> 'a bq_place \<Rightarrow> 'a bq \<Rightarrow> 'a bq" where
  "bq_turn N m s = (if bq_places s (fst m) = Idle then at (fst m) (snd m) s else bq_move N (fst m) s)"

definition is_call :: "'a bq_place \<Rightarrow> bool" where
  "is_call x = (case x of Try_push v \<Rightarrow> True | Push_begin v \<Rightarrow> True | Try_pop \<Rightarrow> True | Pop_begin \<Rightarrow> True | _ \<Rightarrow> False)"

lemma bq_turn_reachable: "is_call (snd m) \<Longrightarrow> bq_reachable N s \<Longrightarrow> bq_reachable N (bq_turn N m s)"
proof (cases "bq_places s (fst m) = Idle")
  case True
  assume "is_call (snd m)" "bq_reachable N s"
  moreover from this(1) obtain v where "snd m \<in> {Try_push v, Push_begin v, Try_pop, Pop_begin}"
    by (auto simp: is_call_def split: bq_place.splits)
  ultimately have "bq_reachable N (at (fst m) (snd m) s)" using step call[OF True] by blast
  then show "bq_reachable N (bq_turn N m s)" using True by (simp add: bq_turn_def)
qed (auto simp: bq_turn_def intro: step bq_step.intros)

lemma bq_turns_reachable: "list_all (is_call \<circ> snd) ms \<Longrightarrow> bq_reachable N s \<Longrightarrow> bq_reachable N (fold (bq_turn N) ms s)"
  by (induction ms arbitrary: s) (simp_all add: bq_turn_reachable)

text \<open>Thread 1 fills a queue of one between the look of thread 0 and its ticket, and \<open>try_push\<close> spins.\<close>

definition late_schedule :: "(nat \<times> int bq_place) list" where
  "late_schedule = replicate 3 (0, Try_push 5) @ replicate 9 (1, Push_begin 7) @ [(0, Try_push 5)]"

definition late_state :: "int bq" where
  "late_state = \<lparr>head = 1, tail = 0, head_ticket = 2, tail_ticket = 0, buffer = [7], bq_places = (\<lambda>_. Idle)(0 := Push_wait 5 1),
     entered = [7, 5], left = []\<rparr>"

lemma late_run: "fold (bq_turn 1) late_schedule (bq_new [0]) = late_state"
proof -
  have r: "replicate 3 x = [x, x, x]" "replicate 9 x = [x, x, x, x, x, x, x, x, x]" for x :: "nat \<times> int bq_place"
    by (simp_all add: numeral_eq_Suc)
  show ?thesis
    unfolding late_schedule_def r
    by (simp add: bq_turn_def bq_move_def at_def bq_new_def bq_full_def bq_size_def late_state_def fun_eq_iff)
qed

lemma late_reachable: "bq_reachable 1 late_state"
  unfolding late_run[symmetric]
  by (rule bq_turns_reachable) (auto simp: late_schedule_def is_call_def list_all_iff intro!: start)

theorem try_push_spins:
  "bq_reachable 1 late_state \<and> (bq_move 1 0 ^^ (3 * n)) late_state = late_state"
proof
  have once: "(bq_move 1 0 ^^ 3) late_state = late_state"
    by (simp add: numeral_3_eq_3 bq_move_def at_def late_state_def)
  show "(bq_move 1 0 ^^ (3 * n)) late_state = late_state"
    by (induction n) (simp_all only: mult_0_right mult_Suc_right funpow_0 funpow_add o_apply once)
qed (rule late_reachable)

section \<open>The variant with a mutex as a queue\<close>

definition tq_items :: "int \<Rightarrow> 'a tq \<Rightarrow> 'a list" where
  "tq_items N q = map (\<lambda>i. t_buffer q ! nat (i mod N)) [t_tail q..t_head q - 1]"

definition tq_ok :: "int \<Rightarrow> 'a tq \<Rightarrow> bool" where
  "tq_ok N q \<longleftrightarrow> 0 < N \<and> N < 2 ^ 31 \<and> length (t_buffer q) = nat N \<and> t_tail q \<le> t_head q \<and> t_head q - t_tail q \<le> N \<and>
     t_size q = t_head q - t_tail q"

lemma tq_size: "tq_ok N q \<Longrightarrow> bq_size (t_head q) (t_tail q) = int (length (tq_items N q))"
  by (simp add: tq_ok_def tq_items_def bq_size_def)

text \<open>The critical sections are those of a queue of at most \<open>N\<close> values.\<close>

theorem mutex_queue_refines_list:
  assumes "tq_ok N q"
  shows "(case tq_push N v q of None \<Rightarrow> int (length (tq_items N q)) = N | Some r \<Rightarrow> tq_ok N r \<and> tq_items N r = tq_items N q @ [v]) \<and>
    (case tq_pop N q of None \<Rightarrow> tq_items N q = [] | Some (w, r) \<Rightarrow> tq_ok N r \<and> tq_items N q = w # tq_items N r)"
proof
  note ok = assms[unfolded tq_ok_def]
  show "case tq_push N v q of None \<Rightarrow> int (length (tq_items N q)) = N | Some r \<Rightarrow> tq_ok N r \<and> tq_items N r = tq_items N q @ [v]"
  proof (cases "tq_full N q")
    case False
    let ?r = "q\<lparr>t_buffer := (t_buffer q)[nat (t_head q mod N) := v], t_head := t_head q + 1, t_size := t_size q + 1\<rparr>"
    have len: "t_head q - t_tail q < N" using False tq_size[OF assms] ok by (simp add: tq_full_def bq_full_def tq_items_def)
    have idx: "nat (t_head q mod N) < length (t_buffer q)" using ok by (simp add: nat_less_iff)
    have keep: "(t_buffer q)[nat (t_head q mod N) := v] ! nat (i mod N) = t_buffer q ! nat (i mod N)"
      if "t_tail q \<le> i" "i < t_head q" for i
    proof -
      have "t_head q mod N \<noteq> i mod N" using slots_differ[of N "t_head q" i] ok len that by simp
      then have "nat (t_head q mod N) \<noteq> nat (i mod N)" using ok by (simp add: nat_eq_iff)
      then show ?thesis by simp
    qed
    have "[t_tail q..t_head q] = [t_tail q..t_head q - 1] @ [t_head q]" using ok by (simp add: upto_rec2)
    then have "tq_items N ?r = tq_items N q @ [v]" using idx keep by (simp add: tq_items_def)
    then show ?thesis using False ok len by (simp add: tq_push_def tq_ok_def)
  qed (use tq_size[OF assms] in \<open>simp add: tq_push_def tq_full_def bq_full_def\<close>)
  show "case tq_pop N q of None \<Rightarrow> tq_items N q = [] | Some (w, r) \<Rightarrow> tq_ok N r \<and> tq_items N q = w # tq_items N r"
  proof (cases "tq_empty q")
    case False
    then have "t_tail q < t_head q" using tq_size[OF assms] ok by (auto simp: tq_empty_def bq_empty_def tq_items_def)
    then have "[t_tail q..t_head q - 1] = t_tail q # [t_tail q + 1..t_head q - 1]" by (simp add: upto_rec1)
    then show ?thesis using False ok \<open>t_tail q < t_head q\<close> by (simp add: tq_pop_def tq_ok_def tq_items_def)
  qed (use tq_size[OF assms] in \<open>simp add: tq_pop_def tq_empty_def bq_empty_def\<close>)
qed

section \<open>Witnesses\<close>

theorem bounded_queue_fifo_witness: "left late_state = take 0 [7, 5] \<and> head late_state - tail late_state \<le> 1"
  using bounded_queue_fifo[OF late_reachable] by (simp add: late_state_def)

definition race_schedule :: "(nat \<times> int bq_place) list" where
  "race_schedule = replicate 9 (0, Push_begin 4) @ replicate 7 (0, Push_begin 5) @ replicate 7 (1, Pop_begin)"

lemma race_places:
  "bq_reachable 2 (fold (bq_turn 2) race_schedule (bq_new [0, 0])) \<and>
   bq_places (fold (bq_turn 2) race_schedule (bq_new [0, 0])) 0 = Push_write 5 1 \<and>
   bq_places (fold (bq_turn 2) race_schedule (bq_new [0, 0])) 1 = Pop_read 0"
proof -
  have r: "replicate 7 x = [x, x, x, x, x, x, x]" "replicate 9 x = [x, x, x, x, x, x, x, x, x]" for x :: "nat \<times> int bq_place"
    by (simp_all add: numeral_eq_Suc)
  have "bq_reachable 2 (fold (bq_turn 2) race_schedule (bq_new [0, 0]))"
    by (rule bq_turns_reachable) (auto simp: race_schedule_def is_call_def list_all_iff intro!: start)
  moreover have "bq_places (fold (bq_turn 2) race_schedule (bq_new [0, 0])) 0 = Push_write 5 1 \<and>
   bq_places (fold (bq_turn 2) race_schedule (bq_new [0, 0])) 1 = Pop_read 0"
    unfolding race_schedule_def r
    by (simp add: bq_turn_def bq_move_def at_def bq_new_def bq_full_def bq_size_def)
  ultimately show ?thesis by blast
qed

theorem accesses_do_not_race_witness: "nat (1 mod (2 :: int)) \<noteq> nat (0 mod 2)"
  using accesses_do_not_race[of 2 "fold (bq_turn 2) race_schedule (bq_new [0, 0])" 0 1 5 1 0 0] race_places by simp

theorem waiting_threads_can_finish_witness:
  "\<exists>p u. (bq_step 1 p)\<^sup>*\<^sup>* (at 0 (Push_wait 5 0) (bq_new [0])\<lparr>head_ticket := 1, entered := [5 :: int]\<rparr>) u \<and> head u = 1"
proof -
  let ?s = "at 0 (Push_wait 5 0) (bq_new [0])\<lparr>head_ticket := 1, entered := [5]\<rparr> :: int bq"
  have "fold (bq_turn 1) [(0, Push_begin 5), (0, Push_begin 5)] (bq_new [0]) = ?s"
    by (simp add: bq_turn_def bq_move_def at_def bq_new_def)
  moreover have "bq_reachable 1 (fold (bq_turn 1) [(0, Push_begin 5), (0, Push_begin 5)] (bq_new [0]) :: int bq)"
    by (rule bq_turns_reachable) (auto simp: is_call_def intro!: start)
  ultimately have "bq_reachable 1 ?s" by simp
  from waiting_threads_can_finish[OF this] show ?thesis by (simp add: at_def bq_new_def)
qed

theorem mutex_queue_refines_list_witness:
  "\<exists>r. tq_push 2 5 \<lparr>t_head = 1, t_tail = 0, t_size = 1, t_buffer = [4, 0]\<rparr> = Some r \<and> tq_items 2 r = [4 :: int, 5]"
proof -
  let ?q = "\<lparr>t_head = 1, t_tail = 0, t_size = 1, t_buffer = [4, 0]\<rparr> :: int tq"
  have "tq_ok 2 ?q" "tq_items 2 ?q = [4]" by (simp_all add: tq_ok_def tq_items_def)
  then show ?thesis
    using mutex_queue_refines_list[of 2 ?q 5] by (simp add: tq_push_def tq_full_def bq_full_def bq_size_def)
qed

end
