(* ===== verification/Ex_Cards.thy ===== *)
theory Ex_Cards
  imports Prelude "HOL-Library.Multiset"
begin

text \<open>
  The rounds of \<open>exercises/cards.cpp\<close>, after which a deck is in its first order again: cards go from the top of the deck to the table and
  to the bottom of the deck in turn. The program has a reference implementation with a queue and a stack and an optimised one with two arrays; both
  are shown to return the order of the permutation that a round is, when it fits into an \<open>int\<close>.
\<close>

section \<open>The reference implementation\<close>

text \<open>The top of the stack is the head of the list.\<close>

function deal :: "'a list \<Rightarrow> bool \<Rightarrow> 'a list \<Rightarrow> 'a list" where
  "deal [] to_table table = table"
| "deal (current # deck) True table = deal deck False (current # table)"
| "deal (current # deck) False table = deal (deck @ [current]) True table"
  by pat_completeness auto
termination by (relation "measure (\<lambda>(deck, to_table, table). 2 * length deck + (if to_table then 0 else 1))") auto

definition reference_round :: "'a list \<Rightarrow> 'a list" where
  "reference_round deck = deal deck True []"

text \<open>A counter of type \<open>int\<close> that goes past its largest value is undefined.\<close>

definition int_max :: int where
  "int_max = 2 ^ 31 - 1"

definition increment :: "int \<Rightarrow> int outcome" where
  "increment n = (if n < int_max then Inr (n + 1) else Inl Undefined)"

partial_function (option) reference_rounds :: "int list \<Rightarrow> int list \<Rightarrow> int \<Rightarrow> int outcome option" where
  "reference_rounds start deck rounds =
     (case increment rounds of
        Inl e \<Rightarrow> Some (Inl e)
      | Inr r \<Rightarrow> (if reference_round deck \<noteq> start then reference_rounds start (reference_round deck) r else Some (Inr r)))"

definition do_reference_impl :: "nat \<Rightarrow> int outcome option" where
  "do_reference_impl n = reference_rounds (map int [0..<n]) (map int [0..<n]) 0"

section \<open>The optimised implementation\<close>

definition store_at :: "int list \<Rightarrow> int \<Rightarrow> int \<Rightarrow> int list outcome" where
  "store_at xs i x = (if 0 \<le> i then checked_update xs (nat i) x else Inl Out_of_bounds)"

definition load_at :: "int list \<Rightarrow> int \<Rightarrow> int outcome" where
  "load_at xs i = (if 0 \<le> i then checked_nth xs (nat i) else Inl Out_of_bounds)"

definition add_int :: "int \<Rightarrow> int \<Rightarrow> int outcome" where
  "add_int a b = (if a + b \<le> int_max then Inr (a + b) else Inl Undefined)"

text \<open>One walk over the cards that are left: a card that is not taken is written too, and then overwritten.\<close>

partial_function (option) stride_loop ::
    "int \<Rightarrow> int \<Rightarrow> int list \<Rightarrow> int list \<Rightarrow> int \<Rightarrow> int \<Rightarrow> bool \<Rightarrow> (int list \<times> int \<times> bool) outcome option" where
  "stride_loop n stride deck table index spot take_card =
     (if index < n then
        (case and_then (load_at deck index) (\<lambda>c. and_then (store_at table spot c) (\<lambda>table.
              and_then (add_int index stride) (\<lambda>index. Inr (table, index)))) of
           Inl e \<Rightarrow> Some (Inl e)
         | Inr (table, index) \<Rightarrow>
             stride_loop n stride deck table index (spot - (if take_card then 1 else 0)) (\<not> take_card))
      else Some (Inr (table, spot, take_card)))"

partial_function (option) table_loop ::
    "int \<Rightarrow> int list \<Rightarrow> int list \<Rightarrow> int \<Rightarrow> int \<Rightarrow> int \<Rightarrow> bool \<Rightarrow> int list outcome option" where
  "table_loop n deck table start stride spot take_card =
     (if 0 \<le> spot then
        (case add_int start ((if take_card then 1 else 0) * stride) of
           Inl e \<Rightarrow> Some (Inl e)
         | Inr next_start \<Rightarrow>
             Option.bind (stride_loop n stride deck table start spot take_card) (\<lambda>r.
             case r of
               Inl e \<Rightarrow> Some (Inl e)
             | Inr (table, spot, take_card) \<Rightarrow>
                 (case add_int stride stride of
                    Inl e \<Rightarrow> Some (Inl e)
                  | Inr stride \<Rightarrow> table_loop n deck table next_start stride spot take_card)))
      else Some (Inr table))"

definition optimized_round :: "nat \<Rightarrow> int list \<Rightarrow> int list \<Rightarrow> int list outcome option" where
  "optimized_round n deck table = table_loop (int n) deck table 0 1 (int n - 1) True"

partial_function (option) optimized_rounds :: "nat \<Rightarrow> int list \<Rightarrow> int list \<Rightarrow> int \<Rightarrow> int outcome option" where
  "optimized_rounds n deck table rounds =
     Option.bind (optimized_round n deck table) (\<lambda>r.
     case r of
       Inl e \<Rightarrow> Some (Inl e)
     | Inr dealt \<Rightarrow>
         (case increment rounds of
            Inl e \<Rightarrow> Some (Inl e)
          | Inr r \<Rightarrow> (if list_all (\<lambda>i. dealt ! i = int i) [0..<n] then Some (Inr r) else optimized_rounds n dealt deck r)))"

text \<open>The other array is not initialised.\<close>

definition do_optimized_impl :: "nat \<Rightarrow> int list \<Rightarrow> int outcome option" where
  "do_optimized_impl n garbage = optimized_rounds n (map int [0..<n]) garbage 0"

section \<open>A round of the reference implementation\<close>

fun taken :: "bool \<Rightarrow> 'a list \<Rightarrow> 'a list" where
  "taken b [] = []"
| "taken True (x # xs) = x # taken False xs"
| "taken False (x # xs) = taken True xs"

definition kept :: "bool \<Rightarrow> 'a list \<Rightarrow> 'a list" where
  "kept b xs = taken (\<not> b) xs"

lemma kept_simps [simp]: "kept b [] = []" "kept True (x # xs) = kept False xs" "kept False (x # xs) = x # kept True xs"
  by (simp_all add: kept_def)

lemma length_taken_kept: "length (taken b xs) + length (kept b xs) = length xs"
  by (induction b xs rule: taken.induct) simp_all

lemma deal_pass:
  "deal (xs @ ys) b table = deal (ys @ kept b xs) (b \<noteq> odd (length xs)) (rev (taken b xs) @ table)"
proof (induction b xs arbitrary: ys table rule: taken.induct)
  case (3 x xs)
  then show ?case using 3[of "ys @ [x]"] by simp
qed simp_all

lemma deal_map: "deal (map f xs) b (map f ys) = map f (deal xs b ys)"
proof (induction xs b ys rule: deal.induct)
  case (2 x xs ys)
  then show ?case by simp
next
  case (3 x xs ys)
  then show ?case by simp
qed simp

lemma mset_deal: "mset (deal xs b ys) = mset xs + mset ys"
  by (induction xs b ys rule: deal.induct) auto

lemma length_deal: "length (deal xs b ys) = length xs + length ys"
  using mset_deal[of xs b ys] by (metis size_mset size_union)


section \<open>A round of the optimised implementation\<close>

text \<open>The indices of the cards that are left.\<close>

function strided :: "nat \<Rightarrow> nat \<Rightarrow> nat \<Rightarrow> nat list" where
  "strided n i d = (if i < n \<and> 0 < d then i # strided n (i + d) d else [])"
  by pat_completeness auto
termination by (relation "measure (\<lambda>(n, i, d). n - i)") auto

declare strided.simps [simp del]

lemma strided_step: "i < n \<Longrightarrow> 0 < d \<Longrightarrow> strided n i d = i # strided n (i + d) d"
  by (simp add: strided.simps)

lemma strided_end: "n \<le> i \<Longrightarrow> strided n i d = []"
  by (simp add: strided.simps)

lemma kept_strided:
  "0 < d \<Longrightarrow> kept True (strided n i d) = strided n (i + d) (2 * d) \<and> kept False (strided n i d) = strided n i (2 * d)"
proof (induction n i d rule: strided.induct)
  case (1 n i d)
  show ?case
  proof (cases "i < n")
    case True
    then show ?thesis using 1 strided_step[of i n d] strided_step[of i n "2 * d"] by (simp add: mult_2 add.assoc)
  next
    case False
    then show ?thesis by (simp add: strided_end)
  qed
qed

lemma taken_map: "taken b (map f xs) = map f (taken b xs)"
  by (induction b xs rule: taken.induct) simp_all

lemma kept_map: "kept b (map f xs) = map f (kept b xs)"
  by (simp add: kept_def taken_map)

lemma drop_update_here: "m < length xs \<Longrightarrow> drop m (xs[m := x]) = x # drop (Suc m) xs"
  by (simp add: Cons_nth_drop_Suc[symmetric])

text \<open>The cards taken are pushed on the part of the table that is filled.\<close>

lemma stride_loop_pass:
  assumes "0 < d" "length deck = n" "length table = n" "length (strided n i d) + k \<le> n" "int n + int d \<le> int_max"
  shows "\<exists>table'. stride_loop (int n) (int d) deck table (int i) (int (length (strided n i d) + k) - 1) b =
      Some (Inr (table', int (length (kept b (strided n i d)) + k) - 1, b \<noteq> odd (length (strided n i d)))) \<and> length table' = n \<and>
    drop (length (kept b (strided n i d)) + k) table' =
      rev (map ((!) deck) (taken b (strided n i d))) @ drop (length (strided n i d) + k) table"
  using assms
proof (induction n i d arbitrary: table b k rule: strided.induct)
  case (1 n i d)
  show ?case
  proof (cases "i < n")
    case False
    then show ?thesis using 1(4) by (subst stride_loop.simps) (simp add: strided_end)
  next
    case True
    define xs where "xs = strided n (i + d) d"
    have xs: "strided n i d = i # xs" using True 1(2) by (simp add: strided_step xs_def)
    let ?m = "length xs + k"
    let ?table = "table[?m := deck ! i]"
    have m: "?m < length table" "?m < n" using 1(4,5) xs by simp_all
    have add: "add_int (int i) (int d) = Inr (int (i + d))" using True 1(6) by (simp add: add_int_def)
    have step: "stride_loop (int n) (int d) deck table (int i) (int ?m) b =
        stride_loop (int n) (int d) deck ?table (int (i + d)) (int ?m - (if b then 1 else 0)) (\<not> b)"
      using True 1(3) m add by (subst stride_loop.simps) (simp add: load_at_def store_at_def nat_int_add)
    show ?thesis
    proof (cases b)
      case True
      obtain table' where t: "stride_loop (int n) (int d) deck ?table (int (i + d)) (int ?m - 1) False =
          Some (Inr (table', int (length (kept False xs) + k) - 1, False \<noteq> odd (length xs)))" "length table' = n"
        "drop (length (kept False xs) + k) table' = rev (map ((!) deck) (taken False xs)) @ drop ?m ?table"
        using 1(1)[of ?table k False] 1 \<open>i < n\<close> m unfolding xs_def by auto
      then show ?thesis using step True xs m(1) by (simp add: drop_update_here)
    next
      case False
      obtain table' where t: "stride_loop (int n) (int d) deck ?table (int (i + d)) (int (length xs + Suc k) - 1) True =
          Some (Inr (table', int (length (kept True xs) + Suc k) - 1, True \<noteq> odd (length xs)))" "length table' = n"
        "drop (length (kept True xs) + Suc k) table' = rev (map ((!) deck) (taken True xs)) @ drop (length xs + Suc k) ?table"
        using 1(1)[of ?table "Suc k" True] 1 \<open>i < n\<close> m unfolding xs_def by auto
      then show ?thesis using step False xs by simp
    qed
  qed
qed

lemma strided_second: "2 \<le> length (strided n i d) \<Longrightarrow> d < n"
  by (cases "i < n \<and> 0 < d"; cases "i + d < n") (auto simp: strided_step strided_end strided.simps[of n i d])

lemma table_loop_deals:
  assumes "0 < d" "length deck = n" "length table = n" "length (strided n i d) \<le> n" "n < 2 ^ 28"
    "length (strided n i d) = 1 \<longrightarrow> d \<le> (if b then 4 * n else 2 * n)"
  shows "table_loop (int n) deck table (int i) (int d) (int (length (strided n i d)) - 1) b =
    Some (Inr (deal (map ((!) deck) (strided n i d)) b (drop (length (strided n i d)) table)))"
  using assms
proof (induction "2 * length (strided n i d) + (if b then 0 else 1)" arbitrary: table i d b rule: less_induct)
  case less
  define xs where "xs = strided n i d"
  show ?case
  proof (cases "xs = []")
    case True
    then show ?thesis unfolding xs_def by (subst table_loop.simps) simp
  next
    case False
    then have i: "i < n" unfolding xs_def using strided_end[of n i d] by (metis not_le)
    have d: "d \<le> 4 * n"
    proof (cases "length xs = 1")
      case True
      then show ?thesis using less.prems(6) unfolding xs_def by (auto split: if_splits)
    next
      case long: False
      moreover have "length xs \<noteq> 0" using False by simp
      ultimately have "d < n" using strided_second[of n i d] unfolding xs_def by linarith
      then show ?thesis by simp
    qed
    let ?i = "if b then i + d else i"
    let ?b = "b \<noteq> odd (length xs)"
    have k: "kept b xs = strided n ?i (2 * d)" using kept_strided[OF less.prems(1), of n i] by (simp add: xs_def)
    have fits: "int n + int d \<le> int_max" "int d + int d \<le> int_max" using d less.prems(5) by (simp_all add: int_max_def)
    have adds: "add_int (int i) ((if b then 1 else 0) * int d) = Inr (int ?i)" "add_int (int d) (int d) = Inr (int (2 * d))"
      using fits i by (auto simp: add_int_def)
    obtain table' where t: "stride_loop (int n) (int d) deck table (int i) (int (length xs) - 1) b =
        Some (Inr (table', int (length (kept b xs)) - 1, ?b))" "length table' = n"
      "drop (length (kept b xs)) table' = rev (map ((!) deck) (taken b xs)) @ drop (length xs) table"
      using stride_loop_pass[OF less.prems(1-3), of i 0 b] less.prems(4) fits(1) unfolding xs_def by auto
    have small: "length (kept b xs) \<le> n" using length_taken_kept[of b xs] less.prems(4) unfolding xs_def by linarith
    have one: "length (strided n ?i (2 * d)) = 1 \<longrightarrow> 2 * d \<le> (if ?b then 4 * n else 2 * n)"
    proof
      assume kl: "length (strided n ?i (2 * d)) = 1"
      show "2 * d \<le> (if ?b then 4 * n else 2 * n)"
      proof (cases "length xs = 1")
        case True
        then obtain x where x: "xs = [x]" by (cases xs) auto
        then have "\<not> b" using kl unfolding k[symmetric] by auto
        then show ?thesis using x less.prems(6) unfolding xs_def by auto
      next
        case long: False
        moreover have "length xs \<noteq> 0" using False by simp
        ultimately have "d < n" using strided_second[of n i d] unfolding xs_def by linarith
        then show ?thesis by simp
      qed
    qed
    have dec: "2 * length (strided n ?i (2 * d)) + (if ?b then 0 else 1) < 2 * length xs + (if b then 0 else (1 :: nat))"
    proof -
      obtain x ys where x: "xs = x # ys" using False by (cases xs) auto
      have "length (kept True ys) \<le> length ys" "length (kept False ys) \<le> length ys"
        using length_taken_kept[of True ys] length_taken_kept[of False ys] by linarith+
      moreover have "length (kept True ys) < length ys" if "ys \<noteq> []"
        using that length_taken_kept[of True ys] by (cases ys) auto
      ultimately show ?thesis unfolding k[symmetric] x by (cases b; cases ys) auto
    qed
    have "table_loop (int n) deck table (int i) (int d) (int (length xs) - 1) b =
        table_loop (int n) deck table' (int ?i) (int (2 * d)) (int (length (kept b xs)) - 1) ?b"
      using False t(1) adds by (subst table_loop.simps) (simp only: sum.case prod.case Option.bind.simps, cases xs; simp)
    also have "\<dots> = Some (Inr (deal (map ((!) deck) (kept b xs)) ?b (drop (length (kept b xs)) table')))"
      unfolding k
    proof (rule less.hyps)
      show "2 * length (strided n ?i (2 * d)) + (if ?b then 0 else 1) < 2 * length (strided n i d) + (if b then 0 else 1)"
        using dec unfolding xs_def .
      show "length (strided n ?i (2 * d)) \<le> n" using small unfolding k .
      show "length (strided n ?i (2 * d)) = 1 \<longrightarrow> 2 * d \<le> (if ?b then 4 * n else 2 * n)" by (rule one)
    qed (use less.prems(1,2,5) t(2) in auto)
    also have "deal (map ((!) deck) (kept b xs)) ?b (drop (length (kept b xs)) table') = deal (map ((!) deck) xs) b (drop (length xs) table)"
      using deal_pass[of "map ((!) deck) xs" "[]" b "drop (length xs) table"] t(3) by (simp add: kept_map taken_map)
    finally show ?thesis unfolding xs_def .
  qed
qed

lemma strided_all: "strided n i 1 = [i..<n]"
proof (induction "n - i" arbitrary: i)
  case (Suc k)
  then have "k = n - (i + 1)" by simp
  then show ?case using Suc(1)[of "i + 1"] Suc(2) strided_step[of i n 1] by (simp add: upt_rec[of i])
qed (simp add: strided_end)

lemma optimized_round_deals:
  assumes "length deck = n" "length table = n" "n < 2 ^ 28"
  shows "optimized_round n deck table = Some (Inr (reference_round deck))"
proof -
  have "map ((!) deck) [0..<n] = deck" using assms(1) map_nth[of deck] by simp
  then show ?thesis
    using table_loop_deals[of 1 deck n table 0 True] assms
    by (simp add: strided_all[unfolded One_nat_def] optimized_round_def reference_round_def)
qed

section \<open>The order of a round\<close>

lemma length_round [simp]: "length (reference_round deck) = length deck"
  by (simp add: reference_round_def length_deal)

lemma length_rounds [simp]: "length ((reference_round ^^ k) deck) = length deck"
  by (induction k) simp_all

lemma mset_rounds: "mset ((reference_round ^^ k) deck) = mset deck"
  by (induction k) (simp_all add: reference_round_def mset_deal)

lemma round_as_map: "reference_round deck = map ((!) deck) (reference_round [0..<length deck])"
  using deal_map[of "(!) deck" "[0..<length deck]" True "[]"] map_nth[of deck] by (simp add: reference_round_def)

lemma round_injective:
  assumes "reference_round xs = reference_round ys" "length xs = length ys"
  shows "xs = ys"
proof (rule nth_equalityI)
  fix i assume i: "i < length xs"
  have "mset (reference_round [0..<length xs]) = mset [0..<length xs]" by (simp add: reference_round_def mset_deal)
  then have "set (reference_round [0..<length xs]) = set [0..<length xs]" by (rule mset_eq_setD)
  then have "i \<in> set (reference_round [0..<length xs])" using i by simp
  moreover have "map ((!) xs) (reference_round [0..<length xs]) = map ((!) ys) (reference_round [0..<length xs])"
    using assms round_as_map[of xs] round_as_map[of ys] by simp
  ultimately show "xs ! i = ys ! i" by simp
qed (rule assms(2))

lemma rounds_cancel:
  "(reference_round ^^ (i + k)) xs = (reference_round ^^ i) xs \<Longrightarrow> (reference_round ^^ k) xs = xs"
proof (induction i)
  case (Suc i)
  then have "(reference_round ^^ (i + k)) xs = (reference_round ^^ i) xs" by (auto intro: round_injective)
  then show ?case by (rule Suc.IH)
qed simp

lemma rounds_return: "\<exists>k>0. (reference_round ^^ k) xs = xs"
proof -
  let ?f = "\<lambda>k. (reference_round ^^ k) xs"
  have "range ?f \<subseteq> {ys. mset ys = mset xs}" by (auto simp: mset_rounds)
  moreover have "finite {ys. mset ys = mset xs}"
    by (rule finite_subset[OF _ finite_lists_length_eq[of "set xs" "length xs"]]) (auto dest: mset_eq_setD mset_eq_length)
  ultimately have "\<not> inj ?f" using finite_imageD[of ?f UNIV] finite_subset infinite_UNIV_nat by blast
  then obtain i j where "i < j" "?f i = ?f j" by (metis (no_types, lifting) injI linorder_neqE_nat)
  then have "(reference_round ^^ (i + (j - i))) xs = (reference_round ^^ i) xs" by simp
  from rounds_cancel[OF this] show ?thesis using \<open>i < j\<close> by (intro exI[of _ "j - i"]) simp
qed

text \<open>The number of rounds after which a deck of \<open>n\<close> cards is in order again.\<close>

definition rounds_of :: "nat \<Rightarrow> nat" where
  "rounds_of n = (LEAST k. 0 < k \<and> (reference_round ^^ k) (map int [0..<n]) = map int [0..<n])"

definition counted :: "int \<Rightarrow> int outcome" where
  "counted k = (if k \<le> int_max then Inr k else Inl Undefined)"

lemma increment_counted: "increment r = counted (r + 1)"
  by (auto simp: increment_def counted_def)

lemma reference_rounds_count:
  assumes "(reference_round ^^ Suc k) deck = goal" "\<forall>j<k. (reference_round ^^ Suc j) deck \<noteq> goal"
  shows "reference_rounds goal deck r = Some (counted (r + 1 + int k))"
  using assms
proof (induction k arbitrary: deck r)
  case 0
  then show ?case by (subst reference_rounds.simps) (auto simp: increment_counted counted_def)
next
  case (Suc k)
  have n: "reference_round deck \<noteq> goal" using Suc.prems(2)[rule_format, of 0] by simp
  have "reference_rounds goal (reference_round deck) (r + 1) = Some (counted (r + 1 + 1 + int k))"
    using Suc.prems by (intro Suc.IH) (auto simp: funpow_swap1)
  then show ?case using n by (subst reference_rounds.simps) (auto simp: increment_counted counted_def add.assoc)
qed

lemma in_order_iff: "length d = n \<Longrightarrow> list_all (\<lambda>i. d ! i = int i) [0..<n] \<longleftrightarrow> d = map int [0..<n]"
  by (simp add: list_all_iff list_eq_iff_nth_eq Ball_def)

lemma optimized_rounds_count:
  assumes "(reference_round ^^ Suc k) deck = map int [0..<n]" "\<forall>j<k. (reference_round ^^ Suc j) deck \<noteq> map int [0..<n]"
    "length deck = n" "length table = n" "n < 2 ^ 28"
  shows "optimized_rounds n deck table r = Some (counted (r + 1 + int k))"
  using assms
proof (induction k arbitrary: deck table r)
  case 0
  then show ?case
    by (subst optimized_rounds.simps) (auto simp: optimized_round_deals increment_counted counted_def list_all_iff)
next
  case (Suc k)
  have n: "reference_round deck \<noteq> map int [0..<n]" using Suc.prems(2)[rule_format, of 0] by simp
  then have "\<not> list_all (\<lambda>i. reference_round deck ! i = int i) [0..<n]" using in_order_iff[of "reference_round deck" n] Suc.prems(3) by simp
  moreover have "optimized_rounds n (reference_round deck) deck (r + 1) = Some (counted (r + 1 + 1 + int k))"
    using Suc.prems by (intro Suc.IH) (auto simp: funpow_swap1)
  ultimately show ?case using Suc.prems(3-5)
    by (subst optimized_rounds.simps) (auto simp: optimized_round_deals increment_counted counted_def add.assoc)
qed

lemma rounds_of_least:
  obtains k where "rounds_of n = Suc k" "(reference_round ^^ Suc k) (map int [0..<n]) = map int [0..<n]"
    "\<forall>j<k. (reference_round ^^ Suc j) (map int [0..<n]) \<noteq> map int [0..<n]"
proof -
  let ?P = "\<lambda>k. 0 < k \<and> (reference_round ^^ k) (map int [0..<n]) = map int [0..<n]"
  have P: "?P (rounds_of n)" unfolding rounds_of_def by (rule LeastI_ex) (rule rounds_return)
  have least: "\<not> ?P j" if "j < rounds_of n" for j using that unfolding rounds_of_def by (rule not_less_Least)
  obtain k where k: "rounds_of n = Suc k" using P by (cases "rounds_of n") simp_all
  show ?thesis
  proof (rule that[OF k])
    show "(reference_round ^^ Suc k) (map int [0..<n]) = map int [0..<n]" using P unfolding k by (rule conjunct2)
    show "\<forall>j<k. (reference_round ^^ Suc j) (map int [0..<n]) \<noteq> map int [0..<n]"
    proof (intro allI impI notI)
      fix j assume "j < k" "(reference_round ^^ Suc j) (map int [0..<n]) = map int [0..<n]"
      then show False using least[of "Suc j"] k by (simp del: funpow.simps)
    qed
  qed
qed

text \<open>C32: Both implementations return, with the least number of rounds that restores the deck, when an \<open>int\<close> can count them.\<close>

theorem implementations_agree:
  assumes "length garbage = n" "n < 2 ^ 28"
  shows "do_optimized_impl n garbage = Some (counted (int (rounds_of n))) \<and> do_reference_impl n = Some (counted (int (rounds_of n)))"
proof -
  obtain k where k: "rounds_of n = Suc k" "(reference_round ^^ Suc k) (map int [0..<n]) = map int [0..<n]"
    "\<forall>j<k. (reference_round ^^ Suc j) (map int [0..<n]) \<noteq> map int [0..<n]"
    by (rule rounds_of_least)
  show ?thesis
    using reference_rounds_count[OF k(2,3), of 0] optimized_rounds_count[OF k(2,3) _ assms, of 0] k(1)
    by (simp add: do_optimized_impl_def do_reference_impl_def add.commute)
qed

theorem implementations_agree_witness: "do_optimized_impl 3 [7, 7, 7] = Some (Inr 3)"
proof -
  have "do_reference_impl 3 = Some (Inr 3)"
    by (simp add: do_reference_impl_def reference_rounds.simps increment_def int_max_def reference_round_def upt_rec numeral_3_eq_3)
  then show ?thesis using implementations_agree[of "[7, 7, 7]" 3] by simp
qed

end
