(* ===== verification/Ex_Compounds.thy ===== *)
theory Ex_Compounds
  imports Prelude "HOL-Library.Char_ord" "HOL-Library.List_Lexorder"
begin

text \<open>
  The words of \<open>exercises/compounds.cpp\<close> that are made of other words: a trie over the letters \<open>a\<close> to \<open>z\<close> with its
  operations, the search for a decomposition with a stack, and the scan for the longest words. A word is a list of characters; the
  children of a node are allocated together, so they are absent or a list.
\<close>

section \<open>Trie\<close>

datatype trie = Node (is_word: bool) (children: "trie list option")

definition empty_trie :: trie where
  "empty_trie = Node False None"

definition alphabet_size :: nat where
  "alphabet_size = 26"

definition char_to_index :: "char \<Rightarrow> int" where
  "char_to_index ch = int (of_char ch) - int (of_char CHR ''a'')"

text \<open>\<open>at\<close> takes the index as an unsigned number and throws when there is no such child.\<close>

definition child_at :: "trie list \<Rightarrow> char \<Rightarrow> trie outcome" where
  "child_at cs ch =
     (let i = char_to_index ch in if 0 \<le> i \<and> i < int (length cs) then Inr (cs ! nat i) else Inl Out_of_range_thrown)"

text \<open>The walk down from a node; a word ends at a node other than the root.\<close>

fun insert_below :: "string \<Rightarrow> trie \<Rightarrow> trie outcome" where
  "insert_below [] n = Inr (Node True (children n))"
| "insert_below (ch # w) n =
     (let cs = (case children n of None \<Rightarrow> replicate alphabet_size empty_trie | Some cs \<Rightarrow> cs)
      in and_then (child_at cs ch) (\<lambda>m. and_then (insert_below w m) (\<lambda>m.
         Inr (Node (is_word n) (Some (cs[nat (char_to_index ch) := m]))))))"

definition trie_insert :: "string \<Rightarrow> trie \<Rightarrow> trie outcome" where
  "trie_insert word root = (if word = [] then Inr root else insert_below word root)"

fun contains_below :: "string \<Rightarrow> trie \<Rightarrow> bool outcome" where
  "contains_below [] n = Inr (is_word n)"
| "contains_below (ch # w) n =
     (case children n of None \<Rightarrow> Inr False | Some cs \<Rightarrow> and_then (child_at cs ch) (contains_below w))"

definition trie_contains :: "string \<Rightarrow> trie \<Rightarrow> bool outcome" where
  "trie_contains word root = contains_below word root"

text \<open>The inner loop of \<open>is_compound\<close>: what is left after each word on the way, and the node at the end, if the walk gets there.\<close>

fun walk_words :: "trie \<Rightarrow> string \<Rightarrow> (string list \<times> trie option) outcome" where
  "walk_words n [] = Inr ([], Some n)"
| "walk_words n (ch # w) =
     (let here = (if is_word n then [ch # w] else [])
      in case children n of
           None \<Rightarrow> Inr (here, None)
         | Some cs \<Rightarrow> and_then (child_at cs ch) (\<lambda>m. and_then (walk_words m w) (\<lambda>(rest, r). Inr (here @ rest, r))))"

partial_function (option) compound_loop :: "trie \<Rightarrow> (nat \<times> string) list \<Rightarrow> bool outcome option" where
  "compound_loop root stack =
     (case stack of
        [] \<Rightarrow> Some (Inr False)
      | (count, word) # stack \<Rightarrow>
          (case walk_words root word of
             Inl e \<Rightarrow> Some (Inl e)
           | Inr (rest, node) \<Rightarrow>
               (if (case node of None \<Rightarrow> False | Some n \<Rightarrow> is_word n \<and> 0 < count) then Some (Inr True)
                else compound_loop root (rev (map (\<lambda>w. (count + 1, w)) rest) @ stack))))"

definition is_compound :: "string \<Rightarrow> trie \<Rightarrow> bool outcome option" where
  "is_compound word root = compound_loop root [(0, word)]"

lemma child_smaller: "children n = Some cs \<Longrightarrow> m \<in> set cs \<Longrightarrow> size m < size n"
  by (cases n) (auto simp: less_Suc_eq_le intro!: le_SucI size_list_estimation'[OF _ order_refl])

function join_words :: "string \<Rightarrow> trie \<Rightarrow> string list" where
  "join_words prefix n =
     (if is_word n then [prefix] else []) @
     (case children n of
        None \<Rightarrow> []
      | Some cs \<Rightarrow> concat (map (\<lambda>(i, m). join_words (prefix @ [char_of (i + of_char CHR ''a'')]) m) (enumerate 0 cs)))"
  by pat_completeness auto
termination
proof (relation "measure (\<lambda>(p, n). size n)")
  fix prefix n cs x i m
  assume "children n = Some cs" "x \<in> set (enumerate 0 cs)" "(i, m) = x"
  then have "m \<in> set cs" by (auto simp: in_set_enumerate_eq)
  then have "size m < size n" using \<open>children n = Some cs\<close> by (rule child_smaller[rotated])
  then show "((prefix @ [char_of (i + of_char CHR ''a'')], m), (prefix, n)) \<in> measure (\<lambda>(p, n). size n)" by simp
qed simp


section \<open>The program\<close>

text \<open>A line loses the carriage return at its end; the last character of an empty line is not there.\<close>

fun read_words :: "string list \<Rightarrow> string list outcome" where
  "read_words [] = Inr []"
| "read_words (l # ls) =
     (if l = [] then Inl Undefined
      else (let word = (if last l = CHR 0x0D then butlast l else l)
            in and_then (read_words ls) (\<lambda>ws. Inr (if word \<noteq> [] then word # ws else ws))))"

fun insert_words :: "string list \<Rightarrow> trie \<Rightarrow> trie outcome" where
  "insert_words [] t = Inr t"
| "insert_words (w # ws) t = and_then (trie_insert w t) (insert_words ws)"

text \<open>The longest word found, the one it replaced, and the number of words found.\<close>

fun scan_words :: "trie \<Rightarrow> string list \<Rightarrow> string \<times> string \<times> nat \<Rightarrow> (string \<times> string \<times> nat) outcome option" where
  "scan_words t [] found = Some (Inr found)"
| "scan_words t (w # ws) (longest, next_longest, count) =
     Option.bind (is_compound w t) (\<lambda>r. case r of
       Inl e \<Rightarrow> Some (Inl e)
     | Inr b \<Rightarrow> scan_words t ws
         (if b then (if length longest < length w then (w, longest, count + 1) else (longest, next_longest, count + 1))
          else (longest, next_longest, count)))"

definition compounds_main :: "string list \<Rightarrow> (string \<times> string \<times> nat) outcome option" where
  "compounds_main ls =
     (case and_then (read_words ls) (\<lambda>ws. and_then (insert_words ws empty_trie) (\<lambda>t. Inr (ws, t))) of
        Inl e \<Rightarrow> Some (Inl e)
      | Inr (ws, t) \<Rightarrow> scan_words t ws ([], [], 0))"

section \<open>The words of a trie\<close>

definition letter :: "char \<Rightarrow> bool" where
  "letter c \<longleftrightarrow> CHR ''a'' \<le> c \<and> c \<le> CHR ''z''"

definition letter_index :: "char \<Rightarrow> nat" where
  "letter_index c = nat (char_to_index c)"

lemma letter_bounds: "letter c \<longleftrightarrow> 97 \<le> (of_char c :: nat) \<and> of_char c \<le> (122 :: nat)"
  by (simp add: letter_def less_eq_char_def)

lemma letter_index_less: "letter c \<Longrightarrow> letter_index c < alphabet_size"
  by (auto simp: letter_bounds letter_index_def char_to_index_def alphabet_size_def nat_less_iff)

lemma char_to_index_letter: "letter c \<Longrightarrow> char_to_index c = int (letter_index c)"
  by (simp add: letter_bounds letter_index_def char_to_index_def)

lemma char_of_letter_index: "letter c \<Longrightarrow> char_of (letter_index c + of_char CHR ''a'') = c"
  by (simp add: letter_bounds letter_index_def char_to_index_def nat_diff_distrib')

lemma letter_index_of_char: "i < alphabet_size \<Longrightarrow>
    letter (char_of (i + of_char CHR ''a'')) \<and> letter_index (char_of (i + of_char CHR ''a'')) = i"
  by (simp add: letter_bounds letter_index_def char_to_index_def alphabet_size_def)

inductive trie_ok :: "trie \<Rightarrow> bool" where
  trie_leaf: "trie_ok (Node b None)"
| trie_branch: "length cs = alphabet_size \<Longrightarrow> list_all trie_ok cs \<Longrightarrow> trie_ok (Node b (Some cs))"

inductive_simps trie_ok_simps [simp]: "trie_ok (Node b None)" "trie_ok (Node b (Some cs))"

text \<open>The words below a node.\<close>

fun accepts :: "trie \<Rightarrow> string \<Rightarrow> bool" where
  "accepts n [] \<longleftrightarrow> is_word n"
| "accepts n (c # w) \<longleftrightarrow>
     (case children n of None \<Rightarrow> False | Some cs \<Rightarrow> letter c \<and> accepts (cs ! letter_index c) w)"

lemma trie_ok_child:
  "trie_ok n \<Longrightarrow> children n = Some cs \<Longrightarrow> letter c \<Longrightarrow>
   child_at cs c = Inr (cs ! letter_index c) \<and> trie_ok (cs ! letter_index c) \<and> letter_index c < length cs"
  using letter_index_less[of c]
  by (cases n) (auto simp: child_at_def char_to_index_letter list_all_length Let_def)

lemma trie_ok_empty: "trie_ok empty_trie" "\<not> accepts empty_trie w"
  by (simp add: empty_trie_def) (cases w; simp add: empty_trie_def)

lemma contains_below_accepts:
  "trie_ok n \<Longrightarrow> list_all letter w \<Longrightarrow> contains_below w n = Inr (accepts n w)"
proof (induction w arbitrary: n)
  case (Cons c w)
  then show ?case using trie_ok_child[OF Cons.prems(1)] by (auto split: option.splits)
qed simp

lemma insert_below_accepts:
  "trie_ok n \<Longrightarrow> list_all letter w \<Longrightarrow>
   \<exists>m. insert_below w n = Inr m \<and> trie_ok m \<and> (\<forall>v. accepts m v \<longleftrightarrow> accepts n v \<or> v = w)"
proof (induction w arbitrary: n)
  case Nil
  have "accepts (Node True (children n)) v \<longleftrightarrow> accepts n v \<or> v = []" for v by (cases v) simp_all
  moreover have "trie_ok (Node True (children n))" using Nil(1) by (cases n; cases "children n") auto
  ultimately show ?case by simp
next
  case (Cons c w)
  define cs where "cs = (case children n of None \<Rightarrow> replicate alphabet_size empty_trie | Some cs \<Rightarrow> cs)"
  have c: "letter c" "list_all letter w" using Cons.prems(2) by simp_all
  have ok: "trie_ok (Node (is_word n) (Some cs))"
    using Cons.prems(1) by (cases n; cases "children n") (auto simp: cs_def list_all_iff trie_ok_empty(1))
  note child = trie_ok_child[OF ok, simplified, OF refl c(1)]
  have len: "length cs = alphabet_size" using ok by simp
  have old: "accepts n (d # v) \<longleftrightarrow> letter d \<and> accepts (cs ! letter_index d) v" for d v
    using letter_index_less[of d] by (auto simp: cs_def trie_ok_empty split: option.splits)
  obtain m where m: "insert_below w (cs ! letter_index c) = Inr m" "trie_ok m"
    "\<And>v. accepts m v \<longleftrightarrow> accepts (cs ! letter_index c) v \<or> v = w"
    using Cons.IH[of "cs ! letter_index c"] child c(2) by blast
  let ?n = "Node (is_word n) (Some (cs[letter_index c := m]))"
  have "insert_below (c # w) n = Inr ?n"
    using child m(1) by (simp add: cs_def[symmetric] Let_def letter_index_def[symmetric])
  moreover have "trie_ok ?n" using ok m(2) child by (auto simp: list_all_length nth_list_update)
  moreover have "accepts ?n v \<longleftrightarrow> accepts n v \<or> v = c # w" for v
  proof (cases v)
    case (Cons d u)
    have same: "letter_index d = letter_index c \<Longrightarrow> letter d \<Longrightarrow> d = c"
      using char_of_letter_index[of d] char_of_letter_index[OF c(1)] by simp
    have "accepts ?n (d # u) \<longleftrightarrow> letter d \<and> accepts (cs[letter_index c := m] ! letter_index d) u" by simp
    also have "\<dots> \<longleftrightarrow> accepts n (d # u) \<or> d # u = c # w"
      unfolding old using same child m(3) c(1) by (auto simp: nth_list_update)
    finally show ?thesis using Cons by simp
  qed simp
  ultimately show ?case by blast
qed

lemma insert_words_accepts:
  assumes "trie_ok t" "\<not> is_word t" "list_all (list_all letter) ws"
  shows "\<exists>m. insert_words ws t = Inr m \<and> trie_ok m \<and> \<not> is_word m \<and>
    (\<forall>v. accepts m v \<longleftrightarrow> accepts t v \<or> v \<in> set ws \<and> v \<noteq> [])"
  using assms
proof (induction ws arbitrary: t)
  case (Cons w ws)
  obtain m where m: "trie_insert w t = Inr m" "trie_ok m" "\<And>v. accepts m v \<longleftrightarrow> accepts t v \<or> v = w \<and> w \<noteq> []"
    using insert_below_accepts[of t w] Cons.prems by (cases "w = []") (auto simp: trie_insert_def)
  have "\<not> is_word m" using m(3)[of "[]"] Cons.prems(2) by auto
  then obtain u where "insert_words ws m = Inr u" "trie_ok u" "\<not> is_word u"
    "\<And>v. accepts u v \<longleftrightarrow> accepts m v \<or> v \<in> set ws \<and> v \<noteq> []"
    using Cons.IH[of m] m(2) Cons.prems(3) by auto
  then show ?case using m(1,3) by auto
qed simp

text \<open>A trie made of words contains these words, the empty one apart.\<close>

theorem trie_contains_inserted:
  assumes "list_all (list_all letter) ws" "list_all letter w"
  shows "\<exists>t. insert_words ws empty_trie = Inr t \<and> trie_contains w t = Inr (w \<in> set ws \<and> w \<noteq> [])"
proof -
  obtain t where "insert_words ws empty_trie = Inr t" "trie_ok t" "\<And>v. accepts t v \<longleftrightarrow> v \<in> set ws \<and> v \<noteq> []"
    using insert_words_accepts[OF trie_ok_empty(1) _ assms(1)] trie_ok_empty(2) by (auto simp: empty_trie_def)
  then show ?thesis using contains_below_accepts[of t w] assms(2) by (simp add: trie_contains_def)
qed

section \<open>Compound words\<close>

definition string_weight :: "string list \<Rightarrow> nat" where
  "string_weight vs = sum_list (map (\<lambda>v. 2 ^ length v) vs)"

lemma string_weight_simps [simp]:
  "string_weight [] = 0" "string_weight (v # vs) = 2 ^ length v + string_weight vs"
  "string_weight (us @ vs) = string_weight us + string_weight vs" "string_weight (rev vs) = string_weight vs"
  by (simp_all add: string_weight_def rev_map[symmetric] sum_list_rev)

lemma walk_words_finds:
  "trie_ok n \<Longrightarrow> list_all letter w \<Longrightarrow>
   \<exists>rest r. walk_words n w = Inr (rest, r) \<and>
     (\<forall>v. v \<in> set rest \<longleftrightarrow> v \<noteq> [] \<and> (\<exists>u. w = u @ v \<and> accepts n u)) \<and>
     (accepts n w \<longleftrightarrow> (case r of None \<Rightarrow> False | Some m \<Rightarrow> is_word m)) \<and>
     string_weight rest + 2 \<le> 2 ^ (length w + (if is_word n then 1 else 0)) + (if w = [] then 1 else 0)"
proof (induction w arbitrary: n)
  case (Cons c w)
  show ?case
  proof (cases "children n")
    case None
    have "(\<exists>u. c # w = u @ v \<and> accepts n u) \<longleftrightarrow> is_word n \<and> v = c # w" for v
      using None by (auto simp: Cons_eq_append_conv)
    moreover have "Suc (Suc 0) \<le> 2 * 2 ^ length w" using one_le_power[of "2 :: nat" "length w"] by linarith
    ultimately show ?thesis using None by auto
  next
    case (Some cs)
    note child = trie_ok_child[OF Cons.prems(1) Some, of c]
    have c: "letter c" "list_all letter w" using Cons.prems(2) by simp_all
    let ?m = "cs ! letter_index c"
    obtain rest r where r: "walk_words ?m w = Inr (rest, r)"
      "\<And>v. v \<in> set rest \<longleftrightarrow> v \<noteq> [] \<and> (\<exists>u. w = u @ v \<and> accepts ?m u)"
      "accepts ?m w \<longleftrightarrow> (case r of None \<Rightarrow> False | Some m \<Rightarrow> is_word m)"
      "string_weight rest + 2 \<le> 2 ^ (length w + (if is_word ?m then 1 else 0)) + (if w = [] then 1 else 0)"
      using Cons.IH[of ?m] child c by blast
    let ?here = "if is_word n then [c # w] else []"
    have "walk_words n (c # w) = Inr (?here @ rest, r)" using Some child c(1) r(1) by simp
    moreover have "v \<in> set (?here @ rest) \<longleftrightarrow> v \<noteq> [] \<and> (\<exists>u. c # w = u @ v \<and> accepts n u)" for v
    proof -
      have "(\<exists>u. c # w = u @ v \<and> accepts n u) \<longleftrightarrow> is_word n \<and> v = c # w \<or> (\<exists>u. w = u @ v \<and> accepts ?m u)"
        using Some c(1) by (auto simp: Cons_eq_append_conv)
      then show ?thesis using r(2)[of v] by auto
    qed
    moreover have "accepts n (c # w) \<longleftrightarrow> (case r of None \<Rightarrow> False | Some m \<Rightarrow> is_word m)" using r(3) Some c(1) by simp
    moreover have "string_weight rest + 2 \<le> 2 ^ length (c # w)"
    proof (cases "w = []")
      case True
      then have "rest = []" using r(2) by (metis append_is_Nil_conv set_empty2 empty_iff equals0I list.set(1))
      then show ?thesis using True by simp
    next
      case False
      then show ?thesis using r(4) by (auto split: if_splits)
    qed
    ultimately show ?thesis by (intro exI[of _ "?here @ rest"] exI[of _ r]) auto
  qed
qed simp

text \<open>A word splits into words, at least two when none has been taken off it.\<close>

definition splits :: "trie \<Rightarrow> nat \<Rightarrow> string \<Rightarrow> bool" where
  "splits t k v \<longleftrightarrow> (\<exists>ws. concat ws = v \<and> ws \<noteq> [] \<and> list_all (accepts t) ws \<and> (0 < k \<or> 2 \<le> length ws))"

lemma splits_step:
  assumes "\<not> is_word t"
  shows "splits t k v \<longleftrightarrow> 0 < k \<and> accepts t v \<or> (\<exists>u x. v = x @ u \<and> accepts t x \<and> u \<noteq> [] \<and> splits t (Suc k) u)"
proof
  assume "splits t k v"
  then obtain ws where ws: "concat ws = v" "ws \<noteq> []" "list_all (accepts t) ws" "0 < k \<or> 2 \<le> length ws" by (auto simp: splits_def)
  then obtain x us where x: "ws = x # us" by (cases ws) auto
  show "0 < k \<and> accepts t v \<or> (\<exists>u x. v = x @ u \<and> accepts t x \<and> u \<noteq> [] \<and> splits t (Suc k) u)"
  proof (cases "us = []")
    case True
    then show ?thesis using ws x by auto
  next
    case False
    then have "concat us \<noteq> []" using ws(3) x assms by (cases us) auto
    moreover have "splits t (Suc k) (concat us)" using ws(3) x False by (auto simp: splits_def)
    moreover have "v = x @ concat us" "accepts t x" using ws x by auto
    ultimately show ?thesis by blast
  qed
next
  assume "0 < k \<and> accepts t v \<or> (\<exists>u x. v = x @ u \<and> accepts t x \<and> u \<noteq> [] \<and> splits t (Suc k) u)"
  then show "splits t k v"
  proof
    assume "0 < k \<and> accepts t v"
    then show ?thesis unfolding splits_def by (intro exI[of _ "[v]"]) simp
  next
    assume "\<exists>u x. v = x @ u \<and> accepts t x \<and> u \<noteq> [] \<and> splits t (Suc k) u"
    then obtain u x ws where "v = x @ u" "accepts t x" "concat ws = u" "ws \<noteq> []" "list_all (accepts t) ws" by (auto simp: splits_def)
    then show ?thesis unfolding splits_def by (intro exI[of _ "x # ws"]) (cases ws; auto)
  qed
qed

lemma compound_loop_splits:
  assumes "trie_ok t" "\<not> is_word t" "list_all (list_all letter \<circ> snd) stack"
  shows "compound_loop t stack = Some (Inr (\<exists>(k, v)\<in>set stack. splits t k v))"
  using assms(3)
proof (induction "string_weight (map snd stack)" arbitrary: stack rule: less_induct)
  case less
  show ?case
  proof (cases stack)
    case Nil
    then show ?thesis by (subst compound_loop.simps) simp
  next
    case (Cons p st)
    obtain k v where p: "p = (k, v)" by (cases p)
    have v: "list_all letter v" "list_all (list_all letter \<circ> snd) st" using less.prems Cons p by simp_all
    obtain rest r where r: "walk_words t v = Inr (rest, r)"
      "\<And>u. u \<in> set rest \<longleftrightarrow> u \<noteq> [] \<and> (\<exists>x. v = x @ u \<and> accepts t x)"
      "accepts t v \<longleftrightarrow> (case r of None \<Rightarrow> False | Some m \<Rightarrow> is_word m)"
      "string_weight rest + 2 \<le> 2 ^ length v + (if v = [] then 1 else 0)"
      using walk_words_finds[OF assms(1) v(1)] assms(2) by auto
    have split: "splits t k v \<longleftrightarrow> 0 < k \<and> accepts t v \<or> (\<exists>u\<in>set rest. splits t (Suc k) u)"
      using splits_step[OF assms(2), of k v] r(2) by blast
    let ?st = "rev (map (\<lambda>w. (k + 1, w)) rest) @ st"
    show ?thesis
    proof (cases "0 < k \<and> accepts t v")
      case True
      then have "compound_loop t stack = Some (Inr True)"
        using Cons p r(1,3) by (subst compound_loop.simps) (simp split: option.splits)
      then show ?thesis using True split Cons p by auto
    next
      case False
      have "compound_loop t stack = compound_loop t ?st"
        using False Cons p r(1,3) by (subst compound_loop.simps) (auto split: option.splits)
      also have "\<dots> = Some (Inr (\<exists>(k, v)\<in>set ?st. splits t k v))"
      proof (rule less.hyps)
        have "string_weight (map snd ?st) = string_weight rest + string_weight (map snd st)"
          by (simp add: rev_map[symmetric] comp_def)
        moreover have "string_weight rest < 2 ^ length v" using r(4) by (auto split: if_splits)
        ultimately show "string_weight (map snd ?st) < string_weight (map snd stack)" using Cons p by simp
        have "list_all letter u" if "u \<in> set rest" for u using that r(2)[of u] v(1) by auto
        then show "list_all (list_all letter \<circ> snd) ?st" using v(2) by (auto simp: list_all_iff)
      qed
      also have "(\<exists>(k, v)\<in>set ?st. splits t k v) \<longleftrightarrow> (\<exists>(k, v)\<in>set stack. splits t k v)"
        using split False Cons p by auto
      finally show ?thesis .
    qed
  qed
qed

text \<open>C33: A word is a compound when it is made of at least two of the words inserted; the search ends.\<close>

theorem compound_words_split:
  assumes "list_all (list_all letter) ws" "list_all letter w"
  shows "\<exists>t. insert_words ws empty_trie = Inr t \<and>
    is_compound w t = Some (Inr (\<exists>vs. 2 \<le> length vs \<and> set vs \<subseteq> set ws - {[]} \<and> concat vs = w))"
proof -
  obtain t where t: "insert_words ws empty_trie = Inr t" "trie_ok t" "\<not> is_word t" "\<And>v. accepts t v \<longleftrightarrow> v \<in> set ws \<and> v \<noteq> []"
    using insert_words_accepts[OF trie_ok_empty(1) _ assms(1)] trie_ok_empty(2) by (auto simp: empty_trie_def)
  have "splits t 0 w \<longleftrightarrow> (\<exists>vs. 2 \<le> length vs \<and> set vs \<subseteq> set ws - {[]} \<and> concat vs = w)"
    unfolding splits_def list_all_iff t(4) by (intro iff_exI) auto
  then show ?thesis using compound_loop_splits[OF t(2,3), of "[(0, w)]"] assms(2) t(1) by (simp add: is_compound_def)
qed


section \<open>The words in order\<close>

lemma less_append_same: "(p @ u < p @ v) = (u < (v :: string))"
  by (induction p) simp_all

lemma less_longer: "p < p @ (c # w :: string)"
  using less_append_same[of p "[]" "c # w"] by simp

lemma sorted_wrt_concat:
  "list_all (sorted_wrt R) xss \<Longrightarrow> sorted_wrt (\<lambda>xs ys. \<forall>x\<in>set xs. \<forall>y\<in>set ys. R x y) xss \<Longrightarrow> sorted_wrt R (concat xss)"
  by (induction xss) (auto simp: sorted_wrt_append)

lemma letters_in_order:
  "i < j \<Longrightarrow> j < alphabet_size \<Longrightarrow> char_of (i + of_char CHR ''a'') < (char_of (j + of_char CHR ''a'') :: char)"
  by (simp add: less_char_def alphabet_size_def)

declare join_words.simps [simp del]

lemma join_words_sorted:
  "trie_ok n \<Longrightarrow> set (join_words p n) = {p @ w |w. accepts n w} \<and> sorted_wrt (<) (join_words p n)"
proof (induction p n rule: join_words.induct)
  case (1 p n)
  show ?case
  proof (cases "children n")
    case None
    have "accepts n w \<longleftrightarrow> is_word n \<and> w = []" for w using None by (cases w) simp_all
    then show ?thesis using None by (subst (1 2) join_words.simps) auto
  next
    case (Some cs)
    have cs: "length cs = alphabet_size" "list_all trie_ok cs" using 1(2) Some by (cases n; simp)+
    let ?ch = "\<lambda>i. char_of (i + of_char CHR ''a'')"
    let ?f = "\<lambda>(i, m). join_words (p @ [?ch i]) m"
    have ih: "set (?f (i, m)) = {p @ ?ch i # w |w. accepts m w} \<and> sorted_wrt (<) (?f (i, m))"
      if "(i, m) \<in> set (enumerate 0 cs)" for i m
    proof -
      have "trie_ok m" using that cs(2) by (auto simp: in_set_enumerate_eq list_all_length)
      then show ?thesis using 1(1)[OF Some that refl] by auto
    qed
    have join: "join_words p n = (if is_word n then [p] else []) @ concat (map ?f (enumerate 0 cs))"
      using Some by (subst join_words.simps) simp
    have below: "set (concat (map ?f (enumerate 0 cs))) = {p @ c # w |c w. accepts n (c # w)}"
    proof -
      have "set (concat (map ?f (enumerate 0 cs))) = (\<Union>(i, m)\<in>set (enumerate 0 cs). {p @ ?ch i # w |w. accepts m w})"
        using ih by auto
      also have "\<dots> = {p @ c # w |c w. accepts n (c # w)}"
      proof (intro set_eqI iffI)
        fix x assume "x \<in> (\<Union>(i, m)\<in>set (enumerate 0 cs). {p @ ?ch i # w |w. accepts m w})"
        then obtain i w where "i < alphabet_size" "x = p @ ?ch i # w" "accepts (cs ! i) w"
          using cs(1) by (auto simp: in_set_enumerate_eq)
        then show "x \<in> {p @ c # w |c w. accepts n (c # w)}" using letter_index_of_char[of i] Some by auto
      next
        fix x assume "x \<in> {p @ c # w |c w. accepts n (c # w)}"
        then obtain c w where x: "x = p @ c # w" "letter c" "accepts (cs ! letter_index c) w" using Some by auto
        have "(letter_index c, cs ! letter_index c) \<in> set (enumerate 0 cs)"
          using letter_index_less[OF x(2)] cs(1) by (simp add: in_set_enumerate_eq)
        then show "x \<in> (\<Union>(i, m)\<in>set (enumerate 0 cs). {p @ ?ch i # w |w. accepts m w})"
          using x char_of_letter_index[OF x(2)] by force
      qed
      finally show ?thesis .
    qed
    have "sorted_wrt (<) (concat (map ?f (enumerate 0 cs)))"
    proof (rule sorted_wrt_concat)
      show "list_all (sorted_wrt (<)) (map ?f (enumerate 0 cs))" using ih by (auto simp: list_all_iff)
      show "sorted_wrt (\<lambda>xs ys. \<forall>x\<in>set xs. \<forall>y\<in>set ys. x < y) (map ?f (enumerate 0 cs))"
        unfolding sorted_wrt_map
      proof (rule sorted_wrt_mono_rel[of _ "\<lambda>a b. fst a < fst b"])
        show "sorted_wrt (\<lambda>a b. fst a < fst b) (enumerate 0 cs)"
          using sorted_wrt_map[of "(<)" fst "enumerate 0 cs"] by (simp add: strict_sorted_iff)
        fix a b assume ab: "a \<in> set (enumerate 0 cs)" "b \<in> set (enumerate 0 cs)" "fst a < fst b"
        then have "fst b < alphabet_size" using cs(1) by (auto simp: in_set_enumerate_eq)
        from letters_in_order[OF ab(3) this]
        have "p @ ?ch (fst a) # u < p @ ?ch (fst b) # v" for u v by (simp add: less_append_same)
        then show "\<forall>x\<in>set (?f a). \<forall>y\<in>set (?f b). x < y" using ih ab by (cases a; cases b) auto
      qed
    qed
    moreover have "p < x" if "x \<in> set (concat (map ?f (enumerate 0 cs)))" for x using that less_longer unfolding below by auto
    ultimately have "sorted_wrt (<) (join_words p n)" unfolding join by (simp add: sorted_wrt_append)
    moreover have "set (join_words p n) = {p @ w |w. accepts n w}"
    proof -
      have "set (join_words p n) = (if is_word n then {p} else {}) \<union> {p @ c # w |c w. accepts n (c # w)}"
        unfolding join using below by auto
      also have "\<dots> = {p @ w |w. accepts n w}"
      proof -
        have "accepts n w \<longleftrightarrow> (w = [] \<and> is_word n) \<or> (\<exists>c v. w = c # v \<and> accepts n (c # v))" for w by (cases w) auto
        then show ?thesis by auto
      qed
      finally show ?thesis .
    qed
    ultimately show ?thesis by blast
  qed
qed

text \<open>Printing a trie gives its words in order and once.\<close>

theorem trie_prints_sorted:
  assumes "list_all (list_all letter) ws"
  shows "\<exists>t. insert_words ws empty_trie = Inr t \<and> set (join_words [] t) = set ws - {[]} \<and> sorted_wrt (<) (join_words [] t)"
proof -
  obtain t where "insert_words ws empty_trie = Inr t" "trie_ok t" "\<And>v. accepts t v \<longleftrightarrow> v \<in> set ws \<and> v \<noteq> []"
    using insert_words_accepts[OF trie_ok_empty(1) _ assms] trie_ok_empty(2) by (auto simp: empty_trie_def)
  then show ?thesis using join_words_sorted[of t "[]"] by auto
qed

section \<open>The longest compound\<close>

definition compound_of :: "string list \<Rightarrow> string \<Rightarrow> bool" where
  "compound_of ws w \<longleftrightarrow> (\<exists>vs. 2 \<le> length vs \<and> set vs \<subseteq> set ws - {[]} \<and> concat vs = w)"

lemma scan_words_finds:
  assumes "\<And>w. w \<in> set ws \<Longrightarrow> is_compound w t = Some (Inr (P w))"
  shows "\<exists>l n. scan_words t ws (l0, n0, k) = Some (Inr (l, n, k + length (filter P ws))) \<and>
    (\<forall>w\<in>set (filter P ws). length w \<le> length l) \<and> length l0 \<le> length l \<and> (l = l0 \<or> l \<in> set (filter P ws)) \<and>
    ((\<forall>w\<in>set (filter P ws). length w \<le> length l0) \<longrightarrow> l = l0 \<and> n = n0)"
  using assms
proof (induction ws arbitrary: l0 n0 k)
  case (Cons w ws)
  define l1 where "l1 = (if P w \<and> length l0 < length w then w else l0)"
  define n1 where "n1 = (if P w \<and> length l0 < length w then l0 else n0)"
  have step: "scan_words t (w # ws) (l0, n0, k) = scan_words t ws (l1, n1, k + (if P w then 1 else 0))"
    using Cons.prems[of w] by (auto simp: l1_def n1_def)
  obtain l n where ln: "scan_words t ws (l1, n1, k + (if P w then 1 else 0)) =
      Some (Inr (l, n, k + (if P w then 1 else 0) + length (filter P ws)))"
    "\<forall>w\<in>set (filter P ws). length w \<le> length l" "length l1 \<le> length l" "l = l1 \<or> l \<in> set (filter P ws)"
    "(\<forall>w\<in>set (filter P ws). length w \<le> length l1) \<longrightarrow> l = l1 \<and> n = n1"
    using Cons.IH[of l1 n1 "k + (if P w then 1 else 0)"] Cons.prems by auto
  have a: "length l0 \<le> length l1" "P w \<longrightarrow> length w \<le> length l1" "l1 = l0 \<or> P w \<and> l1 = w" by (auto simp: l1_def)
  show ?case
  proof (rule exI[of _ l], rule exI[of _ n], intro conjI impI)
    show "scan_words t (w # ws) (l0, n0, k) = Some (Inr (l, n, k + length (filter P (w # ws))))"
      unfolding step ln(1) by simp
    show "\<forall>v\<in>set (filter P (w # ws)). length v \<le> length l" using ln(2,3) a(2) by (cases "P w") auto
    show "length l0 \<le> length l" using ln(3) a(1) by simp
    show "l = l0 \<or> l \<in> set (filter P (w # ws))" using ln(4) a(3) by auto
    assume all: "\<forall>v\<in>set (filter P (w # ws)). length v \<le> length l0"
    then have "l1 = l0" "n1 = n0" by (auto simp: l1_def n1_def)
    moreover have "\<forall>v\<in>set (filter P ws). length v \<le> length l0" using all by auto
    ultimately show "l = l0" "n = n0" using ln(5) by blast+
  qed
qed simp

lemma read_words_plain: "list_all (list_all letter) ws \<Longrightarrow> [] \<notin> set ws \<Longrightarrow> read_words ws = Inr ws"
proof (induction ws)
  case (Cons w ws)
  have "letter (last w)" using Cons.prems by (auto simp: list_all_iff)
  then have "last w \<noteq> CHR 0x0D" by (auto simp: letter_bounds)
  then show ?case using Cons by (auto simp: Let_def)
qed simp

lemma compounds_main_scan:
  assumes "list_all (list_all letter) ws" "[] \<notin> set ws"
  obtains t where "compounds_main ws = scan_words t ws ([], [], 0)"
    "\<And>w. w \<in> set ws \<Longrightarrow> is_compound w t = Some (Inr (compound_of ws w))"
proof -
  obtain t where t: "insert_words ws empty_trie = Inr t" "trie_ok t" "\<not> is_word t" "\<And>v. accepts t v \<longleftrightarrow> v \<in> set ws \<and> v \<noteq> []"
    using insert_words_accepts[OF trie_ok_empty(1) _ assms(1)] trie_ok_empty(2) by (auto simp: empty_trie_def)
  have "splits t 0 w \<longleftrightarrow> compound_of ws w" for w
    unfolding splits_def list_all_iff t(4) compound_of_def by (intro iff_exI) auto
  then have "is_compound w t = Some (Inr (compound_of ws w))" if "w \<in> set ws" for w
    using compound_loop_splits[OF t(2,3), of "[(0, w)]"] assms(1) that by (simp add: is_compound_def list_all_iff)
  then show ?thesis using that[of t] t(1) read_words_plain[OF assms] by (simp add: compounds_main_def)
qed

text \<open>The program counts the compounds and prints a longest one.\<close>

theorem longest_compound_found:
  assumes "list_all (list_all letter) ws" "[] \<notin> set ws"
  shows "\<exists>l n. compounds_main ws = Some (Inr (l, n, length (filter (compound_of ws) ws))) \<and>
    (\<forall>w\<in>set ws. compound_of ws w \<longrightarrow> length w \<le> length l) \<and> (l \<noteq> [] \<longrightarrow> l \<in> set ws \<and> compound_of ws l)"
proof -
  obtain t where "compounds_main ws = scan_words t ws ([], [], 0)"
    "\<And>w. w \<in> set ws \<Longrightarrow> is_compound w t = Some (Inr (compound_of ws w))"
    using compounds_main_scan[OF assms] by blast
  then show ?thesis using scan_words_finds[of ws t "compound_of ws" "[]" "[]" 0] by auto
qed

text \<open>The second word printed is only the longest one found before: when the first compound is the longest, nothing is printed for
  the second, however many compounds follow.\<close>

theorem second_longest_missed:
  assumes "list_all (list_all letter) ws" "[] \<notin> set ws" "filter (compound_of ws) ws = c # cs" "\<forall>d\<in>set cs. length d \<le> length c"
  shows "compounds_main ws = Some (Inr (c, [], Suc (length cs)))"
proof -
  obtain t where t: "compounds_main ws = scan_words t ws ([], [], 0)"
    "\<And>w. w \<in> set ws \<Longrightarrow> is_compound w t = Some (Inr (compound_of ws w))"
    using compounds_main_scan[OF assms(1,2)] by blast
  obtain us vs where ws: "ws = us @ c # vs" "\<forall>u\<in>set us. \<not> compound_of ws u" "compound_of ws c" "cs = filter (compound_of ws) vs"
    using assms(3) by (auto simp: filter_eq_Cons_iff)
  have "c \<noteq> []" using assms(2) ws(1) by auto
  have skip: "scan_words t (us @ c # vs) ([], [], 0) = scan_words t (c # vs) ([], [], 0)"
    if "set us \<subseteq> set ws" "\<forall>u\<in>set us. \<not> compound_of ws u" for us
    using that by (induction us) (simp_all add: t(2))
  have "scan_words t (c # vs) ([], [], 0) = scan_words t vs (c, [], 1)"
    using t(2)[of c] ws \<open>c \<noteq> []\<close> by simp
  moreover have "scan_words t vs (c, [], 1) = Some (Inr (c, [], 1 + length cs))"
    using scan_words_finds[of vs t "compound_of ws" c "[]" 1] t(2) ws(1,4) assms(4) by auto
  ultimately show ?thesis using t(1) skip[OF _ ws(2)] ws(1) by auto
qed

section \<open>Witnesses\<close>

definition some_words :: "string list" where
  "some_words = [''a'', ''b'', ''aba'', ''ab'']"

lemma some_words_letters: "list_all (list_all letter) some_words" "[] \<notin> set some_words"
  by (simp_all add: some_words_def letter_bounds)

lemma compound_length:
  assumes "compound_of ws w"
  shows "2 \<le> length w"
proof -
  obtain vs where vs: "2 \<le> length vs" "[] \<notin> set vs" "concat vs = w" using assms by (auto simp: compound_of_def)
  from vs(2) have "length vs \<le> length (concat vs)"
  proof (induction vs)
    case (Cons v vs)
    then show ?case by (cases v) auto
  qed simp
  then show ?thesis using vs by simp
qed

lemma some_compounds: "filter (compound_of some_words) some_words = [''aba'', ''ab'']"
proof -
  have "compound_of some_words ''ab''" unfolding compound_of_def by (intro exI[of _ "[''a'', ''b'']"]) (simp add: some_words_def)
  moreover have "compound_of some_words ''aba''"
    unfolding compound_of_def by (intro exI[of _ "[''a'', ''b'', ''a'']"]) (simp add: some_words_def)
  moreover have "\<not> compound_of some_words ''a''" "\<not> compound_of some_words ''b''"
    using compound_length[of some_words "''a''"] compound_length[of some_words "''b''"] by auto
  ultimately show ?thesis by (simp add: some_words_def)
qed

theorem trie_contains_inserted_witness:
  "\<exists>t. insert_words some_words empty_trie = Inr t \<and> trie_contains ''ab'' t = Inr True"
  using trie_contains_inserted[OF some_words_letters(1), of "''ab''"] by (simp add: some_words_def letter_bounds)

theorem compound_words_split_witness:
  "\<exists>t. insert_words some_words empty_trie = Inr t \<and>
    is_compound ''aab'' t = Some (Inr (\<exists>vs. 2 \<le> length vs \<and> set vs \<subseteq> set some_words - {[]} \<and> concat vs = ''aab''))"
  by (rule compound_words_split[OF some_words_letters(1)]) (simp add: letter_bounds)

theorem trie_prints_sorted_witness:
  "\<exists>t. insert_words some_words empty_trie = Inr t \<and> set (join_words [] t) = {''a'', ''b'', ''ab'', ''aba''}"
  using trie_prints_sorted[OF some_words_letters(1)] by (auto simp: some_words_def)

theorem longest_compound_found_witness:
  "\<exists>l n. compounds_main some_words = Some (Inr (l, n, 2))"
  using longest_compound_found[OF some_words_letters] some_compounds by auto

theorem second_longest_missed_witness: "compounds_main some_words = Some (Inr (''aba'', [], 2))"
  using second_longest_missed[OF some_words_letters some_compounds] by simp

end
