(* ===== verification/Ex_Nth.thy ===== *)
theory Ex_Nth
  imports Prelude
begin

text \<open>
  The tree of \<open>exercises/remove-nth.cpp\<close>, which finds and removes the value at a position: a leaf holds a value, an inner
  node the numbers of values that are left on each side. The numbers are \<open>int\<close>s: a sum out of their range is not defined, and
  a \<open>size_t\<close> loses its upper half. The tree is refined to the list of the values left.
\<close>

section \<open>Code\<close>

datatype nth_node = Leaf int | Inner nth_node nth_node int int

definition int_sum :: "int \<Rightarrow> int \<Rightarrow> int outcome" where
  "int_sum a b = (if - (2 ^ 31) \<le> a + b \<and> a + b < 2 ^ 31 then Inr (a + b) else Inl Undefined)"

definition narrow :: "nat \<Rightarrow> int" where
  "narrow n = signed_take_bit 31 (int n)"

text \<open>The recursion that builds a tree stops at one value only.\<close>

partial_function (option) init_node_recursive :: "int list \<Rightarrow> nat \<Rightarrow> (nth_node \<times> int list) outcome option" where
  "init_node_recursive values cardinality =
     (if cardinality = 1 then
        (case values of [] \<Rightarrow> Some (Inl Out_of_bounds) | v # rest \<Rightarrow> Some (Inr (Leaf v, rest)))
      else
        (let left_cardinality = cardinality div 2; right_cardinality = cardinality - cardinality div 2
         in Option.bind (init_node_recursive values left_cardinality) (\<lambda>r.
            case r of
              Inl e \<Rightarrow> Some (Inl e)
            | Inr (left, values) \<Rightarrow>
                Option.bind (init_node_recursive values right_cardinality) (\<lambda>r.
                Some (and_then r (\<lambda>(right, values).
                  Inr (Inner left right (narrow left_cardinality) (narrow right_cardinality), values)))))))"

definition build_tree :: "int list \<Rightarrow> nth_node outcome option" where
  "build_tree xs = Option.bind (init_node_recursive xs (length xs)) (\<lambda>r. Some (and_then r (\<lambda>(n, _). Inr n)))"

definition interval_contains :: "int \<times> int \<Rightarrow> int \<Rightarrow> bool outcome" where
  "interval_contains = (\<lambda>(b, e) i. and_then (int_sum e (- b)) (\<lambda>len. Inr (0 < len \<and> b \<le> i \<and> i \<le> e)))"

text \<open>After a failed assertion that is compiled away, the function ends without a result.\<close>

fun find_nth_recursive :: "bool \<Rightarrow> nth_node \<Rightarrow> int \<times> int \<Rightarrow> int \<Rightarrow> (int \<times> nth_node) outcome" where
  "find_nth_recursive debug (Leaf v) i pos = Inr (v, Leaf v)"
| "find_nth_recursive debug (Inner l r lw rw) i pos =
     and_then (int_sum (fst i) lw) (\<lambda>mid.
     and_then (int_sum mid rw) (\<lambda>stop.
     and_then (interval_contains (fst i, mid) pos) (\<lambda>in_left.
     if in_left then
       and_then (int_sum lw (- 1)) (\<lambda>lw.
       and_then (find_nth_recursive debug l (fst i, mid) pos) (\<lambda>(v, l). Inr (v, Inner l r lw rw)))
     else
       and_then (interval_contains (mid, stop) pos) (\<lambda>in_right.
       if in_right then
         and_then (int_sum rw (- 1)) (\<lambda>rw.
         and_then (find_nth_recursive debug r (mid, stop) pos) (\<lambda>(v, r). Inr (v, Inner l r lw rw)))
       else if debug then Inl Assertion_failed else Inl Undefined))))"

text \<open>The weights of a leaf are not initialised.\<close>

definition find_nth :: "bool \<Rightarrow> nth_node \<Rightarrow> int \<Rightarrow> (int \<times> nth_node) outcome" where
  "find_nth debug n pos =
     (case n of Leaf v \<Rightarrow> Inl Undefined | Inner l r lw rw \<Rightarrow> and_then (int_sum lw rw) (\<lambda>len. find_nth_recursive debug n (0, len) pos))"

datatype tree_line = Weights int int | Value int

fun print_tree :: "nth_node \<Rightarrow> tree_line list" where
  "print_tree (Leaf v) = [Value v]"
| "print_tree (Inner l r lw rw) = Weights lw rw # print_tree l @ print_tree r"

fun print_list :: "nth_node \<Rightarrow> int list" where
  "print_list (Leaf v) = [v]"
| "print_list (Inner l r lw rw) = print_list l @ print_list r"

text \<open>The program removes at these positions, one after the other.\<close>

fun remove_all_at :: "bool \<Rightarrow> int list \<Rightarrow> nth_node \<Rightarrow> int list outcome" where
  "remove_all_at debug [] n = Inr []"
| "remove_all_at debug (p # ps) n =
     and_then (find_nth debug n p) (\<lambda>(v, n). and_then (remove_all_at debug ps n) (\<lambda>vs. Inr (v # vs)))"

definition nth_main :: "bool \<Rightarrow> int list outcome option" where
  "nth_main debug =
     Option.bind (build_tree [12, 23, 34, 45, 56, 67, 78, 90]) (\<lambda>r.
     Some (and_then r (remove_all_at debug [1, 1, 2, 1, 4])))"

section \<open>The values that are left\<close>

text \<open>The values below a node of which \<open>w\<close> are left.\<close>

fun values_left :: "int \<Rightarrow> nth_node \<Rightarrow> int list" where
  "values_left w (Leaf v) = (if w = 0 then [] else [v])"
| "values_left w (Inner l r lw rw) = values_left lw l @ values_left rw r"

fun weights_ok :: "int \<Rightarrow> nth_node \<Rightarrow> bool" where
  "weights_ok w (Leaf v) \<longleftrightarrow> w = 0 \<or> w = 1"
| "weights_ok w (Inner l r lw rw) \<longleftrightarrow> 0 \<le> lw \<and> 0 \<le> rw \<and> w = lw + rw \<and> weights_ok lw l \<and> weights_ok rw r"

definition remove_at :: "nat \<Rightarrow> 'a list \<Rightarrow> 'a list" where
  "remove_at k xs = take k xs @ drop (Suc k) xs"

lemma remove_at_append:
  "k < length xs \<Longrightarrow> remove_at k (xs @ ys) = remove_at k xs @ ys"
  "length xs \<le> k \<Longrightarrow> remove_at k (xs @ ys) = xs @ remove_at (k - length xs) ys"
  by (simp_all add: remove_at_def Suc_diff_le)

lemma values_left_length: "weights_ok w n \<Longrightarrow> int (length (values_left w n)) = w"
  by (induction w n rule: values_left.induct) auto

lemma int_sum_ok: "0 \<le> a + b \<Longrightarrow> a + b < 2147483648 \<Longrightarrow> int_sum a b = Inr (a + b)"
  by (simp add: int_sum_def)

lemma interval_contains_ok:
  "b \<le> e \<Longrightarrow> e - b < 2147483648 \<Longrightarrow> interval_contains (b, e) i = Inr (b < e \<and> b \<le> i \<and> i \<le> e)"
  by (auto simp: interval_contains_def int_sum_def)

text \<open>One step into a tree whose weights are in range.\<close>

lemma find_step:
  assumes "weights_ok w (Inner l r lw rw)" "0 \<le> b" "b + w < 2 ^ 31"
  shows "find_nth_recursive debug (Inner l r lw rw) (b, e) i =
    (if 0 < lw \<and> b \<le> i \<and> i \<le> b + lw then
       and_then (find_nth_recursive debug l (b, b + lw) i) (\<lambda>(v, l). Inr (v, Inner l r (lw - 1) rw))
     else if 0 < rw \<and> b + lw \<le> i \<and> i \<le> b + w then
       and_then (find_nth_recursive debug r (b + lw, b + w) i) (\<lambda>(v, r). Inr (v, Inner l r lw (rw - 1)))
     else Inl (if debug then Assertion_failed else Undefined))"
proof -
  have ok: "0 \<le> lw" "0 \<le> rw" "w = lw + rw" using assms(1) by simp_all
  then have "int_sum b lw = Inr (b + lw)" "int_sum (b + lw) rw = Inr (b + w)"
    "interval_contains (b, b + lw) i = Inr (b < b + lw \<and> b \<le> i \<and> i \<le> b + lw)"
    "interval_contains (b + lw, b + w) i = Inr (b + lw < b + w \<and> b + lw \<le> i \<and> i \<le> b + w)"
    "0 < lw \<Longrightarrow> int_sum lw (- 1) = Inr (lw - 1)" "0 < rw \<Longrightarrow> int_sum rw (- 1) = Inr (rw - 1)"
    using assms(2,3) by (simp_all add: int_sum_ok interval_contains_ok)
  then show ?thesis using ok(3) by auto
qed

text \<open>Position \<open>b\<close> and position \<open>b + 1\<close> both name the first value.\<close>

lemma find_nth_recursive_removes:
  assumes "weights_ok w n" "0 < w" "b \<le> i" "i \<le> b + w" "0 \<le> b" "b + w < 2 ^ 31"
  shows "\<exists>m. find_nth_recursive debug n (b, e) i = Inr (values_left w n ! nat (i - b - 1), m) \<and> weights_ok (w - 1) m \<and>
    values_left (w - 1) m = remove_at (nat (i - b - 1)) (values_left w n)"
  using assms
proof (induction n arbitrary: w b e)
  case (Leaf v)
  then show ?case by (auto simp: remove_at_def)
next
  case (Inner l r lw rw)
  have ok: "0 \<le> lw" "0 \<le> rw" "w = lw + rw" "weights_ok lw l" "weights_ok rw r" using Inner.prems(1) by simp_all
  have len: "length (values_left lw l) = nat lw" "length (values_left rw r) = nat rw"
    using values_left_length[OF ok(4)] values_left_length[OF ok(5)] by simp_all
  note step = find_step[OF Inner.prems(1,5,6), of debug e i]
  show ?case
  proof (cases "0 < lw \<and> b \<le> i \<and> i \<le> b + lw")
    case True
    obtain m where m: "find_nth_recursive debug l (b, b + lw) i = Inr (values_left lw l ! nat (i - b - 1), m)" "weights_ok (lw - 1) m"
      "values_left (lw - 1) m = remove_at (nat (i - b - 1)) (values_left lw l)"
      using Inner.IH(1)[of lw b "b + lw"] True ok(2-4) Inner.prems(5,6) by auto
    have k: "nat (i - b - 1) < length (values_left lw l)" using len True by linarith
    show ?thesis
      unfolding step using True m ok k by (intro exI[of _ "Inner m r (lw - 1) rw"]) (simp add: remove_at_append(1) nth_append)
  next
    case False
    have i: "b + lw \<le> i" "0 < rw" "lw = 0 \<or> b + lw < i" using False Inner.prems(2-4) ok(1-3) by auto
    obtain m where m: "find_nth_recursive debug r (b + lw, b + w) i = Inr (values_left rw r ! nat (i - (b + lw) - 1), m)"
      "weights_ok (rw - 1) m" "values_left (rw - 1) m = remove_at (nat (i - (b + lw) - 1)) (values_left rw r)"
      using Inner.IH(2)[of rw "b + lw" "b + w"] ok(1,3,5) i Inner.prems(4-6) by auto
    have k: "length (values_left lw l) \<le> nat (i - b - 1)" "nat (i - b - 1) - length (values_left lw l) = nat (i - (b + lw) - 1)"
      using len i ok(1) by linarith+
    show ?thesis
      unfolding step using False m ok k i Inner.prems(4)
      by (intro exI[of _ "Inner l m lw (rw - 1)"]) (auto simp: remove_at_append(2) nth_append)
  qed
qed

lemma find_nth_recursive_fails:
  "weights_ok w (Inner l r lw rw) \<Longrightarrow> 0 \<le> b \<Longrightarrow> b + w < 2 ^ 31 \<Longrightarrow> i < b \<or> b + w < i \<or> w = 0 \<Longrightarrow>
   find_nth_recursive debug (Inner l r lw rw) (b, e) i = Inl (if debug then Assertion_failed else Undefined)"
  by (subst find_step) auto

text \<open>A tree of at least one value holds the list; the empty list is split for ever.\<close>

lemma init_node_builds:
  "0 < k \<Longrightarrow> k \<le> length xs \<Longrightarrow> k < 2 ^ 31 \<Longrightarrow>
   \<exists>n. init_node_recursive xs k = Some (Inr (n, drop k xs)) \<and> weights_ok (int k) n \<and> values_left (int k) n = take k xs \<and>
     print_list n = take k xs \<and> (k \<noteq> 1 \<longrightarrow> (\<exists>l r lw rw. n = Inner l r lw rw))"
proof (induction k arbitrary: xs rule: less_induct)
  case (less k)
  show ?case
  proof (cases "k = 1")
    case True
    then obtain v ys where "xs = v # ys" using less.prems by (cases xs) auto
    then show ?thesis using True by (subst init_node_recursive.simps) auto
  next
    case False
    let ?l = "k div 2"
    let ?r = "k - k div 2"
    have lr: "0 < ?l" "?l < k" "0 < ?r" "?r < k" "?l + ?r = k" using False less.prems(1) by auto
    have small: "?l < 2 ^ 31" "?r < 2 ^ 31" using lr(2,4) less.prems(3) by linarith+
    then have nr: "narrow ?l = int ?l" "narrow ?r = int ?r"
      by (auto simp: narrow_def signed_take_bit_int_eq_self)
    obtain n where n: "init_node_recursive xs ?l = Some (Inr (n, drop ?l xs))" "weights_ok (int ?l) n" "values_left (int ?l) n = take ?l xs"
      "print_list n = take ?l xs"
      using less.IH[OF lr(2,1), of xs] lr less.prems(2) small(1) by fastforce
    obtain m where m: "init_node_recursive (drop ?l xs) ?r = Some (Inr (m, drop ?r (drop ?l xs)))" "weights_ok (int ?r) m"
      "values_left (int ?r) m = take ?r (drop ?l xs)" "print_list m = take ?r (drop ?l xs)"
      using less.IH[OF lr(4,3), of "drop ?l xs"] diff_le_mono[OF less.prems(2), of ?l] small(2) by (auto simp: of_nat_diff)
    have "take ?l xs @ take ?r (drop ?l xs) = take k xs" "drop ?r (drop ?l xs) = drop k xs"
      using take_add[of ?l ?r xs] lr(5) by (simp_all add: add.commute)
    then show ?thesis
      using False n m lr nr by (subst init_node_recursive.simps) (auto simp: Let_def)
  qed
qed

lemma init_node_nonempty:
  assumes "init_node_recursive xs k = Some y"
  shows "k \<noteq> 0"
  using assms
proof (rule init_node_recursive.raw_induct[of "\<lambda>_ k _. k \<noteq> 0", rotated])
  fix f :: "int list \<Rightarrow> nat \<Rightarrow> (nth_node \<times> int list) outcome option" and xs k y
  assume "\<And>xs k y. f xs k = Some y \<Longrightarrow> k \<noteq> 0"
  then have "f xs 0 = None" for xs by (cases "f xs 0") auto
  then show "(if k = 1 then case xs of [] \<Rightarrow> Some (Inl Out_of_bounds) | v # rest \<Rightarrow> Some (Inr (Leaf v, rest))
    else let left_cardinality = k div 2; right_cardinality = k - k div 2
         in Option.bind (f xs left_cardinality) (\<lambda>r. case r of Inl e \<Rightarrow> Some (Inl e)
            | Inr (left, xs) \<Rightarrow> Option.bind (f xs right_cardinality) (\<lambda>r. Some (and_then r (\<lambda>(right, xs).
                Inr (Inner left right (narrow left_cardinality) (narrow right_cardinality), xs)))))) = Some y \<Longrightarrow> k \<noteq> 0"
    by (cases "k = 0") (simp_all add: Let_def)
qed

theorem build_tree_holds_list:
  "length xs < 2 ^ 31 \<Longrightarrow>
   if xs = [] then build_tree xs = None
   else (\<exists>n. build_tree xs = Some (Inr n) \<and> weights_ok (int (length xs)) n \<and> values_left (int (length xs)) n = xs \<and> print_list n = xs \<and>
     (length xs \<noteq> 1 \<longrightarrow> (\<exists>l r lw rw. n = Inner l r lw rw)))"
proof (cases "xs = []")
  case True
  then show ?thesis using init_node_nonempty[of "[]" 0] by (cases "init_node_recursive [] 0") (auto simp: build_tree_def)
next
  case False
  assume "length xs < 2 ^ 31"
  then show ?thesis using False init_node_builds[of "length xs" xs] by (auto simp: build_tree_def)
qed

lemma nth_main_prints: "nth_main debug = Some (Inr [12, 23, 45, 34, 90])"
proof -
  have "init_node_recursive [12, 23, 34, 45, 56, 67, 78, 90] 8 = Some (Inr (Inner
      (Inner (Inner (Leaf 12) (Leaf 23) 1 1) (Inner (Leaf 34) (Leaf 45) 1 1) 2 2)
      (Inner (Inner (Leaf 56) (Leaf 67) 1 1) (Inner (Leaf 78) (Leaf 90) 1 1) 2 2) 4 4, []))"
    by (simp add: init_node_recursive.simps Let_def narrow_def)
  moreover have "length [12, 23, 34, 45, 56, 67, 78, 90 :: int] = 8" by simp
  ultimately show ?thesis
    unfolding nth_main_def build_tree_def
    by (simp only: Option.bind.simps and_then_simps prod.case) (simp add: find_nth_def interval_contains_def int_sum_def)
qed

text \<open>C34: In a tree of more than one value, with less than \<open>2 ^ 31\<close> values left, finding takes the value at a position, counted from
  one, off the values left, and the tree stays one; zero stands for one, and any other position fails the assertion, or is not defined
  where assertions are compiled away. The trees built from such lists are like that and hold the list. A tree of one value is a leaf,
  and finding in it reads weights that were never set.\<close>

theorem find_nth_refines_list:
  assumes "weights_ok w n" "w < 2 ^ 31" and xs: "xs = values_left w n"
  shows "(case n of
      Leaf v \<Rightarrow> find_nth debug n i = Inl Undefined
    | Inner l r lw rw \<Rightarrow>
        if 0 \<le> i \<and> i \<le> int (length xs) \<and> xs \<noteq> []
        then (\<exists>l r lw rw. find_nth debug n i = Inr (xs ! nat (i - 1), Inner l r lw rw) \<and> weights_ok (w - 1) (Inner l r lw rw) \<and>
          values_left (w - 1) (Inner l r lw rw) = remove_at (nat (i - 1)) xs)
        else find_nth debug n i = Inl (if debug then Assertion_failed else Undefined)) \<and>
    (1 < length ys \<and> length ys < 2 ^ 31 \<longrightarrow>
      (\<exists>l r lw rw. build_tree ys = Some (Inr (Inner l r lw rw)) \<and> weights_ok (int (length ys)) (Inner l r lw rw) \<and>
        values_left (int (length ys)) (Inner l r lw rw) = ys))"
proof (intro conjI impI)
  show "case n of
      Leaf v \<Rightarrow> find_nth debug n i = Inl Undefined
    | Inner l r lw rw \<Rightarrow>
        if 0 \<le> i \<and> i \<le> int (length xs) \<and> xs \<noteq> []
        then (\<exists>l r lw rw. find_nth debug n i = Inr (xs ! nat (i - 1), Inner l r lw rw) \<and> weights_ok (w - 1) (Inner l r lw rw) \<and>
          values_left (w - 1) (Inner l r lw rw) = remove_at (nat (i - 1)) xs)
        else find_nth debug n i = Inl (if debug then Assertion_failed else Undefined)"
  proof (cases n)
    case (Inner l r lw rw)
    have w: "int (length xs) = w" "lw + rw = w" "0 \<le> w" using values_left_length[OF assms(1)] assms(1) xs Inner by auto
    have find: "find_nth debug n i = find_nth_recursive debug (Inner l r lw rw) (0, w) i"
      using w(2,3) assms(2) Inner by (simp add: find_nth_def int_sum_ok del: find_nth_recursive.simps)
    show ?thesis
    proof (cases "0 \<le> i \<and> i \<le> w \<and> 0 < w")
      case True
      then have ne: "xs \<noteq> []" using w(1) by auto
      obtain m where m: "find_nth debug n i = Inr (xs ! nat (i - 1), m)" "weights_ok (w - 1) m" "values_left (w - 1) m = remove_at (nat (i - 1)) xs"
        using find_nth_recursive_removes[OF assms(1), of 0 i debug w] True assms(2) unfolding find by (auto simp: xs Inner)
      moreover have "\<exists>l r lw rw. m = Inner l r lw rw"
        using m(1) unfolding find by (auto simp: and_then_eq_Inr_iff split: if_splits)
      ultimately show ?thesis using True ne w(1) Inner by auto
    next
      case False
      then have "find_nth debug n i = Inl (if debug then Assertion_failed else Undefined)"
        unfolding find using assms w(3) Inner by (intro find_nth_recursive_fails[of w]) auto
      moreover have "\<not> (0 \<le> i \<and> i \<le> int (length xs) \<and> xs \<noteq> [])" using False w(1) by auto
      ultimately show ?thesis using Inner by simp
    qed
  qed (simp add: find_nth_def)
next
  assume a: "1 < length ys \<and> length ys < 2 ^ 31"
  then have "ys \<noteq> []" "length ys \<noteq> 1" by auto
  then show "\<exists>l r lw rw. build_tree ys = Some (Inr (Inner l r lw rw)) \<and> weights_ok (int (length ys)) (Inner l r lw rw) \<and>
      values_left (int (length ys)) (Inner l r lw rw) = ys"
    using build_tree_holds_list[of ys] a by auto
qed

theorem find_nth_refines_list_witness:
  "(\<exists>m. find_nth True (Inner (Leaf 7) (Leaf 9) 1 1) 2 = Inr (9, m) \<and> values_left 1 m = [7]) \<and>
   (\<exists>m. build_tree [4, 5, 6] = Some (Inr m) \<and> values_left 3 m = [4, 5, 6])"
proof -
  have w: "weights_ok 2 (Inner (Leaf 7) (Leaf 9) 1 1)" by simp
  from find_nth_refines_list[OF w _ refl, of True 2 "[4, 5, 6]"]
  have a: "\<exists>l r lw rw. find_nth True (Inner (Leaf 7) (Leaf 9) 1 1) 2 = Inr (9, Inner l r lw rw) \<and>
      values_left 1 (Inner l r lw rw) = [7]"
    and b: "\<exists>l r lw rw. build_tree [4, 5, 6] = Some (Inr (Inner l r lw rw)) \<and> values_left 3 (Inner l r lw rw) = [4, 5, 6]"
    by (auto simp: remove_at_def simp del: find_nth_recursive.simps)
  from a b show ?thesis by blast
qed

end
