(* ===== verification/Ex_Strings.thy ===== *)
theory Ex_Strings
  imports Prelude "HOL-Library.Multiset" "HOL-Library.Char_ord"
begin

text \<open>
  The string functions of \<open>exercises/string.cpp\<close>. A string is a list of characters; where the code reads the terminator behind the
  last character the model does too. Characters are those of the C locale.
\<close>

section \<open>Characters\<close>

definition char_code :: "char \<Rightarrow> nat" where
  "char_code c = of_char c"

definition is_alpha :: "char \<Rightarrow> bool" where
  "is_alpha c \<longleftrightarrow> 65 \<le> char_code c \<and> char_code c \<le> 90 \<or> 97 \<le> char_code c \<and> char_code c \<le> 122"

definition to_upper :: "char \<Rightarrow> char" where
  "to_upper c = (if 97 \<le> char_code c \<and> char_code c \<le> 122 then char_of (char_code c - 32) else c)"

definition nul :: char where
  "nul = CHR 0x00"

text \<open>A difference of characters, narrowed to the signed type \<open>char\<close>.\<close>

definition char_minus :: "char \<Rightarrow> int \<Rightarrow> int" where
  "char_minus c b = (int (char_code c) - b + 128) mod 256 - 128"

section \<open>string_to_int\<close>

definition int_limit :: int where
  "int_limit = 2 ^ 31 - 1"

fun to_int_loop :: "string \<Rightarrow> bool \<Rightarrow> int \<Rightarrow> int \<Rightarrow> int outcome" where
  "to_int_loop [] leading sign val = Inr (sign * val)"
| "to_int_loop (ch # str) leading sign val =
     (let sign = (if ch = CHR ''-'' \<and> leading then -1 else sign)
      in if ch = CHR '' '' \<or> ch = CHR 0x09 then to_int_loop str leading sign val
         else (let c = char_minus ch 48
               in if 0 \<le> c \<and> c < 10 then
                    (if int_limit < val * 10 \<or> int_limit < val * 10 + c then Inl Undefined
                     else to_int_loop str False sign (val * 10 + c))
                  else to_int_loop str False sign val))"

definition string_to_int :: "string option \<Rightarrow> int outcome" where
  "string_to_int str = (case str of None \<Rightarrow> Inr 0 | Some s \<Rightarrow> to_int_loop s True 1 0)"

section \<open>Counting characters\<close>

definition letter_of :: "char \<Rightarrow> nat" where
  "letter_of c = char_code (to_upper c) - 65"

fun count_letters :: "string \<Rightarrow> nat list \<Rightarrow> nat list" where
  "count_letters [] counts = counts"
| "count_letters (c # buf) counts =
     count_letters buf (if is_alpha c then counts[letter_of c := counts ! letter_of c + 1] else counts)"

fun best_letter :: "nat list \<Rightarrow> nat list \<Rightarrow> nat \<times> nat \<Rightarrow> nat \<times> nat" where
  "best_letter counts [] best = best"
| "best_letter counts (i # is) (ch, freq) =
     best_letter counts is (if freq < counts ! i then (i, counts ! i) else (ch, freq))"

definition most_frequent_char :: "string \<Rightarrow> char" where
  "most_frequent_char buf =
     char_of (fst (best_letter (count_letters buf (replicate 26 0)) [0..<26] (26, 0)) + 65)"

text \<open>The table of \<open>find_first_nonrepeating\<close>: single or repeated.\<close>

fun repeat_table :: "string \<Rightarrow> (char \<Rightarrow> nat option) \<Rightarrow> (char \<Rightarrow> nat option)" where
  "repeat_table [] table = table"
| "repeat_table (c # s) table =
     repeat_table s
       (case table c of Some k \<Rightarrow> (if k = 1 then table(c \<mapsto> 2) else table) | None \<Rightarrow> table(c \<mapsto> 1))"

fun first_single :: "(char \<Rightarrow> nat option) \<Rightarrow> string \<Rightarrow> nat \<Rightarrow> nat" where
  "first_single table [] i = i"
| "first_single table (c # s) i = (if table c = Some 1 then i else first_single table s (i + 1))"

definition find_first_nonrepeating :: "string \<Rightarrow> nat" where
  "find_first_nonrepeating s = first_single (repeat_table s Map.empty) s 0"

section \<open>remove_characters\<close>

definition swap_at :: "nat \<Rightarrow> nat \<Rightarrow> 'a list \<Rightarrow> 'a list" where
  "swap_at i j s = s[i := s ! j, j := s ! i]"

function remove_loop :: "char set \<Rightarrow> nat \<Rightarrow> nat \<Rightarrow> string \<Rightarrow> string" where
  "remove_loop table inp out s =
     (if inp < length s then
        (if s ! inp \<in> table then remove_loop table (inp + 1) out (s[inp := nul])
         else remove_loop table (inp + 1) (out + 1) (swap_at inp out s))
      else s)"
  by pat_completeness auto
termination by (relation "measure (\<lambda>(t, i, out, s). length s - i)") (auto simp: swap_at_def)

definition remove_characters :: "string \<Rightarrow> string \<Rightarrow> string" where
  "remove_characters s chars = remove_loop (set chars) 0 0 s"

section \<open>reverse_words\<close>

text \<open>The character at an index, with the terminator at the end.\<close>

definition char_at :: "string \<Rightarrow> nat \<Rightarrow> char" where
  "char_at s i = (if i < length s then s ! i else nul)"

text \<open>Swapping inwards gives the string and the place where the ends met.\<close>

function reverse_between :: "nat \<Rightarrow> nat \<Rightarrow> 'a list \<Rightarrow> 'a list \<times> nat" where
  "reverse_between i j s = (if i < j then reverse_between (i + 1) (j - 1) (swap_at i (j - 1) s) else (s, i))"
  by pat_completeness auto
termination by (relation "measure (\<lambda>(i, j, s). j - i)") auto

function word_end :: "string \<Rightarrow> nat \<Rightarrow> nat" where
  "word_end s i = (if is_alpha (char_at s i) then word_end s (i + 1) else i)"
  by pat_completeness auto
termination
  by (relation "measure (\<lambda>(s, i). length s - i)") (auto simp: char_at_def is_alpha_def nul_def char_code_def split: if_splits)

lemma length_swap_at [simp]: "length (swap_at i j s) = length s"
  by (simp add: swap_at_def)

declare reverse_between.simps [simp del] word_end.simps [simp del] remove_loop.simps [simp del]

lemma length_reverse_between: "length (fst (reverse_between i j s)) = length s"
  by (induction i j s rule: reverse_between.induct) (subst reverse_between.simps, simp)

lemma reverse_between_ge: "i \<le> snd (reverse_between i j s)"
  by (induction i j s rule: reverse_between.induct) (subst reverse_between.simps, auto dest: Suc_leD)

lemma word_end_ge: "i \<le> word_end s i"
  by (induction s i rule: word_end.induct) (subst word_end.simps, auto)

function words_loop :: "nat \<Rightarrow> string \<Rightarrow> string" where
  "words_loop i s =
     (if i < length s then
        (let r = reverse_between i (word_end s i) s in words_loop (word_end (fst r) (snd r) + 1) (fst r))
      else s)"
  by pat_completeness auto
termination
proof (relation "measure (\<lambda>(i, s). length s - i)")
  fix i s and r :: "string \<times> nat"
  assume "i < length s" "r = reverse_between i (word_end s i) s"
  moreover from this have "i \<le> word_end (fst r) (snd r)"
    using reverse_between_ge[of i "word_end s i" s] word_end_ge[of "snd r" "fst r"] by simp
  ultimately show "((word_end (fst r) (snd r) + 1, fst r), (i, s)) \<in> measure (\<lambda>(i, s). length s - i)"
    using length_reverse_between[of i "word_end s i" s] by simp
qed simp

declare words_loop.simps [simp del]

definition reverse_words :: "string \<Rightarrow> string" where
  "reverse_words s = words_loop 0 (fst (reverse_between 0 (length s) s))"

section \<open>permute_characters\<close>

text \<open>The strings that the loop hands to the recursion: each swap is made in the string of the last one.\<close>

fun swapped :: "nat \<Rightarrow> nat list \<Rightarrow> 'a list \<Rightarrow> 'a list list" where
  "swapped b [] s = []"
| "swapped b (n # ns) s = (let s = swap_at b n s in s # swapped b ns s)"

primrec permute_range :: "nat \<Rightarrow> nat \<Rightarrow> 'a list \<Rightarrow> 'a list list" where
  "permute_range 0 b s = []"
| "permute_range (Suc k) b s =
     (if k = 0 then [s] else concat (map (permute_range k (b + 1)) (swapped b [b..<b + Suc k] s)))"

definition permute_characters :: "'a list \<Rightarrow> 'a list list" where
  "permute_characters s = permute_range (length s) 0 s"

section \<open>sort\<close>

definition string_at :: "string \<Rightarrow> nat \<Rightarrow> char outcome" where
  "string_at s pos = (if pos < length s then Inr (s ! pos) else Inl Out_of_range_thrown)"

text \<open>The letter at a position decides on the bucket.\<close>

definition bucket_of :: "nat \<Rightarrow> string \<Rightarrow> nat outcome" where
  "bucket_of pos s = and_then (string_at s pos) (\<lambda>ch.
     let c = char_minus (to_upper ch) 65 in if 0 \<le> c \<and> c < 26 then Inr (nat c) else Inl Out_of_bounds)"

fun fill_buckets :: "nat \<Rightarrow> string list \<Rightarrow> string list list \<Rightarrow> string list list outcome" where
  "fill_buckets pos [] bs = Inr bs"
| "fill_buckets pos (s # l) bs = and_then (bucket_of pos s) (\<lambda>c. fill_buckets pos l (bs[c := bs ! c @ [s]]))"

text \<open>Characters are compared as signed numbers.\<close>

definition char_greater :: "char \<Rightarrow> char \<Rightarrow> bool" where
  "char_greater c d \<longleftrightarrow> char_minus d 0 < char_minus c 0"

definition chars_left :: "nat \<Rightarrow> string list \<Rightarrow> nat" where
  "chars_left pos l = sum_list (map (\<lambda>s. length s - pos) l)"

lemma chars_left_simps [simp]:
  "chars_left pos [] = 0" "chars_left pos (s # l) = length s - pos + chars_left pos l"
  "chars_left pos (k @ l) = chars_left pos k + chars_left pos l"
  by (simp_all add: chars_left_def)

lemma concat_update:
  "c < length bs \<Longrightarrow> chars_left pos (concat (bs[c := bs ! c @ [s]])) = length s - pos + chars_left pos (concat bs) \<and>
    mset (concat (bs[c := bs ! c @ [s]])) = mset (concat bs) + {#s#}"
proof (induction bs arbitrary: c)
  case (Cons b bs)
  then show ?case by (cases c) auto
qed simp

lemma fill_buckets_content:
  "fill_buckets pos l bs = Inr cs \<Longrightarrow> length bs = 26 \<Longrightarrow>
   length cs = 26 \<and> list_all (\<lambda>s. pos < length s) l \<and> mset (concat cs) = mset (concat bs) + mset l \<and>
   chars_left (pos + 1) (concat cs) = chars_left (pos + 1) (concat bs) + chars_left (pos + 1) l"
proof (induction l arbitrary: bs)
  case (Cons s l)
  then obtain c where c: "bucket_of pos s = Inr c" "fill_buckets pos l (bs[c := bs ! c @ [s]]) = Inr cs"
    by (auto simp: and_then_eq_Inr_iff)
  then have "pos < length s" "c < 26" by (auto simp: bucket_of_def and_then_eq_Inr_iff string_at_def Let_def split: if_splits)
  then show ?case using Cons.IH[OF c(2)] Cons.prems(2) concat_update[of c bs "pos + 1" s] by auto
qed simp

lemma chars_left_later:
  "list_all (\<lambda>s. pos < length s) l \<Longrightarrow> l \<noteq> [] \<Longrightarrow> chars_left (pos + 1) l < chars_left pos l"
proof (induction l)
  case (Cons s l)
  then show ?case by (cases "l = []") auto
qed simp

function sort_strings :: "nat \<Rightarrow> string list \<Rightarrow> string list outcome"
  and sort_buckets :: "nat \<Rightarrow> string list list \<Rightarrow> string list outcome" where
  "sort_strings pos l =
     (if length l < 2 then Inr l
      else if length l = 2 then
        and_then (string_at (hd l) pos) (\<lambda>c. and_then (string_at (last l) pos) (\<lambda>d.
          Inr (if char_greater c d then [last l, hd l] else l)))
      else (case fill_buckets pos l (replicate 26 []) of Inl e \<Rightarrow> Inl e | Inr bs \<Rightarrow> sort_buckets (pos + 1) bs))"
| "sort_buckets pos [] = Inr []"
| "sort_buckets pos (b # bs) =
     and_then (sort_strings pos b) (\<lambda>b. and_then (sort_buckets pos bs) (\<lambda>rest. Inr (b @ rest)))"
  by pat_completeness auto
termination
proof (relation "inv_image (less_than <*lex*> less_than)
    (\<lambda>x. case x of Inl (pos, l) \<Rightarrow> (chars_left pos l, 0) | Inr (pos, bs) \<Rightarrow> (chars_left pos (concat bs), Suc (length bs)))")
  fix pos l bs
  assume "\<not> length l < 2" "length l \<noteq> 2" "fill_buckets pos l (replicate 26 []) = Inr bs"
  then have "chars_left (pos + 1) (concat bs) < chars_left pos l"
    using fill_buckets_content[of pos l "replicate 26 []" bs] chars_left_later[of pos l]
    by (cases l) (auto simp: concat_replicate_trivial)
  then show "(Inr (pos + 1, bs), Inl (pos, l)) \<in> inv_image (less_than <*lex*> less_than)
    (\<lambda>x. case x of Inl (pos, l) \<Rightarrow> (chars_left pos l, 0) | Inr (pos, bs) \<Rightarrow> (chars_left pos (concat bs), Suc (length bs)))"
    by simp
qed auto

declare sort_strings.simps [simp del]


section \<open>What string_to_int returns\<close>

definition is_digit :: "char \<Rightarrow> bool" where
  "is_digit c \<longleftrightarrow> 48 \<le> char_code c \<and> char_code c \<le> 57"

definition digits_value :: "int \<Rightarrow> string \<Rightarrow> int" where
  "digits_value v s = foldl (\<lambda>v c. v * 10 + (int (char_code c) - 48)) v (filter is_digit s)"

lemma char_code_less: "char_code c < 256"
  using of_char_mod_256[of c] unfolding char_code_def by (metis mod_less_divisor zero_less_numeral)

lemma char_minus_digit:
  "is_digit c \<Longrightarrow> char_minus c 48 = int (char_code c) - 48"
  "\<not> is_digit c \<Longrightarrow> \<not> (0 \<le> char_minus c 48 \<and> char_minus c 48 < 10)"
proof -
  show "is_digit c \<Longrightarrow> char_minus c 48 = int (char_code c) - 48" by (simp add: is_digit_def char_minus_def)
  assume d: "\<not> is_digit c"
  show "\<not> (0 \<le> char_minus c 48 \<and> char_minus c 48 < 10)"
  proof (cases "int (char_code c) + 80 < 256")
    case True
    then have "(int (char_code c) - 48 + 128) mod 256 = int (char_code c) + 80" by simp
    then show ?thesis using d by (auto simp: char_minus_def is_digit_def)
  next
    case False
    have "(int (char_code c) - 48 + 128) mod 256 = (int (char_code c) + 80 - 256) mod 256"
      unfolding minus_mod_self2 by (rule arg_cong[where f = "\<lambda>x. x mod 256"]) simp
    also have "\<dots> = int (char_code c) + 80 - 256" using False char_code_less[of c] by (intro mod_pos_pos_trivial) auto
    finally have "(int (char_code c) - 48 + 128) mod 256 = int (char_code c) + 80 - 256" .
    then show ?thesis using char_code_less[of c] by (simp add: char_minus_def)
  qed
qed

lemma digits_value_mono: "0 \<le> v \<Longrightarrow> v \<le> digits_value v s"
proof (induction s arbitrary: v)
  case (Cons c s)
  have "v \<le> v * 10 + (int (char_code c) - 48)" if "is_digit c" using that Cons.prems by (simp add: is_digit_def)
  moreover have "0 \<le> v * 10 + (int (char_code c) - 48)" if "is_digit c" using that Cons.prems by (simp add: is_digit_def)
  ultimately show ?case
    using Cons.IH[of v] Cons.IH[of "v * 10 + (int (char_code c) - 48)"] Cons.prems by (auto simp: digits_value_def)
qed (simp add: digits_value_def)

definition is_blank :: "char \<Rightarrow> bool" where
  "is_blank c \<longleftrightarrow> c = CHR '' '' \<or> c = CHR 0x09"

definition int_result :: "int \<Rightarrow> int \<Rightarrow> int outcome" where
  "int_result sign v = (if v \<le> int_limit then Inr (sign * v) else Inl Undefined)"

lemma digits_value_Cons:
  "digits_value v (c # s) = digits_value (if is_digit c then v * 10 + (int (char_code c) - 48) else v) s"
  by (simp add: digits_value_def)

lemma not_blank_digit: "is_digit c \<Longrightarrow> \<not> is_blank c" "is_digit c \<Longrightarrow> c \<noteq> CHR ''-''"
  by (auto simp: is_digit_def is_blank_def char_code_def)

lemma to_int_loop_value:
  assumes "0 \<le> v" "v \<le> int_limit"
  shows "to_int_loop s leading sign v =
    int_result (if leading \<and> (\<exists>r. dropWhile is_blank s = CHR ''-'' # r) then -1 else sign) (digits_value v s)"
  using assms
proof (induction s arbitrary: leading sign v)
  case Nil
  then show ?case by (simp add: int_result_def digits_value_def)
next
  case (Cons c s)
  let ?sg = "if c = CHR ''-'' \<and> leading then -1 else sign"
  consider (blank) "is_blank c" | (digit) "is_digit c" "\<not> is_blank c" | (other) "\<not> is_digit c" "\<not> is_blank c"
    using not_blank_digit(1) by blast
  then show ?case
  proof cases
    case blank
    then have "c \<noteq> CHR ''-''" "\<not> is_digit c" using not_blank_digit(1) by (auto simp: is_blank_def)
    then show ?thesis using blank Cons.IH[OF Cons.prems] by (auto simp: is_blank_def digits_value_Cons)
  next
    case digit
    let ?v = "v * 10 + (int (char_code c) - 48)"
    have d: "0 \<le> char_minus c 48" "char_minus c 48 < 10" "char_minus c 48 = int (char_code c) - 48"
      using digit(1) char_minus_digit(1)[OF digit(1)] by (auto simp: is_digit_def)
    have loop: "to_int_loop (c # s) leading sign v = (if int_limit < ?v then Inl Undefined else to_int_loop s False ?sg ?v)"
      using digit(2) d by (auto simp: is_blank_def Let_def)
    show ?thesis
    proof (cases "int_limit < ?v")
      case True
      then have "int_limit < digits_value ?v s" using digits_value_mono[of ?v s] Cons.prems(1) d by simp
      then show ?thesis unfolding loop using True digit by (simp add: int_result_def digits_value_Cons)
    next
      case False
      then show ?thesis
        unfolding loop using Cons.IH[of ?v False ?sg] Cons.prems(1) d digit not_blank_digit(2)[OF digit(1)]
        by (simp add: digits_value_Cons)
    qed
  next
    case other
    then have "to_int_loop (c # s) leading sign v = to_int_loop s False ?sg v"
      using char_minus_digit(2)[OF other(1)] by (auto simp: is_blank_def Let_def)
    then show ?thesis using other Cons.IH[OF Cons.prems] by (auto simp: digits_value_Cons)
  qed
qed

text \<open>The number of the digits of a string, whatever else is among them, negative when the first character that is not blank is a
  minus; a number that is no \<open>int\<close> is undefined.\<close>

theorem string_to_int_reads_digits:
  "string_to_int (Some s) =
     (if digits_value 0 s \<le> int_limit
      then Inr ((if \<exists>r. dropWhile is_blank s = CHR ''-'' # r then -1 else 1) * digits_value 0 s) else Inl Undefined)"
  using to_int_loop_value[of 0 s True 1] by (simp add: string_to_int_def int_result_def int_limit_def)

section \<open>What the searches find\<close>

definition table_entry :: "nat \<Rightarrow> nat option" where
  "table_entry k = (if k = 0 then None else if k = 1 then Some 1 else Some 2)"

lemma repeat_table_counts:
  "repeat_table s (\<lambda>c. table_entry (count m c)) = (\<lambda>c. table_entry (count (m + mset s) c))"
proof (induction s arbitrary: m)
  case (Cons c s)
  let ?t = "\<lambda>m c. table_entry (count m c)"
  have entry: "(case table_entry k of Some j \<Rightarrow> (if j = 1 then f(c \<mapsto> 2) else f) | None \<Rightarrow> f(c \<mapsto> 1)) = f(c := table_entry (Suc k))"
    if "f c = table_entry k" for f :: "char \<Rightarrow> nat option" and k
    using that by (auto simp: table_entry_def fun_eq_iff)
  have "(?t m)(c := table_entry (Suc (count m c))) = ?t (add_mset c m)" by (simp add: fun_eq_iff)
  then show ?case using Cons.IH[of "add_mset c m"] entry[of "?t m" "count m c"] by simp
qed simp

lemma first_single_finds: "first_single t s i = i + length (takeWhile (\<lambda>c. t c \<noteq> Some 1) s)"
  by (induction t s i rule: first_single.induct) auto

text \<open>The position of the first character that the string has once, or the end.\<close>

theorem find_first_nonrepeating_position:
  "find_first_nonrepeating s = length (takeWhile (\<lambda>c. count (mset s) c \<noteq> 1) s)"
proof -
  have e: "(\<lambda>c. table_entry (count {#} c)) = Map.empty" by (simp add: table_entry_def fun_eq_iff)
  have "repeat_table s Map.empty = (\<lambda>c. table_entry (count (mset s) c))"
    using repeat_table_counts[of s "{#}"] unfolding e add_0 .
  moreover have "(table_entry k \<noteq> Some 1) = (k \<noteq> 1)" for k by (simp add: table_entry_def)
  ultimately show ?thesis by (simp add: find_first_nonrepeating_def first_single_finds)
qed

lemma letter_of_less: "is_alpha c \<Longrightarrow> letter_of c < 26"
  by (auto simp: is_alpha_def letter_of_def to_upper_def char_code_def)

lemma count_letters_counts:
  "length counts = 26 \<Longrightarrow> length (count_letters buf counts) = 26 \<and>
   (\<forall>i<26. count_letters buf counts ! i = counts ! i + length (filter (\<lambda>c. is_alpha c \<and> letter_of c = i) buf))"
proof (induction buf arbitrary: counts)
  case (Cons c buf)
  then show ?case using letter_of_less[of c] by (auto simp: nth_list_update)
qed simp

lemma best_letter_max:
  "best_letter counts is (ch, freq) = (ch', freq') \<Longrightarrow>
   freq \<le> freq' \<and> (\<forall>i\<in>set is. counts ! i \<le> freq') \<and> ((ch', freq') = (ch, freq) \<or> ch' \<in> set is \<and> freq' = counts ! ch' \<and> freq < freq')"
proof (induction "is" arbitrary: ch freq)
  case (Cons i "is")
  show ?case
  proof (cases "freq < counts ! i")
    case True
    then show ?thesis using Cons.IH[of i "counts ! i"] Cons.prems by auto
  next
    case False
    then show ?thesis using Cons.IH[of ch freq] Cons.prems by auto
  qed
qed simp

definition letter_count :: "string \<Rightarrow> nat \<Rightarrow> nat" where
  "letter_count buf i = length (filter (\<lambda>c. is_alpha c \<and> letter_of c = i) buf)"

text \<open>The letter returned is as frequent as any, in either case of letters; without letters it is the character behind Z.\<close>

theorem most_frequent_char_is:
  "\<exists>i. most_frequent_char buf = char_of (i + 65) \<and>
    (if (\<forall>c\<in>set buf. \<not> is_alpha c) then i = 26 else i < 26 \<and> 0 < letter_count buf i \<and> (\<forall>j<26. letter_count buf j \<le> letter_count buf i))"
proof -
  let ?counts = "count_letters buf (replicate 26 0)"
  obtain i f where b: "best_letter ?counts [0..<26] (26, 0) = (i, f)" by (cases "best_letter ?counts [0..<26] (26, 0)")
  have counts: "?counts ! j = letter_count buf j" if "j < 26" for j
    using count_letters_counts[of "replicate 26 0" buf] that by (simp add: letter_count_def)
  have m: "\<forall>j\<in>set [0..<26]. ?counts ! j \<le> f" "(i, f) = (26, 0) \<or> i \<in> set [0..<26] \<and> f = ?counts ! i \<and> 0 < f"
    using best_letter_max[OF b] by blast+
  have bound: "letter_count buf j \<le> f" if "j < 26" for j
  proof -
    have "?counts ! j \<le> f" using m(1) that by simp
    then show ?thesis unfolding counts[OF that] .
  qed
  have "i = 26" if no: "\<forall>c\<in>set buf. \<not> is_alpha c"
  proof (rule ccontr)
    assume "i \<noteq> 26"
    then have "i < 26" "0 < letter_count buf i" using m(2) counts by auto
    then show False using no by (auto simp: letter_count_def filter_empty_conv)
  qed
  moreover have "i < 26 \<and> 0 < letter_count buf i \<and> (\<forall>j<26. letter_count buf j \<le> letter_count buf i)"
    if yes: "\<not> (\<forall>c\<in>set buf. \<not> is_alpha c)"
  proof -
    obtain c where c: "c \<in> set buf" "is_alpha c" using yes by blast
    then have "c \<in> set (filter (\<lambda>x. is_alpha x \<and> letter_of x = letter_of c) buf)" by simp
    then have "0 < letter_count buf (letter_of c)" unfolding letter_count_def by (meson length_pos_if_in_set)
    then have "0 < f" using bound[OF letter_of_less[OF c(2)]] by linarith
    then show ?thesis using m(2) counts bound by auto
  qed
  moreover have "most_frequent_char buf = char_of (i + 65)" by (simp add: most_frequent_char_def b)
  ultimately show ?thesis by (intro exI[of _ i]) simp
qed

section \<open>What remove_characters leaves\<close>

lemma remove_loop_result:
  assumes "inp \<le> length s" "out \<le> inp" "\<forall>k. out \<le> k \<and> k < inp \<longrightarrow> s ! k = nul"
  shows "remove_loop t inp out s =
    take out s @ filter (\<lambda>c. c \<notin> t) (drop inp s) @ replicate (inp - out + length (filter (\<lambda>c. c \<in> t) (drop inp s))) nul"
  using assms
proof (induction t inp out s rule: remove_loop.induct)
  case (1 t inp out s)
  show ?case
  proof (cases "inp < length s")
    case False
    then have "drop out s = replicate (inp - out) nul" using "1.prems" by (intro nth_equalityI) auto
    then have "s = take out s @ replicate (inp - out) nul" by (metis append_take_drop_id)
    then show ?thesis using False by (subst remove_loop.simps) simp
  next
    case True
    have d: "drop inp s = s ! inp # drop (inp + 1) s" using True by (simp add: Cons_nth_drop_Suc)
    show ?thesis
    proof (cases "s ! inp \<in> t")
      case in_t: True
      have "remove_loop t (inp + 1) out (s[inp := nul]) = take out s @ filter (\<lambda>c. c \<notin> t) (drop (inp + 1) s) @
          replicate (inp + 1 - out + length (filter (\<lambda>c. c \<in> t) (drop (inp + 1) s))) nul"
        using "1.IH"(1)[OF True in_t] "1.prems" True by (auto simp: nth_list_update less_Suc_eq)
      then show ?thesis using True in_t d "1.prems"(2) by (subst remove_loop.simps) (simp add: Suc_diff_le)
    next
      case False
      let ?s = "swap_at inp out s"
      have "remove_loop t (inp + 1) (out + 1) ?s = take (out + 1) ?s @ filter (\<lambda>c. c \<notin> t) (drop (inp + 1) ?s) @
          replicate (inp + 1 - (out + 1) + length (filter (\<lambda>c. c \<in> t) (drop (inp + 1) ?s))) nul"
      proof (rule "1.IH"(2)[OF True False])
        show "\<forall>k. out + 1 \<le> k \<and> k < inp + 1 \<longrightarrow> ?s ! k = nul"
          using "1.prems" True by (auto simp: swap_at_def nth_list_update less_Suc_eq)
      qed (use "1.prems" True in auto)
      moreover have "take (out + 1) ?s = take out s @ [s ! inp]"
        using "1.prems" True by (simp add: swap_at_def take_Suc_conv_app_nth)
      moreover have "drop (inp + 1) ?s = drop (inp + 1) s" using "1.prems" by (simp add: swap_at_def)
      ultimately show ?thesis using True False d "1.prems"(2) by (subst remove_loop.simps) (simp add: Suc_diff_le)
    qed
  qed
qed

text \<open>The characters to keep come to the front in order, and the string keeps its length: it is filled with zeros.\<close>

theorem remove_characters_pads:
  "remove_characters s chars =
   filter (\<lambda>c. c \<notin> set chars) s @ replicate (length (filter (\<lambda>c. c \<in> set chars) s)) nul"
  using remove_loop_result[of 0 s 0 "set chars"] by (simp add: remove_characters_def)


section \<open>What reverse_words does\<close>

lemma swap_at_append:
  "swap_at (length a) (length a + 1 + length m) (a @ x # m @ y # b) = a @ y # m @ x # b"
  by (simp add: swap_at_def nth_append list_update_append)

lemma swap_at_parts:
  assumes "i < k" "k < length s"
  shows "take (i + 1) (swap_at i k s) = take i s @ [s ! k] \<and> drop (i + 1) (take k (swap_at i k s)) = drop (i + 1) (take k s) \<and>
    drop k (swap_at i k s) = s ! i # drop (k + 1) s"
proof -
  obtain a x m y b where s: "s = a @ x # m @ y # b" "length a = i" "length a + 1 + length m = k"
  proof
    have t: "take k s = take i s @ s ! i # drop (i + 1) (take k s)" using id_take_nth_drop[of i "take k s"] assms by simp
    have "s = take k s @ s ! k # drop (k + 1) s" using id_take_nth_drop[of k s] assms by simp
    also have "\<dots> = (take i s @ s ! i # drop (i + 1) (take k s)) @ s ! k # drop (k + 1) s" by (simp only: t[symmetric])
    finally show "s = take i s @ s ! i # drop (i + 1) (take k s) @ s ! k # drop (k + 1) s"
      by (simp only: append_assoc append_Cons)
  qed (use assms in auto)
  show ?thesis unfolding s(2,3)[symmetric] s(1) swap_at_append by (simp add: nth_append)
qed

lemma reverse_between_result:
  "i \<le> j \<Longrightarrow> j \<le> length s \<Longrightarrow>
   fst (reverse_between i j s) = take i s @ rev (drop i (take j s)) @ drop j s \<and> snd (reverse_between i j s) \<le> j"
proof (induction i j s rule: reverse_between.induct)
  case (1 i j s)
  show ?case
  proof (cases "i < j")
    case False
    then show ?thesis using "1.prems" by (subst (1 2) reverse_between.simps) simp
  next
    case True
    let ?s = "swap_at i (j - 1) s"
    have ij: "i < length s" "j - 1 < length s" using True "1.prems" by auto
    have split: "drop i (take j s) = (if j = i + 1 then [s ! i] else s ! i # drop (i + 1) (take (j - 1) s) @ [s ! (j - 1)])"
    proof -
      have "drop i (take j s) = s ! i # drop (i + 1) (take j s)"
        using True ij "1.prems" Cons_nth_drop_Suc[of i "take j s"] by simp
      moreover have "take j s = take (j - 1) s @ [s ! (j - 1)]" using True ij(2) take_Suc_conv_app_nth[of "j - 1" s] by simp
      ultimately show ?thesis using True ij by auto
    qed
    show ?thesis
    proof (cases "j = i + 1")
      case one: True
      then have "?s = s" by (simp add: swap_at_def)
      then show ?thesis using one split ij(1)
        by (subst (1 2) reverse_between.simps) (simp add: reverse_between.simps[of "Suc i"] id_take_nth_drop[symmetric] Cons_nth_drop_Suc)
    next
      case False
      then have "i + 1 \<le> j - 1" using True by simp
      then have ih: "fst (reverse_between (i + 1) (j - 1) ?s) = take (i + 1) ?s @ rev (drop (i + 1) (take (j - 1) ?s)) @ drop (j - 1) ?s"
        "snd (reverse_between (i + 1) (j - 1) ?s) \<le> j - 1"
        using "1.IH"[OF True] ij(2) by auto
      have parts: "take (i + 1) ?s = take i s @ [s ! (j - 1)]" "drop (i + 1) (take (j - 1) ?s) = drop (i + 1) (take (j - 1) s)"
        "drop (j - 1) ?s = s ! i # drop j s"
        using swap_at_parts[of i "j - 1" s] ij True False by simp_all
      show ?thesis using True False split ih unfolding parts by (subst (1 2) reverse_between.simps) simp
    qed
  qed
qed

text \<open>A text is cut into its words and the single characters between them.\<close>

function tokens :: "string \<Rightarrow> string list" where
  "tokens s =
     (case s of [] \<Rightarrow> []
      | c # t \<Rightarrow> if is_alpha c then takeWhile is_alpha s # tokens (dropWhile is_alpha s) else [c] # tokens t)"
  by pat_completeness auto
termination by (relation "measure length") (auto simp: less_Suc_eq_le length_dropWhile_le)

declare tokens.simps [simp del]

lemma tokens_simps [simp]:
  "tokens [] = []"
  "\<not> is_alpha c \<Longrightarrow> tokens (c # t) = [c] # tokens t"
  by (simp_all add: tokens.simps)

lemma tokens_word: "is_alpha c \<Longrightarrow> tokens (c # t) = (c # takeWhile is_alpha t) # tokens (dropWhile is_alpha t)"
  by (simp add: tokens.simps)

lemma word_end_length: "i \<le> length s \<Longrightarrow> word_end s i = i + length (takeWhile is_alpha (drop i s))"
proof (induction s i rule: word_end.induct)
  case (1 s i)
  have nul: "\<not> is_alpha nul" by (simp add: is_alpha_def nul_def char_code_def)
  show ?case
  proof (cases "i < length s")
    case True
    then have d: "drop i s = s ! i # drop (i + 1) s" by (simp add: Cons_nth_drop_Suc)
    show ?thesis using True "1.IH" d by (subst word_end.simps) (simp add: char_at_def)
  next
    case False
    then show ?thesis using nul by (subst word_end.simps) (simp add: char_at_def)
  qed
qed

lemma words_loop_result:
  "i \<le> length s \<Longrightarrow> words_loop i s = take i s @ concat (map rev (tokens (drop i s)))"
proof (induction i s rule: words_loop.induct)
  case (1 i s)
  show ?case
  proof (cases "i < length s")
    case False
    then show ?thesis using "1.prems" by (subst words_loop.simps) simp
  next
    case True
    have d: "drop i s = s ! i # drop (i + 1) s" using True by (simp add: Cons_nth_drop_Suc)
    define w where "w = takeWhile is_alpha (drop i s)"
    define j where "j = word_end s i"
    have j: "j = i + length w" "j \<le> length s"
      using word_end_length[of i s] True length_takeWhile_le[of is_alpha "drop i s"] by (simp_all add: j_def w_def)
    have w: "w = drop i (take j s)" "drop j s = dropWhile is_alpha (drop i s)"
    proof -
      have "drop i (take j s) = take (length w) (drop i s)" by (simp add: drop_take j(1))
      also have "\<dots> = w" unfolding w_def by (rule takeWhile_eq_take[symmetric])
      finally show "w = drop i (take j s)" ..
      show "drop j s = dropWhile is_alpha (drop i s)"
        unfolding dropWhile_eq_drop w_def[symmetric] drop_drop j(1) by (simp add: add.commute)
    qed
    have ij: "i \<le> j" using j(1) by simp
    define r where "r = reverse_between i j s"
    have fr: "fst r = take i s @ rev w @ drop j s" "i \<le> snd r" "snd r \<le> j"
      using reverse_between_result[of i j s] reverse_between_ge[of i j s] ij j(2) unfolding r_def w(1)[symmetric] by simp_all
    have alpha: "\<forall>c\<in>set w. is_alpha c" unfolding w_def by (auto dest: set_takeWhileD)
    have stop: "drop j s = [] \<or> \<not> is_alpha (hd (drop j s))" unfolding w(2) using hd_dropWhile[of is_alpha "drop i s"] by blast
    have after: "word_end (fst r) (snd r) = j"
    proof -
      have "drop (snd r) (fst r) = drop (snd r - i) (rev w) @ drop j s"
        using fr j by simp
      moreover have "takeWhile is_alpha (drop (snd r - i) (rev w) @ drop j s) = drop (snd r - i) (rev w) @ takeWhile is_alpha (drop j s)"
        using alpha by (intro takeWhile_append2) (auto dest: in_set_dropD)
      moreover have "takeWhile is_alpha (drop j s) = []" using stop by (cases "drop j s") auto
      moreover have "snd r \<le> length (fst r)" using fr(3) j(2) length_reverse_between[of i j s] by (simp add: r_def)
      ultimately show ?thesis using word_end_length[of "snd r" "fst r"] fr(2,3) j(1) by simp
    qed
    have len: "length (fst r) = length s" by (simp add: r_def length_reverse_between)
    have step: "words_loop i s = words_loop (j + 1) (fst r)"
      using True after by (subst words_loop.simps) (simp add: Let_def r_def j_def)
    show ?thesis
    proof (cases "j < length s")
      case False
      then have "j = length s" using j(2) by simp
      then have all: "drop i s = w" "w \<noteq> []" using w(1) d by auto
      then have "tokens (drop i s) = [w]" using alpha by (cases w) (simp_all add: tokens_word takeWhile_eq_all_conv[THEN iffD2] dropWhile_eq_Nil_conv[THEN iffD2])
      moreover have "words_loop (j + 1) (fst r) = fst r" using \<open>j = length s\<close> len by (subst words_loop.simps) simp
      ultimately show ?thesis using step fr(1) \<open>j = length s\<close> by simp
    next
      case inside: True
      have dj: "drop j s = s ! j # drop (j + 1) s" using inside by (simp add: Cons_nth_drop_Suc)
      have na: "\<not> is_alpha (s ! j)" using stop dj by simp
      have "words_loop (j + 1) (fst r) = take (j + 1) (fst r) @ concat (map rev (tokens (drop (j + 1) (fst r))))"
        using "1.IH"[OF True, of r] after len inside by (simp add: r_def j_def)
      also have "take (j + 1) (fst r) = take i s @ rev w @ [s ! j]" using fr(1) dj j by simp
      also have "drop (j + 1) (fst r) = drop (j + 1) s" using fr(1) j by simp
      finally have loop: "words_loop i s = take i s @ rev w @ [s ! j] @ concat (map rev (tokens (drop (j + 1) s)))" using step by simp
      have "concat (map rev (tokens (drop i s))) = rev w @ [s ! j] @ concat (map rev (tokens (drop (j + 1) s)))"
      proof (cases "is_alpha (s ! i)")
        case al: True
        then have "tokens (drop i s) = w # tokens (drop j s)"
          unfolding w(2) w_def d by (simp add: tokens_word)
        then show ?thesis using na dj by simp
      next
        case False
        then have "w = []" "j = i" using j(1) d by (simp_all add: w_def)
        then show ?thesis using False d by simp
      qed
      then show ?thesis using loop by simp
    qed
  qed
qed

text \<open>The cut is the only one into words and single characters in which no two words meet.\<close>

definition is_token :: "string \<Rightarrow> bool" where
  "is_token t \<longleftrightarrow> t \<noteq> [] \<and> (list_all is_alpha t \<or> length t = 1)"

definition tokenized :: "string list \<Rightarrow> bool" where
  "tokenized ts \<longleftrightarrow> list_all is_token ts \<and> successively (\<lambda>a b. \<not> (list_all is_alpha a \<and> list_all is_alpha b)) ts"

lemma tokens_tokenized: "concat (tokens s) = s \<and> tokenized (tokens s)"
proof (induction s rule: tokens.induct)
  case (1 s)
  show ?case
  proof (cases s)
    case (Cons c t)
    show ?thesis
    proof (cases "is_alpha c")
      case True
      define u where "u = dropWhile is_alpha t"
      have ih: "concat (tokens u) = u" "tokenized (tokens u)" using "1.IH"(1)[OF Cons True] True Cons by (simp_all add: u_def)
      have "\<not> list_all is_alpha (hd (tokens u))" if "tokens u \<noteq> []"
      proof (cases u)
        case (Cons d v)
        then have "\<not> is_alpha d" using hd_dropWhile[of is_alpha t] by (simp add: u_def)
        then show ?thesis using Cons by simp
      qed (use that in simp)
      then have "tokenized ((c # takeWhile is_alpha t) # tokens u)"
        using ih(2) True by (cases "tokens u") (auto simp: tokenized_def is_token_def list_all_iff dest: set_takeWhileD)
      then show ?thesis using Cons True ih(1) by (simp add: tokens_word u_def)
    next
      case False
      then show ?thesis
        using "1.IH"(2)[OF Cons False] Cons by (cases "tokens t") (auto simp: tokenized_def is_token_def)
    qed
  qed (simp add: tokenized_def)
qed

lemma tokenized_unique: "tokenized ts \<Longrightarrow> tokens (concat ts) = ts"
proof (induction ts)
  case (Cons t ts)
  have ih: "tokens (concat ts) = ts" using Cons by (cases ts) (auto simp: tokenized_def)
  obtain c u where t: "t = c # u" using Cons.prems by (cases t) (auto simp: tokenized_def is_token_def)
  show ?case
  proof (cases "is_alpha c")
    case True
    then have al: "list_all is_alpha t" using Cons.prems t by (auto simp: tokenized_def is_token_def)
    have stop: "takeWhile is_alpha (concat ts) = []"
    proof (cases ts)
      case (Cons v vs)
      then have "\<not> list_all is_alpha v" "is_token v" using Cons.prems al by (auto simp: tokenized_def)
      then obtain d where "v = [d]" "\<not> is_alpha d" by (cases v) (auto simp: is_token_def)
      then show ?thesis using Cons by simp
    qed simp
    have "takeWhile is_alpha (u @ concat ts) = u" "dropWhile is_alpha (u @ concat ts) = concat ts"
      using al t stop by (simp_all add: takeWhile_append2 dropWhile_append2 list_all_iff dropWhile_eq_drop)
    then show ?thesis using True t ih by (simp add: tokens_word)
  next
    case False
    then have "u = []" using Cons.prems t by (auto simp: tokenized_def is_token_def)
    then show ?thesis using False t ih by simp
  qed
qed simp

lemma tokens_rev: "tokens (rev s) = map rev (rev (tokens s))"
proof -
  have "tokenized (map rev (rev (tokens s)))"
    using tokens_tokenized[of s]
    by (auto simp: tokenized_def is_token_def list_all_iff successively_map successively_rev elim!: successively_mono)
  then have "tokens (concat (map rev (rev (tokens s)))) = map rev (rev (tokens s))" by (rule tokenized_unique)
  moreover have "concat (map rev (rev (tokens s))) = rev s" using tokens_tokenized[of s] by (metis rev_concat rev_map)
  ultimately show ?thesis by simp
qed

text \<open>The words come in the reverse order, each spelled as before, with what is between them reversed as well.\<close>

theorem reverse_words_reverses_tokens:
  "reverse_words s = concat (rev (tokens s))"
proof -
  have "fst (reverse_between 0 (length s) s) = rev s" using reverse_between_result[of 0 "length s" s] by simp
  then have "reverse_words s = concat (map rev (tokens (rev s)))"
    using words_loop_result[of 0 "rev s"] by (simp add: reverse_words_def)
  then show ?thesis by (simp add: tokens_rev)
qed


section \<open>What permute_characters lists\<close>

text \<open>The string with the character at a position moved to the front.\<close>

definition to_front :: "nat \<Rightarrow> 'a list \<Rightarrow> 'a list" where
  "to_front i x = x ! i # take i x @ drop (i + 1) x"

lemma swap_to_front:
  assumes "i + 1 < length x"
  shows "swap_at (length p) (length p + (i + 1)) (p @ to_front i x) = p @ to_front (i + 1) x"
proof -
  have "to_front i x = x ! i # take i x @ x ! (i + 1) # drop (i + 2) x"
    using assms by (simp add: to_front_def Cons_nth_drop_Suc)
  moreover have "to_front (i + 1) x = x ! (i + 1) # take i x @ x ! i # drop (i + 2) x"
    using assms by (simp add: to_front_def take_Suc_conv_app_nth)
  ultimately show ?thesis
    using swap_at_append[of p "take i x" "x ! i" "x ! (i + 1)" "drop (i + 2) x"] assms by (simp add: add.assoc)
qed

lemma swapped_later:
  "i + 1 \<le> length x \<Longrightarrow>
   swapped (length p) [length p + (i + 1)..<length p + length x] (p @ to_front i x) = map (\<lambda>i. p @ to_front i x) [i + 1..<length x]"
proof (induction "length x - (i + 1)" arbitrary: i)
  case (Suc k)
  then have i: "i + 1 < length x" "k = length x - (i + 1 + 1)" by auto
  have "[length p + (i + 1)..<length p + length x] = (length p + (i + 1)) # [length p + (i + 1 + 1)..<length p + length x]"
    "[i + 1..<length x] = (i + 1) # [i + 1 + 1..<length x]"
    using i(1) by (simp_all add: upt_conv_Cons)
  then show ?case using Suc(1)[OF i(2)] i(1) swap_to_front[OF i(1), of p] by (simp add: Let_def)
qed simp

lemma swapped_fronts:
  assumes "x \<noteq> []"
  shows "swapped (length p) [length p..<length p + length x] (p @ x) = map (\<lambda>i. p @ to_front i x) [0..<length x]"
proof -
  have "swap_at (length p) (length p) (p @ x) = p @ to_front 0 x"
    using assms by (cases x) (simp_all add: swap_at_def to_front_def)
  moreover have "[length p..<length p + length x] = length p # [length p + (0 + 1)..<length p + length x]"
    "[0..<length x] = 0 # [0 + 1..<length x]"
    using assms by (simp_all add: upt_conv_Cons)
  ultimately show ?thesis using swapped_later[of 0 x p] assms by (simp add: Let_def Suc_le_eq)
qed

lemma permute_range_lists:
  "x \<noteq> [] \<Longrightarrow> set (permute_range (length x) (length p) (p @ x)) = {p @ y |y. mset y = mset x} \<and>
    length (permute_range (length x) (length p) (p @ x)) = fact (length x)"
proof (induction "length x" arbitrary: x p)
  case (Suc k)
  show ?case
  proof (cases "k = 0")
    case True
    then obtain a where "x = [a]" using Suc(2) by (cases x) auto
    then show ?thesis by auto
  next
    case False
    have len: "length x = Suc k" using Suc(2) by simp
    let ?rest = "\<lambda>i. take i x @ drop (i + 1) x"
    have each: "set (permute_range k (length p + 1) (p @ to_front i x)) = {p @ x ! i # y |y. mset y = mset (?rest i)} \<and>
        length (permute_range k (length p + 1) (p @ to_front i x)) = fact k" if "i < length x" for i
    proof -
      have "k = length (?rest i)" "?rest i \<noteq> []" using len that False by auto
      then show ?thesis using Suc(1)[of "?rest i" "p @ [x ! i]"] by (simp add: to_front_def)
    qed
    have "permute_range (length x) (length p) (p @ x) =
        concat (map (permute_range k (length p + 1)) (map (\<lambda>i. p @ to_front i x) [0..<length x]))"
      using False swapped_fronts[OF Suc(3), of p] unfolding len by simp
    then have all: "permute_range (length x) (length p) (p @ x) =
        concat (map (\<lambda>i. permute_range k (length p + 1) (p @ to_front i x)) [0..<length x])"
      by (simp add: comp_def)
    have "length (permute_range (length x) (length p) (p @ x)) =
        sum_list (map (\<lambda>i. length (permute_range k (length p + 1) (p @ to_front i x))) [0..<length x])"
      unfolding all by (simp add: length_concat comp_def)
    also have "\<dots> = sum_list (map (\<lambda>i. fact k) [0..<length x])" using each by (intro arg_cong[where f = sum_list] map_cong) auto
    also have "\<dots> = fact (length x)" by (simp add: len sum_list_triv)
    finally have count: "length (permute_range (length x) (length p) (p @ x)) = fact (length x)" .
    have "set (permute_range (length x) (length p) (p @ x)) = (\<Union>i<length x. {p @ x ! i # y |y. mset y = mset (?rest i)})"
      unfolding all using each by auto
    also have "\<dots> = {p @ y |y. mset y = mset x}"
    proof (intro set_eqI iffI)
      fix z assume "z \<in> (\<Union>i<length x. {p @ x ! i # y |y. mset y = mset (?rest i)})"
      then obtain i y where i: "i < length x" "z = p @ x ! i # y" "mset y = mset (?rest i)" by auto
      have "x = take i x @ x ! i # drop (i + 1) x" using i(1) by (simp add: id_take_nth_drop)
      then have "mset x = add_mset (x ! i) (mset (?rest i))" by (metis mset_append mset.simps(2) union_mset_add_mset_right)
      then show "z \<in> {p @ y |y. mset y = mset x}" using i(2,3) by auto
    next
      fix z assume "z \<in> {p @ y |y. mset y = mset x}"
      then obtain y where y: "z = p @ y" "mset y = mset x" by blast
      then obtain c w where c: "y = c # w" using Suc(3) by (cases y) auto
      then have "c \<in> set x" using y(2) by (metis list.set_intros(1) mset_eq_setD)
      then obtain i where i: "i < length x" "x ! i = c" by (auto simp: in_set_conv_nth)
      have "x = take i x @ x ! i # drop (i + 1) x" using i(1) by (simp add: id_take_nth_drop)
      then have "mset x = add_mset c (mset (?rest i))" unfolding i(2) by (metis mset_append mset.simps(2) union_mset_add_mset_right)
      then have "mset w = mset (?rest i)" using y(2) c by simp
      then show "z \<in> (\<Union>i<length x. {p @ x ! i # y |y. mset y = mset (?rest i)})" using y(1) c i by auto
    qed
    finally show ?thesis using count by simp
  qed
qed simp

text \<open>Every rearrangement of the characters is listed, as often as positions can be exchanged; the empty string has none.\<close>

theorem permute_characters_lists_all:
  "if s = [] then permute_characters s = []
   else set (permute_characters s) = {t. mset t = mset s} \<and> length (permute_characters s) = fact (length s)"
  using permute_range_lists[of s "[]"] by (simp add: permute_characters_def)

section \<open>What sort does\<close>

lemma sort_strings_mset:
  "sort_strings pos l = Inr r \<Longrightarrow> mset r = mset l"
  "sort_buckets pos bs = Inr r \<Longrightarrow> mset r = mset (concat bs)"
proof (induction pos l and pos bs arbitrary: r and r rule: sort_strings_sort_buckets.induct)
  case (1 pos l)
  show ?case
  proof (cases "length l < 2 \<or> length l = 2")
    case True
    have "mset [last l, hd l] = mset l" if "length l = 2"
      using that by (auto simp: numeral_2_eq_2 length_Suc_conv)
    then show ?thesis
      using "1.prems" True by (subst (asm) sort_strings.simps) (auto simp: and_then_eq_Inr_iff split: if_splits)
  next
    case False
    then obtain bs where "fill_buckets pos l (replicate 26 []) = Inr bs" "sort_buckets (pos + 1) bs = Inr r"
      using "1.prems" by (subst (asm) sort_strings.simps) (auto split: sum.splits)
    then show ?thesis using "1.IH"[of bs r] False fill_buckets_content[of pos l "replicate 26 []" bs]
      by (simp add: concat_replicate_trivial)
  qed
next
  case (3 pos b bs)
  then show ?case by (auto simp: and_then_eq_Inr_iff)
qed simp

text \<open>A pair is compared at one position only, so what the strings have behind equal characters is not looked at; and a string that ends
  where three or more still agree throws.\<close>

theorem sort_leaves_pairs:
  assumes "pos < length a" "pos < length b" "a ! pos = b ! pos"
  shows "sort_strings pos [a, b] = Inr [a, b]"
  using assms by (subst sort_strings.simps) (simp add: string_at_def char_greater_def)

theorem sort_leaves_pairs_witness: "sort_strings 0 [''ab'', ''aa''] = Inr [''ab'', ''aa'']"
  using sort_leaves_pairs[of 0 "''ab''" "''aa''"] by simp

section \<open>The program\<close>

theorem strings_main_prints:
  "find_first_nonrepeating ''the first non-repeating character is f'' = 11 \<and>
   reverse_words ''Dilegua, o notte!'' = ''!notte o ,Dilegua'' \<and>
   string_to_int (Some ''  1 234'') = Inr 1234 \<and> string_to_int (Some ''-1 234 '') = Inr (- 1234) \<and>
   permute_characters ''abc'' = [''abc'', ''acb'', ''bac'', ''bca'', ''cab'', ''cba'']"
  by code_simp

lemma bucket_letters:
  "bucket_of 0 (CHR ''a'' # s) = Inr 0" "bucket_of 1 (c # CHR ''b'' # s) = Inr 1" "bucket_of 1 (c # CHR ''c'' # s) = Inr 2"
  "bucket_of 1 [c] = Inl Out_of_range_thrown"
  by (simp_all add: bucket_of_def string_at_def char_minus_def to_upper_def char_code_def Let_def)

theorem sort_throws: "sort_strings 0 [''a'', ''ab'', ''ac''] = Inl Out_of_range_thrown"
proof -
  have "fill_buckets 0 [''a'', ''ab'', ''ac''] (replicate 26 []) = Inr ((replicate 26 [])[0 := [''a'', ''ab'', ''ac'']])"
    by (simp add: bucket_letters)
  moreover have "(replicate 26 [])[0 := l] = l # replicate 25 []" for l :: "string list"
    by (simp add: numeral_eq_Suc)
  moreover have "sort_strings 1 [''a'', ''ab'', ''ac''] = Inl Out_of_range_thrown"
    by (subst sort_strings.simps) (simp add: bucket_letters(4)[unfolded One_nat_def])
  ultimately show ?thesis by (subst sort_strings.simps) simp
qed

end
