(* ===== verification/Ex_Logstream.thy ===== *)
theory Ex_Logstream
  imports Prelude "HOL-Library.Sublist"
begin

text \<open>
  The log streams of \<open>exercises/logstream\<close>: a factory that keeps a tree of names, a stream per requested path with a pointer
  to its parent, and messages that go to a stream and its ancestors. Streams are a list, a pointer to one is its index; the
  tree owns its nodes, and a pointer to one is the list of the positions of the children on the way to it. A stream buffer is a
  number, and what is written to the buffers is one list of pairs of a buffer and a text. The parents are shown to be the nearest requested
  prefixes of the paths, in whatever order the paths are requested.
\<close>

section \<open>Streams\<close>

datatype log_level = NONE | DEBUG | INFO | WARN | ERROR | FATAL

fun level_number :: "log_level \<Rightarrow> nat" where
  "level_number NONE = 0"
| "level_number DEBUG = 1"
| "level_number INFO = 2"
| "level_number WARN = 3"
| "level_number ERROR = 4"
| "level_number FATAL = 5"

lemma level_number_eq_iff [simp]: "level_number a = level_number b \<longleftrightarrow> a = b"
  by (cases a; cases b) simp_all

instantiation log_level :: linorder
begin

definition less_eq_log_level :: "log_level \<Rightarrow> log_level \<Rightarrow> bool" where
  "a \<le> b \<longleftrightarrow> level_number a \<le> level_number b"

definition less_log_level :: "log_level \<Rightarrow> log_level \<Rightarrow> bool" where
  "a < b \<longleftrightarrow> level_number a < level_number b"

instance
  by standard (auto simp: less_eq_log_level_def less_log_level_def)

end

record logstream =
  stream_name :: string
  stream_level :: log_level
  stream_parent :: "nat option"
  msgcontext :: "log_level list"
  stream_buf :: "nat option"

text \<open>The constructor pushes a first context.\<close>

definition new_logstream :: "string \<Rightarrow> log_level \<Rightarrow> nat option \<Rightarrow> nat option \<Rightarrow> logstream" where
  "new_logstream name level sb p =
     \<lparr>stream_name = name, stream_level = level, stream_parent = p, msgcontext = [NONE], stream_buf = sb\<rparr>"

section \<open>The tree of names\<close>

datatype lnode = Lnode (node_name: string) (node_logger: "nat option") (node_buf: "nat option") (node_level: log_level)
  (children: "lnode list")

fun dump :: "lnode \<Rightarrow> string" where
  "dump (Lnode nm lg bf lv cs) = nm @ ''['' @ concat (map dump cs) @ '']''"

definition new_node :: "string \<Rightarrow> lnode" where
  "new_node n = Lnode n None None NONE []"

record logstream_factory =
  root_node :: lnode
  default_rdbuf :: "nat option"
  default_level :: log_level
  streams :: "logstream list"

text \<open>Without a buffer of its own a factory writes to the standard log.\<close>

definition new_factory :: "nat option \<Rightarrow> nat option \<Rightarrow> log_level \<Rightarrow> logstream_factory" where
  "new_factory clog buf l =
     \<lparr>root_node = new_node ''root'', default_rdbuf = (case buf of None \<Rightarrow> clog | Some b \<Rightarrow> Some b), default_level = l,
      streams = []\<rparr>"

definition find_char :: "string \<Rightarrow> char \<Rightarrow> nat \<Rightarrow> nat option" where
  "find_char s c i = find (\<lambda>j. s ! j = c) [i..<length s]"

lemma find_char_SomeD: "find_char s c i = Some j \<Longrightarrow> i \<le> j \<and> j < length s \<and> s ! j = c"
  by (auto simp: find_char_def find_Some_iff)

function split_loop :: "string \<Rightarrow> char \<Rightarrow> nat \<Rightarrow> nat option \<Rightarrow> string list \<Rightarrow> string list" where
  "split_loop s c start cur v =
     (case cur of
        None \<Rightarrow> v @ [drop start s]
      | Some p \<Rightarrow> split_loop s c (Suc p) (find_char s c (Suc p)) (v @ [take (p - start) (drop start s)]))"
  by pat_completeness auto

termination split_loop
  by (relation "measure (\<lambda>(s, c, start, cur, v). case cur of None \<Rightarrow> 0 | Some p \<Rightarrow> Suc (length s - p))")
    (auto split: option.splits dest: find_char_SomeD)

declare split_loop.simps [simp del]

definition split_path :: "string \<Rightarrow> char \<Rightarrow> string list" where
  "split_path s c = split_loop s c 0 (find_char s c 0) []"

definition path_delim :: char where
  "path_delim = CHR ''.''"

text \<open>The position of the first child of a name, or the end.\<close>

definition child_pos :: "string \<Rightarrow> lnode list \<Rightarrow> nat" where
  "child_pos s cs = length (takeWhile (\<lambda>c. node_name c \<noteq> s) cs)"

text \<open>
  The loop of \<open>find_node_\<close> adds what is missing of a path. It gives the node of the path, and the last node below the start that has
  a stream.
\<close>

fun find_node :: "string list \<Rightarrow> lnode \<Rightarrow> lnode \<times> nat list option \<times> nat list" where
  "find_node [] node = (node, None, [])"
| "find_node (s # ss) node =
     (let i = child_pos s (children node);
          cs = (if i = length (children node) then children node @ [new_node s] else children node)
      in case find_node ss (cs ! i) of (next, parent, pos) \<Rightarrow>
         (Lnode (node_name node) (node_logger node) (node_buf node) (node_level node) (cs[i := next]),
          (case parent of
             Some q \<Rightarrow> Some (i # q)
           | None \<Rightarrow> if node_logger (cs ! i) \<noteq> None then Some [i] else None),
          i # pos))"

fun node_at :: "nat list \<Rightarrow> lnode \<Rightarrow> lnode" where
  "node_at [] n = n"
| "node_at (i # is) n = node_at is (children n ! i)"

fun update_at :: "nat list \<Rightarrow> (lnode \<Rightarrow> lnode) \<Rightarrow> lnode \<Rightarrow> lnode" where
  "update_at [] f n = f n"
| "update_at (i # is) f n =
     Lnode (node_name n) (node_logger n) (node_buf n) (node_level n) ((children n)[i := update_at is f (children n ! i)])"

definition put_logger :: "nat \<Rightarrow> lnode \<Rightarrow> lnode" where
  "put_logger l n = Lnode (node_name n) (Some l) (node_buf n) (node_level n) (children n)"

definition put_buf :: "nat option \<Rightarrow> lnode \<Rightarrow> lnode" where
  "put_buf b n = Lnode (node_name n) (node_logger n) b (node_level n) (children n)"

definition put_level :: "log_level \<Rightarrow> lnode \<Rightarrow> lnode" where
  "put_level v n = Lnode (node_name n) (node_logger n) (node_buf n) v (children n)"

section \<open>Operations of the factory\<close>

definition set_default_buffer :: "nat option \<Rightarrow> logstream_factory \<Rightarrow> logstream_factory" where
  "set_default_buffer buf f = f\<lparr>default_rdbuf := buf\<rparr>"

definition set_buffer :: "string \<Rightarrow> nat option \<Rightarrow> logstream_factory \<Rightarrow> bool \<times> logstream_factory" where
  "set_buffer path buf f =
     (case find_node (split_path path path_delim) (root_node f) of (root, _, pos) \<Rightarrow>
       (node_logger (node_at pos root) = None, f\<lparr>root_node := update_at pos (put_buf buf) root\<rparr>))"

definition put_parent :: "nat option \<Rightarrow> nat \<Rightarrow> logstream list \<Rightarrow> logstream list" where
  "put_parent p l ls = ls[l := (ls ! l)\<lparr>stream_parent := p\<rparr>]"

definition set_log_level :: "string \<Rightarrow> log_level \<Rightarrow> logstream_factory \<Rightarrow> nat option \<times> logstream_factory" where
  "set_log_level path level f =
     (case find_node (split_path path path_delim) (root_node f) of (root, _, pos) \<Rightarrow>
       (let logger = node_logger (node_at pos root);
            f = f\<lparr>root_node := update_at pos (put_level level) root\<rparr>
        in (logger,
            case logger of
              None \<Rightarrow> f
            | Some l \<Rightarrow> f\<lparr>streams := (streams f)[l := (streams f ! l)\<lparr>stream_level := level\<rparr>]\<rparr>)))"

fun add_logger_to_children :: "nat \<Rightarrow> lnode \<Rightarrow> logstream list \<Rightarrow> logstream list" where
  "add_logger_to_children l (Lnode nm lg bf lv cs) ls =
     (case lg of
        Some child \<Rightarrow> put_parent (Some l) child ls
      | None \<Rightarrow> fold (add_logger_to_children l) cs ls)"

definition get_logstream :: "string \<Rightarrow> logstream_factory \<Rightarrow> nat \<times> logstream_factory" where
  "get_logstream path f =
     (case find_node (split_path path path_delim) (root_node f) of (root, parent, pos) \<Rightarrow>
       (let node = node_at pos root;
            (logger, root, ls) =
              (case node_logger node of
                 Some l \<Rightarrow> (l, root, streams f)
               | None \<Rightarrow>
                   (let level = (if node_level node \<noteq> NONE then node_level node else default_level f);
                        buf = (case node_buf node of Some b \<Rightarrow> Some b | None \<Rightarrow> default_rdbuf f);
                        p = (case parent of Some q \<Rightarrow> node_logger (node_at q root) | None \<Rightarrow> None);
                        l = length (streams f)
                    in (l, update_at pos (put_logger l) root, streams f @ [new_logstream path level buf p])))
        in (logger,
            f\<lparr>root_node := root, streams := fold (add_logger_to_children logger) (children (node_at pos root)) ls\<rparr>)))"

text \<open>The destructor deletes the nodes below a node before the node, and a node deletes its stream: the streams in the order of
  their end.\<close>

fun delete_tree :: "lnode \<Rightarrow> nat list" where
  "delete_tree (Lnode nm lg bf lv cs) = concat (map delete_tree cs) @ (case lg of Some l \<Rightarrow> [l] | None \<Rightarrow> [])"


section \<open>The tree as a map from paths to streams\<close>

fun well_named :: "lnode \<Rightarrow> bool" where
  "well_named (Lnode nm lg bf lv cs) \<longleftrightarrow> distinct (map node_name cs) \<and> (\<forall>c\<in>set cs. well_named c)"

fun logger_at :: "string list \<Rightarrow> lnode \<Rightarrow> nat option" where
  "logger_at [] n = node_logger n"
| "logger_at (s # ss) n =
     (let i = child_pos s (children n) in if i < length (children n) then logger_at ss (children n ! i) else None)"

fun located :: "string list \<Rightarrow> lnode \<Rightarrow> nat list \<Rightarrow> bool" where
  "located [] n is \<longleftrightarrow> is = []"
| "located (s # ss) n [] \<longleftrightarrow> False"
| "located (s # ss) n (i # is) \<longleftrightarrow> i < length (children n) \<and> child_pos s (children n) = i \<and> located ss (children n ! i) is"

lemma well_named_iff: "well_named n \<longleftrightarrow> distinct (map node_name (children n)) \<and> (\<forall>c\<in>set (children n). well_named c)"
  by (cases n) simp

lemma child_pos_names: "child_pos s cs = length (takeWhile (\<lambda>x. x \<noteq> s) (map node_name cs))"
  by (simp add: child_pos_def takeWhile_map comp_def)

lemma child_pos_le: "child_pos s cs \<le> length cs"
  by (simp add: child_pos_def length_takeWhile_le)

lemma child_pos_name: "child_pos s cs < length cs \<Longrightarrow> node_name (cs ! child_pos s cs) = s"
  unfolding child_pos_def using nth_length_takeWhile by blast

lemma child_pos_end: "child_pos s cs = length cs \<longleftrightarrow> s \<notin> node_name ` set cs"
proof -
  have "child_pos s cs = length cs \<longleftrightarrow> takeWhile (\<lambda>c. node_name c \<noteq> s) cs = cs"
    unfolding child_pos_def
    by (metis append_Nil2 append_eq_conv_conj takeWhile_eq_take)
  also have "\<dots> \<longleftrightarrow> s \<notin> node_name ` set cs" by (auto simp: takeWhile_eq_all_conv)
  finally show ?thesis .
qed

lemma child_pos_append: "child_pos s (cs @ ds) = (if child_pos s cs < length cs then child_pos s cs else length cs + child_pos s ds)"
proof (cases "\<exists>c\<in>set cs. node_name c = s")
  case True
  then have "child_pos s cs < length cs" using child_pos_end[of s cs] child_pos_le[of s cs] by force
  moreover have "child_pos s (cs @ ds) = child_pos s cs"
    using True by (auto simp: child_pos_def takeWhile_append1)
  ultimately show ?thesis by simp
next
  case False
  then have e: "child_pos s cs = length cs" using child_pos_end[of s cs] by auto
  have "takeWhile (\<lambda>c. node_name c \<noteq> s) (cs @ ds) = cs @ takeWhile (\<lambda>c. node_name c \<noteq> s) ds"
    using False by (intro takeWhile_append2) auto
  then have "child_pos s (cs @ ds) = length cs + child_pos s ds" by (simp add: child_pos_def)
  then show ?thesis using e by simp
qed

lemma child_pos_distinct:
  assumes "distinct (map node_name cs)" "i < length cs"
  shows "child_pos (node_name (cs ! i)) cs = i"
proof -
  let ?j = "child_pos (node_name (cs ! i)) cs"
  have "?j < length cs" using child_pos_end[of "node_name (cs ! i)" cs] child_pos_le[of "node_name (cs ! i)" cs] assms(2) by force
  then show ?thesis
    using child_pos_name[of "node_name (cs ! i)" cs] assms by (metis distinct_conv_nth length_map nth_map)
qed

lemma names_update: "node_name c = node_name (cs ! i) \<Longrightarrow> i < length cs \<Longrightarrow> map node_name (cs[i := c]) = map node_name cs"
  by (metis list_update_id map_update)

lemma child_pos_update: "node_name c = node_name (cs ! i) \<Longrightarrow> i < length cs \<Longrightarrow> child_pos s (cs[i := c]) = child_pos s cs"
  by (simp only: child_pos_names names_update)

lemma logger_at_leaf: "logger_at q (new_node s) = None"
  by (cases q) (simp_all add: new_node_def Let_def)

lemma located_logger: "located p n is \<Longrightarrow> logger_at (p @ q) n = logger_at q (node_at is n)"
  by (induction p n "is" rule: located.induct) (auto simp: Let_def)

lemma located_update:
  assumes "\<And>m. node_name (f m) = node_name m"
  shows "located p n is \<Longrightarrow>
    logger_at q (update_at is f n) = (if prefix p q then logger_at (drop (length p) q) (f (node_at is n)) else logger_at q n)
    \<and> node_name (update_at is f n) = node_name n"
proof (induction p n "is" arbitrary: q rule: located.induct)
  case (1 n "is")
  then show ?case by (simp add: assms)
next
  case (2 s ss n)
  then show ?case by simp
next
  case (3 s ss n i "is")
  have l: "i < length (children n)" "child_pos s (children n) = i" "located ss (children n ! i) is" using 3 by auto
  let ?c = "update_at is f (children n ! i)"
  have nm: "node_name ?c = node_name (children n ! i)" using 3(1)[OF l(3)] by blast
  show ?case
  proof (cases q)
    case Nil
    then show ?thesis by simp
  next
    case (Cons t ts)
    have t: "child_pos t (children n) = i \<longleftrightarrow> t = s" using l(1,2) child_pos_name by metis
    have ih: "logger_at ts ?c =
        (if prefix ss ts then logger_at (drop (length ss) ts) (f (node_at is (children n ! i))) else logger_at ts (children n ! i))"
      using 3(1)[OF l(3), of ts] by blast
    have u: "logger_at q (update_at (i # is) f n) =
        (let j = child_pos t (children n) in if j < length (children n) then logger_at ts ((children n)[i := ?c] ! j) else None)"
      unfolding Cons by (simp add: child_pos_update[OF nm l(1)] Let_def)
    show ?thesis
    proof (cases "t = s")
      case True
      then show ?thesis using t l ih u unfolding Cons by (simp add: Let_def)
    next
      case False
      then show ?thesis using t l u unfolding Cons by (simp add: Let_def)
    qed
  qed
qed

lemma located_put_logger:
  assumes "located p n is"
  shows "logger_at q (update_at is (put_logger l) n) = (if q = p then Some l else logger_at q n)"
proof -
  have "logger_at r (put_logger l m) = (if r = [] then Some l else logger_at r m)" for r m
    by (cases r) (simp_all add: put_logger_def Let_def)
  then show ?thesis
    using located_update[of "put_logger l", OF _ assms, of q] located_logger[OF assms]
    by (auto simp: put_logger_def prefix_def)
qed

lemma located_put_other:
  assumes "located p n is" "\<And>m. node_name (f m) = node_name m" "\<And>m. node_logger (f m) = node_logger m"
    "\<And>m. children (f m) = children m"
  shows "logger_at q (update_at is f n) = logger_at q n"
proof -
  have "logger_at r (f m) = logger_at r m" for r m
    using assms by (cases r) (simp_all add: Let_def)
  then show ?thesis
    using located_update[of f, OF assms(2) assms(1), of q] located_logger[OF assms(1)] by (auto simp: prefix_def)
qed

lemma update_at_well_named:
  assumes "\<And>m. node_name (f m) = node_name m" "\<And>m. children (f m) = children m"
  shows "located p n is \<Longrightarrow> well_named n \<Longrightarrow> well_named (update_at is f n)"
proof (induction p n "is" rule: located.induct)
  case (1 n "is")
  then show ?case using assms well_named_iff[of "f n"] well_named_iff[of n] by simp
next
  case (2 s ss n)
  then show ?case by simp
next
  case (3 s ss n i "is")
  have l: "i < length (children n)" "located ss (children n ! i) is" using 3(2) by simp_all
  have w: "well_named (children n ! i)" using 3(3) l(1) well_named_iff[of n] nth_mem by blast
  note c = l(1) 3(1)[OF l(2) w] l(2)
  have "map node_name ((children n)[i := update_at is f (children n ! i)]) = map node_name (children n)"
    using c(1) located_update[of f, OF assms(1) c(3)] by (intro names_update) auto
  then have "distinct (map node_name ((children n)[i := update_at is f (children n ! i)]))"
    using 3(3) by (simp add: well_named_iff[of n])
  moreover have "\<forall>m\<in>set ((children n)[i := update_at is f (children n ! i)]). well_named m"
    using 3(3) c(2) set_update_subset_insert[of "children n" i "update_at is f (children n ! i)"] by (auto simp: well_named_iff[of n])
  ultimately show ?case by simp
qed

text \<open>The nearest node above a path that has a stream.\<close>

definition last_logged :: "string list \<Rightarrow> lnode \<Rightarrow> nat \<Rightarrow> bool" where
  "last_logged p n k \<longleftrightarrow> 0 < k \<and> k \<le> length p \<and> logger_at (take k p) n \<noteq> None \<and>
     (\<forall>j. k < j \<and> j \<le> length p \<longrightarrow> logger_at (take j p) n = None)"

lemma find_node_spec:
  assumes "find_node p n = (n', par, is)"
  shows "located p n' is \<and> (\<forall>q. logger_at q n' = logger_at q n) \<and> (well_named n \<longrightarrow> well_named n') \<and> node_name n' = node_name n \<and>
    (case par of
       None \<Rightarrow> \<forall>k. 0 < k \<and> k \<le> length p \<longrightarrow> logger_at (take k p) n = None
     | Some q \<Rightarrow> \<exists>k. last_logged p n k \<and> node_logger (node_at q n') = logger_at (take k p) n)"
  using assms
proof (induction p n arbitrary: n' par "is" rule: find_node.induct)
  case (1 n)
  then show ?case by auto
next
  case (2 s ss n)
  define i where "i = child_pos s (children n)"
  define cs where "cs = (if i = length (children n) then children n @ [new_node s] else children n)"
  obtain c q js where f: "find_node ss (cs ! i) = (c, q, js)" by (metis surj_pair)
  have r: "n' = Lnode (node_name n) (node_logger n) (node_buf n) (node_level n) (cs[i := c])" "is = i # js"
    "par = (case q of Some r \<Rightarrow> Some (i # r) | None \<Rightarrow> if node_logger (cs ! i) \<noteq> None then Some [i] else None)"
    using 2(2) f unfolding i_def [symmetric] by (auto simp: Let_def i_def [symmetric] cs_def [symmetric] split: option.splits)
  have i: "i < length cs" using child_pos_le[of s "children n"] by (auto simp: i_def cs_def)
  have c: "located ss c js" "\<And>q. logger_at q c = logger_at q (cs ! i)" "well_named (cs ! i) \<Longrightarrow> well_named c"
      "node_name c = node_name (cs ! i)"
    "case q of None \<Rightarrow> \<forall>k. 0 < k \<and> k \<le> length ss \<longrightarrow> logger_at (take k ss) (cs ! i) = None
     | Some r \<Rightarrow> \<exists>k. last_logged ss (cs ! i) k \<and> node_logger (node_at r c) = logger_at (take k ss) (cs ! i)"
    using 2(1)[OF i_def _ f] by (auto simp: i_def cs_def)
  have pos: "child_pos s cs = i" using i child_pos_le[of s "children n"]
    by (auto simp: cs_def i_def child_pos_append new_node_def child_pos_def[of s "[_]"])
  have pos': "child_pos t (cs[i := c]) = child_pos t cs" for t using child_pos_update c(4) i by metis
  have old: "logger_at (t # ts) n = (let j = child_pos t cs in if j < length cs then logger_at ts (cs ! j) else None)" for t ts
  proof (cases "i = length (children n)")
    case False
    then have "cs = children n" by (simp add: cs_def)
    then show ?thesis by (simp add: Let_def)
  next
    case True
    have "child_pos t (children n) \<le> length (children n)" by (rule child_pos_le)
    then show ?thesis using True
      by (auto simp: cs_def Let_def child_pos_append nth_append logger_at_leaf child_pos_def[of t "[_]"])
  qed
  have lg: "logger_at r n' = logger_at r n" for r
  proof (cases r)
    case (Cons t ts)
    show ?thesis unfolding Cons old r(1) using c(2)[of ts] i by (auto simp: Let_def pos' nth_list_update)
  qed (simp add: r(1))
  have at: "logger_at (s # ts) n = logger_at ts (cs ! i)" for ts using old[of s ts] pos i by (simp add: Let_def)
  have up: "logger_at (take (Suc k) (s # ss)) n = logger_at (take k ss) (cs ! i)" for k using at by simp
  have "well_named n'" if "well_named n"
  proof -
    have d: "distinct (map node_name cs)" "\<forall>x\<in>set cs. well_named x"
      using that child_pos_end[of s "children n"] by (auto simp: well_named_iff[of n] cs_def i_def new_node_def)
    have "map node_name (cs[i := c]) = map node_name cs" using c(4) i by (rule names_update)
    then show ?thesis using d c(3) i set_update_subset_insert[of cs i c] by (auto simp: r(1))
  qed
  moreover have "located (s # ss) n' is" using i c(1) pos pos' by (simp add: r)
  moreover have "case par of
       None \<Rightarrow> \<forall>k. 0 < k \<and> k \<le> length (s # ss) \<longrightarrow> logger_at (take k (s # ss)) n = None
     | Some q \<Rightarrow> \<exists>k. last_logged (s # ss) n k \<and> node_logger (node_at q n') = logger_at (take k (s # ss)) n"
  proof (cases q)
    case (Some r)
    then obtain k where k: "last_logged ss (cs ! i) k" "node_logger (node_at r c) = logger_at (take k ss) (cs ! i)" using c(5) by auto
    have "logger_at (take j (s # ss)) n = None" if "Suc k < j" "j \<le> length (s # ss)" for j
      using that k(1) at by (cases j) (auto simp: last_logged_def)
    then have "last_logged (s # ss) n (Suc k)"
      using k(1) at[of "take k ss"] unfolding last_logged_def by auto
    then show ?thesis using Some k(2) i at[of "take k ss"] by (auto simp: r(1,3) intro!: exI[of _ "Suc k"])
  next
    case None
    then have z: "logger_at (take k ss) (cs ! i) = None" if "0 < k" "k \<le> length ss" for k using c(5) that by auto
    show ?thesis
    proof (cases "node_logger (cs ! i)")
      case N: None
      have "logger_at (take k (s # ss)) n = None" if "0 < k" "k \<le> length (s # ss)" for k
        using that z at N by (cases k) (auto split: nat.splits, metis gr0I logger_at.simps(1) take0)
      then show ?thesis using None N by (simp add: r(3))
    next
      case (Some l)
      have "last_logged (s # ss) n 1"
        using z at Some by (auto simp: last_logged_def take_Cons' )
      then show ?thesis using None Some i c(2)[of "[]"] at[of "[]"] by (auto simp: r(1,3) intro!: exI[of _ 1])
    qed
  qed
  ultimately show ?case using lg by (simp add: r(1))
qed


section \<open>The streams below a node\<close>

fun top_loggers :: "lnode \<Rightarrow> nat list" where
  "top_loggers (Lnode nm lg bf lv cs) = (case lg of Some c \<Rightarrow> [c] | None \<Rightarrow> concat (map top_loggers cs))"

lemma add_logger_tops: "add_logger_to_children l n ls = fold (put_parent (Some l)) (top_loggers n) ls"
proof (induction n arbitrary: ls)
  case (Lnode nm lg bf lv cs)
  have "fold (add_logger_to_children l) cs ls = fold (put_parent (Some l)) (concat (map top_loggers cs)) ls" for ls
    using Lnode by (induction cs arbitrary: ls) simp_all
  then show ?case by (simp split: option.splits)
qed

lemma fold_add_logger:
  "fold (add_logger_to_children l) cs ls = fold (put_parent (Some l)) (concat (map top_loggers cs)) ls"
  by (induction cs arbitrary: ls) (simp_all add: add_logger_tops)

lemma fold_put_parent:
  "length (fold (put_parent p) xs ls) = length ls \<and>
   (i < length ls \<longrightarrow> fold (put_parent p) xs ls ! i = (if i \<in> set xs then (ls ! i)\<lparr>stream_parent := p\<rparr> else ls ! i))"
proof (induction xs arbitrary: ls)
  case (Cons x xs)
  have "i < length ls \<Longrightarrow> put_parent p x ls ! i = (if i = x then (ls ! i)\<lparr>stream_parent := p\<rparr> else ls ! i)"
    "length (put_parent p x ls) = length ls"
    by (simp_all add: put_parent_def nth_list_update)
  then show ?case using Cons[of "put_parent p x ls"] by auto
qed simp

lemma top_loggers_iff:
  "well_named n \<Longrightarrow> x \<in> set (top_loggers n) \<longleftrightarrow>
     (\<exists>q. logger_at q n = Some x \<and> (\<forall>k<length q. logger_at (take k q) n = None))"
proof (induction n)
  case (Lnode nm lg bf lv cs)
  let ?n = "Lnode nm lg bf lv cs"
  show ?case
  proof (cases lg)
    case (Some c)
    then have "q = []" if "\<forall>k<length q. logger_at (take k q) ?n = None" for q
      using that by (cases q) (auto dest: spec[of _ 0])
    then show ?thesis using Some by (force intro: exI[of _ "[]"])
  next
    case None
    have d: "distinct (map node_name cs)" "\<And>c. c \<in> set cs \<Longrightarrow> well_named c" using Lnode(2) by auto
    have step: "logger_at (s # q) ?n = logger_at q (cs ! i)" if "i < length cs" "child_pos s cs = i" for s q i
      using that by (simp add: Let_def)
    have walk: "(\<forall>k<length (s # q). logger_at (take k (s # q)) ?n = None) \<longleftrightarrow> (\<forall>k<length q. logger_at (take k q) (cs ! i) = None)"
      if "i < length cs" "child_pos s cs = i" for s q i
    proof -
      have "logger_at (take (Suc k) (s # q)) ?n = logger_at (take k q) (cs ! i)" for k using step[OF that, of "take k q"] by simp
      moreover have "logger_at (take 0 (s # q)) ?n = None" using None by simp
      ultimately show ?thesis by (metis Suc_less_eq length_Cons not0_implies_Suc zero_less_Suc)
    qed
    show ?thesis
    proof
      assume "x \<in> set (top_loggers ?n)"
      then obtain c where "c \<in> set cs" "x \<in> set (top_loggers c)" using None by auto
      then obtain i where i: "i < length cs" "x \<in> set (top_loggers (cs ! i))" by (metis in_set_conv_nth)
      then obtain q where q: "logger_at q (cs ! i) = Some x" "\<forall>k<length q. logger_at (take k q) (cs ! i) = None"
        using Lnode(1)[of "cs ! i"] d(2) by auto
      have p: "child_pos (node_name (cs ! i)) cs = i" using child_pos_distinct d(1) i(1) by blast
      show "\<exists>q. logger_at q ?n = Some x \<and> (\<forall>k<length q. logger_at (take k q) ?n = None)"
      proof (rule exI[of _ "node_name (cs ! i) # q"], rule conjI)
        show "logger_at (node_name (cs ! i) # q) ?n = Some x" using step[OF i(1) p, of q] q(1) by (rule trans)
        show "\<forall>k<length (node_name (cs ! i) # q). logger_at (take k (node_name (cs ! i) # q)) ?n = None"
          using walk[OF i(1) p, of q] q(2) by (rule iffD2)
      qed
    next
      assume "\<exists>q. logger_at q ?n = Some x \<and> (\<forall>k<length q. logger_at (take k q) ?n = None)"
      then obtain q where q: "logger_at q ?n = Some x" "\<forall>k<length q. logger_at (take k q) ?n = None" by blast
      then obtain s r where r: "q = s # r" using None by (cases q) auto
      define i where "i = child_pos s cs"
      have i: "i < length cs" using q(1) unfolding r i_def by (auto simp: Let_def split: if_splits)
      have "logger_at r (cs ! i) = Some x" "\<forall>k<length r. logger_at (take k r) (cs ! i) = None"
        using q step[OF i i_def[symmetric]] walk[OF i i_def[symmetric]] unfolding r by metis+
      then have "x \<in> set (top_loggers (cs ! i))" using Lnode(1)[of "cs ! i"] d(2) i by auto
      then show "x \<in> set (top_loggers ?n)" using None i by auto
    qed
  qed
qed

lemma located_well_named: "located p n is \<Longrightarrow> well_named n \<Longrightarrow> well_named (node_at is n)"
proof (induction p n "is" rule: located.induct)
  case (3 s ss n i "is")
  have "well_named (children n ! i)" using 3(2,3) well_named_iff[of n] nth_mem by auto
  then show ?case using 3 by simp
qed simp_all

lemma node_at_update: "located p n is \<Longrightarrow> node_at is (update_at is f n) = f (node_at is n)"
  by (induction p n "is" rule: located.induct) simp_all

lemma children_tops:
  assumes "located p n is" "well_named n"
  shows "x \<in> set (concat (map top_loggers (children (node_at is n)))) \<longleftrightarrow>
    (\<exists>q. q \<noteq> [] \<and> logger_at (p @ q) n = Some x \<and> (\<forall>k. 0 < k \<and> k < length q \<longrightarrow> logger_at (p @ take k q) n = None))"
proof -
  let ?m = "node_at is n"
  let ?b = "Lnode (node_name ?m) None (node_buf ?m) (node_level ?m) (children ?m)"
  have b: "logger_at q ?b = (if q = [] then None else logger_at (p @ q) n)" for q
    using located_logger[OF assms(1), of q] by (cases q) (simp_all add: Let_def)
  have "well_named ?b" using located_well_named[OF assms] well_named_iff[of ?m] by simp
  then have "x \<in> set (top_loggers ?b) \<longleftrightarrow> (\<exists>q. logger_at q ?b = Some x \<and> (\<forall>k<length q. logger_at (take k q) ?b = None))"
    by (rule top_loggers_iff)
  also have "\<dots> \<longleftrightarrow> (\<exists>q. q \<noteq> [] \<and> logger_at (p @ q) n = Some x \<and> (\<forall>k. 0 < k \<and> k < length q \<longrightarrow> logger_at (p @ take k q) n = None))"
    unfolding b by (rule ex_cong1) auto
  finally show ?thesis by simp
qed

section \<open>The streams as the requested paths\<close>

definition reg_pos :: "string list list \<Rightarrow> string list \<Rightarrow> nat" where
  "reg_pos reg p = length (takeWhile (\<lambda>q. q \<noteq> p) reg)"

fun nearest_below :: "string list list \<Rightarrow> string list \<Rightarrow> nat \<Rightarrow> string list option" where
  "nearest_below reg p 0 = None"
| "nearest_below reg p (Suc n) = (if take n p \<in> set reg then Some (take n p) else nearest_below reg p n)"

definition nearest :: "string list list \<Rightarrow> string list \<Rightarrow> string list option" where
  "nearest reg p = nearest_below reg p (length p)"

lemma reg_pos_nth: "p \<in> set reg \<Longrightarrow> reg_pos reg p < length reg \<and> reg ! reg_pos reg p = p"
proof -
  assume "p \<in> set reg"
  then have "takeWhile (\<lambda>q. q \<noteq> p) reg \<noteq> reg" by (auto simp: takeWhile_eq_all_conv)
  then have "length (takeWhile (\<lambda>q. q \<noteq> p) reg) < length reg"
    by (metis le_neq_implies_less length_takeWhile_le take_all_iff takeWhile_eq_take)
  then show ?thesis using nth_length_takeWhile by (fastforce simp: reg_pos_def)
qed

lemma reg_pos_distinct: "distinct reg \<Longrightarrow> i < length reg \<Longrightarrow> reg_pos reg (reg ! i) = i"
  using reg_pos_nth by (metis nth_eq_iff_index_eq nth_mem)

lemma reg_pos_append: "p \<in> set reg \<Longrightarrow> reg_pos (reg @ xs) p = reg_pos reg p"
  by (simp add: reg_pos_def takeWhile_append1)

lemma reg_pos_new: "p \<notin> set reg \<Longrightarrow> reg_pos (reg @ [p]) p = length reg"
  unfolding reg_pos_def by (subst takeWhile_append2) auto

lemma nearest_below_iff:
  "n \<le> length p \<Longrightarrow> nearest_below reg p n = Some q \<longleftrightarrow>
    (\<exists>k<n. q = take k p \<and> take k p \<in> set reg \<and> (\<forall>j. k < j \<and> j < n \<longrightarrow> take j p \<notin> set reg))"
  by (induction n) (auto simp: less_Suc_eq)

lemma nearest_below_None: "nearest_below reg p n = None \<longleftrightarrow> (\<forall>k<n. take k p \<notin> set reg)"
  by (induction n) (auto simp: less_Suc_eq)

lemmas nearest_iff = nearest_below_iff[OF order.refl, folded nearest_def]
lemmas nearest_None = nearest_below_None[of _ p "length p" for p, folded nearest_def]

lemma nearest_member: "nearest reg p = Some q \<Longrightarrow> q \<in> set reg"
  by (auto simp: nearest_iff)

lemma nearest_extend: "nearest (reg @ [p]) r = Some p \<or> nearest (reg @ [p]) r = nearest reg r"
proof -
  have "nearest_below (reg @ [p]) r n = Some p \<or> nearest_below (reg @ [p]) r n = nearest_below reg r n" for n
    by (induction n) auto
  then show ?thesis by (simp add: nearest_def)
qed

lemma nearest_self: "nearest (reg @ [p]) p = nearest reg p"
proof -
  have "n \<le> length p \<Longrightarrow> nearest_below (reg @ [p]) p n = nearest_below reg p n" for n
    by (induction n) (auto dest: arg_cong[of _ _ length])
  then show ?thesis by (simp add: nearest_def)
qed

lemma nearest_eq_iff:
  assumes "p \<in> set reg"
  shows "nearest reg r = Some p \<longleftrightarrow> (\<exists>q. q \<noteq> [] \<and> r = p @ q \<and> (\<forall>k. 0 < k \<and> k < length q \<longrightarrow> p @ take k q \<notin> set reg))"
proof
  assume "nearest reg r = Some p"
  then obtain k where k: "k < length r" "p = take k r" "\<forall>j. k < j \<and> j < length r \<longrightarrow> take j r \<notin> set reg"
    by (auto simp: nearest_iff)
  have "p @ take j (drop k r) = take (k + j) r" for j using k(2) by (simp add: take_add)
  then show "\<exists>q. q \<noteq> [] \<and> r = p @ q \<and> (\<forall>k. 0 < k \<and> k < length q \<longrightarrow> p @ take k q \<notin> set reg)"
    using k by (intro exI[of _ "drop k r"]) auto
next
  assume "\<exists>q. q \<noteq> [] \<and> r = p @ q \<and> (\<forall>k. 0 < k \<and> k < length q \<longrightarrow> p @ take k q \<notin> set reg)"
  then obtain q where q: "q \<noteq> []" "r = p @ q" "\<And>k. 0 < k \<Longrightarrow> k < length q \<Longrightarrow> p @ take k q \<notin> set reg" by blast
  have "take j r \<notin> set reg" if "length p < j" "j < length r" for j
    using q(3)[of "j - length p"] that q(2) by simp
  then show "nearest reg r = Some p"
    unfolding nearest_iff using q assms by (intro exI[of _ "length p"]) auto
qed


section \<open>Paths\<close>

fun join_path :: "char \<Rightarrow> string list \<Rightarrow> string" where
  "join_path c [] = []"
| "join_path c [s] = s"
| "join_path c (s # ss) = s @ c # join_path c ss"

lemma join_path_append: "ss \<noteq> [] \<Longrightarrow> join_path c (ss @ [s]) = join_path c ss @ c # s"
  by (induction c ss rule: join_path.induct) (auto simp: neq_Nil_conv)

lemma find_char_None: "find_char s c i = None \<Longrightarrow> c \<notin> set (drop i s)"
  by (auto simp: find_char_def find_None_iff in_set_conv_nth dest!: bspec[of _ _ "i + _"])

lemma find_char_least: "find_char s c i = Some p \<Longrightarrow> c \<notin> set (take (p - i) (drop i s))"
proof -
  assume a: "find_char s c i = Some p"
  then obtain k where k: "k < length [i..<length s]" "p = [i..<length s] ! k" "\<forall>j<k. s ! ([i..<length s] ! j) \<noteq> c"
    by (auto simp: find_char_def find_Some_iff)
  then have "p - i = k" "i + k < length s" by simp_all
  then show ?thesis using k(3) by (auto simp: in_set_conv_nth)
qed

text \<open>A path is what its names are joined to, and no name has the delimiter in it.\<close>

lemma split_loop_spec:
  assumes "cur = find_char s c start" "start \<le> length s" "v = [] \<longleftrightarrow> start = 0" "v \<noteq> [] \<Longrightarrow> join_path c v @ [c] = take start s"
    "\<And>x. x \<in> set v \<Longrightarrow> c \<notin> set x"
  shows "split_loop s c start cur v \<noteq> [] \<and> join_path c (split_loop s c start cur v) = s \<and>
    (\<forall>x\<in>set (split_loop s c start cur v). c \<notin> set x)"
  using assms
proof (induction s c start cur v rule: split_loop.induct)
  case (1 s c start cur v)
  show ?case
  proof (cases cur)
    case None
    have "join_path c (v @ [drop start s]) = s"
    proof (cases "v = []")
      case False
      then have "join_path c (v @ [drop start s]) = (join_path c v @ [c]) @ drop start s" by (simp add: join_path_append)
      then show ?thesis using 1(5)[OF False] by simp
    qed (use 1(4) in simp)
    moreover have "split_loop s c start cur v = v @ [drop start s]" using None by (subst split_loop.simps) simp
    ultimately show ?thesis using None 1(2,6) find_char_None[of s c start] by auto
  next
    case (Some p)
    have p: "start \<le> p" "p < length s" "s ! p = c" using find_char_SomeD[of s c start p] 1(2) Some by auto
    let ?w = "take (p - start) (drop start s)"
    have w: "take start s @ ?w = take p s" using p by (metis le_add_diff_inverse take_add)
    have j: "join_path c (v @ [?w]) @ [c] = take (Suc p) s"
    proof (cases "v = []")
      case True
      then show ?thesis using 1(4) p by (simp add: take_Suc_conv_app_nth)
    next
      case False
      have "join_path c (v @ [?w]) @ [c] = (join_path c v @ [c]) @ ?w @ [c]" using False by (simp add: join_path_append)
      then show ?thesis using 1(5)[OF False] w p by (simp add: take_Suc_conv_app_nth)
    qed
    have "c \<notin> set ?w" using find_char_least 1(2) Some by metis
    moreover have "split_loop s c start cur v = split_loop s c (Suc p) (find_char s c (Suc p)) (v @ [?w])"
      using Some by (subst split_loop.simps) simp
    ultimately show ?thesis using 1(1)[OF Some refl] 1(6) p(2) j by auto
  qed
qed

lemma split_path_spec:
  "split_path s c \<noteq> [] \<and> join_path c (split_path s c) = s \<and> (\<forall>x\<in>set (split_path s c). c \<notin> set x)"
  unfolding split_path_def by (rule split_loop_spec) simp_all

section \<open>Sequences of operations\<close>

datatype factory_op =
    Get string
  | Set_level string log_level
  | Set_buffer string "nat option"
  | Set_default "nat option"

fun run_op :: "factory_op \<Rightarrow> logstream_factory \<Rightarrow> logstream_factory" where
  "run_op (Get path) f = snd (get_logstream path f)"
| "run_op (Set_level path v) f = snd (set_log_level path v f)"
| "run_op (Set_buffer path b) f = snd (set_buffer path b f)"
| "run_op (Set_default b) f = set_default_buffer b f"

fun request :: "factory_op \<Rightarrow> string list list \<Rightarrow> string list list" where
  "request (Get path) reg = (if split_path path path_delim \<in> set reg then reg else reg @ [split_path path path_delim])"
| "request _ reg = reg"

definition requested :: "factory_op list \<Rightarrow> string list list" where
  "requested ops = fold request ops []"

definition follows :: "string list list \<Rightarrow> logstream_factory \<Rightarrow> bool" where
  "follows reg f \<longleftrightarrow> distinct reg \<and> [] \<notin> set reg \<and> length (streams f) = length reg \<and> well_named (root_node f) \<and>
     (\<forall>q. logger_at q (root_node f) = (if q \<in> set reg then Some (reg_pos reg q) else None)) \<and>
     (\<forall>i<length reg. stream_parent (streams f ! i) = map_option (reg_pos reg) (nearest reg (reg ! i)) \<and>
        split_path (stream_name (streams f ! i)) path_delim = reg ! i)"

lemma follows_new: "follows [] (new_factory clog b v)"
  by (simp add: follows_def new_factory_def logger_at_leaf) (simp add: new_node_def)

lemma follows_put:
  assumes "follows reg f" "find_node p (root_node f) = (root, par, pos)" "\<And>m. node_name (g m) = node_name m"
    "\<And>m. node_logger (g m) = node_logger m" "\<And>m. children (g m) = children m"
  shows "follows reg (f\<lparr>root_node := update_at pos g root\<rparr>)"
proof -
  have s: "located p root pos" "\<And>q. logger_at q root = logger_at q (root_node f)" "well_named (root_node f) \<Longrightarrow> well_named root"
    using find_node_spec[OF assms(2)] by blast+
  show ?thesis
    using assms(1) s located_put_other[OF s(1) assms(3-5)] update_at_well_named[of g, OF assms(3,5) s(1)]
    by (simp add: follows_def)
qed

lemma follows_set_level:
  assumes "follows reg f"
  shows "follows reg (snd (set_log_level path v f))"
proof -
  obtain root par pos where r: "find_node (split_path path path_delim) (root_node f) = (root, par, pos)" by (metis surj_pair)
  have "follows reg (f\<lparr>root_node := update_at pos (put_level v) root\<rparr>)"
    by (rule follows_put[OF assms r]) (simp_all add: put_level_def)
  moreover have "follows reg (g\<lparr>streams := (streams g)[l := (streams g ! l)\<lparr>stream_level := v\<rparr>]\<rparr>)" if "follows reg g" for g l
  proof (cases "l < length (streams g)")
    case True
    let ?s = "(streams g)[l := (streams g ! l)\<lparr>stream_level := v\<rparr>]"
    have "stream_parent (?s ! i) = stream_parent (streams g ! i) \<and> stream_name (?s ! i) = stream_name (streams g ! i)" for i
      using True by (simp add: nth_list_update)
    then show ?thesis using that by (simp add: follows_def)
  next
    case False
    then show ?thesis using that by (simp add: list_update_beyond)
  qed
  ultimately show ?thesis by (fastforce simp: set_log_level_def r Let_def split: option.splits)
qed

lemma follows_others:
  assumes "follows reg f"
  shows "follows reg (snd (set_buffer path b f))" "follows reg (set_default_buffer b f)"
proof -
  obtain root par pos where r: "find_node (split_path path path_delim) (root_node f) = (root, par, pos)" by (metis surj_pair)
  show "follows reg (snd (set_buffer path b f))"
    unfolding set_buffer_def r by simp (rule follows_put[OF assms r], simp_all add: put_buf_def)
  show "follows reg (set_default_buffer b f)" using assms by (simp add: follows_def set_default_buffer_def)
qed


lemma follows_get:
  assumes "follows reg f"
  shows "follows (request (Get path) reg) (snd (get_logstream path f)) \<and>
    fst (get_logstream path f) = reg_pos (request (Get path) reg) (split_path path path_delim)"
proof -
  define p where "p = split_path path path_delim"
  define reg' where "reg' = request (Get path) reg"
  have reg': "reg' = (if p \<in> set reg then reg else reg @ [p])" by (simp add: reg'_def p_def)
  have pin: "p \<in> set reg'" by (simp add: reg')
  have pne: "p \<noteq> []" using split_path_spec by (simp add: p_def)
  have F: "distinct reg" "[] \<notin> set reg" "length (streams f) = length reg" "well_named (root_node f)"
    "\<And>q. logger_at q (root_node f) = (if q \<in> set reg then Some (reg_pos reg q) else None)"
    "\<And>i. i < length reg \<Longrightarrow> stream_parent (streams f ! i) = map_option (reg_pos reg) (nearest reg (reg ! i))"
    "\<And>i. i < length reg \<Longrightarrow> split_path (stream_name (streams f ! i)) path_delim = reg ! i"
    using assms by (auto simp: follows_def)
  obtain root par pos where r: "find_node p (root_node f) = (root, par, pos)" by (metis surj_pair)
  have s: "located p root pos" "\<And>q. logger_at q root = logger_at q (root_node f)" "well_named root"
    "case par of None \<Rightarrow> \<forall>k. 0 < k \<and> k \<le> length p \<longrightarrow> logger_at (take k p) (root_node f) = None
     | Some q \<Rightarrow> \<exists>k. last_logged p (root_node f) k \<and> node_logger (node_at q root) = logger_at (take k p) (root_node f)"
    using find_node_spec[OF r] F(4) by blast+
  have at: "node_logger (node_at pos root) = (if p \<in> set reg then Some (reg_pos reg p) else None)"
    using located_logger[OF s(1), of "[]"] s(2) F(5) by simp
  have d': "distinct reg'" "[] \<notin> set reg'" using F(1,2) pne by (auto simp: reg')
  define l where "l = reg_pos reg' p"
  define root' where "root' = (if p \<in> set reg then root else update_at pos (put_logger l) root)"
  have lnew: "p \<notin> set reg \<Longrightarrow> l = length reg" by (simp add: l_def reg' reg_pos_new)
  define q where "q = (case par of Some q \<Rightarrow> node_logger (node_at q root) | None \<Rightarrow> None)"
  have q: "q = map_option (reg_pos reg) (nearest reg p)" if "p \<notin> set reg"
  proof (cases par)
    case None
    then have "take k p \<notin> set reg" if "k < length p" for k using s(4) F(2) F(5)[of "take k p"] that by (cases k) auto
    then have "nearest reg p = None" by (simp add: nearest_None)
    then show ?thesis using None by (simp add: q_def)
  next
    case (Some a)
    then obtain k where k: "last_logged p (root_node f) k" "node_logger (node_at a root) = logger_at (take k p) (root_node f)"
      using s(4) by auto
    then have "k < length p" "take k p \<in> set reg" using that by (auto simp: last_logged_def F(5) split: if_splits intro: le_neq_implies_less)
    moreover have "take j p \<notin> set reg" if "k < j" "j < length p" for j
      using k(1) that F(5)[of "take j p"] by (auto simp: last_logged_def split: if_splits)
    ultimately have "nearest reg p = Some (take k p)" unfolding nearest_iff by blast
    then show ?thesis using Some k(2) F(5)[of "take k p"] \<open>take k p \<in> set reg\<close> by (simp add: q_def)
  qed
  define ls where "ls = (if p \<in> set reg then streams f else streams f @
    [new_logstream path (if node_level (node_at pos root) \<noteq> NONE then node_level (node_at pos root) else default_level f)
      (case node_buf (node_at pos root) of Some b \<Rightarrow> Some b | None \<Rightarrow> default_rdbuf f) q])"
  define ls' where "ls' = fold (add_logger_to_children l) (children (node_at pos root)) ls"
  have ch: "children (node_at pos root') = children (node_at pos root)"
    using node_at_update[OF s(1)] by (simp add: root'_def put_logger_def)
  have get: "get_logstream path f = (l, f\<lparr>root_node := root', streams := ls'\<rparr>)"
    unfolding get_logstream_def p_def [symmetric] r
    using at ch F(3) lnew by (auto simp: Let_def ls'_def ls_def root'_def q_def l_def reg' cong: option.case_cong)
  have W: "well_named root'"
    using s(3) update_at_well_named[OF _ _ s(1) s(3), of "put_logger l"] by (simp add: root'_def put_logger_def)
  have pos': "reg_pos reg' x = reg_pos reg x" if "x \<in> set reg" for x using that by (simp add: reg' reg_pos_append)
  have np: "map_option (reg_pos reg') (nearest reg x) = map_option (reg_pos reg) (nearest reg x)" for x
    using pos' nearest_member[of reg x] by (cases "nearest reg x") auto
  have L: "logger_at x root' = (if x \<in> set reg' then Some (reg_pos reg' x) else None)" for x
  proof (cases "p \<in> set reg")
    case True
    then show ?thesis using s(2) F(5) by (simp add: root'_def reg')
  next
    case False
    then show ?thesis using located_put_logger[OF s(1), of x l] s(2) F(5)[of x] pos'[of x] by (auto simp: root'_def reg' l_def)
  qed
  have tops: "i \<in> set (concat (map top_loggers (children (node_at pos root)))) \<longleftrightarrow> nearest reg' (reg' ! i) = Some p"
    if i: "i < length reg'" for i
  proof -
    have only: "x = reg' ! i" if "logger_at x root' = Some i" for x
      using that L[of x] reg_pos_nth[of x reg'] by (auto split: if_splits)
    have at_i: "logger_at (reg' ! i) root' = Some i" using i L d'(1) by (simp add: reg_pos_distinct)
    have ex: "logger_at (p @ y) root' = Some i \<longleftrightarrow> reg' ! i = p @ y" for y using only at_i by metis
    have same: "y \<noteq> [] \<Longrightarrow> logger_at (p @ y) root = logger_at (p @ y) root'" for y
      using located_put_logger[OF s(1)] by (simp add: root'_def)
    have free: "logger_at x root' = None \<longleftrightarrow> x \<notin> set reg'" for x using L by simp
    show ?thesis
      unfolding children_tops[OF s(1,3)] nearest_eq_iff[OF pin]
      by (rule ex_cong1) (auto simp: same ex free)
  qed
  have len: "length ls = length reg'" using F(3) by (simp add: ls_def reg')
  have "stream_parent (ls' ! i) = map_option (reg_pos reg') (nearest reg' (reg' ! i)) \<and>
      split_path (stream_name (ls' ! i)) path_delim = reg' ! i" if i: "i < length reg'" for i
  proof -
    have n: "ls' ! i = (if nearest reg' (reg' ! i) = Some p then (ls ! i)\<lparr>stream_parent := Some l\<rparr> else ls ! i)"
      unfolding ls'_def fold_add_logger using fold_put_parent[of "Some l" _ ls i] tops[OF i] i len by simp
    have old: "split_path (stream_name (ls ! i)) path_delim = reg' ! i \<and>
        (nearest reg' (reg' ! i) \<noteq> Some p \<longrightarrow> stream_parent (ls ! i) = map_option (reg_pos reg') (nearest reg' (reg' ! i)))"
    proof (cases "i < length reg")
      case True
      then have e: "ls ! i = streams f ! i" "reg' ! i = reg ! i" using F(3) by (auto simp: ls_def reg' nth_append)
      have "stream_parent (ls ! i) = map_option (reg_pos reg') (nearest reg' (reg' ! i))" if "nearest reg' (reg' ! i) \<noteq> Some p"
      proof -
        have m: "nearest reg' (reg ! i) = nearest reg (reg ! i)"
          using that e(2) nearest_extend[of reg p "reg ! i"] by (auto simp: reg')
        show ?thesis unfolding e m np by (rule F(6)[OF True])
      qed
      then show ?thesis using F(7)[OF True] e by simp
    next
      case False
      then have e: "p \<notin> set reg" "i = length reg" using i by (auto simp: reg' split: if_splits)
      then have "reg' ! i = p" "nearest reg' p = nearest reg p" using nearest_self by (auto simp: reg')
      moreover have "stream_parent (ls ! i) = q" "stream_name (ls ! i) = path"
        using e F(3)[symmetric] by (simp_all add: ls_def new_logstream_def)
      ultimately show ?thesis using q[OF e(1)] np[of p] by (simp add: p_def)
    qed
    show ?thesis using n old by (auto simp: l_def)
  qed
  then have "follows reg' (f\<lparr>root_node := root', streams := ls'\<rparr>)"
    using d' W L len fold_put_parent[of "Some l" _ ls] by (simp add: follows_def ls'_def fold_add_logger)
  then show ?thesis using get by (simp add: reg'_def l_def p_def)
qed

lemma follows_run: "follows reg f \<Longrightarrow> follows (fold request ops reg) (fold run_op ops f)"
proof (induction ops arbitrary: reg f)
  case (Cons x ops)
  have "follows (request x reg) (run_op x f)"
    using follows_get[OF Cons(2)] follows_set_level[OF Cons(2)] follows_others[OF Cons(2)] by (cases x) simp_all
  then show ?case using Cons(1) by simp
qed simp


section \<open>Messages\<close>

text \<open>The text of an entry with the name and the context of the stream, or another text.\<close>

datatype chunk = Entry string log_level string string nat string | Text string

record log_entry =
  entry_file :: string
  entry_function :: string
  entry_line :: nat
  entry_text :: string

text \<open>Nothing is written to a stream without a buffer.\<close>

definition put_chunk :: "logstream \<Rightarrow> chunk \<Rightarrow> (nat \<times> chunk) list \<Rightarrow> (nat \<times> chunk) list" where
  "put_chunk s c w = (case stream_buf s of None \<Rightarrow> w | Some b \<Rightarrow> w @ [(b, c)])"

definition empty_context :: "bool \<Rightarrow> cpp_fault" where
  "empty_context debug = (if debug then Assertion_failed else Undefined)"

definition msg_context :: "bool \<Rightarrow> logstream \<Rightarrow> log_level outcome" where
  "msg_context debug s = (case msgcontext s of [] \<Rightarrow> Inl (empty_context debug) | v # vs \<Rightarrow> Inr v)"

partial_function (option) push_context :: "nat \<Rightarrow> log_level \<Rightarrow> logstream list \<Rightarrow> logstream list option" where
  "push_context l v ls =
     (let ls = ls[l := (ls ! l)\<lparr>msgcontext := v # msgcontext (ls ! l)\<rparr>]
      in case stream_parent (ls ! l) of None \<Rightarrow> Some ls | Some p \<Rightarrow> push_context p v ls)"

partial_function (option) pop_context :: "bool \<Rightarrow> nat \<Rightarrow> logstream list \<Rightarrow> logstream list outcome option" where
  "pop_context debug l ls =
     (if msgcontext (ls ! l) = [] then Some (Inl (empty_context debug))
      else (let ls = ls[l := (ls ! l)\<lparr>msgcontext := tl (msgcontext (ls ! l))\<rparr>]
            in case stream_parent (ls ! l) of None \<Rightarrow> Some (Inr ls) | Some p \<Rightarrow> pop_context debug p ls))"

text \<open>A message goes to the parent first; \<open>chunk_of\<close> is what a stream writes.\<close>

partial_function (option) forward ::
    "bool \<Rightarrow> (logstream \<Rightarrow> log_level \<Rightarrow> chunk) \<Rightarrow> nat \<Rightarrow> logstream list \<Rightarrow> (nat \<times> chunk) list \<Rightarrow> (nat \<times> chunk) list outcome option" where
  "forward debug chunk_of l ls w =
     Option.bind (case stream_parent (ls ! l) of None \<Rightarrow> Some (Inr w) | Some p \<Rightarrow> forward debug chunk_of p ls w) (\<lambda>r.
     Some (and_then r (\<lambda>w.
     and_then (msg_context debug (ls ! l)) (\<lambda>v.
       Inr (if stream_level (ls ! l) \<le> v then put_chunk (ls ! l) (chunk_of (ls ! l) v) w else w)))))"

definition entry_chunk :: "log_entry \<Rightarrow> logstream \<Rightarrow> log_level \<Rightarrow> chunk" where
  "entry_chunk e s v = Entry (stream_name s) v (entry_file e) (entry_function e) (entry_line e) (entry_text e)"

text \<open>The manipulators of the context: a level to push, or nothing to pop.\<close>

definition apply_manip :: "bool \<Rightarrow> log_level option \<Rightarrow> nat \<Rightarrow> logstream list \<Rightarrow> logstream list outcome option" where
  "apply_manip debug m l ls =
     (case m of Some v \<Rightarrow> map_option Inr (push_context l v ls) | None \<Rightarrow> pop_context debug l ls)"

partial_function (option) send_manip ::
    "bool \<Rightarrow> log_level option \<Rightarrow> nat \<Rightarrow> logstream list \<Rightarrow> logstream list outcome option" where
  "send_manip debug m l ls =
     Option.bind (case stream_parent (ls ! l) of None \<Rightarrow> Some (Inr ls) | Some p \<Rightarrow> send_manip debug m p ls) (\<lambda>r.
     case r of Inl e \<Rightarrow> Some (Inl e) | Inr ls \<Rightarrow> apply_manip debug m l ls)"

text \<open>
  The macros push a context, send an entry without text, write the message and the end of the line to the stream itself, and pop
  the context if the stream is not in error.
\<close>

definition log_at ::
    "bool \<Rightarrow> log_level \<Rightarrow> log_entry \<Rightarrow> string \<Rightarrow> nat \<Rightarrow> logstream list \<Rightarrow> (nat \<times> chunk) list \<Rightarrow>
       (logstream list \<times> (nat \<times> chunk) list) outcome option" where
  "log_at debug v e msg l ls w =
     Option.bind (push_context l v ls) (\<lambda>ls.
     Option.bind (forward debug (entry_chunk e) l ls w) (\<lambda>r.
     case r of Inl e \<Rightarrow> Some (Inl e) | Inr w \<Rightarrow>
       (let w = put_chunk (ls ! l) (Text msg) w;
            w = put_chunk (ls ! l) (Text [CHR 0x0A]) w
        in if stream_buf (ls ! l) \<noteq> None
           then Option.bind (pop_context debug l ls) (\<lambda>r. Some (and_then r (\<lambda>ls. Inr (ls, w))))
           else Some (Inr (ls, w)))))"

section \<open>The way to the root\<close>

fun is_chain :: "logstream list \<Rightarrow> nat list \<Rightarrow> bool" where
  "is_chain ls [] \<longleftrightarrow> False"
| "is_chain ls [l] \<longleftrightarrow> l < length ls \<and> stream_parent (ls ! l) = None"
| "is_chain ls (l # m # ms) \<longleftrightarrow> l < length ls \<and> stream_parent (ls ! l) = Some m \<and> is_chain ls (m # ms)"

definition edit_context :: "(log_level list \<Rightarrow> log_level list) \<Rightarrow> nat \<Rightarrow> logstream list \<Rightarrow> logstream list" where
  "edit_context g l ls = ls[l := (ls ! l)\<lparr>msgcontext := g (msgcontext (ls ! l))\<rparr>]"

lemma edit_context_nth:
  "length (edit_context g l ls) = length ls"
  "i < length ls \<Longrightarrow> edit_context g l ls ! i = (if i = l then (ls ! i)\<lparr>msgcontext := g (msgcontext (ls ! i))\<rparr> else ls ! i)"
  by (simp_all add: edit_context_def nth_list_update)

lemma is_chain_edit: "is_chain (edit_context g l ls) c \<longleftrightarrow> is_chain ls c"
proof -
  have p: "stream_parent (edit_context g l ls ! i) = stream_parent (ls ! i)" if "i < length ls" for i
    using that by (simp add: edit_context_nth)
  show ?thesis using p by (induction ls c rule: is_chain.induct) (auto simp: edit_context_nth(1))
qed

lemma fold_edit:
  assumes "distinct c"
  shows "length (fold (edit_context g) c ls) = length ls \<and> (i < length ls \<longrightarrow> fold (edit_context g) c ls ! i =
    (if i \<in> set c then (ls ! i)\<lparr>msgcontext := g (msgcontext (ls ! i))\<rparr> else ls ! i))"
  using assms
proof (induction c arbitrary: ls)
  case (Cons l c)
  then show ?case using Cons(1)[of "edit_context g l ls"] by (auto simp: edit_context_nth)
qed simp

lemma is_chain_fold: "is_chain (fold (edit_context g) d ls) c \<longleftrightarrow> is_chain ls c"
  by (induction d arbitrary: ls) (simp_all add: is_chain_edit)

lemma is_chain_bound: "is_chain ls c \<Longrightarrow> l \<in> set c \<Longrightarrow> l < length ls"
  by (induction ls c rule: is_chain.induct) auto

lemma push_context_chain:
  "is_chain ls (l # c) \<Longrightarrow> push_context l v ls = Some (fold (edit_context ((#) v)) (l # c) ls)"
proof (induction c arbitrary: l ls)
  case Nil
  then show ?case by (subst push_context.simps) (simp add: edit_context_def)
next
  case (Cons m c)
  let ?ls = "edit_context ((#) v) l ls"
  have "push_context l v ls = push_context m v ?ls"
    using Cons(2) by (subst push_context.simps) (simp add: edit_context_def)
  then show ?case using Cons(1)[of ?ls m] Cons(2) by (simp add: is_chain_edit)
qed

lemma pop_context_chain:
  "is_chain ls (l # c) \<Longrightarrow> distinct (l # c) \<Longrightarrow> \<forall>a\<in>set (l # c). msgcontext (ls ! a) \<noteq> [] \<Longrightarrow>
    pop_context debug l ls = Some (Inr (fold (edit_context tl) (l # c) ls))"
proof (induction c arbitrary: l ls)
  case Nil
  then show ?case by (subst pop_context.simps) (simp add: edit_context_def)
next
  case (Cons m c)
  let ?ls = "edit_context tl l ls"
  have "pop_context debug l ls = pop_context debug m ?ls"
    using Cons(2,4) by (subst pop_context.simps) (simp add: edit_context_def)
  moreover have "\<forall>a\<in>set (m # c). msgcontext (?ls ! a) \<noteq> []"
    using Cons(2-4) is_chain_bound[OF Cons(2)] by (auto simp: edit_context_nth)
  ultimately show ?case using Cons(1)[of ?ls m] Cons(2,3) by (simp add: is_chain_edit)
qed

definition chunk_for :: "(logstream \<Rightarrow> log_level \<Rightarrow> chunk) \<Rightarrow> log_level \<Rightarrow> logstream \<Rightarrow> (nat \<times> chunk) list" where
  "chunk_for chunk_of v s = (if stream_level s \<le> v then put_chunk s (chunk_of s v) [] else [])"

lemma forward_chain:
  "is_chain ls (l # c) \<Longrightarrow> \<forall>a\<in>set (l # c). \<exists>vs. msgcontext (ls ! a) = v # vs \<Longrightarrow>
    forward debug chunk_of l ls w = Some (Inr (w @ concat (map (\<lambda>a. chunk_for chunk_of v (ls ! a)) (rev (l # c)))))"
proof (induction c arbitrary: l)
  case Nil
  then show ?case by (subst forward.simps) (auto simp: msg_context_def chunk_for_def put_chunk_def split: option.splits)
next
  case (Cons m c)
  then have "forward debug chunk_of m ls w = Some (Inr (w @ concat (map (\<lambda>a. chunk_for chunk_of v (ls ! a)) (rev (m # c)))))"
    by simp
  then show ?case using Cons(2,3)
    by (subst forward.simps) (auto simp: msg_context_def chunk_for_def put_chunk_def split: option.splits)
qed


lemma log_at_chain:
  assumes "is_chain ls (l # c)" "distinct (l # c)" "stream_buf (ls ! l) = Some b"
  shows "log_at debug v e msg l ls w = Some (Inr (ls, w @
    concat (map (\<lambda>a. chunk_for (entry_chunk e) v (ls ! a)) (rev (l # c))) @ [(b, Text msg), (b, Text [CHR 0x0A])]))"
proof -
  let ?ls = "fold (edit_context ((#) v)) (l # c) ls"
  have nth: "?ls ! i = (if i \<in> set (l # c) then (ls ! i)\<lparr>msgcontext := v # msgcontext (ls ! i)\<rparr> else ls ! i)" if "i < length ls" for i
    using fold_edit[OF assms(2), of "(#) v" ls i] that by simp
  have len: "length ?ls = length ls" using fold_edit[OF assms(2), of "(#) v" ls] by simp
  note bound = is_chain_bound[OF assms(1)]
  have push: "push_context l v ls = Some ?ls" by (rule push_context_chain[OF assms(1)])
  have chain: "is_chain ?ls (l # c)" using assms(1) by (simp only: is_chain_fold)
  have ctx: "\<forall>a\<in>set (l # c). \<exists>vs. msgcontext (?ls ! a) = v # vs" using nth bound by auto
  have same: "map (\<lambda>a. chunk_for (entry_chunk e) v (?ls ! a)) (rev (l # c)) = map (\<lambda>a. chunk_for (entry_chunk e) v (ls ! a)) (rev (l # c))"
    using nth bound by (auto simp: chunk_for_def put_chunk_def entry_chunk_def)
  have fwd: "forward debug (entry_chunk e) l ?ls w =
      Some (Inr (w @ concat (map (\<lambda>a. chunk_for (entry_chunk e) v (ls ! a)) (rev (l # c)))))"
    unfolding same[symmetric] by (rule forward_chain[OF chain ctx])
  have restored: "fold (edit_context tl) (l # c) ?ls = ls"
  proof (rule nth_equalityI)
    show len': "length (fold (edit_context tl) (l # c) ?ls) = length ls" using fold_edit[OF assms(2)] len by metis
    fix i assume "i < length (fold (edit_context tl) (l # c) ?ls)"
    then have i: "i < length ls" using len' by simp
    show "fold (edit_context tl) (l # c) ?ls ! i = ls ! i"
      using fold_edit[OF assms(2), of tl ?ls i] i len nth[OF i] by (simp split: if_splits)
  qed
  have "pop_context debug l ?ls = Some (Inr ls)"
    using pop_context_chain[OF chain assms(2), of debug] ctx restored by fastforce
  moreover have "stream_buf (?ls ! l) = Some b" using nth[of l] bound[of l] assms(3) by simp
  ultimately show ?thesis unfolding log_at_def push by (simp add: fwd put_chunk_def Let_def del: fold_simps fold.simps)
qed

text \<open>Without a buffer the context stays pushed.\<close>

lemma log_at_without_buffer:
  assumes "is_chain ls (l # c)" "distinct (l # c)" "stream_buf (ls ! l) = None"
  shows "\<exists>w'. log_at debug v e msg l ls w = Some (Inr (fold (edit_context ((#) v)) (l # c) ls, w'))"
proof -
  let ?ls = "fold (edit_context ((#) v)) (l # c) ls"
  have nth: "?ls ! i = (if i \<in> set (l # c) then (ls ! i)\<lparr>msgcontext := v # msgcontext (ls ! i)\<rparr> else ls ! i)" if "i < length ls" for i
    using fold_edit[OF assms(2), of "(#) v" ls i] that by simp
  note bound = is_chain_bound[OF assms(1)]
  have chain: "is_chain ?ls (l # c)" using assms(1) by (simp only: is_chain_fold)
  have ctx: "\<forall>a\<in>set (l # c). \<exists>vs. msgcontext (?ls ! a) = v # vs" using nth bound by auto
  have b: "stream_buf (?ls ! l) = None" using nth[of l] bound[of l] assms(3) by simp
  obtain w1 where "forward debug (entry_chunk e) l ?ls w = Some (Inr w1)" using forward_chain[OF chain ctx] by blast
  then have "log_at debug v e msg l ls w = Some (Inr (?ls, w1))"
    unfolding log_at_def push_context_chain[OF assms(1)] using b by (simp add: put_chunk_def Let_def del: fold_simps fold.simps)
  then show ?thesis by blast
qed

text \<open>A manipulator is sent to the parent and acts on the parent again, so the stream \<open>k\<close> levels up gets it \<open>k + 1\<close> times.\<close>

lemma send_manip_pushes:
  "is_chain ls (l # c) \<Longrightarrow> distinct (l # c) \<Longrightarrow>
    \<exists>ls'. send_manip debug (Some v) l ls = Some (Inr ls') \<and> length ls' = length ls \<and> (\<forall>d. is_chain ls' d = is_chain ls d) \<and>
      (\<forall>i<length ls. i \<notin> set (l # c) \<longrightarrow> ls' ! i = ls ! i) \<and>
      (\<forall>k<length (l # c). msgcontext (ls' ! ((l # c) ! k)) = replicate (Suc k) v @ msgcontext (ls ! ((l # c) ! k)))"
proof (induction c arbitrary: l)
  case Nil
  let ?ls = "edit_context ((#) v) l ls"
  have "send_manip debug (Some v) l ls = Some (Inr ?ls)"
    using Nil push_context_chain[of ls l "[]" v] by (subst send_manip.simps) (simp add: apply_manip_def)
  then show ?case using Nil by (auto simp: edit_context_nth is_chain_edit intro!: exI[of _ ?ls])
next
  case (Cons m c)
  have m: "is_chain ls (m # c)" "distinct (m # c)" "stream_parent (ls ! l) = Some m" "l < length ls" using Cons(2,3) by auto
  obtain ls1 where i: "send_manip debug (Some v) m ls = Some (Inr ls1)" "length ls1 = length ls" "\<forall>d. is_chain ls1 d = is_chain ls d"
      "\<forall>i<length ls. i \<notin> set (m # c) \<longrightarrow> ls1 ! i = ls ! i"
      "\<forall>k<length (m # c). msgcontext (ls1 ! ((m # c) ! k)) = replicate (Suc k) v @ msgcontext (ls ! ((m # c) ! k))"
    using Cons(1)[OF m(1,2)] by blast
  let ?ls = "fold (edit_context ((#) v)) (l # m # c) ls1"
  have chain: "is_chain ls1 (l # m # c)" using i(3) Cons(2) by blast
  have nth: "?ls ! j = (if j \<in> set (l # m # c) then (ls1 ! j)\<lparr>msgcontext := v # msgcontext (ls1 ! j)\<rparr> else ls1 ! j)" if "j < length ls" for j
    using fold_edit[OF Cons(3), of "(#) v" ls1 j] that i(2) by simp
  have "send_manip debug (Some v) l ls = Some (Inr ?ls)"
    using m(3) i(1) push_context_chain[OF chain] by (subst send_manip.simps) (simp add: apply_manip_def)
  moreover have "length ?ls = length ls" using fold_edit[OF Cons(3), of "(#) v" ls1] i(2) by simp
  moreover have "\<forall>d. is_chain ?ls d = is_chain ls d" using i(3) by (simp only: is_chain_fold) simp
  moreover have "\<forall>j<length ls. j \<notin> set (l # m # c) \<longrightarrow> ?ls ! j = ls ! j" using nth i(4) by auto
  moreover have "\<forall>k<length (l # m # c). msgcontext (?ls ! ((l # m # c) ! k)) = replicate (Suc k) v @ msgcontext (ls ! ((l # m # c) ! k))"
  proof (intro allI impI)
    fix k assume k: "k < length (l # m # c)"
    have b: "(l # m # c) ! k < length ls" using k is_chain_bound[OF Cons(2)] nth_mem by blast
    have "msgcontext (?ls ! ((l # m # c) ! k)) = v # msgcontext (ls1 ! ((l # m # c) ! k))"
      using nth[OF b] nth_mem[OF k] by simp
    also have "msgcontext (ls1 ! ((l # m # c) ! k)) = replicate k v @ msgcontext (ls ! ((l # m # c) ! k))"
    proof (cases k)
      case 0
      then show ?thesis using i(4) m(4) Cons(3) by simp
    next
      case (Suc j)
      then show ?thesis using i(5) k by simp
    qed
    finally show "msgcontext (?ls ! ((l # m # c) ! k)) = replicate (Suc k) v @ msgcontext (ls ! ((l # m # c) ! k))" by simp
  qed
  ultimately show ?case by blast
qed

section \<open>Messages over the tree\<close>

fun ancestors_below :: "string list list \<Rightarrow> string list \<Rightarrow> nat \<Rightarrow> string list list" where
  "ancestors_below reg p 0 = []"
| "ancestors_below reg p (Suc n) = (if take n p \<in> set reg then take n p # ancestors_below reg p n else ancestors_below reg p n)"

text \<open>The requested prefixes of a path, the longest first.\<close>

definition ancestors :: "string list list \<Rightarrow> string list \<Rightarrow> string list list" where
  "ancestors reg p = ancestors_below reg p (Suc (length p))"

lemma ancestors_below_take: "n \<le> k \<Longrightarrow> ancestors_below reg (take k p) n = ancestors_below reg p n"
  by (induction n) (auto simp: min_def)

lemma ancestors_below_nearest:
  "n \<le> length p \<Longrightarrow> ancestors_below reg p n = (case nearest_below reg p n of None \<Rightarrow> [] | Some q \<Rightarrow> ancestors reg q)"
proof (induction n)
  case (Suc n)
  then show ?case by (simp add: ancestors_def ancestors_below_take)
qed simp

lemma ancestors_rec:
  "p \<in> set reg \<Longrightarrow> ancestors reg p = p # (case nearest reg p of None \<Rightarrow> [] | Some q \<Rightarrow> ancestors reg q)"
  by (simp add: ancestors_def[of reg p] ancestors_below_nearest nearest_def)

lemma ancestors_member: "q \<in> set (ancestors_below reg p n) \<Longrightarrow> q \<in> set reg \<and> (\<exists>k<n. q = take k p)"
  by (induction n) (auto split: if_splits intro: less_SucI)

lemma ancestors_distinct: "n \<le> Suc (length p) \<Longrightarrow> distinct (ancestors_below reg p n)"
proof (induction n)
  case (Suc n)
  have "take n p \<noteq> take k p" if "k < n" for k using that Suc(2) by (auto dest: arg_cong[of _ _ length])
  then show ?case using Suc ancestors_member[of "take n p" reg p n] by auto
qed simp

lemma ancestors_chain:
  assumes "follows reg f"
  shows "p \<in> set reg \<Longrightarrow> is_chain (streams f) (map (reg_pos reg) (ancestors reg p)) \<and> distinct (map (reg_pos reg) (ancestors reg p))"
proof (induction "length p" arbitrary: p rule: less_induct)
  case less
  have i: "reg_pos reg p < length (streams f)" "reg ! reg_pos reg p = p" using reg_pos_nth[OF less(2)] assms by (auto simp: follows_def)
  have up: "stream_parent (streams f ! reg_pos reg p) = map_option (reg_pos reg) (nearest reg p)"
    using assms i by (simp add: follows_def)
  have "is_chain (streams f) (map (reg_pos reg) (ancestors reg p))"
  proof (cases "nearest reg p")
    case None
    then show ?thesis using i up ancestors_rec[OF less(2)] by simp
  next
    case (Some q)
    then have q: "q \<in> set reg" "length q < length p" by (auto simp: nearest_iff)
    then have "is_chain (streams f) (map (reg_pos reg) (ancestors reg q))" using less(1) by blast
    moreover obtain r where "ancestors reg q = q # r" using ancestors_rec[OF q(1)] by blast
    ultimately show ?thesis using Some i up ancestors_rec[OF less(2)] by simp
  qed
  moreover have "inj_on (reg_pos reg) (set (ancestors reg p))"
    using ancestors_member reg_pos_nth unfolding ancestors_def by (metis inj_onI)
  ultimately show ?case using ancestors_distinct[of "Suc (length p)" p reg] by (simp add: distinct_map ancestors_def)
qed


section \<open>The end of the factory\<close>

lemma delete_tree_iff: "well_named n \<Longrightarrow> x \<in> set (delete_tree n) \<longleftrightarrow> (\<exists>q. logger_at q n = Some x)"
proof (induction n)
  case (Lnode nm lg bf lv cs)
  let ?n = "Lnode nm lg bf lv cs"
  have d: "distinct (map node_name cs)" "\<And>c. c \<in> set cs \<Longrightarrow> well_named c" using Lnode(2) by auto
  have below: "(\<exists>s q. logger_at (s # q) ?n = Some x) \<longleftrightarrow> (\<exists>i<length cs. \<exists>q. logger_at q (cs ! i) = Some x)"
  proof
    assume "\<exists>s q. logger_at (s # q) ?n = Some x"
    then show "\<exists>i<length cs. \<exists>q. logger_at q (cs ! i) = Some x" by (auto simp: Let_def split: if_splits)
  next
    assume "\<exists>i<length cs. \<exists>q. logger_at q (cs ! i) = Some x"
    then obtain i q where i: "i < length cs" "logger_at q (cs ! i) = Some x" by blast
    have "logger_at (node_name (cs ! i) # q) ?n = Some x" using i child_pos_distinct[OF d(1) i(1)] by (simp add: Let_def)
    then show "\<exists>s q. logger_at (s # q) ?n = Some x" by blast
  qed
  have "x \<in> set (delete_tree ?n) \<longleftrightarrow> (\<exists>c\<in>set cs. x \<in> set (delete_tree c)) \<or> lg = Some x" by (auto split: option.splits)
  also have "(\<exists>c\<in>set cs. x \<in> set (delete_tree c)) \<longleftrightarrow> (\<exists>c\<in>set cs. \<exists>q. logger_at q c = Some x)"
    using Lnode(1) d(2) by auto
  also have "\<dots> \<longleftrightarrow> (\<exists>i<length cs. \<exists>q. logger_at q (cs ! i) = Some x)" by (metis in_set_conv_nth)
  also have "\<dots> \<longleftrightarrow> (\<exists>s q. logger_at (s # q) ?n = Some x)" using below by simp
  also have "\<dots> \<or> lg = Some x \<longleftrightarrow> (\<exists>q. logger_at q ?n = Some x)"
  proof -
    have "logger_at [] ?n = lg" by simp
    then show ?thesis by (metis neq_Nil_conv)
  qed
  finally show ?case .
qed

lemma distinct_concat_map:
  assumes "\<And>y. y \<in> set ys \<Longrightarrow> distinct (g y)"
    and "\<And>i j x. i < length ys \<Longrightarrow> j < length ys \<Longrightarrow> x \<in> set (g (ys ! i)) \<Longrightarrow> x \<in> set (g (ys ! j)) \<Longrightarrow> i = j"
  shows "distinct (concat (map g ys))"
  using assms
proof (induction ys)
  case (Cons y ys)
  have "distinct (concat (map g ys))"
  proof (rule Cons(1))
    fix i j x assume "i < length ys" "j < length ys" "x \<in> set (g (ys ! i))" "x \<in> set (g (ys ! j))"
    then show "i = j" using Cons(3)[of "Suc i" "Suc j" x] by simp
  qed (use Cons(2) in simp)
  moreover have "x \<notin> set (g z)" if x: "x \<in> set (g y)" and z: "z \<in> set ys" for x z
  proof
    assume xz: "x \<in> set (g z)"
    obtain j where "j < length ys" "z = ys ! j" using z unfolding in_set_conv_nth by blast
    then show False using Cons(3)[of 0 "Suc j" x] x xz by simp
  qed
  ultimately show ?case using Cons(2) by auto
qed simp

lemma delete_tree_distinct:
  "well_named n \<Longrightarrow> (\<And>p q x. logger_at p n = Some x \<Longrightarrow> logger_at q n = Some x \<Longrightarrow> p = q) \<Longrightarrow> distinct (delete_tree n)"
proof (induction n)
  case (Lnode nm lg bf lv cs)
  let ?n = "Lnode nm lg bf lv cs"
  have d: "distinct (map node_name cs)" "\<And>c. c \<in> set cs \<Longrightarrow> well_named c" using Lnode(2) by auto
  have at: "logger_at (node_name (cs ! i) # q) ?n = logger_at q (cs ! i)" if "i < length cs" for i q
    using that child_pos_distinct[OF d(1) that] by (simp add: Let_def)
  have each: "distinct (delete_tree c)" if mem: "c \<in> set cs" for c
  proof -
    obtain i where i: "i < length cs" "c = cs ! i" using mem unfolding in_set_conv_nth by blast
    show ?thesis
    proof (rule Lnode(1)[OF mem d(2)[OF mem]])
      fix p q x assume "logger_at p c = Some x" "logger_at q c = Some x"
      then have "logger_at (node_name c # p) ?n = Some x" "logger_at (node_name c # q) ?n = Some x" using at i by auto
      then show "p = q" using Lnode(3) by blast
    qed
  qed
  have apart: "i = j" if i: "i < length cs" "j < length cs" "x \<in> set (delete_tree (cs ! i))" "x \<in> set (delete_tree (cs ! j))" for i j x
  proof -
    obtain p q where pq: "logger_at p (cs ! i) = Some x" "logger_at q (cs ! j) = Some x"
      using i d(2) delete_tree_iff nth_mem by metis
    then have "node_name (cs ! i) # p = node_name (cs ! j) # q" using at i Lnode(3) by metis
    then show ?thesis using d(1) i by (metis distinct_conv_nth length_map list.inject nth_map)
  qed
  have "distinct (concat (map delete_tree cs))"
  proof (rule distinct_concat_map)
    show "distinct (delete_tree c)" if "c \<in> set cs" for c using that by (rule each)
    show "i = j" if "i < length cs" "j < length cs" "x \<in> set (delete_tree (cs ! i))" "x \<in> set (delete_tree (cs ! j))" for i j x
      using that by (rule apart)
  qed
  moreover have "l \<notin> set (concat (map delete_tree cs))" if "lg = Some l" for l
  proof
    assume "l \<in> set (concat (map delete_tree cs))"
    then obtain c where "c \<in> set cs" "l \<in> set (delete_tree c)" by auto
    then obtain i where i: "i < length cs" "l \<in> set (delete_tree (cs ! i))" unfolding in_set_conv_nth[of c] by blast
    then obtain q where "logger_at q (cs ! i) = Some l" using d(2) delete_tree_iff nth_mem by metis
    then have "logger_at (node_name (cs ! i) # q) ?n = Some l" using at i by simp
    moreover have "logger_at [] ?n = Some l" using that by simp
    ultimately show False using Lnode(3) by blast
  qed
  ultimately show ?case by (auto split: option.splits)
qed

lemma follows_delete:
  assumes "follows reg f"
  shows "distinct (delete_tree (root_node f)) \<and> set (delete_tree (root_node f)) = {..<length (streams f)}"
proof -
  have F: "distinct reg" "length (streams f) = length reg" "well_named (root_node f)"
    "\<And>q. logger_at q (root_node f) = (if q \<in> set reg then Some (reg_pos reg q) else None)"
    using assms by (auto simp: follows_def)
  have "distinct (delete_tree (root_node f))"
    by (rule delete_tree_distinct[OF F(3)]) (use F(4) reg_pos_nth in \<open>metis option.distinct(1) option.inject\<close>)
  moreover have "x \<in> set (delete_tree (root_node f)) \<longleftrightarrow> x < length reg" for x
    unfolding delete_tree_iff[OF F(3)] F(4) using reg_pos_nth[of _ reg] reg_pos_distinct[OF F(1), of x] nth_mem[of x reg]
    by (metis option.distinct(1) option.inject)
  ultimately show ?thesis using F(2) by auto
qed

section \<open>Properties\<close>

text \<open>C22: Whatever paths are requested in whatever order, and whatever buffers and levels are set in between, a factory has one
  stream per requested path, in the order of the first requests, the stream of a path is the one at its place, its parent is the
  stream of the longest proper prefix of the path that was requested, at any time, and the end of the factory deletes every
  stream exactly once.\<close>

theorem parents_are_nearest_prefixes:
  "map (\<lambda>s. split_path (stream_name s) path_delim) (streams (fold run_op ops (new_factory clog b v))) = requested ops \<and>
   map stream_parent (streams (fold run_op ops (new_factory clog b v))) =
     map (\<lambda>p. map_option (reg_pos (requested ops)) (nearest (requested ops) p)) (requested ops) \<and>
   fst (get_logstream path (fold run_op ops (new_factory clog b v))) =
     reg_pos (requested (ops @ [Get path])) (split_path path path_delim) \<and>
   distinct (delete_tree (root_node (fold run_op ops (new_factory clog b v)))) \<and>
   set (delete_tree (root_node (fold run_op ops (new_factory clog b v)))) =
     {..<length (streams (fold run_op ops (new_factory clog b v)))}"
proof -
  let ?f = "fold run_op ops (new_factory clog b v)"
  have F: "follows (requested ops) ?f" unfolding requested_def by (rule follows_run[OF follows_new])
  have "map (\<lambda>s. split_path (stream_name s) path_delim) (streams ?f) = requested ops"
    using F by (intro nth_equalityI) (auto simp: follows_def)
  moreover have "map stream_parent (streams ?f) = map (\<lambda>p. map_option (reg_pos (requested ops)) (nearest (requested ops) p)) (requested ops)"
    using F by (intro nth_equalityI) (auto simp: follows_def)
  ultimately show ?thesis using follows_get[OF F, of path] follows_delete[OF F] by (simp add: requested_def)
qed

text \<open>C23: A message that is logged to the stream of a requested path writes an entry to the stream of every requested prefix of
  the path, the shortest first, that logs its level, then the text to the stream itself whatever its level, and leaves the
  contexts of all streams as they were.\<close>

theorem message_reaches_ancestors:
  assumes "split_path path path_delim \<in> set (requested ops)"
    and "f = fold run_op ops (new_factory clog b d)"
    and "l = reg_pos (requested ops) (split_path path path_delim)"
    and "stream_buf (streams f ! l) = Some sb"
  shows "log_at debug v e msg l (streams f) w = Some (Inr (streams f, w @
    concat (map (\<lambda>q. chunk_for (entry_chunk e) v (streams f ! reg_pos (requested ops) q))
      (rev (ancestors (requested ops) (split_path path path_delim)))) @ [(sb, Text msg), (sb, Text [CHR 0x0A])]))"
proof -
  let ?p = "split_path path path_delim"
  let ?reg = "requested ops"
  have F: "follows ?reg f" unfolding assms(2) requested_def by (rule follows_run[OF follows_new])
  obtain c where c: "ancestors ?reg ?p = ?p # c" using ancestors_rec[OF assms(1)] by blast
  have "is_chain (streams f) (l # map (reg_pos ?reg) c)" "distinct (l # map (reg_pos ?reg) c)"
    using ancestors_chain[OF F assms(1)] c assms(3) by auto
  from log_at_chain[OF this assms(4), of debug v e msg w] show ?thesis
    by (simp add: c assms(3) rev_map comp_def)
qed

definition sample_ops :: "factory_op list" where
  "sample_ops = [Get ''a.b.c'', Get ''a'', Set_level ''a'' WARN]"

theorem message_reaches_ancestors_witness:
  "log_at True INFO \<lparr>entry_file = ''f'', entry_function = ''g'', entry_line = 1, entry_text = ''''\<rparr> ''hello'' 0
     (streams (fold run_op sample_ops (new_factory (Some 0) None NONE))) [] =
   Some (Inr (streams (fold run_op sample_ops (new_factory (Some 0) None NONE)),
     [(0, Entry ''a.b.c'' INFO ''f'' ''g'' 1 ''''), (0, Text ''hello''), (0, Text [CHR 0x0A])]))"
proof -
  let ?f = "fold run_op sample_ops (new_factory (Some 0) None NONE)"
  have r: "requested sample_ops = [[''a'', ''b'', ''c''], [''a'']]" by code_simp
  have p: "split_path ''a.b.c'' path_delim = [''a'', ''b'', ''c'']" by code_simp
  have s: "map (\<lambda>s. (stream_name s, stream_level s, stream_buf s)) (streams ?f) = [(''a.b.c'', NONE, Some 0), (''a'', WARN, Some 0)]"
    by code_simp
  then have n: "length (streams ?f) = 2"
    "stream_name (streams ?f ! 0) = ''a.b.c''" "stream_level (streams ?f ! 0) = NONE" "stream_buf (streams ?f ! 0) = Some 0"
    "stream_level (streams ?f ! 1) = WARN" by (auto simp: map_eq_Cons_conv)
  have a: "ancestors (requested sample_ops) (split_path ''a.b.c'' path_delim) = [[''a'', ''b'', ''c''], [''a'']]" by code_simp
  have i: "reg_pos (requested sample_ops) [''a'', ''b'', ''c''] = 0" "reg_pos (requested sample_ops) [''a''] = 1" by code_simp+
  have z: "0 = reg_pos (requested sample_ops) (split_path ''a.b.c'' path_delim)" unfolding p i ..
  have "split_path ''a.b.c'' path_delim \<in> set (requested sample_ops)" unfolding p r by simp
  from message_reaches_ancestors[OF this refl z n(4)] show ?thesis
    unfolding a using n i by (simp add: chunk_for_def put_chunk_def entry_chunk_def less_eq_log_level_def)
qed

text \<open>A parent that is requested between a push and a pop of its child is popped without a push: its first context goes, and the
  second pop of the manipulator finds none.\<close>

definition late_parent :: "logstream list outcome option" where
  "late_parent =
     (let f = snd (get_logstream ''a.b'' (new_factory (Some 0) None NONE))
      in Option.bind (send_manip True (Some INFO) 0 (streams f)) (\<lambda>r.
         case r of Inl e \<Rightarrow> Some (Inl e) | Inr ls \<Rightarrow>
         (let f = snd (get_logstream ''a'' (f\<lparr>streams := ls\<rparr>)) in send_manip True None 0 (streams f))))"

lemma late_parent_underflows: "late_parent = Some (Inl Assertion_failed)"
proof -
  let ?f = "snd (get_logstream ''a.b'' (new_factory (Some 0) None NONE))"
  let ?s = "\<lparr>stream_name = ''a.b'', stream_level = NONE, stream_parent = None, msgcontext = [NONE], stream_buf = Some 0\<rparr>"
  have f: "streams ?f = [?s]" by code_simp
  have m: "send_manip True (Some INFO) 0 [?s] = Some (Inr [?s\<lparr>msgcontext := [INFO, NONE]\<rparr>])"
    by (subst send_manip.simps) (simp add: apply_manip_def push_context.simps[of 0 INFO])
  have g: "streams (snd (get_logstream ''a'' (?f\<lparr>streams := [?s\<lparr>msgcontext := [INFO, NONE]\<rparr>]\<rparr>))) =
      [?s\<lparr>msgcontext := [INFO, NONE], stream_parent := Some 1\<rparr>,
       \<lparr>stream_name = ''a'', stream_level = NONE, stream_parent = None, msgcontext = [NONE], stream_buf = Some 0\<rparr>]"
    by code_simp
  show ?thesis
    unfolding late_parent_def Let_def f m Option.bind.simps sum.case g
    apply (subst send_manip.simps, simp)
    apply (subst send_manip.simps, simp add: apply_manip_def)
    apply (subst pop_context.simps, simp add: apply_manip_def)
    apply (subst pop_context.simps, simp)
    apply (subst pop_context.simps, simp add: empty_context_def)
    done
qed

end
