(* ===== verification/Ex_Video.thy ===== *)
theory Ex_Video
  imports Prelude
begin

text \<open>
  The reader of uncompressed video of \<open>exercises/y4m.cpp\<close>: the header and the frames through the formatted input of an
  \<open>istream\<close>, the copy of a frame into the planes of a device buffer, the search for the units of an encoded stream and the loss of
  units. A stream is its characters, a position and the bits of its state. What the file uses without a declaration is an argument: the
  pitch and the first contents of the device buffer, the encoder, and the numbers drawn from the geometric distribution.
\<close>

section \<open>Formatted input\<close>

record istream =
  chars :: string
  ipos :: nat
  eof_bit :: bool
  fail_bit :: bool

definition open_stream :: "string \<Rightarrow> istream" where
  "open_stream s = \<lparr>chars = s, ipos = 0, eof_bit = False, fail_bit = False\<rparr>"

definition ok :: "istream \<Rightarrow> bool" where
  "ok s \<longleftrightarrow> \<not> fail_bit s"

definition rest :: "istream \<Rightarrow> string" where
  "rest s = drop (ipos s) (chars s)"

definition set_fail :: "istream \<Rightarrow> istream" where
  "set_fail s = s\<lparr>fail_bit := True\<rparr>"

text \<open>Moves a stream on; the end is noticed by an operation that would read past it.\<close>

definition skip :: "nat \<Rightarrow> istream \<Rightarrow> istream" where
  "skip n s = s\<lparr>ipos := ipos s + n\<rparr>"

definition note_eof :: "bool \<Rightarrow> istream \<Rightarrow> istream" where
  "note_eof b s = (if b \<and> rest s = [] then s\<lparr>eof_bit := True\<rparr> else s)"

definition is_space :: "char \<Rightarrow> bool" where
  "is_space c \<longleftrightarrow> c \<in> set [CHR '' '', CHR 0x09, CHR 0x0A, CHR 0x0B, CHR 0x0C, CHR 0x0D]"

text \<open>The sentry of unformatted input, and of formatted input, which skips white space.\<close>

definition sentry :: "istream \<Rightarrow> bool \<times> istream" where
  "sentry s = (if eof_bit s \<or> fail_bit s then (False, set_fail s) else (True, s))"

definition sentry_ws :: "istream \<Rightarrow> bool \<times> istream" where
  "sentry_ws s =
     (if eof_bit s \<or> fail_bit s then (False, set_fail s)
      else (let s = skip (length (takeWhile is_space (rest s))) s
            in if rest s = [] then (False, set_fail (s\<lparr>eof_bit := True\<rparr>)) else (True, s)))"

definition read_char :: "istream \<Rightarrow> char option \<times> istream" where
  "read_char s = (case sentry_ws s of (good, s) \<Rightarrow> if good then (Some (hd (rest s)), skip 1 s) else (None, s))"

text \<open>A word of at most \<open>width\<close> characters; no width is no limit.\<close>

definition read_word :: "nat option \<Rightarrow> istream \<Rightarrow> string option \<times> istream" where
  "read_word width s =
     (case sentry_ws s of (good, s) \<Rightarrow>
       if good then
         (let w = takeWhile (\<lambda>c. \<not> is_space c) (rest s);
              w = (case width of None \<Rightarrow> w | Some n \<Rightarrow> take n w)
          in (Some w, note_eof (width \<noteq> Some (length w)) (skip (length w) s)))
       else (None, s))"

definition is_digit :: "char \<Rightarrow> bool" where
  "is_digit c \<longleftrightarrow> c \<in> set ''0123456789''"

definition digit :: "char \<Rightarrow> nat" where
  "digit c = of_char c - 48"

definition number :: "string \<Rightarrow> nat" where
  "number = foldl (\<lambda>n c. 10 * n + digit c) 0"

text \<open>A number may have a sign. Without digits it is zero and the stream fails; above the range it is the largest and the stream fails.\<close>

definition read_size :: "istream \<Rightarrow> u64 option \<times> istream" where
  "read_size s =
     (case sentry_ws s of (good, s) \<Rightarrow>
       if good then
         (let sign = (hd (rest s) = CHR ''+'' \<or> hd (rest s) = CHR ''-'');
              neg = (hd (rest s) = CHR ''-'');
              ds = takeWhile is_digit (if sign then tl (rest s) else rest s);
              s = note_eof True (skip ((if sign then 1 else 0) + length ds) s)
          in if ds = [] then (Some 0, set_fail s)
             else if 2 ^ 64 \<le> number ds then (Some (- 1), set_fail s)
             else (Some (if neg then - of_nat (number ds) else of_nat (number ds)), s))
       else (None, s))"

text \<open>\<open>tellg\<close>, \<open>seekg\<close>, \<open>peek\<close>, \<open>ignore\<close> and \<open>read\<close> are unformatted; \<open>seekg\<close> clears the end first.\<close>

definition tellg :: "istream \<Rightarrow> int \<times> istream" where
  "tellg s = (case sentry s of (_, s) \<Rightarrow> (if fail_bit s then - 1 else int (ipos s), s))"

definition seekg :: "int \<Rightarrow> istream \<Rightarrow> istream" where
  "seekg p s = (let s = s\<lparr>eof_bit := False\<rparr> in if fail_bit s then s else s\<lparr>ipos := nat p\<rparr>)"

definition peek :: "istream \<Rightarrow> char option \<times> istream" where
  "peek s =
     (case sentry s of (good, s) \<Rightarrow>
       if \<not> good then (None, s) else if rest s = [] then (None, s\<lparr>eof_bit := True\<rparr>) else (Some (hd (rest s)), s))"

definition ignore1 :: "istream \<Rightarrow> istream" where
  "ignore1 s =
     (case sentry s of (good, s) \<Rightarrow>
       if \<not> good then s else if rest s = [] then s\<lparr>eof_bit := True\<rparr> else skip 1 s)"

definition read_block :: "string \<Rightarrow> istream \<Rightarrow> string \<times> istream" where
  "read_block buffer s =
     (case sentry s of (good, s) \<Rightarrow>
       if \<not> good then (buffer, s)
       else (let got = take (length buffer) (rest s);
                 s = skip (length got) s
             in (got @ drop (length got) buffer,
                 if length got < length buffer then set_fail (s\<lparr>eof_bit := True\<rparr>) else s)))"

section \<open>Fields of the header\<close>

definition stream_size :: "istream \<Rightarrow> int \<times> istream" where
  "stream_size s =
     (case tellg s of (cur, s) \<Rightarrow>
      case tellg (seekg 0 s) of (start, s) \<Rightarrow>
      case tellg (seekg (int (length (chars s))) s) of (stop, s) \<Rightarrow> (stop - start, seekg cur s))"

definition size_remaining :: "istream \<Rightarrow> int \<times> istream" where
  "size_remaining s =
     (case tellg s of (cur, s) \<Rightarrow>
      case tellg (seekg (int (length (chars s))) s) of (stop, s) \<Rightarrow> (stop - cur, seekg cur s))"

definition peek_next_char :: "istream \<Rightarrow> char \<times> istream" where
  "peek_next_char s =
     (if ok s then
        (case tellg s of (pos, s) \<Rightarrow>
         case read_char s of (c, s) \<Rightarrow> (case c of Some ch \<Rightarrow> ch | None \<Rightarrow> CHR 0x00, seekg pos s))
      else (CHR 0x00, s))"

definition literal_string :: "string \<Rightarrow> istream \<Rightarrow> istream" where
  "literal_string lit s =
     (if ok s then
        (case read_word (if lit = [] then None else Some (length lit)) s of (w, s) \<Rightarrow>
          if (case w of Some w \<Rightarrow> w | None \<Rightarrow> replicate (length lit) (CHR 0x00)) \<noteq> lit then set_fail s else s)
      else s)"

definition literal_char :: "char \<Rightarrow> istream \<Rightarrow> istream" where
  "literal_char lit s =
     (if ok s then
        (case read_char s of (c, s) \<Rightarrow> if (case c of Some c \<Rightarrow> c | None \<Rightarrow> CHR 0x00) \<noteq> lit then set_fail s else s)
      else s)"

definition stored :: "'a option \<Rightarrow> 'a \<Rightarrow> 'a" where
  "stored r old = (case r of Some x \<Rightarrow> x | None \<Rightarrow> old)"

record geometry =
  width :: u64
  height :: u64

definition read_geometry :: "geometry \<Rightarrow> istream \<Rightarrow> geometry \<times> istream" where
  "read_geometry g s =
     (if ok s then
        (case read_size (literal_char (CHR ''W'') s) of (w, s) \<Rightarrow>
         case read_size (literal_char (CHR ''H'') s) of (h, s) \<Rightarrow>
           (\<lparr>width = stored w (width g), height = stored h (height g)\<rparr>, s))
      else (g, s))"

record frame_rate =
  frames :: u64
  seconds :: u64

definition read_framerate :: "frame_rate \<Rightarrow> istream \<Rightarrow> frame_rate \<times> istream" where
  "read_framerate r s =
     (if ok s then
        (case read_size (literal_char (CHR ''F'') s) of (f, s) \<Rightarrow>
         case read_size (literal_char (CHR '':'') s) of (n, s) \<Rightarrow>
           (\<lparr>frames = stored f (frames r), seconds = stored n (seconds r)\<rparr>, s))
      else (r, s))"

datatype interlacing = Progressive | Top_first | Bottom_first | Mixed_mode

text \<open>The character is not set when there is none to read; another character leaves the variable as it is.\<close>

definition read_interlacing :: "interlacing option \<Rightarrow> istream \<Rightarrow> (interlacing option \<times> istream) outcome" where
  "read_interlacing i s =
     (if ok s then
        (case read_char (literal_char (CHR ''I'') s) of (c, s) \<Rightarrow>
          case c of
            None \<Rightarrow> Inl Undefined
          | Some ch \<Rightarrow>
              Inr (if ch = CHR ''p'' then Some Progressive
                   else if ch = CHR ''t'' then Some Top_first
                   else if ch = CHR ''b'' then Some Bottom_first
                   else if ch = CHR ''m'' then Some Mixed_mode
                   else i, s))
      else Inr (i, s))"

record aspect_ratio =
  numerator :: u64
  denominator :: u64

definition read_ratio :: "aspect_ratio \<Rightarrow> istream \<Rightarrow> aspect_ratio \<times> istream" where
  "read_ratio r s =
     (if ok s then
        (case read_size (literal_char (CHR ''A'') s) of (n, s) \<Rightarrow>
         case read_size (literal_char (CHR '':'') s) of (d, s) \<Rightarrow>
           (\<lparr>numerator = stored n (numerator r), denominator = stored d (denominator r)\<rparr>, s))
      else (r, s))"

datatype color_space = Yuv420 | Yuv422 | Yuv444

definition read_colorspace :: "color_space option \<Rightarrow> istream \<Rightarrow> color_space option \<times> istream" where
  "read_colorspace c s =
     (if ok s then
        (case read_word None (literal_char (CHR ''C'') s) of (w, s) \<Rightarrow>
          let buffer = stored w []
          in if buffer = ''420jpeg'' \<or> buffer = ''420paldv'' \<or> buffer = ''420'' then (Some Yuv420, s)
             else if buffer = ''422'' then (Some Yuv422, s)
             else if buffer = ''444'' then (Some Yuv444, s)
             else (c, set_fail s))
      else (c, s))"

definition read_comment :: "string \<Rightarrow> istream \<Rightarrow> string \<times> istream" where
  "read_comment t s =
     (if ok s then (case read_word None (literal_char (CHR ''X'') s) of (w, s) \<Rightarrow> (stored w t, s)) else (t, s))"

record frame =
  image :: string
  parameters :: string

definition new_frame :: "nat \<Rightarrow> frame" where
  "new_frame n = \<lparr>image = replicate n (CHR 0x00), parameters = []\<rparr>"

definition read_frame :: "frame \<Rightarrow> istream \<Rightarrow> frame \<times> istream" where
  "read_frame f s =
     (if ok s then
        (case peek (literal_string ''FRAME'' s) of (c, s) \<Rightarrow>
         case (if c \<noteq> Some (CHR 0x0A)
               then (case read_word None s of (w, s) \<Rightarrow> (f\<lparr>parameters := stored w (parameters f)\<rparr>, s))
               else (f, ignore1 s)) of (f, s) \<Rightarrow>
         case read_block (image f) s of (img, s) \<Rightarrow> (f\<lparr>image := img\<rparr>, s))
      else (f, s))"

record video_header =
  geometry_of :: geometry
  rate_of :: frame_rate
  interlacing_of :: "interlacing option"
  ratio_of :: aspect_ratio

text \<open>The first part of \<open>main\<close>; the colour space and the comment are optional and not kept.\<close>

definition read_header :: "istream \<Rightarrow> (video_header \<times> istream) outcome" where
  "read_header s =
     (case read_geometry \<lparr>width = 0, height = 0\<rparr> (literal_string ''YUV4MPEG2'' s) of (g, s) \<Rightarrow>
      case read_framerate \<lparr>frames = 0, seconds = 1\<rparr> s of (r, s) \<Rightarrow>
      and_then (read_interlacing None s) (\<lambda>(i, s).
      case read_ratio \<lparr>numerator = 0, denominator = 0\<rparr> s of (a, s) \<Rightarrow>
      case peek_next_char s of (c, s) \<Rightarrow>
      let s = (if c = CHR ''C'' then snd (read_colorspace None s) else s)
      in case peek_next_char s of (c, s) \<Rightarrow>
      let s = (if c = CHR ''X'' then snd (read_comment [] s) else s)
      in Inr (\<lparr>geometry_of = g, rate_of = r, interlacing_of = i, ratio_of = a\<rparr>, s)))"

section \<open>Network units\<close>

record network_unit =
  unit_data :: nat
  unit_size :: nat

text \<open>\<open>std::find\<close> of the byte zero.\<close>

definition find_zero :: "u8 list \<Rightarrow> nat \<Rightarrow> nat" where
  "find_zero buf p = p + length (takeWhile (\<lambda>b. b \<noteq> 0) (drop p buf))"

definition code_offset :: "u8 list \<Rightarrow> nat \<Rightarrow> nat" where
  "code_offset buf p =
     (let d = length buf - p;
          h1 = (3 \<le> d \<and> buf ! (p + 1) = 0 \<and> buf ! (p + 2) = 1);
          h2 = (4 \<le> d \<and> buf ! (p + 1) = 0 \<and> buf ! (p + 2) = 0 \<and> buf ! (p + 3) = 1)
      in if h1 then 3 else if h2 then 4 else if p \<noteq> length buf then 1 else 0)"

text \<open>The last unit ends at \<open>p\<close>.\<close>

definition close_unit :: "nat \<Rightarrow> network_unit list \<Rightarrow> network_unit list" where
  "close_unit p units = (if units = [] then [] else butlast units @ [(last units)\<lparr>unit_size := p - unit_data (last units)\<rparr>])"

function parse_loop :: "u8 list \<Rightarrow> nat \<Rightarrow> network_unit list \<Rightarrow> network_unit list" where
  "parse_loop buf p units =
     (if length buf \<le> p then units
      else (let p = find_zero buf p;
                off = code_offset buf p
            in if off = 3 \<or> off = 4
               then parse_loop buf (p + off) (close_unit p units @ [\<lparr>unit_data = p + off, unit_size = 0\<rparr>])
               else parse_loop buf (p + off) units))"
  by pat_completeness auto

lemma find_zero_bounds: "p \<le> length buf \<Longrightarrow> p \<le> find_zero buf p \<and> find_zero buf p \<le> length buf"
  using length_takeWhile_le[of "\<lambda>b. b \<noteq> 0" "drop p buf"] by (auto simp: find_zero_def)

termination parse_loop
proof (relation "measure (\<lambda>(buf, p, units). length buf - p)", goal_cases)
  case 1
  then show ?case by simp
next
  case (2 buf p units q off)
  then show ?case using find_zero_bounds[of p buf] by auto
next
  case (3 buf p units q off)
  have "q \<noteq> length buf \<Longrightarrow> 0 < off" using 3 by (auto simp: code_offset_def Let_def)
  then show ?case using 3 find_zero_bounds[of p buf] by (cases "q = length buf") auto
qed

declare parse_loop.simps [simp del]

definition nal_parse_units :: "u8 list \<Rightarrow> network_unit list" where
  "nal_parse_units buf = close_unit (length buf) (parse_loop buf 0 [])"

text \<open>The counters are \<open>int\<close>s that never go below zero; above their range adding is not defined.\<close>

definition add_int :: "nat \<Rightarrow> nat \<Rightarrow> nat outcome" where
  "add_int a b = (if a + b < 2 ^ 31 then Inr (a + b) else Inl Undefined)"

text \<open>The loss of units: \<open>draw k\<close> is the \<open>k\<close>-th number drawn.\<close>

definition clear_unit :: "network_unit \<Rightarrow> u8 list \<Rightarrow> u8 list" where
  "clear_unit u buf = take (unit_data u) buf @ replicate (unit_size u) 0 @ drop (unit_data u + unit_size u) buf"

fun clear_burst :: "network_unit list \<Rightarrow> nat \<Rightarrow> nat \<Rightarrow> u8 list \<Rightarrow> nat \<times> u8 list" where
  "clear_burst units 0 i buf = (i, buf)"
| "clear_burst units (Suc burst) i buf =
     (if i < length units then clear_burst units burst (Suc i) (clear_unit (units ! i) buf) else (i, buf))"

lemma clear_burst_mono: "i \<le> fst (clear_burst units b i buf)"
  by (induction units b i buf rule: clear_burst.induct) auto

function lose_units ::
    "(nat \<Rightarrow> nat) \<Rightarrow> network_unit list \<Rightarrow> nat \<Rightarrow> nat \<Rightarrow> nat \<Rightarrow> u8 list \<Rightarrow> (nat \<times> nat \<times> u8 list) outcome" where
  "lose_units draw units i k lost buf =
     (if i < length units then
        and_then (add_int lost (draw k)) (\<lambda>lost.
        case clear_burst units (draw k) i buf of (j, buf) \<Rightarrow> lose_units draw units (Suc j) (Suc k) lost buf)
      else Inr (k, lost, buf))"
  by pat_completeness auto

termination lose_units
proof (relation "measure (\<lambda>(draw, units, i, k, lost, buf). length units - i)", goal_cases)
  case 1
  then show ?case by simp
next
  case (2 draw units i k lost buf lost')
  then show ?case using clear_burst_mono[of i units "draw k" buf] by (cases "clear_burst units (draw k) i buf") auto
qed

declare lose_units.simps [simp del]

section \<open>Frames\<close>

definition copy_n :: "'a list \<Rightarrow> nat \<Rightarrow> nat \<Rightarrow> 'a list \<Rightarrow> nat \<Rightarrow> 'a list outcome" where
  "copy_n src a n dst b =
     (if n = 0 then Inr dst
      else if a + n \<le> length src \<and> b + n \<le> length dst then Inr (take b dst @ take n (drop a src) @ drop (b + n) dst)
      else Inl Out_of_bounds)"

text \<open>A loop over rows with an \<open>int\<close>, which overflows above its range.\<close>

definition copy_rows :: "nat \<Rightarrow> 'a list \<Rightarrow> (nat \<Rightarrow> nat) \<Rightarrow> nat \<Rightarrow> (nat \<Rightarrow> nat) \<Rightarrow> 'a list \<Rightarrow> 'a list outcome" where
  "copy_rows n src from_row m to_row dst =
     (if 2 ^ 31 \<le> n then Inl Undefined
      else fold (\<lambda>i r. and_then r (\<lambda>d. copy_n src (from_row i) m d (to_row i))) [0..<n] (Inr dst))"

text \<open>The planes of a frame go to the planes of the device buffer, whose rows are \<open>pitch\<close> apart.\<close>

definition place_frame :: "geometry \<Rightarrow> u64 \<Rightarrow> string \<Rightarrow> string \<Rightarrow> string outcome" where
  "place_frame g pitch img hw =
     (let in_stride = width g;
          in_luma_size = in_stride * height g;
          in_chroma_size = in_luma_size div 4;
          in_lines = height g;
          hw_luma_size = pitch * height g;
          hw_chroma_size = hw_luma_size div 4;
          in_chromab = unat in_luma_size;
          in_chromar = in_chromab + unat in_chroma_size;
          hw_chromab = unat hw_luma_size;
          hw_chromar = hw_chromab + unat hw_chroma_size
      in and_then (copy_rows (unat in_lines) img (\<lambda>i. unat (in_stride * of_nat i)) (unat in_stride)
                     (\<lambda>i. unat (pitch * of_nat i)) hw) (\<lambda>hw.
         and_then (copy_rows (unat (in_lines div 2)) img (\<lambda>i. in_chromab + unat (in_stride * of_nat i div 2)) (unat (in_stride div 2))
                     (\<lambda>i. hw_chromab + unat (pitch * of_nat i div 2)) hw) (\<lambda>hw.
         copy_rows (unat (in_lines div 2)) img (\<lambda>i. in_chromar + unat (in_stride * of_nat i div 2)) (unat (in_stride div 2))
           (\<lambda>i. hw_chromar + unat (pitch * of_nat i div 2)) hw)))"

text \<open>
  The size goes through a \<open>double\<close>, which is exact below \<open>2 ^ 52\<close>; for more there is no memory.
\<close>

definition frame_size :: "geometry \<Rightarrow> nat outcome" where
  "frame_size g = (let n = unat (width g * height g) in if n < 2 ^ 52 then Inr (n * 3 div 2) else Inl Terminated)"

definition frames_per_second :: "frame_rate \<Rightarrow> u64 outcome" where
  "frames_per_second r = (if seconds r = 0 then Inl Undefined else Inr (frames r div seconds r))"

record video_state =
  current_frame :: frame
  hw_buffer :: string
  drawn :: nat
  frames_total :: nat
  packets_total :: u32
  packets_lost :: nat
  outfile :: "u8 list"

text \<open>The body of the loop of \<open>main\<close> behind the input, and the increment at its end. The number of packets is added as a
  \<open>size_t\<close>, which wraps.\<close>

definition encode_frame :: "geometry \<Rightarrow> u64 \<Rightarrow> (string \<Rightarrow> u8 list) \<Rightarrow> (nat \<Rightarrow> nat) \<Rightarrow> video_state \<Rightarrow> video_state outcome" where
  "encode_frame g pitch encoder draw st =
     and_then (place_frame g pitch (image (current_frame st)) (hw_buffer st)) (\<lambda>hw.
     let buf = encoder hw;
         units = nal_parse_units buf
     in and_then (lose_units draw units 0 (drawn st) (packets_lost st) buf) (\<lambda>(k, lost, buf).
        and_then (add_int (frames_total st) 1) (\<lambda>frames_seen.
        Inr (st\<lparr>hw_buffer := hw, drawn := k, frames_total := frames_seen,
               packets_total := packets_total st + of_nat (length units), packets_lost := lost,
               outfile := outfile st @ buf\<rparr>))))"

partial_function (option) encode_loop ::
    "geometry \<Rightarrow> u64 \<Rightarrow> (string \<Rightarrow> u8 list) \<Rightarrow> (nat \<Rightarrow> nat) \<Rightarrow> istream \<Rightarrow> video_state \<Rightarrow> video_state outcome option" where
  "encode_loop g pitch encoder draw s st =
     (if ok s then
        (case read_frame (current_frame st) s of (f, s) \<Rightarrow>
          case encode_frame g pitch encoder draw (st\<lparr>current_frame := f\<rparr>) of
            Inl e \<Rightarrow> Some (Inl e)
          | Inr st \<Rightarrow> encode_loop g pitch encoder draw s st)
      else Some (Inr st))"

text \<open>The program on the text of a file; it returns early when the header cannot be read.\<close>

definition run_video ::
    "u64 \<Rightarrow> string \<Rightarrow> (string \<Rightarrow> u8 list) \<Rightarrow> (nat \<Rightarrow> nat) \<Rightarrow> string \<Rightarrow> video_state option outcome option" where
  "run_video pitch hw encoder draw text =
     (case read_header (open_stream text) of
        Inl e \<Rightarrow> Some (Inl e)
      | Inr (h, s) \<Rightarrow>
          if \<not> ok s then Some (Inr None)
          else (case frames_per_second (rate_of h) of
            Inl e \<Rightarrow> Some (Inl e)
          | Inr _ \<Rightarrow> (case frame_size (geometry_of h) of
              Inl e \<Rightarrow> Some (Inl e)
            | Inr n \<Rightarrow>
                Option.bind (encode_loop (geometry_of h) pitch encoder draw s
                  \<lparr>current_frame = new_frame n, hw_buffer = hw, drawn = 0, frames_total = 0, packets_total = 0,
                   packets_lost = 0, outfile = []\<rparr>) (\<lambda>r.
                Some (and_then r (\<lambda>st. Inr (Some st)))))))"

section \<open>Reading of well-formed text\<close>

definition at :: "istream \<Rightarrow> string \<Rightarrow> bool" where
  "at s t \<longleftrightarrow> \<not> eof_bit s \<and> \<not> fail_bit s \<and> ipos s \<le> length (chars s) \<and> rest s = t"

lemma at_ok: "at s t \<Longrightarrow> ok s"
  by (simp add: at_def ok_def)

lemma at_open: "at (open_stream t) t"
  by (simp add: at_def open_stream_def rest_def)

lemma rest_skip: "rest (skip n s) = drop n (rest s)"
  by (simp add: rest_def skip_def add.commute)

lemma at_skip: "at s (u @ t) \<Longrightarrow> length u = n \<Longrightarrow> at (skip n s) t"
proof -
  assume a: "at s (u @ t)" "length u = n"
  then have "length (chars s) - ipos s = n + length t" by (metis at_def length_append length_drop rest_def)
  then show "at (skip n s) t" using a rest_skip[of n s] by (auto simp: at_def) (auto simp: skip_def)
qed

lemma takeWhile_block: "\<forall>c\<in>set u. P c \<Longrightarrow> t = [] \<or> \<not> P (hd t) \<Longrightarrow> takeWhile P (u @ t) = u"
  by (induction u) (cases t; simp)+

lemma sentry_at: "at s t \<Longrightarrow> sentry s = (True, s)"
  by (simp add: at_def sentry_def)

lemma sentry_ws_at:
  assumes "at s (ws @ c # t)" "\<forall>c\<in>set ws. is_space c" "\<not> is_space c"
  shows "sentry_ws s = (True, skip (length ws) s) \<and> at (skip (length ws) s) (c # t)"
proof -
  have "takeWhile is_space (rest s) = ws" using assms takeWhile_block[of ws is_space "c # t"] by (simp add: at_def)
  moreover have a: "at (skip (length ws) s) (c # t)" using at_skip[OF assms(1) refl] .
  ultimately show ?thesis using assms(1) by (auto simp: sentry_ws_def at_def Let_def)
qed

lemma read_char_at:
  assumes "at s (ws @ c # t)" "\<forall>c\<in>set ws. is_space c" "\<not> is_space c"
  shows "read_char s = (Some c, skip 1 (skip (length ws) s)) \<and> at (skip 1 (skip (length ws) s)) t"
proof -
  have a: "sentry_ws s = (True, skip (length ws) s)" "at (skip (length ws) s) (c # t)" using sentry_ws_at[OF assms] by auto
  then have "at (skip 1 (skip (length ws) s)) t" using at_skip[of _ "[c]" t] by simp
  then show ?thesis using a by (simp add: read_char_def at_def)
qed

lemma literal_char_at:
  assumes "at s (ws @ c # t)" "\<forall>c\<in>set ws. is_space c" "\<not> is_space c"
  shows "at (literal_char c s) t"
  using read_char_at[OF assms] at_ok[OF assms(1)] by (simp add: literal_char_def)

lemma literal_string_at:
  assumes "at s (ws @ lit @ t)" "\<forall>c\<in>set ws. is_space c" "lit \<noteq> []" "\<forall>c\<in>set lit. \<not> is_space c"
  shows "at (literal_string lit s) t"
proof -
  obtain c u where l: "lit = c # u" using assms(3) by (cases lit) auto
  have a: "sentry_ws s = (True, skip (length ws) s)" "at (skip (length ws) s) (lit @ t)"
    using sentry_ws_at[of s ws c "u @ t"] assms l by auto
  have w: "takeWhile (\<lambda>c. \<not> is_space c) (rest (skip (length ws) s)) = lit @ takeWhile (\<lambda>c. \<not> is_space c) t"
    using assms(4) a(2) by (simp add: takeWhile_append2 at_def)
  have "read_word (Some (length lit)) s = (Some lit, skip (length lit) (skip (length ws) s))"
    by (simp add: read_word_def note_eof_def Let_def a(1) w)
  then show ?thesis using at_skip[OF a(2) refl] at_ok[OF assms(1)] assms(3) by (simp add: literal_string_def)
qed

fun decimal :: "nat \<Rightarrow> string" where
  "decimal n = (if n < 10 then [char_of (48 + n)] else decimal (n div 10) @ [char_of (48 + n mod 10)])"

declare decimal.simps [simp del]

lemma digit_char: "d < 10 \<Longrightarrow> is_digit (char_of (48 + d)) \<and> digit (char_of (48 + d)) = d"
proof -
  assume "d < 10"
  then have "d \<in> set [0..<10]" by simp
  moreover have "\<forall>d\<in>set [0..<10]. is_digit (char_of (48 + d)) \<and> digit (char_of (48 + d)) = d" by code_simp
  ultimately show "is_digit (char_of (48 + d)) \<and> digit (char_of (48 + d)) = d" by blast
qed

lemma decimal_digits: "decimal n \<noteq> [] \<and> (\<forall>c\<in>set (decimal n). is_digit c) \<and> number (decimal n) = n"
proof (induction n rule: decimal.induct)
  case (1 n)
  show ?case
  proof (cases "n < 10")
    case True
    then show ?thesis using digit_char by (simp add: decimal.simps[of n] number_def)
  next
    case False
    then show ?thesis using 1[OF False] digit_char[of "n mod 10"] by (auto simp: decimal.simps[of n] number_def)
  qed
qed

lemma not_digit_space: "is_digit c \<Longrightarrow> \<not> is_space c \<and> c \<noteq> CHR ''+'' \<and> c \<noteq> CHR ''-''"
  by (auto simp: is_digit_def is_space_def)

lemma read_size_at:
  assumes "at s (decimal n @ c # t)" "\<not> is_digit c" "n < 2 ^ 64"
  shows "\<exists>s'. read_size s = (Some (of_nat n), s') \<and> at s' (c # t)"
proof -
  obtain d u where d: "decimal n = d # u" using decimal_digits[of n] by (cases "decimal n") auto
  have dig: "is_digit d" using decimal_digits[of n] d by auto
  have a: "sentry_ws s = (True, skip 0 s)" "at (skip 0 s) (decimal n @ c # t)"
    using sentry_ws_at[of s "[]" d "u @ c # t"] assms(1) d not_digit_space[OF dig] by auto
  have ds: "takeWhile is_digit (rest (skip 0 s)) = decimal n"
    using a(2) takeWhile_block[of "decimal n" is_digit "c # t"] decimal_digits assms(2) by (simp add: at_def)
  have r: "hd (rest (skip 0 s)) = d" using a(2) d by (simp add: at_def)
  have e: "at (skip (length (decimal n)) (skip 0 s)) (c # t)" by (rule at_skip[OF a(2) refl])
  then have "note_eof True (skip (length (decimal n)) (skip 0 s)) = skip (length (decimal n)) (skip 0 s)"
    by (simp add: note_eof_def at_def)
  then have "read_size s = (Some (of_nat n), skip (length (decimal n)) (skip 0 s))"
    using a(1) ds r not_digit_space[OF dig] decimal_digits[of n] assms(3) unfolding read_size_def by (simp add: Let_def)
  then show ?thesis using e by blast
qed

lemma peek_next_char_at:
  assumes "at s (ws @ c # t)" "\<forall>c\<in>set ws. is_space c" "\<not> is_space c"
  shows "peek_next_char s = (c, s)"
proof -
  have f: "\<not> fail_bit s" "\<not> eof_bit s" "ok s" using assms(1) by (auto simp: at_def ok_def)
  then have "seekg (int (ipos s)) (skip 1 (skip (length ws) s)) = s" by (simp add: seekg_def skip_def)
  then show ?thesis using read_char_at[OF assms] f by (simp add: peek_next_char_def tellg_def sentry_def)
qed


definition line_feed :: string where
  "line_feed = [CHR 0x0A]"

definition header_text :: "nat \<Rightarrow> nat \<Rightarrow> nat \<Rightarrow> nat \<Rightarrow> char \<Rightarrow> nat \<Rightarrow> nat \<Rightarrow> string" where
  "header_text w h f n i a b =
     ''YUV4MPEG2'' @ '' W'' @ decimal w @ '' H'' @ decimal h @ '' F'' @ decimal f @ '':'' @ decimal n @
     '' I'' @ [i] @ '' A'' @ decimal a @ '':'' @ decimal b @ line_feed"

lemma space_chars: "is_space (CHR '' '')" "is_space (CHR 0x0A)" "\<not> is_digit (CHR '' '')" "\<not> is_digit (CHR 0x0A)" "\<not> is_digit (CHR '':'')"
  "\<not> is_space (CHR ''W'')" "\<not> is_space (CHR ''H'')" "\<not> is_space (CHR ''F'')" "\<not> is_space (CHR '':'')" "\<not> is_space (CHR ''I'')"
  "\<not> is_space (CHR ''A'')"
  by (simp_all add: is_space_def is_digit_def)

lemma read_field:
  assumes "at s (ws @ c # decimal n @ d # t)" "\<forall>c\<in>set ws. is_space c" "\<not> is_space c" "\<not> is_digit d" "n < 2 ^ 64"
  shows "\<exists>s'. read_size (literal_char c s) = (Some (of_nat n), s') \<and> at s' (d # t)"
  using read_size_at[OF literal_char_at[OF assms(1-3)] assms(4,5)] .

lemma read_header_at:
  assumes "w < 2 ^ 64" "h < 2 ^ 64" "f < 2 ^ 64" "n < 2 ^ 64" "a < 2 ^ 64" "b < 2 ^ 64"
    and i: "(i, k) \<in> {(CHR ''p'', Progressive), (CHR ''t'', Top_first), (CHR ''b'', Bottom_first), (CHR ''m'', Mixed_mode)}"
    and t: "t = c # u" "\<not> is_space c" "c \<noteq> CHR ''C''" "c \<noteq> CHR ''X''"
  shows "\<exists>s. read_header (open_stream (header_text w h f n i a b @ t)) =
    Inr (\<lparr>geometry_of = \<lparr>width = of_nat w, height = of_nat h\<rparr>, rate_of = \<lparr>frames = of_nat f, seconds = of_nat n\<rparr>,
          interlacing_of = Some k, ratio_of = \<lparr>numerator = of_nat a, denominator = of_nat b\<rparr>\<rparr>, s) \<and> at s (line_feed @ t)"
proof -
  define t6 where "t6 = line_feed @ t"
  define t5 where "t5 = CHR '' '' # CHR ''A'' # decimal a @ CHR '':'' # decimal b @ t6"
  define t4 where "t4 = CHR '' '' # CHR ''I'' # i # t5"
  define t3 where "t3 = CHR '' '' # CHR ''F'' # decimal f @ CHR '':'' # decimal n @ t4"
  define t1 where "t1 = CHR '' '' # CHR ''W'' # decimal w @ CHR '' '' # CHR ''H'' # decimal h @ t3"
  have whole: "header_text w h f n i a b @ t = [] @ ''YUV4MPEG2'' @ t1"
    by (simp add: header_text_def t1_def t3_def t4_def t5_def t6_def)
  let ?s = "open_stream (header_text w h f n i a b @ t)"
  have a1: "at (literal_string ''YUV4MPEG2'' ?s) t1"
    by (rule literal_string_at[of _ "[]"]) (use at_open[of "header_text w h f n i a b @ t"] whole in \<open>auto simp: is_space_def\<close>)
  obtain s1 where s1: "read_size (literal_char (CHR ''W'') (literal_string ''YUV4MPEG2'' ?s)) = (Some (of_nat w), s1)"
      "at s1 (CHR '' '' # CHR ''H'' # decimal h @ t3)"
    using read_field[of _ "[CHR '' '']" "CHR ''W''" w "CHR '' ''"] a1 assms(1) space_chars unfolding t1_def by fastforce
  obtain s2 where s2: "read_size (literal_char (CHR ''H'') s1) = (Some (of_nat h), s2)" "at s2 t3"
    using read_field[of s1 "[CHR '' '']" "CHR ''H''" h "CHR '' ''"] s1(2) assms(2) space_chars unfolding t3_def by fastforce
  obtain s3 where s3: "read_size (literal_char (CHR ''F'') s2) = (Some (of_nat f), s3)" "at s3 (CHR '':'' # decimal n @ t4)"
    using read_field[of s2 "[CHR '' '']" "CHR ''F''" f "CHR '':''"] s2(2) assms(3) space_chars unfolding t3_def by fastforce
  obtain s4 where s4: "read_size (literal_char (CHR '':'') s3) = (Some (of_nat n), s4)" "at s4 t4"
    using read_field[of s3 "[]" "CHR '':''" n "CHR '' ''"] s3(2) assms(4) space_chars unfolding t4_def by fastforce
  have a5: "at (literal_char (CHR ''I'') s4) (i # t5)"
    by (rule literal_char_at[of _ "[CHR '' '']"]) (use s4(2) space_chars in \<open>auto simp: t4_def\<close>)
  have "\<not> is_space i" using i by (auto simp: is_space_def)
  then obtain s5 where s5: "read_char (literal_char (CHR ''I'') s4) = (Some i, s5)" "at s5 t5"
    using read_char_at[of _ "[]" i t5] a5 by fastforce
  obtain s6 where s6: "read_size (literal_char (CHR ''A'') s5) = (Some (of_nat a), s6)" "at s6 (CHR '':'' # decimal b @ t6)"
    using read_field[of s5 "[CHR '' '']" "CHR ''A''" a "CHR '':''"] s5(2) assms(5) space_chars unfolding t5_def by fastforce
  obtain s7 where s7: "read_size (literal_char (CHR '':'') s6) = (Some (of_nat b), s7)" "at s7 t6"
    using read_field[of s6 "[]" "CHR '':''" b "CHR 0x0A"] s6(2) assms(6) space_chars unfolding t6_def line_feed_def by fastforce
  have p: "peek_next_char s7 = (c, s7)"
    by (rule peek_next_char_at[of _ line_feed _ u]) (use s7(2) t space_chars in \<open>auto simp: t6_def line_feed_def\<close>)
  have g: "read_geometry \<lparr>width = 0, height = 0\<rparr> (literal_string ''YUV4MPEG2'' ?s) = (\<lparr>width = of_nat w, height = of_nat h\<rparr>, s2)"
    using at_ok[OF a1] s1(1) s2(1) by (simp add: read_geometry_def stored_def)
  have r: "read_framerate \<lparr>frames = 0, seconds = 1\<rparr> s2 = (\<lparr>frames = of_nat f, seconds = of_nat n\<rparr>, s4)"
    using at_ok[OF s2(2)] s3(1) s4(1) by (simp add: read_framerate_def stored_def)
  have j: "read_interlacing None s4 = Inr (Some k, s5)"
    using at_ok[OF s4(2)] s5(1) i by (auto simp: read_interlacing_def)
  have q: "read_ratio \<lparr>numerator = 0, denominator = 0\<rparr> s5 = (\<lparr>numerator = of_nat a, denominator = of_nat b\<rparr>, s7)"
    using at_ok[OF s5(2)] s6(1) s7(1) by (simp add: read_ratio_def stored_def)
  have "read_header ?s = Inr (\<lparr>geometry_of = \<lparr>width = of_nat w, height = of_nat h\<rparr>, rate_of = \<lparr>frames = of_nat f, seconds = of_nat n\<rparr>,
          interlacing_of = Some k, ratio_of = \<lparr>numerator = of_nat a, denominator = of_nat b\<rparr>\<rparr>, s7)"
    using t(3,4) by (simp add: read_header_def g r j q p)
  then show ?thesis using s7(2) unfolding t6_def by blast
qed

section \<open>The frames of a file\<close>

definition frame_text :: "string \<Rightarrow> string" where
  "frame_text img = ''FRAME'' @ line_feed @ img"

lemma read_frame_at:
  assumes "at s (ws @ frame_text img @ t)" "\<forall>c\<in>set ws. is_space c" "length img = length (image f)"
  shows "\<exists>s'. read_frame f s = (f\<lparr>image := img\<rparr>, s') \<and> at s' t"
proof -
  let ?s1 = "literal_string ''FRAME'' s"
  have a1: "at ?s1 (line_feed @ img @ t)"
    by (rule literal_string_at[of _ ws]) (use assms in \<open>auto simp: frame_text_def is_space_def\<close>)
  have p: "peek ?s1 = (Some (CHR 0x0A), ?s1)"
    using a1 sentry_at[OF a1] by (simp add: peek_def at_def line_feed_def)
  have i: "ignore1 ?s1 = skip 1 ?s1" using a1 sentry_at[OF a1] by (simp add: ignore1_def at_def line_feed_def)
  have a2: "at (skip 1 ?s1) (img @ t)" using at_skip[OF a1] by (simp add: line_feed_def)
  have "read_block (image f) (skip 1 ?s1) = (img, skip (length img) (skip 1 ?s1))"
    using a2 sentry_at[OF a2] assms(3) by (simp add: read_block_def at_def Let_def)
  then have "read_frame f s = (f\<lparr>image := img\<rparr>, skip (length img) (skip 1 ?s1))"
    using at_ok[OF assms(1)] p i by (simp add: read_frame_def)
  then show ?thesis using at_skip[OF a2 refl] by blast
qed

text \<open>A read at the end of the file fails and leaves the frame as it was.\<close>

lemma read_frame_end:
  assumes "at s ws" "\<forall>c\<in>set ws. is_space c"
  shows "\<exists>s'. read_frame f s = (f, s') \<and> \<not> ok s'"
proof -
  have "takeWhile is_space ws = ws" using assms(2) by (simp only: takeWhile_eq_all_conv)
  then have "length (takeWhile is_space (rest s)) = length ws" using assms(1) unfolding at_def by metis
  moreover have "at (skip (length ws) s) []" using at_skip[of s ws "[]"] assms(1) by simp
  ultimately have w: "\<exists>s'. sentry_ws s = (False, s') \<and> fail_bit s'"
    using assms(1) by (simp add: sentry_ws_def at_def set_fail_def Let_def)
  then obtain s1 where s1: "sentry_ws s = (False, s1)" "fail_bit s1" by blast
  have l: "literal_string ''FRAME'' s = set_fail s1"
    using at_ok[OF assms(1)] s1 by (simp add: literal_string_def read_word_def)
  have z: "sentry r = (False, set_fail r)" "sentry_ws r = (False, set_fail r)" if "fail_bit r" for r
    using that by (simp_all add: sentry_def sentry_ws_def)
  have "fail_bit (set_fail r)" for r by (simp add: set_fail_def)
  then show ?thesis using at_ok[OF assms(1)]
    by (simp add: read_frame_def l peek_def z read_word_def read_block_def stored_def ok_def)
qed

fun encode_all ::
    "geometry \<Rightarrow> u64 \<Rightarrow> (string \<Rightarrow> u8 list) \<Rightarrow> (nat \<Rightarrow> nat) \<Rightarrow> string list \<Rightarrow> video_state \<Rightarrow> video_state outcome" where
  "encode_all g pitch encoder draw [] st = Inr st"
| "encode_all g pitch encoder draw (img # imgs) st =
     and_then (encode_frame g pitch encoder draw (st\<lparr>current_frame := (current_frame st)\<lparr>image := img\<rparr>\<rparr>))
       (encode_all g pitch encoder draw imgs)"

lemma encode_frame_keeps: "encode_frame g pitch encoder draw st = Inr st' \<Longrightarrow> current_frame st' = current_frame st"
  by (auto simp: encode_frame_def Let_def and_then_eq_Inr_iff)

lemma encode_frame_counts: "encode_frame g pitch encoder draw st = Inr st' \<Longrightarrow> frames_total st' = Suc (frames_total st)"
  by (auto simp: encode_frame_def Let_def and_then_eq_Inr_iff add_int_def split: if_splits)

lemma encode_all_counts:
  "encode_all g pitch encoder draw imgs st = Inr st' \<Longrightarrow> frames_total st' = frames_total st + length imgs"
proof (induction imgs arbitrary: st)
  case (Cons img imgs)
  then obtain t where "encode_frame g pitch encoder draw (st\<lparr>current_frame := (current_frame st)\<lparr>image := img\<rparr>\<rparr>) = Inr t"
    "encode_all g pitch encoder draw imgs t = Inr st'" by (auto simp: and_then_eq_Inr_iff)
  then show ?case using Cons.IH[of t] encode_frame_counts by fastforce
qed simp

text \<open>The last frame is encoded again by the turn that finds the end.\<close>

lemma encode_loop_at:
  assumes "at s (ws @ concat (map frame_text imgs))" "\<forall>c\<in>set ws. is_space c"
    "\<forall>img\<in>set imgs. length img = length (image (current_frame st))"
  shows "encode_loop g pitch encoder draw s st =
    Some (encode_all g pitch encoder draw (imgs @ [last (image (current_frame st) # imgs)]) st)"
  using assms
proof (induction imgs arbitrary: s ws st)
  case Nil
  then obtain s' where s': "read_frame (current_frame st) s = (current_frame st, s')" "\<not> ok s'" using read_frame_end[of s ws] by auto
  have "ok s" using at_ok Nil(1) by blast
  then show ?case using s'
    by (subst encode_loop.simps) (simp split: sum.splits add: encode_loop.simps[of _ _ _ _ s'])
next
  case (Cons img imgs)
  have "at s (ws @ frame_text img @ concat (map frame_text imgs))" using Cons(2) by simp
  then obtain s' where s': "read_frame (current_frame st) s = ((current_frame st)\<lparr>image := img\<rparr>, s')" "at s' (concat (map frame_text imgs))"
    using read_frame_at[of s ws img "concat (map frame_text imgs)" "current_frame st"] Cons(3,4) by force
  let ?st = "st\<lparr>current_frame := (current_frame st)\<lparr>image := img\<rparr>\<rparr>"
  have "ok s" using at_ok Cons(2) by blast
  then have l: "encode_loop g pitch encoder draw s st = (case encode_frame g pitch encoder draw ?st of
      Inl e \<Rightarrow> Some (Inl e) | Inr st \<Rightarrow> encode_loop g pitch encoder draw s' st)"
    using s'(1) by (subst encode_loop.simps) simp
  show ?case
  proof (cases "encode_frame g pitch encoder draw ?st")
    case (Inl e)
    then show ?thesis using l by simp
  next
    case (Inr st')
    then have k: "current_frame st' = (current_frame st)\<lparr>image := img\<rparr>" using encode_frame_keeps by fastforce
    have "encode_loop g pitch encoder draw s' st' = Some (encode_all g pitch encoder draw (imgs @ [last (img # imgs)]) st')"
      using Cons(1)[of s' "[]" st'] s'(2) Cons(4) k by simp
    then show ?thesis using l Inr by simp
  qed
qed


section \<open>The loop ends\<close>

text \<open>Input moves on in the text and keeps a failure.\<close>

definition advanced :: "istream \<Rightarrow> istream \<Rightarrow> bool" where
  "advanced s s' \<longleftrightarrow> chars s' = chars s \<and> ipos s \<le> ipos s' \<and> (ipos s \<le> length (chars s) \<longrightarrow> ipos s' \<le> length (chars s)) \<and>
     (fail_bit s \<longrightarrow> fail_bit s')"

lemma advanced_refl [simp]: "advanced s s"
  by (simp add: advanced_def)

lemma advanced_trans [trans]: "advanced s t \<Longrightarrow> advanced t u \<Longrightarrow> advanced s u"
  by (auto simp: advanced_def)

lemma advanced_flags [simp]: "advanced s (set_fail t) \<longleftrightarrow> advanced (s\<lparr>fail_bit := False\<rparr>) (t\<lparr>fail_bit := False\<rparr>)"
  "advanced s (t\<lparr>eof_bit := b\<rparr>) \<longleftrightarrow> advanced s t"
  by (auto simp: advanced_def set_fail_def)

lemma advanced_fail: "advanced s t \<Longrightarrow> advanced s (set_fail t)"
  by (auto simp: advanced_def set_fail_def)

lemma advanced_skip: "n \<le> length (rest s) \<Longrightarrow> advanced s (skip n s)"
  by (auto simp: advanced_def skip_def rest_def)

lemma advanced_sentry: "sentry s = (g, s') \<Longrightarrow> advanced s s'"
  by (auto simp: sentry_def advanced_def set_fail_def split: if_splits)

lemma advanced_sentry_ws: "sentry_ws s = (g, s') \<Longrightarrow> advanced s s' \<and> (g \<longrightarrow> rest s' \<noteq> [])"
proof -
  assume a: "sentry_ws s = (g, s')"
  let ?t = "skip (length (takeWhile is_space (rest s))) s"
  have m: "advanced s ?t" by (rule advanced_skip) (rule length_takeWhile_le)
  then have "advanced s (set_fail (?t\<lparr>eof_bit := True\<rparr>))" "advanced s (set_fail s)" by (auto simp: advanced_def set_fail_def)
  then show ?thesis using a m by (auto simp: sentry_ws_def Let_def split: if_splits)
qed

lemma advanced_read_word:
  assumes "read_word lim s = (w, s')"
  shows "advanced s s' \<and> (case w of Some w \<Rightarrow> ipos s + length w \<le> ipos s' | None \<Rightarrow> fail_bit s' \<or> True)"
proof -
  obtain g t where g: "sentry_ws s = (g, t)" by (metis surj_pair)
  have m: "advanced s t" using advanced_sentry_ws[OF g] by blast
  define v where "v = takeWhile (\<lambda>c. \<not> is_space c) (rest t)"
  define u where "u = (case lim of None \<Rightarrow> v | Some n \<Rightarrow> take n v)"
  have "length v \<le> length (rest t)" by (simp add: v_def length_takeWhile_le)
  then have "length u \<le> length (rest t)" by (auto simp: u_def split: option.splits)
  then have k: "advanced t (skip (length u) t)" by (rule advanced_skip)
  then have n: "advanced t (note_eof b (skip (length u) t))" for b by (simp add: note_eof_def)
  show ?thesis
  proof (cases g)
    case True
    then have r: "w = Some u" "s' = note_eof (lim \<noteq> Some (length u)) (skip (length u) t)"
      using assms g by (auto simp: read_word_def Let_def u_def v_def split: option.splits)
    have "ipos s' = ipos t + length u" by (simp add: r note_eof_def skip_def)
    moreover have "advanced s s'" unfolding r(2) by (rule advanced_trans[OF m n])
    moreover have "ipos s \<le> ipos t" using m by (simp add: advanced_def)
    ultimately show ?thesis using r(1) by simp
  next
    case False
    then show ?thesis using assms g m by (auto simp: read_word_def)
  qed
qed

lemma advanced_literal_string: "lit \<noteq> [] \<Longrightarrow> ok s \<Longrightarrow> advanced s (literal_string lit s) \<and> (ok (literal_string lit s) \<longrightarrow> ipos s < ipos (literal_string lit s))"
proof -
  assume l: "lit \<noteq> []" "ok s"
  obtain w t where w: "read_word (Some (length lit)) s = (w, t)" by (metis surj_pair)
  have m: "advanced s t" "\<And>u. w = Some u \<Longrightarrow> ipos s + length u \<le> ipos t" using advanced_read_word[OF w] by auto
  have n: "advanced s (set_fail t)" by (rule advanced_fail[OF m(1)])
  have "lit \<noteq> replicate (length lit) (CHR 0x00) \<or> fail_bit t" if "w = None"
  proof -
    obtain g r where g: "sentry_ws s = (g, r)" by (metis surj_pair)
    then have "\<not> g" "t = r" using w that by (auto simp: read_word_def Let_def split: if_splits)
    then show ?thesis using g by (auto simp: sentry_ws_def set_fail_def Let_def split: if_splits)
  qed
  moreover have "Suc 0 \<le> length lit" using l by (simp add: Suc_le_eq)
  ultimately show ?thesis using l w m n
    by (cases w) (auto simp: literal_string_def ok_def set_fail_def simp del: advanced_flags dest: m(2) split: if_splits)
qed

lemma advanced_peek: "peek s = (c, s') \<Longrightarrow> advanced s s'"
  using advanced_sentry by (auto simp: peek_def split: prod.splits if_splits)

lemma advanced_ignore: "advanced s (ignore1 s)"
proof -
  obtain g t where g: "sentry s = (g, t)" by (metis surj_pair)
  have "advanced t (skip 1 t)" if "rest t \<noteq> []" by (rule advanced_skip) (use that in \<open>simp add: Suc_le_eq\<close>)
  then show ?thesis using g advanced_sentry[OF g] advanced_trans by (auto simp: ignore1_def)
qed

lemma advanced_read_block: "read_block b s = (x, s') \<Longrightarrow> advanced s s'"
proof -
  assume a: "read_block b s = (x, s')"
  obtain g t where g: "sentry s = (g, t)" by (metis surj_pair)
  let ?t = "skip (length (take (length b) (rest t))) t"
  have "advanced t ?t" by (rule advanced_skip) simp
  then have "advanced s ?t" "advanced s t" using advanced_sentry[OF g] advanced_trans by auto
  moreover from this have "advanced s (set_fail (?t\<lparr>eof_bit := True\<rparr>))" by (auto simp: advanced_def set_fail_def)
  ultimately show ?thesis using a g by (auto simp: read_block_def Let_def split: if_splits)
qed

lemma read_frame_moves:
  assumes "ok s" "read_frame f s = (f', s')"
  shows "advanced s s' \<and> (ok s' \<longrightarrow> ipos s < ipos s')"
proof -
  let ?s1 = "literal_string ''FRAME'' s"
  have l: "advanced s ?s1" "ok ?s1 \<longrightarrow> ipos s < ipos ?s1" using advanced_literal_string[of "''FRAME''" s] assms(1) by auto
  obtain c s2 where p: "peek ?s1 = (c, s2)" by (metis surj_pair)
  obtain w s3 where w: "read_word None s2 = (w, s3)" by (metis surj_pair)
  define s4 where "s4 = (if c \<noteq> Some (CHR 0x0A) then s3 else ignore1 s2)"
  have m4: "advanced ?s1 s4" using advanced_peek[OF p] advanced_read_word[OF w] advanced_ignore[of s2] advanced_trans by (auto simp: s4_def)
  obtain b s5 where b: "read_block (image f) s4 = (b, s5)" by (metis surj_pair)
  have "s' = s5" using assms p w b by (auto simp: read_frame_def s4_def split: if_splits)
  then have "advanced ?s1 s'" using m4 advanced_read_block[OF b] advanced_trans by blast
  then show ?thesis using l advanced_trans by (auto simp: advanced_def ok_def)
qed

lemma encode_loop_ends:
  "ipos s \<le> length (chars s) \<Longrightarrow> \<exists>r. encode_loop g pitch encoder draw s st = Some r"
proof (induction "length (chars s) - ipos s" arbitrary: s st rule: less_induct)
  case less
  show ?case
  proof (cases "ok s")
    case False
    then show ?thesis by (subst encode_loop.simps) simp
  next
    case True
    obtain f s' where f: "read_frame (current_frame st) s = (f, s')" by (metis surj_pair)
    have m: "advanced s s'" "ok s' \<longrightarrow> ipos s < ipos s'" using read_frame_moves[OF True f] by auto
    have "\<exists>r. encode_loop g pitch encoder draw s' st' = Some r" for st'
    proof (cases "ok s'")
      case True
      then show ?thesis using less m by (auto simp: advanced_def)
    next
      case False
      then show ?thesis by (subst encode_loop.simps) simp
    qed
    then show ?thesis using True f by (subst encode_loop.simps) (auto split: sum.splits)
  qed
qed


definition inside :: "istream \<Rightarrow> bool" where
  "inside s \<longleftrightarrow> ipos s \<le> length (chars s)"

lemma advanced_inside: "advanced s s' \<Longrightarrow> inside s \<Longrightarrow> inside s'"
  by (simp add: advanced_def inside_def)

lemma inside_fail [simp]: "inside (set_fail s) \<longleftrightarrow> inside s"
  by (simp add: inside_def set_fail_def)

lemma advanced_read_char: "read_char s = (c, s') \<Longrightarrow> advanced s s'"
proof -
  assume a: "read_char s = (c, s')"
  obtain g t where g: "sentry_ws s = (g, t)" by (metis surj_pair)
  have m: "advanced s t" "g \<Longrightarrow> rest t \<noteq> []" using advanced_sentry_ws[OF g] by auto
  have "advanced t (skip 1 t)" if g by (rule advanced_skip) (use m(2)[OF that] in \<open>simp add: Suc_le_eq\<close>)
  then show ?thesis using a g m advanced_trans by (auto simp: read_char_def split: if_splits)
qed

lemma advanced_read_size: "read_size s = (c, s') \<Longrightarrow> advanced s s'"
proof -
  assume a: "read_size s = (c, s')"
  obtain g t where g: "sentry_ws s = (g, t)" by (metis surj_pair)
  have m: "advanced s t" "g \<Longrightarrow> rest t \<noteq> []" using advanced_sentry_ws[OF g] by auto
  show ?thesis
  proof (cases g)
    case True
    define sign where "sign = (hd (rest t) = CHR ''+'' \<or> hd (rest t) = CHR ''-'')"
    define ds where "ds = takeWhile is_digit (if sign then tl (rest t) else rest t)"
    define u where "u = note_eof True (skip ((if sign then 1 else 0) + length ds) t)"
    have "length ds \<le> length (if sign then tl (rest t) else rest t)" unfolding ds_def by (rule length_takeWhile_le)
    then have "(if sign then 1 else 0) + length ds \<le> length (rest t)" using m(2)[OF True] by (cases "rest t") (auto split: if_splits)
    then have "advanced t (skip ((if sign then 1 else 0) + length ds) t)" by (rule advanced_skip)
    then have "advanced s u" using advanced_trans[OF m(1)] by (simp add: u_def note_eof_def)
    moreover have "s' = u \<or> s' = set_fail u"
      using a g True by (auto simp: read_size_def Let_def u_def ds_def sign_def split: if_splits)
    ultimately show ?thesis using advanced_fail by auto
  qed (use a g m in \<open>auto simp: read_size_def\<close>)
qed

lemma inside_literal_char: "inside s \<Longrightarrow> inside (literal_char c s)"
proof -
  obtain x t where x: "read_char s = (x, t)" by (metis surj_pair)
  then show "inside s \<Longrightarrow> inside (literal_char c s)"
    using advanced_inside[OF advanced_read_char[OF x]] by (auto simp: literal_char_def)
qed

lemma inside_literal_string: "inside s \<Longrightarrow> inside (literal_string l s)"
proof -
  obtain x t where x: "read_word (if l = [] then None else Some (length l)) s = (x, t)" by (metis surj_pair)
  then show "inside s \<Longrightarrow> inside (literal_string l s)"
    using advanced_inside[of s t] advanced_read_word[OF x] by (auto simp: literal_string_def)
qed

lemma inside_peek_next: "inside s \<Longrightarrow> inside (snd (peek_next_char s))"
proof -
  assume i: "inside s"
  obtain g t where g: "tellg s = (g, t)" by (metis surj_pair)
  have t: "inside t" "\<not> fail_bit t \<Longrightarrow> g = int (ipos t)" using g i by (auto simp: tellg_def sentry_def inside_def set_fail_def split: if_splits)
  obtain c u where c: "read_char t = (c, u)" by (metis surj_pair)
  have u: "advanced t u" "inside u" using advanced_read_char[OF c] advanced_inside t(1) by auto
  have "inside (seekg g u)"
  proof (cases "fail_bit u")
    case True
    then show ?thesis using u(2) by (simp add: seekg_def inside_def)
  next
    case False
    then have "\<not> fail_bit t" using u(1) by (auto simp: advanced_def)
    then show ?thesis using False t u(1) by (simp add: seekg_def inside_def advanced_def)
  qed
  then show ?thesis using i g c by (simp add: peek_next_char_def)
qed

lemma inside_pair:
  assumes "inside s" "read_size (literal_char c s) = (x, t)" "read_size (literal_char d t) = (y, u)"
  shows "inside u"
  using assms inside_literal_char advanced_inside advanced_read_size by metis

lemma inside_fields:
  assumes "inside s"
  shows "inside (snd (read_geometry g s))" "inside (snd (read_framerate r s))" "inside (snd (read_ratio a s))"
    "inside (snd (read_colorspace c s))" "inside (snd (read_comment t s))"
    "read_interlacing i s = Inr (j, s') \<Longrightarrow> inside s'"
proof -
  note p = inside_pair[OF assms]
  show "inside (snd (read_geometry g s))" using assms p by (auto simp: read_geometry_def split: prod.splits)
  show "inside (snd (read_framerate r s))" using assms p by (auto simp: read_framerate_def split: prod.splits)
  show "inside (snd (read_ratio a s))" using assms p by (auto simp: read_ratio_def split: prod.splits)
  have w: "inside u" if "read_word l (literal_char ch s) = (x, u)" for l ch x u
    using advanced_read_word[OF that] inside_literal_char[OF assms] advanced_inside by blast
  show "inside (snd (read_colorspace c s))" using assms w by (auto simp: read_colorspace_def Let_def split: prod.splits)
  show "inside (snd (read_comment t s))" using assms w by (auto simp: read_comment_def split: prod.splits)
  have r: "inside u" if "read_char (literal_char ch s) = (x, u)" for ch x u
    using advanced_read_char[OF that] inside_literal_char[OF assms] advanced_inside by blast
  show "read_interlacing i s = Inr (j, s') \<Longrightarrow> inside s'"
    using assms r by (auto simp: read_interlacing_def split: prod.splits if_splits option.splits)
qed

lemma read_header_inside:
  assumes "inside s" "read_header s = Inr (h, s')"
  shows "inside s'"
proof -
  obtain g s1 where g: "read_geometry \<lparr>width = 0, height = 0\<rparr> (literal_string ''YUV4MPEG2'' s) = (g, s1)" by (metis surj_pair)
  obtain r s2 where r: "read_framerate \<lparr>frames = 0, seconds = 1\<rparr> s1 = (r, s2)" by (metis surj_pair)
  obtain i s3 where i: "read_interlacing None s2 = Inr (i, s3)"
    using assms(2) g r by (auto simp: read_header_def and_then_eq_Inr_iff)
  obtain a s4 where a: "read_ratio \<lparr>numerator = 0, denominator = 0\<rparr> s3 = (a, s4)" by (metis surj_pair)
  obtain c s5 where c: "peek_next_char s4 = (c, s5)" by (metis surj_pair)
  define s6 where "s6 = (if c = CHR ''C'' then snd (read_colorspace None s5) else s5)"
  obtain d s7 where d: "peek_next_char s6 = (d, s7)" by (metis surj_pair)
  have "inside s1" using inside_fields(1)[OF inside_literal_string[OF assms(1)]] g by (metis snd_conv)
  then have "inside s2" using inside_fields(2) r by (metis snd_conv)
  then have "inside s3" using inside_fields(6) i by blast
  then have "inside s4" using inside_fields(3) a by (metis snd_conv)
  then have "inside s5" using inside_peek_next c by (metis snd_conv)
  then have "inside s6" using inside_fields(4) by (simp add: s6_def)
  then have "inside s7" using inside_peek_next d by (metis snd_conv)
  moreover have "s' = (if d = CHR ''X'' then snd (read_comment [] s7) else s7)"
    using assms(2) g r i a c d by (auto simp: read_header_def s6_def Let_def)
  ultimately show ?thesis using inside_fields(5) by simp
qed

section \<open>The units of a stream\<close>

definition code_len :: "u8 list \<Rightarrow> nat" where
  "code_len xs = (if take 3 xs = [0, 0, 1] then 3 else if take 4 xs = [0, 0, 0, 1] then 4 else 0)"

lemma drop_unfold: "p < length xs \<Longrightarrow> drop p xs = xs ! p # drop (Suc p) xs"
  by (simp add: Cons_nth_drop_Suc)

lemma take_drop_3:
  "take 3 (drop p buf) = [a, b, c] \<longleftrightarrow> p + 3 \<le> length buf \<and> buf ! p = a \<and> buf ! (p + 1) = b \<and> buf ! (p + 2) = c"
proof (cases "p + 3 \<le> length buf")
  case True
  then have "drop p buf = buf ! p # buf ! (p + 1) # buf ! (p + 2) # drop (p + 3) buf"
    using drop_unfold[of p buf] drop_unfold[of "p + 1" buf] drop_unfold[of "p + 2" buf] by (simp add: numeral_3_eq_3)
  then show ?thesis using True by simp
qed (auto dest: arg_cong[of _ _ length])

lemma take_drop_4:
  "take 4 (drop p buf) = [a, b, c, d] \<longleftrightarrow>
    p + 4 \<le> length buf \<and> buf ! p = a \<and> buf ! (p + 1) = b \<and> buf ! (p + 2) = c \<and> buf ! (p + 3) = d"
proof (cases "p + 4 \<le> length buf")
  case True
  then have "drop p buf = buf ! p # drop (p + 1) buf" "drop (p + 1) buf = buf ! (p + 1) # drop (p + 2) buf"
    "drop (p + 2) buf = buf ! (p + 2) # drop (p + 3) buf" "drop (p + 3) buf = buf ! (p + 3) # drop (p + 4) buf"
    using drop_unfold[of p buf] drop_unfold[of "p + 1" buf] drop_unfold[of "p + 2" buf] drop_unfold[of "p + 3" buf]
    by (simp_all add: numeral_3_eq_3 eval_nat_numeral)
  then show ?thesis using True by simp
qed (auto dest: arg_cong[of _ _ length])

lemma code_offset_len:
  "p < length buf \<Longrightarrow> buf ! p = 0 \<Longrightarrow> code_offset buf p = (if code_len (drop p buf) = 0 then 1 else code_len (drop p buf))"
  by (auto simp: code_offset_def code_len_def take_drop_3 take_drop_4 Let_def)

lemma code_len_nonzero: "p < length buf \<Longrightarrow> buf ! p \<noteq> 0 \<Longrightarrow> code_len (drop p buf) = 0"
  by (simp add: code_len_def take_drop_3 take_drop_4)

lemma code_len_cases: "code_len xs \<in> {0, 3, 4}"
  by (simp add: code_len_def)

text \<open>One byte, or one start code, at a time.\<close>

lemma parse_loop_step:
  assumes "p < length buf"
  shows "parse_loop buf p units =
    (let k = code_len (drop p buf)
     in if k = 0 then parse_loop buf (Suc p) units
        else parse_loop buf (p + k) (close_unit p units @ [\<lparr>unit_data = p + k, unit_size = 0\<rparr>]))"
proof (cases "buf ! p = 0")
  case True
  then have "find_zero buf p = p" using drop_unfold[OF assms] by (simp add: find_zero_def)
  then show ?thesis
    using assms True code_offset_len[OF assms True] code_len_cases[of "drop p buf"]
    by (subst parse_loop.simps) (auto simp: Let_def)
next
  case False
  have f: "find_zero buf p = find_zero buf (Suc p)" using drop_unfold[OF assms] False by (simp add: find_zero_def)
  have "parse_loop buf p units = parse_loop buf (Suc p) units"
  proof (cases "Suc p < length buf")
    case True
    then show ?thesis using assms f by (simp add: parse_loop.simps[of buf p] parse_loop.simps[of buf "Suc p"])
  next
    case last: False
    then have e: "find_zero buf p = length buf" unfolding f using assms by (simp add: find_zero_def)
    have "code_offset buf (length buf) = 0" by (simp add: code_offset_def)
    moreover have "parse_loop buf (length buf) units = units" "parse_loop buf (Suc p) units = units"
      using last by (simp_all add: parse_loop.simps)
    ultimately show ?thesis using assms e by (subst parse_loop.simps) simp
  qed
  then show ?thesis using code_len_nonzero[OF assms False] by simp
qed

definition no_code :: "u8 list \<Rightarrow> u8 list \<Rightarrow> bool" where
  "no_code q r \<longleftrightarrow> (\<forall>k<length q. code_len (drop k (q @ r)) = 0)"

lemma parse_loop_walk:
  "no_code q r \<Longrightarrow> parse_loop (pre @ q @ r) (length pre) units = parse_loop (pre @ q @ r) (length pre + length q) units"
proof (induction q arbitrary: pre)
  case (Cons x q)
  have "code_len ((x # q) @ r) = 0" using Cons(2) by (auto simp: no_code_def dest: spec[of _ 0])
  moreover have "no_code q r" using Cons(2) by (force simp: no_code_def dest: spec[of _ "Suc _"])
  ultimately show ?case
    using Cons(1)[of "pre @ [x]"] parse_loop_step[of "length pre" "pre @ (x # q) @ r" units] by (simp add: Let_def)
qed simp

definition start_code :: "bool \<Rightarrow> u8 list" where
  "start_code long = (if long then [0, 0, 0, 1] else [0, 0, 1])"

definition unit_stream :: "(bool \<times> u8 list) list \<Rightarrow> u8 list" where
  "unit_stream us = concat (map (\<lambda>(long, q). start_code long @ q) us)"

text \<open>A payload has no start code in it and does not end with zero.\<close>

definition codeless :: "u8 list \<Rightarrow> bool" where
  "codeless q \<longleftrightarrow> (\<forall>k<length q. take 3 (drop k q) \<noteq> [0, 0, 1])"

definition payload :: "u8 list \<Rightarrow> bool" where
  "payload q \<longleftrightarrow> codeless q \<and> (q = [] \<or> last q \<noteq> 0)"

lemma codeless_Cons: "codeless (x # q) \<longleftrightarrow> take 3 (x # q) \<noteq> [0, 0, 1] \<and> codeless q"
  by (auto simp: codeless_def nth_Cons less_Suc_eq_0_disj)

lemma payload_no_code:
  assumes "payload q"
  shows "no_code q r"
  unfolding no_code_def
proof (intro allI impI)
  fix k assume k: "k < length q"
  have "q \<noteq> []" using k by auto
  then have q: "q ! (length q - 1) \<noteq> 0" using assms last_conv_nth[of q] by (simp add: payload_def)
  have inner: "\<not> (j + 3 \<le> length q \<and> q ! j = 0 \<and> q ! (j + 1) = 0 \<and> q ! (j + 2) = 1)" for j
  proof
    assume a: "j + 3 \<le> length q \<and> q ! j = 0 \<and> q ! (j + 1) = 0 \<and> q ! (j + 2) = 1"
    then have "take 3 (drop j q) = [0, 0, 1]" by (simp add: take_drop_3)
    then show False using assms a by (auto simp: payload_def codeless_def)
  qed
  have nth: "i < length q \<Longrightarrow> (q @ r) ! i = q ! i" for i by (simp add: nth_append)
  have "take 3 (drop k (q @ r)) \<noteq> [0, 0, 1]"
  proof
    assume "take 3 (drop k (q @ r)) = [0, 0, 1]"
    then have a: "(q @ r) ! k = 0" "(q @ r) ! (k + 1) = 0" "(q @ r) ! (k + 2) = 1" unfolding take_drop_3 by auto
    consider "length q = k + 1" | "length q = k + 2" | "k + 3 \<le> length q" using k by linarith
    then show False using a q inner[of k] nth[of k] nth[of "k + 1"] nth[of "k + 2"] k by cases auto
  qed
  moreover have "take 4 (drop k (q @ r)) \<noteq> [0, 0, 0, 1]"
  proof
    assume "take 4 (drop k (q @ r)) = [0, 0, 0, 1]"
    then have a: "(q @ r) ! k = 0" "(q @ r) ! (k + 1) = 0" "(q @ r) ! (k + 2) = 0" "(q @ r) ! (k + 3) = 1"
      unfolding take_drop_4 by auto
    consider "length q = k + 1" | "length q = k + 2" | "length q = k + 3" | "k + 4 \<le> length q" using k by linarith
    then show False
      using a q inner[of "k + 1"] nth[of k] nth[of "k + 1"] nth[of "k + 2"] nth[of "k + 3"] k
      by cases (auto simp: eval_nat_numeral)
  qed
  ultimately show "code_len (drop k (q @ r)) = 0" by (simp add: code_len_def)
qed

fun layout :: "nat \<Rightarrow> (bool \<times> u8 list) list \<Rightarrow> network_unit list" where
  "layout p [] = []"
| "layout p ((long, q) # us) =
     \<lparr>unit_data = p + length (start_code long), unit_size = length q\<rparr> # layout (p + length (start_code long) + length q) us"

lemma code_len_start: "code_len (start_code long @ xs) = length (start_code long) \<and> 0 < length (start_code long)"
  by (simp add: code_len_def start_code_def eval_nat_numeral)

lemma parse_stream:
  "(\<forall>u\<in>set us. payload (snd u)) \<Longrightarrow>
    close_unit (length (pre @ unit_stream us)) (parse_loop (pre @ unit_stream us) (length pre) units) =
    close_unit (length pre) units @ layout (length pre) us"
proof (induction us arbitrary: pre units)
  case Nil
  then show ?case by (simp add: unit_stream_def parse_loop.simps)
next
  case (Cons u us)
  obtain long q where u: "u = (long, q)" by (cases u)
  let ?c = "start_code long"
  let ?buf = "pre @ ?c @ q @ unit_stream us"
  have buf: "pre @ unit_stream (u # us) = ?buf" by (simp add: unit_stream_def u)
  let ?units = "close_unit (length pre) units @ [\<lparr>unit_data = length pre + length ?c, unit_size = 0\<rparr>]"
  have "length pre < length ?buf" using code_len_start[of long] by simp
  then have "parse_loop ?buf (length pre) units = parse_loop ?buf (length pre + length ?c) ?units"
    using code_len_start[of long "q @ unit_stream us"] by (simp add: parse_loop_step Let_def)
  also have "\<dots> = parse_loop ?buf (length pre + length ?c + length q) ?units"
    using parse_loop_walk[OF payload_no_code, of q "pre @ ?c" "unit_stream us" ?units] Cons(2) u by simp
  finally have "close_unit (length ?buf) (parse_loop ?buf (length pre) units) =
      close_unit (length (pre @ ?c @ q)) ?units @ layout (length (pre @ ?c @ q)) us"
    using Cons(1)[of "pre @ ?c @ q" ?units] Cons(2) by (simp add: add.assoc)
  also have "\<dots> = close_unit (length pre) units @ layout (length pre) (u # us)"
    by (simp add: close_unit_def u add.assoc)
  finally show ?case by (simp only: buf)
qed

text \<open>The bytes in front of the first start code may end with zeros, which the code then begins with.\<close>

lemma code_behind_lead:
  assumes "codeless (x # lead)" "code_len ((x # lead) @ start_code long @ xs) \<noteq> 0"
  shows "x # lead = [0]" "code_len ((x # lead) @ start_code long @ xs) = Suc (length (start_code long))"
proof -
  have n: "take 3 (x # lead) \<noteq> [0, 0, 1]" using assms(1) by (simp add: codeless_Cons)
  have m: "lead \<noteq> [] \<Longrightarrow> take 3 lead \<noteq> [0, 0, 1]" using assms(1) by (cases lead) (simp_all add: codeless_Cons)
  have "x # lead = [0] \<and> \<not> long"
  proof (cases lead rule: remdups_adj.cases)
    case 1
    then show ?thesis using assms(2) by (cases long) (auto simp: code_len_def start_code_def eval_nat_numeral split: if_splits)
  next
    case (2 y)
    then show ?thesis using assms(2) by (cases long) (auto simp: code_len_def start_code_def eval_nat_numeral split: if_splits)
  next
    case (3 y z ys)
    then show ?thesis using assms(2) n m
      by (cases ys; cases long) (auto simp: code_len_def start_code_def eval_nat_numeral split: if_splits)
  qed
  then show "x # lead = [0]" "code_len ((x # lead) @ start_code long @ xs) = Suc (length (start_code long))"
    by (simp_all add: code_len_def start_code_def eval_nat_numeral)
qed

lemma parse_lead:
  assumes "codeless lead"
  shows "parse_loop (pre @ lead @ start_code long @ xs) (length pre) [] =
    parse_loop (pre @ lead @ start_code long @ xs) (length pre + length lead + length (start_code long))
      [\<lparr>unit_data = length pre + length lead + length (start_code long), unit_size = 0\<rparr>]"
  using assms
proof (induction lead arbitrary: pre)
  case Nil
  then show ?case using code_len_start[of long xs]
    by (subst parse_loop_step) (simp_all add: Let_def close_unit_def)
next
  case (Cons x lead)
  let ?buf = "pre @ (x # lead) @ start_code long @ xs"
  have step: "parse_loop ?buf (length pre) [] =
    (let k = code_len ((x # lead) @ start_code long @ xs)
     in if k = 0 then parse_loop ?buf (Suc (length pre)) []
        else parse_loop ?buf (length pre + k) (close_unit (length pre) [] @ [\<lparr>unit_data = length pre + k, unit_size = 0\<rparr>]))"
    by (subst parse_loop_step) simp_all
  show ?case
  proof (cases "code_len ((x # lead) @ start_code long @ xs) = 0")
    case True
    then show ?thesis using Cons.IH[of "pre @ [x]"] Cons.prems step by (simp add: Let_def codeless_Cons)
  next
    case False
    have "lead = []" "code_len ((x # lead) @ start_code long @ xs) = Suc (length (start_code long))"
      using code_behind_lead[OF Cons.prems False] by simp_all
    then show ?thesis using step by (simp add: close_unit_def)
  qed
qed

lemma codeless_no_code: "codeless q \<Longrightarrow> no_code q []"
  unfolding no_code_def
proof (intro allI impI)
  fix k assume q: "codeless q" "k < length q"
  have "take 4 (drop k q) \<noteq> [0, 0, 0, 1]"
  proof
    assume a: "take 4 (drop k q) = [0, 0, 0, 1]"
    then have "take 3 (drop (k + 1) q) = [0, 0, 1]" unfolding take_drop_3 take_drop_4 by (auto simp: numeral_3_eq_3)
    moreover have "k + 1 < length q" using a unfolding take_drop_4 by simp
    ultimately have "take 3 (drop (k + 1) q) = [0, 0, 1]" "k + 1 < length q" .
    then show False using q(1) by (simp add: codeless_def)
  qed
  then show "code_len (drop k (q @ [])) = 0" using q by (simp add: code_len_def codeless_def)
qed

lemma layout_data:
  "map (\<lambda>u. take (unit_size u) (drop (unit_data u) (pre @ unit_stream us))) (layout (length pre) us) = map snd us"
proof (induction us arbitrary: pre)
  case (Cons u us)
  obtain long q where u: "u = (long, q)" by (cases u)
  show ?case using Cons[of "pre @ start_code long @ q"] by (simp add: u unit_stream_def add.assoc)
qed simp

section \<open>Rows\<close>

lemma copy_n_nth:
  assumes "a + n \<le> length src" "b + n \<le> length dst"
  shows "\<exists>d. copy_n src a n dst b = Inr d \<and> length d = length dst \<and>
    (\<forall>x<length dst. d ! x = (if b \<le> x \<and> x < b + n then src ! (a + (x - b)) else dst ! x))"
  using assms by (auto simp: copy_n_def nth_append)

lemma copy_rows_spec:
  assumes "n < 2 ^ 31" "\<And>i. i < n \<Longrightarrow> from_row i + m \<le> length src" "\<And>i. i < n \<Longrightarrow> to_row i + m \<le> length dst"
    and "\<And>i j. i < j \<Longrightarrow> j < n \<Longrightarrow> to_row i + m \<le> to_row j"
  shows "\<exists>d. copy_rows n src from_row m to_row dst = Inr d \<and> length d = length dst \<and>
    (\<forall>i<n. \<forall>x<m. d ! (to_row i + x) = src ! (from_row i + x)) \<and>
    (\<forall>x<length dst. (\<forall>i<n. x < to_row i \<or> to_row i + m \<le> x) \<longrightarrow> d ! x = dst ! x)"
proof -
  have "\<exists>d. fold (\<lambda>i r. and_then r (\<lambda>d. copy_n src (from_row i) m d (to_row i))) [0..<k] (Inr dst) = Inr d \<and> length d = length dst \<and>
    (\<forall>i<k. \<forall>x<m. d ! (to_row i + x) = src ! (from_row i + x)) \<and>
    (\<forall>x<length dst. (\<forall>i<k. x < to_row i \<or> to_row i + m \<le> x) \<longrightarrow> d ! x = dst ! x)" if "k \<le> n" for k
    using that
  proof (induction k)
    case (Suc k)
    then obtain d where d: "fold (\<lambda>i r. and_then r (\<lambda>d. copy_n src (from_row i) m d (to_row i))) [0..<k] (Inr dst) = Inr d"
      "length d = length dst" "\<forall>i<k. \<forall>x<m. d ! (to_row i + x) = src ! (from_row i + x)"
      "\<forall>x<length dst. (\<forall>i<k. x < to_row i \<or> to_row i + m \<le> x) \<longrightarrow> d ! x = dst ! x" by auto
    obtain e where e: "copy_n src (from_row k) m d (to_row k) = Inr e" "length e = length d"
      "\<forall>x<length d. e ! x = (if to_row k \<le> x \<and> x < to_row k + m then src ! (from_row k + (x - to_row k)) else d ! x)"
      using copy_n_nth[of "from_row k" m src "to_row k" d] assms(2,3)[of k] Suc(2) d(2) by auto
    have "e ! (to_row i + x) = src ! (from_row i + x)" if "i < Suc k" "x < m" for i x
    proof (cases "i = k")
      case True
      then show ?thesis using e(3) that assms(3)[of k] Suc(2) d(2) by simp
    next
      case False
      then have "to_row i + m \<le> to_row k" "to_row i + m \<le> length dst" using assms(3,4) that Suc(2) by auto
      then show ?thesis using e(3) d(2,3) that False by auto
    qed
    moreover have "e ! x = dst ! x" if "x < length dst" "\<forall>i<Suc k. x < to_row i \<or> to_row i + m \<le> x" for x
      using e(3) d(2,4) that by auto
    ultimately show ?case using d(1,2) e(1,2) by auto
  qed simp
  from this[of n] show ?thesis using assms(1) by (simp add: copy_rows_def)
qed


lemma unat_of_nat_64: "n < 2 ^ 64 \<Longrightarrow> unat (of_nat n :: u64) = n"
  by (rule unat_of_nat_small) simp

lemma unat_div_64: "n < 2 ^ 64 \<Longrightarrow> m < 2 ^ 64 \<Longrightarrow> unat ((of_nat n :: u64) div of_nat m) = n div m"
  by (simp add: unat_div unat_of_nat_64)

lemma row_le:
  fixes i h s :: nat
  assumes "i < h"
  shows "s * i + s \<le> s * h"
  using assms by (metis Suc_leI mult_Suc_right mult_le_mono2 add.commute)

lemma row_next:
  fixes i j s :: nat
  assumes "i < j"
  shows "s * i + s \<le> s * j"
  using row_le[OF assms] .

text \<open>A frame of even width and height goes to its rows in the device buffer.\<close>

lemma place_frame_rows:
  fixes cw ch cp :: nat
  assumes g: "g = \<lparr>width = of_nat (2 * cw), height = of_nat (2 * ch)\<rparr>" and pitch: "pitch = of_nat (2 * cp)"
    and b: "cw \<le> cp" "ch < 2 ^ 30" "cp < 2 ^ 30"
    and img: "length img = 6 * (cw * ch)" and hw: "6 * (cp * ch) \<le> length hw"
  shows "\<exists>hw'. place_frame g pitch img hw = Inr hw' \<and> length hw' = length hw \<and>
    (\<forall>y<2 * ch. \<forall>x<2 * cw. hw' ! (2 * cp * y + x) = img ! (2 * cw * y + x)) \<and>
    (\<forall>y<ch. \<forall>x<cw. hw' ! (4 * (cp * ch) + cp * y + x) = img ! (4 * (cw * ch) + cw * y + x)) \<and>
    (\<forall>y<ch. \<forall>x<cw. hw' ! (5 * (cp * ch) + cp * y + x) = img ! (5 * (cw * ch) + cw * y + x))"
proof -
  have p: "cp * ch < 2 ^ 60" "cw * ch \<le> cp * ch"
  proof -
    have "cp * ch < 2 ^ 30 * 2 ^ 30" using b by (intro mult_strict_mono) auto
    then show "cp * ch < 2 ^ 60" by simp
    show "cw * ch \<le> cp * ch" using b by simp
  qed
  have le: "cw * i \<le> cw * (2 * ch)" "cp * i \<le> cp * (2 * ch)" if "i \<le> 2 * ch" for i using that by (auto intro: mult_le_mono2)
  have W: "unat (of_nat (2 * cw) :: u64) = 2 * cw" "unat (of_nat (2 * ch) :: u64) = 2 * ch" "unat (of_nat (2 * cp) :: u64) = 2 * cp"
    by (rule unat_of_nat_64, use b in simp)+
  have H: "unat ((of_nat (2 * ch) :: u64) div 2) = ch" "unat ((of_nat (2 * cw) :: u64) div 2) = cw"
    using unat_div_64[of "2 * ch" 2] unat_div_64[of "2 * cw" 2] b by simp_all
  have mult: "(of_nat (2 * s) :: u64) * of_nat i = of_nat (2 * (s * i))" for s i by simp
  have R: "unat ((of_nat (2 * cw) :: u64) * of_nat i) = 2 * cw * i" "unat ((of_nat (2 * cp) :: u64) * of_nat i) = 2 * cp * i"
    "unat ((of_nat (2 * cw) :: u64) * of_nat i div 2) = cw * i" "unat ((of_nat (2 * cp) :: u64) * of_nat i div 2) = cp * i"
    if "i \<le> 2 * ch" for i
  proof -
    have "cw * (2 * ch) = 2 * (cw * ch)" "cp * (2 * ch) = 2 * (cp * ch)" by simp_all
    then have "cw * i \<le> 2 * (cw * ch)" "cp * i \<le> 2 * (cp * ch)" using le[OF that] by linarith+
    moreover have "(4::nat) * 2 ^ 60 < 2 ^ 64" by simp
    ultimately have "2 * (cw * i) < 2 ^ 64" and "2 * (cp * i) < 2 ^ 64" using p by linarith+
    then show "unat ((of_nat (2 * cw) :: u64) * of_nat i) = 2 * cw * i" "unat ((of_nat (2 * cp) :: u64) * of_nat i) = 2 * cp * i"
      "unat ((of_nat (2 * cw) :: u64) * of_nat i div 2) = cw * i" "unat ((of_nat (2 * cp) :: u64) * of_nat i div 2) = cp * i"
      unfolding mult using unat_div_64[of "2 * (cw * i)" 2] unat_div_64[of "2 * (cp * i)" 2] by (simp_all add: unat_of_nat_64 mult.assoc del: of_nat_mult)
  qed
  have L: "unat ((of_nat (2 * cw) :: u64) * of_nat (2 * ch)) = 4 * (cw * ch)" "unat ((of_nat (2 * cp) :: u64) * of_nat (2 * ch)) = 4 * (cp * ch)"
    using R(1,2)[of "2 * ch"] by (simp_all add: algebra_simps)
  have e: "(of_nat (2 * s) :: u64) * of_nat (2 * ch) = of_nat (4 * (s * ch))" for s by simp
  have C: "unat ((of_nat (2 * cw) :: u64) * of_nat (2 * ch) div 4) = cw * ch" "unat ((of_nat (2 * cp) :: u64) * of_nat (2 * ch) div 4) = cp * ch"
  proof -
    have "(4::nat) * 2 ^ 60 < 2 ^ 64" by simp
    then have "4 * (cw * ch) < 2 ^ 64" and "4 * (cp * ch) < 2 ^ 64" using p by linarith+
    from unat_div_64[OF this(1), of 4] unat_div_64[OF this(2), of 4]
    show "unat ((of_nat (2 * cw) :: u64) * of_nat (2 * ch) div 4) = cw * ch" "unat ((of_nat (2 * cp) :: u64) * of_nat (2 * ch) div 4) = cp * ch"
      unfolding e by simp_all
  qed
  have cong: "copy_rows n src f m t d = copy_rows n src f' m t' d" if "\<And>i. i < n \<Longrightarrow> f i = f' i \<and> t i = t' i" for n src f f' m t t' and d :: string
    using that by (auto simp: copy_rows_def intro!: fold_cong)
  obtain h1 where h1: "copy_rows (2 * ch) img (\<lambda>i. 2 * cw * i) (2 * cw) (\<lambda>i. 2 * cp * i) hw = Inr h1" "length h1 = length hw"
      "\<forall>i<2 * ch. \<forall>x<2 * cw. h1 ! (2 * cp * i + x) = img ! (2 * cw * i + x)"
  proof -
    have "\<exists>d. copy_rows (2 * ch) img (\<lambda>i. 2 * cw * i) (2 * cw) (\<lambda>i. 2 * cp * i) hw = Inr d \<and> length d = length hw \<and>
      (\<forall>i<2 * ch. \<forall>x<2 * cw. d ! (2 * cp * i + x) = img ! (2 * cw * i + x)) \<and>
      (\<forall>x<length hw. (\<forall>i<2 * ch. x < 2 * cp * i \<or> 2 * cp * i + 2 * cw \<le> x) \<longrightarrow> d ! x = hw ! x)"
    proof (rule copy_rows_spec)
      show "2 * ch < 2 ^ 31" using b by simp
      show "2 * cw * i + 2 * cw \<le> length img" if "i < 2 * ch" for i using row_le[OF that, of "2 * cw"] img by simp
      show "2 * cp * i + 2 * cw \<le> length hw" if "i < 2 * ch" for i using row_le[OF that, of "2 * cp"] hw b(1) by simp
      show "2 * cp * i + 2 * cw \<le> 2 * cp * j" if "i < j" for i j using row_next[OF that, of "2 * cp"] b(1) by simp
    qed
    then show ?thesis using that by blast
  qed
  have chroma: "\<exists>d. copy_rows ch img (\<lambda>i. k * (cw * ch) + cw * i) cw (\<lambda>i. k * (cp * ch) + cp * i) hx = Inr d \<and> length d = length hx \<and>
      (\<forall>i<ch. \<forall>x<cw. d ! (k * (cp * ch) + cp * i + x) = img ! (k * (cw * ch) + cw * i + x)) \<and>
      (\<forall>x<length hx. (\<forall>i<ch. x < k * (cp * ch) + cp * i \<or> k * (cp * ch) + cp * i + cw \<le> x) \<longrightarrow> d ! x = hx ! x)"
    if "k \<in> {4, 5}" "length hx = length hw" for k hx
  proof (rule copy_rows_spec)
    show "ch < 2 ^ 31" using b by simp
    have k: "k * (cw * ch) \<le> 5 * (cw * ch)" "k * (cp * ch) \<le> 5 * (cp * ch)"
      using \<open>k \<in> {4, 5}\<close> by (auto intro: mult_le_mono1)
    show "k * (cw * ch) + cw * i + cw \<le> length img" if "i < ch" for i
      using row_le[OF that, of cw] img k(1) by linarith
    show "k * (cp * ch) + cp * i + cw \<le> length hx" if "i < ch" for i
      using row_le[OF that, of cp] hw b(1) k(2) \<open>length hx = length hw\<close> by linarith
    show "k * (cp * ch) + cp * i + cw \<le> k * (cp * ch) + cp * j" if "i < j" for i j using row_next[OF that, of cp] b(1) by simp
  qed
  obtain h2 where h2: "copy_rows ch img (\<lambda>i. 4 * (cw * ch) + cw * i) cw (\<lambda>i. 4 * (cp * ch) + cp * i) h1 = Inr h2" "length h2 = length h1"
      "\<forall>i<ch. \<forall>x<cw. h2 ! (4 * (cp * ch) + cp * i + x) = img ! (4 * (cw * ch) + cw * i + x)"
      "\<forall>x<length h1. (\<forall>i<ch. x < 4 * (cp * ch) + cp * i \<or> 4 * (cp * ch) + cp * i + cw \<le> x) \<longrightarrow> h2 ! x = h1 ! x"
    using chroma[of 4 h1] h1(2) by auto
  obtain h3 where h3: "copy_rows ch img (\<lambda>i. 5 * (cw * ch) + cw * i) cw (\<lambda>i. 5 * (cp * ch) + cp * i) h2 = Inr h3" "length h3 = length h2"
      "\<forall>i<ch. \<forall>x<cw. h3 ! (5 * (cp * ch) + cp * i + x) = img ! (5 * (cw * ch) + cw * i + x)"
      "\<forall>x<length h2. (\<forall>i<ch. x < 5 * (cp * ch) + cp * i \<or> 5 * (cp * ch) + cp * i + cw \<le> x) \<longrightarrow> h3 ! x = h2 ! x"
    using chroma[of 5 h2] h1(2) h2(2) by auto
  have six: "4 * (cw * ch) + cw * ch = 5 * (cw * ch)" "4 * (cp * ch) + cp * ch = 5 * (cp * ch)" by simp_all
  have "place_frame g pitch img hw = Inr h3"
  proof -
    have c1: "copy_rows (2 * ch) img (\<lambda>i. unat ((of_nat (2 * cw) :: u64) * of_nat i)) (2 * cw)
        (\<lambda>i. unat ((of_nat (2 * cp) :: u64) * of_nat i)) hw = Inr h1"
      unfolding h1(1)[symmetric] by (rule cong) (simp only: R less_imp_le)
    have c2: "copy_rows ch img (\<lambda>i. 4 * (cw * ch) + unat ((of_nat (2 * cw) :: u64) * of_nat i div 2)) cw
        (\<lambda>i. 4 * (cp * ch) + unat ((of_nat (2 * cp) :: u64) * of_nat i div 2)) h1 = Inr h2"
      unfolding h2(1)[symmetric] by (rule cong) (use R(3,4) in auto)
    have c3: "copy_rows ch img (\<lambda>i. 5 * (cw * ch) + unat ((of_nat (2 * cw) :: u64) * of_nat i div 2)) cw
        (\<lambda>i. 5 * (cp * ch) + unat ((of_nat (2 * cp) :: u64) * of_nat i div 2)) h2 = Inr h3"
      unfolding h3(1)[symmetric] by (rule cong) (use R(3,4) in auto)
    show ?thesis
      unfolding place_frame_def Let_def g pitch geometry.simps W H L C six c1 and_then_simps c2 c3 ..
  qed
  moreover have "length h3 = length hw" using h1(2) h2(2) h3(2) by simp
  moreover have "h3 ! (2 * cp * y + x) = img ! (2 * cw * y + x)" if "y < 2 * ch" "x < 2 * cw" for y x
  proof -
    have "2 * cp * y + x < 4 * (cp * ch)" using row_le[OF that(1), of "2 * cp"] that(2) b(1) by simp
    then show ?thesis using h1 h2 h3 that hw by auto
  qed
  moreover have "h3 ! (4 * (cp * ch) + cp * y + x) = img ! (4 * (cw * ch) + cw * y + x)" if "y < ch" "x < cw" for y x
  proof -
    have "4 * (cp * ch) + cp * y + x < 5 * (cp * ch)" using row_le[OF that(1), of cp] that(2) b(1) by linarith
    moreover from this have "4 * (cp * ch) + cp * y + x < length h2" using h1(2) h2(2) hw by linarith
    moreover from calculation have "\<forall>i<ch. 4 * (cp * ch) + cp * y + x < 5 * (cp * ch) + cp * i \<or>
        5 * (cp * ch) + cp * i + cw \<le> 4 * (cp * ch) + cp * y + x" by (intro allI impI disjI1) linarith
    ultimately have "h3 ! (4 * (cp * ch) + cp * y + x) = h2 ! (4 * (cp * ch) + cp * y + x)" using h3(4) by blast
    then show ?thesis using h2(3) that by simp
  qed
  ultimately show ?thesis using h3(3) by auto
qed

section \<open>Losses\<close>

lemma length_clear_unit: "unit_data u + unit_size u \<le> length buf \<Longrightarrow> length (clear_unit u buf) = length buf"
  by (simp add: clear_unit_def)

lemma length_clear_burst:
  "\<forall>u\<in>set units. unit_data u + unit_size u \<le> length buf \<Longrightarrow> length (snd (clear_burst units b i buf)) = length buf"
  by (induction units b i buf rule: clear_burst.induct) (auto simp: length_clear_unit)

lemma length_lose_units:
  "\<forall>u\<in>set units. unit_data u + unit_size u \<le> length buf \<Longrightarrow>
    lose_units draw units i k lost buf = Inr (k', lost', buf') \<Longrightarrow> length buf' = length buf"
proof (induction draw units i k lost buf rule: lose_units.induct)
  case (1 draw units i k lost buf)
  obtain j b where c: "clear_burst units (draw k) i buf = (j, b)" by (metis surj_pair)
  then have "length b = length buf" using length_clear_burst[OF 1(2), of "draw k" i] by simp
  then show ?case using 1(1)[OF _ c[symmetric]] 1(2,3) c
    by (simp add: lose_units.simps[of draw units i]) (auto simp: and_then_eq_Inr_iff split: if_splits)
qed

text \<open>The count of the lost units stays within the numbers drawn, and is defined while these fit.\<close>

lemma lose_units_counts:
  "\<forall>k. draw k \<le> D \<Longrightarrow> lost + (length units - i) * D < 2 ^ 31 \<Longrightarrow>
    \<exists>k' lost' buf'. lose_units draw units i k lost buf = Inr (k', lost', buf') \<and> lost' \<le> lost + (length units - i) * D"
proof (induction draw units i k lost buf rule: lose_units.induct)
  case (1 draw units i k lost buf)
  show ?case
  proof (cases "i < length units")
    case True
    obtain j b where c: "clear_burst units (draw k) i buf = (j, b)" by (metis surj_pair)
    then have "i \<le> j" using clear_burst_mono[of i units "draw k" buf] by simp
    then have le: "lost + draw k + (length units - Suc j) * D \<le> lost + (length units - i) * D"
    proof -
      have "(length units - Suc j) * D \<le> (length units - Suc i) * D" using \<open>i \<le> j\<close> by (intro mult_le_mono1) simp
      moreover have "(length units - i) * D = D + (length units - Suc i) * D" using Suc_diff_Suc[OF True] by (metis mult_Suc)
      moreover have "draw k \<le> D" using 1(2) by blast
      ultimately show ?thesis by linarith
    qed
    have a: "add_int lost (draw k) = Inr (lost + draw k)" using le 1(3) by (simp add: add_int_def)
    obtain k' lost' buf' where "lose_units draw units (Suc j) (Suc k) (lost + draw k) b = Inr (k', lost', buf')"
      "lost' \<le> lost + draw k + (length units - Suc j) * D"
      using 1(1)[OF True c[symmetric], of "lost + draw k"] 1(2,3) le by (meson le_less_trans)
    then show ?thesis using True a c le by (subst lose_units.simps) auto
  qed (simp add: lose_units.simps)
qed

text \<open>The numbers drawn are counted as lost even where fewer units are left.\<close>

lemma losses_exceed_units: "lose_units (\<lambda>k. 5) [\<lparr>unit_data = 3, unit_size = 1\<rparr>] 0 0 0 [0, 0, 1, 9] = Inr (1, 5, [0, 0, 1, 0])"
proof -
  have "add_int 0 5 = Inr 5" by (simp add: add_int_def)
  moreover have "clear_burst [\<lparr>unit_data = 3, unit_size = 1\<rparr>] 5 0 [0, 0, 1, 9] = (1, [0, 0, 1, 0])"
    by (simp add: clear_unit_def eval_nat_numeral)
  ultimately show ?thesis
    by (subst lose_units.simps) (simp add: lose_units.simps[of _ _ "Suc (Suc 0)"])
qed

text \<open>The line feed behind the parameters of a frame is read as the first byte of its image.\<close>

lemma parameters_shift_image:
  "fst (read_frame (new_frame 3) (open_stream (''FRAME Ip'' @ line_feed @ ''abc''))) = \<lparr>image = [CHR 0x0A, CHR ''a'', CHR ''b''], parameters = ''Ip''\<rparr>"
  by code_simp

section \<open>Properties\<close>

text \<open>C25: The units found in an encoded stream are its payloads: with start codes of three or four bytes, and payloads without a
  start code in them and without a zero at their end, the parser gives the place and the length of every payload, in order. In
  front of the first start code there may be any bytes without a start code in them, also zeros that the code then seems to begin
  with.\<close>

theorem units_are_payloads:
  assumes "codeless lead" "\<forall>u\<in>set us. payload (snd u)"
  shows "nal_parse_units (lead @ unit_stream us) = layout (length lead) us \<and>
    map (\<lambda>u. take (unit_size u) (drop (unit_data u) (lead @ unit_stream us))) (nal_parse_units (lead @ unit_stream us)) = map snd us"
proof -
  have "nal_parse_units (lead @ unit_stream us) = layout (length lead) us"
  proof (cases us)
    case Nil
    have "parse_loop ([] @ lead @ []) (length []) [] = parse_loop ([] @ lead @ []) (length ([] :: u8 list) + length lead) []"
      using parse_loop_walk[OF codeless_no_code[OF assms(1)], of "[]" "[]"] by simp
    then show ?thesis using Nil by (simp add: nal_parse_units_def unit_stream_def parse_loop.simps[of lead "length lead"] close_unit_def)
  next
    case (Cons u vs)
    obtain long q where u: "u = (long, q)" by (cases u)
    let ?c = "start_code long"
    let ?buf = "lead @ ?c @ q @ unit_stream vs"
    let ?units = "[\<lparr>unit_data = length lead + length ?c, unit_size = 0\<rparr>]"
    have "parse_loop ?buf 0 [] = parse_loop ?buf (length lead + length ?c) ?units"
      using parse_lead[OF assms(1), of "[]" long "q @ unit_stream vs"] by simp
    also have "\<dots> = parse_loop ?buf (length lead + length ?c + length q) ?units"
      using parse_loop_walk[OF payload_no_code, of q "lead @ ?c" "unit_stream vs" ?units] assms(2) Cons u by simp
    finally have "nal_parse_units ?buf = close_unit (length (lead @ ?c @ q)) ?units @ layout (length (lead @ ?c @ q)) vs"
      using parse_stream[of vs "lead @ ?c @ q" ?units] assms(2) Cons by (simp add: nal_parse_units_def add.assoc)
    then show ?thesis using Cons u by (simp add: unit_stream_def close_unit_def add.assoc)
  qed
  then show ?thesis using layout_data by simp
qed

theorem units_are_payloads_witness:
  "nal_parse_units ([7, 5, 0, 0] @ unit_stream [(True, [9, 0, 0, 3]), (False, []), (False, [0, 2])]) =
    [\<lparr>unit_data = 8, unit_size = 4\<rparr>, \<lparr>unit_data = 15, unit_size = 0\<rparr>, \<lparr>unit_data = 18, unit_size = 2\<rparr>]"
proof -
  let ?us = "[(True, [9, 0, 0, 3]), (False, []), (False, [0, 2])] :: (bool \<times> u8 list) list"
  have "codeless [7, 5, 0, 0]" by (simp add: codeless_def All_less_Suc)
  moreover have "\<forall>u\<in>set ?us. payload (snd u)" by (simp add: payload_def codeless_def All_less_Suc)
  ultimately have "nal_parse_units ([7, 5, 0, 0] @ unit_stream ?us) = layout (length [7, 5, 0, 0 :: u8]) ?us"
    using units_are_payloads[of "[7, 5, 0, 0]" ?us] by blast
  then show ?thesis by (simp add: start_code_def)
qed

text \<open>The program on a well-formed file.\<close>

definition first_state :: "nat \<Rightarrow> string \<Rightarrow> video_state" where
  "first_state n hw = \<lparr>current_frame = new_frame n, hw_buffer = hw, drawn = 0, frames_total = 0, packets_total = 0, packets_lost = 0,
     outfile = []\<rparr>"

lemma run_video_file:
  assumes "w < 2 ^ 64" "h < 2 ^ 64" "f < 2 ^ 64" "n < 2 ^ 64" "a < 2 ^ 64" "b < 2 ^ 64" "0 < n"
    and "(i, k) \<in> {(CHR ''p'', Progressive), (CHR ''t'', Top_first), (CHR ''b'', Bottom_first), (CHR ''m'', Mixed_mode)}"
    and "w * h < 2 ^ 52" "imgs \<noteq> []" "\<forall>img\<in>set imgs. length img = w * h * 3 div 2"
  shows "\<exists>s. read_header (open_stream (header_text w h f n i a b @ concat (map frame_text imgs))) =
      Inr (\<lparr>geometry_of = \<lparr>width = of_nat w, height = of_nat h\<rparr>, rate_of = \<lparr>frames = of_nat f, seconds = of_nat n\<rparr>,
            interlacing_of = Some k, ratio_of = \<lparr>numerator = of_nat a, denominator = of_nat b\<rparr>\<rparr>, s)"
    and "run_video pitch hw encoder draw (header_text w h f n i a b @ concat (map frame_text imgs)) =
      Some (and_then (encode_all \<lparr>width = of_nat w, height = of_nat h\<rparr> pitch encoder draw (imgs @ [last imgs])
        (first_state (w * h * 3 div 2) hw)) (\<lambda>st. Inr (Some st)))"
proof -
  obtain img rst where imgs: "imgs = img # rst" using assms(10) by (cases imgs) auto
  let ?t = "concat (map frame_text imgs)"
  let ?g = "\<lparr>width = of_nat w, height = of_nat h\<rparr> :: geometry"
  have t: "?t = CHR ''F'' # tl ?t" by (simp add: imgs frame_text_def)
  obtain s where s: "read_header (open_stream (header_text w h f n i a b @ ?t)) =
      Inr (\<lparr>geometry_of = ?g, rate_of = \<lparr>frames = of_nat f, seconds = of_nat n\<rparr>, interlacing_of = Some k,
            ratio_of = \<lparr>numerator = of_nat a, denominator = of_nat b\<rparr>\<rparr>, s)" "at s (line_feed @ ?t)"
    using read_header_at[OF assms(1-6,8) t] space_chars by auto
  then show "\<exists>s. read_header (open_stream (header_text w h f n i a b @ ?t)) =
      Inr (\<lparr>geometry_of = ?g, rate_of = \<lparr>frames = of_nat f, seconds = of_nat n\<rparr>, interlacing_of = Some k,
            ratio_of = \<lparr>numerator = of_nat a, denominator = of_nat b\<rparr>\<rparr>, s)" by blast
  have "unat (of_nat n :: u64) \<noteq> 0" using assms(4,7) unat_of_nat_64[of n] by simp
  then have "(of_nat n :: u64) \<noteq> 0" by (metis unat_0)
  then have fps: "frames_per_second \<lparr>frames = of_nat f, seconds = of_nat n\<rparr> = Inr (of_nat f div of_nat n)"
    by (simp add: frames_per_second_def)
  have "unat (of_nat w * of_nat h :: u64) = w * h" using unat_of_nat_64[of "w * h"] assms(9) by simp
  then have size: "frame_size ?g = Inr (w * h * 3 div 2)" using assms(9) by (simp add: frame_size_def)
  have "encode_loop ?g pitch encoder draw s st = Some (encode_all ?g pitch encoder draw (imgs @ [last imgs]) st)"
    if "length (image (current_frame st)) = w * h * 3 div 2" for st
    using encode_loop_at[OF s(2), of st ?g pitch encoder draw] that assms(10,11) space_chars by (simp add: line_feed_def)
  then show "run_video pitch hw encoder draw (header_text w h f n i a b @ ?t) =
      Some (and_then (encode_all ?g pitch encoder draw (imgs @ [last imgs]) (first_state (w * h * 3 div 2) hw)) (\<lambda>st. Inr (Some st)))"
    using s(1) at_ok[OF s(2)] fps size by (simp add: run_video_def first_state_def new_frame_def)
qed

text \<open>
  Files that the program can encode: frames of even width and height that the device buffer has room for, and few enough
  frames and units, with few enough numbers drawn, for the counters.
\<close>

definition encodable ::
    "nat \<Rightarrow> nat \<Rightarrow> nat \<Rightarrow> string \<Rightarrow> (string \<Rightarrow> u8 list) \<Rightarrow> (nat \<Rightarrow> nat) \<Rightarrow> string list \<Rightarrow> nat \<Rightarrow> nat \<Rightarrow> bool" where
  "encodable cw ch cp hw encoder draw imgs units drawn_most \<longleftrightarrow>
     cw \<le> cp \<and> ch < 2 ^ 30 \<and> cp < 2 ^ 30 \<and> 4 * (cw * ch) < 2 ^ 52 \<and> 6 * (cp * ch) \<le> length hw \<and>
     imgs \<noteq> [] \<and> (\<forall>img\<in>set imgs. length img = 6 * (cw * ch)) \<and>
     (\<forall>k. draw k \<le> drawn_most) \<and> (\<forall>x. length (nal_parse_units (encoder x)) \<le> units) \<and>
     Suc (length imgs) < 2 ^ 31 \<and> Suc (length imgs) * (units * drawn_most) < 2 ^ 31"

lemma encode_frame_runs:
  assumes "place_frame g pitch (image (current_frame st)) (hw_buffer st) = Inr hw" "\<forall>k. draw k \<le> D"
    and "length (nal_parse_units (encoder hw)) \<le> U" "packets_lost st + U * D < 2 ^ 31" "Suc (frames_total st) < 2 ^ 31"
  shows "\<exists>st'. encode_frame g pitch encoder draw st = Inr st' \<and> packets_lost st' \<le> packets_lost st + U * D \<and> hw_buffer st' = hw"
proof -
  have le: "length (nal_parse_units (encoder hw)) * D \<le> U * D" using assms(3) by (rule mult_le_mono1)
  define us where "us = nal_parse_units (encoder hw)"
  have le: "length us * D \<le> U * D" using le by (simp add: us_def)
  then have "packets_lost st + (length us - 0) * D < 2 ^ 31" using assms(4) by (metis diff_zero le_less_trans nat_add_left_cancel_le)
  from lose_units_counts[OF assms(2) this, of "drawn st" "encoder hw"]
  obtain k' lost' buf' where l: "lose_units draw us 0 (drawn st) (packets_lost st) (encoder hw) = Inr (k', lost', buf')"
    "lost' \<le> packets_lost st + (length us - 0) * D" by blast
  then have "lost' \<le> packets_lost st + U * D" using le by (metis diff_zero le_trans nat_add_left_cancel_le)
  then show ?thesis using assms(1,5) l(1) by (simp add: encode_frame_def Let_def add_int_def us_def)
qed

lemma encode_all_runs:
  fixes cw ch cp :: nat
  assumes "cw \<le> cp" "ch < 2 ^ 30" "cp < 2 ^ 30" "\<forall>k. draw k \<le> D" "\<forall>x. length (nal_parse_units (encoder x)) \<le> U"
  shows "\<forall>img\<in>set imgs. length img = 6 * (cw * ch) \<Longrightarrow> 6 * (cp * ch) \<le> length (hw_buffer st) \<Longrightarrow>
    packets_lost st + length imgs * (U * D) < 2 ^ 31 \<Longrightarrow> frames_total st + length imgs < 2 ^ 31 \<Longrightarrow>
    \<exists>st'. encode_all \<lparr>width = of_nat (2 * cw), height = of_nat (2 * ch)\<rparr> (of_nat (2 * cp)) encoder draw imgs st = Inr st'"
proof (induction imgs arbitrary: st)
  case (Cons img imgs)
  let ?st = "st\<lparr>current_frame := (current_frame st)\<lparr>image := img\<rparr>\<rparr>"
  let ?g = "\<lparr>width = of_nat (2 * cw), height = of_nat (2 * ch)\<rparr> :: geometry"
  have "length img = 6 * (cw * ch)" using Cons.prems(1) by simp
  from place_frame_rows[OF refl refl assms(1-3) this Cons.prems(2)]
  obtain hw where hw: "place_frame ?g (of_nat (2 * cp)) img (hw_buffer st) = Inr hw" "length hw = length (hw_buffer st)" by blast
  obtain st' where st': "encode_frame ?g (of_nat (2 * cp)) encoder draw ?st = Inr st'" "packets_lost st' \<le> packets_lost st + U * D"
      "hw_buffer st' = hw"
    using encode_frame_runs[of ?g "of_nat (2 * cp)" ?st hw draw D encoder U] hw(1) assms(4,5) Cons.prems(3,4) by auto
  have "frames_total st' = Suc (frames_total st)" using encode_frame_counts[OF st'(1)] by simp
  then show ?case using Cons.IH[of st'] Cons.prems st' hw(2) by simp
qed simp

section \<open>The program\<close>

text \<open>C24: The program on a well-formed file: the header is read to the fields it was written from, and the images of the frames are
  placed and encoded in their order, after which the last of them is encoded and counted once more, by the turn in which the end of the
  file is found.\<close>

theorem file_is_encoded:
  assumes "w < 2 ^ 64" "h < 2 ^ 64" "f < 2 ^ 64" "n < 2 ^ 64" "a < 2 ^ 64" "b < 2 ^ 64" "0 < n"
    and "(i, k) \<in> {(CHR ''p'', Progressive), (CHR ''t'', Top_first), (CHR ''b'', Bottom_first), (CHR ''m'', Mixed_mode)}"
    and "w * h < 2 ^ 52" "imgs \<noteq> []" "\<forall>img\<in>set imgs. length img = w * h * 3 div 2"
    and t: "t = header_text w h f n i a b @ concat (map frame_text imgs)"
  shows "(\<exists>s. read_header (open_stream t) =
      Inr (\<lparr>geometry_of = \<lparr>width = of_nat w, height = of_nat h\<rparr>, rate_of = \<lparr>frames = of_nat f, seconds = of_nat n\<rparr>,
            interlacing_of = Some k, ratio_of = \<lparr>numerator = of_nat a, denominator = of_nat b\<rparr>\<rparr>, s)) \<and>
    run_video pitch hw encoder draw t =
      Some (and_then (encode_all \<lparr>width = of_nat w, height = of_nat h\<rparr> pitch encoder draw (imgs @ [last imgs])
        (first_state (w * h * 3 div 2) hw)) (\<lambda>st. Inr (Some st))) \<and>
    (\<forall>st. run_video pitch hw encoder draw t = Some (Inr (Some st)) \<longrightarrow> frames_total st = Suc (length imgs))"
proof -
  note r = run_video_file[OF assms(1-11)]
  have "frames_total st = Suc (length imgs)" if "run_video pitch hw encoder draw t = Some (Inr (Some st))" for st
    using that r(2)[of pitch hw encoder draw] encode_all_counts[of _ pitch encoder draw "imgs @ [last imgs]" "first_state (w * h * 3 div 2) hw" st]
    by (auto simp: t and_then_eq_Inr_iff first_state_def)
  then show ?thesis using r unfolding t by blast
qed

theorem file_is_encoded_witness:
  "run_video 2 (replicate 6 (CHR ''-'')) (map of_char) (\<lambda>k. 0)
     (header_text 2 2 30 1 (CHR ''p'') 1 2 @ concat (map frame_text [''abcdef''])) =
   Some (Inr (Some \<lparr>current_frame = \<lparr>image = ''abcdef'', parameters = ''''\<rparr>, hw_buffer = ''abcdef'', drawn = 0, frames_total = 2,
     packets_total = 0, packets_lost = 0, outfile = map of_char ''abcdefabcdef''\<rparr>)) \<and>
   (\<exists>s. read_header (open_stream (header_text 2 2 30 1 (CHR ''p'') 1 2 @ concat (map frame_text [''abcdef'']))) =
     Inr (\<lparr>geometry_of = \<lparr>width = 2, height = 2\<rparr>, rate_of = \<lparr>frames = 30, seconds = 1\<rparr>, interlacing_of = Some Progressive,
           ratio_of = \<lparr>numerator = 1, denominator = 2\<rparr>\<rparr>, s))"
proof -
  let ?t = "header_text 2 2 30 1 (CHR ''p'') 1 2 @ concat (map frame_text [''abcdef''])"
  have "(\<exists>s. read_header (open_stream ?t) =
      Inr (\<lparr>geometry_of = \<lparr>width = of_nat 2, height = of_nat 2\<rparr>, rate_of = \<lparr>frames = of_nat 30, seconds = of_nat 1\<rparr>,
            interlacing_of = Some Progressive, ratio_of = \<lparr>numerator = of_nat 1, denominator = of_nat 2\<rparr>\<rparr>, s)) \<and>
    run_video 2 (replicate 6 (CHR ''-'')) (map of_char) (\<lambda>k. 0) ?t =
      Some (and_then (encode_all \<lparr>width = of_nat 2, height = of_nat 2\<rparr> 2 (map of_char) (\<lambda>k. 0) ([''abcdef''] @ [last [''abcdef'']])
        (first_state (2 * 2 * 3 div 2) (replicate 6 (CHR ''-'')))) (\<lambda>st. Inr (Some st))) \<and>
    (\<forall>st. run_video 2 (replicate 6 (CHR ''-'')) (map of_char) (\<lambda>k. 0) ?t = Some (Inr (Some st)) \<longrightarrow>
      frames_total st = Suc (length [''abcdef'']))"
    by (rule file_is_encoded) simp_all
  moreover have "place_frame \<lparr>width = of_nat 2, height = of_nat 2\<rparr> 2 ''abcdef'' [x1, x2, x3, x4, x5, x6] = Inr ''abcdef''" for x1 x2 x3 x4 x5 x6
    by (simp add: place_frame_def copy_rows_def copy_n_def Let_def upt_rec)
  moreover have "nal_parse_units (map of_char ''abcdef'') = []" by code_simp
  moreover have "add_int 0 (Suc 0) = Inr (Suc 0)" "add_int (Suc 0) (Suc 0) = Inr (Suc (Suc 0))" by (simp_all add: add_int_def)
  ultimately show ?thesis
    by (simp add: encode_frame_def Let_def lose_units.simps[of _ "[]"] eval_nat_numeral new_frame_def first_state_def)
qed

text \<open>C26: The program ends on every text, whatever the encoder and the numbers drawn: with a result, or where it is stopped by a
  fault. It ends without a fault on every well-formed file of frames of even width and height whose planes fit in the device
  buffer, where \<open>units\<close> bounds the units that the encoder gives for a frame, \<open>most\<close> bounds the numbers drawn, and these and the
  frames are few enough for the counters; then all frames are counted, the last one twice.\<close>

theorem program_returns:
  "(\<exists>r. run_video pitch hw encoder draw txt = Some r) \<and>
   (encodable cw ch cp hw encoder draw imgs units most \<and> 0 < n \<and> f < 2 ^ 64 \<and> n < 2 ^ 64 \<and> a < 2 ^ 64 \<and> b < 2 ^ 64 \<and>
      i \<in> set ''ptbm'' \<longrightarrow>
    (\<exists>st. run_video (of_nat (2 * cp)) hw encoder draw
        (header_text (2 * cw) (2 * ch) f n i a b @ concat (map frame_text imgs)) = Some (Inr (Some st)) \<and>
      frames_total st = Suc (length imgs)))"
proof (intro conjI impI)
  show "\<exists>r. run_video pitch hw encoder draw txt = Some r"
  proof (cases "read_header (open_stream txt)")
    case (Inr hs)
    obtain h s where hs: "hs = (h, s)" by (cases hs)
    have "ipos s \<le> length (chars s)"
      using read_header_inside[of "open_stream txt" h s] Inr hs by (simp add: inside_def open_stream_def)
    then have "\<exists>r. encode_loop (geometry_of h) pitch encoder draw s st = Some r" for st by (rule encode_loop_ends)
    then obtain r where r: "\<And>st. encode_loop (geometry_of h) pitch encoder draw s st = Some (r st)" by metis
    show ?thesis
      using Inr hs by (cases "frames_per_second (rate_of h)"; cases "frame_size (geometry_of h)") (simp_all add: run_video_def r)
  qed (simp add: run_video_def)
next
  assume e: "encodable cw ch cp hw encoder draw imgs units most \<and> 0 < n \<and> f < 2 ^ 64 \<and> n < 2 ^ 64 \<and> a < 2 ^ 64 \<and> b < 2 ^ 64 \<and> i \<in> set ''ptbm''"
  then have s: "cw \<le> cp" "ch < 2 ^ 30" "cp < 2 ^ 30" "4 * (cw * ch) < 2 ^ 52" "imgs \<noteq> []" "\<forall>img\<in>set imgs. length img = 6 * (cw * ch)"
    by (auto simp: encodable_def)
  let ?g = "\<lparr>width = of_nat (2 * cw), height = of_nat (2 * ch)\<rparr> :: geometry"
  let ?s = "first_state (2 * cw * (2 * ch) * 3 div 2) hw"
  obtain k where k: "(i, k) \<in> {(CHR ''p'', Progressive), (CHR ''t'', Top_first), (CHR ''b'', Bottom_first), (CHR ''m'', Mixed_mode)}"
    using e by auto
  have "run_video (of_nat (2 * cp)) hw encoder draw (header_text (2 * cw) (2 * ch) f n i a b @ concat (map frame_text imgs)) =
    Some (and_then (encode_all ?g (of_nat (2 * cp)) encoder draw (imgs @ [last imgs]) ?s) (\<lambda>st. Inr (Some st)))"
    by (rule run_video_file(2)[OF _ _ _ _ _ _ _ k]) (use e s in auto)
  moreover have "\<exists>st. encode_all ?g (of_nat (2 * cp)) encoder draw (imgs @ [last imgs]) ?s = Inr st"
    by (rule encode_all_runs[of cw cp ch draw most encoder units]) (use e s in \<open>auto simp: encodable_def first_state_def\<close>)
  ultimately show "\<exists>st. run_video (of_nat (2 * cp)) hw encoder draw
        (header_text (2 * cw) (2 * ch) f n i a b @ concat (map frame_text imgs)) = Some (Inr (Some st)) \<and> frames_total st = Suc (length imgs)"
    using encode_all_counts[of ?g "of_nat (2 * cp)" encoder draw "imgs @ [last imgs]" ?s] by (auto simp: first_state_def)
qed

theorem program_returns_witness:
  "\<exists>st. run_video 4 (replicate 12 (CHR ''-'')) (\<lambda>hw. [0, 0, 1, of_char (hw ! 0)]) (\<lambda>k. k mod 2)
     (header_text 2 2 30 1 (CHR ''b'') 1 1 @ concat (map frame_text [''abcdef'', ''ghijkl''])) = Some (Inr (Some st)) \<and>
   frames_total st = 3"
proof -
  let ?e = "\<lambda>hw :: string. [0, 0, 1, of_char (hw ! 0)] :: u8 list"
  have "nal_parse_units [0, 0, 1, x] = [\<lparr>unit_data = 3, unit_size = 1\<rparr>]" for x
    by (simp add: nal_parse_units_def parse_loop.simps find_zero_def code_offset_def close_unit_def Let_def)
  then have "encodable 1 1 2 (replicate 12 (CHR ''-'')) ?e (\<lambda>k. k mod 2) [''abcdef'', ''ghijkl''] 1 1"
    by (auto simp: encodable_def less_Suc_eq_le[symmetric])
  then show ?thesis
    using program_returns[where hw = "replicate 12 (CHR ''-'')" and encoder = ?e and draw = "\<lambda>k. k mod 2" and cw = 1 and ch = 1 and cp = 2
      and imgs = "[''abcdef'', ''ghijkl'']" and units = 1 and most = 1 and n = 1 and f = 30 and a = 1 and b = 1 and i = "CHR ''b''"]
    by (simp add: numeral_3_eq_3)
qed

end
