(* ===== verification/Ex_Linked.thy ===== *)
theory Ex_Linked
  imports Prelude
begin

text \<open>
  The singly linked list of \<open>exercises/linkedlist.cpp\<close> over an explicit store of nodes. A pointer to a node is its address or
  null, and a pointer to such a pointer is the head of the list or the \<open>next\<close> of a node. The operations are shown to do on the list of values
  what their names say, to free the nodes they remove and to leave no node behind.
\<close>

section \<open>Nodes and links\<close>

record 'a node =
  node_value :: 'a
  next_node :: "nat option"

record 'a linked =
  store :: "nat \<Rightarrow> 'a node option"
  head_node :: "nat option"
  node_count :: u64
  fresh :: nat

definition new_linked :: "'a linked" where
  "new_linked = \<lparr>store = Map.empty, head_node = None, node_count = 0, fresh = 0\<rparr>"

datatype link = Head | Next nat

definition deref :: "'a linked \<Rightarrow> link \<Rightarrow> nat option outcome" where
  "deref l k =
     (case k of
        Head \<Rightarrow> Inr (head_node l)
      | Next a \<Rightarrow> (case store l a of None \<Rightarrow> Inl Undefined | Some n \<Rightarrow> Inr (next_node n)))"

definition put_link :: "link \<Rightarrow> nat option \<Rightarrow> 'a linked \<Rightarrow> 'a linked outcome" where
  "put_link k p l =
     (case k of
        Head \<Rightarrow> Inr (l\<lparr>head_node := p\<rparr>)
      | Next a \<Rightarrow> (case store l a of
          None \<Rightarrow> Inl Undefined
        | Some n \<Rightarrow> Inr (l\<lparr>store := (store l)(a \<mapsto> n\<lparr>next_node := p\<rparr>)\<rparr>)))"

definition linked_size :: "'a linked \<Rightarrow> u64" where
  "linked_size l = node_count l"

definition linked_empty :: "'a linked \<Rightarrow> bool" where
  "linked_empty l \<longleftrightarrow> head_node l = None"

text \<open>An iterator is a pointer to a node.\<close>

definition iter_value :: "'a linked \<Rightarrow> nat option \<Rightarrow> 'a outcome" where
  "iter_value l p =
     (case p of None \<Rightarrow> Inl Undefined
      | Some a \<Rightarrow> (case store l a of None \<Rightarrow> Inl Undefined | Some n \<Rightarrow> Inr (node_value n)))"

definition iter_next :: "'a linked \<Rightarrow> nat option \<Rightarrow> nat option outcome" where
  "iter_next l p = (case p of None \<Rightarrow> Inl Undefined | Some a \<Rightarrow> deref l (Next a))"

definition front :: "'a linked \<Rightarrow> 'a outcome" where
  "front l = iter_value l (head_node l)"

definition first_iter :: "'a linked \<Rightarrow> nat option" where
  "first_iter l = head_node l"

definition end_iter :: "'a linked \<Rightarrow> nat option" where
  "end_iter l = None"

section \<open>Operations\<close>

definition next_link :: "nat option \<Rightarrow> link outcome" where
  "next_link item = (case item of None \<Rightarrow> Inl Undefined | Some a \<Rightarrow> Inr (Next a))"

partial_function (option) previous_loop :: "'a linked \<Rightarrow> link \<Rightarrow> nat option \<Rightarrow> link outcome option" where
  "previous_loop l k item =
     (case deref l k of
        Inl e \<Rightarrow> Some (Inl e)
      | Inr p \<Rightarrow> (case p of
          None \<Rightarrow> Some (Inr k)
        | Some a \<Rightarrow> if p = item then Some (Inr k) else previous_loop l (Next a) item))"

definition previous_link :: "'a linked \<Rightarrow> nat option \<Rightarrow> link outcome option" where
  "previous_link l item = previous_loop l Head item"

definition insert_link :: "link \<Rightarrow> 'a \<Rightarrow> 'a linked \<Rightarrow> (nat option \<times> 'a linked) outcome" where
  "insert_link k v l =
     (let l = l\<lparr>node_count := node_count l + 1\<rparr>
      in and_then (deref l k) (\<lambda>p.
         let a = fresh l;
             l = l\<lparr>store := (store l)(a \<mapsto> \<lparr>node_value = v, next_node = p\<rparr>), fresh := Suc a\<rparr>
         in and_then (put_link k (Some a) l) (\<lambda>l. and_then (deref l k) (\<lambda>p. Inr (p, l)))))"

partial_function (option) erase_loop :: "nat option \<Rightarrow> nat option \<Rightarrow> 'a linked \<Rightarrow> 'a linked outcome option" where
  "erase_loop cur tail l =
     (if cur = tail then Some (Inr l)
      else (case cur of
          None \<Rightarrow> Some (Inl Undefined)
        | Some a \<Rightarrow> (case store l a of
            None \<Rightarrow> Some (Inl Undefined)
          | Some n \<Rightarrow> erase_loop (next_node n) tail (l\<lparr>store := (store l)(a := None), node_count := node_count l - 1\<rparr>))))"

definition erase_link :: "link \<Rightarrow> nat option \<Rightarrow> 'a linked \<Rightarrow> 'a linked outcome option" where
  "erase_link k tail l =
     (case and_then (deref l k) (\<lambda>cur. and_then (put_link k tail l) (\<lambda>l. Inr (cur, l))) of
        Inl e \<Rightarrow> Some (Inl e)
      | Inr (cur, l) \<Rightarrow> erase_loop cur tail l)"

definition previous :: "'a linked \<Rightarrow> nat option \<Rightarrow> nat option outcome option" where
  "previous l p = Option.bind (previous_link l p) (\<lambda>r. Some (and_then r (deref l)))"

definition push_front :: "'a \<Rightarrow> 'a linked \<Rightarrow> (nat option \<times> 'a linked) outcome" where
  "push_front v l = insert_link Head v l"

definition insert_before :: "nat option \<Rightarrow> 'a \<Rightarrow> 'a linked \<Rightarrow> (nat option \<times> 'a linked) outcome option" where
  "insert_before p v l = Option.bind (previous_link l p) (\<lambda>r. Some (and_then r (\<lambda>k. insert_link k v l)))"

definition erase_inclusive :: "nat option \<Rightarrow> nat option \<Rightarrow> 'a linked \<Rightarrow> 'a linked outcome option" where
  "erase_inclusive b e l =
     Option.bind (previous_link l b) (\<lambda>r. case r of Inl x \<Rightarrow> Some (Inl x) | Inr k \<Rightarrow> erase_link k e l)"

definition erase_exclusive :: "nat option \<Rightarrow> nat option \<Rightarrow> 'a linked \<Rightarrow> 'a linked outcome option" where
  "erase_exclusive b e l = (case next_link b of Inl x \<Rightarrow> Some (Inl x) | Inr k \<Rightarrow> erase_link k e l)"

section \<open>Lists in the store\<close>

fun is_path :: "(nat \<Rightarrow> 'a node option) \<Rightarrow> nat option \<Rightarrow> nat list \<Rightarrow> nat option \<Rightarrow> bool" where
  "is_path h p [] q \<longleftrightarrow> p = q"
| "is_path h p (a # as) q \<longleftrightarrow> p = Some a \<and> (\<exists>n. h a = Some n \<and> is_path h (next_node n) as q)"

definition value_at :: "'a linked \<Rightarrow> nat \<Rightarrow> 'a" where
  "value_at l a = node_value (the (store l a))"

definition holds :: "'a linked \<Rightarrow> nat list \<Rightarrow> bool" where
  "holds l as \<longleftrightarrow> is_path (store l) (head_node l) as None \<and> distinct as \<and> dom (store l) = set as \<and>
     (\<forall>a\<in>set as. a < fresh l) \<and> node_count l = of_nat (length as)"

definition link_after :: "nat list \<Rightarrow> link" where
  "link_after xs = (if xs = [] then Head else Next (last xs))"

definition first_of :: "nat list \<Rightarrow> nat option" where
  "first_of xs = (case xs of [] \<Rightarrow> None | a # _ \<Rightarrow> Some a)"

lemma is_path_append: "is_path h p (xs @ ys) q \<longleftrightarrow> (\<exists>m. is_path h p xs m \<and> is_path h m ys q)"
  by (induction xs arbitrary: p) auto

lemma is_path_start: "is_path h p xs None \<Longrightarrow> p = first_of xs"
  by (cases xs) (auto simp: first_of_def)

lemma is_path_cong: "(\<And>a. a \<in> set xs \<Longrightarrow> h a = g a) \<Longrightarrow> is_path h p xs q = is_path g p xs q"
  by (induction xs arbitrary: p) auto

lemma is_path_update: "a \<notin> set xs \<Longrightarrow> is_path (h(a := v)) p xs q = is_path h p xs q"
  by (rule is_path_cong) auto

lemma is_path_restrict: "set xs \<inter> Z = {} \<Longrightarrow> is_path (h |` (- Z)) p xs q = is_path h p xs q"
  by (rule is_path_cong) (auto simp: restrict_map_def)

lemma restrict_all: "h |` UNIV = h"
  by (simp add: restrict_map_def fun_eq_iff)

text \<open>The pointer that ends a path is in the link behind it.\<close>

lemma is_path_relink:
  assumes "is_path h p (xs @ [a]) q" "distinct (xs @ [a])" "h a = Some n"
  shows "is_path (h(a \<mapsto> n\<lparr>next_node := r\<rparr>)) p (xs @ [a]) r"
proof -
  have "is_path h p xs (Some a)" using assms(1) by (auto simp: is_path_append)
  then have "is_path (h(a \<mapsto> n\<lparr>next_node := r\<rparr>)) p xs (Some a)"
    using assms(2) by (subst is_path_cong[of xs _ h]) auto
  then show ?thesis by (auto simp: is_path_append)
qed

lemma deref_link:
  assumes "is_path (store l) (head_node l) xs m"
  shows "deref l (link_after xs) = Inr m"
proof (cases xs rule: rev_cases)
  case Nil
  then show ?thesis using assms by (simp add: link_after_def deref_def)
next
  case (snoc ys a)
  then show ?thesis using assms by (auto simp: link_after_def deref_def is_path_append)
qed

lemma put_link_path:
  assumes "is_path (store l) (head_node l) xs m" "distinct xs"
  shows "\<exists>l'. put_link (link_after xs) r l = Inr l' \<and> is_path (store l') (head_node l') xs r \<and>
    (\<forall>a. a \<notin> set xs \<longrightarrow> store l' a = store l a) \<and> (\<forall>a. value_at l' a = value_at l a) \<and> dom (store l') = dom (store l) \<and>
    fresh l' = fresh l \<and> node_count l' = node_count l"
proof (cases xs rule: rev_cases)
  case Nil
  then show ?thesis by (simp add: link_after_def put_link_def value_at_def)
next
  case (snoc ys a)
  then obtain n where n: "store l a = Some n" using assms by (auto simp: is_path_append)
  then show ?thesis
    using is_path_relink[of "store l" "head_node l" ys a m n r] assms snoc
    by (auto simp: link_after_def put_link_def value_at_def)
qed

lemma previous_loop_path:
  "is_path (store l) (head_node l) xs m \<Longrightarrow> is_path (store l) m ys None \<Longrightarrow> distinct ys \<Longrightarrow>
    (case item of None \<Rightarrow> zs = ys | Some a \<Rightarrow> \<exists>ws. ys = zs @ a # ws) \<Longrightarrow>
    previous_loop l (link_after xs) item = Some (Inr (link_after (xs @ zs)))"
proof (induction zs arbitrary: xs m ys)
  case Nil
  have "m = item" using Nil(2,4) by (cases item) auto
  then show ?case
    using deref_link[OF Nil(1)] by (subst previous_loop.simps) (simp split: option.splits)
next
  case (Cons z zs)
  then obtain ys' where y: "ys = z # ys'" by (auto split: option.splits)
  then obtain n where n: "m = Some z" "store l z = Some n" "is_path (store l) (next_node n) ys' None" using Cons(3) by auto
  have ne: "m \<noteq> item" using Cons(4,5) n(1) y by (auto split: option.splits)
  have d: "deref l (link_after xs) = Inr (Some z)" using deref_link[OF Cons(2)] n(1) by simp
  have "is_path (store l) (head_node l) (xs @ [z]) (next_node n)" using Cons(2) n by (auto simp: is_path_append)
  then have "previous_loop l (link_after (xs @ [z])) item = Some (Inr (link_after ((xs @ [z]) @ zs)))"
    using Cons(1)[of "xs @ [z]" "next_node n" ys'] n(3) Cons(4,5) y by (auto split: option.splits)
  then show ?case using d ne n(1) by (subst previous_loop.simps) (simp add: link_after_def)
qed

lemma holds_split:
  assumes "holds l (xs @ ys)"
  shows "is_path (store l) (head_node l) xs (first_of ys)" "is_path (store l) (first_of ys) ys None"
  using assms is_path_start by (auto simp: holds_def is_path_append)

lemma previous_link_path:
  assumes "holds l (xs @ ys)"
  shows "previous_link l (first_of ys) = Some (Inr (link_after xs))"
proof -
  have "is_path (store l) (head_node l) [] (head_node l)" by simp
  moreover have "is_path (store l) (head_node l) (xs @ ys) None" "distinct (xs @ ys)" using assms by (auto simp: holds_def)
  ultimately show ?thesis
    using previous_loop_path[of l "[]" "head_node l" "xs @ ys" xs "first_of ys"]
    by (cases ys) (auto simp: previous_link_def link_after_def first_of_def)
qed

lemma insert_link_path:
  assumes "holds l (xs @ ys)"
  shows "\<exists>l'. insert_link (link_after xs) v l = Inr (Some (fresh l), l') \<and> holds l' (xs @ fresh l # ys) \<and>
    value_at l' (fresh l) = v \<and> (\<forall>a. a \<noteq> fresh l \<longrightarrow> value_at l' a = value_at l a)"
proof -
  let ?n = "\<lparr>node_value = v, next_node = first_of ys\<rparr>"
  let ?l = "l\<lparr>node_count := node_count l + 1, store := (store l)(fresh l \<mapsto> ?n), fresh := Suc (fresh l)\<rparr>"
  have new: "fresh l \<notin> set (xs @ ys)" "distinct (xs @ ys)" using assms by (auto simp: holds_def)
  have p: "is_path (store ?l) (head_node ?l) xs (first_of ys)" "is_path (store ?l) (first_of ys) ys None"
    using holds_split[OF assms] new by (simp_all add: is_path_update)
  obtain l' where l': "put_link (link_after xs) (Some (fresh l)) ?l = Inr l'" "is_path (store l') (head_node l') xs (Some (fresh l))"
    "\<forall>a. a \<notin> set xs \<longrightarrow> store l' a = store ?l a" "\<forall>a. value_at l' a = value_at ?l a" "dom (store l') = dom (store ?l)"
    "fresh l' = fresh ?l" "node_count l' = node_count ?l"
    using put_link_path[OF p(1), of "Some (fresh l)"] new by auto
  have d: "deref (l\<lparr>node_count := node_count l + 1\<rparr>) (link_after xs) = Inr (first_of ys)"
    by (rule deref_link) (use holds_split(1)[OF assms] in simp)
  have "insert_link (link_after xs) v l = Inr (Some (fresh l), l')"
    using d l'(1) deref_link[OF l'(2)] by (simp add: insert_link_def)
  moreover have "is_path (store l') (first_of ys) ys None" using p(2) l'(3) new by (subst is_path_cong[of ys _ "store ?l"]) auto
  then have "is_path (store l') (head_node l') (xs @ fresh l # ys) None"
    using l'(2,3) new by (auto simp: is_path_append)
  then have "holds l' (xs @ fresh l # ys)"
    using new l' assms by (auto simp: holds_def less_Suc_eq)
  moreover have "value_at l' (fresh l) = v" "\<forall>a. a \<noteq> fresh l \<longrightarrow> value_at l' a = value_at l a"
    using l'(4) by (auto simp: value_at_def)
  ultimately show ?thesis by blast
qed

lemma erase_loop_path:
  "is_path (store l) p zs q \<Longrightarrow> distinct zs \<Longrightarrow> q \<notin> Some ` set zs \<Longrightarrow>
    erase_loop p q l = Some (Inr (l\<lparr>store := store l |` (- set zs), node_count := node_count l - of_nat (length zs)\<rparr>))"
proof (induction zs arbitrary: p l)
  case Nil
  then show ?case by (subst erase_loop.simps) (simp add: restrict_all)
next
  case (Cons a zs)
  then obtain n where n: "p = Some a" "store l a = Some n" "is_path (store l) (next_node n) zs q" by auto
  let ?l = "l\<lparr>store := (store l)(a := None), node_count := node_count l - 1\<rparr>"
  have "is_path (store ?l) (next_node n) zs q" using n(3) Cons(3) by (subst is_path_cong[of zs _ "store l"]) auto
  then have "erase_loop (next_node n) q ?l = Some (Inr (?l\<lparr>store := store ?l |` (- set zs), node_count := node_count ?l - of_nat (length zs)\<rparr>))"
    by (rule Cons(1)) (use Cons(3,4) \<open>is_path (store ?l) (next_node n) zs q\<close> in auto)
  moreover have "store ?l |` (- set zs) = store l |` (- set (a # zs))" by (auto simp: restrict_map_def)
  moreover have "erase_loop p q l = erase_loop (next_node n) q ?l" using n Cons(4) by (subst erase_loop.simps) auto
  ultimately show ?case by (simp add: algebra_simps)
qed

lemma erase_link_path:
  assumes "holds l (xs @ zs @ ys)"
  shows "\<exists>l'. erase_link (link_after xs) (first_of ys) l = Some (Inr l') \<and> holds l' (xs @ ys) \<and> (\<forall>a\<in>set (xs @ ys). value_at l' a = value_at l a)"
proof -
  have dis: "distinct (xs @ zs @ ys)" using assms by (simp add: holds_def)
  have p: "is_path (store l) (head_node l) xs (first_of (zs @ ys))" "is_path (store l) (first_of (zs @ ys)) zs (first_of ys)"
    "is_path (store l) (first_of ys) ys None"
    using holds_split[OF assms] holds_split[of l "xs @ zs" ys] assms is_path_start by (auto simp: is_path_append)
  obtain l1 where l1: "put_link (link_after xs) (first_of ys) l = Inr l1" "is_path (store l1) (head_node l1) xs (first_of ys)"
    "\<forall>a. a \<notin> set xs \<longrightarrow> store l1 a = store l a" "\<forall>a. value_at l1 a = value_at l a" "dom (store l1) = dom (store l)"
    "fresh l1 = fresh l" "node_count l1 = node_count l"
    using put_link_path[OF p(1), of "first_of ys"] dis by auto
  have z: "is_path (store l1) (first_of (zs @ ys)) zs (first_of ys)"
    using p(2) l1(3) dis by (subst is_path_cong[of zs _ "store l"]) auto
  have out: "first_of ys \<notin> Some ` set zs" using dis by (cases ys) (auto simp: first_of_def)
  let ?l = "l1\<lparr>store := store l1 |` (- set zs), node_count := node_count l1 - of_nat (length zs)\<rparr>"
  have e: "erase_link (link_after xs) (first_of ys) l = Some (Inr ?l)"
    using deref_link[OF p(1)] l1(1) erase_loop_path[OF z _ out] dis by (simp add: erase_link_def)
  have "is_path (store ?l) (head_node ?l) xs (first_of ys)"
    using l1(2) dis is_path_restrict[of xs "set zs" "store l1"] by auto
  moreover have "is_path (store ?l) (first_of ys) ys None"
    using p(3) l1(3) dis by (subst is_path_cong[of ys _ "store l"]) (auto simp: restrict_map_def)
  ultimately have "holds ?l (xs @ ys)"
    using assms l1(5-7) dis by (auto simp: holds_def is_path_append)
  moreover have "\<forall>a\<in>set (xs @ ys). value_at ?l a = value_at l a"
    using l1(4) dis by (auto simp: value_at_def restrict_map_def split: if_splits)
  ultimately show ?thesis using e by blast
qed


section \<open>Programs with a list\<close>

text \<open>A client reaches an element by going on from the first.\<close>

fun advance :: "nat \<Rightarrow> 'a linked \<Rightarrow> nat option \<Rightarrow> nat option outcome" where
  "advance 0 l p = Inr p"
| "advance (Suc n) l p = and_then (iter_next l p) (advance n l)"

datatype 'a list_op =
    Push_front 'a
  | Insert_before nat 'a
  | Erase_inclusive nat nat
  | Erase_exclusive nat nat

fun apply_op :: "'a list_op \<Rightarrow> 'a linked \<Rightarrow> 'a linked outcome option" where
  "apply_op (Push_front v) l = Some (and_then (push_front v l) (\<lambda>(_, l). Inr l))"
| "apply_op (Insert_before i v) l =
     (case advance i l (first_iter l) of
        Inl e \<Rightarrow> Some (Inl e)
      | Inr p \<Rightarrow> Option.bind (insert_before p v l) (\<lambda>r. Some (and_then r (\<lambda>(_, l). Inr l))))"
| "apply_op (Erase_inclusive i j) l =
     (case and_then (advance i l (first_iter l)) (\<lambda>b. and_then (advance j l (first_iter l)) (\<lambda>e. Inr (b, e))) of
        Inl e \<Rightarrow> Some (Inl e)
      | Inr (b, e) \<Rightarrow> erase_inclusive b e l)"
| "apply_op (Erase_exclusive i j) l =
     (case and_then (advance i l (first_iter l)) (\<lambda>b. and_then (advance j l (first_iter l)) (\<lambda>e. Inr (b, e))) of
        Inl e \<Rightarrow> Some (Inl e)
      | Inr (b, e) \<Rightarrow> erase_exclusive b e l)"

fun apply_ops :: "'a list_op list \<Rightarrow> 'a linked \<Rightarrow> 'a linked outcome option" where
  "apply_ops [] l = Some (Inr l)"
| "apply_ops (x # xs) l =
     (case apply_op x l of None \<Rightarrow> None | Some (Inl e) \<Rightarrow> Some (Inl e) | Some (Inr l) \<Rightarrow> apply_ops xs l)"

text \<open>What the operations mean for a list, and when a client may call them.\<close>

fun list_op_of :: "'a list_op \<Rightarrow> 'a list \<Rightarrow> 'a list" where
  "list_op_of (Push_front v) vs = v # vs"
| "list_op_of (Insert_before i v) vs = take i vs @ v # drop i vs"
| "list_op_of (Erase_inclusive i j) vs = take i vs @ drop j vs"
| "list_op_of (Erase_exclusive i j) vs = take (Suc i) vs @ drop j vs"

fun valid_op :: "'a list_op \<Rightarrow> 'a list \<Rightarrow> bool" where
  "valid_op (Push_front v) vs \<longleftrightarrow> True"
| "valid_op (Insert_before i v) vs \<longleftrightarrow> i \<le> length vs"
| "valid_op (Erase_inclusive i j) vs \<longleftrightarrow> i \<le> j \<and> j \<le> length vs"
| "valid_op (Erase_exclusive i j) vs \<longleftrightarrow> i < j \<and> j \<le> length vs"

fun valid_ops :: "'a list_op list \<Rightarrow> 'a list \<Rightarrow> bool" where
  "valid_ops [] vs \<longleftrightarrow> True"
| "valid_ops (x # xs) vs \<longleftrightarrow> valid_op x vs \<and> valid_ops xs (list_op_of x vs)"

text \<open>The loop over a list, \<open>for (auto v : list)\<close>.\<close>

partial_function (option) iterate :: "'a linked \<Rightarrow> nat option \<Rightarrow> 'a list outcome option" where
  "iterate l p =
     (if p = end_iter l then Some (Inr [])
      else (case and_then (iter_value l p) (\<lambda>v. and_then (iter_next l p) (\<lambda>q. Inr (v, q))) of
          Inl e \<Rightarrow> Some (Inl e)
        | Inr (v, q) \<Rightarrow> Option.bind (iterate l q) (\<lambda>r. Some (and_then r (\<lambda>vs. Inr (v # vs))))))"

lemma iterate_path: "is_path (store l) p xs None \<Longrightarrow> iterate l p = Some (Inr (map (value_at l) xs))"
proof (induction xs arbitrary: p)
  case Nil
  then show ?case by (subst iterate.simps) (simp add: end_iter_def)
next
  case (Cons a xs)
  then obtain n where "p = Some a" "store l a = Some n" "is_path (store l) (next_node n) xs None" by auto
  then show ?case using Cons(1)
    by (subst iterate.simps) (simp add: end_iter_def iter_value_def iter_next_def deref_def value_at_def)
qed

lemma advance_path:
  "is_path (store l) p (xs @ ys) None \<Longrightarrow> advance (length xs) l p = Inr (first_of ys)"
proof (induction xs arbitrary: p)
  case Nil
  then show ?case using is_path_start by simp
next
  case (Cons a xs)
  then obtain n where "p = Some a" "store l a = Some n" "is_path (store l) (next_node n) (xs @ ys) None" by auto
  then show ?case using Cons(1) by (simp add: iter_next_def deref_def)
qed

lemma advance_holds: "holds l as \<Longrightarrow> i \<le> length as \<Longrightarrow> advance i l (first_iter l) = Inr (first_of (drop i as))"
  using advance_path[of l "head_node l" "take i as" "drop i as"] by (auto simp: holds_def first_iter_def min_def split: if_splits)

lemma values_cong: "(\<And>a. a \<in> set as \<Longrightarrow> value_at l' a = value_at l a) \<Longrightarrow> map (value_at l') as = map (value_at l) as"
  by simp

lemma insert_holds:
  assumes "holds l as" "i \<le> length as"
  shows "\<exists>l' as'. insert_link (link_after (take i as)) v l = Inr (Some (fresh l), l') \<and> holds l' as' \<and>
    map (value_at l') as' = take i (map (value_at l) as) @ v # drop i (map (value_at l) as)"
proof -
  obtain l' where l': "insert_link (link_after (take i as)) v l = Inr (Some (fresh l), l')" "holds l' (take i as @ fresh l # drop i as)"
    "value_at l' (fresh l) = v" "\<forall>a. a \<noteq> fresh l \<longrightarrow> value_at l' a = value_at l a"
    using insert_link_path[of l "take i as" "drop i as" v] assms by auto
  have "\<forall>a\<in>set as. value_at l' a = value_at l a" using assms(1) l'(4) by (auto simp: holds_def)
  then have "map (value_at l') (take i as) = map (value_at l) (take i as)" "map (value_at l') (drop i as) = map (value_at l) (drop i as)"
    by (auto dest: in_set_takeD in_set_dropD)
  then show ?thesis using l' by (intro exI[of _ l'] exI[of _ "take i as @ fresh l # drop i as"]) (simp add: take_map drop_map)
qed

lemma erase_holds:
  assumes "holds l as" "i \<le> j" "j \<le> length as"
  shows "\<exists>l' as'. erase_link (link_after (take i as)) (first_of (drop j as)) l = Some (Inr l') \<and> holds l' as' \<and>
    map (value_at l') as' = take i (map (value_at l) as) @ drop j (map (value_at l) as)"
proof -
  have "as = take i as @ take (j - i) (drop i as) @ drop j as"
    using assms(2) by (metis append_take_drop_id drop_drop le_add_diff_inverse2)
  then obtain l' where l': "erase_link (link_after (take i as)) (first_of (drop j as)) l = Some (Inr l')" "holds l' (take i as @ drop j as)"
    "\<forall>a\<in>set (take i as @ drop j as). value_at l' a = value_at l a"
    using erase_link_path[of l "take i as" "take (j - i) (drop i as)" "drop j as"] assms(1) by metis
  have "map (value_at l') (take i as @ drop j as) = map (value_at l) (take i as @ drop j as)"
    using l'(3) by (intro values_cong) blast
  then show ?thesis using l' by (intro exI[of _ l'] exI[of _ "take i as @ drop j as"]) (simp add: take_map drop_map)
qed

lemma apply_op_holds:
  assumes "holds l as" "valid_op x (map (value_at l) as)"
  shows "\<exists>l' as'. apply_op x l = Some (Inr l') \<and> holds l' as' \<and> map (value_at l') as' = list_op_of x (map (value_at l) as)"
proof (cases x)
  case (Push_front v)
  have "\<exists>l' as'. insert_link Head v l = Inr (Some (fresh l), l') \<and> holds l' as' \<and> map (value_at l') as' = v # map (value_at l) as"
    using insert_holds[OF assms(1), of 0 v] by (simp add: link_after_def)
  then show ?thesis unfolding Push_front
    by (elim exE conjE, intro exI conjI) (simp_all add: push_front_def)
next
  case (Insert_before i v)
  then have i: "i \<le> length as" using assms(2) by simp
  have p: "previous_link l (first_of (drop i as)) = Some (Inr (link_after (take i as)))"
    using previous_link_path[of l "take i as" "drop i as"] assms(1) by simp
  show ?thesis using insert_holds[OF assms(1) i, of v] Insert_before p advance_holds[OF assms(1) i]
    by (auto simp: insert_before_def)
next
  case (Erase_inclusive i j)
  then have i: "i \<le> j" "j \<le> length as" "i \<le> length as" using assms(2) by auto
  have p: "previous_link l (first_of (drop i as)) = Some (Inr (link_after (take i as)))"
    using previous_link_path[of l "take i as" "drop i as"] assms(1) by simp
  have "apply_op x l = erase_link (link_after (take i as)) (first_of (drop j as)) l"
    using Erase_inclusive p advance_holds[OF assms(1) i(3)] advance_holds[OF assms(1) i(2)] by (simp add: erase_inclusive_def)
  then show ?thesis using erase_holds[OF assms(1) i(1,2)] Erase_inclusive by simp
next
  case (Erase_exclusive i j)
  then have i: "Suc i \<le> j" "j \<le> length as" "i \<le> length as" "i < length as" using assms(2) by auto
  have "first_of (drop i as) = Some (as ! i)" using i(4) by (simp add: first_of_def flip: Cons_nth_drop_Suc)
  moreover have "link_after (take (Suc i) as) = Next (as ! i)" using i(4) by (simp add: link_after_def take_Suc_conv_app_nth)
  ultimately have "apply_op x l = erase_link (link_after (take (Suc i) as)) (first_of (drop j as)) l"
    using Erase_exclusive advance_holds[OF assms(1) i(3)] advance_holds[OF assms(1) i(2)] by (simp add: erase_exclusive_def next_link_def)
  then show ?thesis using erase_holds[OF assms(1) i(1,2)] Erase_exclusive by simp
qed

lemma apply_ops_holds:
  "holds l as \<Longrightarrow> valid_ops xs (map (value_at l) as) \<Longrightarrow>
    \<exists>l' as'. apply_ops xs l = Some (Inr l') \<and> holds l' as' \<and> map (value_at l') as' = fold list_op_of xs (map (value_at l) as)"
proof (induction xs arbitrary: l as)
  case (Cons x xs)
  obtain l1 as1 where 1: "apply_op x l = Some (Inr l1)" "holds l1 as1" "map (value_at l1) as1 = list_op_of x (map (value_at l) as)"
    using apply_op_holds[OF Cons(2), of x] Cons(3) by (simp only: valid_ops.simps) blast
  then show ?case using Cons(1)[OF 1(2)] Cons(3) by simp
qed auto

lemma holds_new: "holds new_linked []"
  by (simp add: holds_def new_linked_def)

text \<open>\<open>previous\<close> gives the position it was given, not the one before it.\<close>

lemma previous_is_position: "holds l (xs @ ys) \<Longrightarrow> previous l (first_of ys) = Some (Inr (first_of ys))"
  using deref_link[OF holds_split(1)] by (simp add: previous_def previous_link_path)

text \<open>An empty range that is given backwards takes the nodes up to the end, and past it.\<close>

lemma erase_backwards:
  "apply_ops [Push_front 1, Push_front 2, Erase_inclusive 1 0] (new_linked :: int linked) = Some (Inl Undefined)"
proof -
  have "apply_op (Push_front (1 :: int)) new_linked = Some (Inr \<lparr>store = [0 \<mapsto> \<lparr>node_value = 1, next_node = None\<rparr>], head_node = Some 0, node_count = 1, fresh = 1\<rparr>)"
    by (simp add: push_front_def insert_link_def new_linked_def deref_def put_link_def)
  moreover have "apply_op (Push_front (2 :: int)) \<lparr>store = [0 \<mapsto> \<lparr>node_value = 1, next_node = None\<rparr>], head_node = Some 0, node_count = 1, fresh = 1\<rparr> =
      Some (Inr \<lparr>store = [0 \<mapsto> \<lparr>node_value = 1, next_node = None\<rparr>, 1 \<mapsto> \<lparr>node_value = 2, next_node = Some 0\<rparr>], head_node = Some 1, node_count = 2, fresh = 2\<rparr>)"
    by (simp add: push_front_def insert_link_def deref_def put_link_def)
  moreover have "apply_op (Erase_inclusive 1 0) (\<lparr>store = [0 \<mapsto> \<lparr>node_value = 1, next_node = None\<rparr>, 1 \<mapsto> \<lparr>node_value = 2, next_node = Some 0\<rparr>], head_node = Some 1, node_count = 2, fresh = 2\<rparr> :: int linked) =
      Some (Inl Undefined)"
    by (simp add: first_iter_def iter_next_def deref_def erase_inclusive_def previous_link_def previous_loop.simps erase_link_def
        put_link_def erase_loop.simps)
  ultimately show ?thesis by simp
qed

section \<open>Properties\<close>

text \<open>C28: Any sequence of operations whose positions exist and whose ranges are not backwards returns without a fault and leaves a
  list whose elements are those of the list the operations make of the empty list, whose size is their number, and whose nodes are all the
  nodes that are allocated.\<close>

theorem linked_refines_list:
  assumes "valid_ops xs []"
  shows "\<exists>l. apply_ops xs new_linked = Some (Inr l) \<and> iterate l (first_iter l) = Some (Inr (fold list_op_of xs [])) \<and>
    linked_size l = of_nat (length (fold list_op_of xs [])) \<and> card (dom (store l)) = length (fold list_op_of xs []) \<and>
    (linked_empty l \<longleftrightarrow> fold list_op_of xs [] = [])"
proof -
  obtain l as where l: "apply_ops xs new_linked = Some (Inr l)" "holds l as" "map (value_at l) as = fold list_op_of xs []"
    using apply_ops_holds[OF holds_new, of xs] assms by auto
  have n: "length (fold list_op_of xs []) = length as" using l(3) by (metis length_map)
  have "iterate l (first_iter l) = Some (Inr (fold list_op_of xs []))"
    using iterate_path[of l _ as] l(2,3) by (simp add: holds_def first_iter_def)
  moreover have "linked_size l = of_nat (length as)" "card (dom (store l)) = length as"
    using l(2) by (auto simp: holds_def linked_size_def distinct_card)
  moreover have "linked_empty l \<longleftrightarrow> as = []" using l(2) by (cases as) (auto simp: holds_def linked_empty_def)
  moreover have "fold list_op_of xs [] = [] \<longleftrightarrow> as = []" using n by (metis length_0_conv)
  ultimately show ?thesis using l(1) n by metis
qed

definition main_ops :: "int list_op list" where
  "main_ops = [Push_front 1, Push_front 2, Push_front 3, Insert_before 3 4, Erase_exclusive 0 2]"

theorem linked_refines_list_witness:
  "\<exists>l. apply_ops main_ops new_linked = Some (Inr l) \<and> iterate l (first_iter l) = Some (Inr [3, 1, 4])"
proof -
  have "valid_ops main_ops []" by (simp add: main_ops_def)
  from linked_refines_list[OF this] show ?thesis by (auto simp: main_ops_def)
qed

end
