(* ===== verification/Ex_Smartptr.thy ===== *)
theory Ex_Smartptr
  imports Prelude
begin

text \<open>
  The reference counted pointer of \<open>exercises/smartptr.cpp\<close>. Pointers are variables of a program, numbered by their addresses; objects and
  control blocks are numbers as well, with the counts of the blocks and the objects that are alive in a store. With copies, assignments and
  destructors alone the count of a block is the number of its owners, so the object ends with its last owner, and only then. With \<open>release\<close>, which
  keeps the block of a pointer while there are other owners, the program of the file uses a block that was freed.
\<close>

section \<open>Pointers and control blocks\<close>

record smart_ptr =
  sp_object :: "nat option"
  sp_control :: "nat option"
  sp_ondelete :: "nat option"

datatype event = Destroyed nat | Deleted nat

record memory =
  counts :: "nat \<Rightarrow> u64 option"
  alive :: "nat \<Rightarrow> bool"
  next_control :: nat
  next_object :: nat
  events :: "event list"

definition new_memory :: memory where
  "new_memory = \<lparr>counts = Map.empty, alive = (\<lambda>p. False), next_control = 0, next_object = 0, events = []\<rparr>"

definition construct :: "memory \<Rightarrow> nat \<times> memory" where
  "construct h = (let c = next_control h in (c, h\<lparr>counts := (counts h)(c \<mapsto> 1), next_control := Suc c\<rparr>))"

definition count_of :: "nat option \<Rightarrow> memory \<Rightarrow> u64 outcome" where
  "count_of c h =
     (case c of None \<Rightarrow> Inl Undefined
      | Some c \<Rightarrow> (case counts h c of None \<Rightarrow> Inl Undefined | Some n \<Rightarrow> Inr n))"

definition destroy_object :: "nat option \<Rightarrow> memory \<Rightarrow> memory outcome" where
  "destroy_object p h =
     (case p of None \<Rightarrow> Inl Undefined
      | Some p \<Rightarrow> if alive h p then Inr (h\<lparr>alive := (alive h)(p := False), events := events h @ [Destroyed p]\<rparr>) else Inl Undefined)"

definition run_ondelete :: "nat option \<Rightarrow> memory \<Rightarrow> memory" where
  "run_ondelete f h = (case f of None \<Rightarrow> h | Some k \<Rightarrow> h\<lparr>events := events h @ [Deleted k]\<rparr>)"

text \<open>
  \<open>locked\<close> is the policy with a mutex in the block: the lock is given back after the block is destroyed.
\<close>

definition release_ptr :: "bool \<Rightarrow> smart_ptr \<Rightarrow> memory \<Rightarrow> (smart_ptr \<times> memory) outcome" where
  "release_ptr locked s h =
     (case sp_control s of
        None \<Rightarrow> Inr (s, h)
      | Some c \<Rightarrow>
          and_then (count_of (Some c) h) (\<lambda>n.
            if n - 1 = 0 then
              (if locked then Inl Undefined
               else and_then (destroy_object (sp_object s) (h\<lparr>counts := (counts h)(c := None)\<rparr>)) (\<lambda>h.
                 Inr (s\<lparr>sp_control := None, sp_object := None\<rparr>, run_ondelete (sp_ondelete s) h)))
            else Inr (s, h\<lparr>counts := (counts h)(c \<mapsto> n - 1)\<rparr>)))"

text \<open>Taking a share of the block of another pointer.\<close>

definition share :: "smart_ptr \<Rightarrow> memory \<Rightarrow> (smart_ptr \<times> memory) outcome" where
  "share that h =
     and_then (count_of (sp_control that) h) (\<lambda>n.
       Inr (\<lparr>sp_object = sp_object that, sp_control = sp_control that, sp_ondelete = sp_ondelete that\<rparr>,
            h\<lparr>counts := (counts h)(the (sp_control that) \<mapsto> n + 1)\<rparr>))"

text \<open>The dereference checks for null with one policy and uses the object in any case.\<close>

definition access_ptr :: "bool \<Rightarrow> smart_ptr \<Rightarrow> memory \<Rightarrow> nat outcome" where
  "access_ptr asserts s h =
     (case sp_object s of
        None \<Rightarrow> Inl (if asserts then Assertion_failed else Undefined)
      | Some p \<Rightarrow> if alive h p then Inr p else Inl Undefined)"

section \<open>Programs\<close>

type_synonym env = "nat \<Rightarrow> smart_ptr option"

datatype ptr_op =
    Make nat "nat option"
  | Copy nat nat
  | Assign nat nat
  | Release nat
  | Access nat
  | Destroy nat

definition variable :: "env \<Rightarrow> nat \<Rightarrow> smart_ptr outcome" where
  "variable env v = (case env v of None \<Rightarrow> Inl Undefined | Some s \<Rightarrow> Inr s)"

text \<open>
  \<open>Make v f\<close> is a new object with its pointer. An assignment looks at the block of the other pointer, releases its own, and reads the other again,
  which may be the same variable; with a mutex the same block cannot be locked twice.
\<close>

fun ptr_step :: "bool \<Rightarrow> ptr_op \<Rightarrow> env \<times> memory \<Rightarrow> (env \<times> memory) outcome" where
  "ptr_step locked (Make v f) (env, h) =
     (let p = next_object h;
          h = h\<lparr>alive := (alive h)(p := True), next_object := Suc p\<rparr>
      in case construct h of (c, h) \<Rightarrow> Inr (env(v \<mapsto> \<lparr>sp_object = Some p, sp_control = Some c, sp_ondelete = f\<rparr>), h))"
| "ptr_step locked (Copy v w) (env, h) =
     and_then (variable env w) (\<lambda>that.
     and_then (share that h) (\<lambda>(s, h). Inr (env(v \<mapsto> s), h)))"
| "ptr_step locked (Assign v w) (env, h) =
     and_then (variable env w) (\<lambda>that.
     and_then (count_of (sp_control that) h) (\<lambda>_.
     and_then (variable env v) (\<lambda>s.
       if locked \<and> sp_control s = sp_control that then Inl Undefined
       else and_then (release_ptr locked s h) (\<lambda>(s, h).
         and_then (variable (env(v \<mapsto> s)) w) (\<lambda>that.
         and_then (share that h) (\<lambda>(s, h). Inr (env(v \<mapsto> s), h)))))))"
| "ptr_step locked (Release v) (env, h) =
     and_then (variable env v) (\<lambda>s. and_then (release_ptr locked s h) (\<lambda>(s, h). Inr (env(v \<mapsto> s), h)))"
| "ptr_step locked (Access v) (env, h) =
     and_then (variable env v) (\<lambda>s. and_then (access_ptr False s h) (\<lambda>_. Inr (env, h)))"
| "ptr_step locked (Destroy v) (env, h) =
     and_then (variable env v) (\<lambda>s. and_then (release_ptr locked s h) (\<lambda>(_, h). Inr (env(v := None), h)))"

fun ptr_run :: "bool \<Rightarrow> ptr_op list \<Rightarrow> env \<times> memory \<Rightarrow> (env \<times> memory) outcome" where
  "ptr_run locked [] x = Inr x"
| "ptr_run locked (y # ys) x = and_then (ptr_step locked y x) (ptr_run locked ys)"

text \<open>The program of the file: \<open>b\<close> ends before \<open>a\<close>.\<close>

definition main_ops :: "ptr_op list" where
  "main_ops = [Make 0 (Some 7), Copy 1 0, Release 0, Access 1, Release 1, Destroy 1, Destroy 0]"

section \<open>Owners\<close>

definition owners :: "env \<Rightarrow> nat \<Rightarrow> nat set" where
  "owners env c = {v. \<exists>s. env v = Some s \<and> sp_control s = Some c}"

definition destroyed :: "event list \<Rightarrow> nat list" where
  "destroyed es = concat (map (\<lambda>e. case e of Destroyed p \<Rightarrow> [p] | Deleted k \<Rightarrow> []) es)"

text \<open>Addresses are below \<open>2 ^ 63\<close>, so a count does not wrap around.\<close>

definition counted :: "env \<Rightarrow> memory \<Rightarrow> bool" where
  "counted env h \<longleftrightarrow>
     dom env \<subseteq> {..<2 ^ 63} \<and>
     (\<forall>v s. env v = Some s \<longrightarrow> (\<exists>c p. sp_control s = Some c \<and> sp_object s = Some p \<and> counts h c \<noteq> None \<and> p < next_object h)) \<and>
     (\<forall>c n. counts h c = Some n \<longrightarrow> c < next_control h \<and> n = of_nat (card (owners env c)) \<and> owners env c \<noteq> {}) \<and>
     (\<forall>v w s t. env v = Some s \<and> env w = Some t \<longrightarrow> (sp_control s = sp_control t \<longleftrightarrow> sp_object s = sp_object t)) \<and>
     (\<forall>p. alive h p \<longleftrightarrow> (\<exists>v s. env v = Some s \<and> sp_object s = Some p)) \<and>
     distinct (destroyed (events h)) \<and> set (destroyed (events h)) = {p. p < next_object h \<and> \<not> alive h p}"

lemma counted_new: "counted Map.empty new_memory"
  by (auto simp: counted_def new_memory_def owners_def destroyed_def)

lemma owners_finite: "counted env h \<Longrightarrow> finite (owners env c) \<and> card (owners env c) < 2 ^ 64"
proof -
  assume "counted env h"
  then have s: "owners env c \<subseteq> {..<2 ^ 63}" by (auto simp: counted_def owners_def)
  then have "finite (owners env c)" using finite_subset by blast
  moreover have "card (owners env c) \<le> 2 ^ 63" using card_mono[OF _ s] by simp
  ultimately show ?thesis by (simp add: order_le_less_trans)
qed

lemma destroyed_append [simp]: "destroyed (es @ fs) = destroyed es @ destroyed fs"
  by (simp add: destroyed_def)

lemma destroyed_simps [simp]: "destroyed [] = []" "destroyed (Destroyed p # es) = p # destroyed es" "destroyed (Deleted k # es) = destroyed es"
  by (simp_all add: destroyed_def)

lemma owners_insert: "env v = None \<Longrightarrow> owners (env(v \<mapsto> s)) c = (if sp_control s = Some c then insert v (owners env c) else owners env c)"
  by (auto simp: owners_def)

lemma owners_remove: "owners (env(v := None)) c = owners env c - {v}"
  by (auto simp: owners_def)

lemma countedD:
  assumes "counted env h"
  shows "dom env \<subseteq> {..<2 ^ 63}"
    "env w = Some s \<Longrightarrow> \<exists>c p n. sp_control s = Some c \<and> sp_object s = Some p \<and> counts h c = Some n \<and> p < next_object h"
    "counts h c = Some n \<Longrightarrow> c < next_control h \<and> n = of_nat (card (owners env c)) \<and> owners env c \<noteq> {}"
    "env w = Some s \<Longrightarrow> env v = Some t \<Longrightarrow> (sp_control s = sp_control t \<longleftrightarrow> sp_object s = sp_object t)"
    "alive h p \<longleftrightarrow> (\<exists>v s. env v = Some s \<and> sp_object s = Some p)"
    "distinct (destroyed (events h))" "set (destroyed (events h)) = {p. p < next_object h \<and> \<not> alive h p}"
proof -
  have f: "\<forall>v s. env v = Some s \<longrightarrow> (\<exists>c p. sp_control s = Some c \<and> sp_object s = Some p \<and> counts h c \<noteq> None \<and> p < next_object h)"
    "\<forall>c n. counts h c = Some n \<longrightarrow> c < next_control h \<and> n = of_nat (card (owners env c)) \<and> owners env c \<noteq> {}"
    "\<forall>v w s t. env v = Some s \<and> env w = Some t \<longrightarrow> (sp_control s = sp_control t \<longleftrightarrow> sp_object s = sp_object t)"
    "\<forall>p. alive h p \<longleftrightarrow> (\<exists>v s. env v = Some s \<and> sp_object s = Some p)"
    and g: "dom env \<subseteq> {..<2 ^ 63}" "distinct (destroyed (events h))" "set (destroyed (events h)) = {p. p < next_object h \<and> \<not> alive h p}"
    using assms unfolding counted_def by blast+
  show "dom env \<subseteq> {..<2 ^ 63}" "distinct (destroyed (events h))" "set (destroyed (events h)) = {p. p < next_object h \<and> \<not> alive h p}"
    using g by blast+
  show "\<exists>c p n. sp_control s = Some c \<and> sp_object s = Some p \<and> counts h c = Some n \<and> p < next_object h" if "env w = Some s"
    using f(1) that by (metis option.exhaust)
  show "c < next_control h \<and> n = of_nat (card (owners env c)) \<and> owners env c \<noteq> {}" if "counts h c = Some n" using f(2) that by blast
  show "sp_control s = sp_control t \<longleftrightarrow> sp_object s = sp_object t" if "env w = Some s" "env v = Some t" using f(3) that by blast
  show "alive h p \<longleftrightarrow> (\<exists>v s. env v = Some s \<and> sp_object s = Some p)" using f(4) by blast
qed

lemma ex_update:
  assumes "env v = None"
  shows "(\<exists>x t. (env(v \<mapsto> s)) x = Some t \<and> P t) \<longleftrightarrow> P s \<or> (\<exists>x t. env x = Some t \<and> P t)"
proof
  assume "\<exists>x t. (env(v \<mapsto> s)) x = Some t \<and> P t"
  then show "P s \<or> (\<exists>x t. env x = Some t \<and> P t)" by (auto split: if_splits)
next
  have "x \<noteq> v" if "env x = Some t" for x t using assms that by auto
  then have "env x = Some t \<Longrightarrow> (env(v \<mapsto> s)) x = Some t" for x t by simp
  moreover have "(env(v \<mapsto> s)) v = Some s" by simp
  moreover assume "P s \<or> (\<exists>x t. env x = Some t \<and> P t)"
  ultimately show "\<exists>x t. (env(v \<mapsto> s)) x = Some t \<and> P t" by blast
qed

lemma counted_make:
  assumes "counted env h" "env v = None" "v < 2 ^ 63"
  shows "\<exists>env' h'. ptr_step locked (Make v f) (env, h) = Inr (env', h') \<and> counted env' h' \<and> dom env' = insert v (dom env)"
proof -
  let ?s = "\<lparr>sp_object = Some (next_object h), sp_control = Some (next_control h), sp_ondelete = f\<rparr>"
  let ?env = "env(v \<mapsto> ?s)"
  let ?h = "h\<lparr>alive := (alive h)(next_object h := True), next_object := Suc (next_object h),
    counts := (counts h)(next_control h \<mapsto> 1), next_control := Suc (next_control h)\<rparr>"
  note c = countedD[OF assms(1)]
  have new: "sp_control s \<noteq> Some (next_control h)" "sp_object s \<noteq> Some (next_object h)" if "env w = Some s" for w s
    using c(2)[OF that] c(3) by (metis less_irrefl option.inject)+
  have o: "owners env (next_control h) = {}" using new by (auto simp: owners_def)
  have dead: "\<not> alive h (next_object h)" using c(5) new by auto
  have own: "owners ?env k = (if k = next_control h then {v} else owners env k)" for k
    using owners_insert[of env v ?s k] assms(2) o by auto
  have "counted ?env ?h"
    unfolding counted_def
  proof (intro conjI allI impI)
    show "dom ?env \<subseteq> {..<2 ^ 63}" using c(1) assms(3) by auto
    show "\<exists>c p. sp_control s = Some c \<and> sp_object s = Some p \<and> counts ?h c \<noteq> None \<and> p < next_object ?h" if "?env w = Some s" for w s
      using that c(2)[of w s] by (auto split: if_splits)
    show "k < next_control ?h" "n = of_nat (card (owners ?env k))" "owners ?env k \<noteq> {}" if "counts ?h k = Some n" for k n
      using that c(3)[of k n] own[of k] by (auto split: if_splits)
    show "sp_control s = sp_control t \<longleftrightarrow> sp_object s = sp_object t" if "?env x = Some s \<and> ?env y = Some t" for x y s t
      using that c(4)[of x s y t] new[of x s] new[of y t] by (auto split: if_splits)
    show "alive ?h p \<longleftrightarrow> (\<exists>v s. ?env v = Some s \<and> sp_object s = Some p)" for p
      using ex_update[of env v, where P = "\<lambda>s. sp_object s = Some p"] assms(2) c(5)[of p] new by auto
    show "distinct (destroyed (events ?h))" using c(6) by simp
    show "set (destroyed (events ?h)) = {p. p < next_object ?h \<and> \<not> alive ?h p}" using c(7) dead by (auto simp: less_Suc_eq)
  qed
  then show ?thesis by (auto simp: construct_def Let_def)
qed

lemma counted_copy:
  assumes "counted env h" "env v = None" "v < 2 ^ 63" "w \<in> dom env"
  shows "\<exists>env' h'. ptr_step locked (Copy v w) (env, h) = Inr (env', h') \<and> counted env' h' \<and> dom env' = insert v (dom env)"
proof -
  obtain s where s: "env w = Some s" using assms(4) by auto
  note d = countedD[OF assms(1)]
  obtain c p n where cp: "sp_control s = Some c" "sp_object s = Some p" "counts h c = Some n" "p < next_object h"
    using d(2)[OF s] by blast
  let ?s = "\<lparr>sp_object = Some p, sp_control = Some c, sp_ondelete = sp_ondelete s\<rparr>"
  let ?env = "env(v \<mapsto> ?s)"
  let ?h = "h\<lparr>counts := (counts h)(c \<mapsto> n + 1)\<rparr>"
  have own: "owners ?env k = (if k = c then insert v (owners env k) else owners env k)" for k
    using owners_insert[of env v ?s k] assms(2) by auto
  have notin: "v \<notin> owners env k" for k using assms(2) by (auto simp: owners_def)
  have card: "of_nat (card (owners ?env c)) = n + 1"
    using d(3)[OF cp(3)] own[of c] notin[of c] owners_finite[OF assms(1), of c] by simp
  have "counted ?env ?h"
    unfolding counted_def
  proof (intro conjI allI impI)
    show "dom ?env \<subseteq> {..<2 ^ 63}" using d(1) assms(3) by auto
    show "\<exists>c p. sp_control t = Some c \<and> sp_object t = Some p \<and> counts ?h c \<noteq> None \<and> p < next_object ?h" if "?env u = Some t" for u t
      using that d(2)[of u t] cp by (auto split: if_splits)
    show "k < next_control ?h" "m = of_nat (card (owners ?env k))" "owners ?env k \<noteq> {}" if "counts ?h k = Some m" for k m
      using that d(3)[of k m] d(3)[OF cp(3)] own[of k] card by (auto split: if_splits)
    show "sp_control t = sp_control u \<longleftrightarrow> sp_object t = sp_object u" if xy: "?env x = Some t \<and> ?env y = Some u" for x y t u
    proof -
      have old: "\<exists>z r. env z = Some r \<and> sp_control t = sp_control r \<and> sp_object t = sp_object r" if "?env x = Some t" for x t
      proof (cases "x = v")
        case True
        then show ?thesis using that s cp(1,2) by (intro exI[of _ w] exI[of _ s]) auto
      qed (use that in auto)
      obtain z r where "env z = Some r" "sp_control t = sp_control r \<and> sp_object t = sp_object r" using old[of x t] xy by blast
      moreover obtain z' r' where "env z' = Some r'" "sp_control u = sp_control r' \<and> sp_object u = sp_object r'"
        using old[of y u] xy by blast
      ultimately show ?thesis using d(4) by metis
    qed
    show "alive ?h q \<longleftrightarrow> (\<exists>v s. ?env v = Some s \<and> sp_object s = Some q)" for q
    proof -
      have "alive h q \<longleftrightarrow> (\<exists>v s. env v = Some s \<and> sp_object s = Some q)" by (rule d(5))
      also have "\<dots> \<longleftrightarrow> (\<exists>v s. ?env v = Some s \<and> sp_object s = Some q)"
        using ex_update[of env v, where P = "\<lambda>s. sp_object s = Some q"] assms(2) s cp(2) by auto
      finally show ?thesis by simp
    qed
    show "distinct (destroyed (events ?h))" "set (destroyed (events ?h)) = {p. p < next_object ?h \<and> \<not> alive ?h p}"
      using d(6,7) by auto
  qed
  then show ?thesis using s cp by (auto simp: variable_def share_def count_of_def)
qed


lemma counted_destroy:
  assumes "counted env h" "v \<in> dom env"
  shows "\<exists>env' h'. ptr_step False (Destroy v) (env, h) = Inr (env', h') \<and> counted env' h' \<and> dom env' = dom env - {v}"
proof -
  note d = countedD[OF assms(1)]
  obtain s where s: "env v = Some s" using assms(2) by auto
  obtain c p n where cp: "sp_control s = Some c" "sp_object s = Some p" "counts h c = Some n" "p < next_object h"
    using d(2)[OF s] by blast
  let ?env = "env(v := None)"
  have vin: "v \<in> owners env c" using s cp(1) by (auto simp: owners_def)
  have n: "n = of_nat (card (owners env c))" using d(3)[OF cp(3)] by blast
  have fin: "finite (owners env c)" "card (owners env c) < 2 ^ 64" using owners_finite[OF assms(1)] by blast+
  have card: "card (owners ?env c) = card (owners env c) - 1" "0 < card (owners env c)"
    using vin fin(1) by (auto simp: owners_remove card_gt_0_iff)
  have other: "owners ?env k = owners env k" if "k \<noteq> c" for k
    using that s cp(1) by (auto simp: owners_def)
  have left: "\<exists>c p n. sp_control t = Some c \<and> sp_object t = Some p \<and> counts h c = Some n \<and> p < next_object h" if "?env u = Some t" for u t
    using that d(2)[of u t] by (auto split: if_splits)
  have pairs: "sp_control t = sp_control u \<longleftrightarrow> sp_object t = sp_object u" if "?env x = Some t" "?env y = Some u" for x y t u
    using that d(4)[of x t y u] by (auto split: if_splits)
  have n1: "n - 1 = of_nat (card (owners ?env c))" using n card by (simp add: of_nat_diff Suc_le_eq)
  show ?thesis
  proof (cases "owners ?env c = {}")
    case True
    then have "card (owners ?env c) = 0" by (metis card.empty)
    then have z: "n - 1 = 0" using n1 by simp
    let ?h = "run_ondelete (sp_ondelete s)
      (h\<lparr>counts := (counts h)(c := None), alive := (alive h)(p := False), events := events h @ [Destroyed p]\<rparr>)"
    have h: "counts ?h = (counts h)(c := None)" "alive ?h = (alive h)(p := False)" "next_control ?h = next_control h"
      "next_object ?h = next_object h" "destroyed (events ?h) = destroyed (events h) @ [p]"
      by (simp_all add: run_ondelete_def split: option.splits)
    have a: "alive h p" unfolding d(5) using s cp(2) by blast
    have nc: "sp_control t \<noteq> Some c" if "?env u = Some t" for u t using True that by (auto simp: owners_def)
    have np: "sp_object t \<noteq> Some p" if "?env u = Some t" for u t
    proof -
      have "env u = Some t" using that by (auto split: if_splits)
      then show ?thesis using d(4)[OF _ s] nc[OF that] cp(1,2) by metis
    qed
    have "counted ?env ?h"
      unfolding counted_def h
    proof (intro conjI allI impI)
      show "dom ?env \<subseteq> {..<2 ^ 63}" using d(1) by auto
      show "\<exists>c' p. sp_control t = Some c' \<and> sp_object t = Some p \<and> ((counts h)(c := None)) c' \<noteq> None \<and> p < next_object h" if "?env u = Some t" for u t
        using left[OF that] nc[OF that] by auto
      show "k < next_control h" "m = of_nat (card (owners ?env k))" "owners ?env k \<noteq> {}" if "((counts h)(c := None)) k = Some m" for k m
        using that d(3)[of k m] other[of k] by (auto split: if_splits)
      show "sp_control t = sp_control u \<longleftrightarrow> sp_object t = sp_object u" if "?env x = Some t \<and> ?env y = Some u" for x y t u
        using pairs that by blast
      show "((alive h)(p := False)) q \<longleftrightarrow> (\<exists>v s. ?env v = Some s \<and> sp_object s = Some q)" for q
      proof (cases "q = p")
        case True
        then show ?thesis using np by auto
      next
        case False
        have "alive h q \<longleftrightarrow> (\<exists>v s. env v = Some s \<and> sp_object s = Some q)" by (rule d(5))
        also have "\<dots> \<longleftrightarrow> (\<exists>v s. ?env v = Some s \<and> sp_object s = Some q)"
          using False s cp(2) by (auto split: if_splits) (metis option.inject)
        finally show ?thesis using False by simp
      qed
      have "p \<notin> set (destroyed (events h))" using a d(7) by simp
      then show "distinct (destroyed (events h) @ [p])" using d(6) by simp
      show "set (destroyed (events h) @ [p]) = {q. q < next_object h \<and> \<not> ((alive h)(p := False)) q}" using d(7) cp(4) by auto
    qed
    moreover have "ptr_step False (Destroy v) (env, h) = Inr (?env, ?h)"
      using s cp z a by (simp add: variable_def release_ptr_def count_of_def destroy_object_def)
    ultimately show ?thesis by (intro exI[of _ ?env] exI[of _ ?h]) auto
  next
    case False
    let ?h = "h\<lparr>counts := (counts h)(c \<mapsto> n - 1)\<rparr>"
    have "0 < card (owners ?env c)" using False fin(1) by (simp add: owners_remove card_gt_0_iff)
    moreover have "unat (n - 1) = card (owners ?env c)" unfolding n1 by (rule unat_of_nat_small) (use card fin(2) in simp)
    ultimately have nz: "n - 1 \<noteq> 0" by (metis less_irrefl unat_0)
    obtain w t where w: "?env w = Some t" "sp_control t = Some c" using False by (auto simp: owners_def)
    have "counted ?env ?h"
      unfolding counted_def
    proof (intro conjI allI impI)
      show "dom ?env \<subseteq> {..<2 ^ 63}" using d(1) by auto
      show "\<exists>c' p. sp_control t = Some c' \<and> sp_object t = Some p \<and> counts ?h c' \<noteq> None \<and> p < next_object ?h" if "?env u = Some t" for u t
        using left[OF that] by auto
      show "k < next_control ?h" "m = of_nat (card (owners ?env k))" "owners ?env k \<noteq> {}" if "counts ?h k = Some m" for k m
        using that d(3)[of k m] d(3)[OF cp(3)] other[of k] False n1 by (auto split: if_splits)
      show "sp_control t = sp_control u \<longleftrightarrow> sp_object t = sp_object u" if "?env x = Some t \<and> ?env y = Some u" for x y t u
        using pairs that by blast
      show "alive ?h q \<longleftrightarrow> (\<exists>v s. ?env v = Some s \<and> sp_object s = Some q)" for q
      proof -
        have ew: "env w = Some t" using w(1) by (auto split: if_splits)
        then have "sp_object t = sp_object s" using d(4)[OF _ s] w(2) cp(1) by metis
        then have "q = p \<Longrightarrow> \<exists>v s. ?env v = Some s \<and> sp_object s = Some q"
          using w(1) cp(2) by (intro exI[of _ w] exI[of _ t]) simp
        moreover have "alive h p" unfolding d(5) using s cp(2) by blast
        moreover have "(\<exists>v s. env v = Some s \<and> sp_object s = Some q) \<longleftrightarrow> (\<exists>v s. ?env v = Some s \<and> sp_object s = Some q)" if "q \<noteq> p"
        proof
          assume "\<exists>v s. env v = Some s \<and> sp_object s = Some q"
          then obtain u r where u: "env u = Some r" "sp_object r = Some q" by blast
          then have "u \<noteq> v" using that s cp(2) by auto
          then show "\<exists>v s. ?env v = Some s \<and> sp_object s = Some q" using u by (intro exI[of _ u] exI[of _ r]) simp
        next
          assume "\<exists>v s. ?env v = Some s \<and> sp_object s = Some q"
          then show "\<exists>v s. env v = Some s \<and> sp_object s = Some q" by (auto split: if_splits)
        qed
        ultimately show ?thesis using d(5)[of q] by (cases "q = p") simp_all
      qed
      show "distinct (destroyed (events ?h))" "set (destroyed (events ?h)) = {p. p < next_object ?h \<and> \<not> alive ?h p}"
        using d(6,7) by auto
    qed
    moreover have "ptr_step False (Destroy v) (env, h) = Inr (?env, ?h)"
      using s cp nz by (simp add: variable_def release_ptr_def count_of_def)
    ultimately show ?thesis by (intro exI[of _ ?env] exI[of _ ?h]) auto
  qed
qed

text \<open>An assignment from another variable is the end of the old pointer and a copy of the other.\<close>

lemma assign_is_destroy_copy:
  assumes "counted env h" "v \<in> dom env" "w \<in> dom env" "v \<noteq> w"
  shows "ptr_step False (Assign v w) (env, h) = and_then (ptr_step False (Destroy v) (env, h)) (ptr_step False (Copy v w))"
proof -
  obtain s t where s: "env v = Some s" "env w = Some t" using assms(2,3) by auto
  obtain c n where "sp_control t = Some c" "counts h c = Some n" using countedD(2)[OF assms(1) s(2)] by blast
  then have "count_of (sp_control t) h = Inr n" by (simp add: count_of_def)
  then show ?thesis
    using s assms(4) by (cases "release_ptr False s h") (auto simp: variable_def and_then_def split: sum.splits)
qed

lemma counted_assign:
  assumes "counted env h" "v \<in> dom env" "w \<in> dom env" "v \<noteq> w" "v < 2 ^ 63"
  shows "\<exists>env' h'. ptr_step False (Assign v w) (env, h) = Inr (env', h') \<and> counted env' h' \<and> dom env' = dom env"
proof -
  obtain env1 h1 where 1: "ptr_step False (Destroy v) (env, h) = Inr (env1, h1)" "counted env1 h1" "dom env1 = dom env - {v}"
    using counted_destroy[OF assms(1,2)] by blast
  have "env1 v = None" "w \<in> dom env1" using 1(3) assms(3,4) by auto
  then obtain env2 h2 where "ptr_step False (Copy v w) (env1, h1) = Inr (env2, h2)" "counted env2 h2" "dom env2 = insert v (dom env1)"
    using counted_copy[OF 1(2), of v w False] assms(5) by blast
  then show ?thesis using assign_is_destroy_copy[OF assms(1-4)] 1 assms(2) by auto
qed

lemma counted_access:
  assumes "counted env h" "v \<in> dom env"
  shows "ptr_step False (Access v) (env, h) = Inr (env, h)"
proof -
  obtain s where s: "env v = Some s" using assms(2) by auto
  obtain p where p: "sp_object s = Some p" using countedD(2)[OF assms(1) s] by blast
  have "alive h p" unfolding countedD(5)[OF assms(1)] using s p by blast
  then show ?thesis using s p by (simp add: variable_def access_ptr_def)
qed

text \<open>The programs that create, copy, assign, use and end pointers, without \<open>release\<close>, given the pointers there are.\<close>

fun disciplined :: "ptr_op list \<Rightarrow> nat set \<Rightarrow> bool" where
  "disciplined [] D \<longleftrightarrow> True"
| "disciplined (Make v f # xs) D \<longleftrightarrow> v \<notin> D \<and> v < 2 ^ 63 \<and> disciplined xs (insert v D)"
| "disciplined (Copy v w # xs) D \<longleftrightarrow> v \<notin> D \<and> v < 2 ^ 63 \<and> w \<in> D \<and> disciplined xs (insert v D)"
| "disciplined (Assign v w # xs) D \<longleftrightarrow> v \<in> D \<and> v < 2 ^ 63 \<and> w \<in> D \<and> v \<noteq> w \<and> disciplined xs D"
| "disciplined (Release v # xs) D \<longleftrightarrow> False"
| "disciplined (Access v # xs) D \<longleftrightarrow> v \<in> D \<and> disciplined xs D"
| "disciplined (Destroy v # xs) D \<longleftrightarrow> v \<in> D \<and> disciplined xs (D - {v})"

lemma counted_run:
  "counted env h \<Longrightarrow> disciplined xs (dom env) \<Longrightarrow> \<exists>env' h'. ptr_run False xs (env, h) = Inr (env', h') \<and> counted env' h'"
proof (induction xs arbitrary: env h)
  case (Cons x xs)
  have "\<exists>env' h'. ptr_step False x (env, h) = Inr (env', h') \<and> counted env' h' \<and> disciplined xs (dom env')"
  proof (cases x)
    case (Make v f)
    then show ?thesis using counted_make[OF Cons(2), of v False f] Cons(3) by fastforce
  next
    case (Copy v w)
    then show ?thesis using counted_copy[OF Cons(2), of v w False] Cons(3) by fastforce
  next
    case (Assign v w)
    then show ?thesis using counted_assign[OF Cons(2), of v w] Cons(3) by fastforce
  next
    case (Access v)
    then show ?thesis using counted_access[OF Cons(2), of v] Cons(2,3) by (auto simp del: ptr_step.simps)
  next
    case (Destroy v)
    then show ?thesis using counted_destroy[OF Cons(2), of v] Cons(3) by fastforce
  qed (use Cons(3) in simp)
  then show ?case using Cons(1) by fastforce
qed auto

section \<open>Properties\<close>

text \<open>C27: In a program without \<open>release\<close>, in which pointers are created, copied, assigned from other pointers, used and ended, nothing is used
  after its end: the program returns, an object is alive exactly as long as it has an owner, all others that were created have been destroyed,
  each once, and the count of a control block is the number of the pointers that share it.\<close>

theorem objects_live_with_owners:
  assumes "disciplined xs {}"
  shows "\<exists>env h. ptr_run False xs (Map.empty, new_memory) = Inr (env, h) \<and>
    (\<forall>p. alive h p \<longleftrightarrow> (\<exists>v s. env v = Some s \<and> sp_object s = Some p)) \<and>
    distinct (destroyed (events h)) \<and> set (destroyed (events h)) = {p. p < next_object h \<and> \<not> alive h p} \<and>
    (\<forall>c. counts h c = (if owners env c = {} then None else Some (of_nat (card (owners env c)))))"
proof -
  obtain env h where e: "ptr_run False xs (Map.empty, new_memory) = Inr (env, h)" "counted env h"
    using counted_run[OF counted_new, of xs] assms by auto
  have "counts h c = (if owners env c = {} then None else Some (of_nat (card (owners env c))))" for c
  proof (cases "counts h c")
    case None
    have "owners env c = {}"
    proof (rule ccontr)
      assume "owners env c \<noteq> {}"
      then obtain v s where s: "env v = Some s" "sp_control s = Some c" by (auto simp: owners_def)
      then show False using countedD(2)[OF e(2) s(1)] None by auto
    qed
    then show ?thesis using None by simp
  next
    case (Some n)
    then show ?thesis using countedD(3)[OF e(2) Some] by auto
  qed
  then show ?thesis using e(1) countedD(5-7)[OF e(2)] by blast
qed

theorem objects_live_with_owners_witness:
  "\<exists>env h. ptr_run False [Make 0 (Some 7), Copy 1 0, Make 2 None, Assign 0 2, Access 1, Destroy 1] (Map.empty, new_memory) = Inr (env, h) \<and>
    destroyed (events h) = [0] \<and> counts h 1 = Some 2"
proof -
  let ?xs = "[Make 0 (Some 7), Copy 1 0, Make 2 None, Assign 0 2, Access 1, Destroy 1]"
  have "disciplined ?xs {}" by simp
  from objects_live_with_owners[OF this] obtain env h where "ptr_run False ?xs (Map.empty, new_memory) = Inr (env, h)" by blast
  moreover have "ptr_run False ?xs (Map.empty, new_memory) = Inr (env, h) \<Longrightarrow> destroyed (events h) = [0] \<and> counts h 1 = Some 2"
    by (auto simp: new_memory_def construct_def variable_def share_def count_of_def release_ptr_def access_ptr_def destroy_object_def
        run_ondelete_def)
  ultimately show ?thesis by blast
qed

text \<open>The program of the file uses a control block after it was freed: the pointer that is released first keeps its block, the other frees the
  block with the object, and the end of the first looks at the count again.\<close>

theorem main_uses_freed_block:
  "ptr_run False main_ops (Map.empty, new_memory) = Inl Undefined \<and>
   (\<exists>env h. ptr_run False (butlast main_ops) (Map.empty, new_memory) = Inr (env, h) \<and> events h = [Destroyed 0, Deleted 7] \<and>
     (\<exists>s. env 0 = Some s \<and> sp_control s = Some 0) \<and> counts h 0 = None)"
  by (simp add: main_ops_def new_memory_def construct_def variable_def share_def count_of_def release_ptr_def access_ptr_def
      destroy_object_def run_ondelete_def)

text \<open>The last owner of a block with a mutex gives the lock back after the block is gone, and an assignment of the last owner to itself
  reads what it has just freed.\<close>

lemma locked_release_undefined: "ptr_run True [Make 0 None, Destroy 0] (Map.empty, new_memory) = Inl Undefined"
  by (simp add: new_memory_def construct_def variable_def count_of_def release_ptr_def)

lemma self_assignment_undefined: "ptr_run False [Make 0 None, Assign 0 0] (Map.empty, new_memory) = Inl Undefined"
  by (simp add: new_memory_def construct_def variable_def count_of_def release_ptr_def share_def destroy_object_def run_ondelete_def)

end
