(* ===== verification/Ex_Vector.thy ===== *)
theory Ex_Vector
  imports Prelude
begin

text \<open>
  The vector of \<open>course/soln_vector.cpp\<close>: an owned array of objects with a size and a capacity. An element of the array is an
  object or, after a call of its destructor, nothing. Of a vector with a capacity the operations are shown to do on the list of its first
  elements what their names say; without one \<open>push_back\<close> does not grow it.
\<close>

section \<open>The array\<close>

record 'a vec =
  vec_data :: "'a option list option"
  vec_size :: nat
  vec_capacity :: nat

definition new_vec :: "'a vec" where
  "new_vec = \<lparr>vec_data = None, vec_size = 0, vec_capacity = 0\<rparr>"

text \<open>\<open>make_unique<T[]>\<close>: objects made by the default constructor. There is room for \<open>room\<close> of them.\<close>

definition make_array :: "'a \<Rightarrow> nat \<Rightarrow> nat \<Rightarrow> 'a option list outcome" where
  "make_array dflt room n = (if room < n then Inl Terminated else Inr (replicate n (Some dflt)))"

definition slots :: "'a vec \<Rightarrow> 'a option list" where
  "slots v = (case vec_data v of None \<Rightarrow> [] | Some d \<Rightarrow> d)"

definition alive_at :: "'a option list \<Rightarrow> nat \<Rightarrow> 'a outcome" where
  "alive_at d i = and_then (checked_nth d i) (\<lambda>x. case x of None \<Rightarrow> Inl Undefined | Some y \<Rightarrow> Inr y)"

text \<open>An assignment needs an object to assign to.\<close>

definition assign_at :: "nat \<Rightarrow> 'a \<Rightarrow> 'a vec \<Rightarrow> 'a vec outcome" where
  "assign_at i x v = and_then (alive_at (slots v) i) (\<lambda>_. Inr (v\<lparr>vec_data := Some ((slots v)[i := Some x])\<rparr>))"

fun copy_objects :: "nat \<Rightarrow> 'a option list \<Rightarrow> 'a option list \<Rightarrow> 'a option list outcome" where
  "copy_objects 0 src dst = Inr dst"
| "copy_objects (Suc n) src dst =
     and_then (copy_objects n src dst) (\<lambda>dst.
     and_then (alive_at src n) (\<lambda>x.
     and_then (alive_at dst n) (\<lambda>_. Inr (dst[n := Some x]))))"

section \<open>Operations\<close>

definition subscript :: "nat \<Rightarrow> 'a vec \<Rightarrow> 'a outcome" where
  "subscript i v = alive_at (slots v) i"

definition vec_front :: "'a vec \<Rightarrow> 'a outcome" where
  "vec_front v = subscript 0 v"

text \<open>The index wraps around for the size zero.\<close>

definition vec_back :: "'a vec \<Rightarrow> 'a outcome" where
  "vec_back v = (if vec_size v = 0 then Inl Out_of_bounds else subscript (vec_size v - 1) v)"

definition reserve :: "'a \<Rightarrow> nat \<Rightarrow> nat \<Rightarrow> 'a vec \<Rightarrow> 'a vec outcome" where
  "reserve dflt room n v =
     (if vec_capacity v < n then
        and_then (make_array dflt room n) (\<lambda>temp.
        and_then (copy_objects (vec_size v) (slots v) temp) (\<lambda>temp. Inr (v\<lparr>vec_data := Some temp, vec_capacity := n\<rparr>)))
      else Inr v)"

definition push_back :: "'a \<Rightarrow> nat \<Rightarrow> 'a \<Rightarrow> 'a vec \<Rightarrow> 'a vec outcome" where
  "push_back dflt room x v =
     and_then (if vec_size v = vec_capacity v then reserve dflt room (vec_capacity v * 2) v else Inr v) (\<lambda>v.
     and_then (assign_at (vec_size v) x v) (\<lambda>v. Inr (v\<lparr>vec_size := vec_size v + 1\<rparr>)))"

text \<open>The destructor of the object at \<open>i\<close>.\<close>

definition destroy_at :: "nat \<Rightarrow> 'a vec \<Rightarrow> 'a vec outcome" where
  "destroy_at i v = and_then (alive_at (slots v) i) (\<lambda>_. Inr (v\<lparr>vec_data := Some ((slots v)[i := None])\<rparr>))"

definition resize :: "'a \<Rightarrow> nat \<Rightarrow> nat \<Rightarrow> 'a vec \<Rightarrow> 'a vec outcome" where
  "resize dflt room n v =
     and_then
       (if n \<le> vec_size v then fold (\<lambda>i r. and_then r (destroy_at i)) [n..<vec_size v] (Inr v)
        else if n \<le> vec_capacity v then fold (\<lambda>i r. and_then r (assign_at i dflt)) [vec_size v..<n] (Inr v)
        else reserve dflt room n v) (\<lambda>v.
     Inr (v\<lparr>vec_size := n\<rparr>))"

definition copy_vec :: "'a \<Rightarrow> nat \<Rightarrow> 'a vec \<Rightarrow> 'a vec outcome" where
  "copy_vec dflt room that =
     and_then (make_array dflt room (vec_capacity that)) (\<lambda>d.
     and_then (copy_objects (vec_size that) (slots that) d) (\<lambda>d.
       Inr \<lparr>vec_data = Some d, vec_size = vec_size that, vec_capacity = vec_capacity that\<rparr>))"

text \<open>The move operations swap; a new vector swaps with an empty one.\<close>

definition move_vec :: "'a vec \<Rightarrow> 'a vec \<times> 'a vec" where
  "move_vec that = (that, new_vec)"

definition move_assign :: "'a vec \<Rightarrow> 'a vec \<Rightarrow> 'a vec \<times> 'a vec" where
  "move_assign this that = (that, this)"

text \<open>The end of a vector destroys every object of its array.\<close>

definition end_vec :: "'a vec \<Rightarrow> unit outcome" where
  "end_vec v = (if None \<in> set (slots v) then Inl Undefined else Inr ())"

definition copy_assign :: "'a \<Rightarrow> nat \<Rightarrow> bool \<Rightarrow> 'a vec \<Rightarrow> 'a vec \<Rightarrow> 'a vec outcome" where
  "copy_assign dflt room same this that =
     (if same then Inr this else and_then (copy_vec dflt room that) (\<lambda>copy. and_then (end_vec this) (\<lambda>_. Inr copy)))"

fun equal_upto :: "nat \<Rightarrow> 'a vec \<Rightarrow> 'a vec \<Rightarrow> bool outcome" where
  "equal_upto 0 a b = Inr True"
| "equal_upto (Suc n) a b =
     and_then (equal_upto n a b) (\<lambda>e.
       if \<not> e then Inr False
       else and_then (subscript n a) (\<lambda>x. and_then (subscript n b) (\<lambda>y. Inr (x = y))))"

text \<open>\<open>std::equal\<close> with both ends compares the sizes first.\<close>

definition equal_vec :: "'a vec \<Rightarrow> 'a vec \<Rightarrow> bool outcome" where
  "equal_vec a b = (if vec_size a \<noteq> vec_size b then Inr False else equal_upto (vec_size a) a b)"

section \<open>Vectors as lists\<close>

definition whole :: "'a vec \<Rightarrow> bool" where
  "whole v \<longleftrightarrow> length (slots v) = vec_capacity v \<and> vec_size v \<le> vec_capacity v \<and> None \<notin> set (slots v)"

definition contents :: "'a vec \<Rightarrow> 'a list" where
  "contents v = map the (take (vec_size v) (slots v))"

lemma slots_simps [simp]: "slots (v\<lparr>vec_data := Some d\<rparr>) = d" "slots (v\<lparr>vec_size := n\<rparr>) = slots v"
  "slots (v\<lparr>vec_capacity := n\<rparr>) = slots v"
  by (simp_all add: slots_def)

lemma slot_object: "None \<notin> set d \<Longrightarrow> i < length d \<Longrightarrow> d ! i = Some (the (d ! i))"
  by (metis nth_mem option.collapse)

lemma alive_at_whole: "None \<notin> set d \<Longrightarrow> i < length d \<Longrightarrow> alive_at d i = Inr (the (d ! i))"
  using slot_object[of d i] by (cases "d ! i") (simp_all add: alive_at_def)

lemma length_contents: "whole v \<Longrightarrow> length (contents v) = vec_size v"
  by (simp add: whole_def contents_def)

lemma contents_nth: "whole v \<Longrightarrow> i < vec_size v \<Longrightarrow> contents v ! i = the (slots v ! i)"
  by (simp add: whole_def contents_def)

lemma subscript_contents: "whole v \<Longrightarrow> i < vec_size v \<Longrightarrow> subscript i v = Inr (contents v ! i)"
  by (simp add: subscript_def contents_nth) (simp add: whole_def alive_at_whole)

lemma copy_objects_whole:
  "None \<notin> set src \<Longrightarrow> None \<notin> set dst \<Longrightarrow> n \<le> length src \<Longrightarrow> n \<le> length dst \<Longrightarrow>
    copy_objects n src dst = Inr (take n src @ drop n dst)"
proof (induction n)
  case (Suc n)
  have "None \<notin> set (take n src @ drop n dst)" using Suc(2,3) by (auto dest: in_set_takeD in_set_dropD)
  then have "alive_at (take n src @ drop n dst) n = Inr (the (dst ! n))"
    using Suc(4,5) by (subst alive_at_whole) (auto simp: nth_append)
  moreover have "src ! n = Some (the (src ! n))" using Suc(2,4) by (intro slot_object) auto
  moreover have "(take n src @ drop n dst)[n := src ! n] = take (Suc n) src @ drop (Suc n) dst"
    using Suc(4,5) by (simp add: list_update_append take_Suc_conv_app_nth flip: Cons_nth_drop_Suc)
  ultimately show ?case using Suc alive_at_whole[of src n] by (metis (no_types, lifting) Suc_leD Suc_le_lessD and_then_simps(2) copy_objects.simps(2))
qed simp

lemma make_array_whole: "make_array dflt room n = Inr d \<Longrightarrow> length d = n \<and> None \<notin> set d"
  by (auto simp: make_array_def split: if_splits)

lemma reserve_whole:
  assumes "whole v" "n \<le> room"
  shows "\<exists>v'. reserve dflt room n v = Inr v' \<and> whole v' \<and> contents v' = contents v \<and> vec_size v' = vec_size v \<and>
    vec_capacity v' = max n (vec_capacity v) \<and>
    (vec_capacity v < n \<longrightarrow> slots v' = take (vec_size v) (slots v) @ replicate (n - vec_size v) (Some dflt))"
proof (cases "vec_capacity v < n")
  case True
  let ?d = "take (vec_size v) (slots v) @ replicate (n - vec_size v) (Some dflt)"
  have "copy_objects (vec_size v) (slots v) (replicate n (Some dflt)) = Inr ?d"
    using assms(1) True by (subst copy_objects_whole) (auto simp: whole_def)
  then have "reserve dflt room n v = Inr (v\<lparr>vec_data := Some ?d, vec_capacity := n\<rparr>)"
    using True assms(2) by (simp add: reserve_def make_array_def)
  then show ?thesis using True assms(1)
    by (auto simp: whole_def contents_def max_def dest: in_set_takeD)
next
  case False
  then show ?thesis using assms(1) by (simp add: reserve_def max_def)
qed

lemma assign_at_whole:
  assumes "whole v" "i < vec_capacity v"
  shows "\<exists>v'. assign_at i x v = Inr v' \<and> whole v' \<and> vec_size v' = vec_size v \<and> vec_capacity v' = vec_capacity v \<and>
    slots v' = (slots v)[i := Some x]"
proof -
  have "alive_at (slots v) i = Inr (the (slots v ! i))" using assms by (intro alive_at_whole) (auto simp: whole_def)
  then have "assign_at i x v = Inr (v\<lparr>vec_data := Some ((slots v)[i := Some x])\<rparr>)" by (simp add: assign_at_def)
  moreover have "None \<notin> set ((slots v)[i := Some x])"
    using assms(1) set_update_subset_insert[of "slots v" i "Some x"] by (auto simp: whole_def)
  ultimately show ?thesis using assms(1) by (simp add: whole_def)
qed

lemma push_back_whole:
  assumes "whole v" "0 < vec_capacity v" "2 * vec_capacity v \<le> room"
  shows "\<exists>v'. push_back dflt room x v = Inr v' \<and> whole v' \<and> contents v' = contents v @ [x] \<and> 0 < vec_capacity v' \<and>
    vec_capacity v' \<le> max (vec_capacity v) (2 * vec_size v)"
proof -
  have le: "vec_size v \<le> vec_capacity v" using assms(1) by (simp add: whole_def)
  have "\<exists>v1. (if vec_size v = vec_capacity v then reserve dflt room (vec_capacity v * 2) v else Inr v) = Inr v1 \<and>
    whole v1 \<and> contents v1 = contents v \<and> vec_size v1 = vec_size v \<and> vec_size v < vec_capacity v1 \<and>
    vec_capacity v1 \<le> max (vec_capacity v) (2 * vec_size v)"
  proof (cases "vec_size v = vec_capacity v")
    case True
    obtain w where "reserve dflt room (vec_capacity v * 2) v = Inr w" "whole w" "contents w = contents v" "vec_size w = vec_size v"
      "vec_capacity w = max (vec_capacity v * 2) (vec_capacity v)"
      using reserve_whole[OF assms(1), of "vec_capacity v * 2" room dflt] assms(3) by (auto simp: mult.commute)
    then show ?thesis using True assms(2) by (intro exI[of _ w]) simp
  next
    case False
    then show ?thesis using assms(1) le by simp
  qed
  then obtain v1 where v1: "(if vec_size v = vec_capacity v then reserve dflt room (vec_capacity v * 2) v else Inr v) = Inr v1"
    "whole v1" "contents v1 = contents v" "vec_size v1 = vec_size v" "vec_size v < vec_capacity v1"
    "vec_capacity v1 \<le> max (vec_capacity v) (2 * vec_size v)" by blast
  obtain v2 where v2: "assign_at (vec_size v1) x v1 = Inr v2" "whole v2" "vec_size v2 = vec_size v1" "vec_capacity v2 = vec_capacity v1"
    "slots v2 = (slots v1)[vec_size v1 := Some x]"
    using assign_at_whole[OF v1(2), of "vec_size v1" x] v1(4,5) by auto
  let ?v = "v2\<lparr>vec_size := vec_size v2 + 1\<rparr>"
  have s: "slots ?v = slots v2" by simp
  have l: "vec_size v1 < length (slots v1)" using v1(2,4,5) by (simp add: whole_def)
  have "contents ?v = contents v1 @ [x]"
    using l v2(3) by (simp add: contents_def s v2(5) take_Suc_conv_app_nth)
  moreover have "whole ?v" using v2 v1(4,5) s by (simp add: whole_def)
  moreover have "push_back dflt room x v = Inr ?v" unfolding push_back_def v1(1) by (simp add: v2(1) flip: v1(4))
  ultimately show ?thesis using v1(3,5,6) v2(4) by (intro exI[of _ ?v]) auto
qed

lemma resize_up_whole:
  assumes "whole v" "vec_size v < n" "n \<le> room"
  shows "\<exists>v'. resize dflt room n v = Inr v' \<and> whole v' \<and> vec_capacity v' = max n (vec_capacity v) \<and>
    contents v' = contents v @ replicate (n - vec_size v) dflt"
proof (cases "n \<le> vec_capacity v")
  case True
  have "\<exists>w. fold (\<lambda>i r. and_then r (assign_at i dflt)) [vec_size v..<m] (Inr v) = Inr w \<and> whole w \<and> vec_size w = vec_size v \<and>
      vec_capacity w = vec_capacity v \<and> take m (slots w) = take (vec_size v) (slots v) @ replicate (m - vec_size v) (Some dflt)"
    if "vec_size v \<le> m" "m \<le> n" for m
    using that
  proof (induction m rule: dec_induct)
    case base
    then show ?case using assms(1) by simp
  next
    case (step m)
    then obtain w where w: "fold (\<lambda>i r. and_then r (assign_at i dflt)) [vec_size v..<m] (Inr v) = Inr w" "whole w" "vec_size w = vec_size v"
      "vec_capacity w = vec_capacity v" "take m (slots w) = take (vec_size v) (slots v) @ replicate (m - vec_size v) (Some dflt)" by auto
    have m: "m < vec_capacity w" "m < length (slots w)" using step True w(2,4) by (auto simp: whole_def)
    obtain u where u: "assign_at m dflt w = Inr u" "whole u" "vec_size u = vec_size w" "vec_capacity u = vec_capacity w"
      "slots u = (slots w)[m := Some dflt]" using assign_at_whole[OF w(2) m(1)] by blast
    have "take (Suc m) (slots u) = take (vec_size v) (slots v) @ replicate (Suc m - vec_size v) (Some dflt)"
      using w(5) m(2) step(1) by (simp add: u(5) take_Suc_conv_app_nth Suc_diff_le replicate_append_same)
    then show ?case using w u step(1) by simp
  qed
  from this[of n] assms(2) obtain w where w: "fold (\<lambda>i r. and_then r (assign_at i dflt)) [vec_size v..<n] (Inr v) = Inr w" "whole w"
    "vec_size w = vec_size v" "vec_capacity w = vec_capacity v" "take n (slots w) = take (vec_size v) (slots v) @ replicate (n - vec_size v) (Some dflt)"
    by auto
  let ?v = "w\<lparr>vec_size := n\<rparr>"
  have "slots ?v = slots w" by (simp add: slots_def)
  then have "whole ?v" "contents ?v = contents v @ replicate (n - vec_size v) dflt"
    using w True by (auto simp: whole_def contents_def)
  then show ?thesis using True assms(2) w(1,4) by (auto simp: resize_def max_def)
next
  case False
  obtain w where w: "reserve dflt room n v = Inr w" "whole w" "vec_capacity w = max n (vec_capacity v)"
    "slots w = take (vec_size v) (slots v) @ replicate (n - vec_size v) (Some dflt)"
    using reserve_whole[OF assms(1,3), of dflt] False by auto
  let ?v = "w\<lparr>vec_size := n\<rparr>"
  have "slots ?v = slots w" by (simp add: slots_def)
  then have "whole ?v" "contents ?v = contents v @ replicate (n - vec_size v) dflt"
    using w(2-4) False assms(1,2) by (auto simp: whole_def contents_def)
  then show ?thesis using False assms(2) w(1,3) by (auto simp: resize_def)
qed


section \<open>Properties\<close>

fun push_all :: "'a \<Rightarrow> nat \<Rightarrow> 'a list \<Rightarrow> 'a vec \<Rightarrow> 'a vec outcome" where
  "push_all dflt room [] v = Inr v"
| "push_all dflt room (x # xs) v = and_then (push_back dflt room x v) (push_all dflt room xs)"

lemma push_all_whole:
  "whole v \<Longrightarrow> 0 < vec_capacity v \<Longrightarrow> 2 * (vec_capacity v + length xs) \<le> room \<Longrightarrow> vec_capacity v \<le> max c (2 * vec_size v) \<Longrightarrow>
    4 * (c + vec_size v + length xs) \<le> room \<Longrightarrow>
    \<exists>v'. push_all dflt room xs v = Inr v' \<and> whole v' \<and> contents v' = contents v @ xs \<and> vec_capacity v' \<le> max c (2 * (vec_size v + length xs))"
proof (induction xs arbitrary: v)
  case Nil
  then show ?case by simp
next
  case (Cons x xs)
  obtain w where w: "push_back dflt room x v = Inr w" "whole w" "contents w = contents v @ [x]" "0 < vec_capacity w"
    "vec_capacity w \<le> max (vec_capacity v) (2 * vec_size v)"
    using push_back_whole[OF Cons(2,3), of room dflt x] Cons(4) by auto
  have n: "vec_size w = vec_size v + 1" using length_contents[OF w(2)] length_contents[OF Cons(2)] w(3) by simp
  have cap: "vec_capacity w \<le> max c (2 * vec_size v)" using w(5) Cons(5) by simp
  have "\<exists>v'. push_all dflt room xs w = Inr v' \<and> whole v' \<and> contents v' = contents w @ xs \<and> vec_capacity v' \<le> max c (2 * (vec_size w + length xs))"
  proof (rule Cons(1)[OF w(2,4)])
    show "vec_capacity w \<le> max c (2 * vec_size w)" using cap n by simp
    show "4 * (c + vec_size w + length xs) \<le> room" using Cons(6) n by simp
    have "vec_capacity w \<le> 2 * (c + vec_size v)" using cap by simp
    then show "2 * (vec_capacity w + length xs) \<le> room" using Cons(6) by simp
  qed
  then show ?case using w(1,3) n by simp
qed

lemma equal_upto_whole: "whole a \<Longrightarrow> whole b \<Longrightarrow> n \<le> vec_size a \<Longrightarrow> n \<le> vec_size b \<Longrightarrow>
    equal_upto n a b = Inr (take n (contents a) = take n (contents b))"
proof (induction n)
  case (Suc n)
  have l: "n < length (contents a)" "n < length (contents b)" using Suc length_contents by (metis Suc_le_lessD)+
  show ?case using Suc subscript_contents[of a n] subscript_contents[of b n] l by (simp add: take_Suc_conv_app_nth)
qed simp

text \<open>A vector with a capacity is the list of its elements: pushing any values onto it appends them, with a capacity that at most doubles what is
  needed; copies have the elements of the original and are equal to it, and the end of any of them is without a fault.\<close>

theorem vector_refines_list:
  fixes dflt :: 'a
  assumes "0 < c" "4 * (c + length xs) \<le> room"
  shows "\<exists>u v w. reserve dflt room c new_vec = Inr u \<and> push_all dflt room xs u = Inr v \<and> contents v = xs \<and> vec_size v = length xs \<and>
    vec_capacity v \<le> max c (2 * length xs) \<and> (\<forall>i<length xs. subscript i v = Inr (xs ! i)) \<and>
    copy_vec dflt room v = Inr w \<and> contents w = xs \<and> equal_vec v w = Inr True \<and> end_vec v = Inr () \<and> end_vec w = Inr ()"
proof -
  have new: "whole (new_vec :: 'a vec)" "contents (new_vec :: 'a vec) = []" "vec_size (new_vec :: 'a vec) = 0"
    "vec_capacity (new_vec :: 'a vec) = 0"
    by (simp_all add: whole_def contents_def new_vec_def slots_def)
  have room: "c \<le> room" using assms(2) by simp
  obtain u where u: "reserve dflt room c new_vec = Inr u" "whole u" "contents u = []" "vec_size u = 0" "vec_capacity u = c"
    using reserve_whole[OF new(1), of c room dflt] new assms(1) room by auto
  obtain v where v: "push_all dflt room xs u = Inr v" "whole v" "contents v = xs" "vec_capacity v \<le> max c (2 * length xs)"
    using push_all_whole[OF u(2), of xs room c dflt] u assms by auto
  have n: "vec_size v = length xs" using length_contents[OF v(2)] v(3) by simp
  let ?d = "take (vec_size v) (slots v) @ drop (vec_size v) (replicate (vec_capacity v) (Some dflt))"
  let ?w = "\<lparr>vec_data = Some ?d, vec_size = vec_size v, vec_capacity = vec_capacity v\<rparr>"
  have "copy_objects (vec_size v) (slots v) (replicate (vec_capacity v) (Some dflt)) = Inr ?d"
    using v(2) by (intro copy_objects_whole) (auto simp: whole_def)
  moreover have "vec_capacity v \<le> room" using v(4) assms(2) by simp
  ultimately have w: "copy_vec dflt room v = Inr ?w" by (simp add: copy_vec_def make_array_def)
  have s: "slots ?w = ?d" by (simp add: slots_def)
  have ww: "whole ?w" using v(2) unfolding whole_def s by (auto dest: in_set_takeD)
  have cw: "contents ?w = xs" using v(2,3) unfolding contents_def s by (simp add: whole_def)
  have "equal_vec v ?w = Inr True"
    using equal_upto_whole[OF v(2) ww, of "vec_size v"] v(3) cw by (simp add: equal_vec_def)
  moreover have "end_vec v = Inr ()" "end_vec ?w = Inr ()" using v(2) ww by (auto simp: end_vec_def whole_def)
  moreover have "\<forall>i<length xs. subscript i v = Inr (xs ! i)" using subscript_contents[OF v(2)] n v(3) by simp
  ultimately show ?thesis using u(1) v w cw n by blast
qed

theorem vector_refines_list_witness:
  "\<exists>u v. reserve 0 100 1 new_vec = Inr u \<and> push_all 0 100 [5, 6, 7 :: int] u = Inr v \<and> contents v = [5, 6, 7] \<and> vec_capacity v \<le> 6"
proof -
  have "0 < (1 :: nat)" "4 * (1 + length [5, 6, 7 :: int]) \<le> 100" by simp_all
  from vector_refines_list[OF this, of 0] show ?thesis by auto
qed

text \<open>Without a capacity \<open>push_back\<close> reserves twice nothing and writes where there is no array, and a vector that was made smaller destroys
  the objects behind its new size again at its end.\<close>

lemma push_back_on_empty_faults:
  "push_back dflt room x new_vec = Inl Out_of_bounds \<and>
   (0 < room \<longrightarrow> and_then (resize dflt room 1 new_vec) (\<lambda>v. and_then (resize dflt room 0 v) end_vec) = Inl Undefined)"
  by (simp add: push_back_def reserve_def new_vec_def assign_at_def slots_def alive_at_def resize_def make_array_def destroy_at_def end_vec_def)

end
