(* ===== verification/Spec2Isabelle.thy ===== *)
theory Spec2Isabelle
  imports Prelude Ceres_Bits Ceres_Endian Ceres_Hash Ceres_Encoding Ceres_Memory Ceres_Freelist
    Ceres_State Ctl_Error Core_Signal Binary_Heap Core_Queues Ceres_Stream
    Ex_Ring Ex_Cache Ex_Bst Ex_Memory Ex_Gap Clip_Server Clip_Socket Clip_Message
    Ex_Graph Ex_Dijkstra Ex_Mofunction Ex_Coroutine
    Ex_Tiles Leet_Permutations Leet_Arrays Leet_Strings Ex_Trees Ex_Rpc Ex_Crypto Ex_Signal Ex_Transaction Ex_Bitstream
    Ex_Bounded Ex_Cards Ex_Compounds Ex_Nth Ex_Strings Ex_Logstream Ex_Video Ex_Linked Ex_Smartptr Ex_Vector
begin

text \<open>
  This development models the core of the repository, a collection of C++ libraries and exercises,
  and proves the properties that make its parts correct, or shows where the code departs from what it
  means to do. Every definition is translated from the file that the theory names.

  The conventions are in \<^theory_text>\<open>Prelude\<close>. Integers have the width the code gives them. An operation that
  may go wrong returns an \<open>outcome\<close>: a value, or the fault that stops it, which is a failed assertion
  (in a debug build only, the argument \<open>debug\<close>), an access out of bounds, undefined behaviour, an
  exception or divergence. Objects that the code shares through pointers live in a map from addresses.
  What comes from outside the repository (the system calls, the C library, a JSON library, the
  functions a template is instantiated with) is an argument.

  The libraries of the repository:

  \<^item> \<open>ceres/src/\<close>, a runtime library. \<^theory_text>\<open>Ceres_Bits\<close> holds the bit intrinsics and compile-time
    constants (\<open>core/bits.hpp\<close>, \<open>core/types.hpp\<close>), \<^theory_text>\<open>Ceres_Endian\<close> byte order (\<open>data/endian.hpp\<close>),
    \<^theory_text>\<open>Ceres_Hash\<close> hashes and names, \<^theory_text>\<open>Ceres_Memory\<close> buffers and alignment (\<open>memory/core.hpp\<close>),
    \<^theory_text>\<open>Ceres_Freelist\<close> the allocators, whose contract with a client is the locale \<open>item_allocator\<close>,
    interpreted on each of them, \<^theory_text>\<open>Ceres_Encoding\<close> the tagged encoding of values, \<^theory_text>\<open>Ceres_Stream\<close> the
    streams over the byte mappings of \<open>data/map.hpp\<close> (locale \<open>byte_mapper\<close>) and \<^theory_text>\<open>Ceres_State\<close> the state
    machines of \<open>state/state.hpp\<close>, refined to their transition function.
  \<^item> \<open>core/\<close>, a library for concurrent programs. \<^theory_text>\<open>Core_Queues\<close> has the locked queue as a relation of
    steps of its threads with reachability and invariants, the counted queue and the stable priority
    queue over a binary heap (\<^theory_text>\<open>Binary_Heap\<close>, locale \<open>strict_weak_order\<close>); \<^theory_text>\<open>Core_Signal\<close> signals and slots as a network
    of objects that point at one another, with the termination of an emission.
  \<^item> \<open>error/\<close>, in \<^theory_text>\<open>Ctl_Error\<close>: the packed error codes, the two error domains with their ring of
    incidents (locale \<open>incident_log\<close>), the tables of conditions and the stable hash.

  The exercises with a program of their own:

  \<^item> \<^theory_text>\<open>Ex_Ring\<close> (two ring buffers, locale \<open>sliding_window\<close>), \<^theory_text>\<open>Ex_Cache\<close> (two caches) and \<^theory_text>\<open>Ex_Bst\<close> (a
    binary search tree over an explicit store, refined to trees).
  \<^item> \<^theory_text>\<open>Clip_Server\<close>: the clipboard server of \<open>exercises/clipserver/Server\<close>, its accounts, tokens,
    connections and pending requests, a handler per message and the life of its connections as a
    relation of steps with an invariant.
  \<^item> \<^theory_text>\<open>Clip_Socket\<close> and \<^theory_text>\<open>Clip_Message\<close>: the same program's sockets over a record of system calls, with the
    laws a stream socket keeps, and its messages over a record of the JSON library, from the fields of a
    message to the bytes on the wire and back.
  \<^item> \<^theory_text>\<open>Ex_Gap\<close>: the translation of sequence numbers around gaps (\<open>gapcontrol.cpp\<close>), refined to the history
    of its packets, with the tests of the program evaluated.
  \<^item> \<^theory_text>\<open>Ex_Memory\<close>: the allocators of \<open>memory.cpp\<close>, one over the bytes of its block, one over a heap of free
    blocks whose blocks tile the arena, and a factory of objects.
  \<^item> \<^theory_text>\<open>Ex_Graph\<close> and \<^theory_text>\<open>Ex_Dijkstra\<close>: the sparse graph of \<open>graph.cpp\<close>, its traversal with a stack or a queue (locale
    \<open>fringe\<close>), which visits what is reachable, and the shortest paths of \<open>dijkstra.cpp\<close>.
  \<^item> \<^theory_text>\<open>Ex_Mofunction\<close>: the type-erased function object of \<open>move-only-function.cpp\<close> over a heap of typed cells.
  \<^item> \<^theory_text>\<open>Ex_Coroutine\<close>: the scope of detached tasks of \<open>minimal-coroutine.cpp\<close> as a relation of atomic steps, its
    event loop refined to a queue, and the results of its tasks.
  \<^item> \<^theory_text>\<open>Ex_Tiles\<close>: the board of \<open>tiles.cpp\<close>, on which a tile is put where a corner of it fits, with its rotations.
  \<^item> \<^theory_text>\<open>Leet_Permutations\<close>, \<^theory_text>\<open>Leet_Arrays\<close>, \<^theory_text>\<open>Leet_Strings\<close> and \<^theory_text>\<open>Ex_Trees\<close>: the programs of \<open>exercises/leetcode\<close> and
    the programs on trees, each shown equal to what its name promises: the next permutation, all combinations,
    medians, unions of intervals, the longest substring and palindrome, a stack with its minimum, heights,
    cousins and the order of a search tree.
  \<^item> \<^theory_text>\<open>Ex_Rpc\<close>: the calls of \<open>rpc2.cpp\<close> from a device to the services of a server, whose actors, dispatcher and
    channels are a relation of steps with an invariant and a measure, and its fibers.
  \<^item> \<^theory_text>\<open>Ex_Crypto\<close>: \<open>crypto.cpp\<close> over a record of the OpenSSL functions it calls: base64, passwords and their
    bytes, the loops that feed a cipher, and a password sent under RSA.
  \<^item> \<^theory_text>\<open>Ex_Signal\<close>: the signals of \<open>exercises/signal\<close>, its type lists, switchboards and the life of its connections.
  \<^item> \<^theory_text>\<open>Ex_Transaction\<close>: the transactions of \<open>exercises/shared-memory\<close> on the fields of a shared component, with the loop
    of its threads as a relation of atomic steps, an invariant of its dirty bits and a schedule that loses a commit.
  \<^item> \<^theory_text>\<open>Ex_Bitstream\<close>: the reader of bits of \<open>bitstream.cpp\<close> and its fields.
  \<^item> \<^theory_text>\<open>Ex_Bounded\<close>: the bounded queue of \<open>concurrent.cpp\<close>, whose threads take tickets and spin, as a relation of single accesses
    with an invariant, the absence of races at its buffer and progress; its variant with a mutex is refined to a list.
  \<^item> \<^theory_text>\<open>Ex_Cards\<close>: the two implementations of \<open>cards.cpp\<close>, shown to return the order of the permutation of a round.
  \<^item> \<^theory_text>\<open>Ex_Compounds\<close>: the trie of \<open>compounds.cpp\<close>, refined to a set of words, and the search for words made of words.
  \<^item> \<^theory_text>\<open>Ex_Nth\<close>: the tree of \<open>remove-nth.cpp\<close>, refined to the list of the values left.
  \<^item> \<^theory_text>\<open>Ex_Strings\<close>: the functions of \<open>string.cpp\<close>: numbers, counts, the words of a text, permutations and a bucket sort.
  \<^item> \<^theory_text>\<open>Ex_Logstream\<close>: the log streams of \<open>logstream/\<close>, a tree of names whose streams point at the nearest requested prefix, and
    messages that go to a stream and its ancestors.
  \<^item> \<^theory_text>\<open>Ex_Video\<close>: the reader of \<open>y4m.cpp\<close>, from the formatted input of a stream to the frames in a device buffer, and the units
    of an encoded stream.
  \<^item> \<^theory_text>\<open>Ex_Linked\<close>: the list of \<open>linkedlist.cpp\<close> over a store of nodes, refined to lists; \<^theory_text>\<open>Ex_Smartptr\<close>: the reference counted pointer of
    \<open>smartptr.cpp\<close> and the owners of its objects; \<^theory_text>\<open>Ex_Vector\<close>: the vector of \<open>course/soln_vector.cpp\<close>.

  Bounds. Loops that the code runs over its data are recursions over that data. An emission of a signal
  has fuel, and \<open>emission_termination\<close> shows that fuel above the rank of the signal is enough when forwarding is
  acyclic. A search in the tree of \<^theory_text>\<open>Ex_Bst\<close>, \<open>log2\<close>, the
  loop of a traversal, the way back of a shortest path, the walk over the free blocks of
  \<^theory_text>\<open>Ex_Memory\<close>, the loop over the combinations, the loops of \<^theory_text>\<open>Ex_Crypto\<close>, \<^theory_text>\<open>Ex_Bitstream\<close> and
  \<^theory_text>\<open>Ex_Cards\<close>, the search of \<^theory_text>\<open>Ex_Compounds\<close>, the loop over the frames of
  \<^theory_text>\<open>Ex_Video\<close>, the way to the root in \<^theory_text>\<open>Ex_Logstream\<close>, the construction of the tree of \<^theory_text>\<open>Ex_Nth\<close> (which does not end for an empty list), the way back up of the traversals without a stack in
  \<^theory_text>\<open>Ex_Trees\<close> and the loop that sends a message are partial functions, whose
  result is an option, and the theorems about them show that they return.

  Not modelled: pure input and output, main programs that print demonstrations, template metaprograms
  with no run-time content, the remaining exercises, and code for libraries that are not in the
  repository (Qt, OGRE, OpenSSL, GTK). The manifest lists them.
\<close>

end
